(* ===== verification/Prelude.thy ===== *)
theory Prelude
  imports Main "HOL-Library.Word" "HOL-Library.Multiset"
begin

text \<open>
  The prelude of the development: the machine integers of the C sources, the way an error
  path is a value, the byte-addressed memory with its little-endian accessors, and the
  arithmetic lemmas on words (alignment, truncation, absence of wrap-around) that the
  component theories share. The constants of \<^verbatim>\<open>common.h\<close> are here too, because both
  boot stages include that header.
\<close>

unbundle bit_operations_syntax

subsection \<open>Machine integers\<close>

type_synonym u8 = "8 word"
type_synonym u16 = "16 word"
type_synonym u32 = "32 word"
type_synonym u64 = "64 word"

subsection \<open>Error paths as values\<close>

text \<open>
  In stage 1 every failure goes through \<^verbatim>\<open>error\<close> or \<^verbatim>\<open>error_with_status\<close>, which print a
  message and leave the program. In stage 2 a failure executes \<^verbatim>\<open>hlt\<close> with interrupts
  disabled, so control does not come back. \<open>Out_of_bounds\<close> marks an access outside the
  object the C code points into (undefined behaviour): showing that an operation never
  yields it is a memory-safety statement. \<open>Page_fault\<close> is an access to a virtual address that the
  page tables do not translate.
\<close>

datatype err =
    Error string
  | Error_with_status string u64
  | Hlt
  | Out_of_bounds
  | Page_fault

type_synonym 'a res = "err + 'a"

definition bindr :: "'a res \<Rightarrow> ('a \<Rightarrow> 'b res) \<Rightarrow> 'b res" where
  "bindr m f = (case m of Inl e \<Rightarrow> Inl e | Inr x \<Rightarrow> f x)"

text \<open>
  The same for loops that may not return: \<open>None\<close> is a run that never ends.
\<close>

definition bindo :: "'a res option \<Rightarrow> ('a \<Rightarrow> 'b res option) \<Rightarrow> 'b res option" where
  "bindo m f = Option.bind m (\<lambda>r. case r of Inl e \<Rightarrow> Some (Inl e) | Inr x \<Rightarrow> f x)"

text \<open>A bounds-checked array read and write.\<close>

definition arr_get :: "'a list \<Rightarrow> nat \<Rightarrow> 'a res" where
  "arr_get xs i = (if i < length xs then Inr (xs ! i) else Inl Out_of_bounds)"

definition arr_set :: "'a list \<Rightarrow> nat \<Rightarrow> 'a \<Rightarrow> 'a list res" where
  "arr_set xs i v = (if i < length xs then Inr (xs[i := v]) else Inl Out_of_bounds)"

subsection \<open>Constants of common.h\<close>

definition PARA_SIZE :: u32 where "PARA_SIZE = 0x10"
definition KIBYTE :: u32 where "KIBYTE = 1024"
definition HKIBYTE :: u32 where "HKIBYTE = 512"
definition BMEM_MAX_ADDR :: u64 where "BMEM_MAX_ADDR = 0x100000"

definition MAGIC32 :: "char \<Rightarrow> char \<Rightarrow> char \<Rightarrow> char \<Rightarrow> u32" where
  "MAGIC32 a b c d =
     of_char a OR push_bit 8 (of_char b) OR push_bit 16 (of_char c) OR push_bit 24 (of_char d)"

definition E820_RAM :: u32 where "E820_RAM = 1"
definition E820_RESERVED :: u32 where "E820_RESERVED = 2"
definition E820_ACPI :: u32 where "E820_ACPI = 3"
definition E820_NVS :: u32 where "E820_NVS = 4"
definition E820_UNUSABLE :: u32 where "E820_UNUSABLE = 5"
definition E820_DISABLED :: u32 where "E820_DISABLED = 6"
definition E820_PMEM :: u32 where "E820_PMEM = 7"

subsection \<open>Byte-addressed memory\<close>

type_synonym mem = "nat \<Rightarrow> u8"

definition get_bytes :: "mem \<Rightarrow> nat \<Rightarrow> nat \<Rightarrow> u8 list" where
  "get_bytes m a n = map m [a..<a + n]"

definition put_bytes :: "mem \<Rightarrow> nat \<Rightarrow> u8 list \<Rightarrow> mem" where
  "put_bytes m a bs = (\<lambda>i. if a \<le> i \<and> i < a + length bs then bs ! (i - a) else m i)"

primrec le_bytes :: "nat \<Rightarrow> 'a::len word \<Rightarrow> u8 list" where
  "le_bytes 0 w = []"
| "le_bytes (Suc n) w = ucast w # le_bytes n (drop_bit 8 w)"

primrec le_word :: "u8 list \<Rightarrow> 'a::len word" where
  "le_word [] = 0"
| "le_word (b # bs) = ucast b OR push_bit 8 (le_word bs)"

definition rd16 :: "mem \<Rightarrow> nat \<Rightarrow> u16" where "rd16 m a = le_word (get_bytes m a 2)"
definition rd32 :: "mem \<Rightarrow> nat \<Rightarrow> u32" where "rd32 m a = le_word (get_bytes m a 4)"
definition rd64 :: "mem \<Rightarrow> nat \<Rightarrow> u64" where "rd64 m a = le_word (get_bytes m a 8)"
definition wr16 :: "mem \<Rightarrow> nat \<Rightarrow> u16 \<Rightarrow> mem" where "wr16 m a w = put_bytes m a (le_bytes 2 w)"
definition wr32 :: "mem \<Rightarrow> nat \<Rightarrow> u32 \<Rightarrow> mem" where "wr32 m a w = put_bytes m a (le_bytes 4 w)"
definition wr64 :: "mem \<Rightarrow> nat \<Rightarrow> u64 \<Rightarrow> mem" where "wr64 m a w = put_bytes m a (le_bytes 8 w)"

subsection \<open>Lemmas on error values\<close>

named_theorems res_simps \<open>success and failure of the error-value combinators\<close>

lemma bindr_Inl [simp]: "bindr (Inl e) f = Inl e"
  and bindr_Inr [simp]: "bindr (Inr x) f = f x"
  by (simp_all add: bindr_def)

lemma bindr_eq_Inr [res_simps]: "bindr m f = Inr y \<longleftrightarrow> (\<exists>x. m = Inr x \<and> f x = Inr y)"
  by (cases m) auto

lemma bindr_eq_Inl [res_simps]:
  "bindr m f = Inl e \<longleftrightarrow> m = Inl e \<or> (\<exists>x. m = Inr x \<and> f x = Inl e)"
  by (cases m) auto

lemma bindr_cong [fundef_cong]:
  "m = m' \<Longrightarrow> (\<And>x. m' = Inr x \<Longrightarrow> f x = g x) \<Longrightarrow> bindr m f = bindr m' g"
  by (cases m') auto

lemma bindo_simps [simp]:
  "bindo None f = None" "bindo (Some (Inl e)) f = Some (Inl e)" "bindo (Some (Inr x)) f = f x"
  by (simp_all add: bindo_def)

lemma bindo_mono [partial_function_mono]:
  assumes "mono_option B" and "\<And>y. mono_option (\<lambda>f. C y f)"
  shows "mono_option (\<lambda>f. bindo (B f) (\<lambda>y. C y f))"
  unfolding bindo_def
proof (rule bind_mono [OF assms(1)])
  fix r :: "err + 'c"
  show "mono_option (\<lambda>f. case r of Inl e \<Rightarrow> Some (Inl e) | Inr x \<Rightarrow> C x f)"
    using assms(2) by (cases r) (simp_all add: option.const_mono)
qed

lemma arr_get_ok [simp]: "i < length xs \<Longrightarrow> arr_get xs i = Inr (xs ! i)"
  by (simp add: arr_get_def)

lemma arr_set_ok [simp]: "i < length xs \<Longrightarrow> arr_set xs i v = Inr (xs[i := v])"
  by (simp add: arr_set_def)

lemma arr_get_eq_Inr [res_simps]: "arr_get xs i = Inr v \<longleftrightarrow> i < length xs \<and> xs ! i = v"
  by (auto simp: arr_get_def)

lemma arr_set_eq_Inr [res_simps]: "arr_set xs i v = Inr ys \<longleftrightarrow> i < length xs \<and> ys = xs[i := v]"
  by (auto simp: arr_set_def)

lemma arr_get_eq_Inl [res_simps]:
  "arr_get xs i = Inl e \<longleftrightarrow> length xs \<le> i \<and> e = Out_of_bounds"
  by (auto simp: arr_get_def)

subsection \<open>Lemmas on memory\<close>

lemma length_get_bytes [simp]: "length (get_bytes m a n) = n"
  by (simp add: get_bytes_def)

lemma length_le_bytes [simp]: "length (le_bytes n w) = n"
  by (induction n arbitrary: w) auto

lemma get_bytes_cong: "(\<And>i. a \<le> i \<Longrightarrow> i < a + n \<Longrightarrow> m i = m' i) \<Longrightarrow> get_bytes m a n = get_bytes m' a n"
  by (simp add: get_bytes_def)

lemma get_bytes_four: "get_bytes m a 4 = [m a, m (a + 1), m (a + 2), m (a + 3)]"
  by (simp add: get_bytes_def numeral_eq_Suc)

lemma get_put_same [simp]: "n = length bs \<Longrightarrow> get_bytes (put_bytes m a bs) a n = bs"
  by (rule nth_equalityI) (auto simp: get_bytes_def put_bytes_def)

lemma get_put_within:
  "a \<le> b \<Longrightarrow> b + n \<le> a + length bs \<Longrightarrow>
     get_bytes (put_bytes m a bs) b n = take n (drop (b - a) bs)"
  by (rule nth_equalityI) (auto simp: get_bytes_def put_bytes_def)

lemma get_put_disjoint:
  "a + length bs \<le> b \<or> b + n \<le> a \<Longrightarrow> get_bytes (put_bytes m a bs) b n = get_bytes m b n"
  by (rule get_bytes_cong) (auto simp: put_bytes_def)

lemma put_put_append: "b = a + length xs \<Longrightarrow> put_bytes (put_bytes m a xs) b ys = put_bytes m a (xs @ ys)"
  by (rule ext) (auto simp: put_bytes_def nth_append)

lemma get_bytes_part: "j + k \<le> n \<Longrightarrow> get_bytes m (a + j) k = take k (drop j (get_bytes m a n))"
  by (rule nth_equalityI) (auto simp: get_bytes_def add.assoc)

lemma le_word_le_bytes: "(le_word (le_bytes n w) :: 'a::len word) = take_bit (8 * n) w"
proof (induction n arbitrary: w)
  case 0
  show ?case by simp
next
  case (Suc n)
  have "ucast (ucast w :: u8) = take_bit 8 w"
    by (rule bit_word_eqI) (auto simp: bit_simps)
  moreover have "take_bit 8 w OR push_bit 8 (take_bit (8 * n) (drop_bit 8 w)) = take_bit (8 * Suc n) w"
    by (rule bit_word_eqI) (auto simp: bit_simps)
  ultimately show ?case by (simp add: Suc.IH)
qed

lemma rd32_wr32_same [simp]: "rd32 (wr32 m a w) a = w"
  by (simp add: rd32_def wr32_def le_word_le_bytes take_bit_word_eq_self)

lemma rd64_wr64_same [simp]: "rd64 (wr64 m a w) a = w"
  by (simp add: rd64_def wr64_def le_word_le_bytes take_bit_word_eq_self)

lemma rd16_wr16_same [simp]: "rd16 (wr16 m a w) a = w"
  by (simp add: rd16_def wr16_def le_word_le_bytes take_bit_word_eq_self)

lemma get_bytes_wr:
  "a + 2 \<le> b \<or> b + n \<le> a \<Longrightarrow> get_bytes (wr16 m a v16) b n = get_bytes m b n"
  "a + 4 \<le> b \<or> b + n \<le> a \<Longrightarrow> get_bytes (wr32 m a v32) b n = get_bytes m b n"
  "a + 8 \<le> b \<or> b + n \<le> a \<Longrightarrow> get_bytes (wr64 m a v64) b n = get_bytes m b n"
  by (simp_all add: wr16_def wr32_def wr64_def get_put_disjoint)

subsection \<open>Alignment and truncation\<close>

lemma unat_and_neg_exp:
  fixes x :: "'a::len word"
  assumes "k < LENGTH('a)"
  shows "unat (x AND - (2 ^ k)) = unat x div 2 ^ k * 2 ^ k"
proof -
  have "x AND - (2 ^ k) = push_bit k (drop_bit k x)"
    by (rule bit_word_eqI) (auto simp: bit_simps minus_exp_eq_not_mask)
  moreover have "unat x div 2 ^ k * 2 ^ k < 2 ^ LENGTH('a)"
    by (rule le_less_trans [OF div_times_less_eq_dividend]) (rule unsigned_less)
  ultimately show ?thesis
    by (simp only: unsigned_push_bit_eq unsigned_drop_bit_eq)
      (simp add: push_bit_eq_mult drop_bit_eq_div take_bit_eq_mod)
qed

lemma word_of_exp:
  fixes a :: "'a::len word"
  assumes "unat a = 2 ^ k"
  shows "a = 2 ^ k"
proof -
  have "a = word_of_nat (unat a)" by simp
  then show ?thesis unfolding assms by simp
qed

lemma word_of_unat: "unat x = n \<Longrightarrow> x = word_of_nat n"
  by auto

lemma unat_exp: "k < LENGTH('a) \<Longrightarrow> unat (2 ^ k :: 'a::len word) = 2 ^ k"
  using unat_of_nat [of "2 ^ k", where ?'a = 'a] by (simp add: power_strict_increasing)

lemma unat_ucast_up: "LENGTH('a) \<le> LENGTH('b) \<Longrightarrow> unat (ucast (x::'a::len word) :: 'b::len word) = unat x"
proof -
  assume "LENGTH('a) \<le> LENGTH('b)"
  then have "unat x < 2 ^ LENGTH('b)"
    by (rule less_le_trans [OF unsigned_less power_increasing]) simp
  then show ?thesis
    by (simp add: unsigned_ucast_eq take_bit_nat_eq_self_iff)
qed

lemma unat_ucast_down: "unat (x::'a::len word) < 2 ^ LENGTH('b) \<Longrightarrow> unat (ucast x :: 'b::len word) = unat x"
  by (simp add: unsigned_ucast_eq unsigned_take_bit_eq take_bit_nat_eq_self_iff)

lemma unat_lt: "unat (x::'a::len word) < 2 ^ LENGTH('a)"
  by (rule unsigned_less)

lemma div_times_le: "(a::nat) div b * b \<le> a"
  by (rule div_times_less_eq_dividend)

lemma div_times_gt: "0 < b \<Longrightarrow> (a::nat) < a div b * b + b"
  by (metis div_mod_decomp mod_less_divisor nat_add_left_cancel_less)

lemma div_times_mono: "(a::nat) \<le> b \<Longrightarrow> a div c * c \<le> b div c * c"
  by (simp add: div_le_mono)

lemma div_times_ge_dvd: "c dvd a \<Longrightarrow> (a::nat) \<le> b \<Longrightarrow> a \<le> b div c * c"
  by (metis div_times_mono dvd_div_mult_self)

lemma all_ge_Suc: "P n \<Longrightarrow> (\<forall>i. n \<le> i \<longrightarrow> P i) \<longleftrightarrow> (\<forall>i. Suc n \<le> i \<longrightarrow> P i)"
  by (metis Suc_leD le_antisym not_less_eq_eq)

lemma unat_sub_noborrow: "b \<le> a \<Longrightarrow> unat (a - b :: 'a::len word) = unat a - unat b"
  by (rule unat_sub)

lemma unat_add_nowrap:
  "unat a + unat b < 2 ^ LENGTH('a) \<Longrightarrow> unat (a + b :: 'a::len word) = unat a + unat b"
  by (rule unat_add_lem [THEN iffD1])

end
