(* ===== verification/Util.thy ===== *)
theory Util
  imports Prelude
begin

text \<open>
  The shared helpers of stage 1: \<^verbatim>\<open>stage1/util.c\<close> (byte comparison, checksums, fetching the
  memory map), the bit vectors and the segment conversion of \<^verbatim>\<open>stage1/stage1.h\<close>, and the PCI
  identifier accessors of \<^verbatim>\<open>pci.h\<close>. A buffer argument is the list of the bytes it points to,
  or an address in the byte memory where the code writes through the pointer.
\<close>

unbundle bit_operations_syntax

subsection \<open>memcmp\<close>

fun memcmp :: "u8 list \<Rightarrow> u8 list \<Rightarrow> nat \<Rightarrow> int res" where
  "memcmp p1 p2 0 = Inr 0"
| "memcmp (c1 # p1) (c2 # p2) (Suc n) =
     (if c1 < c2 then Inr (- 1) else if c1 > c2 then Inr 1 else memcmp p1 p2 n)"
| "memcmp _ _ (Suc n) = Inl Out_of_bounds"

subsection \<open>Checksums\<close>

fun cksum_loop :: "u8 list \<Rightarrow> u8 \<Rightarrow> u8" where
  "cksum_loop [] cksum = cksum"
| "cksum_loop (b # p) cksum = cksum_loop p (cksum - b)"

definition compute_cksum :: "u8 list \<Rightarrow> u8" where
  "compute_cksum buf = cksum_loop buf 0"

definition update_cksum :: "mem \<Rightarrow> nat \<Rightarrow> nat \<Rightarrow> nat \<Rightarrow> mem" where
  "update_cksum m buf n p_cksum =
     (let m0 = m(p_cksum := 0);
          cksum = compute_cksum (get_bytes m0 buf n)
      in m0(p_cksum := cksum))"

subsection \<open>The UEFI memory map\<close>

text \<open>The fields of an \<^verbatim>\<open>EFI_MEMORY_DESCRIPTOR\<close> that the code reads.\<close>

record mem_desc =
  Type :: u32
  PhysicalStart :: u64
  NumberOfPages :: u64
  Attribute :: u64

text \<open>\<open>descs\<close> is what the library call \<^verbatim>\<open>LibMemoryMap\<close> returned, \<open>None\<close> for a null pointer.\<close>

definition get_mem_map :: "mem_desc list option \<Rightarrow> mem_desc list res" where
  "get_mem_map descs =
     (case descs of
        None \<Rightarrow> Inl (Error ''cannot get mem. map!'')
      | Some ds \<Rightarrow> if ds = [] then Inl (Error ''cannot get mem. map!'') else Inr ds)"

subsection \<open>Bit vectors\<close>

type_synonym bvec = "u32 list"

definition bvec_zero :: "nat \<Rightarrow> bvec" where
  "bvec_zero num_ents = replicate ((num_ents + 32 - 1) div 32) 0"

definition bvec_test :: "bvec \<Rightarrow> nat \<Rightarrow> bool res" where
  "bvec_test bv idx = bindr (arr_get bv (idx div 32)) (\<lambda>w. Inr (bit w (idx mod 32)))"

definition bvec_set :: "bvec \<Rightarrow> nat \<Rightarrow> bvec res" where
  "bvec_set bv idx =
     bindr (arr_get bv (idx div 32)) (\<lambda>w. arr_set bv (idx div 32) (set_bit (idx mod 32) w))"

definition bvec_clear :: "bvec \<Rightarrow> nat \<Rightarrow> bvec res" where
  "bvec_clear bv idx =
     bindr (arr_get bv (idx div 32)) (\<lambda>w. arr_set bv (idx div 32) (unset_bit (idx mod 32) w))"

subsection \<open>Real-mode segments and PCI identifiers\<close>

definition EFI_ERROR :: "u64 \<Rightarrow> bool" where
  "EFI_ERROR status \<longleftrightarrow> bit status 63"

definition addr_to_rm_seg :: "u64 \<Rightarrow> u16" where
  "addr_to_rm_seg p = ucast (p div ucast PARA_SIZE)"

definition pci_id_vendor :: "u32 \<Rightarrow> u16" where
  "pci_id_vendor pci_id = ucast pci_id"

definition pci_id_dev :: "u32 \<Rightarrow> u16" where
  "pci_id_dev pci_id = ucast (drop_bit 16 pci_id)"

definition pci_make_id :: "u16 \<Rightarrow> u16 \<Rightarrow> u32" where
  "pci_make_id vendor dev = push_bit 16 (ucast dev) OR ucast vendor"

subsection \<open>Lemmas on memcmp\<close>

lemma memcmp_in_bounds:
  "n \<le> length p1 \<Longrightarrow> n \<le> length p2 \<Longrightarrow> \<exists>r. memcmp p1 p2 n = Inr r"
  by (induction p1 p2 n rule: memcmp.induct) auto

lemma memcmp_zero_iff:
  "n \<le> length p1 \<Longrightarrow> n \<le> length p2 \<Longrightarrow> memcmp p1 p2 n = Inr 0 \<longleftrightarrow> take n p1 = take n p2"
  by (induction p1 p2 n rule: memcmp.induct) auto

lemma memcmp_neg_iff:
  "n \<le> length p1 \<Longrightarrow> n \<le> length p2 \<Longrightarrow>
     memcmp p1 p2 n = Inr (- 1) \<longleftrightarrow> ord_class.lexordp (take n p1) (take n p2)"
  by (induction p1 p2 n rule: memcmp.induct) auto

subsection \<open>Lemmas on checksums\<close>

lemma cksum_loop_eq: "cksum_loop bs c = c - sum_list bs"
  by (induction bs arbitrary: c) (auto simp: algebra_simps)

lemma compute_cksum_eq: "compute_cksum bs = - sum_list bs"
  by (simp add: compute_cksum_def cksum_loop_eq)

lemma compute_cksum_append: "compute_cksum (xs @ ys) = compute_cksum xs + compute_cksum ys"
  by (simp add: compute_cksum_eq)

lemma sum_list_update_word:
  "i < length xs \<Longrightarrow> sum_list (xs[i := (v::u8)]) = sum_list xs - xs ! i + v"
  by (induction xs arbitrary: i) (auto simp: algebra_simps split: nat.split)

lemma get_bytes_fun_upd:
  "a \<le> p \<Longrightarrow> p < a + n \<Longrightarrow> get_bytes (m(p := v)) a n = (get_bytes m a n)[p - a := v]"
  by (rule nth_equalityI) (auto simp: get_bytes_def nth_list_update)

text \<open>After an update the summed area adds up to zero, which is what the readers check.\<close>

lemma update_cksum_sum:
  assumes "buf \<le> p" and "p < buf + n"
  shows "compute_cksum (get_bytes (update_cksum m buf n p) buf n) = 0"
proof -
  let ?m0 = "m(p := 0)"
  let ?c = "compute_cksum (get_bytes ?m0 buf n)"
  have "get_bytes (update_cksum m buf n p) buf n = (get_bytes ?m0 buf n)[p - buf := ?c]"
    using assms get_bytes_fun_upd [of buf p n ?m0 ?c] by (simp add: update_cksum_def Let_def)
  moreover have "get_bytes ?m0 buf n ! (p - buf) = 0" and "p - buf < length (get_bytes ?m0 buf n)"
    using assms by (auto simp: get_bytes_def)
  ultimately show ?thesis
    by (simp add: compute_cksum_eq sum_list_update_word)
qed

lemma update_cksum_frame: "a \<noteq> p \<Longrightarrow> update_cksum m buf n p a = m a"
  by (simp add: update_cksum_def Let_def)

subsection \<open>Lemmas on bit vectors\<close>

definition bvec_wf :: "nat \<Rightarrow> bvec \<Rightarrow> bool" where
  "bvec_wf n bv \<longleftrightarrow> length bv = (n + 32 - 1) div 32"

definition bvec_mem :: "bvec \<Rightarrow> nat \<Rightarrow> bool" where
  "bvec_mem bv i \<longleftrightarrow> i div 32 < length bv \<and> bit (bv ! (i div 32)) (i mod 32)"

lemma bvec_index: "bvec_wf n bv \<Longrightarrow> i < n \<Longrightarrow> i div 32 < length bv"
  by (simp add: bvec_wf_def)

lemma bvec_test_ok: "bvec_wf n bv \<Longrightarrow> i < n \<Longrightarrow> bvec_test bv i = Inr (bvec_mem bv i)"
  by (simp add: bvec_test_def bvec_mem_def bvec_index)

lemma div_mod_eq_iff: "(i::nat) = j \<longleftrightarrow> i div 32 = j div 32 \<and> i mod 32 = j mod 32"
  by (metis div_mult_mod_eq)

lemma bvec_set_ok:
  assumes "bvec_wf n bv" and "i < n"
  shows "\<exists>bv'. bvec_set bv i = Inr bv' \<and> bvec_wf n bv' \<and>
           (\<forall>j. bvec_mem bv' j \<longleftrightarrow> j = i \<or> bvec_mem bv j)"
proof -
  let ?bv' = "bv[i div 32 := set_bit (i mod 32) (bv ! (i div 32))]"
  have len: "i div 32 < length bv" using bvec_index [OF assms] .
  have "bvec_mem ?bv' j \<longleftrightarrow> j = i \<or> bvec_mem bv j" for j
    using len div_mod_eq_iff [of j i]
    by (auto simp: bvec_mem_def nth_list_update bit_set_bit_iff)
  moreover have "bvec_set bv i = Inr ?bv'" using len by (simp add: bvec_set_def)
  ultimately show ?thesis using assms(1) by (auto simp: bvec_wf_def)
qed

lemma bvec_mem_zero [simp]: "\<not> bvec_mem (bvec_zero n) i"
  by (simp add: bvec_mem_def bvec_zero_def)

lemma bvec_wf_zero [simp]: "bvec_wf n (bvec_zero n)"
  by (simp add: bvec_wf_def bvec_zero_def)

subsection \<open>Lemmas on segments and identifiers\<close>

lemma unat_addr_to_rm_seg:
  assumes "unat p < 0x100000"
  shows "unat (addr_to_rm_seg p) = unat p div 16"
proof -
  have "unat p div 16 < 65536" using assms by linarith
  then show ?thesis
    by (simp add: addr_to_rm_seg_def PARA_SIZE_def unsigned_ucast_eq unsigned_take_bit_eq
        unat_div_distrib take_bit_nat_eq_self_iff)
qed

subsection \<open>Properties\<close>

text \<open>
  After \<^verbatim>\<open>update_cksum\<close> on an area that contains the checksum byte, the area passes the
  check its readers make (the checksum recomputed over it is zero), and no other byte of
  memory has changed.
\<close>

lemma update_cksum_correct:
  assumes "buf \<le> p_cksum" and "p_cksum < buf + n"
  shows "compute_cksum (get_bytes (update_cksum m buf n p_cksum) buf n) = 0 \<and>
    (\<forall>a. a \<noteq> p_cksum \<longrightarrow> update_cksum m buf n p_cksum a = m a)"
  using update_cksum_sum [OF assms] update_cksum_frame by blast

text \<open>
  Splitting a PCI identifier into vendor and device and joining them again are inverse
  to each other, in both directions.
\<close>

lemma pci_id_roundtrip:
  "pci_id_vendor (pci_make_id v d) = v \<and> pci_id_dev (pci_make_id v d) = d \<and>
   pci_make_id (pci_id_vendor i) (pci_id_dev i) = i"
proof (intro conjI)
  show "pci_id_vendor (pci_make_id v d) = v"
    by (rule bit_word_eqI) (auto simp: pci_id_vendor_def pci_make_id_def bit_simps)
  show "pci_id_dev (pci_make_id v d) = d"
    by (rule bit_word_eqI) (auto simp: pci_id_dev_def pci_make_id_def bit_simps dest: bit_imp_le_length)
  show "pci_make_id (pci_id_vendor i) (pci_id_dev i) = i"
    by (rule bit_word_eqI)
      (auto simp: pci_id_dev_def pci_id_vendor_def pci_make_id_def bit_simps not_less)
qed

text \<open>
  For a paragraph-aligned address below 1 MiB the real-mode segment that
  \<^verbatim>\<open>addr_to_rm_seg\<close> computes denotes exactly that address: nothing is lost by the truncation
  to 16 bits.
\<close>

lemma addr_to_rm_seg_exact:
  assumes "unat p < 0x100000" and "16 dvd unat p"
  shows "unat (addr_to_rm_seg p) * 16 = unat p"
  using assms by (simp add: unat_addr_to_rm_seg)

text \<open>
  \<^verbatim>\<open>memcmp\<close> stays inside both buffers, returns zero exactly for equal contents, and its
  negative result is the lexicographic order of unsigned bytes.
\<close>

lemma memcmp_correct:
  assumes "n \<le> length p1" and "n \<le> length p2"
  shows "(\<exists>r. memcmp p1 p2 n = Inr r) \<and> (memcmp p1 p2 n = Inr 0 \<longleftrightarrow> take n p1 = take n p2) \<and>
    (memcmp p1 p2 n = Inr (- 1) \<longleftrightarrow> ord_class.lexordp (take n p1) (take n p2))"
  using assms memcmp_in_bounds memcmp_zero_iff memcmp_neg_iff by blast

end
