(* ===== verification/Allocator.thy ===== *)
theory Allocator
  imports Prelude
begin

text \<open>
  The contract of a memory allocator, shared by the base-memory allocator of stage 1
  (\<^verbatim>\<open>stage1/bmem.c\<close>) and the physical-memory allocator of stage 2 (\<^verbatim>\<open>stage2/mem.c\<close>). A
  request either fails or hands out a block that was free and is not free any more. What a
  client needs follows once for both: blocks handed out by any sequence of requests are
  pairwise disjoint.
\<close>

text \<open>A sequence of requests, threading the allocator's state and stopping at the first failure.\<close>

fun alloc_run :: "('s \<Rightarrow> 'r \<Rightarrow> (nat \<times> 's) res) \<Rightarrow> 's \<Rightarrow> 'r list \<Rightarrow> (nat list \<times> 's) res" where
  "alloc_run alloc s [] = Inr ([], s)"
| "alloc_run alloc s (r # rs) =
     bindr (alloc s r) (\<lambda>(a, s'). bindr (alloc_run alloc s' rs) (\<lambda>(as, s''). Inr (a # as, s'')))"

lemma alloc_run_append:
  "alloc_run alloc s rs = Inr (as, s') \<Longrightarrow>
     alloc_run alloc s (rs @ qs) = bindr (alloc_run alloc s' qs) (\<lambda>(bs, s''). Inr (as @ bs, s''))"
proof (induction rs arbitrary: s as)
  case Nil
  then show ?case by (cases "alloc_run alloc s' qs") auto
next
  case (Cons r rs)
  then obtain a t as' where "alloc s r = Inr (a, t)" "alloc_run alloc t rs = Inr (as', s')" "as = a # as'"
    by (auto simp: res_simps)
  then show ?case using Cons.IH by (cases "alloc_run alloc s' qs") auto
qed

lemma alloc_run_fails: "alloc_run alloc s rs = Inl e \<Longrightarrow> alloc_run alloc s (rs @ qs) = Inl e"
  by (induction rs arbitrary: s) (auto simp: res_simps)

fun blocks_of :: "('r \<Rightarrow> nat) \<Rightarrow> nat list \<Rightarrow> 'r list \<Rightarrow> nat set list" where
  "blocks_of sz (a # as) (r # rs) = {a..<a + sz r} # blocks_of sz as rs"
| "blocks_of sz _ _ = []"

fun pairwise_disjoint :: "nat set list \<Rightarrow> bool" where
  "pairwise_disjoint [] = True"
| "pairwise_disjoint (A # As) \<longleftrightarrow> (\<forall>B\<in>set As. A \<inter> B = {}) \<and> pairwise_disjoint As"

locale block_allocator =
  fixes alloc :: "'s \<Rightarrow> 'r \<Rightarrow> (nat \<times> 's) res"
    and req_size :: "'r \<Rightarrow> nat"
    and req_ok :: "'r \<Rightarrow> bool"
    and free :: "'s \<Rightarrow> nat set"
    and wf :: "'s \<Rightarrow> bool"
  assumes alloc_wf: "wf s \<Longrightarrow> req_ok r \<Longrightarrow> alloc s r = Inr (a, s') \<Longrightarrow> wf s'"
    and alloc_was_free:
      "wf s \<Longrightarrow> req_ok r \<Longrightarrow> alloc s r = Inr (a, s') \<Longrightarrow> {a..<a + req_size r} \<subseteq> free s"
    and alloc_takes:
      "wf s \<Longrightarrow> req_ok r \<Longrightarrow> alloc s r = Inr (a, s') \<Longrightarrow> free s' \<subseteq> free s - {a..<a + req_size r}"
begin

lemma run_wf:
  "wf s \<Longrightarrow> list_all req_ok rs \<Longrightarrow> alloc_run alloc s rs = Inr (as, s') \<Longrightarrow> wf s'"
  by (induction rs arbitrary: s as) (auto simp: res_simps dest: alloc_wf)

lemma run_free_antimono:
  "wf s \<Longrightarrow> list_all req_ok rs \<Longrightarrow> alloc_run alloc s rs = Inr (as, s') \<Longrightarrow> free s' \<subseteq> free s"
proof (induction rs arbitrary: s as)
  case (Cons r rs)
  then obtain a t as' where step: "alloc s r = Inr (a, t)" and run: "alloc_run alloc t rs = Inr (as', s')"
    by (auto simp: res_simps)
  have "wf t" using alloc_wf [OF _ _ step] Cons.prems by simp
  then have "free s' \<subseteq> free t" using Cons.IH [OF _ _ run] Cons.prems by simp
  moreover have "free t \<subseteq> free s" using alloc_takes [OF _ _ step] Cons.prems by auto
  ultimately show ?case by blast
qed (auto simp: res_simps)

lemma run_blocks:
  "wf s \<Longrightarrow> list_all req_ok rs \<Longrightarrow> alloc_run alloc s rs = Inr (as, s') \<Longrightarrow>
     length as = length rs \<and> pairwise_disjoint (blocks_of req_size as rs) \<and>
     (\<forall>B\<in>set (blocks_of req_size as rs). B \<subseteq> free s \<and> B \<inter> free s' = {})"
proof (induction rs arbitrary: s as)
  case (Cons r rs)
  then obtain a t as' where step: "alloc s r = Inr (a, t)"
    and run: "alloc_run alloc t rs = Inr (as', s')" and as: "as = a # as'"
    by (auto simp: res_simps)
  have wft: "wf t" using alloc_wf [OF _ _ step] Cons.prems by simp
  have rest: "length as' = length rs \<and> pairwise_disjoint (blocks_of req_size as' rs) \<and>
     (\<forall>B\<in>set (blocks_of req_size as' rs). B \<subseteq> free t \<and> B \<inter> free s' = {})"
    using Cons.IH [OF wft _ run] Cons.prems by simp
  have first: "{a..<a + req_size r} \<subseteq> free s" "free t \<subseteq> free s - {a..<a + req_size r}"
    using alloc_was_free [OF _ _ step] alloc_takes [OF _ _ step] Cons.prems by simp_all
  have "free s' \<subseteq> free t" using run_free_antimono [OF wft _ run] Cons.prems by simp
  then have "{a..<a + req_size r} \<inter> free s' = {}" using first by blast
  moreover have "\<forall>B\<in>set (blocks_of req_size as' rs). {a..<a + req_size r} \<inter> B = {} \<and> B \<subseteq> free s"
    using rest first by blast
  ultimately show ?case using rest first unfolding as by simp
qed (auto simp: res_simps)

end

end
