(* ===== verification/Bmem.thy ===== *)
theory Bmem
  imports Util Allocator
begin

text \<open>
  Base memory below the 1 MiB mark, \<^verbatim>\<open>stage1/bmem.c\<close>: the table of available blocks, the
  allocator for memory that stays in use at run time (taken from the top of the highest
  block that fits) and the allocator for boot-time data (taken from the bottom of the
  lowest block that fits). The invariant \<open>bmem_wf\<close> says how the block table and the two
  watermarks \<^verbatim>\<open>boottime_bmem_bot\<close> and \<^verbatim>\<open>runtime_bmem_top\<close> agree; the lemmas show that every
  operation keeps it, that blocks handed out never overlap, and that the area between the
  watermarks stays free for stage 2.
\<close>

unbundle bit_operations_syntax

subsection \<open>State\<close>

record blk_info =
  blk_start :: u32
  blk_end :: u32
  blk_orig_end :: u32

text \<open>Memory attribute bits, with the values of the UEFI specification.\<close>

definition EFI_MEMORY_UC :: u64 where "EFI_MEMORY_UC = 0x1"
definition EFI_MEMORY_WC :: u64 where "EFI_MEMORY_WC = 0x2"
definition EFI_MEMORY_WT :: u64 where "EFI_MEMORY_WT = 0x4"
definition EFI_MEMORY_WB :: u64 where "EFI_MEMORY_WB = 0x8"
definition EFI_MEMORY_UCE :: u64 where "EFI_MEMORY_UCE = 0x10"
definition EFI_MEMORY_WP :: u64 where "EFI_MEMORY_WP = 0x1000"
definition EFI_MEMORY_RP :: u64 where "EFI_MEMORY_RP = 0x2000"
definition EFI_MEMORY_XP :: u64 where "EFI_MEMORY_XP = 0x4000"
definition EFI_MEMORY_RO :: u64 where "EFI_MEMORY_RO = push_bit 17 1"
definition EFI_MEMORY_CPU_CRYPTO :: u64 where "EFI_MEMORY_CPU_CRYPTO = push_bit 19 1"

definition EFI_PAGE_SIZE :: u32 where "EFI_PAGE_SIZE = 4096"
definition MAX_BMEM_BLKS :: nat where "MAX_BMEM_BLKS = 128"

text \<open>The static variables of the file. \<open>blk\<close> is the whole array, \<open>num_blks\<close> its live prefix.\<close>

record bmem_state =
  num_blks :: nat
  blk :: "blk_info list"
  boottime_bmem_bot :: u32
  runtime_bmem_top :: u32
  bmem_uefi_attr :: u64

definition bmem_state0 :: bmem_state where
  "bmem_state0 = \<lparr> num_blks = 0,
     blk = replicate MAX_BMEM_BLKS \<lparr> blk_start = 0, blk_end = 0, blk_orig_end = 0 \<rparr>,
     boottime_bmem_bot = EFI_PAGE_SIZE, runtime_bmem_top = 0,
     bmem_uefi_attr = EFI_MEMORY_UC OR EFI_MEMORY_WC OR EFI_MEMORY_WB OR EFI_MEMORY_UCE OR
       EFI_MEMORY_WP OR EFI_MEMORY_RP OR EFI_MEMORY_XP OR EFI_MEMORY_RO OR EFI_MEMORY_CPU_CRYPTO \<rparr>"

subsection \<open>Allocation\<close>

definition bmem_check_enough :: "bmem_state \<Rightarrow> unit res" where
  "bmem_check_enough s =
     (if runtime_bmem_top s < 192 * KIBYTE \<or>
         boottime_bmem_bot s > runtime_bmem_top s - 128 * KIBYTE
      then Inl (Error ''not enough base mem.!'') else Inr ())"

text \<open>The descending search of \<^verbatim>\<open>bmem_alloc\<close>; the last argument is \<^verbatim>\<open>blk_idx\<close> before its decrement.\<close>

fun bmem_alloc_from :: "bmem_state \<Rightarrow> u64 \<Rightarrow> u64 \<Rightarrow> nat \<Rightarrow> (u32 \<times> bmem_state) res" where
  "bmem_alloc_from s sz align 0 = Inl (Error ''cannot alloc. from base mem.!'')"
| "bmem_alloc_from s sz align (Suc blk_idx) =
     bindr (arr_get (blk s) blk_idx) (\<lambda>b.
       let bstart = blk_start b; bend = blk_end b in
       if ucast (bend - bstart) < sz then bmem_alloc_from s sz align blk_idx
       else
         let astart = ucast ((ucast bend - sz) AND ucast (- (ucast align :: u32))) in
         if astart < bstart then bmem_alloc_from s sz align blk_idx
         else Inr (astart,
           s\<lparr> runtime_bmem_top := if runtime_bmem_top s > astart then astart else runtime_bmem_top s,
              blk := (blk s)[blk_idx := b\<lparr> blk_end := astart \<rparr>] \<rparr>))"

definition bmem_alloc :: "bmem_state \<Rightarrow> u64 \<Rightarrow> u64 \<Rightarrow> (u32 \<times> bmem_state) res" where
  "bmem_alloc s sz align = bmem_alloc_from s sz align (num_blks s)"

text \<open>The loop that closes the gap when a block is used up: \<^verbatim>\<open>blk[i] = blk[i + 1]\<close>.\<close>

function blk_shift :: "blk_info list \<Rightarrow> nat \<Rightarrow> nat \<Rightarrow> blk_info list" where
  "blk_shift bs blk_idx n =
     (if blk_idx < n - 1 then blk_shift (bs[blk_idx := bs ! (blk_idx + 1)]) (blk_idx + 1) n else bs)"
  by pat_completeness auto
termination
  by (relation "measure (\<lambda>(bs, i, n). n - i)") auto

declare blk_shift.simps [simp del]

function bmem_alloc_boottime_from ::
  "bmem_state \<Rightarrow> u64 \<Rightarrow> u64 \<Rightarrow> nat \<Rightarrow> (u32 \<times> bmem_state) res" where
  "bmem_alloc_boottime_from s sz align blk_idx =
     (if blk_idx < num_blks s then
        bindr (arr_get (blk s) blk_idx) (\<lambda>b.
          let bstart = blk_start b; bend = blk_end b in
          if ucast (bend - bstart) < sz then bmem_alloc_boottime_from s sz align (Suc blk_idx)
          else
            let astart = (bstart + ucast align - 1) AND - (ucast align :: u32) in
            if astart > bend then bmem_alloc_boottime_from s sz align (Suc blk_idx)
            else if ucast (bend - astart) < sz
            then bmem_alloc_boottime_from s sz align (Suc blk_idx)
            else if astart \<ge> runtime_bmem_top s
            then Inl (Error ''cannot alloc. for boot time from base mem.!'')
            else
              let aend = ucast (ucast astart + sz);
                  s' = s\<lparr> boottime_bmem_bot :=
                            if boottime_bmem_bot s < aend then aend else boottime_bmem_bot s \<rparr>
              in if aend \<noteq> bend
                 then Inr (astart, s'\<lparr> blk := (blk s)[blk_idx := b\<lparr> blk_start := aend \<rparr>] \<rparr>)
                 else Inr (astart, s'\<lparr> blk := blk_shift (blk s) blk_idx (num_blks s),
                                       num_blks := num_blks s - 1 \<rparr>))
      else Inl (Error ''cannot alloc. for boot time from base mem.!''))"
  by pat_completeness auto
termination
  by (relation "measure (\<lambda>(s, sz, align, i). num_blks s - i)") auto

declare bmem_alloc_boottime_from.simps [simp del]

definition bmem_alloc_boottime :: "bmem_state \<Rightarrow> u64 \<Rightarrow> u64 \<Rightarrow> (u32 \<times> bmem_state) res" where
  "bmem_alloc_boottime s sz align = bmem_alloc_boottime_from s sz align 0"

subsection \<open>Requests of either kind\<close>

datatype bmem_req = Run_time u64 u64 | Boot_time u64 u64

fun bmem_request :: "bmem_state \<Rightarrow> bmem_req \<Rightarrow> (nat \<times> bmem_state) res" where
  "bmem_request s (Run_time sz align) = bindr (bmem_alloc s sz align) (\<lambda>(a, s'). Inr (unat a, s'))"
| "bmem_request s (Boot_time sz align) =
     bindr (bmem_alloc_boottime s sz align) (\<lambda>(a, s'). Inr (unat a, s'))"

fun bmem_req_size :: "bmem_req \<Rightarrow> nat" where
  "bmem_req_size (Run_time sz align) = unat sz"
| "bmem_req_size (Boot_time sz align) = unat sz"

definition pow2_align :: "u64 \<Rightarrow> bool" where
  "pow2_align align \<longleftrightarrow> (\<exists>k<32. unat align = 2 ^ k)"

fun bmem_req_ok :: "bmem_req \<Rightarrow> bool" where
  "bmem_req_ok (Run_time sz align) = pow2_align align"
| "bmem_req_ok (Boot_time sz align) = pow2_align align"

subsection \<open>The invariant\<close>

definition live :: "bmem_state \<Rightarrow> blk_info list" where
  "live s = take (num_blks s) (blk s)"

definition blk_ok :: "u32 \<Rightarrow> blk_info \<Rightarrow> bool" where
  "blk_ok rtop b \<longleftrightarrow>
     EFI_PAGE_SIZE \<le> blk_start b \<and> blk_start b \<le> blk_end b \<and> blk_end b \<le> blk_orig_end b \<and>
     blk_orig_end b \<le> 0x100000 \<and> (blk_end b \<le> rtop \<or> rtop \<le> blk_start b)"

definition blk_before :: "blk_info \<Rightarrow> blk_info \<Rightarrow> bool" where
  "blk_before a b \<longleftrightarrow> blk_orig_end a \<le> blk_start b"

definition blks_wf :: "u32 \<Rightarrow> blk_info list \<Rightarrow> bool" where
  "blks_wf rtop bs \<longleftrightarrow> list_all (blk_ok rtop) bs \<and> sorted_wrt blk_before bs"

definition bmem_wf :: "bmem_state \<Rightarrow> bool" where
  "bmem_wf s \<longleftrightarrow>
     length (blk s) = MAX_BMEM_BLKS \<and> num_blks s \<le> MAX_BMEM_BLKS \<and>
     runtime_bmem_top s \<le> 0x100000 \<and> boottime_bmem_bot s \<le> 0x100000 \<and>
     blks_wf (runtime_bmem_top s) (live s)"

definition blk_bytes :: "blk_info \<Rightarrow> nat set" where
  "blk_bytes b = {unat (blk_start b)..<unat (blk_end b)}"

definition blks_free :: "blk_info list \<Rightarrow> nat set" where
  "blks_free bs = (\<Union>b\<in>set bs. blk_bytes b)"

definition bmem_free :: "bmem_state \<Rightarrow> nat set" where
  "bmem_free s = blks_free (live s)"

subsection \<open>The arithmetic of the two alignments\<close>

lemma ucast_and_ucast: "(ucast ((x::u64) AND ucast (y::u32)) :: u32) = ucast x AND y"
  by (rule bit_word_eqI) (auto simp: bit_simps)

lemma ucast_align:
  assumes "unat (align::u64) = 2 ^ k" and "k < 32"
  shows "(ucast align :: u32) = 2 ^ k"
proof (rule word_of_exp)
  have "(2::nat) ^ k < 2 ^ 32" using assms(2) by (rule power_strict_increasing) simp
  then show "unat (ucast align :: u32) = 2 ^ k"
    using assms(1) by (simp add: unat_ucast_down)
qed

lemma unat_ucast32 [simp]: "unat (ucast (x::u32) :: u64) = unat x"
  by (simp add: unat_ucast_up)

lemma unat_ucast64: "unat (x::u64) < 2 ^ 32 \<Longrightarrow> unat (ucast x :: u32) = unat x"
  by (simp add: unat_ucast_down)

lemma ucast_less_u64_iff: "ucast (x::u32) < (sz::u64) \<longleftrightarrow> unat x < unat sz"
  by (simp add: word_less_nat_alt)

lemma unat_runtime_start:
  assumes "unat align = 2 ^ k" and "k < 32" and "unat sz \<le> unat bend"
  shows "unat (ucast ((ucast (bend::u32) - (sz::u64)) AND ucast (- (ucast (align::u64) :: u32))) :: u32)
           = (unat bend - unat sz) div 2 ^ k * 2 ^ k"
proof -
  have d: "unat (ucast bend - sz) = unat bend - unat sz"
    using assms(3) by (simp add: unat_sub word_le_nat_alt)
  have "unat (ucast bend - sz) < 2 ^ 32"
    unfolding d using unat_lt [of bend] by simp
  then have "unat (ucast (ucast bend - sz) :: u32) = unat bend - unat sz"
    using d by (simp add: unat_ucast64)
  then show ?thesis
    by (simp add: ucast_and_ucast ucast_align [OF assms(1,2)] unat_and_neg_exp assms(2))
qed

lemma unat_boottime_start:
  assumes "unat align = 2 ^ k" and "k < 32" and "unat bstart \<le> 0x100000"
  shows "unat (((bstart::u32) + ucast (align::u64) - 1) AND - (ucast align :: u32))
           = (unat bstart + 2 ^ k - 1) div 2 ^ k * 2 ^ k"
proof -
  have "(2::nat) ^ k \<le> 2 ^ 31" using assms(2) by (intro power_increasing) auto
  then have le: "unat bstart + 2 ^ k < 2 ^ 32" using assms(3) by simp
  have one: "unat (2 ^ k :: u32) = 2 ^ k" using assms(2) by (simp add: unat_exp)
  have "unat (bstart + 2 ^ k) = unat bstart + 2 ^ k"
    using le one unat_add_nowrap [of bstart "2 ^ k"] by simp
  moreover have "1 \<le> bstart + 2 ^ k"
    unfolding word_le_nat_alt calculation by (simp add: Suc_le_eq)
  ultimately have "unat (bstart + 2 ^ k - 1) = unat bstart + 2 ^ k - 1"
    by (simp add: unat_sub)
  then show ?thesis
    by (simp add: ucast_align [OF assms(1,2)] unat_and_neg_exp assms(2))
qed

lemma align_up_ge: "0 < c \<Longrightarrow> (a::nat) \<le> (a + c - 1) div c * c"
  using div_times_gt [of c "a + c - 1"] by linarith

lemma bmem_check_enough_Inr:
  assumes "bmem_check_enough s = Inr ()"
  shows "192 * 1024 \<le> unat (runtime_bmem_top s)"
    and "unat (boottime_bmem_bot s) + 128 * 1024 \<le> unat (runtime_bmem_top s)"
proof -
  have a: "192 * KIBYTE \<le> runtime_bmem_top s" "boottime_bmem_bot s \<le> runtime_bmem_top s - 128 * KIBYTE"
    using assms by (auto simp: bmem_check_enough_def split: if_split_asm)
  then show top: "192 * 1024 \<le> unat (runtime_bmem_top s)"
    by (simp add: KIBYTE_def word_le_nat_alt)
  then have "unat (runtime_bmem_top s - 128 * KIBYTE) = unat (runtime_bmem_top s) - 128 * 1024"
    by (subst unat_sub) (simp_all add: KIBYTE_def word_le_nat_alt)
  then show "unat (boottime_bmem_bot s) + 128 * 1024 \<le> unat (runtime_bmem_top s)"
    using a(2) top by (simp add: word_le_nat_alt)
qed

subsection \<open>Closing the gap\<close>

lemma length_blk_shift [simp]: "length (blk_shift bs i n) = length bs"
  by (induction bs i n rule: blk_shift.induct) (subst blk_shift.simps, simp)

lemma take_blk_shift:
  "i < n \<Longrightarrow> n \<le> length bs \<Longrightarrow> take (n - 1) (blk_shift bs i n) = take i bs @ drop (Suc i) (take n bs)"
proof (induction bs i n rule: blk_shift.induct)
  case (1 bs i n)
  show ?case
  proof (cases "i < n - 1")
    case True
    let ?bs = "bs[i := bs ! (i + 1)]"
    have "take (n - 1) (blk_shift ?bs (i + 1) n) = take (i + 1) ?bs @ drop (Suc (i + 1)) (take n ?bs)"
      using "1.IH" [OF True] "1.prems" True by simp
    also have "take (i + 1) ?bs = take i bs @ [bs ! (i + 1)]"
      using "1.prems" by (simp add: take_Suc_conv_app_nth)
    also have "drop (Suc (i + 1)) (take n ?bs) = drop (Suc (i + 1)) (take n bs)"
      by (simp add: drop_take)
    also have "(take i bs @ [bs ! (i + 1)]) @ drop (Suc (i + 1)) (take n bs) = take i bs @ drop (Suc i) (take n bs)"
      using True "1.prems" Cons_nth_drop_Suc [of "Suc i" "take n bs"] by simp
    finally show ?thesis using True by (simp add: blk_shift.simps [of bs i n])
  next
    case False
    with "1.prems" have "n = Suc i" by simp
    then show ?thesis by (simp add: blk_shift.simps [of bs i "Suc i"])
  qed
qed

subsection \<open>What a successful allocation did\<close>

lemma pow2_align_8: "pow2_align 8"
  unfolding pow2_align_def by (rule exI [of _ 3]) simp

lemma bmem_free_bounds: "bmem_wf s \<Longrightarrow> x \<in> bmem_free s \<Longrightarrow> 4096 \<le> x \<and> x < 0x100000"
  by (force simp: bmem_wf_def blks_wf_def list_all_iff blk_ok_def bmem_free_def blks_free_def
      blk_bytes_def word_le_nat_alt EFI_PAGE_SIZE_def)

text \<open>The block that served a request, and the state it left.\<close>

definition runtime_taken :: "bmem_state \<Rightarrow> u64 \<Rightarrow> u64 \<Rightarrow> nat \<Rightarrow> u32 \<Rightarrow> bmem_state \<Rightarrow> bool" where
  "runtime_taken s sz align i a s' \<longleftrightarrow>
     (let b = blk s ! i in
      i < length (blk s) \<and> unat sz \<le> unat (blk_end b - blk_start b) \<and>
      a = ucast ((ucast (blk_end b) - sz) AND ucast (- (ucast align :: u32))) \<and> blk_start b \<le> a \<and>
      s' = s\<lparr> runtime_bmem_top := min (runtime_bmem_top s) a,
              blk := (blk s)[i := b\<lparr> blk_end := a \<rparr>] \<rparr>)"

definition boottime_taken :: "bmem_state \<Rightarrow> u64 \<Rightarrow> u64 \<Rightarrow> nat \<Rightarrow> u32 \<Rightarrow> bmem_state \<Rightarrow> bool" where
  "boottime_taken s sz align i a s' \<longleftrightarrow>
     (let b = blk s ! i; aend = ucast (ucast a + sz);
          t = s\<lparr> boottime_bmem_bot := max (boottime_bmem_bot s) aend \<rparr> in
      i < num_blks s \<and> i < length (blk s) \<and> unat sz \<le> unat (blk_end b - blk_start b) \<and>
      a = (blk_start b + ucast align - 1) AND - (ucast align :: u32) \<and>
      a \<le> blk_end b \<and> unat sz \<le> unat (blk_end b - a) \<and> a < runtime_bmem_top s \<and>
      s' = (if aend \<noteq> blk_end b then t\<lparr> blk := (blk s)[i := b\<lparr> blk_start := aend \<rparr>] \<rparr>
            else t\<lparr> blk := blk_shift (blk s) i (num_blks s), num_blks := num_blks s - 1 \<rparr>))"

lemma bmem_alloc_from_Inr:
  "bmem_alloc_from s sz align n = Inr (a, s') \<Longrightarrow> \<exists>i<n. runtime_taken s sz align i a s'"
proof (induction n)
  case (Suc n)
  have "bmem_alloc_from s sz align n = Inr (a, s') \<or> runtime_taken s sz align n a s'"
    using Suc.prems unfolding runtime_taken_def
    by (simp add: res_simps Let_def ucast_less_u64_iff not_less min_def split: if_split_asm) fastforce+
  then show ?case using Suc.IH less_SucI by blast
qed simp

lemma bmem_alloc_boottime_from_Inr:
  "bmem_alloc_boottime_from s sz align i0 = Inr (a, s') \<Longrightarrow> \<exists>i. boottime_taken s sz align i a s'"
proof (induction "num_blks s - i0" arbitrary: i0 rule: less_induct)
  case less
  have "bmem_alloc_boottime_from s sz align (Suc i0) = Inr (a, s') \<and> i0 < num_blks s
        \<or> boottime_taken s sz align i0 a s'"
    using less.prems unfolding boottime_taken_def
    by (subst (asm) bmem_alloc_boottime_from.simps)
      (simp add: res_simps Let_def ucast_less_u64_iff not_less max_def split: if_split_asm; fastforce)
  then show ?case using less.hyps [of "Suc i0"] by fastforce
qed

subsection \<open>The block list under an update or a removal\<close>

lemma blks_wf_nth:
  assumes "blks_wf rtop bs" and "i < length bs"
  shows "blk_ok rtop (bs ! i)"
  using assms by (simp add: blks_wf_def list_all_length)

lemma blks_wf_order:
  assumes "blks_wf rtop bs" and "i < j" and "j < length bs"
  shows "blk_orig_end (bs ! i) \<le> blk_start (bs ! j)"
  using assms by (simp add: blks_wf_def sorted_wrt_iff_nth_less blk_before_def)

lemma blks_disjoint:
  assumes "blks_wf rtop bs" and "i < length bs" and "j < length bs" and "i \<noteq> j"
  shows "blk_bytes (bs ! i) \<inter> blk_bytes (bs ! j) = {}"
proof -
  have *: "blk_bytes (bs ! p) \<inter> blk_bytes (bs ! q) = {}" if "p < q" "q < length bs" for p q
    using blks_wf_order [OF assms(1) that] blks_wf_nth [OF assms(1), of p] that
    by (force simp: blk_ok_def blk_bytes_def word_le_nat_alt)
  show ?thesis using *[of i j] *[of j i] assms by (cases "i < j") auto
qed

lemma blks_free_nth: "blks_free bs = (\<Union>j\<in>{..<length bs}. blk_bytes (bs ! j))"
  by (auto simp: blks_free_def set_conv_nth)

lemma blks_free_update:
  assumes "i < length bs"
  shows "blks_free (bs[i := b]) = blk_bytes b \<union> (\<Union>j\<in>{..<length bs} - {i}. blk_bytes (bs ! j))"
  using assms by (auto simp: blks_free_nth nth_list_update split: if_splits)

lemma blks_free_remove:
  assumes "i < length bs"
  shows "blks_free (take i bs @ drop (Suc i) bs) = (\<Union>j\<in>{..<length bs} - {i}. blk_bytes (bs ! j))"
proof -
  let ?e = "(bs ! i)\<lparr> blk_end := blk_start (bs ! i) \<rparr>"
  have "bs[i := ?e] = take i bs @ ?e # drop (Suc i) bs"
    using assms by (rule upd_conv_take_nth_drop)
  then have "blks_free (bs[i := ?e]) = blks_free (take i bs @ drop (Suc i) bs)"
    by (simp add: blks_free_def blk_bytes_def)
  then show ?thesis using blks_free_update [OF assms, of ?e] by (simp add: blk_bytes_def)
qed

text \<open>Cutting a piece off one block takes exactly that piece's bytes out of the free ones.\<close>

lemma blks_free_cut:
  assumes "blks_wf rtop bs" and "i < length bs" and "A \<subseteq> blk_bytes (bs ! i)"
    and "B \<subseteq> blk_bytes (bs ! i) - A"
  shows "B \<union> (\<Union>j\<in>{..<length bs} - {i}. blk_bytes (bs ! j)) \<subseteq> blks_free bs - A"
proof -
  define R where "R = (\<Union>j\<in>{..<length bs} - {i}. blk_bytes (bs ! j))"
  have "R \<inter> blk_bytes (bs ! i) = {}"
    using blks_disjoint [OF assms(1) _ assms(2)] unfolding R_def by blast
  moreover have "blks_free bs = blk_bytes (bs ! i) \<union> R"
    using blks_free_update [OF assms(2), of "bs ! i"] by (simp add: R_def)
  ultimately have "B \<union> R \<subseteq> blks_free bs - A" using assms(3,4) by blast
  then show ?thesis by (simp only: R_def)
qed

lemma blks_wf_remove:
  assumes "blks_wf rtop bs" and "i < length bs"
  shows "blks_wf rtop (take i bs @ drop (Suc i) bs)"
proof -
  have "blks_wf rtop (take i bs @ bs ! i # drop (Suc i) bs)"
    using assms by (simp flip: id_take_nth_drop)
  then show ?thesis by (simp add: blks_wf_def sorted_wrt_append)
qed

lemma blks_wf_update:
  assumes "blks_wf rtop bs" and "i < length bs"
    and "blk_start (bs ! i) \<le> blk_start b" and "blk_orig_end b = blk_orig_end (bs ! i)"
    and "blk_ok rtop' b" and "\<And>j. j < length bs \<Longrightarrow> j \<noteq> i \<Longrightarrow> blk_ok rtop' (bs ! j)"
  shows "blks_wf rtop' (bs[i := b])"
proof -
  have "blk_orig_end (bs[i := b] ! p) \<le> blk_start (bs[i := b] ! q)" if "p < q" "q < length bs" for p q
    using blks_wf_order [OF assms(1) that] assms(2,3,4) that
    by (auto simp: nth_list_update intro: order_trans)
  moreover have "blk_ok rtop' (bs[i := b] ! n)" if "n < length bs" for n
    using assms(5,6) that by (cases "n = i") auto
  ultimately show ?thesis
    by (simp add: blks_wf_def sorted_wrt_iff_nth_less blk_before_def list_all_length)
qed

subsection \<open>Run-time allocation\<close>

lemma live_nth: "bmem_wf s \<Longrightarrow> i < num_blks s \<Longrightarrow> i < length (live s) \<and> blk s ! i = live s ! i"
  by (simp add: live_def bmem_wf_def)

lemma bmem_wfD: "bmem_wf s \<Longrightarrow> blks_wf (runtime_bmem_top s) (live s)"
  by (simp add: bmem_wf_def)

lemma unat_diff_le: "b \<le> a \<Longrightarrow> unat (sz::u64) \<le> unat (a - b :: u32) \<Longrightarrow> unat b + unat sz \<le> unat a"
  by (simp add: unat_sub word_le_nat_alt)

lemma runtime_taken_arith:
  assumes "bmem_wf s" and "i < num_blks s" and "runtime_taken s sz align i a s'"
    and "unat align = 2 ^ k" and "k < 32"
  shows "blk_start (live s ! i) \<le> a" and "unat a + unat sz \<le> unat (blk_end (live s ! i))"
    and "unat align dvd unat a" and "live s' = (live s)[i := (live s ! i)\<lparr> blk_end := a \<rparr>]"
proof -
  let ?b = "live s ! i"
  have b: "blk s ! i = ?b" "i < length (live s)" using live_nth [OF assms(1,2)] by simp_all
  have ok: "blk_ok (runtime_bmem_top s) ?b" using blks_wf_nth [OF bmem_wfD [OF assms(1)] b(2)] .
  note t = assms(3) [unfolded runtime_taken_def Let_def b(1)]
  have fits: "unat (blk_start ?b) + unat sz \<le> unat (blk_end ?b)"
    using t ok by (auto simp: blk_ok_def intro: unat_diff_le)
  then have ua: "unat a = (unat (blk_end ?b) - unat sz) div 2 ^ k * 2 ^ k"
    using t unat_runtime_start [OF assms(4,5), of sz "blk_end ?b"] by simp
  show "blk_start ?b \<le> a" using t by blast
  show "unat a + unat sz \<le> unat (blk_end ?b)"
    using div_times_le [of "unat (blk_end ?b) - unat sz" "2 ^ k"] fits unfolding ua by linarith
  show "unat align dvd unat a" by (simp add: ua assms(4))
  show "live s' = (live s)[i := ?b\<lparr> blk_end := a \<rparr>]"
    using t by (simp add: live_def take_update_swap)
qed

lemma runtime_taken_wf:
  assumes "bmem_wf s" and "i < num_blks s" and "runtime_taken s sz align i a s'"
    and "unat align = 2 ^ k" and "k < 32"
  shows "bmem_wf s'"
proof -
  let ?b = "live s ! i" and ?t = "runtime_bmem_top s"
  note ar = runtime_taken_arith [OF assms]
  have i: "i < length (live s)" using live_nth [OF assms(1,2)] by simp
  note wf = bmem_wfD [OF assms(1)]
  have ae: "a \<le> blk_end ?b" using ar(2) by (simp add: word_le_nat_alt)
  have oki: "blk_ok ?t ?b" using blks_wf_nth [OF wf i] .
  have top: "runtime_bmem_top s' = min ?t a"
    using assms(3) by (simp add: runtime_taken_def Let_def)
  have "blk_ok (min ?t a) (?b\<lparr> blk_end := a \<rparr>)"
    using oki ar(1) ae by (auto simp: blk_ok_def min_def)
  moreover have "blk_ok (min ?t a) (live s ! j)" if j: "j < length (live s)" "j \<noteq> i" for j
  proof (cases "j < i")
    case True
    then show ?thesis
      using blks_wf_nth [OF wf j(1)] blks_wf_order [OF wf True i] ar(1)
      by (auto simp: blk_ok_def min_def)
  next
    case False
    then have "i < j" using j by simp
    then show ?thesis
      using blks_wf_nth [OF wf j(1)] blks_wf_order [OF wf \<open>i < j\<close> j(1)] ae oki
      by (auto simp: blk_ok_def min_def)
  qed
  ultimately have "blks_wf (min ?t a) (live s')"
    unfolding ar(4) using i by (intro blks_wf_update [OF wf i]) auto
  then show ?thesis
    using assms(1,3) top by (auto simp: bmem_wf_def runtime_taken_def Let_def min_def)
qed

lemma runtime_taken_free:
  assumes "bmem_wf s" and "i < num_blks s" and "runtime_taken s sz align i a s'"
    and "unat align = 2 ^ k" and "k < 32"
  shows "{unat a..<unat a + unat sz} \<subseteq> bmem_free s"
    and "bmem_free s' \<subseteq> bmem_free s - {unat a..<unat a + unat sz}"
proof -
  let ?b = "live s ! i" and ?A = "{unat a..<unat a + unat sz}"
  note ar = runtime_taken_arith [OF assms]
  have i: "i < length (live s)" using live_nth [OF assms(1,2)] by simp
  have A: "?A \<subseteq> blk_bytes ?b"
    using ar(1,2) by (auto simp: blk_bytes_def word_le_nat_alt)
  then show "?A \<subseteq> bmem_free s" using i by (auto simp: bmem_free_def blks_free_nth)
  have "blk_bytes (?b\<lparr> blk_end := a \<rparr>) \<subseteq> blk_bytes ?b - ?A"
    using ar(1,2) by (auto simp: blk_bytes_def)
  then show "bmem_free s' \<subseteq> bmem_free s - ?A"
    unfolding bmem_free_def ar(4) blks_free_update [OF i]
    by (rule blks_free_cut [OF bmem_wfD [OF assms(1)] i A])
qed

lemma bmem_alloc_spec:
  assumes "bmem_wf s" and "pow2_align align" and "bmem_alloc s sz align = Inr (a, s')"
  shows "bmem_wf s'" and "{unat a..<unat a + unat sz} \<subseteq> bmem_free s"
    and "bmem_free s' \<subseteq> bmem_free s - {unat a..<unat a + unat sz}"
    and "unat align dvd unat a" and "runtime_bmem_top s' = min (runtime_bmem_top s) a"
    and "boottime_bmem_bot s' = boottime_bmem_bot s"
proof -
  obtain i where i: "i < num_blks s" and t: "runtime_taken s sz align i a s'"
    using bmem_alloc_from_Inr [OF assms(3) [unfolded bmem_alloc_def]] by blast
  obtain k where k: "unat align = 2 ^ k" "k < 32" using assms(2) by (auto simp: pow2_align_def)
  show "bmem_wf s'" by (rule runtime_taken_wf [OF assms(1) i t k])
  show "{unat a..<unat a + unat sz} \<subseteq> bmem_free s"
    and "bmem_free s' \<subseteq> bmem_free s - {unat a..<unat a + unat sz}"
    by (rule runtime_taken_free [OF assms(1) i t k])+
  show "unat align dvd unat a" by (rule runtime_taken_arith(3) [OF assms(1) i t k])
  show "runtime_bmem_top s' = min (runtime_bmem_top s) a"
    and "boottime_bmem_bot s' = boottime_bmem_bot s"
    using t by (simp_all add: runtime_taken_def Let_def)
qed

subsection \<open>Boot-time allocation\<close>

lemma boottime_taken_arith:
  assumes "bmem_wf s" and "boottime_taken s sz align i a s'"
    and "unat align = 2 ^ k" and "k < 32"
  shows "blk_start (live s ! i) \<le> a" and "unat a + unat sz \<le> unat (blk_end (live s ! i))"
    and "unat align dvd unat a" and "unat (ucast (ucast a + sz) :: u32) = unat a + unat sz"
    and "blk_end (live s ! i) \<le> runtime_bmem_top s"
proof -
  let ?b = "live s ! i"
  note t' = assms(2) [unfolded boottime_taken_def Let_def]
  then have i: "i < num_blks s" by blast
  have b: "blk s ! i = ?b" "i < length (live s)" using live_nth [OF assms(1) i] by simp_all
  note t = t' [unfolded b(1)]
  have ok: "blk_ok (runtime_bmem_top s) ?b" using blks_wf_nth [OF bmem_wfD [OF assms(1)] b(2)] .
  then have "unat (blk_start ?b) \<le> unat (0x100000 :: u32)"
    unfolding blk_ok_def by (meson order_trans word_le_nat_alt [THEN iffD1])
  then have ua: "unat a = (unat (blk_start ?b) + 2 ^ k - 1) div 2 ^ k * 2 ^ k"
    using t unat_boottime_start [OF assms(3,4), of "blk_start ?b"] by simp
  show sa: "blk_start ?b \<le> a"
    unfolding word_le_nat_alt ua by (rule align_up_ge) simp
  have "a \<le> blk_end ?b" "unat sz \<le> unat (blk_end ?b - a)" using t by blast+
  then show fits: "unat a + unat sz \<le> unat (blk_end ?b)" by (rule unat_diff_le)
  show "unat align dvd unat a" by (simp add: ua assms(3))
  have lt: "unat a + unat sz < 2 ^ 32" using fits unat_lt [of "blk_end ?b"] by simp
  then have "unat (ucast a + sz) = unat a + unat sz"
    using unat_add_nowrap [of "ucast a" sz] by simp
  then show "unat (ucast (ucast a + sz) :: u32) = unat a + unat sz"
    using lt by (simp add: unat_ucast64)
  have "a < runtime_bmem_top s" using t by blast
  then show "blk_end ?b \<le> runtime_bmem_top s"
    using ok sa unfolding blk_ok_def by (meson leD order_trans)
qed

lemma boottime_taken_live:
  assumes "bmem_wf s" and "boottime_taken s sz align i a s'"
  shows "live s' = (let b = live s ! i; aend = ucast (ucast a + sz) in
           if aend \<noteq> blk_end b then (live s)[i := b\<lparr> blk_start := aend \<rparr>]
           else take i (live s) @ drop (Suc i) (live s))"
proof -
  have i: "i < num_blks s" "i < length (blk s)" using assms(2) by (auto simp: boottime_taken_def Let_def)
  have b: "blk s ! i = live s ! i" using live_nth [OF assms(1) i(1)] by simp
  have "num_blks s \<le> length (blk s)" using assms(1) by (simp add: bmem_wf_def)
  note shift = take_blk_shift [OF i(1) this]
  have "take i (blk s) = take i (live s)" using i(1) by (simp add: live_def)
  then show ?thesis
    using assms(2) i(1) shift unfolding boottime_taken_def Let_def b
    by (cases "(ucast (ucast a + sz) :: u32) = blk_end (live s ! i)")
      (simp_all add: live_def take_update_swap)
qed

lemma boottime_taken_wf:
  assumes "bmem_wf s" and "boottime_taken s sz align i a s'"
    and "unat align = 2 ^ k" and "k < 32"
  shows "bmem_wf s'"
proof -
  let ?b = "live s ! i" and ?t = "runtime_bmem_top s" and ?e = "ucast (ucast a + sz) :: u32"
  note ar = boottime_taken_arith [OF assms]
  have i: "i < length (live s)"
    using live_nth [OF assms(1)] assms(2) by (auto simp: boottime_taken_def Let_def)
  note wf = bmem_wfD [OF assms(1)]
  have ok: "blk_ok ?t ?b" using blks_wf_nth [OF wf i] .
  have e: "a \<le> ?e" "?e \<le> blk_end ?b" using ar(2,4) by (simp_all add: word_le_nat_alt)
  have "blk_ok ?t (?b\<lparr> blk_start := ?e \<rparr>)"
    using ok ar(1,5) e by (auto simp: blk_ok_def)
  then have "blks_wf ?t ((live s)[i := ?b\<lparr> blk_start := ?e \<rparr>])"
    using ar(1) e blks_wf_nth [OF wf] by (intro blks_wf_update [OF wf i]) auto
  then have "blks_wf ?t (live s')"
    using boottime_taken_live [OF assms(1,2)] blks_wf_remove [OF wf i] by (simp add: Let_def)
  moreover have "runtime_bmem_top s' = ?t" "length (blk s') = length (blk s)" "num_blks s' \<le> num_blks s"
    using assms(2) by (auto simp: boottime_taken_def Let_def)
  moreover have "?e \<le> 0x100000" using ok e(2) unfolding blk_ok_def by (meson order_trans)
  then have "boottime_bmem_bot s' \<le> 0x100000"
    using assms(1,2) by (auto simp: boottime_taken_def Let_def bmem_wf_def)
  ultimately show ?thesis using assms(1) by (auto simp: bmem_wf_def)
qed

lemma boottime_taken_free:
  assumes "bmem_wf s" and "boottime_taken s sz align i a s'"
    and "unat align = 2 ^ k" and "k < 32"
  shows "{unat a..<unat a + unat sz} \<subseteq> bmem_free s"
    and "bmem_free s' \<subseteq> bmem_free s - {unat a..<unat a + unat sz}"
proof -
  let ?b = "live s ! i" and ?A = "{unat a..<unat a + unat sz}" and ?e = "ucast (ucast a + sz) :: u32"
  note ar = boottime_taken_arith [OF assms]
  have i: "i < length (live s)"
    using live_nth [OF assms(1)] assms(2) by (auto simp: boottime_taken_def Let_def)
  have A: "?A \<subseteq> blk_bytes ?b"
    using ar(1,2) by (auto simp: blk_bytes_def word_le_nat_alt)
  then show "?A \<subseteq> bmem_free s" using i by (auto simp: bmem_free_def blks_free_nth)
  note cut = blks_free_cut [OF bmem_wfD [OF assms(1)] i A]
  have "blk_bytes (?b\<lparr> blk_start := ?e \<rparr>) \<subseteq> blk_bytes ?b - ?A"
    using ar(1,4) by (auto simp: blk_bytes_def word_le_nat_alt)
  from cut [OF this] cut [of "{}"] show "bmem_free s' \<subseteq> bmem_free s - ?A"
    unfolding bmem_free_def boottime_taken_live [OF assms(1,2)] Let_def
    by (auto simp: blks_free_update [OF i] blks_free_remove [OF i])
qed

lemma bmem_alloc_boottime_spec:
  assumes "bmem_wf s" and "pow2_align align" and "bmem_alloc_boottime s sz align = Inr (a, s')"
  shows "bmem_wf s'" and "{unat a..<unat a + unat sz} \<subseteq> bmem_free s"
    and "bmem_free s' \<subseteq> bmem_free s - {unat a..<unat a + unat sz}"
    and "unat align dvd unat a" and "runtime_bmem_top s' = runtime_bmem_top s"
    and "boottime_bmem_bot s \<le> boottime_bmem_bot s'"
    and "unat a + unat sz \<le> unat (boottime_bmem_bot s')"
    and "unat a + unat sz \<le> unat (runtime_bmem_top s')"
proof -
  obtain i where t: "boottime_taken s sz align i a s'"
    using bmem_alloc_boottime_from_Inr [OF assms(3) [unfolded bmem_alloc_boottime_def]] by blast
  obtain k where k: "unat align = 2 ^ k" "k < 32" using assms(2) by (auto simp: pow2_align_def)
  note ar = boottime_taken_arith [OF assms(1) t k]
  show "bmem_wf s'" by (rule boottime_taken_wf [OF assms(1) t k])
  show "{unat a..<unat a + unat sz} \<subseteq> bmem_free s"
    and "bmem_free s' \<subseteq> bmem_free s - {unat a..<unat a + unat sz}"
    by (rule boottime_taken_free [OF assms(1) t k])+
  show "unat align dvd unat a" by (rule ar(3))
  show top: "runtime_bmem_top s' = runtime_bmem_top s"
    using t by (auto simp: boottime_taken_def Let_def)
  have bot: "boottime_bmem_bot s' = max (boottime_bmem_bot s) (ucast (ucast a + sz))"
    using t by (auto simp: boottime_taken_def Let_def)
  show "boottime_bmem_bot s \<le> boottime_bmem_bot s'" by (simp add: bot)
  have "(ucast (ucast a + sz) :: u32) \<le> boottime_bmem_bot s'" by (simp add: bot)
  then show "unat a + unat sz \<le> unat (boottime_bmem_bot s')" using ar(4) by (simp add: word_le_nat_alt)
  show "unat a + unat sz \<le> unat (runtime_bmem_top s')"
    using ar(2,5) unfolding top word_le_nat_alt by linarith
qed

subsection \<open>The allocator contract\<close>

interpretation bm: block_allocator bmem_request bmem_req_size bmem_req_ok bmem_free bmem_wf
proof
  fix s r a s'
  assume wf: "bmem_wf s" and ok: "bmem_req_ok r" and eq: "bmem_request s r = Inr (a, s')"
  have "bmem_wf s' \<and> {a..<a + bmem_req_size r} \<subseteq> bmem_free s \<and>
      bmem_free s' \<subseteq> bmem_free s - {a..<a + bmem_req_size r}"
  proof (cases r)
    case (Run_time sz align)
    with eq obtain w where "bmem_alloc s sz align = Inr (w, s')" "a = unat w" by (auto simp: res_simps)
    with ok Run_time show ?thesis using bmem_alloc_spec(1-3) [OF wf, of align sz w s'] by simp
  next
    case (Boot_time sz align)
    with eq obtain w where "bmem_alloc_boottime s sz align = Inr (w, s')" "a = unat w"
      by (auto simp: res_simps)
    with ok Boot_time show ?thesis using bmem_alloc_boottime_spec(1-3) [OF wf, of align sz w s'] by simp
  qed
  then show "bmem_wf s'" and "{a..<a + bmem_req_size r} \<subseteq> bmem_free s"
    and "bmem_free s' \<subseteq> bmem_free s - {a..<a + bmem_req_size r}" by blast+
qed

text \<open>
  Which side of the watermarks a block lies on: boot-time blocks end below
  \<^verbatim>\<open>boottime_bmem_bot\<close>, run-time blocks start at or above \<^verbatim>\<open>runtime_bmem_top\<close>.
\<close>

fun on_its_side :: "bmem_state \<Rightarrow> bmem_req \<Rightarrow> nat \<Rightarrow> bool" where
  "on_its_side s (Run_time sz align) a \<longleftrightarrow> unat (runtime_bmem_top s) \<le> a"
| "on_its_side s (Boot_time sz align) a \<longleftrightarrow> a + unat sz \<le> unat (boottime_bmem_bot s)"

definition marks_le :: "bmem_state \<Rightarrow> bmem_state \<Rightarrow> bool" where
  "marks_le s s' \<longleftrightarrow>
     boottime_bmem_bot s \<le> boottime_bmem_bot s' \<and> runtime_bmem_top s' \<le> runtime_bmem_top s"

lemma marks_le_trans: "marks_le s t \<Longrightarrow> marks_le t u \<Longrightarrow> marks_le s u"
  by (auto simp: marks_le_def)

lemma on_its_side_mono: "on_its_side s r a \<Longrightarrow> marks_le s s' \<Longrightarrow> on_its_side s' r a"
  by (cases r) (auto simp: marks_le_def word_le_nat_alt)

lemma bmem_request_marks:
  assumes "bmem_wf s" and "bmem_req_ok r" and "bmem_request s r = Inr (a, s')"
  shows "marks_le s s' \<and> on_its_side s' r a"
proof (cases r)
  case (Run_time sz align)
  with assms(3) obtain w where "bmem_alloc s sz align = Inr (w, s')" "a = unat w" by (auto simp: res_simps)
  with assms(2) Run_time show ?thesis
    using bmem_alloc_spec(5,6) [OF assms(1), of align sz w s']
    by (simp add: marks_le_def word_le_nat_alt [symmetric])
next
  case (Boot_time sz align)
  with assms(3) obtain w where "bmem_alloc_boottime s sz align = Inr (w, s')" "a = unat w"
    by (auto simp: res_simps)
  with assms(2) Boot_time show ?thesis
    using bmem_alloc_boottime_spec(5-7) [OF assms(1), of align sz w s'] by (simp add: marks_le_def)
qed

lemma bmem_run_marks:
  "bmem_wf s \<Longrightarrow> list_all bmem_req_ok rs \<Longrightarrow> alloc_run bmem_request s rs = Inr (as, s') \<Longrightarrow>
     marks_le s s' \<and> list_all2 (on_its_side s') rs as"
proof (induction rs arbitrary: s as)
  case (Cons r rs)
  then obtain a t as' where step: "bmem_request s r = Inr (a, t)"
    and run: "alloc_run bmem_request t rs = Inr (as', s')" and as: "as = a # as'"
    by (auto simp: res_simps)
  have "bmem_wf t" using bm.alloc_wf [OF _ _ step] Cons.prems by simp
  then have "marks_le t s' \<and> list_all2 (on_its_side s') rs as'"
    using Cons.IH [OF _ _ run] Cons.prems by simp
  moreover have "marks_le s t \<and> on_its_side t r a"
    using bmem_request_marks [OF _ _ step] Cons.prems by simp
  ultimately show ?case unfolding as by (auto intro: marks_le_trans on_its_side_mono)
qed (auto simp: res_simps marks_le_def)

subsection \<open>When an allocation fails\<close>

text \<open>A block has room for a request when an aligned piece of the size fits inside it.\<close>

definition aligned_hole :: "blk_info \<Rightarrow> nat \<Rightarrow> nat \<Rightarrow> bool" where
  "aligned_hole b sz align \<longleftrightarrow>
     (\<exists>x. unat (blk_start b) \<le> x \<and> align dvd x \<and> x + sz \<le> unat (blk_end b))"

lemma aligned_hole_fits: "aligned_hole b sz align \<Longrightarrow> unat (blk_start b) + sz \<le> unat (blk_end b)"
  by (auto simp: aligned_hole_def)

lemma not_ucast_diff_less:
  "b \<le> a \<Longrightarrow> \<not> ucast (a - b :: u32) < (sz::u64) \<longleftrightarrow> unat b + unat sz \<le> unat a"
  by (auto simp: ucast_less_u64_iff unat_sub word_le_nat_alt)

lemma runtime_branch:
  fixes align sz :: u64
  assumes "blk_start b \<le> blk_end b" and "unat align = 2 ^ k" and "k < 32"
  shows "\<not> ucast (blk_end b - blk_start b) < sz \<and>
      \<not> ucast ((ucast (blk_end b) - sz) AND ucast (- (ucast align :: u32))) < blk_start b
    \<longleftrightarrow> aligned_hole b (unat sz) (unat align)"
proof (cases "unat (blk_start b) + unat sz \<le> unat (blk_end b)")
  case True
  let ?d = "unat (blk_end b) - unat sz"
  have u: "unat (ucast ((ucast (blk_end b) - sz) AND ucast (- (ucast align :: u32))) :: u32)
      = ?d div 2 ^ k * 2 ^ k" using True by (intro unat_runtime_start [OF assms(2,3)]) simp
  have "unat (blk_start b) \<le> ?d div 2 ^ k * 2 ^ k \<longleftrightarrow> aligned_hole b (unat sz) (2 ^ k)"
  proof
    assume "unat (blk_start b) \<le> ?d div 2 ^ k * 2 ^ k"
    moreover have "?d div 2 ^ k * 2 ^ k + unat sz \<le> unat (blk_end b)"
      using div_times_le [of ?d "2 ^ k"] True by linarith
    ultimately show "aligned_hole b (unat sz) (2 ^ k)"
      unfolding aligned_hole_def by (meson dvd_triv_right)
  next
    assume "aligned_hole b (unat sz) (2 ^ k)"
    then obtain x where x: "unat (blk_start b) \<le> x" "2 ^ k dvd x" "x + unat sz \<le> unat (blk_end b)"
      by (auto simp: aligned_hole_def)
    then have "x \<le> ?d div 2 ^ k * 2 ^ k" by (intro div_times_ge_dvd) auto
    with x(1) show "unat (blk_start b) \<le> ?d div 2 ^ k * 2 ^ k" by simp
  qed
  then show ?thesis
    using True u assms(2) not_ucast_diff_less [OF assms(1), of sz] by (simp add: word_less_nat_alt not_less)
next
  case False
  then show ?thesis
    using not_ucast_diff_less [OF assms(1), of sz] aligned_hole_fits by blast
qed

lemma boottime_start_least:
  fixes align :: u64
  assumes "unat align = 2 ^ k" and "k < 32" and "unat bstart \<le> 0x100000"
    and "unat bstart \<le> x" and "unat align dvd x"
  shows "unat ((bstart + ucast align - 1) AND - (ucast align :: u32)) \<le> x"
proof -
  have "0 < (2::nat) ^ k" by simp
  then have "unat bstart + 2 ^ k - 1 < x + 2 ^ k" using assms(4) by linarith
  moreover obtain q where q: "x = 2 ^ k * q" using assms(1,5) by auto
  ultimately have "(unat bstart + 2 ^ k - 1) div 2 ^ k < q + 1"
    by (simp add: less_mult_imp_div_less algebra_simps)
  then show ?thesis unfolding unat_boottime_start [OF assms(1-3)] using q by simp
qed

lemma boottime_start_ok:
  fixes align :: u64
  assumes "unat align = 2 ^ k" and "k < 32" and "unat bstart \<le> 0x100000"
  shows "unat bstart \<le> unat ((bstart + ucast align - 1) AND - (ucast align :: u32))"
    and "unat align dvd unat ((bstart + ucast align - 1) AND - (ucast align :: u32))"
proof -
  show "unat bstart \<le> unat ((bstart + ucast align - 1) AND - (ucast align :: u32))"
    unfolding unat_boottime_start [OF assms] by (rule align_up_ge) simp
  show "unat align dvd unat ((bstart + ucast align - 1) AND - (ucast align :: u32))"
    unfolding unat_boottime_start [OF assms] assms(1) by simp
qed

lemma boottime_branch:
  fixes align sz :: u64
  assumes "blk_start b \<le> blk_end b" and "unat align = 2 ^ k" and "k < 32"
    and "unat (blk_start b) \<le> 0x100000"
  defines "a \<equiv> (blk_start b + ucast align - 1) AND - (ucast align :: u32)"
  shows "\<not> ucast (blk_end b - blk_start b) < sz \<and> \<not> a > blk_end b \<and> \<not> ucast (blk_end b - a) < sz
    \<longleftrightarrow> aligned_hole b (unat sz) (unat align)"
proof -
  note ok = boottime_start_ok [OF assms(2,3,4), folded a_def]
    and least = boottime_start_least [OF assms(2,3,4), folded a_def]
  have ge: "unat (blk_start b) \<le> unat a" by (rule ok)
  have "unat a + unat sz \<le> unat (blk_end b) \<longleftrightarrow> aligned_hole b (unat sz) (unat align)"
    unfolding aligned_hole_def using ok least by (meson add_le_mono1 le_trans)
  moreover have "\<not> ucast (blk_end b - blk_start b) < sz \<and> \<not> a > blk_end b \<and> \<not> ucast (blk_end b - a) < sz
      \<longleftrightarrow> unat a + unat sz \<le> unat (blk_end b)"
    using not_ucast_diff_less [OF assms(1), of sz] not_ucast_diff_less [of a "blk_end b" sz] ge
    by (auto simp: not_less word_le_nat_alt)
  ultimately show ?thesis by blast
qed

lemma bmem_alloc_from_Inl:
  assumes "bmem_wf s" and "unat align = 2 ^ k" and "k < 32" and "n \<le> num_blks s"
  shows "bmem_alloc_from s sz align n = Inl e \<longleftrightarrow>
    e = Error ''cannot alloc. from base mem.!'' \<and> (\<forall>i<n. \<not> aligned_hole (live s ! i) (unat sz) (unat align))"
  using assms(4)
proof (induction n)
  case (Suc n)
  let ?b = "live s ! n"
  have b: "n < length (live s)" "blk s ! n = ?b" "n < length (blk s)"
    using live_nth [OF assms(1), of n] Suc.prems by (auto simp: live_def)
  have "blk_start ?b \<le> blk_end ?b"
    using blks_wf_nth [OF bmem_wfD [OF assms(1)] b(1)] by (simp add: blk_ok_def)
  note branch = runtime_branch [OF this assms(2,3), of sz]
  show ?case
  proof (cases "aligned_hole ?b (unat sz) (unat align)")
    case True
    then show ?thesis using branch b(2,3) by (auto simp: Let_def)
  next
    case False
    then have "bmem_alloc_from s sz align (Suc n) = bmem_alloc_from s sz align n"
      using branch b(2,3) by (auto simp: Let_def)
    then show ?thesis using Suc False by (auto simp: less_Suc_eq)
  qed
qed auto

text \<open>Boot-time data must start below the run-time watermark.\<close>

definition aligned_hole_below :: "blk_info \<Rightarrow> nat \<Rightarrow> nat \<Rightarrow> nat \<Rightarrow> bool" where
  "aligned_hole_below b sz align lim \<longleftrightarrow>
     (\<exists>x. unat (blk_start b) \<le> x \<and> x < lim \<and> align dvd x \<and> x + sz \<le> unat (blk_end b))"

lemma aligned_hole_belowD: "aligned_hole_below b sz align lim \<Longrightarrow> aligned_hole b sz align"
  by (auto simp: aligned_hole_below_def aligned_hole_def)

lemma no_hole_below_above:
  assumes "bmem_wf s" and "n \<le> i" and "i < num_blks s" and "runtime_bmem_top s \<le> a" and "a \<le> blk_end (live s ! n)"
    and "i = n \<Longrightarrow> \<not> aligned_hole_below (live s ! n) sz align (unat (runtime_bmem_top s))"
  shows "\<not> aligned_hole_below (live s ! i) sz align (unat (runtime_bmem_top s))"
proof (cases "i = n")
  case False
  then have "n < i" using assms(2) by simp
  have i: "i < length (live s)" using live_nth [OF assms(1,3)] by simp
  note wf = bmem_wfD [OF assms(1)]
  have "blk_end (live s ! n) \<le> blk_start (live s ! i)"
    using blks_wf_order [OF wf \<open>n < i\<close> i] blks_wf_nth [OF wf, of n] \<open>n < i\<close> i by (auto simp: blk_ok_def)
  with assms(4,5) have "runtime_bmem_top s \<le> blk_start (live s ! i)" by auto
  then show ?thesis by (auto simp: aligned_hole_below_def word_le_nat_alt)
qed (use assms(6) in simp)

lemma bmem_alloc_boottime_from_Inl:
  assumes "bmem_wf s" and "unat align = 2 ^ k" and "k < 32"
  shows "bmem_alloc_boottime_from s sz align n = Inl e \<longleftrightarrow>
    e = Error ''cannot alloc. for boot time from base mem.!'' \<and>
    (\<forall>i. n \<le> i \<longrightarrow> i < num_blks s \<longrightarrow>
       \<not> aligned_hole_below (live s ! i) (unat sz) (unat align) (unat (runtime_bmem_top s)))"
proof (induction "num_blks s - n" arbitrary: n rule: less_induct)
  case less
  let ?b = "live s ! n" and ?t = "runtime_bmem_top s"
  let ?a = "(blk_start ?b + ucast align - 1) AND - (ucast align :: u32)"
  note unf = bmem_alloc_boottime_from.simps [of s sz align n]
  show ?case
  proof (cases "n < num_blks s")
    case n: True
    have b: "n < length (live s)" "blk s ! n = ?b" "n < length (blk s)"
      using live_nth [OF assms(1) n] n by (auto simp: live_def)
    have ok: "blk_ok ?t ?b" using blks_wf_nth [OF bmem_wfD [OF assms(1)] b(1)] .
    then have se: "blk_start ?b \<le> blk_end ?b" and s1: "unat (blk_start ?b) \<le> 0x100000"
      by (auto simp: blk_ok_def word_le_nat_alt)
    note branch = boottime_branch [OF se assms(2,3) s1, of sz]
    show ?thesis
    proof (cases "aligned_hole ?b (unat sz) (unat align)")
      case hole: True
      then have fit: "\<not> ucast (blk_end ?b - blk_start ?b) < sz" "\<not> ?a > blk_end ?b" "\<not> ucast (blk_end ?b - ?a) < sz"
        using branch by blast+
      have le: "unat ?a + unat sz \<le> unat (blk_end ?b)"
        using fit(2,3) not_ucast_diff_less [of ?a "blk_end ?b" sz] by (simp add: not_less)
      show ?thesis
      proof (cases "?a < ?t")
        case True
        have "aligned_hole_below ?b (unat sz) (unat align) (unat ?t)"
          using True le boottime_start_ok [OF assms(2,3) s1] unfolding aligned_hole_below_def word_less_nat_alt by blast
        moreover have "\<not> ?t \<le> ?a" using True by simp
        then have "\<exists>r. bmem_alloc_boottime_from s sz align n = Inr r"
          unfolding unf using n b(2,3) fit by (simp only: Let_def arr_get_ok bindr_Inr if_True if_False) auto
        ultimately show ?thesis using n by auto
      next
        case False
        then have "?t \<le> ?a" by simp
        then have "bmem_alloc_boottime_from s sz align n
            = Inl (Error ''cannot alloc. for boot time from base mem.!'')"
          unfolding unf using n b(2,3) fit by (simp only: Let_def arr_get_ok bindr_Inr if_True if_False)
        moreover have "\<not> aligned_hole_below ?b (unat sz) (unat align) (unat ?t)"
          using boottime_start_least [OF assms(2,3) s1] False
          unfolding aligned_hole_below_def not_less word_le_nat_alt by (meson leD le_trans)
        ultimately show ?thesis
          using no_hole_below_above [OF assms(1), of n _ ?a "unat sz" "unat align"] False fit(2)
          by (auto simp: not_less)
      qed
    next
      case False
      then have "bmem_alloc_boottime_from s sz align n = bmem_alloc_boottime_from s sz align (Suc n)"
        unfolding unf using n b(2,3) branch by (auto simp: Let_def)
      moreover have "num_blks s - Suc n < num_blks s - n" using n by simp
      moreover have "n < num_blks s \<longrightarrow>
          \<not> aligned_hole_below ?b (unat sz) (unat align) (unat ?t)"
        using False aligned_hole_belowD by blast
      note all_ge_Suc [where P = "\<lambda>i. i < num_blks s \<longrightarrow>
          \<not> aligned_hole_below (live s ! i) (unat sz) (unat align) (unat ?t)", OF this]
      ultimately show ?thesis using less.hyps [of "Suc n"] by simp
    qed
  next
    case False
    then show ?thesis unfolding unf by auto
  qed
qed

subsection \<open>Properties\<close>

lemma blocks_on_side_avoid_gap:
  "list_all2 (on_its_side s) rs as \<Longrightarrow> B \<in> set (blocks_of bmem_req_size as rs) \<Longrightarrow>
     B \<inter> {unat (boottime_bmem_bot s)..<unat (runtime_bmem_top s)} = {}"
proof (induction rs as rule: list_all2_induct)
  case (Cons r rs a as)
  then show ?case by (cases r) auto
qed simp

text \<open>
  C10. Blocks handed out by any sequence of run-time and boot-time requests, interleaved in
  any order, are pairwise disjoint, lie in memory that was free at the start, and are not
  free at the end.
\<close>

theorem bmem_blocks_disjoint:
  assumes "bmem_wf s" and "list_all bmem_req_ok rs" and "alloc_run bmem_request s rs = Inr (as, s')"
  shows "length as = length rs \<and> pairwise_disjoint (blocks_of bmem_req_size as rs) \<and>
    (\<forall>B\<in>set (blocks_of bmem_req_size as rs). B \<subseteq> bmem_free s \<and> B \<inter> bmem_free s' = {})"
  using assms by (rule bm.run_blocks)

text \<open>
  C35. After any sequence of requests the scratch area that stage 2 is promised, from
  \<^verbatim>\<open>boottime_bmem_bot\<close> up to \<^verbatim>\<open>runtime_bmem_top\<close>, meets no block that was handed out, and the
  block table is still well formed.
\<close>

theorem bmem_scratch_area_free:
  assumes "bmem_wf s" and "list_all bmem_req_ok rs" and "alloc_run bmem_request s rs = Inr (as, s')"
  shows "bmem_wf s' \<and> list_all2 (on_its_side s') rs as \<and>
    (\<forall>B\<in>set (blocks_of bmem_req_size as rs).
       B \<inter> {unat (boottime_bmem_bot s')..<unat (runtime_bmem_top s')} = {})"
  using bmem_run_marks [OF assms] bm.run_wf [OF assms] blocks_on_side_avoid_gap by blast

text \<open>
  \<^verbatim>\<open>bmem_alloc\<close> reports an error exactly when no live block has an aligned hole of the
  requested size; in particular it never indexes outside the block table.
\<close>

lemma bmem_alloc_fails_iff:
  assumes "bmem_wf s" and "pow2_align align"
  shows "bmem_alloc s sz align = Inl e \<longleftrightarrow>
    e = Error ''cannot alloc. from base mem.!'' \<and>
    (\<forall>b\<in>set (live s). \<not> aligned_hole b (unat sz) (unat align))"
proof -
  obtain k where k: "unat align = 2 ^ k" "k < 32" using assms(2) by (auto simp: pow2_align_def)
  have "length (live s) = num_blks s" using assms(1) by (simp add: live_def bmem_wf_def)
  then show ?thesis
    using bmem_alloc_from_Inl [OF assms(1) k order_refl, of sz e] by (auto simp: bmem_alloc_def all_set_conv_all_nth)
qed

text \<open>
  \<^verbatim>\<open>bmem_alloc_boottime\<close> reports an error exactly when no live block has an aligned hole of
  the requested size that starts below the run-time watermark.
\<close>

lemma bmem_alloc_boottime_fails_iff:
  assumes "bmem_wf s" and "pow2_align align"
  shows "bmem_alloc_boottime s sz align = Inl e \<longleftrightarrow>
    e = Error ''cannot alloc. for boot time from base mem.!'' \<and>
    (\<forall>b\<in>set (live s).
       \<not> aligned_hole_below b (unat sz) (unat align) (unat (runtime_bmem_top s)))"
proof -
  obtain k where k: "unat align = 2 ^ k" "k < 32" using assms(2) by (auto simp: pow2_align_def)
  have "length (live s) = num_blks s" using assms(1) by (simp add: live_def bmem_wf_def)
  then show ?thesis
    using bmem_alloc_boottime_from_Inl [OF assms(1) k, of sz 0 e]
    by (auto simp: bmem_alloc_boottime_def all_set_conv_all_nth)
qed

subsection \<open>Witnesses\<close>

definition bmem_ex :: bmem_state where
  "bmem_ex = \<lparr> num_blks = Suc (Suc 0),
     blk = [\<lparr> blk_start = 0x1000, blk_end = 0x9f000, blk_orig_end = 0x9f000 \<rparr>,
            \<lparr> blk_start = 0xe0000, blk_end = 0xe1000, blk_orig_end = 0xe1000 \<rparr>]
           @ replicate 126 \<lparr> blk_start = 0, blk_end = 0, blk_orig_end = 0 \<rparr>,
     boottime_bmem_bot = 0x1000, runtime_bmem_top = 0x9f000, bmem_uefi_attr = 8 \<rparr>"

definition bmem_ex_reqs :: "bmem_req list" where
  "bmem_ex_reqs = [Run_time 0x1800 0x800, Boot_time 40 8, Run_time 0x400 0x200, Boot_time 100 16]"

lemma bmem_ex_wf: "bmem_wf bmem_ex"
  by (simp add: bmem_wf_def bmem_ex_def live_def blks_wf_def blk_ok_def blk_before_def
      MAX_BMEM_BLKS_def EFI_PAGE_SIZE_def)

lemma pow2_align_ex: "pow2_align 8" "pow2_align 16" "pow2_align 0x200" "pow2_align 0x800"
  unfolding pow2_align_def
  by (rule exI [of _ 3], simp, rule exI [of _ 4], simp, rule exI [of _ 9], simp, rule exI [of _ 11], simp)

lemma bmem_ex_reqs_ok: "list_all bmem_req_ok bmem_ex_reqs"
  by (simp add: bmem_ex_reqs_def pow2_align_ex)

lemma bmem_ex_run:
  "\<exists>s'. alloc_run bmem_request bmem_ex bmem_ex_reqs = Inr ([0x9d800, 0x1000, 0xe0c00, 0x1030], s')"
  by (simp add: bmem_ex_def bmem_ex_reqs_def bmem_alloc_def bmem_alloc_boottime_def
      bmem_alloc_boottime_from.simps Let_def)

theorem bmem_blocks_disjoint_witness:
  "bmem_wf bmem_ex \<and> list_all bmem_req_ok bmem_ex_reqs \<and>
   (\<exists>as s'. alloc_run bmem_request bmem_ex bmem_ex_reqs = Inr (as, s') \<and> length as = 4 \<and>
      pairwise_disjoint (blocks_of bmem_req_size as bmem_ex_reqs))"
proof -
  obtain as s' where run: "alloc_run bmem_request bmem_ex bmem_ex_reqs = Inr (as, s')"
    using bmem_ex_run by blast
  show ?thesis
    using bmem_ex_wf bmem_ex_reqs_ok run bmem_blocks_disjoint [OF bmem_ex_wf bmem_ex_reqs_ok run]
    by (auto simp: bmem_ex_reqs_def)
qed

theorem bmem_scratch_area_free_witness:
  "bmem_wf bmem_ex \<and> list_all bmem_req_ok bmem_ex_reqs \<and>
   (\<exists>as s'. alloc_run bmem_request bmem_ex bmem_ex_reqs = Inr (as, s') \<and> bmem_wf s' \<and>
      list_all2 (on_its_side s') bmem_ex_reqs as)"
proof -
  obtain as s' where run: "alloc_run bmem_request bmem_ex bmem_ex_reqs = Inr (as, s')"
    using bmem_ex_run by blast
  show ?thesis
    using bmem_ex_wf bmem_ex_reqs_ok run bmem_scratch_area_free [OF bmem_ex_wf bmem_ex_reqs_ok run]
    by blast
qed

end
