(* ===== verification/Bparm.thy ===== *)
theory Bparm
  imports Bmem
begin

text \<open>
  Boot parameters, the protocol between the two stages: \<^verbatim>\<open>stage1/bparm.c\<close> builds a linked
  list of nodes in base memory that comes from the boot-time allocator, in the layout of
  \<^verbatim>\<open>bparm.h\<close>, and stage 2 walks the same bytes with 32-bit pointers. The lists are modelled
  byte by byte in memory. \<open>bparm_rep\<close> is the refinement relation to an abstract list of
  nodes: adding a node appends to it, filling in a node's data changes that node only, and
  the 32-bit walk of stage 2 visits exactly these nodes in this order.
\<close>

unbundle bit_operations_syntax

subsection \<open>Layout\<close>

definition BP_PCID :: u32 where "BP_PCID = MAGIC32 CHR ''P'' CHR ''C'' CHR ''I'' CHR ''D''"
definition BP_BMEM :: u32 where "BP_BMEM = MAGIC32 CHR ''B'' CHR ''M'' CHR ''E'' CHR ''M''"
definition BP_MRNG :: u32 where "BP_MRNG = MAGIC32 CHR ''M'' CHR ''R'' CHR ''N'' CHR ''G''"
definition BP_RSDP :: u32 where "BP_RSDP = MAGIC32 CHR ''R'' CHR ''S'' CHR ''D'' CHR ''P''"

text \<open>
  Offsets in the packed node: \<^verbatim>\<open>next\<close> at 0 (with the upper half reserved in 32-bit mode),
  \<^verbatim>\<open>type\<close> at 8, \<^verbatim>\<open>size\<close> at 12, the data at 16.
\<close>

definition sizeof_bparm :: nat where "sizeof_bparm = 16"

record bdat_mem_range =
  mr_start :: u64
  mr_len :: u64
  mr_e820_type :: u32
  mr_e820_ext_attr :: u32
  mr_uefi_attr :: u64

definition sizeof_mem_range :: u32 where "sizeof_mem_range = 32"

definition wr_mem_range :: "mem \<Rightarrow> nat \<Rightarrow> bdat_mem_range \<Rightarrow> mem" where
  "wr_mem_range m bd r =
     (let m1 = wr64 m bd (mr_start r);
          m2 = wr64 m1 (bd + 8) (mr_len r);
          m3 = wr32 m2 (bd + 16) (mr_e820_type r);
          m4 = wr32 m3 (bd + 20) (mr_e820_ext_attr r)
      in wr64 m4 (bd + 24) (mr_uefi_attr r))"

definition rd_mem_range :: "mem \<Rightarrow> nat \<Rightarrow> bdat_mem_range" where
  "rd_mem_range m bd = \<lparr> mr_start = rd64 m bd, mr_len = rd64 m (bd + 8), mr_e820_type = rd32 m (bd + 16),
     mr_e820_ext_attr = rd32 m (bd + 20), mr_uefi_attr = rd64 m (bd + 24) \<rparr>"

subsection \<open>Building the list\<close>

text \<open>The static variables of \<^verbatim>\<open>bparm.c\<close>, with the allocator's state and the memory it manages.\<close>

record bparm_state =
  bmem :: bmem_state
  memory :: mem
  bp_head :: u64
  bp_tail :: u64

definition bparm_add :: "bparm_state \<Rightarrow> u32 \<Rightarrow> u32 \<Rightarrow> (u64 \<times> bparm_state) res" where
  "bparm_add st type sz =
     bindr (bmem_alloc_boottime (bmem st) (word_of_nat sizeof_bparm + ucast sz) 8) (\<lambda>(bp, bm).
       let m1 = (if bp_head st = 0 then memory st
                 else wr64 (memory st) (unat (bp_tail st)) (ucast bp));
           m2 = wr64 m1 (unat bp) 0;
           m3 = wr32 m2 (unat bp + 8) type;
           m4 = wr32 m3 (unat bp + 12) sz;
           m5 = put_bytes m4 (unat bp + sizeof_bparm) (replicate (unat sz) 0)
       in Inr (ucast bp + word_of_nat sizeof_bparm,
            st\<lparr> bmem := bm, memory := m5,
                bp_head := if bp_head st = 0 then ucast bp else bp_head st,
                bp_tail := ucast bp \<rparr>))"

text \<open>The pointer it returns is null for an empty range.\<close>

definition bparm_add_mem_range :: "bparm_state \<Rightarrow> bdat_mem_range \<Rightarrow> (u64 \<times> bparm_state) res" where
  "bparm_add_mem_range st r =
     (if mr_len r = 0 then Inr (0, st)
      else bindr (bparm_add st BP_MRNG sizeof_mem_range) (\<lambda>(bd, st').
        Inr (bd, st'\<lparr> memory := wr_mem_range (memory st') (unat bd) r \<rparr>)))"

definition bparm_get :: "bparm_state \<Rightarrow> u64" where
  "bparm_get st = bp_head st"

subsection \<open>Walking the list in stage 2\<close>

text \<open>
  The loop \<^verbatim>\<open>for (bp = bparms; bp; bp = bp->next)\<close> of stage 2 with its body as an argument. A
  cyclic list would make it run forever, so not returning is the value \<open>None\<close>.
\<close>

partial_function (option) for_each_bparm ::
  "mem \<Rightarrow> ('a \<Rightarrow> nat \<Rightarrow> 'a res) \<Rightarrow> u32 \<Rightarrow> 'a \<Rightarrow> 'a res option" where
  "for_each_bparm m body bp acc =
     (if bp = 0 then Some (Inr acc)
      else (case body acc (unat bp) of
              Inl e \<Rightarrow> Some (Inl e)
            | Inr acc' \<Rightarrow> for_each_bparm m body (rd32 m (unat bp)) acc'))"

subsection \<open>The abstract list\<close>

record bnode =
  bn_addr :: nat
  bn_type :: u32
  bn_data :: "u8 list"

definition bn_bytes :: "bnode \<Rightarrow> nat set" where
  "bn_bytes n = {bn_addr n..<bn_addr n + sizeof_bparm + length (bn_data n)}"

fun next_of :: "bnode list \<Rightarrow> u64" where
  "next_of [] = 0"
| "next_of (n # ns) = word_of_nat (bn_addr n)"

definition node_ok :: "mem \<Rightarrow> bnode \<Rightarrow> u64 \<Rightarrow> bool" where
  "node_ok m n nxt \<longleftrightarrow>
     0 < bn_addr n \<and> bn_addr n + sizeof_bparm + length (bn_data n) \<le> 0x100000 \<and>
     rd64 m (bn_addr n) = nxt \<and> rd32 m (bn_addr n + 8) = bn_type n \<and>
     rd32 m (bn_addr n + 12) = word_of_nat (length (bn_data n)) \<and>
     get_bytes m (bn_addr n + sizeof_bparm) (length (bn_data n)) = bn_data n"

fun nodes_ok :: "mem \<Rightarrow> bnode list \<Rightarrow> bool" where
  "nodes_ok m [] \<longleftrightarrow> True"
| "nodes_ok m (n # ns) \<longleftrightarrow>
     node_ok m n (next_of ns) \<and> (\<forall>k\<in>set ns. bn_bytes n \<inter> bn_bytes k = {}) \<and> nodes_ok m ns"

definition bparm_rep :: "bparm_state \<Rightarrow> bnode list \<Rightarrow> bool" where
  "bparm_rep st ns \<longleftrightarrow>
     bmem_wf (bmem st) \<and> nodes_ok (memory st) ns \<and>
     (\<forall>n\<in>set ns. bn_bytes n \<inter> bmem_free (bmem st) = {} \<and>
        bn_bytes n \<subseteq> {..<unat (boottime_bmem_bot (bmem st))}) \<and>
     bp_head st = next_of ns \<and> (ns \<noteq> [] \<longrightarrow> bp_tail st = word_of_nat (bn_addr (last ns)))"

text \<open>The part of it that a reader of the list depends on.\<close>

definition bparm_list :: "bparm_state \<Rightarrow> bnode list \<Rightarrow> bool" where
  "bparm_list st ns \<longleftrightarrow> nodes_ok (memory st) ns \<and> bp_head st = next_of ns"

lemma bparm_rep_list: "bparm_rep st ns \<Longrightarrow> bparm_list st ns"
  by (simp add: bparm_rep_def bparm_list_def)

subsection \<open>Frame lemmas\<close>

lemma node_ok_frame:
  assumes "node_ok m n x" and "\<And>i. i \<in> bn_bytes n \<Longrightarrow> m' i = m i"
  shows "node_ok m' n x"
proof -
  have "get_bytes m' (bn_addr n + j) k = get_bytes m (bn_addr n + j) k"
    if "j + k \<le> sizeof_bparm + length (bn_data n)" for j k
    using that assms(2) by (intro get_bytes_cong) (auto simp: bn_bytes_def)
  from this [of 0 8] this [of 8 4] this [of 12 4] this [of sizeof_bparm "length (bn_data n)"]
  show ?thesis using assms(1) by (simp add: node_ok_def rd64_def rd32_def sizeof_bparm_def)
qed

lemma nodes_ok_frame:
  "nodes_ok m ns \<Longrightarrow> (\<And>i n. n \<in> set ns \<Longrightarrow> i \<in> bn_bytes n \<Longrightarrow> m' i = m i) \<Longrightarrow> nodes_ok m' ns"
  by (induction ns) (auto intro: node_ok_frame)

lemma wr64_outside: "i \<notin> {a..<a + 8} \<Longrightarrow> wr64 m a w i = m i"
  and wr32_outside: "i \<notin> {a..<a + 4} \<Longrightarrow> wr32 m a v i = m i"
  and put_outside: "i \<notin> {a..<a + length bs} \<Longrightarrow> put_bytes m a bs i = m i"
  by (auto simp: wr64_def wr32_def put_bytes_def)

lemma node_ok_link: "node_ok m n x \<Longrightarrow> node_ok (wr64 m (bn_addr n) y) n y"
  by (simp add: node_ok_def rd32_def get_bytes_wr sizeof_bparm_def)

lemma nodes_ok_append:
  "nodes_ok m ns \<Longrightarrow> ns \<noteq> [] \<Longrightarrow> \<forall>k\<in>set ns. bn_bytes k \<inter> bn_bytes n = {} \<Longrightarrow> node_ok m' n 0 \<Longrightarrow>
     (\<And>i k. k \<in> set ns \<Longrightarrow> i \<in> bn_bytes k \<Longrightarrow>
        m' i = wr64 m (bn_addr (last ns)) (word_of_nat (bn_addr n)) i) \<Longrightarrow>
     nodes_ok m' (ns @ [n])"
proof (induction ns)
  case (Cons k ns)
  let ?m = "wr64 m (bn_addr (last (k # ns))) (word_of_nat (bn_addr n))"
  show ?case
  proof (cases "ns = []")
    case True
    then have "node_ok ?m k (word_of_nat (bn_addr n))" using Cons.prems(1) by (auto intro: node_ok_link)
    then have "node_ok m' k (word_of_nat (bn_addr n))" using Cons.prems(5) by (auto intro: node_ok_frame)
    then show ?thesis using True Cons.prems(3,4) by simp
  next
    case False
    have "bn_bytes k \<inter> bn_bytes (last ns) = {}" using Cons.prems(1) False by auto
    moreover have "{bn_addr (last ns)..<bn_addr (last ns) + 8} \<subseteq> bn_bytes (last ns)"
      by (auto simp: bn_bytes_def sizeof_bparm_def)
    ultimately have "?m i = m i" if "i \<in> bn_bytes k" for i
      using that False by (intro wr64_outside) auto
    then have "m' i = m i" if "i \<in> bn_bytes k" for i
      using Cons.prems(5) [OF list.set_intros(1) that] that by simp
    then have "node_ok m' k (next_of ns)" using Cons.prems(1) by (auto intro: node_ok_frame)
    moreover have "next_of (ns @ [n]) = next_of ns" using False by (cases ns) auto
    moreover have "nodes_ok m' (ns @ [n])" using Cons.IH Cons.prems False by auto
    ultimately show ?thesis using Cons.prems(1,3) by auto
  qed
qed simp

subsection \<open>Adding a node\<close>

text \<open>The bytes that \<^verbatim>\<open>bparm_add\<close> writes into a fresh node.\<close>

definition fresh_node :: "mem \<Rightarrow> nat \<Rightarrow> u32 \<Rightarrow> u32 \<Rightarrow> mem" where
  "fresh_node m a type sz =
     put_bytes (wr32 (wr32 (wr64 m a 0) (a + 8) type) (a + 12) sz) (a + sizeof_bparm) (replicate (unat sz) 0)"

lemma fresh_node_outside: "i \<notin> {a..<a + sizeof_bparm + unat sz} \<Longrightarrow> fresh_node m a type sz i = m i"
  by (auto simp: fresh_node_def wr64_def wr32_def put_bytes_def sizeof_bparm_def)

lemma fresh_node_ok:
  assumes "0 < a" and "a + sizeof_bparm + unat sz \<le> 0x100000"
  shows "node_ok (fresh_node m a type sz) \<lparr> bn_addr = a, bn_type = type, bn_data = replicate (unat sz) 0 \<rparr> 0"
proof -
  note get = get_put_disjoint get_bytes_wr
  have "rd64 (fresh_node m a type sz) a = rd64 (wr64 m a 0) a"
    by (simp add: fresh_node_def rd64_def get sizeof_bparm_def)
  moreover have "rd32 (fresh_node m a type sz) (a + 8) = rd32 (wr32 (wr64 m a 0) (a + 8) type) (a + 8)"
    by (simp add: fresh_node_def rd32_def get sizeof_bparm_def)
  moreover have "rd32 (fresh_node m a type sz) (a + 12) =
      rd32 (wr32 (wr32 (wr64 m a 0) (a + 8) type) (a + 12) sz) (a + 12)"
    by (simp add: fresh_node_def rd32_def get sizeof_bparm_def)
  moreover have "get_bytes (fresh_node m a type sz) (a + sizeof_bparm) (unat sz) = replicate (unat sz) 0"
    by (simp add: fresh_node_def)
  ultimately show ?thesis using assms by (simp add: node_ok_def)
qed

lemma next_of_eq_0: "nodes_ok m ns \<Longrightarrow> next_of ns = 0 \<longleftrightarrow> ns = []"
proof (cases ns)
  case (Cons n ns')
  assume "nodes_ok m ns"
  then have "0 < bn_addr n" "bn_addr n < 2 ^ 64" using Cons by (auto simp: node_ok_def)
  then show ?thesis using Cons by (simp add: word_unat_eq_iff unat_of_nat)
qed simp

lemma nodes_ok_addr: "nodes_ok m ns \<Longrightarrow> n \<in> set ns \<Longrightarrow> unat (word_of_nat (bn_addr n) :: u64) = bn_addr n"
  by (induction ns) (auto simp: node_ok_def unat_of_nat)

lemma bparm_add_eq:
  assumes rep: "bparm_rep st ns" and eq: "bparm_add st type sz = Inr (p, st')"
  shows "\<exists>bp bm m1. bmem_alloc_boottime (bmem st) (word_of_nat sizeof_bparm + ucast sz) 8 = Inr (bp, bm) \<and>
    m1 = (if ns = [] then memory st else wr64 (memory st) (bn_addr (last ns)) (ucast bp)) \<and>
    p = ucast bp + word_of_nat sizeof_bparm \<and>
    st' = \<lparr> bmem = bm, memory = fresh_node m1 (unat bp) type sz,
            bp_head = if ns = [] then ucast bp else next_of ns, bp_tail = ucast bp \<rparr>"
proof -
  have head: "bp_head st = next_of ns" "bp_head st = 0 \<longleftrightarrow> ns = []"
    and tail: "ns \<noteq> [] \<Longrightarrow> unat (bp_tail st) = bn_addr (last ns)"
    using rep next_of_eq_0 nodes_ok_addr [of "memory st" ns "last ns"] by (auto simp: bparm_rep_def)
  show ?thesis
    using eq head tail
    by (cases st) (auto simp: bparm_add_def res_simps Let_def fresh_node_def)
qed

lemma bparm_add_rep:
  assumes rep: "bparm_rep st ns" and eq: "bparm_add st type sz = Inr (p, st')"
  shows "\<exists>a. bparm_rep st' (ns @ [\<lparr> bn_addr = a, bn_type = type, bn_data = replicate (unat sz) 0 \<rparr>]) \<and>
    unat p = a + sizeof_bparm"
proof -
  obtain bp bm m1 where alloc: "bmem_alloc_boottime (bmem st) (word_of_nat sizeof_bparm + ucast sz) 8 = Inr (bp, bm)"
    and m1: "m1 = (if ns = [] then memory st else wr64 (memory st) (bn_addr (last ns)) (ucast bp))"
    and p: "p = ucast bp + word_of_nat sizeof_bparm"
    and st': "st' = \<lparr> bmem = bm, memory = fresh_node m1 (unat bp) type sz,
            bp_head = if ns = [] then ucast bp else next_of ns, bp_tail = ucast bp \<rparr>"
    using bparm_add_eq [OF rep eq] by blast
  let ?a = "unat bp" and ?m = "fresh_node m1 (unat bp) type sz"
  let ?n = "\<lparr> bn_addr = ?a, bn_type = type, bn_data = replicate (unat sz) 0 \<rparr>"
  have bytes: "bn_bytes ?n = {?a..<?a + sizeof_bparm + unat sz}" by (simp add: bn_bytes_def)
  have wf: "bmem_wf (bmem st)" and ok: "nodes_ok (memory st) ns"
    and apart: "\<And>n. n \<in> set ns \<Longrightarrow> bn_bytes n \<inter> bmem_free (bmem st) = {}"
    using rep by (auto simp: bparm_rep_def)
  have sz: "unat (word_of_nat sizeof_bparm + ucast sz :: u64) = sizeof_bparm + unat sz"
    using unat_lt [of sz] by (simp add: sizeof_bparm_def unat_word_ariths)
  note spec = bmem_alloc_boottime_spec [OF wf pow2_align_8 alloc, unfolded sz]
  have free: "bn_bytes ?n \<subseteq> bmem_free (bmem st)" "bmem_free bm \<subseteq> bmem_free (bmem st) - bn_bytes ?n"
    using spec(2,3) by (auto simp: bytes add.assoc)
  have "?a \<in> bmem_free (bmem st)" using free(1) by (auto simp: bytes sizeof_bparm_def)
  then have a0: "0 < ?a" using bmem_free_bounds [OF wf] by fastforce
  have "unat (runtime_bmem_top bm) \<le> 0x100000" using spec(1) by (simp add: bmem_wf_def word_le_nat_alt)
  then have top: "?a + sizeof_bparm + unat sz \<le> 0x100000" using spec(8) by linarith
  have fresh: "node_ok ?m ?n 0" using fresh_node_ok [OF a0 top] by simp
  have disj: "\<forall>k\<in>set ns. bn_bytes k \<inter> bn_bytes ?n = {}" using apart free(1) by blast
  have out: "?m i = m1 i" if "k \<in> set ns" "i \<in> bn_bytes k" for i k
    using disj that unfolding bytes by (intro fresh_node_outside) blast
  have up: "word_of_nat ?a = (ucast bp :: u64)" by (simp add: word_unat_eq_iff unat_of_nat)
  have "nodes_ok ?m (ns @ [?n])"
  proof (cases "ns = []")
    case True
    then show ?thesis using fresh by simp
  next
    case False
    show ?thesis
      using nodes_ok_append [OF ok False disj fresh] out False by (simp add: m1 up)
  qed
  moreover have "next_of (ns @ [?n]) = (if ns = [] then ucast bp else next_of ns)"
    by (cases ns) (simp_all add: up)
  moreover have "unat (boottime_bmem_bot (bmem st)) \<le> unat (boottime_bmem_bot bm)"
    using spec(6) by (simp add: word_le_nat_alt)
  then have "bn_bytes n \<subseteq> {..<unat (boottime_bmem_bot bm)}" if "n \<in> set (ns @ [?n])" for n
    using rep spec(7) that by (fastforce simp: bparm_rep_def bn_bytes_def)
  moreover have "bn_bytes n \<inter> bmem_free bm = {}" if "n \<in> set (ns @ [?n])" for n
    using apart [of n] free(2) that by auto
  ultimately have "bparm_rep st' (ns @ [?n])"
    using spec(1) by (auto simp: bparm_rep_def st' up)
  moreover have "unat p = ?a + sizeof_bparm"
    unfolding p using unat_lt [of bp] by (simp add: sizeof_bparm_def unat_word_ariths)
  ultimately show ?thesis by blast
qed

subsection \<open>Filling in the data of a node\<close>

definition bn_data_bytes :: "bnode \<Rightarrow> nat set" where
  "bn_data_bytes n = {bn_addr n + sizeof_bparm..<bn_addr n + sizeof_bparm + length (bn_data n)}"

definition filled :: "mem \<Rightarrow> bnode \<Rightarrow> bnode" where
  "filled m n = n\<lparr> bn_data := get_bytes m (bn_addr n + sizeof_bparm) (length (bn_data n)) \<rparr>"

lemma bn_bytes_filled [simp]: "bn_bytes (filled m n) = bn_bytes n" "bn_addr (filled m n) = bn_addr n"
  by (simp_all add: filled_def bn_bytes_def)

lemma node_ok_fill:
  assumes "node_ok m n x" and "\<And>i. i \<notin> bn_data_bytes n \<Longrightarrow> m' i = m i"
  shows "node_ok m' (filled m' n) x"
proof -
  have "get_bytes m' (bn_addr n + j) k = get_bytes m (bn_addr n + j) k" if "j + k \<le> sizeof_bparm" for j k
    using that assms(2) by (intro get_bytes_cong) (auto simp: bn_data_bytes_def)
  from this [of 0 8] this [of 8 4] this [of 12 4]
  show ?thesis using assms(1) by (simp add: node_ok_def rd64_def rd32_def sizeof_bparm_def filled_def)
qed

lemma nodes_ok_fill:
  assumes "nodes_ok m (xs @ n # ys)" and "\<And>i. i \<notin> bn_data_bytes n \<Longrightarrow> m' i = m i"
  shows "nodes_ok m' (xs @ filled m' n # ys)"
  using assms(1)
proof (induction xs)
  case Nil
  have "m' i = m i" if "k \<in> set ys" "i \<in> bn_bytes k" for k i
    using Nil that by (intro assms(2)) (auto simp: bn_data_bytes_def bn_bytes_def disjoint_iff)
  then show ?case using Nil nodes_ok_frame [of m ys m'] node_ok_fill [OF _ assms(2)] by auto
next
  case (Cons k xs)
  have "bn_bytes k \<inter> bn_bytes n = {}" using Cons.prems by auto
  then have "m' i = m i" if "i \<in> bn_bytes k" for i
    using that by (intro assms(2)) (auto simp: bn_data_bytes_def bn_bytes_def disjoint_iff)
  then have "node_ok m' k (next_of (xs @ n # ys))" using Cons.prems by (auto intro: node_ok_frame)
  moreover have "next_of (xs @ filled m' n # ys) = next_of (xs @ n # ys)" by (cases xs) auto
  ultimately show ?case using Cons by auto
qed

lemma bparm_rep_fill:
  assumes "bparm_rep st (xs @ n # ys)" and "\<And>i. i \<notin> bn_data_bytes n \<Longrightarrow> m' i = memory st i"
  shows "bparm_rep (st\<lparr> memory := m' \<rparr>) (xs @ filled m' n # ys)"
proof -
  have "next_of (xs @ filled m' n # ys) = next_of (xs @ n # ys)" by (cases xs) auto
  moreover have "bn_addr (last (xs @ filled m' n # ys)) = bn_addr (last (xs @ n # ys))" by auto
  ultimately show ?thesis using assms nodes_ok_fill [OF _ assms(2)] by (auto simp: bparm_rep_def)
qed

subsection \<open>Memory ranges as bytes\<close>

definition mem_range_bytes :: "bdat_mem_range \<Rightarrow> u8 list" where
  "mem_range_bytes r = le_bytes 8 (mr_start r) @ le_bytes 8 (mr_len r) @ le_bytes 4 (mr_e820_type r) @
     le_bytes 4 (mr_e820_ext_attr r) @ le_bytes 8 (mr_uefi_attr r)"

lemma length_mem_range_bytes [simp]: "length (mem_range_bytes r) = 32"
  by (simp add: mem_range_bytes_def)

lemma wr_mem_range_eq: "wr_mem_range m bd r = put_bytes m bd (mem_range_bytes r)"
  by (simp add: wr_mem_range_def Let_def wr64_def wr32_def mem_range_bytes_def put_put_append)

lemma rd_mem_range_bytes:
  assumes "get_bytes m bd 32 = mem_range_bytes r"
  shows "rd_mem_range m bd = r"
proof -
  have "get_bytes m (bd + j) k = take k (drop j (mem_range_bytes r))" if "j + k \<le> 32" for j k
    using get_bytes_part [OF that, of m bd] assms by simp
  from this [of 0 8] this [of 8 8] this [of 16 4] this [of 20 4] this [of 24 8]
  show ?thesis
    by (simp add: rd_mem_range_def rd64_def rd32_def mem_range_bytes_def le_word_le_bytes take_bit_word_eq_self)
qed

lemma bparm_add_mem_range_rep:
  assumes rep: "bparm_rep st ns" and len: "mr_len r \<noteq> 0" and eq: "bparm_add_mem_range st r = Inr (p, st')"
  shows "\<exists>a. bparm_rep st' (ns @ [\<lparr> bn_addr = a, bn_type = BP_MRNG, bn_data = mem_range_bytes r \<rparr>]) \<and>
    unat p = a + sizeof_bparm"
proof -
  obtain st1 where add: "bparm_add st BP_MRNG sizeof_mem_range = Inr (p, st1)"
    and st': "st' = st1\<lparr> memory := wr_mem_range (memory st1) (unat p) r \<rparr>"
    using eq len by (auto simp: bparm_add_mem_range_def res_simps)
  obtain a where rep1: "bparm_rep st1 (ns @ [\<lparr> bn_addr = a, bn_type = BP_MRNG,
        bn_data = replicate (unat sizeof_mem_range) 0 \<rparr>])" and p: "unat p = a + sizeof_bparm"
    using bparm_add_rep [OF rep add] by blast
  let ?n = "\<lparr> bn_addr = a, bn_type = BP_MRNG, bn_data = replicate (unat sizeof_mem_range) 0 \<rparr> :: bnode"
  let ?m = "wr_mem_range (memory st1) (unat p) r"
  have "?m i = memory st1 i" if "i \<notin> bn_data_bytes ?n" for i
    using that by (auto simp: wr_mem_range_eq put_bytes_def bn_data_bytes_def p sizeof_mem_range_def)
  then have "bparm_rep st' (ns @ [filled ?m ?n])"
    using bparm_rep_fill [of st1 ns ?n "[]" ?m] rep1 st' by auto
  moreover have "filled ?m ?n = \<lparr> bn_addr = a, bn_type = BP_MRNG, bn_data = mem_range_bytes r \<rparr>"
    by (simp add: filled_def wr_mem_range_eq p sizeof_mem_range_def)
  ultimately show ?thesis using p by auto
qed

text \<open>Memory that is neither free nor part of a node is not touched when a node is added.\<close>

definition protected :: "bparm_state \<Rightarrow> bnode list \<Rightarrow> nat set \<Rightarrow> bool" where
  "protected st ns R \<longleftrightarrow> R \<inter> bmem_free (bmem st) = {} \<and> (\<forall>n\<in>set ns. R \<inter> bn_bytes n = {})"

lemma bparm_add_frame:
  assumes rep: "bparm_rep st ns" and add: "bparm_add st type sz = Inr (p, st')"
  shows "\<exists>a. unat p = a + sizeof_bparm \<and>
    bparm_rep st' (ns @ [\<lparr> bn_addr = a, bn_type = type, bn_data = replicate (unat sz) 0 \<rparr>]) \<and>
    (\<forall>R. protected st ns R \<longrightarrow>
       protected st' (ns @ [\<lparr> bn_addr = a, bn_type = type, bn_data = replicate (unat sz) 0 \<rparr>]) R \<and>
       (\<forall>i\<in>R. memory st' i = memory st i))"
proof -
  obtain a where rep': "bparm_rep st' (ns @ [\<lparr> bn_addr = a, bn_type = type, bn_data = replicate (unat sz) 0 \<rparr>])"
    and p: "unat p = a + sizeof_bparm" using bparm_add_rep [OF rep add] by blast
  let ?n = "\<lparr> bn_addr = a, bn_type = type, bn_data = replicate (unat sz) 0 \<rparr> :: bnode"
  have bytes: "bn_bytes ?n = {a..<a + (sizeof_bparm + unat sz)}" by (simp add: bn_bytes_def add.assoc)
  obtain bp bm m1 where al: "bmem_alloc_boottime (bmem st) (word_of_nat sizeof_bparm + ucast sz) 8 = Inr (bp, bm)"
    and m1: "m1 = (if ns = [] then memory st else wr64 (memory st) (bn_addr (last ns)) (ucast bp))"
    and pp: "p = ucast bp + word_of_nat sizeof_bparm"
    and st': "st' = \<lparr> bmem = bm, memory = fresh_node m1 (unat bp) type sz,
            bp_head = if ns = [] then ucast bp else next_of ns, bp_tail = ucast bp \<rparr>"
    using bparm_add_eq [OF rep add] by blast
  have "unat p = unat bp + sizeof_bparm" unfolding pp using unat_lt [of bp] by (simp add: sizeof_bparm_def unat_word_ariths)
  then have bp: "unat bp = a" using p by simp
  have len: "unat (word_of_nat sizeof_bparm + ucast sz :: u64) = sizeof_bparm + unat sz"
    using unat_lt [of sz] by (simp add: sizeof_bparm_def unat_word_ariths)
  have "bmem_wf (bmem st)" using rep by (simp add: bparm_rep_def)
  note sp = bmem_alloc_boottime_spec [OF this pow2_align_8 al, unfolded len bp]
  have "protected st' (ns @ [?n]) R \<and> (\<forall>i\<in>R. memory st' i = memory st i)" if R: "protected st ns R" for R
  proof -
    have dis: "R \<inter> bn_bytes ?n = {}" using R sp(2) unfolding protected_def bytes by blast
    have "protected st' (ns @ [?n]) R" using R sp(3) dis by (auto simp: protected_def st')
    moreover have "memory st' i = memory st i" if i: "i \<in> R" for i
    proof -
      have "i \<notin> {a..<a + sizeof_bparm + unat sz}" using i dis unfolding bytes add.assoc by blast
      from fresh_node_outside [OF this] have "memory st' i = m1 i" by (simp add: st' bp)
      also have "m1 i = memory st i"
      proof (cases "ns = []")
        case False
        then have "R \<inter> bn_bytes (last ns) = {}" using R by (simp add: protected_def)
        then have "i \<notin> {bn_addr (last ns)..<bn_addr (last ns) + 8}" using i by (auto simp: bn_bytes_def sizeof_bparm_def)
        then show ?thesis using False by (simp add: m1 wr64_outside)
      qed (simp add: m1)
      finally show ?thesis .
    qed
    ultimately show ?thesis by blast
  qed
  then show ?thesis using rep' p by blast
qed

subsection \<open>The walk of stage 2\<close>

fun fold_nodes :: "('a \<Rightarrow> nat \<Rightarrow> 'a res) \<Rightarrow> 'a \<Rightarrow> bnode list \<Rightarrow> 'a res" where
  "fold_nodes body acc [] = Inr acc"
| "fold_nodes body acc (n # ns) = bindr (body acc (bn_addr n)) (\<lambda>acc'. fold_nodes body acc' ns)"

lemma rd32_of_rd64: "rd32 m a = ucast (rd64 m a)"
proof -
  have "get_bytes m a 8 = get_bytes m a 4 @ get_bytes m (a + 4) 4"
    using upt_add_eq_append [of a "a + 4" 4] by (simp add: get_bytes_def add.commute)
  moreover have "\<exists>b0 b1 b2 b3. xs = [b0, b1, b2, b3]" if "length xs = 4" for xs :: "u8 list"
    using that by (auto simp: numeral_eq_Suc length_Suc_conv)
  then obtain b0 b1 b2 b3 where "get_bytes m a 4 = [b0, b1, b2, b3]"
    using length_get_bytes by blast
  ultimately show ?thesis
    unfolding rd32_def rd64_def by (intro bit_word_eqI) (auto simp: bit_simps)
qed

lemma ucast_next_of:
  assumes "nodes_ok m (n # ns)"
  shows "unat (ucast (next_of (n # ns)) :: u32) = bn_addr n" and "(ucast (next_of (n # ns)) :: u32) \<noteq> 0"
proof -
  have "0 < bn_addr n" "bn_addr n < 2 ^ 32" using assms by (auto simp: node_ok_def)
  then show "unat (ucast (next_of (n # ns)) :: u32) = bn_addr n"
    by (simp add: unat_of_nat unsigned_ucast_eq unsigned_take_bit_eq take_bit_nat_eq_self)
  then show "(ucast (next_of (n # ns)) :: u32) \<noteq> 0" using \<open>0 < bn_addr n\<close> by (metis less_irrefl unat_0)
qed

lemma for_each_bparm_nodes:
  "nodes_ok m ns \<Longrightarrow> for_each_bparm m body (ucast (next_of ns)) acc = Some (fold_nodes body acc ns)"
proof (induction ns arbitrary: acc)
  case Nil
  show ?case by (simp add: for_each_bparm.simps)
next
  case (Cons n ns)
  have "rd32 m (bn_addr n) = ucast (next_of ns)"
    using Cons.prems by (simp add: rd32_of_rd64 node_ok_def)
  then show ?case
    using Cons ucast_next_of [OF Cons.prems] for_each_bparm.simps [of m body "ucast (next_of (n # ns))" acc]
    by (auto split: sum.split)
qed

lemma nodes_ok_nth: "nodes_ok m ns \<Longrightarrow> n \<in> set ns \<Longrightarrow> \<exists>x. node_ok m n x"
  by (induction ns) auto

text \<open>The bytes determine the list: the abstraction is a function.\<close>

lemma node_ok_unique:
  assumes "node_ok m n x" and "node_ok m n' x'" and "bn_addr n = bn_addr n'"
  shows "n = n'" and "x = x'"
proof -
  have "word_of_nat (length (bn_data n)) = (word_of_nat (length (bn_data n')) :: u32)"
    and "length (bn_data n) < 2 ^ 32" "length (bn_data n') < 2 ^ 32"
    using assms by (auto simp: node_ok_def)
  then have "length (bn_data n) = length (bn_data n')"
    by (simp add: word_unat_eq_iff unat_of_nat)
  then have "bn_data n = bn_data n'" using assms unfolding node_ok_def by metis
  then show "n = n'" using assms by (auto simp: node_ok_def intro: bnode.equality)
  show "x = x'" using assms by (simp add: node_ok_def)
qed

lemma nodes_ok_unique:
  "nodes_ok m ns \<Longrightarrow> nodes_ok m ns' \<Longrightarrow> next_of ns = next_of ns' \<Longrightarrow> ns = ns'"
proof (induction ns arbitrary: ns')
  case Nil
  then show ?case using next_of_eq_0 [of m ns'] by simp
next
  case (Cons n ns)
  then obtain k ks where ns': "ns' = k # ks"
    using next_of_eq_0 [of m "n # ns"] by (cases ns') auto
  have a: "bn_addr n = unat (next_of (n # ns))" "bn_addr k = unat (next_of ns')"
    using nodes_ok_addr [OF Cons.prems(1), of n] nodes_ok_addr [OF Cons.prems(2), of k] ns' by simp_all
  then have addr: "bn_addr n = bn_addr k" using Cons.prems(3) by simp
  have ok: "node_ok m n (next_of ns)" "node_ok m k (next_of ks)" using Cons.prems(1,2) ns' by simp_all
  have "n = k" "next_of ns = next_of ks" by (rule node_ok_unique [OF ok addr])+
  moreover have "nodes_ok m ns" "nodes_ok m ks" using Cons.prems(1,2) ns' by simp_all
  ultimately show ?case using Cons.IH [of ks] ns' by simp
qed

lemma bparm_list_unique: "bparm_list st ns \<Longrightarrow> bparm_list st ns' \<Longrightarrow> ns = ns'"
  unfolding bparm_list_def by (metis nodes_ok_unique)

subsection \<open>Properties\<close>

text \<open>
  C34. \<^verbatim>\<open>bparm_add\<close> refines appending to a list: when the bytes in memory represent the node
  list \<open>ns\<close> and the call succeeds, the bytes afterwards represent \<open>ns\<close> followed by one node of
  the requested type whose data is all zero, and the pointer returned is the address of that
  node's data. All earlier nodes keep their address, type and data.
\<close>

theorem bparm_add_appends:
  assumes "bparm_rep st ns" and "bparm_add st type sz = Inr (p, st')"
  shows "\<exists>a. bparm_rep st' (ns @ [\<lparr> bn_addr = a, bn_type = type, bn_data = replicate (unat sz) 0 \<rparr>]) \<and>
    unat p = a + sizeof_bparm"
  by (rule bparm_add_rep [OF assms])

text \<open>
  \<^verbatim>\<open>bparm_add_mem_range\<close> leaves everything alone for an empty range; for any other range a
  successful call appends exactly one \<^verbatim>\<open>MRNG\<close> node, and the five fields stage 2 reads back from
  that node's data are the five arguments.
\<close>

lemma bparm_add_mem_range_correct:
  assumes "bparm_rep st ns" and "bparm_add_mem_range st r = Inr (p, st')"
  shows "if mr_len r = 0 then p = 0 \<and> st' = st
    else (\<exists>a. bparm_rep st' (ns @ [\<lparr> bn_addr = a, bn_type = BP_MRNG, bn_data = mem_range_bytes r \<rparr>]) \<and>
           unat p = a + sizeof_bparm \<and> rd_mem_range (memory st') (unat p) = r)"
proof (cases "mr_len r = 0")
  case True
  then show ?thesis using assms(2) by (simp add: bparm_add_mem_range_def)
next
  case False
  obtain a where rep: "bparm_rep st' (ns @ [\<lparr> bn_addr = a, bn_type = BP_MRNG, bn_data = mem_range_bytes r \<rparr>])"
    and p: "unat p = a + sizeof_bparm"
    using bparm_add_mem_range_rep [OF assms(1) False assms(2)] by blast
  let ?n = "\<lparr> bn_addr = a, bn_type = BP_MRNG, bn_data = mem_range_bytes r \<rparr> :: bnode"
  have "\<exists>x. node_ok (memory st') ?n x"
    using rep by (intro nodes_ok_nth [of _ "ns @ [?n]"]) (auto simp: bparm_rep_def)
  then have "rd_mem_range (memory st') (unat p) = r"
    unfolding p by (intro rd_mem_range_bytes) (auto simp: node_ok_def)
  then show ?thesis using False rep p by auto
qed

text \<open>
  C22. The walk of stage 2 over the list that stage 1 built, starting from the pointer that
  \<^verbatim>\<open>bparm_get\<close> returns truncated to 32 bits, ends, and it visits exactly the nodes of the list
  in the order they were added; at each of them the type, the size and the data bytes read
  are the node's.
\<close>

theorem stage2_walk_visits_nodes:
  assumes "bparm_list st ns"
  shows "for_each_bparm (memory st) body (ucast (bparm_get st)) acc = Some (fold_nodes body acc ns) \<and>
    (\<forall>n\<in>set ns. rd32 (memory st) (bn_addr n + 8) = bn_type n \<and>
       unat (rd32 (memory st) (bn_addr n + 12)) = length (bn_data n) \<and>
       get_bytes (memory st) (bn_addr n + 16) (length (bn_data n)) = bn_data n)"
proof -
  have ok: "nodes_ok (memory st) ns" and head: "bparm_get st = next_of ns"
    using assms by (auto simp: bparm_list_def bparm_get_def)
  have "rd32 (memory st) (bn_addr n + 8) = bn_type n \<and>
       unat (rd32 (memory st) (bn_addr n + 12)) = length (bn_data n) \<and>
       get_bytes (memory st) (bn_addr n + 16) (length (bn_data n)) = bn_data n" if n: "n \<in> set ns" for n
    using nodes_ok_nth [OF ok n] by (auto simp: node_ok_def sizeof_bparm_def unat_of_nat)
  then show ?thesis using for_each_bparm_nodes [OF ok] head by auto
qed

subsection \<open>Witnesses\<close>

definition bparm_ex :: bparm_state where
  "bparm_ex = \<lparr> bmem = bmem_ex, memory = (\<lambda>_. 0xff), bp_head = 0, bp_tail = 0 \<rparr>"

definition mem_range_ex :: bdat_mem_range where
  "mem_range_ex = \<lparr> mr_start = 0x100000, mr_len = 0x700000, mr_e820_type = E820_RAM,
     mr_e820_ext_attr = 1, mr_uefi_attr = 0xf \<rparr>"

lemma bparm_ex_rep: "bparm_rep bparm_ex []"
  by (simp add: bparm_rep_def bparm_ex_def bmem_ex_wf)

lemma bmem_ex_alloc: "\<exists>a s. bmem_alloc_boottime bmem_ex 48 8 = Inr (a, s)"
  by (simp add: bmem_ex_def bmem_alloc_boottime_def bmem_alloc_boottime_from.simps Let_def)

lemma bparm_ex_add: "\<exists>p st. bparm_add bparm_ex t 32 = Inr (p, st)"
  using bmem_ex_alloc by (auto simp: bparm_add_def bparm_ex_def sizeof_bparm_def Let_def)

theorem bparm_add_appends_witness:
  "bparm_rep bparm_ex [] \<and> (\<exists>p st' a. bparm_add bparm_ex BP_BMEM 32 = Inr (p, st') \<and>
     bparm_rep st' [\<lparr> bn_addr = a, bn_type = BP_BMEM, bn_data = replicate 32 0 \<rparr>])"
proof -
  obtain p st where "bparm_add bparm_ex BP_BMEM 32 = Inr (p, st)" using bparm_ex_add by blast
  then show ?thesis using bparm_ex_rep bparm_add_appends [OF bparm_ex_rep, of BP_BMEM 32 p st] by auto
qed

theorem stage2_walk_visits_nodes_witness:
  "\<exists>st a. bparm_list st [\<lparr> bn_addr = a, bn_type = BP_BMEM, bn_data = replicate 32 0 \<rparr>] \<and>
     for_each_bparm (memory st) (\<lambda>acc bp. Inr (acc @ [rd32 (memory st) (bp + 8)])) (ucast (bparm_get st)) []
       = Some (Inr [BP_BMEM])"
proof -
  obtain p st where "bparm_add bparm_ex BP_BMEM 32 = Inr (p, st)" using bparm_ex_add by blast
  then obtain a where rep: "bparm_rep st [\<lparr> bn_addr = a, bn_type = BP_BMEM, bn_data = replicate 32 0 \<rparr>]"
    using bparm_add_rep [OF bparm_ex_rep, of BP_BMEM 32 p st] by auto
  then show ?thesis
    using bparm_rep_list [OF rep] stage2_walk_visits_nodes [OF bparm_rep_list [OF rep], of "\<lambda>acc bp. Inr (acc @ [rd32 (memory st) (bp + 8)])" "[]"] by auto
qed

end
