(* ===== verification/Shellsort.thy ===== *)
theory Shellsort
  imports Bparm
begin

text \<open>
  The sort of the memory map in stage 2, \<^verbatim>\<open>shellsort\<close> of \<^verbatim>\<open>stage2/mem.c\<close>, with the gap sequence
  computed on 32-bit unsigned integers as in the code. It is shown to return, to stay inside
  the array, and to leave a sorted permutation of the entries.
\<close>

unbundle bit_operations_syntax

text \<open>An entry of the memory map, \<^verbatim>\<open>mem_range_t\<close>.\<close>

record mem_range =
  rg_start :: u64
  rg_len :: u64
  rg_e820_type :: u32
  rg_e820_ext_attr :: u32
  rg_uefi_attr :: u64

subsection \<open>The algorithm\<close>

text \<open>The loops that move entries up by the gap, insert one entry, and make one pass.\<close>

partial_function (option) sift ::
  "mem_range list \<Rightarrow> mem_range \<Rightarrow> nat \<Rightarrow> nat \<Rightarrow> (nat \<times> mem_range list) res option" where
  "sift mrs v h j =
     (if j \<ge> h then
        bindo (Some (arr_get mrs (j - h))) (\<lambda>p.
          if rg_start p > rg_start v then
            bindo (Some (arr_set mrs j p)) (\<lambda>mrs'. sift mrs' v h (j - h))
          else Some (Inr (j, mrs)))
      else Some (Inr (j, mrs)))"

partial_function (option) shell_pass ::
  "mem_range list \<Rightarrow> nat \<Rightarrow> nat \<Rightarrow> nat \<Rightarrow> mem_range list res option" where
  "shell_pass mrs nmr h i =
     (if i < nmr then
        bindo (Some (arr_get mrs i)) (\<lambda>v.
        bindo (sift mrs v h i) (\<lambda>(j, mrs').
        bindo (Some (arr_set mrs' j v)) (\<lambda>mrs''.
        shell_pass mrs'' nmr h (i + 1))))
      else Some (Inr mrs))"

partial_function (option) shell_gap :: "u32 \<Rightarrow> u32 \<Rightarrow> u32 option" where
  "shell_gap h nmr = (if h < nmr then shell_gap (h * 2) nmr else Some h)"

partial_function (option) shell_loop :: "mem_range list \<Rightarrow> u32 \<Rightarrow> u32 \<Rightarrow> mem_range list res option" where
  "shell_loop mrs nmr h =
     bindo (shell_pass mrs (unat nmr) (unat h) (unat h)) (\<lambda>mrs'.
       let h' = drop_bit 1 h in
       if h' \<noteq> 0 then shell_loop mrs' nmr h' else Some (Inr mrs'))"

definition shellsort :: "mem_range list \<Rightarrow> u32 \<Rightarrow> mem_range list res option" where
  "shellsort mrs nmr =
     (if nmr < 2 then Some (Inr mrs)
      else Option.bind (shell_gap 1 nmr) (\<lambda>h. shell_loop mrs nmr (h - 1)))"

subsection \<open>Moving entries up\<close>

text \<open>The array with its entry at \<open>j\<close> seen as a hole that \<open>v\<close> will fill.\<close>

lemma mset_move:
  assumes "k \<noteq> j" and "k < length xs" and "j < length xs"
  shows "mset (xs[j := xs ! k, k := v]) = mset (xs[j := v])"
  using assms by (simp add: mset_update)

text \<open>What the inner loop keeps: the entries with \<open>v\<close> put into the hole, and everything above.\<close>

lemma sift_returns:
  assumes h: "0 < h"
  shows "j < length mrs \<Longrightarrow> \<exists>j' mrs'. sift mrs v h j = Some (Inr (j', mrs')) \<and> j' \<le> j \<and>
    length mrs' = length mrs \<and> mset (mrs'[j' := v]) = mset (mrs[j := v]) \<and>
    drop (Suc j) mrs' = drop (Suc j) mrs"
proof (induction j arbitrary: mrs rule: less_induct)
  case (less j)
  note unf = sift.simps [of mrs v h j]
  show ?case
  proof (cases "h \<le> j \<and> rg_start v < rg_start (mrs ! (j - h))")
    case True
    let ?mrs = "mrs[j := mrs ! (j - h)]"
    have "sift mrs v h j = sift ?mrs v h (j - h)" using True less.prems unf by simp
    moreover obtain j' mrs' where r: "sift ?mrs v h (j - h) = Some (Inr (j', mrs'))" "j' \<le> j - h"
      "length mrs' = length mrs" "mset (mrs'[j' := v]) = mset (?mrs[j - h := v])"
      "drop (Suc (j - h)) mrs' = drop (Suc (j - h)) ?mrs"
      using less.IH [of "j - h" ?mrs] True h less.prems by fastforce
    moreover have "mset (?mrs[j - h := v]) = mset (mrs[j := v])"
      using True h less.prems by (intro mset_move) auto
    moreover have "drop (Suc j) mrs' = drop (Suc j) mrs"
    proof -
      have "drop (Suc j) xs = drop h (drop (Suc (j - h)) xs)" for xs :: "mem_range list"
        using True by simp
      then have "drop (Suc j) mrs' = drop (Suc j) ?mrs" using r(5) by metis
      then show ?thesis by simp
    qed
    ultimately show ?thesis using True by auto
  next
    case False
    then have "sift mrs v h j = Some (Inr (j, mrs))" using less.prems unf by auto
    then show ?thesis by auto
  qed
qed

subsection \<open>Insertion with gap 1\<close>

text \<open>The prefix up to \<open>i\<close> without the hole at \<open>j\<close>.\<close>

definition around :: "mem_range list \<Rightarrow> nat \<Rightarrow> nat \<Rightarrow> mem_range list" where
  "around mrs i j = take j mrs @ drop (Suc j) (take (Suc i) mrs)"

definition starts :: "mem_range list \<Rightarrow> u64 list" where
  "starts mrs = map rg_start mrs"

lemma around_move:
  assumes "0 < j" and "j \<le> i" and "i < length mrs"
  shows "around (mrs[j := mrs ! (j - 1)]) i (j - 1) = around mrs i j"
proof -
  let ?mrs = "mrs[j := mrs ! (j - 1)]"
  have "drop j (take (Suc i) ?mrs) = mrs ! (j - 1) # drop (Suc j) (take (Suc i) mrs)"
    using assms Cons_nth_drop_Suc [of j "take (Suc i) ?mrs"] by (simp add: drop_take drop_update_cancel)
  moreover have "take (j - 1) ?mrs = take (j - 1) mrs" by simp
  moreover have "take j mrs = take (j - 1) mrs @ [mrs ! (j - 1)]"
    using assms take_Suc_conv_app_nth [of "j - 1" mrs] by simp
  ultimately show ?thesis using assms(1) by (simp add: around_def)
qed

lemma sift_sorts:
  "j \<le> i \<Longrightarrow> i < length mrs \<Longrightarrow> sorted (starts (around mrs i j)) \<Longrightarrow>
     \<forall>x\<in>set (drop (Suc j) (take (Suc i) mrs)). rg_start v < rg_start x \<Longrightarrow>
     sift mrs v 1 j = Some (Inr (j', mrs')) \<Longrightarrow> sorted (starts (take (Suc i) (mrs'[j' := v])))"
proof (induction j arbitrary: mrs)
  case (Suc j)
  show ?case
  proof (cases "rg_start v < rg_start (mrs ! j)")
    case True
    let ?mrs = "mrs[Suc j := mrs ! j]"
    have "sift mrs v 1 (Suc j) = sift ?mrs v 1 j" using True Suc.prems by (simp add: sift.simps [of mrs])
    moreover have "around ?mrs i j = around mrs i (Suc j)" using around_move [of "Suc j" i mrs] Suc.prems by simp
    moreover have "drop (Suc j) (take (Suc i) ?mrs) = mrs ! j # drop (Suc (Suc j)) (take (Suc i) mrs)"
      using Suc.prems(1,2) Cons_nth_drop_Suc [of "Suc j" "take (Suc i) ?mrs"]
      by (simp add: drop_take drop_update_cancel)
    ultimately show ?thesis using Suc.IH [of ?mrs] Suc.prems True by auto
  next
    case False
    then have eq: "j' = Suc j" "mrs' = mrs" using Suc.prems by (simp_all add: sift.simps [of mrs])
    have "take (Suc i) (mrs[Suc j := v]) = take (Suc j) mrs @ v # drop (Suc (Suc j)) (take (Suc i) mrs)"
      using Suc.prems(1,2)
      by (simp add: upd_conv_take_nth_drop take_update_swap min_def drop_take take_Cons')
    moreover have "take (Suc j) mrs = take j mrs @ [mrs ! j]"
      using Suc.prems by (simp add: take_Suc_conv_app_nth)
    ultimately show ?thesis
      using Suc.prems(3,4) False
      by (auto simp: eq around_def starts_def sorted_append not_less intro: order_trans less_imp_le)
  qed
next
  case 0
  then have eq: "j' = 0" "mrs' = mrs" by (simp_all add: sift.simps [of mrs])
  have "take (Suc i) (mrs[0 := v]) = v # drop 1 (take (Suc i) mrs)"
    using 0 by (cases mrs) simp_all
  then show ?case using 0 by (auto simp: eq around_def starts_def intro: less_imp_le)
qed

subsection \<open>Passes\<close>

lemma mset_take_if_drop:
  assumes "mset xs = mset ys" and "drop n xs = drop n ys"
  shows "mset (take n xs) = mset (take n ys)"
proof -
  have "mset (take n xs) + mset (drop n xs) = mset (take n ys) + mset (drop n ys)"
    using assms(1) by (simp flip: mset_append)
  then show ?thesis using assms(2) by simp
qed

definition permutes :: "nat \<Rightarrow> mem_range list \<Rightarrow> mem_range list \<Rightarrow> bool" where
  "permutes n xs ys \<longleftrightarrow> length ys = length xs \<and> mset ys = mset xs \<and> drop n ys = drop n xs"

lemma permutes_refl: "permutes n xs xs"
  and permutes_trans: "permutes n xs ys \<Longrightarrow> permutes n ys zs \<Longrightarrow> permutes n xs zs"
  by (simp_all add: permutes_def)

lemma drop_mono_eq: "drop m xs = drop m ys \<Longrightarrow> m \<le> n \<Longrightarrow> drop n xs = drop n ys"
  by (metis drop_drop le_add_diff_inverse2)

text \<open>One step of a pass: take out the entry at \<open>i\<close>, sift, and put it back.\<close>

lemma insert_step:
  assumes "0 < h" and "i < length mrs"
  shows "\<exists>j mrs'. sift mrs (mrs ! i) h i = Some (Inr (j, mrs')) \<and> j < length mrs' \<and>
    permutes (Suc i) mrs (mrs'[j := mrs ! i])"
proof -
  obtain j mrs' where r: "sift mrs (mrs ! i) h i = Some (Inr (j, mrs'))" "j \<le> i" "length mrs' = length mrs"
    "mset (mrs'[j := mrs ! i]) = mset (mrs[i := mrs ! i])" "drop (Suc i) mrs' = drop (Suc i) mrs"
    using sift_returns [OF assms, of "mrs ! i"] by blast
  then show ?thesis using assms(2) by (auto simp: permutes_def)
qed

lemma shell_pass_returns:
  assumes h: "0 < h"
  shows "nmr \<le> length mrs \<Longrightarrow> \<exists>mrs'. shell_pass mrs nmr h i = Some (Inr mrs') \<and> permutes nmr mrs mrs'"
proof (induction "nmr - i" arbitrary: i mrs rule: less_induct)
  case less
  note unf = shell_pass.simps [of mrs nmr h i]
  show ?case
  proof (cases "i < nmr")
    case True
    then have i: "i < length mrs" using less.prems by simp
    obtain j mrs1 where s: "sift mrs (mrs ! i) h i = Some (Inr (j, mrs1))" "j < length mrs1"
      and p: "permutes (Suc i) mrs (mrs1[j := mrs ! i])" using insert_step [OF h i] by blast
    have p1: "permutes nmr mrs (mrs1[j := mrs ! i])"
      using p True by (auto simp: permutes_def intro: drop_mono_eq)
    have "nmr - (i + 1) < nmr - i" "nmr \<le> length (mrs1[j := mrs ! i])"
      using True p less.prems by (auto simp: permutes_def)
    from less.hyps [OF this] obtain mrs2 where
      "shell_pass (mrs1[j := mrs ! i]) nmr h (i + 1) = Some (Inr mrs2)" "permutes nmr (mrs1[j := mrs ! i]) mrs2"
      by blast
    then show ?thesis using unf True i s permutes_trans [OF p1] by auto
  next
    case False
    then show ?thesis using unf permutes_refl by auto
  qed
qed

lemma shell_pass_sorts:
  "0 < i \<Longrightarrow> i \<le> nmr \<Longrightarrow> nmr \<le> length mrs \<Longrightarrow> sorted (starts (take i mrs)) \<Longrightarrow>
     shell_pass mrs nmr 1 i = Some (Inr mrs') \<Longrightarrow> sorted (starts (take nmr mrs'))"
proof (induction "nmr - i" arbitrary: i mrs rule: less_induct)
  case less
  note unf = shell_pass.simps [of mrs nmr 1 i]
  show ?case
  proof (cases "i < nmr")
    case True
    then have i: "i < length mrs" using less.prems by simp
    obtain j mrs1 where s: "sift mrs (mrs ! i) 1 i = Some (Inr (j, mrs1))" "j < length mrs1"
      and p: "permutes (Suc i) mrs (mrs1[j := mrs ! i])" using insert_step [OF _ i, of 1] by auto
    have "around mrs i i = take i mrs" using i by (simp add: around_def)
    then have "sorted (starts (take (Suc i) (mrs1[j := mrs ! i])))"
      using sift_sorts [OF order_refl i, of "mrs ! i" j mrs1] less.prems(4) s(1) by simp
    moreover have "shell_pass (mrs1[j := mrs ! i]) nmr 1 (Suc i) = Some (Inr mrs')"
      using unf less.prems(5) True i s by simp
    moreover have "nmr - Suc i < nmr - i" "nmr \<le> length (mrs1[j := mrs ! i])"
      using True p less.prems(3) by (auto simp: permutes_def)
    ultimately show ?thesis using less.hyps [of "Suc i" "mrs1[j := mrs ! i]"] True by simp
  next
    case False
    then show ?thesis using unf less.prems by simp
  qed
qed

subsection \<open>The gap sequence\<close>

lemma shell_gap_returns:
  assumes "unat nmr \<le> 2 ^ 31"
  shows "0 < h \<Longrightarrow> \<exists>g. shell_gap h nmr = Some g \<and> h \<le> g \<and> nmr \<le> g"
proof (induction "2 ^ 32 - unat h" arbitrary: h rule: less_induct)
  case less
  note unf = shell_gap.simps [of h nmr]
  show ?case
  proof (cases "h < nmr")
    case True
    then have lt: "unat h < 2 ^ 31" using assms by (simp add: word_less_nat_alt)
    have pos: "0 < unat h" using less.prems by (simp add: word_less_nat_alt)
    have d: "unat (h * 2) = unat h * 2" using lt by (simp add: unat_word_ariths)
    have le: "h \<le> h * 2" "0 < h * 2" using d pos by (simp_all add: word_le_nat_alt word_less_nat_alt)
    have "2 ^ 32 - unat (h * 2) < 2 ^ 32 - unat h" using d pos lt by simp
    from less.hyps [OF this le(2)] obtain g where "shell_gap (h * 2) nmr = Some g" "h * 2 \<le> g" "nmr \<le> g"
      by blast
    then show ?thesis using unf True le(1) order_trans [of h "h * 2" g] by auto
  next
    case False
    then show ?thesis using unf by auto
  qed
qed

lemma shell_loop_returns:
  assumes n: "unat nmr \<le> length mrs" "1 < unat nmr"
  shows "0 < h \<Longrightarrow> unat nmr \<le> length mrs \<Longrightarrow> \<exists>mrs'. shell_loop mrs nmr h = Some (Inr mrs') \<and> permutes (unat nmr) mrs mrs' \<and>
    sorted (starts (take (unat nmr) mrs'))"
  using n(1)
proof (induction "unat h" arbitrary: h mrs rule: less_induct)
  case less
  note unf = shell_loop.simps [of mrs nmr h]
  have pos: "0 < unat h" using less.prems(1) by (simp add: word_less_nat_alt)
  obtain mrs1 where p: "shell_pass mrs (unat nmr) (unat h) (unat h) = Some (Inr mrs1)" "permutes (unat nmr) mrs mrs1"
    using shell_pass_returns [OF pos less.prems(2)] by blast
  have half: "unat (drop_bit 1 h) = unat h div 2" by (simp add: unsigned_drop_bit_eq drop_bit_eq_div unat_div_distrib)
  show ?case
  proof (cases "drop_bit 1 h = 0")
    case True
    then have h1: "unat h = 1" using half pos by (simp add: word_unat_eq_iff)
    have "length (take 1 mrs) \<le> 1" by simp
    then have "sorted (starts (take 1 mrs))" by (simp add: starts_def sorted01)
    then have "sorted (starts (take (unat nmr) mrs1))"
      using shell_pass_sorts [of 1 "unat nmr" mrs mrs1] p(1) less.prems(2) n(2) unfolding h1 by simp
    then show ?thesis using unf p True by simp
  next
    case False
    have "unat (drop_bit 1 h) < unat h" using half pos by simp
    moreover have "0 < drop_bit 1 h" using False by (simp add: word_gt_0)
    moreover have len: "unat nmr \<le> length mrs1" using p(2) less.prems(2) by (simp add: permutes_def)
    ultimately obtain mrs2 where "shell_loop mrs1 nmr (drop_bit 1 h) = Some (Inr mrs2)"
      "permutes (unat nmr) mrs1 mrs2" "sorted (starts (take (unat nmr) mrs2))"
      using less.hyps [of "drop_bit 1 h" mrs1] by blast
    then show ?thesis using unf p False permutes_trans [OF p(2)] by (auto simp: Let_def)
  qed
qed

lemma shellsort_returns:
  assumes "unat nmr \<le> length mrs" and "unat nmr \<le> 2 ^ 31"
  shows "\<exists>mrs'. shellsort mrs nmr = Some (Inr mrs') \<and> permutes (unat nmr) mrs mrs' \<and>
    sorted (starts (take (unat nmr) mrs'))"
proof (cases "nmr < 2")
  case True
  then have "unat nmr \<le> 1" by (simp add: word_less_nat_alt)
  then have "length (take (unat nmr) mrs) \<le> 1" by simp
  then have "sorted (starts (take (unat nmr) mrs))" by (simp add: starts_def sorted01)
  then show ?thesis using True permutes_refl by (auto simp: shellsort_def)
next
  case False
  then have n: "1 < unat nmr" by (simp add: word_less_nat_alt)
  obtain g where g: "shell_gap 1 nmr = Some g" "nmr \<le> g" using shell_gap_returns [OF assms(2), of 1] by auto
  then have "1 < unat g" using n by (simp add: word_le_nat_alt)
  then have "0 < unat (g - 1)" by (subst unat_sub) (simp_all add: word_le_nat_alt)
  then have "0 < g - 1" by (simp add: word_less_nat_alt)
  then show ?thesis using shell_loop_returns [OF assms(1) n] assms(1) g(1) False by (simp add: shellsort_def)
qed

subsection \<open>Properties\<close>

text \<open>
  C37. \<^verbatim>\<open>shellsort\<close> returns for every array of at most 2 to the 31 entries (above that the gap
  computation wraps around and need not end), never indexes outside the array, and leaves
  the first \<^verbatim>\<open>nmr\<close> entries a permutation of themselves sorted by start address, everything
  after them untouched.
\<close>

theorem shellsort_correct:
  assumes "unat nmr \<le> length mrs" and "unat nmr \<le> 2 ^ 31"
  shows "\<exists>mrs'. shellsort mrs nmr = Some (Inr mrs') \<and> sorted (map rg_start (take (unat nmr) mrs')) \<and>
    mset (take (unat nmr) mrs') = mset (take (unat nmr) mrs) \<and> drop (unat nmr) mrs' = drop (unat nmr) mrs"
proof -
  obtain mrs' where "shellsort mrs nmr = Some (Inr mrs')" "permutes (unat nmr) mrs mrs'"
    "sorted (starts (take (unat nmr) mrs'))" using shellsort_returns [OF assms] by blast
  then show ?thesis using mset_take_if_drop [of mrs' mrs "unat nmr"] by (auto simp: permutes_def starts_def)
qed

definition shell_ex :: "mem_range list" where
  "shell_ex = map (\<lambda>a. \<lparr> rg_start = a, rg_len = 1, rg_e820_type = 1, rg_e820_ext_attr = 1, rg_uefi_attr = 0 \<rparr>)
     [7, 3, 9, 1, 4]"

theorem shellsort_correct_witness:
  "unat (5 :: u32) \<le> length shell_ex \<and> unat (5 :: u32) \<le> 2 ^ 31 \<and>
   (\<exists>mrs'. shellsort shell_ex 5 = Some (Inr mrs') \<and> sorted (map rg_start mrs'))"
proof -
  have n: "unat (5 :: u32) \<le> length shell_ex" "unat (5 :: u32) \<le> 2 ^ 31" by (simp_all add: shell_ex_def)
  obtain mrs' where r: "shellsort shell_ex 5 = Some (Inr mrs')" "sorted (map rg_start (take (unat (5 :: u32)) mrs'))"
    "mset (take (unat (5 :: u32)) mrs') = mset (take (unat (5 :: u32)) shell_ex)"
    "drop (unat (5 :: u32)) mrs' = drop (unat (5 :: u32)) shell_ex"
    using shellsort_correct [OF n] by blast
  have "length mrs' \<le> 5" using r(4) by (simp add: shell_ex_def)
  then show ?thesis using n r(1,2) by simp
qed

end
