(* ===== verification/Mem_Map.thy ===== *)
theory Mem_Map
  imports Shellsort Allocator
begin

text \<open>
  Physical memory in stage 2, \<^verbatim>\<open>stage2/mem.c\<close>: the memory map as a sorted array of ranges, the
  search for the highest range below a limit, the splitting of a range, and the allocator
  \<^verbatim>\<open>mem_alloc\<close> for internal use. \<open>mm_wf\<close> is the invariant of the array. The allocator is a
  second instance of the contract of theory \<open>Allocator\<close>.
\<close>

unbundle bit_operations_syntax

definition XM32_MAX_ADDR :: u64 where "XM32_MAX_ADDR = 0x100000000"

text \<open>The static variables: the array (as long as \<^verbatim>\<open>max_mem_ranges\<close>) and its live prefix.\<close>

record mem_map =
  mem_ranges :: "mem_range list"
  num_mem_ranges :: u32
  max_mem_ranges :: u32

subsection \<open>Finding a range\<close>

text \<open>The condition both loops test: the range ends above the limit.\<close>

definition ends_above :: "mem_range \<Rightarrow> u64 \<Rightarrow> bool" where
  "ends_above mr max_addr \<longleftrightarrow> rg_start mr + rg_len mr - 1 > max_addr - 1"

partial_function (option) bisect :: "mem_map \<Rightarrow> u64 \<Rightarrow> u32 \<Rightarrow> u32 \<Rightarrow> u32 res option" where
  "bisect s max_addr left right =
     (if left < right - 1 then
        let mid = (left + right) div 2 in
        bindo (Some (arr_get (mem_ranges s) (unat mid))) (\<lambda>mr.
          if ends_above mr max_addr then bisect s max_addr left mid else bisect s max_addr mid right)
      else Some (Inr left))"

text \<open>The loop that steps down; it halts the machine when it would leave the array.\<close>

fun step_down :: "mem_map \<Rightarrow> u64 \<Rightarrow> nat \<Rightarrow> nat res" where
  "step_down s max_addr 0 =
     bindr (arr_get (mem_ranges s) 0) (\<lambda>mr. if ends_above mr max_addr then Inl Hlt else Inr 0)"
| "step_down s max_addr (Suc left) =
     bindr (arr_get (mem_ranges s) (Suc left)) (\<lambda>mr.
       if ends_above mr max_addr then step_down s max_addr left else Inr (Suc left))"

definition find_highest_range_below :: "mem_map \<Rightarrow> u64 \<Rightarrow> nat res option" where
  "find_highest_range_below s max_addr =
     bindo (bisect s max_addr 0 (num_mem_ranges s)) (\<lambda>left. Some (step_down s max_addr (unat left)))"

subsection \<open>Splitting a range\<close>

text \<open>\<^verbatim>\<open>while (mr2 != mr) { *mr2 = mr2[-1]; --mr2; }\<close>, with indices for the pointers.\<close>

fun shift_up :: "mem_range list \<Rightarrow> nat \<Rightarrow> nat \<Rightarrow> mem_range list res" where
  "shift_up mrs 0 mr = (if mr = 0 then Inr mrs else Inl Out_of_bounds)"
| "shift_up mrs (Suc mr2) mr =
     (if Suc mr2 = mr then Inr mrs
      else bindr (arr_get mrs mr2) (\<lambda>x. bindr (arr_set mrs (Suc mr2) x) (\<lambda>mrs'. shift_up mrs' mr2 mr)))"

definition split_range :: "mem_map \<Rightarrow> nat \<Rightarrow> u64 \<Rightarrow> u32 \<Rightarrow> u32 \<Rightarrow> mem_map res" where
  "split_range s mr split_point type_below type_above =
     bindr (arr_get (mem_ranges s) mr) (\<lambda>r.
       if rg_start r = split_point then
         Inr (s\<lparr> mem_ranges := (mem_ranges s)[mr := r\<lparr> rg_e820_type := type_above \<rparr>] \<rparr>)
       else if rg_start r + rg_len r = split_point then
         Inr (s\<lparr> mem_ranges := (mem_ranges s)[mr := r\<lparr> rg_e820_type := type_below \<rparr>] \<rparr>)
       else if num_mem_ranges s \<ge> max_mem_ranges s then Inl Hlt
       else
         bindr (shift_up (mem_ranges s) (unat (num_mem_ranges s)) mr) (\<lambda>mrs.
         bindr (arr_get mrs (mr + 1)) (\<lambda>r2.
           let len = split_point - rg_start r;
               r' = r\<lparr> rg_len := len, rg_e820_type := type_below \<rparr>;
               r2' = r2\<lparr> rg_len := rg_len r2 - len, rg_start := split_point, rg_e820_type := type_above \<rparr>
           in Inr (s\<lparr> mem_ranges := mrs[mr := r', mr + 1 := r2'],
                      num_mem_ranges := num_mem_ranges s + 1 \<rparr>))))"

subsection \<open>Allocation\<close>

text \<open>
  The downward loop; the last argument is one more than the index of \<^verbatim>\<open>mr\<close>, so 0 is a pointer
  in front of the array, whose use is out of bounds.
\<close>

fun mem_alloc_from :: "mem_map \<Rightarrow> u32 \<Rightarrow> u32 \<Rightarrow> nat \<Rightarrow> (nat \<times> u32) res" where
  "mem_alloc_from s sz align 0 = Inl Out_of_bounds"
| "mem_alloc_from s sz align (Suc mr) =
     bindr (arr_get (mem_ranges s) mr) (\<lambda>r.
       if rg_e820_type r \<noteq> E820_RAM \<or> rg_len r < ucast sz then mem_alloc_from s sz align mr
       else
         let aend = ucast (rg_start r + rg_len r) :: u32;
             astart = (aend - sz) AND - align
         in if ucast astart \<ge> rg_start r then Inr (mr, astart)
            else if rg_start r = 0 then Inl Hlt
            else mem_alloc_from s sz align mr)"

text \<open>The result is the address, 0 for the null pointer.\<close>

definition mem_alloc :: "mem_map \<Rightarrow> u32 \<Rightarrow> u32 \<Rightarrow> u32 \<Rightarrow> (u32 \<times> mem_map) res option" where
  "mem_alloc s sz align max_addr =
     (if sz = 0 then Some (Inr (0, s))
      else
        let max_addr64 = (if max_addr = 0 then XM32_MAX_ADDR else ucast max_addr) in
        if max_addr64 < ucast sz then Some (Inl Hlt)
        else
          bindo (find_highest_range_below s max_addr64) (\<lambda>mr0.
          bindo (Some (mem_alloc_from s sz align (Suc mr0))) (\<lambda>(mr, astart).
          bindo (Some (split_range s mr (ucast astart) E820_RAM E820_RESERVED)) (\<lambda>s'.
          Some (Inr (astart, s'))))))"

subsection \<open>The invariant\<close>

definition rg_end :: "mem_range \<Rightarrow> nat" where
  "rg_end r = unat (rg_start r) + unat (rg_len r)"

definition rg_ok :: "mem_range \<Rightarrow> bool" where
  "rg_ok r \<longleftrightarrow> 0 < unat (rg_len r) \<and> rg_end r \<le> 2 ^ 64"

definition rg_before :: "mem_range \<Rightarrow> mem_range \<Rightarrow> bool" where
  "rg_before a b \<longleftrightarrow> rg_end a \<le> unat (rg_start b)"

definition ranges_wf :: "mem_range list \<Rightarrow> bool" where
  "ranges_wf rs \<longleftrightarrow> list_all rg_ok rs \<and> sorted_wrt rg_before rs"

definition ranges :: "mem_map \<Rightarrow> mem_range list" where
  "ranges s = take (unat (num_mem_ranges s)) (mem_ranges s)"

definition mm_wf :: "mem_map \<Rightarrow> bool" where
  "mm_wf s \<longleftrightarrow> length (mem_ranges s) = unat (max_mem_ranges s) \<and> 0 < num_mem_ranges s \<and>
     num_mem_ranges s \<le> max_mem_ranges s \<and> max_mem_ranges s \<le> 0x40000000 \<and> ranges_wf (ranges s)"

text \<open>
  What stage 1 reports overlaps below 1 MiB: memory it took from the firmware there is listed
  once as RAM and once as the firmware's. The weaker invariant lets two ranges that end at or below
  \<open>B\<close> overlap, unless both are RAM, and leaves their order open.
\<close>

definition rg_before_at :: "nat \<Rightarrow> mem_range \<Rightarrow> mem_range \<Rightarrow> bool" where
  "rg_before_at B a b \<longleftrightarrow> rg_before a b \<or>
     rg_end a \<le> B \<and> rg_end b \<le> B \<and>
     (rg_e820_type a = E820_RAM \<longrightarrow> rg_e820_type b = E820_RAM \<longrightarrow>
        rg_end a \<le> unat (rg_start b) \<or> rg_end b \<le> unat (rg_start a))"

definition ranges_wf_at :: "nat \<Rightarrow> mem_range list \<Rightarrow> bool" where
  "ranges_wf_at B rs \<longleftrightarrow> list_all rg_ok rs \<and> sorted_wrt (rg_before_at B) rs"

definition mm_wf_at :: "nat \<Rightarrow> mem_map \<Rightarrow> bool" where
  "mm_wf_at B s \<longleftrightarrow> length (mem_ranges s) = unat (max_mem_ranges s) \<and> 0 < num_mem_ranges s \<and>
     num_mem_ranges s \<le> max_mem_ranges s \<and> max_mem_ranges s \<le> 0x40000000 \<and> ranges_wf_at B (ranges s)"

text \<open>Stage 2 works with maps that overlap below 1 MiB only.\<close>

definition low_top :: nat where "low_top = 0x100000"

abbreviation map_ok :: "mem_map \<Rightarrow> bool" where
  "map_ok \<equiv> mm_wf_at low_top"

definition rg_bytes :: "mem_range \<Rightarrow> nat set" where
  "rg_bytes r = {unat (rg_start r)..<rg_end r}"

text \<open>The bytes of RAM that the map does not hold reserved.\<close>

definition ranges_free :: "mem_range list \<Rightarrow> nat set" where
  "ranges_free rs = (\<Union>r\<in>{r \<in> set rs. rg_e820_type r = E820_RAM}. rg_bytes r)"

definition mm_free :: "mem_map \<Rightarrow> nat set" where
  "mm_free s = ranges_free (ranges s)"

lemma ranges_wf_iff: "ranges_wf rs \<longleftrightarrow> ranges_wf_at 0 rs"
proof -
  have "rg_before_at 0 a b \<longleftrightarrow> rg_before a b" if "rg_ok a" for a b
    using that by (simp add: rg_before_at_def rg_ok_def rg_end_def)
  then have "sorted_wrt rg_before rs \<longleftrightarrow> sorted_wrt (rg_before_at 0) rs" if "list_all rg_ok rs"
    using that by (induction rs) auto
  then show ?thesis by (auto simp: ranges_wf_def ranges_wf_at_def)
qed

lemma mm_wf_iff: "mm_wf s \<longleftrightarrow> mm_wf_at 0 s"
  by (simp add: mm_wf_def mm_wf_at_def ranges_wf_iff)

lemma mm_wf_at_mono: "mm_wf_at B s \<Longrightarrow> B \<le> B' \<Longrightarrow> mm_wf_at B' s"
  unfolding mm_wf_at_def ranges_wf_at_def
  by (auto simp: rg_before_at_def elim!: sorted_wrt_mono_rel [rotated])

lemma mm_wf_at: "mm_wf s \<Longrightarrow> mm_wf_at B s"
  using mm_wf_at_mono [of 0 s B] by (simp add: mm_wf_iff)

subsection \<open>The search\<close>

lemma ends_above_iff:
  assumes "rg_ok r" and "0 < max_addr"
  shows "ends_above r max_addr \<longleftrightarrow> unat max_addr < rg_end r"
proof -
  have "unat (rg_start r + rg_len r - 1) = rg_end r - 1"
  proof -
    have le: "1 \<le> rg_len r" using assms(1) by (simp add: rg_ok_def word_le_nat_alt)
    have "unat (rg_len r - 1) = unat (rg_len r) - 1" using le by (subst unat_sub) simp_all
    moreover have "unat (rg_start r + (rg_len r - 1)) = unat (rg_start r) + unat (rg_len r - 1)"
      using assms(1) calculation by (intro unat_add_nowrap) (simp add: rg_ok_def rg_end_def, linarith)
    ultimately show ?thesis using assms(1) by (simp add: rg_end_def rg_ok_def algebra_simps)
  qed
  moreover have "unat (max_addr - 1) = unat max_addr - 1"
    using assms(2) by (subst unat_sub) (simp_all add: word_le_nat_alt word_less_nat_alt)
  moreover have "0 < unat max_addr" using assms(2) by (simp add: word_less_nat_alt)
  moreover have "0 < rg_end r" using assms(1) by (simp add: rg_ok_def rg_end_def)
  ultimately show ?thesis by (auto simp: ends_above_def word_less_nat_alt)
qed

lemma length_ranges: "mm_wf_at B s \<Longrightarrow> length (ranges s) = unat (num_mem_ranges s)"
  by (simp add: ranges_def mm_wf_at_def word_le_nat_alt)

lemma ranges_nth: "mm_wf_at B s \<Longrightarrow> i < unat (num_mem_ranges s) \<Longrightarrow>
    i < length (mem_ranges s) \<and> mem_ranges s ! i = ranges s ! i \<and> rg_ok (ranges s ! i)"
  using length_ranges [of B s] by (auto simp: ranges_def mm_wf_at_def word_le_nat_alt ranges_wf_at_def list_all_length)

lemma ranges_ordered:
  assumes "mm_wf_at B s" and "i < j" and "j < length (ranges s)"
  shows "rg_before_at B (ranges s ! i) (ranges s ! j)"
  using assms by (auto simp: mm_wf_at_def ranges_wf_at_def sorted_wrt_iff_nth_less)

lemma rg_end_mono:
  assumes wf: "mm_wf_at B s" and ij: "i \<le> j" "j < unat (num_mem_ranges s)" and lim: "B \<le> lim"
  shows "rg_end (ranges s ! j) \<le> lim \<Longrightarrow> rg_end (ranges s ! i) \<le> lim"
proof (cases "i = j")
  case False
  then have "rg_before_at B (ranges s ! i) (ranges s ! j)"
    using ij length_ranges [OF wf] by (intro ranges_ordered [OF wf]) auto
  moreover have "unat (rg_start (ranges s ! j)) \<le> rg_end (ranges s ! j)" by (simp add: rg_end_def)
  ultimately show "rg_end (ranges s ! i) \<le> lim" if "rg_end (ranges s ! j) \<le> lim"
    using lim that unfolding rg_before_at_def rg_before_def by linarith
qed simp

text \<open>What the bisection keeps: everything from \<open>right\<close> on ends above the limit.\<close>

definition all_above :: "mem_map \<Rightarrow> u64 \<Rightarrow> nat \<Rightarrow> bool" where
  "all_above s max_addr i \<longleftrightarrow>
     (\<forall>j. i \<le> j \<longrightarrow> j < unat (num_mem_ranges s) \<longrightarrow> unat max_addr < rg_end (ranges s ! j))"

lemma bisect_returns:
  assumes wf: "mm_wf_at B s" and pos: "0 < max_addr" and lim: "B \<le> unat max_addr"
  shows "left < right \<Longrightarrow> right \<le> num_mem_ranges s \<Longrightarrow> all_above s max_addr (unat right) \<Longrightarrow>
    \<exists>i. bisect s max_addr left right = Some (Inr i) \<and> i < num_mem_ranges s \<and> all_above s max_addr (Suc (unat i))"
proof (induction "unat right - unat left" arbitrary: left right rule: less_induct)
  case less
  note unf = bisect.simps [of s max_addr left right]
  have max: "unat (num_mem_ranges s) \<le> 0x40000000"
    using wf unfolding mm_wf_at_def word_le_nat_alt by (auto intro: order_trans)
  have lt: "unat left < unat right" "unat right \<le> unat (num_mem_ranges s)"
    using less.prems by (simp_all add: word_less_nat_alt word_le_nat_alt)
  have r1: "unat (right - 1) = unat right - 1"
    using lt by (subst unat_sub) (simp_all add: word_le_nat_alt)
  show ?case
  proof (cases "left < right - 1")
    case True
    then have gap: "unat left < unat right - 1" using r1 by (simp add: word_less_nat_alt)
    let ?mid = "(left + right) div 2"
    have "unat (left + right) = unat left + unat right" using lt max by (intro unat_add_nowrap) simp
    then have mid: "unat ?mid = (unat left + unat right) div 2" by (simp add: unat_div_distrib)
    then have b: "unat left < unat ?mid" "unat ?mid < unat right" using gap by linarith+
    then have bw: "left < ?mid" "?mid < right" "?mid \<le> num_mem_ranges s"
      using lt(2) by (simp_all add: word_less_nat_alt word_le_nat_alt)
    have m: "unat ?mid < unat (num_mem_ranges s)" using b(2) lt(2) by simp
    have d: "unat ?mid - unat left < unat right - unat left" "unat right - unat ?mid < unat right - unat left"
      using b by linarith+
    have "all_above s max_addr (unat ?mid)" if "ends_above (ranges s ! unat ?mid) max_addr"
      using that ends_above_iff [OF _ pos] ranges_nth [OF wf m] rg_end_mono [OF wf _ _ lim]
      unfolding all_above_def by (metis linorder_not_less)
    then show ?thesis
      using unf True less.hyps [OF d(1) bw(1,3)] less.hyps [OF d(2) bw(2) less.prems(2,3)] ranges_nth [OF wf m]
      by (auto simp: Let_def)
  next
    case False
    have "all_above s max_addr (Suc (unat left))"
      using False r1 lt less.prems(3) by (simp add: word_less_nat_alt all_above_def)
    then show ?thesis using unf False less.prems by (auto intro: less_le_trans)
  qed
qed

lemma step_down_cases:
  assumes wf: "mm_wf_at B s" and pos: "0 < max_addr" and lim: "B \<le> unat max_addr"
  shows "n < unat (num_mem_ranges s) \<Longrightarrow> all_above s max_addr (Suc n) \<Longrightarrow>
    (if unat max_addr < rg_end (ranges s ! 0) then step_down s max_addr n = Inl Hlt
     else \<exists>i. step_down s max_addr n = Inr i \<and> i < unat (num_mem_ranges s) \<and>
       rg_end (ranges s ! i) \<le> unat max_addr \<and> all_above s max_addr (Suc i))"
proof (induction n)
  case 0
  then show ?case using ranges_nth [OF wf, of 0] ends_above_iff [OF _ pos, of "ranges s ! 0"] by auto
next
  case (Suc n)
  show ?case
  proof (cases "unat max_addr < rg_end (ranges s ! Suc n)")
    case True
    then have "all_above s max_addr (Suc n)"
      using Suc.prems(2) unfolding all_above_def by (metis Suc_leI le_neq_implies_less)
    then show ?thesis
      using Suc.IH Suc.prems(1) True ranges_nth [OF wf Suc.prems(1)] ends_above_iff [OF _ pos] by simp
  next
    case False
    then have "\<not> unat max_addr < rg_end (ranges s ! 0)" using rg_end_mono [OF wf _ Suc.prems(1) lim, of 0] by simp
    then show ?thesis
      using False Suc.prems ranges_nth [OF wf Suc.prems(1)] ends_above_iff [OF _ pos] by auto
  qed
qed

lemma find_highest_cases:
  assumes wf: "mm_wf_at B s" and pos: "0 < max_addr" and lim: "B \<le> unat max_addr"
  shows "if unat max_addr < rg_end (ranges s ! 0) then find_highest_range_below s max_addr = Some (Inl Hlt)
     else \<exists>i. find_highest_range_below s max_addr = Some (Inr i) \<and> i < unat (num_mem_ranges s) \<and>
       rg_end (ranges s ! i) \<le> unat max_addr \<and> all_above s max_addr (Suc i)"
proof -
  have "0 < num_mem_ranges s" using wf by (simp add: mm_wf_at_def)
  moreover have "all_above s max_addr (unat (num_mem_ranges s))" by (simp add: all_above_def)
  ultimately obtain l where "bisect s max_addr 0 (num_mem_ranges s) = Some (Inr l)" "l < num_mem_ranges s"
    "all_above s max_addr (Suc (unat l))" using bisect_returns [OF wf pos lim, of 0 "num_mem_ranges s"] by blast
  then show ?thesis
    using step_down_cases [OF wf pos lim, of "unat l"] by (simp add: find_highest_range_below_def word_less_nat_alt)
qed

subsection \<open>Splitting\<close>

lemma shift_up_ok:
  "i \<le> k \<Longrightarrow> k < length mrs \<Longrightarrow> \<exists>mrs'. shift_up mrs k i = Inr mrs' \<and> length mrs' = length mrs \<and>
     (\<forall>j<length mrs. mrs' ! j = (if i < j \<and> j \<le> k then mrs ! (j - 1) else mrs ! j))"
proof (induction k arbitrary: mrs)
  case (Suc k)
  show ?case
  proof (cases "Suc k = i")
    case False
    then have "i \<le> k" using Suc.prems(1) by simp
    then obtain mrs' where "shift_up (mrs[Suc k := mrs ! k]) k i = Inr mrs'" "length mrs' = length mrs"
      "\<forall>j<length mrs. mrs' ! j = (if i < j \<and> j \<le> k then mrs[Suc k := mrs ! k] ! (j - 1) else mrs[Suc k := mrs ! k] ! j)"
      using Suc.IH [of "mrs[Suc k := mrs ! k]"] Suc.prems(2) by auto
    then show ?thesis using False Suc.prems \<open>i \<le> k\<close> by (auto simp: nth_list_update le_Suc_eq)
  qed auto
qed auto

text \<open>The two ranges a split leaves behind.\<close>

definition lower_part :: "mem_range \<Rightarrow> u64 \<Rightarrow> u32 \<Rightarrow> mem_range" where
  "lower_part r p t = r\<lparr> rg_len := p - rg_start r, rg_e820_type := t \<rparr>"

definition upper_part :: "mem_range \<Rightarrow> u64 \<Rightarrow> u32 \<Rightarrow> mem_range" where
  "upper_part r p t = r\<lparr> rg_len := rg_len r - (p - rg_start r), rg_start := p, rg_e820_type := t \<rparr>"

lemma split_inside:
  assumes wf: "mm_wf_at B s" and i: "i < unat (num_mem_ranges s)"
    and p: "rg_start (ranges s ! i) < p" "unat p < rg_end (ranges s ! i)"
    and room: "num_mem_ranges s < max_mem_ranges s"
  shows "\<exists>s'. split_range s i p tb ta = Inr s' \<and> num_mem_ranges s' = num_mem_ranges s + 1 \<and>
    max_mem_ranges s' = max_mem_ranges s \<and> length (mem_ranges s') = length (mem_ranges s) \<and>
    ranges s' = take i (ranges s) @ lower_part (ranges s ! i) p tb # upper_part (ranges s ! i) p ta # drop (Suc i) (ranges s)"
proof -
  let ?r = "ranges s ! i" and ?n = "unat (num_mem_ranges s)"
  have n: "?n < length (mem_ranges s)" using wf room by (simp add: mm_wf_at_def word_less_nat_alt)
  have len: "length (ranges s) = ?n" by (rule length_ranges [OF wf])
  obtain mrs where sh: "shift_up (mem_ranges s) ?n i = Inr mrs" "length mrs = length (mem_ranges s)"
    "\<forall>j<length (mem_ranges s). mrs ! j = (if i < j \<and> j \<le> ?n then mem_ranges s ! (j - 1) else mem_ranges s ! j)"
    using shift_up_ok [of i ?n "mem_ranges s"] i n by auto
  have r: "mem_ranges s ! i = ?r" "i < length (mem_ranges s)" using ranges_nth [OF wf i] by auto
  have "rg_start ?r + rg_len ?r \<noteq> p"
  proof
    assume eq: "rg_start ?r + rg_len ?r = p"
    have "rg_end ?r = unat p \<or> rg_end ?r = 2 ^ 64 \<and> unat p = 0"
      using ranges_nth [OF wf i] unfolding eq [symmetric]
      by (auto simp: rg_ok_def rg_end_def unat_word_ariths le_less)
    then show False using p by (auto simp: word_less_nat_alt)
  qed
  then have eq: "split_range s i p tb ta = Inr (s\<lparr> mem_ranges := mrs[i := lower_part ?r p tb, i + 1 := upper_part ?r p ta],
      num_mem_ranges := num_mem_ranges s + 1 \<rparr>)" (is "_ = Inr ?s'")
    using p(1) room r sh n i
    by (simp add: split_range_def lower_part_def upper_part_def Let_def not_le [symmetric])
  have num: "unat (num_mem_ranges s + 1) = ?n + 1"
    using unat_add_nowrap [of "num_mem_ranges s" 1] room unat_lt [of "max_mem_ranges s"]
    by (simp add: word_less_nat_alt)
  have "ranges ?s' = take i (ranges s) @ lower_part ?r p tb # upper_part ?r p ta # drop (Suc i) (ranges s)"
    (is "?L = ?R")
  proof (rule nth_equalityI)
    show "length ?L = length ?R" using n i len sh(2) num by (simp add: ranges_def)
    fix j assume "j < length ?L"
    then have j: "j < ?n + 1" using num by (simp add: ranges_def)
    consider "j < i" | "j = i" | "j = i + 1" | "i + 1 < j" by linarith
    then show "?L ! j = ?R ! j"
    proof cases
      case 4
      moreover have "Suc (j - 2) = j - Suc 0" using 4 by linarith
      ultimately have "?R ! j = ranges s ! (j - 1)" using i j len by (simp add: nth_append nth_Cons' add.commute)
      then show ?thesis using 4 sh j n num i by (simp add: ranges_def)
    qed (use i j len sh n num in \<open>auto simp: ranges_def nth_append\<close>)
  qed
  then show ?thesis using eq sh(2) by auto
qed

lemma split_at_start:
  assumes wf: "mm_wf_at B s" and i: "i < unat (num_mem_ranges s)" and p: "rg_start (ranges s ! i) = p"
  shows "\<exists>s'. split_range s i p tb ta = Inr s' \<and> num_mem_ranges s' = num_mem_ranges s \<and>
    max_mem_ranges s' = max_mem_ranges s \<and> length (mem_ranges s') = length (mem_ranges s) \<and>
    ranges s' = take i (ranges s) @ (ranges s ! i)\<lparr> rg_e820_type := ta \<rparr> # drop (Suc i) (ranges s)"
proof -
  let ?r = "(ranges s ! i)\<lparr> rg_e820_type := ta \<rparr>"
  let ?s = "s\<lparr> mem_ranges := (mem_ranges s)[i := ?r] \<rparr>"
  have "split_range s i p tb ta = Inr ?s" using ranges_nth [OF wf i] p by (simp add: split_range_def)
  moreover have "ranges ?s = (ranges s)[i := ?r]" by (simp add: ranges_def take_update_swap)
  then have "ranges ?s = take i (ranges s) @ ?r # drop (Suc i) (ranges s)"
    using length_ranges [OF wf] i by (simp add: upd_conv_take_nth_drop)
  ultimately show ?thesis by auto
qed

lemma ranges_wf_replace:
  assumes wf: "ranges_wf_at B rs" and i: "i < length rs" and ok: "list_all rg_ok new" "sorted_wrt (rg_before_at B) new"
    and inside: "\<forall>r\<in>set new. rg_start (rs ! i) \<le> rg_start r \<and> rg_end r \<le> rg_end (rs ! i) \<and>
       (rg_e820_type r = E820_RAM \<longrightarrow> rg_e820_type (rs ! i) = E820_RAM)"
  shows "ranges_wf_at B (take i rs @ new @ drop (Suc i) rs)"
proof -
  have split: "rs = take i rs @ rs ! i # drop (Suc i) rs" using i by (simp add: id_take_nth_drop)
  have old: "sorted_wrt (rg_before_at B) (take i rs @ rs ! i # drop (Suc i) rs)" "list_all rg_ok (take i rs @ rs ! i # drop (Suc i) rs)"
    using wf unfolding ranges_wf_at_def split [symmetric] by blast+
  have part: "unat (rg_start (rs ! i)) \<le> unat (rg_start r)" "rg_end r \<le> rg_end (rs ! i)"
    "rg_e820_type r = E820_RAM \<Longrightarrow> rg_e820_type (rs ! i) = E820_RAM" if "r \<in> set new" for r
    using inside that by (auto simp: word_le_nat_alt)
  have lo: "rg_before_at B a r" if "rg_before_at B a (rs ! i)" "r \<in> set new" for a r
    using that(1) part [OF that(2)] unfolding rg_before_at_def rg_before_def by linarith
  have up: "rg_before_at B r b" if "rg_before_at B (rs ! i) b" "r \<in> set new" for b r
    using that(1) part [OF that(2)] unfolding rg_before_at_def rg_before_def by linarith
  show ?thesis
    using old ok unfolding ranges_wf_at_def sorted_wrt_append list_all_append
    by (auto intro: lo up)
qed

lemma ranges_free_append: "ranges_free (xs @ ys) = ranges_free xs \<union> ranges_free ys"
  and ranges_free_Cons: "ranges_free (r # rs) = (if rg_e820_type r = E820_RAM then rg_bytes r else {}) \<union> ranges_free rs"
  and ranges_free_nil: "ranges_free [] = {}"
  by (auto simp: ranges_free_def)

lemma ranges_free_replace:
  assumes wf: "ranges_wf_at B rs" and i: "i < length rs" and ram: "rg_e820_type (rs ! i) = E820_RAM"
    and less: "ranges_free new \<subseteq> rg_bytes (rs ! i) - A" and A: "A \<subseteq> rg_bytes (rs ! i)"
  shows "A \<subseteq> ranges_free rs" and "ranges_free (take i rs @ new @ drop (Suc i) rs) \<subseteq> ranges_free rs - A"
proof -
  have split: "rs = take i rs @ rs ! i # drop (Suc i) rs" using i by (simp add: id_take_nth_drop)
  have all: "ranges_free rs = ranges_free (take i rs) \<union> rg_bytes (rs ! i) \<union> ranges_free (drop (Suc i) rs)"
    by (subst split) (simp add: ranges_free_append ranges_free_Cons ram Un_assoc)
  then show "A \<subseteq> ranges_free rs" using A by blast
  have "sorted_wrt (rg_before_at B) (take i rs @ rs ! i # drop (Suc i) rs)" using wf unfolding ranges_wf_at_def split [symmetric] by blast
  then have "rg_before_at B r (rs ! i) \<or> rg_before_at B (rs ! i) r" if "r \<in> set (take i rs) \<union> set (drop (Suc i) rs)" for r
    using that by (auto simp: sorted_wrt_append)
  then have "rg_bytes r \<inter> rg_bytes (rs ! i) = {}"
    if "r \<in> set (take i rs) \<union> set (drop (Suc i) rs)" "rg_e820_type r = E820_RAM" for r
    using that ram unfolding rg_before_at_def rg_before_def rg_bytes_def by fastforce
  then have "ranges_free (take i rs) \<inter> A = {}" "ranges_free (drop (Suc i) rs) \<inter> A = {}"
    using A by (auto simp: ranges_free_def)
  then show "ranges_free (take i rs @ new @ drop (Suc i) rs) \<subseteq> ranges_free rs - A"
    using less all by (auto simp: ranges_free_append)
qed

text \<open>Cutting off the top of a RAM range from \<open>p\<close> on.\<close>

lemma split_reserve:
  assumes wf: "mm_wf_at B s" and i: "i < unat (num_mem_ranges s)" and ram: "rg_e820_type (ranges s ! i) = E820_RAM"
    and p: "rg_start (ranges s ! i) \<le> p" "unat p < rg_end (ranges s ! i)"
    and eq: "split_range s i p E820_RAM E820_RESERVED = Inr s'"
  shows "mm_wf_at B s'" and "{unat p..<rg_end (ranges s ! i)} \<subseteq> mm_free s"
    and "mm_free s' \<subseteq> mm_free s - {unat p..<rg_end (ranges s ! i)}"
proof -
  let ?r = "ranges s ! i" and ?A = "{unat p..<rg_end (ranges s ! i)}"
  have ok: "rg_ok ?r" using ranges_nth [OF wf i] by blast
  have len: "i < length (ranges s)" using length_ranges [OF wf] i by simp
  have rwf: "ranges_wf_at B (ranges s)" using wf by (simp add: mm_wf_at_def)
  have ple: "unat (rg_start ?r) \<le> unat p" using p(1) by (simp add: word_le_nat_alt)
  have A: "?A \<subseteq> rg_bytes ?r" using ple by (auto simp: rg_bytes_def)
  have "\<exists>new. mm_wf_at B s' \<and> ranges s' = take i (ranges s) @ new @ drop (Suc i) (ranges s) \<and>
      ranges_free new \<subseteq> rg_bytes ?r - ?A"
  proof (cases "rg_start ?r = p")
    case True
    let ?new = "[?r\<lparr> rg_e820_type := E820_RESERVED \<rparr>]"
    have s': "num_mem_ranges s' = num_mem_ranges s" "max_mem_ranges s' = max_mem_ranges s"
      "length (mem_ranges s') = length (mem_ranges s)"
      "ranges s' = take i (ranges s) @ ?new @ drop (Suc i) (ranges s)"
      using split_at_start [OF wf i True, of E820_RAM E820_RESERVED] eq by auto
    have "ranges_wf_at B (ranges s')"
      unfolding s'(4) using ok by (intro ranges_wf_replace [OF rwf len]) (auto simp: rg_ok_def rg_end_def ram)
    then have "mm_wf_at B s'" using wf s'(1-3) by (simp add: mm_wf_at_def)
    then show ?thesis using s'(4) by (auto simp: ranges_free_def E820_RAM_def E820_RESERVED_def)
  next
    case False
    then have lt: "rg_start ?r < p" using p(1) by simp
    have room: "num_mem_ranges s < max_mem_ranges s"
    proof (rule ccontr)
      assume "\<not> num_mem_ranges s < max_mem_ranges s"
      moreover have "rg_start ?r + rg_len ?r \<noteq> p"
        using ok p(2) lt by (auto simp: rg_ok_def rg_end_def unat_word_ariths le_less word_less_nat_alt)
      ultimately show False
        using eq False ranges_nth [OF wf i] by (auto simp: split_range_def not_less)
    qed
    let ?lo = "lower_part ?r p E820_RAM" and ?up = "upper_part ?r p E820_RESERVED"
    have s': "num_mem_ranges s' = num_mem_ranges s + 1" "max_mem_ranges s' = max_mem_ranges s"
      "length (mem_ranges s') = length (mem_ranges s)"
      "ranges s' = take i (ranges s) @ [?lo, ?up] @ drop (Suc i) (ranges s)"
      using split_inside [OF wf i lt p(2) room, of E820_RAM E820_RESERVED] eq by auto
    have d: "unat (p - rg_start ?r) = unat p - unat (rg_start ?r)" using p(1) by (simp add: unat_sub)
    then have d2: "unat (rg_len ?r - (p - rg_start ?r)) = rg_end ?r - unat p"
      using p(2) ple by (subst unat_sub) (auto simp: word_le_nat_alt rg_end_def)
    have lo: "rg_start ?lo = rg_start ?r" "rg_end ?lo = unat p"
      and up: "rg_start ?up = p" "rg_end ?up = rg_end ?r"
      using d d2 p(2) ple by (simp_all add: lower_part_def upper_part_def rg_end_def)
    have "list_all rg_ok [?lo, ?up]"
      using ok lt p(2) lo up d d2 by (simp add: rg_ok_def lower_part_def upper_part_def word_less_nat_alt)
    then have "ranges_wf_at B (ranges s')"
      unfolding s'(4) using lo up p ple by (intro ranges_wf_replace [OF rwf len]) (auto simp: rg_before_at_def rg_before_def ram)
    moreover have "num_mem_ranges s + 1 \<le> max_mem_ranges s" "0 < num_mem_ranges s + 1"
      using unat_add_nowrap [of "num_mem_ranges s" 1] room unat_lt [of "max_mem_ranges s"]
      by (simp_all add: word_less_nat_alt word_le_nat_alt)
    ultimately have "mm_wf_at B s'" using wf s'(1-3) by (simp add: mm_wf_at_def)
    moreover have "ranges_free [?lo, ?up] \<subseteq> rg_bytes ?r - ?A"
      using lo p(2) by (auto simp: ranges_free_def rg_bytes_def lower_part_def upper_part_def
          E820_RAM_def E820_RESERVED_def)
    ultimately show ?thesis using s'(4) by blast
  qed
  then obtain new where new: "mm_wf_at B s'" "ranges s' = take i (ranges s) @ new @ drop (Suc i) (ranges s)"
    "ranges_free new \<subseteq> rg_bytes ?r - ?A" by blast
  show "mm_wf_at B s'" by (rule new(1))
  show "?A \<subseteq> mm_free s" and "mm_free s' \<subseteq> mm_free s - ?A"
    using ranges_free_replace [OF rwf len ram new(3) A] by (simp_all add: mm_free_def new(2))
qed

subsection \<open>Choosing a range\<close>

definition serves :: "mem_range \<Rightarrow> nat \<Rightarrow> nat \<Rightarrow> bool" where
  "serves r sz align \<longleftrightarrow> rg_e820_type r = E820_RAM \<and>
     (\<exists>a. align dvd a \<and> unat (rg_start r) \<le> a \<and> a + sz \<le> rg_end r)"

text \<open>The highest aligned address at which the block still fits below the end of the range.\<close>

definition top_start :: "mem_range \<Rightarrow> nat \<Rightarrow> nat \<Rightarrow> nat" where
  "top_start r sz align = (rg_end r - sz) div align * align"

lemma serves_iff:
  assumes "0 < align"
  shows "serves r sz align \<longleftrightarrow>
    rg_e820_type r = E820_RAM \<and> sz \<le> unat (rg_len r) \<and> unat (rg_start r) \<le> top_start r sz align"
proof (intro iffI conjI)
  assume l: "serves r sz align"
  then obtain a where a: "align dvd a" "unat (rg_start r) \<le> a" "a + sz \<le> rg_end r" by (auto simp: serves_def)
  show "rg_e820_type r = E820_RAM" using l by (simp add: serves_def)
  show "sz \<le> unat (rg_len r)" using a by (simp add: rg_end_def)
  have "a \<le> top_start r sz align" unfolding top_start_def using a by (intro div_times_ge_dvd) auto
  then show "unat (rg_start r) \<le> top_start r sz align" using a(2) by simp
next
  assume r: "rg_e820_type r = E820_RAM \<and> sz \<le> unat (rg_len r) \<and> unat (rg_start r) \<le> top_start r sz align"
  have "top_start r sz align \<le> rg_end r - sz" unfolding top_start_def by (rule div_times_le)
  moreover have "sz \<le> rg_end r" using r by (simp add: rg_end_def)
  ultimately have "top_start r sz align + sz \<le> rg_end r" by linarith
  moreover have "align dvd top_start r sz align" by (simp add: top_start_def)
  ultimately show "serves r sz align" using r unfolding serves_def by blast
qed

lemma unat_astart:
  assumes "rg_ok r" and "rg_end r \<le> 2 ^ 32" and "0 < sz" and "unat sz \<le> unat (rg_len r)"
    and "unat align = 2 ^ k" and "k < 32"
  shows "unat ((ucast (rg_start r + rg_len r) - sz) AND - align :: u32) = top_start r (unat sz) (unat align)"
proof -
  have "unat (rg_start r + rg_len r) = rg_end r"
    using assms(2) by (simp add: rg_end_def unat_add_nowrap)
  then have "(ucast (rg_start r + rg_len r) :: u32) = word_of_nat (rg_end r)"
    by (simp only: word_unat_eq_iff unat_of_nat unsigned_ucast_eq unsigned_take_bit_eq take_bit_eq_mod)
  moreover have le: "unat sz \<le> rg_end r" using assms(4) by (simp add: rg_end_def)
  ultimately have "ucast (rg_start r + rg_len r) - sz = word_of_nat (rg_end r - unat sz)"
    by (simp add: of_nat_diff)
  moreover have "rg_end r - unat sz < 2 ^ 32" using assms(2,3) le by (auto simp: word_less_nat_alt)
  then have "unat (word_of_nat (rg_end r - unat sz) :: u32) = rg_end r - unat sz"
    by (simp only: unat_of_nat) simp
  ultimately have "unat (ucast (rg_start r + rg_len r) - sz :: u32) = rg_end r - unat sz" by simp
  moreover have "align = 2 ^ k" using assms(5) by (rule word_of_exp)
  ultimately show ?thesis
    using unat_and_neg_exp [of k "ucast (rg_start r + rg_len r) - sz :: u32"] assms(5,6)
    by (simp add: top_start_def)
qed

text \<open>One turn of the loop.\<close>

lemma alloc_turn:
  assumes "rg_ok r" and "rg_end r \<le> 2 ^ 32" and "0 < sz" and "unat align = 2 ^ k" and "k < 32"
  shows "(rg_e820_type r \<noteq> E820_RAM \<or> rg_len r < ucast sz) \<Longrightarrow> \<not> serves r (unat sz) (unat align)"
    and "\<not> (rg_e820_type r \<noteq> E820_RAM \<or> rg_len r < ucast sz) \<Longrightarrow>
      (let a = (ucast (rg_start r + rg_len r) - sz) AND - align :: u32 in
       unat a = top_start r (unat sz) (unat align) \<and>
       (rg_start r \<le> ucast a \<longleftrightarrow> serves r (unat sz) (unat align)))"
proof -
  have pos: "0 < unat align" using assms(4) by simp
  show "(rg_e820_type r \<noteq> E820_RAM \<or> rg_len r < ucast sz) \<Longrightarrow> \<not> serves r (unat sz) (unat align)"
    by (auto simp: serves_iff [OF pos] word_less_nat_alt)
  assume fit: "\<not> (rg_e820_type r \<noteq> E820_RAM \<or> rg_len r < ucast sz)"
  then have "unat sz \<le> unat (rg_len r)" by (simp add: word_less_nat_alt not_less)
  from unat_astart [OF assms(1-3) this assms(4,5)]
  show "(let a = (ucast (rg_start r + rg_len r) - sz) AND - align :: u32 in
       unat a = top_start r (unat sz) (unat align) \<and>
       (rg_start r \<le> ucast a \<longleftrightarrow> serves r (unat sz) (unat align)))"
    using fit by (simp add: Let_def serves_iff [OF pos] word_le_nat_alt word_less_nat_alt not_less)
qed

definition highest_serving :: "mem_map \<Rightarrow> nat \<Rightarrow> nat \<Rightarrow> nat \<Rightarrow> nat \<Rightarrow> bool" where
  "highest_serving s sz align n i \<longleftrightarrow> i < n \<and> serves (ranges s ! i) sz align \<and>
     (\<forall>j. i < j \<longrightarrow> j < n \<longrightarrow> \<not> serves (ranges s ! j) sz align)"

lemma mem_alloc_from_cases:
  assumes wf: "mm_wf_at B s" and sz: "0 < sz" and al: "unat align = 2 ^ k" "k < 32"
  shows "n \<le> unat (num_mem_ranges s) \<Longrightarrow> \<forall>j<n. rg_end (ranges s ! j) \<le> 2 ^ 32 \<Longrightarrow>
    (\<exists>i a. mem_alloc_from s sz align n = Inr (i, a) \<and> highest_serving s (unat sz) (unat align) n i \<and>
       unat a = top_start (ranges s ! i) (unat sz) (unat align)) \<or>
    mem_alloc_from s sz align n = Inl Out_of_bounds \<and> (\<forall>j<n. \<not> serves (ranges s ! j) (unat sz) (unat align))"
proof (induction n)
  case (Suc n)
  let ?r = "ranges s ! n" and ?a = "(ucast (rg_start (ranges s ! n) + rg_len (ranges s ! n)) - sz) AND - align :: u32"
  have n: "n < unat (num_mem_ranges s)" using Suc.prems(1) by simp
  note r = ranges_nth [OF wf n]
  have e: "rg_end ?r \<le> 2 ^ 32" using Suc.prems(2) by simp
  note turn = alloc_turn [OF conjunct2 [OF conjunct2 [OF r]] e sz al]
  show ?case
  proof (cases "serves ?r (unat sz) (unat align)")
    case True
    then have fit: "\<not> (rg_e820_type ?r \<noteq> E820_RAM \<or> rg_len ?r < ucast sz)" using turn(1) by blast
    then have "mem_alloc_from s sz align (Suc n) = Inr (n, ?a)"
      using r turn(2) [OF fit] True by (simp add: Let_def)
    then show ?thesis using turn(2) [OF fit] True by (auto simp: highest_serving_def Let_def)
  next
    case False
    have "mem_alloc_from s sz align (Suc n) = mem_alloc_from s sz align n"
    proof (cases "rg_e820_type ?r \<noteq> E820_RAM \<or> rg_len ?r < ucast sz")
      case True
      then show ?thesis using r by auto
    next
      case fit: False
      then have "\<not> rg_start ?r \<le> ucast ?a" using turn(2) [OF fit] False by (simp add: Let_def)
      then have "\<not> ucast ?a \<ge> rg_start ?r" "rg_start ?r \<noteq> 0" by auto
      then show ?thesis using r fit by (simp add: Let_def)
    qed
    moreover have "highest_serving s (unat sz) (unat align) (Suc n) i"
      if "highest_serving s (unat sz) (unat align) n i" for i
      using that False by (auto simp: highest_serving_def less_Suc_eq)
    ultimately show ?thesis using Suc.IH Suc.prems False by (auto simp: less_Suc_eq)
  qed
qed simp

subsection \<open>The allocator\<close>

text \<open>The limit of a request, and the ranges that end at or below it.\<close>

definition alloc_limit :: "u32 \<Rightarrow> nat" where
  "alloc_limit max_addr = (if max_addr = 0 then 2 ^ 32 else unat max_addr)"

definition candidates :: "mem_map \<Rightarrow> u32 \<Rightarrow> nat" where
  "candidates s max_addr = length (filter (\<lambda>r. rg_end r \<le> alloc_limit max_addr) (ranges s))"

lemma filter_prefix:
  assumes "\<forall>j<n. P (xs ! j)" and "\<forall>j. n \<le> j \<longrightarrow> j < length xs \<longrightarrow> \<not> P (xs ! j)" and "n \<le> length xs"
  shows "length (filter P xs) = n"
proof -
  have "filter P xs = filter P (take n xs) @ filter P (drop n xs)" by (simp flip: filter_append)
  moreover have "filter P (take n xs) = take n xs" using assms(1,3) by (auto simp: filter_id_conv in_set_conv_nth)
  moreover have "filter P (drop n xs) = []" using assms(2,3) by (auto simp: filter_empty_conv in_set_conv_nth)
  ultimately show ?thesis using assms(3) by simp
qed

lemma find_candidates:
  assumes wf: "mm_wf_at B s" and pos: "0 < lim64" and lim: "unat (lim64 :: u64) = alloc_limit max_addr"
    and B: "B \<le> alloc_limit max_addr"
  shows "if candidates s max_addr = 0 then find_highest_range_below s lim64 = Some (Inl Hlt)
    else find_highest_range_below s lim64 = Some (Inr (candidates s max_addr - 1)) \<and>
      candidates s max_addr \<le> unat (num_mem_ranges s) \<and>
      (\<forall>j<candidates s max_addr. rg_end (ranges s ! j) \<le> alloc_limit max_addr)"
proof -
  have B': "B \<le> unat lim64" using B lim by simp
  show ?thesis
  proof (cases "unat lim64 < rg_end (ranges s ! 0)")
    case True
    have "unat lim64 < rg_end (ranges s ! j)" if "j < length (ranges s)" for j
      using rg_end_mono [OF wf _ _ B', of 0 j] that length_ranges [OF wf] True by fastforce
    then have "candidates s max_addr = 0"
      unfolding candidates_def using True lim by (intro filter_prefix) (auto simp: not_le)
    then show ?thesis using find_highest_cases [OF wf pos B'] True by simp
  next
    case False
    then obtain i where i: "find_highest_range_below s lim64 = Some (Inr i)" "i < unat (num_mem_ranges s)"
      "rg_end (ranges s ! i) \<le> unat lim64" "all_above s lim64 (Suc i)"
      using find_highest_cases [OF wf pos B'] by auto
    have low: "\<forall>j<Suc i. rg_end (ranges s ! j) \<le> alloc_limit max_addr"
    proof (intro allI impI)
      fix j assume "j < Suc i"
      then show "rg_end (ranges s ! j) \<le> alloc_limit max_addr" using rg_end_mono [OF wf _ i(2) B', of j] i(3) lim by simp
    qed
    have "candidates s max_addr = Suc i"
      unfolding candidates_def using low i(2,4) lim length_ranges [OF wf]
      by (intro filter_prefix) (auto simp: all_above_def not_le)
    then show ?thesis using i(1,2) low by simp
  qed
qed

definition no_candidates :: "mem_map \<Rightarrow> u32 \<Rightarrow> u32 \<Rightarrow> bool" where
  "no_candidates s sz max_addr \<longleftrightarrow> alloc_limit max_addr < unat sz \<or> candidates s max_addr = 0"

lemma alloc_limit_le: "alloc_limit max_addr \<le> 2 ^ 32"
  using unat_lt [of max_addr] by (auto simp: alloc_limit_def)

lemma mem_alloc_eq:
  assumes wf: "mm_wf_at B s" and B: "B \<le> alloc_limit max_addr" and sz: "0 < sz"
  shows "no_candidates s sz max_addr \<Longrightarrow> mem_alloc s sz align max_addr = Some (Inl Hlt)"
    and "\<not> no_candidates s sz max_addr \<Longrightarrow> mem_alloc s sz align max_addr =
      Some (bindr (mem_alloc_from s sz align (candidates s max_addr)) (\<lambda>(mr, a).
            bindr (split_range s mr (ucast a) E820_RAM E820_RESERVED) (\<lambda>s'. Inr (a, s'))))"
    and "\<not> no_candidates s sz max_addr \<Longrightarrow> candidates s max_addr \<le> unat (num_mem_ranges s) \<and>
      (\<forall>j<candidates s max_addr. rg_end (ranges s ! j) \<le> alloc_limit max_addr)"
proof -
  let ?max = "if max_addr = 0 then XM32_MAX_ADDR else ucast max_addr"
  have lim: "unat ?max = alloc_limit max_addr" by (simp add: alloc_limit_def XM32_MAX_ADDR_def)
  have small: "?max < ucast sz \<longleftrightarrow> alloc_limit max_addr < unat sz"
    using lim by (simp only: word_less_nat_alt unat_ucast32)
  have pos: "0 < ?max" by (simp add: XM32_MAX_ADDR_def word_gt_0 unsigned_ucast_eq word_unat_eq_iff)
  have nz: "sz \<noteq> 0" using sz by simp
  note find = find_candidates [OF wf pos lim B]
  show "no_candidates s sz max_addr \<Longrightarrow> mem_alloc s sz align max_addr = Some (Inl Hlt)"
    using nz small find by (auto simp: mem_alloc_def Let_def no_candidates_def)
  assume "\<not> no_candidates s sz max_addr"
  then have c: "candidates s max_addr \<noteq> 0" "\<not> ?max < ucast sz" using small by (simp_all add: no_candidates_def)
  then have f: "find_highest_range_below s ?max = Some (Inr (candidates s max_addr - 1))" using find by simp
  have bo: "bindo (Some m) (\<lambda>x. Some (g x)) = Some (bindr m g)" for m :: "'x res" and g :: "'x \<Rightarrow> 'y res"
    by (cases m) simp_all
  have "mem_alloc s sz align max_addr = bindo (Some (mem_alloc_from s sz align (candidates s max_addr))) (\<lambda>(mr, a).
        bindo (Some (split_range s mr (ucast a) E820_RAM E820_RESERVED)) (\<lambda>s'. Some (Inr (a, s'))))"
    using nz c f by (simp add: mem_alloc_def Let_def del: mem_alloc_from.simps)
  also have "\<dots> = Some (bindr (mem_alloc_from s sz align (candidates s max_addr)) (\<lambda>(mr, a).
            bindr (split_range s mr (ucast a) E820_RAM E820_RESERVED) (\<lambda>s'. Inr (a, s'))))"
    by (simp only: bo split_def)
  finally show "mem_alloc s sz align max_addr = \<dots>" .
  show "candidates s max_addr \<le> unat (num_mem_ranges s) \<and>
      (\<forall>j<candidates s max_addr. rg_end (ranges s ! j) \<le> alloc_limit max_addr)"
    using find c(1) by simp
qed

lemma mem_alloc_serving:
  assumes wf: "mm_wf_at B s" and B: "B \<le> alloc_limit max_addr" and sz: "0 < sz" and al: "unat align = 2 ^ k" "k < 32" and some: "\<not> no_candidates s sz max_addr"
  shows "(\<exists>i a. highest_serving s (unat sz) (unat align) (candidates s max_addr) i \<and>
      unat a = top_start (ranges s ! i) (unat sz) (unat align) \<and>
      i < unat (num_mem_ranges s) \<and> rg_end (ranges s ! i) \<le> alloc_limit max_addr \<and>
      mem_alloc s sz align max_addr =
        Some (bindr (split_range s i (ucast a) E820_RAM E820_RESERVED) (\<lambda>s'. Inr (a, s')))) \<or>
    mem_alloc s sz align max_addr = Some (Inl Out_of_bounds) \<and>
      (\<forall>j<candidates s max_addr. \<not> serves (ranges s ! j) (unat sz) (unat align))"
    (is "?A \<or> ?B")
proof -
  note eq = mem_alloc_eq(2) [OF wf B sz some, of align] and c = mem_alloc_eq(3) [OF wf B sz some]
  have low: "\<forall>j<candidates s max_addr. rg_end (ranges s ! j) \<le> 2 ^ 32"
    using c alloc_limit_le by (meson order_trans)
  from mem_alloc_from_cases [OF wf sz al conjunct1 [OF c] low]
  show ?thesis
  proof (elim disjE exE conjE)
    fix i a
    assume r: "mem_alloc_from s sz align (candidates s max_addr) = Inr (i, a)"
      "highest_serving s (unat sz) (unat align) (candidates s max_addr) i"
      "unat a = top_start (ranges s ! i) (unat sz) (unat align)"
    then have "i < candidates s max_addr" by (simp add: highest_serving_def)
    then have "i < unat (num_mem_ranges s)" "rg_end (ranges s ! i) \<le> alloc_limit max_addr" using c by auto
    moreover have "mem_alloc s sz align max_addr =
        Some (bindr (split_range s i (ucast a) E820_RAM E820_RESERVED) (\<lambda>s'. Inr (a, s')))"
      using eq r(1) by simp
    ultimately have ?A using r(2,3) by blast
    then show ?thesis ..
  next
    assume "mem_alloc_from s sz align (candidates s max_addr) = Inl Out_of_bounds"
      "\<forall>j<candidates s max_addr. \<not> serves (ranges s ! j) (unat sz) (unat align)"
    then have ?B using eq by simp
    then show ?thesis ..
  qed
qed

text \<open>What a successful allocation of a non-empty block did.\<close>

text \<open>An allocation splits the highest range with room, at the block's start.\<close>

lemma mem_alloc_split:
  assumes wf: "mm_wf_at B s" and B: "B \<le> alloc_limit max_addr" and sz: "0 < sz" and al: "unat align = 2 ^ k" "k < 32"
    and eq: "mem_alloc s sz align max_addr = Some (Inr (a, s'))"
  shows "\<exists>i. i < unat (num_mem_ranges s) \<and> rg_e820_type (ranges s ! i) = E820_RAM \<and>
    rg_start (ranges s ! i) \<le> ucast a \<and> unat a + unat sz \<le> rg_end (ranges s ! i) \<and>
    rg_end (ranges s ! i) \<le> alloc_limit max_addr \<and> unat align dvd unat a \<and>
    split_range s i (ucast a) E820_RAM E820_RESERVED = Inr s'"
proof -
  have some: "\<not> no_candidates s sz max_addr" using mem_alloc_eq(1) [OF wf B sz] eq by auto
  obtain i b where hs: "highest_serving s (unat sz) (unat align) (candidates s max_addr) i"
    and b: "unat b = top_start (ranges s ! i) (unat sz) (unat align)"
    and i: "i < unat (num_mem_ranges s)" "rg_end (ranges s ! i) \<le> alloc_limit max_addr"
    and run: "mem_alloc s sz align max_addr =
      Some (bindr (split_range s i (ucast b) E820_RAM E820_RESERVED) (\<lambda>s'. Inr (b, s')))"
    using mem_alloc_serving [OF wf B sz al some] eq by (elim disjE exE conjE) simp_all
  from eq run have "bindr (split_range s i (ucast b) E820_RAM E820_RESERVED) (\<lambda>s'. Inr (b, s')) = Inr (a, s')"
    by simp
  then have a: "unat a = top_start (ranges s ! i) (unat sz) (unat align)"
    and split: "split_range s i (ucast a) E820_RAM E820_RESERVED = Inr s'" using b by (auto simp: res_simps)
  let ?r = "ranges s ! i"
  have pos: "0 < unat align" using al by simp
  have sv: "rg_e820_type ?r = E820_RAM" "unat sz \<le> unat (rg_len ?r)" "unat (rg_start ?r) \<le> unat a"
    using hs a unfolding highest_serving_def serves_iff [OF pos] by auto
  have "unat a \<le> rg_end ?r - unat sz" unfolding a top_start_def by (rule div_times_le)
  then have "unat a + unat sz \<le> rg_end ?r" using sv(2) by (simp add: rg_end_def)
  moreover have "unat align dvd unat a" unfolding a top_start_def by simp
  ultimately show ?thesis using i sv split by (auto simp: word_le_nat_alt)
qed

lemma mem_alloc_spec:
  assumes wf: "mm_wf_at B s" and B: "B \<le> alloc_limit max_addr" and sz: "0 < sz" and al: "unat align = 2 ^ k" "k < 32"
    and eq: "mem_alloc s sz align max_addr = Some (Inr (a, s'))"
  shows "mm_wf_at B s'" and "{unat a..<unat a + unat sz} \<subseteq> mm_free s"
    and "mm_free s' \<subseteq> mm_free s - {unat a..<unat a + unat sz}"
    and "unat align dvd unat a" and "unat a + unat sz \<le> alloc_limit max_addr"
proof -
  obtain i where i: "i < unat (num_mem_ranges s)" "rg_e820_type (ranges s ! i) = E820_RAM"
    and p: "rg_start (ranges s ! i) \<le> ucast a" and top: "unat a + unat sz \<le> rg_end (ranges s ! i)"
    and lim: "rg_end (ranges s ! i) \<le> alloc_limit max_addr" and al': "unat align dvd unat a"
    and split: "split_range s i (ucast a) E820_RAM E820_RESERVED = Inr s'"
    using mem_alloc_split [OF assms] by blast
  have p2: "unat (ucast a :: u64) < rg_end (ranges s ! i)" using top sz by (simp add: word_less_nat_alt)
  note res = split_reserve [OF wf i p p2 split, unfolded unat_ucast32]
  show "mm_wf_at B s'" by (rule res(1))
  show "{unat a..<unat a + unat sz} \<subseteq> mm_free s" "mm_free s' \<subseteq> mm_free s - {unat a..<unat a + unat sz}"
    using res(2,3) top by fastforce+
  show "unat align dvd unat a" by (rule al')
  show "unat a + unat sz \<le> alloc_limit max_addr" using top lim by simp
qed

text \<open>A request, with a run that does not return reported like a halt.\<close>

record mem_req =
  rq_size :: u32
  rq_align :: u32
  rq_max_addr :: u32

definition mem_request :: "mem_map \<Rightarrow> mem_req \<Rightarrow> (nat \<times> mem_map) res" where
  "mem_request s q =
     (case mem_alloc s (rq_size q) (rq_align q) (rq_max_addr q) of
        None \<Rightarrow> Inl Hlt
      | Some r \<Rightarrow> bindr r (\<lambda>(a, s'). Inr (unat a, s')))"

definition mem_req_ok :: "mem_req \<Rightarrow> bool" where
  "mem_req_ok q \<longleftrightarrow> (\<exists>k<32. unat (rq_align q) = 2 ^ k)"

lemma mem_request_spec:
  assumes wf: "mm_wf s" and ok: "mem_req_ok q" and eq: "mem_request s q = Inr (a, s')"
  shows "mm_wf s' \<and> {a..<a + unat (rq_size q)} \<subseteq> mm_free s \<and>
    mm_free s' \<subseteq> mm_free s - {a..<a + unat (rq_size q)}"
proof -
  obtain w where w: "mem_alloc s (rq_size q) (rq_align q) (rq_max_addr q) = Some (Inr (w, s'))" "a = unat w"
    using eq by (auto simp: mem_request_def res_simps split: option.splits)
  obtain k where k: "unat (rq_align q) = 2 ^ k" "k < 32" using ok by (auto simp: mem_req_ok_def)
  show ?thesis
  proof (cases "rq_size q = 0")
    case True
    then show ?thesis using wf w by (simp add: mem_alloc_def)
  next
    case False
    then have "0 < rq_size q" by (simp add: word_gt_0)
    from mem_alloc_spec(1-3) [OF wf [unfolded mm_wf_iff] le0 this k w(1)] show ?thesis by (simp add: w(2) mm_wf_iff)
  qed
qed

interpretation mm: block_allocator mem_request "\<lambda>q. unat (rq_size q)" mem_req_ok mm_free mm_wf
  by unfold_locales (use mem_request_spec in blast)+

lemma split_range_errors:
  assumes wf: "mm_wf_at B s" and i: "i < unat (num_mem_ranges s)"
    and p: "rg_start (ranges s ! i) \<le> p" "unat p < rg_end (ranges s ! i)"
  shows "split_range s i p tb ta = Inl Hlt \<or> (\<exists>s'. split_range s i p tb ta = Inr s')"
proof (cases "rg_start (ranges s ! i) = p")
  case True
  then show ?thesis using split_at_start [OF wf i True, of tb ta] by auto
next
  case False
  then have lt: "rg_start (ranges s ! i) < p" using p(1) by simp
  show ?thesis
  proof (cases "num_mem_ranges s < max_mem_ranges s")
    case True
    then show ?thesis using split_inside [OF wf i lt p(2) True, of tb ta] by auto
  next
    case full: False
    then show ?thesis using ranges_nth [OF wf i] by (auto simp: split_range_def not_less)
  qed
qed

lemma low_top_limit [simp]: "low_top \<le> alloc_limit 0"
  by (simp add: low_top_def alloc_limit_def)

lemma serving_start:
  assumes "rg_ok r" and "serves r (unat sz) (unat align)" and "0 < sz" and "0 < unat align"
    and a: "unat (a :: u32) = top_start r (unat sz) (unat align)"
  shows "rg_start r \<le> ucast a" and "unat (ucast a :: u64) < rg_end r"
proof -
  have sv: "unat sz \<le> unat (rg_len r)" "unat (rg_start r) \<le> unat a"
    using assms(2) a unfolding serves_iff [OF assms(4)] by auto
  have "unat a \<le> rg_end r - unat sz" unfolding a top_start_def by (rule div_times_le)
  then show "rg_start r \<le> ucast a" and "unat (ucast a :: u64) < rg_end r"
    using sv assms(3) by (auto simp: word_le_nat_alt word_less_nat_alt rg_end_def)
qed

lemma mem_alloc_errors:
  assumes wf: "mm_wf_at B s" "B \<le> alloc_limit max_addr" and sz: "0 < sz" and al: "unat align = 2 ^ k" "k < 32"
    and eq: "mem_alloc s sz align max_addr = Some (Inl e)"
  shows "e = Hlt \<or> e = Out_of_bounds"
proof (cases "no_candidates s sz max_addr")
  case True
  then show ?thesis using mem_alloc_eq(1) [OF wf sz] eq by simp
next
  case False
  have pos: "0 < unat align" using al by simp
  from mem_alloc_serving [OF wf sz al False]
  show ?thesis
  proof (elim disjE exE conjE)
    fix i b
    assume r: "highest_serving s (unat sz) (unat align) (candidates s max_addr) i"
      "unat b = top_start (ranges s ! i) (unat sz) (unat align)" "i < unat (num_mem_ranges s)"
      "mem_alloc s sz align max_addr =
        Some (bindr (split_range s i (ucast b) E820_RAM E820_RESERVED) (\<lambda>s'. Inr (b, s')))"
    have ok: "rg_ok (ranges s ! i)" using ranges_nth [OF wf(1) r(3)] by blast
    have "serves (ranges s ! i) (unat sz) (unat align)" using r(1) by (simp add: highest_serving_def)
    from split_range_errors [OF wf(1) r(3) serving_start [OF ok this sz pos r(2)], of E820_RAM E820_RESERVED]
    show ?thesis using r(4) eq by auto
  qed (use eq in simp)
qed

subsection \<open>Properties\<close>


text \<open>
  \<^verbatim>\<open>mem_alloc\<close> always returns or halts: for a non-empty request it either reports an error or
  yields a block that is aligned, ends at or below \<^verbatim>\<open>max_addr\<close> (4 GiB when that is 0), and sits at
  the top of the highest range of RAM that has room for it below that limit.
\<close>

lemma mem_alloc_result:
  assumes "mm_wf_at B s" and "B \<le> alloc_limit max_addr" and "0 < sz" and "unat align = 2 ^ k" and "k < 32"
  shows "\<exists>r. mem_alloc s sz align max_addr = Some r \<and>
    (\<forall>a s'. r = Inr (a, s') \<longrightarrow>
       unat align dvd unat a \<and> unat a + unat sz \<le> alloc_limit max_addr \<and>
       (\<exists>i. highest_serving s (unat sz) (unat align) (candidates s max_addr) i \<and>
          unat a = top_start (ranges s ! i) (unat sz) (unat align)))"
proof (cases "no_candidates s sz max_addr")
  case True
  then show ?thesis using mem_alloc_eq(1) [OF assms(1-3)] by simp
next
  case False
  from mem_alloc_serving [OF assms False]
  show ?thesis
  proof (elim disjE exE conjE)
    fix i b
    assume hs: "highest_serving s (unat sz) (unat align) (candidates s max_addr) i"
      "unat b = top_start (ranges s ! i) (unat sz) (unat align)"
      and eq: "mem_alloc s sz align max_addr =
        Some (bindr (split_range s i (ucast b) E820_RAM E820_RESERVED) (\<lambda>s'. Inr (b, s')))"
    have "unat align dvd unat a \<and> unat a + unat sz \<le> alloc_limit max_addr \<and> a = b"
      if "bindr (split_range s i (ucast b) E820_RAM E820_RESERVED) (\<lambda>s'. Inr (b, s')) = Inr (a, s')" for a s'
      using mem_alloc_spec(4,5) [OF assms, of a s'] that eq by (auto simp: res_simps)
    then show ?thesis using eq hs by blast
  qed simp
qed

text \<open>
  The search for a range has no lower end: when some range lies below the limit but none of
  those has room, \<^verbatim>\<open>mem_alloc\<close> walks in front of the array, and this is the only way it leaves
  the array. The test \<^verbatim>\<open>if (!mr->start) hlt()\<close> never helps, because a range that starts at 0 and
  is long enough is always accepted first.
\<close>

lemma mem_alloc_underrun_iff:
  assumes "mm_wf_at B s" and "B \<le> alloc_limit max_addr" and "0 < sz" and "unat align = 2 ^ k" and "k < 32"
  shows "mem_alloc s sz align max_addr = Some (Inl Out_of_bounds) \<longleftrightarrow>
    unat sz \<le> alloc_limit max_addr \<and> 0 < candidates s max_addr \<and>
    (\<forall>j<candidates s max_addr. \<not> serves (ranges s ! j) (unat sz) (unat align))"
proof (cases "no_candidates s sz max_addr")
  case True
  then show ?thesis using mem_alloc_eq(1) [OF assms(1-3)] by (auto simp: no_candidates_def)
next
  case False
  have pos: "0 < unat align" using assms(4) by simp
  have "mem_alloc s sz align max_addr \<noteq> Some (Inl Out_of_bounds)"
    if hs: "highest_serving s (unat sz) (unat align) (candidates s max_addr) i"
      and b: "unat b = top_start (ranges s ! i) (unat sz) (unat align)" "i < unat (num_mem_ranges s)"
      and eq: "mem_alloc s sz align max_addr =
        Some (bindr (split_range s i (ucast b) E820_RAM E820_RESERVED) (\<lambda>s'. Inr (b, s')))" for i b
  proof -
    have ok: "rg_ok (ranges s ! i)" using ranges_nth [OF assms(1) b(2)] by blast
    have "serves (ranges s ! i) (unat sz) (unat align)" using hs by (simp add: highest_serving_def)
    note st = serving_start [OF ok this assms(3) pos b(1)]
    show ?thesis
      using split_range_errors [OF assms(1) b(2) st, of E820_RAM E820_RESERVED] eq by auto
  qed
  note in_bounds = this
  from mem_alloc_serving [OF assms False]
  show ?thesis
  proof (elim disjE exE conjE)
    fix i b
    assume r: "highest_serving s (unat sz) (unat align) (candidates s max_addr) i"
      "unat b = top_start (ranges s ! i) (unat sz) (unat align)" "i < unat (num_mem_ranges s)"
      "mem_alloc s sz align max_addr =
        Some (bindr (split_range s i (ucast b) E820_RAM E820_RESERVED) (\<lambda>s'. Inr (b, s')))"
    then show ?thesis using in_bounds [OF r] by (auto simp: highest_serving_def)
  next
    assume "mem_alloc s sz align max_addr = Some (Inl Out_of_bounds)"
      "\<forall>j<candidates s max_addr. \<not> serves (ranges s ! j) (unat sz) (unat align)"
    then show ?thesis using False by (simp add: no_candidates_def not_less)
  qed
qed

text \<open>
  \<^verbatim>\<open>find_highest_range_below\<close> returns for every sorted map and a positive limit: it halts when
  the lowest range ends above the limit, and otherwise yields the index of the last range that
  ends at or below it.
\<close>

lemma find_highest_range_below_correct:
  assumes "mm_wf_at B s" and "0 < max_addr" and "B \<le> unat max_addr"
  shows "if unat max_addr < rg_end (ranges s ! 0) then find_highest_range_below s max_addr = Some (Inl Hlt)
    else (\<exists>i. find_highest_range_below s max_addr = Some (Inr i) \<and> i < unat (num_mem_ranges s) \<and>
       rg_end (ranges s ! i) \<le> unat max_addr \<and>
       (\<forall>j. i < j \<and> j < unat (num_mem_ranges s) \<longrightarrow> unat max_addr < rg_end (ranges s ! j)))"
  using find_highest_cases [OF assms] by (auto simp: all_above_def Suc_le_eq)

subsection \<open>Witnesses\<close>

definition ram_range :: "u64 \<Rightarrow> u64 \<Rightarrow> mem_range" where
  "ram_range a n = \<lparr> rg_start = a, rg_len = n, rg_e820_type = 1, rg_e820_ext_attr = 1, rg_uefi_attr = 15 \<rparr>"

definition mm_ex :: mem_map where
  "mm_ex = \<lparr> mem_ranges = [ram_range 0 0x9f000, ram_range 0x100000 0x8000, ram_range 0x200000 0x4000,
       ram_range 0 0, ram_range 0 0, ram_range 0 0], num_mem_ranges = 3, max_mem_ranges = 6 \<rparr>"

definition mm_ex_reqs :: "mem_req list" where
  "mm_ex_reqs = [\<lparr> rq_size = 0x3000, rq_align = 0x1000, rq_max_addr = 0 \<rparr>,
     \<lparr> rq_size = 0x2000, rq_align = 0x1000, rq_max_addr = 0x110000 \<rparr>]"

lemma mm_ex_ranges: "ranges mm_ex = [ram_range 0 0x9f000, ram_range 0x100000 0x8000, ram_range 0x200000 0x4000]"
  by (simp add: ranges_def mm_ex_def)

lemma mm_ex_wf: "mm_wf mm_ex"
  unfolding mm_wf_def mm_ex_ranges
  by (simp add: mm_ex_def ranges_wf_def ram_range_def rg_ok_def rg_before_def rg_end_def)

lemma mm_ex_reqs_ok: "list_all mem_req_ok mm_ex_reqs"
proof -
  have "\<exists>k<32. unat (0x1000 :: u32) = 2 ^ k" by (rule exI [of _ 12]) simp
  then show ?thesis by (simp add: mm_ex_reqs_def mem_req_ok_def)
qed

text \<open>Evaluation at numerals.\<close>

lemma eval_numerals:
  "step_down s lim (numeral v) = bindr (arr_get (mem_ranges s) (numeral v)) (\<lambda>mr.
     if ends_above mr lim then step_down s lim (pred_numeral v) else Inr (numeral v))"
  "mem_alloc_from s sz align (numeral v) =
     bindr (arr_get (mem_ranges s) (pred_numeral v)) (\<lambda>r.
       if rg_e820_type r \<noteq> E820_RAM \<or> rg_len r < ucast sz then mem_alloc_from s sz align (pred_numeral v)
       else
         let aend = ucast (rg_start r + rg_len r) :: u32;
             astart = (aend - sz) AND - align
         in if ucast astart \<ge> rg_start r then Inr (pred_numeral v, astart)
            else if rg_start r = 0 then Inl Hlt
            else mem_alloc_from s sz align (pred_numeral v))"
  "shift_up mrs (numeral v) mr =
     (if numeral v = mr then Inr mrs
      else bindr (arr_get mrs (pred_numeral v)) (\<lambda>x.
        bindr (arr_set mrs (numeral v) x) (\<lambda>mrs'. shift_up mrs' (pred_numeral v) mr)))"
  by (simp_all only: numeral_eq_Suc step_down.simps mem_alloc_from.simps shift_up.simps)

definition mm_ex1 :: mem_map where
  "mm_ex1 = \<lparr> mem_ranges = [ram_range 0 0x9f000, ram_range 0x100000 0x8000, ram_range 0x200000 0x1000,
       (ram_range 0x201000 0x3000)\<lparr> rg_e820_type := 2 \<rparr>, ram_range 0 0, ram_range 0 0],
     num_mem_ranges = 4, max_mem_ranges = 6 \<rparr>"

lemma mm_ex_run1: "mem_request mm_ex \<lparr> rq_size = 0x3000, rq_align = 0x1000, rq_max_addr = 0 \<rparr> = Inr (0x201000, mm_ex1)"
  by (simp add: mm_ex_def mm_ex1_def mem_request_def mem_alloc_def find_highest_range_below_def bisect.simps
      ends_above_def ram_range_def XM32_MAX_ADDR_def split_range_def E820_RAM_def E820_RESERVED_def Let_def
      eval_numerals)

lemma mm_ex_run2: "\<exists>s'. mem_request mm_ex1 \<lparr> rq_size = 0x2000, rq_align = 0x1000, rq_max_addr = 0x110000 \<rparr> = Inr (0x106000, s')"
  by (simp add: mm_ex1_def mem_request_def mem_alloc_def find_highest_range_below_def bisect.simps
      ends_above_def ram_range_def XM32_MAX_ADDR_def split_range_def E820_RAM_def E820_RESERVED_def Let_def
      eval_numerals)

lemma mm_ex_run: "\<exists>s'. alloc_run mem_request mm_ex mm_ex_reqs = Inr ([0x201000, 0x106000], s')"
  using mm_ex_run1 mm_ex_run2 by (auto simp: mm_ex_reqs_def)


lemma mm_ex_none: "\<not> serves r 0x800000 0x1000" if "r \<in> set (ranges mm_ex)"
  using that by (auto simp: mm_ex_ranges serves_def ram_range_def rg_end_def)

end
