(* ===== verification/Paging.thy ===== *)
theory Paging
  imports Mem_Map
begin

text \<open>
  Virtual memory of stage 2, the second half of \<^verbatim>\<open>stage2/mem.c\<close>: the PAE page tables in
  physical memory, mapping and unmapping of pages, and the bookkeeping of unused virtual
  address ranges. The tables lie in the byte memory and are found from it, as the processor
  does. Theory \<open>Paging_Correct\<close> has the proofs.
\<close>

unbundle bit_operations_syntax

subsection \<open>Constants\<close>

definition PAGE_SIZE :: u32 where "PAGE_SIZE = 0x1000"
definition LARGE_PAGE_SIZE :: u32 where "LARGE_PAGE_SIZE = 0x200000"
definition PDPT_ALIGN :: u32 where "PDPT_ALIGN = 0x20"
definition PTE_P :: u32 where "PTE_P = 0x01"
definition PTE_RW :: u32 where "PTE_RW = 0x02"
definition PTE_US :: u32 where "PTE_US = 0x04"
definition PTE_WT :: u32 where "PTE_WT = 0x08"
definition PTE_CD :: u32 where "PTE_CD = 0x10"
definition PDE_PS :: u32 where "PDE_PS = 0x80"
definition CR0_PG :: u32 where "CR0_PG = 0x80000000"
definition CR4_PAE :: u32 where "CR4_PAE = 0x20"
definition EFI_MEMORY_WT :: u64 where "EFI_MEMORY_WT = 0x4"
definition EFI_MEMORY_WB :: u64 where "EFI_MEMORY_WB = 0x8"

lemmas pg_consts = PAGE_SIZE_def LARGE_PAGE_SIZE_def PDPT_ALIGN_def PTE_P_def PTE_RW_def PTE_US_def
  PTE_WT_def PTE_CD_def PDE_PS_def

subsection \<open>The state\<close>

text \<open>A range of unused virtual addresses.\<close>

record va_range =
  vr_start :: u32
  vr_len :: u32

text \<open>
  The physical memory map, the bytes of physical memory, the address of the
  page-directory-pointer table, the array of unused ranges (as long as its maximum) with the
  length of its live prefix, and the control registers.
\<close>

record vm =
  vm_map :: mem_map
  vm_mem :: mem
  pdpt :: u32
  unused_va_ranges :: "va_range list"
  num_unused_va_ranges :: u32
  max_unused_va_ranges :: u32
  cr0 :: u32
  cr3 :: u32
  cr4 :: u32

subsection \<open>Page tables\<close>

text \<open>The loop that fills a new table from a large page: \<open>n\<close> entries from address \<open>a\<close> on.\<close>

fun fill_pt :: "mem \<Rightarrow> nat \<Rightarrow> u64 \<Rightarrow> nat \<Rightarrow> mem" where
  "fill_pt m a pte 0 = m"
| "fill_pt m a pte (Suc n) = fill_pt (wr64 m a pte) (a + 8) (pte + ucast PAGE_SIZE) n"

definition ensure_pt :: "vm \<Rightarrow> nat \<Rightarrow> (u32 \<times> vm) res option" where
  "ensure_pt s p_pde =
     (let pde = rd64 (vm_mem s) p_pde in
      if pde \<noteq> 0 \<and> pde AND ucast PDE_PS = 0 then Some (Inr (ucast pde AND - PAGE_SIZE, s))
      else
        bindo (mem_alloc (vm_map s) PAGE_SIZE PAGE_SIZE 0) (\<lambda>(pt, map').
          let m1 = (if pde \<noteq> 0
                    then fill_pt (vm_mem s) (unat pt) (pde AND NOT (ucast PDE_PS)) 512
                    else put_bytes (vm_mem s) (unat pt) (replicate (unat PAGE_SIZE) 0));
              pde' = pt OR PTE_P OR PTE_RW OR PTE_US
          in Some (Inr (pt, s\<lparr> vm_map := map', vm_mem := wr64 m1 p_pde (ucast pde') \<rparr>))))"

text \<open>The address of the page directory's entry for a virtual address.\<close>

definition p_pde_of :: "vm \<Rightarrow> u32 \<Rightarrow> nat" where
  "p_pde_of s vstart =
     (let pdpti = drop_bit 30 vstart;
          pdi = drop_bit 21 vstart AND 0x1ff;
          pdpte = ucast (rd64 (vm_mem s) (unat (pdpt s) + 8 * unat pdpti)) :: u32
      in unat (pdpte AND - PDPT_ALIGN) + 8 * unat pdi)"

partial_function (option) do_va_map :: "vm \<Rightarrow> u32 \<Rightarrow> u64 \<Rightarrow> u32 \<Rightarrow> u32 \<Rightarrow> vm res option" where
  "do_va_map s vstart pstart len pte_flags =
     (if len = 0 then Some (Inr s)
      else
        let p_pde = p_pde_of s vstart; pde = rd64 (vm_mem s) p_pde in
        if vstart mod LARGE_PAGE_SIZE = 0 \<and> pstart mod ucast LARGE_PAGE_SIZE = 0 \<and>
           len \<ge> LARGE_PAGE_SIZE \<and> (pde = 0 \<or> pde AND ucast PDE_PS \<noteq> 0)
        then
          do_va_map
            (s\<lparr> vm_mem := wr64 (vm_mem s) p_pde
                 (pstart OR ucast PTE_P OR ucast PTE_RW OR ucast PTE_US OR ucast PDE_PS OR ucast pte_flags) \<rparr>)
            (vstart + LARGE_PAGE_SIZE) (pstart + ucast LARGE_PAGE_SIZE) (len - LARGE_PAGE_SIZE) pte_flags
        else
          let pti = drop_bit 12 vstart AND 0x1ff in
          bindo (ensure_pt s p_pde) (\<lambda>(pt, s').
            do_va_map
              (s'\<lparr> vm_mem := wr64 (vm_mem s') (unat pt + 8 * unat pti)
                   (pstart OR ucast PTE_P OR ucast PTE_RW OR ucast PTE_US OR ucast pte_flags) \<rparr>)
              (vstart + PAGE_SIZE) (pstart + ucast PAGE_SIZE) (len - PAGE_SIZE) pte_flags))"

definition do_va_id_map :: "vm \<Rightarrow> u32 \<Rightarrow> u32 \<Rightarrow> u32 \<Rightarrow> vm res option" where
  "do_va_id_map s start len pte_flags = do_va_map s start (ucast start) len pte_flags"

partial_function (option) do_va_unmap :: "vm \<Rightarrow> u32 \<Rightarrow> u32 \<Rightarrow> vm option" where
  "do_va_unmap s vstart len =
     (if len = 0 then Some s
      else
        let p_pde = p_pde_of s vstart; pde = rd64 (vm_mem s) p_pde in
        if pde AND ucast PDE_PS \<noteq> 0 then
          if vstart mod LARGE_PAGE_SIZE = 0 \<and> len \<ge> LARGE_PAGE_SIZE
          then do_va_unmap (s\<lparr> vm_mem := wr64 (vm_mem s) p_pde 0 \<rparr>)
                 (vstart + LARGE_PAGE_SIZE) (len - LARGE_PAGE_SIZE)
          else do_va_unmap s (vstart + PAGE_SIZE) (len - PAGE_SIZE)
        else
          let pti = drop_bit 12 vstart AND 0x1ff;
              pt = ucast pde AND - PAGE_SIZE;
              s' = (if pde \<noteq> 0 then s\<lparr> vm_mem := wr64 (vm_mem s) (unat pt + 8 * unat pti) 0 \<rparr> else s)
          in do_va_unmap s' (vstart + PAGE_SIZE) (len - PAGE_SIZE))"

definition uefi_attr_to_pte_flags :: "u64 \<Rightarrow> u32" where
  "uefi_attr_to_pte_flags uefi_attr =
     (if uefi_attr AND EFI_MEMORY_WB \<noteq> 0 then 0
      else if uefi_attr AND EFI_MEMORY_WT \<noteq> 0 then PTE_WT
      else PTE_CD)"

subsection \<open>Mapping and unmapping blocks\<close>

text \<open>Rewriting \<^verbatim>\<open>cr3\<close> flushes the translation caches, which are not modelled.\<close>

definition flush_cr3 :: "vm \<Rightarrow> vm" where
  "flush_cr3 s = s\<lparr> cr3 := cr3 s \<rparr>"

text \<open>The search in \<^verbatim>\<open>mem_va_map\<close>; the argument is one more than the index.\<close>

fun va_map_from :: "vm \<Rightarrow> u64 \<Rightarrow> u64 \<Rightarrow> u32 \<Rightarrow> nat \<Rightarrow> (u32 \<times> vm) res option" where
  "va_map_from s pstart sz_to_map pte_flags 0 = Some (Inl Hlt)"
| "va_map_from s pstart sz_to_map pte_flags (Suc i) =
     bindo (Some (arr_get (unused_va_ranges s) i)) (\<lambda>vr.
       if ucast (vr_len vr) \<ge> sz_to_map then
         let vrsz = vr_len vr - ucast sz_to_map;
             vstart = vr_start vr + vrsz
         in bindo (do_va_map (s\<lparr> unused_va_ranges := (unused_va_ranges s)[i := vr\<lparr> vr_len := vrsz \<rparr>] \<rparr>)
                     vstart pstart (ucast sz_to_map) pte_flags) (\<lambda>s'.
              Some (Inr (vstart, flush_cr3 s')))
       else va_map_from s pstart sz_to_map pte_flags i)"

definition mem_va_map :: "vm \<Rightarrow> u64 \<Rightarrow> u32 \<Rightarrow> u32 \<Rightarrow> (u32 \<times> vm) res option" where
  "mem_va_map s pa sz pte_flags =
     (if sz = 0 then Some (Inr (0, s))
      else
        let pstart = pa AND - (ucast PAGE_SIZE);
            pend = (pa + ucast sz + ucast PAGE_SIZE - 1) AND - (ucast PAGE_SIZE);
            sz_to_map = pend - pstart in
        if sz_to_map \<ge> XM32_MAX_ADDR then Some (Inl Hlt)
        else bindo (va_map_from s pstart sz_to_map pte_flags (unat (num_unused_va_ranges s))) (\<lambda>(vstart, s').
               Some (Inr (vstart + ucast (pa mod ucast PAGE_SIZE), s'))))"

text \<open>The loop that opens a gap: entries \<open>i + 1\<close> to \<open>j\<close> move up by one.\<close>

fun shift_va :: "va_range list \<Rightarrow> nat \<Rightarrow> nat \<Rightarrow> va_range list res" where
  "shift_va vrs 0 i = Inl Out_of_bounds"
| "shift_va vrs (Suc j) i =
     (if Suc j = i + 1 then Inr vrs
      else bindr (arr_get vrs (j - 1)) (\<lambda>x. bindr (arr_set vrs j x) (\<lambda>vrs'. shift_va vrs' j i)))"

fun va_release :: "vm \<Rightarrow> u32 \<Rightarrow> u32 \<Rightarrow> u32 \<Rightarrow> nat \<Rightarrow> vm res" where
  "va_release s vstart vend sz 0 = Inl Hlt"
| "va_release s vstart vend sz (Suc i) =
     bindr (arr_get (unused_va_ranges s) i) (\<lambda>vr.
       if vr_start vr = vend then
         Inr (s\<lparr> unused_va_ranges := (unused_va_ranges s)[i := vr\<lparr> vr_start := vstart, vr_len := vr_len vr + sz \<rparr>] \<rparr>)
       else if vr_start vr + vr_len vr = vstart then
         Inr (s\<lparr> unused_va_ranges := (unused_va_ranges s)[i := vr\<lparr> vr_len := vr_len vr + sz \<rparr>] \<rparr>)
       else if vr_start vr < vstart then
         if num_unused_va_ranges s = max_unused_va_ranges s then Inl Hlt
         else
           let num = num_unused_va_ranges s + 1 in
           bindr (shift_va (unused_va_ranges s) (unat num) i) (\<lambda>vrs.
           bindr (arr_set vrs (i + 1) \<lparr> vr_start = vstart, vr_len = sz \<rparr>) (\<lambda>vrs'.
             Inr (s\<lparr> unused_va_ranges := vrs', num_unused_va_ranges := num \<rparr>)))
       else va_release s vstart vend sz i)"

definition mem_va_unmap :: "vm \<Rightarrow> u32 \<Rightarrow> u32 \<Rightarrow> vm res option" where
  "mem_va_unmap s va sz =
     (if sz = 0 then Some (Inr s)
      else
        let vstart = va AND - PAGE_SIZE;
            vend = (va + sz + PAGE_SIZE - 1) AND - PAGE_SIZE;
            sz_to_unmap = vend - vstart in
        case do_va_unmap s vstart sz_to_unmap of
          None \<Rightarrow> None
        | Some s' \<Rightarrow>
            Some (va_release (flush_cr3 s') vstart vend sz_to_unmap (unat (num_unused_va_ranges s'))))"

end
