(* ===== verification/Mem_Shape.thy ===== *)
theory Mem_Shape
  imports Mem_Map
begin

text \<open>
  What allocation leaves alone in the physical memory map of \<^verbatim>\<open>stage2/mem.c\<close>: which bytes the
  map covers, and with which memory attributes. The page tables are set up from this, while
  the map is used to allocate them.
\<close>

definition shape :: "mem_map \<Rightarrow> (nat \<times> u64) set" where
  "shape s = (\<Union>r\<in>set (ranges s). rg_bytes r \<times> {rg_uefi_attr r})"

definition covered :: "mem_map \<Rightarrow> nat set" where
  "covered s = (\<Union>r\<in>set (ranges s). rg_bytes r)"

lemma covered_shape: "covered s = fst ` shape s"
  by (force simp: covered_def shape_def)

lemma shape_replace:
  assumes "ranges s' = take i (ranges s) @ new @ drop (Suc i) (ranges s)" and "i < length (ranges s)"
    and "(\<Union>r\<in>set new. rg_bytes r \<times> {rg_uefi_attr r}) = rg_bytes (ranges s ! i) \<times> {rg_uefi_attr (ranges s ! i)}"
  shows "shape s' = shape s"
proof -
  have "set (ranges s) = set (take i (ranges s) @ ranges s ! i # drop (Suc i) (ranges s))"
    using assms(2) by (metis id_take_nth_drop)
  then show ?thesis unfolding shape_def assms(1) using assms(3) by auto
qed

text \<open>
  A range that is split does not move down, and the lower part starts where it did. When none is
  added, all ranges start where they did.
\<close>

definition moved_up :: "mem_range list \<Rightarrow> mem_range list \<Rightarrow> bool" where
  "moved_up rs rs' \<longleftrightarrow> (\<forall>k<length rs. \<exists>k'<length rs'. k \<le> k' \<and> rg_start (rs' ! k') = rg_start (rs ! k))"

definition grown :: "mem_map \<Rightarrow> mem_map \<Rightarrow> bool" where
  "grown s s' \<longleftrightarrow> shape s' = shape s \<and> max_mem_ranges s' = max_mem_ranges s \<and>
     num_mem_ranges s \<le> num_mem_ranges s' \<and>
     (num_mem_ranges s' = num_mem_ranges s \<longrightarrow> map rg_start (ranges s') = map rg_start (ranges s)) \<and>
     moved_up (ranges s) (ranges s') \<and> rg_uefi_attr (ranges s' ! 0) = rg_uefi_attr (ranges s ! 0) \<and>
     (\<forall>B\<le>low_top. mm_wf_at B s \<longrightarrow> mm_wf_at B s')"

lemma grown_refl: "grown s s"
  by (auto simp: grown_def moved_up_def)

lemma moved_up_trans: "moved_up rs rs' \<Longrightarrow> moved_up rs' rs'' \<Longrightarrow> moved_up rs rs''"
  unfolding moved_up_def by (metis order_trans)

lemma grownD:
  assumes "grown s s'"
  shows "shape s' = shape s" and "max_mem_ranges s' = max_mem_ranges s" and "num_mem_ranges s \<le> num_mem_ranges s'"
    and "num_mem_ranges s' = num_mem_ranges s \<Longrightarrow> map rg_start (ranges s') = map rg_start (ranges s)"
    and "i < length (ranges s) \<Longrightarrow> \<exists>k<length (ranges s'). i \<le> k \<and> rg_start (ranges s' ! k) = rg_start (ranges s ! i)"
    and "rg_uefi_attr (ranges s' ! 0) = rg_uefi_attr (ranges s ! 0)" and "B \<le> low_top \<Longrightarrow> mm_wf_at B s \<Longrightarrow> mm_wf_at B s'"
proof -
  note g = assms [unfolded grown_def moved_up_def]
  show "shape s' = shape s" "max_mem_ranges s' = max_mem_ranges s" "num_mem_ranges s \<le> num_mem_ranges s'"
    "rg_uefi_attr (ranges s' ! 0) = rg_uefi_attr (ranges s ! 0)" using g by blast+
  show "map rg_start (ranges s') = map rg_start (ranges s)" if "num_mem_ranges s' = num_mem_ranges s" using g that by blast
  show "\<exists>k<length (ranges s'). i \<le> k \<and> rg_start (ranges s' ! k) = rg_start (ranges s ! i)"
    if "i < length (ranges s)" using g that by blast
  show "mm_wf_at B s'" if "B \<le> low_top" "mm_wf_at B s" using g that by blast
qed

lemma grown_trans:
  assumes g: "grown s s'" and g': "grown s' s''"
  shows "grown s s''"
proof -
  have "map rg_start (ranges s'') = map rg_start (ranges s)" if n: "num_mem_ranges s'' = num_mem_ranges s"
  proof -
    have "num_mem_ranges s' = num_mem_ranges s" using grownD(3) [OF g] grownD(3) [OF g'] n by simp
    then show ?thesis using grownD(4) [OF g] grownD(4) [OF g'] n by simp
  qed
  moreover have "moved_up (ranges s) (ranges s'')"
    using g g' moved_up_trans unfolding grown_def by blast
  moreover have "\<forall>B\<le>low_top. mm_wf_at B s \<longrightarrow> mm_wf_at B s''" using grownD(7) [OF g] grownD(7) [OF g'] by blast
  moreover have "num_mem_ranges s \<le> num_mem_ranges s''" using grownD(3) [OF g] grownD(3) [OF g'] by (rule order_trans)
  ultimately show ?thesis
    using grownD(1,2,6) [OF g] grownD(1,2,6) [OF g'] by (auto simp: grown_def)
qed

lemma replace_moves:
  assumes rs': "rs' = take i rs @ (r # new) @ drop (Suc i) rs" and i: "i < length rs"
    and r: "rg_start r = rg_start (rs ! i)" "rg_uefi_attr r = rg_uefi_attr (rs ! i)"
  shows "moved_up rs rs'" and "rg_uefi_attr (rs' ! 0) = rg_uefi_attr (rs ! 0)"
proof -
  show "moved_up rs rs'"
    unfolding moved_up_def
  proof (intro allI impI)
    fix k assume k: "k < length rs"
    have "\<exists>k'<length rs'. k \<le> k' \<and> rg_start (rs' ! k') = rg_start (rs ! k)" if "k \<le> i"
      using that k i r(1) by (intro exI [of _ k]) (auto simp: rs' nth_append)
    moreover have "\<exists>k'<length rs'. k \<le> k' \<and> rg_start (rs' ! k') = rg_start (rs ! k)" if "i < k"
    proof -
      have "k + length new - i - Suc (length new) = k - Suc i" using that by simp
      then have "rs' ! (k + length new) = rs ! k"
        using that k i by (simp add: rs' nth_append nth_Cons' add.commute)
      then show ?thesis using k i by (intro exI [of _ "k + length new"]) (simp add: rs')
    qed
    ultimately show "\<exists>k'<length rs'. k \<le> k' \<and> rg_start (rs' ! k') = rg_start (rs ! k)"
      by (cases "k \<le> i") (simp_all only: not_le)
  qed
  show "rg_uefi_attr (rs' ! 0) = rg_uefi_attr (rs ! 0)"
    using i r(2) by (cases i) (auto simp: rs' nth_append)
qed

lemma split_range_grown:
  assumes wf: "mm_wf_at low_top s" and i: "i < unat (num_mem_ranges s)" and ram: "rg_e820_type (ranges s ! i) = E820_RAM"
    and p: "rg_start (ranges s ! i) \<le> p" "unat p < rg_end (ranges s ! i)"
    and eq: "split_range s i p E820_RAM E820_RESERVED = Inr s'"
  shows "grown s s'"
proof -
  let ?r = "ranges s ! i"
  have ok: "rg_ok ?r" using ranges_nth [OF wf i] by blast
  have len: "i < length (ranges s)" using length_ranges [OF wf] i by simp
  have keep: "\<forall>B\<le>low_top. mm_wf_at B s \<longrightarrow> mm_wf_at B s'" using split_reserve(1) [OF _ i ram p eq] by blast
  show ?thesis
  proof (cases "rg_start ?r = p")
    case True
    have s': "max_mem_ranges s' = max_mem_ranges s" "num_mem_ranges s' = num_mem_ranges s"
      "ranges s' = take i (ranges s) @ [?r\<lparr> rg_e820_type := E820_RESERVED \<rparr>] @ drop (Suc i) (ranges s)"
      using split_at_start [OF wf i True, of E820_RAM E820_RESERVED] eq by auto
    have "map rg_start (ranges s) = map rg_start (take i (ranges s) @ ?r # drop (Suc i) (ranges s))"
      using len by (simp add: id_take_nth_drop [symmetric])
    then have "map rg_start (ranges s') = map rg_start (ranges s)" unfolding s'(3) by simp
    moreover have "shape s' = shape s" using shape_replace [OF s'(3) len] by (simp add: rg_bytes_def rg_end_def)
    ultimately show ?thesis
      unfolding grown_def using s'(1,2) replace_moves [OF s'(3) len] keep by simp
  next
    case False
    then have lt: "rg_start ?r < p" using p(1) by simp
    have "rg_start ?r + rg_len ?r \<noteq> p"
      using ok p(2) lt by (auto simp: rg_ok_def rg_end_def unat_word_ariths le_less word_less_nat_alt)
    then have room: "num_mem_ranges s < max_mem_ranges s"
      using eq False ranges_nth [OF wf i] by (auto simp: split_range_def not_less split: if_splits)
    let ?lo = "lower_part ?r p E820_RAM" and ?up = "upper_part ?r p E820_RESERVED"
    have s': "max_mem_ranges s' = max_mem_ranges s" "num_mem_ranges s' = num_mem_ranges s + 1"
      "ranges s' = take i (ranges s) @ [?lo, ?up] @ drop (Suc i) (ranges s)"
      using split_inside [OF wf i lt p(2) room, of E820_RAM E820_RESERVED] eq by auto
    have "unat (p - rg_start ?r) = unat p - unat (rg_start ?r)" using lt by (simp add: unat_sub)
    moreover from this have "unat (rg_len ?r - (p - rg_start ?r)) = rg_end ?r - unat p"
      using lt p(2) by (subst unat_sub) (simp_all add: word_le_nat_alt word_less_nat_alt rg_end_def)
    ultimately have "rg_bytes ?lo = {unat (rg_start ?r)..<unat p}" "rg_bytes ?up = {unat p..<rg_end ?r}"
      using lt p(2) by (simp_all add: rg_bytes_def rg_end_def lower_part_def upper_part_def word_less_nat_alt)
    moreover have part: "rg_uefi_attr ?lo = rg_uefi_attr ?r" "rg_uefi_attr ?up = rg_uefi_attr ?r" "rg_start ?lo = rg_start ?r"
      by (simp_all add: lower_part_def upper_part_def)
    moreover have "{unat (rg_start ?r)..<unat p} \<union> {unat p..<rg_end ?r} = rg_bytes ?r"
      using lt p(2) by (auto simp: rg_bytes_def word_less_nat_alt)
    ultimately have "shape s' = shape s"
      using shape_replace [OF s'(3) len] by (simp add: Sigma_Un_distrib1 [symmetric])
    moreover have "unat (num_mem_ranges s + 1) = unat (num_mem_ranges s) + 1"
      using unat_add_nowrap [of "num_mem_ranges s" 1] room unat_lt [of "max_mem_ranges s"]
      by (simp add: word_less_nat_alt)
    ultimately show ?thesis
      unfolding grown_def using s'(1,2) replace_moves [of "ranges s'" i "ranges s" ?lo "[?up]"] s'(3) len part keep
      by (auto simp: word_le_nat_alt)
  qed
qed

lemma mem_alloc_grown:
  assumes wf: "mm_wf_at B s" "B \<le> low_top" and sz: "0 < sz" and al: "unat align = 2 ^ k" "k < 32"
    and eq: "mem_alloc s sz align 0 = Some (Inr (a, s'))"
  shows "grown s s'"
proof -
  have low: "mm_wf_at low_top s" using mm_wf_at_mono [OF wf] .
  obtain i where i: "i < unat (num_mem_ranges s)" "rg_e820_type (ranges s ! i) = E820_RAM" "rg_start (ranges s ! i) \<le> ucast a"
    "unat (ucast a :: u64) < rg_end (ranges s ! i)" "split_range s i (ucast a) E820_RAM E820_RESERVED = Inr s'"
    using mem_alloc_split [OF low low_top_limit sz al eq] sz by (auto simp: word_less_nat_alt)
  then show ?thesis by (intro split_range_grown [OF low])
qed

subsection \<open>Requests in sequence\<close>

text \<open>
  A sequence of requests that succeeds, with the map it leaves, and one that runs out of RAM: all of
  it up to some request is served, and that request walks in front of the array. \<open>page_req\<close> is
  the request of \<^verbatim>\<open>ensure_pt\<close> and \<^verbatim>\<open>alloc_init_pd\<close>.
\<close>

definition page_req :: mem_req where
  "page_req = \<lparr> rq_size = 0x1000, rq_align = 0x1000, rq_max_addr = 0 \<rparr>"

definition served_all :: "mem_map \<Rightarrow> mem_req list \<Rightarrow> mem_map \<Rightarrow> bool" where
  "served_all mp qs mp' \<longleftrightarrow> (\<exists>as. alloc_run mem_request mp qs = Inr (as, mp'))"

definition out_of_ram :: "mem_map \<Rightarrow> mem_req list \<Rightarrow> bool" where
  "out_of_ram mp qs \<longleftrightarrow> alloc_run mem_request mp qs = Inl Out_of_bounds"

lemma served_all_nil: "served_all mp [] mp"
  by (simp add: served_all_def)

lemma served_all_append: "served_all mp qs mp1 \<Longrightarrow> served_all mp1 qs' mp2 \<Longrightarrow> served_all mp (qs @ qs') mp2"
  by (auto simp: served_all_def alloc_run_append)

lemma out_of_ram_later: "served_all mp qs mp1 \<Longrightarrow> out_of_ram mp1 qs' \<Longrightarrow> out_of_ram mp (qs @ qs')"
  by (auto simp: served_all_def out_of_ram_def alloc_run_append)

lemma out_of_ram_more: "out_of_ram mp qs \<Longrightarrow> out_of_ram mp (qs @ qs')"
  by (simp add: out_of_ram_def alloc_run_fails)

lemma out_of_ram_pages: "out_of_ram mp (qs @ replicate n page_req) \<Longrightarrow> n \<le> m \<Longrightarrow> out_of_ram mp (qs @ replicate m page_req)"
  using out_of_ram_more [of mp "qs @ replicate n page_req" "replicate (m - n) page_req"] by (simp flip: replicate_add)

lemma mem_alloc_served:
  "mem_alloc s (rq_size q) (rq_align q) (rq_max_addr q) = Some (Inr (a, s')) \<Longrightarrow> served_all s [q] s'"
  "mem_alloc s (rq_size q) (rq_align q) (rq_max_addr q) = Some (Inl Out_of_bounds) \<Longrightarrow> out_of_ram s [q]"
  by (simp_all add: served_all_def out_of_ram_def mem_request_def)

text \<open>Requests below 4 GiB, of some size.\<close>

definition plain_req :: "mem_req \<Rightarrow> bool" where
  "plain_req q \<longleftrightarrow> mem_req_ok q \<and> 0 < rq_size q \<and> rq_max_addr q = 0"

lemma plain_page_req: "plain_req page_req"
  unfolding plain_req_def mem_req_ok_def page_req_def
  by (auto simp: word_less_nat_alt intro!: exI [of _ "12 :: nat"])

lemma served_all_grown:
  assumes "map_ok s" and "list_all plain_req qs" and "served_all s qs s'"
  shows "grown s s'"
  using assms
proof (induction qs arbitrary: s)
  case Nil
  then show ?case by (simp add: served_all_def grown_refl)
next
  case (Cons q qs)
  obtain a t where m: "mem_request s q = Inr (a, t)" and rest: "served_all t qs s'"
    using Cons.prems(3) by (auto simp: served_all_def res_simps)
  have q: "mem_req_ok q" "0 < rq_size q" "rq_max_addr q = 0" using Cons.prems(2) by (simp_all add: plain_req_def)
  obtain w where w: "mem_alloc s (rq_size q) (rq_align q) 0 = Some (Inr (w, t))"
    using m q(3) by (auto simp: mem_request_def res_simps split: option.splits)
  obtain k where k: "unat (rq_align q) = 2 ^ k" "k < 32" using q(1) by (auto simp: mem_req_ok_def)
  have g: "grown s t" by (rule mem_alloc_grown [OF Cons.prems(1) order_refl q(2) k w])
  then have "map_ok t" using grownD(7) [OF g order_refl] Cons.prems(1) by blast
  then show ?case using Cons.IH [OF _ _ rest] Cons.prems(2) grown_trans [OF g] by simp
qed

text \<open>A page at a time.\<close>

lemma pages_grown: "map_ok s \<Longrightarrow> served_all s (replicate n page_req) s' \<Longrightarrow> grown s s'"
  using served_all_grown [of s "replicate n page_req" s'] plain_page_req by (simp add: list_all_iff)

text \<open>The attributes of a byte are unique.\<close>

lemma shape_unique:
  assumes wf: "mm_wf s" and "(a, x) \<in> shape s" and "(a, y) \<in> shape s"
  shows "x = y"
proof -
  have sorted: "sorted_wrt rg_before (ranges s)" using wf by (simp add: mm_wf_def ranges_wf_def)
  obtain i j where ij: "i < length (ranges s)" "a \<in> rg_bytes (ranges s ! i)" "x = rg_uefi_attr (ranges s ! i)"
    "j < length (ranges s)" "a \<in> rg_bytes (ranges s ! j)" "y = rg_uefi_attr (ranges s ! j)"
    using assms(2,3) by (auto simp: shape_def in_set_conv_nth)
  have "\<not> i < j" and "\<not> j < i"
    using sorted_wrt_nth_less [OF sorted] ij unfolding rg_before_def rg_bytes_def by fastforce+
  then have "i = j" by simp
  then show ?thesis using ij by simp
qed

end
