(* ===== verification/Paging_Correct.thy ===== *)
theory Paging_Correct
  imports Paging Mem_Shape
begin

text \<open>
  Correctness of the page tables. \<open>hw_walk\<close> is the processor's translation of an address through
  the tables in memory; \<open>page_entry\<close> abstracts them to one entry per page, whether a large page
  or a table of small ones provides it. \<open>vm_wf\<close> says that the tables are apart from each other
  and from the memory the allocator may still hand out. The lemmas show that every write of
  the code has the effect on the abstraction that it should have and no other.
\<close>

unbundle bit_operations_syntax

subsection \<open>The tables in memory\<close>

definition pdpte :: "vm \<Rightarrow> nat \<Rightarrow> u64" where
  "pdpte s i = rd64 (vm_mem s) (unat (pdpt s) + 8 * i)"

definition pd_base :: "vm \<Rightarrow> nat \<Rightarrow> nat" where
  "pd_base s i = unat ((ucast (pdpte s i) :: u32) AND - PDPT_ALIGN)"

text \<open>Page-directory entries are numbered through: \<open>k\<close> is the address divided by 2 MiB.\<close>

definition pde_addr :: "vm \<Rightarrow> nat \<Rightarrow> nat" where
  "pde_addr s k = pd_base s (k div 512) + 8 * (k mod 512)"

definition pde :: "vm \<Rightarrow> nat \<Rightarrow> u64" where
  "pde s k = rd64 (vm_mem s) (pde_addr s k)"

definition is_table :: "u64 \<Rightarrow> bool" where
  "is_table e \<longleftrightarrow> e \<noteq> 0 \<and> e AND ucast PDE_PS = 0"

definition pt_base :: "u64 \<Rightarrow> nat" where
  "pt_base e = unat ((ucast e :: u32) AND - PAGE_SIZE)"

text \<open>The entry in force for page \<open>n\<close>: the small page a large page would be split into.\<close>

definition page_entry :: "vm \<Rightarrow> nat \<Rightarrow> u64" where
  "page_entry s n =
     (let e = pde s (n div 512) in
      if e = 0 then 0
      else if is_table e then rd64 (vm_mem s) (pt_base e + 8 * (n mod 512))
      else (e AND NOT (ucast PDE_PS)) + 4096 * word_of_nat (n mod 512))"

datatype tbl = Pdpt | Pd nat | Pt nat

fun tbl_in :: "vm \<Rightarrow> tbl \<Rightarrow> bool" where
  "tbl_in s Pdpt = True"
| "tbl_in s (Pd i) = (i < 4)"
| "tbl_in s (Pt k) = (k < 2048 \<and> is_table (pde s k))"

fun tbl_bytes :: "vm \<Rightarrow> tbl \<Rightarrow> nat set" where
  "tbl_bytes s Pdpt = {unat (pdpt s)..<unat (pdpt s) + 32}"
| "tbl_bytes s (Pd i) = {pd_base s i..<pd_base s i + 4096}"
| "tbl_bytes s (Pt k) = {pt_base (pde s k)..<pt_base (pde s k) + 4096}"

text \<open>What the processor needs of the entries.\<close>

definition pdpte_ok :: "u64 \<Rightarrow> bool" where
  "pdpte_ok e \<longleftrightarrow> unat e < 2 ^ 32 \<and> bit e 0 \<and> e AND 0xfe0 = 0"

definition pde_ok :: "u64 \<Rightarrow> bool" where
  "pde_ok e \<longleftrightarrow> (e \<noteq> 0 \<longrightarrow> bit e 0 \<and> (if is_table e then unat e < 2 ^ 32 else e AND 0x1ff000 = 0))"

definition vm_wf :: "vm \<Rightarrow> bool" where
  "vm_wf s \<longleftrightarrow> map_ok (vm_map s) \<and>
     (\<forall>t t'. tbl_in s t \<longrightarrow> tbl_in s t' \<longrightarrow> t \<noteq> t' \<longrightarrow> tbl_bytes s t \<inter> tbl_bytes s t' = {}) \<and>
     (\<forall>t. tbl_in s t \<longrightarrow> tbl_bytes s t \<inter> mm_free (vm_map s) = {}) \<and>
     (\<forall>i<4. pdpte_ok (pdpte s i)) \<and> (\<forall>k<2048. pde_ok (pde s k))"

lemma vm_wfD:
  assumes "vm_wf s"
  shows "map_ok (vm_map s)"
    and "tbl_in s t \<Longrightarrow> tbl_in s t' \<Longrightarrow> t \<noteq> t' \<Longrightarrow> tbl_bytes s t \<inter> tbl_bytes s t' = {}"
    and "tbl_in s t \<Longrightarrow> tbl_bytes s t \<inter> mm_free (vm_map s) = {}"
    and "i < 4 \<Longrightarrow> pdpte_ok (pdpte s i)" and "k < 2048 \<Longrightarrow> pde_ok (pde s k)"
  using assms unfolding vm_wf_def by blast+

subsection \<open>Writes to slots\<close>

definition slot :: "nat \<Rightarrow> nat set" where "slot a = {a..<a + 8}"

lemma rd64_wr64_apart: "slot a \<inter> slot b = {} \<Longrightarrow> rd64 (wr64 m a v) b = rd64 m b"
proof -
  assume "slot a \<inter> slot b = {}"
  then have "a \<notin> slot b" and "b \<notin> slot a" by (auto simp: slot_def)
  then have "a + 8 \<le> b \<or> b + 8 \<le> a" by (auto simp: slot_def)
  then show ?thesis by (simp add: rd64_def get_bytes_wr)
qed

lemma rd64_agree: "(\<And>a. a \<in> slot b \<Longrightarrow> m' a = m a) \<Longrightarrow> rd64 m' b = rd64 m b"
  unfolding rd64_def by (rule arg_cong [where f = le_word], rule get_bytes_cong) (simp add: slot_def)

lemma wr64_outside_slot: "x \<notin> slot a \<Longrightarrow> wr64 m a v x = m x"
  by (auto simp: wr64_def put_bytes_def slot_def)

lemma slot_in: "8 * j + 8 \<le> n \<Longrightarrow> slot (b + 8 * j) \<subseteq> {b..<b + n}"
  by (auto simp: slot_def)

lemma slots_same: "i \<noteq> j \<Longrightarrow> slot (b + 8 * i) \<inter> slot (b + 8 * j) = {}"
  by (auto simp: slot_def)

lemma pdpte_slot: "i < 4 \<Longrightarrow> slot (unat (pdpt s) + 8 * i) \<subseteq> tbl_bytes s Pdpt"
  using slot_in [of i 32] by simp

lemma pde_slot: "slot (pde_addr s k) \<subseteq> tbl_bytes s (Pd (k div 512))"
  unfolding pde_addr_def tbl_bytes.simps by (rule slot_in) (simp add: less_imp_le_nat)

lemma pt_slot: "j < 512 \<Longrightarrow> slot (pt_base (pde s k) + 8 * j) \<subseteq> tbl_bytes s (Pt k)"
  unfolding tbl_bytes.simps by (rule slot_in) simp

lemma pde_slots_apart:
  assumes "vm_wf s" and "k < 2048" and "k' < 2048" and "k \<noteq> k'"
  shows "slot (pde_addr s k) \<inter> slot (pde_addr s k') = {}"
proof (cases "k div 512 = k' div 512")
  case True
  then have "k mod 512 \<noteq> k' mod 512" using assms(4) by (metis div_mult_mod_eq)
  then show ?thesis using slots_same True by (simp add: pde_addr_def)
next
  case False
  then have "tbl_bytes s (Pd (k div 512)) \<inter> tbl_bytes s (Pd (k' div 512)) = {}"
    using assms by (intro vm_wfD(2)) auto
  then show ?thesis using pde_slot by blast
qed

text \<open>
  The one shape of all writes to page directories: entry \<open>k\<close>, which does not refer to a table,
  becomes \<open>v\<close>, after a new table may have been filled in memory taken from the allocator.
\<close>

definition pde_step :: "vm \<Rightarrow> nat \<Rightarrow> u64 \<Rightarrow> mem \<Rightarrow> vm \<Rightarrow> bool" where
  "pde_step s k v m1 s' \<longleftrightarrow>
     vm_mem s' = wr64 m1 (pde_addr s k) v \<and> pdpt s' = pdpt s \<and> k < 2048 \<and>
     \<not> is_table (pde s k) \<and> pde_ok v \<and> map_ok (vm_map s') \<and> mm_free (vm_map s') \<subseteq> mm_free (vm_map s) \<and>
     (\<forall>t. tbl_in s t \<longrightarrow> (\<forall>a\<in>tbl_bytes s t. m1 a = vm_mem s a)) \<and>
     (is_table v \<longrightarrow> {pt_base v..<pt_base v + 4096} \<subseteq> mm_free (vm_map s) \<and>
        {pt_base v..<pt_base v + 4096} \<inter> mm_free (vm_map s') = {})"

lemma pde_step_reads:
  assumes wf: "vm_wf s" and st: "pde_step s k v m1 s'"
  shows "i < 4 \<Longrightarrow> pdpte s' i = pdpte s i"
    and "i < 4 \<Longrightarrow> pd_base s' i = pd_base s i"
    and "k' < 2048 \<Longrightarrow> pde_addr s' k' = pde_addr s k'"
    and "k' < 2048 \<Longrightarrow> pde s' k' = (if k' = k then v else pde s k')"
    and "tbl_in s (Pt k') \<Longrightarrow> j < 512 \<Longrightarrow>
      rd64 (vm_mem s') (pt_base (pde s k') + 8 * j) = rd64 (vm_mem s) (pt_base (pde s k') + 8 * j)"
    and "is_table v \<Longrightarrow> j < 512 \<Longrightarrow> rd64 (vm_mem s') (pt_base v + 8 * j) = rd64 m1 (pt_base v + 8 * j)"
proof -
  have k: "k < 2048" and m': "vm_mem s' = wr64 m1 (pde_addr s k) v" and p: "pdpt s' = pdpt s"
    and agree: "\<And>t a. tbl_in s t \<Longrightarrow> a \<in> tbl_bytes s t \<Longrightarrow> m1 a = vm_mem s a"
    using st unfolding pde_step_def by blast+
  have inpd: "tbl_in s (Pd (k div 512))" using k by simp
  have other: "rd64 (vm_mem s') b = rd64 (vm_mem s) b"
    if "slot b \<subseteq> tbl_bytes s t" "tbl_in s t" "slot (pde_addr s k) \<inter> slot b = {}" for b t
  proof -
    have "rd64 (vm_mem s') b = rd64 m1 b" unfolding m' using that(3) by (rule rd64_wr64_apart)
    also have "\<dots> = rd64 (vm_mem s) b" using that(1,2) agree by (intro rd64_agree) blast
    finally show ?thesis .
  qed
  have apart: "slot (pde_addr s k) \<inter> slot b = {}"
    if "slot b \<subseteq> tbl_bytes s t" "tbl_in s t" "t \<noteq> Pd (k div 512)" for b t
    using vm_wfD(2) [OF wf inpd that(2)] that(1,3) pde_slot [of s k] by blast
  show e: "pdpte s' i = pdpte s i" if "i < 4" for i
    unfolding pdpte_def p using that by (intro other [OF pdpte_slot] apart [OF pdpte_slot]) auto
  show b: "pd_base s' i = pd_base s i" if "i < 4" for i using e [OF that] by (simp add: pd_base_def)
  show a: "pde_addr s' k' = pde_addr s k'" if "k' < 2048" for k'
    using that b [of "k' div 512"] by (simp add: pde_addr_def)
  show "pde s' k' = (if k' = k then v else pde s k')" if k': "k' < 2048"
  proof (cases "k' = k")
    case True
    then show ?thesis using a [OF k'] by (simp add: pde_def m')
  next
    case False
    have "rd64 (vm_mem s') (pde_addr s k') = rd64 (vm_mem s) (pde_addr s k')"
      using k' False pde_slots_apart [OF wf k k'] by (intro other [OF pde_slot]) auto
    then show ?thesis using a [OF k'] False by (simp add: pde_def)
  qed
  show "rd64 (vm_mem s') (pt_base (pde s k') + 8 * j) = rd64 (vm_mem s) (pt_base (pde s k') + 8 * j)"
    if "tbl_in s (Pt k')" "j < 512"
    using that by (intro other [OF pt_slot] apart [OF pt_slot]) auto
  show "rd64 (vm_mem s') (pt_base v + 8 * j) = rd64 m1 (pt_base v + 8 * j)" if v: "is_table v" "j < 512"
  proof -
    have "{pt_base v..<pt_base v + 4096} \<subseteq> mm_free (vm_map s)"
      using v(1) st unfolding pde_step_def by blast
    then have "slot (pt_base v + 8 * j) \<subseteq> mm_free (vm_map s)"
      using slot_in [of j 4096 "pt_base v"] v(2) by auto
    moreover have "slot (pde_addr s k) \<inter> mm_free (vm_map s) = {}"
      using vm_wfD(3) [OF wf inpd] pde_slot [of s k] by blast
    ultimately show ?thesis unfolding m' by (intro rd64_wr64_apart) blast
  qed
qed

lemma pde_step_tables:
  assumes wf: "vm_wf s" and st: "pde_step s k v m1 s'"
  shows "tbl_in s' t \<longleftrightarrow> (if t = Pt k then is_table v else tbl_in s t)"
    and "t \<noteq> Pt k \<Longrightarrow> tbl_in s t \<Longrightarrow> tbl_bytes s' t = tbl_bytes s t"
    and "tbl_bytes s' (Pt k) = {pt_base v..<pt_base v + 4096}"
proof -
  note r = pde_step_reads [OF wf st]
  have k: "k < 2048" and p: "pdpt s' = pdpt s" using st unfolding pde_step_def by blast+
  show "tbl_in s' t \<longleftrightarrow> (if t = Pt k then is_table v else tbl_in s t)"
    using k r(4) by (cases t) auto
  show "tbl_bytes s' t = tbl_bytes s t" if "t \<noteq> Pt k" "tbl_in s t"
    using that r(2,4) p by (cases t) auto
  show "tbl_bytes s' (Pt k) = {pt_base v..<pt_base v + 4096}" using r(4) [OF k] by simp
qed

lemma pde_step_wf:
  assumes wf: "vm_wf s" and st: "pde_step s k v m1 s'"
  shows "vm_wf s'"
proof -
  note tb = pde_step_tables [OF wf st] and r = pde_step_reads [OF wf st]
  have ok: "map_ok (vm_map s')" "mm_free (vm_map s') \<subseteq> mm_free (vm_map s)" "pde_ok v"
    and new: "is_table v \<Longrightarrow> {pt_base v..<pt_base v + 4096} \<subseteq> mm_free (vm_map s)"
      "is_table v \<Longrightarrow> {pt_base v..<pt_base v + 4096} \<inter> mm_free (vm_map s') = {}"
    using st unfolding pde_step_def by blast+
  have fresh: "tbl_bytes s' (Pt k) \<inter> tbl_bytes s' t = {}"
    if "is_table v" "t \<noteq> Pt k" "tbl_in s t" for t
    using new(1) [OF that(1)] vm_wfD(3) [OF wf that(3)] unfolding tb(2) [OF that(2,3)] tb(3) by blast
  have "tbl_bytes s' t \<inter> tbl_bytes s' t' = {}"
    if "tbl_in s' t" "tbl_in s' t'" "t \<noteq> t'" for t t'
  proof -
    consider "t = Pt k" | "t' = Pt k" | "t \<noteq> Pt k" "t' \<noteq> Pt k" by blast
    then show ?thesis
    proof cases
      case 1
      then have "is_table v" "tbl_in s t'" "t' \<noteq> Pt k"
        using that tb(1) [of t] tb(1) [of t'] by presburger+
      from fresh [OF this(1,3,2)] show ?thesis using 1 by simp
    next
      case 2
      then have "is_table v" "tbl_in s t" "t \<noteq> Pt k"
        using that tb(1) [of t] tb(1) [of t'] by presburger+
      from fresh [OF this(1,3,2)] show ?thesis using 2 by (simp add: Int_commute)
    next
      case 3
      then have "tbl_in s t" "tbl_in s t'" using that tb(1) [of t] tb(1) [of t'] by presburger+
      then show ?thesis using vm_wfD(2) [OF wf _ _ that(3)] tb(2) 3 by blast
    qed
  qed
  moreover have "tbl_bytes s' t \<inter> mm_free (vm_map s') = {}" if "tbl_in s' t" for t
  proof (cases "t = Pt k")
    case True
    then have "is_table v" using that tb(1) [of t] by presburger
    then show ?thesis using new(2) tb(3) True by simp
  next
    case False
    then have "tbl_in s t" using that tb(1) [of t] by presburger
    then show ?thesis using vm_wfD(3) [OF wf] tb(2) [OF False] ok(2) by blast
  qed
  moreover have "\<forall>i<4. pdpte_ok (pdpte s' i)" using r(1) vm_wfD(4) [OF wf] by simp
  moreover have "\<forall>k'<2048. pde_ok (pde s' k')" using r(4) vm_wfD(5) [OF wf] ok(3) by simp
  ultimately show ?thesis using ok(1) unfolding vm_wf_def by blast
qed

lemma pde_step_entries:
  assumes wf: "vm_wf s" and st: "pde_step s k v m1 s'" and n: "n < 2 ^ 20"
  shows "page_entry s' n =
    (if n div 512 = k
     then if v = 0 then 0
          else if is_table v then rd64 m1 (pt_base v + 8 * (n mod 512))
          else (v AND NOT (ucast PDE_PS)) + 4096 * word_of_nat (n mod 512)
     else page_entry s n)"
proof -
  note r = pde_step_reads [OF wf st]
  have k': "n div 512 < 2048" using n by (simp add: less_mult_imp_div_less)
  show ?thesis
  proof (cases "n div 512 = k")
    case True
    then show ?thesis using r(4) [OF k'] r(6) by (simp add: page_entry_def Let_def)
  next
    case False
    then show ?thesis using r(4) [OF k'] r(5) [of "n div 512" "n mod 512"] k'
      by (auto simp: page_entry_def Let_def)
  qed
qed

subsection \<open>The memory the tables may use\<close>

text \<open>The tables and the memory left to allocate from; no operation changes any other byte.\<close>

definition vm_owned :: "vm \<Rightarrow> nat set" where
  "vm_owned s = {a. a \<in> mm_free (vm_map s) \<or> (\<exists>t. tbl_in s t \<and> a \<in> tbl_bytes s t)}"

definition mem_kept :: "vm \<Rightarrow> vm \<Rightarrow> bool" where
  "mem_kept s s' \<longleftrightarrow> vm_owned s' \<subseteq> vm_owned s \<and> (\<forall>a. a \<notin> vm_owned s \<longrightarrow> vm_mem s' a = vm_mem s a)"

lemma mem_kept_refl: "mem_kept s s"
  by (simp add: mem_kept_def)

lemma mem_kept_trans: "mem_kept s s' \<Longrightarrow> mem_kept s' s'' \<Longrightarrow> mem_kept s s''"
  by (auto simp: mem_kept_def)

lemma vm_owned_cong:
  assumes "vm_map s' = vm_map s" and "\<And>t. tbl_in s' t = tbl_in s t" and "\<And>t. tbl_in s t \<Longrightarrow> tbl_bytes s' t = tbl_bytes s t"
  shows "vm_owned s' = vm_owned s"
  using assms by (auto simp: vm_owned_def)

lemma pde_step_kept:
  assumes wf: "vm_wf s" and st: "pde_step s k v m1 s'" and m1: "\<And>a. a \<notin> mm_free (vm_map s) \<Longrightarrow> m1 a = vm_mem s a"
  shows "mem_kept s s'"
proof -
  note tb = pde_step_tables [OF wf st]
  have k: "k < 2048" and m': "vm_mem s' = wr64 m1 (pde_addr s k) v" and f: "mm_free (vm_map s') \<subseteq> mm_free (vm_map s)"
    and new: "is_table v \<Longrightarrow> {pt_base v..<pt_base v + 4096} \<subseteq> mm_free (vm_map s)"
    using st unfolding pde_step_def by blast+
  have "a \<in> vm_owned s" if t: "tbl_in s' t" "a \<in> tbl_bytes s' t" for a t
  proof (cases "t = Pt k")
    case True
    then have "is_table v" using t(1) tb(1) [of t] by presburger
    from new [OF this] have "a \<in> mm_free (vm_map s)" using t(2) tb(3) True by blast
    then show ?thesis by (simp add: vm_owned_def)
  next
    case False
    then have i: "tbl_in s t" using t(1) tb(1) [of t] by presburger
    then show ?thesis using t(2) tb(2) [OF False i] by (auto simp: vm_owned_def)
  qed
  then have sub: "vm_owned s' \<subseteq> vm_owned s" using f by (auto simp: vm_owned_def)
  have "tbl_in s (Pd (k div 512))" using k by simp
  then have "slot (pde_addr s k) \<subseteq> vm_owned s" using pde_slot [of s k] unfolding vm_owned_def by blast
  then have "vm_mem s' a = vm_mem s a" if "a \<notin> vm_owned s" for a
    using that m1 [of a] unfolding m' by (subst wr64_outside_slot) (auto simp: vm_owned_def)
  then show ?thesis using sub by (simp add: mem_kept_def)
qed

subsection \<open>Making sure of a table\<close>

lemma fill_pt_outside: "x \<notin> {a..<a + 8 * n} \<Longrightarrow> fill_pt m a pte n x = m x"
proof (induction n arbitrary: m a pte)
  case (Suc n)
  then have "x \<notin> {a + 8..<a + 8 + 8 * n}" and "x \<notin> slot a" by (auto simp: slot_def)
  then show ?case using Suc.IH by (simp add: wr64_outside_slot)
qed simp

lemma fill_pt_entry: "j < n \<Longrightarrow> rd64 (fill_pt m a pte n) (a + 8 * j) = pte + 4096 * word_of_nat j"
proof (induction n arbitrary: m a pte j)
  case (Suc n)
  show ?case
  proof (cases j)
    case 0
    have "rd64 (fill_pt (wr64 m a pte) (a + 8) (pte + ucast PAGE_SIZE) n) a = rd64 (wr64 m a pte) a"
      by (rule rd64_agree) (rule fill_pt_outside, simp add: slot_def)
    then show ?thesis using 0 by simp
  next
    case (Suc i)
    then have "i < n" using Suc.prems by simp
    have a: "a + 8 * j = a + 8 + 8 * i" using Suc by simp
    have w: "pte + ucast PAGE_SIZE + 4096 * word_of_nat i = pte + 4096 * word_of_nat j"
      unfolding Suc PAGE_SIZE_def by (simp add: distrib_left)
    show ?thesis
      unfolding a fill_pt.simps Suc.IH [OF \<open>i < n\<close>, of "wr64 m a pte" "a + 8" "pte + ucast PAGE_SIZE"] w ..
  qed
qed simp

lemma put_zero_entry: "8 * j + 8 \<le> n \<Longrightarrow> rd64 (put_bytes m a (replicate n 0)) (a + 8 * j) = 0"
proof -
  assume n: "8 * j + 8 \<le> n"
  then have "get_bytes (put_bytes m a (replicate n 0)) (a + 8 * j) 8 = take 8 (drop (8 * j) (replicate n 0))"
    using get_put_within [of a "a + 8 * j" 8 "replicate n 0" m] by simp
  also have "\<dots> = replicate 8 0" using n by (simp only: drop_replicate take_replicate) simp
  finally have "rd64 (put_bytes m a (replicate n 0)) (a + 8 * j) = le_word (replicate 8 0)"
    by (simp only: rd64_def)
  also have "\<dots> = 0" by code_simp
  finally show ?thesis .
qed

lemma low_bits_0:
  fixes a :: u32
  assumes "4096 dvd unat a" and "i < 12"
  shows "\<not> bit a i"
proof -
  have "take_bit 12 (unat a) = 0" using assms(1) by (simp add: take_bit_eq_mod mod_eq_0_iff_dvd)
  then have "\<not> bit (take_bit 12 (unat a)) i" by simp
  then show ?thesis using assms(2) by (simp add: bit_take_bit_iff bit_unsigned_iff)
qed

lemma minus_page_size: "- PAGE_SIZE = NOT (mask 12)"
  by code_simp

lemma new_table_entry:
  fixes pt :: u32
  assumes "4096 dvd unat pt"
  defines "v \<equiv> ucast (pt OR PTE_P OR PTE_RW OR PTE_US) :: u64"
  shows "is_table v" and "pt_base v = unat pt" and "pde_ok v"
proof -
  have flags: "PTE_P OR PTE_RW OR PTE_US = mask 3" by code_simp
  have b: "bit v i \<longleftrightarrow> bit pt i \<or> i < 3" for i
    unfolding v_def flags using bit_imp_le_length [of pt i]
    by (auto simp: bit_simps bit_mask_iff)
  have "\<not> bit v 7" using b low_bits_0 [OF assms(1), of 7] by simp
  then have "v AND ucast PDE_PS = 0"
    using and_exp_eq_0_iff_not_bit [of v 7] by (simp add: PDE_PS_def)
  moreover have "bit v 0" using b by simp
  then have "v \<noteq> 0" by auto
  ultimately show t: "is_table v" by (simp add: is_table_def)
  have "(ucast v :: u32) AND - PAGE_SIZE = pt"
    unfolding minus_page_size using b low_bits_0 [OF assms(1)] leI
    by (intro bit_word_eqI) (auto simp: bit_simps bit_mask_iff)
  then show "pt_base v = unat pt" by (simp add: pt_base_def)
  have "unat v < 2 ^ 32"
    unfolding v_def using unat_lt [of "pt OR PTE_P OR PTE_RW OR PTE_US"] by (simp add: unat_ucast_up)
  then show "pde_ok v" using t \<open>bit v 0\<close> by (simp add: pde_ok_def)
qed

lemma mem_alloc_returns:
  assumes "mm_wf_at B s" and "B \<le> alloc_limit max_addr" and "0 < sz" and "unat align = 2 ^ k" and "k < 32"
  shows "\<exists>r. mem_alloc s sz align max_addr = Some r"
  using mem_alloc_eq(1) [OF assms(1-3), of align] mem_alloc_serving [OF assms]
  by blast

lemma page_req_size: "unat PAGE_SIZE = 4096" "0 < PAGE_SIZE" "unat PAGE_SIZE = 2 ^ 12"
  by (simp_all add: PAGE_SIZE_def word_less_nat_alt)

lemma page_alloc_spec:
  assumes "map_ok s" and "mem_alloc s PAGE_SIZE PAGE_SIZE 0 = Some (Inr (pt, s'))"
  shows "map_ok s'" and "{unat pt..<unat pt + 4096} \<subseteq> mm_free s"
    and "mm_free s' \<subseteq> mm_free s" and "{unat pt..<unat pt + 4096} \<inter> mm_free s' = {}" and "4096 dvd unat pt"
    and "grown s s'" and "served_all s [page_req] s'"
proof -
  note ps = page_req_size
  note sp = mem_alloc_spec [OF assms(1) low_top_limit ps(2,3) _ assms(2), unfolded ps(1), simplified]
  show "map_ok s'" "{unat pt..<unat pt + 4096} \<subseteq> mm_free s" "4096 dvd unat pt" using sp by simp_all
  show "mm_free s' \<subseteq> mm_free s" "{unat pt..<unat pt + 4096} \<inter> mm_free s' = {}" using sp(3) by blast+
  show "grown s s'" using mem_alloc_grown [OF assms(1) order_refl ps(2,3) _ assms(2)] by simp
  show "served_all s [page_req] s'"
    using assms(2) by (intro mem_alloc_served(1)) (simp add: page_req_def PAGE_SIZE_def)
qed

lemma page_alloc_returns:
  assumes "map_ok s"
  shows "\<exists>r. mem_alloc s PAGE_SIZE PAGE_SIZE 0 = Some r \<and>
    (\<forall>e. r = Inl e \<longrightarrow> e = Hlt \<or> e = Out_of_bounds \<and> out_of_ram s [page_req])"
proof -
  obtain r where r: "mem_alloc s PAGE_SIZE PAGE_SIZE 0 = Some r"
    using mem_alloc_returns [OF assms low_top_limit page_req_size(2,3)] by auto
  moreover have "e = Hlt \<or> e = Out_of_bounds \<and> out_of_ram s [page_req]" if "r = Inl e" for e
    using mem_alloc_errors [OF assms low_top_limit page_req_size(2,3) _ r [unfolded that]]
      mem_alloc_served(2) [of s page_req] r that
    by (auto simp: page_req_def PAGE_SIZE_def)
  ultimately show ?thesis by blast
qed

text \<open>
  The entries of the page directories that refer to a table. Every page that is allocated makes one
  more of them, so that an operation runs out of RAM only if the RAM does not hold one page for each of
  the entries that do not refer to a table yet.
\<close>

definition tables :: "vm \<Rightarrow> nat" where
  "tables s = card {k. k < 2048 \<and> is_table (pde s k)}"

definition pages_taken :: "vm \<Rightarrow> vm \<Rightarrow> bool" where
  "pages_taken s s' \<longleftrightarrow>
     (\<exists>n. served_all (vm_map s) (replicate n page_req) (vm_map s') \<and> tables s' = tables s + n)"

definition vm_error :: "vm \<Rightarrow> err \<Rightarrow> bool" where
  "vm_error s e \<longleftrightarrow>
     e = Hlt \<or> e = Out_of_bounds \<and> out_of_ram (vm_map s) (replicate (2048 - tables s) page_req)"

lemma tables_le: "tables s \<le> 2048"
proof -
  have "card {k. k < 2048 \<and> is_table (pde s k)} \<le> card {..<2048 :: nat}" by (rule card_mono) auto
  then show ?thesis by (simp add: tables_def)
qed

lemma tables_cong: "(\<And>k. k < 2048 \<Longrightarrow> is_table (pde s' k) = is_table (pde s k)) \<Longrightarrow> tables s' = tables s"
  unfolding tables_def by (rule arg_cong [where f = card]) auto

lemma tables_add:
  assumes "k < 2048" and "\<not> is_table (pde s k)"
    and "\<And>j. j < 2048 \<Longrightarrow> is_table (pde s' j) \<longleftrightarrow> j = k \<or> is_table (pde s j)"
  shows "tables s' = tables s + 1"
proof -
  have "{j. j < 2048 \<and> is_table (pde s' j)} = insert k {j. j < 2048 \<and> is_table (pde s j)}" using assms by auto
  then show ?thesis using assms(2) by (simp add: tables_def)
qed

lemma tables_less:
  assumes "k < 2048" and "\<not> is_table (pde s k)"
  shows "tables s < 2048"
proof -
  have "card {j. j < 2048 \<and> is_table (pde s j)} < card {..<2048 :: nat}"
    using assms by (intro psubset_card_mono) auto
  then show ?thesis by (simp add: tables_def)
qed

lemma pages_taken_refl: "vm_map s' = vm_map s \<Longrightarrow> tables s' = tables s \<Longrightarrow> pages_taken s s'"
  unfolding pages_taken_def by (intro exI [of _ 0]) (simp add: served_all_nil)

lemma pages_taken_trans: "pages_taken s s' \<Longrightarrow> pages_taken s' s'' \<Longrightarrow> pages_taken s s''"
  unfolding pages_taken_def using served_all_append by (fastforce simp: replicate_add)

lemma vm_error_later:
  assumes "pages_taken s s'" and "vm_error s' e"
  shows "vm_error s e"
proof -
  obtain n where n: "served_all (vm_map s) (replicate n page_req) (vm_map s')" "tables s' = tables s + n"
    using assms(1) by (auto simp: pages_taken_def)
  then have "2048 - tables s = n + (2048 - tables s')" using tables_le [of s'] by simp
  then show ?thesis using assms(2) out_of_ram_later [OF n(1)] by (auto simp: vm_error_def replicate_add)
qed

lemma vm_error_cong: "vm_map s' = vm_map s \<Longrightarrow> tables s' = tables s \<Longrightarrow> vm_error s' e = vm_error s e"
  by (simp add: vm_error_def)

text \<open>What a page-table operation leaves alone.\<close>

definition same_rest :: "vm \<Rightarrow> vm \<Rightarrow> bool" where
  "same_rest s s' \<longleftrightarrow> (\<exists>mp m. s' = s\<lparr> vm_map := mp, vm_mem := m \<rparr>) \<and>
     mm_free (vm_map s') \<subseteq> mm_free (vm_map s) \<and> grown (vm_map s) (vm_map s') \<and> (\<forall>k<2048. pde_addr s' k = pde_addr s k) \<and> mem_kept s s' \<and>
     pages_taken s s'"

lemma same_rest_mem:
  assumes "\<forall>k<2048. pde_addr (s\<lparr> vm_mem := m \<rparr>) k = pde_addr s k" and "mem_kept s (s\<lparr> vm_mem := m \<rparr>)"
    and "\<And>k. k < 2048 \<Longrightarrow> is_table (pde (s\<lparr> vm_mem := m \<rparr>) k) = is_table (pde s k)"
  shows "same_rest s (s\<lparr> vm_mem := m \<rparr>)"
proof -
  have "s\<lparr> vm_mem := m \<rparr> = s\<lparr> vm_map := vm_map s, vm_mem := m \<rparr>" by simp
  then have "\<exists>mp m'. s\<lparr> vm_mem := m \<rparr> = s\<lparr> vm_map := mp, vm_mem := m' \<rparr>" by blast
  moreover have "pages_taken s (s\<lparr> vm_mem := m \<rparr>)"
    using assms(3) by (intro pages_taken_refl tables_cong) simp_all
  ultimately show ?thesis using assms(1,2) by (simp add: same_rest_def grown_refl)
qed

lemma same_rest_pdpt: "same_rest s s' \<Longrightarrow> pdpt s' = pdpt s"
  by (auto simp: same_rest_def)

lemma same_rest_refl: "same_rest s s"
proof -
  have "s = s\<lparr> vm_map := vm_map s, vm_mem := vm_mem s \<rparr>" by simp
  then have "\<exists>mp m. s = s\<lparr> vm_map := mp, vm_mem := m \<rparr>" by blast
  then show ?thesis by (simp add: same_rest_def mem_kept_refl pages_taken_refl grown_refl)
qed

lemma same_rest_trans: "same_rest s s' \<Longrightarrow> same_rest s' s'' \<Longrightarrow> same_rest s s''"
proof -
  assume a: "same_rest s s'" "same_rest s' s''"
  obtain mp m where 1: "s' = s\<lparr> vm_map := mp, vm_mem := m \<rparr>" using a(1) by (auto simp: same_rest_def)
  obtain mp' m' where "s'' = s'\<lparr> vm_map := mp', vm_mem := m' \<rparr>" using a(2) unfolding same_rest_def by blast
  then have "s'' = s\<lparr> vm_map := mp', vm_mem := m' \<rparr>" by (simp add: 1)
  then have "\<exists>mp m. s'' = s\<lparr> vm_map := mp, vm_mem := m \<rparr>" by blast
  moreover have "mm_free (vm_map s'') \<subseteq> mm_free (vm_map s)" "grown (vm_map s) (vm_map s'')"
    using a grown_trans by (auto simp: same_rest_def)
  moreover have "\<forall>k<2048. pde_addr s'' k = pde_addr s k" using a by (simp add: same_rest_def)
  moreover have "mem_kept s s''" using a mem_kept_trans [of s s' s''] by (simp add: same_rest_def)
  moreover have "pages_taken s s''" using a pages_taken_trans [of s s' s''] by (simp add: same_rest_def)
  ultimately show ?thesis by (simp add: same_rest_def)
qed

lemma one_page_error:
  assumes "k < 2048" and "\<not> is_table (pde s k)" and "e = Hlt \<or> e = Out_of_bounds \<and> out_of_ram (vm_map s) [page_req]"
  shows "vm_error s e"
  using assms(3) tables_less [OF assms(1,2)] out_of_ram_pages [of "vm_map s" "[]" 1 "2048 - tables s"]
  by (auto simp: vm_error_def)

lemma ensure_pt_spec:
  assumes wf: "vm_wf s" and k: "k < 2048"
  shows "\<exists>r. ensure_pt s (pde_addr s k) = Some r \<and>
    (\<forall>pt s'. r = Inr (pt, s') \<longrightarrow> vm_wf s' \<and> same_rest s s' \<and> is_table (pde s' k) \<and>
       pt_base (pde s' k) = unat pt \<and> (\<forall>n<2 ^ 20. page_entry s' n = page_entry s n) \<and>
       (\<forall>k'<2048. k' \<noteq> k \<longrightarrow> pde s' k' = pde s k')) \<and>
    (\<forall>e. r = Inl e \<longrightarrow> \<not> is_table (pde s k) \<and> (e = Hlt \<or> e = Out_of_bounds \<and> out_of_ram (vm_map s) [page_req]))"
proof (cases "is_table (pde s k)")
  case True
  then have "ensure_pt s (pde_addr s k) = Some (Inr (ucast (pde s k) AND - PAGE_SIZE, s))"
    by (simp add: ensure_pt_def is_table_def pde_def Let_def)
  then show ?thesis using wf True same_rest_refl by (simp add: pt_base_def)
next
  case False
  let ?e = "pde s k" and ?a = "pde_addr s k"
  let ?m1 = "\<lambda>pt::u32. if ?e \<noteq> 0 then fill_pt (vm_mem s) (unat pt) (?e AND NOT (ucast PDE_PS)) 512
      else put_bytes (vm_mem s) (unat pt) (replicate (unat PAGE_SIZE) 0)"
  let ?v = "\<lambda>pt::u32. ucast (pt OR PTE_P OR PTE_RW OR PTE_US) :: u64"
  let ?s' = "\<lambda>pt mp. s\<lparr> vm_map := mp, vm_mem := wr64 (?m1 pt) ?a (?v pt) \<rparr>"
  have run: "ensure_pt s ?a = bindo (mem_alloc (vm_map s) PAGE_SIZE PAGE_SIZE 0) (\<lambda>(pt, mp).
      Some (Inr (pt, ?s' pt mp)))"
    unfolding ensure_pt_def Let_def pde_def [symmetric] is_table_def [symmetric] using False by simp
  note mw = vm_wfD(1) [OF wf]
  obtain r where r: "mem_alloc (vm_map s) PAGE_SIZE PAGE_SIZE 0 = Some r"
    and err: "\<And>e. r = Inl e \<Longrightarrow> e = Hlt \<or> e = Out_of_bounds \<and> out_of_ram (vm_map s) [page_req]"
    using page_alloc_returns [OF mw] by blast
  show ?thesis
  proof (cases r)
    case (Inl e)
    then show ?thesis using r run err False by simp
  next
    case (Inr x)
    obtain pt mp where x: "x = (pt, mp)" by (cases x)
    note al = page_alloc_spec [OF mw r [unfolded Inr x]]
    note new = new_table_entry [OF al(5)]
    have agree: "?m1 pt b = vm_mem s b" if "b \<notin> {unat pt..<unat pt + 4096}" for b
      using that fill_pt_outside [of b "unat pt" 512] by (auto simp: put_bytes_def PAGE_SIZE_def)
    have tables: "?m1 pt b = vm_mem s b" if "tbl_in s t" "b \<in> tbl_bytes s t" for t b
      using vm_wfD(3) [OF wf that(1)] that(2) al(2) by (intro agree) blast
    have st: "pde_step s k (?v pt) (?m1 pt) (?s' pt mp)"
      unfolding pde_step_def using k False new al tables by simp
    have kept: "mem_kept s (?s' pt mp)" using al(2) by (intro pde_step_kept [OF wf st] agree) blast
    have entry: "rd64 (?m1 pt) (unat pt + 8 * j) =
        (if ?e = 0 then 0 else (?e AND NOT (ucast PDE_PS)) + 4096 * word_of_nat j)" if "j < 512" for j
      using that fill_pt_entry [of j 512] put_zero_entry [of j 4096] by (simp add: PAGE_SIZE_def)
    have "page_entry (?s' pt mp) n = page_entry s n" if "n < 2 ^ 20" for n
    proof (cases "n div 512 = k")
      case True
      have "?v pt \<noteq> 0" using new(1) by (simp add: is_table_def)
      then show ?thesis
        unfolding pde_step_entries [OF wf st that] using entry [of "n mod 512"] new(1,2) False True
        by (simp add: page_entry_def Let_def)
    qed (simp add: pde_step_entries [OF wf st that])
    note entries = this
    have pds: "pde (?s' pt mp) k' = (if k' = k then ?v pt else pde s k')" if "k' < 2048" for k'
      using pde_step_reads(4) [OF wf st that] .
    have "tables (?s' pt mp) = tables s + 1"
      using pds new(1) by (intro tables_add [OF k False]) simp
    then have "pages_taken s (?s' pt mp)"
      unfolding pages_taken_def using al(7) by (intro exI [of _ 1]) simp
    then have sr: "same_rest s (?s' pt mp)"
      unfolding same_rest_def using al(3,6) pde_step_reads(3) [OF wf st] kept by (intro conjI) (blast, simp_all)
    have t: "is_table (pde (?s' pt mp) k)" "pt_base (pde (?s' pt mp) k) = unat pt" using pds [OF k] new by simp_all
    have "ensure_pt s ?a = Some (Inr (pt, ?s' pt mp))" using r run Inr x by simp
    moreover define s2 where "s2 = ?s' pt mp"
    ultimately show ?thesis
      using pde_step_wf [OF wf st, folded s2_def] sr [folded s2_def] t [folded s2_def] entries [folded s2_def]
        pds [folded s2_def] by auto
  qed
qed

subsection \<open>Writing an entry of a table\<close>

definition pte_write :: "vm \<Rightarrow> nat \<Rightarrow> nat \<Rightarrow> u64 \<Rightarrow> vm" where
  "pte_write s k j v = s\<lparr> vm_mem := wr64 (vm_mem s) (pt_base (pde s k) + 8 * j) v \<rparr>"

lemma pte_write_spec:
  assumes wf: "vm_wf s" and k: "k < 2048" and t: "is_table (pde s k)" and j: "j < 512"
  shows "vm_wf (pte_write s k j v)" and "same_rest s (pte_write s k j v)"
    and "n < 2 ^ 20 \<Longrightarrow> page_entry (pte_write s k j v) n = (if n = 512 * k + j then v else page_entry s n)"
    and "k' < 2048 \<Longrightarrow> pde (pte_write s k j v) k' = pde s k'"
proof -
  let ?s' = "pte_write s k j v" and ?a = "pt_base (pde s k) + 8 * j"
  have inpt: "tbl_in s (Pt k)" using k t by simp
  have other: "rd64 (vm_mem ?s') b = rd64 (vm_mem s) b" if "slot b \<subseteq> tbl_bytes s t" "tbl_in s t" "t \<noteq> Pt k" for b t
  proof -
    have "slot ?a \<inter> slot b = {}"
      using vm_wfD(2) [OF wf inpt that(2)] that(1,3) pt_slot [OF j, of s k] by blast
    then show ?thesis by (simp add: pte_write_def rd64_wr64_apart)
  qed
  have p: "pdpte ?s' i = pdpte s i" if "i < 4" for i
    using other [OF pdpte_slot [OF that]] by (simp add: pdpte_def pte_write_def)
  then have pdb: "pd_base ?s' i = pd_base s i" if "i < 4" for i using that by (simp add: pd_base_def)
  have addr: "pde_addr ?s' k' = pde_addr s k'" if "k' < 2048" for k'
    using that pdb [of "k' div 512"] by (simp add: pde_addr_def)
  show pd: "pde ?s' k' = pde s k'" if "k' < 2048" for k'
    using other [OF pde_slot [of s k']] addr [OF that] that by (simp add: pde_def)
  have "tbl_in ?s' t = tbl_in s t" for t using pd by (cases t) auto
  note tin = this
  moreover have "tbl_bytes ?s' t = tbl_bytes s t" if "tbl_in s t" for t
    using that pd pdb by (cases t) (auto simp: pte_write_def)
  note tby = this
  moreover have vmap: "vm_map ?s' = vm_map s" by (simp add: pte_write_def)
  ultimately show "vm_wf ?s'" using wf p pd unfolding vm_wf_def by simp
  have "slot ?a \<subseteq> vm_owned s" using pt_slot [OF j, of s k] inpt unfolding vm_owned_def by blast
  then have "vm_mem ?s' x = vm_mem s x" if "x \<notin> vm_owned s" for x
    using that unfolding pte_write_def by (simp) (rule wr64_outside_slot, blast)
  moreover have "vm_owned ?s' = vm_owned s" by (rule vm_owned_cong [OF vmap]) (use tin tby in simp_all)
  ultimately have "mem_kept s ?s'" by (simp add: mem_kept_def)
  then show "same_rest s ?s'"
    using addr pd unfolding pte_write_def by (intro same_rest_mem) simp_all
  assume n: "n < 2 ^ 20"
  then have k': "n div 512 < 2048" by (simp add: less_mult_imp_div_less)
  show "page_entry ?s' n = (if n = 512 * k + j then v else page_entry s n)"
  proof (cases "n div 512 = k")
    case True
    have "n = 512 * k + n mod 512" using True by (metis div_mult_mod_eq mult.commute)
    moreover have "slot ?a \<inter> slot (pt_base (pde s k) + 8 * (n mod 512)) = {}" if "j \<noteq> n mod 512"
      using that by (rule slots_same)
    ultimately show ?thesis using True t pd [OF k] j
      by (cases "j = n mod 512") (auto simp: page_entry_def is_table_def pte_write_def rd64_wr64_apart)
  next
    case False
    then have "n \<noteq> 512 * k + j" using j by auto
    moreover have "rd64 (vm_mem ?s') (pt_base (pde s (n div 512)) + 8 * (n mod 512)) =
        rd64 (vm_mem s) (pt_base (pde s (n div 512)) + 8 * (n mod 512))" if "is_table (pde s (n div 512))"
      using that False k' by (intro other [OF pt_slot]) auto
    ultimately show ?thesis using pd [OF k'] by (auto simp: page_entry_def Let_def)
  qed
qed

subsection \<open>Writing a large page\<close>

definition pde_write :: "vm \<Rightarrow> nat \<Rightarrow> u64 \<Rightarrow> vm" where
  "pde_write s k v = s\<lparr> vm_mem := wr64 (vm_mem s) (pde_addr s k) v \<rparr>"

lemma pde_write_spec:
  assumes wf: "vm_wf s" and k: "k < 2048" and t: "\<not> is_table (pde s k)" and v: "pde_ok v" "\<not> is_table v"
  shows "vm_wf (pde_write s k v)" and "same_rest s (pde_write s k v)"
    and "n < 2 ^ 20 \<Longrightarrow> page_entry (pde_write s k v) n =
      (if n div 512 = k then if v = 0 then 0 else (v AND NOT (ucast PDE_PS)) + 4096 * word_of_nat (n mod 512)
       else page_entry s n)"
    and "k' < 2048 \<Longrightarrow> pde (pde_write s k v) k' = (if k' = k then v else pde s k')"
proof -
  have st: "pde_step s k v (vm_mem s) (pde_write s k v)"
    unfolding pde_step_def pde_write_def using k t v vm_wfD(1) [OF wf] by simp
  show "vm_wf (pde_write s k v)" by (rule pde_step_wf [OF wf st])
  show "k' < 2048 \<Longrightarrow> pde (pde_write s k v) k' = (if k' = k then v else pde s k')"
    by (rule pde_step_reads(4) [OF wf st])
  show "same_rest s (pde_write s k v)"
    using pde_step_reads(3,4) [OF wf st] pde_step_kept [OF wf st] v(2) t unfolding pde_write_def
    by (intro same_rest_mem) simp_all
  assume "n < 2 ^ 20"
  from pde_step_entries [OF wf st this] v(2)
  show "page_entry (pde_write s k v) n =
      (if n div 512 = k then if v = 0 then 0 else (v AND NOT (ucast PDE_PS)) + 4096 * word_of_nat (n mod 512)
       else page_entry s n)" by simp
qed

subsection \<open>Addresses\<close>

lemma p_pde_of_eq: "p_pde_of s v = pde_addr s (unat v div 2 ^ 21)"
proof -
  have 30: "unat (drop_bit 30 v) = unat v div 2 ^ 21 div 512"
    by (simp add: drop_bit_eq_div unat_div_distrib div_mult2_eq [symmetric])
  have "drop_bit 21 v AND 0x1ff = take_bit 9 (drop_bit 21 v)"
    by (simp add: take_bit_eq_mask mask_eq_exp_minus_1)
  then have 21: "unat (drop_bit 21 v AND 0x1ff) = unat v div 2 ^ 21 mod 512"
    by (simp add: drop_bit_eq_div unat_div_distrib take_bit_eq_mod unat_mod_distrib)
  show ?thesis
    unfolding p_pde_of_def Let_def pde_addr_def pd_base_def pdpte_def 30 21 ..
qed

lemma pti_eq: "unat (drop_bit 12 (v :: u32) AND 0x1ff) = unat v div 2 ^ 12 mod 512"
proof -
  have "drop_bit 12 v AND 0x1ff = take_bit 9 (drop_bit 12 v)"
    by (simp add: take_bit_eq_mask mask_eq_exp_minus_1)
  then show ?thesis
    by (simp add: drop_bit_eq_div unat_div_distrib take_bit_eq_mod unat_mod_distrib)
qed

subsection \<open>Entries for mapped pages\<close>

text \<open>Only the cache attributes may be asked for.\<close>

definition flags_ok :: "u32 \<Rightarrow> bool" where
  "flags_ok fl \<longleftrightarrow> fl AND NOT (PTE_WT OR PTE_CD) = 0"

definition map_entry :: "nat \<Rightarrow> u32 \<Rightarrow> u64" where
  "map_entry q fl = word_of_nat (4096 * q) OR ucast PTE_P OR ucast PTE_RW OR ucast PTE_US OR ucast fl"

lemma flags_bits: "flags_ok fl \<Longrightarrow> bit fl i \<Longrightarrow> i = 3 \<or> i = 4"
proof -
  assume ok: "flags_ok fl" and b: "bit fl i"
  have "\<not> bit (fl AND NOT (PTE_WT OR PTE_CD)) i" using ok by (simp add: flags_ok_def)
  then have "bit (PTE_WT OR PTE_CD) i" using b bit_imp_le_length [OF b] by (simp add: bit_simps)
  then have "bit PTE_WT i \<or> bit PTE_CD i" by (simp add: bit_or_iff)
  moreover have "bit PTE_WT i \<longleftrightarrow> i = 3" "bit PTE_CD i \<longleftrightarrow> i = 4"
    using bit_exp_iff [of 3 i, where ?'a = "32 word"] bit_exp_iff [of 4 i, where ?'a = "32 word"]
    by (auto simp: pg_consts)
  ultimately show ?thesis by blast
qed

text \<open>Present, writable, user, and the attributes.\<close>

definition flag_bits :: "u32 \<Rightarrow> u64" where
  "flag_bits fl = ucast PTE_P OR ucast PTE_RW OR ucast PTE_US OR ucast fl"

lemma bit_flag_bits: "flags_ok fl \<Longrightarrow> bit (flag_bits fl) i \<longleftrightarrow> i < 3 \<or> i < 64 \<and> bit fl i"
proof -
  have "ucast PTE_P OR ucast PTE_RW OR ucast PTE_US = (mask 3 :: u64)" by code_simp
  then have "flag_bits fl = mask 3 OR ucast fl" by (simp add: flag_bits_def or.assoc [symmetric])
  then show ?thesis by (auto simp: bit_simps bit_mask_iff)
qed

lemma flag_bits_low: "flags_ok fl \<Longrightarrow> bit (flag_bits fl) i \<Longrightarrow> i < 5"
  using flags_bits [of fl i] by (auto simp: bit_flag_bits)

lemma page_addr_bits: "bit (word_of_nat (4096 * q) :: u64) i \<Longrightarrow> 12 \<le> i"
proof -
  have "(word_of_nat (4096 * q) :: u64) = push_bit 12 (word_of_nat q)"
    by (simp add: push_bit_eq_mult mult.commute)
  then show "bit (word_of_nat (4096 * q) :: u64) i \<Longrightarrow> 12 \<le> i" by (simp add: bit_simps)
qed

lemma map_entry_add:
  assumes "flags_ok fl"
  shows "map_entry q fl = word_of_nat (4096 * q) + flag_bits fl"
proof -
  have "word_of_nat (4096 * q) AND flag_bits fl = 0"
    using page_addr_bits flag_bits_low [OF assms] by (intro bit_word_eqI) (fastforce simp: bit_simps)
  then have "word_of_nat (4096 * q) + flag_bits fl = word_of_nat (4096 * q) OR flag_bits fl"
    by (rule disjunctive_add_eq_or)
  then show ?thesis by (simp add: map_entry_def flag_bits_def or.assoc)
qed

text \<open>The entry of a large page, and the small pages it stands for.\<close>

definition large_entry :: "u64 \<Rightarrow> u32 \<Rightarrow> u64" where
  "large_entry pstart fl = pstart OR ucast PTE_P OR ucast PTE_RW OR ucast PTE_US OR ucast PDE_PS OR ucast fl"

lemma large_entry_spec:
  assumes "flags_ok fl" and "512 dvd q" and e: "e = large_entry (word_of_nat (4096 * q)) fl"
  shows "\<not> is_table e" and "e \<noteq> 0" and "pde_ok e"
    and "(e AND NOT (ucast PDE_PS)) + 4096 * word_of_nat j = map_entry (q + j) fl"
proof -
  let ?a = "word_of_nat (4096 * q) :: u64"
  have PS: "ucast PDE_PS = (2 ^ 7 :: u64)" by (simp add: PDE_PS_def)
  have e2: "e = ?a OR flag_bits fl OR 2 ^ 7"
    unfolding e large_entry_def flag_bits_def PS by (simp only: or.assoc or.commute or.left_commute)
  obtain d where d: "q = 512 * d" using assms(2) by (elim dvdE)
  have "?a = push_bit 21 (word_of_nat d)" unfolding d by (simp add: push_bit_eq_mult mult.commute)
  then have a21: "bit ?a i \<Longrightarrow> 21 \<le> i" for i by (simp add: bit_simps)
  have b: "bit e i \<longleftrightarrow> bit ?a i \<or> bit (flag_bits fl) i \<or> i = 7" for i
    unfolding e2 using bit_exp_iff [of 7 i, where ?'a = "64 word"] by (auto simp: bit_or_iff)
  have "bit (e AND ucast PDE_PS) 7" unfolding PS using b by (simp add: bit_simps)
  then have ps: "e AND ucast PDE_PS \<noteq> 0" by auto
  then show t: "\<not> is_table e" by (simp add: is_table_def)
  have b0: "bit e 0" using b assms(1) by (simp add: bit_flag_bits)
  then show "e \<noteq> 0" by auto
  have "e AND 0x1ff000 = 0"
  proof (rule bit_word_eqI)
    fix i
    have m: "(0x1ff000 :: u64) = push_bit 12 (mask 9)" by code_simp
    have "bit (0x1ff000 :: u64) i \<longleftrightarrow> 12 \<le> i \<and> i < 21"
      unfolding m bit_push_bit_iff bit_mask_iff by auto
    then show "bit (e AND 0x1ff000) i = bit (0 :: u64) i"
      using b a21 [of i] flag_bits_low [OF assms(1), of i] by (auto simp: bit_and_iff)
  qed
  then show "pde_ok e" using t b0 by (simp add: pde_ok_def)
  have "e AND NOT (ucast PDE_PS) = ?a OR flag_bits fl"
  proof (rule bit_word_eqI)
    fix i :: nat
    assume "i < LENGTH(64)"
    then show "bit (e AND NOT (ucast PDE_PS)) i = bit (?a OR flag_bits fl) i"
      unfolding PS bit_and_iff bit_or_iff bit_not_iff bit_exp_iff b
      using a21 [of 7] flag_bits_low [OF assms(1), of 7] by auto
  qed
  also have "\<dots> = ?a + flag_bits fl"
    using map_entry_add [OF assms(1), of q] by (simp add: map_entry_def flag_bits_def or.assoc)
  finally show "(e AND NOT (ucast PDE_PS)) + 4096 * word_of_nat j = map_entry (q + j) fl"
    using map_entry_add [OF assms(1), of "q + j"] by (simp add: distrib_left)
qed

subsection \<open>Mapping\<close>

text \<open>What mapping \<open>c\<close> pages from page \<open>vp\<close> on to physical page \<open>pp\<close> on does.\<close>

definition is_large :: "u64 \<Rightarrow> bool" where
  "is_large e \<longleftrightarrow> e AND ucast PDE_PS \<noteq> 0"

definition mapped :: "vm \<Rightarrow> nat \<Rightarrow> nat \<Rightarrow> nat \<Rightarrow> u32 \<Rightarrow> vm \<Rightarrow> bool" where
  "mapped s vp pp c fl s' \<longleftrightarrow> vm_wf s' \<and> same_rest s s' \<and>
     (\<forall>n<2 ^ 20. page_entry s' n =
        (if vp \<le> n \<and> n < vp + c then map_entry (pp + (n - vp)) fl else page_entry s n)) \<and>
     (\<forall>k<2048. is_large (pde s' k) \<longrightarrow> is_large (pde s k) \<or> vp \<le> 512 * k \<and> 512 * k + 512 \<le> vp + c)"

lemma mapped_0: "vm_wf s \<Longrightarrow> mapped s vp pp 0 fl s"
  by (auto simp: mapped_def same_rest_refl)

lemma mapped_trans:
  assumes "mapped s vp pp d fl s1" and "mapped s1 (vp + d) (pp + d) c fl s2"
  shows "mapped s vp pp (d + c) fl s2"
proof -
  have "page_entry s2 n =
      (if vp \<le> n \<and> n < vp + (d + c) then map_entry (pp + (n - vp)) fl else page_entry s n)" if "n < 2 ^ 20" for n
    using assms that by (auto simp: mapped_def)
  moreover have "is_large (pde s k) \<or> vp \<le> 512 * k \<and> 512 * k + 512 \<le> vp + (d + c)"
    if "k < 2048" "is_large (pde s2 k)" for k
  proof -
    have "is_large (pde s1 k) \<or> vp + d \<le> 512 * k \<and> 512 * k + 512 \<le> vp + d + c"
      using assms(2) that by (simp add: mapped_def)
    moreover have "is_large (pde s1 k) \<longrightarrow> is_large (pde s k) \<or> vp \<le> 512 * k \<and> 512 * k + 512 \<le> vp + d"
      using assms(1) that by (simp add: mapped_def)
    ultimately show ?thesis by linarith
  qed
  ultimately show ?thesis using assms same_rest_trans [of s s1 s2] by (simp add: mapped_def)
qed

lemma map_large:
  assumes wf: "vm_wf s" and fl: "flags_ok fl" and v: "512 dvd vp" "vp + 512 \<le> 2 ^ 20" and p: "512 dvd pp"
    and t: "\<not> is_table (pde s (vp div 512))"
  shows "mapped s vp pp 512 fl (pde_write s (vp div 512) (large_entry (word_of_nat (4096 * pp)) fl))"
proof -
  let ?k = "vp div 512" and ?e = "large_entry (word_of_nat (4096 * pp)) fl"
  note e = large_entry_spec [OF fl p refl]
  have k: "?k < 2048" using v(2) by (simp add: less_mult_imp_div_less)
  note w = pde_write_spec [OF wf k t e(3,1)]
  have range: "vp \<le> n \<and> n < vp + 512 \<longleftrightarrow> n div 512 = ?k" for n
    using v(1) by (elim dvdE) (simp, linarith)
  have "page_entry (pde_write s ?k ?e) n =
      (if vp \<le> n \<and> n < vp + 512 then map_entry (pp + (n - vp)) fl else page_entry s n)" if n: "n < 2 ^ 20" for n
  proof (cases "n div 512 = ?k")
    case True
    then have "n - vp = n mod 512" using v(1) by (metis dvd_div_mult_self minus_div_mult_eq_mod)
    then show ?thesis unfolding range w(3) [OF n] e(4) using True e(2) by simp
  next
    case False
    then show ?thesis unfolding range w(3) [OF n] by simp
  qed
  moreover have "vp \<le> 512 * ?k \<and> 512 * ?k + 512 \<le> vp + 512" using v(1) by simp
  ultimately show ?thesis using w(1,2,4) by (simp add: mapped_def)
qed

lemma map_small:
  assumes wf: "vm_wf s" and vp: "vp < 2 ^ 20"
  shows "\<exists>r. ensure_pt s (pde_addr s (vp div 512)) = Some r \<and>
    (\<forall>pt s1. r = Inr (pt, s1) \<longrightarrow>
       mapped s vp pp 1 fl
         (s1\<lparr> vm_mem := wr64 (vm_mem s1) (unat pt + 8 * (vp mod 512)) (map_entry pp fl) \<rparr>)) \<and>
    (\<forall>e. r = Inl e \<longrightarrow> vm_error s e)"
proof -
  let ?k = "vp div 512"
  have k: "?k < 2048" using vp by (simp add: less_mult_imp_div_less)
  obtain r where r: "ensure_pt s (pde_addr s ?k) = Some r"
    and sp: "\<And>pt s'. r = Inr (pt, s') \<Longrightarrow> vm_wf s' \<and> same_rest s s' \<and> is_table (pde s' ?k) \<and>
       pt_base (pde s' ?k) = unat pt \<and> (\<forall>n<2 ^ 20. page_entry s' n = page_entry s n) \<and>
       (\<forall>k'<2048. k' \<noteq> ?k \<longrightarrow> pde s' k' = pde s k')"
    and err: "\<And>e. r = Inl e \<Longrightarrow> vm_error s e"
    using ensure_pt_spec [OF wf k] one_page_error [OF k, of s] by (metis (no_types, lifting))
  have "mapped s vp pp 1 fl (s1\<lparr> vm_mem := wr64 (vm_mem s1) (unat pt + 8 * (vp mod 512)) (map_entry pp fl) \<rparr>)"
    if "r = Inr (pt, s1)" for pt s1
  proof -
    note h = sp [OF that]
    have w: "s1\<lparr> vm_mem := wr64 (vm_mem s1) (unat pt + 8 * (vp mod 512)) (map_entry pp fl) \<rparr> =
        pte_write s1 ?k (vp mod 512) (map_entry pp fl)" using h by (simp add: pte_write_def)
    have pw: "vm_wf (pte_write s1 ?k (vp mod 512) v)" "same_rest s1 (pte_write s1 ?k (vp mod 512) v)"
      "n < 2 ^ 20 \<Longrightarrow> page_entry (pte_write s1 ?k (vp mod 512) v) n =
        (if n = 512 * ?k + vp mod 512 then v else page_entry s1 n)"
      "k' < 2048 \<Longrightarrow> pde (pte_write s1 ?k (vp mod 512) v) k' = pde s1 k'" for v n k'
      using pte_write_spec [of s1 ?k "vp mod 512"] h k by simp_all
    have "is_large (pde s1 k') \<longrightarrow> is_large (pde s k')" if "k' < 2048" for k'
      using h that by (cases "k' = ?k") (auto simp: is_table_def is_large_def)
    moreover
    have "vp \<le> n \<and> n < vp + 1 \<longleftrightarrow> n = 512 * ?k + vp mod 512" for n by auto
    moreover have "same_rest s (pte_write s1 ?k (vp mod 512) (map_entry pp fl))"
      using h pw(2) by (blast intro: same_rest_trans)
    ultimately show ?thesis unfolding w mapped_def using pw h by simp
  qed
  then show ?thesis using r err by blast
qed

lemma unat_page_add:
  assumes "unat (v :: u32) = 4096 * vp" and "vp + d < 2 ^ 20"
  shows "unat (v + word_of_nat (4096 * d)) = 4096 * (vp + d)"
proof -
  have "unat (word_of_nat (4096 * d) :: u32) = 4096 * d" using assms(2) by (simp add: unat_of_nat del: of_nat_mult)
  then show ?thesis using assms by (subst unat_add_nowrap) simp_all
qed

lemma do_va_map_spec:
  assumes "vm_wf s" and "flags_ok fl" and "unat vstart = 4096 * vp" and "unat len = 4096 * c"
    and "vp + c \<le> 2 ^ 20" and "pstart = word_of_nat (4096 * pp)" and "pp + c \<le> 2 ^ 52"
  shows "\<exists>r. do_va_map s vstart pstart len fl = Some r \<and> (\<forall>s'. r = Inr s' \<longrightarrow> mapped s vp pp c fl s') \<and>
    (\<forall>e. r = Inl e \<longrightarrow> vm_error s e)"
  using assms
proof (induction c arbitrary: s vstart pstart len vp pp rule: less_induct)
  case (less c)
  show ?case
  proof (cases "c = 0")
    case True
    then have "len = 0" using less.prems(4) by (simp add: unat_eq_0)
    then show ?thesis using True less.prems(1) mapped_0 by (subst do_va_map.simps) simp
  next
    case False
    then have len: "len \<noteq> 0" using less.prems(4) by (auto simp: unat_eq_0 [symmetric])
    have next_step: "\<exists>r. do_va_map s1 (vstart + word_of_nat (4096 * d)) (pstart + word_of_nat (4096 * d))
          (len - word_of_nat (4096 * d)) fl = Some r \<and> (\<forall>s'. r = Inr s' \<longrightarrow> mapped s vp pp c fl s') \<and>
          (\<forall>e. r = Inl e \<longrightarrow> vm_error s e)"
      if m: "mapped s vp pp d fl s1" and d: "0 < d" "d \<le> c" "d \<le> 512" for d s1
    proof -
      have d32: "unat (word_of_nat (4096 * d) :: u32) = 4096 * d"
        using d less.prems(5) by (simp add: unat_of_nat del: of_nat_mult)
      have l: "unat (len - word_of_nat (4096 * d)) = 4096 * (c - d)"
        using d less.prems(4) d32 by (subst unat_sub) (simp_all add: word_le_nat_alt diff_mult_distrib2)
      have p: "pstart + word_of_nat (4096 * d) = word_of_nat (4096 * (pp + d))"
        using less.prems(6) by (simp add: distrib_left)
      show ?thesis
      proof (cases "c = d")
        case True
        then have "len - word_of_nat (4096 * d) = 0" using l by (simp add: unat_eq_0 [symmetric])
        then show ?thesis using m True by (subst do_va_map.simps) simp
      next
        case False
        then have "unat (vstart + word_of_nat (4096 * d)) = 4096 * (vp + d)"
          using d less.prems(3,5) by (intro unat_page_add) simp_all
        moreover have "vm_wf s1" using m by (simp add: mapped_def)
        ultimately have "\<exists>r. do_va_map s1 (vstart + word_of_nat (4096 * d)) (pstart + word_of_nat (4096 * d))
            (len - word_of_nat (4096 * d)) fl = Some r \<and>
            (\<forall>s'. r = Inr s' \<longrightarrow> mapped s1 (vp + d) (pp + d) (c - d) fl s') \<and> (\<forall>e. r = Inl e \<longrightarrow> vm_error s1 e)"
          using d False less.prems l p by (intro less.IH) simp_all
        moreover have "pages_taken s s1" using m by (simp add: mapped_def same_rest_def)
        ultimately show ?thesis using mapped_trans [OF m, of "c - d"] d vm_error_later [of s s1] by (simp, blast)
      qed
    qed
    let ?k = "vp div 512"
    have p_pde: "p_pde_of s vstart = pde_addr s ?k" using less.prems(3) by (simp add: p_pde_of_eq)
    have pti: "unat (drop_bit 12 vstart AND 0x1ff) = vp mod 512" unfolding pti_eq using less.prems(3) by simp
    have sizes: "LARGE_PAGE_SIZE = word_of_nat (4096 * 512)" "PAGE_SIZE = word_of_nat (4096 * 1)"
      "ucast LARGE_PAGE_SIZE = (word_of_nat (4096 * 512) :: u64)" "ucast PAGE_SIZE = (word_of_nat (4096 * 1) :: u64)"
      by (simp_all add: pg_consts)
    let ?large = "vstart mod LARGE_PAGE_SIZE = 0 \<and> pstart mod ucast LARGE_PAGE_SIZE = 0 \<and>
      len \<ge> LARGE_PAGE_SIZE \<and> (pde s ?k = 0 \<or> pde s ?k AND ucast PDE_PS \<noteq> 0)"
    show ?thesis
    proof (cases ?large)
      case True
      have vd: "512 dvd vp"
        using True less.prems(3) by (auto simp: word_unat_eq_iff unat_mod_distrib LARGE_PAGE_SIZE_def)
      have "4096 * pp < 2 ^ 64" using less.prems(7) False by simp
      then have "unat pstart = 4096 * pp" unfolding less.prems(6) by (simp add: unat_of_nat del: of_nat_mult)
      then have pd: "512 dvd pp"
        using True by (auto simp: word_unat_eq_iff unat_mod_distrib LARGE_PAGE_SIZE_def)
      have c: "512 \<le> c" using True less.prems(4) by (simp add: word_le_nat_alt LARGE_PAGE_SIZE_def)
      have "\<not> is_table (pde s ?k)" using True by (auto simp: is_table_def)
      from map_large [OF less.prems(1,2) vd _ pd this] less.prems(5,6) c
      have m: "mapped s vp pp 512 fl (pde_write s ?k (large_entry pstart fl))" by simp
      have "do_va_map s vstart pstart len fl = do_va_map (pde_write s ?k (large_entry pstart fl))
          (vstart + word_of_nat (4096 * 512)) (pstart + word_of_nat (4096 * 512))
          (len - word_of_nat (4096 * 512)) fl"
        using True len unfolding sizes [symmetric]
        by (subst do_va_map.simps) (simp add: p_pde pde_def [symmetric] pde_write_def large_entry_def Let_def)
      then show ?thesis using next_step [OF m _ c] by simp
    next
      case small: False
      have vp: "vp < 2 ^ 20" using less.prems(5) False by simp
      obtain r where r: "ensure_pt s (pde_addr s ?k) = Some r"
        and sp: "\<And>pt s1. r = Inr (pt, s1) \<Longrightarrow> mapped s vp pp 1 fl
           (s1\<lparr> vm_mem := wr64 (vm_mem s1) (unat pt + 8 * (vp mod 512)) (map_entry pp fl) \<rparr>)"
        and err: "\<And>e. r = Inl e \<Longrightarrow> vm_error s e"
        using map_small [OF less.prems(1) vp] by blast
      have entry: "pstart OR ucast PTE_P OR ucast PTE_RW OR ucast PTE_US OR ucast fl = map_entry pp fl"
        by (simp add: map_entry_def less.prems(6))
      have run: "do_va_map s vstart pstart len fl = bindo (Some r) (\<lambda>(pt, s1).
          do_va_map (s1\<lparr> vm_mem := wr64 (vm_mem s1) (unat pt + 8 * (vp mod 512)) (map_entry pp fl) \<rparr>)
            (vstart + word_of_nat (4096 * 1)) (pstart + word_of_nat (4096 * 1))
            (len - word_of_nat (4096 * 1)) fl)"
        using small len unfolding sizes(2,4) [symmetric]
        by (subst do_va_map.simps) (simp only: p_pde pde_def [symmetric] pti entry r Let_def if_False)
      show ?thesis
      proof (cases r)
        case (Inl e)
        then show ?thesis using run err by simp
      next
        case (Inr x)
        obtain pt s1 where x: "x = (pt, s1)" by (cases x)
        show ?thesis using next_step [OF sp [OF Inr [unfolded x]]] False unfolding run Inr x by simp
      qed
    qed
  qed
qed

subsection \<open>Unmapping\<close>

text \<open>A large page that the \<open>c\<close> pages from \<open>vp\<close> on cover only in part is left as it is.\<close>

definition kept_large :: "vm \<Rightarrow> nat \<Rightarrow> nat \<Rightarrow> nat \<Rightarrow> bool" where
  "kept_large s vp c n \<longleftrightarrow>
     (let k = n div 512 in is_large (pde s k) \<and> (512 * k < vp \<or> vp + c < 512 * k + 512))"

definition unmapped :: "vm \<Rightarrow> nat \<Rightarrow> nat \<Rightarrow> vm \<Rightarrow> bool" where
  "unmapped s vp c s' \<longleftrightarrow> vm_wf s' \<and> same_rest s s' \<and>
     (\<forall>n<2 ^ 20. page_entry s' n =
        (if vp \<le> n \<and> n < vp + c \<and> \<not> kept_large s vp c n then 0 else page_entry s n)) \<and>
     (\<forall>k<2048. is_large (pde s' k) \<longrightarrow> is_large (pde s k))"

text \<open>A step over one page, which is not the start of a large page that is covered.\<close>

lemma unmapped_page:
  assumes s1: "same_rest s s1" and c: "0 < c"
    and no: "\<not> (is_large (pde s (vp div 512)) \<and> 512 dvd vp \<and> 512 \<le> c)"
    and same: "\<forall>k<2048. pde s1 k = pde s k"
    and e: "\<forall>n<2 ^ 20. page_entry s1 n = (if n = vp \<and> \<not> is_large (pde s (n div 512)) then 0 else page_entry s n)"
    and rest: "unmapped s1 (vp + 1) (c - 1) s'"
  shows "unmapped s vp c s'"
proof -
  have "page_entry s' n = (if vp \<le> n \<and> n < vp + c \<and> \<not> kept_large s vp c n then 0 else page_entry s n)"
    if n: "n < 2 ^ 20" for n
  proof -
    let ?k = "n div 512"
    have k: "?k < 2048" using n by (simp add: less_mult_imp_div_less)
    have s': "page_entry s' n =
        (if vp + 1 \<le> n \<and> n < vp + c \<and> \<not> kept_large s1 (vp + 1) (c - 1) n then 0 else page_entry s1 n)"
      using rest n c by (simp add: unmapped_def)
    have at: "kept_large s vp c n = is_large (pde s ?k)" if "n = vp"
    proof -
      have "512 * ?k \<le> vp" and "512 * ?k = vp \<Longrightarrow> 512 dvd vp" using that by (simp, metis dvd_triv_left)
      then have "512 * ?k < vp \<or> vp + c < 512 * ?k + 512" if "is_large (pde s ?k)"
        using no that \<open>n = vp\<close> by (cases "512 dvd vp") (auto simp: nat_less_le)
      then show ?thesis by (auto simp: kept_large_def Let_def)
    qed
    have after: "kept_large s1 (vp + 1) (c - 1) n = kept_large s vp c n" if "vp < n"
    proof (cases "512 * ?k = vp")
      case True
      then have "vp div 512 = ?k" "512 dvd vp" by (metis nonzero_mult_div_cancel_left zero_neq_numeral, metis dvd_triv_left)
      then show ?thesis using True no same k c by (auto simp: kept_large_def Let_def)
    next
      case False
      then have "512 * ?k < vp + 1 \<longleftrightarrow> 512 * ?k < vp" by linarith
      then show ?thesis using same k c by (simp add: kept_large_def Let_def)
    qed
    consider "n < vp" | "n = vp" | "vp < n" by linarith
    then show ?thesis
    proof cases
      case 2
      then show ?thesis using s' e n at c by simp
    next
      case 3
      then show ?thesis using s' e n after by simp
    qed (use s' e n in simp)
  qed
  moreover have "\<forall>k<2048. is_large (pde s' k) \<longrightarrow> is_large (pde s k)"
    using rest same by (metis unmapped_def)
  ultimately show ?thesis using rest same_rest_trans [OF s1] by (simp add: unmapped_def)
qed

text \<open>A step over a large page that is covered.\<close>

lemma unmapped_large:
  assumes wf: "vm_wf s" and v: "512 dvd vp" "vp + 512 \<le> 2 ^ 20" and c: "512 \<le> c"
    and large: "is_large (pde s (vp div 512))"
    and rest: "unmapped (pde_write s (vp div 512) 0) (vp + 512) (c - 512) s'"
  shows "unmapped s vp c s'"
proof -
  let ?k = "vp div 512" and ?s1 = "pde_write s (vp div 512) 0"
  have k: "?k < 2048" using v(2) by (simp add: less_mult_imp_div_less)
  have t: "\<not> is_table (pde s ?k)" using large by (simp add: is_table_def is_large_def)
  have ok: "pde_ok 0" "\<not> is_table 0" by (simp_all add: pde_ok_def is_table_def)
  note w = pde_write_spec [OF wf k t ok]
  have range: "n div 512 = ?k \<longleftrightarrow> vp \<le> n \<and> n < vp + 512" for n
    using v(1) by (elim dvdE) (simp, linarith)
  have "page_entry s' n = (if vp \<le> n \<and> n < vp + c \<and> \<not> kept_large s vp c n then 0 else page_entry s n)"
    if n: "n < 2 ^ 20" for n
  proof -
    have kn: "n div 512 < 2048" using n by (simp add: less_mult_imp_div_less)
    have s': "page_entry s' n =
        (if vp + 512 \<le> n \<and> n < vp + c \<and> \<not> kept_large ?s1 (vp + 512) (c - 512) n then 0 else page_entry ?s1 n)"
      using rest n c by (simp add: unmapped_def)
    show ?thesis
    proof (cases "n div 512 = ?k")
      case True
      then have "512 * (n div 512) = vp" using v(1) by auto
      then have "\<not> kept_large s vp c n" using c by (simp add: kept_large_def Let_def)
      then show ?thesis using s' w(3) [OF n] True range [of n] c by simp
    next
      case False
      have "kept_large ?s1 (vp + 512) (c - 512) n = kept_large s vp c n" if "vp + 512 \<le> n"
      proof -
        have "?k + 1 \<le> n div 512" using div_le_mono [OF that, of 512] by simp
        moreover have "512 * ?k = vp" using v(1) by simp
        ultimately have "\<not> 512 * (n div 512) < vp + 512" and "\<not> 512 * (n div 512) < vp" by linarith+
        then show ?thesis using w(4) [OF kn] False c by (simp add: kept_large_def Let_def)
      qed
      then show ?thesis using s' w(3) [OF n] False range [of n] by auto
    qed
  qed
  moreover have "is_large (pde s' k') \<longrightarrow> is_large (pde s k')" if "k' < 2048" for k'
    using rest that large w(4) [OF that] by (cases "k' = ?k") (auto simp: unmapped_def)
  ultimately show ?thesis using rest same_rest_trans [OF w(2)] by (simp add: unmapped_def)
qed

lemma unmapped_0: "vm_wf s \<Longrightarrow> unmapped s vp 0 s"
  by (auto simp: unmapped_def same_rest_refl)

lemma do_va_unmap_spec:
  assumes "vm_wf s" and "unat vstart = 4096 * vp" and "unat len = 4096 * c" and "vp + c \<le> 2 ^ 20"
  shows "\<exists>s'. do_va_unmap s vstart len = Some s' \<and> unmapped s vp c s'"
  using assms
proof (induction c arbitrary: s vstart len vp rule: less_induct)
  case (less c)
  show ?case
  proof (cases "c = 0")
    case True
    then have "len = 0" using less.prems(3) by (simp add: unat_eq_0)
    then show ?thesis using True less.prems(1) unmapped_0 by (subst do_va_unmap.simps) simp
  next
    case False
    then have len: "len \<noteq> 0" using less.prems(3) by (auto simp: unat_eq_0 [symmetric])
    have next_step: "\<exists>s'. do_va_unmap s1 (vstart + word_of_nat (4096 * d)) (len - word_of_nat (4096 * d)) = Some s' \<and>
        unmapped s1 (vp + d) (c - d) s'"
      if wf: "vm_wf s1" and d: "0 < d" "d \<le> c" "d \<le> 512" for d s1
    proof -
      have d32: "unat (word_of_nat (4096 * d) :: u32) = 4096 * d"
        using d less.prems(4) by (simp add: unat_of_nat del: of_nat_mult)
      have l: "unat (len - word_of_nat (4096 * d)) = 4096 * (c - d)"
        using d less.prems(3) d32 by (subst unat_sub) (simp_all add: word_le_nat_alt diff_mult_distrib2)
      show ?thesis
      proof (cases "c = d")
        case True
        then have "len - word_of_nat (4096 * d) = 0" using l by (simp add: unat_eq_0 [symmetric])
        then show ?thesis using wf True unmapped_0 by (subst do_va_unmap.simps) simp
      next
        case False
        then have "unat (vstart + word_of_nat (4096 * d)) = 4096 * (vp + d)"
          using d less.prems(2,4) by (intro unat_page_add) simp_all
        then show ?thesis using d False less.prems wf l by (intro less.IH) simp_all
      qed
    qed
    let ?k = "vp div 512"
    have vp: "vp < 2 ^ 20" using less.prems(4) False by simp
    then have k: "?k < 2048" by (simp add: less_mult_imp_div_less)
    have p_pde: "p_pde_of s vstart = pde_addr s ?k" using less.prems(2) by (simp add: p_pde_of_eq)
    have pti: "unat (drop_bit 12 vstart AND 0x1ff) = vp mod 512" unfolding pti_eq using less.prems(2) by simp
    have sizes: "LARGE_PAGE_SIZE = word_of_nat (4096 * 512)" "PAGE_SIZE = word_of_nat (4096 * 1)"
      by (simp_all add: pg_consts)
    have vl: "vstart mod LARGE_PAGE_SIZE = 0 \<longleftrightarrow> 512 dvd vp"
      using less.prems(2) by (auto simp: word_unat_eq_iff unat_mod_distrib LARGE_PAGE_SIZE_def)
    have cl: "LARGE_PAGE_SIZE \<le> len \<longleftrightarrow> 512 \<le> c"
      using less.prems(3) by (simp add: word_le_nat_alt LARGE_PAGE_SIZE_def)
    let ?pt = "ucast (pde s ?k) AND - PAGE_SIZE :: u32"
    let ?s2 = "if pde s ?k \<noteq> 0 then s\<lparr> vm_mem := wr64 (vm_mem s) (unat ?pt + 8 * (vp mod 512)) 0 \<rparr> else s"
    have run: "do_va_unmap s vstart len =
        (if is_large (pde s ?k) then
           if 512 dvd vp \<and> 512 \<le> c
           then do_va_unmap (pde_write s ?k 0) (vstart + LARGE_PAGE_SIZE) (len - LARGE_PAGE_SIZE)
           else do_va_unmap s (vstart + PAGE_SIZE) (len - PAGE_SIZE)
         else do_va_unmap ?s2 (vstart + PAGE_SIZE) (len - PAGE_SIZE))"
      using len by (subst do_va_unmap.simps)
        (simp only: p_pde pde_def [symmetric] pti Let_def if_False pde_write_def is_large_def vl cl)
    show ?thesis
    proof (cases "is_large (pde s ?k)")
      case True
      show ?thesis
      proof (cases "512 dvd vp \<and> 512 \<le> c")
        case full: True
        have "\<not> is_table (pde s ?k)" using True by (simp add: is_table_def is_large_def)
        from pde_write_spec(1) [OF less.prems(1) k this, of 0]
        have "vm_wf (pde_write s ?k 0)" by (simp add: pde_ok_def is_table_def)
        from next_step [OF this, of 512] full obtain s' where
          "do_va_unmap (pde_write s ?k 0) (vstart + word_of_nat (4096 * 512)) (len - word_of_nat (4096 * 512)) = Some s'"
          "unmapped (pde_write s ?k 0) (vp + 512) (c - 512) s'" by auto
        then show ?thesis
          unfolding run sizes using True full unmapped_large [OF less.prems(1) _ _ _ True] less.prems(4) by simp
      next
        case part: False
        from next_step [OF less.prems(1), of 1] False obtain s' where s':
          "do_va_unmap s (vstart + word_of_nat (4096 * 1)) (len - word_of_nat (4096 * 1)) = Some s'"
          "unmapped s (vp + 1) (c - 1) s'" by auto
        have "unmapped s vp c s'"
          using part False True by (intro unmapped_page [OF same_rest_refl _ _ _ _ s'(2)]) auto
        then show ?thesis unfolding run sizes if_P [OF True] if_not_P [OF part] using s'(1) by blast
      qed
    next
      case small: False
      have s2: "vm_wf ?s2 \<and> same_rest s ?s2 \<and> (\<forall>k<2048. pde ?s2 k = pde s k) \<and>
          (\<forall>n<2 ^ 20. page_entry ?s2 n = (if n = vp then 0 else page_entry s n))"
      proof (cases "pde s ?k = 0")
        case True
        then show ?thesis using less.prems(1) same_rest_refl by (auto simp: page_entry_def)
      next
        case nz: False
        then have t: "is_table (pde s ?k)" using small by (simp add: is_table_def is_large_def)
        have "?s2 = pte_write s ?k (vp mod 512) 0" using nz by (simp add: pte_write_def pt_base_def)
        moreover have "n = 512 * ?k + vp mod 512 \<longleftrightarrow> n = vp" for n by simp
        ultimately show ?thesis using pte_write_spec [OF less.prems(1) k t, of "vp mod 512"] by simp
      qed
      from next_step [of ?s2 1] s2 False obtain s' where s':
        "do_va_unmap ?s2 (vstart + word_of_nat (4096 * 1)) (len - word_of_nat (4096 * 1)) = Some s'"
        "unmapped ?s2 (vp + 1) (c - 1) s'" by auto
      have "unmapped s vp c s'"
      proof (rule unmapped_page [OF _ _ _ _ _ s'(2)])
        show "\<forall>n<2 ^ 20. page_entry ?s2 n = (if n = vp \<and> \<not> is_large (pde s (n div 512)) then 0 else page_entry s n)"
          using s2 small by auto
      qed (use s2 False small in auto)
      then show ?thesis using s'(1) unfolding run if_not_P [OF small] sizes(2) [symmetric] by blast
    qed
  qed
qed

end
