(* ===== verification/Page_Walk.thy ===== *)
theory Page_Walk
  imports Paging_Correct
begin

text \<open>
  The processor's side of the page tables of \<^verbatim>\<open>stage2/mem.c\<close>: the PAE page walk that
  translates a virtual address through the tables in memory. The lemmas show that the walk
  sees exactly the entries of theory \<open>Paging_Correct\<close>, whether a page is small or part of a
  large one, so that what the code does to these entries is what it does to the translation.
\<close>

unbundle bit_operations_syntax

subsection \<open>The processor's page walk\<close>

text \<open>
  PAE paging as the processor does it: the translation of \<open>va\<close> with the entry's attributes
  (present, writable, user, write-through, cache disabled), or \<open>None\<close> for a page fault.
\<close>

definition ADDR_MASK :: u64 where "ADDR_MASK = 0x000ffffffffff000"
definition LARGE_MASK :: u64 where "LARGE_MASK = 0x000fffffffe00000"

definition hw_walk :: "mem \<Rightarrow> u32 \<Rightarrow> u32 \<Rightarrow> (u64 \<times> u64) option" where
  "hw_walk m root va =
     (let e1 = rd64 m (unat root + 8 * (unat va div 2 ^ 30)) in
      if \<not> bit e1 0 then None
      else
        let e2 = rd64 m (unat (e1 AND ADDR_MASK) + 8 * (unat va div 2 ^ 21 mod 512)) in
        if \<not> bit e2 0 then None
        else if bit e2 7 then Some ((e2 AND LARGE_MASK) OR (ucast va AND 0x1fffff), e2 AND 0x1f)
        else
          let e3 = rd64 m (unat (e2 AND ADDR_MASK) + 8 * (unat va div 2 ^ 12 mod 512)) in
          if \<not> bit e3 0 then None
          else Some ((e3 AND ADDR_MASK) OR (ucast va AND 0xfff), e3 AND 0x1f))"

lemma masks:
  "ADDR_MASK = push_bit 12 (mask 40)" "LARGE_MASK = push_bit 21 (mask 31)"
  "(0xfff :: u64) = mask 12" "(0x1fffff :: u64) = mask 21" "(0x1f :: u64) = mask 5"
  "(0xfe0 :: u64) = push_bit 5 (mask 7)" "(0x1ff000 :: u64) = push_bit 12 (mask 9)"
  "- PDPT_ALIGN = NOT (mask 5)"
  by code_simp+

lemma bit_masks:
  "bit ADDR_MASK i \<longleftrightarrow> 12 \<le> i \<and> i < 52" "bit LARGE_MASK i \<longleftrightarrow> 21 \<le> i \<and> i < 52"
  "bit (0xfff :: u64) i \<longleftrightarrow> i < 12" "bit (0x1fffff :: u64) i \<longleftrightarrow> i < 21" "bit (0x1f :: u64) i \<longleftrightarrow> i < 5"
  "bit (0xfe0 :: u64) i \<longleftrightarrow> 5 \<le> i \<and> i < 12" "bit (0x1ff000 :: u64) i \<longleftrightarrow> 12 \<le> i \<and> i < 21"
  unfolding masks bit_push_bit_iff bit_mask_iff by auto

lemma high_bits_0: "unat (e :: u64) < 2 ^ 32 \<Longrightarrow> bit e i \<Longrightarrow> i < 32"
proof (rule ccontr)
  assume e: "unat e < 2 ^ 32" "bit e i" and "\<not> i < 32"
  have "take_bit 32 (unat e) = unat e" using e(1) by (simp add: take_bit_nat_eq_self)
  moreover have "\<not> bit (take_bit 32 (unat e)) i" using \<open>\<not> i < 32\<close> by (simp add: bit_take_bit_iff)
  moreover have "bit (unat e) i" using e(2) by (simp add: bit_unsigned_iff)
  ultimately show False by simp
qed

lemma zero_bits: "e AND m = 0 \<Longrightarrow> bit (m :: u64) i \<Longrightarrow> \<not> bit e i"
  by (metis bit_0_eq bit_and_iff bot_apply bot_bool_def)

lemma pd_base_walk:
  assumes "pdpte_ok e"
  shows "unat (e AND ADDR_MASK) = unat ((ucast e :: u32) AND - PDPT_ALIGN)"
proof -
  have "e AND ADDR_MASK = ucast ((ucast e :: u32) AND - PDPT_ALIGN)"
  proof (rule bit_word_eqI)
    fix i
    have "bit e i \<Longrightarrow> i < 32" using assms high_bits_0 by (auto simp: pdpte_ok_def)
    moreover
    have "\<not> bit e i" if "5 \<le> i \<and> i < 12"
      using assms that by (intro zero_bits [of e "0xfe0"]) (simp add: pdpte_ok_def, simp only: bit_masks)
    then have "bit e i \<Longrightarrow> 5 \<le> i \<Longrightarrow> 12 \<le> i" by (meson not_le)
    ultimately show "bit (e AND ADDR_MASK) i = bit (ucast ((ucast e :: u32) AND - PDPT_ALIGN) :: u64) i"
      by (auto simp: bit_and_iff bit_masks masks(8) bit_unsigned_iff bit_not_iff bit_mask_iff)
  qed
  then show ?thesis by (simp add: unat_ucast_up)
qed

lemma pt_base_walk:
  assumes "unat e < 2 ^ 32"
  shows "unat (e AND ADDR_MASK) = pt_base e"
proof -
  have "e AND ADDR_MASK = ucast ((ucast e :: u32) AND - PAGE_SIZE)"
  proof (rule bit_word_eqI)
    fix i
    have "bit e i \<Longrightarrow> i < 32" using assms high_bits_0 by blast
    then show "bit (e AND ADDR_MASK) i = bit (ucast ((ucast e :: u32) AND - PAGE_SIZE) :: u64) i"
      by (auto simp: bit_and_iff bit_masks minus_page_size bit_unsigned_iff bit_not_iff bit_mask_iff)
  qed
  then show ?thesis by (simp add: pt_base_def unat_ucast_up)
qed

text \<open>What an entry for a page means.\<close>

definition translation :: "u64 \<Rightarrow> u32 \<Rightarrow> (u64 \<times> u64) option" where
  "translation e va =
     (if bit e 0 then Some ((e AND ADDR_MASK) OR (ucast va AND 0xfff), e AND 0x1f) else None)"

lemma bit_pti: "bit (4096 * word_of_nat (unat va div 2 ^ 12 mod 512) :: u64) i \<longleftrightarrow>
    12 \<le> i \<and> i < 21 \<and> bit (va :: u32) i"
proof -
  have "unat va div 2 ^ 12 mod 512 = unat (drop_bit 12 va AND 0x1ff)" by (rule pti_eq [symmetric])
  also have "drop_bit 12 va AND 0x1ff = take_bit 9 (drop_bit 12 va)"
    by (simp add: take_bit_eq_mask mask_eq_exp_minus_1)
  finally have "4096 * word_of_nat (unat va div 2 ^ 12 mod 512) =
      (push_bit 12 (ucast (take_bit 9 (drop_bit 12 va))) :: u64)"
    by (simp add: push_bit_eq_mult mult.commute)
  moreover have "bit (push_bit 12 (ucast (take_bit 9 (drop_bit 12 va))) :: u64) i \<longleftrightarrow>
      12 \<le> i \<and> i < 21 \<and> bit va i"
    using bit_imp_le_length [of va i]
    by (auto simp: bit_push_bit_iff bit_unsigned_iff bit_take_bit_iff bit_drop_bit_eq)
  ultimately show ?thesis by simp
qed

lemma large_walk:
  fixes e :: u64 and va :: u32
  assumes "e AND 0x1ff000 = 0" and "bit e 7"
  defines "e' \<equiv> (e AND NOT (ucast PDE_PS)) + 4096 * word_of_nat (unat va div 2 ^ 12 mod 512)"
  shows "bit e' 0 = bit e 0" and "e' AND 0x1f = e AND 0x1f"
    and "(e' AND ADDR_MASK) OR (ucast va AND 0xfff) = (e AND LARGE_MASK) OR (ucast va AND 0x1fffff)"
proof -
  have PS: "bit (ucast PDE_PS :: u64) i \<longleftrightarrow> i = 7" for i
    using bit_exp_iff [of 7 i, where ?'a = "64 word"] by (auto simp: PDE_PS_def)
  have "\<not> bit e i" if "12 \<le> i \<and> i < 21" for i
    using that by (intro zero_bits [OF assms(1)]) (simp only: bit_masks)
  then have z: "bit e i \<Longrightarrow> \<not> (12 \<le> i \<and> i < 21)" for i by blast
  have "(e AND NOT (ucast PDE_PS)) AND 4096 * word_of_nat (unat va div 2 ^ 12 mod 512) = 0"
    using z by (intro bit_word_eqI) (auto simp: bit_and_iff bit_pti [simplified])
  then have e': "e' = (e AND NOT (ucast PDE_PS)) OR 4096 * word_of_nat (unat va div 2 ^ 12 mod 512)"
    unfolding e'_def by (rule disjunctive_add_eq_or)
  have b: "bit e' i \<longleftrightarrow> bit e i \<and> i \<noteq> 7 \<or> 12 \<le> i \<and> i < 21 \<and> bit va i" for i
    using bit_imp_le_length [of e i] by (auto simp: e' bit_or_iff bit_and_iff bit_not_iff bit_pti [simplified] PS)
  show "bit e' 0 = bit e 0" by (simp add: b)
  show "e' AND 0x1f = e AND 0x1f"
  proof (rule bit_word_eqI)
    fix i :: nat
    have "bit (0x1f :: u64) i \<longleftrightarrow> i < 5" by (simp only: bit_masks)
    then show "bit (e' AND 0x1f) i = bit (e AND 0x1f) i" unfolding bit_and_iff b by linarith
  qed
  show "(e' AND ADDR_MASK) OR (ucast va AND 0xfff) = (e AND LARGE_MASK) OR (ucast va AND 0x1fffff)"
  proof (rule bit_word_eqI)
    fix i :: nat
    show "bit ((e' AND ADDR_MASK) OR (ucast va AND 0xfff)) i =
        bit ((e AND LARGE_MASK) OR (ucast va AND 0x1fffff)) i"
      unfolding bit_and_iff bit_or_iff b bit_masks bit_unsigned_iff
      using z [of i] bit_imp_le_length [of va i] by auto
  qed
qed

text \<open>The walk sees exactly the abstraction.\<close>

lemma hw_walk_entry:
  assumes wf: "vm_wf s"
  shows "hw_walk (vm_mem s) (pdpt s) va = translation (page_entry s (unat va div 4096)) va"
proof -
  let ?k = "unat va div 2 ^ 21"
  have lt: "unat va < 2 ^ 32" using unat_lt [of va] by simp
  then have k: "?k < 2048" and i: "unat va div 2 ^ 30 < 4" by (simp_all add: less_mult_imp_div_less)
  have kd: "?k div 512 = unat va div 2 ^ 30" "unat va div 4096 div 512 = ?k"
    by (simp_all add: div_mult2_eq [symmetric])
  note p = vm_wfD(4) [OF wf i]
  have e1: "rd64 (vm_mem s) (unat (pdpt s) + 8 * (unat va div 2 ^ 30)) = pdpte s (unat va div 2 ^ 30)"
    by (simp add: pdpte_def)
  have e2: "rd64 (vm_mem s) (unat (pdpte s (unat va div 2 ^ 30) AND ADDR_MASK) + 8 * (?k mod 512)) = pde s ?k"
    unfolding pde_def pde_addr_def pd_base_def kd(1) pd_base_walk [OF p] ..
  let ?e = "pde s ?k"
  note ok = vm_wfD(5) [OF wf k]
  have b7: "bit ?e 7 \<longleftrightarrow> \<not> is_table ?e" if "?e \<noteq> 0"
    using that and_exp_eq_0_iff_not_bit [of ?e 7] by (simp add: is_table_def PDE_PS_def)
  have walk: "hw_walk (vm_mem s) (pdpt s) va =
      (if \<not> bit ?e 0 then None
       else if bit ?e 7 then Some ((?e AND LARGE_MASK) OR (ucast va AND 0x1fffff), ?e AND 0x1f)
       else translation (rd64 (vm_mem s) (unat (?e AND ADDR_MASK) + 8 * (unat va div 2 ^ 12 mod 512))) va)"
    using p unfolding hw_walk_def Let_def e1 e2 by (simp add: pdpte_ok_def translation_def)
  show ?thesis
  proof (cases "?e = 0")
    case True
    then show ?thesis unfolding walk by (simp add: page_entry_def kd translation_def)
  next
    case nz: False
    then have b0: "bit ?e 0" using ok by (simp add: pde_ok_def)
    show ?thesis
    proof (cases "is_table ?e")
      case True
      then have "unat (?e AND ADDR_MASK) = pt_base ?e" using ok nz by (intro pt_base_walk) (simp add: pde_ok_def)
      then show ?thesis unfolding walk using True nz b0 b7 by (simp add: page_entry_def kd Let_def)
    next
      case False
      then have z: "?e AND 0x1ff000 = 0" using ok nz by (simp add: pde_ok_def)
      have "page_entry s (unat va div 4096) =
          (?e AND NOT (ucast PDE_PS)) + 4096 * word_of_nat (unat va div 2 ^ 12 mod 512)"
        using False nz by (simp add: page_entry_def kd Let_def)
      then show ?thesis
        unfolding walk using False nz b0 b7 large_walk [OF z, of va] by (simp add: translation_def)
    qed
  qed
qed

end
