(* ===== verification/Va_Blocks.thy ===== *)
theory Va_Blocks
  imports Page_Walk Allocator
begin

text \<open>
  Virtual address blocks of stage 2: \<^verbatim>\<open>mem_va_map\<close> and \<^verbatim>\<open>mem_va_unmap\<close> of \<^verbatim>\<open>stage2/mem.c\<close>.
  A mapped block translates to the physical bytes asked for and nothing else changes; its
  addresses come from the unused ranges (a third instance of the contract of theory
  \<open>Allocator\<close>); unmapping takes a mapping back and returns the addresses.
\<close>

unbundle bit_operations_syntax

subsection \<open>Translation of addresses\<close>

definition translate :: "vm \<Rightarrow> u32 \<Rightarrow> (u64 \<times> u64) option" where
  "translate s va = hw_walk (vm_mem s) (pdpt s) va"

lemma translate_entry:
  "vm_wf s \<Longrightarrow> translate s va = translation (page_entry s (unat va div 4096)) va"
  by (simp add: translate_def hw_walk_entry)

text \<open>The bytes of \<open>c\<close> pages.\<close>

definition page_bytes :: "nat \<Rightarrow> nat \<Rightarrow> nat set" where
  "page_bytes vp c = {4096 * vp..<4096 * (vp + c)}"

lemma in_page_bytes: "n \<in> page_bytes vp c \<longleftrightarrow> vp \<le> n div 4096 \<and> n div 4096 < vp + c"
  by (auto simp: page_bytes_def)

lemma translation_map_entry:
  assumes "flags_ok fl" and q: "q < 2 ^ 40"
  shows "translation (map_entry q fl) va = Some (word_of_nat (4096 * q + unat va mod 4096), flag_bits fl)"
proof -
  let ?a = "word_of_nat (4096 * q) :: u64" and ?e = "map_entry q fl"
  have e: "?e = ?a OR flag_bits fl" by (simp add: map_entry_def flag_bits_def or.assoc)
  note low = flag_bits_low [OF assms(1)]
  have a: "bit ?a i \<Longrightarrow> 12 \<le> i \<and> i < 52" for i
  proof -
    assume b: "bit ?a i"
    have "unat ?a = 4096 * q" using q by (simp add: unat_of_nat del: of_nat_mult)
    moreover have "bit (unat ?a) i" using b by (simp add: bit_unsigned_iff)
    moreover have "take_bit 52 (4096 * q) = 4096 * q" using q by (simp add: take_bit_nat_eq_self)
    ultimately have "i < 52" by (metis bit_take_bit_iff)
    then show ?thesis using page_addr_bits [OF b] by simp
  qed
  have "?e AND ADDR_MASK = ?a"
    by (rule bit_word_eqI) (use a low in \<open>fastforce simp: bit_and_iff bit_or_iff bit_masks e\<close>)
  moreover have "?e AND 0x1f = flag_bits fl"
  proof (rule bit_word_eqI)
    fix i :: nat
    show "bit (?e AND 0x1f) i = bit (flag_bits fl) i"
      unfolding e bit_and_iff bit_or_iff bit_masks using a [of i] low [of i] by auto
  qed
  moreover have "bit ?e 0" by (simp add: e bit_or_iff bit_flag_bits [OF assms(1)])
  moreover have "?a OR (ucast va AND 0xfff) = word_of_nat (4096 * q + unat va mod 4096)"
  proof -
    have v: "(ucast va AND 0xfff :: u64) = word_of_nat (unat va mod 4096)"
    proof (rule word_unat_eq_iff [THEN iffD2])
      have "(ucast va AND 0xfff :: u64) = take_bit 12 (ucast va)"
        by (simp add: take_bit_eq_mask mask_eq_exp_minus_1)
      then have "unat (ucast va AND 0xfff :: u64) = unat va mod 4096"
        by (simp add: take_bit_eq_mod unat_mod_distrib unat_ucast_up)
      also have "\<dots> = unat (word_of_nat (unat va mod 4096) :: u64)"
        by (simp add: unat_of_nat order.strict_trans [OF mod_less_divisor])
      finally show "unat (ucast va AND 0xfff :: u64) = unat (word_of_nat (unat va mod 4096) :: u64)" .
    qed
    have "?a AND (ucast va AND 0xfff) = 0"
    proof (rule bit_word_eqI)
      fix i :: nat
      show "bit (?a AND (ucast va AND 0xfff)) i = bit (0 :: u64) i"
        unfolding bit_and_iff bit_masks using a [of i] by auto
    qed
    then show ?thesis by (subst disjunctive_add_eq_or [symmetric]) (simp_all add: v)
  qed
  ultimately show ?thesis by (simp add: translation_def)
qed

lemma mapped_translate:
  assumes "vm_wf s" and m: "mapped s vp pp c fl s'" and "flags_ok fl" and "pp + c \<le> 2 ^ 40"
  shows "translate s' a =
    (if unat a \<in> page_bytes vp c then Some (word_of_nat (4096 * pp + (unat a - 4096 * vp)), flag_bits fl)
     else translate s a)"
proof -
  let ?n = "unat a div 4096"
  have n: "?n < 2 ^ 20" using unat_lt [of a] by (simp add: less_mult_imp_div_less)
  have s': "translate s' a = translation (page_entry s' ?n) a"
    using m by (intro translate_entry) (simp add: mapped_def)
  show ?thesis
  proof (cases "unat a \<in> page_bytes vp c")
    case True
    then have v: "vp \<le> ?n" "?n < vp + c" by (simp_all add: in_page_bytes)
    then have e: "page_entry s' ?n = map_entry (pp + (?n - vp)) fl" using m n by (simp add: mapped_def)
    have q: "pp + (?n - vp) < 2 ^ 40" using v assms(4) by linarith
    have "4096 * (pp + (?n - vp)) + unat a mod 4096 = 4096 * pp + (unat a - 4096 * vp)"
      using v mult_div_mod_eq [of 4096 "unat a"] by (simp add: algebra_simps diff_mult_distrib2)
    then show ?thesis unfolding s' e translation_map_entry [OF assms(3) q] using True by (simp only: if_True)
  next
    case False
    then have "page_entry s' ?n = page_entry s ?n" using m n unfolding in_page_bytes mapped_def by auto
    then show ?thesis using False s' translate_entry [OF assms(1)] by simp
  qed
qed

lemma unmapped_translate:
  assumes "vm_wf s" and u: "unmapped s vp c s'"
  shows "translate s' a =
    (if unat a \<in> page_bytes vp c \<and> \<not> kept_large s vp c (unat a div 4096) then None else translate s a)"
proof -
  let ?n = "unat a div 4096"
  have "?n < 2 ^ 20" using unat_lt [of a] by (simp add: less_mult_imp_div_less)
  then have "page_entry s' ?n =
      (if unat a \<in> page_bytes vp c \<and> \<not> kept_large s vp c ?n then 0 else page_entry s ?n)"
    using u by (simp add: unmapped_def in_page_bytes)
  moreover have "translate s' a = translation (page_entry s' ?n) a"
    using u by (intro translate_entry) (simp add: unmapped_def)
  moreover have "translation 0 a = None" by (simp add: translation_def)
  ultimately show ?thesis using translate_entry [OF assms(1)] by simp
qed

subsection \<open>Unused ranges\<close>

definition vr_end :: "va_range \<Rightarrow> nat" where
  "vr_end r = unat (vr_start r) + unat (vr_len r)"

definition vr_set :: "va_range \<Rightarrow> nat set" where
  "vr_set r = {unat (vr_start r)..<vr_end r}"

definition vr_ok :: "va_range \<Rightarrow> bool" where
  "vr_ok r \<longleftrightarrow> 4096 dvd unat (vr_start r) \<and> 4096 dvd unat (vr_len r) \<and> 0 < vr_start r \<and> vr_end r \<le> 2 ^ 32"

definition live_ranges :: "vm \<Rightarrow> va_range list" where
  "live_ranges s = take (unat (num_unused_va_ranges s)) (unused_va_ranges s)"

definition va_unused :: "vm \<Rightarrow> nat set" where
  "va_unused s = \<Union>(vr_set ` set (live_ranges s))"

text \<open>
  The invariant of the ranges: the array holds the live ones, which are page aligned and apart
  from each other.
\<close>

definition vrs_wf :: "vm \<Rightarrow> bool" where
  "vrs_wf s \<longleftrightarrow> num_unused_va_ranges s \<le> max_unused_va_ranges s \<and>
     length (unused_va_ranges s) = unat (max_unused_va_ranges s) \<and>
     list_all vr_ok (live_ranges s) \<and> pairwise_disjoint (map vr_set (live_ranges s))"

text \<open>The invariant: the tables are well formed, too, and no unused address translates.\<close>

definition va_wf :: "vm \<Rightarrow> bool" where
  "va_wf s \<longleftrightarrow> vm_wf s \<and> vrs_wf s \<and> (\<forall>a. unat a \<in> va_unused s \<longrightarrow> translate s a = None)"

lemma pairwise_disjoint_append:
  "pairwise_disjoint (As @ Bs) \<longleftrightarrow>
     pairwise_disjoint As \<and> pairwise_disjoint Bs \<and> (\<forall>A\<in>set As. \<forall>B\<in>set Bs. A \<inter> B = {})"
  by (induction As) (auto simp: Int_commute)

lemma pairwise_disjoint_nth:
  "pairwise_disjoint As \<Longrightarrow> i < length As \<Longrightarrow> j < length As \<Longrightarrow> i \<noteq> j \<Longrightarrow> As ! i \<inter> As ! j = {}"
proof (induction As arbitrary: i j)
  case (Cons A As)
  then show ?case by (cases i; cases j) (auto simp: Int_commute)
qed simp

lemma live_split:
  assumes "vrs_wf s" and i: "i < unat (num_unused_va_ranges s)"
  obtains xs ys where "live_ranges s = xs @ unused_va_ranges s ! i # ys"
    and "\<And>r. take (unat (num_unused_va_ranges s)) ((unused_va_ranges s)[i := r]) = xs @ r # ys"
    and "xs = take i (live_ranges s)" and "ys = drop (Suc i) (live_ranges s)"
proof
  let ?n = "unat (num_unused_va_ranges s)"
  have l: "i < length (live_ranges s)" "live_ranges s ! i = unused_va_ranges s ! i"
    using assms by (simp_all add: vrs_wf_def live_ranges_def word_le_nat_alt)
  then show "live_ranges s = take i (live_ranges s) @ unused_va_ranges s ! i # drop (Suc i) (live_ranges s)"
    by (metis id_take_nth_drop)
  show "take ?n ((unused_va_ranges s)[i := r]) = take i (live_ranges s) @ r # drop (Suc i) (live_ranges s)" for r
    using l(1) i unfolding live_ranges_def by (metis take_update_swap upd_conv_take_nth_drop)
qed simp_all

lemma in_range_unat:
  assumes "vr_ok r"
  shows "unat (vr_len r) < 2 ^ 32" "unat (vr_start r) < 2 ^ 32" "0 < unat (vr_start r)"
    "vr_len r = word_of_nat (unat (vr_len r))"
  using assms unat_lt [of "vr_len r"] unat_lt [of "vr_start r"] by (simp_all add: vr_ok_def word_less_nat_alt)

text \<open>Taking pages from the top of a range.\<close>

lemma vr_carve:
  assumes ok: "vr_ok r" and c: "4096 * c \<le> unat (vr_len r)" "0 < c"
  defines "r' \<equiv> r\<lparr> vr_len := vr_len r - word_of_nat (4096 * c) \<rparr>"
  shows "\<exists>vp. unat (vr_start r + (vr_len r - word_of_nat (4096 * c))) = 4096 * vp \<and> 0 < vp \<and>
    vp + c \<le> 2 ^ 20 \<and> vr_ok r' \<and> vr_set r = vr_set r' \<union> page_bytes vp c \<and>
    vr_set r' \<inter> page_bytes vp c = {} \<and> unat (vr_start r) \<le> 4096 * vp"
proof -
  have c32: "unat (word_of_nat (4096 * c) :: u32) = 4096 * c"
    using c(1) in_range_unat(1) [OF ok] by (simp add: unat_of_nat del: of_nat_mult)
  have l: "unat (vr_len r - word_of_nat (4096 * c)) = unat (vr_len r) - 4096 * c"
    using c c32 by (subst unat_sub) (simp_all add: word_le_nat_alt)
  have e: "unat (vr_start r) + unat (vr_len r) \<le> 2 ^ 32" using ok by (simp add: vr_ok_def vr_end_def)
  then have v: "unat (vr_start r + (vr_len r - word_of_nat (4096 * c))) =
      unat (vr_start r) + (unat (vr_len r) - 4096 * c)"
    using c l in_range_unat(1) [OF ok] by (subst unat_add_nowrap) simp_all
  have "4096 dvd unat (vr_start r) + (unat (vr_len r) - 4096 * c)"
    using ok c by (simp add: vr_ok_def)
  then obtain vp where vp: "unat (vr_start r) + (unat (vr_len r) - 4096 * c) = 4096 * vp" by (elim dvdE)
  have hi: "4096 * (vp + c) = vr_end r" using vp c by (simp add: vr_end_def)
  have "0 < vp" using vp in_range_unat(3) [OF ok] by (intro Nat.gr0I) simp
  moreover have "vp + c \<le> 2 ^ 20" using hi e by (simp add: vr_end_def)
  moreover have "unat (vr_start r) + (unat (vr_len r) - 4096 * c) \<le> 2 ^ 32" using e by linarith
  then have "vr_ok r'" using ok c l unfolding vr_ok_def r'_def vr_end_def by simp
  moreover have "vr_set r' = {unat (vr_start r)..<4096 * vp}" by (simp add: vr_set_def r'_def vr_end_def l vp del: of_nat_mult)
  moreover have "unat (vr_start r) \<le> 4096 * vp" using vp by linarith
  ultimately show ?thesis using v vp unfolding vr_set_def page_bytes_def hi [symmetric] by fastforce
qed

subsection \<open>Mapping a block\<close>

lemma flush_cr3_id [simp]: "flush_cr3 s = s"
  by (simp add: flush_cr3_def)

lemma entries_of_ranges [simp]:
  "page_entry (s\<lparr> unused_va_ranges := a \<rparr>) n = page_entry s n"
  "page_entry (s\<lparr> unused_va_ranges := a, num_unused_va_ranges := m \<rparr>) n = page_entry s n"
  "pde (s\<lparr> unused_va_ranges := a \<rparr>) k = pde s k"
  "pde (s\<lparr> unused_va_ranges := a, num_unused_va_ranges := m \<rparr>) k = pde s k"
  "translate (s\<lparr> unused_va_ranges := a \<rparr>) v = translate s v"
  "translate (s\<lparr> unused_va_ranges := a, num_unused_va_ranges := m \<rparr>) v = translate s v"
  by (simp_all add: page_entry_def pde_def pde_addr_def pd_base_def pdpte_def translate_def Let_def)

lemma vm_wf_of_ranges [simp]:
  "vm_wf (s\<lparr> unused_va_ranges := a \<rparr>) = vm_wf s"
  "vm_wf (s\<lparr> unused_va_ranges := a, num_unused_va_ranges := m \<rparr>) = vm_wf s"
proof -
  have t: "tbl_in (s\<lparr> unused_va_ranges := a \<rparr>) t = tbl_in s t"
    "tbl_bytes (s\<lparr> unused_va_ranges := a \<rparr>) t = tbl_bytes s t"
    "tbl_in (s\<lparr> unused_va_ranges := a, num_unused_va_ranges := m \<rparr>) t = tbl_in s t"
    "tbl_bytes (s\<lparr> unused_va_ranges := a, num_unused_va_ranges := m \<rparr>) t = tbl_bytes s t" for t
    by (cases t; simp add: pd_base_def pdpte_def)+
  show "vm_wf (s\<lparr> unused_va_ranges := a \<rparr>) = vm_wf s"
    "vm_wf (s\<lparr> unused_va_ranges := a, num_unused_va_ranges := m \<rparr>) = vm_wf s"
    unfolding vm_wf_def by (simp_all add: t pdpte_def)
qed

lemma tables_of_ranges [simp]:
  "tables (s\<lparr> unused_va_ranges := a \<rparr>) = tables s"
  "tables (s\<lparr> unused_va_ranges := a, num_unused_va_ranges := m \<rparr>) = tables s"
  "vm_error (s\<lparr> unused_va_ranges := a \<rparr>) e = vm_error s e"
  "pages_taken (s\<lparr> unused_va_ranges := a \<rparr>) s' = pages_taken s s'"
  "pages_taken s (s'\<lparr> unused_va_ranges := a, num_unused_va_ranges := m \<rparr>) = pages_taken s s'"
  by (simp_all add: tables_def vm_error_def pages_taken_def)

text \<open>The request is served from range \<open>j\<close>.\<close>

definition carve :: "vm \<Rightarrow> nat \<Rightarrow> nat \<Rightarrow> vm" where
  "carve s j c =
     (let r = unused_va_ranges s ! j in
      s\<lparr> unused_va_ranges := (unused_va_ranges s)[j := r\<lparr> vr_len := vr_len r - word_of_nat (4096 * c) \<rparr>] \<rparr>)"

definition served :: "vm \<Rightarrow> nat \<Rightarrow> nat \<Rightarrow> nat \<Rightarrow> u32 \<Rightarrow> u32 \<Rightarrow> vm \<Rightarrow> bool" where
  "served s j pp c fl v s' \<longleftrightarrow>
     (let r = unused_va_ranges s ! j in
      4096 * c \<le> unat (vr_len r) \<and> v = vr_start r + (vr_len r - word_of_nat (4096 * c)) \<and>
      (\<exists>vp. unat v = 4096 * vp \<and> mapped (carve s j c) vp pp c fl s'))"

text \<open>The search comes to a range, or to the halt.\<close>

lemma va_map_from_spec:
  assumes wf: "va_wf s" and fl: "flags_ok fl" and c: "0 < c" "c < 2 ^ 20" and p: "pp + c \<le> 2 ^ 52"
    and i: "i \<le> unat (num_unused_va_ranges s)"
  shows "\<exists>r. va_map_from s (word_of_nat (4096 * pp)) (word_of_nat (4096 * c)) fl i = Some r \<and>
    (\<forall>v s'. r = Inr (v, s') \<longrightarrow>
       (\<exists>j<i. served s j pp c fl v s')) \<and>
    (\<forall>e. r = Inl e \<longrightarrow> vm_error s e)"
  using i
proof (induction i)
  case 0
  show ?case by (simp add: vm_error_def)
next
  case (Suc i)
  let ?r = "unused_va_ranges s ! i"
  let ?s = "carve s i c"
  let ?v = "vr_start ?r + (vr_len ?r - word_of_nat (4096 * c))"
  have li: "i < length (unused_va_ranges s)" using Suc.prems wf by (simp add: va_wf_def vrs_wf_def word_le_nat_alt)
  have c64: "unat (word_of_nat (4096 * c) :: u64) = 4096 * c"
    and c32: "unat (word_of_nat (4096 * c) :: u32) = 4096 * c"
    using c by (simp_all add: unat_of_nat del: of_nat_mult)
  have down: "(ucast (word_of_nat (4096 * c) :: u64) :: u32) = word_of_nat (4096 * c)"
    using c c64 c32 by (simp add: word_unat_eq_iff unat_ucast_down del: of_nat_mult)
  have fits: "word_of_nat (4096 * c) \<le> (ucast (vr_len ?r) :: u64) \<longleftrightarrow> 4096 * c \<le> unat (vr_len ?r)"
    unfolding word_le_nat_alt c64 by (simp add: unat_ucast_up)
  have run: "va_map_from s (word_of_nat (4096 * pp)) (word_of_nat (4096 * c)) fl (Suc i) =
      (if 4096 * c \<le> unat (vr_len ?r)
       then bindo (do_va_map ?s ?v (word_of_nat (4096 * pp)) (word_of_nat (4096 * c)) fl)
              (\<lambda>s'. Some (Inr (?v, s')))
       else va_map_from s (word_of_nat (4096 * pp)) (word_of_nat (4096 * c)) fl i)"
    using li by (simp only: va_map_from.simps arr_get_ok bindo_simps fits carve_def Let_def down flush_cr3_id)
  show ?case
  proof (cases "4096 * c \<le> unat (vr_len ?r)")
    case True
    have "vr_ok ?r"
      using wf Suc.prems li unfolding va_wf_def vrs_wf_def list_all_length live_ranges_def by simp
    from vr_carve [OF this True c(1)] obtain vp where vp: "unat ?v = 4096 * vp" "vp + c \<le> 2 ^ 20" by blast
    have "vm_wf ?s" using wf by (simp add: va_wf_def carve_def Let_def)
    from do_va_map_spec [OF this fl vp(1) c32 vp(2) refl p] obtain r where
      r: "do_va_map ?s ?v (word_of_nat (4096 * pp)) (word_of_nat (4096 * c)) fl = Some r"
      "\<forall>s'. r = Inr s' \<longrightarrow> mapped ?s vp pp c fl s'" "\<forall>e. r = Inl e \<longrightarrow> vm_error ?s e" by blast
    show ?thesis
    proof (cases r)
      case (Inl e)
      then have "vm_error s e" using r(3) by (simp add: carve_def Let_def)
      then show ?thesis unfolding run r(1) if_P [OF True] Inl by simp
    next
      case (Inr s1)
      then have "served s i pp c fl ?v s1" using r(2) True vp(1) unfolding served_def Let_def by blast
      then show ?thesis unfolding run r(1) if_P [OF True] Inr bindo_simps by blast
    qed
  next
    case False
    from Suc.IH Suc.prems obtain r where "va_map_from s (word_of_nat (4096 * pp)) (word_of_nat (4096 * c)) fl i = Some r"
      "\<forall>v s'. r = Inr (v, s') \<longrightarrow>
       (\<exists>j<i. served s j pp c fl v s')" "\<forall>e. r = Inl e \<longrightarrow> vm_error s e"
      by (meson Suc_leD)
    then show ?thesis unfolding run if_not_P [OF False] by (meson less_SucI)
  qed
qed

text \<open>Ranges only ever grow downwards.\<close>

definition starts_kept :: "vm \<Rightarrow> vm \<Rightarrow> bool" where
  "starts_kept s s' \<longleftrightarrow> (\<forall>r\<in>set (live_ranges s). \<exists>r'\<in>set (live_ranges s'). vr_start r' \<le> vr_start r)"

text \<open>What serving a request does to the ranges and the translation.\<close>

definition block_mapped :: "vm \<Rightarrow> nat \<Rightarrow> nat \<Rightarrow> nat \<Rightarrow> u32 \<Rightarrow> vm \<Rightarrow> bool" where
  "block_mapped s vp pp c fl s' \<longleftrightarrow>
     0 < vp \<and> vp + c \<le> 2 ^ 20 \<and> va_wf s' \<and> page_bytes vp c \<subseteq> va_unused s \<and>
     va_unused s' = va_unused s - page_bytes vp c \<and>
     (\<exists>r\<in>set (live_ranges s'). unat (vr_start r) \<le> 4096 * vp) \<and> starts_kept s s' \<and>
     (\<forall>a. translate s' a =
        (if unat a \<in> page_bytes vp c then Some (word_of_nat (4096 * pp + (unat a - 4096 * vp)), flag_bits fl)
         else translate s a)) \<and>
     (\<forall>k<2048. is_large (pde s' k) \<longrightarrow> is_large (pde s k) \<or> vp \<le> 512 * k \<and> 512 * k + 512 \<le> vp + c) \<and>
     mem_kept s s' \<and> pages_taken s s'"

lemma mem_kept_ranges:
  "mem_kept (s\<lparr> unused_va_ranges := v \<rparr>) s' = mem_kept s s'"
  "mem_kept s (s'\<lparr> unused_va_ranges := v, num_unused_va_ranges := n \<rparr>) = mem_kept s s'"
proof -
  have "tbl_in (s\<lparr> unused_va_ranges := v, num_unused_va_ranges := n \<rparr>) t = tbl_in s t"
    "tbl_bytes (s\<lparr> unused_va_ranges := v, num_unused_va_ranges := n \<rparr>) t = tbl_bytes s t"
    "tbl_in (s\<lparr> unused_va_ranges := v \<rparr>) t = tbl_in s t" "tbl_bytes (s\<lparr> unused_va_ranges := v \<rparr>) t = tbl_bytes s t" for s t n
    by (cases t; simp add: pde_def pde_addr_def pd_base_def pdpte_def)+
  note tables = this
  have "vm_owned (s\<lparr> unused_va_ranges := v, num_unused_va_ranges := n \<rparr>) = vm_owned s"
    "vm_owned (s\<lparr> unused_va_ranges := v \<rparr>) = vm_owned s" for s n
    by (rule vm_owned_cong; simp add: tables)+
  then show "mem_kept (s\<lparr> unused_va_ranges := v \<rparr>) s' = mem_kept s s'"
    "mem_kept s (s'\<lparr> unused_va_ranges := v, num_unused_va_ranges := n \<rparr>) = mem_kept s s'"
    by (simp_all add: mem_kept_def)
qed

lemma served_block:
  assumes wf: "va_wf s" and j: "j < unat (num_unused_va_ranges s)" and sv: "served s j pp c fl v s'"
    and c: "0 < c" and fl: "flags_ok fl" and p: "pp + c \<le> 2 ^ 40"
  shows "\<exists>vp. unat v = 4096 * vp \<and> block_mapped s vp pp c fl s'"
proof -
  let ?r = "unused_va_ranges s ! j"
  let ?r' = "?r\<lparr> vr_len := vr_len ?r - word_of_nat (4096 * c) \<rparr>"
  let ?s = "carve s j c"
  obtain vp where v: "unat v = 4096 * vp" "v = vr_start ?r + (vr_len ?r - word_of_nat (4096 * c))"
    and m: "mapped ?s vp pp c fl s'" and l: "4096 * c \<le> unat (vr_len ?r)"
    using sv unfolding served_def Let_def by blast
  obtain xs ys where lv: "live_ranges s = xs @ ?r # ys"
    "\<And>r. take (unat (num_unused_va_ranges s)) ((unused_va_ranges s)[j := r]) = xs @ r # ys"
    using live_split [OF _ j] wf unfolding va_wf_def by metis
  have "vr_ok ?r" using wf lv(1) by (simp add: va_wf_def vrs_wf_def)
  from vr_carve [OF this l c] v have k: "0 < vp" "vp + c \<le> 2 ^ 20" "vr_ok ?r'"
    "vr_set ?r = vr_set ?r' \<union> page_bytes vp c" "vr_set ?r' \<inter> page_bytes vp c = {}"
    "unat (vr_start ?r) \<le> 4096 * vp" by auto
  obtain mp mem where s': "s' = ?s\<lparr> vm_map := mp, vm_mem := mem \<rparr>"
    using m unfolding mapped_def same_rest_def by blast
  have live': "live_ranges s' = xs @ ?r' # ys" by (simp add: s' live_ranges_def carve_def Let_def lv(2))
  have pd: "pairwise_disjoint (map vr_set (live_ranges s))" using wf by (simp add: va_wf_def vrs_wf_def)
  then have apart: "A \<inter> page_bytes vp c = {}" if "A \<in> vr_set ` set xs \<union> vr_set ` set ys" for A
    using that k(4) unfolding lv(1) by (auto simp: pairwise_disjoint_append)
  have un: "va_unused s = \<Union>(vr_set ` set xs \<union> vr_set ` set ys) \<union> vr_set ?r"
    "va_unused s' = \<Union>(vr_set ` set xs \<union> vr_set ` set ys) \<union> vr_set ?r'"
    unfolding va_unused_def live' lv(1) by auto
  have unused: "page_bytes vp c \<subseteq> va_unused s" "va_unused s' = va_unused s - page_bytes vp c"
    unfolding un k(4) using apart k(5) by blast+
  have tr: "translate s' a =
      (if unat a \<in> page_bytes vp c then Some (word_of_nat (4096 * pp + (unat a - 4096 * vp)), flag_bits fl)
       else translate s a)" for a
    using mapped_translate [OF _ m fl p, of a] wf by (simp add: va_wf_def carve_def Let_def)
  have pd': "pairwise_disjoint (map vr_set (live_ranges s'))"
    using pd k(4) unfolding live' lv(1) by (auto simp: pairwise_disjoint_append)
  have ok': "list_all vr_ok (live_ranges s')" using wf k(3) unfolding live' va_wf_def vrs_wf_def lv(1) by simp
  have "translate s' a = None" if "unat a \<in> va_unused s'" for a
    using that wf unfolding tr unused(2) va_wf_def by simp
  then have "va_wf s'"
    using pd' ok' m wf unfolding va_wf_def vrs_wf_def by (simp add: mapped_def) (simp add: s' carve_def Let_def)
  moreover have "\<forall>k<2048. is_large (pde s' k) \<longrightarrow> is_large (pde s k) \<or> vp \<le> 512 * k \<and> 512 * k + 512 \<le> vp + c"
    using m by (simp add: mapped_def carve_def Let_def)
  moreover have "unat (vr_start ?r') \<le> 4096 * vp" using k(6) by simp
  then have "\<exists>r\<in>set (live_ranges s'). unat (vr_start r) \<le> 4096 * vp" unfolding live' by auto
  moreover have "starts_kept s s'" unfolding starts_kept_def live' lv(1) by auto
  moreover have "mem_kept ?s s'" using m by (simp add: mapped_def same_rest_def)
  then have "mem_kept s s'" by (simp add: carve_def Let_def mem_kept_ranges)
  moreover have "pages_taken ?s s'" using m by (simp add: mapped_def same_rest_def)
  then have "pages_taken s s'" by (simp add: carve_def Let_def)
  ultimately show ?thesis using v(1) k(1,2) unused tr unfolding block_mapped_def by blast
qed

text \<open>The pages that the \<open>n\<close> bytes from address \<open>a\<close> on touch.\<close>

definition span :: "nat \<Rightarrow> nat \<Rightarrow> nat" where
  "span a n = (a mod 4096 + n + 4095) div 4096"

lemma span_end: "(a + n + 4095) div 4096 = a div 4096 + span a n"
proof -
  have "a + n + 4095 = (a mod 4096 + n + 4095) + a div 4096 * 4096" by simp
  then have "(a + n + 4095) div 4096 = ((a mod 4096 + n + 4095) + a div 4096 * 4096) div 4096" by simp
  also have "\<dots> = a div 4096 + (a mod 4096 + n + 4095) div 4096" by (rule div_mult_self1) simp
  finally show ?thesis by (simp add: span_def)
qed

lemma span_pos: "0 < n \<Longrightarrow> 0 < span a n"
  unfolding span_def by (simp add: div_greater_zero_iff)

lemma span_covers: "a mod 4096 + n \<le> 4096 * span a n"
  using div_times_gt [of 4096 "a mod 4096 + n + 4095"] unfolding span_def by simp

lemma unat_page_floor64: "unat (x AND - (ucast PAGE_SIZE) :: u64) = unat x div 4096 * 4096"
  using unat_and_neg_exp [of 12 x] by (simp add: PAGE_SIZE_def)

lemma mem_va_map_run:
  assumes "0 < sz" and "unat pa + unat sz \<le> 2 ^ 52"
  defines "c \<equiv> span (unat pa) (unat sz)"
  shows "mem_va_map s pa sz fl =
    (if 2 ^ 20 \<le> c then Some (Inl Hlt)
     else bindo (va_map_from s (word_of_nat (4096 * (unat pa div 4096))) (word_of_nat (4096 * c)) fl
                   (unat (num_unused_va_ranges s)))
            (\<lambda>(v, s'). Some (Inr (v + word_of_nat (unat pa mod 4096), s'))))"
proof -
  let ?start = "pa AND - (ucast PAGE_SIZE)"
  let ?fin = "(pa + ucast sz + ucast PAGE_SIZE - 1) AND - (ucast PAGE_SIZE)"
  have us: "unat ?start = 4096 * (unat pa div 4096)"
    unfolding unat_page_floor64 by (rule mult.commute)
  then have s: "?start = word_of_nat (4096 * (unat pa div 4096))" by (rule word_of_unat)
  have z: "unat (ucast sz :: u64) = unat sz" "unat sz < 2 ^ 32"
    using unat_lt [of sz] by (simp_all add: unat_ucast_up)
  have "pa + ucast sz + ucast PAGE_SIZE - 1 = pa + ucast sz + 4095" by (simp add: PAGE_SIZE_def)
  moreover have "unat (pa + ucast sz :: u64) = unat pa + unat sz"
    using assms(2) by (subst unat_add_nowrap) (simp_all add: z)
  ultimately have "unat (pa + ucast sz + ucast PAGE_SIZE - 1) = unat pa + unat sz + 4095"
    using assms(2) by (simp add: unat_add_nowrap)
  then have e: "unat ?fin = 4096 * (unat pa div 4096) + 4096 * c"
    unfolding unat_page_floor64 c_def by (simp only: span_end) simp
  have d: "unat (?fin - ?start) = 4096 * c"
    using e us by (subst unat_sub) (simp_all add: word_le_nat_alt)
  then have len: "?fin - ?start = word_of_nat (4096 * c)" by (rule word_of_unat)
  have big: "XM32_MAX_ADDR \<le> ?fin - ?start \<longleftrightarrow> 2 ^ 20 \<le> c"
    unfolding word_le_nat_alt d by (simp add: XM32_MAX_ADDR_def)
  have "unat (pa mod ucast PAGE_SIZE) = unat pa mod 4096"
    by (simp add: PAGE_SIZE_def unat_mod_distrib)
  then have off: "ucast (pa mod ucast PAGE_SIZE) = (word_of_nat (unat pa mod 4096) :: u32)"
    by (metis of_nat_unat)
  show ?thesis
    unfolding mem_va_map_def Let_def off len [unfolded s] s big [unfolded len, unfolded s]
    using assms(1) by (subst if_not_P) simp_all
qed

lemma mem_va_map_spec:
  assumes wf: "va_wf s" and fl: "flags_ok fl" and sz: "0 < sz" "unat pa + unat sz \<le> 2 ^ 52"
  shows "\<exists>r. mem_va_map s pa sz fl = Some r \<and>
    (\<forall>v s'. r = Inr (v, s') \<longrightarrow>
       (\<exists>vp. unat v = 4096 * vp + unat pa mod 4096 \<and>
          block_mapped s vp (unat pa div 4096) (span (unat pa) (unat sz)) fl s')) \<and>
    (\<forall>e. r = Inl e \<longrightarrow> vm_error s e)"
proof -
  let ?c = "span (unat pa) (unat sz)" and ?pp = "unat pa div 4096"
  have c0: "0 < ?c" using sz(1) by (intro span_pos) (simp add: word_less_nat_alt)
  have "4096 * ?c \<le> unat pa mod 4096 + (unat sz + 4095)" by (simp add: span_def)
  then have "4096 * ?pp + 4096 * ?c \<le> 4096 * ?pp + (unat pa mod 4096 + (unat sz + 4095))"
    by (rule add_left_mono)
  also have "\<dots> = (4096 * ?pp + unat pa mod 4096) + (unat sz + 4095)" by (rule add.assoc [symmetric])
  also have "\<dots> \<le> 2 ^ 52 + 4095" unfolding mult_div_mod_eq using sz(2) by simp
  finally have "4096 * ?pp + 4096 * ?c \<le> 2 ^ 52 + 4095" .
  then have p: "?pp + ?c \<le> 2 ^ 40" by simp
  note run = mem_va_map_run [OF sz, of s fl]
  show ?thesis
  proof (cases "2 ^ 20 \<le> ?c")
    case True
    then show ?thesis unfolding run by (simp add: vm_error_def)
  next
    case False
    then have c: "?c < 2 ^ 20" by simp
    have "?pp + ?c \<le> 2 ^ 52" using p by simp
    from va_map_from_spec [OF wf fl c0 c this order_refl] obtain r where
      r: "va_map_from s (word_of_nat (4096 * ?pp)) (word_of_nat (4096 * ?c)) fl (unat (num_unused_va_ranges s)) = Some r"
      "\<And>v s'. r = Inr (v, s') \<Longrightarrow> \<exists>j<unat (num_unused_va_ranges s). served s j ?pp ?c fl v s'"
      "\<And>e. r = Inl e \<Longrightarrow> vm_error s e" by blast
    show ?thesis
    proof (cases r)
      case (Inl e)
      then show ?thesis unfolding run r(1) using False r(3) by simp
    next
      case (Inr x)
      obtain v s' where x: "x = (v, s')" by (cases x)
      obtain vp where vp: "unat v = 4096 * vp" "block_mapped s vp ?pp ?c fl s'"
        using r(2) [OF Inr [unfolded x]] served_block [OF wf _ _ c0 fl p] by blast
      have "4096 * (vp + ?c) \<le> 2 ^ 32" using vp(2) by (simp add: block_mapped_def)
      then have "4096 * vp + 4096 \<le> 2 ^ 32" using c0 by (simp add: algebra_simps)
      moreover have m: "unat pa mod 4096 < 4096" by simp
      ultimately have "unat v + unat pa mod 4096 < 2 ^ 32" unfolding vp(1) by linarith
      moreover have "unat (word_of_nat (unat pa mod 4096) :: u32) = unat pa mod 4096"
        using m by (simp add: unat_of_nat) 
      ultimately have "unat (v + word_of_nat (unat pa mod 4096)) = 4096 * vp + unat pa mod 4096"
        by (subst unat_add_nowrap) (simp_all add: vp(1))
      then show ?thesis unfolding run r(1) Inr x using False vp(2) by auto
    qed
  qed
qed

text \<open>A request for a block, as the contract of an allocator has it.\<close>

definition va_request :: "vm \<Rightarrow> u64 \<times> u32 \<times> u32 \<Rightarrow> (nat \<times> vm) res" where
  "va_request s q =
     (case mem_va_map s (fst q) (fst (snd q)) (snd (snd q)) of
        None \<Rightarrow> Inl Hlt
      | Some r \<Rightarrow> bindr r (\<lambda>(v, s'). Inr (unat v, s')))"

definition va_req_ok :: "u64 \<times> u32 \<times> u32 \<Rightarrow> bool" where
  "va_req_ok q \<longleftrightarrow> 0 < fst (snd q) \<and> unat (fst q) + unat (fst (snd q)) \<le> 2 ^ 52 \<and> flags_ok (snd (snd q))"

lemma va_request_spec:
  assumes "va_wf s" and "va_req_ok q" and "va_request s q = Inr (a, s')"
  shows "va_wf s' \<and> {a..<a + unat (fst (snd q))} \<subseteq> va_unused s \<and>
    va_unused s' \<subseteq> va_unused s - {a..<a + unat (fst (snd q))}"
proof -
  obtain pa sz fl where q: "q = (pa, sz, fl)" by (cases q)
  have ok: "flags_ok fl" "0 < sz" "unat pa + unat sz \<le> 2 ^ 52" using assms(2) by (simp_all add: q va_req_ok_def)
  obtain r where r: "mem_va_map s pa sz fl = Some r"
    and sp: "\<And>v s'. r = Inr (v, s') \<Longrightarrow> \<exists>vp. unat v = 4096 * vp + unat pa mod 4096 \<and>
      block_mapped s vp (unat pa div 4096) (span (unat pa) (unat sz)) fl s'"
    using mem_va_map_spec [OF assms(1) ok] by blast
  obtain v where v: "r = Inr (v, s')" "a = unat v" using assms(3) r by (auto simp: va_request_def q res_simps)
  obtain vp where vp: "unat v = 4096 * vp + unat pa mod 4096"
    "block_mapped s vp (unat pa div 4096) (span (unat pa) (unat sz)) fl s'" using sp [OF v(1)] by blast
  have "{a..<a + unat sz} \<subseteq> page_bytes vp (span (unat pa) (unat sz))"
    using span_covers [of "unat pa" "unat sz"] by (auto simp: page_bytes_def v(2) vp(1))
  then show ?thesis using vp(2) by (auto simp: block_mapped_def q)
qed

interpretation va: block_allocator va_request "\<lambda>q. unat (fst (snd q))" va_req_ok va_unused va_wf
  by unfold_locales (use va_request_spec in blast)+

subsection \<open>Giving addresses back\<close>

text \<open>A range grows by the block, or the block becomes a range of its own.\<close>

lemma vrs_grow:
  assumes wf: "vrs_wf s" and i: "i < unat (num_unused_va_ranges s)" and apart: "B \<inter> va_unused s = {}"
    and r': "vr_ok r'" "vr_set r' = vr_set (unused_va_ranges s ! i) \<union> B"
      "vr_start r' \<le> vr_start (unused_va_ranges s ! i)"
  shows "vrs_wf (s\<lparr> unused_va_ranges := (unused_va_ranges s)[i := r'] \<rparr>) \<and>
    starts_kept s (s\<lparr> unused_va_ranges := (unused_va_ranges s)[i := r'] \<rparr>) \<and>
    va_unused (s\<lparr> unused_va_ranges := (unused_va_ranges s)[i := r'] \<rparr>) = va_unused s \<union> B"
proof -
  let ?r = "unused_va_ranges s ! i" and ?s = "s\<lparr> unused_va_ranges := (unused_va_ranges s)[i := r'] \<rparr>"
  obtain xs ys where lv: "live_ranges s = xs @ ?r # ys"
    "\<And>r. take (unat (num_unused_va_ranges s)) ((unused_va_ranges s)[i := r]) = xs @ r # ys"
    using live_split [OF wf i] by metis
  have live': "live_ranges ?s = xs @ r' # ys" by (simp add: live_ranges_def lv(2))
  have b: "A \<inter> B = {}" if "A \<in> vr_set ` set (xs @ ys)" for A
    using that apart unfolding va_unused_def lv(1) by auto
  have "pairwise_disjoint (map vr_set (live_ranges ?s))"
    using wf b unfolding live' vrs_wf_def lv(1) by (auto simp: pairwise_disjoint_append r'(2))
  moreover have "list_all vr_ok (live_ranges ?s)" using wf r'(1) unfolding live' vrs_wf_def lv(1) by simp
  moreover have "va_unused ?s = va_unused s \<union> B" unfolding va_unused_def live' lv(1) using r'(2) by auto
  moreover have "starts_kept s ?s" unfolding starts_kept_def live' lv(1) using r'(3) by auto
  ultimately show ?thesis using wf by (simp add: vrs_wf_def)
qed

lemma shift_va_spec:
  "i < m \<Longrightarrow> m \<le> length vrs \<Longrightarrow>
     shift_va vrs m i = Inr (take (i + 1) vrs @ drop i (take (m - 1) vrs) @ drop m vrs)"
proof (induction m arbitrary: vrs)
  case (Suc j)
  show ?case
  proof (cases "Suc j = i + 1")
    case True
    then have "drop i (take j vrs) = []" by simp
    then show ?thesis using True by simp
  next
    case False
    let ?vrs = "vrs[j := vrs ! (j - 1)]"
    have j: "i < j" "j < length vrs" "j - 1 < length vrs" using Suc.prems False by simp_all
    have "shift_va vrs (Suc j) i = shift_va ?vrs j i" using False j by simp
    also have "\<dots> = Inr (take (i + 1) ?vrs @ drop i (take (j - 1) ?vrs) @ drop j ?vrs)"
      using Suc.IH [of ?vrs] j by simp
    finally have run: "shift_va vrs (Suc j) i =
        Inr (take (i + 1) ?vrs @ drop i (take (j - 1) ?vrs) @ drop j ?vrs)" .
    have t: "take (i + 1) ?vrs = take (i + 1) vrs" "take (j - 1) ?vrs = take (j - 1) vrs"
      using j by (simp_all add: take_update_cancel)
    have d: "drop j ?vrs = vrs ! (j - 1) # drop (Suc j) vrs"
      using j by (metis Cons_nth_drop_Suc drop_update_cancel length_list_update lessI nth_list_update_eq)
    have "take j vrs = take (j - 1) vrs @ [vrs ! (j - 1)]"
      using j take_Suc_conv_app_nth [of "j - 1" vrs] by simp
    then have "drop i (take j vrs) = drop i (take (j - 1) vrs) @ [vrs ! (j - 1)]" using j by simp
    then show ?thesis unfolding run t d by simp
  qed
qed simp

text \<open>The array with the block as a range of its own after range \<open>i\<close>.\<close>

lemma shift_insert:
  assumes "i < n" and "n < length vrs"
  shows "\<exists>vrs'. shift_va vrs (Suc n) i = Inr vrs' \<and> length vrs' = length vrs \<and>
    take (Suc n) (vrs'[i + 1 := r]) = take (i + 1) (take n vrs) @ r # drop (i + 1) (take n vrs)"
proof -
  let ?v = "take (i + 1) vrs @ drop i (take n vrs) @ drop (Suc n) vrs"
  have sp: "shift_va vrs (Suc n) i = Inr ?v" using shift_va_spec [of i "Suc n" vrs] assms by simp
  have l: "length (take (i + 1) vrs) = i + 1" using assms by simp
  have d: "drop i (take n vrs) = vrs ! i # drop (i + 1) (take n vrs)"
    using assms Cons_nth_drop_Suc [of i "take n vrs"] by simp
  have "?v[i + 1 := r] = take (i + 1) vrs @ r # drop (i + 1) (take n vrs) @ drop (Suc n) vrs"
    unfolding d using l by (simp add: list_update_append)
  moreover have "length (take (i + 1) vrs @ r # drop (i + 1) (take n vrs)) = Suc n" using assms by simp
  ultimately have "take (Suc n) (?v[i + 1 := r]) = take (i + 1) vrs @ r # drop (i + 1) (take n vrs)"
    by (metis append.assoc append_Cons append_eq_conv_conj)
  moreover have "take (i + 1) (take n vrs) = take (i + 1) vrs" using assms by simp
  ultimately show ?thesis using sp assms by auto
qed

lemma vrs_insert:
  assumes wf: "vrs_wf s" and i: "i < unat (num_unused_va_ranges s)" and apart: "B \<inter> va_unused s = {}"
    and room: "num_unused_va_ranges s \<noteq> max_unused_va_ranges s" and r': "vr_ok r'" "vr_set r' = B"
  shows "\<exists>vrs. shift_va (unused_va_ranges s) (unat (num_unused_va_ranges s + 1)) i = Inr vrs \<and>
    i + 1 < length vrs \<and>
    (let s' = s\<lparr> unused_va_ranges := vrs[i + 1 := r'], num_unused_va_ranges := num_unused_va_ranges s + 1 \<rparr>
     in vrs_wf s' \<and> starts_kept s s' \<and> va_unused s' = va_unused s \<union> B)"
proof -
  let ?n = "unat (num_unused_va_ranges s)" and ?lv = "live_ranges s"
  have lt: "num_unused_va_ranges s < max_unused_va_ranges s" using wf room by (simp add: vrs_wf_def order.not_eq_order_implies_strict)
  have n: "?n < length (unused_va_ranges s)" using lt wf by (simp add: vrs_wf_def word_less_nat_alt)
  have n1: "unat (num_unused_va_ranges s + 1) = Suc ?n"
    using unat_add_nowrap [of "num_unused_va_ranges s" 1] lt unat_lt [of "max_unused_va_ranges s"]
    by (simp add: word_less_nat_alt)
  obtain vrs where v: "shift_va (unused_va_ranges s) (Suc ?n) i = Inr vrs"
    "length vrs = length (unused_va_ranges s)"
    "take (Suc ?n) (vrs[i + 1 := r']) = take (i + 1) ?lv @ r' # drop (i + 1) ?lv"
    using shift_insert [OF i n, of r'] unfolding live_ranges_def by blast
  let ?s = "s\<lparr> unused_va_ranges := vrs[i + 1 := r'], num_unused_va_ranges := num_unused_va_ranges s + 1 \<rparr>"
  have "live_ranges ?s = take (Suc ?n) (vrs[i + 1 := r'])" by (simp add: live_ranges_def n1)
  then have live': "live_ranges ?s = take (i + 1) ?lv @ r' # drop (i + 1) ?lv" by (simp only: v(3))
  have lv: "?lv = take (i + 1) ?lv @ drop (i + 1) ?lv" by simp
  have sets: "set ?lv = set (take (i + 1) ?lv) \<union> set (drop (i + 1) ?lv)" by (metis lv set_append)
  have b: "vr_set r \<inter> B = {}" if "r \<in> set ?lv" for r using that apart by (auto simp: va_unused_def)
  have pd: "pairwise_disjoint (map vr_set (take (i + 1) ?lv @ drop (i + 1) ?lv))"
    using wf by (simp add: vrs_wf_def del: take_Suc drop_Suc)
  have "pairwise_disjoint (map vr_set (live_ranges ?s))"
    using pd b unfolding live' sets by (auto simp: pairwise_disjoint_append r'(2) simp del: append_take_drop_id)
  moreover have "list_all vr_ok (live_ranges ?s)"
    using wf r'(1) unfolding live' vrs_wf_def list_all_iff sets by auto
  moreover have "va_unused ?s = va_unused s \<union> B" unfolding va_unused_def live' sets using r'(2) by auto
  moreover have "starts_kept s ?s" unfolding starts_kept_def live' sets by auto
  moreover have "num_unused_va_ranges s + 1 \<le> max_unused_va_ranges s"
    using lt n1 by (simp add: word_le_nat_alt word_less_nat_alt)
  ultimately show ?thesis
    unfolding n1 Let_def using v(1,2) wf n i by (auto simp: vrs_wf_def)
qed

text \<open>The ranges a block can make with its neighbours.\<close>

lemma block_words:
  assumes "0 < vp" and "0 < c" and "vp + c \<le> 2 ^ 20"
  shows "unat (word_of_nat (4096 * vp) :: u32) = 4096 * vp" and "unat (word_of_nat (4096 * c) :: u32) = 4096 * c"
    and "vp + c < 2 ^ 20 \<Longrightarrow> unat (word_of_nat (4096 * (vp + c)) :: u32) = 4096 * (vp + c)"
    and "vp + c = 2 ^ 20 \<Longrightarrow> (word_of_nat (4096 * (vp + c)) :: u32) = 0"
proof -
  show "unat (word_of_nat (4096 * vp) :: u32) = 4096 * vp" "unat (word_of_nat (4096 * c) :: u32) = 4096 * c"
    "vp + c < 2 ^ 20 \<Longrightarrow> unat (word_of_nat (4096 * (vp + c)) :: u32) = 4096 * (vp + c)"
    using assms by (simp_all add: unat_of_nat del: of_nat_mult of_nat_add)
  assume "vp + c = 2 ^ 20"
  then have "4096 * (vp + c) = 2 ^ 32" by simp
  then show "(word_of_nat (4096 * (vp + c)) :: u32) = 0" by (simp only:) simp
qed

lemma vr_below:
  assumes b: "0 < vp" "0 < c" "vp + c \<le> 2 ^ 20" and ok: "vr_ok r"
    and at: "vr_start r = word_of_nat (4096 * (vp + c))"
  defines "r' \<equiv> r\<lparr> vr_start := word_of_nat (4096 * vp), vr_len := vr_len r + word_of_nat (4096 * c) \<rparr>"
  shows "vr_ok r' \<and> vr_set r' = vr_set r \<union> page_bytes vp c \<and> vr_start r' \<le> vr_start r"
proof -
  note w = block_words [OF b]
  have "vp + c \<noteq> 2 ^ 20" using ok w(4) unfolding at [symmetric] by (auto simp: vr_ok_def)
  then have st: "unat (vr_start r) = 4096 * (vp + c)" using at w(3) b(3) by simp
  have e: "vr_end r \<le> 2 ^ 32" "4096 dvd unat (vr_len r)" using ok by (simp_all add: vr_ok_def)
  have "unat (vr_len r) + 4096 * c < 2 ^ 32" using e(1) st b(1) by (simp add: vr_end_def)
  then have len: "unat (vr_len r + word_of_nat (4096 * c)) = unat (vr_len r) + 4096 * c"
    using w(2) by (subst unat_add_nowrap) (simp_all del: of_nat_mult)
  have r': "unat (vr_start r') = 4096 * vp" "unat (vr_len r') = unat (vr_len r) + 4096 * c"
    using w(1) len by (simp_all add: r'_def del: of_nat_mult)
  have "vr_end r' = vr_end r" using st by (simp add: vr_end_def r')
  moreover have "0 < vr_start r'" using r'(1) b(1) by (simp add: word_less_nat_alt)
  moreover have "4096 * (vp + c) \<le> vr_end r" using st by (simp add: vr_end_def)
  moreover have "vr_start r' \<le> vr_start r" by (simp add: word_le_nat_alt r' st)
  ultimately show ?thesis using e b by (auto simp: vr_ok_def vr_set_def page_bytes_def r' st)
qed

lemma vr_above:
  assumes b: "0 < vp" "0 < c" "vp + c \<le> 2 ^ 20" and ok: "vr_ok r"
    and at: "vr_start r + vr_len r = word_of_nat (4096 * vp)"
  defines "r' \<equiv> r\<lparr> vr_len := vr_len r + word_of_nat (4096 * c) \<rparr>"
  shows "vr_ok r' \<and> vr_set r' = vr_set r \<union> page_bytes vp c \<and> vr_start r' \<le> vr_start r"
proof -
  note w = block_words [OF b]
  have e: "unat (vr_start r) + unat (vr_len r) \<le> 2 ^ 32" "4096 dvd unat (vr_len r)" "0 < vr_start r"
    "4096 dvd unat (vr_start r)"
    using ok by (simp_all add: vr_ok_def vr_end_def)
  have "unat (vr_start r) + unat (vr_len r) \<noteq> 2 ^ 32"
  proof
    assume "unat (vr_start r) + unat (vr_len r) = 2 ^ 32"
    then have "word_of_nat (unat (vr_start r) + unat (vr_len r)) = (0 :: u32)" by (simp only:) simp
    then have "vr_start r + vr_len r = 0" by simp
    then have "unat (word_of_nat (4096 * vp) :: u32) = 0" using at by (metis unsigned_0)
    then show False using w(1) b(1) by simp
  qed
  then have "unat (vr_start r + vr_len r) = unat (vr_start r) + unat (vr_len r)"
    using e(1) by (intro unat_add_nowrap) simp
  then have en: "unat (vr_start r) + unat (vr_len r) = 4096 * vp" using at w(1) by simp
  have st: "0 < unat (vr_start r)" using e(3) by (simp add: word_less_nat_alt)
  have "unat (vr_len r) + 4096 * c < 2 ^ 32" using en b(3) st by simp
  then have len: "unat (vr_len r') = unat (vr_len r) + 4096 * c"
    using w(2) unfolding r'_def by (simp del: of_nat_mult) (subst unat_add_nowrap; simp del: of_nat_mult)
  have "vr_end r' = 4096 * (vp + c)" using en by (simp add: vr_end_def len) (simp add: r'_def)
  moreover have "unat (vr_start r) \<le> 4096 * vp" using en by linarith
  moreover have "vr_start r' = vr_start r" by (simp add: r'_def)
  moreover have "vr_end r = 4096 * vp" using en by (simp add: vr_end_def)
  ultimately show ?thesis using e b by (auto simp: vr_ok_def vr_set_def page_bytes_def len)
qed

lemma vr_alone:
  assumes b: "0 < vp" "0 < c" "vp + c \<le> 2 ^ 20"
  defines "r' \<equiv> \<lparr> vr_start = word_of_nat (4096 * vp), vr_len = word_of_nat (4096 * c) \<rparr>"
  shows "vr_ok r' \<and> vr_set r' = page_bytes vp c"
proof -
  note w = block_words [OF b]
  have r': "unat (vr_start r') = 4096 * vp" "unat (vr_len r') = 4096 * c"
    using w(1,2) by (simp_all add: r'_def del: of_nat_mult)
  moreover have "0 < vr_start r'" using r'(1) b(1) by (simp add: word_less_nat_alt)
  ultimately show ?thesis using b by (simp add: vr_ok_def vr_set_def vr_end_def page_bytes_def distrib_left)
qed

text \<open>
  The search for the place of a block \<open>B\<close>: it is merged with a neighbour or stored on its own,
  unless the array is full or no range lies below it.
\<close>

definition released :: "vm \<Rightarrow> nat set \<Rightarrow> vm \<Rightarrow> bool" where
  "released s B s' \<longleftrightarrow>
     (\<exists>vrs n. s' = s\<lparr> unused_va_ranges := vrs, num_unused_va_ranges := n \<rparr>) \<and>
     vrs_wf s' \<and> starts_kept s s' \<and> va_unused s' = va_unused s \<union> B"

lemma released_grow:
  assumes "vrs_wf s" and "i < unat (num_unused_va_ranges s)" and "B \<inter> va_unused s = {}"
    and "vr_ok r' \<and> vr_set r' = vr_set (unused_va_ranges s ! i) \<union> B \<and>
      vr_start r' \<le> vr_start (unused_va_ranges s ! i)"
  shows "released s B (s\<lparr> unused_va_ranges := (unused_va_ranges s)[i := r'] \<rparr>)"
proof -
  let ?s = "s\<lparr> unused_va_ranges := (unused_va_ranges s)[i := r'] \<rparr>"
  have "?s = s\<lparr> unused_va_ranges := (unused_va_ranges s)[i := r'],
      num_unused_va_ranges := num_unused_va_ranges s \<rparr>" by simp
  then show ?thesis unfolding released_def using vrs_grow [OF assms(1-3)] assms(4) by blast
qed

definition lies_above :: "nat \<Rightarrow> va_range \<Rightarrow> bool" where
  "lies_above vp r \<longleftrightarrow> word_of_nat (4096 * vp) \<le> vr_start r \<and> vr_start r + vr_len r \<noteq> word_of_nat (4096 * vp)"

lemma va_release_spec:
  assumes wf: "vrs_wf s" and b: "0 < vp" "0 < c" "vp + c \<le> 2 ^ 20"
    and apart: "page_bytes vp c \<inter> va_unused s = {}" and i: "i \<le> unat (num_unused_va_ranges s)"
  shows "(\<exists>s'. va_release s (word_of_nat (4096 * vp)) (word_of_nat (4096 * (vp + c))) (word_of_nat (4096 * c)) i = Inr s' \<and>
      released s (page_bytes vp c) s') \<or>
    va_release s (word_of_nat (4096 * vp)) (word_of_nat (4096 * (vp + c))) (word_of_nat (4096 * c)) i = Inl Hlt \<and>
      (num_unused_va_ranges s = max_unused_va_ranges s \<or>
       (\<forall>j<i. lies_above vp (unused_va_ranges s ! j)))"
  using i
proof (induction i)
  case 0
  show ?case by simp
next
  case (Suc i)
  let ?v = "word_of_nat (4096 * vp) :: u32" and ?e = "word_of_nat (4096 * (vp + c)) :: u32"
    and ?l = "word_of_nat (4096 * c) :: u32" and ?r = "unused_va_ranges s ! i"
  have i: "i < unat (num_unused_va_ranges s)" and li: "i < length (unused_va_ranges s)"
    using Suc.prems wf by (simp_all add: vrs_wf_def word_le_nat_alt)
  have ok: "vr_ok ?r" using wf i li unfolding vrs_wf_def list_all_length live_ranges_def by simp
  have run: "va_release s ?v ?e ?l (Suc i) =
      (if vr_start ?r = ?e then
         Inr (s\<lparr> unused_va_ranges := (unused_va_ranges s)[i := ?r\<lparr> vr_start := ?v, vr_len := vr_len ?r + ?l \<rparr>] \<rparr>)
       else if vr_start ?r + vr_len ?r = ?v then
         Inr (s\<lparr> unused_va_ranges := (unused_va_ranges s)[i := ?r\<lparr> vr_len := vr_len ?r + ?l \<rparr>] \<rparr>)
       else if vr_start ?r < ?v then
         if num_unused_va_ranges s = max_unused_va_ranges s then Inl Hlt
         else bindr (shift_va (unused_va_ranges s) (unat (num_unused_va_ranges s + 1)) i) (\<lambda>vrs.
           bindr (arr_set vrs (i + 1) \<lparr> vr_start = ?v, vr_len = ?l \<rparr>) (\<lambda>vrs'.
             Inr (s\<lparr> unused_va_ranges := vrs', num_unused_va_ranges := num_unused_va_ranges s + 1 \<rparr>)))
       else va_release s ?v ?e ?l i)"
    using li by (simp only: va_release.simps arr_get_ok bindr_Inr Let_def)
  consider "vr_start ?r = ?e" | "vr_start ?r \<noteq> ?e" "vr_start ?r + vr_len ?r = ?v"
    | "vr_start ?r \<noteq> ?e" "vr_start ?r + vr_len ?r \<noteq> ?v" "vr_start ?r < ?v"
    | "vr_start ?r \<noteq> ?e" "vr_start ?r + vr_len ?r \<noteq> ?v" "\<not> vr_start ?r < ?v" by blast
  then show ?case
  proof cases
    case 1
    show ?thesis
      unfolding run if_P [OF 1] using released_grow [OF wf i apart vr_below [OF b ok 1]] by blast
  next
    case 2
    show ?thesis
      unfolding run if_not_P [OF 2(1)] if_P [OF 2(2)]
      using released_grow [OF wf i apart vr_above [OF b ok 2(2)]] by blast
  next
    case 3
    show ?thesis
    proof (cases "num_unused_va_ranges s = max_unused_va_ranges s")
      case True
      then show ?thesis unfolding run if_not_P [OF 3(1)] if_not_P [OF 3(2)] if_P [OF 3(3)] by simp
    next
      case False
      from vrs_insert [OF wf i apart False] vr_alone [OF b] obtain vrs where
        "shift_va (unused_va_ranges s) (unat (num_unused_va_ranges s + 1)) i = Inr vrs" "i + 1 < length vrs"
        "released s (page_bytes vp c) (s\<lparr> unused_va_ranges := vrs[i + 1 := \<lparr> vr_start = ?v, vr_len = ?l \<rparr>],
           num_unused_va_ranges := num_unused_va_ranges s + 1 \<rparr>)"
        unfolding released_def Let_def by blast
      then show ?thesis
        unfolding run if_not_P [OF 3(1)] if_not_P [OF 3(2)] if_P [OF 3(3)] if_not_P [OF False]
        by (simp only: bindr_Inr arr_set_ok) blast
    qed
  next
    case 4
    then show ?thesis
      unfolding run if_not_P [OF 4(1)] if_not_P [OF 4(2)] if_not_P [OF 4(3)]
      using Suc.IH Suc.prems by (auto simp: less_Suc_eq not_less lies_above_def)
  qed
qed

subsection \<open>Unmapping a block\<close>

lemma of_nat_page_floor: "(word_of_nat n :: u32) AND - PAGE_SIZE = word_of_nat (n div 4096 * 4096)"
proof -
  have "n div 4096 * 4096 = push_bit 12 (drop_bit 12 n)" by (simp add: push_bit_eq_mult drop_bit_eq_div)
  then have "(word_of_nat (n div 4096 * 4096) :: u32) = push_bit 12 (word_of_nat (drop_bit 12 n))"
    by (simp add: push_bit_eq_mult)
  also have "\<dots> = push_bit 12 (drop_bit 12 (word_of_nat n))"
    by (rule bit_word_eqI) (auto simp: bit_simps)
  also have "\<dots> = word_of_nat n AND - PAGE_SIZE"
    unfolding minus_page_size by (rule bit_word_eqI) (auto simp: bit_simps)
  finally show ?thesis by (rule sym)
qed

lemma mem_va_unmap_run:
  assumes va: "unat va = 4096 * vp + off" "off < 4096" and sz: "0 < sz"
  defines "c \<equiv> span off (unat sz)"
  shows "mem_va_unmap s va sz =
    map_option (\<lambda>s'. va_release s' (word_of_nat (4096 * vp)) (word_of_nat (4096 * (vp + c)))
        (word_of_nat (4096 * c)) (unat (num_unused_va_ranges s')))
      (do_va_unmap s (word_of_nat (4096 * vp)) (word_of_nat (4096 * c)))"
proof -
  have vn: "va = word_of_nat (4096 * vp + off)" using va(1) by (rule word_of_unat)
  have fl: "(4096 * vp + off) div 4096 * 4096 = 4096 * vp" using va(2) by simp
  have st: "va AND - PAGE_SIZE = word_of_nat (4096 * vp)"
    unfolding vn of_nat_page_floor fl ..
  have sum: "va + sz + PAGE_SIZE - 1 = word_of_nat (4096 * vp + off + unat sz + 4095)"
    by (simp add: vn PAGE_SIZE_def)
  have "(4096 * vp + off + unat sz + 4095) div 4096 * 4096 = (vp + c) * 4096"
    unfolding span_end [of "4096 * vp + off"] c_def using va(2) by (simp add: span_def)
  then have en: "(va + sz + PAGE_SIZE - 1) AND - PAGE_SIZE = word_of_nat (4096 * (vp + c))"
    unfolding sum of_nat_page_floor by (simp only: mult.commute)
  have len: "(word_of_nat (4096 * (vp + c)) - word_of_nat (4096 * vp) :: u32) = word_of_nat (4096 * c)"
    by (simp add: distrib_left)
  have "sz \<noteq> 0" using sz by auto
  then show ?thesis
    unfolding mem_va_unmap_def Let_def st en len if_not_P [OF \<open>sz \<noteq> 0\<close>]
    by (simp add: map_option_case split: option.splits)
qed

lemma mem_va_unmap_spec:
  assumes wf: "va_wf s" and va: "unat va = 4096 * vp + off" "off < 4096" and sz: "0 < sz"
    and c: "c = span off (unat sz)" and b: "0 < vp" "vp + c \<le> 2 ^ 20"
    and apart: "page_bytes vp c \<inter> va_unused s = {}"
    and whole: "\<And>n. vp \<le> n \<Longrightarrow> n < vp + c \<Longrightarrow> \<not> kept_large s vp c n"
  shows "\<exists>r. mem_va_unmap s va sz = Some r \<and>
    ((\<exists>s'. r = Inr s' \<and> va_wf s' \<and> starts_kept s s' \<and> va_unused s' = va_unused s \<union> page_bytes vp c \<and>
        (\<forall>a. translate s' a = (if unat a \<in> page_bytes vp c then None else translate s a)) \<and>
        (\<forall>k<2048. is_large (pde s' k) \<longrightarrow> is_large (pde s k)) \<and> mem_kept s s' \<and> pages_taken s s') \<or>
     r = Inl Hlt \<and> (num_unused_va_ranges s = max_unused_va_ranges s \<or>
        (\<forall>r\<in>set (live_ranges s). lies_above vp r)))"
proof -
  have c0: "0 < c" unfolding c using sz by (intro span_pos) (simp add: word_less_nat_alt)
  note w = block_words [OF b(1) c0 b(2)]
  have vm: "vm_wf s" using wf by (simp add: va_wf_def)
  from do_va_unmap_spec [OF this w(1,2) b(2)] obtain s1 where
    s1: "do_va_unmap s (word_of_nat (4096 * vp)) (word_of_nat (4096 * c)) = Some s1" "unmapped s vp c s1" by blast
  obtain mp m where s1': "s1 = s\<lparr> vm_map := mp, vm_mem := m \<rparr>" using s1(2) by (auto simp: unmapped_def same_rest_def)
  have un: "va_unused s1 = va_unused s" "live_ranges s1 = live_ranges s"
    by (simp_all add: va_unused_def live_ranges_def s1')
  have nums: "num_unused_va_ranges s1 = num_unused_va_ranges s" "max_unused_va_ranges s1 = max_unused_va_ranges s"
    "unused_va_ranges s1 = unused_va_ranges s" by (simp_all add: s1')
  have vrs: "vrs_wf s1" using wf by (simp add: va_wf_def vrs_wf_def s1' live_ranges_def)
  have tr: "translate s1 a = (if unat a \<in> page_bytes vp c then None else translate s a)" for a
    using unmapped_translate [OF vm s1(2), of a] whole [of "unat a div 4096"] by (auto simp: in_page_bytes)
  let ?n = "unat (num_unused_va_ranges s1)"
  let ?r = "va_release s1 (word_of_nat (4096 * vp)) (word_of_nat (4096 * (vp + c))) (word_of_nat (4096 * c)) ?n"
  have run: "mem_va_unmap s va sz = Some ?r"
    unfolding mem_va_unmap_run [OF va sz] c [symmetric] s1(1) by simp
  have apart1: "page_bytes vp c \<inter> va_unused s1 = {}" using apart un(1) by simp
  consider s2 where "?r = Inr s2" "released s1 (page_bytes vp c) s2"
    | "?r = Inl Hlt" "num_unused_va_ranges s1 = max_unused_va_ranges s1 \<or>
        (\<forall>j<?n. lies_above vp (unused_va_ranges s1 ! j))"
    using va_release_spec [OF vrs b(1) c0 b(2) apart1 order_refl] by blast
  then show ?thesis
  proof cases
    case 1
    obtain vrs' n where s2: "s2 = s1\<lparr> unused_va_ranges := vrs', num_unused_va_ranges := n \<rparr>"
      using 1(2) unfolding released_def by blast
    have u2: "va_unused s2 = va_unused s \<union> page_bytes vp c" "vrs_wf s2" using 1(2) un(1) by (simp_all add: released_def)
    have t2: "translate s2 a = (if unat a \<in> page_bytes vp c then None else translate s a)" for a
      using tr by (simp add: s2)
    have "vm_wf s2" using s1(2) by (simp add: s2 unmapped_def)
    moreover have "translate s2 a = None" if "unat a \<in> va_unused s2" for a
      using that wf unfolding t2 u2(1) by (auto simp: va_wf_def)
    ultimately have "va_wf s2" using u2(2) by (simp add: va_wf_def)
    moreover have "\<forall>k<2048. is_large (pde s2 k) \<longrightarrow> is_large (pde s k)" using s1(2) by (simp add: s2 unmapped_def)
    moreover have "starts_kept s s2" using 1(2) un(2) by (simp add: released_def starts_kept_def)
    moreover have "pages_taken s s2" using s1(2) by (simp add: s2 unmapped_def same_rest_def)
    moreover have "mem_kept s s2" using s1(2) by (simp add: s2 mem_kept_ranges unmapped_def same_rest_def)
    ultimately show ?thesis using run 1(1) u2(1) t2 by auto
  next
    case 2
    have "lies_above vp r"
      if "\<forall>j<?n. lies_above vp (unused_va_ranges s1 ! j)" "r \<in> set (live_ranges s)" for r
      using that(2) unfolding live_ranges_def in_set_conv_nth using that(1) nums by auto
    then show ?thesis using run 2 nums by auto
  qed
qed

subsection \<open>Writes to other memory\<close>

text \<open>The bytes outside the tables do not matter to virtual memory.\<close>

lemma vm_mem_change:
  assumes wf: "va_wf s" and m: "\<And>t a. tbl_in s t \<Longrightarrow> a \<in> tbl_bytes s t \<Longrightarrow> m a = vm_mem s a"
  defines "s' \<equiv> s\<lparr> vm_mem := m \<rparr>"
  shows "va_wf s'" and "translate s' v = translate s v" and "vm_owned s' = vm_owned s" and "va_unused s' = va_unused s"
proof -
  have rd: "rd64 (vm_mem s') b = rd64 (vm_mem s) b" if "slot b \<subseteq> tbl_bytes s t" "tbl_in s t" for b t
    using that m by (intro rd64_agree) (auto simp: s'_def)
  have e: "pdpte s' i = pdpte s i" if "i < 4" for i
    using rd [OF pdpte_slot [OF that, of s]] by (simp add: pdpte_def s'_def)
  then have b: "pd_base s' i = pd_base s i" if "i < 4" for i using that by (simp add: pd_base_def)
  have a: "pde_addr s' k = pde_addr s k" if "k < 2048" for k
    using that b [of "k div 512"] by (simp add: pde_addr_def)
  have d: "pde s' k = pde s k" if "k < 2048" for k
    using rd [OF pde_slot [of s k]] a [OF that] that by (simp add: pde_def)
  have i: "tbl_in s' t = tbl_in s t" for t using d by (cases t) auto
  have tb: "tbl_bytes s' t = tbl_bytes s t" if "tbl_in s t" for t
    using that d b by (cases t) (auto simp: s'_def)
  have vm: "vm_wf s'" using wf e d i tb unfolding va_wf_def vm_wf_def by (simp add: s'_def)
  have pg: "page_entry s' n = page_entry s n" if "n < 2 ^ 20" for n
  proof -
    have k: "n div 512 < 2048" using that by (simp add: less_mult_imp_div_less)
    have "rd64 (vm_mem s') (pt_base (pde s (n div 512)) + 8 * (n mod 512)) =
        rd64 (vm_mem s) (pt_base (pde s (n div 512)) + 8 * (n mod 512))" if "is_table (pde s (n div 512))"
      using that k by (intro rd [OF pt_slot]) auto
    then show ?thesis using d [OF k] by (simp add: page_entry_def Let_def)
  qed
  have tr: "translate s' v = translate s v" for v
  proof -
    have "unat v div 4096 < 2 ^ 20" using unat_lt [of v] by (simp add: less_mult_imp_div_less)
    then show ?thesis using translate_entry [OF vm] translate_entry [of s v] wf pg by (simp add: va_wf_def)
  qed
  then show "translate s' v = translate s v" .
  show "vm_owned s' = vm_owned s" by (rule vm_owned_cong) (use i tb in \<open>simp_all add: s'_def\<close>)
  show un: "va_unused s' = va_unused s" by (simp add: va_unused_def live_ranges_def s'_def)
  have "vrs_wf s'" using wf by (simp add: va_wf_def vrs_wf_def live_ranges_def s'_def)
  then show "va_wf s'" using vm wf tr un by (simp add: va_wf_def)
qed

end
