(* ===== verification/Va_Session.thy ===== *)
theory Va_Session
  imports Va_Blocks
begin

text \<open>
  Clients of \<^verbatim>\<open>mem_va_map\<close> and \<^verbatim>\<open>mem_va_unmap\<close> of \<^verbatim>\<open>stage2/mem.c\<close>: any sequence of the two
  calls, in which a block is unmapped at most once and with the size it was mapped with. The
  invariant says that every live block translates to the physical bytes it was made for, that
  live blocks are apart, that unused addresses do not translate, and that all other
  translations stay as they were.
\<close>

unbundle bit_operations_syntax

subsection \<open>Sessions\<close>

record va_block =
  vb_va :: u32
  vb_pa :: u64
  vb_sz :: u32
  vb_flags :: u32

inductive va_step :: "vm \<times> va_block list \<Rightarrow> vm \<times> va_block list \<Rightarrow> bool" where
  va_map: "va_req_ok (pa, sz, fl) \<Longrightarrow> mem_va_map s pa sz fl = Some (Inr (v, s')) \<Longrightarrow>
    va_step (s, bs) (s', \<lparr> vb_va = v, vb_pa = pa, vb_sz = sz, vb_flags = fl \<rparr> # bs)"
| va_unmap: "b \<in> set bs \<Longrightarrow> mem_va_unmap s (vb_va b) (vb_sz b) = Some (Inr s') \<Longrightarrow>
    va_step (s, bs) (s', remove1 b bs)"

inductive_cases va_stepE: "va_step (s, bs) t"

text \<open>The pages of a block.\<close>

definition vb_page :: "va_block \<Rightarrow> nat" where
  "vb_page b = unat (vb_va b) div 4096"

definition vb_pages :: "va_block \<Rightarrow> nat" where
  "vb_pages b = span (unat (vb_pa b)) (unat (vb_sz b))"

definition vb_bytes :: "va_block \<Rightarrow> nat set" where
  "vb_bytes b = page_bytes (vb_page b) (vb_pages b)"

text \<open>No large page reaches over the block's border.\<close>

definition vb_whole :: "vm \<Rightarrow> va_block \<Rightarrow> bool" where
  "vb_whole s b \<longleftrightarrow>
     (\<forall>n. vb_page b \<le> n \<and> n < vb_page b + vb_pages b \<longrightarrow> \<not> kept_large s (vb_page b) (vb_pages b) n)"

definition vb_ok :: "vm \<Rightarrow> va_block \<Rightarrow> bool" where
  "vb_ok s b \<longleftrightarrow>
     unat (vb_va b) = 4096 * vb_page b + unat (vb_pa b) mod 4096 \<and> 0 < vb_sz b \<and>
     0 < vb_page b \<and> vb_page b + vb_pages b \<le> 2 ^ 20 \<and> vb_bytes b \<inter> va_unused s = {} \<and> vb_whole s b \<and>
     (\<exists>r\<in>set (live_ranges s). unat (vr_start r) \<le> 4096 * vb_page b) \<and>
     (\<forall>a. unat a \<in> vb_bytes b \<longrightarrow> translate s a =
        Some (word_of_nat (4096 * (unat (vb_pa b) div 4096) + (unat a - 4096 * vb_page b)), flag_bits (vb_flags b)))"

text \<open>The invariant of a session that began in \<open>s0\<close> with no block.\<close>

definition session_inv :: "vm \<Rightarrow> vm \<times> va_block list \<Rightarrow> bool" where
  "session_inv s0 t \<longleftrightarrow>
     va_wf (fst t) \<and> list_all (vb_ok (fst t)) (snd t) \<and> pairwise_disjoint (map vb_bytes (snd t)) \<and>
     va_unused (fst t) \<union> \<Union>(vb_bytes ` set (snd t)) = va_unused s0 \<and>
     (\<forall>a. unat a \<notin> va_unused s0 \<longrightarrow> translate (fst t) a = translate s0 a) \<and> mem_kept s0 (fst t) \<and>
     pages_taken s0 (fst t)"

lemma session_inv_init: "va_wf s \<Longrightarrow> session_inv s (s, [])"
  by (simp add: session_inv_def mem_kept_refl pages_taken_refl)

text \<open>Every page of a large page translates.\<close>

lemma large_translates:
  assumes "vm_wf s" and l: "is_large (pde s (n div 512))" and n: "n < 2 ^ 20"
  shows "translate s (word_of_nat (4096 * n)) \<noteq> None"
proof -
  let ?e = "pde s (n div 512)"
  have k: "n div 512 < 2048" using n by (simp add: less_mult_imp_div_less)
  have nz: "?e \<noteq> 0" "\<not> is_table ?e" using l by (auto simp: is_large_def is_table_def)
  then have ok: "bit ?e 0" "?e AND 0x1ff000 = 0" using vm_wfD(5) [OF assms(1) k] by (simp_all add: pde_ok_def)
  have u: "unat (word_of_nat (4096 * n) :: u32) = 4096 * n" using n by (simp add: unat_of_nat del: of_nat_mult)
  have "?e AND ucast PDE_PS \<noteq> 0" using l by (simp add: is_large_def)
  then have "bit ?e 7" using and_exp_eq_0_iff_not_bit [of ?e 7] by (simp add: PDE_PS_def)
  note b = large_walk(1) [OF ok(2) this, of "word_of_nat (4096 * n)"]
  have i: "unat (word_of_nat (4096 * n) :: u32) div 2 ^ 12 mod 512 = n mod 512" unfolding u by simp
  have "page_entry s n = (?e AND NOT (ucast PDE_PS)) + 4096 * word_of_nat (n mod 512)"
    using nz unfolding page_entry_def Let_def by simp
  then have "bit (page_entry s n) 0" using b [unfolded i] ok(1) by simp
  moreover have "4096 * n div 4096 = n" by simp
  ultimately show ?thesis unfolding translate_entry [OF assms(1)] translation_def u by simp
qed

lemma va_wf_unused: "va_wf s \<Longrightarrow> unat a \<in> va_unused s \<Longrightarrow> translate s a = None"
  by (simp add: va_wf_def)

lemma block_mapped_large:
  "block_mapped s vp pp c fl s' \<Longrightarrow> k < 2048 \<Longrightarrow> is_large (pde s' k) \<Longrightarrow>
     is_large (pde s k) \<or> vp \<le> 512 * k \<and> 512 * k + 512 \<le> vp + c"
  by (simp add: block_mapped_def)

text \<open>A block just mapped contains no part of a large page that reaches over its border.\<close>

lemma new_block_whole:
  assumes wf: "va_wf s" and m: "block_mapped s vp pp c fl s'" and n: "vp \<le> n" "n < vp + c"
  shows "\<not> kept_large s' vp c n"
proof
  assume k: "kept_large s' vp c n"
  have n20: "n < 2 ^ 20" using m n by (simp add: block_mapped_def)
  then have kk: "n div 512 < 2048" by (simp add: less_mult_imp_div_less)
  have "is_large (pde s' (n div 512))" "512 * (n div 512) < vp \<or> vp + c < 512 * (n div 512) + 512"
    using k by (simp_all add: kept_large_def Let_def)
  then have "is_large (pde s (n div 512))" using block_mapped_large [OF m kk] by linarith
  then have "translate s (word_of_nat (4096 * n)) \<noteq> None" using wf n20 by (intro large_translates) (simp_all add: va_wf_def)
  moreover have "unat (word_of_nat (4096 * n) :: u32) = 4096 * n" using n20 by (simp add: unat_of_nat del: of_nat_mult)
  then have "unat (word_of_nat (4096 * n) :: u32) \<in> va_unused s"
    using m n in_page_bytes [of "4096 * n" vp c] unfolding block_mapped_def by auto
  note va_wf_unused [OF wf this]
  ultimately show False by simp
qed

text \<open>Another block keeps what it has.\<close>

lemma starts_below:
  "starts_kept s s' \<Longrightarrow> \<exists>r\<in>set (live_ranges s). unat (vr_start r) \<le> n \<Longrightarrow>
     \<exists>r\<in>set (live_ranges s'). unat (vr_start r) \<le> n"
  unfolding starts_kept_def word_le_nat_alt by (meson order_trans)

lemma vb_ok_map:
  assumes ok: "vb_ok s b" and m: "block_mapped s vp pp c fl s'"
  shows "vb_ok s' b" and "vb_bytes b \<inter> page_bytes vp c = {}"
proof -
  show ap: "vb_bytes b \<inter> page_bytes vp c = {}" using ok m by (auto simp: vb_ok_def block_mapped_def)
  have "\<not> kept_large s' (vb_page b) (vb_pages b) n" if n: "vb_page b \<le> n \<and> n < vb_page b + vb_pages b" for n
  proof
    assume k: "kept_large s' (vb_page b) (vb_pages b) n"
    have kk: "n div 512 < 2048" using n ok by (simp add: vb_ok_def less_mult_imp_div_less)
    have "\<not> is_large (pde s (n div 512))"
      using k ok n by (auto simp: vb_ok_def vb_whole_def kept_large_def Let_def)
    then have "vp \<le> 512 * (n div 512) \<and> 512 * (n div 512) + 512 \<le> vp + c"
      using k block_mapped_large [OF m kk] by (simp add: kept_large_def Let_def)
    then have "vp \<le> n \<and> n < vp + c" by auto
    then have "4096 * n \<in> vb_bytes b \<inter> page_bytes vp c" using n by (simp add: vb_bytes_def in_page_bytes)
    then show False using ap by blast
  qed
  then have "vb_whole s' b" by (simp add: vb_whole_def)
  moreover have "\<exists>r\<in>set (live_ranges s'). unat (vr_start r) \<le> 4096 * vb_page b"
    using starts_below [of s s'] ok m by (simp add: vb_ok_def block_mapped_def)
  ultimately show "vb_ok s' b" using ok m ap unfolding vb_ok_def block_mapped_def by auto
qed

lemma vb_ok_unmap:
  assumes ok: "vb_ok s b" and ap: "vb_bytes b \<inter> B = {}" and un: "va_unused s' = va_unused s \<union> B"
    and tr: "\<And>a. unat a \<notin> B \<Longrightarrow> translate s' a = translate s a"
    and lg: "\<And>k. k < 2048 \<Longrightarrow> is_large (pde s' k) \<Longrightarrow> is_large (pde s k)" and st: "starts_kept s s'"
  shows "vb_ok s' b"
proof -
  have "\<not> kept_large s' (vb_page b) (vb_pages b) n" if n: "vb_page b \<le> n \<and> n < vb_page b + vb_pages b" for n
  proof -
    have "n div 512 < 2048" using n ok by (simp add: vb_ok_def less_mult_imp_div_less)
    then show ?thesis
      using n ok lg [of "n div 512"] by (auto simp: vb_ok_def vb_whole_def kept_large_def Let_def)
  qed
  moreover have "\<exists>r\<in>set (live_ranges s'). unat (vr_start r) \<le> 4096 * vb_page b"
    using starts_below [OF st] ok by (simp add: vb_ok_def)
  ultimately show ?thesis using ok ap un tr unfolding vb_ok_def vb_whole_def by auto
qed

lemma new_block_ok:
  assumes wf: "va_wf s" and sz: "0 < sz" and v: "unat v = 4096 * vp + unat pa mod 4096"
    and m: "block_mapped s vp (unat pa div 4096) (span (unat pa) (unat sz)) fl s'"
  defines "b \<equiv> \<lparr> vb_va = v, vb_pa = pa, vb_sz = sz, vb_flags = fl \<rparr>"
  shows "vb_ok s' b" and "vb_bytes b = page_bytes vp (span (unat pa) (unat sz))"
proof -
  have p: "vb_page b = vp" "vb_pages b = span (unat pa) (unat sz)"
    using v by (simp_all add: vb_page_def vb_pages_def b_def)
  then show bb: "vb_bytes b = page_bytes vp (span (unat pa) (unat sz))" by (simp add: vb_bytes_def)
  have "vb_whole s' b" using new_block_whole [OF wf m] by (simp add: vb_whole_def p)
  then show "vb_ok s' b" using m sz v unfolding vb_ok_def p bb by (auto simp: block_mapped_def b_def)
qed

lemma session_inv_map:
  assumes inv: "session_inv s0 (s, bs)" and ok: "va_req_ok (pa, sz, fl)" and run: "mem_va_map s pa sz fl = Some (Inr (v, s'))"
  shows "session_inv s0 (s', \<lparr> vb_va = v, vb_pa = pa, vb_sz = sz, vb_flags = fl \<rparr> # bs)"
proof -
  let ?b = "\<lparr> vb_va = v, vb_pa = pa, vb_sz = sz, vb_flags = fl \<rparr>"
  have wf: "va_wf s" and req: "flags_ok fl" "0 < sz" "unat pa + unat sz \<le> 2 ^ 52"
    using inv ok by (simp_all add: session_inv_def va_req_ok_def)
  obtain vp where v: "unat v = 4096 * vp + unat pa mod 4096"
    and m: "block_mapped s vp (unat pa div 4096) (span (unat pa) (unat sz)) fl s'"
    using mem_va_map_spec [OF wf req] run by auto
  note n = new_block_ok [OF wf req(2) v m]
  have old: "vb_ok s' b" "vb_bytes b \<inter> vb_bytes ?b = {}" if "b \<in> set bs" for b
    using vb_ok_map [OF _ m, of b] inv that unfolding n(2) by (auto simp: session_inv_def list_all_iff)
  have "list_all (vb_ok s') (?b # bs)" using n(1) old(1) by (simp add: list_all_iff)
  moreover have "pairwise_disjoint (map vb_bytes (?b # bs))"
    using inv old(2) by (auto simp: session_inv_def Int_commute)
  moreover have "va_unused s' \<union> \<Union>(vb_bytes ` set (?b # bs)) = va_unused s0"
  proof -
    have "va_unused s' \<union> vb_bytes ?b = va_unused s" using m unfolding n(2) block_mapped_def by blast
    then show ?thesis using inv by (auto simp: session_inv_def)
  qed
  moreover have "translate s' a = translate s0 a" if "unat a \<notin> va_unused s0" for a
  proof -
    have "unat a \<notin> va_unused s" using that inv by (auto simp: session_inv_def)
    then have "unat a \<notin> page_bytes vp (span (unat pa) (unat sz))" using m by (auto simp: block_mapped_def)
    then show ?thesis using that inv m by (simp add: session_inv_def block_mapped_def)
  qed
  moreover have "mem_kept s0 s'" "pages_taken s0 s'"
    using m inv mem_kept_trans [of s0 s s'] pages_taken_trans [of s0 s s'] by (simp_all add: session_inv_def block_mapped_def)
  ultimately show ?thesis using m by (simp add: session_inv_def block_mapped_def)
qed

text \<open>Unmapping a live block.\<close>

lemma unmap_live:
  assumes inv: "session_inv s0 (s, bs)" and b: "b \<in> set bs"
  shows "\<exists>r. mem_va_unmap s (vb_va b) (vb_sz b) = Some r \<and>
    ((\<exists>s'. r = Inr s' \<and> va_wf s' \<and> starts_kept s s' \<and> va_unused s' = va_unused s \<union> vb_bytes b \<and>
        (\<forall>a. translate s' a = (if unat a \<in> vb_bytes b then None else translate s a)) \<and>
        (\<forall>k<2048. is_large (pde s' k) \<longrightarrow> is_large (pde s k)) \<and> mem_kept s s' \<and> pages_taken s s') \<or>
     r = Inl Hlt \<and> num_unused_va_ranges s = max_unused_va_ranges s)"
proof -
  have ok: "vb_ok s b" and wf: "va_wf s" using inv b by (auto simp: session_inv_def list_all_iff)
  have m: "unat (vb_pa b) mod 4096 < 4096" by simp
  have sp: "vb_pages b = span (unat (vb_pa b) mod 4096) (unat (vb_sz b))"
    by (simp add: vb_pages_def span_def)
  have v: "unat (vb_va b) = 4096 * vb_page b + unat (vb_pa b) mod 4096"
    and o: "0 < vb_sz b" "0 < vb_page b" "vb_page b + vb_pages b \<le> 2 ^ 20"
      "page_bytes (vb_page b) (vb_pages b) \<inter> va_unused s = {}" "vb_whole s b"
    using ok by (simp_all add: vb_ok_def vb_bytes_def)
  obtain r where r: "r \<in> set (live_ranges s)" "unat (vr_start r) \<le> 4096 * vb_page b" using ok by (auto simp: vb_ok_def)
  have c0: "0 < vb_pages b" unfolding vb_pages_def using o(1) by (intro span_pos) (simp add: word_less_nat_alt)
  note w = block_words [OF o(2) c0 o(3)]
  have "\<not> lies_above (vb_page b) r"
  proof
    assume above: "lies_above (vb_page b) r"
    then have st: "unat (vr_start r) = 4096 * vb_page b"
      using r(2) w(1) by (simp add: lies_above_def word_le_nat_alt del: of_nat_mult)
    then have "vr_start r = word_of_nat (4096 * vb_page b)" by (rule word_of_unat)
    then have "vr_len r \<noteq> 0" using above unfolding lies_above_def by auto
    then have "4096 * vb_page b \<in> vr_set r" using st by (simp add: vr_set_def vr_end_def unat_gt_0)
    then have "4096 * vb_page b \<in> va_unused s" using r(1) by (auto simp: va_unused_def)
    moreover have "4096 * vb_page b \<in> page_bytes (vb_page b) (vb_pages b)" using c0 by (simp add: page_bytes_def)
    ultimately show False using o(4) by blast
  qed
  then have n: "\<not> (\<forall>r\<in>set (live_ranges s). lies_above (vb_page b) r)" using r(1) by blast
  have w: "\<not> kept_large s (vb_page b) (vb_pages b) n" if "vb_page b \<le> n" "n < vb_page b + vb_pages b" for n
    using o(5) that by (simp add: vb_whole_def)
  show ?thesis
    using mem_va_unmap_spec [OF wf v m o(1) sp o(2,3,4) w] n unfolding vb_bytes_def by blast
qed

lemma pairwise_disjoint_remove1:
  "pairwise_disjoint (map f bs) \<Longrightarrow> pairwise_disjoint (map f (remove1 b bs)) \<and>
     (b \<in> set bs \<longrightarrow> (\<forall>c\<in>set (remove1 b bs). f b \<inter> f c = {}))"
  by (induction bs) (auto dest: notin_set_remove1 in_set_remove1 [THEN iffD1, rotated] set_remove1_subset [THEN subsetD])

lemma insert_remove1: "b \<in> set bs \<Longrightarrow> insert b (set (remove1 b bs)) = set bs"
  by (induction bs) auto

lemma session_inv_unmap:
  assumes inv: "session_inv s0 (s, bs)" and b: "b \<in> set bs"
    and run: "mem_va_unmap s (vb_va b) (vb_sz b) = Some (Inr s')"
  shows "session_inv s0 (s', remove1 b bs)"
proof -
  have u: "va_wf s'" "va_unused s' = va_unused s \<union> vb_bytes b"
    "\<And>a. translate s' a = (if unat a \<in> vb_bytes b then None else translate s a)"
    "\<And>k. k < 2048 \<Longrightarrow> is_large (pde s' k) \<Longrightarrow> is_large (pde s k)" "starts_kept s s'" "mem_kept s s'" "pages_taken s s'"
    using unmap_live [OF inv b] run by auto
  have pd: "pairwise_disjoint (map vb_bytes bs)" using inv by (simp add: session_inv_def)
  note rest = pairwise_disjoint_remove1 [OF pd, of b]
  have "vb_ok s' c" if c: "c \<in> set (remove1 b bs)" for c
  proof (rule vb_ok_unmap [OF _ _ u(2)])
    show "vb_ok s c" using inv c set_remove1_subset [of b bs] by (auto simp: session_inv_def list_all_iff)
    show "vb_bytes c \<inter> vb_bytes b = {}" using rest b c by blast
  qed (use u in simp_all)
  then have "list_all (vb_ok s') (remove1 b bs)" by (simp add: list_all_iff)
  moreover have "va_unused s' \<union> \<Union>(vb_bytes ` set (remove1 b bs)) = va_unused s0"
  proof -
    have "va_unused s \<union> \<Union>(vb_bytes ` insert b (set (remove1 b bs))) = va_unused s0"
      using inv b by (simp only: insert_remove1) (simp add: session_inv_def)
    then show ?thesis unfolding u(2) by auto
  qed
  moreover have "translate s' a = translate s0 a" if "unat a \<notin> va_unused s0" for a
  proof -
    have "unat a \<notin> vb_bytes b" using that inv b by (auto simp: session_inv_def)
    then show ?thesis using that inv by (simp add: session_inv_def u(3))
  qed
  moreover have "mem_kept s0 s'" "pages_taken s0 s'"
    using u(6,7) inv mem_kept_trans [of s0 s s'] pages_taken_trans [of s0 s s'] by (simp_all add: session_inv_def)
  ultimately show ?thesis using u(1) rest by (simp add: session_inv_def)
qed

lemma session_inv_reach:
  "va_step\<^sup>*\<^sup>* (s, []) t \<Longrightarrow> va_wf s \<Longrightarrow> session_inv s t"
proof (induction rule: rtranclp_induct)
  case base
  then show ?case by (rule session_inv_init)
next
  case (step t u)
  obtain s1 bs where t: "t = (s1, bs)" by (cases t)
  have inv: "session_inv s (s1, bs)" using step.IH step.prems t by simp
  show ?case using step.hyps(2) unfolding t
    by (elim va_stepE) (use session_inv_map [OF inv] session_inv_unmap [OF inv] in simp_all)
qed

lemma pairwise_disjoint_shrink:
  "pairwise_disjoint (map f bs) \<Longrightarrow> (\<And>b. b \<in> set bs \<Longrightarrow> g b \<subseteq> f b) \<Longrightarrow> pairwise_disjoint (map g bs)"
proof (induction bs)
  case (Cons b bs)
  have "g b \<inter> g c = {}" if "c \<in> set bs" for c
    using Cons.prems(1) Cons.prems(2) [of b] Cons.prems(2) [of c] that by fastforce
  then show ?case using Cons by simp
qed simp

text \<open>The bytes a client asked for.\<close>

definition vb_client :: "va_block \<Rightarrow> nat set" where
  "vb_client b = {unat (vb_va b)..<unat (vb_va b) + unat (vb_sz b)}"

lemma vb_client_spec:
  assumes ok: "vb_ok s b"
  shows "vb_client b \<subseteq> vb_bytes b" and "unat (vb_va b) + unat (vb_sz b) \<le> 2 ^ 32"
    and "i < unat (vb_sz b) \<Longrightarrow>
      translate s (vb_va b + word_of_nat i) = Some (vb_pa b + word_of_nat i, flag_bits (vb_flags b))"
proof -
  let ?o = "unat (vb_pa b) mod 4096"
  have v: "unat (vb_va b) = 4096 * vb_page b + ?o" and e: "vb_page b + vb_pages b \<le> 2 ^ 20"
    using ok by (simp_all add: vb_ok_def)
  have sp: "?o + unat (vb_sz b) \<le> 4096 * vb_pages b" unfolding vb_pages_def by (rule span_covers)
  then have en: "unat (vb_va b) + unat (vb_sz b) \<le> 4096 * (vb_page b + vb_pages b)"
    unfolding v distrib_left by linarith
  then show sub: "vb_client b \<subseteq> vb_bytes b"
    unfolding vb_client_def vb_bytes_def page_bytes_def using v by auto
  have "4096 * (vb_page b + vb_pages b) \<le> 2 ^ 32" using e by simp
  then show lim: "unat (vb_va b) + unat (vb_sz b) \<le> 2 ^ 32" using en by linarith
  assume i: "i < unat (vb_sz b)"
  have i32: "unat (word_of_nat i :: u32) = i" using i unat_lt [of "vb_sz b"] by (simp add: unat_of_nat)
  then have a: "unat (vb_va b + word_of_nat i) = unat (vb_va b) + i"
    using lim i by (subst unat_add_nowrap) simp_all
  then have "unat (vb_va b + word_of_nat i) \<in> vb_bytes b" using sub i by (auto simp: vb_client_def)
  then have t: "translate s (vb_va b + word_of_nat i) = Some (word_of_nat (4096 * (unat (vb_pa b) div 4096) +
      (unat (vb_va b + word_of_nat i) - 4096 * vb_page b)), flag_bits (vb_flags b))"
    using ok by (simp only: vb_ok_def)
  have "4096 * (unat (vb_pa b) div 4096) + (unat (vb_va b + word_of_nat i) - 4096 * vb_page b) =
      (4096 * (unat (vb_pa b) div 4096) + ?o) + i" unfolding a v by simp
  also have "\<dots> = unat (vb_pa b) + i" unfolding mult_div_mod_eq ..
  finally show "translate s (vb_va b + word_of_nat i) = Some (vb_pa b + word_of_nat i, flag_bits (vb_flags b))"
    unfolding t by simp
qed

subsection \<open>A concrete state\<close>

text \<open>Empty tables at 3 MiB, outside the memory the map of \<open>mm_ex\<close> has free, and 2 MiB of unused addresses.\<close>

definition vm_ex :: vm where
  "vm_ex = \<lparr> vm_map = mm_ex,
     vm_mem = wr64 (wr64 (wr64 (wr64 (\<lambda>_. 0) 0x300000 0x301001) 0x300008 0x302001) 0x300010 0x303001)
       0x300018 0x304001,
     pdpt = 0x300000,
     unused_va_ranges = [\<lparr> vr_start = 0x400000, vr_len = 0x200000 \<rparr>, \<lparr> vr_start = 0, vr_len = 0 \<rparr>],
     num_unused_va_ranges = 1, max_unused_va_ranges = 2, cr0 = 0x80000001, cr3 = 0x300000, cr4 = 0x20 \<rparr>"

lemma vm_ex_zero: "a \<notin> {0x300000..<0x300020} \<Longrightarrow> vm_mem vm_ex a = 0"
  by (cases "a < 0x300000") (simp_all add: vm_ex_def wr64_outside_slot slot_def)

lemma rd64_zero: "rd64 (\<lambda>_. 0) b = 0"
proof -
  have "get_bytes (\<lambda>_. 0) b 8 = [0, 0, 0, 0, 0, 0, 0, 0]"
    by (simp add: get_bytes_def map_replicate_const numeral_eq_Suc)
  then show ?thesis by (simp add: rd64_def)
qed

lemma vm_ex_rd: "0x300020 \<le> b \<Longrightarrow> rd64 (vm_mem vm_ex) b = 0"
  by (subst rd64_agree [of b _ "\<lambda>_. 0"]) (simp_all add: vm_ex_zero slot_def rd64_zero)

lemma vm_ex_pdpte:
  "pdpte vm_ex 0 = 0x301001" "pdpte vm_ex 1 = 0x302001" "pdpte vm_ex 2 = 0x303001" "pdpte vm_ex 3 = 0x304001"
  unfolding pdpte_def vm_ex_def by (simp_all add: rd64_wr64_apart slot_def)

lemma below_4: "(i :: nat) < 4 \<longleftrightarrow> i = 0 \<or> i = 1 \<or> i = 2 \<or> i = 3"
  by auto

lemma vm_ex_pd_base: "i < 4 \<Longrightarrow> pd_base vm_ex i = 0x301000 + 0x1000 * i"
  unfolding below_4 pd_base_def PDPT_ALIGN_def by (auto simp: vm_ex_pdpte simp del: One_nat_def)

lemma vm_ex_pde: "k < 2048 \<Longrightarrow> pde vm_ex k = 0"
proof -
  assume k: "k < 2048"
  then have "k div 512 < 4" by (simp add: less_mult_imp_div_less)
  then show ?thesis unfolding pde_def pde_addr_def by (intro vm_ex_rd) (simp add: vm_ex_pd_base)
qed

lemma vm_ex_free: "mm_free (vm_map vm_ex) \<subseteq> {..<0x204000}"
  by (auto simp: vm_ex_def mm_free_def mm_ex_ranges ranges_free_def rg_bytes_def rg_end_def ram_range_def)

lemma vm_ex_tables: "tbl_in vm_ex t \<Longrightarrow> tbl_bytes vm_ex t =
    (case t of Pdpt \<Rightarrow> {0x300000..<0x300020} | Pd i \<Rightarrow> {0x301000 + 0x1000 * i..<0x302000 + 0x1000 * i} | Pt k \<Rightarrow> {}) \<and>
    (case t of Pt k \<Rightarrow> False | _ \<Rightarrow> True)"
  by (cases t) (auto simp: vm_ex_pd_base vm_ex_pde is_table_def, auto simp: vm_ex_def)

lemma vm_ex_wf: "vm_wf vm_ex"
  unfolding vm_wf_def
proof (intro conjI allI impI)
  show "map_ok (vm_map vm_ex)" using mm_wf_at [OF mm_ex_wf] by (simp add: vm_ex_def)
  show "tbl_bytes vm_ex t \<inter> tbl_bytes vm_ex t' = {}" if "tbl_in vm_ex t" "tbl_in vm_ex t'" "t \<noteq> t'" for t t'
    using vm_ex_tables [OF that(1)] vm_ex_tables [OF that(2)] that(3) by (auto split: tbl.splits)
  show "tbl_bytes vm_ex t \<inter> mm_free (vm_map vm_ex) = {}" if "tbl_in vm_ex t" for t
  proof -
    have "tbl_bytes vm_ex t \<subseteq> {0x300000..}" using vm_ex_tables [OF that] by (auto split: tbl.splits)
    then show ?thesis using vm_ex_free by fastforce
  qed
  show "pdpte_ok (pdpte vm_ex i)" if "i < 4" for i
  proof -
    have "pdpte_ok 0x301001" "pdpte_ok 0x302001" "pdpte_ok 0x303001" "pdpte_ok 0x304001"
      unfolding pdpte_ok_def by simp_all
    then show ?thesis using that unfolding below_4 by (auto simp: vm_ex_pdpte simp del: One_nat_def)
  qed
  show "pde_ok (pde vm_ex k)" if "k < 2048" for k using that by (simp add: vm_ex_pde pde_ok_def)
qed

lemma vm_ex_translate: "translate vm_ex a = None"
proof -
  have "unat a div 4096 div 512 < 2048" using unat_lt [of a] by (simp add: less_mult_imp_div_less)
  then have "page_entry vm_ex (unat a div 4096) = 0" by (simp add: page_entry_def vm_ex_pde)
  then show ?thesis using translate_entry [OF vm_ex_wf] by (simp add: translation_def)
qed

lemma vm_ex_va_wf: "va_wf vm_ex"
proof -
  have "live_ranges vm_ex = [\<lparr> vr_start = 0x400000, vr_len = 0x200000 \<rparr>]" by (simp add: live_ranges_def vm_ex_def)
  then have "vrs_wf vm_ex" by (simp add: vrs_wf_def) (simp add: vm_ex_def vr_ok_def vr_end_def)
  then show ?thesis using vm_ex_wf vm_ex_translate by (simp add: va_wf_def)
qed

text \<open>A large page, and after it the addresses are used up.\<close>

lemma vm_ex_map: "\<exists>s'. mem_va_map vm_ex 0x80000000000 0x200000 PTE_CD = Some (Inr (0x400000, s'))"
proof -
  have "p_pde_of s 0x400000 = pde_addr s 2" for s by (simp add: p_pde_of_eq)
  moreover have "pde (carve vm_ex 0 512) 2 = 0" using vm_ex_pde [of 2] by (simp add: carve_def Let_def)
  ultimately have p: "rd64 (vm_mem (carve vm_ex 0 512)) (p_pde_of (carve vm_ex 0 512) 0x400000) = 0"
    by (simp add: pde_def)
  have "\<exists>s'. do_va_map (carve vm_ex 0 512) 0x400000 0x80000000000 0x200000 PTE_CD = Some (Inr s')"
    by (subst do_va_map.simps, simp add: p LARGE_PAGE_SIZE_def Let_def, subst do_va_map.simps, simp)
  then obtain s' where s': "do_va_map (carve vm_ex 0 512) 0x400000 0x80000000000 0x200000 PTE_CD = Some (Inr s')" by blast
  have c: "carve vm_ex 0 512 = vm_ex\<lparr> unused_va_ranges := [\<lparr> vr_start = 0x400000, vr_len = 0 \<rparr>, \<lparr> vr_start = 0, vr_len = 0 \<rparr>] \<rparr>"
    by (simp add: carve_def vm_ex_def Let_def)
  have n: "num_unused_va_ranges vm_ex = 1" "unused_va_ranges vm_ex =
      [\<lparr> vr_start = 0x400000, vr_len = 0x200000 \<rparr>, \<lparr> vr_start = 0, vr_len = 0 \<rparr>]" by (simp_all add: vm_ex_def)
  have "mem_va_map vm_ex 0x80000000000 0x200000 PTE_CD = Some (Inr (0x400000, s'))"
    unfolding mem_va_map_def Let_def n(1)
    using s' unfolding c by (simp add: PAGE_SIZE_def XM32_MAX_ADDR_def n(2) Let_def)
  then show ?thesis by blast
qed

lemma vm_ex_req: "va_req_ok (0x80000000000, 0x200000, PTE_CD)"
  by (simp add: va_req_ok_def flags_ok_def pg_consts)

subsection \<open>Properties\<close>

text \<open>
  C15. \<^verbatim>\<open>mem_va_map\<close> of a non-empty block below 2^52, from a state with the invariant, always ends, in one
  of three ways. It returns: the addresses it hands out were unused and are not unused any more, each
  of the bytes asked for translates to its physical address with the attributes asked for, the
  translation of every address outside the block stays as it was, and the invariant holds again. It
  halts. Or \<^verbatim>\<open>mem_alloc\<close> walks in front of the array of ranges, while a page table is allocated: this
  happens only if the RAM below 4 GiB has no room for one page for each page-directory entry that does
  not refer to a table yet.
\<close>

theorem mem_va_map_correct:
  assumes "va_wf s" and "flags_ok fl" and "0 < sz" and "unat pa + unat sz \<le> 2 ^ 52"
  shows "\<exists>r. mem_va_map s pa sz fl = Some r \<and>
    (\<forall>v s'. r = Inr (v, s') \<longrightarrow>
       va_wf s' \<and> unat v + unat sz \<le> 2 ^ 32 \<and>
       {unat v..<unat v + unat sz} \<subseteq> va_unused s - va_unused s' \<and> va_unused s' \<subseteq> va_unused s \<and>
       (\<forall>i<unat sz. translate s' (v + word_of_nat i) = Some (pa + word_of_nat i, flag_bits fl)) \<and>
       (\<forall>a. unat a \<notin> va_unused s - va_unused s' \<longrightarrow> translate s' a = translate s a)) \<and>
    (\<forall>e. r = Inl e \<longrightarrow> e = Hlt \<or>
       e = Out_of_bounds \<and> out_of_ram (vm_map s) (replicate (2048 - tables s) page_req))"
proof -
  obtain r where r: "mem_va_map s pa sz fl = Some r"
    and sp: "\<And>v s'. r = Inr (v, s') \<Longrightarrow> \<exists>vp. unat v = 4096 * vp + unat pa mod 4096 \<and>
      block_mapped s vp (unat pa div 4096) (span (unat pa) (unat sz)) fl s'"
    and err: "\<And>e. r = Inl e \<Longrightarrow> vm_error s e"
    using mem_va_map_spec [OF assms] by blast
  have "va_wf s' \<and> unat v + unat sz \<le> 2 ^ 32 \<and>
       {unat v..<unat v + unat sz} \<subseteq> va_unused s - va_unused s' \<and> va_unused s' \<subseteq> va_unused s \<and>
       (\<forall>i<unat sz. translate s' (v + word_of_nat i) = Some (pa + word_of_nat i, flag_bits fl)) \<and>
       (\<forall>a. unat a \<notin> va_unused s - va_unused s' \<longrightarrow> translate s' a = translate s a)"
    if run: "r = Inr (v, s')" for v s'
  proof -
    obtain vp where v: "unat v = 4096 * vp + unat pa mod 4096"
      and m: "block_mapped s vp (unat pa div 4096) (span (unat pa) (unat sz)) fl s'" using sp [OF run] by blast
    note n = new_block_ok [OF assms(1,3) v m]
    note c = vb_client_spec [OF n(1), unfolded vb_client_def n(2), simplified]
    have "va_unused s - va_unused s' = page_bytes vp (span (unat pa) (unat sz))"
      using m by (auto simp: block_mapped_def)
    then show ?thesis using c m by (auto simp: block_mapped_def)
  qed
  then show ?thesis using r err unfolding vm_error_def by blast
qed

theorem mem_va_map_correct_witness:
  "va_wf vm_ex \<and> flags_ok PTE_CD \<and>
   (\<exists>s'. mem_va_map vm_ex 0x80000000000 0x200000 PTE_CD = Some (Inr (0x400000, s')) \<and>
      translate s' 0x400004 = Some (0x80000000004, flag_bits PTE_CD))"
proof -
  obtain s' where s': "mem_va_map vm_ex 0x80000000000 0x200000 PTE_CD = Some (Inr (0x400000, s'))"
    using vm_ex_map by blast
  have h: "flags_ok PTE_CD" "(0 :: u32) < 0x200000" "unat (0x80000000000 :: u64) + unat (0x200000 :: u32) \<le> 2 ^ 52"
    using vm_ex_req by (simp_all add: va_req_ok_def)
  have "\<forall>i<unat (0x200000 :: u32). translate s' (0x400000 + word_of_nat i) =
      Some (0x80000000000 + word_of_nat i, flag_bits PTE_CD)"
    using mem_va_map_correct [OF vm_ex_va_wf h] s' by auto
  from spec [OF this, of 4] have "translate s' 0x400004 = Some (0x80000000004, flag_bits PTE_CD)" by simp
  then show ?thesis using vm_ex_va_wf h(1) s' by blast
qed

lemma session_inv_safe:
  assumes inv: "session_inv s (s', bs)"
  shows "\<forall>b\<in>set bs. \<forall>i<unat (vb_sz b).
       translate s' (vb_va b + word_of_nat i) = Some (vb_pa b + word_of_nat i, flag_bits (vb_flags b))"
    and "pairwise_disjoint (map vb_client bs)" and "\<forall>b\<in>set bs. vb_client b \<subseteq> va_unused s"
    and "\<forall>a. unat a \<in> va_unused s' \<longrightarrow> translate s' a = None"
    and "\<forall>a. unat a \<notin> va_unused s \<longrightarrow> translate s' a = translate s a"
    and "\<forall>i. i \<notin> vm_owned s \<longrightarrow> vm_mem s' i = vm_mem s i"
proof -
  have ok: "vb_ok s' b" if "b \<in> set bs" for b using that inv by (simp add: session_inv_def list_all_iff)
  show "\<forall>b\<in>set bs. \<forall>i<unat (vb_sz b).
       translate s' (vb_va b + word_of_nat i) = Some (vb_pa b + word_of_nat i, flag_bits (vb_flags b))"
    using ok vb_client_spec(3) by blast
  have "pairwise_disjoint (map vb_bytes bs)" using inv by (simp add: session_inv_def)
  then show "pairwise_disjoint (map vb_client bs)"
    by (rule pairwise_disjoint_shrink) (use ok vb_client_spec(1) in blast)
  show "\<forall>b\<in>set bs. vb_client b \<subseteq> va_unused s"
  proof
    fix b
    assume b: "b \<in> set bs"
    have "vb_bytes b \<subseteq> va_unused s" using inv b unfolding session_inv_def fst_conv snd_conv by blast
    then show "vb_client b \<subseteq> va_unused s" using vb_client_spec(1) [OF ok [OF b]] by blast
  qed
  show "\<forall>a. unat a \<in> va_unused s' \<longrightarrow> translate s' a = None"
    "\<forall>a. unat a \<notin> va_unused s \<longrightarrow> translate s' a = translate s a"
    "\<forall>i. i \<notin> vm_owned s \<longrightarrow> vm_mem s' i = vm_mem s i"
    using inv by (simp_all add: session_inv_def va_wf_def mem_kept_def)
qed

text \<open>
  C11. In every sequence of mappings and unmappings from a state with the invariant: each live
  block translates byte by byte to the physical memory it was made for, with its attributes;
  live blocks do not share an address; unused addresses do not translate; and an address that
  was not unused at the start translates as it did then; no byte of memory changes outside the
  page tables and the memory the allocator has left.
\<close>

theorem va_sessions_safe:
  assumes "va_wf s" and "va_step\<^sup>*\<^sup>* (s, []) (s', bs)"
  shows "(\<forall>b\<in>set bs. \<forall>i<unat (vb_sz b).
       translate s' (vb_va b + word_of_nat i) = Some (vb_pa b + word_of_nat i, flag_bits (vb_flags b))) \<and>
     pairwise_disjoint (map vb_client bs) \<and>
     (\<forall>a. unat a \<in> va_unused s' \<longrightarrow> translate s' a = None) \<and>
     (\<forall>a. unat a \<notin> va_unused s \<longrightarrow> translate s' a = translate s a) \<and>
     (\<forall>i. i \<notin> vm_owned s \<longrightarrow> vm_mem s' i = vm_mem s i)"
  using session_inv_safe [OF session_inv_reach [OF assms(2,1)]] by blast

theorem va_sessions_safe_witness:
  "va_wf vm_ex \<and>
   (\<exists>s' b. va_step\<^sup>*\<^sup>* (vm_ex, []) (s', [b]) \<and> vb_pa b = 0x80000000000 \<and>
      translate s' (vb_va b + word_of_nat 7) = Some (vb_pa b + word_of_nat 7, flag_bits PTE_CD))"
proof -
  obtain s' where s': "mem_va_map vm_ex 0x80000000000 0x200000 PTE_CD = Some (Inr (0x400000, s'))"
    using vm_ex_map by blast
  let ?b = "\<lparr> vb_va = 0x400000, vb_pa = 0x80000000000, vb_sz = 0x200000, vb_flags = PTE_CD \<rparr>"
  have step: "va_step\<^sup>*\<^sup>* (vm_ex, []) (s', [?b])"
    by (rule r_into_rtranclp) (rule va_map [OF vm_ex_req s'])
  have "\<forall>b\<in>set [?b]. \<forall>i<unat (vb_sz b).
       translate s' (vb_va b + word_of_nat i) = Some (vb_pa b + word_of_nat i, flag_bits (vb_flags b))"
    using va_sessions_safe [OF vm_ex_va_wf step] by blast
  then have "\<forall>i<unat (vb_sz ?b). translate s' (vb_va ?b + word_of_nat i) =
      Some (vb_pa ?b + word_of_nat i, flag_bits (vb_flags ?b))" by (rule bspec) simp
  from spec [OF this, of 7] have "translate s' (vb_va ?b + word_of_nat 7) =
      Some (vb_pa ?b + word_of_nat 7, flag_bits (vb_flags ?b))" by simp
  then show ?thesis using vm_ex_va_wf step by (intro conjI exI [of _ s'] exI [of _ ?b]) simp_all
qed

text \<open>
  C27. Unmapping a live block always returns, and never touches memory out of bounds: it gives the
  addresses back, unless the array of unused ranges is full, when it halts.
\<close>

theorem mem_va_unmap_returns:
  assumes "va_wf s" and "va_step\<^sup>*\<^sup>* (s, []) (s', bs)" and "b \<in> set bs"
  shows "\<exists>r. mem_va_unmap s' (vb_va b) (vb_sz b) = Some r \<and>
    (r = Inl Hlt \<and> num_unused_va_ranges s' = max_unused_va_ranges s' \<or>
     (\<exists>s''. r = Inr s'' \<and> va_step (s', bs) (s'', remove1 b bs) \<and> vb_client b \<subseteq> va_unused s''))"
proof -
  have inv: "session_inv s (s', bs)" by (rule session_inv_reach [OF assms(2,1)])
  then have "vb_client b \<subseteq> vb_bytes b"
    using assms(3) by (intro vb_client_spec(1)) (auto simp: session_inv_def list_all_iff)
  then show ?thesis using unmap_live [OF inv assms(3)] va_unmap [OF assms(3)] by blast
qed

theorem mem_va_unmap_returns_witness:
  "va_wf vm_ex \<and>
   (\<exists>s' b. va_step\<^sup>*\<^sup>* (vm_ex, []) (s', [b]) \<and>
      (\<exists>r. mem_va_unmap s' (vb_va b) (vb_sz b) = Some r))"
proof -
  obtain s' where s': "mem_va_map vm_ex 0x80000000000 0x200000 PTE_CD = Some (Inr (0x400000, s'))"
    using vm_ex_map by blast
  let ?b = "\<lparr> vb_va = 0x400000, vb_pa = 0x80000000000, vb_sz = 0x200000, vb_flags = PTE_CD \<rparr>"
  have step: "va_step\<^sup>*\<^sup>* (vm_ex, []) (s', [?b])"
    by (rule r_into_rtranclp) (rule va_map [OF vm_ex_req s'])
  from mem_va_unmap_returns [OF vm_ex_va_wf step, of ?b] have
    "\<exists>r. mem_va_unmap s' (vb_va ?b) (vb_sz ?b) = Some r" by auto
  then show ?thesis using vm_ex_va_wf step by blast
qed

text \<open>
  C16. Mapping a block and unmapping it again brings back the translation of every address and the
  set of unused addresses; it halts only when the array of unused ranges is full.
\<close>

theorem map_unmap_roundtrip:
  assumes "va_wf s" and "va_req_ok (pa, sz, fl)" and "mem_va_map s pa sz fl = Some (Inr (v, s1))"
  shows "\<exists>r. mem_va_unmap s1 v sz = Some r \<and>
    (r = Inl Hlt \<and> num_unused_va_ranges s1 = max_unused_va_ranges s1 \<or>
     (\<exists>s2. r = Inr s2 \<and> va_wf s2 \<and> va_unused s2 = va_unused s \<and> (\<forall>a. translate s2 a = translate s a)))"
proof -
  let ?b = "\<lparr> vb_va = v, vb_pa = pa, vb_sz = sz, vb_flags = fl \<rparr>"
  have inv: "session_inv s (s1, [?b])" by (rule session_inv_map [OF session_inv_init [OF assms(1)] assms(2,3)])
  have given: "va_unused s1 \<union> vb_bytes ?b = va_unused s" using inv by (simp add: session_inv_def)
  have "translate s2 a = translate s a"
    if "\<forall>a. translate s2 a = (if unat a \<in> vb_bytes ?b then None else translate s1 a)" for s2 a
  proof -
    have "translate s a = None" if "unat a \<in> vb_bytes ?b" using va_wf_unused [OF assms(1)] that given by blast
    moreover have "translate s1 a = translate s a" if "unat a \<notin> vb_bytes ?b"
    proof (cases "unat a \<in> va_unused s")
      case True
      then have "unat a \<in> va_unused s1" using that given by blast
      then show ?thesis using va_wf_unused [OF assms(1) True] va_wf_unused [of s1 a] inv by (simp add: session_inv_def)
    next
      case False
      then show ?thesis using inv by (simp add: session_inv_def)
    qed
    ultimately show ?thesis using that by auto
  qed
  note tr = this
  have b: "?b \<in> set [?b]" by simp
  from unmap_live [OF inv b] obtain r where r: "mem_va_unmap s1 v sz = Some r"
    and cases: "(\<exists>s'. r = Inr s' \<and> va_wf s' \<and> va_unused s' = va_unused s1 \<union> vb_bytes ?b \<and>
        (\<forall>a. translate s' a = (if unat a \<in> vb_bytes ?b then None else translate s1 a))) \<or>
      r = Inl Hlt \<and> num_unused_va_ranges s1 = max_unused_va_ranges s1"
    by (simp only: va_block.simps) blast
  from cases show ?thesis unfolding r given using tr by blast
qed

theorem map_unmap_roundtrip_witness:
  "va_wf vm_ex \<and> va_req_ok (0x80000000000, 0x200000, PTE_CD) \<and>
   (\<exists>s1. mem_va_map vm_ex 0x80000000000 0x200000 PTE_CD = Some (Inr (0x400000, s1)) \<and>
      (\<exists>r. mem_va_unmap s1 0x400000 0x200000 = Some r))"
proof -
  obtain s1 where s1: "mem_va_map vm_ex 0x80000000000 0x200000 PTE_CD = Some (Inr (0x400000, s1))"
    using vm_ex_map by blast
  from map_unmap_roundtrip [OF vm_ex_va_wf vm_ex_req s1] show ?thesis
    using vm_ex_va_wf vm_ex_req s1 by blast
qed

text \<open>
  C26. \<^verbatim>\<open>ensure_pt\<close> always ends: when it returns, the page-directory entry refers to the table
  it returns, and no translation has changed: a large page is now 512 small ones, a missing
  table is an empty one. Otherwise it needed a new table and halted, or found no RAM for a page.
\<close>

theorem ensure_pt_keeps_translation:
  assumes "vm_wf s" and "k < 2048"
  shows "\<exists>r. ensure_pt s (pde_addr s k) = Some r \<and>
    (\<forall>pt s'. r = Inr (pt, s') \<longrightarrow>
       vm_wf s' \<and> is_table (pde s' k) \<and> pt_base (pde s' k) = unat pt \<and> (\<forall>a. translate s' a = translate s a)) \<and>
    (\<forall>e. r = Inl e \<longrightarrow> e = Hlt \<or> e = Out_of_bounds \<and> out_of_ram (vm_map s) [page_req] \<and> \<not> is_table (pde s k))"
proof -
  have page: "unat a div 4096 < 2 ^ 20" for a :: u32
    using unat_lt [of a] by (simp add: less_mult_imp_div_less)
  have "translate s' a = translate s a"
    if "vm_wf s'" "\<forall>n<2 ^ 20. page_entry s' n = page_entry s n" for s' a
    using that page [of a] translate_entry [OF that(1)] translate_entry [OF assms(1)] by simp
  then show ?thesis using ensure_pt_spec [OF assms] by meson
qed

theorem ensure_pt_keeps_translation_witness:
  "\<exists>s. vm_wf s \<and> translate s 0x400007 = Some (0x80000000007, flag_bits PTE_CD) \<and>
     (\<exists>r. ensure_pt s (pde_addr s 2) = Some r \<and>
        (\<forall>pt s'. r = Inr (pt, s') \<longrightarrow> translate s' 0x400007 = Some (0x80000000007, flag_bits PTE_CD)))"
proof -
  obtain s where s: "mem_va_map vm_ex 0x80000000000 0x200000 PTE_CD = Some (Inr (0x400000, s))"
    using vm_ex_map by blast
  let ?b = "\<lparr> vb_va = 0x400000, vb_pa = 0x80000000000, vb_sz = 0x200000, vb_flags = PTE_CD \<rparr>"
  have inv: "session_inv vm_ex (s, [?b])"
    by (rule session_inv_map [OF session_inv_init [OF vm_ex_va_wf] vm_ex_req s])
  then have wf: "vm_wf s" and ok: "vb_ok s ?b" by (simp_all add: session_inv_def va_wf_def)
  have t: "translate s 0x400007 = Some (0x80000000007, flag_bits PTE_CD)"
    using vb_client_spec(3) [OF ok, of 7] by simp
  have "(2 :: nat) < 2048" by simp
  from ensure_pt_keeps_translation [OF wf this] wf t show ?thesis by (metis (no_types, lifting))
qed

end
