(* ===== verification/Va_Init.thy ===== *)
theory Va_Init
  imports Va_Session
begin

text \<open>
  The set-up of virtual memory in stage 2, \<^verbatim>\<open>va_init\<close> of \<^verbatim>\<open>stage2/mem.c\<close>: the unused virtual
  address ranges are the holes of the physical memory map, the rest is mapped to itself, and
  memory that is not write-back cacheable gets its attributes. This theory has the functions
  and the lemmas on the unused ranges and on the new tables.
\<close>

unbundle bit_operations_syntax

subsection \<open>The functions\<close>

text \<open>The first loop; \<open>i\<close> is its index and \<open>n\<close> the number of iterations left.\<close>

fun find_unused :: "mem_map \<Rightarrow> nat \<Rightarrow> nat \<Rightarrow> va_range list \<Rightarrow> u32 \<Rightarrow> (va_range list \<times> u32) res" where
  "find_unused mp i 0 vrs nvr = Inr (vrs, nvr)"
| "find_unused mp i (Suc n) vrs nvr =
     bindr (arr_get (mem_ranges mp) (i - 1)) (\<lambda>r.
       let prev_end = rg_start r + rg_len r in
       if prev_end - 1 \<ge> XM32_MAX_ADDR - 1 then Inr (vrs, nvr) else
       let prev_end = (prev_end + ucast PAGE_SIZE - 1) AND - (ucast PAGE_SIZE) in
       if prev_end - 1 \<ge> XM32_MAX_ADDR - 1 then Inr (vrs, nvr) else
       let prev_end = (if prev_end < BMEM_MAX_ADDR then BMEM_MAX_ADDR else prev_end) in
       bindr (if i = unat (num_mem_ranges mp) then Inr XM32_MAX_ADDR
              else bindr (arr_get (mem_ranges mp) i) (\<lambda>r'.
                let start = rg_start r' AND - (ucast PAGE_SIZE) in
                Inr (if start > XM32_MAX_ADDR then XM32_MAX_ADDR else start))) (\<lambda>start.
       if prev_end \<ge> start then find_unused mp (i + 1) n vrs nvr
       else bindr (arr_set vrs (unat nvr)
              \<lparr> vr_start = ucast prev_end, vr_len = ucast start - ucast prev_end \<rparr>) (\<lambda>vrs'.
              find_unused mp (i + 1) n vrs' (nvr + 1))))"

text \<open>The loop that makes the page directories.\<close>

fun make_pds :: "nat \<Rightarrow> nat \<Rightarrow> vm \<Rightarrow> vm res option" where
  "make_pds i 0 s = Some (Inr s)"
| "make_pds i (Suc n) s =
     bindo (mem_alloc (vm_map s) PAGE_SIZE PAGE_SIZE 0) (\<lambda>(pd, mp).
       let m = put_bytes (vm_mem s) (unat pd) (replicate (unat PAGE_SIZE) 0)
       in make_pds (i + 1) n
            (s\<lparr> vm_map := mp, vm_mem := wr64 m (unat (pdpt s) + 8 * i) (ucast pd OR ucast PTE_P) \<rparr>))"

text \<open>The loop that maps what lies between two unused ranges.\<close>

fun map_between :: "nat \<Rightarrow> nat \<Rightarrow> vm \<Rightarrow> vm res option" where
  "map_between i 0 s = Some (Inr s)"
| "map_between i (Suc n) s =
     bindo (Some (arr_get (unused_va_ranges s) (i - 1))) (\<lambda>prev.
     bindo (Some (arr_get (unused_va_ranges s) i)) (\<lambda>vr.
       let prev_end = vr_start prev + vr_len prev; start = vr_start vr in
       bindo (do_va_id_map s prev_end (start - prev_end) 0) (map_between (i + 1) n)))"

definition map_identity :: "vm \<Rightarrow> vm res option" where
  "map_identity s =
     bindo (Some (arr_get (unused_va_ranges s) 0)) (\<lambda>vr.
     bindo (Some (arr_get (mem_ranges (vm_map s)) 0)) (\<lambda>mr.
     bindo (do_va_id_map s 0 (vr_start vr) (uefi_attr_to_pte_flags (rg_uefi_attr mr)))
       (map_between 1 (unat (num_unused_va_ranges s) - 1))))"

text \<open>The loop over the memory ranges that are not write-back cacheable.\<close>

function skip_past :: "mem_map \<Rightarrow> u64 \<Rightarrow> nat \<Rightarrow> nat res" where
  "skip_past mp start64 i =
     (if i < unat (num_mem_ranges mp) then
        bindr (arr_get (mem_ranges mp) i) (\<lambda>mr.
          if rg_start mr \<le> start64 then skip_past mp start64 (i + 1) else Inr i)
      else Inr i)"
  by pat_completeness auto
termination by (relation "measure (\<lambda>(mp, _, i). unat (num_mem_ranges mp) - i)") auto

declare skip_past.simps [simp del]

text \<open>The start and the length that are mapped for a range.\<close>

definition attr_extent :: "mem_range \<Rightarrow> u32 \<times> u32" where
  "attr_extent mr =
     (let start = ucast (rg_start mr) :: u32; len64 = rg_len mr;
          len = (if len64 \<ge> XM32_MAX_ADDR - ucast start then ucast XM32_MAX_ADDR - start else ucast len64);
          len = (if start mod PAGE_SIZE \<noteq> 0 then len + start mod PAGE_SIZE else len);
          start = (if start mod PAGE_SIZE \<noteq> 0 then start AND - PAGE_SIZE else start)
      in (start, if len mod PAGE_SIZE \<noteq> 0 then (len + PAGE_SIZE - 1) AND - PAGE_SIZE else len))"

partial_function (option) fix_attrs :: "nat \<Rightarrow> vm \<Rightarrow> vm res option" where
  "fix_attrs i s =
     (if i < unat (num_mem_ranges (vm_map s)) then
        bindo (Some (arr_get (mem_ranges (vm_map s)) i)) (\<lambda>mr.
          let pte_flags = uefi_attr_to_pte_flags (rg_uefi_attr mr); start64 = rg_start mr in
          if pte_flags = 0 then fix_attrs (i + 1) s
          else if start64 \<ge> XM32_MAX_ADDR then fix_attrs (i + 1) s
          else
            bindo (do_va_id_map s (fst (attr_extent mr)) (snd (attr_extent mr)) pte_flags) (\<lambda>s'.
            bindo (Some (skip_past (vm_map s') start64 i)) (\<lambda>i'. fix_attrs i' s')))
      else Some (Inr s))"

definition paging_on :: "vm \<Rightarrow> vm" where
  "paging_on s = s\<lparr> cr4 := cr4 s OR CR4_PAE, cr3 := pdpt s, cr0 := cr0 s OR CR0_PG \<rparr>"

text \<open>\<open>raw\<close> is what the array of unused ranges holds before it is written.\<close>

definition va_init :: "(nat \<Rightarrow> va_range) \<Rightarrow> vm \<Rightarrow> vm res option" where
  "va_init raw s =
     (let mvr = max_mem_ranges (vm_map s) in
      bindo (mem_alloc (vm_map s) (mvr * 8) 4 0) (\<lambda>(_, mp).
      bindo (Some (find_unused mp 1 (unat (num_mem_ranges mp)) (map raw [0..<unat mvr]) 0)) (\<lambda>(vrs, nvr).
      bindo (mem_alloc mp (4 * 8) PDPT_ALIGN 0) (\<lambda>(table, mp').
      bindo (make_pds 0 4 (s\<lparr> vm_map := mp', pdpt := table, unused_va_ranges := vrs,
               num_unused_va_ranges := nvr, max_unused_va_ranges := mvr \<rparr>)) (\<lambda>s1.
      bindo (map_identity s1) (\<lambda>s2.
      bindo (fix_attrs 0 s2) (\<lambda>s3.
        Some (Inr (paging_on s3)))))))))"

subsection \<open>The holes of the memory map\<close>

text \<open>
  An address is in a hole when it is at least 1 MiB, above the start of the first range, and on
  a page that no range touches.
\<close>

definition holes :: "mem_map \<Rightarrow> nat set" where
  "holes mp = {a. 2 ^ 20 \<le> a \<and> a < 2 ^ 32 \<and> (\<exists>b\<in>covered mp. b < a) \<and>
     (\<forall>b\<in>covered mp. b div 4096 \<noteq> a div 4096)}"

definition vr_before :: "va_range \<Rightarrow> va_range \<Rightarrow> bool" where
  "vr_before a b \<longleftrightarrow> vr_end a \<le> unat (vr_start b)"

text \<open>The ranges found so far are the holes below the limit \<open>L\<close>.\<close>

definition holes_found :: "mem_map \<Rightarrow> va_range list \<Rightarrow> nat \<Rightarrow> bool" where
  "holes_found mp xs L \<longleftrightarrow> list_all vr_ok xs \<and> sorted_wrt vr_before xs \<and>
     \<Union>(vr_set ` set xs) = {a \<in> holes mp. a < L} \<and>
     (\<forall>r\<in>set xs. vr_end r \<le> L \<and> 0 < vr_len r)"

lemma unat_last:
  assumes "rg_ok r"
  shows "unat (rg_start r + rg_len r - 1) = rg_end r - 1"
proof -
  have le: "1 \<le> rg_len r" using assms by (simp add: rg_ok_def word_le_nat_alt)
  then have "unat (rg_len r - 1) = unat (rg_len r) - 1" by (subst unat_sub) simp_all
  moreover have "unat (rg_start r + (rg_len r - 1)) = unat (rg_start r) + unat (rg_len r - 1)"
    using assms calculation by (intro unat_add_nowrap) (simp add: rg_ok_def rg_end_def, linarith)
  ultimately show ?thesis using assms by (simp add: rg_ok_def rg_end_def algebra_simps)
qed

lemma past_4G:
  "(XM32_MAX_ADDR - 1 \<le> e - 1) \<longleftrightarrow> 2 ^ 32 \<le> n" if "unat (e - 1) = n - 1" "0 < n" for e :: u64
  using that by (auto simp: word_le_nat_alt XM32_MAX_ADDR_def)

text \<open>The hole after a range, as numbers.\<close>

definition ceil_page :: "nat \<Rightarrow> nat" where
  "ceil_page n = (n + 4095) div 4096 * 4096"

definition floor_page :: "nat \<Rightarrow> nat" where
  "floor_page n = n div 4096 * 4096"

lemma unat_ceil64:
  assumes "unat (e :: u64) < 2 ^ 32"
  shows "unat ((e + ucast PAGE_SIZE - 1) AND - (ucast PAGE_SIZE)) = ceil_page (unat e)"
proof -
  have "e + ucast PAGE_SIZE - 1 = e + 4095" by (simp add: PAGE_SIZE_def)
  moreover have "unat (e + 4095) = unat e + 4095" using assms by (subst unat_add_nowrap) simp_all
  ultimately show ?thesis by (simp only: unat_page_floor64 ceil_page_def)
qed

lemma above_page: "0 < e \<Longrightarrow> (ceil_page e \<le> a \<longleftrightarrow> (e - 1) div 4096 < a div 4096)"
proof -
  assume "0 < e"
  then have "e + 4095 = (e - 1) + 4096" by simp
  then have "(e + 4095) div 4096 = (e - 1) div 4096 + 1" by (simp only: div_add_self2)
  then have "ceil_page e \<le> a \<longleftrightarrow> (e - 1) div 4096 + 1 \<le> a div 4096"
    unfolding ceil_page_def by (simp only: less_eq_div_iff_mult_less_eq)
  then show ?thesis by linarith
qed

lemma below_page: "a < floor_page n \<longleftrightarrow> a div 4096 < n div 4096"
  unfolding floor_page_def by (simp add: div_less_iff_less_mult)

definition gap_lo :: "mem_map \<Rightarrow> nat \<Rightarrow> nat" where
  "gap_lo mp i = max (2 ^ 20) (ceil_page (rg_end (ranges mp ! (i - 1))))"

definition gap_hi :: "mem_map \<Rightarrow> nat \<Rightarrow> nat" where
  "gap_hi mp i =
     (if i = length (ranges mp) then 2 ^ 32 else min (2 ^ 32) (floor_page (unat (rg_start (ranges mp ! i)))))"

definition limit :: "mem_map \<Rightarrow> nat \<Rightarrow> nat" where
  "limit mp i = (if i \<le> length (ranges mp) then max (2 ^ 20) (unat (rg_start (ranges mp ! (i - 1)))) else 2 ^ 32)"

lemma ranges_order:
  assumes "mm_wf_at B mp" and "j < length (ranges mp)"
  shows "rg_ok (ranges mp ! j)"
    and "i < j \<Longrightarrow> rg_end (ranges mp ! i) \<le> unat (rg_start (ranges mp ! j)) \<or>
      rg_end (ranges mp ! i) \<le> B \<and> rg_end (ranges mp ! j) \<le> B"
proof -
  have wf: "ranges_wf_at B (ranges mp)" using assms(1) by (simp add: mm_wf_at_def)
  then show "rg_ok (ranges mp ! j)" using assms(2) by (simp add: ranges_wf_at_def list_all_length)
  show "i < j \<Longrightarrow> rg_end (ranges mp ! i) \<le> unat (rg_start (ranges mp ! j)) \<or>
      rg_end (ranges mp ! i) \<le> B \<and> rg_end (ranges mp ! j) \<le> B"
    using sorted_wrt_nth_less [of "rg_before_at B" "ranges mp" i j] wf assms(2)
    by (auto simp: ranges_wf_at_def rg_before_at_def rg_before_def)
qed

lemma rg_ok_start: "rg_ok r \<Longrightarrow> unat (rg_start r) < rg_end r"
  by (simp add: rg_ok_def rg_end_def)

lemma in_covered: "b \<in> covered mp \<longleftrightarrow> (\<exists>j<length (ranges mp). b \<in> rg_bytes (ranges mp ! j))"
  unfolding covered_def UN_iff Bex_def in_set_conv_nth by auto

lemma hole_above:
  assumes wf: "map_ok mp" and j: "j < length (ranges mp)" and a: "a \<in> holes mp" "unat (rg_start (ranges mp ! j)) \<le> a"
  shows "ceil_page (rg_end (ranges mp ! j)) \<le> a"
proof -
  let ?e = "rg_end (ranges mp ! j)"
  have st: "unat (rg_start (ranges mp ! j)) < ?e" using ranges_order(1) [OF wf j] by (rule rg_ok_start)
  have "?e - 1 \<in> covered mp" unfolding in_covered using j st by (auto simp: rg_bytes_def)
  then have ne: "(?e - 1) div 4096 \<noteq> a div 4096" using a(1) by (simp add: holes_def)
  have "\<not> a div 4096 < (?e - 1) div 4096"
  proof
    assume "a div 4096 < (?e - 1) div 4096"
    then have "a < ?e - 1" by (metis div_le_mono linorder_not_less)
    then have "a \<in> covered mp" unfolding in_covered using j a(2) by (auto simp: rg_bytes_def)
    then show False using a(1) by (auto simp: holes_def)
  qed
  then show ?thesis using ne st above_page [of ?e a] by simp
qed

lemma holes_between:
  assumes wf: "map_ok mp" and i: "1 \<le> i" "i \<le> length (ranges mp)"
  shows "{a \<in> holes mp. limit mp i \<le> a \<and> a < limit mp (i + 1)} = {gap_lo mp i..<gap_hi mp i}"
proof (intro set_eqI iffI)
  let ?rs = "ranges mp" and ?e = "rg_end (ranges mp ! (i - 1))"
  have i1: "i - 1 < length ?rs" using i by simp
  fix a
  assume a: "a \<in> {a \<in> holes mp. limit mp i \<le> a \<and> a < limit mp (i + 1)}"
  then have h: "a \<in> holes mp" "unat (rg_start (?rs ! (i - 1))) \<le> a" "2 ^ 20 \<le> a"
    using i by (simp_all add: limit_def)
  then have lo: "gap_lo mp i \<le> a" using hole_above [OF wf i1] by (simp add: gap_lo_def holes_def)
  have "a < gap_hi mp i"
  proof (cases "i = length ?rs")
    case True
    then show ?thesis using h(1) by (simp add: gap_hi_def holes_def)
  next
    case False
    then have il: "i < length ?rs" using i by simp
    have "unat (rg_start (?rs ! i)) \<in> covered mp"
      unfolding in_covered using il rg_ok_start [OF ranges_order(1) [OF wf il]] by (auto simp: rg_bytes_def)
    then have "unat (rg_start (?rs ! i)) div 4096 \<noteq> a div 4096" using h(1) by (simp add: holes_def)
    moreover have "a < unat (rg_start (?rs ! i))" using a il h(3) by (auto simp: limit_def)
    then have "a div 4096 \<le> unat (rg_start (?rs ! i)) div 4096" by (intro div_le_mono) simp
    ultimately show ?thesis using h(1) False by (simp add: gap_hi_def below_page holes_def)
  qed
  then show "a \<in> {gap_lo mp i..<gap_hi mp i}" using lo by simp
next
  let ?rs = "ranges mp" and ?e = "rg_end (ranges mp ! (i - 1))"
  have i1: "i - 1 < length ?rs" using i by simp
  have st: "unat (rg_start (?rs ! (i - 1))) < ?e" by (rule rg_ok_start [OF ranges_order(1) [OF wf i1]])
  fix a
  assume a: "a \<in> {gap_lo mp i..<gap_hi mp i}"
  then have r: "2 ^ 20 \<le> a" "ceil_page ?e \<le> a" "a < 2 ^ 32"
    by (auto simp: gap_lo_def gap_hi_def split: if_splits)
  have pg: "(?e - 1) div 4096 < a div 4096" using r(2) st above_page [of ?e a] by simp
  then have ea: "?e - 1 < a" by (metis div_le_mono linorder_not_less)
  have up: "a div 4096 < unat (rg_start (?rs ! i)) div 4096" if "i < length ?rs"
    using a that by (auto simp: gap_hi_def below_page)
  have "b div 4096 \<noteq> a div 4096" if "b \<in> covered mp" for b
  proof -
    obtain j where j: "j < length ?rs" "b \<in> rg_bytes (?rs ! j)" using \<open>b \<in> covered mp\<close> by (auto simp: in_covered)
    show ?thesis
    proof (cases "j \<le> i - 1")
      case True
      have "rg_end (?rs ! j) \<le> ?e \<or> rg_end (?rs ! j) \<le> 2 ^ 20"
        using True ranges_order(2) [OF wf i1, of j] st by (cases "j = i - 1") (auto simp: low_top_def)
      then show ?thesis
      proof
        assume "rg_end (?rs ! j) \<le> ?e"
        then have "b \<le> ?e - 1" using j(2) by (auto simp: rg_bytes_def)
        then have "b div 4096 \<le> (?e - 1) div 4096" by (rule div_le_mono)
        then show ?thesis using pg by simp
      next
        assume "rg_end (?rs ! j) \<le> 2 ^ 20"
        then have "b div 4096 < 2 ^ 20 div 4096" using j(2) by (auto simp: rg_bytes_def less_eq_div_iff_mult_less_eq div_less_iff_less_mult)
        moreover have "2 ^ 20 div 4096 \<le> a div 4096" using r(1) by (rule div_le_mono)
        ultimately show ?thesis by simp
      qed
    next
      case False
      then have il: "i < length ?rs" "i \<le> j" using j(1) by simp_all
      have "\<not> unat (rg_start (?rs ! i)) \<le> a" using up [OF il(1)] div_le_mono [of _ a 4096] by (meson not_less)
      then have "2 ^ 20 < rg_end (?rs ! i)" using r(1) rg_ok_start [OF ranges_order(1) [OF wf il(1)]] by linarith
      then have "unat (rg_start (?rs ! i)) \<le> unat (rg_start (?rs ! j))"
        using ranges_order(2) [OF wf j(1), of i] rg_ok_start [OF ranges_order(1) [OF wf il(1)]] il(2)
        by (cases "i = j") (auto simp: low_top_def)
      also have "\<dots> \<le> b" using j(2) by (simp add: rg_bytes_def)
      finally have "unat (rg_start (?rs ! i)) div 4096 \<le> b div 4096" by (rule div_le_mono)
      then show ?thesis using up [OF il(1)] by simp
    qed
  qed
  moreover have "\<exists>b\<in>covered mp. b < a"
    using i1 st ea by (intro bexI [of _ "unat (rg_start (?rs ! (i - 1)))"]) (auto simp: in_covered rg_bytes_def)
  ultimately have "a \<in> holes mp" using r by (simp add: holes_def)
  moreover have "limit mp i \<le> a" using i st ea r(1) by (simp add: limit_def)
  moreover have "a < limit mp (i + 1)"
  proof (cases "i = length ?rs")
    case False
    then have "i < length ?rs" using i by simp
    from up [OF this] have "a < unat (rg_start (?rs ! i))" by (metis div_le_mono linorder_not_less)
    then show ?thesis using False i by (simp add: limit_def less_max_iff_disj)
  qed (use r in \<open>simp add: limit_def\<close>)
  ultimately show "a \<in> {a \<in> holes mp. limit mp i \<le> a \<and> a < limit mp (i + 1)}" by simp
qed

text \<open>One iteration.\<close>

lemma found_stop:
  assumes wf: "map_ok mp" and i: "1 \<le> i" "i \<le> length (ranges mp)"
    and e: "2 ^ 32 \<le> ceil_page (rg_end (ranges mp ! (i - 1)))" and f: "holes_found mp xs (limit mp i)"
  shows "holes_found mp xs (2 ^ 32)"
proof -
  have "a < limit mp i \<longleftrightarrow> a < 2 ^ 32" if "a \<in> holes mp" for a
    using hole_above [OF wf _ that, of "i - 1"] e i that by (fastforce simp: limit_def holes_def)
  then have "{a \<in> holes mp. a < limit mp i} = {a \<in> holes mp. a < 2 ^ 32}" by blast
  then show ?thesis using f by (auto simp: holes_found_def list_all_iff vr_ok_def)
qed

lemma limit_mono:
  assumes wf: "map_ok mp" and i: "1 \<le> i" "i < length (ranges mp)"
  shows "limit mp i \<le> limit mp (i + 1)"
proof -
  have "unat (rg_start (ranges mp ! (i - 1))) < rg_end (ranges mp ! (i - 1))"
    using i by (intro rg_ok_start ranges_order(1) [OF wf]) simp
  moreover have "rg_end (ranges mp ! (i - 1)) \<le> unat (rg_start (ranges mp ! i)) \<or> rg_end (ranges mp ! (i - 1)) \<le> 2 ^ 20"
    using ranges_order(2) [OF wf i(2), of "i - 1"] i by (auto simp: low_top_def)
  ultimately show ?thesis using i by (auto simp: limit_def)
qed

lemma found_step:
  assumes wf: "map_ok mp" and i: "1 \<le> i" "i \<le> length (ranges mp)" and f: "holes_found mp xs (limit mp i)"
  shows "gap_hi mp i \<le> gap_lo mp i \<Longrightarrow> holes_found mp xs (limit mp (i + 1))"
    and "gap_lo mp i < gap_hi mp i \<Longrightarrow> unat (vr_start r) = gap_lo mp i \<Longrightarrow>
      unat (vr_len r) = gap_hi mp i - gap_lo mp i \<Longrightarrow> holes_found mp (xs @ [r]) (limit mp (i + 1))"
proof -
  have mono: "limit mp i \<le> limit mp (i + 1)" if "i < length (ranges mp)" using limit_mono [OF wf i(1) that] .
  have split: "{a \<in> holes mp. a < limit mp (i + 1)} =
      {a \<in> holes mp. a < limit mp i} \<union> {gap_lo mp i..<gap_hi mp i}"
  proof -
    have "a < limit mp (i + 1)" if "a \<in> holes mp" "a < limit mp i" for a
      using mono that i by (cases "i = length (ranges mp)") (auto simp: limit_def holes_def)
    then show ?thesis unfolding holes_between [OF wf i, symmetric] by auto
  qed
  have lim: "vr_end x \<le> limit mp (i + 1)" if "vr_ok x" "vr_end x \<le> limit mp i" for x
    using mono that i by (cases "i = length (ranges mp)") (auto simp: limit_def vr_ok_def)
  note f = f [unfolded holes_found_def]
  show "gap_hi mp i \<le> gap_lo mp i \<Longrightarrow> holes_found mp xs (limit mp (i + 1))"
    using f lim split by (auto simp: holes_found_def list_all_iff)
  assume gap: "gap_lo mp i < gap_hi mp i" "unat (vr_start r) = gap_lo mp i"
    "unat (vr_len r) = gap_hi mp i - gap_lo mp i"
  have e: "vr_end r = gap_hi mp i" using gap by (simp add: vr_end_def)
  have "4096 dvd gap_lo mp i" "4096 dvd gap_hi mp i"
    by (auto simp: gap_lo_def gap_hi_def ceil_page_def floor_page_def max_def min_def)
  moreover have "0 < vr_start r" using gap(2) by (simp add: word_less_nat_alt gap_lo_def)
  moreover have "gap_hi mp i \<le> 2 ^ 32" by (simp add: gap_hi_def)
  ultimately have ok: "vr_ok r" using gap e by (simp add: vr_ok_def dvd_diff_nat)
  have set: "vr_set r = {gap_lo mp i..<gap_hi mp i}" by (simp add: vr_set_def e gap(2))
  have "limit mp i \<le> gap_lo mp i"
  proof -
    have "gap_lo mp i \<in> {a \<in> holes mp. limit mp i \<le> a \<and> a < limit mp (i + 1)}"
      unfolding holes_between [OF wf i] using gap(1) by simp
    then show ?thesis by simp
  qed
  then have "\<forall>x\<in>set xs. vr_before x r" using f gap(2) by (fastforce simp: vr_before_def)
  moreover have "gap_hi mp i \<le> limit mp (i + 1)"
  proof (cases "i = length (ranges mp)")
    case False
    then have "gap_hi mp i \<le> floor_page (unat (rg_start (ranges mp ! i)))" by (simp add: gap_hi_def)
    also have "\<dots> \<le> unat (rg_start (ranges mp ! i))" unfolding floor_page_def by (rule div_times_le)
    finally show ?thesis using False i by (simp add: limit_def)
  qed (simp add: gap_hi_def limit_def)
  moreover have "0 < vr_len r" using gap by (simp add: word_less_nat_alt)
  ultimately show "holes_found mp (xs @ [r]) (limit mp (i + 1))"
    using f lim split ok set e by (auto simp: holes_found_def list_all_iff sorted_wrt_append)
qed

lemma diff_down:
  assumes "unat (s :: u64) \<le> 2 ^ 32" and "unat (e :: u64) < unat s" and "0 < unat e"
  shows "unat (ucast s - ucast e :: u32) = unat s - unat e" and "unat (ucast e :: u32) = unat e"
proof -
  have "(ucast s - ucast e :: u32) = word_of_nat (unat s) - word_of_nat (unat e)" by (simp add: of_nat_unat)
  also have "\<dots> = word_of_nat (unat s - unat e)" using assms(2) by (simp only: of_nat_diff less_imp_le)
  finally have d: "(ucast s - ucast e :: u32) = word_of_nat (unat s - unat e)" .
  show "unat (ucast s - ucast e :: u32) = unat s - unat e" unfolding d unat_of_nat using assms by simp
  show "unat (ucast e :: u32) = unat e" using assms by (intro unat_ucast_down) simp
qed

lemma find_unused_spec:
  assumes wf: "map_ok mp" and "1 \<le> i" and "i + n = length (ranges mp) + 1" and "unat nvr < i"
    and "length vrs = unat (max_mem_ranges mp)" and "holes_found mp (take (unat nvr) vrs) (limit mp i)"
  shows "\<exists>vrs' nvr'. find_unused mp i n vrs nvr = Inr (vrs', nvr') \<and> unat nvr' \<le> length (ranges mp) \<and>
    length vrs' = length vrs \<and> holes_found mp (take (unat nvr') vrs') (2 ^ 32)"
  using assms(2-)
proof (induction n arbitrary: i vrs nvr)
  case 0
  then show ?case by (simp add: limit_def)
next
  case (Suc n)
  let ?r = "ranges mp ! (i - 1)" and ?N = "length (ranges mp)"
  have N: "?N = unat (num_mem_ranges mp)" by (rule length_ranges [OF wf])
  have i: "1 \<le> i" "i \<le> ?N" "i - 1 < ?N" using Suc.prems by simp_all
  have r: "mem_ranges mp ! (i - 1) = ?r" "i - 1 < length (mem_ranges mp)"
    using ranges_nth [OF wf, of "i - 1"] i N by simp_all
  have ok: "rg_ok ?r" by (rule ranges_order(1) [OF wf i(3)])
  have e0: "0 < rg_end ?r" using rg_ok_start [OF ok] by simp
  let ?e = "rg_start ?r + rg_len ?r"
  have t1: "XM32_MAX_ADDR - 1 \<le> ?e - 1 \<longleftrightarrow> 2 ^ 32 \<le> rg_end ?r" by (rule past_4G [OF unat_last [OF ok] e0])
  let ?c = "(?e + ucast PAGE_SIZE - 1) AND - (ucast PAGE_SIZE)"
  have stop: "\<exists>vrs' nvr'. Inr (vrs, nvr) = (Inr (vrs', nvr') :: (va_range list \<times> u32) res) \<and> unat nvr' \<le> ?N \<and>
      length vrs' = length vrs \<and> holes_found mp (take (unat nvr') vrs') (2 ^ 32)"
    if "2 ^ 32 \<le> ceil_page (rg_end ?r)"
    using found_stop [OF wf i(1,2) that Suc.prems(5)] Suc.prems(3) i by auto
  show ?case
  proof (cases "2 ^ 32 \<le> rg_end ?r")
    case True
    then have "2 ^ 32 \<le> ceil_page (rg_end ?r)" by (simp add: ceil_page_def)
    then show ?thesis using stop True r by (simp add: t1 del: One_nat_def)
  next
    case e32: False
    then have ue: "unat ?e = rg_end ?r" by (simp add: rg_end_def unat_add_nowrap)
    then have uc: "unat ?c = ceil_page (rg_end ?r)" using e32 unat_ceil64 [of ?e] by simp
    have c0: "0 < ceil_page (rg_end ?r)" using e0 by (simp add: ceil_page_def)
    then have "unat (?c - 1) = ceil_page (rg_end ?r) - 1" using uc by (subst unat_sub) (simp_all add: word_le_nat_alt)
    then have t2: "XM32_MAX_ADDR - 1 \<le> ?c - 1 \<longleftrightarrow> 2 ^ 32 \<le> ceil_page (rg_end ?r)" by (rule past_4G [OF _ c0])
    show ?thesis
    proof (cases "2 ^ 32 \<le> ceil_page (rg_end ?r)")
      case True
      then show ?thesis using stop e32 r by (simp add: t1 t2 del: One_nat_def)
    next
      case c32: False
      let ?lo = "if ?c < BMEM_MAX_ADDR then BMEM_MAX_ADDR else ?c"
      have lo: "unat ?lo = gap_lo mp i"
        using uc by (auto simp: gap_lo_def BMEM_MAX_ADDR_def word_less_nat_alt max_def)
      let ?hi = "if i = unat (num_mem_ranges mp) then XM32_MAX_ADDR else
          (let start = rg_start (ranges mp ! i) AND - (ucast PAGE_SIZE) in
           if start > XM32_MAX_ADDR then XM32_MAX_ADDR else start)"
      have hi: "unat ?hi = gap_hi mp i"
        using N by (auto simp: gap_hi_def XM32_MAX_ADDR_def Let_def word_less_nat_alt unat_page_floor64
            floor_page_def min_def)
      have get: "(if i = unat (num_mem_ranges mp) then Inr XM32_MAX_ADDR
              else bindr (arr_get (mem_ranges mp) i) (\<lambda>r'.
                let start = rg_start r' AND - (ucast PAGE_SIZE) in
                Inr (if start > XM32_MAX_ADDR then XM32_MAX_ADDR else start))) = Inr ?hi"
        using ranges_nth [OF wf, of i] i N by (auto simp: Let_def)
      have run: "find_unused mp i (Suc n) vrs nvr =
          (if ?hi \<le> ?lo then find_unused mp (i + 1) n vrs nvr
           else bindr (arr_set vrs (unat nvr) \<lparr> vr_start = ucast ?lo, vr_len = ucast ?hi - ucast ?lo \<rparr>)
             (\<lambda>vrs'. find_unused mp (i + 1) n vrs' (nvr + 1)))"
        unfolding find_unused.simps arr_get_ok [OF r(2)] r(1) bindr_Inr Let_def
        unfolding t1 t2 if_not_P [OF e32] if_not_P [OF c32] get [unfolded Let_def] bindr_Inr ..
      have nx: "i + 1 + n = ?N + 1" "1 \<le> i + 1" using Suc.prems by simp_all
      show ?thesis
      proof (cases "gap_hi mp i \<le> gap_lo mp i")
        case True
        have "holes_found mp (take (unat nvr) vrs) (limit mp (i + 1))"
          by (rule found_step(1) [OF wf i(1,2) Suc.prems(5) True])
        then have "\<exists>vrs' nvr'. find_unused mp (i + 1) n vrs nvr = Inr (vrs', nvr') \<and> unat nvr' \<le> ?N \<and>
            length vrs' = length vrs \<and> holes_found mp (take (unat nvr') vrs') (2 ^ 32)"
          using Suc.IH [OF nx(2,1)] Suc.prems by simp
        moreover have "?hi \<le> ?lo" using True unfolding word_le_nat_alt lo hi .
        ultimately show ?thesis unfolding run by simp
      next
        case False
        let ?v = "\<lparr> vr_start = ucast ?lo, vr_len = ucast ?hi - ucast ?lo \<rparr>"
        have gl: "gap_hi mp i \<le> 2 ^ 32" "0 < gap_lo mp i" by (simp_all add: gap_hi_def gap_lo_def)
        have v: "unat (vr_start ?v) = gap_lo mp i" "unat (vr_len ?v) = gap_hi mp i - gap_lo mp i"
          using diff_down [of ?hi ?lo] gl False unfolding lo hi by simp_all
        have nl: "unat nvr < length vrs" using Suc.prems i wf N by (simp add: mm_wf_at_def word_le_nat_alt)
        have n1: "unat (nvr + 1) = unat nvr + 1"
          using nl Suc.prems(4) unat_lt [of "max_mem_ranges mp"] by (subst unat_add_nowrap) simp_all
        let ?vrs = "vrs[unat nvr := ?v]"
        have tk: "take (unat (nvr + 1)) ?vrs = take (unat nvr) vrs @ [?v]"
          unfolding n1 using nl by (simp add: take_Suc_conv_app_nth)
        have gap: "gap_lo mp i < gap_hi mp i" using False by simp
        have "holes_found mp (take (unat (nvr + 1)) ?vrs) (limit mp (i + 1))"
          unfolding tk by (rule found_step(2) [OF wf i(1,2) Suc.prems(5) gap v])
        then have "\<exists>vrs' nvr'. find_unused mp (i + 1) n ?vrs (nvr + 1) = Inr (vrs', nvr') \<and> unat nvr' \<le> ?N \<and>
            length vrs' = length ?vrs \<and> holes_found mp (take (unat nvr') vrs') (2 ^ 32)"
          using Suc.IH [OF nx(2,1), of "nvr + 1" ?vrs] Suc.prems n1 by simp
        moreover have "\<not> ?hi \<le> ?lo" using False unfolding word_le_nat_alt lo hi .
        ultimately show ?thesis unfolding run by (simp only: if_False arr_set_ok [OF nl] bindr_Inr length_list_update)
      qed
    qed
  qed
qed

end
