(* ===== verification/Va_Tables.thy ===== *)
theory Va_Tables
  imports Va_Init
begin

text \<open>
  The page tables that \<^verbatim>\<open>va_init\<close> of \<^verbatim>\<open>stage2/mem.c\<close> starts with: four empty page directories,
  apart from each other and from the memory that can still be allocated.
\<close>

unbundle bit_operations_syntax

subsection \<open>The entry for a page directory\<close>

lemma pdpt_entry:
  fixes pd :: u32
  assumes "4096 dvd unat pd"
  defines "e \<equiv> ucast pd OR ucast PTE_P :: u64"
  shows "pdpte_ok e" and "unat ((ucast e :: u32) AND - PDPT_ALIGN) = unat pd"
proof -
  have P: "bit PTE_P i \<longleftrightarrow> i = 0" for i
    using bit_exp_iff [of 0 i, where ?'a = "32 word"] by (auto simp: PTE_P_def)
  have b: "bit e i \<longleftrightarrow> bit pd i \<or> i = 0" for i
    unfolding e_def using bit_imp_le_length [of pd i] by (auto simp: bit_or_iff P bit_unsigned_iff)
  note low = low_bits_0 [OF assms(1)]
  have "e AND 0xfe0 = 0"
  proof (rule bit_word_eqI)
    fix i :: nat
    show "bit (e AND 0xfe0) i = bit (0 :: u64) i"
      unfolding bit_and_iff bit_masks b using low [of i] by auto
  qed
  moreover have "bit e 0" by (simp add: b)
  moreover have e: "e = ucast (pd OR PTE_P)" by (simp add: e_def unsigned_or_eq)
  moreover have "unat e < 2 ^ 32" unfolding e using unat_lt [of "pd OR PTE_P"] by (simp add: unat_ucast_up)
  ultimately show "pdpte_ok e" by (simp add: pdpte_ok_def)
  have "(ucast e :: u32) AND - PDPT_ALIGN = pd"
  proof (rule bit_word_eqI)
    fix i :: nat
    assume i: "i < LENGTH(32)"
    show "bit ((ucast e :: u32) AND - PDPT_ALIGN) i = bit pd i"
      unfolding masks(8) using i low [of i] b
      by (auto simp: bit_and_iff bit_not_iff bit_mask_iff bit_unsigned_iff)
  qed
  then show "unat ((ucast e :: u32) AND - PDPT_ALIGN) = unat pd" by simp
qed

subsection \<open>The loop\<close>

definition dir_bytes :: "nat \<Rightarrow> nat set" where
  "dir_bytes b = {b..<b + 4096}"

text \<open>The directories \<open>ds\<close> have been made.\<close>

definition dirs_made :: "vm \<Rightarrow> u32 list \<Rightarrow> bool" where
  "dirs_made s ds \<longleftrightarrow> map_ok (vm_map s) \<and> tbl_bytes s Pdpt \<inter> mm_free (vm_map s) = {} \<and>
     pairwise_disjoint (tbl_bytes s Pdpt # map (\<lambda>d. dir_bytes (unat d)) ds) \<and>
     (\<forall>j<length ds. 4096 dvd unat (ds ! j) \<and> pdpte s j = ucast (ds ! j) OR ucast PTE_P) \<and>
     (\<forall>d\<in>set ds. dir_bytes (unat d) \<inter> mm_free (vm_map s) = {} \<and> (\<forall>b\<in>dir_bytes (unat d). vm_mem s b = 0))"

lemma make_pds_step:
  assumes inv: "dirs_made s ds" and j: "length ds < 4"
    and al: "mem_alloc (vm_map s) PAGE_SIZE PAGE_SIZE 0 = Some (Inr (pd, mp))"
  defines "s' \<equiv> s\<lparr> vm_map := mp, vm_mem := wr64 (put_bytes (vm_mem s) (unat pd) (replicate (unat PAGE_SIZE) 0))
      (unat (pdpt s) + 8 * length ds) (ucast pd OR ucast PTE_P) \<rparr>"
  shows "dirs_made s' (ds @ [pd])"
proof -
  let ?m = "put_bytes (vm_mem s) (unat pd) (replicate (unat PAGE_SIZE) 0)"
  let ?a = "unat (pdpt s) + 8 * length ds"
  note inv' = inv [unfolded dirs_made_def]
  have wf: "map_ok (vm_map s)" using inv' by blast
  note sp = page_alloc_spec [OF wf al, folded dir_bytes_def]
  have P: "tbl_bytes s' Pdpt = tbl_bytes s Pdpt" by (simp add: s'_def)
  have apartP: "tbl_bytes s Pdpt \<inter> dir_bytes (unat pd) = {}" using sp(2) inv' by blast
  have old: "dir_bytes (unat d) \<inter> dir_bytes (unat pd) = {}" if "d \<in> set ds" for d
    using that sp(2) inv' by blast
  have sl: "slot ?a \<subseteq> tbl_bytes s Pdpt" by (rule pdpte_slot [OF j])
  have mem: "vm_mem s' b = (if b \<in> dir_bytes (unat pd) then 0 else vm_mem s b)" if "b \<notin> tbl_bytes s Pdpt" for b
  proof -
    have "b \<notin> slot ?a" using that sl by blast
    then have "vm_mem s' b = ?m b" unfolding s'_def by (simp add: wr64_outside_slot)
    also have "\<dots> = (if b \<in> dir_bytes (unat pd) then 0 else vm_mem s b)"
      by (auto simp: put_bytes_def dir_bytes_def PAGE_SIZE_def)
    finally show ?thesis .
  qed
  have zero: "vm_mem s' b = 0" if "d \<in> set (ds @ [pd])" "b \<in> dir_bytes (unat d)" for d b
  proof (cases "d = pd")
    case True
    then have "b \<notin> tbl_bytes s Pdpt" using that(2) apartP by blast
    then show ?thesis using mem [of b] that(2) True by simp
  next
    case False
    then have d: "d \<in> set ds" using that(1) by simp
    have "tbl_bytes s Pdpt \<inter> dir_bytes (unat d) = {}" using inv' d by auto
    then have "b \<notin> tbl_bytes s Pdpt" using that(2) by blast
    then show ?thesis using mem [of b] old [OF d] that(2) inv' d by auto
  qed
  have entry: "pdpte s' j = ucast ((ds @ [pd]) ! j) OR ucast PTE_P" if jj: "j < length (ds @ [pd])" for j
  proof (cases "j = length ds")
    case True
    then show ?thesis by (simp add: pdpte_def s'_def)
  next
    case False
    then have jl: "j < length ds" using jj by simp
    have "slot (unat (pdpt s) + 8 * j) \<subseteq> tbl_bytes s Pdpt" using jl j by (intro pdpte_slot) simp
    then have "rd64 ?m (unat (pdpt s) + 8 * j) = pdpte s j"
      unfolding pdpte_def using apartP
      by (intro rd64_agree) (auto simp: put_bytes_def dir_bytes_def PAGE_SIZE_def)
    moreover have "pdpte s' j = rd64 ?m (unat (pdpt s) + 8 * j)"
      using slots_same [of "length ds" j] False by (simp add: pdpte_def s'_def rd64_wr64_apart)
    ultimately show ?thesis using inv' jl by (simp add: nth_append)
  qed
  have al': "4096 dvd unat ((ds @ [pd]) ! j)" if "j < length (ds @ [pd])" for j
    using that inv' sp(5) by (cases "j = length ds") (simp_all add: nth_append)
  have "pairwise_disjoint ((tbl_bytes s Pdpt # map (\<lambda>d. dir_bytes (unat d)) ds) @ [dir_bytes (unat pd)])"
    unfolding pairwise_disjoint_append using inv' apartP old by auto
  then have pd: "pairwise_disjoint (tbl_bytes s' Pdpt # map (\<lambda>d. dir_bytes (unat d)) (ds @ [pd]))"
    unfolding P by simp
  have mp: "vm_map s' = mp" by (simp add: s'_def)
  have free: "dir_bytes (unat d) \<inter> mm_free mp = {}" if "d \<in> set (ds @ [pd])" for d
  proof (cases "d = pd")
    case True
    then show ?thesis using sp(4) by simp
  next
    case False
    then have "dir_bytes (unat d) \<inter> mm_free (vm_map s) = {}" using that inv' by simp
    then show ?thesis using sp(3) by blast
  qed
  have "tbl_bytes s Pdpt \<inter> mm_free mp = {}" using sp(3) inv' by blast
  then show ?thesis unfolding dirs_made_def mp P using sp(1) pd [unfolded P] entry al' free zero by blast
qed

lemma make_pds_spec:
  assumes "dirs_made s ds" and "length ds + n \<le> 4"
  shows "\<exists>r. make_pds (length ds) n s = Some r \<and>
    (\<forall>s'. r = Inr s' \<longrightarrow> (\<exists>ds'. length ds' = length ds + n \<and> dirs_made s' ds') \<and>
       grown (vm_map s) (vm_map s') \<and> served_all (vm_map s) (replicate n page_req) (vm_map s') \<and>
       (\<exists>mp m. s' = s\<lparr> vm_map := mp, vm_mem := m \<rparr>)) \<and>
    (\<forall>e. r = Inl e \<longrightarrow> e = Hlt \<or> e = Out_of_bounds \<and> out_of_ram (vm_map s) (replicate n page_req))"
  using assms
proof (induction n arbitrary: s ds)
  case 0
  have "s = s\<lparr> vm_map := vm_map s, vm_mem := vm_mem s \<rparr>" by simp
  then have "\<exists>mp m. s = s\<lparr> vm_map := mp, vm_mem := m \<rparr>" by blast
  then show ?case using 0 by (auto simp: grown_refl served_all_nil)
next
  case (Suc n)
  have wf: "map_ok (vm_map s)" using Suc.prems(1) by (simp add: dirs_made_def)
  obtain r where r: "mem_alloc (vm_map s) PAGE_SIZE PAGE_SIZE 0 = Some r"
    and err: "\<And>e. r = Inl e \<Longrightarrow> e = Hlt \<or> e = Out_of_bounds \<and> out_of_ram (vm_map s) [page_req]"
    using page_alloc_returns [OF wf] by blast
  have more: "out_of_ram (vm_map s) (replicate (Suc n) page_req)" if "out_of_ram (vm_map s) [page_req]"
    using out_of_ram_more [OF that, of "replicate n page_req"] by simp
  show ?case
  proof (cases r)
    case (Inl e)
    then show ?thesis using r err [OF Inl] more by auto
  next
    case (Inr x)
    obtain pd mp where x: "x = (pd, mp)" by (cases x)
    let ?s = "s\<lparr> vm_map := mp, vm_mem := wr64 (put_bytes (vm_mem s) (unat pd) (replicate (unat PAGE_SIZE) 0))
      (unat (pdpt s) + 8 * length ds) (ucast pd OR ucast PTE_P) \<rparr>"
    note al = r [unfolded Inr x]
    note sp = page_alloc_spec(6,7) [OF wf al]
    have run: "make_pds (length ds) (Suc n) s = make_pds (length (ds @ [pd])) n ?s"
      by (simp add: al Let_def)
    have "dirs_made ?s (ds @ [pd])" using Suc.prems by (intro make_pds_step [OF _ _ al]) simp_all
    moreover have "length (ds @ [pd]) + n \<le> 4" using Suc.prems(2) by simp
    ultimately obtain r' where r': "make_pds (length (ds @ [pd])) n ?s = Some r'"
      "\<And>s'. r' = Inr s' \<Longrightarrow> \<exists>ds'. length ds' = length (ds @ [pd]) + n \<and> dirs_made s' ds'"
      "\<And>s'. r' = Inr s' \<Longrightarrow> grown mp (vm_map s')"
      "\<And>s'. r' = Inr s' \<Longrightarrow> served_all mp (replicate n page_req) (vm_map s')"
      "\<And>s'. r' = Inr s' \<Longrightarrow> \<exists>mp m. s' = ?s\<lparr> vm_map := mp, vm_mem := m \<rparr>"
      "\<And>e. r' = Inl e \<Longrightarrow> e = Hlt \<or> e = Out_of_bounds \<and> out_of_ram mp (replicate n page_req)"
      using Suc.IH [of ?s "ds @ [pd]"] by auto
    have "\<exists>ds'. length ds' = length ds + Suc n \<and> dirs_made s' ds'" if "r' = Inr s'" for s'
      using r'(2) [OF that] by simp
    moreover have "grown (vm_map s) (vm_map s')" if "r' = Inr s'" for s'
      by (rule grown_trans [OF sp(1) r'(3) [OF that]])
    moreover have "served_all (vm_map s) (replicate (Suc n) page_req) (vm_map s')" if "r' = Inr s'" for s'
      using served_all_append [OF sp(2) r'(4) [OF that]] by simp
    moreover have "\<exists>mp m. s' = s\<lparr> vm_map := mp, vm_mem := m \<rparr>" if "r' = Inr s'" for s'
      using r'(5) [OF that] by auto
    moreover have "e = Hlt \<or> e = Out_of_bounds \<and> out_of_ram (vm_map s) (replicate (Suc n) page_req)" if "r' = Inl e" for e
      using r'(6) [OF that] out_of_ram_later [OF sp(2), of "replicate n page_req"] by auto
    ultimately show ?thesis unfolding run r'(1) by blast
  qed
qed

text \<open>With four directories the tables are well formed and nothing is mapped.\<close>

lemma dirs_made_wf:
  assumes inv: "dirs_made s ds" and four: "length ds = 4"
  shows "vm_wf s" and "k < 2048 \<Longrightarrow> pde s k = 0" and "tables s = 0"
proof -
  note inv' = inv [unfolded dirs_made_def]
  have base: "pd_base s i = unat (ds ! i)" and ok: "pdpte_ok (pdpte s i)" if "i < 4" for i
    using pdpt_entry [of "ds ! i"] inv' that four by (simp_all add: pd_base_def)
  have pde: "pde s k = 0" if k: "k < 2048" for k
  proof -
    have i: "k div 512 < 4" using k by (simp add: less_mult_imp_div_less)
    have "slot (pde_addr s k) \<subseteq> dir_bytes (unat (ds ! (k div 512)))"
      using pde_slot [of s k] base [OF i] by (simp add: dir_bytes_def)
    moreover have "ds ! (k div 512) \<in> set ds" using i four by simp
    ultimately have "vm_mem s b = 0" if "b \<in> slot (pde_addr s k)" for b using that inv' by blast
    then show ?thesis unfolding pde_def by (subst rd64_agree [of _ _ "\<lambda>_. 0"]) (simp_all add: rd64_zero)
  qed
  then show "k < 2048 \<Longrightarrow> pde s k = 0" .
  have no_pt: "\<not> tbl_in s (Pt k)" for k using pde by (simp add: is_table_def)
  have "{k. k < 2048 \<and> is_table (pde s k)} = {}" using pde by (auto simp: is_table_def)
  then show "tables s = 0" unfolding tables_def by simp
  have dir: "tbl_bytes s (Pd i) = dir_bytes (unat (ds ! i))" "ds ! i \<in> set ds" if "i < 4" for i
    using base [OF that] four that by (simp_all add: dir_bytes_def)
  have dirs: "dir_bytes (unat (ds ! i)) \<inter> dir_bytes (unat (ds ! j)) = {}" if "i < 4" "j < 4" "i \<noteq> j" for i j
  proof -
    have "pairwise_disjoint (map (\<lambda>d. dir_bytes (unat d)) ds)" using inv' by simp
    from pairwise_disjoint_nth [OF this, of i j] that four show ?thesis by simp
  qed
  have top: "tbl_bytes s Pdpt \<inter> dir_bytes (unat d) = {}" "dir_bytes (unat d) \<inter> tbl_bytes s Pdpt = {}"
    if "d \<in> set ds" for d
    using inv' that by auto
  show "vm_wf s"
    unfolding vm_wf_def
  proof (intro conjI allI impI)
    show "map_ok (vm_map s)" using inv' by blast
    show "tbl_bytes s t \<inter> tbl_bytes s t' = {}" if "tbl_in s t" "tbl_in s t'" "t \<noteq> t'" for t t'
      using that no_pt dir dirs top by (cases t; cases t') (auto simp del: tbl_bytes.simps)
    show "tbl_bytes s t \<inter> mm_free (vm_map s) = {}" if "tbl_in s t" for t
      using that no_pt dir inv' by (cases t) (auto simp del: tbl_bytes.simps)
    show "pdpte_ok (pdpte s i)" if "i < 4" for i using ok that .
    show "pde_ok (pde s k)" if "k < 2048" for k using pde [OF that] by (simp add: pde_ok_def)
  qed
qed

end
