(* ===== verification/Va_Identity.thy ===== *)
theory Va_Identity
  imports Va_Tables
begin

text \<open>
  The identity mapping that \<^verbatim>\<open>va_init\<close> of \<^verbatim>\<open>stage2/mem.c\<close> sets up between the unused ranges,
  and the attributes it gives to memory that is not write-back cacheable.
\<close>

unbundle bit_operations_syntax

subsection \<open>Pages mapped to themselves\<close>

definition id_mapped :: "vm \<Rightarrow> nat set \<Rightarrow> (nat \<Rightarrow> u32) \<Rightarrow> vm \<Rightarrow> bool" where
  "id_mapped s S f s' \<longleftrightarrow> vm_wf s' \<and> same_rest s s' \<and>
     (\<forall>n<2 ^ 20. page_entry s' n = (if n \<in> S then map_entry n (f n) else page_entry s n))"

lemma id_mapped_refl: "vm_wf s \<Longrightarrow> id_mapped s {} f s"
  by (simp add: id_mapped_def same_rest_refl)

lemma id_mapped_trans:
  "id_mapped s S f s1 \<Longrightarrow> id_mapped s1 T g s2 \<Longrightarrow> id_mapped s (S \<union> T) (\<lambda>n. if n \<in> T then g n else f n) s2"
  by (auto simp: id_mapped_def intro: same_rest_trans)

lemma id_mapped_error: "id_mapped s S f s1 \<Longrightarrow> vm_error s1 e \<Longrightarrow> vm_error s e"
  using vm_error_later [of s s1 e] by (simp add: id_mapped_def same_rest_def)

lemma mapped_id: "mapped s vp vp c fl s' \<Longrightarrow> id_mapped s {vp..<vp + c} (\<lambda>_. fl) s'"
  by (auto simp: mapped_def id_mapped_def)

lemma pte_flags_ok: "flags_ok (uefi_attr_to_pte_flags x)" "flags_ok 0"
  by (auto simp: uefi_attr_to_pte_flags_def flags_ok_def pg_consts)

lemma do_va_id_map_spec:
  assumes "vm_wf s" and "flags_ok fl" and st: "unat start = 4096 * vp" and "unat len = 4096 * c" and "vp + c \<le> 2 ^ 20"
  shows "\<exists>r. do_va_id_map s start len fl = Some r \<and>
    (\<forall>s'. r = Inr s' \<longrightarrow> id_mapped s {vp..<vp + c} (\<lambda>_. fl) s') \<and> (\<forall>e. r = Inl e \<longrightarrow> vm_error s e)"
proof -
  have "ucast start = (word_of_nat (4096 * vp) :: u64)" unfolding st [symmetric] by (simp add: of_nat_unat)
  moreover have "vp + c \<le> 2 ^ 52" using assms(5) by simp
  ultimately show ?thesis
    unfolding do_va_id_map_def using do_va_map_spec [OF assms(1-5), of "ucast start" vp] mapped_id by blast
qed

subsection \<open>Between the unused ranges\<close>

definition vr_pages :: "va_range list \<Rightarrow> nat set" where
  "vr_pages xs = {n. 4096 * n \<in> \<Union>(vr_set ` set xs)}"

text \<open>First and last page of an unused range.\<close>

definition vr_lo :: "va_range \<Rightarrow> nat" where "vr_lo r = unat (vr_start r) div 4096"
definition vr_hi :: "va_range \<Rightarrow> nat" where "vr_hi r = vr_end r div 4096"

lemma vr_lo_hi:
  assumes "vr_ok r"
  shows "unat (vr_start r) = 4096 * vr_lo r" and "vr_end r = 4096 * vr_hi r" and "vr_lo r \<le> vr_hi r"
    and "vr_hi r \<le> 2 ^ 20" and "4096 * n \<in> vr_set r \<longleftrightarrow> vr_lo r \<le> n \<and> n < vr_hi r"
proof -
  have "4096 dvd vr_end r" using assms by (simp add: vr_ok_def vr_end_def)
  then show e: "vr_end r = 4096 * vr_hi r" by (simp add: vr_hi_def)
  show s: "unat (vr_start r) = 4096 * vr_lo r" using assms by (simp add: vr_ok_def vr_lo_def)
  have "unat (vr_start r) \<le> vr_end r" by (simp add: vr_end_def)
  then show "vr_lo r \<le> vr_hi r" unfolding e s by simp
  have "vr_end r \<le> 2 ^ 32" using assms by (simp add: vr_ok_def)
  then show "vr_hi r \<le> 2 ^ 20" unfolding e by simp
  show "4096 * n \<in> vr_set r \<longleftrightarrow> vr_lo r \<le> n \<and> n < vr_hi r" by (simp add: vr_set_def e s)
qed

lemma found_order:
  assumes "list_all vr_ok xs" and "sorted_wrt vr_before xs" and "i < j" and "j < length xs"
  shows "vr_hi (xs ! i) \<le> vr_lo (xs ! j)"
proof -
  have "vr_before (xs ! i) (xs ! j)" using assms(2-4) by (rule sorted_wrt_nth_less)
  moreover have "vr_ok (xs ! i)" "vr_ok (xs ! j)" using assms by (simp_all add: list_all_length)
  ultimately show ?thesis using vr_lo_hi(1,2) by (simp add: vr_before_def)
qed

text \<open>What lies between two unused ranges.\<close>

lemma pages_between:
  assumes ok: "list_all vr_ok xs" and so: "sorted_wrt vr_before xs" and j: "Suc j < length xs"
  shows "{vr_hi (xs ! j)..<vr_lo (xs ! Suc j)} = {n. vr_lo (xs ! j) \<le> n \<and> n < vr_lo (xs ! Suc j) \<and> n \<notin> vr_pages xs}"
proof -
  have okj: "vr_ok (xs ! k)" if "k < length xs" for k using ok that by (simp add: list_all_length)
  have mem: "n \<in> vr_pages xs \<longleftrightarrow> (\<exists>k<length xs. vr_lo (xs ! k) \<le> n \<and> n < vr_hi (xs ! k))" for n
    using vr_lo_hi(5) [OF okj] by (auto simp: vr_pages_def in_set_conv_nth) (metis nth_mem)+
  have "n \<in> vr_pages xs \<longleftrightarrow> n < vr_hi (xs ! j)" if n: "vr_lo (xs ! j) \<le> n" "n < vr_lo (xs ! Suc j)" for n
  proof
    assume "n \<in> vr_pages xs"
    then obtain k where k: "k < length xs" "vr_lo (xs ! k) \<le> n" "n < vr_hi (xs ! k)" using mem by blast
    have "\<not> Suc j \<le> k"
      using found_order [OF ok so, of "Suc j" k] vr_lo_hi(3) [OF okj, of "Suc j"] k n j by (cases "k = Suc j") auto
    moreover have "\<not> k < j"
    proof
      assume "k < j"
      then have "vr_hi (xs ! k) \<le> vr_lo (xs ! j)" using j by (intro found_order [OF ok so]) simp_all
      then show False using k n by simp
    qed
    ultimately have "k = j" by simp
    then show "n < vr_hi (xs ! j)" using k by simp
  next
    assume "n < vr_hi (xs ! j)"
    then show "n \<in> vr_pages xs" using mem n Suc_lessD [OF j] by blast
  qed
  moreover have "vr_lo (xs ! j) \<le> vr_hi (xs ! j)" using j by (intro vr_lo_hi(3) okj) simp
  ultimately show ?thesis by (auto simp: not_less)
qed

lemma map_between_spec:
  assumes wf: "vm_wf s" and xs: "take m (unused_va_ranges s) = xs" "length xs = m"
    and ok: "list_all vr_ok xs" "sorted_wrt vr_before xs" and "Suc i + n = m"
  shows "\<exists>r. map_between (Suc i) n s = Some r \<and> (\<forall>s'. r = Inr s' \<longrightarrow>
    id_mapped s {k. vr_lo (xs ! i) \<le> k \<and> k < vr_lo (xs ! (m - 1)) \<and> k \<notin> vr_pages xs} (\<lambda>_. 0) s') \<and>
    (\<forall>e. r = Inl e \<longrightarrow> vm_error s e)"
  using wf xs(1) \<open>Suc i + n = m\<close>
proof (induction n arbitrary: i s)
  case 0
  then have e: "{k. vr_lo (xs ! i) \<le> k \<and> k < vr_lo (xs ! (m - 1)) \<and> k \<notin> vr_pages xs} = {}" by auto
  have "vm_wf s" by (rule 0)
  then show ?case unfolding e using id_mapped_refl by simp
next
  case (Suc n)
  have im: "Suc i < m" using Suc.prems by simp
  then have len: "Suc i < length xs" "length (take m (unused_va_ranges s)) = m" using xs(2) Suc.prems(2) by simp_all
  then have get: "unused_va_ranges s ! i = xs ! i" "unused_va_ranges s ! Suc i = xs ! Suc i"
    "Suc i < length (unused_va_ranges s)"
  proof -
    have "unused_va_ranges s ! k = xs ! k" if "k < m" for k
      using nth_take [OF that, of "unused_va_ranges s"] unfolding Suc.prems(2) by simp
    then show "unused_va_ranges s ! i = xs ! i" "unused_va_ranges s ! Suc i = xs ! Suc i" using im by simp_all
    have "m \<le> length (unused_va_ranges s)" using len(2) unfolding length_take by linarith
    then show "Suc i < length (unused_va_ranges s)" using im by simp
  qed
  have okx: "vr_ok (xs ! i)" "vr_ok (xs ! Suc i)" using ok(1) len by (simp_all add: list_all_length)
  let ?a = "vr_start (xs ! i) + vr_len (xs ! i)" and ?b = "vr_start (xs ! Suc i)"
  have lt: "vr_hi (xs ! i) \<le> vr_lo (xs ! Suc i)" using found_order [OF ok, of i "Suc i"] len by simp
  have b: "unat ?b = 4096 * vr_lo (xs ! Suc i)" using vr_lo_hi(1) okx by blast
  have "4096 * vr_hi (xs ! i) < 2 ^ 32" using lt b unat_lt [of ?b] by simp
  then have "vr_end (xs ! i) < 2 ^ 32" using vr_lo_hi(2) [OF okx(1)] by simp
  then have a: "unat ?a = 4096 * vr_hi (xs ! i)"
    using vr_lo_hi(2) [OF okx(1)] by (subst unat_add_nowrap) (simp_all add: vr_end_def)
  have l: "unat (?b - ?a) = 4096 * (vr_lo (xs ! Suc i) - vr_hi (xs ! i))"
    using a b lt by (subst unat_sub) (simp_all add: word_le_nat_alt diff_mult_distrib2)
  have top: "vr_hi (xs ! i) + (vr_lo (xs ! Suc i) - vr_hi (xs ! i)) \<le> 2 ^ 20"
    using lt vr_lo_hi(3,4) [OF okx(2)] by simp
  obtain r where r: "do_va_id_map s ?a (?b - ?a) 0 = Some r"
    "\<And>s1. r = Inr s1 \<Longrightarrow> id_mapped s {vr_hi (xs ! i)..<vr_lo (xs ! Suc i)} (\<lambda>_. 0) s1"
    "\<And>e. r = Inl e \<Longrightarrow> vm_error s e"
    using do_va_id_map_spec [OF Suc.prems(1) pte_flags_ok(2) a l top] lt by auto
  have run: "map_between (Suc i) (Suc n) s = bindo (Some r) (map_between (Suc (Suc i)) n)"
    using get by (simp add: Let_def r(1))
  show ?case
  proof (cases r)
    case (Inl e)
    then show ?thesis using run r(3) [OF Inl] by simp
  next
    case (Inr s1)
    note m1 = r(2) [OF Inr]
    have s1: "vm_wf s1" "unused_va_ranges s1 = unused_va_ranges s" using m1 by (auto simp: id_mapped_def same_rest_def)
    then have tk: "take m (unused_va_ranges s1) = xs" using Suc.prems by simp
    have n1: "Suc (Suc i) + n = m" using Suc.prems(3) by simp
    obtain r' where r': "map_between (Suc (Suc i)) n s1 = Some r'" "\<And>s'. r' = Inr s' \<Longrightarrow>
      id_mapped s1 {k. vr_lo (xs ! Suc i) \<le> k \<and> k < vr_lo (xs ! (m - 1)) \<and> k \<notin> vr_pages xs} (\<lambda>_. 0) s'"
      "\<And>e. r' = Inl e \<Longrightarrow> vm_error s1 e"
      using Suc.IH [OF s1(1) tk n1] by blast
    have mono: "vr_lo (xs ! Suc i) \<le> vr_lo (xs ! (m - 1))"
    proof (cases "Suc i = m - 1")
      case False
      then have "vr_hi (xs ! Suc i) \<le> vr_lo (xs ! (m - 1))"
        using im xs(2) by (intro found_order [OF ok]) simp_all
      then show ?thesis using vr_lo_hi(3) [OF okx(2)] by simp
    qed simp
    have set: "{vr_hi (xs ! i)..<vr_lo (xs ! Suc i)} \<union>
        {k. vr_lo (xs ! Suc i) \<le> k \<and> k < vr_lo (xs ! (m - 1)) \<and> k \<notin> vr_pages xs} =
        {k. vr_lo (xs ! i) \<le> k \<and> k < vr_lo (xs ! (m - 1)) \<and> k \<notin> vr_pages xs}"
      unfolding pages_between [OF ok len(1)] using mono lt vr_lo_hi(3) [OF okx(1)] by auto
    have "id_mapped s {k. vr_lo (xs ! i) \<le> k \<and> k < vr_lo (xs ! (m - 1)) \<and> k \<notin> vr_pages xs} (\<lambda>_. 0) s'"
      if "r' = Inr s'" for s'
      using id_mapped_trans [OF m1 r'(2) [OF that]] unfolding set by (simp add: id_mapped_def)
    then show ?thesis unfolding run Inr using r'(3) id_mapped_error [OF m1] by (simp add: r'(1))
  qed
qed

lemma map_identity_spec:
  assumes wf: "vm_wf s" and xs: "take m (unused_va_ranges s) = xs" "length xs = m"
    and m: "m = unat (num_unused_va_ranges s)" "0 < m"
    and ok: "list_all vr_ok xs" "sorted_wrt vr_before xs"
  shows "\<exists>r. map_identity s = Some r \<and> (\<forall>s'. r = Inr s' \<longrightarrow>
    id_mapped s {k. k < vr_lo (xs ! (m - 1)) \<and> k \<notin> vr_pages xs}
      (\<lambda>k. if k < vr_lo (xs ! 0) then uefi_attr_to_pte_flags (rg_uefi_attr (ranges (vm_map s) ! 0)) else 0) s') \<and>
    (\<forall>e. r = Inl e \<longrightarrow> vm_error s e)"
proof -
  let ?fl = "uefi_attr_to_pte_flags (rg_uefi_attr (ranges (vm_map s) ! 0))"
  have get: "unused_va_ranges s ! 0 = xs ! 0" "0 < length (unused_va_ranges s)"
  proof -
    show "unused_va_ranges s ! 0 = xs ! 0"
      using nth_take [OF m(2), of "unused_va_ranges s"] unfolding xs(1) by simp
    have "min (length (unused_va_ranges s)) m = m" using xs by (metis length_take)
    then show "0 < length (unused_va_ranges s)" using m(2) by linarith
  qed
  have mw: "map_ok (vm_map s)" by (rule vm_wfD(1) [OF wf])
  then have "0 < unat (num_mem_ranges (vm_map s))" by (simp add: mm_wf_at_def word_less_nat_alt)
  from ranges_nth [OF mw this] have r0: "mem_ranges (vm_map s) ! 0 = ranges (vm_map s) ! 0"
    "0 < length (mem_ranges (vm_map s))" by simp_all
  have ok0: "vr_ok (xs ! 0)" using ok(1) m xs by (simp add: list_all_length)
  have b: "unat (vr_start (xs ! 0)) = 4096 * vr_lo (xs ! 0)" by (rule vr_lo_hi(1) [OF ok0])
  have top: "0 + vr_lo (xs ! 0) \<le> 2 ^ 20" using vr_lo_hi(3,4) [OF ok0] by simp
  have z: "unat (0 :: u32) = 4096 * 0" by simp
  obtain r where r: "do_va_id_map s 0 (vr_start (xs ! 0)) ?fl = Some r"
    "\<And>s1. r = Inr s1 \<Longrightarrow> id_mapped s {0..<0 + vr_lo (xs ! 0)} (\<lambda>_. ?fl) s1"
    "\<And>e. r = Inl e \<Longrightarrow> vm_error s e"
    using do_va_id_map_spec [OF wf pte_flags_ok(1) z b top] by blast
  have run: "map_identity s = bindo (Some r) (map_between 1 (m - 1))"
    unfolding map_identity_def using get r0 r(1) m(1) by simp
  show ?thesis
  proof (cases r)
    case (Inl e)
    then show ?thesis using run r(3) [OF Inl] by simp
  next
    case (Inr s1)
    note m1 = r(2) [OF Inr]
    have s1: "vm_wf s1" "unused_va_ranges s1 = unused_va_ranges s" using m1 by (auto simp: id_mapped_def same_rest_def)
    then have tk: "take m (unused_va_ranges s1) = xs" using xs by simp
    have n1: "Suc 0 + (m - 1) = m" using m(2) by simp
    obtain r' where r': "map_between 1 (m - 1) s1 = Some r'" "\<And>s'. r' = Inr s' \<Longrightarrow>
      id_mapped s1 {k. vr_lo (xs ! 0) \<le> k \<and> k < vr_lo (xs ! (m - 1)) \<and> k \<notin> vr_pages xs} (\<lambda>_. 0) s'"
      "\<And>e. r' = Inl e \<Longrightarrow> vm_error s1 e"
      using map_between_spec [OF s1(1) tk xs(2) ok n1] by auto
    have mono: "vr_lo (xs ! 0) \<le> vr_lo (xs ! j)" if "j < m" for j
    proof (cases "j = 0")
      case False
      then have "vr_hi (xs ! 0) \<le> vr_lo (xs ! j)" using that xs(2) by (intro found_order [OF ok]) simp_all
      then show ?thesis using vr_lo_hi(3) [OF ok0] by simp
    qed simp
    have low: "k \<notin> vr_pages xs" if "k < vr_lo (xs ! 0)" for k
    proof
      assume "k \<in> vr_pages xs"
      then obtain j where j: "j < m" "4096 * k \<in> vr_set (xs ! j)"
        using xs(2) by (auto simp: vr_pages_def in_set_conv_nth)
      have "vr_ok (xs ! j)" using ok(1) j xs by (simp add: list_all_length)
      then show False using vr_lo_hi(5) j(2) mono [OF j(1)] that by fastforce
    qed
    have last: "vr_lo (xs ! 0) \<le> vr_lo (xs ! (m - 1))" using m(2) by (intro mono) simp
    have "id_mapped s {k. k < vr_lo (xs ! (m - 1)) \<and> k \<notin> vr_pages xs}
        (\<lambda>k. if k < vr_lo (xs ! 0) then ?fl else 0) s'" if "r' = Inr s'" for s'
      using id_mapped_trans [OF m1 r'(2) [OF that]] low last unfolding id_mapped_def by auto
    then show ?thesis unfolding run Inr bindo_simps r'(1) using r'(3) id_mapped_error [OF m1] by simp
  qed
qed

subsection \<open>Memory that is not write-back cacheable\<close>

lemma ceil_page_add: "ceil_page (4096 * k + n) = 4096 * k + ceil_page n"
proof -
  have "4096 * k + n + 4095 = (n + 4095) + k * 4096" by simp
  then have "(4096 * k + n + 4095) div 4096 = k + (n + 4095) div 4096" by (simp only: div_mult_self1)
  then show ?thesis by (simp add: ceil_page_def)
qed

lemma ceil_page_word:
  fixes len :: u32
  assumes "unat len \<le> 2 ^ 32 - 4096"
  shows "unat (if len mod PAGE_SIZE \<noteq> 0 then (len + PAGE_SIZE - 1) AND - PAGE_SIZE else len) = ceil_page (unat len)"
proof -
  have z: "len mod PAGE_SIZE = 0 \<longleftrightarrow> unat len mod 4096 = 0"
    by (simp add: word_unat_eq_iff unat_mod_distrib PAGE_SIZE_def)
  show ?thesis
  proof (cases "len mod PAGE_SIZE = 0")
    case True
    then obtain k where "unat len = 4096 * k" using z by auto
    then show ?thesis using True ceil_page_add [of k 0] by (simp add: ceil_page_def)
  next
    case False
    have "len + PAGE_SIZE - 1 = word_of_nat (unat len + 4095)" by (simp add: PAGE_SIZE_def)
    then have "(len + PAGE_SIZE - 1) AND - PAGE_SIZE = word_of_nat (ceil_page (unat len))"
      by (simp only: of_nat_page_floor ceil_page_def)
    moreover have "ceil_page (unat len) < 2 ^ 32"
      using assms div_times_le [of "unat len + 4095" 4096] by (simp add: ceil_page_def)
    ultimately show ?thesis using False by (simp add: unat_of_nat)
  qed
qed

lemma attr_extent_spec:
  assumes ok: "rg_ok r" and S: "unat (rg_start r) < 2 ^ 32"
    and low: "unat (rg_start r) < 4096 \<Longrightarrow> ceil_page (min (rg_end r) (2 ^ 32)) < 2 ^ 32"
  defines "vp \<equiv> unat (rg_start r) div 4096" and "hi \<equiv> ceil_page (min (rg_end r) (2 ^ 32)) div 4096"
  shows "unat (fst (attr_extent r)) = 4096 * vp" and "unat (snd (attr_extent r)) = 4096 * (hi - vp)"
    and "vp \<le> hi" and "hi \<le> 2 ^ 20"
proof -
  let ?S = "unat (rg_start r)" and ?F = "min (rg_end r) (2 ^ 32)"
  let ?start = "ucast (rg_start r) :: u32"
  have st: "unat ?start = ?S" using S by (intro unat_ucast_down) simp
  have SF: "?S < ?F" using rg_ok_start [OF ok] S by simp
  have "ucast ?start = rg_start r" using st by (simp add: word_unat_eq_iff unat_ucast_up)
  then have "unat (XM32_MAX_ADDR - ucast ?start) = 2 ^ 32 - ?S"
    using S by (subst unat_sub) (simp_all add: XM32_MAX_ADDR_def word_le_nat_alt)
  then have big: "XM32_MAX_ADDR - ucast ?start \<le> rg_len r \<longleftrightarrow> 2 ^ 32 \<le> rg_end r"
    using S by (simp add: word_le_nat_alt rg_end_def) linarith
  let ?l = "if rg_len r \<ge> XM32_MAX_ADDR - ucast ?start then ucast XM32_MAX_ADDR - ?start else ucast (rg_len r) :: u32"
  have l: "unat ?l = ?F - ?S"
  proof (cases "2 ^ 32 \<le> rg_end r")
    case True
    then have "4096 \<le> ?S" using low by (fastforce simp: ceil_page_def)
    then have "unat (ucast XM32_MAX_ADDR - ?start :: u32) = 2 ^ 32 - ?S"
      using diff_down(1) [of XM32_MAX_ADDR "rg_start r"] S by (simp add: XM32_MAX_ADDR_def)
    then show ?thesis using True by (simp add: big min_def)
  next
    case False
    then have "unat (ucast (rg_len r) :: u32) = unat (rg_len r)" by (intro unat_ucast_down) (simp add: rg_end_def)
    then show ?thesis using False by (simp add: big min_def rg_end_def)
  qed
  have m: "unat (?start mod PAGE_SIZE) = ?S mod 4096" by (simp add: PAGE_SIZE_def unat_mod_distrib st)
  have F: "?F = 4096 * vp + (?F - ?S + ?S mod 4096)"
  proof -
    have "4096 * vp + ?S mod 4096 = ?S" by (simp add: vp_def)
    then show ?thesis using SF by linarith
  qed
  have room: "?F - ?S + ?S mod 4096 \<le> 2 ^ 32 - 4096"
  proof (cases "vp = 0")
    case True
    then have "?S < 4096" by (simp add: vp_def div_eq_0_iff)
    then have "ceil_page ?F < 2 ^ 32" by (rule low)
    moreover have "4096 dvd ceil_page ?F" by (simp add: ceil_page_def)
    ultimately have "ceil_page ?F \<le> 2 ^ 32 - 4096" by (elim dvdE) simp
    moreover have "?F \<le> ceil_page ?F" using div_times_gt [of 4096 "?F + 4095"] by (simp add: ceil_page_def)
    ultimately show ?thesis using F True by simp
  next
    case False
    then have "4096 \<le> 4096 * vp" by simp
    moreover have "?F \<le> 2 ^ 32" by simp
    ultimately show ?thesis using F by linarith
  qed
  let ?len = "if ?start mod PAGE_SIZE \<noteq> 0 then ?l + ?start mod PAGE_SIZE else ?l"
  have "?len = ?l + ?start mod PAGE_SIZE" by (cases "?start mod PAGE_SIZE = 0") simp_all
  moreover have "unat (?l + ?start mod PAGE_SIZE) = ?F - ?S + ?S mod 4096"
    using room by (subst unat_add_nowrap) (simp_all add: l m)
  ultimately have len: "unat ?len = ?F - ?S + ?S mod 4096" by simp
  have snd: "unat (snd (attr_extent r)) = ceil_page (?F - ?S + ?S mod 4096)"
    using ceil_page_word [of ?len] room unfolding len by (simp only: attr_extent_def Let_def snd_conv)
  have hi: "ceil_page ?F = 4096 * vp + ceil_page (?F - ?S + ?S mod 4096)"
    using ceil_page_add [of vp "?F - ?S + ?S mod 4096"] unfolding F [symmetric] .
  have d: "4096 * hi = ceil_page ?F" by (simp add: hi_def ceil_page_def)
  show "unat (snd (attr_extent r)) = 4096 * (hi - vp)"
    unfolding snd diff_mult_distrib2 d hi by simp
  show "vp \<le> hi" using hi d by linarith
  have "ceil_page ?F \<le> 2 ^ 32" using div_times_le [of "?F + 4095" 4096]
    by (simp add: ceil_page_def)
  then show "hi \<le> 2 ^ 20" using d by simp
  have "unat (?start AND - PAGE_SIZE) = 4096 * vp"
    using unat_and_neg_exp [of 12 ?start] by (simp add: PAGE_SIZE_def st vp_def)
  moreover have "?start AND - PAGE_SIZE = ?start" if "?start mod PAGE_SIZE = 0"
  proof -
    have "?S mod 4096 = 0" using m that by simp
    then have "?S = 4096 * vp" by (auto simp: vp_def)
    then show ?thesis using calculation st by (simp add: word_unat_eq_iff)
  qed
  ultimately show "unat (fst (attr_extent r)) = 4096 * vp"
    by (cases "?start mod PAGE_SIZE = 0") (simp_all only: attr_extent_def Let_def fst_conv if_True if_False not_not simp_thms)
qed

lemma skip_past_spec:
  assumes wf: "map_ok mp" and i: "i + n = length (ranges mp)"
  shows "\<exists>i'. skip_past mp S i = Inr i' \<and> i \<le> i' \<and> i' \<le> length (ranges mp) \<and>
    (\<forall>j. i \<le> j \<and> j < i' \<longrightarrow> rg_start (ranges mp ! j) \<le> S) \<and>
    (i' < length (ranges mp) \<longrightarrow> S < rg_start (ranges mp ! i'))"
  using i
proof (induction n arbitrary: i)
  case 0
  then have "skip_past mp S i = Inr i" using length_ranges [OF wf] by (subst skip_past.simps) simp
  then show ?case using 0 by auto
next
  case (Suc n)
  have i: "i < unat (num_mem_ranges mp)" using Suc.prems length_ranges [OF wf] by simp
  note r = ranges_nth [OF wf i]
  have run: "skip_past mp S i = (if rg_start (ranges mp ! i) \<le> S then skip_past mp S (i + 1) else Inr i)"
    using i r by (subst skip_past.simps) simp
  show ?case
  proof (cases "rg_start (ranges mp ! i) \<le> S")
    case True
    have "(i + 1) + n = length (ranges mp)" using Suc.prems by simp
    from Suc.IH [OF this] obtain i' where i': "skip_past mp S (i + 1) = Inr i'" "i + 1 \<le> i'" "i' \<le> length (ranges mp)"
      "\<forall>j. i + 1 \<le> j \<and> j < i' \<longrightarrow> rg_start (ranges mp ! j) \<le> S"
      "i' < length (ranges mp) \<longrightarrow> S < rg_start (ranges mp ! i')" by blast
    have "\<forall>j. i \<le> j \<and> j < i' \<longrightarrow> rg_start (ranges mp ! j) \<le> S"
      using i'(4) True by (metis Suc_eq_plus1 le_neq_implies_less less_eq_Suc_le)
    then show ?thesis using i' run True by auto
  next
    case False
    then show ?thesis using run Suc.prems by (auto simp: not_le)
  qed
qed

end
