(* ===== verification/Va_Attrs.thy ===== *)
theory Va_Attrs
  imports Va_Identity
begin

text \<open>
  The last loop of \<^verbatim>\<open>va_init\<close> of \<^verbatim>\<open>stage2/mem.c\<close>: every page that holds memory which is not
  write-back cacheable is mapped again with the attributes of that memory. The loop walks the
  array of ranges while the page tables it needs are allocated from the same array.
\<close>

unbundle bit_operations_syntax

definition nonwb :: "mem_map \<Rightarrow> (nat \<times> u64) set" where
  "nonwb mp = {(b, x) \<in> shape mp. uefi_attr_to_pte_flags x \<noteq> 0 \<and> b < 2 ^ 32}"

text \<open>
  The pages of such memory at or above \<open>L\<close> are mapped again. Below \<open>B\<close>, where ranges may overlap,
  those pages need not be.
\<close>

definition fixed :: "nat \<Rightarrow> vm \<Rightarrow> nat \<Rightarrow> vm \<Rightarrow> bool" where
  "fixed B s L s' \<longleftrightarrow> (\<exists>T g. id_mapped s T g s' \<and>
     (\<forall>b x. (b, x) \<in> nonwb (vm_map s) \<longrightarrow> B \<le> b \<longrightarrow> L \<le> b \<longrightarrow> b div 4096 \<in> T) \<and>
     (\<forall>n\<in>T. \<exists>b x. (b, x) \<in> nonwb (vm_map s) \<and> b div 4096 = n \<and> g n = uefi_attr_to_pte_flags x))"

text \<open>Where the range with index \<open>i\<close> starts.\<close>

definition start_at :: "mem_map \<Rightarrow> nat \<Rightarrow> nat" where
  "start_at mp i = (if i < length (ranges mp) then unat (rg_start (ranges mp ! i)) else 2 ^ 64)"

text \<open>A byte at or above \<open>B\<close> is in one range, in front of which are those that start at or below it.\<close>

lemma shape_in_range:
  assumes wf: "mm_wf_at B mp" and b: "(b, x) \<in> shape mp" "B \<le> b"
  obtains j where "j < length (ranges mp)" and "b \<in> rg_bytes (ranges mp ! j)" and "x = rg_uefi_attr (ranges mp ! j)"
    and "\<And>i. start_at mp i \<le> b \<longleftrightarrow> i \<le> j"
proof -
  obtain j where j: "j < length (ranges mp)" "b \<in> rg_bytes (ranges mp ! j)" "x = rg_uefi_attr (ranges mp ! j)"
    using b(1) by (auto simp: shape_def in_set_conv_nth)
  have high: "unat (rg_start (ranges mp ! j)) \<le> b" "b < rg_end (ranges mp ! j)" using j(2) by (simp_all add: rg_bytes_def)
  have lo: "start_at mp i \<le> b" if "i \<le> j" for i
  proof (cases "i = j")
    case False
    then have i: "i < length (ranges mp)" "i < j" using that j(1) by simp_all
    have "rg_end (ranges mp ! i) \<le> unat (rg_start (ranges mp ! j))" using ranges_order(2) [OF wf j(1) i(2)] high b(2) by linarith
    then show ?thesis using rg_ok_start [OF ranges_order(1) [OF wf i(1)]] high(1) i(1) by (simp add: start_at_def)
  qed (use j high in \<open>simp add: start_at_def\<close>)
  have hi: "b < start_at mp i" if "j < i" for i
  proof (cases "i < length (ranges mp)")
    case True
    then show ?thesis using ranges_order(2) [OF wf True that] high b(2) by (simp add: start_at_def)
  next
    case False
    then show ?thesis using ranges_order(1) [OF wf j(1)] high by (simp add: start_at_def rg_ok_def)
  qed
  have "start_at mp i \<le> b \<longleftrightarrow> i \<le> j" for i using lo [of i] hi [of i] by (meson not_le)
  then show ?thesis using that j by blast
qed

lemma fixed_0: "vm_wf s \<Longrightarrow> 2 ^ 32 \<le> L \<Longrightarrow> fixed B s L s"
  unfolding fixed_def by (intro exI [of _ "{}"] exI [of _ "\<lambda>_. 0"]) (auto simp: id_mapped_refl nonwb_def)

lemma fixed_skip:
  assumes wf: "mm_wf_at B (vm_map s)" and i: "i < length (ranges (vm_map s))"
    and no: "uefi_attr_to_pte_flags (rg_uefi_attr (ranges (vm_map s) ! i)) = 0 \<or> 2 ^ 32 \<le> start_at (vm_map s) i"
    and f: "fixed B s (start_at (vm_map s) (i + 1)) s'"
  shows "fixed B s (start_at (vm_map s) i) s'"
proof -
  have "start_at (vm_map s) (i + 1) \<le> b" if b: "(b, x) \<in> nonwb (vm_map s)" "B \<le> b" "start_at (vm_map s) i \<le> b" for b x
  proof -
    have nw: "(b, x) \<in> shape (vm_map s)" "uefi_attr_to_pte_flags x \<noteq> 0" "b < 2 ^ 32" using b(1) by (simp_all add: nonwb_def)
    obtain j where j: "x = rg_uefi_attr (ranges (vm_map s) ! j)" "\<And>i. start_at (vm_map s) i \<le> b \<longleftrightarrow> i \<le> j"
      using shape_in_range [OF wf nw(1) b(2)] by metis
    have "i \<noteq> j" using no nw(2,3) b(3) j(1) by auto
    then show ?thesis using b(3) unfolding j(2) by simp
  qed
  then show ?thesis using f unfolding fixed_def by blast
qed

text \<open>The pages mapped for a range.\<close>

definition range_pages :: "mem_range \<Rightarrow> nat set" where
  "range_pages r = {unat (rg_start r) div 4096..<ceil_page (min (rg_end r) (2 ^ 32)) div 4096}"

lemma range_pages_iff:
  assumes "rg_ok r" and "unat (rg_start r) < 2 ^ 32"
  shows "n \<in> range_pages r \<longleftrightarrow> (\<exists>b\<in>rg_bytes r. b < 2 ^ 32 \<and> b div 4096 = n)"
proof
  let ?S = "unat (rg_start r)" and ?F = "min (rg_end r) (2 ^ 32)"
  have SF: "?S < ?F" using rg_ok_start [OF assms(1)] assms(2) by simp
  {
    assume n: "n \<in> range_pages r"
    let ?b = "max ?S (4096 * n)"
    have "n < (?F + 4095) div 4096" using n by (simp add: range_pages_def ceil_page_def)
    then have "4096 * n < ?F" by (simp add: less_eq_div_iff_mult_less_eq Suc_le_eq [symmetric])
    moreover have "?S div 4096 \<le> n" using n by (simp add: range_pages_def)
    then have "?b div 4096 = n" using div_times_gt [of 4096 ?S] by (auto simp: max_def)
    ultimately show "\<exists>b\<in>rg_bytes r. b < 2 ^ 32 \<and> b div 4096 = n"
      using SF by (intro bexI [of _ ?b]) (simp_all add: rg_bytes_def)
  next
    assume "\<exists>b\<in>rg_bytes r. b < 2 ^ 32 \<and> b div 4096 = n"
    then obtain b where b: "?S \<le> b" "b < ?F" "n = b div 4096" by (auto simp: rg_bytes_def)
    have "b + 4096 \<le> ?F + 4095" using b by simp
    then have "(b + 4096) div 4096 \<le> (?F + 4095) div 4096" by (rule div_le_mono)
    then show "n \<in> range_pages r" using b(1) by (simp add: range_pages_def ceil_page_def b(3) div_le_mono)
  }
qed

lemma range_pages_nonwb:
  assumes wf: "mm_wf_at B mp" and i: "i < length (ranges mp)" and fl: "uefi_attr_to_pte_flags (rg_uefi_attr (ranges mp ! i)) \<noteq> 0"
    and S: "unat (rg_start (ranges mp ! i)) < 2 ^ 32" and n: "n \<in> range_pages (ranges mp ! i)"
  shows "\<exists>b. (b, rg_uefi_attr (ranges mp ! i)) \<in> nonwb mp \<and> b div 4096 = n"
proof -
  obtain b where "b \<in> rg_bytes (ranges mp ! i)" "b < 2 ^ 32" "b div 4096 = n"
    using n range_pages_iff [OF ranges_order(1) [OF wf i] S] by blast
  moreover have "ranges mp ! i \<in> set (ranges mp)" using i by simp
  ultimately show ?thesis using fl unfolding nonwb_def shape_def by blast
qed

lemma fixed_map:
  assumes wf: "mm_wf_at B (vm_map s)" "B \<le> low_top" and i: "i < length (ranges (vm_map s))"
    and fl: "uefi_attr_to_pte_flags (rg_uefi_attr (ranges (vm_map s) ! i)) = fl" "fl \<noteq> 0"
    and S: "unat (rg_start (ranges (vm_map s) ! i)) < 2 ^ 32"
    and m: "id_mapped s (range_pages (ranges (vm_map s) ! i)) (\<lambda>_. fl) s1"
    and le: "\<forall>j. i \<le> j \<and> j < i' \<longrightarrow> rg_start (ranges (vm_map s1) ! j) \<le> rg_start (ranges (vm_map s) ! i)"
    and f: "fixed B s1 (start_at (vm_map s1) i') s'"
  shows "fixed B s (start_at (vm_map s) i) s'"
proof -
  let ?mp = "vm_map s" and ?mp1 = "vm_map s1"
  let ?r = "ranges ?mp ! i"
  have g: "grown ?mp ?mp1" using m by (simp add: id_mapped_def same_rest_def)
  have nw: "nonwb ?mp1 = nonwb ?mp" by (simp add: nonwb_def grownD(1) [OF g])
  have wf1: "mm_wf_at B ?mp1" by (rule grownD(7) [OF g wf(2,1)])
  have ok: "rg_ok ?r" by (rule ranges_order(1) [OF wf(1) i])
  have here: "b div 4096 \<in> range_pages ?r"
    if b: "(b, x) \<in> nonwb ?mp" "B \<le> b" "start_at ?mp i \<le> b" "b < start_at ?mp1 i'" for b x
  proof -
    have sh: "(b, x) \<in> shape ?mp" "(b, x) \<in> shape ?mp1" using b(1) grownD(1) [OF g] by (simp_all add: nonwb_def)
    obtain j where j: "j < length (ranges ?mp)" "b \<in> rg_bytes (ranges ?mp ! j)" "\<And>i. start_at ?mp i \<le> b \<longleftrightarrow> i \<le> j"
      using shape_in_range [OF wf(1) sh(1) b(2)] by metis
    obtain j1 where j1: "\<And>i. start_at ?mp1 i \<le> b \<longleftrightarrow> i \<le> j1"
      using shape_in_range [OF wf1 sh(2) b(2)] by metis
    obtain k where k: "k < length (ranges ?mp1)" "j \<le> k" "rg_start (ranges ?mp1 ! k) = rg_start (ranges ?mp ! j)"
      using grownD(5) [OF g j(1)] by blast
    have "start_at ?mp1 k \<le> b" using k j(1,2) by (simp add: start_at_def rg_bytes_def)
    then have "k < i'" using b(4) j1 [of k] j1 [of i'] by (meson le_trans not_le)
    have "\<not> i < j"
    proof
      assume ij: "i < j"
      then have "rg_start (ranges ?mp ! j) \<le> rg_start ?r" using le k \<open>k < i'\<close> by (metis le_trans less_imp_le)
      moreover have "rg_end ?r \<le> unat (rg_start (ranges ?mp ! j))"
        using ranges_order(2) [OF wf(1) j(1) ij] j(2) b(2) by (simp add: rg_bytes_def)
      ultimately show False using rg_ok_start [OF ok] by (simp add: word_le_nat_alt)
    qed
    then have "j = i" using b(3) j(3) by simp
    then show ?thesis using j(2) range_pages_iff [OF ok S] b(1) by (auto simp: nonwb_def)
  qed
  obtain T g where T: "id_mapped s1 T g s'"
    "\<And>b x. (b, x) \<in> nonwb ?mp \<Longrightarrow> B \<le> b \<Longrightarrow> start_at ?mp1 i' \<le> b \<Longrightarrow> b div 4096 \<in> T"
    "\<And>n. n \<in> T \<Longrightarrow> \<exists>b x. (b, x) \<in> nonwb ?mp \<and> b div 4096 = n \<and> g n = uefi_attr_to_pte_flags x"
    using f unfolding fixed_def nw by blast
  show ?thesis
    unfolding fixed_def
  proof (rule exI, rule exI, intro conjI allI impI ballI)
    show "id_mapped s (range_pages ?r \<union> T) (\<lambda>n. if n \<in> T then g n else fl) s'" by (rule id_mapped_trans [OF m T(1)])
    show "b div 4096 \<in> range_pages ?r \<union> T" if "(b, x) \<in> nonwb ?mp" "B \<le> b" "start_at ?mp i \<le> b" for b x
      using T(2) [OF that(1,2)] here [OF that] by (cases "start_at ?mp1 i' \<le> b") auto
    show "\<exists>b x. (b, x) \<in> nonwb ?mp \<and> b div 4096 = n \<and> (if n \<in> T then g n else fl) = uefi_attr_to_pte_flags x"
      if n: "n \<in> range_pages ?r \<union> T" for n
    proof (cases "n \<in> T")
      case True
      then show ?thesis using T(3) by simp
    next
      case False
      then have "n \<in> range_pages ?r" using n by blast
      from range_pages_nonwb [OF wf(1) i _ S this] fl show ?thesis using False by auto
    qed
  qed
qed

text \<open>
  The loop ends: the page tables of a range either split a range of the map, of which there is room
  for so many only, or leave all starts as they are, and then the loop moves on.
\<close>

definition todo :: "mem_map \<Rightarrow> nat \<Rightarrow> nat" where
  "todo mp i = (unat (max_mem_ranges mp) - unat (num_mem_ranges mp)) + (unat (max_mem_ranges mp) - i)"

lemma num_le_max: "mm_wf_at B mp \<Longrightarrow> unat (num_mem_ranges mp) \<le> unat (max_mem_ranges mp)"
  by (simp add: mm_wf_at_def word_le_nat_alt)

lemma todo_less:
  assumes wf: "mm_wf_at B mp" "mm_wf_at B mp'" and g: "grown mp mp'" and i: "i < length (ranges mp)"
    and i': "i \<le> i'" "i' \<le> length (ranges mp')"
    and past: "i' < length (ranges mp') \<longrightarrow> rg_start (ranges mp ! i) < rg_start (ranges mp' ! i')"
  shows "todo mp' i' < todo mp i"
proof (cases "num_mem_ranges mp' = num_mem_ranges mp")
  case True
  have len: "length (ranges mp') = length (ranges mp)" using length_ranges [OF wf(1)] length_ranges [OF wf(2)] True by simp
  have "map rg_start (ranges mp') ! i = map rg_start (ranges mp) ! i" using grownD(4) [OF g True] by simp
  then have "rg_start (ranges mp' ! i) = rg_start (ranges mp ! i)" using i len by simp
  then have "i' \<noteq> i" using past i len by auto
  then show ?thesis
    using i' i len num_le_max [OF wf(1)] length_ranges [OF wf(1)] grownD(2) [OF g] True by (simp add: todo_def)
next
  case False
  then have "unat (num_mem_ranges mp) < unat (num_mem_ranges mp')"
    using grownD(3) [OF g] by (simp add: word_le_nat_alt word_unat_eq_iff)
  then show ?thesis using i'(1) num_le_max [OF wf(2)] grownD(2) [OF g] by (simp add: todo_def)
qed

lemma fix_attrs_spec:
  assumes "vm_wf s" and "mm_wf_at B (vm_map s)" and "holes (vm_map s) \<noteq> {}" and "i \<le> length (ranges (vm_map s))"
    and low: "B \<le> low_top"
  shows "\<exists>r. fix_attrs i s = Some r \<and> (\<forall>s'. r = Inr s' \<longrightarrow> fixed B s (start_at (vm_map s) i) s') \<and>
    (\<forall>e. r = Inl e \<longrightarrow> vm_error s e)"
  using assms(1-4)
proof (induction "todo (vm_map s) i" arbitrary: i s rule: less_induct)
  case less
  let ?mp = "vm_map s"
  let ?r = "ranges ?mp ! i"
  have wf: "mm_wf_at B ?mp" by (rule less.prems(2))
  have mok: "map_ok ?mp" by (rule vm_wfD(1) [OF less.prems(1)])
  note len = length_ranges [OF wf]
  show ?case
  proof (cases "i < length (ranges ?mp)")
    case False
    then have "fix_attrs i s = Some (Inr s)" using len by (subst fix_attrs.simps) simp
    then show ?thesis using fixed_0 [OF less.prems(1)] False by (simp add: start_at_def)
  next
    case i: True
    then have r: "mem_ranges ?mp ! i = ?r" "i < length (mem_ranges ?mp)" using ranges_nth [OF wf, of i] len by simp_all
    let ?fl = "uefi_attr_to_pte_flags (rg_uefi_attr ?r)"
    have run: "fix_attrs i s = (if ?fl = 0 \<or> XM32_MAX_ADDR \<le> rg_start ?r then fix_attrs (i + 1) s
        else bindo (do_va_id_map s (fst (attr_extent ?r)) (snd (attr_extent ?r)) ?fl) (\<lambda>s'.
            bindo (Some (skip_past (vm_map s') (rg_start ?r) i)) (\<lambda>i'. fix_attrs i' s')))"
      using i len r by (subst fix_attrs.simps) (simp add: Let_def)
    show ?thesis
    proof (cases "?fl = 0 \<or> XM32_MAX_ADDR \<le> rg_start ?r")
      case True
      then have no: "?fl = 0 \<or> 2 ^ 32 \<le> start_at ?mp i"
        using i by (auto simp: start_at_def word_le_nat_alt XM32_MAX_ADDR_def)
      have "todo ?mp (i + 1) < todo ?mp i" using i len num_le_max [OF wf] by (simp add: todo_def)
      moreover have "i + 1 \<le> length (ranges ?mp)" using i by simp
      ultimately obtain q where "fix_attrs (i + 1) s = Some q" "\<And>s'. q = Inr s' \<Longrightarrow> fixed B s (start_at ?mp (i + 1)) s'"
        "\<And>e. q = Inl e \<Longrightarrow> vm_error s e"
        using less.hyps [of s "i + 1"] less.prems by blast
      then show ?thesis unfolding run if_P [OF True] using fixed_skip [OF wf i no] by blast
    next
      case False
      then have fl: "?fl \<noteq> 0" and S: "unat (rg_start ?r) < 2 ^ 32" by (auto simp: word_le_nat_alt XM32_MAX_ADDR_def)
      have ok: "rg_ok ?r" by (rule ranges_order(1) [OF wf i])
      have bound: "ceil_page (min (rg_end ?r) (2 ^ 32)) < 2 ^ 32" if "unat (rg_start ?r) < 4096"
      proof -
        obtain h where h: "h \<in> holes ?mp" using less.prems(3) by blast
        then have "ceil_page (rg_end ?r) \<le> h" using that by (intro hole_above [OF mok i]) (simp_all add: holes_def)
        moreover have "ceil_page (min (rg_end ?r) (2 ^ 32)) \<le> ceil_page (rg_end ?r)"
          unfolding ceil_page_def by (intro mult_right_mono div_le_mono) simp_all
        ultimately show ?thesis using h by (simp add: holes_def)
      qed
      note ext = attr_extent_spec [OF ok S bound]
      let ?vp = "unat (rg_start ?r) div 4096" and ?hi = "ceil_page (min (rg_end ?r) (2 ^ 32)) div 4096"
      have top: "?vp + (?hi - ?vp) \<le> 2 ^ 20" using ext(3,4) by simp
      obtain q where q: "do_va_id_map s (fst (attr_extent ?r)) (snd (attr_extent ?r)) ?fl = Some q"
        "\<And>s1. q = Inr s1 \<Longrightarrow> id_mapped s {?vp..<?vp + (?hi - ?vp)} (\<lambda>_. ?fl) s1"
        "\<And>e. q = Inl e \<Longrightarrow> vm_error s e"
        using do_va_id_map_spec [OF less.prems(1) pte_flags_ok(1) ext(1,2) top] by blast
      show ?thesis
      proof (cases q)
        case (Inl e)
        then show ?thesis unfolding run if_not_P [OF False] q(1) using q(3) by simp
      next
        case (Inr s1)
        have m: "id_mapped s (range_pages ?r) (\<lambda>_. ?fl) s1" using q(2) [OF Inr] ext(3) by (simp add: range_pages_def)
        have s1: "vm_wf s1" "grown ?mp (vm_map s1)" using m by (auto simp: id_mapped_def same_rest_def)
        have wf1: "mm_wf_at B (vm_map s1)" by (rule grownD(7) [OF s1(2) low wf])
        have "i \<le> length (ranges (vm_map s1))"
          using grownD(3) [OF s1(2)] i len length_ranges [OF wf1] by (simp add: word_le_nat_alt)
        then have "i + (length (ranges (vm_map s1)) - i) = length (ranges (vm_map s1))" by simp
        from skip_past_spec [OF vm_wfD(1) [OF s1(1)] this] obtain i' where i': "skip_past (vm_map s1) (rg_start ?r) i = Inr i'"
          "i \<le> i'" "i' \<le> length (ranges (vm_map s1))"
          "\<forall>j. i \<le> j \<and> j < i' \<longrightarrow> rg_start (ranges (vm_map s1) ! j) \<le> rg_start ?r"
          "i' < length (ranges (vm_map s1)) \<longrightarrow> rg_start ?r < rg_start (ranges (vm_map s1) ! i')" by blast
        have dec: "todo (vm_map s1) i' < todo ?mp i" by (rule todo_less [OF wf wf1 s1(2) i i'(2,3,5)])
        have "holes (vm_map s1) \<noteq> {}" using less.prems(3) by (simp add: holes_def covered_shape grownD(1) [OF s1(2)])
        from less.hyps [OF dec s1(1) wf1 this i'(3)] obtain q' where q': "fix_attrs i' s1 = Some q'"
          "\<And>s'. q' = Inr s' \<Longrightarrow> fixed B s1 (start_at (vm_map s1) i') s'" "\<And>e. q' = Inl e \<Longrightarrow> vm_error s1 e" by blast
        have "fixed B s (start_at ?mp i) s'" if "q' = Inr s'" for s'
          by (rule fixed_map [OF wf low i refl fl S m i'(4) q'(2) [OF that]])
        moreover have "vm_error s e" if "q' = Inl e" for e
          by (rule id_mapped_error [OF m q'(3) [OF that]])
        ultimately show ?thesis unfolding run if_not_P [OF False] q(1) Inr bindo_simps i'(1) q'(1) by simp
      qed
    qed
  qed
qed

end
