(* ===== verification/Va_Start.thy ===== *)
theory Va_Start
  imports Va_Attrs
begin

text \<open>
  \<^verbatim>\<open>va_init\<close> of \<^verbatim>\<open>stage2/mem.c\<close> as a whole: the invariant of virtual memory holds when it
  returns, the unused addresses are the holes of the physical memory map, and what every other
  address translates to is determined.
\<close>

unbundle bit_operations_syntax

subsection \<open>The map it starts from\<close>

lemma holes_shape: "shape mp' = shape mp \<Longrightarrow> holes mp' = holes mp"
  by (simp add: holes_def covered_shape)

lemma nonwb_shape: "shape mp' = shape mp \<Longrightarrow> nonwb mp' = nonwb mp"
  by (simp add: nonwb_def)

lemma first_range:
  assumes wf: "mm_wf_at B mp"
  shows "0 < length (ranges mp)"
    and "b \<in> covered mp \<Longrightarrow> unat (rg_start (ranges mp ! 0)) \<le> b \<or> rg_end (ranges mp ! 0) \<le> B"
proof -
  show l: "0 < length (ranges mp)" using wf length_ranges [OF wf] by (simp add: mm_wf_at_def word_less_nat_alt)
  assume "b \<in> covered mp"
  then obtain j where j: "j < length (ranges mp)" "b \<in> rg_bytes (ranges mp ! j)" by (auto simp: in_covered)
  show "unat (rg_start (ranges mp ! 0)) \<le> b \<or> rg_end (ranges mp ! 0) \<le> B"
    using ranges_order(2) [OF wf j(1), of 0] rg_ok_start [OF ranges_order(1) [OF wf l]] j(2)
    by (cases "j = 0") (auto simp: rg_bytes_def)
qed

lemma holes_found_start:
  assumes wf: "map_ok mp"
  shows "holes_found mp [] (limit mp 1)"
proof -
  have lim: "limit mp 1 = max (2 ^ 20) (unat (rg_start (ranges mp ! 0)))"
    using first_range(1) [OF wf] by (simp add: limit_def Suc_le_eq)
  have "\<not> a < limit mp 1" if a: "a \<in> holes mp" for a
  proof
    assume "a < limit mp 1"
    then have lt: "a < unat (rg_start (ranges mp ! 0))" and "2 ^ 20 \<le> a"
      using a unfolding lim by (auto simp: holes_def)
    then have "low_top < rg_end (ranges mp ! 0)"
      using rg_ok_start [OF ranges_order(1) [OF wf first_range(1) [OF wf]]] by (simp add: low_top_def)
    then show False using a lt first_range(2) [OF wf] by (fastforce simp: holes_def)
  qed
  then show ?thesis by (auto simp: holes_found_def)
qed

text \<open>The unused ranges found are those of the invariant.\<close>

lemma found_vrs:
  assumes f: "holes_found mp xs (2 ^ 32)" and xs: "live_ranges s = xs" "length xs = unat (num_unused_va_ranges s)"
    and le: "num_unused_va_ranges s \<le> max_unused_va_ranges s" "length (unused_va_ranges s) = unat (max_unused_va_ranges s)"
  shows "vrs_wf s" and "va_unused s = holes mp"
proof -
  note f = f [unfolded holes_found_def]
  have "pairwise_disjoint (map vr_set ys)" if "sorted_wrt vr_before ys" for ys
    using that
  proof (induction ys)
    case (Cons y ys)
    then have "vr_set y \<inter> vr_set z = {}" if "z \<in> set ys" for z
      using that by (fastforce simp: vr_before_def vr_set_def)
    then show ?case using Cons by simp
  qed simp
  then show "vrs_wf s" using f le by (simp add: vrs_wf_def xs(1))
  show "va_unused s = holes mp" using f by (auto simp: va_unused_def xs(1) holes_def)
qed

text \<open>Holes consist of whole pages.\<close>

lemma hole_page:
  assumes a: "a \<in> holes mp" and pg: "a' div 4096 = a div 4096"
  shows "a' \<in> holes mp"
proof -
  have "2 ^ 20 div 4096 \<le> a' div 4096" unfolding pg using a by (intro div_le_mono) (simp add: holes_def)
  then have lo: "2 ^ 20 \<le> a'" by (simp add: less_eq_div_iff_mult_less_eq)
  have "a' div 4096 \<le> (2 ^ 32 - 1) div 4096" unfolding pg using a by (intro div_le_mono) (simp add: holes_def)
  then have hi: "a' < 2 ^ 32" using div_times_gt [of 4096 a'] by simp
  obtain b where b: "b \<in> covered mp" "b < a" "b div 4096 \<noteq> a' div 4096" using a pg by (auto simp: holes_def)
  have "b div 4096 \<le> a' div 4096" unfolding pg using b(2) by (intro div_le_mono) simp
  then have "b < a'" using b(3) by (metis div_le_mono le_neq_implies_less linorder_not_less)
  then show ?thesis using a lo hi b(1) pg by (auto simp: holes_def)
qed

text \<open>How an address lies to the unused ranges, by its page.\<close>

lemma found_pages:
  assumes f: "holes_found mp xs (2 ^ 32)"
  shows "n \<in> vr_pages xs \<longleftrightarrow> 4096 * n \<in> holes mp" and "a div 4096 \<in> vr_pages xs \<longleftrightarrow> a \<in> holes mp"
    and "holes mp \<noteq> {} \<Longrightarrow> xs \<noteq> []"
proof -
  have U: "\<Union>(vr_set ` set xs) = holes mp" using f by (auto simp: holes_found_def holes_def)
  show 1: "n \<in> vr_pages xs \<longleftrightarrow> 4096 * n \<in> holes mp" for n by (simp only: vr_pages_def U mem_Collect_eq)
  show "a div 4096 \<in> vr_pages xs \<longleftrightarrow> a \<in> holes mp" unfolding 1
    using hole_page [of a mp "4096 * (a div 4096)"] hole_page [of "4096 * (a div 4096)" mp a] by auto
  show "holes mp \<noteq> {} \<Longrightarrow> xs \<noteq> []" using U by auto
qed

lemma found_outside:
  assumes f: "holes_found mp xs (2 ^ 32)" and ne: "xs \<noteq> []" and a: "a \<notin> holes mp"
  shows "a div 4096 < vr_lo (xs ! (length xs - 1)) \<longleftrightarrow> (\<exists>h\<in>holes mp. a < h)"
    and "a div 4096 < vr_lo (xs ! 0) \<longleftrightarrow> \<not> (\<exists>h\<in>holes mp. h < a)"
proof -
  note f' = f [unfolded holes_found_def]
  have U: "\<Union>(vr_set ` set xs) = holes mp" using f by (auto simp: holes_found_def holes_def)
  have ok: "vr_ok (xs ! k)" if "k < length xs" for k using f' that by (simp add: list_all_length)
  have st: "unat (vr_start (xs ! k)) \<in> holes mp" if k: "k < length xs" for k
  proof -
    have "0 < vr_len (xs ! k)" using f' nth_mem [OF k] by blast
    then have "unat (vr_start (xs ! k)) \<in> vr_set (xs ! k)" by (simp add: vr_set_def vr_end_def word_less_nat_alt)
    then show ?thesis using U nth_mem [OF k] by blast
  qed
  have pos: "a < unat (vr_start (xs ! k)) \<or> vr_end (xs ! k) \<le> a" if k: "k < length xs" for k
    using U nth_mem [OF k] a by (fastforce simp: vr_set_def)
  have pg: "a div 4096 < vr_lo (xs ! k) \<longleftrightarrow> a < unat (vr_start (xs ! k))" if k: "k < length xs" for k
    unfolding vr_lo_hi(1) [OF ok [OF k]] by (simp add: div_less_iff_less_mult mult.commute)
  have ord: "vr_end (xs ! i) \<le> unat (vr_start (xs ! j))" if "i < j" "j < length xs" for i j
    using sorted_wrt_nth_less [of vr_before xs i j] f' that by (simp add: vr_before_def)
  have le: "unat (vr_start r) \<le> vr_end r" for r by (simp add: vr_end_def)
  have hk: "\<exists>k<length xs. unat (vr_start (xs ! k)) \<le> h \<and> h < vr_end (xs ! k)" if "h \<in> holes mp" for h
    using that unfolding U [symmetric] by (auto simp: vr_set_def in_set_conv_nth)
  let ?m = "length xs - 1"
  have m: "?m < length xs" "0 < length xs" using ne by simp_all
  show "a div 4096 < vr_lo (xs ! ?m) \<longleftrightarrow> (\<exists>h\<in>holes mp. a < h)"
  proof
    assume "\<exists>h\<in>holes mp. a < h"
    then obtain h k where h: "a < h" "k < length xs" "h < vr_end (xs ! k)" using hk by blast
    have "vr_end (xs ! k) \<le> vr_end (xs ! ?m)"
    proof (cases "k = ?m")
      case False
      then have "k < ?m" using h(2) by simp
      then show ?thesis using ord [OF _ m(1)] le [of "xs ! ?m"] by (meson order_trans)
    qed simp
    then show "a div 4096 < vr_lo (xs ! ?m)" using pos [OF m(1)] pg [OF m(1)] h by simp
  qed (use st [OF m(1)] pg [OF m(1)] in blast)
  show "a div 4096 < vr_lo (xs ! 0) \<longleftrightarrow> \<not> (\<exists>h\<in>holes mp. h < a)"
  proof
    assume l: "a div 4096 < vr_lo (xs ! 0)"
    show "\<not> (\<exists>h\<in>holes mp. h < a)"
    proof
      assume "\<exists>h\<in>holes mp. h < a"
      then obtain h k where h: "h < a" "k < length xs" "unat (vr_start (xs ! k)) \<le> h" using hk by blast
      have "unat (vr_start (xs ! 0)) \<le> unat (vr_start (xs ! k))"
        using ord [of 0 k] h(2) le [of "xs ! 0"] by (cases "k = 0") auto
      then show False using h l pg [OF m(2)] by simp
    qed
  next
    assume "\<not> (\<exists>h\<in>holes mp. h < a)"
    then have "a \<le> unat (vr_start (xs ! 0))" using st [OF m(2)] not_less by blast
    moreover have "a \<noteq> unat (vr_start (xs ! 0))" using st [OF m(2)] a by blast
    ultimately show "a div 4096 < vr_lo (xs ! 0)" using pg [OF m(2)] by simp
  qed
qed

subsection \<open>The whole function\<close>

text \<open>The computation ends; \<open>P\<close> holds of its result, and \<open>E\<close> of an error.\<close>

definition yields :: "(err \<Rightarrow> bool) \<Rightarrow> 'a res option \<Rightarrow> ('a \<Rightarrow> bool) \<Rightarrow> bool" where
  "yields E x P \<longleftrightarrow> (\<exists>r. x = Some r \<and> (\<forall>y. r = Inr y \<longrightarrow> P y) \<and> (\<forall>e. r = Inl e \<longrightarrow> E e))"

lemma yields_bind: "yields E x P \<Longrightarrow> (\<And>y. P y \<Longrightarrow> yields E (f y) Q) \<Longrightarrow> yields E (bindo x f) Q"
  unfolding yields_def by (elim exE conjE, case_tac r) (simp_all add: bindo_def)

lemma yields_pair:
  "yields E x (\<lambda>(a, b). P a b) \<Longrightarrow> (\<And>a b. P a b \<Longrightarrow> yields E (f a b) Q) \<Longrightarrow> yields E (bindo x (\<lambda>(a, b). f a b)) Q"
  by (erule yields_bind) auto

lemma yields_Inr [simp]: "yields E (Some (Inr y)) P \<longleftrightarrow> P y"
  by (simp add: yields_def)

lemma yields_mono: "yields E x P \<Longrightarrow> (\<And>e. E e \<Longrightarrow> E' e) \<Longrightarrow> (\<And>y. P y \<Longrightarrow> Q y) \<Longrightarrow> yields E' x Q"
  unfolding yields_def by blast

lemma alloc_yields:
  assumes wf: "map_ok mp" and sz: "0 < sz" and al: "unat align = 2 ^ k" "k < 32"
  defines "q \<equiv> \<lparr> rq_size = sz, rq_align = align, rq_max_addr = 0 \<rparr>"
  shows "yields (\<lambda>e. e = Hlt \<or> e = Out_of_bounds \<and> out_of_ram mp [q]) (mem_alloc mp sz align 0)
    (\<lambda>(a, mp'). grown mp mp' \<and> served_all mp [q] mp' \<and> {unat a..<unat a + unat sz} \<inter> mm_free mp' = {})"
proof -
  obtain r where r: "mem_alloc mp sz align 0 = Some r" using mem_alloc_returns [OF wf low_top_limit sz al] by blast
  show ?thesis
  proof (cases r)
    case (Inr x)
    obtain a mp' where x: "x = (a, mp')" by (cases x)
    note eq = r [unfolded Inr x]
    have "mm_free mp' \<subseteq> mm_free mp - {unat a..<unat a + unat sz}" by (rule mem_alloc_spec(3) [OF wf low_top_limit sz al eq])
    then have "{unat a..<unat a + unat sz} \<inter> mm_free mp' = {}" by blast
    moreover have "served_all mp [q] mp'" using eq by (intro mem_alloc_served(1)) (simp add: q_def)
    ultimately show ?thesis
      using mem_alloc_grown [OF wf order_refl sz al eq] unfolding eq by simp
  next
    case (Inl e)
    have "e = Out_of_bounds \<Longrightarrow> out_of_ram mp [q]"
      using r Inl by (intro mem_alloc_served(2)) (simp add: q_def)
    then show ?thesis
      using mem_alloc_errors [OF wf low_top_limit sz al r [unfolded Inl]] Inl r unfolding yields_def by auto
  qed
qed

text \<open>Only the control registers change when paging is turned on.\<close>

lemma regs_same:
  assumes "vm_map s' = vm_map s" "vm_mem s' = vm_mem s" "pdpt s' = pdpt s"
  shows "vm_wf s' = vm_wf s" and "page_entry s' = page_entry s" and "translate s' = translate s"
proof -
  have b: "pd_base s' = pd_base s" by (rule ext) (simp add: pd_base_def pdpte_def assms)
  have p: "pde s' = pde s" by (rule ext) (simp add: pde_def pde_addr_def assms b)
  have t: "tbl_in s' = tbl_in s"
  proof
    show "tbl_in s' t = tbl_in s t" for t by (cases t) (simp_all add: p)
  qed
  have y: "tbl_bytes s' = tbl_bytes s"
  proof
    show "tbl_bytes s' t = tbl_bytes s t" for t by (cases t) (simp_all add: p b assms)
  qed
  have "pdpte s' = pdpte s" by (rule ext) (simp add: pdpte_def assms)
  then show "vm_wf s' = vm_wf s" by (simp add: vm_wf_def p t y assms)
  show "page_entry s' = page_entry s" by (rule ext) (simp add: page_entry_def p assms Let_def)
  show "translate s' = translate s" by (rule ext) (simp add: translate_def assms)
qed

text \<open>
  What virtual memory looks like at the end, from the physical memory map at the beginning. A page
  where a byte at or above \<open>B\<close> is not write-back cacheable has the attributes of such a byte; where
  there are such bytes below \<open>B\<close> only, which may lie in several ranges, it may have them.
\<close>

definition own_attr :: "mem_map \<Rightarrow> vm \<Rightarrow> u32 \<Rightarrow> bool" where
  "own_attr mp s a \<longleftrightarrow> (\<exists>b x. (b, x) \<in> nonwb mp \<and> b div 4096 = unat a div 4096 \<and>
     translate s a = Some (ucast a, flag_bits (uefi_attr_to_pte_flags x)))"

definition plain_attr :: "mem_map \<Rightarrow> vm \<Rightarrow> u32 \<Rightarrow> bool" where
  "plain_attr mp s a \<longleftrightarrow>
     (if \<exists>h\<in>holes mp. unat a < h
      then translate s a = Some (ucast a, flag_bits
        (if \<exists>h\<in>holes mp. h < unat a then 0 else uefi_attr_to_pte_flags (rg_uefi_attr (ranges mp ! 0))))
      else translate s a = None)"

definition va_started :: "nat \<Rightarrow> mem_map \<Rightarrow> vm \<Rightarrow> bool" where
  "va_started B mp s \<longleftrightarrow> va_wf s \<and> va_unused s = holes mp \<and> cr3 s = pdpt s \<and> bit (cr0 s) 31 \<and> bit (cr4 s) 5 \<and>
     (\<forall>a. unat a \<notin> holes mp \<longrightarrow>
       (if \<exists>b x. (b, x) \<in> nonwb mp \<and> B \<le> b \<and> b div 4096 = unat a div 4096 then own_attr mp s a
        else own_attr mp s a \<or> plain_attr mp s a))"

text \<open>What is allocated on the way: the array, the table of directories, and pages for tables.\<close>

definition array_req :: "mem_map \<Rightarrow> mem_req" where
  "array_req mp = \<lparr> rq_size = max_mem_ranges mp * 8, rq_align = 4, rq_max_addr = 0 \<rparr>"

definition pdpt_req :: mem_req where
  "pdpt_req = \<lparr> rq_size = 4 * 8, rq_align = PDPT_ALIGN, rq_max_addr = 0 \<rparr>"

definition va_reqs :: "mem_map \<Rightarrow> nat \<Rightarrow> mem_req list" where
  "va_reqs mp n = [array_req mp, pdpt_req] @ replicate n page_req"

definition va_error :: "mem_map \<Rightarrow> err \<Rightarrow> bool" where
  "va_error mp e \<longleftrightarrow> e = Hlt \<or> e = Out_of_bounds \<and> out_of_ram mp (va_reqs mp (4 + 2048))"

lemma va_errorI:
  assumes "served_all mp (va_reqs mp n) mp'" and "n + m \<le> 4 + 2048"
    and "e = Hlt \<or> e = Out_of_bounds \<and> out_of_ram mp' (replicate m page_req)"
  shows "va_error mp e"
proof -
  have "out_of_ram mp (va_reqs mp (4 + 2048))" if "out_of_ram mp' (replicate m page_req)"
  proof -
    have "out_of_ram mp ([array_req mp, pdpt_req] @ replicate (n + m) page_req)"
      using out_of_ram_later [OF assms(1) that] by (simp add: va_reqs_def replicate_add)
    then show ?thesis unfolding va_reqs_def by (rule out_of_ram_pages [OF _ assms(2)])
  qed
  then show ?thesis using assms(3) by (auto simp: va_error_def)
qed

text \<open>The state before the identity mapping is made.\<close>

definition va_blank :: "mem_map \<Rightarrow> va_range list \<Rightarrow> vm \<Rightarrow> bool" where
  "va_blank mp xs s \<longleftrightarrow> vm_wf s \<and> (\<forall>k<2048. pde s k = 0) \<and> tables s = 0 \<and> grown mp (vm_map s) \<and>
     served_all mp (va_reqs mp 4) (vm_map s) \<and> live_ranges s = xs \<and> length xs = unat (num_unused_va_ranges s) \<and>
     num_unused_va_ranges s \<le> max_unused_va_ranges s \<and>
     length (unused_va_ranges s) = unat (max_unused_va_ranges s)"

lemma blank_error: "va_blank mp xs s \<Longrightarrow> vm_error s e \<Longrightarrow> va_error mp e"
  by (rule va_errorI [of mp 4 "vm_map s" 2048]) (auto simp: va_blank_def vm_error_def)

lemma identity_entry:
  assumes "page_entry s (unat a div 4096) = map_entry (unat a div 4096) fl" and "flags_ok fl" and "vm_wf s"
  shows "translate s a = Some (ucast a, flag_bits fl)"
proof -
  have q: "unat a div 4096 < 2 ^ 40" using unat_lt [of a] by (simp add: less_mult_imp_div_less)
  have "4096 * (unat a div 4096) + unat a mod 4096 = unat a" by simp
  then have "translate s a = Some (word_of_nat (unat a), flag_bits fl)"
    using translate_entry [OF assms(3)] assms(1) translation_map_entry [OF assms(2) q] by (simp only:)
  moreover have "(word_of_nat (unat a) :: u64) = ucast a" by simp
  ultimately show ?thesis by (simp only:)
qed

lemma blank_entry: "va_blank mp xs s \<Longrightarrow> n < 2 ^ 20 \<Longrightarrow> page_entry s n = 0"
  by (simp add: va_blank_def page_entry_def less_mult_imp_div_less)

lemma started:
  assumes mw: "mm_wf_at B mp" "B \<le> low_top" and f: "holes_found mp xs (2 ^ 32)" and ne: "xs \<noteq> []" and b: "va_blank mp xs s"
    and id: "id_mapped s {k. k < vr_lo (xs ! (length xs - 1)) \<and> k \<notin> vr_pages xs}
      (\<lambda>k. if k < vr_lo (xs ! 0) then uefi_attr_to_pte_flags (rg_uefi_attr (ranges mp ! 0)) else 0) s2"
    and fx: "fixed B s2 (start_at (vm_map s2) 0) s3"
  shows "va_started B mp (paging_on s3)"
proof -
  let ?I = "{k. k < vr_lo (xs ! (length xs - 1)) \<and> k \<notin> vr_pages xs}"
  let ?f = "\<lambda>k. if k < vr_lo (xs ! 0) then uefi_attr_to_pte_flags (rg_uefi_attr (ranges mp ! 0)) else 0"
  have g: "grown mp (vm_map s2)"
    using id b grown_trans by (auto simp: id_mapped_def same_rest_def va_blank_def)
  note sh = grownD(1) [OF g] and wf2 = grownD(7) [OF g mw(2,1)]
  obtain T g where T: "id_mapped s2 T g s3"
    "\<And>b x. (b, x) \<in> nonwb mp \<Longrightarrow> B \<le> b \<Longrightarrow> start_at (vm_map s2) 0 \<le> b \<Longrightarrow> b div 4096 \<in> T"
    "\<And>n. n \<in> T \<Longrightarrow> \<exists>b x. (b, x) \<in> nonwb mp \<and> b div 4096 = n \<and> g n = uefi_attr_to_pte_flags x"
    using fx unfolding fixed_def nonwb_shape [OF sh] by blast
  have inT: "b div 4096 \<in> T" if bx: "(b, x) \<in> nonwb mp" "B \<le> b" for b x
  proof -
    have "(b, x) \<in> shape (vm_map s2)" using bx(1) sh by (simp add: nonwb_def)
    then obtain j where "\<And>i. start_at (vm_map s2) i \<le> b \<longleftrightarrow> i \<le> j"
      using shape_in_range [OF wf2 _ bx(2)] by metis
    then show ?thesis using T(2) [OF bx] by simp
  qed
  have wf3: "vm_wf s3" using T(1) by (simp add: id_mapped_def)
  let ?s = "paging_on s3"
  have regs: "vm_map ?s = vm_map s3" "vm_mem ?s = vm_mem s3" "pdpt ?s = pdpt s3" by (simp_all add: paging_on_def)
  note same = regs_same [OF regs]
  have entry: "page_entry ?s n = (if n \<in> T then map_entry n (g n) else if n \<in> ?I then map_entry n (?f n) else 0)"
    if "n < 2 ^ 20" for n
    using that id T(1) blank_entry [OF b that] unfolding same(2) id_mapped_def by simp
  have wf: "vm_wf ?s" using wf3 same(1) by simp
  note pages = found_pages [OF f] and out = found_outside [OF f ne]
  have n20: "unat (a :: u32) div 4096 < 2 ^ 20" for a using unat_lt [of a] by (simp add: less_mult_imp_div_less)
  have ranges: "live_ranges ?s = xs" "length xs = unat (num_unused_va_ranges ?s)"
    "num_unused_va_ranges ?s \<le> max_unused_va_ranges ?s"
    "length (unused_va_ranges ?s) = unat (max_unused_va_ranges ?s)"
    using id T(1) b by (auto simp: id_mapped_def same_rest_def va_blank_def paging_on_def live_ranges_def)
  note vrs = found_vrs [OF f ranges]
  have hole_T: "unat a div 4096 \<notin> T" if "unat a \<in> holes mp" for a :: u32
    using T(3) that by (force simp: holes_def covered_shape nonwb_def)
  have none: "translate ?s a = None" if "page_entry ?s (unat a div 4096) = 0" for a
    unfolding translate_entry [OF wf] that by (simp add: translation_def)
  have "translate ?s a = None" if "unat a \<in> holes mp" for a
    using entry [OF n20] hole_T [OF that] pages(2) [of "unat a"] that by (intro none) simp
  then have "va_wf ?s" using wf vrs by (simp add: va_wf_def)
  moreover have "bit (cr0 ?s) 31" "bit (cr4 ?s) 5" "cr3 ?s = pdpt ?s"
  proof -
    have "bit CR0_PG 31" "bit CR4_PAE 5" by (code_simp)+
    moreover have "cr0 ?s = cr0 s3 OR CR0_PG" "cr4 ?s = cr4 s3 OR CR4_PAE" by (simp_all add: paging_on_def)
    ultimately show "bit (cr0 ?s) 31" "bit (cr4 ?s) 5" by (metis bit_or_iff)+
    show "cr3 ?s = pdpt ?s" by (simp add: paging_on_def)
  qed
  moreover have "if \<exists>b x. (b, x) \<in> nonwb mp \<and> B \<le> b \<and> b div 4096 = unat a div 4096 then own_attr mp ?s a
      else own_attr mp ?s a \<or> plain_attr mp ?s a" if a: "unat a \<notin> holes mp" for a
  proof (cases "unat a div 4096 \<in> T")
    case True
    from T(3) [OF True] obtain b x where bx: "(b, x) \<in> nonwb mp" "b div 4096 = unat a div 4096"
      "g (unat a div 4096) = uefi_attr_to_pte_flags x" by blast
    have "translate ?s a = Some (ucast a, flag_bits (uefi_attr_to_pte_flags x))"
      using entry [OF n20] True bx(3) by (intro identity_entry [OF _ pte_flags_ok(1) wf]) simp
    then show ?thesis using bx unfolding own_attr_def by auto
  next
    case nT: False
    then have no: "\<not> (\<exists>b x. (b, x) \<in> nonwb mp \<and> B \<le> b \<and> b div 4096 = unat a div 4096)" using inT by metis
    have nP: "unat a div 4096 \<notin> vr_pages xs" using pages(2) a by blast
    have "plain_attr mp ?s a"
    proof (cases "\<exists>h\<in>holes mp. unat a < h")
      case True
      then have "unat a div 4096 \<in> ?I" using out(1) [OF a] nP by simp
      then have "page_entry ?s (unat a div 4096) = map_entry (unat a div 4096) (?f (unat a div 4096))"
        using entry [OF n20] nT by simp
      from identity_entry [OF this _ wf] have "translate ?s a = Some (ucast a, flag_bits (?f (unat a div 4096)))"
        using pte_flags_ok by simp
      then show ?thesis using True out(2) [OF a] by (auto simp: plain_attr_def)
    next
      case False
      then have nI: "unat a div 4096 \<notin> ?I" using out(1) [OF a] by simp
      have "page_entry ?s (unat a div 4096) = 0" unfolding entry [OF n20] if_not_P [OF nT] if_not_P [OF nI] ..
      then have "translate ?s a = None" by (rule none)
      then show ?thesis using False by (auto simp: plain_attr_def)
    qed
    then show ?thesis unfolding if_not_P [OF no] ..
  qed
  ultimately show ?thesis using vrs(2) unfolding va_started_def by blast
qed

lemma identity_yields:
  assumes f: "holes_found mp xs (2 ^ 32)" and ne: "xs \<noteq> []" and b: "va_blank mp xs s"
  shows "yields (va_error mp) (map_identity s)
    (\<lambda>s2. id_mapped s {k. k < vr_lo (xs ! (length xs - 1)) \<and> k \<notin> vr_pages xs}
      (\<lambda>k. if k < vr_lo (xs ! 0) then uefi_attr_to_pte_flags (rg_uefi_attr (ranges mp ! 0)) else 0) s2)"
proof -
  note b' = b [unfolded va_blank_def]
  have wf: "vm_wf s" using b' by blast
  have g: "grown mp (vm_map s)" using b' by blast
  have xs: "take (length xs) (unused_va_ranges s) = xs" using b' by (simp add: live_ranges_def)
  have m: "length xs = unat (num_unused_va_ranges s)" "0 < length xs"
  proof -
    show "length xs = unat (num_unused_va_ranges s)" using b' by blast
    show "0 < length xs" using ne by simp
  qed
  have ok: "list_all vr_ok xs" "sorted_wrt vr_before xs" using f by (simp_all add: holes_found_def)
  show ?thesis
    using map_identity_spec [OF wf xs refl m ok] blank_error [OF b]
    unfolding yields_def grownD(6) [OF g] by blast
qed

lemma dirs_start:
  assumes wf: "map_ok (vm_map s)" and "{unat (pdpt s)..<unat (pdpt s) + 32} \<inter> mm_free (vm_map s) = {}"
    and g: "grown mp (vm_map s)" and sv: "served_all mp [array_req mp, pdpt_req] (vm_map s)"
    and xs: "take (unat (num_unused_va_ranges s)) (unused_va_ranges s) = xs"
      "num_unused_va_ranges s \<le> max_unused_va_ranges s" "length (unused_va_ranges s) = unat (max_unused_va_ranges s)"
  shows "yields (va_error mp) (make_pds 0 4 s) (va_blank mp xs)"
proof -
  have "dirs_made s []" using assms by (simp add: dirs_made_def)
  from make_pds_spec [OF this, of 4] obtain r where r: "make_pds 0 4 s = Some r"
    "\<And>s'. r = Inr s' \<Longrightarrow> \<exists>ds'. length ds' = 4 \<and> dirs_made s' ds'"
    "\<And>s'. r = Inr s' \<Longrightarrow> grown (vm_map s) (vm_map s') \<and> served_all (vm_map s) (replicate 4 page_req) (vm_map s')"
    "\<And>s'. r = Inr s' \<Longrightarrow> \<exists>mp m. s' = s\<lparr> vm_map := mp, vm_mem := m \<rparr>"
    "\<And>e. r = Inl e \<Longrightarrow> e = Hlt \<or> e = Out_of_bounds \<and> out_of_ram (vm_map s) (replicate 4 page_req)"
    by auto
  have sv0: "served_all mp (va_reqs mp 0) (vm_map s)" using sv by (simp add: va_reqs_def)
  have "va_blank mp xs s'" if s': "r = Inr s'" for s'
  proof -
    obtain ds where ds: "dirs_made s' ds" "length ds = 4" using r(2) [OF s'] by blast
    have "grown mp (vm_map s')" using r(3) [OF s'] grown_trans [OF g] by blast
    moreover have "served_all mp (va_reqs mp 4) (vm_map s')"
      using r(3) [OF s'] served_all_append [OF sv, of "replicate 4 page_req"] by (simp add: va_reqs_def)
    moreover have "live_ranges s' = xs \<and> length xs = unat (num_unused_va_ranges s') \<and>
        num_unused_va_ranges s' \<le> max_unused_va_ranges s' \<and> length (unused_va_ranges s') = unat (max_unused_va_ranges s')"
      using r(4) [OF s'] xs by (auto simp: live_ranges_def word_le_nat_alt)
    ultimately show ?thesis using dirs_made_wf [OF ds] by (simp add: va_blank_def)
  qed
  moreover have "va_error mp e" if "r = Inl e" for e
    by (rule va_errorI [OF sv0 _ r(5) [OF that]]) simp
  ultimately show ?thesis unfolding yields_def using r(1) by blast
qed

lemma va_init_yields:
  assumes mw: "mm_wf_at B (vm_map s)" "B \<le> low_top" and mx: "max_mem_ranges (vm_map s) < 2 ^ 29"
    and h: "holes (vm_map s) \<noteq> {}"
  shows "yields (va_error (vm_map s)) (va_init raw s) (va_started B (vm_map s))"
proof -
  let ?mp = "vm_map s" and ?mvr = "max_mem_ranges (vm_map s)"
  have mok: "map_ok ?mp" by (rule mm_wf_at_mono [OF mw])
  have "0 < ?mvr" using mok by (simp add: mm_wf_at_def) (use word_gt_0 order_less_le_trans in blast)
  then have pos: "0 < unat ?mvr" by (simp add: word_less_nat_alt)
  have "unat ?mvr < 2 ^ 29" using mx by (simp add: word_less_nat_alt)
  then have "unat (?mvr * 8) = unat ?mvr * 8" by (subst unat_mult_lem [THEN iffD1]) simp_all
  then have sz: "0 < ?mvr * 8" using pos by (simp add: word_less_nat_alt)
  have al: "unat (4 :: u32) = 2 ^ 2" "unat PDPT_ALIGN = 2 ^ 5" "(0 :: u32) < 4 * 8" "unat (4 * 8 :: u32) = 32"
    by (simp_all add: PDPT_ALIGN_def)
  have more: "va_error ?mp e" if "e = Hlt \<or> e = Out_of_bounds \<and> out_of_ram ?mp [array_req ?mp]" for e
    using that out_of_ram_more [of ?mp "[array_req ?mp]" "pdpt_req # replicate (4 + 2048) page_req"]
    by (auto simp: va_error_def va_reqs_def)
  have first: "yields (va_error ?mp) (mem_alloc ?mp (?mvr * 8) 4 0) (\<lambda>(a, mp'). grown ?mp mp' \<and>
      served_all ?mp [array_req ?mp] mp' \<and> {unat a..<unat a + unat (?mvr * 8)} \<inter> mm_free mp' = {})"
    using alloc_yields [OF mok sz al(1)] by (rule yields_mono) (simp_all add: more flip: array_req_def)
  show ?thesis
    unfolding va_init_def Let_def
  proof (rule yields_pair [OF first])
    fix arr :: u32 and mp1
    assume "grown ?mp mp1 \<and> served_all ?mp [array_req ?mp] mp1 \<and>
      {unat arr..<unat arr + unat (?mvr * 8)} \<inter> mm_free mp1 = {}"
    then have g1: "grown ?mp mp1" and sv1: "served_all ?mp [array_req ?mp] mp1" by simp_all
    have mp1: "map_ok mp1" "shape mp1 = shape ?mp" "max_mem_ranges mp1 = ?mvr"
      using grownD(7) [OF g1 order_refl mok] grownD(1,2) [OF g1] by simp_all
    have len: "1 + unat (num_mem_ranges mp1) = length (ranges mp1) + 1" using length_ranges [OF mp1(1)] by simp
    let ?raw = "map raw [0..<unat ?mvr]"
    obtain vrs nvr where fu: "find_unused mp1 1 (unat (num_mem_ranges mp1)) ?raw 0 = Inr (vrs, nvr)"
      "unat nvr \<le> length (ranges mp1)" "length vrs = unat ?mvr" "holes_found mp1 (take (unat nvr) vrs) (2 ^ 32)"
      using find_unused_spec [OF mp1(1) _ len, of 0 ?raw] holes_found_start [OF mp1(1)] mp1(3) by auto
    have f: "holes_found ?mp (take (unat nvr) vrs) (2 ^ 32)"
      using fu(4) holes_shape [OF mp1(2)] by (simp add: holes_found_def)
    have ne: "take (unat nvr) vrs \<noteq> []" by (rule found_pages(3) [OF f h])
    have "length (ranges mp1) \<le> unat ?mvr" using mp1 length_ranges [OF mp1(1)] num_le_max [OF mp1(1)] by simp
    then have nv: "nvr \<le> ?mvr" using fu(2) by (simp add: word_le_nat_alt)
    have later: "va_error ?mp e" if "e = Hlt \<or> e = Out_of_bounds \<and> out_of_ram mp1 [pdpt_req]" for e
      using that out_of_ram_more [OF out_of_ram_later [OF sv1], of "[pdpt_req]" "replicate (4 + 2048) page_req"]
      by (auto simp: va_error_def va_reqs_def)
    have second: "yields (va_error ?mp) (mem_alloc mp1 (4 * 8) PDPT_ALIGN 0) (\<lambda>(a, mp'). grown mp1 mp' \<and>
        served_all mp1 [pdpt_req] mp' \<and> {unat a..<unat a + unat (4 * 8 :: u32)} \<inter> mm_free mp' = {})"
      using alloc_yields [OF mp1(1) al(3,2)] by (rule yields_mono) (use later in \<open>auto simp: pdpt_req_def\<close>)
    show "yields (va_error ?mp) (bindo (Some (find_unused mp1 1 (unat (num_mem_ranges mp1)) ?raw 0)) (\<lambda>(vrs, nvr).
      bindo (mem_alloc mp1 (4 * 8) PDPT_ALIGN 0) (\<lambda>(table, mp').
      bindo (make_pds 0 4 (s\<lparr> vm_map := mp', pdpt := table, unused_va_ranges := vrs,
               num_unused_va_ranges := nvr, max_unused_va_ranges := ?mvr \<rparr>)) (\<lambda>s1.
      bindo (map_identity s1) (\<lambda>s2.
      bindo (fix_attrs 0 s2) (\<lambda>s3.
        Some (Inr (paging_on s3)))))))) (va_started B ?mp)"
      unfolding fu(1) bindo_simps prod.case
    proof (rule yields_pair [OF second])
      fix table :: u32 and mp2
      assume "grown mp1 mp2 \<and> served_all mp1 [pdpt_req] mp2 \<and>
        {unat table..<unat table + unat (4 * 8 :: u32)} \<inter> mm_free mp2 = {}"
      then have mp2: "grown mp1 mp2" "served_all mp1 [pdpt_req] mp2" "{unat table..<unat table + 32} \<inter> mm_free mp2 = {}"
        unfolding al(4) by simp_all
      have g2: "grown ?mp mp2" by (rule grown_trans [OF g1 mp2(1)])
      have sv2: "served_all ?mp [array_req ?mp, pdpt_req] mp2" using served_all_append [OF sv1 mp2(2)] by simp
      let ?s1 = "s\<lparr> vm_map := mp2, pdpt := table, unused_va_ranges := vrs,
               num_unused_va_ranges := nvr, max_unused_va_ranges := ?mvr \<rparr>"
      have d: "yields (va_error ?mp) (make_pds 0 4 ?s1) (va_blank ?mp (take (unat nvr) vrs))"
        using mp2(3) g2 sv2 nv fu(3) grownD(7) [OF g2 order_refl mok] by (intro dirs_start) simp_all
      show "yields (va_error ?mp) (bindo (make_pds 0 4 ?s1) (\<lambda>s1. bindo (map_identity s1) (\<lambda>s2.
          bindo (fix_attrs 0 s2) (\<lambda>s3. Some (Inr (paging_on s3)))))) (va_started B ?mp)"
      proof (rule yields_bind [OF d])
        fix s1
        assume b: "va_blank ?mp (take (unat nvr) vrs) s1"
        show "yields (va_error ?mp) (bindo (map_identity s1) (\<lambda>s2.
          bindo (fix_attrs 0 s2) (\<lambda>s3. Some (Inr (paging_on s3))))) (va_started B ?mp)"
        proof (rule yields_bind [OF identity_yields [OF f ne b]])
          fix s2
          assume id: "id_mapped s1 {k. k < vr_lo (take (unat nvr) vrs ! (length (take (unat nvr) vrs) - 1)) \<and>
              k \<notin> vr_pages (take (unat nvr) vrs)}
            (\<lambda>k. if k < vr_lo (take (unat nvr) vrs ! 0)
              then uefi_attr_to_pte_flags (rg_uefi_attr (ranges ?mp ! 0)) else 0) s2"
          then have s2: "vm_wf s2" "grown ?mp (vm_map s2)"
            using b grown_trans by (auto simp: id_mapped_def same_rest_def va_blank_def)
          have "holes (vm_map s2) \<noteq> {}" using h holes_shape [OF grownD(1) [OF s2(2)]] by simp
          from fix_attrs_spec [OF s2(1) grownD(7) [OF s2(2) mw(2,1)] this _ mw(2), of 0]
          have "yields (va_error ?mp) (fix_attrs 0 s2) (fixed B s2 (start_at (vm_map s2) 0))"
            unfolding yields_def using blank_error [OF b id_mapped_error [OF id]] by auto
          then show "yields (va_error ?mp) (bindo (fix_attrs 0 s2) (\<lambda>s3. Some (Inr (paging_on s3)))) (va_started B ?mp)"
            by (rule yields_bind) (use started [OF mw f ne b id] in simp)
        qed
      qed
    qed
  qed
qed

end
