(* ===== verification/Va_Example.thy ===== *)
theory Va_Example
  imports Va_Start
begin

text \<open>
  A machine on which \<^verbatim>\<open>va_init\<close> of \<^verbatim>\<open>stage2/mem.c\<close> succeeds: 4 MiB of memory at address 0 and
  a 2 MiB device at 2 GiB. The allocations are evaluated one by one; the mappings only need
  large pages.
\<close>

unbundle bit_operations_syntax

subsection \<open>Mapping large pages takes no memory\<close>

lemma large_pages_run:
  assumes "vm_wf s" and fl: "flags_ok fl" and "unat vstart = 2 ^ 21 * k" and "pstart = word_of_nat (2 ^ 21 * k)"
    and "unat len = 2 ^ 21 * c" and "k + c \<le> 2048" and "\<forall>j<2048. \<not> is_table (pde s j)"
  shows "\<exists>m. do_va_map s vstart pstart len fl = Some (Inr (s\<lparr> vm_mem := m \<rparr>)) \<and> vm_wf (s\<lparr> vm_mem := m \<rparr>) \<and>
    (\<forall>j<2048. \<not> is_table (pde (s\<lparr> vm_mem := m \<rparr>) j))"
  using assms(1,3-)
proof (induction c arbitrary: s vstart pstart len k)
  case 0
  have "s\<lparr> vm_mem := vm_mem s \<rparr> = s" by simp
  moreover have "len = 0" using 0 by (simp add: unat_eq_0)
  then have "do_va_map s vstart pstart len fl = Some (Inr s)" by (subst do_va_map.simps) simp
  ultimately show ?case using 0 by metis
next
  case (Suc c)
  have k: "k < 2048" using Suc.prems(5) by simp
  let ?e = "large_entry pstart fl"
  have p: "pstart = word_of_nat (4096 * (512 * k))" "512 dvd 512 * k" using Suc.prems(3) by simp_all
  note e = large_entry_spec [OF fl p(2) refl, folded p(1)]
  have t: "\<not> is_table (pde s k)" using Suc.prems(6) k by blast
  note w = pde_write_spec [OF Suc.prems(1) k t e(3,1)]
  let ?s1 = "pde_write s k ?e"
  have vm: "unat (vstart mod LARGE_PAGE_SIZE) = 0"
    unfolding unat_mod_distrib Suc.prems(2) by (simp add: LARGE_PAGE_SIZE_def)
  have "unat pstart = 2 ^ 21 * k" using Suc.prems(3) k by (simp add: unat_of_nat del: of_nat_mult)
  then have pm: "unat (pstart mod ucast LARGE_PAGE_SIZE) = 0"
    unfolding unat_mod_distrib by (simp add: LARGE_PAGE_SIZE_def)
  have l: "LARGE_PAGE_SIZE \<le> len" "len \<noteq> 0"
    using Suc.prems(4) by (auto simp: word_le_nat_alt LARGE_PAGE_SIZE_def)
  have p_pde: "p_pde_of s vstart = pde_addr s k" unfolding p_pde_of_eq Suc.prems(2) by simp
  have cond: "vstart mod LARGE_PAGE_SIZE = 0" "pstart mod ucast LARGE_PAGE_SIZE = 0"
    "pde s k = 0 \<or> pde s k AND ucast PDE_PS \<noteq> 0" "\<not> len = 0"
  proof -
    show "vstart mod LARGE_PAGE_SIZE = 0" "pstart mod ucast LARGE_PAGE_SIZE = 0" using vm pm by (simp_all only: unat_eq_0)
    show "pde s k = 0 \<or> pde s k AND ucast PDE_PS \<noteq> 0" using t by (auto simp: is_table_def)
    show "\<not> len = 0" using l(2) by simp
  qed
  then have C: "vstart mod LARGE_PAGE_SIZE = 0 \<and> pstart mod ucast LARGE_PAGE_SIZE = 0 \<and>
      LARGE_PAGE_SIZE \<le> len \<and> (pde s k = 0 \<or> pde s k AND ucast PDE_PS \<noteq> 0)" using l(1) by blast
  have run: "do_va_map s vstart pstart len fl =
      do_va_map ?s1 (vstart + LARGE_PAGE_SIZE) (pstart + ucast LARGE_PAGE_SIZE) (len - LARGE_PAGE_SIZE) fl"
    unfolding do_va_map.simps [of s vstart pstart len fl] Let_def p_pde pde_def [symmetric] if_not_P [OF cond(4)]
      if_P [OF C] pde_write_def large_entry_def ..
  have len: "unat (len - LARGE_PAGE_SIZE) = 2 ^ 21 * c"
    unfolding unat_sub [OF l(1)] Suc.prems(4) by (simp add: LARGE_PAGE_SIZE_def)
  have ps: "pstart + ucast LARGE_PAGE_SIZE = word_of_nat (2 ^ 21 * (k + 1))"
    unfolding Suc.prems(3) by (simp add: LARGE_PAGE_SIZE_def distrib_left)
  have tabs: "\<forall>j<2048. \<not> is_table (pde ?s1 j)" using w(4) Suc.prems(6) e(1) by simp
  have "\<exists>m. do_va_map ?s1 (vstart + LARGE_PAGE_SIZE) (pstart + ucast LARGE_PAGE_SIZE) (len - LARGE_PAGE_SIZE) fl =
      Some (Inr (?s1\<lparr> vm_mem := m \<rparr>)) \<and> vm_wf (?s1\<lparr> vm_mem := m \<rparr>) \<and>
      (\<forall>j<2048. \<not> is_table (pde (?s1\<lparr> vm_mem := m \<rparr>) j))"
  proof (cases "c = 0")
    case True
    then have "len - LARGE_PAGE_SIZE = 0" using len by (simp add: unat_eq_0 [symmetric])
    then have "do_va_map ?s1 (vstart + LARGE_PAGE_SIZE) (pstart + ucast LARGE_PAGE_SIZE) (len - LARGE_PAGE_SIZE) fl = Some (Inr ?s1)"
      by (subst do_va_map.simps) simp
    moreover have "?s1\<lparr> vm_mem := vm_mem ?s1 \<rparr> = ?s1" by simp
    ultimately show ?thesis using w(1) tabs by metis
  next
    case False
    then have "unat (vstart + LARGE_PAGE_SIZE) = 2 ^ 21 * (k + 1)"
      using Suc.prems(2,5) by (subst unat_add_nowrap) (simp_all add: LARGE_PAGE_SIZE_def)
    then show ?thesis using Suc.IH [OF w(1) _ ps len _ tabs] Suc.prems(5) by simp
  qed
  moreover have "?s1\<lparr> vm_mem := m \<rparr> = s\<lparr> vm_mem := m \<rparr>" for m by (simp add: pde_write_def)
  ultimately show ?case unfolding run by simp
qed

subsection \<open>The memory map, before and after each allocation\<close>

definition va_ex_map :: "mem_range list \<Rightarrow> mem_range list \<Rightarrow> mem_map" where
  "va_ex_map rs free = \<lparr> mem_ranges = rs @ free, num_mem_ranges = word_of_nat (length rs), max_mem_ranges = 10 \<rparr>"

definition va_ex_kept :: "u64 \<Rightarrow> u64 \<Rightarrow> mem_range" where
  "va_ex_kept a n = (ram_range a n)\<lparr> rg_e820_type := 2 \<rparr>"

definition va_ex_device :: mem_range where
  "va_ex_device = (ram_range 0x80000000 0x200000)\<lparr> rg_e820_type := 2, rg_uefi_attr := 1 \<rparr>"

abbreviation "va_ex_none \<equiv> ram_range 0 0"

definition va_ex0 where "va_ex0 = va_ex_map [ram_range 0 0x400000, va_ex_device]
  [va_ex_none, va_ex_none, va_ex_none, va_ex_none, va_ex_none, va_ex_none, va_ex_none, va_ex_none]"
definition va_ex1 where "va_ex1 = va_ex_map [ram_range 0 0x3fffb0, va_ex_kept 0x3fffb0 0x50, va_ex_device]
  [va_ex_none, va_ex_none, va_ex_none, va_ex_none, va_ex_none, va_ex_none, va_ex_none]"
definition va_ex2 where "va_ex2 = va_ex_map [ram_range 0 0x3fff80, va_ex_kept 0x3fff80 0x30, va_ex_kept 0x3fffb0 0x50, va_ex_device]
  [va_ex_none, va_ex_none, va_ex_none, va_ex_none, va_ex_none, va_ex_none]"
definition va_ex3 where "va_ex3 = va_ex_map [ram_range 0 0x3fe000, va_ex_kept 0x3fe000 0x1f80, va_ex_kept 0x3fff80 0x30,
    va_ex_kept 0x3fffb0 0x50, va_ex_device] [va_ex_none, va_ex_none, va_ex_none, va_ex_none, va_ex_none]"
definition va_ex4 where "va_ex4 = va_ex_map [ram_range 0 0x3fd000, va_ex_kept 0x3fd000 0x1000, va_ex_kept 0x3fe000 0x1f80,
    va_ex_kept 0x3fff80 0x30, va_ex_kept 0x3fffb0 0x50, va_ex_device] [va_ex_none, va_ex_none, va_ex_none, va_ex_none]"
definition va_ex5 where "va_ex5 = va_ex_map [ram_range 0 0x3fc000, va_ex_kept 0x3fc000 0x1000, va_ex_kept 0x3fd000 0x1000,
    va_ex_kept 0x3fe000 0x1f80, va_ex_kept 0x3fff80 0x30, va_ex_kept 0x3fffb0 0x50, va_ex_device] [va_ex_none, va_ex_none, va_ex_none]"
definition va_ex6 where "va_ex6 = va_ex_map [ram_range 0 0x3fb000, va_ex_kept 0x3fb000 0x1000, va_ex_kept 0x3fc000 0x1000,
    va_ex_kept 0x3fd000 0x1000, va_ex_kept 0x3fe000 0x1f80, va_ex_kept 0x3fff80 0x30, va_ex_kept 0x3fffb0 0x50, va_ex_device]
    [va_ex_none, va_ex_none]"

lemmas va_ex_maps = va_ex0_def va_ex1_def va_ex2_def va_ex3_def va_ex4_def va_ex5_def va_ex6_def
  va_ex_map_def va_ex_kept_def va_ex_device_def ram_range_def

lemmas alloc_eval = mem_alloc_def find_highest_range_below_def bisect.simps
  ends_above_def XM32_MAX_ADDR_def split_range_def E820_RAM_def E820_RESERVED_def Let_def eval_numerals

lemma va_ex_allocs:
  "mem_alloc va_ex0 80 4 0 = Some (Inr (0x3fffb0, va_ex1))"
  "mem_alloc va_ex1 32 32 0 = Some (Inr (0x3fff80, va_ex2))"
  by (simp_all add: va_ex_maps alloc_eval)

lemma va_ex_pages:
  "mem_alloc va_ex2 PAGE_SIZE PAGE_SIZE 0 = Some (Inr (0x3fe000, va_ex3))"
  "mem_alloc va_ex3 PAGE_SIZE PAGE_SIZE 0 = Some (Inr (0x3fd000, va_ex4))"
  "mem_alloc va_ex4 PAGE_SIZE PAGE_SIZE 0 = Some (Inr (0x3fc000, va_ex5))"
  "mem_alloc va_ex5 PAGE_SIZE PAGE_SIZE 0 = Some (Inr (0x3fb000, va_ex6))"
  by (simp_all add: va_ex_maps PAGE_SIZE_def alloc_eval)

subsection \<open>The run\<close>

lemma va_ex_unused:
  "find_unused va_ex1 1 (unat (num_mem_ranges va_ex1)) (map raw [0..<10]) 0 =
     Inr ((map raw [0..<10])[0 := \<lparr> vr_start = 0x400000, vr_len = 0x7fc00000 \<rparr>,
       1 := \<lparr> vr_start = 0x80200000, vr_len = 0x7fe00000 \<rparr>], 2)"
proof -
  have n: "num_mem_ranges va_ex1 = 3" by (simp add: va_ex1_def va_ex_map_def)
  have get: "arr_get (mem_ranges va_ex1) 0 = Inr (ram_range 0 0x3fffb0)"
    "arr_get (mem_ranges va_ex1) 1 = Inr (va_ex_kept 0x3fffb0 0x50)" "arr_get (mem_ranges va_ex1) 2 = Inr va_ex_device"
    by (simp_all add: va_ex1_def va_ex_map_def)
  have idx: "(1 :: nat) - 1 = 0" "(1 :: nat) + 1 = 2" "(2 :: nat) - 1 = 1" "(2 :: nat) + 1 = 3" "(3 :: nat) - 1 = 2"
    "unat (3 :: u32) = 3" by simp_all
  let ?vrs = "map raw [0..<10]" and ?v0 = "\<lparr> vr_start = 0x400000, vr_len = 0x7fc00000 \<rparr>"
    and ?v1 = "\<lparr> vr_start = 0x80200000, vr_len = 0x7fe00000 \<rparr>"
  note ev = Let_def XM32_MAX_ADDR_def BMEM_MAX_ADDR_def PAGE_SIZE_def va_ex_kept_def va_ex_device_def ram_range_def
  have 1: "find_unused va_ex1 1 (Suc k) ?vrs 0 = find_unused va_ex1 2 k ?vrs 0" for k
    unfolding find_unused.simps(2) n idx get by (simp add: ev)
  have 2: "find_unused va_ex1 2 (Suc k) ?vrs 0 = find_unused va_ex1 3 k (?vrs[0 := ?v0]) 1" for k
    unfolding find_unused.simps(2) n idx get by (simp add: ev)
  have 3: "find_unused va_ex1 3 (Suc 0) (?vrs[0 := ?v0]) 1 = Inr (?vrs[0 := ?v0, 1 := ?v1], 2)"
    unfolding find_unused.simps(2) n idx get by (simp add: ev)
  have three: "unat (3 :: u32) = Suc (Suc (Suc 0))" by simp
  show ?thesis unfolding n three 1 2 3 ..
qed

definition va_ex :: vm where
  "va_ex = \<lparr> vm_map = va_ex0, vm_mem = (\<lambda>_. 0), pdpt = 0, unused_va_ranges = [], num_unused_va_ranges = 0,
     max_unused_va_ranges = 0, cr0 = 1, cr3 = 0, cr4 = 0 \<rparr>"

lemma va_ex_ranges: "ranges va_ex0 = [ram_range 0 0x400000, va_ex_device]"
  by (simp add: ranges_def va_ex0_def va_ex_map_def)

lemma va_ex_wf: "mm_wf (vm_map va_ex)"
  unfolding mm_wf_def va_ex_def vm.select_convs va_ex_ranges
  by (simp add: va_ex_maps ranges_wf_def rg_ok_def rg_before_def rg_end_def)

lemma va_ex_hole: "0x400000 \<in> holes va_ex0"
proof -
  have "covered va_ex0 = {0..<0x400000} \<union> {0x80000000..<0x80200000}"
    by (simp add: covered_def va_ex_ranges rg_bytes_def rg_end_def va_ex_device_def ram_range_def)
  then show ?thesis by (auto simp: holes_def intro!: bexI [of _ 0])
qed

lemma large_id_run:
  assumes "vm_wf s" and "flags_ok fl" and "unat start = 2 ^ 21 * k" and "unat len = 2 ^ 21 * c" and "k + c \<le> 2048"
    and "\<forall>j<2048. \<not> is_table (pde s j)"
  shows "\<exists>m. do_va_id_map s start len fl = Some (Inr (s\<lparr> vm_mem := m \<rparr>)) \<and> vm_wf (s\<lparr> vm_mem := m \<rparr>) \<and>
    (\<forall>j<2048. \<not> is_table (pde (s\<lparr> vm_mem := m \<rparr>) j))"
proof -
  have "ucast start = (word_of_nat (2 ^ 21 * k) :: u64)" unfolding assms(3) [symmetric] by (simp add: of_nat_unat)
  from large_pages_run [OF assms(1-3) this assms(4-6)] show ?thesis unfolding do_va_id_map_def .
qed

lemma va_ex_identity:
  assumes "vm_wf s" and "\<forall>j<2048. \<not> is_table (pde s j)" and "vm_map s = va_ex6"
    and "unused_va_ranges s = (map raw [0..<10])[0 := \<lparr> vr_start = 0x400000, vr_len = 0x7fc00000 \<rparr>,
       1 := \<lparr> vr_start = 0x80200000, vr_len = 0x7fe00000 \<rparr>]" and "num_unused_va_ranges s = 2"
  shows "\<exists>m. map_identity s = Some (Inr (s\<lparr> vm_mem := m \<rparr>)) \<and> vm_wf (s\<lparr> vm_mem := m \<rparr>) \<and>
    (\<forall>j<2048. \<not> is_table (pde (s\<lparr> vm_mem := m \<rparr>) j))"
proof -
  have get: "unused_va_ranges s ! 0 = \<lparr> vr_start = 0x400000, vr_len = 0x7fc00000 \<rparr>"
    "unused_va_ranges s ! Suc 0 = \<lparr> vr_start = 0x80200000, vr_len = 0x7fe00000 \<rparr>" "length (unused_va_ranges s) = 10"
    unfolding assms(4) by simp_all
  have mr: "arr_get (mem_ranges va_ex6) 0 = Inr (ram_range 0 0x3fb000)" by (simp add: va_ex6_def va_ex_map_def)
  have fl: "uefi_attr_to_pte_flags (rg_uefi_attr (ram_range 0 0x3fb000)) = 0"
    by (simp add: uefi_attr_to_pte_flags_def ram_range_def EFI_MEMORY_WB_def)
  have n1: "unat (0 :: u32) = 2 ^ 21 * 0" "unat (0x400000 :: u32) = 2 ^ 21 * 2" "(0 :: nat) + 2 \<le> 2048"
    "unat (0x80000000 :: u32) = 2 ^ 21 * 1024" "unat (0x200000 :: u32) = 2 ^ 21 * 1" "(1024 :: nat) + 1 \<le> 2048" by simp_all
  obtain m where m: "do_va_id_map s 0 0x400000 0 = Some (Inr (s\<lparr> vm_mem := m \<rparr>))" "vm_wf (s\<lparr> vm_mem := m \<rparr>)"
    "\<forall>j<2048. \<not> is_table (pde (s\<lparr> vm_mem := m \<rparr>) j)"
    using large_id_run [OF assms(1) pte_flags_ok(2) n1(1-3) assms(2)] by blast
  obtain m' where m': "do_va_id_map (s\<lparr> vm_mem := m \<rparr>) 0x80000000 0x200000 0 = Some (Inr (s\<lparr> vm_mem := m' \<rparr>))"
    "vm_wf (s\<lparr> vm_mem := m' \<rparr>)" "\<forall>j<2048. \<not> is_table (pde (s\<lparr> vm_mem := m' \<rparr>) j)"
    using large_id_run [OF m(2) pte_flags_ok(2) n1(4-6) m(3)] by auto
  have "map_identity s = Some (Inr (s\<lparr> vm_mem := m' \<rparr>))"
    unfolding map_identity_def using get assms(3,5) m(1) m'(1) mr fl by (simp add: Let_def)
  then show ?thesis using m' by blast
qed

lemma va_ex_attrs:
  assumes "vm_wf s" and "\<forall>j<2048. \<not> is_table (pde s j)" and "vm_map s = va_ex6"
  shows "\<exists>m. fix_attrs 0 s = Some (Inr (s\<lparr> vm_mem := m \<rparr>))"
proof -
  have n: "unat (num_mem_ranges (vm_map s)) = 8" unfolding assms(3) by (simp add: va_ex6_def va_ex_map_def)
  have skip: "fix_attrs i s = fix_attrs (i + 1) s" if "i < 7" for i
  proof -
    have "i \<in> {0, 1, 2, 3, 4, 5, 6}" using that by auto
    then have "\<exists>r. arr_get (mem_ranges (vm_map s)) i = Inr r \<and> rg_uefi_attr r = 15"
      unfolding assms(3) by (auto simp: va_ex_maps numeral_eq_Suc)
    then show ?thesis using n that
      by (subst fix_attrs.simps) (auto simp: uefi_attr_to_pte_flags_def EFI_MEMORY_WB_def)
  qed
  have "j \<le> 7 \<Longrightarrow> fix_attrs 0 s = fix_attrs j s" for j
    using skip by (induction j) simp_all
  from this [of 7] have "fix_attrs 0 s = fix_attrs 7 s" by simp
  moreover have dev: "arr_get (mem_ranges (vm_map s)) 7 = Inr va_ex_device"
    unfolding assms(3) by (simp add: va_ex6_def va_ex_map_def)
  have fl: "uefi_attr_to_pte_flags (rg_uefi_attr va_ex_device) = PTE_CD" "PTE_CD \<noteq> 0" "rg_start va_ex_device = 0x80000000"
    by (simp_all add: uefi_attr_to_pte_flags_def va_ex_device_def ram_range_def EFI_MEMORY_WB_def EFI_MEMORY_WT_def PTE_CD_def)
  have ext: "attr_extent va_ex_device = (0x80000000, 0x200000)"
    by (simp add: attr_extent_def va_ex_device_def ram_range_def XM32_MAX_ADDR_def PAGE_SIZE_def Let_def)
  have n1: "unat (0x80000000 :: u32) = 2 ^ 21 * 1024" "unat (0x200000 :: u32) = 2 ^ 21 * 1" "(1024 :: nat) + 1 \<le> 2048" by simp_all
  have "flags_ok PTE_CD" using pte_flags_ok(1) [of "rg_uefi_attr va_ex_device"] fl(1) by simp
  from large_id_run [OF assms(1) this n1 assms(2)] obtain m where
    m: "do_va_id_map s 0x80000000 0x200000 PTE_CD = Some (Inr (s\<lparr> vm_mem := m \<rparr>))" by blast
  have sk: "skip_past (vm_map s) 0x80000000 7 = Inr 8"
    using n dev fl(3) by (subst skip_past.simps, simp, subst skip_past.simps) simp
  have "fix_attrs 7 s = fix_attrs 8 (s\<lparr> vm_mem := m \<rparr>)"
    using n dev fl m sk by (subst fix_attrs.simps) (simp add: ext Let_def XM32_MAX_ADDR_def)
  moreover have "fix_attrs 8 (s\<lparr> vm_mem := m \<rparr>) = Some (Inr (s\<lparr> vm_mem := m \<rparr>))"
    using n by (subst fix_attrs.simps) simp
  ultimately have "fix_attrs 0 s = Some (Inr (s\<lparr> vm_mem := m \<rparr>))" by simp
  then show ?thesis by (rule exI [of _ m])
qed

lemma make_pds_next:
  "mem_alloc mp PAGE_SIZE PAGE_SIZE 0 = Some (Inr (pd, mp')) \<Longrightarrow>
     \<exists>m'. make_pds i (Suc n) (s\<lparr> vm_map := mp, vm_mem := m \<rparr>) = make_pds (i + 1) n (s\<lparr> vm_map := mp', vm_mem := m' \<rparr>)"
  by (simp add: Let_def) blast

lemma va_ex_dirs:
  assumes "vm_map s = va_ex2"
  shows "\<exists>m. make_pds 0 4 s = Some (Inr (s\<lparr> vm_map := va_ex6, vm_mem := m \<rparr>))"
proof -
  have four: "(4 :: nat) = Suc (Suc (Suc (Suc 0)))" by simp
  have s: "s = s\<lparr> vm_map := va_ex2, vm_mem := vm_mem s \<rparr>" using assms [symmetric] by simp
  obtain a b c d where "make_pds 0 4 s = make_pds (0 + 1) (Suc (Suc (Suc 0))) (s\<lparr> vm_map := va_ex3, vm_mem := a \<rparr>)"
    and "make_pds (0 + 1) (Suc (Suc (Suc 0))) (s\<lparr> vm_map := va_ex3, vm_mem := a \<rparr>) =
      make_pds (0 + 1 + 1) (Suc (Suc 0)) (s\<lparr> vm_map := va_ex4, vm_mem := b \<rparr>)"
    and "make_pds (0 + 1 + 1) (Suc (Suc 0)) (s\<lparr> vm_map := va_ex4, vm_mem := b \<rparr>) =
      make_pds (0 + 1 + 1 + 1) (Suc 0) (s\<lparr> vm_map := va_ex5, vm_mem := c \<rparr>)"
    and "make_pds (0 + 1 + 1 + 1) (Suc 0) (s\<lparr> vm_map := va_ex5, vm_mem := c \<rparr>) =
      make_pds (0 + 1 + 1 + 1 + 1) 0 (s\<lparr> vm_map := va_ex6, vm_mem := d \<rparr>)"
    using make_pds_next [OF va_ex_pages(1), of 0 "Suc (Suc (Suc 0))" "vm_mem s" s, folded s]
      make_pds_next [OF va_ex_pages(2)] make_pds_next [OF va_ex_pages(3)] make_pds_next [OF va_ex_pages(4)]
    unfolding four by metis
  then have "make_pds 0 4 s = Some (Inr (s\<lparr> vm_map := va_ex6, vm_mem := d \<rparr>))" by (simp only: make_pds.simps(1))
  then show ?thesis by (rule exI [of _ d])
qed

lemma va_ex_run: "\<exists>s'. va_init raw va_ex = Some (Inr s')"
proof -
  let ?vrs = "(map raw [0..<10])[0 := \<lparr> vr_start = 0x400000, vr_len = 0x7fc00000 \<rparr>,
       1 := \<lparr> vr_start = 0x80200000, vr_len = 0x7fe00000 \<rparr>]"
  let ?s = "va_ex\<lparr> vm_map := va_ex2, pdpt := 0x3fff80, unused_va_ranges := ?vrs, num_unused_va_ranges := 2,
      max_unused_va_ranges := 10 \<rparr>"
  have map: "vm_map ?s = va_ex2" by simp
  obtain m where m: "make_pds 0 4 ?s = Some (Inr (?s\<lparr> vm_map := va_ex6, vm_mem := m \<rparr>))"
    using va_ex_dirs [OF map] by blast
  let ?s1 = "?s\<lparr> vm_map := va_ex6, vm_mem := m \<rparr>"
  have "map_ok va_ex2 \<and> {unat (0x3fff80 :: u32)..<unat (0x3fff80 :: u32) + unat (32 :: u32)} \<inter> mm_free va_ex2 = {}"
  proof -
    have al: "(0 :: u32) < 80" "unat (4 :: u32) = 2 ^ 2" "(2 :: nat) < 32" "(0 :: u32) < 32" "unat (32 :: u32) = 2 ^ 5"
      "(5 :: nat) < 32" by simp_all
    have 0: "map_ok va_ex0" using mm_wf_at [OF va_ex_wf] by (simp add: va_ex_def)
    have 1: "map_ok va_ex1" by (rule mem_alloc_spec(1) [OF 0 low_top_limit al(1-3) va_ex_allocs(1)])
    show ?thesis using mem_alloc_spec(1,3) [OF 1 low_top_limit al(4-6) va_ex_allocs(2)] by blast
  qed
  then have "dirs_made ?s []" by (simp add: dirs_made_def)
  then obtain ds where "dirs_made ?s1 ds" "length ds = 4" using make_pds_spec [of ?s "[]" 4] m by auto
  note s1 = dirs_made_wf(1,2) [OF this]
  have t1: "\<forall>j<2048. \<not> is_table (pde ?s1 j)" using s1(2) by (simp add: is_table_def)
  obtain m2 where m2: "map_identity ?s1 = Some (Inr (?s1\<lparr> vm_mem := m2 \<rparr>))" "vm_wf (?s1\<lparr> vm_mem := m2 \<rparr>)"
    "\<forall>j<2048. \<not> is_table (pde (?s1\<lparr> vm_mem := m2 \<rparr>) j)"
    using va_ex_identity [OF s1(1) t1, of raw] by (simp del: arr_get_ok) blast
  obtain m3 where m3: "fix_attrs 0 (?s1\<lparr> vm_mem := m2 \<rparr>) = Some (Inr (?s1\<lparr> vm_mem := m2, vm_mem := m3 \<rparr>))"
    using va_ex_attrs [OF m2(2,3)] by auto
  have c: "max_mem_ranges va_ex0 = 10" "vm_map va_ex = va_ex0" "PDPT_ALIGN = 32" "(10 :: u32) * 8 = 80"
    "(4 :: u32) * 8 = 32" "unat (10 :: u32) = 10"
    by (simp_all add: va_ex_def va_ex0_def va_ex_map_def PDPT_ALIGN_def)
  have "va_init raw va_ex = Some (Inr (paging_on (?s1\<lparr> vm_mem := m2, vm_mem := m3 \<rparr>)))"
    unfolding va_init_def c Let_def va_ex_allocs va_ex_unused bindo_simps prod.case m m2(1) m3 ..
  then show ?thesis by (rule exI)
qed

end
