(* ===== verification/Bmem_Init.thy ===== *)
theory Bmem_Init
  imports Bmem
begin

text \<open>
  The start of base memory management, \<^verbatim>\<open>bmem_init\<close> of \<^verbatim>\<open>stage1/bmem.c\<close>: grab every page below
  1 MiB that the firmware will give, group the pages into blocks, and gauge the base memory
  available at run time from the UEFI memory map. The firmware service
  \<^verbatim>\<open>BS->AllocatePages\<close> is a parameter with a state of its own; what the code relies on is the
  predicate \<open>uefi_pages_ok\<close>. The lemmas show that the grabbing loop returns, that no index
  leaves the bit vector or the block table, and that the result satisfies the invariant of
  the allocators.
\<close>

unbundle bit_operations_syntax

subsection \<open>Memory types of the UEFI specification\<close>

definition EfiLoaderCode :: u32 where "EfiLoaderCode = 1"
definition EfiLoaderData :: u32 where "EfiLoaderData = 2"
definition EfiBootServicesCode :: u32 where "EfiBootServicesCode = 3"
definition EfiBootServicesData :: u32 where "EfiBootServicesData = 4"
definition EfiConventionalMemory :: u32 where "EfiConventionalMemory = 7"
definition EfiACPIReclaimMemory :: u32 where "EfiACPIReclaimMemory = 9"
definition EfiACPIMemoryNVS :: u32 where "EfiACPIMemoryNVS = 10"
definition EfiPalCode :: u32 where "EfiPalCode = 13"
definition EfiPersistentMemory :: u32 where "EfiPersistentMemory = EfiPalCode + 1"

text \<open>The five types whose pages become free once boot services end: the shared case labels.\<close>

definition is_boot_or_free_type :: "u32 \<Rightarrow> bool" where
  "is_boot_or_free_type t \<longleftrightarrow>
     t = EfiLoaderCode \<or> t = EfiLoaderData \<or> t = EfiBootServicesCode \<or>
     t = EfiBootServicesData \<or> t = EfiConventionalMemory"

subsection \<open>Grabbing pages from the firmware\<close>

text \<open>
  A call of \<^verbatim>\<open>BS->AllocatePages\<close> with \<^verbatim>\<open>AllocateMaxAddress\<close> and the 1 MiB mark as the limit:
  from the firmware state and the page count to the start address, or \<open>None\<close> for an error
  status, and the new firmware state.
\<close>

type_synonym 'fw alloc_pages = "'fw \<Rightarrow> u64 \<Rightarrow> u64 option \<times> 'fw"

definition NUM_PAGES :: nat where "NUM_PAGES = 256"

fun bvec_set_range :: "bvec \<Rightarrow> nat \<Rightarrow> nat \<Rightarrow> bvec res" where
  "bvec_set_range avail idx 0 = Inr avail"
| "bvec_set_range avail idx (Suc n) =
     bindr (bvec_set avail idx) (\<lambda>avail'. bvec_set_range avail' (Suc idx) n)"

text \<open>
  The two nested loops. The inner \<^verbatim>\<open>while (page_count-- != 0)\<close> leaves \<^verbatim>\<open>page_count\<close> wrapped
  around to the largest value, so after each success the search for the next size starts
  again from there.
\<close>

partial_function (option) grab_pages ::
  "'fw alloc_pages \<Rightarrow> 'fw \<Rightarrow> u64 \<Rightarrow> bvec \<Rightarrow> (bvec \<times> 'fw) res option" where
  "grab_pages alloc_pages fw page_count avail =
     (case alloc_pages fw page_count of
        (Some start, fw') \<Rightarrow>
          (case bvec_set_range avail (unat (ucast (start div ucast EFI_PAGE_SIZE) :: u32)) (unat page_count) of
             Inl e \<Rightarrow> Some (Inl e)
           | Inr avail' \<Rightarrow> grab_pages alloc_pages fw' (- 1) avail')
      | (None, fw') \<Rightarrow>
          if page_count div 2 \<noteq> 0 then grab_pages alloc_pages fw' (page_count div 2) avail
          else Some (Inr (avail, fw')))"

subsection \<open>Grouping pages into blocks\<close>

definition add_blk :: "bmem_state \<Rightarrow> u64 \<Rightarrow> u64 \<Rightarrow> bmem_state res" where
  "add_blk s bstart bend =
     bindr (arr_set (blk s) (num_blks s)
        \<lparr> blk_start = ucast bstart, blk_end = ucast bend, blk_orig_end = ucast bend \<rparr>)
       (\<lambda>bs. Inr (s\<lparr> blk := bs, num_blks := num_blks s + 1 \<rparr>))"

function group_blks :: "bvec \<Rightarrow> nat \<Rightarrow> u64 \<Rightarrow> bmem_state \<Rightarrow> (u64 \<times> bmem_state) res" where
  "group_blks avail idx start s =
     (if idx < NUM_PAGES then
        bindr (bvec_test avail idx) (\<lambda>set.
          if set then
            group_blks avail (Suc idx)
              (if start = BMEM_MAX_ADDR then word_of_nat idx * ucast EFI_PAGE_SIZE else start) s
          else if start \<noteq> BMEM_MAX_ADDR then
            bindr (add_blk s start (word_of_nat idx * ucast EFI_PAGE_SIZE)) (\<lambda>s'.
              group_blks avail (Suc idx) BMEM_MAX_ADDR s')
          else group_blks avail (Suc idx) start s)
      else Inr (start, s))"
  by pat_completeness auto
termination
  by (relation "measure (\<lambda>(avail, idx, start, s). NUM_PAGES - idx)") auto

declare group_blks.simps [simp del]

definition init_blks :: "bvec \<Rightarrow> bmem_state \<Rightarrow> bmem_state res" where
  "init_blks avail s =
     bindr (group_blks avail 1 BMEM_MAX_ADDR s) (\<lambda>(start, s').
       if start \<noteq> BMEM_MAX_ADDR
       then add_blk s' start (word_of_nat NUM_PAGES * ucast EFI_PAGE_SIZE)
       else Inr s')"

subsection \<open>Gauging run-time memory\<close>

fun mark_descs :: "mem_desc list \<Rightarrow> bvec \<Rightarrow> u64 \<Rightarrow> (bvec \<times> u64) res" where
  "mark_descs [] avail attr = Inr (avail, attr)"
| "mark_descs (desc # ds) avail attr =
     (if is_boot_or_free_type (Type desc) then
        let start = PhysicalStart desc in
        if start \<ge> BMEM_MAX_ADDR then mark_descs ds avail attr
        else
          let idx = ucast (start div ucast EFI_PAGE_SIZE) :: u32;
              end_idx0 = ucast (ucast idx + NumberOfPages desc) :: u32;
              end_idx = if end_idx0 > word_of_nat NUM_PAGES then word_of_nat NUM_PAGES else end_idx0
          in bindr (bvec_set_range avail (unat idx) (unat end_idx - unat idx))
               (\<lambda>avail'. mark_descs ds avail' (attr AND Attribute desc))
      else mark_descs ds avail attr)"

function first_unset :: "bvec \<Rightarrow> nat \<Rightarrow> nat res" where
  "first_unset avail idx =
     (if idx < NUM_PAGES then
        bindr (bvec_test avail idx) (\<lambda>set. if set then first_unset avail (Suc idx) else Inr idx)
      else Inr idx)"
  by pat_completeness auto
termination
  by (relation "measure (\<lambda>(avail, idx). NUM_PAGES - idx)") auto

declare first_unset.simps [simp del]

definition gauge_runtime :: "mem_desc list option \<Rightarrow> bvec \<Rightarrow> bmem_state \<Rightarrow> bmem_state res" where
  "gauge_runtime mem_map avail s =
     bindr (get_mem_map mem_map) (\<lambda>descs.
     bindr (mark_descs descs avail (bmem_uefi_attr s)) (\<lambda>(avail', attr).
     bindr (first_unset avail' 0) (\<lambda>idx.
       if idx < (192 * 1024) div 4096 then Inl (Error ''not enough base mem.!'')
       else
         let s' = s\<lparr> bmem_uefi_attr := attr, runtime_bmem_top := word_of_nat idx * EFI_PAGE_SIZE \<rparr>
         in bindr (bmem_check_enough s') (\<lambda>_. Inr s'))))"

text \<open>\<open>mem_map fw\<close> is what \<^verbatim>\<open>LibMemoryMap\<close> reports in the firmware state \<open>fw\<close>.\<close>

definition bmem_init ::
  "'fw alloc_pages \<Rightarrow> ('fw \<Rightarrow> mem_desc list option) \<Rightarrow> 'fw \<Rightarrow> bmem_state \<Rightarrow> (bmem_state \<times> 'fw) res option" where
  "bmem_init alloc_pages mem_map fw s =
     map_option (\<lambda>r.
       bindr r (\<lambda>(avail, fw').
       bindr (init_blks avail s) (\<lambda>s1.
       bindr (gauge_runtime (mem_map fw') avail s1) (\<lambda>s2. Inr (s2, fw')))))
     (grab_pages alloc_pages fw (BMEM_MAX_ADDR div ucast EFI_PAGE_SIZE div 2) (bvec_zero NUM_PAGES))"

subsection \<open>What the code relies on of the firmware\<close>

text \<open>
  \<open>pages fw\<close> is the set of page numbers below 1 MiB that the firmware has not given away. An
  allocation is page aligned, comes from these pages and removes them; an error changes
  nothing; a request for a single page fails only when no page is left.
\<close>

definition uefi_pages_ok :: "'fw alloc_pages \<Rightarrow> ('fw \<Rightarrow> nat set) \<Rightarrow> bool" where
  "uefi_pages_ok alloc_pages pages \<longleftrightarrow>
     (\<forall>fw. pages fw \<subseteq> {..<NUM_PAGES}) \<and>
     (\<forall>fw n a fw'. 0 < n \<longrightarrow> alloc_pages fw n = (Some a, fw') \<longrightarrow>
        4096 dvd unat a \<and> unat a div 4096 + unat n \<le> NUM_PAGES \<and>
        {unat a div 4096..<unat a div 4096 + unat n} \<subseteq> pages fw \<and>
        pages fw' = pages fw - {unat a div 4096..<unat a div 4096 + unat n}) \<and>
     (\<forall>fw n fw'. alloc_pages fw n = (None, fw') \<longrightarrow> pages fw' = pages fw) \<and>
     (\<forall>fw fw'. alloc_pages fw 1 = (None, fw') \<longrightarrow> pages fw = {})"

lemma uefi_pages_okD:
  assumes "uefi_pages_ok ap pages"
  shows "pages fw \<subseteq> {..<NUM_PAGES}"
    and "0 < n \<Longrightarrow> ap fw n = (Some a, fw') \<Longrightarrow> 4096 dvd unat a \<and> unat a div 4096 + unat n \<le> NUM_PAGES \<and>
        {unat a div 4096..<unat a div 4096 + unat n} \<subseteq> pages fw \<and>
        pages fw' = pages fw - {unat a div 4096..<unat a div 4096 + unat n}"
    and "ap fw n = (None, fw') \<Longrightarrow> pages fw' = pages fw"
    and "ap fw 1 = (None, fw') \<Longrightarrow> pages fw = {}"
  using assms unfolding uefi_pages_ok_def by blast+

subsection \<open>The grabbing loop\<close>

lemma bvec_set_range_ok:
  "bvec_wf N bv \<Longrightarrow> idx + n \<le> N \<Longrightarrow>
     \<exists>bv'. bvec_set_range bv idx n = Inr bv' \<and> bvec_wf N bv' \<and>
       (\<forall>j. bvec_mem bv' j \<longleftrightarrow> bvec_mem bv j \<or> idx \<le> j \<and> j < idx + n)"
proof (induction n arbitrary: bv idx)
  case (Suc n)
  obtain bv1 where s1: "bvec_set bv idx = Inr bv1" "bvec_wf N bv1"
    and m1: "\<And>j. bvec_mem bv1 j \<longleftrightarrow> j = idx \<or> bvec_mem bv j"
    using bvec_set_ok [OF Suc.prems(1), of idx] Suc.prems(2) by auto
  obtain bv2 where s2: "bvec_set_range bv1 (Suc idx) n = Inr bv2" "bvec_wf N bv2"
    and m2: "\<And>j. bvec_mem bv2 j \<longleftrightarrow> bvec_mem bv1 j \<or> Suc idx \<le> j \<and> j < Suc idx + n"
    using Suc.IH [OF s1(2), of "Suc idx"] Suc.prems(2) by auto
  have "bvec_mem bv2 j \<longleftrightarrow> bvec_mem bv j \<or> idx \<le> j \<and> j < idx + Suc n" for j
    using m1 [of j] m2 [of j] by auto
  then show ?case using s1(1) s2 by auto
qed auto

lemma page_index:
  assumes "unat a div 4096 \<le> NUM_PAGES"
  shows "unat (ucast (a div ucast EFI_PAGE_SIZE) :: u32) = unat (a::u64) div 4096"
proof -
  have "unat (a div ucast EFI_PAGE_SIZE) = unat a div 4096"
    by (simp add: EFI_PAGE_SIZE_def unat_div_distrib)
  then show ?thesis using assms by (simp add: unat_ucast_down NUM_PAGES_def)
qed

lemma card_pages_less:
  assumes "uefi_pages_ok ap pages" and "0 < n" and "ap fw n = (Some a, fw')"
  shows "card (pages fw') < card (pages fw)"
proof (rule psubset_card_mono)
  let ?q = "unat a div 4096"
  have "?q \<in> {?q..<?q + unat n}" using assms(2) by (simp add: unat_gt_0)
  then show "pages fw' \<subset> pages fw" using uefi_pages_okD(2) [OF assms] by blast
  show "finite (pages fw)" using uefi_pages_okD(1) [OF assms(1)] finite_subset by blast
qed

lemma grab_pages_returns:
  assumes ok: "uefi_pages_ok ap pages"
  shows "bvec_wf NUM_PAGES avail \<Longrightarrow> 0 < pc \<Longrightarrow>
    \<exists>avail' fw'. grab_pages ap fw pc avail = Some (Inr (avail', fw')) \<and> bvec_wf NUM_PAGES avail' \<and>
      pages fw' = {} \<and> (\<forall>j. bvec_mem avail' j \<longleftrightarrow> bvec_mem avail j \<or> j \<in> pages fw)"
proof (induction "card (pages fw) * 2 ^ 64 + unat pc" arbitrary: fw pc avail rule: less_induct)
  case less
  note unf = grab_pages.simps [of ap fw pc avail]
  obtain r fw' where call: "ap fw pc = (r, fw')" by fastforce
  show ?case
  proof (cases r)
    case None
    note same = uefi_pages_okD(3) [OF ok call [unfolded None]]
    show ?thesis
    proof (cases "pc div 2 = 0")
      case True
      then have "unat pc div 2 = 0" using unat_div_distrib [of pc 2] by simp
      moreover have "0 < unat pc" using less.prems(2) by (simp add: word_less_nat_alt)
      ultimately have "unat pc = 1" by linarith
      then have "pc = 1" by (simp add: word_unat_eq_iff)
      then show ?thesis
        using True less.prems(1) same uefi_pages_okD(4) [OF ok] call unf None by auto
    next
      case False
      have "unat (pc div 2) < unat pc" using less.prems(2) by (simp add: unat_div_distrib word_less_nat_alt)
      then show ?thesis
        using less.hyps [of fw' "pc div 2" avail] less.prems(1) False call None unf same
        by (simp add: word_gt_0)
    qed
  next
    case (Some a)
    note res = uefi_pages_okD(2) [OF ok less.prems(2) call [unfolded Some]]
    have idx: "unat (ucast (a div ucast EFI_PAGE_SIZE) :: u32) = unat a div 4096"
      using res by (intro page_index) simp
    obtain avail1 where set: "bvec_set_range avail (unat a div 4096) (unat pc) = Inr avail1"
      and wf1: "bvec_wf NUM_PAGES avail1"
      and mem1: "\<And>j. bvec_mem avail1 j \<longleftrightarrow>
        bvec_mem avail j \<or> unat a div 4096 \<le> j \<and> j < unat a div 4096 + unat pc"
      using bvec_set_range_ok [OF less.prems(1), of "unat a div 4096" "unat pc"] res by blast
    have "Suc (card (pages fw')) * 2 ^ 64 \<le> card (pages fw) * 2 ^ 64"
      using card_pages_less [OF ok less.prems(2) call [unfolded Some]] by (intro mult_le_mono1) simp
    then have "card (pages fw') * 2 ^ 64 + unat (- 1 :: u64) < card (pages fw) * 2 ^ 64 + unat pc"
      using less.prems(2) unat_lt [of "- 1 :: u64"] by (simp add: word_less_nat_alt)
    then obtain avail2 fw2 where rec: "grab_pages ap fw' (- 1) avail1 = Some (Inr (avail2, fw2))"
      and wf2: "bvec_wf NUM_PAGES avail2" "pages fw2 = {}"
      and mem2: "\<And>j. bvec_mem avail2 j \<longleftrightarrow> bvec_mem avail1 j \<or> j \<in> pages fw'"
      using less.hyps [of fw' "- 1" avail1, OF _ wf1] by (auto simp: word_gt_0)
    have "bvec_mem avail2 j \<longleftrightarrow> bvec_mem avail j \<or> j \<in> pages fw" for j
      using mem1 [of j] mem2 [of j] res by auto
    then show ?thesis using unf call Some idx set rec wf2 by simp
  qed
qed

subsection \<open>Blocks are runs of available pages\<close>

definition page_addr :: "nat \<Rightarrow> u64" where
  "page_addr p = word_of_nat p * ucast EFI_PAGE_SIZE"

definition pages_bytes :: "bvec \<Rightarrow> nat \<Rightarrow> nat \<Rightarrow> nat set" where
  "pages_bytes avail lo hi = {x. lo \<le> x div 4096 \<and> x div 4096 < hi \<and> bvec_mem avail (x div 4096)}"

definition blk_run :: "bvec \<Rightarrow> nat \<Rightarrow> blk_info \<Rightarrow> bool" where
  "blk_run avail bd b \<longleftrightarrow> (\<exists>x y. unat (blk_start b) = x * 4096 \<and> unat (blk_end b) = y * 4096 \<and>
     blk_orig_end b = blk_end b \<and> 1 \<le> x \<and> x < y \<and> y \<le> NUM_PAGES \<and> y \<le> bd \<and>
     (\<forall>p. x \<le> p \<longrightarrow> p < y \<longrightarrow> bvec_mem avail p))"

text \<open>\<open>bd\<close> is the lowest page number a further block can start with.\<close>

definition blocks_inv :: "bvec \<Rightarrow> nat \<Rightarrow> bmem_state \<Rightarrow> bool" where
  "blocks_inv avail bd s \<longleftrightarrow>
     length (blk s) = MAX_BMEM_BLKS \<and> 2 * num_blks s + 1 \<le> bd \<and> bd \<le> NUM_PAGES + 1 \<and>
     list_all (blk_run avail bd) (live s) \<and> sorted_wrt blk_before (live s) \<and>
     blks_free (live s) = pages_bytes avail 1 bd"

lemma unat_page_addr:
  assumes "p \<le> 257"
  shows "unat (page_addr p) = p * 4096" and "unat (ucast (page_addr p) :: u32) = p * 4096"
proof -
  have "page_addr p = word_of_nat (p * 4096)" by (simp add: page_addr_def EFI_PAGE_SIZE_def)
  moreover have "unat (word_of_nat (p * 4096) :: u64) = p * 4096"
    using assms by (simp only: unat_of_nat) simp
  ultimately show "unat (page_addr p) = p * 4096" by simp
  then show "unat (ucast (page_addr p) :: u32) = p * 4096"
    using assms by (simp add: unat_ucast_down)
qed

lemma page_addr_max: "p < NUM_PAGES \<Longrightarrow> page_addr p \<noteq> BMEM_MAX_ADDR"
  using unat_page_addr(1) [of p] by (auto simp: BMEM_MAX_ADDR_def NUM_PAGES_def word_unat_eq_iff)

lemma bvec_mem_bound: "bvec_wf NUM_PAGES avail \<Longrightarrow> bvec_mem avail p \<Longrightarrow> p < NUM_PAGES"
  by (auto simp: bvec_wf_def bvec_mem_def NUM_PAGES_def)

lemma pages_bytes_split:
  assumes "1 \<le> q" and "q \<le> y" and "\<forall>p. q \<le> p \<longrightarrow> p < y \<longrightarrow> bvec_mem avail p" and "\<not> bvec_mem avail y"
  shows "pages_bytes avail 1 (Suc y) = pages_bytes avail 1 q \<union> {q * 4096..<y * 4096}"
proof -
  have "q \<le> x div 4096 \<and> x div 4096 < y \<longleftrightarrow> x \<in> {q * 4096..<y * 4096}" for x
    by (simp add: less_eq_div_iff_mult_less_eq div_less_iff_less_mult)
  then have "{q * 4096..<y * 4096} = {x. q \<le> x div 4096 \<and> x div 4096 < y}" by blast
  then show ?thesis
    unfolding pages_bytes_def using assms by (auto simp: less_Suc_eq not_less)
qed

lemma add_blk_inv:
  assumes inv: "blocks_inv avail q s" and q: "1 \<le> q" "q < y" "y \<le> NUM_PAGES"
    and run: "\<forall>p. q \<le> p \<longrightarrow> p < y \<longrightarrow> bvec_mem avail p" and stop: "\<not> bvec_mem avail y"
  shows "\<exists>s'. add_blk s (page_addr q) (page_addr y) = Inr s' \<and> blocks_inv avail (Suc y) s'"
proof -
  let ?b = "\<lparr> blk_start = ucast (page_addr q), blk_end = ucast (page_addr y),
      blk_orig_end = ucast (page_addr y) \<rparr> :: blk_info"
  let ?s' = "s\<lparr> blk := (blk s)[num_blks s := ?b], num_blks := num_blks s + 1 \<rparr>"
  have n: "num_blks s < length (blk s)"
    using inv q by (simp add: blocks_inv_def MAX_BMEM_BLKS_def NUM_PAGES_def)
  then have live': "live ?s' = live s @ [?b]"
    by (simp add: live_def take_Suc_conv_app_nth)
  have b: "unat (blk_start ?b) = q * 4096" "unat (blk_end ?b) = y * 4096"
    using q by (simp_all add: unat_page_addr NUM_PAGES_def)
  have old: "list_all (blk_run avail q) (live s)" using inv by (simp add: blocks_inv_def)
  have "blk_run avail (Suc y) ?b" using b q run by (auto simp: blk_run_def)
  moreover have "list_all (blk_run avail (Suc y)) (live s)"
    using old q by (force simp: list_all_iff blk_run_def)
  moreover have "blk_before c ?b" if "c \<in> set (live s)" for c
    using old that q b by (fastforce simp: list_all_iff blk_run_def blk_before_def word_le_nat_alt)
  moreover have "blks_free (live ?s') = pages_bytes avail 1 (Suc y)"
    unfolding live' using inv b pages_bytes_split [OF q(1) less_imp_le [OF q(2)] run stop]
    by (simp add: blks_free_def blk_bytes_def blocks_inv_def Un_commute)
  ultimately have "blocks_inv avail (Suc y) ?s'"
    using inv q unfolding blocks_inv_def live' by (simp add: sorted_wrt_append)
  moreover have "add_blk s (page_addr q) (page_addr y) = Inr ?s'"
    using n by (simp add: add_blk_def)
  ultimately show ?thesis by blast
qed

definition group_inv :: "bvec \<Rightarrow> nat \<Rightarrow> u64 \<Rightarrow> bmem_state \<Rightarrow> bool" where
  "group_inv avail idx start s \<longleftrightarrow>
     start = BMEM_MAX_ADDR \<and> blocks_inv avail idx s \<or>
     (\<exists>q. start = page_addr q \<and> 1 \<le> q \<and> q < idx \<and> blocks_inv avail q s \<and>
        (\<forall>p. q \<le> p \<longrightarrow> p < idx \<longrightarrow> bvec_mem avail p))"

lemma group_inv_none:
  assumes "idx \<le> NUM_PAGES"
  shows "group_inv avail idx BMEM_MAX_ADDR s \<longleftrightarrow> blocks_inv avail idx s"
proof -
  have "BMEM_MAX_ADDR \<noteq> page_addr q" if "q < idx" for q
    using page_addr_max [of q] that assms by auto
  then show ?thesis unfolding group_inv_def by blast
qed

lemma group_inv_extend:
  assumes "group_inv avail idx start s" and "bvec_mem avail idx" and "1 \<le> idx" and "idx < NUM_PAGES"
  shows "group_inv avail (Suc idx) (if start = BMEM_MAX_ADDR then page_addr idx else start) s"
proof (cases "start = BMEM_MAX_ADDR")
  case True
  then have "blocks_inv avail idx s" using assms group_inv_none by simp
  then show ?thesis
    using True assms(2,3) unfolding group_inv_def by (auto intro!: exI [of _ idx] simp: less_Suc_eq)
next
  case False
  then show ?thesis
    using assms(1,2) unfolding group_inv_def by (auto simp: less_Suc_eq)
qed

lemma blocks_inv_skip:
  assumes "blocks_inv avail idx s" and "\<not> bvec_mem avail idx" and "1 \<le> idx" and "idx \<le> NUM_PAGES"
  shows "blocks_inv avail (Suc idx) s"
proof -
  have "pages_bytes avail 1 (Suc idx) = pages_bytes avail 1 idx"
    using pages_bytes_split [of idx idx avail] assms by simp
  moreover have "list_all (blk_run avail (Suc idx)) (live s)"
    using assms(1) by (fastforce simp: blocks_inv_def list_all_iff blk_run_def)
  ultimately show ?thesis using assms(1,4) by (simp add: blocks_inv_def)
qed

lemma group_blks_ok:
  assumes wf: "bvec_wf NUM_PAGES avail"
  shows "1 \<le> idx \<Longrightarrow> idx \<le> NUM_PAGES \<Longrightarrow> group_inv avail idx start s \<Longrightarrow>
    \<exists>start' s'. group_blks avail idx start s = Inr (start', s') \<and> group_inv avail NUM_PAGES start' s'"
proof (induction "NUM_PAGES - idx" arbitrary: idx start s rule: less_induct)
  case less
  note unf = group_blks.simps [of avail idx start s, folded page_addr_def]
  show ?case
  proof (cases "idx < NUM_PAGES")
    case True
    then have test: "bvec_test avail idx = Inr (bvec_mem avail idx)" by (rule bvec_test_ok [OF wf])
    note rec = less.hyps [of "Suc idx"]
    show ?thesis
    proof (cases "bvec_mem avail idx")
      case set: True
      let ?start = "if start = BMEM_MAX_ADDR then page_addr idx else start"
      have "group_inv avail (Suc idx) ?start s"
        by (rule group_inv_extend [OF less.prems(3) set less.prems(1) True])
      then show ?thesis using unf test set True rec [of ?start s] by auto
    next
      case unset: False
      show ?thesis
      proof (cases "start = BMEM_MAX_ADDR")
        case m: True
        have "blocks_inv avail idx s"
          using less.prems(2,3) m by (simp add: group_inv_none)
        then have "group_inv avail (Suc idx) start s"
          using m unset less.prems(1,2) by (auto simp: group_inv_def intro: blocks_inv_skip)
        then show ?thesis using unf test unset True rec [of start s] m by auto
      next
        case False
        then obtain q where q: "start = page_addr q" "1 \<le> q" "q < idx" "blocks_inv avail q s"
          "\<forall>p. q \<le> p \<longrightarrow> p < idx \<longrightarrow> bvec_mem avail p"
          using less.prems(3) by (auto simp: group_inv_def)
        obtain s1 where s1: "add_blk s start (page_addr idx) = Inr s1" "blocks_inv avail (Suc idx) s1"
          using add_blk_inv [OF q(4,2,3) less.prems(2) q(5) unset] q(1) by auto
        then have "group_inv avail (Suc idx) BMEM_MAX_ADDR s1" by (simp add: group_inv_def)
        then show ?thesis using unf test unset True rec [of BMEM_MAX_ADDR s1] False s1 by auto
      qed
    qed
  next
    case False
    then have "idx = NUM_PAGES" using less.prems(2) by simp
    then show ?thesis using unf less.prems(3) by auto
  qed
qed

lemma init_blks_ok:
  assumes "bvec_wf NUM_PAGES avail" and "length (blk s) = MAX_BMEM_BLKS" and "num_blks s = 0"
  shows "\<exists>s'. init_blks avail s = Inr s' \<and> blocks_inv avail (NUM_PAGES + 1) s'"
proof -
  have end_unset: "\<not> bvec_mem avail NUM_PAGES" using bvec_mem_bound [OF assms(1)] by blast
  have "blocks_inv avail 1 s"
    using assms by (auto simp: blocks_inv_def live_def blks_free_def pages_bytes_def NUM_PAGES_def)
  then obtain start s1 where g: "group_blks avail 1 BMEM_MAX_ADDR s = Inr (start, s1)"
    and inv: "group_inv avail NUM_PAGES start s1"
    using group_blks_ok [OF assms(1), of 1 BMEM_MAX_ADDR s] by (auto simp: group_inv_def NUM_PAGES_def)
  show ?thesis
  proof (cases "start = BMEM_MAX_ADDR")
    case True
    then have "blocks_inv avail NUM_PAGES s1"
      using inv by (simp add: group_inv_none)
    then show ?thesis
      using g True blocks_inv_skip [OF _ end_unset] by (auto simp: init_blks_def NUM_PAGES_def)
  next
    case False
    then obtain q where q: "start = page_addr q" "1 \<le> q" "q < NUM_PAGES" "blocks_inv avail q s1"
      "\<forall>p. q \<le> p \<longrightarrow> p < NUM_PAGES \<longrightarrow> bvec_mem avail p"
      using inv by (auto simp: group_inv_def)
    obtain s2 where "add_blk s1 (page_addr q) (page_addr NUM_PAGES) = Inr s2" "blocks_inv avail (Suc NUM_PAGES) s2"
      using add_blk_inv [OF q(4,2,3) order_refl q(5) end_unset] by blast
    then show ?thesis using g False q(1) by (auto simp: init_blks_def page_addr_def [symmetric])
  qed
qed

subsection \<open>Grouping leaves the rest of the state alone\<close>

definition same_marks :: "bmem_state \<Rightarrow> bmem_state \<Rightarrow> bool" where
  "same_marks s s' \<longleftrightarrow> boottime_bmem_bot s' = boottime_bmem_bot s \<and>
     runtime_bmem_top s' = runtime_bmem_top s \<and> bmem_uefi_attr s' = bmem_uefi_attr s"

lemma add_blk_marks: "add_blk s a b = Inr s' \<Longrightarrow> same_marks s s'"
  by (auto simp: add_blk_def res_simps same_marks_def)

lemma same_marks_trans: "same_marks s t \<Longrightarrow> same_marks t u \<Longrightarrow> same_marks s u"
  by (simp add: same_marks_def)

lemma group_blks_marks:
  "group_blks avail idx start s = Inr (start', s') \<Longrightarrow> same_marks s s'"
proof (induction "NUM_PAGES - idx" arbitrary: idx start s rule: less_induct)
  case less
  have rec: "same_marks t s'" if "idx < NUM_PAGES" "group_blks avail (Suc idx) st t = Inr (start', s')" for st t
    using less.hyps [of "Suc idx" st t] that by simp
  have "same_marks s s" by (simp add: same_marks_def)
  then show ?case
    using less.prems unfolding group_blks.simps [of avail idx start s]
    by (auto simp: res_simps split: if_split_asm
        dest: rec dest!: add_blk_marks intro: same_marks_trans)
qed

lemma init_blks_marks: "init_blks avail s = Inr s' \<Longrightarrow> same_marks s s'"
  by (auto simp: init_blks_def res_simps split: if_split_asm
      dest!: group_blks_marks add_blk_marks intro: same_marks_trans)

subsection \<open>The run-time watermark\<close>

text \<open>The pages a descriptor adds, with the truncations of the code.\<close>

definition desc_pages :: "mem_desc \<Rightarrow> nat set" where
  "desc_pages d =
     (if is_boot_or_free_type (Type d) \<and> PhysicalStart d < BMEM_MAX_ADDR
      then {unat (PhysicalStart d) div 4096..<
            min NUM_PAGES (unat (ucast (PhysicalStart d div 4096 + NumberOfPages d) :: u32))}
      else {})"

lemma in_run_iff: "a \<le> p \<and> p < a + (b - a) \<longleftrightarrow> p \<in> {a..<b::nat}"
  by auto

lemma clamp_pages:
  "unat (if w > word_of_nat NUM_PAGES then word_of_nat NUM_PAGES else w :: u32) = min NUM_PAGES (unat w)"
  by (simp add: NUM_PAGES_def word_less_nat_alt)

lemma mark_descs_ok:
  "bvec_wf NUM_PAGES avail \<Longrightarrow>
     \<exists>avail' attr'. mark_descs ds avail attr = Inr (avail', attr') \<and> bvec_wf NUM_PAGES avail' \<and>
       (\<forall>p. bvec_mem avail' p \<longleftrightarrow> bvec_mem avail p \<or> (\<exists>d\<in>set ds. p \<in> desc_pages d))"
proof (induction ds arbitrary: avail attr)
  case (Cons d ds)
  show ?case
  proof (cases "is_boot_or_free_type (Type d) \<and> PhysicalStart d < BMEM_MAX_ADDR")
    case False
    then show ?thesis
      using Cons.IH [OF Cons.prems, of attr] by (auto simp: desc_pages_def Let_def not_less)
  next
    case True
    let ?idx = "ucast (PhysicalStart d div ucast EFI_PAGE_SIZE) :: u32"
    let ?raw = "ucast (ucast ?idx + NumberOfPages d) :: u32"
    let ?e = "if ?raw > word_of_nat NUM_PAGES then word_of_nat NUM_PAGES else ?raw"
    have lt: "unat (PhysicalStart d) < 0x100000"
      using True by (simp add: BMEM_MAX_ADDR_def word_less_nat_alt)
    have idx: "unat ?idx = unat (PhysicalStart d) div 4096"
      using lt by (intro page_index) (simp add: NUM_PAGES_def)
    have "unat (ucast ?idx :: u64) = unat (PhysicalStart d div 4096)"
      using idx by (simp add: unat_div_distrib)
    then have up: "(ucast ?idx :: u64) = PhysicalStart d div 4096"
      by (simp only: word_unat_eq_iff)
    have e: "unat ?e = min NUM_PAGES (unat ?raw)"
      by (rule clamp_pages)
    have e0: "?raw = ucast (PhysicalStart d div 4096 + NumberOfPages d)"
      by (simp only: up)
    have pgs: "desc_pages d = {unat ?idx..<unat ?e}"
      unfolding e by (simp only: idx e0) (simp add: desc_pages_def True)
    have fits: "unat ?idx + (unat ?e - unat ?idx) \<le> NUM_PAGES"
      unfolding e using idx lt by (simp add: NUM_PAGES_def)
    obtain av where set: "bvec_set_range avail (unat ?idx) (unat ?e - unat ?idx) = Inr av"
      and wf: "bvec_wf NUM_PAGES av"
      and mem: "\<And>p. bvec_mem av p \<longleftrightarrow>
        bvec_mem avail p \<or> unat ?idx \<le> p \<and> p < unat ?idx + (unat ?e - unat ?idx)"
      using bvec_set_range_ok [OF Cons.prems fits] by blast
    have mem': "bvec_mem av p \<longleftrightarrow> bvec_mem avail p \<or> p \<in> desc_pages d" for p
      using mem [of p] pgs in_run_iff by metis
    have "mark_descs (d # ds) avail attr = mark_descs ds av (attr AND Attribute d)"
      using True set by (simp add: Let_def not_le [symmetric])
    then show ?thesis using Cons.IH [OF wf, of "attr AND Attribute d"] mem' by auto
  qed
qed simp

lemma first_unset_ok:
  assumes wf: "bvec_wf NUM_PAGES avail"
  shows "idx \<le> NUM_PAGES \<Longrightarrow> \<exists>k. first_unset avail idx = Inr k \<and> idx \<le> k \<and> k \<le> NUM_PAGES \<and>
    \<not> bvec_mem avail k \<and> (\<forall>p. idx \<le> p \<longrightarrow> p < k \<longrightarrow> bvec_mem avail p)"
proof (induction "NUM_PAGES - idx" arbitrary: idx rule: less_induct)
  case less
  note unf = first_unset.simps [of avail idx]
  show ?case
  proof (cases "idx < NUM_PAGES \<and> bvec_mem avail idx")
    case True
    obtain k where k: "first_unset avail (Suc idx) = Inr k" "Suc idx \<le> k" "k \<le> NUM_PAGES"
      "\<not> bvec_mem avail k" and run: "\<forall>p. Suc idx \<le> p \<longrightarrow> p < k \<longrightarrow> bvec_mem avail p"
      using less.hyps [of "Suc idx"] True by (metis Suc_leI diff_less_mono2 lessI)
    have "bvec_mem avail p" if "idx \<le> p" "p < k" for p
      using run True that by (cases "p = idx") auto
    then show ?thesis
      using k True unf bvec_test_ok [OF wf, of idx] by auto
  next
    case False
    then have "\<not> bvec_mem avail idx" using less.prems bvec_mem_bound [OF wf, of idx] by blast
    then show ?thesis
      using unf bvec_test_ok [OF wf, of idx] less.prems by (auto intro!: exI [of _ idx])
  qed
qed

text \<open>\<open>k\<close> is the number of the lowest page that is neither grabbed nor freed when boot services end.\<close>

definition gauged :: "bvec \<Rightarrow> mem_desc list \<Rightarrow> nat \<Rightarrow> bool" where
  "gauged avail descs k \<longleftrightarrow> k \<le> NUM_PAGES \<and>
     (\<forall>p<k. bvec_mem avail p \<or> (\<exists>d\<in>set descs. p \<in> desc_pages d)) \<and>
     \<not> bvec_mem avail k \<and> (\<forall>d\<in>set descs. k \<notin> desc_pages d)"

lemma gauge_runtime_eq:
  assumes wf: "bvec_wf NUM_PAGES avail" and mm: "get_mem_map mm = Inr descs"
  shows "\<exists>k attr. gauged avail descs k \<and> gauge_runtime mm avail s =
    (let s' = s\<lparr> bmem_uefi_attr := attr, runtime_bmem_top := word_of_nat (k * 4096) \<rparr> in
     if k < 48 then Inl (Error ''not enough base mem.!'') else bindr (bmem_check_enough s') (\<lambda>_. Inr s'))"
proof -
  obtain av attr where m: "mark_descs descs avail (bmem_uefi_attr s) = Inr (av, attr)" "bvec_wf NUM_PAGES av"
    and mem: "\<And>p. bvec_mem av p \<longleftrightarrow> bvec_mem avail p \<or> (\<exists>d\<in>set descs. p \<in> desc_pages d)"
    using mark_descs_ok [OF wf] by blast
  obtain k where k: "first_unset av 0 = Inr k" "k \<le> NUM_PAGES" "\<not> bvec_mem av k" "\<forall>p<k. bvec_mem av p"
    using first_unset_ok [OF m(2), of 0] by auto
  have "gauged avail descs k" using k mem by (auto simp: gauged_def)
  moreover have "word_of_nat k * EFI_PAGE_SIZE = word_of_nat (k * 4096)"
    by (simp add: EFI_PAGE_SIZE_def)
  ultimately show ?thesis
    using mm m(1) k(1) by (intro exI [of _ k] exI [of _ attr]) (simp add: gauge_runtime_def Let_def)
qed

lemma get_mem_map_Inl: "get_mem_map mm = Inl e \<Longrightarrow> e \<noteq> Out_of_bounds"
  by (auto simp: get_mem_map_def split: option.splits if_splits)

lemma gauge_runtime_in_bounds:
  assumes "bvec_wf NUM_PAGES avail"
  shows "gauge_runtime mm avail s \<noteq> Inl Out_of_bounds"
proof (cases "get_mem_map mm")
  case (Inl e)
  then show ?thesis using get_mem_map_Inl [OF Inl] by (simp add: gauge_runtime_def)
next
  case (Inr descs)
  show ?thesis
    using gauge_runtime_eq [OF assms Inr, of s]
    by (clarsimp simp: Let_def bmem_check_enough_def split: if_splits)
qed

lemma gauge_runtime_Inr:
  assumes wf: "bvec_wf NUM_PAGES avail" and r: "gauge_runtime mm avail s = Inr s'"
  shows "\<exists>descs k. mm = Some descs \<and> gauged avail descs k \<and> unat (runtime_bmem_top s') = k * 4096 \<and>
    bmem_check_enough s' = Inr () \<and> live s' = live s \<and> length (blk s') = length (blk s) \<and>
    num_blks s' = num_blks s \<and> boottime_bmem_bot s' = boottime_bmem_bot s"
proof -
  obtain descs where mm: "get_mem_map mm = Inr descs" using r by (auto simp: gauge_runtime_def res_simps)
  then have some: "mm = Some descs" by (auto simp: get_mem_map_def split: option.splits if_splits)
  obtain k attr where k: "gauged avail descs k" and eq: "gauge_runtime mm avail s =
    (let s' = s\<lparr> bmem_uefi_attr := attr, runtime_bmem_top := word_of_nat (k * 4096) \<rparr> in
     if k < 48 then Inl (Error ''not enough base mem.!'') else bindr (bmem_check_enough s') (\<lambda>_. Inr s'))"
    using gauge_runtime_eq [OF wf mm] by blast
  have s': "s' = s\<lparr> bmem_uefi_attr := attr, runtime_bmem_top := word_of_nat (k * 4096) \<rparr>"
    and enough: "bmem_check_enough s' = Inr ()"
    using r unfolding eq by (auto simp: Let_def res_simps split: if_split_asm)
  have "unat (word_of_nat (k * 4096) :: u32) = k * 4096"
    using k by (simp only: unat_of_nat gauged_def) (simp add: NUM_PAGES_def)
  then show ?thesis using some k enough unfolding s' by (auto simp: live_def)
qed

subsection \<open>The whole initialisation\<close>

lemma blocks_inv_wf:
  assumes inv: "blocks_inv avail (NUM_PAGES + 1) s" and k: "gauged avail descs k"
    and s': "live s' = live s" "length (blk s') = length (blk s)" "num_blks s' = num_blks s"
      "unat (runtime_bmem_top s') = k * 4096" "boottime_bmem_bot s' \<le> 0x100000"
  shows "bmem_wf s'"
proof -
  have "blk_ok (runtime_bmem_top s') b" if b: "b \<in> set (live s)" for b
  proof -
    have "blk_run avail (NUM_PAGES + 1) b" using inv b by (simp add: blocks_inv_def list_all_iff)
    then obtain x y where xy: "unat (blk_start b) = x * 4096" "unat (blk_end b) = y * 4096"
      "blk_orig_end b = blk_end b" "1 \<le> x" "x < y" "y \<le> NUM_PAGES"
      "\<forall>p. x \<le> p \<longrightarrow> p < y \<longrightarrow> bvec_mem avail p" unfolding blk_run_def by blast
    have "y \<le> k \<or> k \<le> x" using xy(7) k unfolding gauged_def by (meson nat_le_linear not_le)
    then show ?thesis
      using xy s'(4) by (auto simp: blk_ok_def word_le_nat_alt EFI_PAGE_SIZE_def NUM_PAGES_def)
  qed
  moreover have "runtime_bmem_top s' \<le> 0x100000"
    using k s'(4) by (simp add: word_le_nat_alt gauged_def NUM_PAGES_def)
  ultimately show ?thesis
    using inv s' by (simp add: bmem_wf_def blocks_inv_def blks_wf_def list_all_iff NUM_PAGES_def MAX_BMEM_BLKS_def)
qed

lemma bmem_init_cases:
  assumes ok: "uefi_pages_ok ap pages"
  shows "\<exists>avail fw' s1. bvec_wf NUM_PAGES avail \<and> pages fw' = {} \<and>
    (\<forall>p. bvec_mem avail p \<longleftrightarrow> p \<in> pages fw) \<and>
    blocks_inv avail (NUM_PAGES + 1) s1 \<and> same_marks bmem_state0 s1 \<and>
    bmem_init ap mm fw bmem_state0 = Some (bindr (gauge_runtime (mm fw') avail s1) (\<lambda>s2. Inr (s2, fw')))"
proof -
  have "0 < BMEM_MAX_ADDR div ucast EFI_PAGE_SIZE div 2"
    by (simp add: BMEM_MAX_ADDR_def EFI_PAGE_SIZE_def)
  then obtain avail fw' where g: "grab_pages ap fw (BMEM_MAX_ADDR div ucast EFI_PAGE_SIZE div 2)
      (bvec_zero NUM_PAGES) = Some (Inr (avail, fw'))" and wf: "bvec_wf NUM_PAGES avail" "pages fw' = {}"
    and mem: "\<And>p. bvec_mem avail p \<longleftrightarrow> p \<in> pages fw"
    using grab_pages_returns [OF ok bvec_wf_zero, of _ fw] by fastforce
  obtain s1 where s1: "init_blks avail bmem_state0 = Inr s1" "blocks_inv avail (NUM_PAGES + 1) s1"
    using init_blks_ok [OF wf(1), of bmem_state0] by (auto simp: bmem_state0_def)
  have "bmem_init ap mm fw bmem_state0 = Some (bindr (gauge_runtime (mm fw') avail s1) (\<lambda>s2. Inr (s2, fw')))"
    by (simp add: bmem_init_def g s1(1))
  then show ?thesis using wf mem s1 init_blks_marks [OF s1(1)] by blast
qed

text \<open>
  C12. \<^verbatim>\<open>bmem_init\<close> returns (its page-grabbing loop ends for every firmware that behaves as the
  UEFI specification says), never indexes outside the page bit vector or the block table,
  and when it reports no error: the firmware has no page below 1 MiB left, the block table
  satisfies the allocators' invariant and holds exactly the grabbed pages other than page 0,
  the run-time watermark is at least 192 KiB and 128 KiB above the boot-time watermark, and
  every page below the run-time watermark was grabbed or is freed when boot services end.
\<close>

theorem bmem_init_correct:
  assumes "uefi_pages_ok ap pages"
  shows "\<exists>r. bmem_init ap mm fw bmem_state0 = Some r \<and> r \<noteq> Inl Out_of_bounds \<and>
    (\<forall>s fw'. r = Inr (s, fw') \<longrightarrow>
       pages fw' = {} \<and> bmem_wf s \<and> bmem_free s = {x. x div 4096 \<in> pages fw - {0}} \<and>
       192 * 1024 \<le> unat (runtime_bmem_top s) \<and>
       unat (boottime_bmem_bot s) + 128 * 1024 \<le> unat (runtime_bmem_top s) \<and>
       (\<exists>descs. mm fw' = Some descs \<and>
          (\<forall>p. p < unat (runtime_bmem_top s) div 4096 \<longrightarrow>
             p \<in> pages fw \<or> (\<exists>d\<in>set descs. p \<in> desc_pages d))))"
proof -
  obtain avail fw' s1 where wf: "bvec_wf NUM_PAGES avail" "pages fw' = {}"
    and mem: "\<And>p. bvec_mem avail p \<longleftrightarrow> p \<in> pages fw"
    and s1: "blocks_inv avail (NUM_PAGES + 1) s1" "same_marks bmem_state0 s1"
    and eq: "bmem_init ap mm fw bmem_state0 = Some (bindr (gauge_runtime (mm fw') avail s1) (\<lambda>s2. Inr (s2, fw')))"
    using bmem_init_cases [OF assms] by blast
  have free: "pages_bytes avail 1 (NUM_PAGES + 1) = {x. x div 4096 \<in> pages fw - {0}}"
    using uefi_pages_okD(1) [OF assms, of fw] mem by (auto simp: pages_bytes_def)
  show ?thesis
  proof (cases "gauge_runtime (mm fw') avail s1")
    case (Inl e)
    then show ?thesis using eq gauge_runtime_in_bounds [OF wf(1), of "mm fw'" s1] by auto
  next
    case (Inr s2)
    obtain descs k where d: "mm fw' = Some descs" "gauged avail descs k"
      and t: "unat (runtime_bmem_top s2) = k * 4096" "bmem_check_enough s2 = Inr ()" "live s2 = live s1"
        "length (blk s2) = length (blk s1)" "num_blks s2 = num_blks s1" "boottime_bmem_bot s2 = boottime_bmem_bot s1"
      using gauge_runtime_Inr [OF wf(1) Inr] by blast
    have "boottime_bmem_bot s2 \<le> 0x100000"
      using s1(2) t(6) by (simp add: same_marks_def bmem_state0_def EFI_PAGE_SIZE_def)
    then have wf2: "bmem_wf s2" by (rule blocks_inv_wf [OF s1(1) d(2) t(3,4,5,1)])
    have free2: "bmem_free s2 = {x. x div 4096 \<in> pages fw - {0}}"
      using s1(1) t(3) free by (simp add: bmem_free_def blocks_inv_def)
    have marks: "192 * 1024 \<le> unat (runtime_bmem_top s2)"
      "unat (boottime_bmem_bot s2) + 128 * 1024 \<le> unat (runtime_bmem_top s2)"
      using bmem_check_enough_Inr [OF t(2)] by simp_all
    have "p \<in> pages fw \<or> (\<exists>d\<in>set descs. p \<in> desc_pages d)" if "p < unat (runtime_bmem_top s2) div 4096" for p
      using d(2) that t(1) mem by (simp add: gauged_def)
    then show ?thesis using eq Inr wf(2) wf2 free2 marks d(1) by auto
  qed
qed

subsection \<open>Witness: a firmware that hands out pages from the top\<close>

text \<open>The firmware state is the number of free pages, all at the bottom of memory.\<close>

definition toy_pages :: "nat \<Rightarrow> nat set" where
  "toy_pages fw = {..<min fw NUM_PAGES}"

definition toy_alloc_pages :: "nat alloc_pages" where
  "toy_alloc_pages fw n =
     (if unat n \<le> min fw NUM_PAGES
      then (Some (word_of_nat ((min fw NUM_PAGES - unat n) * 4096)), min fw NUM_PAGES - unat n)
      else (None, fw))"

lemma toy_pages_ok: "uefi_pages_ok toy_alloc_pages toy_pages"
proof -
  have addr: "unat (word_of_nat (m * 4096) :: u64) = m * 4096" if "m \<le> NUM_PAGES" for m
    using that by (simp only: unat_of_nat) (simp add: NUM_PAGES_def)
  have "4096 dvd unat a \<and> unat a div 4096 + unat n \<le> NUM_PAGES \<and>
        {unat a div 4096..<unat a div 4096 + unat n} \<subseteq> toy_pages fw \<and>
        toy_pages fw' = toy_pages fw - {unat a div 4096..<unat a div 4096 + unat n}"
    if "toy_alloc_pages fw n = (Some a, fw')" for fw n a fw'
  proof -
    have n: "unat n \<le> min fw NUM_PAGES" and fw': "fw' = min fw NUM_PAGES - unat n"
      and a: "a = word_of_nat ((min fw NUM_PAGES - unat n) * 4096)"
      using that by (auto simp: toy_alloc_pages_def split: if_split_asm)
    have "unat a = fw' * 4096" unfolding a fw' by (rule addr) simp
    then show ?thesis using n fw' by (auto simp: toy_pages_def)
  qed
  then show ?thesis
    unfolding uefi_pages_ok_def
    by (auto simp: toy_alloc_pages_def toy_pages_def NUM_PAGES_def split: if_split_asm)
qed

definition toy_mem_map :: "nat \<Rightarrow> mem_desc list option" where
  "toy_mem_map _ = Some [\<lparr> Type = 0, PhysicalStart = 0x9f000, NumberOfPages = 1, Attribute = 8 \<rparr>]"

lemma toy_init: "\<exists>s fw'. bmem_init toy_alloc_pages toy_mem_map 159 bmem_state0 = Some (Inr (s, fw'))"
proof -
  let ?d = "\<lparr> Type = 0, PhysicalStart = 0x9f000, NumberOfPages = 1, Attribute = 8 \<rparr> :: mem_desc"
  obtain avail fw' s1 where wf: "bvec_wf NUM_PAGES avail"
    and mem: "\<And>p. bvec_mem avail p \<longleftrightarrow> p \<in> toy_pages 159"
    and s1: "same_marks bmem_state0 s1"
    and eq: "bmem_init toy_alloc_pages toy_mem_map 159 bmem_state0 =
      Some (bindr (gauge_runtime (toy_mem_map fw') avail s1) (\<lambda>s2. Inr (s2, fw')))"
    using bmem_init_cases [OF toy_pages_ok] by blast
  have mm: "get_mem_map (toy_mem_map fw') = Inr [?d]"
    by (simp add: get_mem_map_def toy_mem_map_def)
  obtain k attr where k: "gauged avail [?d] k" and res: "gauge_runtime (toy_mem_map fw') avail s1 =
    (let s' = s1\<lparr> bmem_uefi_attr := attr, runtime_bmem_top := word_of_nat (k * 4096) \<rparr> in
     if k < 48 then Inl (Error ''not enough base mem.!'') else bindr (bmem_check_enough s') (\<lambda>_. Inr s'))"
    using gauge_runtime_eq [OF wf mm] by blast
  have "desc_pages ?d = {}" by (simp add: desc_pages_def is_boot_or_free_type_def EfiLoaderCode_def
        EfiLoaderData_def EfiBootServicesCode_def EfiBootServicesData_def EfiConventionalMemory_def)
  then have "\<forall>p<k. p < 159" "\<not> k < 159"
    using k mem by (auto simp: gauged_def toy_pages_def NUM_PAGES_def)
  then have "k = 159" by (metis nat_neq_iff)
  then show ?thesis
    using eq res s1 by (simp add: bmem_check_enough_def same_marks_def bmem_state0_def EFI_PAGE_SIZE_def KIBYTE_def Let_def)
qed

theorem bmem_init_correct_witness:
  "uefi_pages_ok toy_alloc_pages toy_pages \<and>
   (\<exists>s fw'. bmem_init toy_alloc_pages toy_mem_map 159 bmem_state0 = Some (Inr (s, fw')) \<and>
      bmem_wf s \<and> bmem_free s = {x. x div 4096 \<in> toy_pages 159 - {0}})"
proof -
  obtain s fw' where r: "bmem_init toy_alloc_pages toy_mem_map 159 bmem_state0 = Some (Inr (s, fw'))"
    using toy_init by blast
  then show ?thesis
    using toy_pages_ok bmem_init_correct [OF toy_pages_ok, of toy_mem_map 159] by auto
qed

end
