(* ===== verification/Handover.thy ===== *)
theory Handover
  imports Bmem_Init Bparm
begin

text \<open>
  The end of stage 1: describing memory to stage 2 as boot parameters. \<^verbatim>\<open>bmem_fini\<close> and its
  two helpers of \<^verbatim>\<open>stage1/bmem.c\<close> describe base memory, \<^verbatim>\<open>prepare_to_hand_over\<close> of
  \<^verbatim>\<open>stage1/main.c\<close> describes extended memory and the two watermarks. The lemmas compute the
  boot parameters that stage 2 finds in memory, and show that the scratch area announced to
  stage 2 holds no boot parameter.
\<close>

unbundle bit_operations_syntax

subsection \<open>Base memory as UEFI knows it\<close>

text \<open>The \<^verbatim>\<open>switch\<close> on the descriptor type; \<open>None\<close> is the label that skips the descriptor.\<close>

definition uefi_e820_type :: "u32 \<Rightarrow> u32 option" where
  "uefi_e820_type t =
     (if is_boot_or_free_type t then None
      else if t = EfiACPIReclaimMemory then Some E820_ACPI
      else if t = EfiACPIMemoryNVS then Some E820_NVS
      else if t = EfiPersistentMemory then Some E820_PMEM
      else Some E820_RESERVED)"

fun add_uefi_mem_bparms :: "bparm_state \<Rightarrow> mem_desc list \<Rightarrow> bparm_state res" where
  "add_uefi_mem_bparms st [] = Inr st"
| "add_uefi_mem_bparms st (desc # ds) =
     (let start = PhysicalStart desc in
      if start \<ge> BMEM_MAX_ADDR then add_uefi_mem_bparms st ds
      else
        let sz0 = NumberOfPages desc * ucast EFI_PAGE_SIZE;
            sz = if sz0 > BMEM_MAX_ADDR - start then BMEM_MAX_ADDR - start else sz0
        in case uefi_e820_type (Type desc) of
             None \<Rightarrow> add_uefi_mem_bparms st ds
           | Some e820_type \<Rightarrow>
               bindr (bparm_add_mem_range st \<lparr> mr_start = start, mr_len = sz, mr_e820_type = e820_type,
                        mr_e820_ext_attr = 1, mr_uefi_attr = Attribute desc \<rparr>)
                 (\<lambda>(_, st'). add_uefi_mem_bparms st' ds))"

subsection \<open>Base memory as managed by bmem.c\<close>

text \<open>The first loop: the index of the first block that starts at or above the watermark.\<close>

function skip_blks :: "bmem_state \<Rightarrow> nat \<Rightarrow> nat res" where
  "skip_blks s blk_idx =
     (if blk_idx < num_blks s then
        bindr (arr_get (blk s) blk_idx) (\<lambda>b.
          if blk_start b < runtime_bmem_top s then skip_blks s (Suc blk_idx) else Inr blk_idx)
      else Inr blk_idx)"
  by pat_completeness auto
termination
  by (relation "measure (\<lambda>(s, i). num_blks s - i)") auto

declare skip_blks.simps [simp del]

definition our_range :: "u32 \<Rightarrow> u32 \<Rightarrow> u32 \<Rightarrow> u64 \<Rightarrow> bdat_mem_range" where
  "our_range start len e820_type attr = \<lparr> mr_start = ucast start, mr_len = ucast len,
     mr_e820_type = e820_type, mr_e820_ext_attr = 1, mr_uefi_attr = attr \<rparr>"

lemma bparm_add_num_blks: "bparm_add st type sz = Inr (p, st') \<Longrightarrow> num_blks (bmem st') \<le> num_blks (bmem st)"
  by (auto simp: bparm_add_def bmem_alloc_boottime_def boottime_taken_def res_simps Let_def
      dest!: bmem_alloc_boottime_from_Inr)

lemma bparm_add_mem_range_num_blks:
  "bparm_add_mem_range st r = Inr x \<Longrightarrow> num_blks (bmem (snd x)) \<le> num_blks (bmem st)"
  by (auto simp: bparm_add_mem_range_def res_simps dest!: bparm_add_num_blks split: if_split_asm)

text \<open>
  The second loop. The two calls allocate from the very table the loop runs over, so the
  block count is read again at each turn.
\<close>

function add_our_blks :: "bparm_state \<Rightarrow> nat \<Rightarrow> bparm_state res" where
  "add_our_blks st blk_idx =
     (if blk_idx < num_blks (bmem st) then
        bindr (arr_get (blk (bmem st)) blk_idx) (\<lambda>b.
        bindr (bparm_add_mem_range st
            (our_range (blk_start b) (blk_end b - blk_start b) E820_RAM (bmem_uefi_attr (bmem st)))) (\<lambda>r1.
        bindr (bparm_add_mem_range (snd r1)
            (our_range (blk_end b) (blk_orig_end b - blk_end b) E820_RESERVED (bmem_uefi_attr (bmem (snd r1))))) (\<lambda>r2.
        add_our_blks (snd r2) (Suc blk_idx))))
      else Inr st)"
  by pat_completeness auto
termination
proof (relation "measure (\<lambda>(st, i). num_blks (bmem st) - i)", goal_cases)
  case (2 st i b r1 r2)
  have "num_blks (bmem (snd r2)) \<le> num_blks (bmem st)"
    using bparm_add_mem_range_num_blks [OF 2(3)] bparm_add_mem_range_num_blks [OF 2(4)] by (rule order_trans [rotated])
  then show ?case using 2(1) by simp
qed simp

declare add_our_blks.simps [simp del]

definition add_our_mem_bparms :: "bparm_state \<Rightarrow> bparm_state res" where
  "add_our_mem_bparms st =
     bindr (bparm_add_mem_range st
        (our_range 0 (runtime_bmem_top (bmem st)) E820_RAM (bmem_uefi_attr (bmem st)))) (\<lambda>(_, st1).
     bindr (skip_blks (bmem st1) 0) (\<lambda>blk_idx. add_our_blks st1 blk_idx))"

definition bmem_fini :: "bparm_state \<Rightarrow> mem_desc list \<Rightarrow> (u32 \<times> u32 \<times> bparm_state) res" where
  "bmem_fini st descs =
     bindr (add_uefi_mem_bparms st descs) (\<lambda>st1.
     bindr (add_our_mem_bparms st1) (\<lambda>st2.
       let s = bmem st2;
           s' = s\<lparr> boottime_bmem_bot := (boottime_bmem_bot s + PARA_SIZE - 1) AND - PARA_SIZE,
                   runtime_bmem_top := runtime_bmem_top s AND - KIBYTE \<rparr>
       in bindr (bmem_check_enough s') (\<lambda>_.
            Inr (boottime_bmem_bot s', runtime_bmem_top s', st2\<lparr> bmem := s' \<rparr>))))"

subsection \<open>Extended memory and the hand-over\<close>

definition ext_e820_type :: "u32 \<Rightarrow> u32" where
  "ext_e820_type t =
     (if is_boot_or_free_type t then E820_RAM
      else if t = EfiACPIReclaimMemory then E820_ACPI
      else if t = EfiACPIMemoryNVS then E820_NVS
      else if t = EfiPersistentMemory then E820_PMEM
      else E820_RESERVED)"

fun add_ext_mem_bparms :: "bparm_state \<Rightarrow> mem_desc list \<Rightarrow> bparm_state res" where
  "add_ext_mem_bparms st [] = Inr st"
| "add_ext_mem_bparms st (desc # ds) =
     (let start0 = PhysicalStart desc;
          rend = start0 + NumberOfPages desc * ucast EFI_PAGE_SIZE in
      if rend \<le> BMEM_MAX_ADDR \<and> rend \<noteq> 0 then add_ext_mem_bparms st ds
      else
        let start = if start0 < BMEM_MAX_ADDR then BMEM_MAX_ADDR else start0 in
        bindr (bparm_add_mem_range st \<lparr> mr_start = start, mr_len = rend - start,
                 mr_e820_type = ext_e820_type (Type desc), mr_e820_ext_attr = 1,
                 mr_uefi_attr = Attribute desc \<rparr>)
          (\<lambda>(_, st'). add_ext_mem_bparms st' ds))"

definition sizeof_bdat_bmem :: u32 where "sizeof_bdat_bmem = 4"

definition wr_bdat_bmem :: "mem \<Rightarrow> nat \<Rightarrow> u16 \<Rightarrow> u16 \<Rightarrow> mem" where
  "wr_bdat_bmem m bd bot_seg top_seg = wr16 (wr16 m bd bot_seg) (bd + 2) top_seg"

text \<open>
  \<open>mem_map\<close> is the memory map of the firmware at this point, \<open>exit_status\<close> the status that
  \<^verbatim>\<open>BS->ExitBootServices\<close> returns. The firmware-volume clean-up at the start of the function
  and the waiting loops touch none of this state.
\<close>

definition prepare_to_hand_over ::
  "mem_desc list option \<Rightarrow> u64 \<Rightarrow> bparm_state \<Rightarrow> (u32 \<times> bparm_state) res" where
  "prepare_to_hand_over mem_map exit_status st =
     bindr (get_mem_map mem_map) (\<lambda>descs.
     bindr (add_ext_mem_bparms st descs) (\<lambda>st1.
     bindr (bparm_add st1 BP_BMEM sizeof_bdat_bmem) (\<lambda>(bd, st2).
     bindr (bmem_fini st2 descs) (\<lambda>(boottime_bot, runtime_top, st3).
       let st4 = st3\<lparr> memory := wr_bdat_bmem (memory st3) (unat bd)
                       (addr_to_rm_seg (ucast boottime_bot)) (addr_to_rm_seg (ucast runtime_top)) \<rparr>
       in if EFI_ERROR exit_status then Inl (Error_with_status ''cannot exit UEFI'' exit_status)
          else Inr (runtime_top div KIBYTE, st4)))))"

subsection \<open>The block table while parameters are added\<close>

text \<open>Blocks at or above the watermark stay as they are; blocks below it stay below.\<close>

definition same_above :: "u32 \<Rightarrow> blk_info \<Rightarrow> blk_info \<Rightarrow> bool" where
  "same_above rtop b b' \<longleftrightarrow> (if rtop \<le> blk_start b then b' = b else blk_start b' < rtop)"

definition kept :: "bmem_state \<Rightarrow> bmem_state \<Rightarrow> bool" where
  "kept s s' \<longleftrightarrow> runtime_bmem_top s' = runtime_bmem_top s \<and> bmem_uefi_attr s' = bmem_uefi_attr s \<and>
     num_blks s' \<le> num_blks s \<and>
     (num_blks s' = num_blks s \<longrightarrow> list_all2 (same_above (runtime_bmem_top s)) (live s) (live s'))"

lemma same_above_refl: "same_above rtop b b"
  by (simp add: same_above_def not_le)

lemma same_above_trans: "same_above rtop a b \<Longrightarrow> same_above rtop b c \<Longrightarrow> same_above rtop a c"
  by (auto simp: same_above_def split: if_splits)

lemma kept_refl: "kept s s"
  by (simp add: kept_def list_all2_refl same_above_refl)

lemma kept_trans:
  assumes "kept s t" and "kept t u"
  shows "kept s u"
proof -
  have "list_all2 (same_above (runtime_bmem_top s)) (live s) (live u)" if "num_blks u = num_blks s"
  proof (rule list_all2_trans [OF same_above_trans])
    have n: "num_blks t = num_blks s" "num_blks u = num_blks t" using assms that by (auto simp: kept_def)
    show "list_all2 (same_above (runtime_bmem_top s)) (live s) (live t)" using assms(1) n(1) by (simp add: kept_def)
    show "list_all2 (same_above (runtime_bmem_top s)) (live t) (live u)" using assms n(2) by (simp add: kept_def)
  qed
  then show ?thesis using assms by (auto simp: kept_def)
qed

lemma kept_above:
  assumes "kept s s'" and "num_blks s' = num_blks s"
  shows "filter (\<lambda>b. runtime_bmem_top s \<le> blk_start b) (live s') = filter (\<lambda>b. runtime_bmem_top s \<le> blk_start b) (live s)"
proof -
  have "list_all2 (same_above (runtime_bmem_top s)) (live s) (live s')" using assms by (simp add: kept_def)
  then show ?thesis by induction (auto simp: same_above_def split: if_splits)
qed

lemma alloc_boottime_kept:
  assumes wf: "bmem_wf s" and "pow2_align align" and "bmem_alloc_boottime s sz align = Inr (a, s')"
  shows "kept s s'"
proof -
  obtain i where t: "boottime_taken s sz align i a s'"
    using bmem_alloc_boottime_from_Inr [OF assms(3) [unfolded bmem_alloc_boottime_def]] by blast
  obtain k where k: "unat align = 2 ^ k" "k < 32" using assms(2) by (auto simp: pow2_align_def)
  note ar = boottime_taken_arith [OF wf t k]
  let ?b = "live s ! i" and ?e = "ucast (ucast a + sz) :: u32"
  have fields: "runtime_bmem_top s' = runtime_bmem_top s" "bmem_uefi_attr s' = bmem_uefi_attr s"
    "i < num_blks s" "a < runtime_bmem_top s"
    "num_blks s' = (if ?e \<noteq> blk_end ?b then num_blks s else num_blks s - 1)"
    using t live_nth [OF wf, of i] by (auto simp: boottime_taken_def Let_def)
  have i: "i < length (live s)" using live_nth [OF wf fields(3)] by simp
  have "list_all2 (same_above (runtime_bmem_top s)) (live s) (live s')" if same: "num_blks s' = num_blks s"
  proof -
    have e: "?e \<noteq> blk_end ?b" using fields(3,5) same by (auto split: if_splits)
    then have "live s' = (live s)[i := ?b\<lparr> blk_start := ?e \<rparr>]"
      using boottime_taken_live [OF wf t] by (simp add: Let_def)
    moreover have "?e < blk_end ?b" using ar(2,4) e by (auto simp: word_less_nat_alt word_unat_eq_iff)
    then have "same_above (runtime_bmem_top s) ?b (?b\<lparr> blk_start := ?e \<rparr>)"
      using ar(1,5) fields(4) by (auto simp: same_above_def)
    ultimately show ?thesis
      using list_all2_update_cong [of "same_above (runtime_bmem_top s)" "live s" "live s" ?b _ i]
      by (simp add: list_all2_refl same_above_refl)
  qed
  then show ?thesis using fields by (auto simp: kept_def)
qed

lemma bparm_add_kept:
  assumes "bparm_rep st ns" and "bparm_add st type sz = Inr (p, st')"
  shows "kept (bmem st) (bmem st')"
  using assms alloc_boottime_kept [OF _ pow2_align_8]
  by (auto simp: bparm_rep_def bparm_add_def res_simps Let_def)

lemma bparm_add_mem_range_kept:
  assumes "bparm_rep st ns" and "bparm_add_mem_range st r = Inr (p, st')"
  shows "kept (bmem st) (bmem st')"
  using assms bparm_add_kept [OF assms(1)]
  by (auto simp: bparm_add_mem_range_def res_simps kept_refl split: if_split_asm)

subsection \<open>Appending memory ranges\<close>

definition mrng_node :: "bnode \<Rightarrow> bdat_mem_range \<Rightarrow> bool" where
  "mrng_node n r \<longleftrightarrow> bn_type n = BP_MRNG \<and> bn_data n = mem_range_bytes r"

definition nonempty :: "bdat_mem_range list \<Rightarrow> bdat_mem_range list" where
  "nonempty rs = filter (\<lambda>r. mr_len r \<noteq> 0) rs"

text \<open>From a representation of \<open>ns\<close>, the step to \<open>st'\<close> appends one node per range of \<open>rs\<close>.\<close>

definition appends :: "bparm_state \<Rightarrow> bnode list \<Rightarrow> bdat_mem_range list \<Rightarrow> bparm_state \<Rightarrow> bnode list \<Rightarrow> bool" where
  "appends st ns rs st' new \<longleftrightarrow>
     bparm_rep st' (ns @ new) \<and> list_all2 mrng_node new rs \<and> kept (bmem st) (bmem st')"

lemma appends_nil: "bparm_rep st ns \<Longrightarrow> appends st ns [] st []"
  by (simp add: appends_def kept_refl)

lemma appends_trans:
  "appends st ns rs st1 new1 \<Longrightarrow> appends st1 (ns @ new1) rs' st2 new2 \<Longrightarrow>
     appends st ns (rs @ rs') st2 (new1 @ new2)"
  by (auto simp: appends_def intro: kept_trans list_all2_appendI)

lemma add_mem_range_appends:
  assumes "bparm_rep st ns" and "bparm_add_mem_range st r = Inr (p, st')"
  shows "\<exists>new. appends st ns (nonempty [r]) st' new"
proof (cases "mr_len r = 0")
  case True
  then have "st' = st" using assms(2) by (simp add: bparm_add_mem_range_def)
  then show ?thesis using True appends_nil [OF assms(1)] by (auto simp: nonempty_def)
next
  case False
  then obtain a where "bparm_rep st' (ns @ [\<lparr> bn_addr = a, bn_type = BP_MRNG, bn_data = mem_range_bytes r \<rparr>])"
    using bparm_add_mem_range_rep [OF assms(1) False assms(2)] by blast
  then show ?thesis
    using False bparm_add_mem_range_kept [OF assms] by (auto simp: appends_def nonempty_def mrng_node_def)
qed

subsection \<open>What the three groups of parameters say\<close>

text \<open>
  The ranges each group reports, as functions of the memory map and of the block table. Base
  memory that UEFI reserves is cut off at 1 MiB; extended memory starts there.
\<close>

definition uefi_range :: "mem_desc \<Rightarrow> bdat_mem_range list" where
  "uefi_range d =
     (if unat (PhysicalStart d) < 0x100000 \<and> \<not> is_boot_or_free_type (Type d)
      then [\<lparr> mr_start = PhysicalStart d,
              mr_len = min (NumberOfPages d * 4096) (0x100000 - PhysicalStart d),
              mr_e820_type = the (uefi_e820_type (Type d)), mr_e820_ext_attr = 1, mr_uefi_attr = Attribute d \<rparr>]
      else [])"

definition ext_range :: "mem_desc \<Rightarrow> bdat_mem_range list" where
  "ext_range d =
     (let start = max 0x100000 (PhysicalStart d); rend = PhysicalStart d + NumberOfPages d * 4096 in
      if 0 < rend \<and> rend \<le> 0x100000 then []
      else [\<lparr> mr_start = start, mr_len = rend - start, mr_e820_type = ext_e820_type (Type d),
              mr_e820_ext_attr = 1, mr_uefi_attr = Attribute d \<rparr>])"

definition blk_ranges :: "u64 \<Rightarrow> blk_info \<Rightarrow> bdat_mem_range list" where
  "blk_ranges attr b =
     [our_range (blk_start b) (blk_end b - blk_start b) E820_RAM attr,
      our_range (blk_end b) (blk_orig_end b - blk_end b) E820_RESERVED attr]"

definition our_ranges :: "bmem_state \<Rightarrow> bdat_mem_range list" where
  "our_ranges s =
     our_range 0 (runtime_bmem_top s) E820_RAM (bmem_uefi_attr s) #
     concat (map (blk_ranges (bmem_uefi_attr s)) (filter (\<lambda>b. runtime_bmem_top s \<le> blk_start b) (live s)))"

lemma nonempty_append [simp]: "nonempty (xs @ ys) = nonempty xs @ nonempty ys"
  and nonempty_nil [simp]: "nonempty [] = []"
  by (simp_all add: nonempty_def)

lemma nonempty_Cons: "nonempty (x # xs) = nonempty [x] @ nonempty xs"
  by (simp add: nonempty_def)

lemma appends_step:
  assumes "appends st ns (nonempty [r]) st1 new" and "\<exists>new'. appends st1 (ns @ new) (nonempty rs) st' new'"
  shows "\<exists>new'. appends st ns (nonempty (r # rs)) st' new'"
  using assms appends_trans [OF assms(1)] unfolding nonempty_Cons [of r rs] by blast

lemma appends_rep: "appends st ns rs st' new \<Longrightarrow> bparm_rep st' (ns @ new)"
  by (simp add: appends_def)

lemma add_uefi_mem_bparms_appends:
  "bparm_rep st ns \<Longrightarrow> add_uefi_mem_bparms st ds = Inr st' \<Longrightarrow>
     \<exists>new. appends st ns (nonempty (concat (map uefi_range ds))) st' new"
proof (induction ds arbitrary: st ns)
  case Nil
  then show ?case using appends_nil by auto
next
  case (Cons d ds)
  show ?case
  proof (cases "unat (PhysicalStart d) < 0x100000 \<and> \<not> is_boot_or_free_type (Type d)")
    case False
    then have "add_uefi_mem_bparms st ds = Inr st'"
      using Cons.prems(2)
      by (auto simp: Let_def BMEM_MAX_ADDR_def word_le_nat_alt uefi_e820_type_def split: if_split_asm)
    moreover have "uefi_range d = []" using False by (auto simp: uefi_range_def)
    ultimately show ?thesis using Cons.IH [OF Cons.prems(1)] by simp
  next
    case True
    have "uefi_e820_type (Type d) \<noteq> None" using True by (simp add: uefi_e820_type_def)
    then obtain t where t: "uefi_e820_type (Type d) = Some t" by blast
    have lo: "\<not> BMEM_MAX_ADDR \<le> PhysicalStart d" using True by (simp add: BMEM_MAX_ADDR_def word_le_nat_alt)
    obtain r where r: "uefi_range d = [r]" using True by (simp add: uefi_range_def)
    have "r = \<lparr> mr_start = PhysicalStart d,
        mr_len = if NumberOfPages d * ucast EFI_PAGE_SIZE > BMEM_MAX_ADDR - PhysicalStart d
          then BMEM_MAX_ADDR - PhysicalStart d else NumberOfPages d * ucast EFI_PAGE_SIZE,
        mr_e820_type = t, mr_e820_ext_attr = 1, mr_uefi_attr = Attribute d \<rparr>"
      using r True t by (auto simp: uefi_range_def min_def BMEM_MAX_ADDR_def EFI_PAGE_SIZE_def)
    then have "add_uefi_mem_bparms st (d # ds) =
        bindr (bparm_add_mem_range st r) (\<lambda>(_, st'). add_uefi_mem_bparms st' ds)"
      using lo t by (simp add: Let_def)
    then obtain p st1 where add: "bparm_add_mem_range st r = Inr (p, st1)"
      and rest: "add_uefi_mem_bparms st1 ds = Inr st'"
      using Cons.prems(2) by (auto simp: res_simps)
    obtain new where new: "appends st ns (nonempty [r]) st1 new"
      using add_mem_range_appends [OF Cons.prems(1) add] by blast
    then show ?thesis
      using appends_step [OF new Cons.IH [OF appends_rep [OF new] rest]] r by simp
  qed
qed

lemma add_ext_mem_bparms_appends:
  "bparm_rep st ns \<Longrightarrow> add_ext_mem_bparms st ds = Inr st' \<Longrightarrow>
     \<exists>new. appends st ns (nonempty (concat (map ext_range ds))) st' new"
proof (induction ds arbitrary: st ns)
  case Nil
  then show ?case using appends_nil by auto
next
  case (Cons d ds)
  let ?e = "PhysicalStart d + NumberOfPages d * 4096"
  show ?case
  proof (cases "0 < ?e \<and> ?e \<le> 0x100000")
    case True
    then have "add_ext_mem_bparms st ds = Inr st'" and "ext_range d = []"
      using Cons.prems(2)
      by (auto simp: Let_def ext_range_def BMEM_MAX_ADDR_def EFI_PAGE_SIZE_def word_gt_0)
    then show ?thesis using Cons.IH [OF Cons.prems(1)] by simp
  next
    case False
    then obtain r where r: "ext_range d = [r]" by (auto simp: ext_range_def Let_def)
    obtain e where e: "e = ?e" by simp
    have "add_ext_mem_bparms st (d # ds) =
        bindr (bparm_add_mem_range st r) (\<lambda>(_, st'). add_ext_mem_bparms st' ds)"
      using r False
      by (auto simp: Let_def ext_range_def BMEM_MAX_ADDR_def EFI_PAGE_SIZE_def max_def not_le word_gt_0
          simp flip: e split: if_split_asm)
    then obtain p st1 where add: "bparm_add_mem_range st r = Inr (p, st1)"
      and rest: "add_ext_mem_bparms st1 ds = Inr st'"
      using Cons.prems(2) by (auto simp: res_simps)
    obtain new where new: "appends st ns (nonempty [r]) st1 new"
      using add_mem_range_appends [OF Cons.prems(1) add] by blast
    then show ?thesis
      using appends_step [OF new Cons.IH [OF appends_rep [OF new] rest]] r by simp
  qed
qed

subsection \<open>The blocks above the watermark\<close>

lemma starts_sorted:
  assumes "bmem_wf s" and "i \<le> j" and "j < num_blks s"
  shows "blk_start (live s ! i) \<le> blk_start (live s ! j)"
proof (cases "i = j")
  case False
  then have lt: "i < j" using assms(2) by simp
  have len: "length (live s) = num_blks s" using assms(1) by (simp add: live_def bmem_wf_def)
  have "blk_orig_end (live s ! i) \<le> blk_start (live s ! j)"
    using blks_wf_order [OF bmem_wfD [OF assms(1)] lt] len assms(3) by simp
  moreover have "blk_ok (runtime_bmem_top s) (live s ! i)"
    using blks_wf_nth [OF bmem_wfD [OF assms(1)], of i] len lt assms(3) by simp
  ultimately show ?thesis unfolding blk_ok_def by (meson order_trans)
qed simp

lemma drop_eq_filter:
  "\<forall>x\<in>set (take k xs). \<not> P x \<Longrightarrow> \<forall>x\<in>set (drop k xs). P x \<Longrightarrow> drop k xs = filter P xs"
  using filter_append [of P "take k xs" "drop k xs"] by (simp add: filter_True filter_False)

lemma skip_blks_ok:
  assumes wf: "bmem_wf s"
  shows "idx \<le> num_blks s \<Longrightarrow> \<forall>j<idx. blk_start (live s ! j) < runtime_bmem_top s \<Longrightarrow>
    \<exists>k. skip_blks s idx = Inr k \<and> k \<le> num_blks s \<and>
      drop k (live s) = filter (\<lambda>b. runtime_bmem_top s \<le> blk_start b) (live s)"
proof (induction "num_blks s - idx" arbitrary: idx rule: less_induct)
  case less
  have len: "length (live s) = num_blks s" using wf by (simp add: live_def bmem_wf_def)
  note unf = skip_blks.simps [of s idx]
  show ?case
  proof (cases "idx < num_blks s \<and> blk_start (live s ! idx) < runtime_bmem_top s")
    case True
    have "skip_blks s idx = skip_blks s (Suc idx)"
      using unf True live_nth [OF wf, of idx] wf by (simp add: bmem_wf_def)
    moreover have "num_blks s - Suc idx < num_blks s - idx" "Suc idx \<le> num_blks s" using True by auto
    ultimately show ?thesis using less.hyps [of "Suc idx"] True less.prems(2) by (simp add: less_Suc_eq)
  next
    case False
    have "skip_blks s idx = Inr idx"
      using unf False live_nth [OF wf, of idx] wf by (auto simp: bmem_wf_def)
    moreover have "drop idx (live s) = filter (\<lambda>b. runtime_bmem_top s \<le> blk_start b) (live s)"
    proof (rule drop_eq_filter)
      show "\<forall>x\<in>set (take idx (live s)). \<not> runtime_bmem_top s \<le> blk_start x"
        using less.prems len by (auto simp: in_set_conv_nth not_le)
      show "\<forall>x\<in>set (drop idx (live s)). runtime_bmem_top s \<le> blk_start x"
      proof
        fix x assume "x \<in> set (drop idx (live s))"
        then obtain j where j: "x = live s ! (idx + j)" "idx + j < num_blks s"
          using len by (auto simp: in_set_conv_nth)
        then show "runtime_bmem_top s \<le> blk_start x"
          using False starts_sorted [OF wf, of idx "idx + j"] by (auto simp: not_less intro: order_trans)
      qed
    qed
    ultimately show ?thesis using less.prems(1) by blast
  qed
qed

lemma kept_drop:
  assumes "kept s s'" and "num_blks s' = num_blks s"
    and "\<forall>b\<in>set (drop k (live s)). runtime_bmem_top s \<le> blk_start b"
  shows "drop k (live s') = drop k (live s)"
proof -
  have "list_all2 (same_above (runtime_bmem_top s)) (drop k (live s)) (drop k (live s'))"
    using assms(1,2) by (simp add: kept_def list_all2_dropI)
  then show ?thesis using assms(3) by induction (auto simp: same_above_def)
qed

lemma add_our_blks_appends:
  "bparm_rep st ns \<Longrightarrow> add_our_blks st idx = Inr st' \<Longrightarrow>
    \<exists>rs new. appends st ns (nonempty rs) st' new \<and>
      (num_blks (bmem st') = num_blks (bmem st) \<longrightarrow>
       (\<forall>b\<in>set (drop idx (live (bmem st))). runtime_bmem_top (bmem st) \<le> blk_start b) \<longrightarrow>
       rs = concat (map (blk_ranges (bmem_uefi_attr (bmem st))) (drop idx (live (bmem st)))))"
proof (induction "num_blks (bmem st) - idx" arbitrary: st ns idx rule: less_induct)
  case less
  let ?s = "bmem st"
  have wf: "bmem_wf ?s" using less.prems(1) by (simp add: bparm_rep_def)
  have len: "length (live ?s) = num_blks ?s" using wf by (simp add: live_def bmem_wf_def)
  note unf = add_our_blks.simps [of st idx]
  show ?case
  proof (cases "idx < num_blks ?s")
    case False
    then show ?thesis using unf less.prems appends_nil [OF less.prems(1)] len
      by - (rule exI [of _ "[]"], auto)
  next
    case True
    define b where "b = live ?s ! idx"
    have get: "arr_get (blk ?s) idx = Inr b"
      using live_nth [OF wf True] wf True by (simp add: b_def bmem_wf_def)
    obtain p1 st1 p2 st2 where
      a1: "bparm_add_mem_range st (our_range (blk_start b) (blk_end b - blk_start b) E820_RAM (bmem_uefi_attr ?s)) = Inr (p1, st1)"
      and a2: "bparm_add_mem_range st1 (our_range (blk_end b) (blk_orig_end b - blk_end b) E820_RESERVED (bmem_uefi_attr (bmem st1))) = Inr (p2, st2)"
      and rest: "add_our_blks st2 (Suc idx) = Inr st'"
      using less.prems(2) True get unfolding unf by (auto simp: res_simps)
    obtain n1 where n1: "appends st ns (nonempty [our_range (blk_start b) (blk_end b - blk_start b) E820_RAM (bmem_uefi_attr ?s)]) st1 n1"
      using add_mem_range_appends [OF less.prems(1) a1] by blast
    obtain n2 where n2: "appends st1 (ns @ n1) (nonempty [our_range (blk_end b) (blk_orig_end b - blk_end b) E820_RESERVED (bmem_uefi_attr (bmem st1))]) st2 n2"
      using add_mem_range_appends [OF appends_rep [OF n1] a2] by blast
    have "bmem_uefi_attr (bmem st1) = bmem_uefi_attr ?s" using n1 by (simp add: appends_def kept_def)
    then have step: "appends st ns (nonempty (blk_ranges (bmem_uefi_attr ?s) b)) st2 (n1 @ n2)"
      using appends_trans [OF n1 n2] unfolding blk_ranges_def
      by (subst nonempty_Cons) simp
    then have k: "kept ?s (bmem st2)" by (simp add: appends_def)
    have "num_blks (bmem st2) \<le> num_blks ?s" using k by (simp add: kept_def)
    then have "num_blks (bmem st2) - Suc idx < num_blks ?s - idx" using True by linarith
    from less.hyps [OF this appends_rep [OF step] rest]
    obtain rs new where n3: "appends st2 (ns @ n1 @ n2) (nonempty rs) st' new"
      and rs: "num_blks (bmem st') = num_blks (bmem st2) \<Longrightarrow>
        \<forall>b\<in>set (drop (Suc idx) (live (bmem st2))). runtime_bmem_top (bmem st2) \<le> blk_start b \<Longrightarrow>
        rs = concat (map (blk_ranges (bmem_uefi_attr (bmem st2))) (drop (Suc idx) (live (bmem st2))))"
      by auto
    have "appends st ns (nonempty (blk_ranges (bmem_uefi_attr ?s) b @ rs)) st' ((n1 @ n2) @ new)"
      using appends_trans [OF step] n3 by simp
    moreover have "blk_ranges (bmem_uefi_attr ?s) b @ rs = concat (map (blk_ranges (bmem_uefi_attr ?s)) (drop idx (live ?s)))"
      if same: "num_blks (bmem st') = num_blks ?s"
        and above: "\<forall>b\<in>set (drop idx (live ?s)). runtime_bmem_top ?s \<le> blk_start b"
    proof -
      have d: "drop idx (live ?s) = b # drop (Suc idx) (live ?s)"
        using True len by (simp add: b_def Cons_nth_drop_Suc)
      have num: "num_blks (bmem st2) = num_blks ?s" using same k n3 by (simp add: appends_def kept_def)
      have "drop (Suc idx) (live (bmem st2)) = drop (Suc idx) (live ?s)"
        using above d by (intro kept_drop [OF k num]) simp
      then show ?thesis using rs same num above d k by (simp add: kept_def)
    qed
    ultimately show ?thesis by blast
  qed
qed

lemma add_our_mem_bparms_appends:
  assumes rep: "bparm_rep st ns" and eq: "add_our_mem_bparms st = Inr st'"
  shows "\<exists>rs new. appends st ns (nonempty (our_range 0 (runtime_bmem_top (bmem st)) E820_RAM (bmem_uefi_attr (bmem st)) # rs)) st' new \<and>
    (num_blks (bmem st') = num_blks (bmem st) \<longrightarrow>
     our_range 0 (runtime_bmem_top (bmem st)) E820_RAM (bmem_uefi_attr (bmem st)) # rs = our_ranges (bmem st))"
proof -
  let ?s = "bmem st" and ?P = "\<lambda>b. runtime_bmem_top (bmem st) \<le> blk_start b"
  let ?r = "our_range 0 (runtime_bmem_top ?s) E820_RAM (bmem_uefi_attr ?s)"
  obtain p st1 k where a: "bparm_add_mem_range st ?r = Inr (p, st1)" and k: "skip_blks (bmem st1) 0 = Inr k"
    and rest: "add_our_blks st1 k = Inr st'"
    using eq by (auto simp: add_our_mem_bparms_def res_simps)
  obtain n1 where n1: "appends st ns (nonempty [?r]) st1 n1" using add_mem_range_appends [OF rep a] by blast
  then have kept1: "kept ?s (bmem st1)" and rep1: "bparm_rep st1 (ns @ n1)" by (simp_all add: appends_def)
  have same: "runtime_bmem_top (bmem st1) = runtime_bmem_top ?s" "bmem_uefi_attr (bmem st1) = bmem_uefi_attr ?s"
    using kept1 by (simp_all add: kept_def)
  have "bmem_wf (bmem st1)" using rep1 by (simp add: bparm_rep_def)
  then have d: "drop k (live (bmem st1)) = filter ?P (live (bmem st1))"
    using skip_blks_ok [of "bmem st1" 0] k same by auto
  obtain rs n2 where n2: "appends st1 (ns @ n1) (nonempty rs) st' n2"
    and rs: "num_blks (bmem st') = num_blks (bmem st1) \<Longrightarrow>
      rs = concat (map (blk_ranges (bmem_uefi_attr ?s)) (filter ?P (live (bmem st1))))"
    using add_our_blks_appends [OF rep1 rest] unfolding d same by auto
  have "?r # rs = our_ranges ?s" if "num_blks (bmem st') = num_blks ?s"
  proof -
    have num: "num_blks (bmem st1) = num_blks ?s" using that kept1 n2 by (simp add: appends_def kept_def)
    then show ?thesis using rs that kept_above [OF kept1 num] by (simp add: our_ranges_def)
  qed
  moreover have "\<exists>new. appends st ns (nonempty (?r # rs)) st' new" using appends_step [OF n1] n2 by blast
  ultimately show ?thesis by blast
qed

lemma uefi_kept_our_ranges:
  assumes "kept s s'" and "num_blks s' = num_blks s"
  shows "our_ranges s' = our_ranges s"
  using assms kept_above [OF assms] by (simp add: our_ranges_def kept_def)

text \<open>Rounding the boot-time watermark up and the run-time watermark down.\<close>

lemma round_marks:
  fixes bbot top :: u32
  assumes "unat bbot \<le> 0x100000"
  shows "unat ((bbot + PARA_SIZE - 1) AND - PARA_SIZE :: u32) = (unat bbot + 15) div 16 * 16"
    and "unat (top AND - KIBYTE :: u32) = unat top div 1024 * 1024"
proof -
  have "bbot + PARA_SIZE - 1 AND - PARA_SIZE = bbot + 15 AND - (2 ^ 4)"
    by (simp add: PARA_SIZE_def add.commute)
  moreover have "unat (bbot + 15) = unat bbot + 15"
    using assms unat_add_nowrap [of bbot 15] by simp
  moreover have "top AND - KIBYTE = top AND - (2 ^ 10)" by (simp add: KIBYTE_def)
  ultimately show "unat ((bbot + PARA_SIZE - 1) AND - PARA_SIZE :: u32) = (unat bbot + 15) div 16 * 16"
    and "unat (top AND - KIBYTE :: u32) = unat top div 1024 * 1024"
    using unat_and_neg_exp [of 4 "bbot + 15"] unat_and_neg_exp [of 10 top] by simp_all
qed

lemma bmem_fini_cases:
  assumes rep: "bparm_rep st ns" and eq: "bmem_fini st descs = Inr (bbot, rtop, st')"
  shows "\<exists>rs new st2. appends st ns (nonempty (concat (map uefi_range descs)) @ nonempty rs) st2 new \<and>
    (num_blks (bmem st') = num_blks (bmem st) \<longrightarrow> rs = our_ranges (bmem st)) \<and>
    unat bbot = (unat (boottime_bmem_bot (bmem st2)) + 15) div 16 * 16 \<and>
    unat rtop = unat (runtime_bmem_top (bmem st)) div 1024 * 1024 \<and>
    bmem_check_enough (bmem st') = Inr () \<and> num_blks (bmem st') = num_blks (bmem st2) \<and>
    boottime_bmem_bot (bmem st') = bbot \<and> runtime_bmem_top (bmem st') = rtop \<and>
    memory st' = memory st2 \<and> bp_head st' = bp_head st2"
proof -
  obtain st1 st2 where a1: "add_uefi_mem_bparms st descs = Inr st1" and a2: "add_our_mem_bparms st1 = Inr st2"
    and fin: "bmem_check_enough (bmem st') = Inr ()"
      "bbot = (boottime_bmem_bot (bmem st2) + PARA_SIZE - 1) AND - PARA_SIZE"
      "rtop = runtime_bmem_top (bmem st2) AND - KIBYTE"
      "st' = st2\<lparr> bmem := (bmem st2)\<lparr> boottime_bmem_bot := bbot, runtime_bmem_top := rtop \<rparr> \<rparr>"
    using eq by (auto simp: bmem_fini_def res_simps Let_def)
  obtain n1 where n1: "appends st ns (nonempty (concat (map uefi_range descs))) st1 n1"
    using add_uefi_mem_bparms_appends [OF rep a1] by blast
  obtain rs n2 where n2: "appends st1 (ns @ n1) (nonempty rs) st2 n2"
    and rs: "num_blks (bmem st2) = num_blks (bmem st1) \<longrightarrow> rs = our_ranges (bmem st1)"
    using add_our_mem_bparms_appends [OF appends_rep [OF n1] a2] by blast
  have k1: "kept (bmem st) (bmem st1)" and k2: "kept (bmem st1) (bmem st2)"
    using n1 n2 by (simp_all add: appends_def)
  have "rs = our_ranges (bmem st)" if "num_blks (bmem st') = num_blks (bmem st)"
  proof -
    have "num_blks (bmem st1) = num_blks (bmem st)" "num_blks (bmem st2) = num_blks (bmem st1)"
      using that k1 k2 fin(4) by (auto simp: kept_def)
    then show ?thesis using rs uefi_kept_our_ranges [OF k1] by simp
  qed
  moreover have "unat (boottime_bmem_bot (bmem st2)) \<le> 0x100000"
    using appends_rep [OF n2] by (simp add: bparm_rep_def bmem_wf_def word_le_nat_alt)
  moreover have "runtime_bmem_top (bmem st2) = runtime_bmem_top (bmem st)" using k1 k2 by (simp add: kept_def)
  ultimately show ?thesis
    using appends_trans [OF n1 n2] fin round_marks
    by - (rule exI [of _ rs], rule exI [of _ "n1 @ n2"], rule exI [of _ st2], auto)
qed

subsection \<open>The state handed to stage 2\<close>

definition bmem_node :: "bnode \<Rightarrow> u16 \<Rightarrow> u16 \<Rightarrow> bool" where
  "bmem_node n bot_seg top_seg \<longleftrightarrow> bn_type n = BP_BMEM \<and> bn_data n = le_bytes 2 bot_seg @ le_bytes 2 top_seg"

lemma wr_bdat_bmem_eq: "wr_bdat_bmem m bd x y = put_bytes m bd (le_bytes 2 x @ le_bytes 2 y)"
  by (simp add: wr_bdat_bmem_def wr16_def put_put_append)

lemma hand_over_list:
  assumes rep: "bparm_rep st ns" and eq: "prepare_to_hand_over mm status st = Inr (kib, st')"
  shows "\<exists>descs ext bm base rs (bbot :: u32) rtop. mm = Some descs \<and> bparm_list st' (ns @ ext @ bm # base) \<and>
    list_all2 mrng_node ext (nonempty (concat (map ext_range descs))) \<and>
    bmem_node bm (addr_to_rm_seg (ucast bbot)) (addr_to_rm_seg (ucast rtop)) \<and>
    list_all2 mrng_node base (nonempty (concat (map uefi_range descs)) @ nonempty rs) \<and>
    (num_blks (bmem st') = num_blks (bmem st) \<longrightarrow> rs = our_ranges (bmem st)) \<and>
    16 dvd unat bbot \<and> (\<forall>n\<in>set (ns @ ext @ bm # base). bn_bytes n \<subseteq> {..<unat bbot}) \<and>
    unat rtop = unat (runtime_bmem_top (bmem st)) div 1024 * 1024 \<and>
    unat bbot + 128 * 1024 \<le> unat rtop \<and> kib = rtop div KIBYTE"
proof -
  obtain descs st1 bd st2 bbot rtop st3 where mm: "get_mem_map mm = Inr descs"
    and ext: "add_ext_mem_bparms st descs = Inr st1"
    and add: "bparm_add st1 BP_BMEM sizeof_bdat_bmem = Inr (bd, st2)"
    and fini: "bmem_fini st2 descs = Inr (bbot, rtop, st3)"
    and st': "st' = st3\<lparr> memory := wr_bdat_bmem (memory st3) (unat bd)
        (addr_to_rm_seg (ucast bbot)) (addr_to_rm_seg (ucast rtop)) \<rparr>"
    and kib: "kib = rtop div KIBYTE"
    using eq by (auto simp: prepare_to_hand_over_def res_simps Let_def split: if_split_asm)
  obtain n1 where n1: "appends st ns (nonempty (concat (map ext_range descs))) st1 n1"
    using add_ext_mem_bparms_appends [OF rep ext] by blast
  obtain a where rep2: "bparm_rep st2 ((ns @ n1) @ [\<lparr> bn_addr = a, bn_type = BP_BMEM,
        bn_data = replicate (unat sizeof_bdat_bmem) 0 \<rparr>])" and bd: "unat bd = a + sizeof_bparm"
    using bparm_add_rep [OF appends_rep [OF n1] add] by blast
  let ?n = "\<lparr> bn_addr = a, bn_type = BP_BMEM, bn_data = replicate (unat sizeof_bdat_bmem) 0 \<rparr> :: bnode"
  obtain rs n2 st5 where n2: "appends st2 ((ns @ n1) @ [?n]) (nonempty (concat (map uefi_range descs)) @ nonempty rs) st5 n2"
    and rs: "num_blks (bmem st3) = num_blks (bmem st2) \<longrightarrow> rs = our_ranges (bmem st2)"
    and marks: "unat bbot = (unat (boottime_bmem_bot (bmem st5)) + 15) div 16 * 16"
      "unat rtop = unat (runtime_bmem_top (bmem st2)) div 1024 * 1024"
      "bmem_check_enough (bmem st3) = Inr ()" "boottime_bmem_bot (bmem st3) = bbot" "runtime_bmem_top (bmem st3) = rtop"
    and same: "num_blks (bmem st3) = num_blks (bmem st5)" "memory st3 = memory st5" "bp_head st3 = bp_head st5"
    using bmem_fini_cases [OF rep2 fini] by blast
  let ?m = "memory st'"
  have m: "?m = put_bytes (memory st5) (a + sizeof_bparm)
      (le_bytes 2 (addr_to_rm_seg (ucast bbot)) @ le_bytes 2 (addr_to_rm_seg (ucast rtop)))"
    by (simp add: st' same wr_bdat_bmem_eq bd)
  have "?m i = memory st5 i" if "i \<notin> bn_data_bytes ?n" for i
    using that by (auto simp: m put_bytes_def bn_data_bytes_def sizeof_bdat_bmem_def)
  then have rep5: "bparm_rep (st5\<lparr> memory := ?m \<rparr>) ((ns @ n1) @ filled ?m ?n # n2)"
    using appends_rep [OF n2] by (intro bparm_rep_fill) auto
  then have l: "bparm_list st' (ns @ n1 @ filled ?m ?n # n2)"
    using st' same by (auto simp: bparm_list_def bparm_rep_def)
  have bmn: "bmem_node (filled ?m ?n) (addr_to_rm_seg (ucast bbot)) (addr_to_rm_seg (ucast rtop))"
    by (simp add: bmem_node_def filled_def m sizeof_bdat_bmem_def)
  have "unat (boottime_bmem_bot (bmem st5)) \<le> unat bbot" unfolding marks(1) by linarith
  then have below: "\<forall>n\<in>set (ns @ n1 @ filled ?m ?n # n2). bn_bytes n \<subseteq> {..<unat bbot}"
    using rep5 by (fastforce simp: bparm_rep_def)
  have k1: "kept (bmem st) (bmem st2)"
    using n1 bparm_add_kept [OF appends_rep [OF n1] add] by (auto simp: appends_def intro: kept_trans)
  have k2: "kept (bmem st2) (bmem st5)" using n2 by (simp add: appends_def)
  have "num_blks (bmem st') = num_blks (bmem st) \<longrightarrow> rs = our_ranges (bmem st)"
  proof
    assume "num_blks (bmem st') = num_blks (bmem st)"
    then have "num_blks (bmem st2) = num_blks (bmem st)" "num_blks (bmem st3) = num_blks (bmem st2)"
      using k1 k2 same(1) st' by (auto simp: kept_def)
    then show "rs = our_ranges (bmem st)" using rs uefi_kept_our_ranges [OF k1] by simp
  qed
  moreover have "unat rtop = unat (runtime_bmem_top (bmem st)) div 1024 * 1024"
    using marks(2) k1 by (simp add: kept_def)
  moreover have "unat bbot + 128 * 1024 \<le> unat rtop" using bmem_check_enough_Inr(2) [OF marks(3)] marks(4,5) by simp
  moreover have "mm = Some descs" using mm by (auto simp: get_mem_map_def split: option.splits if_split_asm)
  moreover have "16 dvd unat bbot" using marks(1) by simp
  ultimately show ?thesis
    using l bmn below n1 n2 kib
    by - (rule exI [of _ descs], rule exI [of _ n1], rule exI [of _ "filled ?m ?n"], rule exI [of _ n2], rule exI [of _ rs], rule exI [of _ bbot], rule exI [of _ rtop], simp add: appends_def)
qed

subsection \<open>Properties\<close>

text \<open>
  C9. The contract of the hand-over. When \<^verbatim>\<open>prepare_to_hand_over\<close> succeeds, the list in memory
  consists of the parameters added before, then one \<^verbatim>\<open>MRNG\<close> node per non-empty range of
  extended memory in the order of the memory map, then a \<^verbatim>\<open>BMEM\<close> node with two real-mode
  segments, then the ranges of base memory. The segments delimit a scratch area of at least
  128 KiB; every boot parameter lies below it, its top is the run-time watermark rounded down
  to a KiB, and the KiB count passed on is that top.
\<close>

theorem hand_over_contract:
  assumes "bparm_rep st ns" and "runtime_bmem_top (bmem st) < 0x100000"
    and "prepare_to_hand_over mm status st = Inr (kib, st')"
  shows "\<exists>descs ext bm base bot_seg top_seg. mm = Some descs \<and> bparm_list st' (ns @ ext @ bm # base) \<and>
    list_all2 mrng_node ext (nonempty (concat (map ext_range descs))) \<and> bmem_node bm bot_seg top_seg \<and>
    (\<forall>n\<in>set (ns @ ext @ bm # base). bn_bytes n \<subseteq> {..<16 * unat bot_seg}) \<and>
    16 * unat bot_seg + 128 * 1024 \<le> 16 * unat top_seg \<and>
    16 * unat top_seg = unat (runtime_bmem_top (bmem st)) div 1024 * 1024 \<and>
    1024 * unat kib = 16 * unat top_seg"
proof -
  obtain descs ext bm base rs and bbot :: u32 and rtop where l: "mm = Some descs" "bparm_list st' (ns @ ext @ bm # base)"
    "list_all2 mrng_node ext (nonempty (concat (map ext_range descs)))"
    "bmem_node bm (addr_to_rm_seg (ucast bbot)) (addr_to_rm_seg (ucast rtop))"
    and below: "\<forall>n\<in>set (ns @ ext @ bm # base). bn_bytes n \<subseteq> {..<unat bbot}"
    and marks: "16 dvd unat bbot" "unat rtop = unat (runtime_bmem_top (bmem st)) div 1024 * 1024"
      "unat bbot + 128 * 1024 \<le> unat rtop" "kib = rtop div KIBYTE"
    using hand_over_list [OF assms(1,3)] by blast
  have lt: "unat (runtime_bmem_top (bmem st)) < 0x100000" using assms(2) by (simp add: word_less_nat_alt)
  have top: "unat rtop < 0x100000" using marks(2) lt by linarith
  have bot: "unat bbot < 0x100000" using marks(3) top by linarith
  have "16 dvd unat rtop" unfolding marks(2) by (rule dvd_mult) simp
  then have top_seg: "16 * unat (addr_to_rm_seg (ucast rtop)) = unat rtop"
    using top by (simp add: unat_addr_to_rm_seg)
  have bot_seg: "16 * unat (addr_to_rm_seg (ucast bbot)) = unat bbot"
    using marks(1) unat_addr_to_rm_seg [of "ucast bbot"] bot by simp
  have "1024 * unat kib = unat rtop"
    unfolding marks(4) using marks(2) by (simp add: unat_div_distrib KIBYTE_def)
  then show ?thesis using l below marks(2,3) top_seg bot_seg
    by - (rule exI [of _ descs], rule exI [of _ ext], rule exI [of _ bm], rule exI [of _ base], rule exI [of _ "addr_to_rm_seg (ucast bbot)"], rule exI [of _ "addr_to_rm_seg (ucast rtop)"], simp)
qed

text \<open>
  The base memory reported: unless the parameters used up a block of the table exactly,
  the nodes after the \<^verbatim>\<open>BMEM\<close> node are the ranges that UEFI keeps reserved below 1 MiB, the area
  from 0 to the run-time watermark as RAM, and for every block above the watermark its
  remaining part as RAM and its allocated part as reserved, empty ranges left out.
\<close>

lemma hand_over_base_memory:
  assumes "bparm_rep st ns" and "prepare_to_hand_over mm status st = Inr (kib, st')"
    and "num_blks (bmem st') = num_blks (bmem st)"
  shows "\<exists>descs before base. mm = Some descs \<and> bparm_list st' (before @ base) \<and>
    list_all2 mrng_node base (nonempty (concat (map uefi_range descs)) @ nonempty (our_ranges (bmem st)))"
proof -
  obtain descs ext bm base rs where l: "mm = Some descs" "bparm_list st' (ns @ ext @ bm # base)"
    "list_all2 mrng_node base (nonempty (concat (map uefi_range descs)) @ nonempty rs)"
    and "num_blks (bmem st') = num_blks (bmem st) \<longrightarrow> rs = our_ranges (bmem st)"
    using hand_over_list [OF assms(1,2)] by blast
  then have "rs = our_ranges (bmem st)" using assms(3) by blast
  then show ?thesis
    using l by - (rule exI [of _ descs], rule exI [of _ "ns @ ext @ [bm]"], rule exI [of _ base], simp)
qed

subsection \<open>Witnesses\<close>

text \<open>
  The memory map lists the pages that \<^verbatim>\<open>bmem_init\<close> took, as \<^verbatim>\<open>EfiRuntimeServicesData\<close>.
\<close>

definition hand_over_map :: "mem_desc list" where
  "hand_over_map =
     [\<lparr> Type = 6, PhysicalStart = 0x1000, NumberOfPages = 0x9e, Attribute = 0xf \<rparr>,
      \<lparr> Type = 0, PhysicalStart = 0x9f000, NumberOfPages = 1, Attribute = 0xf \<rparr>,
      \<lparr> Type = 6, PhysicalStart = 0xe0000, NumberOfPages = 1, Attribute = 0xf \<rparr>,
      \<lparr> Type = 7, PhysicalStart = 0x100000, NumberOfPages = 0x100, Attribute = 0xf \<rparr>]"

lemma hand_over_ex:
  "\<exists>kib st'. prepare_to_hand_over (Some hand_over_map) 0 bparm_ex = Inr (kib, st') \<and>
     num_blks (bmem st') = num_blks (bmem bparm_ex)"
  by (simp add: prepare_to_hand_over_def get_mem_map_def hand_over_map_def bparm_ex_def bmem_ex_def
      bmem_alloc_boottime_def bmem_alloc_boottime_from.simps bparm_add_def bparm_add_mem_range_def Let_def
      bmem_fini_def add_our_mem_bparms_def add_our_blks.simps skip_blks.simps our_range_def
      uefi_e820_type_def is_boot_or_free_type_def EfiLoaderCode_def EfiLoaderData_def EfiBootServicesCode_def
      EfiBootServicesData_def EfiConventionalMemory_def EfiACPIReclaimMemory_def EfiACPIMemoryNVS_def
      EfiPersistentMemory_def EfiPalCode_def BMEM_MAX_ADDR_def EFI_PAGE_SIZE_def sizeof_bparm_def
      sizeof_mem_range_def sizeof_bdat_bmem_def bmem_check_enough_def KIBYTE_def PARA_SIZE_def EFI_ERROR_def)
theorem hand_over_contract_witness:
  "bparm_rep bparm_ex [] \<and> runtime_bmem_top (bmem bparm_ex) < 0x100000 \<and>
   (\<exists>kib st' bot_seg top_seg. prepare_to_hand_over (Some hand_over_map) 0 bparm_ex = Inr (kib, st') \<and>
      16 * unat (bot_seg :: u16) + 128 * 1024 \<le> 16 * unat (top_seg :: u16) \<and>
      1024 * unat kib = 16 * unat top_seg)"
proof -
  have top: "runtime_bmem_top (bmem bparm_ex) < 0x100000" by (simp add: bparm_ex_def bmem_ex_def)
  obtain kib st' where "prepare_to_hand_over (Some hand_over_map) 0 bparm_ex = Inr (kib, st')"
    using hand_over_ex by blast
  then show ?thesis
    using bparm_ex_rep top hand_over_contract [OF bparm_ex_rep top, of "Some hand_over_map" 0 kib st'] by blast
qed

subsection \<open>A block can be skipped\<close>

text \<open>Three blocks: 96 bytes at 4 KiB, and two blocks above the watermark.\<close>

definition skip_blk_tail :: "blk_info list" where
  "skip_blk_tail = replicate 125 \<lparr> blk_start = 0, blk_end = 0, blk_orig_end = 0 \<rparr>"

definition skip_ex :: bparm_state where
  "skip_ex = \<lparr> bmem = \<lparr> num_blks = Suc (Suc (Suc 0)),
       blk = [\<lparr> blk_start = 0x1000, blk_end = 0x1060, blk_orig_end = 0x2000 \<rparr>,
              \<lparr> blk_start = 0xc0000, blk_end = 0xc1000, blk_orig_end = 0xc1000 \<rparr>,
              \<lparr> blk_start = 0xe0000, blk_end = 0xe1000, blk_orig_end = 0xe1000 \<rparr>] @ skip_blk_tail,
       boottime_bmem_bot = 0x1000, runtime_bmem_top = 0x9f000, bmem_uefi_attr = 8 \<rparr>,
     memory = (\<lambda>_. 0), bp_head = 0, bp_tail = 0 \<rparr>"

lemma skip_ex_rep: "bparm_rep skip_ex []"
  by (simp add: bparm_rep_def skip_ex_def bmem_wf_def live_def blks_wf_def blk_ok_def blk_before_def
      MAX_BMEM_BLKS_def EFI_PAGE_SIZE_def skip_blk_tail_def)

lemma skip_ex_run:
  "\<exists>p1 st1 p2 st2. bparm_add_mem_range skip_ex (our_range 0 0x9f000 E820_RAM 8) = Inr (p1, st1) \<and>
     bparm_add_mem_range st1 (our_range 0xc0000 0x1000 E820_RAM 8) = Inr (p2, st2) \<and>
     add_our_mem_bparms skip_ex = Inr st2"
  by (simp add: skip_ex_def bmem_alloc_boottime_def bmem_alloc_boottime_from.simps bparm_add_def
      bparm_add_mem_range_def Let_def add_our_mem_bparms_def add_our_blks.simps skip_blks.simps our_range_def
      sizeof_bparm_def sizeof_mem_range_def blk_shift.simps)

text \<open>
  \<^verbatim>\<open>add_our_mem_bparms\<close> can leave out a block: it allocates the nodes from the table it
  walks over, and when a node uses up a lower block exactly, the table closes up and the loop
  steps over the next block. From a state that satisfies all invariants the function returns
  normally with two nodes although three non-empty ranges are to be reported; the block at
  0xe0000 is missing.
\<close>

lemma add_our_mem_bparms_skips_block:
  "bparm_rep skip_ex [] \<and> length (nonempty (our_ranges (bmem skip_ex))) = 3 \<and>
   (\<exists>st' n1 n2. add_our_mem_bparms skip_ex = Inr st' \<and> bparm_list st' [n1, n2] \<and>
      \<not> (\<exists>new. bparm_list st' new \<and> list_all2 mrng_node new (nonempty (our_ranges (bmem skip_ex)))))"
proof -
  have three: "length (nonempty (our_ranges (bmem skip_ex))) = 3"
    by (simp add: nonempty_def our_ranges_def skip_ex_def live_def blk_ranges_def our_range_def)
  obtain p1 st1 p2 st2 where r1: "bparm_add_mem_range skip_ex (our_range 0 0x9f000 E820_RAM 8) = Inr (p1, st1)"
    and r2: "bparm_add_mem_range st1 (our_range 0xc0000 0x1000 E820_RAM 8) = Inr (p2, st2)"
    and run: "add_our_mem_bparms skip_ex = Inr st2" using skip_ex_run by blast
  obtain n1 where "bparm_rep st1 ([] @ [n1])"
    using bparm_add_mem_range_rep [OF skip_ex_rep _ r1] by (auto simp: our_range_def)
  then obtain n2 where "bparm_rep st2 (([] @ [n1]) @ [n2])"
    using bparm_add_mem_range_rep [OF _ _ r2] by (fastforce simp: our_range_def)
  then have l: "bparm_list st2 [n1, n2]" using bparm_rep_list by fastforce
  have "\<not> list_all2 mrng_node new (nonempty (our_ranges (bmem skip_ex)))" if "bparm_list st2 new" for new
    using bparm_list_unique [OF l that] three by (auto dest: list_all2_lengthD)
  then show ?thesis using run l three skip_ex_rep by blast
qed

end
