(* ===== verification/Mem_Map_Init.thy ===== *)
theory Mem_Map_Init
  imports Mem_Map Handover
begin

text \<open>
  Building the memory map of stage 2, \<^verbatim>\<open>mem_map_init\<close> of \<^verbatim>\<open>stage2/mem.c\<close>: three walks over
  the boot parameters count the ranges, choose the highest suitable range of RAM to hold the
  map, and copy the ranges out, cutting the space of the map from the chosen one; then the
  map is sorted. The lemmas follow the contents of the map from the boot parameters in memory
  and show that ranges that overlap below 1 MiB only, and not as RAM, give a map with the allocator's
  invariant. What stage 1 reports is such a list: of base memory the pages that stage 1 took are in it
  twice.
\<close>

unbundle bit_operations_syntax

subsection \<open>The function\<close>

definition is_mrng :: "mem \<Rightarrow> nat \<Rightarrow> bool" where
  "is_mrng m bp \<longleftrightarrow> rd32 m (bp + 8) = BP_MRNG"

text \<open>The data of a node, \<^verbatim>\<open>&bp->u->mem_range\<close>.\<close>

definition bdmr_of :: "nat \<Rightarrow> nat" where "bdmr_of bp = bp + sizeof_bparm"

definition sizeof_mem_range_t :: u32 where "sizeof_mem_range_t = 32"

definition count_body :: "mem \<Rightarrow> u32 \<Rightarrow> nat \<Rightarrow> u32 res" where
  "count_body m mmr bp =
     Inr (if is_mrng m bp \<and> mr_len (rd_mem_range m (bdmr_of bp)) \<noteq> 0 then mmr + 1 else mmr)"

text \<open>\<open>None\<close> is a null \<^verbatim>\<open>bdmr_chosen\<close>.\<close>

definition choose_body :: "mem \<Rightarrow> u32 \<Rightarrow> nat option \<Rightarrow> nat \<Rightarrow> nat option res" where
  "choose_body m need chosen bp =
     (if \<not> is_mrng m bp then Inr chosen
      else
        let bdmr = bdmr_of bp; r = rd_mem_range m bdmr; start = mr_start r; len = mr_len r in
        if mr_e820_type r \<noteq> E820_RAM \<or> start \<ge> XM32_MAX_ADDR \<or> len > XM32_MAX_ADDR - start \<or> len < ucast need
        then Inr chosen
        else case chosen of
               None \<Rightarrow> Inr (Some bdmr)
             | Some c \<Rightarrow> if start > mr_start (rd_mem_range m c) then Inr (Some bdmr) else Inr chosen)"

definition to_range :: "bdat_mem_range \<Rightarrow> mem_range" where
  "to_range r = \<lparr> rg_start = mr_start r, rg_len = mr_len r, rg_e820_type = mr_e820_type r,
     rg_e820_ext_attr = mr_e820_ext_attr r, rg_uefi_attr = mr_uefi_attr r \<rparr>"

text \<open>\<^verbatim>\<open>mr\<close> points to entry \<^verbatim>\<open>nmr\<close> throughout, so one index stands for both.\<close>

definition copy_body :: "mem \<Rightarrow> u32 \<Rightarrow> nat \<Rightarrow> u32 \<Rightarrow> mem_range list \<times> u32 \<Rightarrow> nat \<Rightarrow> (mem_range list \<times> u32) res" where
  "copy_body m need chosen mrs_addr acc bp =
     (let (mrs, nmr) = acc; bdmr = bdmr_of bp; r = rd_mem_range m bdmr in
      if \<not> is_mrng m bp then Inr acc
      else if mr_len r = 0 then Inr acc
      else if bdmr = chosen then
        let len = mr_len r - ucast need in
        bindr (arr_set mrs (unat nmr) ((to_range r)\<lparr> rg_len := len \<rparr>)) (\<lambda>mrs1.
          let nmr1 = (if len \<noteq> 0 then nmr + 1 else nmr) in
          bindr (arr_set mrs1 (unat nmr1) ((to_range r)\<lparr> rg_start := ucast mrs_addr, rg_len := ucast need,
                   rg_e820_type := E820_RESERVED \<rparr>)) (\<lambda>mrs2. Inr (mrs2, nmr1 + 1)))
      else bindr (arr_set mrs (unat nmr) (to_range r)) (\<lambda>mrs1. Inr (mrs1, nmr + 1)))"

text \<open>\<open>raw i\<close> is what entry \<open>i\<close> of the space for the map holds before.\<close>

definition mem_map_init :: "mem \<Rightarrow> (nat \<Rightarrow> mem_range) \<Rightarrow> u32 \<Rightarrow> mem_map res option" where
  "mem_map_init m raw bparms =
     bindo (for_each_bparm m (count_body m) bparms 1) (\<lambda>cnt.
       let mmr0 = (3 * cnt + 1) div 2;
           mmr = (if mmr0 < 16 then 16 else mmr0);
           e820_need_space = mmr * sizeof_mem_range_t
       in bindo (for_each_bparm m (choose_body m e820_need_space) bparms None) (\<lambda>ch.
            case ch of
              None \<Rightarrow> Some (Inl Hlt)
            | Some bdmr \<Rightarrow>
                let r = rd_mem_range m bdmr;
                    mrs_addr = ucast (mr_start r + mr_len r - ucast e820_need_space) :: u32
                in bindo (for_each_bparm m (copy_body m e820_need_space bdmr mrs_addr) bparms
                            (map raw [0..<unat mmr], 0)) (\<lambda>(mrs, nmr).
                   bindo (shellsort mrs nmr) (\<lambda>mrs'.
                   Some (Inr \<lparr> mem_ranges = mrs', num_mem_ranges = nmr, max_mem_ranges = mmr \<rparr>)))))"

subsection \<open>The boot parameters as ranges\<close>

text \<open>The non-empty ranges of the list with the addresses of their data.\<close>

fun mrngs :: "mem \<Rightarrow> bnode list \<Rightarrow> (nat \<times> bdat_mem_range) list" where
  "mrngs m [] = []"
| "mrngs m (n # ns) =
     (let r = rd_mem_range m (bdmr_of (bn_addr n)) in
      (if is_mrng m (bn_addr n) \<and> mr_len r \<noteq> 0 then [(bdmr_of (bn_addr n), r)] else []) @ mrngs m ns)"

lemma fold_count:
  "fold_nodes (count_body m) c ns = Inr (c + word_of_nat (length (mrngs m ns)))"
  by (induction ns arbitrary: c) (auto simp: count_body_def Let_def)

text \<open>There is room for fewer than 65537 nodes below 1 MiB.\<close>

lemma nodes_ok_card:
  "nodes_ok m ns \<Longrightarrow> 16 * length ns \<le> card (\<Union>n\<in>set ns. bn_bytes n)"
proof (induction ns)
  case (Cons n ns)
  have "finite (\<Union>k\<in>set ns. bn_bytes k)" by (simp add: bn_bytes_def)
  moreover have "bn_bytes n \<inter> (\<Union>k\<in>set ns. bn_bytes k) = {}" using Cons.prems by auto
  ultimately have "card (bn_bytes n \<union> (\<Union>k\<in>set ns. bn_bytes k)) = card (bn_bytes n) + card (\<Union>k\<in>set ns. bn_bytes k)"
    by (intro card_Un_disjoint) (simp_all add: bn_bytes_def)
  then show ?case using Cons by (simp add: bn_bytes_def sizeof_bparm_def)
qed simp

lemma nodes_ok_length:
  assumes "nodes_ok m ns"
  shows "length ns \<le> 65536"
proof -
  have "(\<Union>n\<in>set ns. bn_bytes n) \<subseteq> {..<0x100000}"
    using nodes_ok_nth [OF assms] by (fastforce simp: node_ok_def bn_bytes_def)
  then have "card (\<Union>n\<in>set ns. bn_bytes n) \<le> card {..<0x100000::nat}" by (intro card_mono) simp_all
  then show ?thesis using nodes_ok_card [OF assms] by simp
qed

lemma mrngs_length: "length (mrngs m ns) \<le> length ns"
  by (induction ns) (auto simp: Let_def)

subsection \<open>Choosing the range for the map\<close>

definition eligible :: "u32 \<Rightarrow> bdat_mem_range \<Rightarrow> bool" where
  "eligible need r \<longleftrightarrow> mr_e820_type r = E820_RAM \<and> unat (mr_start r) < 2 ^ 32 \<and>
     unat (mr_start r) + unat (mr_len r) \<le> 2 ^ 32 \<and> unat need \<le> unat (mr_len r)"

lemma eligible_test:
  "\<not> (mr_e820_type r \<noteq> E820_RAM \<or> mr_start r \<ge> XM32_MAX_ADDR \<or> mr_len r > XM32_MAX_ADDR - mr_start r \<or>
      mr_len r < ucast need) \<longleftrightarrow> eligible need r"
proof -
  have "unat (XM32_MAX_ADDR - mr_start r) = 2 ^ 32 - unat (mr_start r)" if "mr_start r < XM32_MAX_ADDR"
    using that by (subst unat_sub) (simp_all add: XM32_MAX_ADDR_def)
  moreover have "mr_start r < XM32_MAX_ADDR \<longleftrightarrow> unat (mr_start r) < 2 ^ 32"
    by (simp add: word_less_nat_alt XM32_MAX_ADDR_def)
  ultimately show ?thesis
    by (cases "mr_start r < XM32_MAX_ADDR")
      (auto simp: eligible_def word_less_nat_alt not_le not_less)
qed

text \<open>The choice after a walk: no eligible range, or one whose start is the largest.\<close>

definition chosen_ok :: "mem \<Rightarrow> u32 \<Rightarrow> (nat \<times> bdat_mem_range) list \<Rightarrow> nat option \<Rightarrow> bool" where
  "chosen_ok m need rs ch \<longleftrightarrow>
     (case ch of
        None \<Rightarrow> \<forall>(a, r)\<in>set rs. \<not> eligible need r
      | Some c \<Rightarrow> (c, rd_mem_range m c) \<in> set rs \<and> eligible need (rd_mem_range m c) \<and>
          (\<forall>(a, r)\<in>set rs. eligible need r \<longrightarrow> mr_start r \<le> mr_start (rd_mem_range m c)))"

lemma choose_step:
  assumes need: "0 < need" and ok: "chosen_ok m need (mrngs m xs) ch"
  shows "\<exists>ch'. choose_body m need ch (bn_addr n) = Inr ch' \<and> chosen_ok m need (mrngs m (xs @ [n])) ch'"
proof -
  let ?r = "rd_mem_range m (bdmr_of (bn_addr n))"
  have app: "mrngs m (xs @ [n]) = mrngs m xs @ mrngs m [n]" by (induction xs) (auto simp: Let_def)
  show ?thesis
  proof (cases "is_mrng m (bn_addr n) \<and> eligible need ?r")
    case False
    then have "choose_body m need ch (bn_addr n) = Inr ch"
      by (auto simp: choose_body_def Let_def eligible_test [symmetric])
    moreover have "\<forall>(a, r)\<in>set (mrngs m [n]). \<not> eligible need r" using False by (auto simp: Let_def)
    ultimately show ?thesis using ok unfolding app by (auto simp: chosen_ok_def split: option.splits)
  next
    case True
    then have "mr_len ?r \<noteq> 0" using need by (auto simp: eligible_def word_less_nat_alt)
    then have m: "mrngs m [n] = [(bdmr_of (bn_addr n), ?r)]" using True by (simp add: Let_def)
    have step: "choose_body m need ch (bn_addr n) = (case ch of None \<Rightarrow> Inr (Some (bdmr_of (bn_addr n)))
        | Some c \<Rightarrow> if mr_start ?r > mr_start (rd_mem_range m c) then Inr (Some (bdmr_of (bn_addr n))) else Inr ch)"
      using True unfolding choose_body_def Let_def eligible_test [symmetric] by simp
    show ?thesis
      using ok True unfolding app m step
      by (auto simp: chosen_ok_def not_less split: option.splits intro: order_trans less_imp_le)
  qed
qed

lemma fold_choose:
  "0 < need \<Longrightarrow> chosen_ok m need (mrngs m xs) ch \<Longrightarrow>
     \<exists>ch'. fold_nodes (choose_body m need) ch ns = Inr ch' \<and> chosen_ok m need (mrngs m (xs @ ns)) ch'"
proof (induction ns arbitrary: xs ch)
  case (Cons n ns)
  obtain c where "choose_body m need ch (bn_addr n) = Inr c" "chosen_ok m need (mrngs m (xs @ [n])) c"
    using choose_step [OF Cons.prems] by blast
  then show ?case using Cons.IH [of "xs @ [n]" c] Cons.prems(1) by simp
qed auto

subsection \<open>Copying the ranges\<close>

text \<open>The entries that one boot parameter becomes.\<close>

definition expand :: "u32 \<Rightarrow> nat \<Rightarrow> u32 \<Rightarrow> nat \<times> bdat_mem_range \<Rightarrow> mem_range list" where
  "expand need chosen mrs_addr = (\<lambda>(a, r).
     if a = chosen then
       (if mr_len r - ucast need \<noteq> 0 then [(to_range r)\<lparr> rg_len := mr_len r - ucast need \<rparr>] else []) @
       [(to_range r)\<lparr> rg_start := ucast mrs_addr, rg_len := ucast need, rg_e820_type := E820_RESERVED \<rparr>]
     else [to_range r])"

definition copied :: "nat \<Rightarrow> mem_range list \<Rightarrow> mem_range list \<times> u32 \<Rightarrow> bool" where
  "copied n out acc \<longleftrightarrow> length (fst acc) = n \<and> unat (snd acc) = length out \<and> take (unat (snd acc)) (fst acc) = out"

lemma copied_put:
  assumes "copied n out (mrs, nmr)" and "length out < n" and "n < 2 ^ 32"
  shows "copied n (out @ [x]) (mrs[unat nmr := x], nmr + 1)"
proof -
  have nmr: "unat nmr < length mrs" "length mrs = n" "take (unat nmr) mrs = out" "unat nmr = length out"
    using assms(1,2) by (auto simp: copied_def)
  have "unat (nmr + 1) = unat nmr + 1"
    using nmr assms(3) unat_add_nowrap [of nmr 1] by simp
  then show ?thesis using nmr by (simp add: copied_def take_Suc_conv_app_nth)
qed

lemma copied_overwrite: "copied n out (mrs, nmr) \<Longrightarrow> copied n out (mrs[unat nmr := x], nmr)"
  by (auto simp: copied_def)

lemma copy_step:
  assumes acc: "copied n out acc" and n: "n < 2 ^ 32"
    and room: "length out + length (concat (map (expand need ch addr) (mrngs m [k]))) \<le> n"
  shows "\<exists>acc'. copy_body m need ch addr acc (bn_addr k) = Inr acc' \<and>
    copied n (out @ concat (map (expand need ch addr) (mrngs m [k]))) acc'"
proof -
  obtain mrs nmr where a: "acc = (mrs, nmr)" by fastforce
  have len: "length mrs = n" "unat nmr = length out" using acc by (simp_all add: a copied_def)
  let ?bd = "bdmr_of (bn_addr k)" and ?r = "rd_mem_range m (bdmr_of (bn_addr k))"
  show ?thesis
  proof (cases "is_mrng m (bn_addr k) \<and> mr_len ?r \<noteq> 0")
    case False
    then have "mrngs m [k] = []" by (auto simp: Let_def)
    then show ?thesis using acc False by (auto simp: a copy_body_def Let_def)
  next
    case True
    then have m: "mrngs m [k] = [(?bd, ?r)]" by (simp add: Let_def)
    show ?thesis
    proof (cases "?bd = ch")
      case other: False
      then show ?thesis
        using True room copied_put [OF acc [unfolded a] _ n, of "to_range ?r"] len
        by (auto simp: a m expand_def copy_body_def Let_def)
    next
      case ch: True
      let ?lo = "(to_range ?r)\<lparr> rg_len := mr_len ?r - ucast need \<rparr>"
      let ?map = "(to_range ?r)\<lparr> rg_start := ucast addr, rg_len := ucast need, rg_e820_type := E820_RESERVED \<rparr>"
      let ?nmr = "if mr_len ?r - ucast need \<noteq> 0 then nmr + 1 else nmr"
      let ?out = "out @ (if mr_len ?r - ucast need \<noteq> 0 then [?lo] else [])"
      have e: "concat (map (expand need ch addr) (mrngs m [k])) =
          (if mr_len ?r - ucast need \<noteq> 0 then [?lo] else []) @ [?map]"
        unfolding m using ch by (simp add: expand_def)
      have r: "length ?out < n" "length out < n" using room unfolding e by auto
      have "copied n ?out (mrs[unat nmr := ?lo], ?nmr)"
        using copied_put [OF acc [unfolded a] r(2) n, of ?lo] copied_overwrite [OF acc [unfolded a], of ?lo]
        by (cases "mr_len ?r - ucast need = 0")
          (simp_all only: if_True if_False append_Nil2 simp_thms not_False_eq_True refl)
      from copied_put [OF this r(1) n, of ?map] have c: "copied n (?out @ [?map]) (mrs[unat nmr := ?lo, unat ?nmr := ?map], ?nmr + 1)" .
      have "unat ?nmr < n" using \<open>copied n ?out _\<close> r(1) by (simp add: copied_def)
      then have "copy_body m need ch addr acc (bn_addr k) = Inr (mrs[unat nmr := ?lo, unat ?nmr := ?map], ?nmr + 1)"
        using True ch len r(2) by (simp add: a copy_body_def Let_def)
      then show ?thesis using c unfolding e append_assoc by blast
    qed
  qed
qed

lemma mrngs_Cons: "mrngs m (n # ns) = mrngs m [n] @ mrngs m ns"
  by (simp add: Let_def)

lemma fold_copy:
  "copied n out acc \<Longrightarrow> n < 2 ^ 32 \<Longrightarrow> length out + length (concat (map (expand need ch addr) (mrngs m ns))) \<le> n \<Longrightarrow>
     \<exists>acc'. fold_nodes (copy_body m need ch addr) acc ns = Inr acc' \<and>
       copied n (out @ concat (map (expand need ch addr) (mrngs m ns))) acc'"
proof (induction ns arbitrary: out acc)
  case (Cons k ns)
  let ?e = "\<lambda>xs. concat (map (expand need ch addr) (mrngs m xs))"
  have e: "?e (k # ns) = ?e [k] @ ?e ns" by (simp only: mrngs_Cons [of m k ns] map_append concat_append)
  obtain acc1 where "copy_body m need ch addr acc (bn_addr k) = Inr acc1" "copied n (out @ ?e [k]) acc1"
    using copy_step [OF Cons.prems(1,2), of need ch addr m k] Cons.prems(3) unfolding e by auto
  then show ?case using Cons.IH [of "out @ ?e [k]" acc1] Cons.prems(2,3) unfolding e by auto
qed simp

subsection \<open>The number of entries\<close>

lemma mrngs_fst: "set (map fst (mrngs m ns)) \<subseteq> (\<lambda>n. bdmr_of (bn_addr n)) ` set ns"
  by (induction ns) (auto simp: Let_def)

lemma mrngs_distinct: "nodes_ok m ns \<Longrightarrow> distinct (map fst (mrngs m ns))"
proof (induction ns)
  case (Cons n ns)
  have "bn_addr n \<noteq> bn_addr k" if "k \<in> set ns" for k
  proof
    assume "bn_addr n = bn_addr k"
    then have "bn_addr n \<in> bn_bytes n \<inter> bn_bytes k" by (simp add: bn_bytes_def sizeof_bparm_def)
    then show False using Cons.prems that by auto
  qed
  then have "bdmr_of (bn_addr n) \<notin> set (map fst (mrngs m ns))"
    using mrngs_fst [of m ns] by (fastforce simp: bdmr_of_def)
  then show ?case using Cons by (auto simp: Let_def)
qed simp

lemma expand_length_other:
  "ch \<notin> set (map fst rs) \<Longrightarrow> length (concat (map (expand need ch addr) rs)) = length rs"
  by (induction rs) (auto simp: expand_def)

lemma expand_length_distinct:
  "distinct (map fst rs) \<Longrightarrow> length (concat (map (expand need ch addr) rs)) \<le> length rs + 1"
proof (induction rs)
  case (Cons x rs)
  show ?case
  proof (cases "fst x = ch")
    case True
    then have "ch \<notin> set (map fst rs)" using Cons.prems by auto
    then have "length (concat (map (expand need ch addr) rs)) = length rs" by (rule expand_length_other)
    moreover have "length (expand need ch addr x) \<le> 2" by (simp add: expand_def split: prod.split)
    ultimately show ?thesis by simp
  next
    case False
    then have "length (expand need ch addr x) = 1" by (cases x) (simp add: expand_def)
    then show ?thesis using Cons by simp
  qed
qed simp

subsection \<open>The resulting map\<close>

text \<open>The number of entries the code makes room for, and the space they take.\<close>

definition map_room :: "nat \<Rightarrow> nat" where
  "map_room n = max 16 ((3 * (n + 1) + 1) div 2)"

definition map_space :: "nat \<Rightarrow> u32" where
  "map_space n = word_of_nat (map_room n * 32)"

lemma room_computed:
  assumes "n \<le> 65536"
  shows "(let mmr0 = (3 * (1 + word_of_nat n) + 1) div 2 in if mmr0 < 16 then 16 else mmr0) = (word_of_nat (map_room n) :: u32)"
    and "unat (word_of_nat (map_room n) :: u32) = map_room n" and "unat (map_space n) = map_room n * 32"
    and "word_of_nat (map_room n) * sizeof_mem_range_t = map_space n" and "n + 1 \<le> map_room n"
proof -
  have small: "map_room n \<le> 100000" using assms by (simp add: map_room_def)
  have "(3 * (1 + word_of_nat n) + 1 :: u32) = word_of_nat (3 * (n + 1) + 1)" by (simp add: algebra_simps)
  moreover have "unat (word_of_nat (3 * (n + 1) + 1) :: u32) = 3 * (n + 1) + 1"
    using assms by (simp only: unat_of_nat) simp
  ultimately have "unat ((3 * (1 + word_of_nat n) + 1) div 2 :: u32) = (3 * (n + 1) + 1) div 2"
    by (simp only: unat_div_distrib) simp
  moreover have u: "unat (word_of_nat (map_room n) :: u32) = map_room n"
    using small by (simp only: unat_of_nat) simp
  ultimately show "(let mmr0 = (3 * (1 + word_of_nat n) + 1) div 2 in if mmr0 < 16 then 16 else mmr0) = (word_of_nat (map_room n) :: u32)"
    by (simp add: Let_def map_room_def word_unat_eq_iff word_less_nat_alt max_def split: if_splits)
  show "unat (word_of_nat (map_room n) :: u32) = map_room n" by (rule u)
  show "unat (map_space n) = map_room n * 32"
    using small by (simp only: unat_of_nat map_space_def) simp
  show "word_of_nat (map_room n) * sizeof_mem_range_t = map_space n"
    by (simp add: map_space_def sizeof_mem_range_t_def)
  have "n + 1 \<le> (3 * (n + 1) + 1) div 2" by (simp add: less_eq_div_iff_mult_less_eq)
  then show "n + 1 \<le> map_room n" unfolding map_room_def by linarith
qed

text \<open>What \<^verbatim>\<open>mem_map_init\<close> makes of the ranges \<open>rs\<close> when it chooses the one at \<open>c\<close>.\<close>

definition built_from :: "(nat \<times> bdat_mem_range) list \<Rightarrow> nat \<Rightarrow> bdat_mem_range \<Rightarrow> mem_map \<Rightarrow> bool" where
  "built_from rs c r s \<longleftrightarrow>
     (let need = map_space (length rs); addr = ucast (mr_start r + mr_len r - ucast need) :: u32 in
      mset (ranges s) = mset (concat (map (expand need c addr) rs)) \<and> sorted (map rg_start (ranges s)) \<and>
      length (mem_ranges s) = map_room (length rs) \<and> unat (max_mem_ranges s) = map_room (length rs) \<and>
      num_mem_ranges s \<le> max_mem_ranges s)"

lemma mem_map_init_cases:
  assumes ok: "nodes_ok m ns"
  defines "rs \<equiv> mrngs m ns"
  shows "(\<forall>(a, r)\<in>set rs. \<not> eligible (map_space (length rs)) r) \<and>
      mem_map_init m raw (ucast (next_of ns)) = Some (Inl Hlt) \<or>
    (\<exists>c r s. (c, r) \<in> set rs \<and> eligible (map_space (length rs)) r \<and>
      (\<forall>(a, r')\<in>set rs. eligible (map_space (length rs)) r' \<longrightarrow> mr_start r' \<le> mr_start r) \<and>
      mem_map_init m raw (ucast (next_of ns)) = Some (Inr s) \<and> built_from rs c r s)"
proof -
  have n: "length rs \<le> 65536"
    unfolding rs_def using nodes_ok_length [OF ok] mrngs_length [of m ns] by linarith
  note room = room_computed [OF n]
  let ?need = "map_space (length rs)" and ?mmr = "word_of_nat (map_room (length rs)) :: u32"
  have walk: "for_each_bparm m body (ucast (next_of ns)) acc = Some (fold_nodes body acc ns)" for body and acc :: 'x
    by (rule for_each_bparm_nodes [OF ok])
  have pos: "0 < ?need" using room(3,5) by (simp add: word_less_nat_alt)
  have "chosen_ok m ?need (mrngs m []) None" by (simp add: chosen_ok_def)
  then obtain ch where ch: "fold_nodes (choose_body m ?need) None ns = Inr ch" "chosen_ok m ?need rs ch"
    using fold_choose [OF pos, of m "[]" None ns] by (auto simp: rs_def)
  have run: "mem_map_init m raw (ucast (next_of ns)) =
      (case ch of None \<Rightarrow> Some (Inl Hlt)
       | Some bdmr \<Rightarrow>
           let r = rd_mem_range m bdmr; addr = ucast (mr_start r + mr_len r - ucast ?need) :: u32
           in bindo (Some (fold_nodes (copy_body m ?need bdmr addr) (map raw [0..<unat ?mmr], 0) ns)) (\<lambda>(mrs, nmr).
              bindo (shellsort mrs nmr) (\<lambda>mrs'.
              Some (Inr \<lparr> mem_ranges = mrs', num_mem_ranges = nmr, max_mem_ranges = ?mmr \<rparr>))))"
    unfolding mem_map_init_def walk fold_count rs_def [symmetric] bindo_simps Let_def
      room(1) [unfolded Let_def] room(4) ch(1) by (rule refl)
  show ?thesis
  proof (cases ch)
    case None
    then show ?thesis using run ch(2) by (simp add: chosen_ok_def)
  next
    case (Some c)
    let ?r = "rd_mem_range m c"
    let ?addr = "ucast (mr_start ?r + mr_len ?r - ucast ?need) :: u32"
    let ?out = "concat (map (expand ?need c ?addr) rs)"
    have fit: "length ?out \<le> map_room (length rs)"
      using expand_length_distinct [OF mrngs_distinct [OF ok], of ?need c ?addr] room(5) by (simp add: rs_def)
    have "copied (map_room (length rs)) [] (map raw [0..<unat ?mmr], 0)" using room(2) by (simp add: copied_def)
    moreover have "map_room (length rs) < 2 ^ 32" using n by (simp add: map_room_def)
    ultimately obtain mrs nmr where copy: "fold_nodes (copy_body m ?need c ?addr) (map raw [0..<unat ?mmr], 0) ns = Inr (mrs, nmr)"
      and cp: "copied (map_room (length rs)) ?out (mrs, nmr)"
      using fold_copy [of "map_room (length rs)" "[]" _ ?need c ?addr m ns] fit by (fastforce simp: rs_def)
    then have len: "length mrs = map_room (length rs)" "unat nmr = length ?out" "take (unat nmr) mrs = ?out"
      using cp unfolding copied_def fst_conv snd_conv by blast+
    have "map_room (length rs) \<le> 2 ^ 31" using n by (simp add: map_room_def)
    then obtain mrs' where sort: "shellsort mrs nmr = Some (Inr mrs')" "permutes (unat nmr) mrs mrs'"
      "sorted (starts (take (unat nmr) mrs'))"
      using shellsort_returns [of nmr mrs] len(1,2) fit by auto
    let ?s = "\<lparr> mem_ranges = mrs', num_mem_ranges = nmr, max_mem_ranges = ?mmr \<rparr>"
    have "mset (ranges ?s) = mset ?out"
      using mset_take_if_drop [of mrs' mrs "unat nmr"] sort(2) len(3) by (simp add: permutes_def ranges_def)
    then have "built_from rs c ?r ?s"
      using sort(2,3) len(1,2) room(2) fit
      by (simp add: built_from_def Let_def permutes_def ranges_def starts_def word_le_nat_alt)
    moreover have "mem_map_init m raw (ucast (next_of ns)) = Some (Inr ?s)"
      using run Some copy sort(1) by (simp add: Let_def)
    ultimately show ?thesis using ch(2) Some by (auto simp: chosen_ok_def)
  qed
qed

subsection \<open>The map has the invariant\<close>

definition rg_disjoint :: "mem_range \<Rightarrow> mem_range \<Rightarrow> bool" where
  "rg_disjoint a b \<longleftrightarrow> rg_end a \<le> unat (rg_start b) \<or> rg_end b \<le> unat (rg_start a)"

text \<open>As in \<open>rg_before_at\<close>, two ranges that end at or below \<open>B\<close> may overlap unless both are RAM.\<close>

definition rg_apart :: "nat \<Rightarrow> mem_range \<Rightarrow> mem_range \<Rightarrow> bool" where
  "rg_apart B a b \<longleftrightarrow> rg_disjoint a b \<or>
     rg_end a \<le> B \<and> rg_end b \<le> B \<and> \<not> (rg_e820_type a = E820_RAM \<and> rg_e820_type b = E820_RAM)"

lemma rg_apart_sym: "rg_apart B a b \<Longrightarrow> rg_apart B b a"
  by (auto simp: rg_apart_def rg_disjoint_def)

text \<open>The ranges of the boot parameters end at or below 2 to the 64, and overlap below \<open>B\<close> only.\<close>

definition params_ok :: "nat \<Rightarrow> (nat \<times> bdat_mem_range) list \<Rightarrow> bool" where
  "params_ok B rs \<longleftrightarrow> list_all (\<lambda>(a, r). rg_ok (to_range r)) rs \<and>
     sorted_wrt (\<lambda>x y. rg_apart B (to_range (snd x)) (to_range (snd y))) rs"

lemma sorted_wrt_mset:
  assumes sym: "\<And>x y. R x y \<Longrightarrow> R y x"
  shows "sorted_wrt R xs \<Longrightarrow> mset xs = mset ys \<Longrightarrow> sorted_wrt R ys"
proof (induction xs arbitrary: ys)
  case (Cons x xs)
  have "x \<in> set ys" using Cons.prems(2) by (metis list.set_intros(1) set_mset_mset)
  then obtain as bs where ys: "ys = as @ x # bs" by (meson split_list)
  then have m: "mset xs = mset (as @ bs)" using Cons.prems(2) by simp
  then have "set xs = set as \<union> set bs" by (metis set_append set_mset_mset)
  moreover have "sorted_wrt R (as @ bs)" using Cons.IH [OF _ m] Cons.prems(1) by simp
  ultimately show ?case using Cons.prems(1) sym by (auto simp: ys sorted_wrt_append)
qed simp

lemma sorted_starts_apart:
  assumes "sorted (map rg_start rs)" and "sorted_wrt (rg_apart B) rs" and "list_all rg_ok rs"
  shows "sorted_wrt (rg_before_at B) rs"
proof -
  have "rg_before_at B (rs ! i) (rs ! j)" if ij: "i < j" "j < length rs" for i j
  proof -
    have "unat (rg_start (rs ! i)) \<le> unat (rg_start (rs ! j))"
      using assms(1) ij by (simp add: sorted_iff_nth_mono word_le_nat_alt)
    moreover have "rg_apart B (rs ! i) (rs ! j)" using assms(2) ij by (simp add: sorted_wrt_iff_nth_less)
    moreover have "0 < unat (rg_len (rs ! j))" using assms(3) ij by (simp add: list_all_length rg_ok_def)
    ultimately show ?thesis by (auto simp: rg_apart_def rg_disjoint_def rg_before_at_def rg_before_def rg_end_def)
  qed
  then show ?thesis by (simp add: sorted_wrt_iff_nth_less)
qed

text \<open>The entries a range becomes lie inside it and do not overlap.\<close>

lemma expand_inside:
  assumes ok: "rg_ok (to_range r)" and el: "a = c \<longrightarrow> eligible need r" and need: "0 < unat need"
    and addr: "a = c \<longrightarrow> addr = ucast (mr_start r + mr_len r - ucast need)"
  shows "list_all rg_ok (expand need c addr (a, r)) \<and> sorted_wrt rg_disjoint (expand need c addr (a, r)) \<and>
    (\<forall>e\<in>set (expand need c addr (a, r)). unat (mr_start r) \<le> unat (rg_start e) \<and> rg_end e \<le> rg_end (to_range r) \<and>
       (rg_e820_type e = E820_RAM \<longrightarrow> mr_e820_type r = E820_RAM))"
proof (cases "a = c")
  case False
  then show ?thesis using ok by (auto simp: expand_def to_range_def rg_end_def)
next
  case True
  then have e: "unat (mr_start r) + unat (mr_len r) \<le> 2 ^ 32" "unat need \<le> unat (mr_len r)"
    using el by (simp_all add: eligible_def)
  have d: "unat (mr_len r - ucast need) = unat (mr_len r) - unat need"
    using e(2) by (subst unat_sub) (simp_all add: word_le_nat_alt)
  have "unat (mr_start r + mr_len r) = unat (mr_start r) + unat (mr_len r)"
    using e(1) by (intro unat_add_nowrap) simp
  then have "unat (mr_start r + mr_len r - ucast need) = unat (mr_start r) + unat (mr_len r) - unat need"
    using e(2) by (subst unat_sub) (simp_all add: word_le_nat_alt)
  moreover have "unat (mr_start r) + unat (mr_len r) - unat need < 2 ^ 32" using e need by linarith
  ultimately have u: "unat addr = unat (mr_start r) + unat (mr_len r) - unat need"
    using addr True by (simp add: unat_ucast_down)
  have "mr_len r - ucast need \<noteq> 0 \<longleftrightarrow> unat need < unat (mr_len r)"
    using d e(2) by (auto simp: word_unat_eq_iff)
  then show ?thesis
    using True e need d u
    by (auto simp: expand_def to_range_def rg_ok_def rg_end_def rg_disjoint_def E820_RAM_def E820_RESERVED_def)
qed

lemma expand_all:
  assumes need: "0 < unat need"
  shows "params_ok B rs \<Longrightarrow> (\<forall>(a, r)\<in>set rs. a = c \<longrightarrow> eligible need r \<and> addr = ucast (mr_start r + mr_len r - ucast need)) \<Longrightarrow>
     list_all rg_ok (concat (map (expand need c addr) rs)) \<and> sorted_wrt (rg_apart B) (concat (map (expand need c addr) rs))"
proof (induction rs)
  case (Cons x rs)
  have inside: "list_all rg_ok (expand need c addr y) \<and> sorted_wrt rg_disjoint (expand need c addr y) \<and>
      (\<forall>e\<in>set (expand need c addr y). unat (mr_start (snd y)) \<le> unat (rg_start e) \<and> rg_end e \<le> rg_end (to_range (snd y)) \<and>
         (rg_e820_type e = E820_RAM \<longrightarrow> mr_e820_type (snd y) = E820_RAM))"
    if "y \<in> set (x # rs)" for y
  proof -
    obtain a r where y: "y = (a, r)" by fastforce
    have "rg_ok (to_range r)" using Cons.prems(1) that by (auto simp: y params_ok_def list_all_iff)
    moreover have "a = c \<longrightarrow> eligible need r \<and> addr = ucast (mr_start r + mr_len r - ucast need)"
      using Cons.prems(2) that by (auto simp: y)
    ultimately show ?thesis unfolding y snd_conv using need by (intro expand_inside) auto
  qed
  have "rg_apart B e f" if "e \<in> set (expand need c addr x)" "y \<in> set rs" "f \<in> set (expand need c addr y)" for e f y
  proof -
    have "rg_apart B (to_range (snd x)) (to_range (snd y))" using Cons.prems(1) that(2) by (simp add: params_ok_def)
    moreover have "unat (mr_start (snd x)) \<le> unat (rg_start e)" "rg_end e \<le> rg_end (to_range (snd x))"
      "unat (mr_start (snd y)) \<le> unat (rg_start f)" "rg_end f \<le> rg_end (to_range (snd y))"
      "rg_e820_type e = E820_RAM \<Longrightarrow> mr_e820_type (snd x) = E820_RAM"
      "rg_e820_type f = E820_RAM \<Longrightarrow> mr_e820_type (snd y) = E820_RAM"
      using inside [of x] inside [of y] that by auto
    ultimately show ?thesis by (auto simp: rg_apart_def rg_disjoint_def to_range_def)
  qed
  moreover have "sorted_wrt (rg_apart B) (expand need c addr x)"
    using inside [of x] by (auto elim!: sorted_wrt_mono_rel [rotated] simp: rg_apart_def)
  moreover have "params_ok B rs" using Cons.prems(1) by (simp add: params_ok_def)
  ultimately show ?case using Cons.IH Cons.prems(2) inside [of x] by (auto simp: sorted_wrt_append)
qed simp

lemma built_from_wf:
  assumes b: "built_from rs c r s" and p: "params_ok B rs" and d: "distinct (map fst rs)" and c: "(c, r) \<in> set rs"
    and el: "eligible (map_space (length rs)) r" and n: "length rs \<le> 65536"
  shows "mm_wf_at B s"
proof -
  let ?need = "map_space (length rs)"
  let ?addr = "ucast (mr_start r + mr_len r - ucast ?need) :: u32"
  let ?out = "concat (map (expand ?need c ?addr) rs)"
  have bf: "mset (ranges s) = mset ?out" "sorted (map rg_start (ranges s))" "length (mem_ranges s) = map_room (length rs)"
    "unat (max_mem_ranges s) = map_room (length rs)" "num_mem_ranges s \<le> max_mem_ranges s"
    using b by (simp_all add: built_from_def Let_def)
  have "0 < unat ?need" using room_computed(3,5) [OF n] by simp
  moreover have "\<forall>(a, r')\<in>set rs. a = c \<longrightarrow> eligible ?need r' \<and> ?addr = ucast (mr_start r' + mr_len r' - ucast ?need)"
    using d c el by (auto dest: eq_key_imp_eq_value)
  ultimately have out: "list_all rg_ok ?out" "sorted_wrt (rg_apart B) ?out" using expand_all [OF _ p] by blast+
  have ok: "list_all rg_ok (ranges s)"
    using out(1) mset_eq_setD [OF bf(1)] by (simp only: list_all_iff)
  have "sorted_wrt (rg_apart B) (ranges s)"
    by (rule sorted_wrt_mset [OF rg_apart_sym out(2) bf(1) [symmetric]])
  then have "sorted_wrt (rg_before_at B) (ranges s)" using bf(2) ok by (intro sorted_starts_apart)
  moreover have "ranges s \<noteq> []"
  proof
    assume "ranges s = []"
    then have "?out = []" using bf(1) by simp
    moreover have "expand ?need c ?addr (c, r) \<noteq> []" by (simp add: expand_def)
    ultimately show False using c by auto
  qed
  then have "0 < num_mem_ranges s" by (auto simp: ranges_def word_gt_0)
  moreover have "max_mem_ranges s \<le> 0x40000000" using bf(4) n by (simp add: word_le_nat_alt map_room_def)
  ultimately show ?thesis using bf ok by (simp add: mm_wf_at_def ranges_wf_at_def)
qed

subsection \<open>The memory left to allocate from\<close>

definition params_ram :: "(nat \<times> bdat_mem_range) list \<Rightarrow> nat set" where
  "params_ram rs = (\<Union>x\<in>{x \<in> set rs. mr_e820_type (snd x) = E820_RAM}. rg_bytes (to_range (snd x)))"

lemma ranges_free_mset: "mset xs = mset ys \<Longrightarrow> ranges_free xs = ranges_free ys"
  by (drule mset_eq_setD) (simp add: ranges_free_def)

lemma ranges_free_concat: "ranges_free (concat xss) = (\<Union>xs\<in>set xss. ranges_free xs)"
  by (auto simp: ranges_free_def)

text \<open>The space of the map: the top of the chosen range.\<close>

definition map_bytes :: "u32 \<Rightarrow> bdat_mem_range \<Rightarrow> nat set" where
  "map_bytes need r = {rg_end (to_range r) - unat need..<rg_end (to_range r)}"

lemma expand_free:
  assumes "a = c \<longrightarrow> eligible need r"
  shows "ranges_free (expand need c addr (a, r)) =
    (if mr_e820_type r = E820_RAM then rg_bytes (to_range r) else {}) - (if a = c then map_bytes need r else {})"
proof (cases "a = c")
  case True
  then have el: "mr_e820_type r = E820_RAM" "unat need \<le> unat (mr_len r)" using assms by (simp_all add: eligible_def)
  have d: "unat (mr_len r - ucast need) = unat (mr_len r) - unat need"
    using el(2) by (subst unat_sub) (simp_all add: word_le_nat_alt)
  have nz: "mr_len r - ucast need = 0 \<longleftrightarrow> unat need = unat (mr_len r)"
    using d el(2) by (auto simp: word_unat_eq_iff)
  show ?thesis
    using True el d nz
    by (auto simp: expand_def ranges_free_append ranges_free_Cons ranges_free_nil to_range_def rg_bytes_def rg_end_def
        map_bytes_def E820_RAM_def E820_RESERVED_def)
qed (simp add: expand_def ranges_free_Cons ranges_free_nil to_range_def)

lemma built_from_free:
  assumes b: "built_from rs c r s" and p: "params_ok B rs" and d: "distinct (map fst rs)" and c: "(c, r) \<in> set rs"
    and el: "eligible (map_space (length rs)) r"
  shows "mm_free s = params_ram rs - map_bytes (map_space (length rs)) r"
proof -
  let ?need = "map_space (length rs)"
  let ?addr = "ucast (mr_start r + mr_len r - ucast ?need) :: u32"
  have key: "r' = r" if "(c, r') \<in> set rs" for r' using d that c by (rule eq_key_imp_eq_value)
  have top: "map_bytes ?need r \<subseteq> rg_bytes (to_range r)"
    using el by (auto simp: eligible_def map_bytes_def rg_bytes_def rg_end_def to_range_def)
  have other: "rg_bytes (to_range (snd x)) \<inter> map_bytes ?need r = {}"
    if x: "x \<in> set rs" "fst x \<noteq> c" "mr_e820_type (snd x) = E820_RAM" for x
  proof -
    have "rg_apart B (to_range (snd x)) (to_range r)"
    proof -
      obtain i j where ij: "i < length rs" "rs ! i = x" "j < length rs" "rs ! j = (c, r)"
        using x(1) c by (auto simp: in_set_conv_nth)
      then have "i < j \<or> j < i" using x(2) by (metis fst_conv linorder_neqE_nat)
      moreover have "rg_apart B (to_range (snd (rs ! k))) (to_range (snd (rs ! l)))" if "k < l" "l < length rs" for k l
        using p that by (simp add: params_ok_def sorted_wrt_iff_nth_less)
      ultimately show ?thesis using ij rg_apart_sym by (metis snd_conv)
    qed
    moreover have "mr_e820_type r = E820_RAM" using el by (simp add: eligible_def)
    ultimately have "rg_disjoint (to_range (snd x)) (to_range r)" using x(3) by (auto simp: rg_apart_def to_range_def)
    then show ?thesis using top by (fastforce simp: rg_disjoint_def rg_bytes_def)
  qed
  have "mset (ranges s) = mset (concat (map (expand ?need c ?addr) rs))"
    using b by (simp add: built_from_def Let_def)
  from ranges_free_mset [OF this]
  have "mm_free s = (\<Union>x\<in>set rs. ranges_free (expand ?need c ?addr x))"
    by (simp add: mm_free_def ranges_free_concat)
  also have "\<dots> = (\<Union>x\<in>set rs. (if mr_e820_type (snd x) = E820_RAM then rg_bytes (to_range (snd x)) else {}) - map_bytes ?need r)"
  proof (rule SUP_cong [OF refl])
    fix x assume x: "x \<in> set rs"
    obtain a r' where a: "x = (a, r')" by fastforce
    show "ranges_free (expand ?need c ?addr x) =
        (if mr_e820_type (snd x) = E820_RAM then rg_bytes (to_range (snd x)) else {}) - map_bytes ?need r"
      using expand_free [of a c ?need r' ?addr] x el key [of r'] other [OF x] unfolding a by (cases "a = c") auto
  qed
  also have "\<dots> = params_ram rs - map_bytes ?need r" by (auto simp: params_ram_def split: if_splits)
  finally show ?thesis .
qed

subsection \<open>The ranges that stage 1 reported\<close>

lemma mrngs_append: "mrngs m (xs @ ys) = mrngs m xs @ mrngs m ys"
  by (induction xs) (auto simp: Let_def)

lemma is_mrng_node: "node_ok m n x \<Longrightarrow> is_mrng m (bn_addr n) \<longleftrightarrow> bn_type n = BP_MRNG"
  by (simp add: is_mrng_def node_ok_def)

lemma mrngs_other: "\<forall>n\<in>set ns. (\<exists>x. node_ok m n x) \<and> bn_type n \<noteq> BP_MRNG \<Longrightarrow> mrngs m ns = []"
  using is_mrng_node by (induction ns) (auto simp: Let_def)

lemma mrngs_reported:
  "list_all2 mrng_node ns rs \<Longrightarrow> \<forall>n\<in>set ns. \<exists>x. node_ok m n x \<Longrightarrow> \<forall>r\<in>set rs. mr_len r \<noteq> 0 \<Longrightarrow>
     map snd (mrngs m ns) = rs"
proof (induction rule: list_all2_induct)
  case (Cons n ns r rs)
  obtain x where x: "node_ok m n x" using Cons.prems by auto
  have n: "bn_type n = BP_MRNG" "bn_data n = mem_range_bytes r" using Cons.hyps(1) by (simp_all add: mrng_node_def)
  have "rd_mem_range m (bdmr_of (bn_addr n)) = r"
    unfolding bdmr_of_def using x n by (intro rd_mem_range_bytes) (simp add: node_ok_def)
  then show ?case using Cons n is_mrng_node [OF x] by (simp add: Let_def)
qed simp

lemma params_ok_map: "params_ok B rs \<longleftrightarrow> list_all rg_ok (map to_range (map snd rs)) \<and>
    sorted_wrt (rg_apart B) (map to_range (map snd rs))"
  by (auto simp: params_ok_def sorted_wrt_map list_all_iff)

lemma set_nonempty: "r \<in> set (nonempty rs) \<Longrightarrow> mr_len r \<noteq> 0"
  by (simp add: nonempty_def)

text \<open>What stage 2 reads from the list that \<^verbatim>\<open>prepare_to_hand_over\<close> leaves.\<close>

lemma handed_over_ranges:
  assumes rep: "bparm_rep st ns" and other: "\<forall>n\<in>set ns. bn_type n \<noteq> BP_MRNG"
    and eq: "prepare_to_hand_over mm status st = Inr (kib, st')" and same: "num_blks (bmem st') = num_blks (bmem st)"
  shows "\<exists>descs nodes. mm = Some descs \<and> bparm_list st' nodes \<and>
    map snd (mrngs (memory st') nodes) =
      nonempty (concat (map ext_range descs)) @ nonempty (concat (map uefi_range descs)) @ nonempty (our_ranges (bmem st))"
  using hand_over_list [OF rep eq]
proof (elim exE conjE)
  fix descs ext bm base rs and bbot rtop :: u32
  assume mm: "mm = Some descs" and l: "bparm_list st' (ns @ ext @ bm # base)"
    and ext: "list_all2 mrng_node ext (nonempty (concat (map ext_range descs)))"
    and bm: "bmem_node bm (addr_to_rm_seg (ucast bbot)) (addr_to_rm_seg (ucast rtop))"
    and base: "list_all2 mrng_node base (nonempty (concat (map uefi_range descs)) @ nonempty rs)"
    and rs: "num_blks (bmem st') = num_blks (bmem st) \<longrightarrow> rs = our_ranges (bmem st)"
  let ?m = "memory st'"
  have ok: "\<exists>x. node_ok ?m n x" if "n \<in> set (ns @ ext @ bm # base)" for n
    using l nodes_ok_nth [of ?m "ns @ ext @ bm # base" n] that by (simp add: bparm_list_def)
  have "mrngs ?m ns = []" using other ok by (intro mrngs_other) auto
  moreover have "BP_BMEM \<noteq> BP_MRNG" by (simp add: BP_BMEM_def BP_MRNG_def MAGIC32_def)
  then have "mrngs ?m [bm] = []" using bm ok [of bm] by (intro mrngs_other) (auto simp: bmem_node_def)
  moreover have "map snd (mrngs ?m ext) = nonempty (concat (map ext_range descs))"
    using ok set_nonempty by (intro mrngs_reported [OF ext]) auto
  moreover have "map snd (mrngs ?m base) = nonempty (concat (map uefi_range descs)) @ nonempty rs"
    using ok set_nonempty by (intro mrngs_reported [OF base]) auto
  moreover have "mrngs ?m (ns @ ext @ bm # base) = mrngs ?m ns @ mrngs ?m ext @ mrngs ?m [bm] @ mrngs ?m base"
    by (simp only: mrngs_append mrngs_Cons [of ?m bm base])
  ultimately have v: "map snd (mrngs ?m (ns @ ext @ bm # base)) = nonempty (concat (map ext_range descs)) @
      nonempty (concat (map uefi_range descs)) @ nonempty rs"
    by (simp only: map_append list.map append_Nil)
  show ?thesis using mm l v rs same by blast
qed

subsection \<open>What stage 1 reports overlaps below 1 MiB only\<close>

text \<open>
  The memory map of the firmware, as the UEFI specification has it: no descriptor is empty or wraps
  around, and no two overlap.
\<close>

definition desc_end :: "mem_desc \<Rightarrow> nat" where
  "desc_end d = unat (PhysicalStart d) + unat (NumberOfPages d) * 4096"

definition descs_ok :: "mem_desc list \<Rightarrow> bool" where
  "descs_ok ds \<longleftrightarrow> list_all (\<lambda>d. NumberOfPages d \<noteq> 0 \<and> desc_end d \<le> 2 ^ 64) ds \<and>
     sorted_wrt (\<lambda>d e. desc_end d \<le> unat (PhysicalStart e) \<or> desc_end e \<le> unat (PhysicalStart d)) ds"

lemma ext_range_in:
  assumes d: "NumberOfPages d \<noteq> 0" "desc_end d \<le> 2 ^ 64" and r: "r \<in> set (ext_range d)"
  shows "rg_ok (to_range r)" and "low_top \<le> unat (mr_start r)" and "unat (PhysicalStart d) \<le> unat (mr_start r)"
    and "rg_end (to_range r) = desc_end d"
proof -
  let ?e = "PhysicalStart d + NumberOfPages d * 4096" and ?s = "max 0x100000 (PhysicalStart d)"
  have e: "?e = word_of_nat (desc_end d)" by (simp add: desc_end_def)
  have f: "mr_start r = ?s" "mr_len r = ?e - ?s" and no: "\<not> (0 < ?e \<and> ?e \<le> 0x100000)"
    using r by (auto simp: ext_range_def Let_def split: if_splits)
  have st: "unat ?s = max 0x100000 (unat (PhysicalStart d))" by (simp add: max_def word_le_nat_alt)
  have lt: "unat (PhysicalStart d) < desc_end d" using d(1) by (simp add: desc_end_def unat_gt_0)
  show "low_top \<le> unat (mr_start r)" "unat (PhysicalStart d) \<le> unat (mr_start r)"
    unfolding f st by (simp_all add: low_top_def)
  have len: "unat (mr_len r) = desc_end d - unat ?s \<and> unat ?s < desc_end d"
  proof (cases "desc_end d = 2 ^ 64")
    case True
    then have "?e = 0" unfolding e by simp
    moreover have "unat (0 - ?s) = 2 ^ 64 - unat ?s" using st by (subst unat_sub_if_size) (simp add: word_size)
    ultimately have "unat (mr_len r) = 2 ^ 64 - unat ?s" unfolding f by simp
    then show ?thesis using True unat_lt [of ?s] by simp
  next
    case False
    then have u: "unat ?e = desc_end d" unfolding e using d(2) by (simp add: unat_of_nat)
    then have "0 < ?e" using lt by (simp add: word_less_nat_alt)
    then have "0x100000 < desc_end d" using no u by (simp add: word_le_nat_alt)
    then have "unat ?s < desc_end d" using st lt by simp
    then show ?thesis unfolding f using u by (simp add: unat_sub word_le_nat_alt)
  qed
  then show "rg_end (to_range r) = desc_end d" by (simp add: rg_end_def to_range_def f)
  then show "rg_ok (to_range r)" using len d(2) by (simp add: rg_ok_def to_range_def)
qed

lemma uefi_range_in:
  assumes "r \<in> set (uefi_range d)"
  shows "rg_end (to_range r) \<le> low_top" and "mr_e820_type r \<noteq> E820_RAM"
proof -
  have lt: "unat (PhysicalStart d) < 0x100000"
    and r: "mr_start r = PhysicalStart d" "mr_len r = min (NumberOfPages d * 4096) (0x100000 - PhysicalStart d)"
      "mr_e820_type r = the (uefi_e820_type (Type d))" and no: "\<not> is_boot_or_free_type (Type d)"
    using assms by (auto simp: uefi_range_def split: if_splits)
  have "mr_len r \<le> 0x100000 - PhysicalStart d" unfolding r(2) by (rule min.cobounded2)
  then have "unat (mr_len r) \<le> 0x100000 - unat (PhysicalStart d)"
    using lt by (simp add: word_le_nat_alt unat_sub)
  then show "rg_end (to_range r) \<le> low_top" using lt by (simp add: rg_end_def to_range_def r(1) low_top_def)
  show "mr_e820_type r \<noteq> E820_RAM"
    unfolding r(3) using no
    by (simp add: uefi_e820_type_def E820_RAM_def E820_ACPI_def E820_NVS_def E820_PMEM_def E820_RESERVED_def)
qed

lemma sorted_wrt_concat_map:
  assumes "sorted_wrt Q xs" and "\<And>x. x \<in> set xs \<Longrightarrow> sorted_wrt R (f x)"
    and "\<And>x y u v. x \<in> set xs \<Longrightarrow> y \<in> set xs \<Longrightarrow> Q x y \<Longrightarrow> u \<in> set (f x) \<Longrightarrow> v \<in> set (f y) \<Longrightarrow> R u v"
  shows "sorted_wrt R (concat (map f xs))"
  using assms
proof (induction xs)
  case (Cons x xs)
  have "sorted_wrt R (concat (map f xs))"
  proof (rule Cons.IH)
    show "sorted_wrt Q xs" using Cons.prems(1) by simp
    show "sorted_wrt R (f y)" if "y \<in> set xs" for y using Cons.prems(2) that by simp
    show "R u v" if "y \<in> set xs" "z \<in> set xs" "Q y z" "u \<in> set (f y)" "v \<in> set (f z)" for y z u v
      using Cons.prems(3) [of y z u v] that by simp
  qed
  moreover have "R u v" if "u \<in> set (f x)" "y \<in> set xs" "v \<in> set (f y)" for u y v
    using Cons.prems(3) [of x y u v] Cons.prems(1) that by simp
  ultimately show ?case using Cons.prems(2) by (auto simp: sorted_wrt_append)
qed simp

lemma blk_ranges_in:
  assumes b: "blk_ok rtop b" and r: "r \<in> set (blk_ranges attr b)"
  shows "unat (blk_start b) \<le> unat (mr_start r)" and "rg_end (to_range r) \<le> unat (blk_orig_end b)"
  using assms by (auto simp: blk_ok_def blk_ranges_def our_range_def to_range_def rg_end_def unat_ucast_up word_le_nat_alt unat_sub)

lemma blk_ranges_apart:
  assumes "blk_ok rtop b"
  shows "sorted_wrt (\<lambda>u v. rg_disjoint (to_range u) (to_range v)) (blk_ranges attr b)"
  using assms by (auto simp: blk_ok_def blk_ranges_def our_range_def to_range_def rg_end_def rg_disjoint_def
      unat_ucast_up word_le_nat_alt unat_sub)

lemma our_ranges_in:
  assumes wf: "bmem_wf s"
  shows "\<And>r. r \<in> set (our_ranges s) \<Longrightarrow> rg_end (to_range r) \<le> low_top"
    and "sorted_wrt (\<lambda>u v. rg_disjoint (to_range u) (to_range v)) (our_ranges s)"
proof -
  let ?t = "runtime_bmem_top s" and ?attr = "bmem_uefi_attr s"
  let ?bs = "filter (\<lambda>b. ?t \<le> blk_start b) (live s)" and ?r0 = "our_range 0 (runtime_bmem_top s) E820_RAM (bmem_uefi_attr s)"
  have bs: "sorted_wrt blk_before (live s)" "\<And>b. b \<in> set ?bs \<Longrightarrow> blk_ok ?t b \<and> ?t \<le> blk_start b"
    using bmem_wfD [OF wf] by (auto simp: blks_wf_def list_all_iff)
  have r0: "rg_end (to_range ?r0) = unat ?t" by (simp add: our_range_def to_range_def rg_end_def unat_ucast_up)
  have top: "unat (blk_orig_end b) \<le> low_top" if "blk_ok ?t b" for b
    using that by (simp add: blk_ok_def word_le_nat_alt low_top_def)
  have "unat ?t \<le> low_top" using wf by (simp add: bmem_wf_def word_le_nat_alt low_top_def)
  moreover have "rg_end (to_range r) \<le> low_top" if "b \<in> set ?bs" "r \<in> set (blk_ranges ?attr b)" for b r
    using blk_ranges_in(2) [OF _ that(2)] top bs(2) [OF that(1)] by (meson order_trans)
  ultimately show "rg_end (to_range r) \<le> low_top" if "r \<in> set (our_ranges s)" for r
    using that r0 unfolding our_ranges_def by auto
  have "sorted_wrt (\<lambda>u v. rg_disjoint (to_range u) (to_range v)) (concat (map (blk_ranges ?attr) ?bs))"
  proof (rule sorted_wrt_concat_map [of blk_before])
    show "sorted_wrt blk_before ?bs" by (rule sorted_wrt_filter [OF bs(1)])
    show "sorted_wrt (\<lambda>u v. rg_disjoint (to_range u) (to_range v)) (blk_ranges ?attr b)" if "b \<in> set ?bs" for b
      using blk_ranges_apart bs(2) [OF that] by blast
    show "rg_disjoint (to_range u) (to_range v)" if "b \<in> set ?bs" "b' \<in> set ?bs" "blk_before b b'"
      "u \<in> set (blk_ranges ?attr b)" "v \<in> set (blk_ranges ?attr b')" for b b' u v
    proof -
      have "rg_end (to_range u) \<le> unat (blk_orig_end b)" "unat (blk_start b') \<le> unat (mr_start v)"
        using blk_ranges_in bs(2) that by blast+
      then show ?thesis using that(3) by (simp add: blk_before_def word_le_nat_alt rg_disjoint_def to_range_def)
    qed
  qed
  moreover have "rg_disjoint (to_range ?r0) (to_range v)" if "b \<in> set ?bs" "v \<in> set (blk_ranges ?attr b)" for b v
  proof -
    have "unat (blk_start b) \<le> unat (mr_start v)" using blk_ranges_in(1) bs(2) that by blast
    moreover have "rg_start (to_range v) = mr_start v" by (simp add: to_range_def)
    ultimately show ?thesis using bs(2) [OF that(1)] by (simp add: rg_disjoint_def r0 word_le_nat_alt)
  qed
  ultimately show "sorted_wrt (\<lambda>u v. rg_disjoint (to_range u) (to_range v)) (our_ranges s)"
    unfolding our_ranges_def by auto
qed

lemma nonempty_ok: "mr_len r \<noteq> 0 \<Longrightarrow> rg_end (to_range r) \<le> low_top \<Longrightarrow> rg_ok (to_range r)"
  by (simp add: rg_ok_def to_range_def low_top_def unat_gt_0)

lemma reported_ok:
  assumes wf: "bmem_wf s" and ds: "descs_ok ds"
    and rs: "map snd rs = nonempty (concat (map ext_range ds)) @ nonempty (concat (map uefi_range ds)) @ nonempty (our_ranges s)"
  shows "params_ok low_top rs"
proof -
  let ?R = "\<lambda>u v. rg_apart low_top (to_range u) (to_range v)"
  let ?A = "concat (map ext_range ds)" and ?B = "concat (map uefi_range ds)" and ?C = "our_ranges s"
  have d: "NumberOfPages d \<noteq> 0" "desc_end d \<le> 2 ^ 64" if "d \<in> set ds" for d
    using ds that by (auto simp: descs_ok_def list_all_iff)
  have A: "rg_ok (to_range r) \<and> low_top \<le> unat (rg_start (to_range r))" if "r \<in> set ?A" for r
    using that ext_range_in(1,2) d by (fastforce simp: to_range_def)
  have B: "rg_end (to_range r) \<le> low_top \<and> rg_e820_type (to_range r) \<noteq> E820_RAM" if "r \<in> set ?B" for r
    using that uefi_range_in by (fastforce simp: to_range_def)
  note C = our_ranges_in [OF wf]
  have BC: "rg_end (to_range v) \<le> low_top" if "v \<in> set ?B \<union> set ?C" for v using that B C(1) by blast
  have AA: "sorted_wrt ?R ?A"
  proof (rule sorted_wrt_concat_map)
    show "sorted_wrt (\<lambda>d e. desc_end d \<le> unat (PhysicalStart e) \<or> desc_end e \<le> unat (PhysicalStart d)) ds"
      using ds by (simp add: descs_ok_def)
    show "sorted_wrt ?R (ext_range x)" for x by (simp add: ext_range_def Let_def)
    show "?R u v" if "x \<in> set ds" "y \<in> set ds" "desc_end x \<le> unat (PhysicalStart y) \<or> desc_end y \<le> unat (PhysicalStart x)"
      "u \<in> set (ext_range x)" "v \<in> set (ext_range y)" for x y u v
      using that(3) ext_range_in(3,4) [OF d(1) [OF that(1)] d(2) [OF that(1)] that(4)]
        ext_range_in(3,4) [OF d(1) [OF that(2)] d(2) [OF that(2)] that(5)]
      by (auto simp: rg_apart_def rg_disjoint_def to_range_def)
  qed
  have AX: "?R u v" if "u \<in> set ?A" "v \<in> set ?B \<union> set ?C" for u v
    using A [OF that(1)] BC [OF that(2)] by (auto simp: rg_apart_def rg_disjoint_def)
  have BX: "?R u v" if "u \<in> set ?B" "v \<in> set ?B \<union> set ?C" for u v
    using B [OF that(1)] BC [OF that(2)] by (auto simp: rg_apart_def)
  have CC: "sorted_wrt ?R ?C" using C(2) by (auto elim!: sorted_wrt_mono_rel [rotated] simp: rg_apart_def)
  have BB: "sorted_wrt ?R ?B"
    unfolding sorted_wrt_iff_nth_less using BX by (meson UnI1 less_trans nth_mem)
  have sub: "set (nonempty xs) \<subseteq> set xs" for xs by (auto simp: nonempty_def)
  have "sorted_wrt ?R (nonempty xs)" if "sorted_wrt ?R xs" for xs
    using that unfolding nonempty_def by (rule sorted_wrt_filter)
  then have "sorted_wrt ?R (nonempty ?A)" "sorted_wrt ?R (nonempty ?B)" "sorted_wrt ?R (nonempty ?C)"
    using AA BB CC by blast+
  moreover have "\<forall>u\<in>set (nonempty ?B). \<forall>v\<in>set (nonempty ?C). ?R u v" using BX sub by blast
  moreover have "\<forall>u\<in>set (nonempty ?A). \<forall>v\<in>set (nonempty ?B @ nonempty ?C). ?R u v"
    unfolding set_append using AX sub by blast
  ultimately have "sorted_wrt ?R (nonempty ?A @ nonempty ?B @ nonempty ?C)"
    unfolding sorted_wrt_append by blast
  moreover have "rg_ok (to_range r)" if "r \<in> set (nonempty ?A @ nonempty ?B @ nonempty ?C)" for r
  proof (cases "r \<in> set ?A")
    case True
    then show ?thesis using A by blast
  next
    case False
    then have "mr_len r \<noteq> 0" "r \<in> set ?B \<union> set ?C" using that by (auto simp: nonempty_def)
    then show ?thesis using BC nonempty_ok by blast
  qed
  ultimately show ?thesis unfolding params_ok_map rs sorted_wrt_map by (auto simp: list_all_iff)
qed

subsection \<open>Properties\<close>

text \<open>
  From a list of boot parameters whose ranges overlap below \<open>B\<close> only, \<^verbatim>\<open>mem_map_init\<close> either
  halts, and then no range of RAM below 4 GiB can hold the map, or it returns a map that satisfies
  the allocator's invariant and in which the RAM is exactly the RAM of the parameters without
  the space of the map, cut from the top of the highest suitable range. It never writes
  outside that space.
\<close>

lemma mem_map_init_total:
  assumes "bparm_list st ns" and "params_ok B (mrngs (memory st) ns)"
  shows "\<exists>res. mem_map_init (memory st) raw (ucast (bparm_get st)) = Some res \<and>
    (let rs = mrngs (memory st) ns; need = map_space (length rs) in
     res = Inl Hlt \<and> (\<forall>(a, r)\<in>set rs. \<not> eligible need r) \<or>
     (\<exists>s c r. res = Inr s \<and> mm_wf_at B s \<and> (c, r) \<in> set rs \<and> eligible need r \<and>
        (\<forall>(a, r')\<in>set rs. eligible need r' \<longrightarrow> mr_start r' \<le> mr_start r) \<and>
        mm_free s = params_ram rs - map_bytes need r))"
proof -
  let ?m = "memory st" and ?rs = "mrngs (memory st) ns"
  have ok: "nodes_ok ?m ns" and head: "bparm_get st = next_of ns"
    using assms(1) by (auto simp: bparm_list_def bparm_get_def)
  have n: "length ?rs \<le> 65536" using nodes_ok_length [OF ok] mrngs_length [of ?m ns] by linarith
  note d = mrngs_distinct [OF ok]
  from mem_map_init_cases [OF ok, of raw] show ?thesis
  proof (elim disjE exE conjE)
    fix c r s
    assume c: "(c, r) \<in> set ?rs" "eligible (map_space (length ?rs)) r"
      "\<forall>(a, r')\<in>set ?rs. eligible (map_space (length ?rs)) r' \<longrightarrow> mr_start r' \<le> mr_start r"
      and run: "mem_map_init ?m raw (ucast (next_of ns)) = Some (Inr s)" and b: "built_from ?rs c r s"
    show ?thesis
      using run head c built_from_wf [OF b assms(2) d c(1,2) n] built_from_free [OF b assms(2) d c(1,2)]
      by (simp add: Let_def) blast
  qed (simp add: head Let_def)
qed

subsection \<open>Witness: the map that the example hand-over leaves\<close>

lemma hand_over_ex_ranges:
  "nonempty (concat (map ext_range hand_over_map)) @ nonempty (concat (map uefi_range hand_over_map)) @
      nonempty (our_ranges (bmem bparm_ex)) =
    [\<lparr> mr_start = 0x100000, mr_len = 0x100000, mr_e820_type = 1, mr_e820_ext_attr = 1, mr_uefi_attr = 15 \<rparr>,
     \<lparr> mr_start = 0x1000, mr_len = 0x9e000, mr_e820_type = 2, mr_e820_ext_attr = 1, mr_uefi_attr = 15 \<rparr>,
     \<lparr> mr_start = 0x9f000, mr_len = 0x1000, mr_e820_type = 2, mr_e820_ext_attr = 1, mr_uefi_attr = 15 \<rparr>,
     \<lparr> mr_start = 0xe0000, mr_len = 0x1000, mr_e820_type = 2, mr_e820_ext_attr = 1, mr_uefi_attr = 15 \<rparr>,
     \<lparr> mr_start = 0, mr_len = 0x9f000, mr_e820_type = 1, mr_e820_ext_attr = 1, mr_uefi_attr = 8 \<rparr>,
     \<lparr> mr_start = 0xe0000, mr_len = 0x1000, mr_e820_type = 1, mr_e820_ext_attr = 1, mr_uefi_attr = 8 \<rparr>]"
  by (simp add: nonempty_def hand_over_map_def ext_range_def uefi_range_def our_ranges_def blk_ranges_def our_range_def
        bparm_ex_def bmem_ex_def live_def Let_def is_boot_or_free_type_def EfiLoaderCode_def EfiLoaderData_def
        EfiBootServicesCode_def EfiBootServicesData_def EfiConventionalMemory_def EfiACPIReclaimMemory_def
        EfiACPIMemoryNVS_def EfiPersistentMemory_def EfiPalCode_def uefi_e820_type_def ext_e820_type_def
        E820_RAM_def E820_RESERVED_def)

lemma hand_over_map_ok: "descs_ok hand_over_map"
  by (simp add: descs_ok_def hand_over_map_def desc_end_def)

lemma hand_over_ex_params:
  "\<exists>st nodes. bparm_list st nodes \<and> params_ok low_top (mrngs (memory st) nodes) \<and>
     map snd (mrngs (memory st) nodes) = nonempty (concat (map ext_range hand_over_map)) @
       nonempty (concat (map uefi_range hand_over_map)) @ nonempty (our_ranges (bmem bparm_ex))"
proof -
  obtain kib st where r: "prepare_to_hand_over (Some hand_over_map) 0 bparm_ex = Inr (kib, st)"
    "num_blks (bmem st) = num_blks (bmem bparm_ex)" using hand_over_ex by blast
  obtain nodes where nodes: "bparm_list st nodes" "map snd (mrngs (memory st) nodes) =
      nonempty (concat (map ext_range hand_over_map)) @ nonempty (concat (map uefi_range hand_over_map)) @
      nonempty (our_ranges (bmem bparm_ex))"
    using handed_over_ranges [OF bparm_ex_rep _ r] by auto
  have "bmem_wf (bmem bparm_ex)" by (simp add: bparm_ex_def bmem_ex_wf)
  then show ?thesis using nodes reported_ok [OF _ hand_over_map_ok nodes(2)] by blast
qed

end
