(* ===== verification/Mem_Init.thy ===== *)
theory Mem_Init
  imports Va_Example Mem_Map_Init
begin

text \<open>
  \<^verbatim>\<open>mem_init\<close> of \<^verbatim>\<open>stage2/mem.c\<close>: from the boot parameters to virtual memory. The physical memory
  map is built from the parameters, and virtual memory is started from the map.
\<close>

unbundle bit_operations_syntax

text \<open>The parameters' raw arrays are what the space for them holds before it is written.\<close>

definition mem_init :: "(nat \<Rightarrow> mem_range) \<Rightarrow> (nat \<Rightarrow> va_range) \<Rightarrow> u32 \<Rightarrow> vm \<Rightarrow> vm res option" where
  "mem_init raw raw' bparms s =
     bindo (mem_map_init (vm_mem s) raw bparms) (\<lambda>mp. va_init raw' (s\<lparr> vm_map := mp \<rparr>))"

subsection \<open>The memory that was reported\<close>

definition params_shape :: "(nat \<times> bdat_mem_range) list \<Rightarrow> (nat \<times> u64) set" where
  "params_shape rs = (\<Union>r\<in>set (map snd rs). rg_bytes (to_range r) \<times> {mr_uefi_attr r})"

text \<open>The holes of a set of bytes, as \<open>holes\<close> are those of a map.\<close>

definition hole_addrs :: "nat set \<Rightarrow> nat set" where
  "hole_addrs C = {a. 2 ^ 20 \<le> a \<and> a < 2 ^ 32 \<and> (\<exists>b\<in>C. b < a) \<and> (\<forall>b\<in>C. b div 4096 \<noteq> a div 4096)}"

lemma holes_addrs: "holes mp = hole_addrs (fst ` shape mp)"
  by (simp only: holes_def hole_addrs_def covered_shape)

lemma not_hole: "b \<in> C \<Longrightarrow> b \<notin> hole_addrs C"
  by (auto simp: hole_addrs_def)

lemma expand_shape:
  assumes "a = c \<longrightarrow> eligible need r" and "a = c \<longrightarrow> addr = ucast (mr_start r + mr_len r - ucast need)" and "0 < unat need"
  shows "(\<Union>e\<in>set (expand need c addr (a, r)). rg_bytes e \<times> {rg_uefi_attr e}) =
    rg_bytes (to_range r) \<times> {mr_uefi_attr r}"
proof (cases "a = c")
  case True
  then have e: "unat (mr_start r) + unat (mr_len r) \<le> 2 ^ 32" "unat need \<le> unat (mr_len r)"
    using assms by (simp_all add: eligible_def)
  have d: "unat (mr_len r - ucast need) = unat (mr_len r) - unat need"
    using e(2) by (subst unat_sub) (simp_all add: word_le_nat_alt)
  have "unat (mr_start r + mr_len r) = unat (mr_start r) + unat (mr_len r)"
    using e(1) by (intro unat_add_nowrap) simp
  then have "unat (mr_start r + mr_len r - ucast need) = unat (mr_start r) + unat (mr_len r) - unat need"
    using e(2) by (subst unat_sub) (simp_all add: word_le_nat_alt)
  moreover have "unat (mr_start r) + unat (mr_len r) - unat need < 2 ^ 32" using e assms(3) by linarith
  ultimately have u: "unat addr = unat (mr_start r) + unat (mr_len r) - unat need"
    using assms(2) True by (simp add: unat_ucast_down)
  have nz: "mr_len r - ucast need = 0 \<longleftrightarrow> unat need = unat (mr_len r)"
    using d e(2) by (auto simp: word_unat_eq_iff)
  let ?S = "unat (mr_start r)" and ?L = "unat (mr_len r)" and ?N = "unat need"
  have "{?S..<?S + (?L - ?N)} \<union> {?S + ?L - ?N..<?S + ?L - ?N + ?N} = {?S..<?S + ?L}" using e(2) by auto
  then show ?thesis
    using True e d u nz by (auto simp: expand_def to_range_def rg_bytes_def rg_end_def)
qed (simp add: expand_def to_range_def)

lemma built_from_shape:
  assumes b: "built_from rs c r s" and d: "distinct (map fst rs)" and c: "(c, r) \<in> set rs"
    and el: "eligible (map_space (length rs)) r" and n: "length rs \<le> 65536"
  shows "shape s = params_shape rs" and "max_mem_ranges s < 2 ^ 29"
proof -
  let ?need = "map_space (length rs)"
  let ?addr = "ucast (mr_start r + mr_len r - ucast ?need) :: u32"
  have bf: "mset (ranges s) = mset (concat (map (expand ?need c ?addr) rs))" "unat (max_mem_ranges s) = map_room (length rs)"
    using b by (simp_all add: built_from_def Let_def)
  have pos: "0 < unat ?need" using room_computed(3,5) [OF n] by simp
  have key: "r' = r" if "(c, r') \<in> set rs" for r' using d that c by (rule eq_key_imp_eq_value)
  have "(\<Union>e\<in>set (expand ?need c ?addr x). rg_bytes e \<times> {rg_uefi_attr e}) =
      rg_bytes (to_range (snd x)) \<times> {mr_uefi_attr (snd x)}" if x: "x \<in> set rs" for x
  proof -
    obtain a r' where a: "x = (a, r')" by fastforce
    have "a = c \<longrightarrow> r' = r" using key x by (auto simp: a)
    then show ?thesis using expand_shape [of a c ?need r' ?addr] el pos by (simp add: a)
  qed
  moreover have "set (ranges s) = (\<Union>x\<in>set rs. set (expand ?need c ?addr x))"
    using mset_eq_setD [OF bf(1)] by simp
  then have "shape s = (\<Union>x\<in>set rs. \<Union>e\<in>set (expand ?need c ?addr x). rg_bytes e \<times> {rg_uefi_attr e})"
    unfolding shape_def by simp
  ultimately show "shape s = params_shape rs" by (simp add: params_shape_def)
  show "max_mem_ranges s < 2 ^ 29" using bf(2) n by (simp add: word_less_nat_alt map_room_def)
qed

lemma mem_map_init_shape:
  assumes l: "bparm_list st ns" and p: "params_ok B (mrngs (memory st) ns)"
  shows "yields (\<lambda>e. e = Hlt) (mem_map_init (memory st) raw (ucast (bparm_get st))) (\<lambda>mp. mm_wf_at B mp \<and>
    max_mem_ranges mp < 2 ^ 29 \<and> shape mp = params_shape (mrngs (memory st) ns))"
proof -
  let ?m = "memory st" and ?rs = "mrngs (memory st) ns"
  have ok: "nodes_ok ?m ns" and head: "bparm_get st = next_of ns"
    using l by (auto simp: bparm_list_def bparm_get_def)
  have n: "length ?rs \<le> 65536" using nodes_ok_length [OF ok] mrngs_length [of ?m ns] by linarith
  note d = mrngs_distinct [OF ok]
  from mem_map_init_cases [OF ok, of raw] show ?thesis
  proof (elim disjE exE conjE)
    fix c r s
    assume c: "(c, r) \<in> set ?rs" "eligible (map_space (length ?rs)) r"
      and run: "mem_map_init ?m raw (ucast (next_of ns)) = Some (Inr s)" and b: "built_from ?rs c r s"
    show ?thesis
      using built_from_wf [OF b p d c n] built_from_shape [OF b d c n] by (simp add: head run)
  qed (simp add: yields_def head)
qed

text \<open>Why \<^verbatim>\<open>mem_init\<close> may fail.\<close>

definition mem_init_error :: "mem_map res option \<Rightarrow> err \<Rightarrow> bool" where
  "mem_init_error mi e \<longleftrightarrow> e = Hlt \<or>
     e = Out_of_bounds \<and> (\<exists>mp. mi = Some (Inr mp) \<and> out_of_ram mp (va_reqs mp (4 + 2048)))"

lemma mem_init_yields:
  assumes l: "bparm_list st ns" and p: "params_ok B (mrngs (memory st) ns)" "B \<le> low_top" and m: "vm_mem s = memory st"
    and h: "hole_addrs (fst ` params_shape (mrngs (memory st) ns)) \<noteq> {}"
  shows "yields (mem_init_error (mem_map_init (memory st) raw (ucast (bparm_get st))))
    (mem_init raw raw' (ucast (bparm_get st)) s)
    (\<lambda>s'. \<exists>mp. shape mp = params_shape (mrngs (memory st) ns) \<and> va_started B mp s')"
proof -
  let ?mi = "mem_map_init (memory st) raw (ucast (bparm_get st))"
  obtain r where r: "?mi = Some r" "\<And>e. r = Inl e \<Longrightarrow> e = Hlt" "\<And>mp. r = Inr mp \<Longrightarrow> mm_wf_at B mp \<and>
      max_mem_ranges mp < 2 ^ 29 \<and> shape mp = params_shape (mrngs (memory st) ns)"
    using mem_map_init_shape [OF l p(1), of raw] unfolding yields_def by blast
  show ?thesis
  proof (cases r)
    case (Inl e)
    then have "mem_init raw raw' (ucast (bparm_get st)) s = Some (Inl Hlt)"
      using r(1) r(2) [OF Inl] m by (simp add: mem_init_def)
    then show ?thesis by (simp add: yields_def mem_init_error_def)
  next
    case (Inr mp)
    note mp = r(3) [OF Inr]
    have "yields (va_error (vm_map (s\<lparr> vm_map := mp \<rparr>))) (va_init raw' (s\<lparr> vm_map := mp \<rparr>)) (va_started B (vm_map (s\<lparr> vm_map := mp \<rparr>)))"
      using mp h p(2) by (intro va_init_yields) (simp_all add: holes_addrs)
    then have "yields (mem_init_error ?mi) (va_init raw' (s\<lparr> vm_map := mp \<rparr>))
        (\<lambda>s'. \<exists>mp. shape mp = params_shape (mrngs (memory st) ns) \<and> va_started B mp s')"
      by (rule yields_mono) (use mp r(1) Inr in \<open>auto simp: mem_init_error_def va_error_def\<close>)
    then show ?thesis using r(1) Inr m by (simp add: mem_init_def)
  qed
qed

subsection \<open>The machine after start-up\<close>

lemma started_identity:
  assumes st: "va_started B mp s" and a: "unat a \<in> fst ` shape mp" "\<exists>h\<in>holes mp. unat a < h"
  shows "\<exists>fl. translate s a = Some (ucast a, fl)"
proof -
  have nh: "unat a \<notin> holes mp" using a(1) by (force simp: holes_def covered_shape)
  have "own_attr mp s a \<or> plain_attr mp s a"
    using st nh unfolding va_started_def by (meson)
  then show ?thesis
  proof
    assume "plain_attr mp s a"
    then show ?thesis using a(2) unfolding plain_attr_def by (simp only: if_True) blast
  qed (auto simp: own_attr_def)
qed

subsection \<open>Properties\<close>

text \<open>
  C4. Let the physical memory map satisfy the allocator's invariant, with ranges overlapping below
  \<open>B\<close> only (at most 1 MiB; 0 if none overlap), with an array of fewer than 2 to the 29 entries, and with at
  least one hole: a page at or above 1 MiB and above the lowest range that no range touches.
  Then \<^verbatim>\<open>va_init\<close> always ends, in one of three ways. It halts. Or it reads in front of the array of ranges,
  but only when the RAM does not hold what \<^verbatim>\<open>va_init\<close> may allocate at most: its array, the page-directory
  pointer table, four page directories and 2048 page tables. Or it returns; then the invariant of virtual
  memory holds, the unused addresses are exactly the holes, paging is on with the new tables, and every
  other address is determined. A page where memory at or above \<open>B\<close> is not write-back cacheable maps to
  itself with the attributes of such memory on it; any other page below the highest hole maps to
  itself (where there is such memory below \<open>B\<close> only, with or without its attributes); and the remaining
  pages above the highest hole are not mapped at all.
\<close>

theorem va_init_correct:
  assumes "mm_wf_at B (vm_map s)" and "B \<le> low_top" and "max_mem_ranges (vm_map s) < 2 ^ 29" and "holes (vm_map s) \<noteq> {}"
  shows "\<exists>r. va_init raw s = Some r \<and>
    (\<forall>e. r = Inl e \<longrightarrow> e = Hlt \<or>
       e = Out_of_bounds \<and> out_of_ram (vm_map s) (va_reqs (vm_map s) (4 + 2048))) \<and>
    (\<forall>s'. r = Inr s' \<longrightarrow>
       va_wf s' \<and> va_unused s' = holes (vm_map s) \<and> cr3 s' = pdpt s' \<and> bit (cr0 s') 31 \<and> bit (cr4 s') 5 \<and>
       (\<forall>a. unat a \<notin> holes (vm_map s) \<longrightarrow>
          (if \<exists>b x. (b, x) \<in> nonwb (vm_map s) \<and> B \<le> b \<and> b div 4096 = unat a div 4096
           then own_attr (vm_map s) s' a
           else own_attr (vm_map s) s' a \<or> plain_attr (vm_map s) s' a)))"
  using va_init_yields [OF assms, of raw] unfolding yields_def va_started_def va_error_def by blast

theorem va_init_correct_witness:
  "mm_wf_at 0 (vm_map va_ex) \<and> max_mem_ranges (vm_map va_ex) < 2 ^ 29 \<and> 0x400000 \<in> holes (vm_map va_ex) \<and>
   (\<exists>s'. va_init (\<lambda>_. \<lparr> vr_start = 0, vr_len = 0 \<rparr>) va_ex = Some (Inr s') \<and> va_wf s' \<and> 0x400000 \<in> va_unused s' \<and>
     translate s' 0x80000123 = Some (0x80000123, flag_bits PTE_CD) \<and> translate s' 0x400000 = None)"
proof -
  let ?raw = "\<lambda>_. \<lparr> vr_start = 0, vr_len = 0 \<rparr>"
  have mp: "vm_map va_ex = va_ex0" by (simp add: va_ex_def)
  have mx: "max_mem_ranges (vm_map va_ex) < 2 ^ 29" unfolding mp by (simp add: va_ex0_def va_ex_map_def)
  have h: "0x400000 \<in> holes (vm_map va_ex)" unfolding mp by (rule va_ex_hole)
  obtain s' where s': "va_init ?raw va_ex = Some (Inr s')" using va_ex_run by blast
  have ne: "holes (vm_map va_ex) \<noteq> {}" using h by blast
  have le0: "0 \<le> low_top" by simp
  have wf0: "mm_wf_at 0 (vm_map va_ex)" using va_ex_wf by (simp only: mm_wf_iff)
  note r = va_init_correct [OF wf0 le0 mx ne, of ?raw, unfolded s']
  have sh: "(b, x) \<in> nonwb va_ex0 \<longleftrightarrow> 0x80000000 \<le> b \<and> b < 0x80200000 \<and> x = 1" for b x
    by (auto simp: nonwb_def shape_def va_ex_ranges rg_bytes_def rg_end_def va_ex_device_def ram_range_def
        uefi_attr_to_pte_flags_def EFI_MEMORY_WB_def EFI_MEMORY_WT_def PTE_CD_def)
  have fl: "uefi_attr_to_pte_flags 1 = PTE_CD"
    by (simp add: uefi_attr_to_pte_flags_def EFI_MEMORY_WB_def EFI_MEMORY_WT_def)
  have dev: "\<exists>b x. (b, x) \<in> nonwb (vm_map va_ex) \<and> 0 \<le> b \<and> b div 4096 = unat (0x80000123 :: u32) div 4096"
    unfolding mp sh by (intro exI [of _ "0x80000000"] exI [of _ 1]) simp
  have "0x80000000 \<in> covered va_ex0" by (simp add: covered_def va_ex_ranges rg_bytes_def rg_end_def va_ex_device_def ram_range_def)
  then have nh: "unat (0x80000123 :: u32) \<notin> holes (vm_map va_ex)" unfolding mp by (force simp: holes_def)
  have started: "va_wf s' \<and> va_unused s' = holes (vm_map va_ex) \<and> cr3 s' = pdpt s' \<and> bit (cr0 s') 31 \<and> bit (cr4 s') 5 \<and>
       (\<forall>a. unat a \<notin> holes (vm_map va_ex) \<longrightarrow>
          (if \<exists>b x. (b, x) \<in> nonwb (vm_map va_ex) \<and> 0 \<le> b \<and> b div 4096 = unat a div 4096
           then own_attr (vm_map va_ex) s' a
           else own_attr (vm_map va_ex) s' a \<or> plain_attr (vm_map va_ex) s' a))"
    using r by blast
  have all: "va_wf s'" "va_unused s' = holes (vm_map va_ex)" using started by blast+
  note outside = started [THEN conjunct2, THEN conjunct2, THEN conjunct2, THEN conjunct2, THEN conjunct2, rule_format]
  have "own_attr (vm_map va_ex) s' 0x80000123"
    using outside [OF nh] unfolding if_P [OF dev] .
  then have "translate s' 0x80000123 = Some (0x80000123, flag_bits PTE_CD)" unfolding own_attr_def mp sh by (auto simp: fl)
  moreover have "translate s' 0x400000 = None" using all(1,2) h by (simp add: va_wf_def)
  ultimately show ?thesis using wf0 mx h s' all(1,2) by blast
qed

text \<open>
  C3. From the list of boot parameters on. Let its ranges end at or below 2 to the 64 and overlap below
  1 MiB only, and there not as RAM, which is what stage 1 reports (\<open>memory_map_end_to_end\<close>), and let
  them leave a hole. Then \<^verbatim>\<open>mem_init\<close> always ends: it halts, or it reads in front of the array of
  ranges because the RAM of the map it built does not hold what \<^verbatim>\<open>va_init\<close> may allocate at most, or it
  returns. After it has returned, every sequence of mappings and unmappings keeps virtual memory in
  order: live blocks lie in the holes of the memory that was reported, do not overlap, and
  translate byte by byte to what they were made for, while every byte of the reported
  memory below the highest hole translates to itself.
\<close>

theorem mem_init_sessions:
  assumes "bparm_list st ns" and "params_ok low_top (mrngs (memory st) ns)" and "vm_mem s = memory st"
    and "hole_addrs (fst ` params_shape (mrngs (memory st) ns)) \<noteq> {}"
  shows "\<exists>r. mem_init raw raw' (ucast (bparm_get st)) s = Some r \<and>
    (\<forall>e. r = Inl e \<longrightarrow> e = Hlt \<or> e = Out_of_bounds \<and>
       (\<exists>mp. mem_map_init (memory st) raw (ucast (bparm_get st)) = Some (Inr mp) \<and>
          out_of_ram mp (va_reqs mp (4 + 2048)))) \<and>
    (\<forall>s' s'' bs. r = Inr s' \<and> va_step\<^sup>*\<^sup>* (s', []) (s'', bs) \<longrightarrow>
      (let C = fst ` params_shape (mrngs (memory st) ns) in
       (\<forall>b\<in>set bs. vb_client b \<subseteq> hole_addrs C \<and> (\<forall>i<unat (vb_sz b).
          translate s'' (vb_va b + word_of_nat i) = Some (vb_pa b + word_of_nat i, flag_bits (vb_flags b)))) \<and>
       pairwise_disjoint (map vb_client bs) \<and>
       (\<forall>a. unat a \<in> C \<and> (\<exists>h\<in>hole_addrs C. unat a < h) \<longrightarrow> (\<exists>fl. translate s'' a = Some (ucast a, fl)))))"
proof -
  let ?sh = "params_shape (mrngs (memory st) ns)"
  obtain r where r: "mem_init raw raw' (ucast (bparm_get st)) s = Some r"
    and sp: "\<And>s'. r = Inr s' \<Longrightarrow> \<exists>mp. shape mp = ?sh \<and> va_started low_top mp s'"
    and err: "\<And>e. r = Inl e \<Longrightarrow> mem_init_error (mem_map_init (memory st) raw (ucast (bparm_get st))) e"
    using mem_init_yields [OF assms(1,2) order_refl assms(3,4), of raw raw'] unfolding yields_def by blast
  have "(\<forall>b\<in>set bs. vb_client b \<subseteq> hole_addrs (fst ` ?sh) \<and> (\<forall>i<unat (vb_sz b).
          translate s'' (vb_va b + word_of_nat i) = Some (vb_pa b + word_of_nat i, flag_bits (vb_flags b)))) \<and>
       pairwise_disjoint (map vb_client bs) \<and>
       (\<forall>a. unat a \<in> fst ` ?sh \<and> (\<exists>h\<in>hole_addrs (fst ` ?sh). unat a < h) \<longrightarrow> (\<exists>fl. translate s'' a = Some (ucast a, fl)))"
    if s': "r = Inr s'" and reach: "va_step\<^sup>*\<^sup>* (s', []) (s'', bs)" for s' s'' bs
  proof -
    obtain mp where mp: "shape mp = ?sh" "va_started low_top mp s'" using sp [OF s'] by blast
    have h: "holes mp = hole_addrs (fst ` ?sh)" unfolding holes_addrs mp(1) ..
    have wf: "va_wf s'" and un: "va_unused s' = holes mp" using mp(2) by (simp_all add: va_started_def)
    note safe = session_inv_safe [OF session_inv_reach [OF reach wf], unfolded un h]
    have "\<exists>fl. translate s'' a = Some (ucast a, fl)"
      if a: "unat a \<in> fst ` ?sh" "\<exists>k\<in>hole_addrs (fst ` ?sh). unat a < k" for a
    proof -
      have "unat a \<notin> hole_addrs (fst ` ?sh)" using a(1) by (rule not_hole)
      then have "translate s'' a = translate s' a" using safe(5) by blast
      then show ?thesis using started_identity [OF mp(2), unfolded mp(1) h, OF a] by simp
    qed
    then show ?thesis using safe(1-3) by blast
  qed
  moreover have "e = Hlt \<or> e = Out_of_bounds \<and>
       (\<exists>mp. mem_map_init (memory st) raw (ucast (bparm_get st)) = Some (Inr mp) \<and> out_of_ram mp (va_reqs mp (4 + 2048)))"
    if "r = Inl e" for e using err [OF that] by (simp only: mem_init_error_def)
  ultimately show ?thesis unfolding r Let_def by blast
qed

theorem mem_init_sessions_witness:
  "\<exists>st nodes r. bparm_list st nodes \<and> params_ok low_top (mrngs (memory st) nodes) \<and>
     0x200000 \<in> hole_addrs (fst ` params_shape (mrngs (memory st) nodes)) \<and>
     mem_init (\<lambda>_. ram_range 0 0) (\<lambda>_. \<lparr> vr_start = 0, vr_len = 0 \<rparr>) (ucast (bparm_get st))
       (va_ex\<lparr> vm_mem := memory st \<rparr>) = Some r"
proof -
  obtain st nodes where h: "bparm_list st nodes" "params_ok low_top (mrngs (memory st) nodes)"
    "map snd (mrngs (memory st) nodes) = nonempty (concat (map ext_range hand_over_map)) @
       nonempty (concat (map uefi_range hand_over_map)) @ nonempty (our_ranges (bmem bparm_ex))"
    using hand_over_ex_params by blast
  have above: "0x200000 \<in> hole_addrs C" if "C \<subseteq> {0..<0x200000}" "0 \<in> C" for C
    using that by (force simp: hole_addrs_def)
  have "fst ` params_shape (mrngs (memory st) nodes) \<subseteq> {0..<0x200000}" and "0 \<in> fst ` params_shape (mrngs (memory st) nodes)"
    unfolding params_shape_def h(3) hand_over_ex_ranges
    by (simp_all add: image_Un to_range_def rg_bytes_def rg_end_def image_UN)
  then have hole: "0x200000 \<in> hole_addrs (fst ` params_shape (mrngs (memory st) nodes))"
    by (rule above)
  then have ne: "hole_addrs (fst ` params_shape (mrngs (memory st) nodes)) \<noteq> {}" by blast
  have m: "vm_mem (va_ex\<lparr> vm_mem := memory st \<rparr>) = memory st" by simp
  show ?thesis using mem_init_sessions [OF h(1,2) m ne] h(1,2) hole by blast
qed

end
