(* ===== verification/Rimg.thy ===== *)
theory Rimg
  imports Util
begin

text \<open>
  PCI option ROM images: the structures of \<^verbatim>\<open>pci.h\<close> and the three functions of
  \<^verbatim>\<open>stage1/pci.c\<close> that look for an image and its device list. A pointer to an image is the
  list of the bytes from there to the end of the object it lies in, a pointer into the image
  an offset, and a read behind the last byte is an error value, so that staying inside the
  image is a theorem. The lemmas show which images are accepted and that the fields read
  later lie inside the image.
\<close>

unbundle bit_operations_syntax

subsection \<open>Reading fields\<close>

definition buf16 :: "u8 list \<Rightarrow> nat \<Rightarrow> u16 res" where
  "buf16 bs off = (if off + 2 \<le> length bs then Inr (le_word (take 2 (drop off bs))) else Inl Out_of_bounds)"

definition buf32 :: "u8 list \<Rightarrow> nat \<Rightarrow> u32 res" where
  "buf32 bs off = (if off + 4 \<le> length bs then Inr (le_word (take 4 (drop off bs))) else Inl Out_of_bounds)"

text \<open>Offsets of the fields of \<^verbatim>\<open>rimg_hdr_t\<close> and \<^verbatim>\<open>rimg_pcir_t\<close>, which are packed.\<close>

definition hdr_sig :: nat where "hdr_sig = 0"
definition hdr_sz_legacy :: nat where "hdr_sz_legacy = 2"
definition hdr_pcir_off :: nat where "hdr_pcir_off = 0x18"
definition pcir_sig :: nat where "pcir_sig = 0"
definition pcir_pci_id :: nat where "pcir_pci_id = 4"
definition pcir_dev_ids_off :: nat where "pcir_dev_ids_off = 8"
definition pcir_pcir_sz :: nat where "pcir_pcir_sz = 10"
definition pcir_rev :: nat where "pcir_rev = 12"
definition pcir_class_if :: nat where "pcir_class_if = 13"
definition pcir_rimg_sz_hkib :: nat where "pcir_rimg_sz_hkib = 16"
definition pcir_type :: nat where "pcir_type = 20"
definition pcir_flags :: nat where "pcir_flags = 21"
definition pcir_max_rt_sz_hkib :: nat where "pcir_max_rt_sz_hkib = 22"

lemmas pcir_offsets = hdr_sig_def hdr_sz_legacy_def hdr_pcir_off_def pcir_sig_def pcir_pci_id_def
  pcir_dev_ids_off_def pcir_pcir_sz_def pcir_rev_def pcir_class_if_def pcir_rimg_sz_hkib_def
  pcir_type_def pcir_flags_def pcir_max_rt_sz_hkib_def

definition PCIR_SIG_PCIR :: u32 where
  "PCIR_SIG_PCIR = MAGIC32 (CHR ''P'') (CHR ''C'') (CHR ''I'') (CHR ''R'')"
definition PCIR_TYP_PCAT :: u8 where "PCIR_TYP_PCAT = 0x00"
definition PCIR_FLAGS_LAST_IMAGE :: u8 where "PCIR_FLAGS_LAST_IMAGE = 0x80"
definition PCIR_MIN_SZ :: u64 where "PCIR_MIN_SZ = 22"

subsection \<open>Finding the PCI data structure\<close>

text \<open>The result is the offset of the structure in the image, \<open>None\<close> for a null pointer.\<close>

definition rimg_find_pcir :: "u8 list \<Rightarrow> u64 \<Rightarrow> nat option res" where
  "rimg_find_pcir rimg rom_sz =
     (if rom_sz < ucast HKIBYTE then Inr None else
      bindr (buf16 rimg hdr_sig) (\<lambda>sig.
      if sig \<noteq> 0xaa55 then Inr None else
      bindr (buf16 rimg hdr_pcir_off) (\<lambda>pcir_off.
      if pcir_off = 0 then Inr None else
      if ucast pcir_off > rom_sz - PCIR_MIN_SZ then Inr None else
      let pcir = unat pcir_off in
      bindr (buf32 rimg (pcir + pcir_sig)) (\<lambda>psig.
      if psig \<noteq> PCIR_SIG_PCIR then Inr None else
      bindr (buf16 rimg (pcir + pcir_pcir_sz)) (\<lambda>pcir_sz.
      if ucast pcir_sz < PCIR_MIN_SZ \<or> ucast pcir_sz > rom_sz - ucast pcir_off then Inr None else
      bindr (buf16 rimg (pcir + pcir_rimg_sz_hkib)) (\<lambda>rimg_sz_hkib.
      if rimg_sz_hkib = 0 \<or> ucast rimg_sz_hkib > rom_sz div ucast HKIBYTE then Inr None else
      let rimg_sz = (ucast (ucast rimg_sz_hkib * HKIBYTE) :: u64) in
      if ucast pcir_off > rimg_sz - PCIR_MIN_SZ \<or> ucast pcir_sz > rimg_sz - ucast pcir_off then Inr None else
      if length rimg < unat rimg_sz then Inl Out_of_bounds else
      if compute_cksum (take (unat rimg_sz) rimg) \<noteq> 0 then Inr None else Inr (Some pcir)))))))"

subsection \<open>The list of further device identifiers\<close>

text \<open>
  \<open>rimg\<close> holds the structure at offset \<open>pcir\<close> and ends at offset \<open>rimg_end\<close>. The loop looks for
  the terminating zero.
\<close>

function dev_id_scan :: "u8 list \<Rightarrow> nat \<Rightarrow> nat \<Rightarrow> bool res" where
  "dev_id_scan rimg rimg_end p =
     (if p \<ge> rimg_end \<or> p + 1 \<ge> rimg_end then Inr False
      else bindr (arr_get rimg p) (\<lambda>b0.
        if b0 \<noteq> 0 then dev_id_scan rimg rimg_end (p + 2)
        else bindr (arr_get rimg (p + 1)) (\<lambda>b1.
          if b1 \<noteq> 0 then dev_id_scan rimg rimg_end (p + 2) else Inr True)))"
  by pat_completeness auto
termination by (relation "measure (\<lambda>(rimg, rimg_end, p). rimg_end - p)") auto

declare dev_id_scan.simps [simp del]

definition rimg_pcir_find_dev_id_list :: "u8 list \<Rightarrow> nat \<Rightarrow> nat \<Rightarrow> nat option res" where
  "rimg_pcir_find_dev_id_list rimg pcir rimg_end =
     bindr (arr_get rimg (pcir + pcir_rev)) (\<lambda>rev.
     if rev < 3 then Inr None else
     bindr (buf16 rimg (pcir + pcir_dev_ids_off)) (\<lambda>dev_ids_off.
     if dev_ids_off = 0 then Inr None else
     let dev_ids = pcir + unat dev_ids_off in
     bindr (dev_id_scan rimg rimg_end dev_ids) (\<lambda>found. Inr (if found then Some dev_ids else None))))"

subsection \<open>An image without a PCI data structure\<close>

text \<open>\<^verbatim>\<open>rimg_find\<close>: the size of the image, 0 when there is none.\<close>

definition rimg_find :: "u8 list \<Rightarrow> u64 res" where
  "rimg_find rimg =
     bindr (buf16 rimg hdr_sig) (\<lambda>sig.
     if sig \<noteq> 0xaa55 then Inr 0 else
     bindr (arr_get rimg hdr_sz_legacy) (\<lambda>rimg_sz_hkib.
     if rimg_sz_hkib = 0 \<or> rimg_sz_hkib > 0x7f then Inr 0 else
     let rimg_sz = (ucast (ucast rimg_sz_hkib * HKIBYTE) :: u64) in
     if length rimg < unat rimg_sz then Inl Out_of_bounds else
     if compute_cksum (take (unat rimg_sz) rimg) \<noteq> 0 then Inr 0 else Inr rimg_sz))"

subsection \<open>Lemmas on fields\<close>

lemma le_word_high_bits: "bit (le_word bs :: 'a::len word) n \<Longrightarrow> n < 8 * length bs"
proof (induction bs arbitrary: n)
  case (Cons b bs)
  then consider "bit (ucast b :: 'a word) n" | "8 \<le> n" "bit (le_word bs :: 'a word) (n - 8)"
    by (auto simp: bit_simps)
  then show ?case
  proof cases
    case 1
    then have "bit b n" by (simp add: bit_simps)
    from bit_imp_le_length [OF this] show ?thesis by simp
  qed (use Cons.IH in fastforce)
qed simp

lemma le_bytes_le_word:
  "8 * length bs \<le> LENGTH('a::len) \<Longrightarrow> le_bytes (length bs) (le_word bs :: 'a word) = bs"
proof (induction bs)
  case (Cons b bs)
  let ?w = "le_word bs :: 'a word"
  have len: "8 * length bs + 8 \<le> LENGTH('a)" using Cons.prems by simp
  have "ucast (ucast b OR push_bit 8 ?w) = b"
    using len by (intro bit_word_eqI) (auto simp: bit_simps)
  moreover have "drop_bit 8 (ucast b OR push_bit 8 ?w) = ?w"
  proof (rule bit_word_eqI)
    fix n
    assume n: "n < LENGTH('a)"
    have "\<not> bit b (8 + n)" using bit_imp_le_length [of b "8 + n"] by auto
    moreover have "bit ?w n \<Longrightarrow> 8 + n < LENGTH('a)"
      using le_word_high_bits [of bs n, where ?'a = 'a] len by linarith
    ultimately show "bit (drop_bit 8 (ucast b OR push_bit 8 ?w)) n = bit ?w n"
      using n by (auto simp: bit_simps)
  qed
  ultimately show ?case using Cons.IH len by simp
qed simp

lemma le_word_eq_iff:
  "length bs = length cs \<Longrightarrow> 8 * length bs \<le> LENGTH('a::len) \<Longrightarrow>
     (le_word bs :: 'a word) = le_word cs \<longleftrightarrow> bs = cs"
  by (metis le_bytes_le_word)

lemma buf16_ok: "off + 2 \<le> length bs \<Longrightarrow> buf16 bs off = Inr (le_word (take 2 (drop off bs)))"
  by (simp add: buf16_def)

lemma buf32_ok: "off + 4 \<le> length bs \<Longrightarrow> buf32 bs off = Inr (le_word (take 4 (drop off bs)))"
  by (simp add: buf32_def)

definition le16 :: "u8 list \<Rightarrow> nat \<Rightarrow> nat" where
  "le16 bs off = unat (le_word (take 2 (drop off bs)) :: u16)"

lemma le16_lt: "le16 bs off < 65536"
  using unat_lt [of "le_word (take 2 (drop off bs)) :: u16"] by (simp add: le16_def)

lemma PCIR_value: "PCIR_SIG_PCIR = 0x52494350"
  by code_simp

lemma PCIR_bytes:
  assumes "p + 4 \<le> length bs"
  shows "(le_word (take 4 (drop p bs)) :: u32) = PCIR_SIG_PCIR \<longleftrightarrow>
    take 4 (drop p bs) = [0x50, 0x43, 0x49, 0x52]"
proof -
  have "PCIR_SIG_PCIR = le_word [0x50, 0x43, 0x49, 0x52]"
    by code_simp
  moreover have "length (take 4 (drop p bs)) = length [0x50, 0x43, 0x49, 0x52 :: u8]" using assms by simp
  ultimately show ?thesis
    using le_word_eq_iff [of "take 4 (drop p bs)" "[0x50, 0x43, 0x49, 0x52]", where ?'a = 32] assms by simp
qed

lemma unat_rimg_sz: "unat (ucast (ucast (hk :: u16) * HKIBYTE) :: u64) = 512 * unat hk"
proof -
  have "unat hk < 65536" using unat_lt [of hk] by simp
  moreover have "unat (ucast hk :: u32) = unat hk" by (simp add: unat_ucast_up)
  ultimately have "unat (ucast hk * HKIBYTE :: u32) = 512 * unat hk"
    by (subst unat_mult_lem [THEN iffD1]) (simp_all add: HKIBYTE_def)
  then show ?thesis by (simp add: unat_ucast_up)
qed

subsection \<open>Which images are accepted\<close>

text \<open>
  An image with a PCI data structure at offset \<open>p\<close>, in \<open>avail\<close> bytes: the signatures, an image
  length that is not 0 and fits, a data structure of at least 22 bytes inside the image, and
  bytes that add up to 0.
\<close>

definition image_len :: "u8 list \<Rightarrow> nat \<Rightarrow> nat" where
  "image_len rimg p = 512 * le16 rimg (p + 16)"

definition image_at :: "u8 list \<Rightarrow> nat \<Rightarrow> nat \<Rightarrow> bool" where
  "image_at rimg avail p \<longleftrightarrow>
     512 \<le> avail \<and> le16 rimg 0 = 0xaa55 \<and> p = le16 rimg 24 \<and> p \<noteq> 0 \<and>
     p + 22 \<le> image_len rimg p \<and> image_len rimg p \<le> avail \<and>
     take 4 (drop p rimg) = [0x50, 0x43, 0x49, 0x52] \<and>
     22 \<le> le16 rimg (p + 10) \<and> p + le16 rimg (p + 10) \<le> image_len rimg p \<and>
     sum_list (take (image_len rimg p) rimg) = 0"

lemma unat_PCIR_MIN_SZ: "unat PCIR_MIN_SZ = 22"
  by (simp add: PCIR_MIN_SZ_def)

lemma ucast16_gt_sub:
  fixes a :: u16 and b c :: u64
  assumes "c \<le> b"
  shows "ucast a > b - c \<longleftrightarrow> unat b < unat a + unat c"
proof -
  have "unat (b - c) = unat b - unat c" using assms by (rule unat_sub)
  moreover have "unat c \<le> unat b" using assms by (simp add: word_le_nat_alt)
  ultimately show ?thesis by (auto simp: word_less_nat_alt unat_ucast_up)
qed

lemma rimg_find_pcir_spec:
  assumes "unat rom_sz \<le> length rimg"
  shows "\<exists>r. rimg_find_pcir rimg rom_sz = Inr r \<and> (\<forall>p. r = Some p \<longleftrightarrow> image_at rimg (unat rom_sz) p)"
proof -
  let ?r = "unat rom_sz" and ?p = "le16 rimg 24"
  let ?n = "image_len rimg ?p" and ?k = "le16 rimg (?p + 10)" and ?hk = "le16 rimg (?p + 16)"
  let ?sz = "\<lambda>hk::u16. ucast (ucast hk * HKIBYTE) :: u64"
  let ?w = "\<lambda>off. le_word (take 2 (drop off rimg)) :: u16"
  have no: "?thesis" if "rimg_find_pcir rimg rom_sz = Inr None" "\<not> image_at rimg ?r ?p"
    using that by (auto simp: image_at_def)
  have w: "unat (?w off) = le16 rimg off" for off by (simp add: le16_def)
  have sig: "le_word (take 2 rimg) = (0xaa55 :: u16) \<longleftrightarrow> le16 rimg 0 = 0xaa55" by (simp add: word_unat_eq_iff le16_def)
  have off0: "?w 24 = 0 \<longleftrightarrow> ?p = 0" by (simp add: unat_eq_0 [symmetric] le16_def)
  have hk0: "?w (?p + 16) = 0 \<longleftrightarrow> ?hk = 0" by (simp add: unat_eq_0 [symmetric] le16_def)
  have small: "rom_sz < ucast HKIBYTE \<longleftrightarrow> ?r < 512"
    by (simp add: word_less_nat_alt HKIBYTE_def)
  have c2: "ucast (?w 24) > rom_sz - PCIR_MIN_SZ \<longleftrightarrow> ?r < ?p + 22" if "512 \<le> ?r"
    using that by (subst ucast16_gt_sub) (simp_all add: word_le_nat_alt unat_PCIR_MIN_SZ w)
  have c3: "ucast (?w (?p + 10)) < PCIR_MIN_SZ \<longleftrightarrow> ?k < 22"
    by (simp add: word_less_nat_alt unat_ucast_up unat_PCIR_MIN_SZ w)
  have c4: "ucast (?w (?p + 10)) > rom_sz - ucast (?w 24) \<longleftrightarrow> ?r < ?k + ?p" if "?p + 22 \<le> ?r"
    using that by (subst ucast16_gt_sub) (simp_all add: word_le_nat_alt unat_ucast_up w)
  have c5: "ucast (?w (?p + 16)) > rom_sz div ucast HKIBYTE \<longleftrightarrow> ?r div 512 < ?hk"
    by (simp add: word_less_nat_alt unat_ucast_up unat_div_distrib HKIBYTE_def w)
  have n: "unat (?sz (?w (?p + 16))) = ?n" by (simp add: unat_rimg_sz w image_len_def)
  have c6: "ucast (?w 24) > ?sz (?w (?p + 16)) - PCIR_MIN_SZ \<longleftrightarrow> ?n < ?p + 22" if "?hk \<noteq> 0"
    using that n by (subst ucast16_gt_sub) (simp_all add: word_le_nat_alt unat_PCIR_MIN_SZ w image_len_def)
  have c7: "ucast (?w (?p + 10)) > ?sz (?w (?p + 16)) - ucast (?w 24) \<longleftrightarrow> ?n < ?k + ?p"
    if "?p + 22 \<le> ?n"
    using that n by (subst ucast16_gt_sub) (simp_all add: word_le_nat_alt unat_ucast_up w)
  have sum: "compute_cksum (take ?n rimg) = 0 \<longleftrightarrow> sum_list (take ?n rimg) = 0"
    by (simp add: compute_cksum_eq)
  note ev = rimg_find_pcir_def Let_def pcir_offsets small buf16_def buf32_def sig off0 hk0 w c3 c5 n sum
  consider (a) "?r < 512 \<or> le16 rimg 0 \<noteq> 0xaa55 \<or> ?p = 0 \<or> ?r < ?p + 22"
    | (b) "512 \<le> ?r" "le16 rimg 0 = 0xaa55" "?p \<noteq> 0" "?p + 22 \<le> ?r" by linarith
  then show ?thesis
  proof cases
    case a
    then have "rimg_find_pcir rimg rom_sz = Inr None" using assms by (auto simp: ev c2)
    then show ?thesis using a by (intro no) (auto simp: image_at_def)
  next
    case b
    note le = b assms
    show ?thesis
    proof (cases "take 4 (drop ?p rimg) = [0x50, 0x43, 0x49, 0x52] \<and> 22 \<le> ?k \<and> ?k + ?p \<le> ?r \<and>
        ?hk \<noteq> 0 \<and> ?hk \<le> ?r div 512")
      case False
      then have "rimg_find_pcir rimg rom_sz = Inr None"
        using le by (auto simp: ev c2 c4 PCIR_bytes)
      moreover have "?hk \<le> ?r div 512" if "?n \<le> ?r" using that by (simp add: image_len_def)
      ultimately show ?thesis using False by (intro no) (auto simp: image_at_def image_len_def)
    next
      case True
      then have "512 * ?hk \<le> 512 * (?r div 512)" by simp
      then have nr: "?n \<le> ?r"
        unfolding image_len_def by (rule order_trans [OF _ times_div_less_eq_dividend])
      then have "rimg_find_pcir rimg rom_sz =
          Inr (if ?n < ?p + 22 \<or> ?n < ?k + ?p \<or> sum_list (take ?n rimg) \<noteq> 0 then None else Some ?p)"
        using le True by (cases "?n < ?p + 22") (simp_all add: ev c2 c4 c6 c7 PCIR_value)
      then show ?thesis using le True nr by (auto simp: image_at_def)
    qed
  qed
qed

lemma rimg_find_pcir_Some:
  assumes "unat rom_sz \<le> length rimg"
  shows "rimg_find_pcir rimg rom_sz = Inr (Some p) \<longleftrightarrow> image_at rimg (unat rom_sz) p"
proof -
  obtain r where "rimg_find_pcir rimg rom_sz = Inr r" "\<forall>p. r = Some p \<longleftrightarrow> image_at rimg (unat rom_sz) p"
    using rimg_find_pcir_spec [OF assms] by metis
  then show ?thesis by simp
qed

text \<open>Without looking at the buffer's length: the structure found names a length that fits.\<close>

lemma rimg_find_pcir_len:
  assumes "rimg_find_pcir rimg rom_sz = Inr (Some p)"
  shows "\<exists>hk. buf16 rimg (p + pcir_rimg_sz_hkib) = Inr hk \<and> 0 < 512 * unat hk \<and> 512 * unat hk \<le> unat rom_sz"
proof -
  have skip: "(if b then Inr None else X) = Inr (Some p) \<longleftrightarrow> \<not> b \<and> X = Inr (Some p)"
    "(if b then Inl Out_of_bounds else X) = Inr (Some p) \<longleftrightarrow> \<not> b \<and> X = Inr (Some p)"
    "Inr (Some q) = (Inr (Some p) :: nat option res) \<longleftrightarrow> q = p"
    for b and X :: "nat option res" and q by simp_all
  obtain hk where hk: "buf16 rimg (p + pcir_rimg_sz_hkib) = Inr hk" "hk \<noteq> 0"
    "\<not> ucast hk > rom_sz div ucast HKIBYTE"
    using assms unfolding rimg_find_pcir_def Let_def skip bindr_eq_Inr de_Morgan_disj
    by (elim exE conjE) simp
  then have "unat hk \<le> unat rom_sz div 512"
    by (simp add: word_less_nat_alt unat_ucast_up unat_div_distrib HKIBYTE_def not_less)
  then have "512 * unat hk \<le> unat rom_sz"
    using times_div_less_eq_dividend [of 512 "unat rom_sz"] by linarith
  moreover have "0 < unat hk" using hk(2) by (simp add: unat_gt_0)
  ultimately show ?thesis using hk(1) by simp
qed

subsection \<open>Device lists\<close>

fun dev_list :: "u8 list \<Rightarrow> u16 list" where
  "dev_list (b0 # b1 # bs) = (let d = le_word [b0, b1] in if d = 0 then [] else d # dev_list bs)"
| "dev_list _ = []"

fun dev_terminated :: "u8 list \<Rightarrow> bool" where
  "dev_terminated (b0 # b1 # bs) = (le_word [b0, b1] = (0 :: u16) \<or> dev_terminated bs)"
| "dev_terminated _ = False"

lemma le_word_pair_0: "le_word [b0, b1] = (0 :: u16) \<longleftrightarrow> b0 = 0 \<and> b1 = 0"
  using le_word_eq_iff [of "[b0, b1]" "[0, 0]", where ?'a = 16] by simp

lemma drop_two: "p + 1 < n \<Longrightarrow> n \<le> length xs \<Longrightarrow>
    drop p (take n xs) = xs ! p # xs ! (p + 1) # drop (p + 2) (take n xs)"
  by (simp add: Cons_nth_drop_Suc [symmetric])

lemma dev_id_scan_eq:
  assumes "rimg_end \<le> length rimg"
  shows "dev_id_scan rimg rimg_end p = Inr (dev_terminated (drop p (take rimg_end rimg)))"
  using assms
proof (induction rimg rimg_end p rule: dev_id_scan.induct)
  case (1 rimg e p)
  show ?case
  proof (cases "p + 1 < e")
    case True
    then have d: "drop p (take e rimg) = rimg ! p # rimg ! (p + 1) # drop (p + 2) (take e rimg)"
      using "1.prems" by (rule drop_two)
    show ?thesis
      using True "1.prems" "1.IH" unfolding d
      by (subst dev_id_scan.simps) (auto simp: le_word_pair_0 simp del: le_word.simps)
  next
    case False
    then have "length (drop p (take e rimg)) \<le> 1" by simp
    then have "\<not> dev_terminated (drop p (take e rimg))"
      by (cases "drop p (take e rimg)" rule: dev_terminated.cases) auto
    then show ?thesis using False by (subst dev_id_scan.simps) auto
  qed
qed

definition has_dev_list :: "u8 list \<Rightarrow> nat \<Rightarrow> nat \<Rightarrow> bool" where
  "has_dev_list rimg p rimg_end \<longleftrightarrow>
     3 \<le> rimg ! (p + 12) \<and> le16 rimg (p + 8) \<noteq> 0 \<and>
     dev_terminated (drop (p + le16 rimg (p + 8)) (take rimg_end rimg))"

lemma rimg_pcir_find_dev_id_list_eq:
  assumes "rimg_end \<le> length rimg" and "p + 22 \<le> rimg_end"
  shows "rimg_pcir_find_dev_id_list rimg p rimg_end =
    Inr (if has_dev_list rimg p rimg_end then Some (p + le16 rimg (p + 8)) else None)"
proof -
  have "(le_word (take 2 (drop (p + 8) rimg)) :: u16) = 0 \<longleftrightarrow> le16 rimg (p + 8) = 0"
    by (simp add: le16_def unat_eq_0)
  then show ?thesis
    using assms
    by (auto simp: rimg_pcir_find_dev_id_list_def has_dev_list_def pcir_offsets buf16_ok
        dev_id_scan_eq le16_def not_less Let_def)
qed

subsection \<open>Images without the structure\<close>

lemma rimg_find_spec:
  assumes "65024 \<le> length rimg"
  shows "rimg_find rimg =
    Inr (if le16 rimg 0 = 0xaa55 \<and> rimg ! 2 \<noteq> 0 \<and> rimg ! 2 \<le> 0x7f \<and>
           sum_list (take (512 * unat (rimg ! 2)) rimg) = 0
         then word_of_nat (512 * unat (rimg ! 2)) else 0)"
proof -
  let ?n = "rimg ! 2" and ?sz = "\<lambda>n::u8. ucast (ucast n * HKIBYTE) :: u64"
  have "unat ?n < 256" using unat_lt [of ?n] by simp
  moreover have "unat (ucast ?n :: u32) = unat ?n" by (simp add: unat_ucast_up)
  ultimately have "unat (ucast ?n * HKIBYTE :: u32) = 512 * unat ?n"
    by (subst unat_mult_lem [THEN iffD1]) (simp_all add: HKIBYTE_def)
  then have sz: "unat (?sz ?n) = 512 * unat ?n" by (simp add: unat_ucast_up)
  have w: "?sz ?n = word_of_nat (512 * unat ?n)"
    unfolding sz [symmetric] by simp
  have "le_word (take 2 rimg) = (0xaa55 :: u16) \<longleftrightarrow> le16 rimg 0 = 0xaa55"
    by (simp add: word_unat_eq_iff le16_def)
  moreover have "?n \<le> 0x7f \<Longrightarrow> 512 * unat ?n \<le> length rimg"
    using assms by (simp add: word_le_nat_alt)
  ultimately show ?thesis
    using assms sz by (auto simp: rimg_find_def pcir_offsets buf16_def Let_def compute_cksum_eq w not_less)
qed

subsection \<open>Properties\<close>

text \<open>An image of 512 bytes for 8086:1234 with one further device, 1235.\<close>

definition rimg_ex_head :: "u8 list" where
  "rimg_ex_head =
     [0x55, 0xaa, 0x01, 0x00, 0x00, 0x00, 0x00, 0x00, 0x00, 0x00, 0x00, 0x00, 0x00, 0x00, 0x00, 0x00, 0x00, 0x00, 0x00, 0x00, 0x00, 0x00, 0x00, 0x00,
      0x1c, 0x00, 0x00, 0x00,
      0x50, 0x43, 0x49, 0x52, 0x86, 0x80, 0x34, 0x12, 0x18, 0x00, 0x18, 0x00, 0x03, 0x00, 0x00, 0x02, 0x01, 0x00, 0x00, 0x00, 0x00, 0x80, 0x01, 0x00,
      0x35, 0x12, 0x00, 0x00]"

definition rimg_ex_pad :: "u8 list" where "rimg_ex_pad = replicate 455 0 @ [108]"

definition rimg_ex :: "u8 list" where "rimg_ex = rimg_ex_head @ rimg_ex_pad"

lemma rimg_ex_parts: "length rimg_ex_head = 56" "length rimg_ex_pad = 456"
    "sum_list rimg_ex_head = 148" "sum_list rimg_ex_pad = 108"
  by (simp_all add: rimg_ex_head_def rimg_ex_pad_def sum_list_replicate)

lemma rimg_ex_take: "k + n \<le> 56 \<Longrightarrow> take n (drop k rimg_ex) = take n (drop k rimg_ex_head)"
  by (simp add: rimg_ex_def rimg_ex_parts)

lemma rimg_ex_fields:
  "le16 rimg_ex 0 = 0xaa55" "le16 rimg_ex 24 = 28" "le16 rimg_ex 38 = 24" "le16 rimg_ex 44 = 1"
  "le16 rimg_ex 36 = 24" "take 4 (drop 28 rimg_ex) = [0x50, 0x43, 0x49, 0x52]"
  unfolding le16_def by (simp_all add: rimg_ex_take rimg_ex_take [of 0, simplified] rimg_ex_head_def)

lemma rimg_ex_image: "image_at rimg_ex 512 28"
  by (simp add: image_at_def image_len_def rimg_ex_fields) (simp add: rimg_ex_def rimg_ex_parts)

lemma rimg_ex_length: "length rimg_ex = 512"
  by (simp add: rimg_ex_def rimg_ex_parts)

text \<open>
  C32. \<^verbatim>\<open>rimg_find_pcir\<close> reads only inside the ROM it is given, and gives a PCI data structure
  exactly when the ROM starts with a well-formed image: both signatures, a data structure of
  at least 22 bytes that lies inside the image, an image length that is not zero and does not
  exceed the ROM, and a checksum of zero. No subtraction in its tests can wrap around.
\<close>

theorem rimg_find_pcir_correct:
  assumes "unat rom_sz \<le> length rimg"
  shows "\<exists>r. rimg_find_pcir rimg rom_sz = Inr r \<and> (\<forall>p. r = Some p \<longleftrightarrow> image_at rimg (unat rom_sz) p)"
  using assms by (rule rimg_find_pcir_spec)

theorem rimg_find_pcir_correct_witness:
  "unat (512 :: u64) \<le> length rimg_ex \<and> rimg_find_pcir rimg_ex 512 = Inr (Some 28)"
proof -
  have "unat (512 :: u64) \<le> length rimg_ex" by (simp add: rimg_ex_length)
  moreover from rimg_find_pcir_correct [OF this] obtain r where
    "rimg_find_pcir rimg_ex 512 = Inr r" "\<forall>p. r = Some p \<longleftrightarrow> image_at rimg_ex (unat (512 :: u64)) p" by metis
  ultimately show ?thesis using rimg_ex_image by simp
qed

text \<open>
  For a data structure inside its image, \<^verbatim>\<open>rimg_pcir_find_dev_id_list\<close> terminates, reads
  only inside the image, and gives a device list exactly when the structure is of revision 3
  or later, names a list, and a terminating zero follows before the end of the image.
\<close>

lemma find_dev_id_list_correct:
  assumes "rimg_end \<le> length rimg" and "p + 22 \<le> rimg_end"
  shows "rimg_pcir_find_dev_id_list rimg p rimg_end =
    Inr (if has_dev_list rimg p rimg_end then Some (p + le16 rimg (p + 8)) else None)"
  using assms by (rule rimg_pcir_find_dev_id_list_eq)

end
