(* ===== verification/Fv.thy ===== *)
theory Fv
  imports Rimg
begin

text \<open>
  The cache of option ROM images found in firmware volumes, \<^verbatim>\<open>stage1/fv.c\<close>. The firmware is a
  record of services over a firmware state; the code's own state is the hash table. The
  lemmas show that the table is a map from device and class to the image added last, which
  images a section contributes, and that every image that can be looked up is a valid PC-AT
  image for the device asked for.
\<close>

unbundle bit_operations_syntax

subsection \<open>The firmware\<close>

text \<open>
  A null pointer is \<open>None\<close>. \<open>ReadSection\<close> gets the pointer to the code's buffer and gives,
  unless it fails, the pointer, the bytes it points to, and the section's size; \<open>GetNextFile\<close>
  gives a file's type and its GUID, and keeps its position behind the key.
\<close>

record ('fw, 'guid, 'fv, 'handle) services =
  AllocatePool :: "'fw \<Rightarrow> u64 \<Rightarrow> u64 option \<times> 'fw"
  FreePool :: "'fw \<Rightarrow> u64 option \<Rightarrow> 'fw"
  ReadSection :: "'fw \<Rightarrow> 'fv \<Rightarrow> 'guid \<Rightarrow> u64 \<Rightarrow> u64 option \<Rightarrow> (u64 option \<times> u8 list \<times> u64) option \<times> 'fw"
  GetNextFile :: "'fw \<Rightarrow> 'fv \<Rightarrow> u64 \<Rightarrow> (u8 \<times> 'guid) option \<times> 'fw"
  KeySize :: "'fv \<Rightarrow> u32"
  LocateFvs :: "'fw \<Rightarrow> (u64 \<times> 'handle list) option \<times> 'fw"
  HandleFv :: "'fw \<Rightarrow> 'handle \<Rightarrow> 'fv option \<times> 'fw"

definition EFI_FV_FILETYPE_FIRMWARE_VOLUME_IMAGE :: u8 where
  "EFI_FV_FILETYPE_FIRMWARE_VOLUME_IMAGE = 0x0b"
definition EFI_FV_FILETYPE_FFS_PAD :: u8 where "EFI_FV_FILETYPE_FFS_PAD = 0xf0"
definition MAX_OROM_SZ :: u64 where "MAX_OROM_SZ = 0xf0000"
definition HASH_BUCKETS :: u64 where "HASH_BUCKETS = 1381"

subsection \<open>The hash table\<close>

text \<open>A copied image: its address and its bytes, which nobody changes.\<close>

record buf =
  b_addr :: u64
  b_bytes :: "u8 list"

record ht_node =
  nd_pci_id :: u32
  nd_class_if :: u32
  nd_rimg_copy :: buf
  nd_rimg_sz :: u32

definition sizeof_ht_node :: u64 where "sizeof_ht_node = 32"

text \<open>Each bucket is the chain of nodes from its head.\<close>

type_synonym ht = "ht_node list list"

definition ht_empty :: ht where "ht_empty = replicate (unat HASH_BUCKETS) []"

definition fv_hash_bucket :: "u32 \<Rightarrow> u32 \<Rightarrow> u32" where
  "fv_hash_bucket pci_id class_if =
     ucast ((push_bit 32 (ucast pci_id) OR ucast class_if :: u64) mod HASH_BUCKETS)"

definition fv_add_hash_entry ::
  "('fw, 'guid, 'fv, 'handle) services \<Rightarrow> ht \<times> 'fw \<Rightarrow> u32 \<Rightarrow> u32 \<Rightarrow> buf \<Rightarrow> u32 \<Rightarrow> (ht \<times> 'fw) res" where
  "fv_add_hash_entry sv st pci_id class_if rimg_copy sz =
     (let (ht, fw) = st; bucket = unat (fv_hash_bucket pci_id class_if) in
      case AllocatePool sv fw sizeof_ht_node of
        (None, fw') \<Rightarrow> Inl (Error ''no mem. to cache option ROM image!'')
      | (Some node, fw') \<Rightarrow>
          bindr (arr_get ht bucket) (\<lambda>next.
          bindr (arr_set ht bucket
            (\<lparr> nd_pci_id = pci_id, nd_class_if = class_if, nd_rimg_copy = rimg_copy, nd_rimg_sz = sz \<rparr> # next))
            (\<lambda>ht'. Inr (ht', fw'))))"

fun find_node :: "u32 \<Rightarrow> u32 \<Rightarrow> ht_node list \<Rightarrow> (buf \<times> u32) option" where
  "find_node pci_id class_if [] = None"
| "find_node pci_id class_if (node # nodes) =
     (if nd_pci_id node = pci_id \<and> nd_class_if node = class_if
      then Some (nd_rimg_copy node, nd_rimg_sz node) else find_node pci_id class_if nodes)"

definition fv_find_rimg :: "ht \<Rightarrow> u32 \<Rightarrow> u32 \<Rightarrow> (buf \<times> u32) option res" where
  "fv_find_rimg ht pci_id class_if =
     bindr (arr_get ht (unat (fv_hash_bucket pci_id class_if))) (\<lambda>node. Inr (find_node pci_id class_if node))"

subsection \<open>Caching an image\<close>

function fv_add_devs ::
  "('fw, 'guid, 'fv, 'handle) services \<Rightarrow> ht \<times> 'fw \<Rightarrow> u8 list \<Rightarrow> nat \<Rightarrow> u32 \<Rightarrow> u32 \<Rightarrow> buf \<Rightarrow> u32 \<Rightarrow>
     (ht \<times> 'fw) res" where
  "fv_add_devs sv st rimg dev_ids pci_id_0 class_if rimg_copy sz =
     bindr (buf16 rimg dev_ids) (\<lambda>dev.
       if dev = 0 then Inr st
       else let pci_id = pci_make_id (pci_id_vendor pci_id_0) dev in
         if pci_id \<noteq> pci_id_0
         then bindr (fv_add_hash_entry sv st pci_id class_if rimg_copy sz) (\<lambda>st'.
           fv_add_devs sv st' rimg (dev_ids + 2) pci_id_0 class_if rimg_copy sz)
         else fv_add_devs sv st rimg (dev_ids + 2) pci_id_0 class_if rimg_copy sz)"
  by pat_completeness auto
termination
  by (relation "measure (\<lambda>(sv, st, rimg, dev_ids, _). length rimg - dev_ids)")
    (auto simp: buf16_def split: if_splits)

declare fv_add_devs.simps [simp del]

definition pcir_class :: "u8 list \<Rightarrow> nat \<Rightarrow> u32 res" where
  "pcir_class rimg pcir =
     bindr (arr_get rimg (pcir + pcir_class_if + 2)) (\<lambda>c2.
     bindr (arr_get rimg (pcir + pcir_class_if + 1)) (\<lambda>c1.
     bindr (arr_get rimg (pcir + pcir_class_if)) (\<lambda>c0.
       Inr (push_bit 24 (ucast c2) OR push_bit 16 (ucast c1) OR push_bit 8 (ucast c0)))))"

definition fv_cache_rimg ::
  "('fw, 'guid, 'fv, 'handle) services \<Rightarrow> ht \<times> 'fw \<Rightarrow> u8 list \<Rightarrow> u32 \<Rightarrow> nat \<Rightarrow> (ht \<times> 'fw) res" where
  "fv_cache_rimg sv st rimg sz pcir =
     bindr (pcir_class rimg pcir) (\<lambda>class_if.
     bindr (buf32 rimg (pcir + pcir_pci_id)) (\<lambda>pci_id_0.
     case AllocatePool sv (snd st) (ucast sz) of
       (None, fw) \<Rightarrow> Inl (Error ''no mem. to cache ROM img.!'')
     | (Some addr, fw) \<Rightarrow>
         if length rimg < unat sz then Inl Out_of_bounds
         else let rimg_copy = \<lparr> b_addr = addr, b_bytes = take (unat sz) rimg \<rparr> in
           bindr (rimg_pcir_find_dev_id_list rimg pcir (unat sz)) (\<lambda>dev_ids.
           bindr (fv_add_hash_entry sv (fst st, fw) pci_id_0 class_if rimg_copy sz) (\<lambda>st'.
             case dev_ids of
               None \<Rightarrow> Inr st'
             | Some p \<Rightarrow> fv_add_devs sv st' rimg p pci_id_0 class_if rimg_copy sz))))"

subsection \<open>The images of a section\<close>

text \<open>
  \<open>found\<close> is \<^verbatim>\<open>found_rimg\<close> with \<^verbatim>\<open>found_sz\<close> and \<^verbatim>\<open>found_pcir\<close>, which are meaningful only when it is not
  null. An image is the bytes from its start on, with the offset of its data structure.
\<close>

type_synonym found = "(u8 list \<times> u32 \<times> nat) option"

definition choose_found :: "found \<Rightarrow> u8 list \<Rightarrow> u32 \<Rightarrow> nat \<Rightarrow> found res" where
  "choose_found found rom_left this_sz pcir =
     bindr (arr_get rom_left (pcir + pcir_type)) (\<lambda>type.
     if type = PCIR_TYP_PCAT then
       (case found of
          None \<Rightarrow> Inr (Some (rom_left, this_sz, pcir))
        | Some (found_rimg, found_sz, found_pcir) \<Rightarrow>
            bindr (arr_get found_rimg (found_pcir + pcir_rev)) (\<lambda>found_rev.
            if found_rev < 3 then
              bindr (arr_get rom_left (pcir + pcir_rev)) (\<lambda>rev.
                Inr (if rev \<ge> 3 then Some (rom_left, this_sz, pcir) else found))
            else Inr found))
     else Inr found)"

definition end_of_rom ::
  "('fw, 'guid, 'fv, 'handle) services \<Rightarrow> ht \<times> 'fw \<Rightarrow> found \<Rightarrow> u8 \<Rightarrow> ((ht \<times> 'fw) \<times> found) res" where
  "end_of_rom sv st found flags =
     (if flags AND PCIR_FLAGS_LAST_IMAGE \<noteq> 0 then
        (case found of
           None \<Rightarrow> Inr (st, None)
         | Some (found_rimg, found_sz, found_pcir) \<Rightarrow>
             bindr (fv_cache_rimg sv st found_rimg found_sz found_pcir) (\<lambda>st'. Inr (st', None)))
      else Inr (st, found))"

text \<open>The sizes the walk subtracts come from a structure \<^verbatim>\<open>rimg_find_pcir\<close> has accepted.\<close>

lemma walk_decreases:
  assumes "rimg_find_pcir rom_left left_sz = Inr (Some pcir)"
    and "buf16 rom_left (pcir + pcir_rimg_sz_hkib) = Inr hk"
  shows "unat (left_sz - ucast (ucast hk * HKIBYTE :: u32)) < unat left_sz"
    and "unat (left_sz - ucast (ucast hk * HKIBYTE :: u32)) = unat left_sz - 512 * unat hk"
proof -
  have hk: "0 < 512 * unat hk" "512 * unat hk \<le> unat left_sz"
    using rimg_find_pcir_len [OF assms(1)] assms(2) by auto
  then have "ucast (ucast hk * HKIBYTE :: u32) \<le> left_sz"
    by (simp add: word_le_nat_alt unat_rimg_sz)
  then show sub: "unat (left_sz - ucast (ucast hk * HKIBYTE :: u32)) = unat left_sz - 512 * unat hk"
    by (simp add: unat_sub unat_rimg_sz)
  show "unat (left_sz - ucast (ucast hk * HKIBYTE :: u32)) < unat left_sz"
    unfolding sub using hk by linarith
qed

function gather_sxn ::
  "('fw, 'guid, 'fv, 'handle) services \<Rightarrow> ht \<times> 'fw \<Rightarrow> u8 list \<Rightarrow> u64 \<Rightarrow> found \<Rightarrow> (ht \<times> 'fw) res" where
  "gather_sxn sv st rom_left rom_left_sz found =
     bindr (rimg_find_pcir rom_left rom_left_sz) (\<lambda>r.
       case r of
         None \<Rightarrow> Inr st
       | Some pcir \<Rightarrow>
           bindr (buf16 rom_left (pcir + pcir_rimg_sz_hkib)) (\<lambda>hk.
           let this_sz = ucast hk * HKIBYTE in
           bindr (choose_found found rom_left this_sz pcir) (\<lambda>found'.
           bindr (arr_get rom_left (pcir + pcir_flags)) (\<lambda>flags.
           bindr (end_of_rom sv st found' flags) (\<lambda>(st', found'').
             gather_sxn sv st' (drop (unat this_sz) rom_left) (rom_left_sz - ucast this_sz) found'')))))"
  by pat_completeness auto
termination
  by (relation "measure (\<lambda>(sv, st, rom_left, left_sz, found). unat left_sz)")
    (auto dest: walk_decreases(1))

declare gather_sxn.simps [simp del]

definition fv_gather_rimgs_for_one_sxn ::
  "('fw, 'guid, 'fv, 'handle) services \<Rightarrow> ht \<times> 'fw \<Rightarrow> u8 list \<Rightarrow> u64 \<Rightarrow> (ht \<times> 'fw) res" where
  "fv_gather_rimgs_for_one_sxn sv st rom rom_sz = gather_sxn sv st rom rom_sz None"

subsection \<open>Files and volumes\<close>

function gather_sxns ::
  "('fw, 'guid, 'fv, 'handle) services \<Rightarrow> 'fv \<Rightarrow> 'guid \<Rightarrow> ht \<times> 'fw \<Rightarrow> u64 option \<Rightarrow> u64 \<Rightarrow>
     (u64 option \<times> ht \<times> 'fw) res" where
  "gather_sxns sv fv guid st sxn instance =
     (case ReadSection sv (snd st) fv guid instance sxn of
        (None, fw) \<Rightarrow> Inr (sxn, fst st, fw)
      | (Some (sxn', bytes, sxn_sz), fw) \<Rightarrow>
          bindr (fv_gather_rimgs_for_one_sxn sv (fst st, fw) bytes
                   (if sxn_sz > MAX_OROM_SZ then MAX_OROM_SZ else sxn_sz)) (\<lambda>st'.
            if instance + 1 \<noteq> 0 then gather_sxns sv fv guid st' sxn' (instance + 1)
            else Inr (sxn', st')))"
  by pat_completeness auto
termination
proof (relation "measure (\<lambda>(sv, fv, guid, st, sxn, instance). 2 ^ 64 - unat instance)", goal_cases)
  case (2 sv fv guid st sxn inst)
  then have "unat (inst + 1) = Suc (unat inst)" using unatSuc [of inst] by (simp add: add.commute)
  moreover have "unat (inst + 1) < 2 ^ 64" using unat_lt [of "inst + 1"] by simp
  ultimately show ?case by simp
qed simp

declare gather_sxns.simps [simp del]

definition fv_gather_rimgs_for_one_file ::
  "('fw, 'guid, 'fv, 'handle) services \<Rightarrow> ht \<times> 'fw \<Rightarrow> 'fv \<Rightarrow> 'guid \<Rightarrow> (ht \<times> 'fw) res" where
  "fv_gather_rimgs_for_one_file sv st fv guid =
     (let (sxn, fw) = AllocatePool sv (snd st) MAX_OROM_SZ in
      bindr (gather_sxns sv fv guid (fst st, fw) sxn 0) (\<lambda>(sxn', ht, fw').
        Inr (ht, FreePool sv fw' sxn')))"

partial_function (option) gather_files ::
  "('fw, 'guid, 'fv, 'handle) services \<Rightarrow> 'fv \<Rightarrow> u64 \<Rightarrow> ht \<times> 'fw \<Rightarrow> (ht \<times> 'fw) res option" where
  "gather_files sv fv key st =
     (case GetNextFile sv (snd st) fv key of
        (None, fw) \<Rightarrow> Some (Inr (fst st, fw))
      | (Some (type, guid), fw) \<Rightarrow>
          if type = EFI_FV_FILETYPE_FFS_PAD \<or> type = EFI_FV_FILETYPE_FIRMWARE_VOLUME_IMAGE
          then gather_files sv fv key (fst st, fw)
          else bindo (Some (fv_gather_rimgs_for_one_file sv (fst st, fw) fv guid)) (\<lambda>st'.
            gather_files sv fv key st'))"

definition fv_gather_rimgs_for_one_fv ::
  "('fw, 'guid, 'fv, 'handle) services \<Rightarrow> ht \<times> 'fw \<Rightarrow> 'fv \<Rightarrow> (ht \<times> 'fw) res option" where
  "fv_gather_rimgs_for_one_fv sv st fv =
     (case AllocatePool sv (snd st) (ucast (KeySize sv fv)) of
        (None, fw) \<Rightarrow> Some (Inl (Error ''not enough mem. for FV key''))
      | (Some key, fw) \<Rightarrow>
          bindo (gather_files sv fv key (fst st, fw)) (\<lambda>(ht, fw').
            Some (Inr (ht, FreePool sv fw' (Some key)))))"

fun gather_fvs ::
  "('fw, 'guid, 'fv, 'handle) services \<Rightarrow> ht \<times> 'fw \<Rightarrow> 'handle list \<Rightarrow> (ht \<times> 'fw) res option" where
  "gather_fvs sv st [] = Some (Inr st)"
| "gather_fvs sv st (handle # handles) =
     (case HandleFv sv (snd st) handle of
        (None, fw) \<Rightarrow> gather_fvs sv (fst st, fw) handles
      | (Some fv, fw) \<Rightarrow>
          bindo (fv_gather_rimgs_for_one_fv sv (fst st, fw) fv) (\<lambda>st'. gather_fvs sv st' handles))"

definition fv_init :: "('fw, 'guid, 'fv, 'handle) services \<Rightarrow> ht \<times> 'fw \<Rightarrow> (ht \<times> 'fw) res option" where
  "fv_init sv st =
     (case LocateFvs sv (snd st) of
        (None, fw) \<Rightarrow> Some (Inr (fst st, fw))
      | (Some (p_handles, handles), fw) \<Rightarrow>
          if handles = [] then Some (Inr (fst st, fw))
          else bindo (gather_fvs sv (ht_empty, fw) handles) (\<lambda>(ht, fw').
            Some (Inr (ht, FreePool sv fw' (Some p_handles)))))"

subsection \<open>The interface of a map\<close>

text \<open>What the code expects of its cache: a later insertion hides an earlier one.\<close>

locale map_cache =
  fixes inv :: "'t \<Rightarrow> bool"
    and lookup :: "'t \<Rightarrow> 'k \<Rightarrow> 'v option"
    and insert :: "'t \<Rightarrow> 'k \<Rightarrow> 'v \<Rightarrow> 't"
  assumes insert_inv: "inv t \<Longrightarrow> inv (insert t k v)"
    and lookup_insert: "inv t \<Longrightarrow> lookup (insert t k v) = (lookup t)(k \<mapsto> v)"
begin

text \<open>Inserting one value under a list of keys.\<close>

definition insert_all :: "'t \<Rightarrow> 'k list \<Rightarrow> 'v \<Rightarrow> 't" where
  "insert_all t ks v = foldl (\<lambda>t k. insert t k v) t ks"

lemma insert_all_inv: "inv t \<Longrightarrow> inv (insert_all t ks v)"
  unfolding insert_all_def by (induction ks arbitrary: t) (simp_all add: insert_inv)

lemma lookup_insert_all:
  "inv t \<Longrightarrow> lookup (insert_all t ks v) k = (if k \<in> set ks then Some v else lookup t k)"
  unfolding insert_all_def by (induction ks arbitrary: t) (auto simp: insert_inv lookup_insert)

end

definition ht_wf :: "ht \<Rightarrow> bool" where
  "ht_wf ht \<longleftrightarrow> length ht = 1381"

definition ht_lookup :: "ht \<Rightarrow> u32 \<times> u32 \<Rightarrow> (buf \<times> u32) option" where
  "ht_lookup ht k = find_node (fst k) (snd k) (ht ! unat (fv_hash_bucket (fst k) (snd k)))"

definition ht_insert :: "ht \<Rightarrow> u32 \<times> u32 \<Rightarrow> buf \<times> u32 \<Rightarrow> ht" where
  "ht_insert ht k v =
     (let b = unat (fv_hash_bucket (fst k) (snd k)) in
      ht[b := \<lparr> nd_pci_id = fst k, nd_class_if = snd k, nd_rimg_copy = fst v, nd_rimg_sz = snd v \<rparr> # ht ! b])"

lemma fv_hash_bucket_lt: "unat (fv_hash_bucket pci_id class_if) < 1381"
proof -
  let ?b = "(push_bit 32 (ucast pci_id) OR ucast class_if :: u64) mod HASH_BUCKETS"
  have "unat ?b < 1381" by (simp add: HASH_BUCKETS_def unat_mod)
  moreover from this have "unat (ucast ?b :: u32) = unat ?b" by (intro unat_ucast_down) simp
  ultimately show ?thesis by (simp add: fv_hash_bucket_def)
qed

lemma ht_empty_wf: "ht_wf ht_empty" and ht_empty_lookup: "ht_lookup ht_empty k = None"
  using fv_hash_bucket_lt by (simp_all add: ht_wf_def ht_empty_def ht_lookup_def HASH_BUCKETS_def)

interpretation fvm: map_cache ht_wf ht_lookup ht_insert
proof
  fix ht k v
  assume "ht_wf ht"
  then show "ht_wf (ht_insert ht k v)" by (simp add: ht_wf_def ht_insert_def Let_def)
  show "ht_lookup (ht_insert ht k v) = (ht_lookup ht)(k \<mapsto> v)"
    using \<open>ht_wf ht\<close> fv_hash_bucket_lt
    by (auto simp: fun_eq_iff ht_lookup_def ht_insert_def ht_wf_def Let_def nth_list_update prod_eq_iff)
qed

lemma fv_find_rimg_eq: "ht_wf ht \<Longrightarrow> fv_find_rimg ht pci_id class_if = Inr (ht_lookup ht (pci_id, class_if))"
  using fv_hash_bucket_lt by (simp add: fv_find_rimg_def ht_wf_def ht_lookup_def)

lemma fv_add_hash_entry_eq:
  assumes "ht_wf (fst st)"
  shows "fv_add_hash_entry sv st pci_id class_if copy sz =
    (case AllocatePool sv (snd st) sizeof_ht_node of
       (None, fw) \<Rightarrow> Inl (Error ''no mem. to cache option ROM image!'')
     | (Some node, fw) \<Rightarrow> Inr (ht_insert (fst st) (pci_id, class_if) (copy, sz), fw))"
  using assms fv_hash_bucket_lt
  by (auto simp: fv_add_hash_entry_def ht_insert_def ht_wf_def Let_def split: prod.splits option.splits)

text \<open>
  The outcome of caching under a list of keys: a report that memory has run out, which happens
  only when \<open>AllocatePool\<close> can fail, or the table with these entries.
\<close>

definition cached :: "('fw, 'guid, 'fv, 'handle) services \<Rightarrow> ht \<Rightarrow> (u32 \<times> u32) list \<Rightarrow> buf \<times> u32 \<Rightarrow>
    (ht \<times> 'fw) res \<Rightarrow> bool" where
  "cached sv ht ks v r \<longleftrightarrow>
     (\<exists>msg. r = Inl (Error msg)) \<and> (\<exists>fw n. fst (AllocatePool sv fw n) = None) \<or>
     (\<exists>fw. r = Inr (fvm.insert_all ht ks v, fw))"

lemma cached_add:
  assumes "ht_wf (fst st)"
  shows "cached sv (fst st) [(pci_id, class_if)] (copy, sz) (fv_add_hash_entry sv st pci_id class_if copy sz)"
  using assms
  by (auto simp: cached_def fv_add_hash_entry_eq fvm.insert_all_def split: prod.splits option.splits)
    (metis fst_conv)

lemma cached_bind:
  assumes "cached sv ht ks v r" and "\<And>fw. cached sv (fvm.insert_all ht ks v) ks' v (f (fvm.insert_all ht ks v, fw))"
  shows "cached sv ht (ks @ ks') v (bindr r f)"
  using assms by (fastforce simp: cached_def fvm.insert_all_def)

subsection \<open>What is cached for an image\<close>

text \<open>The keys of an image: its own identifier, then those of its device list but that one.\<close>

definition image_id :: "u8 list \<Rightarrow> nat \<Rightarrow> u32" where
  "image_id rimg p = le_word (take 4 (drop (p + 4) rimg))"

definition image_class :: "u8 list \<Rightarrow> nat \<Rightarrow> u32" where
  "image_class rimg p =
     push_bit 24 (ucast (rimg ! (p + 15))) OR push_bit 16 (ucast (rimg ! (p + 14))) OR
     push_bit 8 (ucast (rimg ! (p + 13)))"

definition image_devs :: "u8 list \<Rightarrow> nat \<Rightarrow> nat \<Rightarrow> u16 list" where
  "image_devs rimg p n =
     (if has_dev_list rimg p n then dev_list (drop (p + le16 rimg (p + 8)) (take n rimg)) else [])"

definition image_ids :: "u8 list \<Rightarrow> nat \<Rightarrow> nat \<Rightarrow> u32 list" where
  "image_ids rimg p n =
     image_id rimg p #
     filter (\<lambda>i. i \<noteq> image_id rimg p)
       (map (pci_make_id (pci_id_vendor (image_id rimg p))) (image_devs rimg p n))"

definition image_keys :: "u8 list \<Rightarrow> nat \<Rightarrow> nat \<Rightarrow> (u32 \<times> u32) list" where
  "image_keys rimg p n = map (\<lambda>i. (i, image_class rimg p)) (image_ids rimg p n)"

definition dev_keys :: "u32 \<Rightarrow> u32 \<Rightarrow> u16 list \<Rightarrow> (u32 \<times> u32) list" where
  "dev_keys pci_id class_if devs =
     map (\<lambda>i. (i, class_if)) (filter (\<lambda>i. i \<noteq> pci_id) (map (pci_make_id (pci_id_vendor pci_id)) devs))"

lemma fv_add_devs_cached:
  assumes "ht_wf (fst st)" and "e \<le> length rimg" and "dev_terminated (drop p (take e rimg))"
  shows "cached sv (fst st) (dev_keys pci_id class_if (dev_list (drop p (take e rimg)))) (copy, sz)
    (fv_add_devs sv st rimg p pci_id class_if copy sz)"
  using assms
proof (induction "length rimg - p" arbitrary: p st rule: less_induct)
  case less
  have in_e: "p + 1 < e"
  proof (rule ccontr)
    assume "\<not> p + 1 < e"
    then have "length (drop p (take e rimg)) \<le> 1" by simp
    then show False
      using less.prems(3) by (cases "drop p (take e rimg)" rule: dev_terminated.cases) auto
  qed
  note d = drop_two [OF in_e less.prems(2)]
  let ?dev = "le_word [rimg ! p, rimg ! (p + 1)] :: u16"
  have "take 2 (drop p rimg) = [rimg ! p, rimg ! (p + 1)]"
    using in_e less.prems(2) by (simp add: numeral_2_eq_2 take_Suc_conv_app_nth)
  then have dev: "buf16 rimg p = Inr ?dev" using in_e less.prems(2) by (simp add: buf16_def)
  have run: "fv_add_devs sv st rimg p pci_id class_if copy sz =
      (if ?dev = 0 then Inr st
       else let i = pci_make_id (pci_id_vendor pci_id) ?dev in
         if i \<noteq> pci_id then bindr (fv_add_hash_entry sv st i class_if copy sz) (\<lambda>st'.
           fv_add_devs sv st' rimg (p + 2) pci_id class_if copy sz)
         else fv_add_devs sv st rimg (p + 2) pci_id class_if copy sz)"
    by (subst fv_add_devs.simps) (simp only: dev bindr_Inr)
  show ?case
  proof (cases "?dev = 0")
    case True
    then show ?thesis
      unfolding run d by (cases st) (simp add: cached_def dev_keys_def fvm.insert_all_def del: le_word.simps)
  next
    case False
    let ?i = "pci_make_id (pci_id_vendor pci_id) ?dev"
    let ?ds = "dev_list (drop (p + 2) (take e rimg))"
    have ds: "dev_list (drop p (take e rimg)) = ?dev # ?ds"
      using False unfolding d by (simp add: Let_def del: le_word.simps)
    have t: "dev_terminated (drop (p + 2) (take e rimg))"
      using False less.prems(3) unfolding d by (simp del: le_word.simps)
    have IH: "cached sv (fst st') (dev_keys pci_id class_if ?ds) (copy, sz)
        (fv_add_devs sv st' rimg (p + 2) pci_id class_if copy sz)" if "ht_wf (fst st')" for st'
      using in_e less.prems(2) by (intro less.hyps that t) auto
    show ?thesis
    proof (cases "?i = pci_id")
      case True
      then have "dev_keys pci_id class_if (?dev # ?ds) = dev_keys pci_id class_if ?ds"
        by (simp add: dev_keys_def del: le_word.simps)
      then show ?thesis using IH [OF less.prems(1)] False True unfolding run ds
        by (simp only: Let_def if_False if_True refl not_True_eq_False simp_thms)
    next
      case other: False
      then have k: "dev_keys pci_id class_if (?dev # ?ds) =
          [(?i, class_if)] @ dev_keys pci_id class_if ?ds"
        by (simp add: dev_keys_def del: le_word.simps)
      have "cached sv (fst st) ([(?i, class_if)] @ dev_keys pci_id class_if ?ds) (copy, sz)
          (bindr (fv_add_hash_entry sv st ?i class_if copy sz) (\<lambda>st'.
             fv_add_devs sv st' rimg (p + 2) pci_id class_if copy sz))"
      proof (rule cached_bind [OF cached_add [OF less.prems(1)]])
        fix fw
        let ?ht = "fvm.insert_all (fst st) [(?i, class_if)] (copy, sz)"
        show "cached sv ?ht (dev_keys pci_id class_if ?ds) (copy, sz)
            (fv_add_devs sv (?ht, fw) rimg (p + 2) pci_id class_if copy sz)"
          using IH [of "(?ht, fw)"] fvm.insert_all_inv [OF less.prems(1)] by simp
      qed
      then show ?thesis using False other unfolding run ds k
        by (simp only: Let_def if_False if_True not_False_eq_True)
    qed
  qed
qed

text \<open>The outcome of caching an image.\<close>

definition image_cached :: "('fw, 'guid, 'fv, 'handle) services \<Rightarrow> ht \<Rightarrow> u8 list \<Rightarrow> u32 \<Rightarrow> nat \<Rightarrow>
    (ht \<times> 'fw) res \<Rightarrow> bool" where
  "image_cached sv ht rimg sz p r \<longleftrightarrow>
     (\<exists>msg. r = Inl (Error msg)) \<and> (\<exists>fw n. fst (AllocatePool sv fw n) = None) \<or>
     (\<exists>addr fw. r = Inr (fvm.insert_all ht (image_keys rimg p (unat sz))
        (\<lparr> b_addr = addr, b_bytes = take (unat sz) rimg \<rparr>, sz), fw))"

lemma fv_cache_rimg_cached:
  assumes "ht_wf (fst st)" and "unat sz \<le> length rimg" and "p + 22 \<le> unat sz"
  shows "image_cached sv (fst st) rimg sz p (fv_cache_rimg sv st rimg sz p)"
proof (cases "AllocatePool sv (snd st) (ucast sz)")
  case (Pair a fw)
  let ?id = "image_id rimg p" and ?cl = "image_class rimg p" and ?n = "unat sz"
  have cls: "pcir_class rimg p = Inr ?cl" and id: "buf32 rimg (p + 4) = Inr ?id"
    using assms by (simp_all add: pcir_class_def image_class_def image_id_def pcir_offsets buf32_def add.commute)
  show ?thesis
  proof (cases a)
    case None
    then have "fv_cache_rimg sv st rimg sz p = Inl (Error ''no mem. to cache ROM img.!'')"
      using Pair cls id by (simp add: fv_cache_rimg_def pcir_pci_id_def)
    then show ?thesis using Pair None by (simp add: image_cached_def) (metis fst_conv)
  next
    case (Some addr)
    let ?v = "\<lparr> b_addr = addr, b_bytes = take ?n rimg \<rparr>"
    let ?p = "p + le16 rimg (p + 8)"
    let ?ks = "if has_dev_list rimg p ?n then dev_keys ?id ?cl (dev_list (drop ?p (take ?n rimg))) else []"
    have keys: "image_keys rimg p ?n = [(?id, ?cl)] @ ?ks"
      by (simp add: image_keys_def image_ids_def image_devs_def dev_keys_def)
    have run: "fv_cache_rimg sv st rimg sz p =
        bindr (fv_add_hash_entry sv (fst st, fw) ?id ?cl ?v sz) (\<lambda>st'.
          if has_dev_list rimg p ?n then fv_add_devs sv st' rimg ?p ?id ?cl ?v sz else Inr st')"
      using Pair Some cls id assms
      by (simp add: fv_cache_rimg_def pcir_pci_id_def rimg_pcir_find_dev_id_list_eq Let_def cong: if_cong)
    have "cached sv (fst st) ([(?id, ?cl)] @ ?ks) (?v, sz) (fv_cache_rimg sv st rimg sz p)"
      unfolding run
    proof (rule cached_bind)
      show "cached sv (fst st) [(?id, ?cl)] (?v, sz) (fv_add_hash_entry sv (fst st, fw) ?id ?cl ?v sz)"
        using cached_add [of "(fst st, fw)"] assms(1) by simp
      fix fw' :: 'a
      let ?ht = "fvm.insert_all (fst st) [(?id, ?cl)] (?v, sz)"
      have "ht_wf (fst (?ht, fw'))" using fvm.insert_all_inv [OF assms(1)] by simp
      from fv_add_devs_cached [OF this assms(2), of ?p sv ?id ?cl ?v sz]
      show "cached sv ?ht ?ks (?v, sz) (if has_dev_list rimg p ?n
          then fv_add_devs sv (?ht, fw') rimg ?p ?id ?cl ?v sz else Inr (?ht, fw'))"
        by (auto simp: has_dev_list_def cached_def fvm.insert_all_def)
    qed
    then show ?thesis unfolding keys [symmetric] by (auto simp: cached_def image_cached_def)
  qed
qed

subsection \<open>Which images of a section are cached\<close>

text \<open>
  The specification of the walk: the images that follow each other in the section, grouped into
  option ROMs by the last-image flag; of every complete option ROM the first PC-AT image of
  revision 3 or later is cached, or else the first PC-AT image, or else none.
\<close>

type_synonym image = "u8 list \<times> u32 \<times> nat"

function rom_images :: "u8 list \<Rightarrow> nat \<Rightarrow> image list" where
  "rom_images rom avail =
     (let p = le16 rom 24; n = image_len rom p in
      if image_at rom avail p then (rom, word_of_nat n, p) # rom_images (drop n rom) (avail - n) else [])"
  by pat_completeness auto
termination
  by (relation "measure (\<lambda>(rom, avail). avail)") (auto simp: image_at_def)

declare rom_images.simps [simp del]

definition is_pcat :: "image \<Rightarrow> bool" where
  "is_pcat im = (case im of (r, sz, p) \<Rightarrow> r ! (p + 20) = 0)"
definition is_rev3 :: "image \<Rightarrow> bool" where
  "is_rev3 im = (case im of (r, sz, p) \<Rightarrow> 3 \<le> r ! (p + 12))"
definition is_last :: "image \<Rightarrow> bool" where
  "is_last im = (case im of (r, sz, p) \<Rightarrow> bit (r ! (p + 21)) 7)"

fun groups :: "image list \<Rightarrow> image list \<Rightarrow> image list list" where
  "groups acc [] = []"
| "groups acc (x # xs) = (if is_last x then (acc @ [x]) # groups [] xs else groups (acc @ [x]) xs)"

definition best :: "image list \<Rightarrow> image option" where
  "best g =
     (case filter (\<lambda>x. is_pcat x \<and> is_rev3 x) g of
        x # xs \<Rightarrow> Some x
      | [] \<Rightarrow> (case filter is_pcat g of x # xs \<Rightarrow> Some x | [] \<Rightarrow> None))"

definition selected :: "image list \<Rightarrow> image list" where
  "selected ims = List.map_filter best (groups [] ims)"

primrec cache_images ::
  "('fw, 'guid, 'fv, 'handle) services \<Rightarrow> ht \<times> 'fw \<Rightarrow> image list \<Rightarrow> (ht \<times> 'fw) res" where
  "cache_images sv st [] = Inr st"
| "cache_images sv st (im # ims) =
     (case im of (r, sz, p) \<Rightarrow> bindr (fv_cache_rimg sv st r sz p) (\<lambda>st'. cache_images sv st' ims))"

definition pick :: "image option \<Rightarrow> image \<Rightarrow> image option" where
  "pick found x =
     (if is_pcat x then
        (case found of None \<Rightarrow> Some x | Some y \<Rightarrow> if \<not> is_rev3 y \<and> is_rev3 x then Some x else found)
      else found)"

lemma best_snoc: "best (g @ [x]) = pick (best g) x"
proof -
  let ?f = "filter (\<lambda>x. is_pcat x \<and> is_rev3 x) g" and ?h = "filter is_pcat g"
  have f: "\<forall>y\<in>set ?f. is_rev3 y" by simp
  have h: "?f = [] \<Longrightarrow> \<forall>y\<in>set ?h. \<not> is_rev3 y" by (auto simp: filter_empty_conv)
  have e: "?h = [] \<Longrightarrow> ?f = []" by (auto simp: filter_empty_conv)
  show ?thesis
  proof (cases ?f)
    case Nil
    note f0 = Nil
    show ?thesis
    proof (cases ?h)
      case Nil
      show ?thesis by (simp add: best_def pick_def f0 Nil)
    next
      case (Cons y ys)
      then have "\<not> is_rev3 y" using h [OF f0] by simp
      then show ?thesis by (simp add: best_def pick_def f0 Cons)
    qed
  next
    case (Cons y ys)
    then have "is_rev3 y" using f by (metis list.set_intros(1))
    then show ?thesis by (simp add: best_def pick_def Cons)
  qed
qed

text \<open>An image as the walk has found it: its data structure lies inside it.\<close>

definition image_in :: "image \<Rightarrow> bool" where
  "image_in im = (case im of (r, sz, p) \<Rightarrow> unat sz \<le> length r \<and> p + 22 \<le> unat sz)"

lemma image_len_lt: "image_len rom p < 2 ^ 32"
  using le16_lt [of rom "p + 16"] by (simp add: image_len_def)

lemma image_at_in:
  "image_at rom avail p \<Longrightarrow> avail \<le> length rom \<Longrightarrow> image_in (rom, word_of_nat (image_len rom p), p)"
  using image_len_lt [of rom p] by (auto simp: image_in_def image_at_def unat_of_nat)

lemma choose_found_pick:
  assumes "image_in (rom, sz, p)" and "\<forall>im. found = Some im \<longrightarrow> image_in im"
  shows "choose_found found rom sz p = Inr (pick found (rom, sz, p))"
proof (cases found)
  case None
  then show ?thesis using assms(1)
    by (simp add: choose_found_def pick_def is_pcat_def image_in_def pcir_offsets PCIR_TYP_PCAT_def)
next
  case (Some im)
  obtain fr fsz fp where "im = (fr, fsz, fp)" by (cases im)
  then show ?thesis using assms Some
    by (auto simp: choose_found_def pick_def is_pcat_def is_rev3_def image_in_def pcir_offsets
        PCIR_TYP_PCAT_def not_less dest: leD)
qed

lemma last_flag: "(f AND PCIR_FLAGS_LAST_IMAGE \<noteq> 0) = bit f 7"
  using and_exp_eq_0_iff_not_bit [of f 7] by (simp add: PCIR_FLAGS_LAST_IMAGE_def)

lemma best_in: "best g = Some im \<Longrightarrow> im \<in> set g"
  by (auto simp: best_def filter_eq_Cons_iff split: list.splits)

lemma gather_sxn_selected:
  assumes "unat sz \<le> length rom" and "\<forall>im\<in>set acc. image_in im"
  shows "gather_sxn sv st rom sz (best acc) =
    cache_images sv st (List.map_filter best (groups acc (rom_images rom (unat sz))))"
  using assms
proof (induction "unat sz" arbitrary: sz st rom acc rule: less_induct)
  case less
  let ?p = "le16 rom 24"
  let ?n = "image_len rom ?p"
  let ?im = "(rom, word_of_nat ?n :: u32, ?p)"
  show ?case
  proof (cases "image_at rom (unat sz) ?p")
    case False
    then have "rimg_find_pcir rom sz = Inr None"
      using rimg_find_pcir_spec [OF less.prems(1)] rimg_find_pcir_Some [OF less.prems(1)]
      by (metis image_at_def not_None_eq)
    then show ?thesis using False
      by (subst gather_sxn.simps, subst rom_images.simps) (simp add: map_filter_simps Let_def)
  next
    case True
    note found = rimg_find_pcir_Some [OF less.prems(1), THEN iffD2, OF True]
    let ?hk = "le_word (take 2 (drop (?p + 16) rom)) :: u16"
    let ?sz = "ucast ?hk * HKIBYTE :: u32"
    have in_im: "image_in ?im" using image_at_in [OF True less.prems(1)] .
    have bounds: "?p + 22 \<le> length rom" using True less.prems(1) by (simp add: image_at_def)
    then have hk: "buf16 rom (?p + 16) = Inr ?hk" by (simp add: buf16_def)
    note dec = walk_decreases [OF found, unfolded pcir_offsets, OF hk]
    have usz: "unat ?sz = ?n"
      using unat_rimg_sz [of ?hk] by (simp add: unat_ucast_up image_len_def le16_def)
    have word: "word_of_nat ?n = ?sz" unfolding usz [symmetric] by simp
    let ?acc = "acc @ [?im]"
    have choose: "choose_found (best acc) rom ?sz ?p = Inr (best ?acc)"
      using choose_found_pick [OF in_im, of "best acc"] best_in less.prems(2) by (simp add: best_snoc word)
    let ?rom' = "drop ?n rom" and ?left = "sz - ucast ?sz"
    have left: "unat ?left = unat sz - ?n"
      using dec(2) by (simp add: image_len_def le16_def)
    have run: "gather_sxn sv st rom sz (best acc) =
        bindr (end_of_rom sv st (best ?acc) (rom ! (?p + 21))) (\<lambda>(st', found'').
          gather_sxn sv st' ?rom' ?left found'')"
      using bounds by (subst gather_sxn.simps) (simp add: found hk choose pcir_offsets usz Let_def)
    have ims: "rom_images rom (unat sz) = ?im # rom_images ?rom' (unat ?left)"
      using True left by (subst rom_images.simps) (simp add: Let_def)
    have room: "unat ?left \<le> length ?rom'" using left less.prems(1) by simp
    have IH: "gather_sxn sv st' ?rom' ?left (best acc') =
        cache_images sv st' (List.map_filter best (groups acc' (rom_images ?rom' (unat ?left))))"
      if "\<forall>im\<in>set acc'. image_in im" for st' acc'
      using less.hyps [OF dec(1) room that] .
    have acc_in: "\<forall>im\<in>set ?acc. image_in im" using less.prems(2) in_im by simp
    show ?thesis
    proof (cases "bit (rom ! (?p + 21)) 7")
      case False
      then have "end_of_rom sv st (best ?acc) (rom ! (?p + 21)) = Inr (st, best ?acc)"
        and "\<not> is_last ?im" by (simp_all add: end_of_rom_def last_flag is_last_def)
      then show ?thesis unfolding run ims using IH [OF acc_in, of st] by simp
    next
      case True
      then have last: "is_last ?im" by (simp add: is_last_def)
      have nil: "best [] = None" by (simp add: best_def)
      show ?thesis
      proof (cases "best ?acc")
        case None
        then have "end_of_rom sv st (best ?acc) (rom ! (?p + 21)) = Inr (st, best [])"
          using True by (simp add: end_of_rom_def last_flag nil)
        then show ?thesis unfolding run ims using IH [of "[]" st] last None by (simp add: map_filter_simps)
      next
        case (Some im)
        obtain r isz ip where im: "im = (r, isz, ip)" by (cases im)
        have "end_of_rom sv st (best ?acc) (rom ! (?p + 21)) =
            bindr (fv_cache_rimg sv st r isz ip) (\<lambda>st'. Inr (st', best []))"
          using True Some im by (simp add: end_of_rom_def last_flag nil)
        then show ?thesis unfolding run ims using IH [of "[]"] last Some im
          by (cases "fv_cache_rimg sv st r isz ip") (simp_all add: map_filter_simps)
      qed
    qed
  qed
qed

subsection \<open>The invariant of the cache\<close>

text \<open>
  An entry is in order when the copied bytes are a whole image as \<^verbatim>\<open>rimg_find_pcir\<close> accepts it, of
  PC-AT type, that names the device and class it is filed under.
\<close>

definition image_for :: "u32 \<times> u32 \<Rightarrow> buf \<Rightarrow> u32 \<Rightarrow> bool" where
  "image_for k b sz \<longleftrightarrow>
     (let bs = b_bytes b; p = le16 bs 24; n = unat sz in
      length bs = n \<and> image_len bs p = n \<and> image_at bs n p \<and> bs ! (p + 20) = 0 \<and>
      k \<in> set (image_keys bs p n))"

definition ht_ok :: "ht \<Rightarrow> bool" where
  "ht_ok ht \<longleftrightarrow> ht_wf ht \<and> (\<forall>k b sz. ht_lookup ht k = Some (b, sz) \<longrightarrow> image_for k b sz)"

definition image_ok :: "image \<Rightarrow> bool" where
  "image_ok im = (case im of (r, sz, p) \<Rightarrow>
     image_at r (unat sz) p \<and> image_len r p = unat sz \<and> unat sz \<le> length r)"

lemma ht_empty_ok: "ht_ok ht_empty"
  by (simp add: ht_ok_def ht_empty_wf ht_empty_lookup)

lemma le16_take: "k + 2 \<le> n \<Longrightarrow> le16 (take n r) k = le16 r k"
  by (simp add: le16_def drop_take)

lemma image_at_take:
  assumes "image_at r n p" and "image_len r p = n"
  shows "image_len (take n r) p = n" and "image_at (take n r) n p"
    and "image_keys (take n r) p n = image_keys r p n" and "take n r ! (p + 20) = r ! (p + 20)"
proof -
  have n: "p + 22 \<le> n" "512 \<le> n" using assms by (auto simp: image_at_def)
  show len: "image_len (take n r) p = n" using assms(2) n by (simp add: image_len_def le16_take)
  show "image_at (take n r) n p"
    using assms n unfolding image_at_def len by (auto simp: le16_take drop_take)
  have "image_id (take n r) p = image_id r p"
    using n by (simp add: image_id_def drop_take)
  moreover have "image_class (take n r) p = image_class r p"
    using n by (simp add: image_class_def)
  moreover have "has_dev_list (take n r) p n = has_dev_list r p n"
    and "image_devs (take n r) p n = image_devs r p n"
    using n by (simp_all add: has_dev_list_def image_devs_def le16_take)
  ultimately show "image_keys (take n r) p n = image_keys r p n"
    by (simp add: image_keys_def image_ids_def)
  show "take n r ! (p + 20) = r ! (p + 20)" using n by simp
qed

definition good :: "(ht \<times> 'fw) res \<Rightarrow> bool" where
  "good r = (case r of Inl e \<Rightarrow> \<exists>msg. e = Error msg | Inr st \<Rightarrow> ht_ok (fst st))"

lemma good_bindr: "good r \<Longrightarrow> (\<And>st. ht_ok (fst st) \<Longrightarrow> good (f st)) \<Longrightarrow> good (bindr r f)"
  by (cases r) (auto simp: good_def)

lemma fv_cache_rimg_good:
  assumes "ht_ok (fst st)" and "image_ok (r, sz, p)" and "is_pcat (r, sz, p)"
  shows "good (fv_cache_rimg sv st r sz p)"
proof -
  let ?n = "unat sz" and ?ht = "fst st"
  have at: "image_at r ?n p" "image_len r p = ?n" "?n \<le> length r" using assms(2) by (simp_all add: image_ok_def)
  then have "p + 22 \<le> ?n" by (simp add: image_at_def)
  moreover have wf: "ht_wf ?ht" using assms(1) by (simp add: ht_ok_def)
  ultimately have c: "image_cached sv ?ht r sz p (fv_cache_rimg sv st r sz p)"
    using fv_cache_rimg_cached at(3) by blast
  have ok: "ht_ok (fvm.insert_all ?ht (image_keys r p ?n) (\<lparr> b_addr = addr, b_bytes = take ?n r \<rparr>, sz))"
    (is "ht_ok ?ht'") for addr
    unfolding ht_ok_def
  proof (intro conjI allI impI)
    show "ht_wf ?ht'" using fvm.insert_all_inv [OF wf] .
    fix k b bsz
    assume l: "ht_lookup ?ht' k = Some (b, bsz)"
    show "image_for k b bsz"
    proof (cases "k \<in> set (image_keys r p ?n)")
      case False
      then show ?thesis
        using l assms(1) fvm.lookup_insert_all [OF wf] by (cases k) (simp add: ht_ok_def)
    next
      case True
      then have v: "b = \<lparr> b_addr = addr, b_bytes = take ?n r \<rparr>" "bsz = sz"
        using l fvm.lookup_insert_all [OF wf] by auto
      have p: "le16 (take ?n r) 24 = p" "r ! (p + 20) = 0"
        using at assms(3) by (auto simp: image_at_def le16_take is_pcat_def)
      show ?thesis
        using True at(3) p image_at_take [OF at(1,2)] by (simp add: image_for_def v Let_def)
    qed
  qed
  show ?thesis using c ok by (auto simp: image_cached_def good_def)
qed

lemma rom_images_ok: "avail \<le> length rom \<Longrightarrow> im \<in> set (rom_images rom avail) \<Longrightarrow> image_ok im"
proof (induction rom avail rule: rom_images.induct)
  case (1 rom avail)
  let ?p = "le16 rom 24"
  let ?n = "image_len rom ?p"
  show ?case
  proof (cases "image_at rom avail ?p")
    case True
    have "unat (word_of_nat ?n :: u32) = ?n"
      using image_len_lt [of rom ?p] by (simp add: unat_of_nat)
    moreover have "image_at rom ?n ?p"
      using True by (auto simp: image_at_def image_len_def)
    ultimately have "image_ok (rom, word_of_nat ?n, ?p)"
      using True "1.prems"(1) by (simp add: image_ok_def image_at_def)
    moreover have "avail - ?n \<le> length (drop ?n rom)" using "1.prems"(1) by simp
    ultimately show ?thesis
      using "1.prems"(2) True "1.IH" [OF refl refl True] by (subst (asm) rom_images.simps) (auto simp: Let_def)
  next
    case False
    then show ?thesis using "1.prems"(2) by (subst (asm) rom_images.simps) simp
  qed
qed

lemma best_pcat: "best g = Some im \<Longrightarrow> is_pcat im"
  by (auto simp: best_def filter_eq_Cons_iff split: list.splits)

lemma groups_set: "g \<in> set (groups acc ims) \<Longrightarrow> set g \<subseteq> set acc \<union> set ims"
  by (induction acc ims rule: groups.induct) (fastforce split: if_splits)+

lemma selected_in: "im \<in> set (selected ims) \<Longrightarrow> im \<in> set ims \<and> is_pcat im"
  using groups_set [of _ "[]" ims] best_in best_pcat
  by (fastforce simp: selected_def map_filter_def)

lemma cache_images_good:
  "ht_ok (fst st) \<Longrightarrow> \<forall>im\<in>set ims. image_ok im \<and> is_pcat im \<Longrightarrow> good (cache_images sv st ims)"
proof (induction ims arbitrary: st)
  case (Cons im ims)
  then show ?case by (cases im) (auto intro!: good_bindr fv_cache_rimg_good)
qed (simp add: good_def)

lemma one_sxn_selected:
  assumes "unat sz \<le> length rom"
  shows "fv_gather_rimgs_for_one_sxn sv st rom sz = cache_images sv st (selected (rom_images rom (unat sz)))"
  using gather_sxn_selected [OF assms, of "[]"]
  by (simp add: fv_gather_rimgs_for_one_sxn_def selected_def best_def)

lemma one_sxn_good:
  assumes "ht_ok (fst st)" and "unat sz \<le> length rom"
  shows "good (fv_gather_rimgs_for_one_sxn sv st rom sz)"
  unfolding one_sxn_selected [OF assms(2)]
  using assms selected_in rom_images_ok by (intro cache_images_good) blast+

subsection \<open>Files and volumes\<close>

text \<open>
  What UEFI promises of \<open>ReadSection\<close> with a buffer of \<^verbatim>\<open>MAX_OROM_SZ\<close> bytes: the bytes up to
  the reported size or the buffer's size, whichever is less, are there.
\<close>

definition sections_filled :: "('fw, 'guid, 'fv, 'handle) services \<Rightarrow> bool" where
  "sections_filled sv \<longleftrightarrow>
     (\<forall>fw fv guid i sxn sxn' bytes n fw'.
        ReadSection sv fw fv guid i sxn = (Some (sxn', bytes, n), fw') \<longrightarrow>
        min (unat n) (unat MAX_OROM_SZ) \<le> length bytes)"

lemma gather_sxns_good:
  assumes "sections_filled sv" and "ht_ok (fst st)"
  shows "good (bindr (gather_sxns sv fv guid st sxn i) (\<lambda>(sxn', ht, fw'). Inr (ht, f sxn' fw')))"
  using assms(2)
proof (induction "2 ^ 64 - unat i" arbitrary: i st sxn rule: less_induct)
  case less
  show ?case
  proof (cases "ReadSection sv (snd st) fv guid i sxn")
    case (Pair r fw)
    show ?thesis
    proof (cases r)
      case None
      then show ?thesis using Pair less.prems by (subst gather_sxns.simps) (simp add: good_def)
    next
      case (Some x)
      obtain sxn' bytes n where x: "x = (sxn', bytes, n)" by (cases x)
      let ?sz = "if n > MAX_OROM_SZ then MAX_OROM_SZ else n"
      have "unat ?sz = min (unat n) (unat MAX_OROM_SZ)" by (simp add: min_def word_less_nat_alt)
      also have "\<dots> \<le> length bytes"
        using assms(1) Pair Some unfolding sections_filled_def x by blast
      finally have g: "good (fv_gather_rimgs_for_one_sxn sv (fst st, fw) bytes ?sz)"
        using less.prems by (intro one_sxn_good) simp_all
      have next_i: "2 ^ 64 - unat (i + 1) < 2 ^ 64 - unat i" if "i + 1 \<noteq> 0"
      proof -
        have "unat (i + 1) = Suc (unat i)" using that unatSuc [of i] by (simp add: add.commute)
        moreover have "unat (i + 1) < 2 ^ 64" using unat_lt [of "i + 1"] by simp
        ultimately show ?thesis by simp
      qed
      show ?thesis
      proof (cases "fv_gather_rimgs_for_one_sxn sv (fst st, fw) bytes ?sz")
        case (Inl e)
        then show ?thesis using Pair Some x g
          by (subst gather_sxns.simps) (simp add: good_def)
      next
        case (Inr st')
        have ok: "ht_ok (fst st')" using g unfolding Inr by (simp add: good_def)
        show ?thesis
        proof (cases "i + 1 = 0")
          case True
          then show ?thesis using Pair Some x Inr ok
            by (cases st', subst gather_sxns.simps) (simp add: good_def)
        next
          case False
          then show ?thesis using Pair Some x Inr less.hyps [OF next_i [OF False] ok]
            by (subst gather_sxns.simps) simp
        qed
      qed
    qed
  qed
qed

lemma one_file_good:
  "sections_filled sv \<Longrightarrow> ht_ok (fst st) \<Longrightarrow> good (fv_gather_rimgs_for_one_file sv st fv guid)"
  unfolding fv_gather_rimgs_for_one_file_def
  by (auto simp: Let_def split: prod.split intro: gather_sxns_good)

text \<open>One round of the loop over the files, for any continuation \<open>f\<close>.\<close>

definition file_round :: "('fw, 'guid, 'fv, 'handle) services \<Rightarrow> 'fv \<Rightarrow> u64 \<Rightarrow> ht \<times> 'fw \<Rightarrow>
    (ht \<times> 'fw) res + (ht \<times> 'fw)" where
  "file_round sv fv key st =
     (case GetNextFile sv (snd st) fv key of
        (None, fw) \<Rightarrow> Inl (Inr (fst st, fw))
      | (Some (type, guid), fw) \<Rightarrow>
          if type = EFI_FV_FILETYPE_FFS_PAD \<or> type = EFI_FV_FILETYPE_FIRMWARE_VOLUME_IMAGE
          then Inr (fst st, fw)
          else (case fv_gather_rimgs_for_one_file sv (fst st, fw) fv guid of
                  Inl e \<Rightarrow> Inl (Inl e) | Inr st' \<Rightarrow> Inr st'))"

lemma gather_files_round:
  "gather_files sv fv key st =
     (case file_round sv fv key st of Inl r \<Rightarrow> Some r | Inr st' \<Rightarrow> gather_files sv fv key st')"
  by (subst gather_files.simps)
    (auto simp: file_round_def bindo_def split: prod.split option.split sum.split)

lemma file_round_good:
  assumes "sections_filled sv" and "ht_ok (fst st)"
  shows "case file_round sv fv key st of Inl r \<Rightarrow> good r | Inr st' \<Rightarrow> ht_ok (fst st')"
proof (cases "GetNextFile sv (snd st) fv key")
  case (Pair r fw)
  show ?thesis
  proof (cases r)
    case None
    then show ?thesis using Pair assms(2) by (simp add: file_round_def good_def)
  next
    case (Some x)
    obtain ty guid where x: "x = (ty, guid)" by (cases x)
    have g: "good (fv_gather_rimgs_for_one_file sv (fst st, fw) fv guid)"
      using one_file_good [OF assms(1)] assms(2) by simp
    show ?thesis
    proof (cases "fv_gather_rimgs_for_one_file sv (fst st, fw) fv guid")
      case (Inl e)
      then show ?thesis using Pair Some x assms(2) g by (simp add: file_round_def good_def)
    next
      case (Inr st')
      then show ?thesis using Pair Some x assms(2) g by (simp add: file_round_def good_def)
    qed
  qed
qed

lemma gather_files_good:
  assumes "sections_filled sv" and "gather_files sv fv key st = Some r" and "ht_ok (fst st)"
  shows "good r"
proof -
  have "sections_filled sv \<longrightarrow> ht_ok (fst st) \<longrightarrow> good r"
  proof (rule gather_files.raw_induct
      [where P = "\<lambda>sv fv key st r. sections_filled sv \<longrightarrow> ht_ok (fst st) \<longrightarrow> good r", OF _ assms(2)], intro impI)
    fix g sv fv key r and st :: "ht \<times> 'a"
    assume hyp: "\<And>sv fv key st r. g sv fv key st = Some r \<Longrightarrow>
        sections_filled sv \<longrightarrow> ht_ok (fst st) \<longrightarrow> good r"
      and run: "(case GetNextFile sv (snd st) fv key of
        (None, fw) \<Rightarrow> Some (Inr (fst st, fw))
      | (Some (type, guid), fw) \<Rightarrow>
          if type = EFI_FV_FILETYPE_FFS_PAD \<or> type = EFI_FV_FILETYPE_FIRMWARE_VOLUME_IMAGE
          then g sv fv key (fst st, fw)
          else bindo (Some (fv_gather_rimgs_for_one_file sv (fst st, fw) fv guid)) (g sv fv key)) = Some r"
      and sec: "sections_filled sv" and ok: "ht_ok (fst st)"
    have "(case file_round sv fv key st of Inl r \<Rightarrow> Some r | Inr st' \<Rightarrow> g sv fv key st') = Some r"
      using run by (auto simp: file_round_def bindo_def split: prod.splits option.splits sum.splits if_splits)
    then show "good r"
      using file_round_good [OF sec ok, of fv key] hyp sec by (auto split: sum.splits)
  qed
  then show ?thesis using assms by blast
qed

lemma gather_fvs_good:
  assumes "sections_filled sv"
  shows "gather_fvs sv st hs = Some r \<Longrightarrow> ht_ok (fst st) \<Longrightarrow> good r"
proof (induction hs arbitrary: st r)
  case (Cons h hs)
  obtain fvo fw where h: "HandleFv sv (snd st) h = (fvo, fw)" by fastforce
  show ?case
  proof (cases fvo)
    case None
    then show ?thesis using Cons h by simp
  next
    case (Some fv)
    obtain key fw1 where key: "AllocatePool sv fw (ucast (KeySize sv fv)) = (key, fw1)" by fastforce
    show ?thesis
    proof (cases key)
      case None
      then show ?thesis using Cons.prems h Some key
        by (auto simp: fv_gather_rimgs_for_one_fv_def good_def)
    next
      case key': (Some k)
      obtain r1 where r1: "gather_files sv fv k (fst st, fw1) = Some r1"
        using Cons.prems(1) h Some key key'
        by (cases "gather_files sv fv k (fst st, fw1)") (auto simp: fv_gather_rimgs_for_one_fv_def)
      have g: "good r1" using gather_files_good [OF assms r1] Cons.prems(2) by simp
      show ?thesis
      proof (cases r1)
        case (Inl e)
        then show ?thesis using Cons.prems(1) h Some key key' r1 g
          by (auto simp: fv_gather_rimgs_for_one_fv_def good_def)
      next
        case (Inr st1)
        then show ?thesis using Cons.IH [of "(fst st1, FreePool sv (snd st1) (Some k))" r] Cons.prems h Some key key' r1 g
          by (auto simp: fv_gather_rimgs_for_one_fv_def good_def split: prod.splits)
      qed
    qed
  qed
qed (auto simp: good_def)

lemma fv_init_good:
  assumes "sections_filled sv" and "ht_ok (fst st)" and "fv_init sv st = Some r"
  shows "good r"
proof -
  obtain hs fw where l: "LocateFvs sv (snd st) = (hs, fw)" by fastforce
  show ?thesis
  proof (cases hs)
    case None
    then show ?thesis using assms(2,3) l by (auto simp: fv_init_def good_def)
  next
    case (Some x)
    obtain ph handles where x: "x = (ph, handles)" by (cases x)
    show ?thesis
    proof (cases "handles = []")
      case True
      then show ?thesis using assms(2,3) l Some x by (auto simp: fv_init_def good_def)
    next
      case False
      then have run: "bindo (gather_fvs sv (ht_empty, fw) handles) (\<lambda>(ht, fw').
          Some (Inr (ht, FreePool sv fw' (Some ph)))) = Some r"
        using assms(3) l Some x by (simp add: fv_init_def)
      then obtain r1 where r1: "gather_fvs sv (ht_empty, fw) handles = Some r1"
        by (cases "gather_fvs sv (ht_empty, fw) handles") auto
      have "good r1" using gather_fvs_good [OF assms(1) r1] ht_empty_ok by simp
      then show ?thesis using run r1 by (cases r1) (auto simp: good_def)
    qed
  qed
qed

subsection \<open>Termination\<close>

text \<open>A property of the firmware's state that the services for memory and sections keep.\<close>

definition fw_kept :: "('fw, 'guid, 'fv, 'handle) services \<Rightarrow> ('fw \<Rightarrow> bool) \<Rightarrow> bool" where
  "fw_kept sv I \<longleftrightarrow>
     (\<forall>fw. I fw \<longrightarrow> (\<forall>n. I (snd (AllocatePool sv fw n))) \<and> (\<forall>p. I (FreePool sv fw p)) \<and>
        (\<forall>fv guid i sxn. I (snd (ReadSection sv fw fv guid i sxn))))"

lemma add_hash_entry_kept:
  "fw_kept sv I \<Longrightarrow> I (snd st) \<Longrightarrow> fv_add_hash_entry sv st i c copy sz = Inr st' \<Longrightarrow> I (snd st')"
  by (auto simp: fv_add_hash_entry_def fw_kept_def Let_def res_simps split: prod.splits option.splits)
    (metis snd_conv)

lemma add_devs_kept:
  "fw_kept sv I \<Longrightarrow> I (snd st) \<Longrightarrow> fv_add_devs sv st rimg p i c copy sz = Inr st' \<Longrightarrow> I (snd st')"
proof (induction sv st rimg p i c copy sz rule: fv_add_devs.induct)
  case (1 sv st rimg p i c copy sz)
  from "1.prems"(3) obtain dev where dev: "buf16 rimg p = Inr dev"
    by (subst (asm) fv_add_devs.simps) (auto simp: bindr_eq_Inr)
  show ?case
  proof (cases "dev = 0")
    case True
    then show ?thesis using "1.prems" dev by (subst (asm) fv_add_devs.simps) simp
  next
    case False
    let ?id = "pci_make_id (pci_id_vendor i) dev"
    show ?thesis
    proof (cases "?id = i")
      case True
      then show ?thesis using "1.prems" dev False "1.IH"(2) [OF dev False refl]
        by (subst (asm) fv_add_devs.simps) simp
    next
      case other: False
      then obtain st1 where st1: "fv_add_hash_entry sv st ?id c copy sz = Inr st1"
        "fv_add_devs sv st1 rimg (p + 2) i c copy sz = Inr st'"
        using "1.prems"(3) dev False by (subst (asm) fv_add_devs.simps) (auto simp: Let_def bindr_eq_Inr)
      then show ?thesis
        using "1.IH"(1) [OF dev False refl other st1(1) "1.prems"(1) _ st1(2)]
          add_hash_entry_kept [OF "1.prems"(1,2) st1(1)] by blast
    qed
  qed
qed

lemma cache_rimg_kept:
  assumes "fw_kept sv I" and "I (snd st)" and "fv_cache_rimg sv st rimg sz p = Inr st'"
  shows "I (snd st')"
proof -
  obtain a fw where a: "AllocatePool sv (snd st) (ucast sz) = (a, fw)" by fastforce
  then have fw: "I fw" using assms(1,2) unfolding fw_kept_def by (metis snd_conv)
  obtain addr where addr: "a = Some addr"
    using assms(3) a by (cases a) (auto simp: fv_cache_rimg_def bindr_eq_Inr)
  obtain c i devs st1 where st1:
    "fv_add_hash_entry sv (fst st, fw) i c \<lparr> b_addr = addr, b_bytes = take (unat sz) rimg \<rparr> sz = Inr st1"
    "(case devs of None \<Rightarrow> Inr st1
      | Some q \<Rightarrow> fv_add_devs sv st1 rimg q i c \<lparr> b_addr = addr, b_bytes = take (unat sz) rimg \<rparr> sz) = Inr st'"
    using assms(3) a addr by (auto simp: fv_cache_rimg_def bindr_eq_Inr Let_def split: if_splits)
  have "I (snd st1)" using add_hash_entry_kept [OF assms(1) _ st1(1)] fw by simp
  then show ?thesis using st1(2) add_devs_kept [OF assms(1)] by (cases devs) auto
qed

lemma end_of_rom_kept:
  "fw_kept sv I \<Longrightarrow> I (snd st) \<Longrightarrow> end_of_rom sv st found flags = Inr (st', f') \<Longrightarrow> I (snd st')"
  using cache_rimg_kept [of sv I st]
  by (auto simp: end_of_rom_def bindr_eq_Inr split: if_splits option.splits)

lemma gather_sxn_kept:
  "fw_kept sv I \<Longrightarrow> I (snd st) \<Longrightarrow> gather_sxn sv st rom sz found = Inr st' \<Longrightarrow> I (snd st')"
proof (induction "unat sz" arbitrary: sz st rom found rule: less_induct)
  case less
  from less.prems(3) obtain r where r: "rimg_find_pcir rom sz = Inr r"
    by (subst (asm) gather_sxn.simps) (auto simp: bindr_eq_Inr)
  show ?case
  proof (cases r)
    case None
    then show ?thesis using less.prems r by (subst (asm) gather_sxn.simps) simp
  next
    case (Some p)
    from less.prems(3) obtain hk st1 found1 found2 flags where h:
      "buf16 rom (p + pcir_rimg_sz_hkib) = Inr hk" "end_of_rom sv st found1 flags = Inr (st1, found2)"
      "gather_sxn sv st1 (drop (unat (ucast hk * HKIBYTE :: u32)) rom) (sz - ucast (ucast hk * HKIBYTE :: u32))
         found2 = Inr st'"
      using r Some by (subst (asm) gather_sxn.simps) (auto simp: bindr_eq_Inr Let_def)
    have "I (snd st1)" using end_of_rom_kept [OF less.prems(1,2) h(2)] .
    then show ?thesis
      using less.hyps [OF walk_decreases(1) [OF r [unfolded Some] h(1)] less.prems(1) _ h(3)] by blast
  qed
qed

lemma gather_sxns_kept:
  "fw_kept sv I \<Longrightarrow> I (snd st) \<Longrightarrow> gather_sxns sv fv guid st sxn i = Inr (sxn', st') \<Longrightarrow> I (snd st')"
proof (induction sv fv guid st sxn i rule: gather_sxns.induct)
  case (1 sv fv guid st sxn i)
  obtain r fw where r: "ReadSection sv (snd st) fv guid i sxn = (r, fw)" by fastforce
  then have fw: "I fw" using "1.prems"(1,2) unfolding fw_kept_def by (metis snd_conv)
  show ?case
  proof (cases r)
    case None
    then show ?thesis using "1.prems"(3) r fw by (subst (asm) gather_sxns.simps) auto
  next
    case (Some x)
    obtain sxn1 bytes n where x: "x = (sxn1, bytes, n)" by (cases x)
    let ?sz = "if n > MAX_OROM_SZ then MAX_OROM_SZ else n"
    from "1.prems"(3) obtain st1 where st1:
      "fv_gather_rimgs_for_one_sxn sv (fst st, fw) bytes ?sz = Inr st1"
      "(if i + 1 \<noteq> 0 then gather_sxns sv fv guid st1 sxn1 (i + 1) else Inr (sxn1, st1)) = Inr (sxn', st')"
      using r Some x by (subst (asm) gather_sxns.simps) (auto simp: bindr_eq_Inr)
    have I1: "I (snd st1)"
      using gather_sxn_kept [OF "1.prems"(1) _ st1(1) [unfolded fv_gather_rimgs_for_one_sxn_def]] fw by simp
    show ?thesis
    proof (cases "i + 1 = 0")
      case True
      then show ?thesis using st1(2) I1 by simp
    next
      case False
      then show ?thesis
        using "1.IH" [OF r [symmetric] Some x [symmetric] refl st1(1) False "1.prems"(1) I1] st1(2) by simp
    qed
  qed
qed

lemma one_file_kept:
  assumes "fw_kept sv I" and "I (snd st)" and "fv_gather_rimgs_for_one_file sv st fv guid = Inr st'"
  shows "I (snd st')"
proof -
  obtain sxn fw where a: "AllocatePool sv (snd st) MAX_OROM_SZ = (sxn, fw)" by fastforce
  then have fw: "I fw" using assms(1,2) unfolding fw_kept_def by (metis snd_conv)
  obtain sxn1 ht1 fw1 where g: "gather_sxns sv fv guid (fst st, fw) sxn 0 = Inr (sxn1, ht1, fw1)"
    "st' = (ht1, FreePool sv fw1 sxn1)"
    using assms(3) a by (auto simp: fv_gather_rimgs_for_one_file_def bindr_eq_Inr Let_def)
  have "I fw1" using gather_sxns_kept [OF assms(1) _ g(1)] fw by simp
  then show ?thesis using assms(1) g(2) by (simp add: fw_kept_def)
qed

text \<open>
  A firmware whose enumeration of files comes to an end: a count of the files still to come,
  which every file given lowers and no other service raises.
\<close>

definition files_end :: "('fw, 'guid, 'fv, 'handle) services \<Rightarrow> ('fw \<Rightarrow> nat) \<Rightarrow> bool" where
  "files_end sv left \<longleftrightarrow>
     (\<forall>n. fw_kept sv (\<lambda>fw. left fw \<le> n)) \<and>
     (\<forall>fw fv key x fw'. GetNextFile sv fw fv key = (Some x, fw') \<longrightarrow> left fw' < left fw)"

lemma gather_files_returns:
  assumes "files_end sv left"
  shows "gather_files sv fv key st \<noteq> None"
proof (induction "left (snd st)" arbitrary: st rule: less_induct)
  case less
  obtain x fw where x: "GetNextFile sv (snd st) fv key = (x, fw)" by fastforce
  show ?case
  proof (cases x)
    case None
    then show ?thesis using x by (subst gather_files.simps) simp
  next
    case (Some y)
    obtain ty guid where y: "y = (ty, guid)" by (cases y)
    have lt: "left fw < left (snd st)" using assms x Some unfolding files_end_def by blast
    have kept: "left (snd st') \<le> left fw"
      if "fv_gather_rimgs_for_one_file sv (fst st, fw) fv guid = Inr st'" for st'
      using one_file_kept [of sv "\<lambda>w. left w \<le> left fw", OF _ _ that] assms
      unfolding files_end_def by simp
    have skip: "gather_files sv fv key (fst st, fw) \<noteq> None" using less lt by simp
    show ?thesis
    proof (cases "fv_gather_rimgs_for_one_file sv (fst st, fw) fv guid")
      case (Inl e)
      then show ?thesis using x Some y skip by (subst gather_files.simps) auto
    next
      case (Inr st')
      then have "gather_files sv fv key st' \<noteq> None"
        using less kept [OF Inr] lt by simp
      then show ?thesis using x Some y skip Inr by (subst gather_files.simps) auto
    qed
  qed
qed

lemma one_fv_returns:
  assumes "files_end sv left"
  shows "fv_gather_rimgs_for_one_fv sv st fv \<noteq> None"
proof (cases "AllocatePool sv (snd st) (ucast (KeySize sv fv))")
  case (Pair key fw)
  show ?thesis
  proof (cases key)
    case None
    then show ?thesis using Pair by (simp add: fv_gather_rimgs_for_one_fv_def)
  next
    case (Some k)
    obtain r where "gather_files sv fv k (fst st, fw) = Some r"
      using gather_files_returns [OF assms] by fastforce
    then show ?thesis using Pair Some by (cases r) (auto simp: fv_gather_rimgs_for_one_fv_def)
  qed
qed

lemma gather_fvs_returns:
  assumes "files_end sv left"
  shows "gather_fvs sv st hs \<noteq> None"
proof (induction hs arbitrary: st)
  case (Cons h hs)
  obtain fvo fw where h: "HandleFv sv (snd st) h = (fvo, fw)" by fastforce
  show ?case
  proof (cases fvo)
    case None
    then show ?thesis using h Cons by simp
  next
    case (Some fv)
    obtain r where "fv_gather_rimgs_for_one_fv sv (fst st, fw) fv = Some r"
      using one_fv_returns [OF assms] by fastforce
    then show ?thesis using h Some Cons by (cases r) auto
  qed
qed simp

lemma fv_init_returns:
  assumes "files_end sv left"
  shows "fv_init sv st \<noteq> None"
proof (cases "LocateFvs sv (snd st)")
  case (Pair hs fw)
  show ?thesis
  proof (cases hs)
    case None
    then show ?thesis using Pair by (simp add: fv_init_def)
  next
    case (Some x)
    obtain r where "gather_fvs sv (ht_empty, fw) (snd x) = Some r"
      using gather_fvs_returns [OF assms] by fastforce
    then show ?thesis using Pair Some by (cases x; cases r) (auto simp: fv_init_def)
  qed
qed

subsection \<open>Properties\<close>

text \<open>A firmware with one volume whose state counts the files left, each with one section.\<close>

definition fw_ex :: "(nat, unit, unit, unit) services" where
  "fw_ex =
     \<lparr> AllocatePool = (\<lambda>fw n. (Some 0x1000, fw)), FreePool = (\<lambda>fw p. fw),
       ReadSection = (\<lambda>fw fv guid i sxn. (if i = 0 then Some (sxn, rimg_ex, 512) else None, fw)),
       GetNextFile = (\<lambda>fw fv key. (if fw = 0 then None else Some (2, ()), fw - 1)),
       KeySize = (\<lambda>fv. 8), LocateFvs = (\<lambda>fw. (Some (0x2000, [()]), fw)),
       HandleFv = (\<lambda>fw h. (Some (), fw)) \<rparr>"

lemma fw_ex_ok: "sections_filled fw_ex" "files_end fw_ex id"
  by (auto simp: sections_filled_def files_end_def fw_kept_def fw_ex_def rimg_ex_length MAX_OROM_SZ_def
      split: if_splits)

text \<open>
  C29. Caching an image that contains its data structure either reports that memory has run
  out, which takes an allocation that fails, or makes the copy of the image available for
  exactly the device identifiers the image names, its own and those of its device list, under
  the image's class; what is found for every other device and class stays as it was.
\<close>

theorem cached_image_found:
  assumes "ht_wf (fst st)" and "unat sz \<le> length rimg" and "p + 22 \<le> unat sz"
  shows "(\<exists>msg. fv_cache_rimg sv st rimg sz p = Inl (Error msg)) \<and>
       (\<exists>fw n. fst (AllocatePool sv fw n) = None) \<or>
    (\<exists>ht addr fw. fv_cache_rimg sv st rimg sz p = Inr (ht, fw) \<and> ht_wf ht \<and>
       (\<forall>i c. fv_find_rimg ht i c =
          (if c = image_class rimg p \<and> i \<in> set (image_ids rimg p (unat sz))
           then Inr (Some (\<lparr> b_addr = addr, b_bytes = take (unat sz) rimg \<rparr>, sz))
           else fv_find_rimg (fst st) i c)))"
proof -
  have key: "(i, c) \<in> set (image_keys rimg p (unat sz)) \<longleftrightarrow>
      c = image_class rimg p \<and> i \<in> set (image_ids rimg p (unat sz))" for i c
    by (auto simp: image_keys_def)
  note wf = fvm.insert_all_inv [OF assms(1)] and look = fvm.lookup_insert_all [OF assms(1)]
  show ?thesis
    using fv_cache_rimg_cached [OF assms, of sv] unfolding image_cached_def
  proof (elim disjE exE)
    fix addr fw
    let ?ht = "fvm.insert_all (fst st) (image_keys rimg p (unat sz))
      (\<lparr> b_addr = addr, b_bytes = take (unat sz) rimg \<rparr>, sz)"
    assume "fv_cache_rimg sv st rimg sz p = Inr (?ht, fw)"
    moreover have "fv_find_rimg ?ht i c =
        (if c = image_class rimg p \<and> i \<in> set (image_ids rimg p (unat sz))
         then Inr (Some (\<lparr> b_addr = addr, b_bytes = take (unat sz) rimg \<rparr>, sz))
         else fv_find_rimg (fst st) i c)" for i c
      using wf assms(1) look by (simp add: fv_find_rimg_eq key)
    ultimately show ?thesis using wf by blast
  qed blast
qed

theorem cached_image_found_witness:
  "\<exists>ht fw b. fv_cache_rimg fw_ex (ht_empty, 0) rimg_ex 512 28 = Inr (ht, fw) \<and>
     fv_find_rimg ht 0x12358086 0x02000000 = Inr (Some (b, 512)) \<and>
     fv_find_rimg ht 0x12368086 0x02000000 = Inr None"
proof -
  have "rimg_ex ! 40 = 3" "drop 52 rimg_ex = 0x35 # 0x12 # 0 # 0 # rimg_ex_pad"
    by (simp_all add: rimg_ex_def rimg_ex_head_def)
  moreover note rimg_ex_fields(5)
  ultimately have "has_dev_list rimg_ex 28 512" and "image_devs rimg_ex 28 512 = [0x1235]"
    by (simp_all add: has_dev_list_def image_devs_def rimg_ex_length)
  moreover have "image_id rimg_ex 28 = 0x12348086"
    by (simp add: image_id_def rimg_ex_take rimg_ex_head_def)
  moreover have "pci_make_id (pci_id_vendor 0x12348086) 0x1235 = 0x12358086" by code_simp
  ultimately have ids: "image_ids rimg_ex 28 512 = [0x12348086, 0x12358086]"
    by (simp add: image_ids_def)
  have cls: "image_class rimg_ex 28 = 0x02000000"
    by (simp add: image_class_def rimg_ex_def rimg_ex_head_def)
  have no: "fst (AllocatePool fw_ex fw n) \<noteq> None" for fw n by (simp add: fw_ex_def)
  have none: "fv_find_rimg ht_empty i c = Inr None" for i c
    by (simp add: fv_find_rimg_eq ht_empty_wf ht_empty_lookup)
  have "ht_wf (fst (ht_empty, 0 :: nat))" "unat (512 :: u32) \<le> length rimg_ex" "28 + 22 \<le> unat (512 :: u32)"
    by (simp_all add: ht_empty_wf rimg_ex_length)
  from cached_image_found [OF this, of fw_ex] obtain ht addr fw where
    "fv_cache_rimg fw_ex (ht_empty, 0) rimg_ex 512 28 = Inr (ht, fw)"
    "\<forall>i c. fv_find_rimg ht i c = (if c = image_class rimg_ex 28 \<and> i \<in> set (image_ids rimg_ex 28 (unat (512 :: u32)))
       then Inr (Some (\<lparr> b_addr = addr, b_bytes = take (unat (512 :: u32)) rimg_ex \<rparr>, 512))
       else fv_find_rimg (fst (ht_empty, 0 :: nat)) i c)" using no by blast
  then show ?thesis by (auto simp: cls ids none)
qed

text \<open>
  C20. The walk over a section always ends and reads only inside it, and caches exactly the
  images its specification selects, in order: of the images that follow each other from the
  start of the section, grouped into option ROMs by the last-image flag, the first PC-AT image
  of revision 3 or later in each complete option ROM, or else its first PC-AT image.
\<close>

theorem section_walk_selects:
  assumes "unat sz \<le> length rom"
  shows "fv_gather_rimgs_for_one_sxn sv st rom sz = cache_images sv st (selected (rom_images rom (unat sz)))"
  using assms by (rule one_sxn_selected)

theorem section_walk_selects_witness:
  "fv_gather_rimgs_for_one_sxn fw_ex (ht_empty, 0) rimg_ex 512 =
     bindr (fv_cache_rimg fw_ex (ht_empty, 0) rimg_ex 512 28) Inr"
proof -
  have "image_len rimg_ex 28 = 512" by (simp add: image_len_def rimg_ex_fields)
  moreover have "rom_images [] 0 = []" by (subst rom_images.simps) (simp add: image_at_def)
  ultimately have "rom_images rimg_ex 512 = [(rimg_ex, 512, 28)]"
    using rimg_ex_image by (subst rom_images.simps) (simp add: rimg_ex_fields rimg_ex_length Let_def)
  moreover have "rimg_ex ! 48 = 0" "rimg_ex ! 40 = 3" "bit (rimg_ex ! 49) 7"
    by (simp_all add: rimg_ex_def rimg_ex_head_def)
  ultimately have "selected (rom_images rimg_ex 512) = [(rimg_ex, 512, 28)]"
    by (simp add: selected_def is_last_def best_def is_pcat_def is_rev3_def map_filter_simps)
  moreover have "unat (512 :: u64) \<le> length rimg_ex" by (simp add: rimg_ex_length)
  note section_walk_selects [OF this, of fw_ex "(ht_empty, 0)"]
  ultimately show ?thesis by simp
qed

text \<open>
  C31. The enumeration of files and sections ends whenever the firmware's does: if every file
  that \<^verbatim>\<open>GetNextFile\<close> gives leaves fewer to come and the other services bring none back,
  \<^verbatim>\<open>fv_init\<close> returns, whatever the files contain.
\<close>

theorem fv_init_terminates:
  assumes "files_end sv left"
  shows "\<exists>r. fv_init sv st = Some r"
  using fv_init_returns [OF assms] by simp

theorem fv_init_terminates_witness:
  "files_end fw_ex id \<and> (\<exists>r. fv_init fw_ex (ht_empty, 3) = Some r)"
  using fw_ex_ok(2) fv_init_terminates [OF fw_ex_ok(2)] by blast

text \<open>
  C17. Whatever the firmware volumes contain, \<^verbatim>\<open>fv_init\<close> makes no access out of bounds: it
  reports an error or leaves a cache from which \<^verbatim>\<open>fv_find_rimg\<close> gives only whole, well-formed
  PC-AT images with a correct checksum that name the device and class asked for.
\<close>

theorem found_images_valid:
  assumes "sections_filled sv" and "files_end sv left" and "ht_ok (fst st)"
  shows "\<exists>r. fv_init sv st = Some r \<and>
    ((\<exists>msg. r = Inl (Error msg)) \<or>
     (\<exists>ht fw. r = Inr (ht, fw) \<and>
        (\<forall>i c. \<exists>x. fv_find_rimg ht i c = Inr x \<and> (\<forall>b sz. x = Some (b, sz) \<longrightarrow> image_for (i, c) b sz))))"
proof -
  obtain r where r: "fv_init sv st = Some r" using fv_init_returns [OF assms(2)] by fastforce
  have g: "good r" using fv_init_good [OF assms(1,3) r] .
  show ?thesis
  proof (cases r)
    case (Inl e)
    then show ?thesis using r g by (simp add: good_def)
  next
    case (Inr st')
    then have ok: "ht_ok (fst st')" using g by (simp add: good_def)
    then have "fv_find_rimg (fst st') i c = Inr (ht_lookup (fst st') (i, c))" for i c
      by (simp add: ht_ok_def fv_find_rimg_eq)
    then show ?thesis using r Inr ok by (cases st') (auto simp: ht_ok_def)
  qed
qed

theorem found_images_valid_witness:
  "sections_filled fw_ex \<and> files_end fw_ex id \<and> ht_ok ht_empty \<and>
   (\<exists>r. fv_init fw_ex (ht_empty, 2) = Some r \<and> r \<noteq> Inl Out_of_bounds)"
proof -
  have "ht_ok (fst (ht_empty, 2 :: nat))" by (simp add: ht_empty_ok)
  from found_images_valid [OF fw_ex_ok this] show ?thesis
    using fw_ex_ok ht_empty_ok by fastforce
qed

end
