(* ===== verification/Pci.thy ===== *)
theory Pci
  imports Fv Bparm
begin

text \<open>
  The PCI devices of \<^verbatim>\<open>stage1/pci.c\<close>: each general device becomes a boot parameter, its option
  ROM image is looked for in three places and copied to base memory when it has to be, and the
  legacy resources of the display controller are enabled. The firmware's services are a
  parameter. This theory has the functions; \<open>Pci_Correct\<close> has the proofs.
\<close>

unbundle bit_operations_syntax

subsection \<open>The firmware\<close>

text \<open>
  Every service gives a status; what else it gives is meaningless when the status is an error.
  \<open>PciRead\<close> reads 32-bit words of the configuration space from a byte offset on.
\<close>

record ('fw, 'handle, 'io) pci_services =
  LocatePci :: "'fw \<Rightarrow> (u64 \<times> 'handle list) \<times> 'fw"
  HandlePci :: "'fw \<Rightarrow> 'handle \<Rightarrow> (u64 \<times> 'io) \<times> 'fw"
  GetLocation :: "'fw \<Rightarrow> 'io \<Rightarrow> (u64 \<times> u64 \<times> u64 \<times> u64 \<times> u64) \<times> 'fw"
  AttributesGet :: "'fw \<Rightarrow> 'io \<Rightarrow> (u64 \<times> u64) \<times> 'fw"
  AttributesSupported :: "'fw \<Rightarrow> 'io \<Rightarrow> (u64 \<times> u64) \<times> 'fw"
  AttributesEnable :: "'fw \<Rightarrow> 'io \<Rightarrow> u64 \<Rightarrow> u64 \<times> 'fw"
  PciRead :: "'fw \<Rightarrow> 'io \<Rightarrow> u32 \<Rightarrow> nat \<Rightarrow> (u64 \<times> u32 list) \<times> 'fw"
  RomImage :: "'io \<Rightarrow> u64"
  RomSize :: "'io \<Rightarrow> u64"
  FreeHandles :: "'fw \<Rightarrow> 'fw"

text \<open>Attributes of a PCI controller, with the values of the UEFI specification.\<close>

definition EFI_PCI_ATTRIBUTE_VGA_MEMORY :: u64 where "EFI_PCI_ATTRIBUTE_VGA_MEMORY = 0x8"
definition EFI_PCI_ATTRIBUTE_VGA_IO :: u64 where "EFI_PCI_ATTRIBUTE_VGA_IO = 0x10"
definition EFI_PCI_ATTRIBUTE_VGA_IO_16 :: u64 where "EFI_PCI_ATTRIBUTE_VGA_IO_16 = 0x40000"

definition PCI_VENDOR_ID_VBOX :: u16 where "PCI_VENDOR_ID_VBOX = 0x80ee"
definition PCI_DEVICE_ID_VBOX_VESA :: u16 where "PCI_DEVICE_ID_VBOX_VESA = 0xbeef"

subsection \<open>The boot parameter of a device\<close>

text \<open>Offsets in \<^verbatim>\<open>bdat_pci_dev_t\<close>, which is packed.\<close>

definition bd_pci_locn :: nat where "bd_pci_locn = 0"
definition bd_pci_id :: nat where "bd_pci_id = 4"
definition bd_class_if :: nat where "bd_class_if = 8"
definition bd_rimg_seg :: nat where "bd_rimg_seg = 12"
definition bd_rimg_rt_seg :: nat where "bd_rimg_rt_seg = 14"
definition bd_rimg_sz :: nat where "bd_rimg_sz = 16"
definition sizeof_pci_dev :: u32 where "sizeof_pci_dev = 20"

lemmas bd_offsets = bd_pci_locn_def bd_pci_id_def bd_class_if_def bd_rimg_seg_def bd_rimg_rt_seg_def bd_rimg_sz_def

definition poke16 :: "bparm_state \<Rightarrow> nat \<Rightarrow> u16 \<Rightarrow> bparm_state" where
  "poke16 st a v = st\<lparr> memory := wr16 (memory st) a v \<rparr>"

definition poke32 :: "bparm_state \<Rightarrow> nat \<Rightarrow> u32 \<Rightarrow> bparm_state" where
  "poke32 st a v = st\<lparr> memory := wr32 (memory st) a v \<rparr>"

definition no_rimg :: "bparm_state \<Rightarrow> nat \<Rightarrow> bparm_state" where
  "no_rimg st bd = poke16 (poke16 (poke32 st (bd + bd_rimg_sz) 0) (bd + bd_rimg_rt_seg) 0) (bd + bd_rimg_seg) 0"

subsection \<open>Getting an image\<close>

text \<open>
  An image is its address and a function that gives its bytes, up to the end of the object it
  lies in, in the memory of the moment.
\<close>

definition memcpy_rimg :: "bparm_state \<Rightarrow> u32 \<Rightarrow> (mem \<Rightarrow> u8 list) \<Rightarrow> u32 \<Rightarrow> bparm_state res" where
  "memcpy_rimg st copy src sz =
     (let bs = src (memory st) in
      if length bs < unat sz then Inl Out_of_bounds
      else Inr (st\<lparr> memory := put_bytes (memory st) (unat copy) (take (unat sz) bs) \<rparr>))"

text \<open>An image that may shrink after its initialisation.\<close>

definition get_rimg_rt :: "bparm_state \<Rightarrow> nat \<Rightarrow> u64 \<Rightarrow> (mem \<Rightarrow> u8 list) \<Rightarrow> u32 \<Rightarrow> u32 \<Rightarrow> bparm_state res" where
  "get_rimg_rt st bd rimg src sz rt_sz =
     bindr (if rimg \<le> BMEM_MAX_ADDR - ucast sz \<and> rimg mod ucast HKIBYTE = 0
            then Inr (poke32 (poke16 st (bd + bd_rimg_seg) (addr_to_rm_seg rimg)) (bd + bd_rimg_sz) sz)
            else
              bindr (bmem_alloc_boottime (bmem st) (ucast sz) (ucast HKIBYTE)) (\<lambda>(rimg_copy, bm).
              bindr (memcpy_rimg (st\<lparr> bmem := bm \<rparr>) rimg_copy src sz) (\<lambda>st'.
              Inr (poke16 st' (bd + bd_rimg_seg) (addr_to_rm_seg (ucast rimg_copy)))))) (\<lambda>st1.
     bindr (bmem_alloc (bmem st1) (ucast rt_sz) (ucast HKIBYTE)) (\<lambda>(rimg_rt, bm).
     Inr (poke16 (st1\<lparr> bmem := bm \<rparr>) (bd + bd_rimg_rt_seg) (addr_to_rm_seg (ucast rimg_rt)))))"

definition get_rimg_copy :: "bparm_state \<Rightarrow> nat \<Rightarrow> (mem \<Rightarrow> u8 list) \<Rightarrow> u32 \<Rightarrow> bparm_state res" where
  "get_rimg_copy st bd src sz =
     bindr (bmem_alloc (bmem st) (ucast sz) (2 * ucast KIBYTE)) (\<lambda>(rimg_copy, bm).
     bindr (memcpy_rimg (st\<lparr> bmem := bm \<rparr>) rimg_copy src sz) (\<lambda>st'.
     let seg = addr_to_rm_seg (ucast rimg_copy) in
     Inr (poke16 (poke16 st' (bd + bd_rimg_rt_seg) seg) (bd + bd_rimg_seg) seg)))"

definition get_rimg :: "bparm_state \<Rightarrow> nat \<Rightarrow> u64 \<Rightarrow> (mem \<Rightarrow> u8 list) \<Rightarrow> u32 \<Rightarrow> nat option \<Rightarrow> bparm_state res" where
  "get_rimg st bd rimg src sz pcir =
     (let st = poke32 st (bd + bd_rimg_sz) sz in
      case pcir of
        None \<Rightarrow>
          let seg = addr_to_rm_seg rimg in
          Inr (poke16 (poke16 st (bd + bd_rimg_rt_seg) seg) (bd + bd_rimg_seg) seg)
      | Some p \<Rightarrow>
          bindr (arr_get (src (memory st)) (p + pcir_rev)) (\<lambda>rev.
          if rev \<ge> 3 then
            bindr (buf16 (src (memory st)) (p + pcir_max_rt_sz_hkib)) (\<lambda>hk.
              let rt_sz = ucast hk * HKIBYTE in
              if rt_sz \<noteq> sz then get_rimg_rt st bd rimg src sz rt_sz
              else get_rimg_copy st bd src sz)
          else get_rimg_copy st bd src sz))"

definition get_rimg_from_pci_io ::
  "('fw, 'handle, 'io) pci_services \<Rightarrow> bparm_state \<Rightarrow> nat \<Rightarrow> 'io \<Rightarrow> bparm_state res" where
  "get_rimg_from_pci_io sv st bd io =
     (let rimg = RomImage sv io; rsz = RomSize sv io;
          src = (\<lambda>m. get_bytes m (unat rimg) (unat rsz));
          st = no_rimg st bd in
      if rsz = 0 \<or> rimg = 0 then Inr st
      else
        bindr (rimg_find_pcir (src (memory st)) rsz) (\<lambda>r.
        case r of
          None \<Rightarrow> Inr st
        | Some p \<Rightarrow>
            bindr (arr_get (src (memory st)) (p + pcir_type)) (\<lambda>type.
            if type \<noteq> PCIR_TYP_PCAT then Inr st
            else bindr (buf16 (src (memory st)) (p + pcir_rimg_sz_hkib)) (\<lambda>hk.
              get_rimg st bd rimg src (ucast (ucast hk * ucast HKIBYTE :: u64)) (Some p)))))"

definition get_rimg_from_fvs :: "ht \<Rightarrow> bparm_state \<Rightarrow> nat \<Rightarrow> bparm_state res" where
  "get_rimg_from_fvs ht st bd =
     (let st = no_rimg st bd in
      bindr (fv_find_rimg ht (rd32 (memory st) (bd + bd_pci_id)) (rd32 (memory st) (bd + bd_class_if))) (\<lambda>f.
      case f of
        None \<Rightarrow> Inr st
      | Some (rimg, sz) \<Rightarrow>
          bindr (rimg_find_pcir (b_bytes rimg) (ucast sz)) (\<lambda>r.
          case r of
            None \<Rightarrow> Inr st
          | Some p \<Rightarrow> get_rimg st bd (b_addr rimg) (\<lambda>_. b_bytes rimg) sz (Some p))))"

text \<open>The BIOS image of a VirtualBox display adapter, in the last 256 KiB of base memory.\<close>

definition get_rimg_special_case :: "bparm_state \<Rightarrow> nat \<Rightarrow> bparm_state res" where
  "get_rimg_special_case st bd =
     (if rd32 (memory st) (bd + bd_pci_id) = pci_make_id PCI_VENDOR_ID_VBOX PCI_DEVICE_ID_VBOX_VESA then
        let src = (\<lambda>m. get_bytes m 0xc0000 0x40000) in
        bindr (rimg_find (src (memory st))) (\<lambda>rimg_sz.
        if rimg_sz = 0 then Inr st
        else bindr (rimg_find_pcir (src (memory st)) rimg_sz) (\<lambda>pcir.
          get_rimg st bd 0xc0000 src (ucast rimg_sz) pcir))
      else Inr st)"

subsection \<open>One device\<close>

text \<open>The attributes enabled, \<open>None\<close> for false.\<close>

definition enable_legacy_vga ::
  "('fw, 'handle, 'io) pci_services \<Rightarrow> 'fw \<Rightarrow> 'io \<Rightarrow> u32 \<Rightarrow> u64 \<Rightarrow> u64 \<Rightarrow> u64 option \<times> 'fw" where
  "enable_legacy_vga sv fw io class_if attrs supports =
     (let class = class_if AND 0xffff0000;
          mem = EFI_PCI_ATTRIBUTE_VGA_MEMORY; io8 = EFI_PCI_ATTRIBUTE_VGA_IO; io16 = EFI_PCI_ATTRIBUTE_VGA_IO_16;
          sup = supports AND (mem OR io8 OR io16) in
      if class \<noteq> 0x03000000 \<and> class \<noteq> 0x03010000 then (None, fw)
      else if sup \<noteq> mem OR io8 \<and> sup \<noteq> mem OR io16 \<and> sup \<noteq> mem OR io16 OR io8 then (None, fw)
      else
        let enables = (if sup = mem OR io8 then mem OR io8 else mem OR io16) in
        if attrs OR enables = attrs then (Some 0, fw)
        else
          let (status, fw') = AttributesEnable sv fw io enables in
          if EFI_ERROR status then (None, fw') else (Some enables, fw'))"

text \<open>The loop over the base address registers, which only prints and checks.\<close>

function scan_bars :: "u32 list \<Rightarrow> nat \<Rightarrow> unit res" where
  "scan_bars pci_conf idx =
     (if idx < 6 then
        bindr (arr_get pci_conf idx) (\<lambda>bar.
          if bar = 0 then scan_bars pci_conf (idx + 1)
          else let kind = bar AND 7 in
            if kind = 0 then scan_bars pci_conf (idx + 1)
            else if kind = 4 then
              (if idx = 9 then Inl (Error ''bogus 64-bit PCI BAR'')
               else bindr (arr_get pci_conf (idx + 1)) (\<lambda>_. scan_bars pci_conf (idx + 2)))
            else if kind = 1 \<or> kind = 3 \<or> kind = 5 \<or> kind = 7 then scan_bars pci_conf (idx + 1)
            else Inl (Error ''unhandled 16-bit PCI BAR''))
      else Inr ())"
  by pat_completeness auto
termination by (relation "measure (\<lambda>(pci_conf, idx). 6 - idx)") auto

declare scan_bars.simps [simp del]

definition pci_locn :: "u64 \<Rightarrow> u64 \<Rightarrow> u64 \<Rightarrow> u64 \<Rightarrow> u32" where
  "pci_locn seg bus dev fn = ucast (push_bit 16 seg OR push_bit 8 bus OR push_bit 3 dev OR fn)"

text \<open>The image is looked for in the device, in the cache and in the option ROM area.\<close>

definition find_dev_rimg ::
  "('fw, 'handle, 'io) pci_services \<Rightarrow> ht \<Rightarrow> bparm_state \<Rightarrow> nat \<Rightarrow> 'io \<Rightarrow> bparm_state res" where
  "find_dev_rimg sv ht st bd io =
     bindr (get_rimg_from_pci_io sv st bd io) (\<lambda>st.
     if rd16 (memory st) (bd + bd_rimg_seg) = 0 then
       bindr (get_rimg_from_fvs ht st bd) (\<lambda>st.
       if rd16 (memory st) (bd + bd_rimg_seg) = 0 then get_rimg_special_case st bd else Inr st)
     else Inr st)"

text \<open>The result is the address of the parameter if the device is the display controller, or 0.\<close>

definition process_one_pci_io ::
  "('fw, 'handle, 'io) pci_services \<Rightarrow> ht \<Rightarrow> bparm_state \<times> 'fw \<Rightarrow> 'io \<Rightarrow> bool \<Rightarrow> (nat \<times> bparm_state \<times> 'fw) res" where
  "process_one_pci_io sv ht s io try_enable_vga =
     (let (st, fw) = s; ((status, seg, bus, dev, fn), fw) = GetLocation sv fw io in
      if EFI_ERROR status then Inl (Error_with_status ''cannot get PCI ctrlr. locn.'' status) else
      let ((status, attrs), fw) = AttributesGet sv fw io in
      if EFI_ERROR status then Inl (Error_with_status ''cannot get PCI ctrlr. attrs.'' status) else
      let ((status, supports), fw) = AttributesSupported sv fw io in
      if EFI_ERROR status then Inl (Error_with_status ''cannot get PCI ctrlr. attrs.'' status) else
      let ((status, pci_conf), fw) = PciRead sv fw io 0 4 in
      if EFI_ERROR status then Inl (Error_with_status ''cannot read PCI conf. sp.'' status) else
      bindr (arr_get pci_conf 0) (\<lambda>pci_id.
      bindr (arr_get pci_conf 2) (\<lambda>conf2.
      bindr (arr_get pci_conf 3) (\<lambda>conf3.
      let class_if = conf2 AND 0xffffff00 in
      if drop_bit 8 conf3 AND 0xff \<noteq> 0 then Inr (0, st, fw) else
      bindr (bparm_add st BP_PCID sizeof_pci_dev) (\<lambda>(p, st).
      let bd = unat p;
          st = poke32 st (bd + bd_pci_locn) (pci_locn seg bus dev fn);
          st = poke32 st (bd + bd_pci_id) pci_id;
          st = poke32 st (bd + bd_class_if) class_if;
          (enables, fw) = (if try_enable_vga then enable_legacy_vga sv fw io class_if attrs supports else (None, fw));
          vga = (if enables \<noteq> None then bd else 0) in
      bindr (find_dev_rimg sv ht st bd io) (\<lambda>st.
      let ((status, pci_conf), fw) = PciRead sv fw io 16 6 in
      if EFI_ERROR status then Inl (Error_with_status ''cannot read PCI conf. sp.'' status) else
      bindr (scan_bars (take 6 pci_conf) 0) (\<lambda>_. Inr (vga, st, fw))))))))"

subsection \<open>All devices\<close>

fun process_handles ::
  "('fw, 'handle, 'io) pci_services \<Rightarrow> ht \<Rightarrow> nat \<Rightarrow> bparm_state \<times> 'fw \<Rightarrow> 'handle list \<Rightarrow> (nat \<times> bparm_state \<times> 'fw) res" where
  "process_handles sv ht vga s [] = Inr (vga, s)"
| "process_handles sv ht vga s (handle # handles) =
     (let ((status, io), fw) = HandlePci sv (snd s) handle in
      if EFI_ERROR status then Inl (Error_with_status ''cannot get EFI_PCI_IO_PROTOCOL'' status)
      else bindr (process_one_pci_io sv ht (fst s, fw) io (vga = 0)) (\<lambda>(bd, s').
        process_handles sv ht (if vga = 0 then bd else vga) s' handles))"

definition process_pci ::
  "('fw, 'handle, 'io) pci_services \<Rightarrow> ht \<Rightarrow> bparm_state \<times> 'fw \<Rightarrow> (bparm_state \<times> 'fw) res" where
  "process_pci sv ht s =
     (let ((status, handles), fw) = LocatePci sv (snd s) in
      if EFI_ERROR status \<or> handles = [] then Inl (Error_with_status ''no PCI devices found'' status)
      else bindr (process_handles sv ht 0 (fst s, fw) handles) (\<lambda>(vga, st, fw).
        let fw = FreeHandles sv fw in
        if vga = 0 then Inl (Error ''no usable VGA/XGA controller?'')
        else if rd16 (memory st) (vga + bd_rimg_seg) = 0 then Inl (Error ''VGA/XGA device lacks option ROM?'')
        else Inr (st, fw)))"

end
