(* ===== verification/Pci_Correct.thy ===== *)
theory Pci_Correct
  imports Pci
begin

text \<open>
  The proofs about \<^verbatim>\<open>stage1/pci.c\<close>: where the image of a device ends up, and that neither the
  boot parameters nor the images of other devices are touched.
\<close>

unbundle bit_operations_syntax

subsection \<open>The node being filled\<close>

definition dev_node :: "mem \<Rightarrow> nat \<Rightarrow> bnode" where
  "dev_node m a = \<lparr> bn_addr = a, bn_type = BP_PCID, bn_data = get_bytes m (a + 16) 20 \<rparr>"

definition at_dev :: "bparm_state \<Rightarrow> bnode list \<Rightarrow> nat \<Rightarrow> bool" where
  "at_dev st ns a \<longleftrightarrow> bparm_rep st (ns @ [dev_node (memory st) a])"

lemma dev_node_bytes [simp]: "bn_bytes (dev_node m a) = {a..<a + 36}" "bn_addr (dev_node m a) = a"
  by (auto simp: bn_bytes_def dev_node_def sizeof_bparm_def)

lemma dev_node_data: "bn_data_bytes (dev_node m a) = {a + 16..<a + 36}"
  by (auto simp: bn_data_bytes_def dev_node_def sizeof_bparm_def)

lemma at_dev_apart:
  assumes "at_dev st ns a"
  shows "bmem_wf (bmem st)" and "{a..<a + 36} \<inter> bmem_free (bmem st) = {}"
    and "n \<in> set ns \<Longrightarrow> bn_bytes n \<inter> bmem_free (bmem st) = {}" and "n \<in> set ns \<Longrightarrow> bn_bytes n \<inter> {a..<a + 36} = {}"
    and "0 < a" and "a + 36 \<le> 0x100000"
proof -
  let ?n = "dev_node (memory st) a"
  note rep = assms [unfolded at_dev_def bparm_rep_def]
  show "bmem_wf (bmem st)" using rep by blast
  show "{a..<a + 36} \<inter> bmem_free (bmem st) = {}" using rep dev_node_bytes(1) by (metis in_set_conv_decomp)
  show "n \<in> set ns \<Longrightarrow> bn_bytes n \<inter> bmem_free (bmem st) = {}" using rep by auto
  have "nodes_ok m (xs @ [k]) \<Longrightarrow> n \<in> set xs \<Longrightarrow> bn_bytes n \<inter> bn_bytes k = {}" for m xs k
    by (induction xs) auto
  then show "n \<in> set ns \<Longrightarrow> bn_bytes n \<inter> {a..<a + 36} = {}" using rep dev_node_bytes(1) by metis
  obtain x where "node_ok (memory st) ?n x" using nodes_ok_nth [of "memory st" "ns @ [?n]" ?n] rep by auto
  then show "0 < a" "a + 36 \<le> 0x100000" by (simp_all add: node_ok_def dev_node_def sizeof_bparm_def)
qed

text \<open>Writing the data of the node, and writing elsewhere.\<close>

lemma at_dev_data:
  assumes "at_dev st ns a" and "\<And>i. i \<notin> {a + 16..<a + 36} \<Longrightarrow> m' i = memory st i"
  shows "at_dev (st\<lparr> memory := m' \<rparr>) ns a"
proof -
  have "filled m' (dev_node (memory st) a) = dev_node m' a" by (simp add: filled_def dev_node_def sizeof_bparm_def)
  moreover have "bparm_rep (st\<lparr> memory := m' \<rparr>) (ns @ filled m' (dev_node (memory st) a) # [])"
    by (rule bparm_rep_fill) (use assms in \<open>simp_all only: at_dev_def dev_node_data\<close>)
  ultimately show ?thesis by (simp add: at_dev_def)
qed

lemma at_dev_other:
  assumes rep: "at_dev st ns a" and same: "\<And>i n. n \<in> set ns \<Longrightarrow> i \<in> bn_bytes n \<Longrightarrow> m' i = memory st i"
    "\<And>i. i \<in> {a..<a + 36} \<Longrightarrow> m' i = memory st i"
  shows "at_dev (st\<lparr> memory := m' \<rparr>) ns a"
proof -
  have "get_bytes m' (a + 16) 20 = get_bytes (memory st) (a + 16) 20"
    by (rule get_bytes_cong) (rule same(2), simp)
  then have n: "dev_node m' a = dev_node (memory st) a" by (simp add: dev_node_def)
  have ok: "nodes_ok (memory st) (ns @ [dev_node (memory st) a])" using rep by (simp add: at_dev_def bparm_rep_def)
  have "m' i = memory st i" if "k \<in> set (ns @ [dev_node (memory st) a])" "i \<in> bn_bytes k" for i k
  proof (cases "k \<in> set ns")
    case True
    then show ?thesis using same(1) that(2) by blast
  next
    case False
    then have "i \<in> {a..<a + 36}" using that by (auto simp del: atLeastLessThan_iff)
    then show ?thesis by (rule same(2))
  qed
  then have "nodes_ok m' (ns @ [dev_node (memory st) a])" by (intro nodes_ok_frame [OF ok]) blast
  then show ?thesis using rep by (simp add: at_dev_def bparm_rep_def n)
qed

lemma at_dev_bmem:
  assumes rep: "at_dev st ns a" and bm: "bmem_wf bm" "bmem_free bm \<subseteq> bmem_free (bmem st)"
    "boottime_bmem_bot (bmem st) \<le> boottime_bmem_bot bm"
  shows "at_dev (st\<lparr> bmem := bm \<rparr>) ns a"
proof -
  have "unat (boottime_bmem_bot (bmem st)) \<le> unat (boottime_bmem_bot bm)" using bm(3) by (simp add: word_le_nat_alt)
  then show ?thesis using rep bm(1,2) by (fastforce simp: at_dev_def bparm_rep_def)
qed

subsection \<open>Steps that find an image\<close>

text \<open>Only the last 8 bytes of the node and free memory may change.\<close>

definition dev_step :: "bparm_state \<Rightarrow> bnode list \<Rightarrow> nat \<Rightarrow> bparm_state \<Rightarrow> bool" where
  "dev_step st ns a st' \<longleftrightarrow> at_dev st' ns a \<and> bmem_free (bmem st') \<subseteq> bmem_free (bmem st) \<and>
     (\<forall>i. i \<notin> bmem_free (bmem st) \<union> {a + 28..<a + 36} \<longrightarrow> memory st' i = memory st i)"

lemma dev_step_refl: "at_dev st ns a \<Longrightarrow> dev_step st ns a st"
  by (simp add: dev_step_def)

lemma dev_step_trans: "dev_step st ns a st1 \<Longrightarrow> dev_step st1 ns a st2 \<Longrightarrow> dev_step st ns a st2"
proof -
  assume a: "dev_step st ns a st1" "dev_step st1 ns a st2"
  then have one: "memory st1 i = memory st i" if "i \<notin> bmem_free (bmem st) \<union> {a + 28..<a + 36}" for i
    using that unfolding dev_step_def by blast
  have two: "memory st2 i = memory st1 i" if "i \<notin> bmem_free (bmem st1) \<union> {a + 28..<a + 36}" for i
    using a(2) that unfolding dev_step_def by blast
  have sub: "bmem_free (bmem st1) \<subseteq> bmem_free (bmem st)" using a(1) by (simp add: dev_step_def)
  have "memory st2 i = memory st i" if i: "i \<notin> bmem_free (bmem st) \<union> {a + 28..<a + 36}" for i
    using two [of i] one [OF i] i sub by auto
  then show ?thesis using a sub unfolding dev_step_def by blast
qed

lemma dev_step_at: "dev_step st ns a st' \<Longrightarrow> at_dev st' ns a"
  by (simp add: dev_step_def)

text \<open>A region that belongs to somebody else.\<close>

definition apart :: "bparm_state \<Rightarrow> bnode list \<Rightarrow> nat \<Rightarrow> nat set \<Rightarrow> bool" where
  "apart st ns a R \<longleftrightarrow> R \<inter> bmem_free (bmem st) = {} \<and> (\<forall>n\<in>set ns. R \<inter> bn_bytes n = {}) \<and> R \<inter> {a..<a + 36} = {}"

lemma apart_step:
  assumes "dev_step st ns a st'" and "apart st ns a R"
  shows "apart st' ns a R" and "i \<in> R \<Longrightarrow> memory st' i = memory st i"
proof -
  show "apart st' ns a R" using assms by (auto simp: dev_step_def apart_def)
  assume "i \<in> R"
  then have "i \<notin> bmem_free (bmem st)" "i \<notin> {a..<a + 36}" using assms(2) by (auto simp: apart_def)
  then show "memory st' i = memory st i" using assms(1) by (simp add: dev_step_def)
qed

lemma poke_step:
  assumes "at_dev st ns a"
  shows "dev_step st ns a (poke16 st (a + 28) v)" and "dev_step st ns a (poke16 st (a + 30) v)"
    and "dev_step st ns a (poke32 st (a + 32) w)"
proof -
  have step: "dev_step st ns a (st\<lparr> memory := m' \<rparr>)" if "\<And>i. i \<notin> {a + 28..<a + 36} \<Longrightarrow> m' i = memory st i" for m'
  proof -
    have "at_dev (st\<lparr> memory := m' \<rparr>) ns a" by (rule at_dev_data [OF assms]) (use that in auto)
    then show ?thesis using that by (simp add: dev_step_def)
  qed
  show "dev_step st ns a (poke16 st (a + 28) v)" "dev_step st ns a (poke16 st (a + 30) v)"
    "dev_step st ns a (poke32 st (a + 32) w)"
    unfolding poke16_def poke32_def by (rule step; auto simp: wr16_def wr32_def put_bytes_def)+
qed

lemma poke_memory:
  "memory (poke16 st x v) = wr16 (memory st) x v" "memory (poke32 st x w) = wr32 (memory st) x w"
  "bmem (poke16 st x v) = bmem st" "bmem (poke32 st x w) = bmem st"
  by (simp_all add: poke16_def poke32_def)

lemma rd_wr_apart:
  "x + 2 \<le> y \<or> y + 2 \<le> x \<Longrightarrow> rd16 (wr16 m y v) x = rd16 m x"
  "x + 2 \<le> y \<or> y + 4 \<le> x \<Longrightarrow> rd16 (wr32 m y w) x = rd16 m x"
  "x + 4 \<le> y \<or> y + 2 \<le> x \<Longrightarrow> rd32 (wr16 m y v) x = rd32 m x"
  "x + 4 \<le> y \<or> y + 4 \<le> x \<Longrightarrow> rd32 (wr32 m y w) x = rd32 m x"
  unfolding rd16_def rd32_def by (subst get_bytes_wr; auto)+


subsection \<open>An image in its place\<close>

text \<open>
  The node at \<open>a\<close> names a copy of \<open>bs\<close> in memory that is nobody else's. A segment only reaches
  below 1 MiB, so nothing is said of an image that does not fit there.
\<close>

definition rom_named :: "bparm_state \<Rightarrow> bnode list \<Rightarrow> nat \<Rightarrow> u8 list \<Rightarrow> bool" where
  "rom_named st ns a bs \<longleftrightarrow>
     (let seg = unat (rd16 (memory st) (a + 28)) in
      0 < seg \<and> unat (rd32 (memory st) (a + 32)) = length bs \<and>
      get_bytes (memory st) (16 * seg) (length bs) = bs \<and> apart st ns a {16 * seg..<16 * seg + length bs})"

text \<open>A place the bytes of an image are at, to be kept until the node names it.\<close>

definition image_at_addr :: "bparm_state \<Rightarrow> bnode list \<Rightarrow> nat \<Rightarrow> u8 list \<Rightarrow> nat \<Rightarrow> bool" where
  "image_at_addr st ns a bs x \<longleftrightarrow>
     16 \<le> x \<and> 16 dvd x \<and> x < 0x100000 \<and> get_bytes (memory st) x (length bs) = bs \<and>
     apart st ns a {x..<x + length bs}"

lemma image_at_addr_step:
  assumes "dev_step st ns a st'" and "image_at_addr st ns a bs x"
  shows "image_at_addr st' ns a bs x"
proof -
  have ap: "apart st ns a {x..<x + length bs}" and b: "get_bytes (memory st) x (length bs) = bs"
    using assms(2) by (simp_all add: image_at_addr_def)
  have "get_bytes (memory st') x (length bs) = get_bytes (memory st) x (length bs)"
    by (rule get_bytes_cong) (rule apart_step(2) [OF assms(1) ap], simp)
  then show ?thesis using assms(2) b apart_step(1) [OF assms(1) ap] by (simp add: image_at_addr_def)
qed

lemma rom_named_intro:
  assumes "image_at_addr st ns a bs (unat p)" and "rd16 (memory st) (a + 28) = addr_to_rm_seg p"
    and "unat (rd32 (memory st) (a + 32)) = length bs"
  shows "rom_named st ns a bs"
proof -
  have "unat (addr_to_rm_seg p) = unat p div 16" "16 \<le> unat p" "16 dvd unat p"
    using assms(1) unat_addr_to_rm_seg by (simp_all add: image_at_addr_def)
  then have "16 * unat (addr_to_rm_seg p) = unat p" "0 < unat (addr_to_rm_seg p)" by auto
  then show ?thesis using assms by (simp add: rom_named_def image_at_addr_def)
qed

subsection \<open>Taking memory and copying into it\<close>

lemma memcpy_rimg_eq:
  "memcpy_rimg st c src sz = Inr st' \<longleftrightarrow> unat sz \<le> length (src (memory st)) \<and>
     st' = st\<lparr> memory := put_bytes (memory st) (unat c) (take (unat sz) (src (memory st))) \<rparr>"
  by (auto simp: memcpy_rimg_def Let_def)

lemma taken_step:
  assumes rep: "at_dev st ns a" and wf: "bmem_wf bm" and free: "{c..<c + n} \<subseteq> bmem_free (bmem st)"
    and left: "bmem_free bm \<subseteq> bmem_free (bmem st) - {c..<c + n}"
    and bot: "boottime_bmem_bot (bmem st) \<le> boottime_bmem_bot bm"
  shows "dev_step st ns a (st\<lparr> bmem := bm \<rparr>)" and "apart (st\<lparr> bmem := bm \<rparr>) ns a {c..<c + n}"
proof -
  have "at_dev (st\<lparr> bmem := bm \<rparr>) ns a" by (rule at_dev_bmem [OF rep wf _ bot]) (use left in blast)
  then show "dev_step st ns a (st\<lparr> bmem := bm \<rparr>)" using left by (auto simp: dev_step_def)
  have "{c..<c + n} \<inter> bn_bytes k = {}" if "k \<in> set ns" for k using at_dev_apart(3) [OF rep that] free by blast
  moreover have "{c..<c + n} \<inter> {a..<a + 36} = {}" using at_dev_apart(2) [OF rep] free by blast
  moreover have "{c..<c + n} \<inter> bmem_free bm = {}" using left by blast
  ultimately show "apart (st\<lparr> bmem := bm \<rparr>) ns a {c..<c + n}" by (simp add: apart_def)
qed

lemma copied_step:
  assumes rep: "at_dev st ns a" and wf: "bmem_wf bm" and free: "{unat c..<unat c + unat sz} \<subseteq> bmem_free (bmem st)"
    and left: "bmem_free bm \<subseteq> bmem_free (bmem st) - {unat c..<unat c + unat sz}"
    and bot: "boottime_bmem_bot (bmem st) \<le> boottime_bmem_bot bm"
    and cp: "memcpy_rimg (st\<lparr> bmem := bm \<rparr>) c src sz = Inr st'" and sz: "0 < unat sz" and al: "16 dvd unat c"
  shows "dev_step st ns a st'" and "image_at_addr st' ns a (take (unat sz) (src (memory st))) (unat c)"
    and "rd32 (memory st') (a + 32) = rd32 (memory st) (a + 32)"
proof -
  let ?bs = "take (unat sz) (src (memory st))" and ?st = "st\<lparr> bmem := bm \<rparr>"
  let ?m = "put_bytes (memory st) (unat c) ?bs" and ?R = "{unat c..<unat c + unat sz}"
  have len: "length ?bs = unat sz" and st': "st' = ?st\<lparr> memory := ?m \<rparr>"
    using cp by (simp_all add: memcpy_rimg_eq)
  note one = taken_step [OF rep wf free left bot]
  have out: "?m i = memory st i" if "i \<notin> ?R" for i using that len by (auto simp: put_bytes_def)
  have at: "at_dev (?st\<lparr> memory := ?m \<rparr>) ns a"
  proof (rule at_dev_other [OF dev_step_at [OF one(1)]])
    have ap: "?R \<inter> bn_bytes n = {}" if "n \<in> set ns" for n using one(2) that by (simp add: apart_def)
    show "?m i = memory ?st i" if "n \<in> set ns" "i \<in> bn_bytes n" for i n
    proof -
      have "i \<notin> ?R" using ap [OF that(1)] that(2) by blast
      then show ?thesis using out by simp
    qed
    have "?R \<inter> {a..<a + 36} = {}" using one(2) by (simp add: apart_def)
    then show "?m i = memory ?st i" if "i \<in> {a..<a + 36}" for i
    proof -
      have "i \<notin> ?R" using \<open>?R \<inter> {a..<a + 36} = {}\<close> that by blast
      then show ?thesis using out by simp
    qed
  qed
  have "?m i = memory st i" if "i \<notin> bmem_free (bmem st)" for i using out [of i] free that by blast
  then show step: "dev_step st ns a st'" using at left by (auto simp: st' dev_step_def)
  have "?R \<inter> {a..<a + 36} = {}" using one(2) by (simp add: apart_def)
  then have "i \<notin> ?R" if "a \<le> i" "i < a + 36" for i using that by (metis IntI atLeastLessThan_iff empty_iff)
  then show "rd32 (memory st') (a + 32) = rd32 (memory st) (a + 32)"
    unfolding rd32_def st' by (intro arg_cong [where f = le_word] get_bytes_cong) (simp add: out)
  have "unat c \<in> bmem_free (bmem st)" using free sz by (simp add: subset_iff)
  then have "4096 \<le> unat c" "unat c < 0x100000"
    using bmem_free_bounds at_dev_apart(1) [OF rep] by blast+
  then show "image_at_addr st' ns a ?bs (unat c)"
    using one(2) len al by (simp add: image_at_addr_def apart_def st')
qed


subsection \<open>Where an image comes from\<close>

text \<open>
  The bytes of the image depend only on memory that nobody writes, and if the image fits below
  1 MiB where it is, then they are its bytes there.
\<close>

definition image_source :: "bparm_state \<Rightarrow> bnode list \<Rightarrow> nat \<Rightarrow> u64 \<Rightarrow> (mem \<Rightarrow> u8 list) \<Rightarrow> nat \<Rightarrow> bool" where
  "image_source st ns a rimg src n \<longleftrightarrow> (\<exists>R. apart st ns a R \<and>
     (\<forall>m. (\<forall>i\<in>R. m i = memory st i) \<longrightarrow> src m = src (memory st)) \<and>
     (unat rimg + n \<le> 0x100000 \<longrightarrow> {unat rimg..<unat rimg + n} \<subseteq> R \<and>
        get_bytes (memory st) (unat rimg) n = take n (src (memory st))))"

lemma image_source_step:
  assumes step: "dev_step st ns a st'" and src: "image_source st ns a rimg src n"
  shows "image_source st' ns a rimg src n" and "src (memory st') = src (memory st)"
proof -
  obtain R where R: "apart st ns a R" "\<And>m. (\<And>i. i \<in> R \<Longrightarrow> m i = memory st i) \<Longrightarrow> src m = src (memory st)"
    and here: "unat rimg + n \<le> 0x100000 \<Longrightarrow> {unat rimg..<unat rimg + n} \<subseteq> R \<and>
        get_bytes (memory st) (unat rimg) n = take n (src (memory st))"
    using src unfolding image_source_def by metis
  have same: "memory st' i = memory st i" if "i \<in> R" for i by (rule apart_step(2) [OF step R(1) that])
  then show eq: "src (memory st') = src (memory st)" by (rule R(2))
  have "src m = src (memory st')" if "\<And>i. i \<in> R \<Longrightarrow> m i = memory st' i" for m
    using R(2) [of m] that same eq by simp
  moreover have "{unat rimg..<unat rimg + n} \<subseteq> R \<and> get_bytes (memory st') (unat rimg) n = take n (src (memory st'))"
    if "unat rimg + n \<le> 0x100000"
  proof -
    have sub: "{unat rimg..<unat rimg + n} \<subseteq> R" using here [OF that] ..
    have "get_bytes (memory st') (unat rimg) n = get_bytes (memory st) (unat rimg) n"
      by (rule get_bytes_cong) (rule same, use sub in auto)
    then show ?thesis using here [OF that] eq by simp
  qed
  ultimately show "image_source st' ns a rimg src n"
    unfolding image_source_def using apart_step(1) [OF step R(1)] by blast
qed

lemma image_source_here:
  assumes "image_source st ns a rimg src n" and "unat rimg + n \<le> 0x100000" and "0 < n"
    and "16 dvd unat rimg" and "rimg \<noteq> 0"
  shows "image_at_addr st ns a (take n (src (memory st))) (unat rimg)"
proof -
  obtain R where R: "apart st ns a R" "{unat rimg..<unat rimg + n} \<subseteq> R"
    and b: "get_bytes (memory st) (unat rimg) n = take n (src (memory st))"
    using assms(1,2) unfolding image_source_def by blast
  have len: "length (take n (src (memory st))) = n" using arg_cong [OF b, of length] by simp
  have "0 < unat rimg" using assms(5) by (simp add: unat_gt_0)
  then have "16 \<le> unat rimg" using assms(4) by (auto elim!: dvdE)
  moreover have "apart st ns a {unat rimg..<unat rimg + n}" using R unfolding apart_def by blast
  ultimately show ?thesis using assms(2-4) b len by (simp add: image_at_addr_def)
qed

text \<open>The test for an image in place is meant for sizes up to 1 MiB.\<close>

lemma in_place_test:
  assumes "rimg \<le> BMEM_MAX_ADDR - ucast (sz :: u32)" and "rimg mod ucast HKIBYTE = 0" and "unat sz \<le> 0x100000"
  shows "unat rimg + unat sz \<le> 0x100000" and "16 dvd unat rimg"
proof -
  have "unat (BMEM_MAX_ADDR - ucast sz) = 0x100000 - unat sz"
    using assms(3) by (subst unat_sub_noborrow) (simp_all add: BMEM_MAX_ADDR_def word_le_nat_alt)
  then show "unat rimg + unat sz \<le> 0x100000" using assms(1,3) by (simp add: word_le_nat_alt)
  have "unat (rimg mod ucast HKIBYTE) = 0" using assms(2) by simp
  then have "unat rimg mod 512 = 0" by (simp add: unat_mod_distrib HKIBYTE_def)
  then show "16 dvd unat rimg" by presburger
qed


subsection \<open>Getting an image\<close>

lemma alloc_aligns: "2 * ucast KIBYTE = (0x800 :: u64)" "ucast HKIBYTE = (0x200 :: u64)"
  by (simp_all add: KIBYTE_def HKIBYTE_def)

lemma dev_offsets:
  "a + 16 + bd_rimg_seg = a + 28" "a + 16 + bd_rimg_rt_seg = a + 30" "a + 16 + bd_rimg_sz = a + 32"
  by (simp_all add: bd_offsets)

lemma get_rimg_copy_step:
  assumes rep: "at_dev st ns a" and get: "get_rimg_copy st (a + 16) src sz = Inr st'"
    and sz: "rd32 (memory st) (a + 32) = sz" "0 < unat sz"
  shows "dev_step st ns a st' \<and> rd32 (memory st') (a + 32) = sz \<and>
    rom_named st' ns a (take (unat sz) (src (memory st)))"
proof -
  let ?bs = "take (unat sz) (src (memory st))"
  obtain c bm st1 where al: "bmem_alloc (bmem st) (ucast sz) 0x800 = Inr (c, bm)"
    and cp: "memcpy_rimg (st\<lparr> bmem := bm \<rparr>) c src sz = Inr st1"
    and st': "st' = poke16 (poke16 st1 (a + 30) (addr_to_rm_seg (ucast c))) (a + 28) (addr_to_rm_seg (ucast c))"
    using get by (auto simp: get_rimg_copy_def alloc_aligns res_simps Let_def dev_offsets)
  note sp = bmem_alloc_spec [OF at_dev_apart(1) [OF rep] pow2_align_ex(4) al, unfolded unat_ucast32]
  have "16 dvd unat c" using sp(4) by (rule dvd_trans [rotated]) simp
  note one = copied_step [OF rep sp(1-3) _ cp sz(2) this, unfolded sp(6), OF order_refl]
  have len: "length ?bs = unat sz" using cp by (simp add: memcpy_rimg_eq)
  have two: "dev_step st1 ns a st'"
    unfolding st' by (rule dev_step_trans [OF poke_step(2) poke_step(1)])
      (rule dev_step_at [OF one(1)], rule dev_step_at, rule poke_step(2), rule dev_step_at [OF one(1)])
  have "rom_named st' ns a ?bs"
    using image_at_addr_step [OF two one(2)] len one(3) sz(1)
    by (intro rom_named_intro [where p = "ucast c"]) (simp_all add: st' poke_memory rd_wr_apart)
  moreover have "rd32 (memory st') (a + 32) = sz" using one(3) sz(1) by (simp add: st' poke_memory rd_wr_apart)
  ultimately show ?thesis using dev_step_trans [OF one(1) two] by blast
qed

lemma get_rimg_rt_step:
  assumes rep: "at_dev st ns a" and get: "get_rimg_rt st (a + 16) rimg src sz rt_sz = Inr st'"
    and source: "image_source st ns a rimg src (unat sz)" and rimg: "rimg \<noteq> 0"
    and sz: "rd32 (memory st) (a + 32) = sz" "0 < unat sz"
  shows "dev_step st ns a st' \<and> rd32 (memory st') (a + 32) = sz \<and>
    (unat sz \<le> 0x100000 \<longrightarrow> rom_named st' ns a (take (unat sz) (src (memory st))))"
proof -
  let ?bs = "take (unat sz) (src (memory st))"
  let ?here = "rimg \<le> BMEM_MAX_ADDR - ucast sz \<and> rimg mod ucast HKIBYTE = 0"
  obtain st1 rt bm where st1: "(if ?here then Inr (poke32 (poke16 st (a + 28) (addr_to_rm_seg rimg)) (a + 32) sz)
        else bindr (bmem_alloc_boottime (bmem st) (ucast sz) 0x200) (\<lambda>(c, bm).
          bindr (memcpy_rimg (st\<lparr> bmem := bm \<rparr>) c src sz) (\<lambda>st'.
          Inr (poke16 st' (a + 28) (addr_to_rm_seg (ucast c)))))) = Inr st1"
    and al: "bmem_alloc (bmem st1) (ucast rt_sz) 0x200 = Inr (rt, bm)"
    and st': "st' = poke16 (st1\<lparr> bmem := bm \<rparr>) (a + 30) (addr_to_rm_seg (ucast rt))"
    using get unfolding get_rimg_rt_def alloc_aligns dev_offsets bindr_eq_Inr by auto
  have one: "dev_step st ns a st1 \<and> rd32 (memory st1) (a + 32) = sz \<and> (unat sz \<le> 0x100000 \<longrightarrow>
      (\<exists>p. image_at_addr st1 ns a ?bs (unat p) \<and> length ?bs = unat sz \<and> rd16 (memory st1) (a + 28) = addr_to_rm_seg p))"
  proof (cases ?here)
    case True
    then have eq: "st1 = poke32 (poke16 st (a + 28) (addr_to_rm_seg rimg)) (a + 32) sz" using st1 by simp
    have step: "dev_step st ns a st1"
      unfolding eq by (rule dev_step_trans [OF poke_step(1) poke_step(3)])
        (rule rep, rule dev_step_at, rule poke_step(1), rule rep)
    have "image_at_addr st1 ns a ?bs (unat rimg) \<and> length ?bs = unat sz" if "unat sz \<le> 0x100000"
    proof -
      note pl = in_place_test [OF True [THEN conjunct1] True [THEN conjunct2] that]
      have h: "image_at_addr st ns a ?bs (unat rimg)"
        by (rule image_source_here [OF source pl(1) sz(2) pl(2) rimg])
      have "get_bytes (memory st) (unat rimg) (unat sz) = ?bs"
        using source pl(1) unfolding image_source_def by blast
      then have "length ?bs = unat sz" by (metis length_get_bytes)
      then show ?thesis using image_at_addr_step [OF step h] by simp
    qed
    then show ?thesis using step by (auto simp: eq poke_memory rd_wr_apart)
  next
    case False
    obtain c bm st2 where al: "bmem_alloc_boottime (bmem st) (ucast sz) 0x200 = Inr (c, bm)"
      and cp: "memcpy_rimg (st\<lparr> bmem := bm \<rparr>) c src sz = Inr st2"
      and eq: "st1 = poke16 st2 (a + 28) (addr_to_rm_seg (ucast c))"
      using st1 unfolding if_not_P [OF False] by (auto simp: res_simps)
    note sp = bmem_alloc_boottime_spec [OF at_dev_apart(1) [OF rep] pow2_align_ex(3) al, unfolded unat_ucast32]
    have al: "16 dvd unat c" using sp(4) by (rule dvd_trans [rotated]) simp
    note cs = copied_step [OF rep sp(1-3) sp(6) cp sz(2) al]
    have step: "dev_step st2 ns a st1" unfolding eq by (rule poke_step(1) [OF dev_step_at [OF cs(1)]])
    have len: "length ?bs = unat sz" using cp by (simp add: memcpy_rimg_eq)
    have "image_at_addr st1 ns a ?bs (unat (ucast c :: u64))" using image_at_addr_step [OF step cs(2)] by simp
    moreover have "rd16 (memory st1) (a + 28) = addr_to_rm_seg (ucast c)"
      "rd32 (memory st1) (a + 32) = sz" using cs(3) sz(1) by (simp_all add: eq poke_memory rd_wr_apart)
    ultimately show ?thesis using dev_step_trans [OF cs(1) step] len by blast
  qed
  then have at1: "at_dev st1 ns a" using dev_step_at by blast
  note sp = bmem_alloc_spec [OF at_dev_apart(1) [OF at1] pow2_align_ex(3) al, unfolded unat_ucast32]
  have free: "dev_step st1 ns a (st1\<lparr> bmem := bm \<rparr>)"
    by (rule taken_step(1) [OF at1 sp(1-3)]) (simp add: sp(6))
  have two: "dev_step st1 ns a st'"
    unfolding st' by (rule dev_step_trans [OF free poke_step(2) [OF dev_step_at [OF free]]])
  have "rd32 (memory st') (a + 32) = sz" using one by (simp add: st' poke_memory rd_wr_apart)
  moreover have "rom_named st' ns a ?bs" if "unat sz \<le> 0x100000"
  proof -
    obtain p where p: "image_at_addr st1 ns a ?bs (unat p)" "length ?bs = unat sz"
      "rd16 (memory st1) (a + 28) = addr_to_rm_seg p" using one \<open>unat sz \<le> 0x100000\<close> by blast
    show ?thesis
      using image_at_addr_step [OF two p(1)] p(2,3) one
      by (intro rom_named_intro [where p = p]) (simp_all add: st' poke_memory rd_wr_apart)
  qed
  ultimately show ?thesis using one dev_step_trans [OF _ two] by blast
qed

lemma get_rimg_step:
  assumes rep: "at_dev st ns a" and get: "get_rimg st (a + 16) rimg src sz pcir = Inr st'"
    and source: "image_source st ns a rimg src (unat sz)" and rimg: "rimg \<noteq> 0" and sz: "0 < unat sz"
    and pcir: "pcir = None \<Longrightarrow> unat rimg + unat sz \<le> 0x100000 \<and> 16 dvd unat rimg"
  shows "dev_step st ns a st' \<and> rd32 (memory st') (a + 32) = sz \<and>
    (unat sz \<le> 0x100000 \<longrightarrow> rom_named st' ns a (take (unat sz) (src (memory st))))"
proof -
  let ?st = "poke32 st (a + 32) sz"
  have step: "dev_step st ns a ?st" by (rule poke_step(3) [OF rep])
  note src = image_source_step [OF step source]
  have at: "at_dev ?st ns a" using step by (rule dev_step_at)
  have szd: "rd32 (memory ?st) (a + 32) = sz" by (simp add: poke_memory)
  have rest: "dev_step ?st ns a st' \<and> rd32 (memory st') (a + 32) = sz \<and>
    (unat sz \<le> 0x100000 \<longrightarrow> rom_named st' ns a (take (unat sz) (src (memory ?st))))"
  proof (cases pcir)
    case None
    let ?seg = "addr_to_rm_seg rimg"
    have st': "st' = poke16 (poke16 ?st (a + 30) ?seg) (a + 28) ?seg"
      using get None by (simp add: get_rimg_def Let_def dev_offsets)
    have two: "dev_step ?st ns a st'"
      unfolding st' by (rule dev_step_trans [OF poke_step(2) poke_step(1)])
        (rule at, rule dev_step_at, rule poke_step(2), rule at)
    have h: "image_at_addr ?st ns a (take (unat sz) (src (memory ?st))) (unat rimg)"
      using image_source_here [OF src(1) _ sz _ rimg] pcir [OF None] by blast
    have "get_bytes (memory ?st) (unat rimg) (unat sz) = take (unat sz) (src (memory ?st))"
      using src(1) pcir [OF None] unfolding image_source_def by blast
    then have "length (take (unat sz) (src (memory ?st))) = unat sz" by (metis length_get_bytes)
    then have "rom_named st' ns a (take (unat sz) (src (memory ?st)))"
      using image_at_addr_step [OF two h] szd
      by (intro rom_named_intro [where p = rimg]) (simp_all add: st' poke_memory rd_wr_apart)
    moreover have "rd32 (memory st') (a + 32) = sz" using szd by (simp add: st' poke_memory rd_wr_apart)
    ultimately show ?thesis using two by blast
  next
    case (Some p)
    have "get_rimg_copy ?st (a + 16) src sz = Inr st' \<or> (\<exists>rt_sz. get_rimg_rt ?st (a + 16) rimg src sz rt_sz = Inr st')"
      using get unfolding get_rimg_def Some option.case Let_def dev_offsets bindr_eq_Inr
      by (auto simp: res_simps split: if_splits)
    then show ?thesis
      using get_rimg_copy_step [OF at _ szd sz] get_rimg_rt_step [OF at _ src(1) rimg szd sz] by blast
  qed
  then show ?thesis using dev_step_trans [OF step] src(2) by auto
qed


subsection \<open>The three places an image is looked for\<close>

text \<open>What an image must look like for a BIOS to run it.\<close>

definition is_rom :: "u8 list \<Rightarrow> bool" where
  "is_rom bs \<longleftrightarrow> le16 bs 0 = 0xaa55 \<and> sum_list bs = 0"

text \<open>
  If the node names an image of at most 1 MiB, then a whole one is there, in memory nobody else
  has.
\<close>

definition dev_rom :: "bparm_state \<Rightarrow> bnode list \<Rightarrow> nat \<Rightarrow> bool" where
  "dev_rom st ns a \<longleftrightarrow>
     rd16 (memory st) (a + 28) = 0 \<or> 0x100000 < unat (rd32 (memory st) (a + 32)) \<or>
     (\<exists>bs. rom_named st ns a bs \<and> is_rom bs)"

lemma image_at_rom: "image_at r avail p \<Longrightarrow> is_rom (take (image_len r p) r)"
  by (auto simp: is_rom_def image_at_def le16_take)

lemma get_rimg_rom:
  assumes rep: "at_dev st ns a" and get: "get_rimg st (a + 16) rimg src sz pcir = Inr st'"
    and source: "image_source st ns a rimg src (unat sz)" "rimg \<noteq> 0" "0 < unat sz"
    and pcir: "pcir = None \<Longrightarrow> unat rimg + unat sz \<le> 0x100000 \<and> 16 dvd unat rimg"
    and rom: "is_rom (take (unat sz) (src (memory st)))"
  shows "dev_step st ns a st' \<and> dev_rom st' ns a"
  using get_rimg_step [OF rep get source pcir] rom unfolding dev_rom_def by (auto simp: not_less)

lemma no_rimg_step:
  assumes "at_dev st ns a"
  shows "dev_step st ns a (no_rimg st (a + 16))" and "rd16 (memory (no_rimg st (a + 16))) (a + 28) = 0"
proof -
  let ?x = "poke32 st (a + 32) 0" and ?y = "poke16 (poke32 st (a + 32) 0) (a + 30) 0"
  have x: "dev_step st ns a ?x" by (rule poke_step(3) [OF assms])
  have y: "dev_step st ns a ?y" by (rule dev_step_trans [OF x poke_step(2) [OF dev_step_at [OF x]]])
  show "dev_step st ns a (no_rimg st (a + 16))"
    unfolding no_rimg_def dev_offsets by (rule dev_step_trans [OF y poke_step(1) [OF dev_step_at [OF y]]])
  show "rd16 (memory (no_rimg st (a + 16))) (a + 28) = 0"
    unfolding no_rimg_def dev_offsets by (simp add: poke_memory)
qed

lemma no_rom: "rd16 (memory st) (a + 28) = 0 \<Longrightarrow> dev_rom st ns a"
  by (simp add: dev_rom_def)


lemma from_pci_io_step:
  assumes rep: "at_dev st ns a" and get: "get_rimg_from_pci_io sv st (a + 16) io = Inr st'"
    and K: "RomSize sv io \<noteq> 0 \<Longrightarrow> RomImage sv io \<noteq> 0 \<Longrightarrow>
      apart st ns a {unat (RomImage sv io)..<unat (RomImage sv io) + unat (RomSize sv io)}"
  shows "dev_step st ns a st' \<and> dev_rom st' ns a"
proof -
  let ?r = "RomImage sv io" and ?n = "RomSize sv io" and ?st = "no_rimg st (a + 16)"
  let ?src = "\<lambda>m. get_bytes m (unat ?r) (unat ?n)"
  note none = no_rimg_step [OF rep]
  have idle: "dev_step st ns a st' \<and> dev_rom st' ns a" if "st' = ?st"
    using none no_rom that by blast
  show ?thesis
  proof (cases "st' = ?st")
    case False
    then have nz: "?n \<noteq> 0" "?r \<noteq> 0" using get by (auto simp: get_rimg_from_pci_io_def Let_def)
    obtain p hk where pcir: "rimg_find_pcir (?src (memory ?st)) ?n = Inr (Some p)"
      and hk: "buf16 (?src (memory ?st)) (p + pcir_rimg_sz_hkib) = Inr hk"
      and g: "get_rimg ?st (a + 16) ?r ?src (ucast (ucast hk * 0x200 :: u64)) (Some p) = Inr st'"
      using get False nz unfolding get_rimg_from_pci_io_def Let_def alloc_aligns
      by (auto simp: res_simps split: option.splits if_splits)
    let ?bs = "?src (memory ?st)" and ?sz = "ucast (ucast hk * 0x200 :: u64) :: u32"
    have im: "image_at ?bs (unat ?n) p" using pcir rimg_find_pcir_Some [of ?n ?bs p] by simp
    have "p + 22 \<le> unat ?n" using im by (auto simp: image_at_def)
    then have "unat hk = le16 ?bs (p + 16)"
      using hk buf16_ok [of "p + 16" ?bs] by (simp add: pcir_offsets le16_def)
    moreover have "unat ?sz = 512 * unat hk"
      using unat_lt [of hk] by (simp add: unat_ucast_down unat_word_ariths unat_ucast_up)
    ultimately have sz: "unat ?sz = image_len ?bs p" by (simp add: image_len_def)
    have pos: "0 < unat ?sz" "unat ?sz \<le> unat ?n" using im by (auto simp: sz image_at_def)
    have "apart ?st ns a {unat ?r..<unat ?r + unat ?n}" by (rule apart_step(1) [OF none(1) K [OF nz]])
    moreover have "?src m = ?bs" if "\<forall>i\<in>{unat ?r..<unat ?r + unat ?n}. m i = memory ?st i" for m
      using that by (intro get_bytes_cong) simp
    moreover have "get_bytes (memory ?st) (unat ?r) (unat ?sz) = take (unat ?sz) ?bs"
      using get_bytes_part [of 0 "unat ?sz" "unat ?n" "memory ?st" "unat ?r"] pos(2) by simp
    moreover have "{unat ?r..<unat ?r + unat ?sz} \<subseteq> {unat ?r..<unat ?r + unat ?n}" using pos(2) by simp
    ultimately have "image_source ?st ns a ?r ?src (unat ?sz)" unfolding image_source_def by blast
    from get_rimg_rom [OF dev_step_at [OF none(1)] g this nz(2) pos(1)]
    have "dev_step ?st ns a st' \<and> dev_rom st' ns a" using image_at_rom [OF im] sz by simp
    then show ?thesis using dev_step_trans [OF none(1)] by blast
  qed (rule idle)
qed


text \<open>The images of the cache that lie below 1 MiB are in memory as they were cached.\<close>

definition cache_placed :: "ht \<Rightarrow> mem \<Rightarrow> nat set \<Rightarrow> bool" where
  "cache_placed ht m K \<longleftrightarrow> ht_ok ht \<and> (\<forall>k b sz. ht_lookup ht k = Some (b, sz) \<longrightarrow> b_addr b \<noteq> 0 \<and>
     (unat (b_addr b) + unat sz \<le> 0x100000 \<longrightarrow> {unat (b_addr b)..<unat (b_addr b) + unat sz} \<subseteq> K \<and>
        get_bytes m (unat (b_addr b)) (unat sz) = b_bytes b))"

lemma apart_subset: "apart st ns a K \<Longrightarrow> R \<subseteq> K \<Longrightarrow> apart st ns a R"
  unfolding apart_def by blast

lemma from_fvs_step:
  assumes rep: "at_dev st ns a" and get: "get_rimg_from_fvs ht st (a + 16) = Inr st'"
    and K: "apart st ns a K" "cache_placed ht (memory st) K"
  shows "dev_step st ns a st' \<and> dev_rom st' ns a"
proof -
  let ?st = "no_rimg st (a + 16)"
  note none = no_rimg_step [OF rep]
  have wf: "ht_wf ht" using K(2) by (simp add: cache_placed_def ht_ok_def)
  show ?thesis
  proof (cases "st' = ?st")
    case True
    then show ?thesis using none no_rom by blast
  next
    case False
    obtain k b sz p where b: "ht_lookup ht k = Some (b, sz)"
      and pcir: "rimg_find_pcir (b_bytes b) (ucast sz) = Inr (Some p)"
      and g: "get_rimg ?st (a + 16) (b_addr b) (\<lambda>_. b_bytes b) sz (Some p) = Inr st'"
      using get False unfolding get_rimg_from_fvs_def Let_def fv_find_rimg_eq [OF wf]
      by (auto simp: res_simps split: option.splits)
    have im: "image_for k b sz" using K(2) b unfolding cache_placed_def ht_ok_def by blast
    then have len: "length (b_bytes b) = unat sz" by (simp add: image_for_def Let_def)
    then have "unat (ucast sz :: u64) \<le> length (b_bytes b)" by simp
    from rimg_find_pcir_Some [OF this, of p] pcir have "image_at (b_bytes b) (unat sz) p" by simp
    moreover have "image_len (b_bytes b) p = unat sz"
      using im calculation by (simp add: image_for_def image_at_def Let_def)
    ultimately have rom: "is_rom (take (unat sz) (b_bytes b))" and pos: "0 < unat sz"
      using image_at_rom [of "b_bytes b" "unat sz" p] by (auto simp: image_at_def)
    have ad: "b_addr b \<noteq> 0" using K(2) b unfolding cache_placed_def by blast
    have low: "{unat (b_addr b)..<unat (b_addr b) + unat sz} \<subseteq> K \<and> get_bytes (memory st) (unat (b_addr b)) (unat sz) = b_bytes b"
      if "unat (b_addr b) + unat sz \<le> 0x100000" using K(2) b that unfolding cache_placed_def by blast
    let ?R = "if unat (b_addr b) + unat sz \<le> 0x100000 then {unat (b_addr b)..<unat (b_addr b) + unat sz} else {}"
    have R: "apart st ns a ?R"
    proof (rule apart_subset [OF K(1)])
      show "?R \<subseteq> K" using low by simp
    qed
    have "get_bytes (memory ?st) (unat (b_addr b)) (unat sz) = take (unat sz) (b_bytes b)"
      if fits: "unat (b_addr b) + unat sz \<le> 0x100000"
    proof -
      have "get_bytes (memory ?st) (unat (b_addr b)) (unat sz) = get_bytes (memory st) (unat (b_addr b)) (unat sz)"
        using apart_step(2) [OF none(1) R] fits by (intro get_bytes_cong) simp
      also have "\<dots> = b_bytes b" using low [OF fits] by blast
      finally show ?thesis using len by simp
    qed
    then have "image_source ?st ns a (b_addr b) (\<lambda>_. b_bytes b) (unat sz)"
      unfolding image_source_def by (intro exI [of _ ?R]) (simp add: apart_step(1) [OF none(1) R])
    from get_rimg_rom [OF dev_step_at [OF none(1)] g this ad pos] rom
    have "dev_step ?st ns a st' \<and> dev_rom st' ns a" by simp
    then show ?thesis using dev_step_trans [OF none(1)] by blast
  qed
qed

lemma special_case_step:
  assumes rep: "at_dev st ns a" and get: "get_rimg_special_case st (a + 16) = Inr st'"
    and K: "apart st ns a {0xc0000..<0x100000}" and none: "dev_rom st ns a"
  shows "dev_step st ns a st' \<and> dev_rom st' ns a"
proof (cases "st' = st")
  case True
  then show ?thesis using none dev_step_refl [OF rep] by simp
next
  case False
  let ?src = "\<lambda>m. get_bytes m 0xc0000 0x40000" and ?bs = "get_bytes (memory st) 0xc0000 0x40000"
  obtain sz pcir where find: "rimg_find ?bs = Inr sz" "sz \<noteq> 0"
    and g: "get_rimg st (a + 16) 0xc0000 ?src (ucast sz) pcir = Inr st'"
    using get False unfolding get_rimg_special_case_def Let_def
    by (auto simp: res_simps split: if_splits)
  let ?n = "512 * unat (?bs ! 2)"
  have n: "?bs ! 2 \<le> 0x7f" "sz = word_of_nat ?n" "?bs ! 2 \<noteq> 0" and sig: "le16 ?bs 0 = 0xaa55"
    and sum: "sum_list (take ?n ?bs) = 0"
    using find by (simp_all add: rimg_find_spec split: if_splits)
  have pos: "0 < ?n" using n(3) by (simp add: unat_gt_0)
  then have rom: "is_rom (take ?n ?bs)" using sig sum by (simp add: is_rom_def le16_take)
  have "unat (?bs ! 2) \<le> 127" using n(1) by (simp add: word_le_nat_alt)
  then have small: "?n \<le> 65024" by linarith
  then have sz: "unat (ucast sz :: u32) = ?n"
    by (simp add: n(2) unat_ucast_down unat_of_nat del: of_nat_mult)
  have "image_source st ns a 0xc0000 ?src ?n"
    unfolding image_source_def
  proof (intro exI conjI impI allI)
    show "apart st ns a {0xc0000..<0x100000}" by (rule K)
    show "?src m = ?bs" if "\<forall>i\<in>{0xc0000..<0x100000}. m i = memory st i" for m
      using that by (intro get_bytes_cong) simp
    show "{unat (0xc0000 :: u64)..<unat (0xc0000 :: u64) + ?n} \<subseteq> {0xc0000..<0x100000}" using small by simp
    show "get_bytes (memory st) (unat (0xc0000 :: u64)) ?n = take ?n ?bs"
      using get_bytes_part [of 0 ?n "0x40000" "memory st" "0xc0000"] small by simp
  qed
  from get_rimg_rom [OF rep g, unfolded sz, OF this _ pos _ rom] small
  show ?thesis by simp
qed

end
