(* ===== verification/Pci_Process.thy ===== *)
theory Pci_Process
  imports Pci_Correct
begin

text \<open>
  One device and all devices of \<^verbatim>\<open>stage1/pci.c\<close>: the boot parameters and images that
  \<^verbatim>\<open>process_pci\<close> leaves for stage 2.
\<close>

unbundle bit_operations_syntax

subsection \<open>Memory that stays as it is\<close>

lemma apart_protected: "apart st ns a R \<longleftrightarrow> protected st (ns @ [dev_node m a]) R"
  by (auto simp: apart_def protected_def)

text \<open>A new node for a device.\<close>

lemma bparm_add_dev:
  assumes rep: "bparm_rep st ns" and add: "bparm_add st BP_PCID sizeof_pci_dev = Inr (p, st')"
  shows "\<exists>a. unat p = a + 16 \<and> at_dev st' ns a \<and>
    (\<forall>R. protected st ns R \<longrightarrow> apart st' ns a R \<and> (\<forall>i\<in>R. memory st' i = memory st i))"
proof -
  have sz: "unat sizeof_pci_dev = 20" by (simp add: sizeof_pci_dev_def)
  obtain a where p: "unat p = a + 16"
    and rep': "bparm_rep st' (ns @ [\<lparr> bn_addr = a, bn_type = BP_PCID, bn_data = replicate 20 0 \<rparr>])"
    and R: "\<And>R. protected st ns R \<Longrightarrow>
      protected st' (ns @ [\<lparr> bn_addr = a, bn_type = BP_PCID, bn_data = replicate 20 0 \<rparr>]) R \<and>
      (\<forall>i\<in>R. memory st' i = memory st i)"
    using bparm_add_frame [OF rep add, unfolded sz sizeof_bparm_def] by blast
  let ?n = "\<lparr> bn_addr = a, bn_type = BP_PCID, bn_data = replicate 20 0 \<rparr> :: bnode"
  obtain x where "node_ok (memory st') ?n x" using rep' nodes_ok_nth [of "memory st'" "ns @ [?n]" ?n]
    by (auto simp: bparm_rep_def)
  then have d: "dev_node (memory st') a = ?n" by (simp add: dev_node_def node_ok_def sizeof_bparm_def)
  then have at: "at_dev st' ns a" using rep' by (simp add: at_dev_def)
  have "apart st' ns a K \<and> (\<forall>i\<in>K. memory st' i = memory st i)" if "protected st ns K" for K
    using R [OF that] unfolding apart_protected [where m = "memory st'"] d .
  then show ?thesis using p at by blast
qed

text \<open>Filling in what is known of the device.\<close>

definition dev_fill :: "bparm_state \<Rightarrow> nat \<Rightarrow> u32 \<Rightarrow> u32 \<Rightarrow> u32 \<Rightarrow> bparm_state" where
  "dev_fill st a locn pci_id class_if = poke32 (poke32 (poke32 st (a + 16) locn) (a + 20) pci_id) (a + 24) class_if"

lemma dev_fill_outside: "i \<notin> {a + 16..<a + 28} \<Longrightarrow> memory (dev_fill st a l p c) i = memory st i"
  by (auto simp: dev_fill_def poke_memory wr32_def put_bytes_def)

lemma dev_fill_at: "at_dev st ns a \<Longrightarrow> at_dev (dev_fill st a l p c) ns a"
proof -
  assume at: "at_dev st ns a"
  have "at_dev (st\<lparr> memory := memory (dev_fill st a l p c) \<rparr>) ns a"
    by (rule at_dev_data [OF at]) (rule dev_fill_outside, auto)
  then show ?thesis by (simp add: dev_fill_def poke32_def)
qed

lemma dev_fill_bmem: "bmem (dev_fill st a l p c) = bmem st"
  by (simp add: dev_fill_def poke_memory)

lemma dev_fill_apart: "apart st ns a R \<Longrightarrow> apart (dev_fill st a l p c) ns a R"
  by (simp add: apart_def dev_fill_bmem)

lemma dev_fill_fields:
  "rd32 (memory (dev_fill st a l p c)) (a + 16) = l" "rd32 (memory (dev_fill st a l p c)) (a + 20) = p"
  "rd32 (memory (dev_fill st a l p c)) (a + 24) = c"
  unfolding dev_fill_def poke_memory by (simp_all add: rd_wr_apart)

lemma dev_step_fields:
  assumes "dev_step st ns a st'" and "at_dev st ns a" and "a \<le> x" and "x + 4 \<le> a + 28"
  shows "rd32 (memory st') x = rd32 (memory st) x"
proof -
  have "memory st' i = memory st i" if "x \<le> i" "i < x + 4" for i
  proof -
    have "i \<in> {a..<a + 36}" using that assms(3,4) by auto
    then have "i \<notin> bmem_free (bmem st)" using at_dev_apart(2) [OF assms(2)] by blast
    then show ?thesis using assms(1,4) that by (auto simp: dev_step_def)
  qed
  then show ?thesis unfolding rd32_def by (intro arg_cong [where f = le_word] get_bytes_cong) blast
qed


subsection \<open>What stage 2 reads of a device\<close>

definition bd_locn :: "bnode \<Rightarrow> u32" where "bd_locn n = le_word (take 4 (drop 0 (bn_data n)))"
definition bd_id :: "bnode \<Rightarrow> u32" where "bd_id n = le_word (take 4 (drop 4 (bn_data n)))"
definition bd_class :: "bnode \<Rightarrow> u32" where "bd_class n = le_word (take 4 (drop 8 (bn_data n)))"
definition bd_seg :: "bnode \<Rightarrow> nat" where "bd_seg n = unat (le_word (take 2 (drop 12 (bn_data n))) :: u16)"
definition bd_sz :: "bnode \<Rightarrow> nat" where "bd_sz n = unat (le_word (take 4 (drop 16 (bn_data n))) :: u32)"

definition is_display :: "u32 \<Rightarrow> bool" where
  "is_display class_if \<longleftrightarrow> class_if AND 0xffff0000 = 0x03000000 \<or> class_if AND 0xffff0000 = 0x03010000"

definition bd_rom :: "bnode \<Rightarrow> nat set" where
  "bd_rom n = {16 * bd_seg n..<16 * bd_seg n + bd_sz n}"

text \<open>The image it names, if any, is in memory, and no part of it is free or lies in a node.\<close>

definition has_rom :: "bparm_state \<Rightarrow> bnode list \<Rightarrow> bnode \<Rightarrow> bool" where
  "has_rom st ns n \<longleftrightarrow> bd_seg n = 0 \<or> 0x100000 < bd_sz n \<or>
     (is_rom (get_bytes (memory st) (16 * bd_seg n) (bd_sz n)) \<and> protected st ns (bd_rom n))"

lemma dev_node_fields:
  "bd_locn (dev_node m a) = rd32 m (a + 16)" "bd_id (dev_node m a) = rd32 m (a + 20)"
  "bd_class (dev_node m a) = rd32 m (a + 24)" "bd_seg (dev_node m a) = unat (rd16 m (a + 28))"
  "bd_sz (dev_node m a) = unat (rd32 m (a + 32))"
  using get_bytes_part [of 0 4 20 m "a + 16"] get_bytes_part [of 4 4 20 m "a + 16"]
    get_bytes_part [of 8 4 20 m "a + 16"] get_bytes_part [of 12 2 20 m "a + 16"] get_bytes_part [of 16 4 20 m "a + 16"]
  by (simp_all add: bd_locn_def bd_id_def bd_class_def bd_seg_def bd_sz_def dev_node_def rd32_def rd16_def add.assoc)

lemma dev_rom_has_rom:
  assumes "dev_rom st ns a"
  shows "has_rom st (ns @ [dev_node (memory st) a]) (dev_node (memory st) a)"
proof (cases "rd16 (memory st) (a + 28) = 0 \<or> 0x100000 < unat (rd32 (memory st) (a + 32))")
  case True
  then show ?thesis by (auto simp: has_rom_def dev_node_fields)
next
  case False
  then obtain bs where bs: "rom_named st ns a bs" "is_rom bs" using assms by (auto simp: dev_rom_def)
  let ?seg = "unat (rd16 (memory st) (a + 28))"
  have b: "get_bytes (memory st) (16 * ?seg) (length bs) = bs" "apart st ns a {16 * ?seg..<16 * ?seg + length bs}"
    "unat (rd32 (memory st) (a + 32)) = length bs"
    using bs(1) by (simp_all add: rom_named_def Let_def)
  then show ?thesis
    using bs(2) apart_protected [of st ns a _ "memory st"] by (simp add: has_rom_def dev_node_fields bd_rom_def)
qed


subsection \<open>One device\<close>

definition firmware_roms :: "('fw, 'handle, 'io) pci_services \<Rightarrow> ht \<Rightarrow> mem \<Rightarrow> nat set \<Rightarrow> bool" where
  "firmware_roms sv ht m K \<longleftrightarrow> {0xc0000..<0x100000} \<subseteq> K \<and> cache_placed ht m K \<and>
     (\<forall>io. RomSize sv io \<noteq> 0 \<longrightarrow> RomImage sv io \<noteq> 0 \<longrightarrow>
        {unat (RomImage sv io)..<unat (RomImage sv io) + unat (RomSize sv io)} \<subseteq> K)"

definition pci_inv :: "nat set \<Rightarrow> mem \<Rightarrow> bparm_state \<Rightarrow> bnode list \<Rightarrow> bnode list \<Rightarrow> bool" where
  "pci_inv K m0 st old new \<longleftrightarrow> bparm_rep st (old @ new) \<and> protected st (old @ new) K \<and>
     (\<forall>i\<in>K. memory st i = m0 i) \<and> (\<forall>n\<in>set new. bn_type n = BP_PCID \<and> length (bn_data n) = 20 \<and> has_rom st (old @ new) n)"

lemma cache_placed_cong:
  assumes "cache_placed ht m0 K" and "\<And>i. i \<in> K \<Longrightarrow> m i = m0 i"
  shows "cache_placed ht m K"
proof -
  have "get_bytes m x n = get_bytes m0 x n" if "{x..<x + n} \<subseteq> K" for x n
    using that assms(2) by (intro get_bytes_cong) auto
  then show ?thesis using assms(1) unfolding cache_placed_def by metis
qed

text \<open>The image of a device of the list stays where it is while the next one is processed.\<close>

lemma has_rom_kept:
  assumes "has_rom st ns n" and "\<And>R. protected st ns R \<Longrightarrow> protected st' ns' R \<and> (\<forall>i\<in>R. memory st' i = memory st i)"
  shows "has_rom st' ns' n"
proof (cases "bd_seg n = 0 \<or> 0x100000 < bd_sz n")
  case False
  then have rom: "is_rom (get_bytes (memory st) (16 * bd_seg n) (bd_sz n))" "protected st ns (bd_rom n)"
    using assms(1) by (auto simp: has_rom_def)
  have "get_bytes (memory st') (16 * bd_seg n) (bd_sz n) = get_bytes (memory st) (16 * bd_seg n) (bd_sz n)"
    using assms(2) [OF rom(2)] by (intro get_bytes_cong) (simp add: bd_rom_def)
  then show ?thesis using rom(1) assms(2) [OF rom(2)] by (simp add: has_rom_def)
qed (auto simp: has_rom_def)

lemma find_dev_rimg_step:
  assumes rep: "at_dev st ns a" and find: "find_dev_rimg sv ht st (a + 16) io = Inr st'"
    and K: "apart st ns a K" "firmware_roms sv ht (memory st) K"
  shows "dev_step st ns a st' \<and> dev_rom st' ns a"
proof -
  have placed: "cache_placed ht (memory st) K" and vga: "{0xc0000..<0x100000} \<subseteq> K"
    using K(2) by (simp_all add: firmware_roms_def)
  obtain st1 where one: "get_rimg_from_pci_io sv st (a + 16) io = Inr st1"
    and rest: "(if rd16 (memory st1) (a + 28) = 0 then
       bindr (get_rimg_from_fvs ht st1 (a + 16)) (\<lambda>st.
       if rd16 (memory st) (a + 28) = 0 then get_rimg_special_case st (a + 16) else Inr st)
     else Inr st1) = Inr st'"
    using find unfolding find_dev_rimg_def dev_offsets bindr_eq_Inr by blast
  have s1: "dev_step st ns a st1 \<and> dev_rom st1 ns a"
    by (rule from_pci_io_step [OF rep one]) (use K in \<open>blast intro: apart_subset dest: firmware_roms_def [THEN iffD1]\<close>)
  show ?thesis
  proof (cases "rd16 (memory st1) (a + 28) = 0")
    case True
    obtain st2 where two: "get_rimg_from_fvs ht st1 (a + 16) = Inr st2"
      and rest: "(if rd16 (memory st2) (a + 28) = 0 then get_rimg_special_case st2 (a + 16) else Inr st2) = Inr st'"
      using rest unfolding if_P [OF True] bindr_eq_Inr by blast
    have "cache_placed ht (memory st1) K"
      by (rule cache_placed_cong [OF placed]) (rule apart_step(2) [OF _ K(1)], use s1 in blast)
    then have s2: "dev_step st1 ns a st2 \<and> dev_rom st2 ns a"
      using from_fvs_step [OF _ two] s1 apart_step(1) [OF _ K(1)] dev_step_at by blast
    have t2: "dev_step st ns a st2" using s1 s2 dev_step_trans by blast
    show ?thesis
    proof (cases "rd16 (memory st2) (a + 28) = 0")
      case True
      then have "get_rimg_special_case st2 (a + 16) = Inr st'" using rest by simp
      from special_case_step [OF dev_step_at [OF t2] this] s2 apart_subset [OF apart_step(1) [OF t2 K(1)] vga]
      have "dev_step st2 ns a st' \<and> dev_rom st' ns a" by blast
      then show ?thesis using dev_step_trans [OF t2] by blast
    next
      case False
      then show ?thesis using rest t2 s2 by simp
    qed
  next
    case False
    then show ?thesis using rest s1 by simp
  qed
qed


text \<open>A firmware that gives the same answers about a device whenever it is asked.\<close>

record pci_info =
  pi_locn :: "u64 \<times> u64 \<times> u64 \<times> u64"
  pi_conf :: "u32 list"

definition fw_steady :: "('fw, 'handle, 'io) pci_services \<Rightarrow> ('handle \<Rightarrow> 'io) \<Rightarrow> ('io \<Rightarrow> pci_info) \<Rightarrow> bool" where
  "fw_steady sv io_of info \<longleftrightarrow>
     (\<forall>fw h s io fw'. HandlePci sv fw h = ((s, io), fw') \<longrightarrow> \<not> EFI_ERROR s \<longrightarrow> io = io_of h) \<and>
     (\<forall>fw io s l fw'. GetLocation sv fw io = ((s, l), fw') \<longrightarrow> \<not> EFI_ERROR s \<longrightarrow> l = pi_locn (info io)) \<and>
     (\<forall>fw io s c fw'. PciRead sv fw io 0 4 = ((s, c), fw') \<longrightarrow> \<not> EFI_ERROR s \<longrightarrow> c = pi_conf (info io))"

definition general_dev :: "pci_info \<Rightarrow> bool" where
  "general_dev i \<longleftrightarrow> drop_bit 8 (pi_conf i ! 3) AND 0xff = 0"

definition dev_ids :: "pci_info \<Rightarrow> u32 \<times> u32 \<times> u32" where
  "dev_ids i = (case pi_locn i of (seg, bus, dev, fn) \<Rightarrow>
     (pci_locn seg bus dev fn, pi_conf i ! 0, pi_conf i ! 2 AND 0xffffff00))"

definition bd_ids :: "bnode \<Rightarrow> u32 \<times> u32 \<times> u32" where
  "bd_ids n = (bd_locn n, bd_id n, bd_class n)"

text \<open>The steps of a run that succeeds.\<close>

lemma process_one_Inr:
  assumes steady: "fw_steady sv io_of info"
    and one: "process_one_pci_io sv ht (st, fw) io t = Inr (v, st', fw')"
  shows "(\<not> general_dev (info io) \<and> v = 0 \<and> st' = st) \<or>
    (general_dev (info io) \<and> (\<exists>p st1 en. bparm_add st BP_PCID sizeof_pci_dev = Inr (p, st1) \<and>
       (let bd = unat p; (l, i, c) = dev_ids (info io) in
        find_dev_rimg sv ht (poke32 (poke32 (poke32 st1 bd l) (bd + 4) i) (bd + 8) c) bd io = Inr st' \<and>
        v = (if en then bd else 0) \<and> (en \<longrightarrow> is_display c))))"
proof -
  obtain s1 seg bus dev fn fw1 where 1: "GetLocation sv fw io = ((s1, seg, bus, dev, fn), fw1)" by (metis prod.exhaust)
  obtain s2 attrs fw2 where 2: "AttributesGet sv fw1 io = ((s2, attrs), fw2)" by (metis prod.exhaust)
  obtain s3 supports fw3 where 3: "AttributesSupported sv fw2 io = ((s3, supports), fw3)" by (metis prod.exhaust)
  obtain s4 conf fw4 where 4: "PciRead sv fw3 io 0 4 = ((s4, conf), fw4)" by (metis prod.exhaust)
  let ?c = "conf ! 2 AND 0xffffff00" and ?l = "pci_locn seg bus dev fn"
  have ok: "\<not> EFI_ERROR s1" "\<not> EFI_ERROR s2" "\<not> EFI_ERROR s3" "\<not> EFI_ERROR s4"
    using one by (auto simp: process_one_pci_io_def 1 2 3 4 Let_def split: if_splits)
  have info: "pi_locn (info io) = (seg, bus, dev, fn)" "pi_conf (info io) = conf"
    using steady 1 4 ok unfolding fw_steady_def by metis+
  have ids: "dev_ids (info io) = (?l, conf ! 0, ?c)" by (simp add: dev_ids_def info)
  obtain en fw5 where 5: "(if t then enable_legacy_vga sv fw4 io ?c attrs supports else (None, fw4)) = (en, fw5)"
    by (metis prod.exhaust)
  have "3 < length conf"
    using one ok by (auto simp: process_one_pci_io_def 1 2 3 4 Let_def res_simps split: if_splits)
  then have len: "0 < length conf" "2 < length conf" "3 < length conf" by linarith+
  have disp: "is_display ?c" if "en \<noteq> None"
    using 5 that by (auto simp: enable_legacy_vga_def is_display_def Let_def split: if_splits prod.splits)
  show ?thesis
  proof (cases "drop_bit 8 (conf ! 3) AND 0xff = 0")
    case False
    then show ?thesis
      using one ok len by (simp add: process_one_pci_io_def 1 2 3 4 Let_def general_dev_def info)
  next
    case True
    obtain p st1 where add: "bparm_add st BP_PCID sizeof_pci_dev = Inr (p, st1)"
      and rest: "bindr (find_dev_rimg sv ht (poke32 (poke32 (poke32 st1 (unat p) ?l) (unat p + 4) (conf ! 0)) (unat p + 8) ?c)
         (unat p) io) (\<lambda>st.
         let ((status, pci_conf), fw) = PciRead sv fw5 io 16 6 in
         if EFI_ERROR status then Inl (Error_with_status ''cannot read PCI conf. sp.'' status) else
         bindr (scan_bars (take 6 pci_conf) 0) (\<lambda>_. Inr (if en \<noteq> None then unat p else 0, st, fw))) = Inr (v, st', fw')"
      using one ok len True
      by (auto simp: process_one_pci_io_def 1 2 3 4 5 Let_def bindr_eq_Inr bd_pci_locn_def bd_pci_id_def bd_class_if_def simp del: not_None_eq)
    obtain s6 bars fw6 where 6: "PciRead sv fw5 io 16 6 = ((s6, bars), fw6)" by (metis prod.exhaust)
    have "find_dev_rimg sv ht (poke32 (poke32 (poke32 st1 (unat p) ?l) (unat p + 4) (conf ! 0)) (unat p + 8) ?c)
        (unat p) io = Inr st' \<and> v = (if en \<noteq> None then unat p else 0)"
      using rest by (auto simp: 6 res_simps Let_def simp del: not_None_eq split: if_splits)
    then show ?thesis using True add disp by (auto simp: general_dev_def info ids Let_def)
  qed
qed


lemma process_one_step:
  assumes steady: "fw_steady sv io_of info" and roms: "firmware_roms sv ht m0 K"
    and inv: "pci_inv K m0 st old new" and one: "process_one_pci_io sv ht (st, fw) io t = Inr (v, st', fw')"
  shows "\<exists>ns. pci_inv K m0 st' old (new @ ns) \<and> map bd_ids ns = map dev_ids (filter general_dev [info io]) \<and>
    (v = 0 \<or> (\<exists>n\<in>set ns. v = bn_addr n + 16 \<and> is_display (bd_class n)))"
  using process_one_Inr [OF steady one]
proof (elim disjE conjE exE)
  assume "\<not> general_dev (info io)" "v = 0" "st' = st"
  then show ?thesis using inv by (intro exI [of _ "[]"]) simp
next
  fix p st1 en
  obtain l i c where ids: "dev_ids (info io) = (l, i, c)" by (metis prod.exhaust)
  assume gen: "general_dev (info io)" and add: "bparm_add st BP_PCID sizeof_pci_dev = Inr (p, st1)"
    and run: "let bd = unat p; (l, i, c) = dev_ids (info io) in
        find_dev_rimg sv ht (poke32 (poke32 (poke32 st1 bd l) (bd + 4) i) (bd + 8) c) bd io = Inr st' \<and>
        v = (if en then bd else 0) \<and> (en \<longrightarrow> is_display c)"
  let ?ns = "old @ new"
  have rep: "bparm_rep st ?ns" and prot: "protected st ?ns K" and same: "\<And>i. i \<in> K \<Longrightarrow> memory st i = m0 i"
    using inv by (auto simp: pci_inv_def)
  obtain a where p: "unat p = a + 16" and at1: "at_dev st1 ?ns a"
    and kept: "\<And>R. protected st ?ns R \<Longrightarrow> apart st1 ?ns a R \<and> (\<forall>i\<in>R. memory st1 i = memory st i)"
    using bparm_add_dev [OF rep add] by metis
  let ?st2 = "dev_fill st1 a l i c"
  have off: "a + 16 + 4 = a + 20" "a + 16 + 8 = a + 24" by simp_all
  have find: "find_dev_rimg sv ht ?st2 (a + 16) io = Inr st'" and v: "v = (if en then a + 16 else 0)"
    and disp: "en \<Longrightarrow> is_display c"
    using run unfolding ids Let_def prod.case p off dev_fill_def by blast+
  have at2: "at_dev ?st2 ?ns a" by (rule dev_fill_at [OF at1])
  have kept2: "apart ?st2 ?ns a R \<and> (\<forall>i\<in>R. memory ?st2 i = memory st i)" if R: "protected st ?ns R" for R
  proof -
    have ap: "apart st1 ?ns a R" using kept [OF R] ..
    then have "memory ?st2 i = memory st1 i" if "i \<in> R" for i
      using that by (intro dev_fill_outside) (auto simp: apart_def disjoint_iff)
    then show ?thesis using kept [OF R] dev_fill_apart [OF ap] by simp
  qed
  have "memory ?st2 i = m0 i" if "i \<in> K" for i using kept2 [OF prot] same that by simp
  then have "cache_placed ht (memory ?st2) K"
    using roms cache_placed_cong [of ht m0 K "memory ?st2"] by (simp add: firmware_roms_def)
  then have roms2: "firmware_roms sv ht (memory ?st2) K" using roms by (simp add: firmware_roms_def)
  note step = find_dev_rimg_step [OF at2 find kept2 [OF prot, THEN conjunct1] roms2]
  let ?n = "dev_node (memory st') a"
  have kept3: "protected st' (?ns @ [?n]) R \<and> (\<forall>i\<in>R. memory st' i = memory st i)" if R: "protected st ?ns R" for R
  proof -
    have ap: "apart ?st2 ?ns a R" using kept2 [OF R] ..
    note s = apart_step [OF step [THEN conjunct1] ap]
    have "protected st' (?ns @ [?n]) R" using s(1) apart_protected by blast
    then show ?thesis using s(2) kept2 [OF R] by simp
  qed
  have "has_rom st' (?ns @ [?n]) k" if "k \<in> set new" for k
    by (rule has_rom_kept [OF _ kept3]) (use inv that in \<open>simp_all add: pci_inv_def\<close>)
  moreover have "has_rom st' (?ns @ [?n]) ?n" using step by (intro dev_rom_has_rom) blast
  moreover have "bparm_rep st' (?ns @ [?n])" using step dev_step_at unfolding at_dev_def by blast
  moreover have "protected st' (?ns @ [?n]) K" "\<forall>i\<in>K. memory st' i = m0 i" using kept3 [OF prot] same by auto
  ultimately have inv': "pci_inv K m0 st' old (new @ [?n])"
    using inv by (auto simp: pci_inv_def dev_node_def)
  have f: "rd32 (memory st') x = rd32 (memory ?st2) x" if "a \<le> x" "x + 4 \<le> a + 28" for x
    by (rule dev_step_fields [OF step [THEN conjunct1] at2 that])
  have cls: "bd_class ?n = c" "bd_ids ?n = (l, i, c)"
    unfolding bd_ids_def dev_node_fields by (simp_all add: f dev_fill_fields)
  show ?thesis
    by (rule exI [of _ "[?n]"]) (use inv' cls gen ids v disp in auto)
qed

lemma process_handles_inv:
  assumes steady: "fw_steady sv io_of info" and roms: "firmware_roms sv ht m0 K"
  shows "pci_inv K m0 st old new \<Longrightarrow> (vga = 0 \<or> (\<exists>n\<in>set new. vga = bn_addr n + 16 \<and> is_display (bd_class n))) \<Longrightarrow>
    process_handles sv ht vga (st, fw) handles = Inr (v, st', fw') \<Longrightarrow>
    \<exists>ns. pci_inv K m0 st' old (new @ ns) \<and>
      map bd_ids ns = map dev_ids (filter general_dev (map (\<lambda>h. info (io_of h)) handles)) \<and>
      (v = 0 \<or> (\<exists>n\<in>set (new @ ns). v = bn_addr n + 16 \<and> is_display (bd_class n)))"
proof (induction handles arbitrary: st fw vga new)
  case Nil
  then show ?case by (intro exI [of _ "[]"]) simp
next
  case (Cons h hs)
  obtain s io fw1 where h: "HandlePci sv fw h = ((s, io), fw1)" by (metis prod.exhaust)
  then have ok: "\<not> EFI_ERROR s" using Cons.prems(3) by (auto simp: Let_def split: if_splits)
  then have io: "io = io_of h" using steady h unfolding fw_steady_def by blast
  obtain bd st1 fw2 where one: "process_one_pci_io sv ht (st, fw1) io (vga = 0) = Inr (bd, st1, fw2)"
    and rest: "process_handles sv ht (if vga = 0 then bd else vga) (st1, fw2) hs = Inr (v, st', fw')"
    using Cons.prems(3) ok by (auto simp: h Let_def res_simps)
  obtain n1 where n1: "pci_inv K m0 st1 old (new @ n1)"
    "map bd_ids n1 = map dev_ids (filter general_dev [info io])"
    "bd = 0 \<or> (\<exists>n\<in>set n1. bd = bn_addr n + 16 \<and> is_display (bd_class n))"
    using process_one_step [OF steady roms Cons.prems(1) one] by blast
  have "(if vga = 0 then bd else vga) = 0 \<or>
      (\<exists>n\<in>set (new @ n1). (if vga = 0 then bd else vga) = bn_addr n + 16 \<and> is_display (bd_class n))"
    using Cons.prems(2) n1(3) by auto
  from Cons.IH [OF n1(1) this rest] obtain n2 where n2: "pci_inv K m0 st' old ((new @ n1) @ n2)"
    "map bd_ids n2 = map dev_ids (filter general_dev (map (\<lambda>h. info (io_of h)) hs))"
    "v = 0 \<or> (\<exists>n\<in>set ((new @ n1) @ n2). v = bn_addr n + 16 \<and> is_display (bd_class n))" by blast
  show ?case
    by (rule exI [of _ "n1 @ n2"]) (use n1(2) n2 io in auto)
qed


lemma bd_seg_rd16:
  assumes "bparm_rep st ns" and "n \<in> set ns" and "length (bn_data n) = 20"
  shows "unat (rd16 (memory st) (bn_addr n + 28)) = bd_seg n"
proof -
  obtain x where "node_ok (memory st) n x" using assms(1) nodes_ok_nth [OF _ assms(2)] unfolding bparm_rep_def by blast
  then have "bn_data n = bn_data (dev_node (memory st) (bn_addr n))"
    using assms(3) by (simp add: node_ok_def dev_node_def sizeof_bparm_def)
  then have "bd_seg n = bd_seg (dev_node (memory st) (bn_addr n))" by (simp add: bd_seg_def)
  then show ?thesis by (simp add: dev_node_fields)
qed

subsection \<open>The base address registers\<close>

text \<open>
  How six registers are meant to be read: a 64-bit address takes two of them, and one whose upper
  half would be missing is outside what was read.
\<close>

definition bar_bad :: "u32 \<Rightarrow> bool" where "bar_bad bar \<longleftrightarrow> bar AND 7 = 2 \<or> bar AND 7 = 6"

fun parse_bars :: "u32 list \<Rightarrow> unit res" where
  "parse_bars [] = Inr ()"
| "parse_bars [bar] = (if bar AND 7 = 4 then Inl Out_of_bounds
     else if bar_bad bar then Inl (Error ''unhandled 16-bit PCI BAR'') else Inr ())"
| "parse_bars (bar # hi # bars) = (if bar AND 7 = 4 then parse_bars bars
     else if bar_bad bar then Inl (Error ''unhandled 16-bit PCI BAR'') else parse_bars (hi # bars))"

lemma bar_kinds: "(bar AND 7) \<in> {0, 1, 2, 3, 4, 5, 6, 7}" for bar :: u32
proof -
  have "bar AND 7 = take_bit 3 bar" by (simp add: take_bit_eq_mask mask_eq_exp_minus_1)
  then have "unat (bar AND 7) < 8" using take_bit_nat_less_exp [of 3 "unat bar"] by (simp add: unsigned_take_bit_eq)
  then have "unat (bar AND 7) \<in> {0, 1, 2, 3, 4, 5, 6, 7}" by auto
  then show ?thesis by (auto simp: word_unat_eq_iff)
qed

lemma parse_bars_Cons:
  "parse_bars (bar # bars) = (if bar AND 7 = 4 then (if bars = [] then Inl Out_of_bounds else parse_bars (tl bars))
     else if bar_bad bar then Inl (Error ''unhandled 16-bit PCI BAR'') else parse_bars bars)"
  by (cases bars) simp_all

lemma scan_bars_parse: "length bars = 6 \<Longrightarrow> i \<le> 6 \<Longrightarrow> scan_bars bars i = parse_bars (drop i bars)"
proof (induction "6 - i" arbitrary: i rule: less_induct)
  case less
  show ?case
  proof (cases "i < 6")
    case True
    let ?b = "bars ! i"
    have d: "drop i bars = ?b # drop (i + 1) bars" using True less.prems by (simp add: Cons_nth_drop_Suc)
    have next1: "scan_bars bars (i + 1) = parse_bars (drop (i + 1) bars)"
      using True less by (intro less.hyps) auto
    have next2: "scan_bars bars (i + 2) = parse_bars (tl (drop (i + 1) bars))" if "i + 1 < 6"
      using that less by (subst less.hyps) (auto simp: drop_Suc tl_drop)
    have e: "scan_bars bars i = (if ?b = 0 then scan_bars bars (i + 1)
        else if ?b AND 7 = 0 then scan_bars bars (i + 1)
        else if ?b AND 7 = 4 then bindr (arr_get bars (i + 1)) (\<lambda>_. scan_bars bars (i + 2))
        else if ?b AND 7 = 1 \<or> ?b AND 7 = 3 \<or> ?b AND 7 = 5 \<or> ?b AND 7 = 7 then scan_bars bars (i + 1)
        else Inl (Error ''unhandled 16-bit PCI BAR''))"
      using True less.prems by (subst scan_bars.simps) (simp add: Let_def)
    show ?thesis
    proof (cases "?b AND 7 = 4")
      case True
      have nz: "?b \<noteq> 0" using True by auto
      show ?thesis
      proof (cases "i + 1 < 6")
        case True
        then have ne: "drop (i + 1) bars \<noteq> []" using less.prems by simp
        show ?thesis
          unfolding d parse_bars_Cons e using nz \<open>?b AND 7 = 4\<close> next2 [OF True] ne True less.prems by simp
      next
        case False
        then show ?thesis
          unfolding d parse_bars_Cons e using nz \<open>?b AND 7 = 4\<close> less.prems by (simp add: arr_get_def)
      qed
    next
      case False
      have "?b = 0 \<Longrightarrow> ?b AND 7 = 0" by simp
      then show ?thesis
        unfolding d parse_bars_Cons e next1 bar_bad_def using False bar_kinds [of ?b] by auto
    qed
  next
    case False
    then show ?thesis using less.prems by (subst scan_bars.simps) simp
  qed
qed

lemma process_pci_new:
  assumes "fw_steady sv io_of info" and "firmware_roms sv ht (memory st) K"
    and "bparm_rep st old" and "protected st old K"
    and "LocatePci sv fw = ((status, handles), fw1)" and "process_pci sv ht (st, fw) = Inr (st', fw')"
  shows "\<exists>new. pci_inv K (memory st) st' old new \<and>
    map bd_ids new = map dev_ids (filter general_dev (map (\<lambda>h. info (io_of h)) handles)) \<and>
    (\<exists>n\<in>set new. is_display (bd_class n) \<and> 0 < bd_seg n)"
proof -
  have inv: "pci_inv K (memory st) st old []" using assms(3,4) by (simp add: pci_inv_def)
  obtain vga fw2 where run: "process_handles sv ht 0 (st, fw1) handles = Inr (vga, st', fw2)"
    and vga: "vga \<noteq> 0" "rd16 (memory st') (vga + bd_rimg_seg) \<noteq> 0"
    using assms(5,6) by (auto simp: process_pci_def Let_def res_simps split: if_splits)
  obtain new where new: "pci_inv K (memory st) st' old ([] @ new)"
    "map bd_ids new = map dev_ids (filter general_dev (map (\<lambda>h. info (io_of h)) handles))"
    "vga = 0 \<or> (\<exists>n\<in>set ([] @ new). vga = bn_addr n + 16 \<and> is_display (bd_class n))"
    using process_handles_inv [OF assms(1,2) inv _ run] by blast
  then obtain n where n: "n \<in> set new" "vga = bn_addr n + 16" "is_display (bd_class n)" using vga(1) by auto
  have "unat (rd16 (memory st') (bn_addr n + 28)) = bd_seg n"
    using new(1) n(1) by (intro bd_seg_rd16 [where ns = "old @ new"]) (auto simp: pci_inv_def)
  moreover have "0 < unat (rd16 (memory st') (bn_addr n + 28))"
    using vga(2) unfolding n(2) dev_offsets by (simp add: unat_gt_0)
  ultimately have "0 < bd_seg n" by simp
  then show ?thesis using new n by (intro exI [of _ new]) auto
qed

subsection \<open>Properties\<close>

text \<open>
  C5. If \<^verbatim>\<open>process_pci\<close> returns, it has appended one \<^verbatim>\<open>PCID\<close> boot parameter for each general device,
  in the order of the firmware's handles, with the device's location, id and class; the parameters
  that were there are as before. Every device that names an image of at most 1 MiB has a whole
  image there (signature and checksum), outside free memory and outside the list; images already
  placed are not overwritten by later ones. One of the devices is a display controller with an
  image. The firmware's own images must lie outside the memory being handed out.
\<close>

theorem process_pci_correct:
  assumes "fw_steady sv io_of info" and "firmware_roms sv ht (memory st) K"
    and "bparm_rep st old" and "protected st old K"
    and "LocatePci sv fw = ((status, handles), fw1)" and "process_pci sv ht (st, fw) = Inr (st', fw')"
  shows "\<exists>new. bparm_rep st' (old @ new) \<and>
    map bd_ids new = map dev_ids (filter general_dev (map (\<lambda>h. info (io_of h)) handles)) \<and>
    (\<forall>n\<in>set new. bn_type n = BP_PCID \<and> has_rom st' (old @ new) n) \<and>
    (\<exists>n\<in>set new. is_display (bd_class n) \<and> 0 < bd_seg n)"
  using process_pci_new [OF assms] unfolding pci_inv_def by blast

text \<open>
  C30. The scan of the six base address registers reads them as the PCI specification lays them
  out; its check for a 64-bit address without an upper half never fires, so such an address in
  the last register makes the scan read behind the array.
\<close>

theorem scan_bars_correct:
  assumes "length bars = 6"
  shows "scan_bars bars 0 = parse_bars bars \<and> scan_bars bars 0 \<noteq> Inl (Error ''bogus 64-bit PCI BAR'')"
proof -
  have "parse_bars bs \<noteq> Inl (Error ''bogus 64-bit PCI BAR'')" for bs
    by (induction bs rule: parse_bars.induct) auto
  then show ?thesis using scan_bars_parse [OF assms, of 0] by simp
qed

theorem scan_bars_correct_witness:
  "length [0, 0, 0xfe00000c, 1, 0xc001, 0xfe000004 :: u32] = 6 \<and>
   scan_bars [0, 0, 0xfe00000c, 1, 0xc001, 0xfe000004] 0 = Inl Out_of_bounds"
  using scan_bars_correct [of "[0, 0, 0xfe00000c, 1, 0xc001, 0xfe000004]"]
  by (simp add: bar_bad_def)

subsection \<open>A machine with one display controller\<close>

definition pci_ex :: "(unit, unit, unit) pci_services" where
  "pci_ex = \<lparr> LocatePci = (\<lambda>fw. ((0, [()]), fw)), HandlePci = (\<lambda>fw h. ((0, ()), fw)),
     GetLocation = (\<lambda>fw io. ((0, 0, 0, 2, 0), fw)), AttributesGet = (\<lambda>fw io. ((0, 0x18), fw)),
     AttributesSupported = (\<lambda>fw io. ((0, 0x18), fw)), AttributesEnable = (\<lambda>fw io a. (0, fw)),
     PciRead = (\<lambda>fw io off n. ((0, if off = 0 then [0x12348086, 0, 0x03000000, 0] else [0, 0, 0, 0, 0, 0]), fw)),
     RomImage = (\<lambda>io. 0x200000), RomSize = (\<lambda>io. 512), FreeHandles = id \<rparr>"

definition pci_info_ex :: pci_info where
  "pci_info_ex = \<lparr> pi_locn = (0, 0, 2, 0), pi_conf = [0x12348086, 0, 0x03000000, 0] \<rparr>"

definition pci_bm :: bmem_state where
  "pci_bm = \<lparr> num_blks = Suc 0,
     blk = \<lparr> blk_start = 0x1000, blk_end = 0x9f000, blk_orig_end = 0x9f000 \<rparr>
           # replicate 127 \<lparr> blk_start = 0, blk_end = 0, blk_orig_end = 0 \<rparr>,
     boottime_bmem_bot = 0x1000, runtime_bmem_top = 0x9f000, bmem_uefi_attr = 8 \<rparr>"

definition pci_st :: bparm_state where
  "pci_st = \<lparr> bmem = pci_bm, memory = put_bytes (\<lambda>_. 0xff) 0x200000 rimg_ex, bp_head = 0, bp_tail = 0 \<rparr>"

definition pci_kept :: "nat set" where
  "pci_kept = {0xc0000..<0x100000} \<union> {0x200000..<0x200200}"

lemma pci_ex_steady: "fw_steady pci_ex (\<lambda>_. ()) (\<lambda>_. pci_info_ex)"
  by (simp add: fw_steady_def pci_ex_def pci_info_ex_def)

lemma pci_ex_roms: "firmware_roms pci_ex ht_empty m pci_kept"
  by (auto simp: firmware_roms_def pci_ex_def pci_kept_def cache_placed_def ht_empty_ok ht_empty_lookup)

lemma pci_ex_rep: "bparm_rep pci_st []" and pci_ex_protected: "protected pci_st [] pci_kept"
proof -
  have live: "live pci_bm = [\<lparr> blk_start = 0x1000, blk_end = 0x9f000, blk_orig_end = 0x9f000 \<rparr>]"
    by (simp add: live_def pci_bm_def)
  have "bmem_wf pci_bm"
    by (simp add: bmem_wf_def live blks_wf_def blk_ok_def EFI_PAGE_SIZE_def)
      (simp add: pci_bm_def MAX_BMEM_BLKS_def)
  then show "bparm_rep pci_st []" by (simp add: bparm_rep_def pci_st_def)
  have "bmem_free pci_bm = {0x1000..<0x9f000}" by (simp add: bmem_free_def blks_free_def blk_bytes_def live)
  then show "protected pci_st [] pci_kept" by (auto simp: protected_def pci_st_def pci_kept_def)
qed


lemma pci_ex_rimg:
  "rimg_find_pcir rimg_ex 512 = Inr (Some 28)" "arr_get rimg_ex 48 = Inr 0" "buf16 rimg_ex 44 = Inr 1"
  "arr_get rimg_ex 40 = Inr 3" "buf16 rimg_ex 50 = Inr 1"
proof -
  show "rimg_find_pcir rimg_ex 512 = Inr (Some 28)"
    using rimg_find_pcir_Some [of 512 rimg_ex 28] rimg_ex_image rimg_ex_length by simp
  show "arr_get rimg_ex 48 = Inr 0" "arr_get rimg_ex 40 = Inr 3"
    using rimg_ex_length by (simp_all add: rimg_ex_def rimg_ex_head_def)
  show "buf16 rimg_ex 44 = Inr 1" "buf16 rimg_ex 50 = Inr 1"
    using rimg_ex_length by (simp_all add: buf16_ok rimg_ex_take rimg_ex_head_def)
qed

lemma pci_ex_image:
  assumes at: "at_dev st ns a" and ap: "apart st ns a {0x200000..<0x200200}"
    and rom: "get_bytes (memory st) 0x200000 512 = rimg_ex" and al: "bmem_alloc (bmem st) 512 0x800 = Inr (0x9e800, bm)"
  shows "\<exists>st'. get_rimg_from_pci_io pci_ex st (a + 16) () = Inr st' \<and> rd16 (memory st') (a + 28) \<noteq> 0 \<and>
    bmem st' = bm"
proof -
  let ?st = "no_rimg st (a + 16)" and ?st1 = "poke32 (no_rimg st (a + 16)) (a + 32) 512"
  note none = no_rimg_step(1) [OF at]
  have one: "dev_step st ns a ?st1"
    by (rule dev_step_trans [OF none poke_step(3) [OF dev_step_at [OF none]]])
  have keep: "get_bytes (memory st') 0x200000 512 = rimg_ex" if "dev_step st ns a st'" for st'
    unfolding rom [symmetric] by (rule get_bytes_cong) (rule apart_step(2) [OF that ap], simp)
  have al1: "bmem_alloc (bmem ?st) 512 0x800 = Inr (0x9e800, bm)"
    using al by (simp add: no_rimg_def poke_memory)
  have "\<exists>st'. get_rimg_copy ?st1 (a + 16) (\<lambda>m. get_bytes m 0x200000 512) 512 = Inr st' \<and> rd16 (memory st') (a + 28) \<noteq> 0 \<and>
      bmem st' = bm"
    by (simp add: get_rimg_copy_def alloc_aligns al1 memcpy_rimg_def Let_def dev_offsets poke_memory)
      (simp add: addr_to_rm_seg_def PARA_SIZE_def)
  then show ?thesis
    by (simp add: get_rimg_from_pci_io_def pci_ex_def Let_def keep [OF none] keep [OF one] pci_ex_rimg pcir_offsets
        PCIR_TYP_PCAT_def HKIBYTE_def get_rimg_def dev_offsets)
qed

definition pci_bm_after :: bmem_state where
  "pci_bm_after = \<lparr> num_blks = Suc 0,
     blk = \<lparr> blk_start = 0x1024, blk_end = 0x9e800, blk_orig_end = 0x9f000 \<rparr>
           # replicate 127 \<lparr> blk_start = 0, blk_end = 0, blk_orig_end = 0 \<rparr>,
     boottime_bmem_bot = 0x1024, runtime_bmem_top = 0x9e800, bmem_uefi_attr = 8 \<rparr>"

lemma pci_ex_run: "\<exists>st'. process_pci pci_ex ht_empty (pci_st, ()) = Inr (st', ()) \<and> bmem st' = pci_bm_after"
proof -
  have al: "bmem_alloc_boottime pci_bm 36 8 = Inr (0x1000, pci_bm\<lparr> boottime_bmem_bot := 0x1024,
      blk := (blk pci_bm)[0 := \<lparr> blk_start = 0x1024, blk_end = 0x9f000, blk_orig_end = 0x9f000 \<rparr>] \<rparr>)" (is "_ = Inr (_, ?bm)")
    by (simp add: bmem_alloc_boottime_def bmem_alloc_boottime_from.simps pci_bm_def Let_def)
  have al2: "bmem_alloc ?bm 512 0x800 = Inr (0x9e800, pci_bm_after)"
    by (simp add: bmem_alloc_def pci_bm_def pci_bm_after_def Let_def)
  obtain st1 where add: "bparm_add pci_st BP_PCID sizeof_pci_dev = Inr (0x1010, st1)" and bm: "bmem st1 = ?bm"
    using al by (simp add: bparm_add_def sizeof_bparm_def sizeof_pci_dev_def pci_st_def Let_def)
  obtain a where a: "unat (0x1010 :: u64) = a + 16" and at1: "at_dev st1 [] a"
    and kept: "\<And>R. protected pci_st [] R \<Longrightarrow> apart st1 [] a R \<and> (\<forall>i\<in>R. memory st1 i = memory pci_st i)"
    using bparm_add_dev [OF pci_ex_rep add] by metis
  let ?R = "{0x200000..<0x200200}"
  have "protected pci_st [] ?R" using pci_ex_protected by (auto simp: protected_def pci_kept_def)
  note R = kept [OF this]
  let ?st = "dev_fill st1 a (pci_locn 0 0 2 0) 0x12348086 0x03000000"
  have "get_bytes (memory ?st) 0x200000 512 = get_bytes (memory pci_st) 0x200000 512"
  proof (rule get_bytes_cong)
    fix i :: nat assume "0x200000 \<le> i" "i < 0x200000 + 512"
    then have i: "i \<in> ?R" by simp
    then have "i \<notin> {a..<a + 36}" using R by (auto simp: apart_def)
    then have "i \<notin> {a + 16..<a + 28}" by auto
    from dev_fill_outside [OF this] show "memory ?st i = memory pci_st i" using R i by simp
  qed
  also have "\<dots> = rimg_ex" by (simp add: pci_st_def rimg_ex_length)
  finally have rom: "get_bytes (memory ?st) 0x200000 512 = rimg_ex" .
  have "bmem_alloc (bmem ?st) 512 0x800 = Inr (0x9e800, pci_bm_after)" using al2 by (simp only: bm dev_fill_bmem)
  from pci_ex_image [OF dev_fill_at [OF at1] dev_fill_apart [OF R [THEN conjunct1]] rom this]
  obtain st2 where img: "get_rimg_from_pci_io pci_ex ?st (a + 16) () = Inr st2" "rd16 (memory st2) (a + 28) \<noteq> 0"
    and after: "bmem st2 = pci_bm_after" by blast
  have a0: "a = 0x1000" using a by simp
  have bars: "scan_bars [0, 0, 0, 0, 0, 0] 0 = Inr ()" by (simp add: scan_bars.simps)
  have one: "process_one_pci_io pci_ex ht_empty (pci_st, ()) () True = Inr (0x1010, st2, ())"
    using add img a0
    by (simp add: process_one_pci_io_def find_dev_rimg_def pci_ex_def Let_def bd_offsets dev_fill_def
        enable_legacy_vga_def EFI_ERROR_def EFI_PCI_ATTRIBUTE_VGA_MEMORY_def EFI_PCI_ATTRIBUTE_VGA_IO_def
        EFI_PCI_ATTRIBUTE_VGA_IO_16_def arr_get_def bars)
  have h: "process_handles pci_ex ht_empty 0 (pci_st, ()) [()] = Inr (0x1010, st2, ())"
    using one by (simp add: pci_ex_def EFI_ERROR_def)
  have l: "LocatePci pci_ex () = ((0, [()]), ())" and "FreeHandles pci_ex () = ()" by (simp_all add: pci_ex_def)
  then have "process_pci pci_ex ht_empty (pci_st, ()) = Inr (st2, ())"
    using h img(2) a0 by (simp add: process_pci_def EFI_ERROR_def Let_def bd_offsets)
  then show ?thesis using after by blast
qed

theorem process_pci_correct_witness:
  "fw_steady pci_ex (\<lambda>_. ()) (\<lambda>_. pci_info_ex) \<and> firmware_roms pci_ex ht_empty (memory pci_st) pci_kept \<and>
   bparm_rep pci_st [] \<and> protected pci_st [] pci_kept \<and>
   (\<exists>st' n. process_pci pci_ex ht_empty (pci_st, ()) = Inr (st', ()) \<and> bparm_rep st' [n] \<and>
      bd_ids n = (0x10, 0x12348086, 0x03000000) \<and> 0 < bd_seg n \<and> has_rom st' [n] n)"
proof -
  obtain st' where run: "process_pci pci_ex ht_empty (pci_st, ()) = Inr (st', ())" using pci_ex_run by blast
  have l: "LocatePci pci_ex () = ((0, [()]), ())" by (simp add: pci_ex_def)
  obtain new where new: "bparm_rep st' ([] @ new)" "map bd_ids new = map dev_ids (filter general_dev [pci_info_ex])"
    "\<forall>n\<in>set new. bn_type n = BP_PCID \<and> has_rom st' ([] @ new) n" "\<exists>n\<in>set new. is_display (bd_class n) \<and> 0 < bd_seg n"
    using process_pci_correct [OF pci_ex_steady pci_ex_roms pci_ex_rep pci_ex_protected l run] by auto
  have "general_dev pci_info_ex" by (simp add: general_dev_def pci_info_ex_def)
  moreover have "dev_ids pci_info_ex = (0x10, 0x12348086, 0x03000000)"
    by (simp add: dev_ids_def pci_info_ex_def pci_locn_def)
  ultimately obtain n where "new = [n]" "bd_ids n = (0x10, 0x12348086, 0x03000000)" using new(2) by auto
  then show ?thesis
    using new run pci_ex_steady pci_ex_roms pci_ex_rep pci_ex_protected by auto
qed

end
