(* ===== verification/Rom_Init.thy ===== *)
theory Rom_Init
  imports Pci_Process
begin

text \<open>
  The initialisation of option ROMs in \<^verbatim>\<open>stage2/main.c\<close>: stage 2 walks the boot parameters and
  calls the image of each device through the real-mode interface, the display controllers first.
  Real-mode code is a parameter: it may do anything to memory.
\<close>

unbundle bit_operations_syntax

subsection \<open>Calls into real mode\<close>

record rm16_regs =
  r_eax :: u32
  r_edx :: u32
  r_ecx :: u32
  r_ebx :: u32
  r_callee :: u32

definition MK_FP16 :: "u16 \<Rightarrow> u16 \<Rightarrow> u32" where
  "MK_FP16 seg off = push_bit 16 (ucast seg) OR ucast off"

text \<open>Memory, and the calls made so far.\<close>

type_synonym rm_state = "mem \<times> rm16_regs list"

definition rm16_call :: "(rm16_regs \<Rightarrow> mem \<Rightarrow> mem) \<Rightarrow> rm16_regs \<Rightarrow> rm_state \<Rightarrow> rm_state" where
  "rm16_call rm regs s = (rm regs (fst s), snd s @ [regs])"

subsection \<open>One parameter, all parameters\<close>

definition rimg_init_one :: "(rm16_regs \<Rightarrow> mem \<Rightarrow> mem) \<Rightarrow> bool \<Rightarrow> nat \<Rightarrow> rm_state \<Rightarrow> rm_state" where
  "rimg_init_one rm init_vga bp s =
     (if rd32 (fst s) (bp + 8) \<noteq> BP_PCID then s
      else
        let pd = bp + sizeof_bparm;
            class = rd32 (fst s) (pd + bd_class_if) AND 0xffff0000;
            do_init = (if class = 0x03000000 \<or> class = 0x03010000 then init_vga else \<not> init_vga) in
        if \<not> do_init then s
        else
          let rimg_seg = rd16 (fst s) (pd + bd_rimg_seg) in
          if rimg_seg = 0 then s
          else rm16_call rm \<lparr> r_eax = rd32 (fst s) (pd + bd_pci_locn), r_edx = 0, r_ecx = 0,
                 r_ebx = ucast (rd16 (fst s) (pd + bd_rimg_rt_seg)), r_callee = MK_FP16 rimg_seg 0x0003 \<rparr> s)"

text \<open>The pointer to the next parameter is read when the call has returned.\<close>

partial_function (option) rimg_init :: "(rm16_regs \<Rightarrow> mem \<Rightarrow> mem) \<Rightarrow> bool \<Rightarrow> u32 \<Rightarrow> rm_state \<Rightarrow> rm_state option" where
  "rimg_init rm init_vga bp s =
     (if bp = 0 then Some s
      else let s' = rimg_init_one rm init_vga (unat bp) s in
        rimg_init rm init_vga (rd32 (fst s') (unat bp)) s')"

definition hello :: "(rm16_regs \<Rightarrow> mem \<Rightarrow> mem) \<Rightarrow> u16 \<Rightarrow> u16 \<Rightarrow> rm_state \<Rightarrow> rm_state" where
  "hello rm rm16_cs hello16 s =
     rm16_call rm \<lparr> r_eax = 0, r_edx = 0, r_ecx = 0, r_ebx = 0, r_callee = MK_FP16 rm16_cs hello16 \<rparr> s"

text \<open>The end of \<^verbatim>\<open>stage2_main\<close>, before it halts.\<close>

definition run_roms ::
  "(rm16_regs \<Rightarrow> mem \<Rightarrow> mem) \<Rightarrow> u16 \<Rightarrow> u16 \<Rightarrow> u32 \<Rightarrow> rm_state \<Rightarrow> rm_state option" where
  "run_roms rm rm16_cs hello16 bparms s =
     Option.bind (rimg_init rm True bparms s) (\<lambda>s1.
       rimg_init rm False bparms (hello rm rm16_cs hello16 s1))"

subsection \<open>What is called\<close>

definition rom_call :: "bnode \<Rightarrow> rm16_regs" where
  "rom_call n = \<lparr> r_eax = bd_locn n, r_edx = 0, r_ecx = 0,
     r_ebx = ucast (le_word (take 2 (drop 14 (bn_data n))) :: u16),
     r_callee = MK_FP16 (le_word (take 2 (drop 12 (bn_data n)))) 3 \<rparr>"

definition is_dev :: "bnode \<Rightarrow> bool" where
  "is_dev n \<longleftrightarrow> bn_type n = BP_PCID \<and> bd_seg n \<noteq> 0"

text \<open>Real-mode code that leaves the boot parameters alone.\<close>

definition keeps_params :: "(rm16_regs \<Rightarrow> mem \<Rightarrow> mem) \<Rightarrow> bnode list \<Rightarrow> bool" where
  "keeps_params rm ns \<longleftrightarrow> (\<forall>regs m. \<forall>n\<in>set ns. \<forall>i\<in>bn_bytes n. rm regs m i = m i)"

definition params_len :: "bnode list \<Rightarrow> bool" where
  "params_len ns \<longleftrightarrow> (\<forall>n\<in>set ns. bn_type n = BP_PCID \<longrightarrow> length (bn_data n) = 20)"

lemma rom_fields:
  assumes "node_ok m n x" and "length (bn_data n) = 20"
  shows "rd32 m (bn_addr n + 16) = bd_locn n" "rd32 m (bn_addr n + 24) = bd_class n"
    "rd16 m (bn_addr n + 28) = le_word (take 2 (drop 12 (bn_data n)))"
    "rd16 m (bn_addr n + 30) = le_word (take 2 (drop 14 (bn_data n)))"
proof -
  have d: "bn_data n = get_bytes m (bn_addr n + 16) 20" using assms by (simp add: node_ok_def sizeof_bparm_def)
  show "rd32 m (bn_addr n + 16) = bd_locn n" "rd32 m (bn_addr n + 24) = bd_class n"
    "rd16 m (bn_addr n + 28) = le_word (take 2 (drop 12 (bn_data n)))"
    "rd16 m (bn_addr n + 30) = le_word (take 2 (drop 14 (bn_data n)))"
    using get_bytes_part [of 0 4 20 m "bn_addr n + 16"] get_bytes_part [of 8 4 20 m "bn_addr n + 16"]
      get_bytes_part [of 12 2 20 m "bn_addr n + 16"] get_bytes_part [of 14 2 20 m "bn_addr n + 16"]
    by (simp_all add: bd_locn_def bd_class_def d rd32_def rd16_def add.assoc)
qed

definition todo :: "bool \<Rightarrow> bnode \<Rightarrow> bool" where
  "todo init_vga n \<longleftrightarrow> is_dev n \<and> is_display (bd_class n) = init_vga"

lemma rimg_init_one_node:
  assumes "node_ok m n x" and "bn_type n = BP_PCID \<Longrightarrow> length (bn_data n) = 20"
  shows "rimg_init_one rm v (bn_addr n) (m, cs) = (if todo v n then rm16_call rm (rom_call n) (m, cs) else (m, cs))"
proof (cases "bn_type n = BP_PCID")
  case True
  note f = rom_fields [OF assms(1) assms(2) [OF True]]
  have t: "rd32 m (bn_addr n + 8) = BP_PCID" using assms(1) True by (simp add: node_ok_def)
  have off: "bn_addr n + sizeof_bparm + bd_class_if = bn_addr n + 24" "bn_addr n + sizeof_bparm + bd_rimg_seg = bn_addr n + 28"
    "bn_addr n + sizeof_bparm + bd_pci_locn = bn_addr n + 16" "bn_addr n + sizeof_bparm + bd_rimg_rt_seg = bn_addr n + 30"
    by (simp_all add: sizeof_bparm_def bd_offsets)
  have z: "bd_seg n = 0 \<longleftrightarrow> le_word (take 2 (drop 12 (bn_data n))) = (0 :: u16)" by (simp add: bd_seg_def unat_eq_zero)
  show ?thesis
    unfolding rimg_init_one_def fst_conv t Let_def off f
    using True z by (auto simp: todo_def is_dev_def is_display_def rom_call_def)
next
  case False
  then show ?thesis using assms(1) by (simp add: rimg_init_one_def todo_def is_dev_def node_ok_def)
qed


subsection \<open>The walk\<close>

lemma rimg_init_nodes:
  "nodes_ok m ns \<Longrightarrow> params_len ns \<Longrightarrow> keeps_params rm all \<Longrightarrow> set ns \<subseteq> set all \<Longrightarrow>
     \<exists>m'. rimg_init rm v (ucast (next_of ns)) (m, cs) = Some (m', cs @ map rom_call (filter (todo v) ns)) \<and>
       (\<forall>n\<in>set all. \<forall>i\<in>bn_bytes n. m' i = m i)"
proof (induction ns arbitrary: m cs)
  case Nil
  show ?case by (simp add: rimg_init.simps)
next
  case (Cons n ns)
  define s' where "s' = (if todo v n then rm16_call rm (rom_call n) (m, cs) else (m, cs))"
  have kept: "fst s' i = m i" if "k \<in> set all" "i \<in> bn_bytes k" for k i
    using that Cons.prems(3) by (auto simp: s'_def rm16_call_def keeps_params_def)
  have ok: "nodes_ok (fst s') (n # ns)"
    by (rule nodes_ok_frame [OF Cons.prems(1)]) (use kept Cons.prems(4) in blast)
  have one: "rimg_init_one rm v (bn_addr n) (m, cs) = s'"
    unfolding s'_def by (rule rimg_init_one_node [where x = "next_of ns"]) (use Cons.prems(1,2) in \<open>auto simp: params_len_def\<close>)
  have nxt: "rd32 (fst s') (bn_addr n) = ucast (next_of ns)" using ok by (simp add: rd32_of_rd64 node_ok_def)
  have step: "rimg_init rm v (ucast (next_of (n # ns))) (m, cs) = rimg_init rm v (ucast (next_of ns)) (fst s', snd s')"
    using ucast_next_of [OF Cons.prems(1)] one nxt rimg_init.simps [of rm v "ucast (next_of (n # ns))" "(m, cs)"]
    by (simp add: Let_def)
  obtain m' where m': "rimg_init rm v (ucast (next_of ns)) (fst s', snd s') = Some (m', snd s' @ map rom_call (filter (todo v) ns))"
    "\<forall>k\<in>set all. \<forall>i\<in>bn_bytes k. m' i = fst s' i"
    using Cons.IH [of "fst s'" "snd s'"] ok Cons.prems by (auto simp: params_len_def)
  have "snd s' @ map rom_call (filter (todo v) ns) = cs @ map rom_call (filter (todo v) (n # ns))"
    by (simp add: s'_def rm16_call_def)
  then show ?case using step m' kept by auto
qed

definition hello_call :: "u16 \<Rightarrow> u16 \<Rightarrow> rm16_regs" where
  "hello_call rm16_cs hello16 = \<lparr> r_eax = 0, r_edx = 0, r_ecx = 0, r_ebx = 0, r_callee = MK_FP16 rm16_cs hello16 \<rparr>"

lemma run_roms_nodes:
  assumes ok: "nodes_ok m ns" and len: "params_len ns" and keeps: "keeps_params rm ns"
  shows "\<exists>m'. run_roms rm rm16_cs hello16 (ucast (next_of ns)) (m, []) =
    Some (m', map rom_call (filter (todo True) ns) @ [hello_call rm16_cs hello16] @ map rom_call (filter (todo False) ns))"
proof -
  obtain m1 where one: "rimg_init rm True (ucast (next_of ns)) (m, []) = Some (m1, map rom_call (filter (todo True) ns))"
    and k1: "\<forall>n\<in>set ns. \<forall>i\<in>bn_bytes n. m1 i = m i"
    using rimg_init_nodes [OF ok len keeps order_refl, of True "[]"] by auto
  let ?h = "hello_call rm16_cs hello16"
  have "nodes_ok (rm ?h m1) ns"
    by (rule nodes_ok_frame [OF ok]) (use k1 keeps in \<open>auto simp: keeps_params_def\<close>)
  from rimg_init_nodes [OF this len keeps order_refl, of False "map rom_call (filter (todo True) ns) @ [?h]"]
  show ?thesis using one by (auto simp: run_roms_def hello_def rm16_call_def hello_call_def)
qed

lemma todo_split: "mset (filter (todo True) ns @ filter (todo False) ns) = mset (filter is_dev ns)"
  by (induction ns) (auto simp: todo_def)

subsection \<open>Properties\<close>

text \<open>
  C8. Whatever real-mode code does, as long as it leaves the boot parameters alone, the two passes
  of stage 2 end, and they initialise every device with an image exactly once: first the display
  controllers, then the greeting, then all other devices, each group in the order of the
  parameters. Each call goes to offset 3 of the device's image segment with its location in eax
  and its run-time segment in ebx.
\<close>

theorem roms_initialised_once:
  assumes "bparm_list st ns" and "params_len ns" and "keeps_params rm ns"
  shows "\<exists>m' first rest. run_roms rm rm16_cs hello16 (ucast (bparm_get st)) (memory st, []) =
      Some (m', map rom_call first @ [hello_call rm16_cs hello16] @ map rom_call rest) \<and>
    first = filter (\<lambda>n. is_dev n \<and> is_display (bd_class n)) ns \<and>
    rest = filter (\<lambda>n. is_dev n \<and> \<not> is_display (bd_class n)) ns \<and> mset (first @ rest) = mset (filter is_dev ns)"
proof -
  have ok: "nodes_ok (memory st) ns" and head: "bparm_get st = next_of ns"
    using assms(1) by (auto simp: bparm_list_def bparm_get_def)
  have t: "todo True = (\<lambda>n. is_dev n \<and> is_display (bd_class n))" "todo False = (\<lambda>n. is_dev n \<and> \<not> is_display (bd_class n))"
    by (auto simp: todo_def)
  show ?thesis
    using run_roms_nodes [OF ok assms(2,3), of rm16_cs hello16] todo_split [of ns] unfolding head t by blast
qed

theorem roms_initialised_once_witness:
  "\<exists>st n m'. bparm_list st [n] \<and> params_len [n] \<and> keeps_params (\<lambda>regs m. m) [n] \<and>
     run_roms (\<lambda>regs m. m) 0x100 0x20 (ucast (bparm_get st)) (memory st, []) =
       Some (m', [rom_call n, hello_call 0x100 0x20])"
proof -
  obtain st fw where run: "process_pci pci_ex ht_empty (pci_st, ()) = Inr (st, fw)" using pci_ex_run by blast
  have l: "LocatePci pci_ex () = ((0, [()]), ())" by (simp add: pci_ex_def)
  obtain new where new: "pci_inv pci_kept (memory pci_st) st [] new"
    "map bd_ids new = map dev_ids (filter general_dev (map (\<lambda>h. pci_info_ex) [()]))"
    "\<exists>n\<in>set new. is_display (bd_class n) \<and> 0 < bd_seg n"
    using process_pci_new [OF pci_ex_steady pci_ex_roms pci_ex_rep pci_ex_protected l run] by blast
  have "general_dev pci_info_ex" by (simp add: general_dev_def pci_info_ex_def)
  then obtain n where n: "new = [n]" using new(2) by (auto simp: map_eq_Cons_conv)
  then have v: "is_display (bd_class n)" "0 < bd_seg n" using new(3) by simp_all
  have rep: "bparm_rep st [n]" and t: "bn_type n = BP_PCID" "length (bn_data n) = 20"
    using new(1) n by (auto simp: pci_inv_def)
  then have dev: "is_dev n" using v by (simp add: is_dev_def)
  have p: "params_len [n]" "keeps_params (\<lambda>regs m. m) [n]" using t by (simp_all add: params_len_def keeps_params_def)
  from roms_initialised_once [OF bparm_rep_list [OF rep] p, of "0x100" "0x20"] dev v(1)
  show ?thesis using bparm_rep_list [OF rep] p by fastforce
qed

end
