(* ===== verification/Rom_Handover.thy ===== *)
theory Rom_Handover
  imports Rom_Init Handover
begin

text \<open>
  Option ROMs across the two stages: the hand-over leaves the images that \<^verbatim>\<open>process_pci\<close> placed as
  they are, and stage 2 calls exactly these images.
\<close>

subsection \<open>What the hand-over does not touch\<close>

text \<open>Memory that is neither free nor in the list, and still as it was.\<close>

definition guarded :: "nat set \<Rightarrow> mem \<Rightarrow> bparm_state \<Rightarrow> bool" where
  "guarded K m st \<longleftrightarrow> (\<exists>ns. bparm_rep st ns \<and> protected st ns K) \<and> (\<forall>i\<in>K. memory st i = m i)"

lemma guarded_add:
  assumes g: "guarded K m st" and add: "bparm_add st type sz = Inr (p, st')"
  shows "guarded K m st'" and "K \<inter> {unat p..<unat p + unat sz} = {}"
proof -
  obtain ns where rep: "bparm_rep st ns" and K: "protected st ns K" and m: "\<forall>i\<in>K. memory st i = m i"
    using g unfolding guarded_def by blast
  obtain a where p: "unat p = a + sizeof_bparm"
    and rep': "bparm_rep st' (ns @ [\<lparr> bn_addr = a, bn_type = type, bn_data = replicate (unat sz) 0 \<rparr>])"
    and K': "protected st' (ns @ [\<lparr> bn_addr = a, bn_type = type, bn_data = replicate (unat sz) 0 \<rparr>]) K"
    and m': "\<forall>i\<in>K. memory st' i = memory st i"
    using bparm_add_frame [OF rep add] K by blast
  show "guarded K m st'" using rep' K' m m' unfolding guarded_def by auto
  show "K \<inter> {unat p..<unat p + unat sz} = {}"
    using K' unfolding protected_def p by (auto simp: bn_bytes_def)
qed

lemma guarded_add_mem_range:
  assumes g: "guarded K m st" and add: "bparm_add_mem_range st r = Inr (p, st')"
  shows "guarded K m st'"
proof (cases "mr_len r = 0")
  case True
  then show ?thesis using g add by (simp add: bparm_add_mem_range_def)
next
  case False
  obtain st1 where a1: "bparm_add st BP_MRNG sizeof_mem_range = Inr (p, st1)"
    and st': "st' = st1\<lparr> memory := wr_mem_range (memory st1) (unat p) r \<rparr>"
    using add False by (auto simp: bparm_add_mem_range_def res_simps)
  obtain ns where rep: "bparm_rep st ns" and K: "protected st ns K" and m: "\<forall>i\<in>K. memory st i = m i"
    using g unfolding guarded_def by blast
  let ?n = "\<lambda>a. \<lparr> bn_addr = a, bn_type = BP_MRNG, bn_data = replicate (unat sizeof_mem_range) 0 \<rparr> :: bnode"
  let ?m = "wr_mem_range (memory st1) (unat p) r"
  obtain a where p: "unat p = a + sizeof_bparm" and rep1: "bparm_rep st1 (ns @ [?n a])"
    and K1: "protected st1 (ns @ [?n a]) K" and m1: "\<forall>i\<in>K. memory st1 i = memory st i"
    using bparm_add_frame [OF rep a1] K by blast
  have out: "?m i = memory st1 i" if "i \<notin> bn_data_bytes (?n a)" for i
    using that by (auto simp: wr_mem_range_eq put_bytes_def bn_data_bytes_def p sizeof_mem_range_def)
  then have "bparm_rep st' (ns @ [filled ?m (?n a)])"
    using bparm_rep_fill [of st1 ns "?n a" "[]" ?m] rep1 st' by auto
  moreover have "protected st' (ns @ [filled ?m (?n a)]) K" using K1 by (simp add: protected_def st')
  moreover have "memory st' i = m i" if i: "i \<in> K" for i
  proof -
    have "i \<notin> bn_bytes (?n a)" using K1 i by (auto simp: protected_def)
    then have "i \<notin> bn_data_bytes (?n a)" by (auto simp: bn_bytes_def bn_data_bytes_def)
    then show ?thesis using out i m m1 by (simp add: st')
  qed
  ultimately show ?thesis unfolding guarded_def by blast
qed

lemma guarded_ext: "guarded K m st \<Longrightarrow> add_ext_mem_bparms st ds = Inr st' \<Longrightarrow> guarded K m st'"
  by (induction st ds rule: add_ext_mem_bparms.induct)
    (auto simp: Let_def res_simps dest: guarded_add_mem_range split: if_splits)

lemma guarded_uefi: "guarded K m st \<Longrightarrow> add_uefi_mem_bparms st ds = Inr st' \<Longrightarrow> guarded K m st'"
  by (induction st ds rule: add_uefi_mem_bparms.induct)
    (auto simp: Let_def res_simps dest: guarded_add_mem_range split: if_splits option.splits)

lemma guarded_our_blks: "guarded K m st \<Longrightarrow> add_our_blks st i = Inr st' \<Longrightarrow> guarded K m st'"
proof (induction st i rule: add_our_blks.induct)
  case (1 st i)
  show ?case
  proof (cases "i < num_blks (bmem st)")
    case True
    obtain b p1 st1 p2 st2 where b: "arr_get (blk (bmem st)) i = Inr b"
      and r1: "bparm_add_mem_range st
        (our_range (blk_start b) (blk_end b - blk_start b) E820_RAM (bmem_uefi_attr (bmem st))) = Inr (p1, st1)"
      and r2: "bparm_add_mem_range st1
        (our_range (blk_end b) (blk_orig_end b - blk_end b) E820_RESERVED (bmem_uefi_attr (bmem st1))) = Inr (p2, st2)"
      and rest: "add_our_blks st2 (Suc i) = Inr st'"
      using 1(3) True by (subst (asm) add_our_blks.simps) (auto simp: res_simps)
    have "guarded K m st2" using guarded_add_mem_range [OF guarded_add_mem_range [OF 1(2) r1] r2] .
    then show ?thesis using 1(1) [OF True b r1, of "(p2, st2)"] r2 rest by simp
  next
    case False
    then show ?thesis using 1(2) 1(3) [unfolded add_our_blks.simps [of st i]] by simp
  qed
qed

lemma hand_over_guarded:
  assumes rep: "bparm_rep st ns" and K: "protected st ns K" and run: "prepare_to_hand_over mm status st = Inr (kib, st')"
    and i: "i \<in> K"
  shows "memory st' i = memory st i"
proof -
  obtain descs st1 bd st2 bbot rtop st3 where ext: "add_ext_mem_bparms st descs = Inr st1"
    and add: "bparm_add st1 BP_BMEM sizeof_bdat_bmem = Inr (bd, st2)"
    and fini: "bmem_fini st2 descs = Inr (bbot, rtop, st3)"
    and st': "st' = st3\<lparr> memory := wr_bdat_bmem (memory st3) (unat bd)
        (addr_to_rm_seg (ucast bbot)) (addr_to_rm_seg (ucast rtop)) \<rparr>"
    using run by (auto simp: prepare_to_hand_over_def res_simps Let_def split: if_split_asm)
  obtain st4 p st5 j st6 where uefi: "add_uefi_mem_bparms st2 descs = Inr st4"
    and first: "bparm_add_mem_range st4
        (our_range 0 (runtime_bmem_top (bmem st4)) E820_RAM (bmem_uefi_attr (bmem st4))) = Inr (p, st5)"
    and our: "add_our_blks st5 j = Inr st6" and st3: "memory st3 = memory st6"
    using fini by (auto simp: bmem_fini_def add_our_mem_bparms_def res_simps Let_def)
  have "guarded K (memory st) st" using rep K unfolding guarded_def by blast
  from guarded_ext [OF this ext] have g1: "guarded K (memory st) st1" .
  note g2 = guarded_add [OF g1 add]
  have "guarded K (memory st) st6"
    by (rule guarded_our_blks [OF guarded_add_mem_range [OF guarded_uefi [OF g2(1) uefi] first] our])
  then have "memory st3 i = memory st i" using i st3 by (simp add: guarded_def)
  moreover have "i \<notin> {unat bd..<unat bd + 4}" using g2(2) i by (auto simp: sizeof_bdat_bmem_def)
  ultimately show ?thesis by (auto simp: st' wr_bdat_bmem_eq put_bytes_def)
qed

subsection \<open>From the devices to the calls\<close>

text \<open>The devices that stage 2 finds in the list are those that \<^verbatim>\<open>process_pci\<close> added.\<close>

lemma handed_over_devices:
  assumes rep: "bparm_rep st (old @ new)" and old: "\<forall>n\<in>set old. bn_type n \<noteq> BP_PCID"
    and len: "\<forall>n\<in>set new. length (bn_data n) = 20"
    and run: "prepare_to_hand_over mm status st = Inr (kib, st')"
  shows "\<exists>ns. bparm_list st' ns \<and> params_len ns \<and> filter is_dev ns = filter is_dev new"
proof -
  obtain descs ext bm base rs where l: "bparm_list st' ((old @ new) @ ext @ bm # base)"
    and e: "list_all2 mrng_node ext (nonempty (concat (map ext_range descs)))"
    and b: "list_all2 mrng_node base (nonempty (concat (map uefi_range descs)) @ nonempty rs)"
    and bm: "\<exists>x y. bmem_node bm x y"
    using hand_over_list [OF rep run] by blast
  have mrng: "\<forall>n\<in>set ms. bn_type n = BP_MRNG" if "list_all2 mrng_node ms qs" for ms qs
    using that by (induction rule: list_all2_induct) (auto simp: mrng_node_def)
  have other: "\<forall>n\<in>set (old @ ext @ bm # base). bn_type n \<noteq> BP_PCID"
    using old mrng [OF e] mrng [OF b] bm
    by (auto simp: bmem_node_def BP_MRNG_def BP_PCID_def BP_BMEM_def MAGIC32_def)
  then have none: "filter is_dev old = []" "filter is_dev (ext @ bm # base) = []"
    by (auto simp: filter_empty_conv is_dev_def)
  have "filter is_dev ((old @ new) @ ext @ bm # base) = filter is_dev new"
    using none by simp
  moreover have "params_len ((old @ new) @ ext @ bm # base)"
    using other len unfolding params_len_def by auto
  ultimately show ?thesis using l by blast
qed

text \<open>The hand-over of the machine with one display controller.\<close>

lemma pci_ex_hand_over:
  "bmem st = pci_bm_after \<Longrightarrow> \<exists>kib st'. prepare_to_hand_over (Some hand_over_map) 0 st = Inr (kib, st')"
  by (simp add: prepare_to_hand_over_def get_mem_map_def hand_over_map_def pci_bm_after_def
      bmem_alloc_boottime_def bmem_alloc_boottime_from.simps bparm_add_def bparm_add_mem_range_def Let_def
      bmem_fini_def add_our_mem_bparms_def add_our_blks.simps skip_blks.simps our_range_def
      uefi_e820_type_def is_boot_or_free_type_def EfiLoaderCode_def EfiLoaderData_def EfiBootServicesCode_def
      EfiBootServicesData_def EfiConventionalMemory_def EfiACPIReclaimMemory_def EfiACPIMemoryNVS_def
      EfiPersistentMemory_def EfiPalCode_def BMEM_MAX_ADDR_def EFI_PAGE_SIZE_def sizeof_bparm_def
      sizeof_mem_range_def sizeof_bdat_bmem_def bmem_check_enough_def KIBYTE_def PARA_SIZE_def EFI_ERROR_def)

text \<open>
  C2. Option ROMs across the two stages: when stage 1 has gone over the PCI devices and handed
  over, stage 2, started on any memory that has the boot parameters as they were then (and with
  real-mode code that leaves them alone), ends its two passes, having called exactly the images of
  the devices that the firmware lists and stage 1 found an image for, once each and the display
  controllers, of which there is at least one, first; and the hand-over has left every such image
  of at most 1 MiB whole in memory. The firmware's own images must lie outside the memory that is
  handed out.
\<close>

theorem option_roms_end_to_end:
  assumes "fw_steady sv io_of info" and "firmware_roms sv ht (memory st) K"
    and "bparm_rep st old" and "protected st old K" and "\<forall>n\<in>set old. bn_type n \<noteq> BP_PCID"
    and "LocatePci sv fw = ((status, handles), fw1)" and "process_pci sv ht (st, fw) = Inr (st1, fw')"
    and "prepare_to_hand_over mm exit_status st1 = Inr (kib, st2)"
    and "\<And>ns n i. bparm_list st2 ns \<Longrightarrow> n \<in> set ns \<Longrightarrow> i \<in> bn_bytes n \<Longrightarrow> m i = memory st2 i"
    and "\<And>ns. bparm_list st2 ns \<Longrightarrow> keeps_params rm ns"
  shows "\<exists>new m' first rest.
    map bd_ids new = map dev_ids (filter general_dev (map (\<lambda>h. info (io_of h)) handles)) \<and>
    run_roms rm rm16_cs hello16 (ucast (bparm_get st2)) (m, []) =
      Some (m', map rom_call first @ [hello_call rm16_cs hello16] @ map rom_call rest) \<and>
    first = filter (\<lambda>n. is_dev n \<and> is_display (bd_class n)) new \<and> first \<noteq> [] \<and>
    rest = filter (\<lambda>n. is_dev n \<and> \<not> is_display (bd_class n)) new \<and>
    (\<forall>n\<in>set (first @ rest). bd_sz n \<le> 0x100000 \<longrightarrow>
       is_rom (get_bytes (memory st2) (16 * bd_seg n) (bd_sz n)))"
proof -
  obtain new where inv: "pci_inv K (memory st) st1 old new"
    and ids: "map bd_ids new = map dev_ids (filter general_dev (map (\<lambda>h. info (io_of h)) handles))"
    and vga: "\<exists>n\<in>set new. is_display (bd_class n) \<and> 0 < bd_seg n"
    using process_pci_new [OF assms(1-4,6,7)] by blast
  have rep: "bparm_rep st1 (old @ new)" and new: "\<forall>n\<in>set new. bn_type n = BP_PCID \<and> length (bn_data n) = 20 \<and>
      has_rom st1 (old @ new) n" using inv by (simp_all add: pci_inv_def)
  obtain ns where l: "bparm_list st2 ns" and len: "params_len ns" and dev: "filter is_dev ns = filter is_dev new"
    using handed_over_devices [OF rep assms(5) _ assms(8)] new by blast
  have "nodes_ok m ns" using l assms(9) [OF l] nodes_ok_frame [of "memory st2" ns m] by (auto simp: bparm_list_def)
  note run = run_roms_nodes [OF this len assms(10) [OF l], of rm16_cs hello16]
  have todo: "filter (todo v) ns = filter (\<lambda>n. is_dev n \<and> is_display (bd_class n) = v) new" for v
  proof -
    have "filter (todo v) ns = filter (\<lambda>n. is_display (bd_class n) = v) (filter is_dev ns)"
      unfolding filter_filter todo_def by (rule filter_cong) auto
    also have "\<dots> = filter (\<lambda>n. is_dev n \<and> is_display (bd_class n) = v) new"
      unfolding dev filter_filter by (rule filter_cong) auto
    finally show ?thesis .
  qed
  have rom: "is_rom (get_bytes (memory st2) (16 * bd_seg n) (bd_sz n))"
    if n: "n \<in> set new" "is_dev n" "bd_sz n \<le> 0x100000" for n
  proof -
    have r: "is_rom (get_bytes (memory st1) (16 * bd_seg n) (bd_sz n))" and p: "protected st1 (old @ new) (bd_rom n)"
      using new n by (auto simp: has_rom_def is_dev_def)
    have "get_bytes (memory st2) (16 * bd_seg n) (bd_sz n) = get_bytes (memory st1) (16 * bd_seg n) (bd_sz n)"
      by (rule get_bytes_cong, rule hand_over_guarded [OF rep p assms(8)]) (simp add: bd_rom_def)
    then show ?thesis using r by simp
  qed
  let ?first = "filter (\<lambda>n. is_dev n \<and> is_display (bd_class n)) new"
  have "?first \<noteq> []" using vga new by (auto simp: filter_empty_conv is_dev_def)
  moreover have "\<forall>n\<in>set (?first @ filter (\<lambda>n. is_dev n \<and> \<not> is_display (bd_class n)) new). bd_sz n \<le> 0x100000 \<longrightarrow>
      is_rom (get_bytes (memory st2) (16 * bd_seg n) (bd_sz n))" using rom by auto
  moreover have "next_of ns = bparm_get st2" using l by (simp add: bparm_list_def bparm_get_def)
  ultimately show ?thesis using run ids unfolding todo by auto
qed

theorem option_roms_end_to_end_witness:
  "\<exists>st1 kib st2 m' n. process_pci pci_ex ht_empty (pci_st, ()) = Inr (st1, ()) \<and>
     prepare_to_hand_over (Some hand_over_map) 0 st1 = Inr (kib, st2) \<and>
     run_roms (\<lambda>regs m. m) 0x100 0x20 (ucast (bparm_get st2)) (memory st2, []) =
       Some (m', [rom_call n, hello_call 0x100 0x20]) \<and> bd_ids n = (0x10, 0x12348086, 0x03000000)"
proof -
  obtain st1 where run: "process_pci pci_ex ht_empty (pci_st, ()) = Inr (st1, ())" and bm: "bmem st1 = pci_bm_after"
    using pci_ex_run by blast
  obtain kib st2 where hand: "prepare_to_hand_over (Some hand_over_map) 0 st1 = Inr (kib, st2)"
    using pci_ex_hand_over [OF bm] by blast
  have l: "LocatePci pci_ex () = ((0, [()]), ())" by (simp add: pci_ex_def)
  have old: "\<forall>n\<in>set []. bn_type n \<noteq> BP_PCID" by simp
  have keeps: "keeps_params (\<lambda>regs m. m) ns" for ns by (simp add: keeps_params_def)
  obtain new m' where new: "map bd_ids new = map dev_ids (filter general_dev (map (\<lambda>h. pci_info_ex) [()]))"
    and calls: "run_roms (\<lambda>regs m. m) 0x100 0x20 (ucast (bparm_get st2)) (memory st2, []) =
      Some (m', map rom_call (filter (\<lambda>n. is_dev n \<and> is_display (bd_class n)) new) @ [hello_call 0x100 0x20] @
        map rom_call (filter (\<lambda>n. is_dev n \<and> \<not> is_display (bd_class n)) new))"
    and some: "filter (\<lambda>n. is_dev n \<and> is_display (bd_class n)) new \<noteq> []"
    using option_roms_end_to_end [OF pci_ex_steady pci_ex_roms pci_ex_rep pci_ex_protected old l run hand refl keeps,
        of "0x100" "0x20"] by blast
  have "general_dev pci_info_ex" by (simp add: general_dev_def pci_info_ex_def)
  moreover have "dev_ids pci_info_ex = (0x10, 0x12348086, 0x03000000)"
    by (simp add: dev_ids_def pci_info_ex_def pci_locn_def)
  ultimately obtain n where n: "new = [n]" "bd_ids n = (0x10, 0x12348086, 0x03000000)" using new by auto
  then have "is_dev n \<and> is_display (bd_class n)" using some by (simp split: if_splits)
  then show ?thesis using run hand calls n by auto
qed

end
