(* ===== verification/Mp_Table.thy ===== *)
theory Mp_Table
  imports Bparm
begin

text \<open>
  The multiprocessor tables that stage 1 makes up for Xv6 (\<^verbatim>\<open>mp.h\<close>, \<^verbatim>\<open>fake_mp_table\<close> in
  \<^verbatim>\<open>stage1/main.c\<close>): a temporary extended BIOS data area in boot-time base memory with the floating
  pointer, the configuration table header and one entry each for the processor and the I/O APIC.
  The processor's registers and memory-mapped devices are a parameter.
\<close>

unbundle bit_operations_syntax

subsection \<open>The processor and its devices\<close>

record 'd mp_hw =
  hw_msr :: "u32 \<Rightarrow> u32 \<times> u32"
  hw_cpuid :: "u32 \<Rightarrow> u32 \<times> u32 \<times> u32 \<times> u32"
  hw_read :: "u64 \<Rightarrow> 'd \<Rightarrow> u32 \<times> 'd"
  hw_write :: "u64 \<Rightarrow> u32 \<Rightarrow> 'd \<Rightarrow> 'd"

definition rdmsr :: "'d mp_hw \<Rightarrow> u32 \<Rightarrow> u64" where
  "rdmsr hw idx = (case hw_msr hw idx of (hi, lo) \<Rightarrow> push_bit 32 (ucast hi) OR ucast lo)"

definition cpuid :: "'d mp_hw \<Rightarrow> u32 \<Rightarrow> u32 \<times> u32 \<times> u32 \<times> u32" where
  "cpuid hw leaf = hw_cpuid hw leaf"

subsection \<open>Constants and sizes of mp.h\<close>

definition MP_FEAT1_IMCRP :: u8 where "MP_FEAT1_IMCRP = 0x80"
definition MP_CPU :: u8 where "MP_CPU = 0"
definition MP_CPU_EN :: u8 where "MP_CPU_EN = 0x01"
definition MP_CPU_BP :: u8 where "MP_CPU_BP = 0x02"
definition MP_IOAPIC :: u8 where "MP_IOAPIC = 2"
definition MP_IOAPIC_EN :: u8 where "MP_IOAPIC_EN = 0x01"
definition IOAPIC_ADDR :: u64 where "IOAPIC_ADDR = 0xfec00000"

definition sizeof_mp_flt :: nat where "sizeof_mp_flt = 16"
definition sizeof_mp_conf :: nat where "sizeof_mp_conf = 44"
definition sizeof_mp_cpu :: nat where "sizeof_mp_cpu = 12"
definition sizeof_mp_ioapic :: nat where "sizeof_mp_ioapic = 8"

text \<open>The packed bundle: 16 bytes of data area, then the four structures.\<close>

definition mp_flt :: nat where "mp_flt = 16"
definition mp_conf :: nat where "mp_conf = mp_flt + sizeof_mp_flt"
definition mp_cpu :: nat where "mp_cpu = mp_conf + sizeof_mp_conf"
definition mp_ioapic :: nat where "mp_ioapic = mp_cpu + sizeof_mp_cpu"
definition sizeof_mp_bundle :: nat where "sizeof_mp_bundle = mp_ioapic + sizeof_mp_ioapic"

lemmas mp_layout = sizeof_mp_flt_def sizeof_mp_conf_def sizeof_mp_cpu_def sizeof_mp_ioapic_def
  mp_flt_def mp_conf_def mp_cpu_def mp_ioapic_def sizeof_mp_bundle_def

definition oem_id :: "u8 list" where "oem_id = map of_char ''BOCHSCPU''"
definition prod_id :: "u8 list" where "prod_id = map of_char ''0.1         ''"

subsection \<open>Filling in the tables\<close>

definition fill_ebda :: "nat \<Rightarrow> mem \<Rightarrow> mem" where
  "fill_ebda u m = put_bytes (m(u := 1)) (u + 1) (replicate 15 0)"

definition fill_flt :: "nat \<Rightarrow> mem \<Rightarrow> mem" where
  "fill_flt u m =
     (let p = u + mp_flt;
          m = wr32 m p (MAGIC32 CHR ''_'' CHR ''M'' CHR ''P'' CHR ''_'');
          m = wr32 m (p + 4) (word_of_nat (u + mp_conf));
          m = m(p + 8 := word_of_nat sizeof_mp_flt);
          m = m(p + 9 := 4);
          m = m(p + 15 := 0, p + 14 := 0, p + 13 := 0, p + 11 := 0);
          m = m(p + 12 := MP_FEAT1_IMCRP)
      in update_cksum m p sizeof_mp_flt (p + 10))"

definition fill_conf :: "nat \<Rightarrow> u64 \<Rightarrow> mem \<Rightarrow> mem" where
  "fill_conf u lapic_addr m =
     (let p = u + mp_conf;
          m = wr32 m p (MAGIC32 CHR ''P'' CHR ''C'' CHR ''M'' CHR ''P'');
          m = wr16 m (p + 4) (word_of_nat (sizeof_mp_conf + sizeof_mp_cpu + sizeof_mp_ioapic));
          m = m(p + 6 := 4);
          m = put_bytes m (p + 8) oem_id;
          m = put_bytes m (p + 16) prod_id;
          m = wr32 m (p + 28) 0;
          m = wr16 m (p + 32) 0;
          m = wr16 m (p + 34) 2;
          m = wr32 m (p + 36) (ucast lapic_addr);
          m = wr16 m (p + 40) 0
      in m(p + 43 := 0, p + 42 := 0))"

definition fill_cpu :: "'d mp_hw \<Rightarrow> nat \<Rightarrow> u64 \<Rightarrow> mem \<times> 'd \<Rightarrow> mem \<times> 'd" where
  "fill_cpu hw u lapic = (\<lambda>(m, d).
     (let p = u + mp_cpu;
          m = m(p := MP_CPU);
          (lapic_id, d) = hw_read hw (lapic + 0x20) d;
          m = m(p + 1 := ucast lapic_id);
          (lapic_ver, d) = hw_read hw (lapic + 0x30) d;
          m = m(p + 2 := ucast lapic_ver);
          m = m(p + 3 := MP_CPU_EN OR MP_CPU_BP);
          (cpu_sig, _, _, cpu_features) = cpuid hw 1;
          m = wr32 m (p + 4) cpu_sig;
          m = wr32 m (p + 8) cpu_features
      in (m, d)))"

definition fill_ioapic :: "'d mp_hw \<Rightarrow> nat \<Rightarrow> mem \<times> 'd \<Rightarrow> mem \<times> 'd" where
  "fill_ioapic hw u = (\<lambda>(m, d).
     (let p = u + mp_ioapic;
          m = m(p := MP_IOAPIC);
          d = hw_write hw IOAPIC_ADDR 0x00 d;
          (ic_id, d) = hw_read hw (IOAPIC_ADDR + 0x10) d;
          m = m(p + 1 := ucast (drop_bit 24 ic_id));
          d = hw_write hw IOAPIC_ADDR 0x01 d;
          (ic_ver, d) = hw_read hw (IOAPIC_ADDR + 0x10) d;
          m = m(p + 2 := ucast ic_ver);
          m = m(p + 3 := MP_IOAPIC_EN);
          m = wr32 m (p + 4) (ucast IOAPIC_ADDR)
      in (m, d)))"

text \<open>The result is the segment of the data area, \<^verbatim>\<open>temp_ebda_seg\<close>, with the new state.\<close>

definition fake_mp_table :: "'d mp_hw \<Rightarrow> bparm_state \<times> 'd \<Rightarrow> (u16 \<times> bparm_state \<times> 'd) res" where
  "fake_mp_table hw = (\<lambda>(st, d).
     (let lapic_addr = rdmsr hw 0x1b AND 0x000ffffffffff000 in
      bindr (bmem_alloc_boottime (bmem st) (word_of_nat sizeof_mp_bundle) (ucast PARA_SIZE)) (\<lambda>(a, bm).
        let u = unat a;
            m = fill_conf u lapic_addr (fill_flt u (fill_ebda u (memory st)));
            (m, d) = fill_ioapic hw u (fill_cpu hw u lapic_addr (m, d));
            m = update_cksum m (u + mp_conf) (sizeof_mp_conf + sizeof_mp_cpu + sizeof_mp_ioapic) (u + mp_conf + 7)
        in Inr (ucast (a div PARA_SIZE), st\<lparr> bmem := bm, memory := m \<rparr>, d))))"

subsection \<open>The structures as bytes\<close>

text \<open>The structures of \<^verbatim>\<open>mp.h\<close> at an address, field by field, at the offsets of that file.\<close>

definition flt_at :: "mem \<Rightarrow> nat \<Rightarrow> nat \<Rightarrow> bool" where
  "flt_at m p conf \<longleftrightarrow>
     get_bytes m p 4 = map of_char ''_MP_'' \<and> rd32 m (p + 4) = word_of_nat conf \<and> m (p + 8) = 16 \<and> m (p + 9) = 4 \<and>
     get_bytes m (p + 11) 5 = [0, 0x80, 0, 0, 0] \<and> compute_cksum (get_bytes m p 16) = 0"

definition conf_at :: "mem \<Rightarrow> nat \<Rightarrow> u32 \<Rightarrow> bool" where
  "conf_at m p lapic \<longleftrightarrow>
     get_bytes m p 4 = map of_char ''PCMP'' \<and> rd16 m (p + 4) = 64 \<and> m (p + 6) = 4 \<and>
     get_bytes m (p + 8) 8 = map of_char ''BOCHSCPU'' \<and> get_bytes m (p + 16) 12 = map of_char ''0.1         '' \<and>
     rd32 m (p + 28) = 0 \<and> rd16 m (p + 32) = 0 \<and> rd16 m (p + 34) = 2 \<and> rd32 m (p + 36) = lapic \<and>
     rd16 m (p + 40) = 0 \<and> m (p + 42) = 0 \<and> m (p + 43) = 0 \<and> compute_cksum (get_bytes m p 64) = 0"

definition cpu_at :: "mem \<Rightarrow> nat \<Rightarrow> u8 \<Rightarrow> u8 \<Rightarrow> u32 \<Rightarrow> u32 \<Rightarrow> bool" where
  "cpu_at m p lid lver sig feat \<longleftrightarrow>
     m p = 0 \<and> m (p + 1) = lid \<and> m (p + 2) = lver \<and> m (p + 3) = 3 \<and> rd32 m (p + 4) = sig \<and> rd32 m (p + 8) = feat"

definition ioapic_at :: "mem \<Rightarrow> nat \<Rightarrow> u8 \<Rightarrow> u8 \<Rightarrow> bool" where
  "ioapic_at m p iid iver \<longleftrightarrow>
     m p = 2 \<and> m (p + 1) = iid \<and> m (p + 2) = iver \<and> m (p + 3) = 1 \<and> rd32 m (p + 4) = 0xfec00000"

subsection \<open>Stepping over the entries\<close>

text \<open>
  The MultiProcessor Specification has an operating system look for the floating pointer on the
  paragraphs of the data area, follow it to the configuration table, check both sums and step
  over the entries by their types. The size of a processor entry is an argument: 20 in the
  specification, 12 in \<^verbatim>\<open>mp.h\<close>.
\<close>

fun find_mp_flt :: "mem \<Rightarrow> nat \<Rightarrow> nat \<Rightarrow> nat option" where
  "find_mp_flt m a 0 = None"
| "find_mp_flt m a (Suc n) =
     (if rd32 m a = MAGIC32 CHR ''_'' CHR ''M'' CHR ''P'' CHR ''_'' \<and> compute_cksum (get_bytes m a 16) = 0
      then Some a else find_mp_flt m (a + 16) n)"

datatype mp_entry =
    Mp_cpu u8 u8 u8 u32 u32
  | Mp_ioapic u8 u8 u8 u32
  | Mp_other u8

definition mp_entry_at :: "mem \<Rightarrow> nat \<Rightarrow> mp_entry" where
  "mp_entry_at m a =
     (if m a = MP_CPU then Mp_cpu (m (a + 1)) (m (a + 2)) (m (a + 3)) (rd32 m (a + 4)) (rd32 m (a + 8))
      else if m a = MP_IOAPIC then Mp_ioapic (m (a + 1)) (m (a + 2)) (m (a + 3)) (rd32 m (a + 4))
      else Mp_other (m a))"

function mp_entries :: "nat \<Rightarrow> mem \<Rightarrow> nat \<Rightarrow> nat \<Rightarrow> mp_entry list" where
  "mp_entries cpu_sz m a e =
     (if a < e then mp_entry_at m a # mp_entries cpu_sz m (a + (if m a = MP_CPU then Suc (cpu_sz - 1) else 8)) e else [])"
  by pat_completeness auto
termination by (relation "measure (\<lambda>(_, _, a, e). e - a)") auto

declare mp_entries.simps [simp del]

definition read_mp :: "nat \<Rightarrow> mem \<Rightarrow> u16 \<Rightarrow> (u32 \<times> mp_entry list) option" where
  "read_mp cpu_sz m ebda_seg =
     Option.bind (find_mp_flt m (unat ebda_seg * 16) 64) (\<lambda>flt.
       let conf = unat (rd32 m (flt + 4)); len = unat (rd16 m (conf + 4)) in
       if rd32 m conf = MAGIC32 CHR ''P'' CHR ''C'' CHR ''M'' CHR ''P'' \<and> compute_cksum (get_bytes m conf len) = 0
       then Some (rd32 m (conf + 36), mp_entries cpu_sz m (conf + 44) (conf + len))
       else None)"

subsection \<open>What is written where\<close>

lemma put_bytes_out: "i < a \<or> a + length bs \<le> i \<Longrightarrow> put_bytes m a bs i = m i"
  by (auto simp: put_bytes_def)

lemma wr_out:
  "i < a \<or> a + 2 \<le> i \<Longrightarrow> wr16 m a v16 i = m i"
  "i < a \<or> a + 4 \<le> i \<Longrightarrow> wr32 m a v32 i = m i"
  by (simp_all add: wr16_def wr32_def put_bytes_out)

lemma get_bytes_upd_out: "p < a \<or> a + n \<le> p \<Longrightarrow> get_bytes (m(p := v)) a n = get_bytes m a n"
  by (rule get_bytes_cong) auto

lemmas get_bytes_out = get_put_disjoint get_bytes_wr get_bytes_upd_out

lemma rd_out:
  "p < a \<or> a + 2 \<le> p \<Longrightarrow> rd16 (m(p := v)) a = rd16 m a"
  "p < a \<or> a + 4 \<le> p \<Longrightarrow> rd32 (m(p := v)) a = rd32 m a"
  "a + 2 \<le> b \<or> b + 2 \<le> a \<Longrightarrow> rd16 (wr16 m a v16) b = rd16 m b"
  "a + 2 \<le> b \<or> b + 4 \<le> a \<Longrightarrow> rd32 (wr16 m a v16) b = rd32 m b"
  "a + 4 \<le> b \<or> b + 2 \<le> a \<Longrightarrow> rd16 (wr32 m a v32) b = rd16 m b"
  "a + 4 \<le> b \<or> b + 4 \<le> a \<Longrightarrow> rd32 (wr32 m a v32) b = rd32 m b"
  "a + length bs \<le> b \<or> b + 2 \<le> a \<Longrightarrow> rd16 (put_bytes m a bs) b = rd16 m b"
  "a + length bs \<le> b \<or> b + 4 \<le> a \<Longrightarrow> rd32 (put_bytes m a bs) b = rd32 m b"
  by (simp_all add: rd16_def rd32_def get_bytes_out)

lemma length_ids [simp]: "length oem_id = 8" "length prod_id = 12"
  by (simp_all add: oem_id_def prod_id_def)

lemma fill_ebda_frame: "i < u \<or> u + 16 \<le> i \<Longrightarrow> fill_ebda u m i = m i"
  by (auto simp: fill_ebda_def put_bytes_out)

lemma fill_flt_frame: "i < u + 16 \<or> u + 32 \<le> i \<Longrightarrow> fill_flt u m i = m i"
  by (auto simp: fill_flt_def Let_def mp_layout update_cksum_frame wr_out)

lemma fill_conf_frame: "i < u + 32 \<or> u + 76 \<le> i \<Longrightarrow> fill_conf u l m i = m i"
  by (auto simp: fill_conf_def Let_def mp_layout wr_out put_bytes_out)

lemma fill_cpu_frame: "fill_cpu hw u l (m, d) = (m', d') \<Longrightarrow> i < u + 76 \<or> u + 88 \<le> i \<Longrightarrow> m' i = m i"
  by (auto simp: fill_cpu_def Let_def mp_layout wr_out split: prod.splits)

lemma fill_ioapic_frame: "fill_ioapic hw u (m, d) = (m', d') \<Longrightarrow> i < u + 88 \<or> u + 96 \<le> i \<Longrightarrow> m' i = m i"
  by (auto simp: fill_ioapic_def Let_def mp_layout wr_out split: prod.splits)

lemma fill_ebda_fields: "fill_ebda u m u = 1" "\<And>i. u < i \<Longrightarrow> i < u + 16 \<Longrightarrow> fill_ebda u m i = 0"
  by (auto simp: fill_ebda_def put_bytes_def)

lemma fill_flt_fields:
  "rd32 (fill_flt u m) (u + 16) = MAGIC32 CHR ''_'' CHR ''M'' CHR ''P'' CHR ''_''"
  "rd32 (fill_flt u m) (u + 20) = word_of_nat (u + 32)"
  "compute_cksum (get_bytes (fill_flt u m) (u + 16) 16) = 0"
proof -
  show "rd32 (fill_flt u m) (u + 16) = MAGIC32 CHR ''_'' CHR ''M'' CHR ''P'' CHR ''_''"
    "rd32 (fill_flt u m) (u + 20) = word_of_nat (u + 32)"
    by (simp_all add: fill_flt_def Let_def mp_layout update_cksum_def rd_out add.assoc)
  show "compute_cksum (get_bytes (fill_flt u m) (u + 16) 16) = 0"
    unfolding fill_flt_def Let_def mp_layout by (rule update_cksum_sum) auto
qed

lemma magic_bytes:
  "le_bytes 4 (MAGIC32 CHR ''_'' CHR ''M'' CHR ''P'' CHR ''_'') = map of_char ''_MP_''"
  "le_bytes 4 (MAGIC32 CHR ''P'' CHR ''C'' CHR ''M'' CHR ''P'') = map of_char ''PCMP''"
  by code_simp+

lemma fill_magic:
  "get_bytes (fill_flt u m) (u + 16) 4 = map of_char ''_MP_''"
  "get_bytes (fill_conf u l m) (u + 32) 4 = map of_char ''PCMP''"
  unfolding magic_bytes [symmetric]
  by (simp_all add: fill_flt_def fill_conf_def update_cksum_def Let_def mp_layout get_bytes_out wr32_def add.assoc)

lemma fill_flt_rest:
  "fill_flt u m (u + 24) = 16" "fill_flt u m (u + 25) = 4" "get_bytes (fill_flt u m) (u + 27) 5 = [0, 0x80, 0, 0, 0]"
proof -
  have five: "get_bytes m' a 5 = [m' a, m' (a + 1), m' (a + 2), m' (a + 3), m' (a + 4)]" for m' a
    by (simp add: get_bytes_def numeral_eq_Suc)
  show "fill_flt u m (u + 24) = 16" "fill_flt u m (u + 25) = 4" "get_bytes (fill_flt u m) (u + 27) 5 = [0, 0x80, 0, 0, 0]"
    by (simp_all add: five fill_flt_def Let_def mp_layout update_cksum_def MP_FEAT1_IMCRP_def)
qed

lemma fill_conf_rest:
  "fill_conf u l m (u + 38) = 4" "get_bytes (fill_conf u l m) (u + 40) 8 = oem_id"
  "get_bytes (fill_conf u l m) (u + 48) 12 = prod_id" "rd32 (fill_conf u l m) (u + 60) = 0"
  "rd16 (fill_conf u l m) (u + 64) = 0" "rd16 (fill_conf u l m) (u + 72) = 0"
  "fill_conf u l m (u + 74) = 0" "fill_conf u l m (u + 75) = 0"
  by (simp_all add: fill_conf_def Let_def mp_layout rd_out wr_out put_bytes_out get_bytes_out add.assoc)

lemma fill_conf_fields:
  "rd32 (fill_conf u l m) (u + 32) = MAGIC32 CHR ''P'' CHR ''C'' CHR ''M'' CHR ''P''"
  "rd16 (fill_conf u l m) (u + 36) = 64"
  "rd16 (fill_conf u l m) (u + 66) = 2"
  "rd32 (fill_conf u l m) (u + 68) = ucast l"
  by (simp_all add: fill_conf_def Let_def mp_layout rd_out add.assoc)

lemma fill_cpu_fields:
  assumes "fill_cpu hw u l (m, d) = (m', d')"
  shows "\<exists>lid lver d1. hw_read hw (l + 0x20) d = (lid, d1) \<and> hw_read hw (l + 0x30) d1 = (lver, d') \<and>
    mp_entry_at m' (u + 76) = Mp_cpu (ucast lid) (ucast lver) 3 (fst (hw_cpuid hw 1)) (snd (snd (snd (hw_cpuid hw 1)))) \<and>
    m' (u + 76) = MP_CPU"
  using assms
  by (auto simp: fill_cpu_def Let_def mp_layout cpuid_def mp_entry_at_def rd_out wr_out MP_CPU_EN_def MP_CPU_BP_def
      split: prod.splits)

lemma fill_ioapic_fields:
  assumes "fill_ioapic hw u (m, d) = (m', d')"
  shows "\<exists>iid iver d1. hw_read hw (IOAPIC_ADDR + 0x10) (hw_write hw IOAPIC_ADDR 0 d) = (iid, d1) \<and>
    hw_read hw (IOAPIC_ADDR + 0x10) (hw_write hw IOAPIC_ADDR 1 d1) = (iver, d') \<and>
    mp_entry_at m' (u + 88) = Mp_ioapic (ucast (drop_bit 24 iid)) (ucast iver) 1 0xfec00000 \<and> m' (u + 88) = MP_IOAPIC"
  using assms
  by (auto simp: fill_ioapic_def Let_def mp_layout mp_entry_at_def rd_out wr_out MP_CPU_def MP_IOAPIC_def MP_IOAPIC_EN_def
      IOAPIC_ADDR_def split: prod.splits)

lemma mp_entry_at_cong: "(\<And>i. a \<le> i \<Longrightarrow> i < a + 12 \<Longrightarrow> m i = m' i) \<Longrightarrow> mp_entry_at m a = mp_entry_at m' a"
  using get_bytes_cong [of "a + 4" 4 m m'] get_bytes_cong [of "a + 8" 4 m m'] by (simp add: mp_entry_at_def rd32_def)

lemma entry_fields:
  "m p = MP_CPU \<Longrightarrow> mp_entry_at m p = Mp_cpu lid lver 3 sig feat \<Longrightarrow> cpu_at m p lid lver sig feat"
  "m p = MP_IOAPIC \<Longrightarrow> mp_entry_at m p = Mp_ioapic iid iver 1 0xfec00000 \<Longrightarrow> ioapic_at m p iid iver"
  by (simp_all add: mp_entry_at_def cpu_at_def ioapic_at_def MP_CPU_def MP_IOAPIC_def)

lemma rd_cong:
  "(\<And>i. a \<le> i \<Longrightarrow> i < a + 2 \<Longrightarrow> m i = m' i) \<Longrightarrow> rd16 m a = rd16 m' a"
  "(\<And>i. a \<le> i \<Longrightarrow> i < a + 4 \<Longrightarrow> m i = m' i) \<Longrightarrow> rd32 m a = rd32 m' a"
  using get_bytes_cong [of a 2 m m'] get_bytes_cong [of a 4 m m'] by (simp_all add: rd16_def rd32_def)

subsection \<open>The finished tables\<close>

text \<open>The tables as they stand when all fields and both checksums are written.\<close>

definition mp_tables :: "mem \<Rightarrow> nat \<Rightarrow> u32 \<Rightarrow> mp_entry \<Rightarrow> mp_entry \<Rightarrow> bool" where
  "mp_tables m u lapic cpu ioapic \<longleftrightarrow>
     rd32 m u = 1 \<and> rd32 m (u + 16) = MAGIC32 CHR ''_'' CHR ''M'' CHR ''P'' CHR ''_'' \<and>
     rd32 m (u + 20) = word_of_nat (u + 32) \<and> compute_cksum (get_bytes m (u + 16) 16) = 0 \<and>
     rd32 m (u + 32) = MAGIC32 CHR ''P'' CHR ''C'' CHR ''M'' CHR ''P'' \<and> rd16 m (u + 36) = 64 \<and>
     rd16 m (u + 66) = 2 \<and> rd32 m (u + 68) = lapic \<and> compute_cksum (get_bytes m (u + 32) 64) = 0 \<and>
     mp_entry_at m (u + 76) = cpu \<and> m (u + 76) = MP_CPU \<and> mp_entry_at m (u + 88) = ioapic \<and> m (u + 88) = MP_IOAPIC"

text \<open>What the processor and the devices answered, in the order of the accesses.\<close>

definition mp_answers :: "'d mp_hw \<Rightarrow> 'd \<Rightarrow> mp_entry \<Rightarrow> mp_entry \<Rightarrow> 'd \<Rightarrow> bool" where
  "mp_answers hw d cpu ioapic d' \<longleftrightarrow>
     (\<exists>lid lver iid iver d1 d2 d3. let lapic = rdmsr hw 0x1b AND 0x000ffffffffff000 in
        hw_read hw (lapic + 0x20) d = (lid, d1) \<and> hw_read hw (lapic + 0x30) d1 = (lver, d2) \<and>
        hw_read hw (IOAPIC_ADDR + 0x10) (hw_write hw IOAPIC_ADDR 0 d2) = (iid, d3) \<and>
        hw_read hw (IOAPIC_ADDR + 0x10) (hw_write hw IOAPIC_ADDR 1 d3) = (iver, d') \<and>
        cpu = Mp_cpu (ucast lid) (ucast lver) 3 (fst (hw_cpuid hw 1)) (snd (snd (snd (hw_cpuid hw 1)))) \<and>
        ioapic = Mp_ioapic (ucast (drop_bit 24 iid)) (ucast iver) 1 0xfec00000)"

lemma fake_mp_table_tables:
  assumes eq: "fake_mp_table hw (st, d) = Inr (seg, st', d')"
  shows "\<exists>a bm cpu ioapic. bmem_alloc_boottime (bmem st) 96 16 = Inr (a, bm) \<and> seg = ucast (a div 16) \<and>
    st' = st\<lparr> bmem := bm, memory := memory st' \<rparr> \<and>
    mp_tables (memory st') (unat a) (ucast (rdmsr hw 0x1b AND 0x000ffffffffff000)) cpu ioapic \<and>
    mp_answers hw d cpu ioapic d' \<and> (\<forall>i. i < unat a \<or> unat a + 96 \<le> i \<longrightarrow> memory st' i = memory st i) \<and>
    memory st' (unat a) = 1 \<and> get_bytes (memory st') (unat a + 1) 15 = replicate 15 0 \<and>
    flt_at (memory st') (unat a + 16) (unat a + 32) \<and>
    conf_at (memory st') (unat a + 32) (ucast (rdmsr hw 0x1b AND 0x000ffffffffff000))"
proof -
  let ?l = "rdmsr hw 0x1b AND 0x000ffffffffff000"
  obtain a bm where al: "bmem_alloc_boottime (bmem st) 96 16 = Inr (a, bm)"
    using eq by (auto simp: fake_mp_table_def Let_def res_simps mp_layout PARA_SIZE_def)
  let ?u = "unat a"
  define m1 where "m1 = fill_conf ?u ?l (fill_flt ?u (fill_ebda ?u (memory st)))"
  obtain m2 d2 where c: "fill_cpu hw ?u ?l (m1, d) = (m2, d2)" by (metis prod.exhaust)
  obtain m3 d3 where i: "fill_ioapic hw ?u (m2, d2) = (m3, d3)" by (metis prod.exhaust)
  have st': "seg = ucast (a div 16)" "d' = d3"
    "st' = st\<lparr> bmem := bm, memory := update_cksum m3 (?u + 32) 64 (?u + 39) \<rparr>"
    using eq al c i by (auto simp: fake_mp_table_def Let_def mp_layout PARA_SIZE_def m1_def add.assoc)
  define m4 where "m4 = update_cksum m3 (?u + 32) 64 (?u + 39)"
  note f4 = update_cksum_frame [of _ "?u + 39" m3 "?u + 32" 64, folded m4_def]
  note f3 = fill_ioapic_frame [OF i]
  note f2 = fill_cpu_frame [OF c]
  have flt: "m4 j = fill_flt ?u (fill_ebda ?u (memory st)) j" if "?u \<le> j" "j < ?u + 32" for j
    using that f4 [of j] f3 [of j] f2 [of j] fill_conf_frame [of j ?u] by (simp add: m1_def)
  have conf: "m4 j = m1 j" if "?u + 32 \<le> j" "j < ?u + 76" "j \<noteq> ?u + 39" for j
    using that f4 [of j] f3 [of j] f2 [of j] by simp
  have cpu: "m4 j = m2 j" if "?u + 76 \<le> j" "j < ?u + 88" for j
    using that f4 [of j] f3 [of j] by simp
  have ebda: "m4 j = (if j = ?u then 1 else 0)" if "?u \<le> j" "j < ?u + 16" for j
    using that flt [of j] fill_flt_frame [of j ?u] fill_ebda_fields [of ?u] by auto
  have one: "rd32 m4 ?u = 1"
    using get_bytes_four [of m4 ?u] ebda [of ?u] ebda [of "?u + 1"] ebda [of "?u + 2"] ebda [of "?u + 3"]
    by (simp add: rd32_def)
  have flt_fields: "rd32 m4 (?u + 16) = MAGIC32 CHR ''_'' CHR ''M'' CHR ''P'' CHR ''_''"
    "rd32 m4 (?u + 20) = word_of_nat (?u + 32)" "compute_cksum (get_bytes m4 (?u + 16) 16) = 0"
    using rd_cong(2) [of "?u + 16" m4, OF flt] rd_cong(2) [of "?u + 20" m4, OF flt]
      get_bytes_cong [of "?u + 16" 16 m4, OF flt] fill_flt_fields [of ?u] by simp_all
  have conf_fields: "rd32 m4 (?u + 32) = MAGIC32 CHR ''P'' CHR ''C'' CHR ''M'' CHR ''P''"
    "rd16 m4 (?u + 36) = 64" "rd16 m4 (?u + 66) = 2" "rd32 m4 (?u + 68) = ucast ?l"
    using rd_cong(2) [of "?u + 32" m4, OF conf] rd_cong(1) [of "?u + 36" m4, OF conf]
      rd_cong(1) [of "?u + 66" m4, OF conf] rd_cong(2) [of "?u + 68" m4, OF conf]
    by (simp_all add: m1_def fill_conf_fields)
  have sum: "compute_cksum (get_bytes m4 (?u + 32) 64) = 0" unfolding m4_def by (rule update_cksum_sum) auto
  obtain cpu_e where ce: "mp_entry_at m2 (?u + 76) = cpu_e" "m2 (?u + 76) = MP_CPU" using fill_cpu_fields [OF c] by blast
  obtain ic_e where ie: "mp_entry_at m3 (?u + 88) = ic_e" "m3 (?u + 88) = MP_IOAPIC" using fill_ioapic_fields [OF i] by blast
  have entries: "mp_entry_at m4 (?u + 76) = cpu_e" "m4 (?u + 76) = MP_CPU"
    "mp_entry_at m4 (?u + 88) = ic_e" "m4 (?u + 88) = MP_IOAPIC"
    using mp_entry_at_cong [of "?u + 76" m4 m2] mp_entry_at_cong [of "?u + 88" m4 m3] ce ie cpu f4 by auto
  have ans: "mp_answers hw d cpu_e ic_e d'"
    using fill_cpu_fields [OF c] fill_ioapic_fields [OF i] ce ie
    unfolding mp_answers_def Let_def st'(2) by metis
  have "\<forall>j. j < ?u \<or> ?u + 96 \<le> j \<longrightarrow> m4 j = memory st j"
    using f4 f3 f2 fill_conf_frame fill_flt_frame fill_ebda_frame by (force simp: m1_def)
  moreover have "get_bytes m4 (?u + 1) 15 = replicate 15 0"
    using ebda by (intro nth_equalityI) (simp_all add: get_bytes_def)
  moreover have "flt_at m4 (?u + 16) (?u + 32)"
    using flt_fields get_bytes_cong [of "?u + 16" 4 m4, OF flt] get_bytes_cong [of "?u + 27" 5 m4, OF flt]
      flt [of "?u + 24"] flt [of "?u + 25"]
    by (simp add: flt_at_def fill_magic fill_flt_rest add.assoc)
  moreover have "conf_at m4 (?u + 32) (ucast ?l)"
  proof -
    have ids: "oem_id = map of_char ''BOCHSCPU''" "prod_id = map of_char ''0.1         ''"
      by (simp_all add: oem_id_def prod_id_def)
    have g: "get_bytes m4 (?u + 32) 4 = get_bytes m1 (?u + 32) 4" "get_bytes m4 (?u + 40) 8 = get_bytes m1 (?u + 40) 8"
      "get_bytes m4 (?u + 48) 12 = get_bytes m1 (?u + 48) 12"
      by (rule get_bytes_cong, rule conf, linarith+)+
    have r: "rd32 m4 (?u + 60) = rd32 m1 (?u + 60)" "rd16 m4 (?u + 64) = rd16 m1 (?u + 64)"
      "rd16 m4 (?u + 72) = rd16 m1 (?u + 72)"
      by (rule rd_cong, rule conf, linarith+)+
    have b: "m4 (?u + 38) = m1 (?u + 38)" "m4 (?u + 74) = m1 (?u + 74)" "m4 (?u + 75) = m1 (?u + 75)"
      by (rule conf, linarith+)+
    show ?thesis
      unfolding conf_at_def ids [symmetric]
      using conf_fields sum g r b by (simp add: m1_def fill_magic(2) fill_conf_rest add.assoc)
  qed
  moreover have "m4 ?u = 1" using ebda [of ?u] by simp
  ultimately show ?thesis
    using al st' ans one flt_fields conf_fields sum entries unfolding m4_def [symmetric] mp_tables_def by auto
qed

lemma read_mp_tables:
  assumes t: "mp_tables m u l cpu ic" and u: "u = unat seg * 16" "u < 0x100000"
  shows "read_mp sizeof_mp_cpu m seg = Some (l, [cpu, ic])" and "read_mp 20 m seg = Some (l, [cpu])"
proof -
  have magic: "(1 :: u32) \<noteq> MAGIC32 CHR ''_'' CHR ''M'' CHR ''P'' CHR ''_''" by (simp add: MAGIC32_def)
  have flt: "find_mp_flt m u 64 = Some (u + 16)"
    using t magic find_mp_flt.simps(2) [of m u 63] find_mp_flt.simps(2) [of m "u + 16" 62]
    by (simp add: mp_tables_def)
  have conf: "unat (rd32 m (u + 16 + 4)) = u + 32"
    using t u(2) by (simp add: mp_tables_def unat_of_nat add.assoc del: of_nat_add)
  have e: "mp_entries 12 m (u + 76) (u + 96) = [cpu, ic]" "mp_entries 20 m (u + 76) (u + 96) = [cpu]"
    using t mp_entries.simps [of 12 m "u + 76" "u + 96"] mp_entries.simps [of 12 m "u + 88" "u + 96"]
      mp_entries.simps [of 12 m "u + 96" "u + 96"] mp_entries.simps [of 20 m "u + 76" "u + 96"]
      mp_entries.simps [of 20 m "u + 96" "u + 96"]
    by (simp_all add: mp_tables_def MP_CPU_def MP_IOAPIC_def add.commute [of _ u])
  have fields: "rd16 m (u + 32 + 4) = 64" "rd32 m (u + 32) = MAGIC32 CHR ''P'' CHR ''C'' CHR ''M'' CHR ''P''"
    "compute_cksum (get_bytes m (u + 32) 64) = 0" "rd32 m (u + 32 + 36) = l"
    using t by (simp_all add: mp_tables_def add.commute [of _ u])
  have n: "unat (64 :: u16) = 64" "u + 32 + 44 = u + 76" "u + 32 + 64 = u + 96" by simp_all
  show "read_mp sizeof_mp_cpu m seg = Some (l, [cpu, ic])" "read_mp 20 m seg = Some (l, [cpu])"
    unfolding read_mp_def u(1) [symmetric] flt Option.bind.bind_lunit Let_def conf fields n e sizeof_mp_cpu_def by simp_all
qed

lemma mp_segment:
  assumes wf: "bmem_wf s" and al: "bmem_alloc_boottime s 96 16 = Inr (a, s')"
  shows "unat (ucast (a div 16) :: u16) * 16 = unat a" "unat a < 0x100000"
proof -
  note sp = bmem_alloc_boottime_spec [OF wf pow2_align_ex(2) al]
  have "unat a \<in> bmem_free s" using sp(2) by auto
  then show lt: "unat a < 0x100000" using bmem_free_bounds [OF wf] by blast
  have "unat (ucast (a div 16) :: u16) = unat a div 16"
    using lt unat_ucast_down [of "a div 16", where ?'b = 16] by (simp add: unat_div)
  then show "unat (ucast (a div 16) :: u16) * 16 = unat a" using sp(4) by simp
qed

subsection \<open>An example machine\<close>

definition mp_st_ex :: bparm_state where
  "mp_st_ex = \<lparr> bmem = bmem_ex, memory = (\<lambda>_. 0), bp_head = 0, bp_tail = 0 \<rparr>"

definition mp_hw_ex :: "unit mp_hw" where
  "mp_hw_ex = \<lparr> hw_msr = (\<lambda>_. (0, 0xfee00900)), hw_cpuid = (\<lambda>_. (0x6d3, 0, 0, 0x78bfbff)),
     hw_read = (\<lambda>a d. (if a = 0xfee00020 then 3 else if a = 0xfee00030 then 0x14 else 0x02000020, d)), hw_write = (\<lambda>_ _ d. d) \<rparr>"

lemma mp_ex_wf: "bmem_wf (bmem mp_st_ex)"
  by (simp add: mp_st_ex_def bmem_ex_wf)

lemma mp_ex_lapic: "rdmsr mp_hw_ex 0x1b AND 0x000ffffffffff000 = 0xfee00000"
  by (simp add: rdmsr_def mp_hw_ex_def)

lemma mp_ex_run: "\<exists>seg st'. fake_mp_table mp_hw_ex (mp_st_ex, ()) = Inr (seg, st', ())"
proof -
  have "\<exists>a bm. bmem_alloc_boottime bmem_ex 96 16 = Inr (a, bm)"
    by (simp add: bmem_ex_def bmem_alloc_boottime_def bmem_alloc_boottime_from.simps Let_def)
  then show ?thesis by (auto simp: fake_mp_table_def mp_st_ex_def Let_def mp_layout PARA_SIZE_def split: prod.splits)
qed

subsection \<open>Properties\<close>

text \<open>
  C19. What \<^verbatim>\<open>fake_mp_table\<close> writes, at the offsets of \<^verbatim>\<open>mp.h\<close> from the segment of the temporary data
  area: the size byte and the cleared rest of the area, the floating pointer, which points to the
  configuration table behind it, the table's header with the address of the local APIC, and an
  entry each for the processor and the I/O APIC with what the processor and the devices answered.
  The bytes of the floating pointer add up to zero, and so do those of the table over the length its
  header states. The area was free and lies below the boot-time watermark from then on; no other byte
  of memory has changed. The processor's entry has the 12 bytes of \<^verbatim>\<open>mp.h\<close>, not the 20 of the
  MultiProcessor Specification (C39).
\<close>

theorem mp_tables_written:
  assumes "bmem_wf (bmem st)" and "fake_mp_table hw (st, d) = Inr (seg, st', d')"
  shows "\<exists>lid lver iid iver d1 d2 d3.
    (let m = memory st'; u = unat seg * 16; lapic = rdmsr hw 0x1b AND 0x000ffffffffff000;
         area = {u..<u + sizeof_mp_bundle} in
       hw_read hw (lapic + 0x20) d = (lid, d1) \<and> hw_read hw (lapic + 0x30) d1 = (lver, d2) \<and>
       hw_read hw 0xfec00010 (hw_write hw 0xfec00000 0 d2) = (iid, d3) \<and>
       hw_read hw 0xfec00010 (hw_write hw 0xfec00000 1 d3) = (iver, d') \<and>
       m u = 1 \<and> get_bytes m (u + 1) 15 = replicate 15 0 \<and>
       flt_at m (u + 16) (u + 32) \<and> conf_at m (u + 32) (ucast lapic) \<and>
       cpu_at m (u + 76) (ucast lid) (ucast lver) (fst (hw_cpuid hw 1)) (snd (snd (snd (hw_cpuid hw 1)))) \<and>
       ioapic_at m (u + 88) (ucast (drop_bit 24 iid)) (ucast iver) \<and>
       area \<subseteq> bmem_free (bmem st) \<and> bmem_wf (bmem st') \<and> bmem_free (bmem st') \<subseteq> bmem_free (bmem st) - area \<and>
       u + sizeof_mp_bundle \<le> unat (boottime_bmem_bot (bmem st')) \<and> (\<forall>i. i \<notin> area \<longrightarrow> m i = memory st i))"
proof -
  let ?l = "rdmsr hw 0x1b AND 0x000ffffffffff000" and ?m = "memory st'"
  obtain a bm cpu ic where al: "bmem_alloc_boottime (bmem st) 96 16 = Inr (a, bm)"
    and seg: "seg = ucast (a div 16)" and eq: "st' = st\<lparr> bmem := bm, memory := ?m \<rparr>" and ans: "mp_answers hw d cpu ic d'"
    and t: "mp_tables ?m (unat a) (ucast ?l) cpu ic"
    and fr: "\<forall>i. i < unat a \<or> unat a + 96 \<le> i \<longrightarrow> ?m i = memory st i"
    and area: "?m (unat a) = 1" "get_bytes ?m (unat a + 1) 15 = replicate 15 0"
      "flt_at ?m (unat a + 16) (unat a + 32)" "conf_at ?m (unat a + 32) (ucast ?l)"
    using fake_mp_table_tables [OF assms(2)] by blast
  have st': "seg = ucast (a div 16)" "bmem st' = bm" using seg arg_cong [OF eq, of bmem] by simp_all
  note seg = mp_segment [OF assms(1) al, folded st'(1)]
  note sp = bmem_alloc_boottime_spec [OF assms(1) pow2_align_ex(2) al]
  have n: "unat (96 :: u64) = 96" "sizeof_mp_bundle = 96" by (simp_all add: mp_layout)
  have fr': "\<forall>i. i \<notin> {unat a..<unat a + 96} \<longrightarrow> ?m i = memory st i" using fr by auto
  obtain lid lver iid iver d1 d2 d3 where
    hw: "hw_read hw (?l + 0x20) d = (lid, d1)" "hw_read hw (?l + 0x30) d1 = (lver, d2)"
      "hw_read hw 0xfec00010 (hw_write hw 0xfec00000 0 d2) = (iid, d3)"
      "hw_read hw 0xfec00010 (hw_write hw 0xfec00000 1 d3) = (iver, d')"
    and e: "cpu = Mp_cpu (ucast lid) (ucast lver) 3 (fst (hw_cpuid hw 1)) (snd (snd (snd (hw_cpuid hw 1))))"
      "ic = Mp_ioapic (ucast (drop_bit 24 iid)) (ucast iver) 1 0xfec00000"
    using ans unfolding mp_answers_def Let_def IOAPIC_ADDR_def by auto
  have cpu: "cpu_at ?m (unat a + 76) (ucast lid) (ucast lver) (fst (hw_cpuid hw 1)) (snd (snd (snd (hw_cpuid hw 1))))"
    and ic: "ioapic_at ?m (unat a + 88) (ucast (drop_bit 24 iid)) (ucast iver)"
    using t unfolding e mp_tables_def by (simp_all add: entry_fields)
  show ?thesis
    unfolding seg(1) st'(2) n Let_def
    by (intro exI conjI) (use hw area cpu ic sp(1-3,7) fr' n(1) in \<open>simp_all only:\<close>)
qed

theorem mp_tables_written_witness:
  "\<exists>seg st'. bmem_wf (bmem mp_st_ex) \<and> fake_mp_table mp_hw_ex (mp_st_ex, ()) = Inr (seg, st', ()) \<and>
     flt_at (memory st') (unat seg * 16 + 16) (unat seg * 16 + 32) \<and> conf_at (memory st') (unat seg * 16 + 32) 0xfee00000 \<and>
     cpu_at (memory st') (unat seg * 16 + 76) 3 0x14 0x6d3 0x78bfbff \<and> ioapic_at (memory st') (unat seg * 16 + 88) 2 0x20"
proof -
  obtain seg st' where run: "fake_mp_table mp_hw_ex (mp_st_ex, ()) = Inr (seg, st', ())" using mp_ex_run by blast
  have low: "(0x2000020 :: u8) = 0x20" by code_simp
  show ?thesis using run mp_ex_wf mp_tables_written [OF mp_ex_wf run] unfolding mp_ex_lapic Let_def
    by (auto simp: mp_hw_ex_def low)
qed

text \<open>
  C38. The entry of \<^verbatim>\<open>mp.h\<close> for a processor leaves out the eight reserved bytes that end it in the
  MultiProcessor Specification, where it has 20 bytes: an operating system that steps over it with
  the size of the specification reads the processor's entry and then stops, so it never sees the
  I/O APIC, although the header counts two entries.
\<close>

theorem mp_ioapic_entry_missed:
  assumes "bmem_wf (bmem st)" and "fake_mp_table hw (st, d) = Inr (seg, st', d')"
  shows "\<exists>cpu. read_mp 20 (memory st') seg = Some (ucast (rdmsr hw 0x1b AND 0x000ffffffffff000), [cpu]) \<and>
    rd16 (memory st') (unat seg * 16 + mp_conf + 34) = 2"
proof -
  obtain a bm cpu ic where al: "bmem_alloc_boottime (bmem st) 96 16 = Inr (a, bm)" and seg: "seg = ucast (a div 16)"
    and t: "mp_tables (memory st') (unat a) (ucast (rdmsr hw 0x1b AND 0x000ffffffffff000)) cpu ic"
    using fake_mp_table_tables [OF assms(2)] by blast
  note u = mp_segment [OF assms(1) al, folded seg]
  show ?thesis using read_mp_tables(2) [OF t u(1) [symmetric] u(2)] t unfolding u(1) by (auto simp: mp_tables_def mp_layout add.commute [of _ "unat a"])
qed

theorem mp_ioapic_entry_missed_witness:
  "\<exists>seg st' cpu. bmem_wf (bmem mp_st_ex) \<and> fake_mp_table mp_hw_ex (mp_st_ex, ()) = Inr (seg, st', ()) \<and>
     read_mp 20 (memory st') seg = Some (0xfee00000, [cpu])"
proof -
  obtain seg st' where run: "fake_mp_table mp_hw_ex (mp_st_ex, ()) = Inr (seg, st', ())" using mp_ex_run by blast
  show ?thesis using mp_ex_wf run mp_ioapic_entry_missed [OF mp_ex_wf run] unfolding mp_ex_lapic by auto
qed

end
