(* ===== verification/Acpi_Layout.thy ===== *)
theory Acpi_Layout
  imports Prelude
begin

text \<open>
  The layout of the ACPI tables, which comes from a library that is not part of the sources
  (\<^verbatim>\<open>acpispec/tables.h\<close>), as a parameter; the structures of \<^verbatim>\<open>acpi.h\<close>, which build on it; and how
  both stages read a signature.
\<close>

unbundle bit_operations_syntax

subsection \<open>The library's structures\<close>

text \<open>
  Sizes of the table header, of the root pointer structure and of the union of all tables, and
  the offsets of the members that the code reads: the length in a header, the tables of an
  extended system description table, the revision, the length and the table address in the
  root pointer, and the boot flags in the fixed table. A signature is at offset 0.
\<close>

record acpi_layout =
  sizeof_header :: u32
  sizeof_xsdp :: u32
  sizeof_table :: u32
  o_length :: u32
  o_tables :: u32
  o_revision :: u32
  o_xsdp_length :: u32
  o_xsdt :: u32
  o_boot_flags :: u32

text \<open>What the ACPI specification says of them; the size of the union depends on the version.\<close>

definition acpi_layout_ok :: "acpi_layout \<Rightarrow> bool" where
  "acpi_layout_ok L \<longleftrightarrow> sizeof_header L = 36 \<and> sizeof_xsdp L = 36 \<and> 111 \<le> sizeof_table L \<and> sizeof_table L \<le> 0x1000 \<and>
     o_length L = 4 \<and> o_tables L = 36 \<and> o_revision L = 15 \<and> o_xsdp_length L = 20 \<and> o_xsdt L = 24 \<and> o_boot_flags L = 109"

text \<open>Version 6 of the specification: the fixed table is the largest member of the union.\<close>

definition acpi_6 :: acpi_layout where
  "acpi_6 = \<lparr> sizeof_header = 36, sizeof_xsdp = 36, sizeof_table = 276, o_length = 4, o_tables = 36, o_revision = 15,
     o_xsdp_length = 20, o_xsdt = 24, o_boot_flags = 109 \<rparr>"

lemma acpi_6_ok: "acpi_layout_ok acpi_6"
  by (simp add: acpi_layout_ok_def acpi_6_def)

subsection \<open>The structures of acpi.h\<close>

text \<open>A multiple APIC description table: header, local APIC address, flags, then the controllers.\<close>

definition o_madt_flags :: "acpi_layout \<Rightarrow> u32" where "o_madt_flags L = sizeof_header L + 4"
definition o_ics :: "acpi_layout \<Rightarrow> u32" where "o_ics L = sizeof_header L + 8"

definition MADT_PCAT_COMPAT :: u32 where "MADT_PCAT_COMPAT = 1"
definition FADT_IAPC_NORTC :: u16 where "FADT_IAPC_NORTC = push_bit 5 1"
definition MADT_IC_IOAPIC :: u8 where "MADT_IC_IOAPIC = 1"

text \<open>An interrupt controller structure begins with its type and its length; an I/O APIC's address is at offset 4.\<close>

definition o_ic_type :: u32 where "o_ic_type = 0"
definition o_ic_length :: u32 where "o_ic_length = 1"
definition o_ioapic_phy :: u32 where "o_ioapic_phy = 4"

subsection \<open>Signatures\<close>

definition sig :: "string \<Rightarrow> u8 list" where
  "sig cs = map of_char cs"

end
