(* ===== verification/Acpi_Init.thy ===== *)
theory Acpi_Init
  imports Bparm Acpi_Layout
begin

text \<open>
  The ACPI checks of stage 1 (\<^verbatim>\<open>stage1/acpi.c\<close>, and the choice of the root pointer in
  \<^verbatim>\<open>process_efi_conf_tables\<close> of \<^verbatim>\<open>stage1/main.c\<close>), which end with the boot parameter that stage 2
  starts from. The firmware maps all memory to itself, so pointers are physical addresses.
\<close>

unbundle bit_operations_syntax

subsection \<open>The tables of interest\<close>

definition sig_matches :: "mem \<Rightarrow> nat \<Rightarrow> string \<Rightarrow> nat \<Rightarrow> bool" where
  "sig_matches m a s n \<longleftrightarrow> memcmp (get_bytes m a n) (sig s) n = Inr 0"

text \<open>Printing and the warning about missing VGA hardware are left out.\<close>

definition acpi_process_fadt :: "acpi_layout \<Rightarrow> mem \<Rightarrow> nat \<Rightarrow> unit res" where
  "acpi_process_fadt L m fadt =
     (if rd32 m (fadt + unat (o_length L)) < o_boot_flags L + 2 then Inl (Error ''FADT too small'')
      else if rd16 m (fadt + unat (o_boot_flags L)) AND FADT_IAPC_NORTC \<noteq> 0 then Inl (Error ''FADT: no CMOS RTC'')
      else Inr ())"

definition acpi_process_madt1 :: "acpi_layout \<Rightarrow> mem \<Rightarrow> nat \<Rightarrow> unit res" where
  "acpi_process_madt1 L m madt =
     (if rd32 m (madt + unat (o_madt_flags L)) AND MADT_PCAT_COMPAT = 0 then Inl (Error ''MADT: no 8259'') else Inr ())"

fun check_tables :: "acpi_layout \<Rightarrow> mem \<Rightarrow> nat \<Rightarrow> nat \<Rightarrow> nat \<Rightarrow> unit res" where
  "check_tables L m xsdt i 0 = Inr ()"
| "check_tables L m xsdt i (Suc n) =
     (let tab = unat (rd64 m (xsdt + unat (o_tables L) + 8 * i)) in
      bindr (if sig_matches m tab ''FACP'' 4 then acpi_process_fadt L m tab
             else if sig_matches m tab ''APIC'' 4 then acpi_process_madt1 L m tab
             else Inr ()) (\<lambda>_.
        check_tables L m xsdt (i + 1) n))"

subsection \<open>acpi\_init\<close>

definition acpi_init :: "acpi_layout \<Rightarrow> bparm_state \<Rightarrow> u64 \<Rightarrow> bparm_state res" where
  "acpi_init L st rsdp =
     (let m = memory st; r = unat rsdp in
      if \<not> sig_matches m r ''RSD PTR '' 8 then Inl (Error ''RSDP has bad sig.'')
      else if m (r + unat (o_revision L)) < 2 then Inl (Error ''RSDP revision too old'')
      else
        let sz = rd32 m (r + unat (o_xsdp_length L)) in
        if sz < sizeof_xsdp L then Inl (Error ''RSDP too small'')
        else if compute_cksum (get_bytes m r (unat (o_xsdp_length L))) \<noteq> 0 \<or> compute_cksum (get_bytes m r (unat sz)) \<noteq> 0
        then Inl (Error ''RSDP has bad checksums'')
        else
          let xsdt = unat (rd64 m (r + unat (o_xsdt L))) in
          if \<not> sig_matches m xsdt ''XSDT'' 4 then Inl (Error ''XSDT has bad sig.'')
          else
            let sz = rd32 m (xsdt + unat (o_length L)) in
            if (ucast sz :: u64) < ucast (sizeof_header L) + 8 then Inl (Error ''XSDT too small'')
            else if compute_cksum (get_bytes m xsdt (unat sz)) \<noteq> 0 then Inl (Error ''XSDT has bad checksum'')
            else
              let num_tabs = ((ucast sz :: u64) - ucast (sizeof_header L)) div 8 in
              bindr (check_tables L m xsdt 0 (unat num_tabs)) (\<lambda>_.
              bindr (bparm_add st BP_RSDP 12) (\<lambda>(bd_rsdp, st).
                let m = wr64 (memory st) (unat bd_rsdp) rsdp
                in Inr (st\<lparr> memory := wr32 m (unat bd_rsdp + 8) sz \<rparr>))))"

text \<open>
  The configuration tables of the firmware, each a GUID and a pointer; the last table with the
  GUID of ACPI 2.0 counts.
\<close>

definition Acpi20TableGuid :: "u8 list" where
  "Acpi20TableGuid = le_bytes 4 (0x8868e871 :: u32) @ le_bytes 2 (0xe4f1 :: u16) @ le_bytes 2 (0x11d3 :: u16) @
     [0xbc, 0x22, 0x00, 0x80, 0xc7, 0x3c, 0x88, 0x81]"

fun find_acpi :: "(u8 list \<times> u64) list \<Rightarrow> u64 \<Rightarrow> u64" where
  "find_acpi [] rsdp = rsdp"
| "find_acpi ((vguid, tab) # cfts) rsdp =
     find_acpi cfts (if memcmp vguid Acpi20TableGuid 16 = Inr 0 then tab else rsdp)"

definition process_efi_conf_tables :: "acpi_layout \<Rightarrow> bparm_state \<Rightarrow> (u8 list \<times> u64) list \<Rightarrow> bparm_state res" where
  "process_efi_conf_tables L st cfts =
     (let rsdp = find_acpi cfts 0 in
      if rsdp = 0 then Inl (Error ''no ACPI 2+ RSDP'') else acpi_init L st rsdp)"

subsection \<open>What the checks amount to\<close>

definition table_ok :: "mem \<Rightarrow> nat \<Rightarrow> bool" where
  "table_ok m t \<longleftrightarrow>
     (get_bytes m t 4 = sig ''FACP'' \<longrightarrow> 111 \<le> rd32 m (t + 4) \<and> \<not> bit (rd16 m (t + 109)) 5) \<and>
     (get_bytes m t 4 = sig ''APIC'' \<longrightarrow> bit (rd32 m (t + 40)) 0)"

definition xsdt_ok :: "mem \<Rightarrow> nat \<Rightarrow> bool" where
  "xsdt_ok m x \<longleftrightarrow>
     (let n = unat (rd32 m (x + 4)) in
      get_bytes m x 4 = sig ''XSDT'' \<and> 44 \<le> n \<and> compute_cksum (get_bytes m x n) = 0 \<and>
      (\<forall>i<(n - 36) div 8. table_ok m (unat (rd64 m (x + 36 + 8 * i)))))"

definition rsdp_ok :: "mem \<Rightarrow> nat \<Rightarrow> bool" where
  "rsdp_ok m r \<longleftrightarrow>
     (let n = unat (rd32 m (r + 20)) in
      get_bytes m r 8 = sig ''RSD PTR '' \<and> 2 \<le> m (r + 15) \<and> 36 \<le> n \<and>
      compute_cksum (get_bytes m r 20) = 0 \<and> compute_cksum (get_bytes m r n) = 0)"

definition acpi_ok :: "mem \<Rightarrow> nat \<Rightarrow> bool" where
  "acpi_ok m r \<longleftrightarrow> rsdp_ok m r \<and> xsdt_ok m (unat (rd64 m (r + 24)))"

lemma sig_matches_iff:
  "sig_matches m a ''RSD PTR '' 8 \<longleftrightarrow> get_bytes m a 8 = sig ''RSD PTR ''"
  "sig_matches m a ''XSDT'' 4 \<longleftrightarrow> get_bytes m a 4 = sig ''XSDT''"
  "sig_matches m a ''FACP'' 4 \<longleftrightarrow> get_bytes m a 4 = sig ''FACP''"
  "sig_matches m a ''APIC'' 4 \<longleftrightarrow> get_bytes m a 4 = sig ''APIC''"
  by (simp_all add: sig_matches_def memcmp_zero_iff sig_def)

lemma bit_and_exp: "(x :: 'a::len word) AND push_bit k 1 \<noteq> 0 \<longleftrightarrow> bit x k"
  by (metis and_exp_eq_0_iff_not_bit push_bit_of_1)

lemma one_table:
  assumes "acpi_layout_ok L"
  shows "(if sig_matches m t ''FACP'' 4 then acpi_process_fadt L m t
     else if sig_matches m t ''APIC'' 4 then acpi_process_madt1 L m t else Inr ()) = Inr () \<longleftrightarrow> table_ok m t"
    and "(if sig_matches m t ''FACP'' 4 then acpi_process_fadt L m t
     else if sig_matches m t ''APIC'' 4 then acpi_process_madt1 L m t else Inr ()) = Inl e \<Longrightarrow> \<exists>msg. e = Error msg"
proof -
  have "(sig ''FACP'' :: u8 list) \<noteq> sig ''APIC''" by (simp add: sig_def)
  moreover have "rd32 m (t + 40) AND 1 \<noteq> 0 \<longleftrightarrow> bit (rd32 m (t + 40)) 0"
    using bit_and_exp [of "rd32 m (t + 40)" 0] by simp
  then have "rd32 m (t + 40) AND 1 = 0 \<longleftrightarrow> \<not> bit (rd32 m (t + 40)) 0" by blast
  ultimately show "(if sig_matches m t ''FACP'' 4 then acpi_process_fadt L m t
     else if sig_matches m t ''APIC'' 4 then acpi_process_madt1 L m t else Inr ()) = Inr () \<longleftrightarrow> table_ok m t"
    using assms bit_and_exp [of "rd16 m (t + 109)" 5]
    by (auto simp: sig_matches_iff table_ok_def acpi_process_fadt_def acpi_process_madt1_def acpi_layout_ok_def o_madt_flags_def
        MADT_PCAT_COMPAT_def FADT_IAPC_NORTC_def not_less)
qed (auto simp: acpi_process_fadt_def acpi_process_madt1_def split: if_splits)

lemma check_tables_iff:
  assumes L: "acpi_layout_ok L"
  shows "check_tables L m x i n = Inr () \<longleftrightarrow> (\<forall>j. i \<le> j \<and> j < i + n \<longrightarrow> table_ok m (unat (rd64 m (x + 36 + 8 * j))))"
    and "check_tables L m x i n = Inl e \<Longrightarrow> \<exists>msg. e = Error msg"
proof -
  have o: "unat (o_tables L) = 36" using L by (simp add: acpi_layout_ok_def)
  show "check_tables L m x i n = Inr () \<longleftrightarrow> (\<forall>j. i \<le> j \<and> j < i + n \<longrightarrow> table_ok m (unat (rd64 m (x + 36 + 8 * j))))"
  proof (induction n arbitrary: i)
    case (Suc n)
    have "(\<forall>j. i \<le> j \<and> j < i + Suc n \<longrightarrow> P j) \<longleftrightarrow> P i \<and> (\<forall>j. i + 1 \<le> j \<and> j < i + 1 + n \<longrightarrow> P j)" for P :: "nat \<Rightarrow> bool"
    proof -
      have "i \<le> j \<and> j < i + Suc n \<longleftrightarrow> j = i \<or> i + 1 \<le> j \<and> j < i + 1 + n" for j by auto
      then show ?thesis by auto
    qed
    then show ?case
      using Suc.IH [of "i + 1"] one_table(1) [OF L] unfolding check_tables.simps Let_def o bindr_eq_Inr by simp
  qed auto
  show "check_tables L m x i n = Inl e \<Longrightarrow> \<exists>msg. e = Error msg"
  proof (induction n arbitrary: i)
    case (Suc n)
    then show ?case
      unfolding check_tables.simps Let_def bindr_eq_Inl using one_table(2) [OF L] by blast
  qed simp
qed

subsection \<open>acpi\_init as a whole\<close>

definition acpi_add :: "bparm_state \<Rightarrow> u64 \<Rightarrow> bparm_state res" where
  "acpi_add st rsdp =
     (let x = unat (rd64 (memory st) (unat rsdp + 24)) in
      bindr (bparm_add st BP_RSDP 12) (\<lambda>(bd, st').
        Inr (st'\<lparr> memory := wr32 (wr64 (memory st') (unat bd) rsdp) (unat bd + 8) (rd32 (memory st) (x + 4)) \<rparr>)))"

lemma acpi_init_ok:
  assumes L: "acpi_layout_ok L" and ok: "acpi_ok (memory st) (unat rsdp)"
  shows "acpi_init L st rsdp = acpi_add st rsdp"
proof -
  let ?m = "memory st" and ?r = "unat rsdp"
  let ?x = "unat (rd64 ?m (?r + 24))"
  let ?n = "rd32 ?m (?x + 4)"
  have l: "sizeof_header L = 36" "sizeof_xsdp L = 36" "unat (o_length L) = 4" "unat (o_revision L) = 15"
    "unat (o_xsdp_length L) = 20" "unat (o_xsdt L) = 24" using L by (simp_all add: acpi_layout_ok_def)
  have u: "unat (ucast ?n :: u64) = unat ?n" by (simp add: unat_ucast_up)
  have n: "44 \<le> unat ?n" using ok by (simp add: acpi_ok_def xsdt_ok_def Let_def)
  have c: "\<not> (ucast ?n :: u64) < ucast (36 :: u32) + 8" using n u by (simp add: word_less_nat_alt)
  have cnt: "unat (((ucast ?n :: u64) - ucast (36 :: u32)) div 8) = (unat ?n - 36) div 8"
    using n u by (simp add: unat_div unat_sub word_le_nat_alt)
  have "\<forall>j. 0 \<le> j \<and> j < 0 + (unat ?n - 36) div 8 \<longrightarrow> table_ok ?m (unat (rd64 ?m (?x + 36 + 8 * j)))"
    using ok by (simp add: acpi_ok_def xsdt_ok_def Let_def)
  then have t: "check_tables L ?m ?x 0 ((unat ?n - 36) div 8) = Inr ()" using check_tables_iff(1) [OF L] by blast
  have h: "get_bytes ?m ?r 8 = sig ''RSD PTR ''" "\<not> ?m (?r + 15) < 2" "\<not> rd32 ?m (?r + 20) < 36"
    "\<not> (compute_cksum (get_bytes ?m ?r 20) \<noteq> 0 \<or> compute_cksum (get_bytes ?m ?r (unat (rd32 ?m (?r + 20)))) \<noteq> 0)"
    "get_bytes ?m ?x 4 = sig ''XSDT''" "\<not> compute_cksum (get_bytes ?m ?x (unat ?n)) \<noteq> 0"
    using ok by (simp_all add: acpi_ok_def rsdp_ok_def xsdt_ok_def Let_def not_less word_le_nat_alt)
  show ?thesis
    unfolding acpi_init_def acpi_add_def Let_def l sig_matches_iff h(1,5) if_not_P [OF h(2)] if_not_P [OF h(3)]
      if_not_P [OF h(4)] if_not_P [OF h(6)] if_not_P [OF c] cnt t bindr_Inr
    by simp
qed

lemma acpi_init_bad:
  assumes L: "acpi_layout_ok L" and bad: "\<not> acpi_ok (memory st) (unat rsdp)"
  shows "\<exists>msg. acpi_init L st rsdp = Inl (Error msg)"
proof (rule ccontr)
  assume none: "\<not> ?thesis"
  let ?m = "memory st" and ?r = "unat rsdp"
  let ?x = "unat (rd64 ?m (?r + 24))"
  let ?n = "rd32 ?m (?x + 4)"
  have l: "sizeof_header L = 36" "sizeof_xsdp L = 36" "unat (o_length L) = 4" "unat (o_revision L) = 15"
    "unat (o_xsdp_length L) = 20" "unat (o_xsdt L) = 24" using L by (simp_all add: acpi_layout_ok_def)
  have u: "unat (ucast ?n :: u64) = unat ?n" by (simp add: unat_ucast_up)
  note run = none [unfolded acpi_init_def Let_def l sig_matches_iff]
  have h: "get_bytes ?m ?r 8 = sig ''RSD PTR ''" "\<not> ?m (?r + 15) < 2" "\<not> rd32 ?m (?r + 20) < 36"
    "\<not> (compute_cksum (get_bytes ?m ?r 20) \<noteq> 0 \<or> compute_cksum (get_bytes ?m ?r (unat (rd32 ?m (?r + 20)))) \<noteq> 0)"
    "get_bytes ?m ?x 4 = sig ''XSDT''" "\<not> compute_cksum (get_bytes ?m ?x (unat ?n)) \<noteq> 0"
    "\<not> (ucast ?n :: u64) < ucast (36 :: u32) + 8"
    using run by (auto split: if_splits)
  have n: "44 \<le> unat ?n" using h(7) u by (simp add: word_less_nat_alt)
  have cnt: "unat (((ucast ?n :: u64) - ucast (36 :: u32)) div 8) = (unat ?n - 36) div 8"
    using n u by (simp add: unat_div unat_sub word_le_nat_alt)
  have t: "check_tables L ?m ?x 0 ((unat ?n - 36) div 8) \<noteq> Inr ()"
  proof
    assume "check_tables L ?m ?x 0 ((unat ?n - 36) div 8) = Inr ()"
    then have "\<forall>j<(unat ?n - 36) div 8. table_ok ?m (unat (rd64 ?m (?x + 36 + 8 * j)))"
      using check_tables_iff(1) [OF L] by simp
    then have "acpi_ok ?m ?r"
      using h n by (simp add: acpi_ok_def rsdp_ok_def xsdt_ok_def Let_def not_less word_le_nat_alt)
    then show False using bad by blast
  qed
  then obtain e where e: "check_tables L ?m ?x 0 ((unat ?n - 36) div 8) = Inl e"
    by (cases "check_tables L ?m ?x 0 ((unat ?n - 36) div 8)") auto
  obtain msg where "e = Error msg" using check_tables_iff(2) [OF L e] by blast
  then show False
    using run h e unfolding cnt by simp
qed

lemma acpi_add_rep:
  assumes rep: "bparm_rep st ns" and eq: "acpi_add st rsdp = Inr st'"
  shows "\<exists>n. bparm_rep st' (ns @ [n]) \<and> bn_type n = BP_RSDP \<and>
    bn_data n = le_bytes 8 rsdp @ le_bytes 4 (rd32 (memory st) (unat (rd64 (memory st) (unat rsdp + 24)) + 4))"
proof -
  let ?sz = "rd32 (memory st) (unat (rd64 (memory st) (unat rsdp + 24)) + 4)"
  obtain bd st1 where add: "bparm_add st BP_RSDP 12 = Inr (bd, st1)"
    and st': "st' = st1\<lparr> memory := wr32 (wr64 (memory st1) (unat bd) rsdp) (unat bd + 8) ?sz \<rparr>"
    using eq by (auto simp: acpi_add_def Let_def bindr_eq_Inr)
  let ?m' = "wr32 (wr64 (memory st1) (unat bd) rsdp) (unat bd + 8) ?sz"
  obtain a where r: "bparm_rep st1 (ns @ [\<lparr> bn_addr = a, bn_type = BP_RSDP, bn_data = replicate 12 0 \<rparr>])" and p: "unat bd = a + 16"
    using bparm_add_rep [OF rep add] by (auto simp: sizeof_bparm_def)
  let ?n = "\<lparr> bn_addr = a, bn_type = BP_RSDP, bn_data = replicate 12 0 \<rparr>"
  have out: "?m' i = memory st1 i" if "i \<notin> bn_data_bytes ?n" for i
    using that p by (auto simp: bn_data_bytes_def sizeof_bparm_def wr32_def wr64_def put_bytes_def)
  have "bparm_rep st' (ns @ filled ?m' ?n # [])"
    unfolding st' using bparm_rep_fill [OF r out] by simp
  moreover have "?m' = put_bytes (memory st1) (unat bd) (le_bytes 8 rsdp @ le_bytes 4 ?sz)"
    unfolding wr32_def wr64_def by (rule put_put_append) simp
  then have "bn_data (filled ?m' ?n) = le_bytes 8 rsdp @ le_bytes 4 ?sz"
    using p by (simp add: filled_def sizeof_bparm_def)
  moreover have "bn_type (filled ?m' ?n) = BP_RSDP" by (simp add: filled_def)
  ultimately show ?thesis by blast
qed

lemma find_acpi_last:
  assumes "\<forall>c\<in>set cfts. length (fst c) = 16"
  shows "find_acpi cfts r = last (r # map snd (filter (\<lambda>c. fst c = Acpi20TableGuid) cfts))"
  using assms
proof (induction cfts arbitrary: r)
  case (Cons c cfts)
  have "length Acpi20TableGuid = 16" by (simp add: Acpi20TableGuid_def)
  then have "memcmp (fst c) Acpi20TableGuid 16 = Inr 0 \<longleftrightarrow> fst c = Acpi20TableGuid"
    using Cons.prems by (subst memcmp_zero_iff) auto
  then show ?case using Cons by (cases c) auto
qed simp

subsection \<open>An example of sound tables\<close>

definition acpi_ex_rsdp :: "u8 list" where
  "acpi_ex_rsdp = [82, 83, 68, 32, 80, 84, 82, 32, 223, 0, 0, 0, 0, 0, 0, 2, 0, 0, 0, 0, 36, 0, 0, 0, 0, 16, 80, 0, 0, 0, 0, 0, 124, 0, 0, 0]"

definition acpi_ex_xsdt :: "u8 list" where
  "acpi_ex_xsdt = [88, 83, 68, 84, 44, 0, 0, 0, 0, 33, 0, 0, 0, 0, 0, 0, 0, 0, 0, 0, 0, 0, 0, 0, 0, 0, 0, 0, 0, 0, 0, 0, 0, 0, 0, 0, 0, 32, 80, 0, 0, 0, 0, 0]"

definition acpi_ex_mem :: mem where
  "acpi_ex_mem = (put_bytes (put_bytes (put_bytes (\<lambda>_. 0) 0x500000 acpi_ex_rsdp) 0x501000 acpi_ex_xsdt) 0x502000 (sig ''APIC''))
     (0x502028 := 1)"

definition acpi_ex :: bparm_state where
  "acpi_ex = \<lparr> bmem = bmem_ex, memory = acpi_ex_mem, bp_head = 0, bp_tail = 0 \<rparr>"

lemma acpi_ex_rep: "bparm_rep acpi_ex []"
  using bmem_ex_wf by (simp add: acpi_ex_def bparm_rep_def)

lemma acpi_ex_sound:
  "acpi_ok (memory acpi_ex) 0x500000 \<and> rd64 (memory acpi_ex) 0x500018 = 0x501000 \<and> rd32 (memory acpi_ex) 0x501004 = 44"
proof -
  have l: "length acpi_ex_rsdp = 36" "length acpi_ex_xsdt = 44" "length (sig ''APIC'') = 4"
    by (simp_all add: acpi_ex_rsdp_def acpi_ex_xsdt_def sig_def)
  have m: "memory acpi_ex = acpi_ex_mem" by (simp add: acpi_ex_def)
  have out: "get_bytes (f(0x502028 := 1)) a n = get_bytes f a n" if "a + n \<le> 0x502028" for f :: mem and a n
    using that by (intro get_bytes_cong) auto
  have b: "j + n \<le> 36 \<Longrightarrow> get_bytes acpi_ex_mem (0x500000 + j) n = take n (drop j acpi_ex_rsdp)"
    "j + n \<le> 44 \<Longrightarrow> get_bytes acpi_ex_mem (0x501000 + j) n = take n (drop j acpi_ex_xsdt)" for j n
    by (simp_all add: acpi_ex_mem_def out get_put_disjoint get_put_within l)
  have r: "get_bytes acpi_ex_mem 0x500000 8 = sig ''RSD PTR ''" "rd32 acpi_ex_mem 0x500014 = 36"
    "rd64 acpi_ex_mem 0x500018 = 0x501000" "get_bytes acpi_ex_mem 0x50000f 1 = [2]"
    "compute_cksum (get_bytes acpi_ex_mem 0x500000 20) = 0" "compute_cksum (get_bytes acpi_ex_mem 0x500000 36) = 0"
    using b(1) [of 0 8] b(1) [of 20 4] b(1) [of 24 8] b(1) [of 15 1] b(1) [of 0 20] b(1) [of 0 36]
    by (simp_all add: rd32_def rd64_def acpi_ex_rsdp_def sig_def compute_cksum_def)
  have x: "get_bytes acpi_ex_mem 0x501000 4 = sig ''XSDT''" "rd32 acpi_ex_mem 0x501004 = 44"
    "rd64 acpi_ex_mem 0x501024 = 0x502000" "compute_cksum (get_bytes acpi_ex_mem 0x501000 44) = 0"
    using b(2) [of 0 4] b(2) [of 4 4] b(2) [of 36 8] b(2) [of 0 44]
    by (simp_all add: rd32_def rd64_def acpi_ex_xsdt_def sig_def compute_cksum_def)
  have t: "get_bytes acpi_ex_mem 0x502000 4 = sig ''APIC''" by (simp add: acpi_ex_mem_def out l)
  have "rd32 acpi_ex_mem 0x502028 = 1"
    by (simp add: rd32_def get_bytes_four acpi_ex_mem_def put_bytes_def l)
  then have "table_ok acpi_ex_mem 0x502000" using t by (simp add: table_ok_def sig_def)
  moreover have "acpi_ex_mem 0x50000f = 2" using r(4) by (simp add: get_bytes_def)
  ultimately show ?thesis
    using r x by (simp add: acpi_ok_def rsdp_ok_def xsdt_ok_def m)
qed

lemmas acpi_ex_ok = acpi_ex_sound [THEN conjunct1] and acpi_ex_pointers = acpi_ex_sound [THEN conjunct2]

subsection \<open>Properties\<close>

text \<open>
  C14. Stage 1 takes the last ACPI 2.0 pointer among the firmware's tables and goes on exactly when
  it is there, the root pointer and the system description table have their signatures, sizes and
  checksums, and no table rules out legacy hardware; otherwise it stops with an error. When it
  goes on and there is memory, it appends one boot parameter with the address of the root pointer
  and, as its size, the length of the system description table.
\<close>

theorem acpi_parameter_correct:
  assumes "acpi_layout_ok L" and "bparm_rep st ns" and "\<forall>c\<in>set cfts. length (fst c) = 16"
  shows "let ps = map snd (filter (\<lambda>c. fst c = Acpi20TableGuid) cfts); rsdp = last ps; m = memory st;
      result = process_efi_conf_tables L st cfts in
    if ps = [] \<or> rsdp = 0 \<or> \<not> acpi_ok m (unat rsdp) then \<exists>msg. result = Inl (Error msg)
    else (\<exists>e. bparm_add st BP_RSDP 12 = Inl e \<and> result = Inl e) \<or>
      (\<exists>st' n. result = Inr st' \<and> bparm_rep st' (ns @ [n]) \<and> bn_type n = BP_RSDP \<and>
         bn_data n = le_bytes 8 rsdp @ le_bytes 4 (rd32 m (unat (rd64 m (unat rsdp + 24)) + 4)))"
proof -
  let ?ps = "map snd (filter (\<lambda>c. fst c = Acpi20TableGuid) cfts)"
  have p: "find_acpi cfts 0 = (if ?ps = [] then 0 else last ?ps)" unfolding find_acpi_last [OF assms(3)] by simp
  show ?thesis
  proof (cases "?ps = [] \<or> last ?ps = 0 \<or> \<not> acpi_ok (memory st) (unat (last ?ps))")
    case True
    then have "\<exists>msg. process_efi_conf_tables L st cfts = Inl (Error msg)"
      using acpi_init_bad [OF assms(1)] unfolding process_efi_conf_tables_def Let_def p by auto
    then show ?thesis using True unfolding Let_def by (subst if_P)
  next
    case False
    then have run: "process_efi_conf_tables L st cfts = acpi_add st (last ?ps)"
      using acpi_init_ok [OF assms(1)] unfolding process_efi_conf_tables_def Let_def p by auto
    show ?thesis
    proof (cases "bparm_add st BP_RSDP 12")
      case (Inl e)
      then have "acpi_add st (last ?ps) = Inl e" by (simp add: acpi_add_def)
      then show ?thesis unfolding Let_def if_not_P [OF False] run Inl by blast
    next
      case (Inr x)
      then obtain st' where st': "acpi_add st (last ?ps) = Inr st'" by (cases x) (simp add: acpi_add_def Let_def)
      show ?thesis using acpi_add_rep [OF assms(2) st'] unfolding Let_def if_not_P [OF False] run st' by blast
    qed
  qed
qed

theorem acpi_parameter_correct_witness:
  "bparm_rep acpi_ex [] \<and> (\<exists>st' n. process_efi_conf_tables acpi_6 acpi_ex [(Acpi20TableGuid, 0x500000)] = Inr st' \<and>
     bparm_rep st' [n] \<and> bn_data n = le_bytes 8 (0x500000 :: u64) @ le_bytes 4 (44 :: u32))"
proof -
  have g: "\<forall>c\<in>set [(Acpi20TableGuid, 0x500000 :: u64)]. length (fst c) = 16" by (simp add: Acpi20TableGuid_def)
  have "\<exists>a bm. bmem_alloc_boottime bmem_ex 28 8 = Inr (a, bm)"
    by (simp add: bmem_ex_def bmem_alloc_boottime_def bmem_alloc_boottime_from.simps Let_def)
  then obtain x where add: "bparm_add acpi_ex BP_RSDP 12 = Inr x"
    by (auto simp: bparm_add_def acpi_ex_def sizeof_bparm_def Let_def)
  have m: "rd64 (memory acpi_ex) 0x500018 = 0x501000" "rd32 (memory acpi_ex) 0x501004 = 44" 
    using acpi_ex_pointers by simp_all
  have "\<exists>st' n. process_efi_conf_tables acpi_6 acpi_ex [(Acpi20TableGuid, 0x500000)] = Inr st' \<and> bparm_rep st' ([] @ [n]) \<and>
      bn_type n = BP_RSDP \<and> bn_data n = le_bytes 8 (0x500000 :: u64) @ le_bytes 4 (44 :: u32)"
    using acpi_parameter_correct [OF acpi_6_ok acpi_ex_rep g] acpi_ex_ok add m by (simp add: Let_def)
  then show ?thesis using acpi_ex_rep by auto
qed

end
