(* ===== verification/Acpi_Walk.thy ===== *)
theory Acpi_Walk
  imports Va_Session Bparm Acpi_Layout
begin

text \<open>
  The ACPI part of the interrupt set-up of stage 2 (\<^verbatim>\<open>stage2/irq.c\<close>): the walk over the ACPI
  tables, mapped one by one into virtual memory, that masks the interrupts of all I/O APICs.
  Pointers are virtual addresses that the page tables translate at each access; the devices
  behind memory-mapped registers are a parameter.
\<close>

unbundle bit_operations_syntax

subsection \<open>Memory behind the page tables\<close>

fun vget :: "vm \<Rightarrow> u32 \<Rightarrow> nat \<Rightarrow> u8 list res" where
  "vget s va 0 = Inr []"
| "vget s va (Suc n) =
     (case translate s va of
        None \<Rightarrow> Inl Page_fault
      | Some (pa, _) \<Rightarrow> bindr (vget s (va + 1) n) (\<lambda>bs. Inr (vm_mem s (unat pa) # bs)))"

definition vrd8 :: "vm \<Rightarrow> u32 \<Rightarrow> u8 res" where
  "vrd8 s va = bindr (vget s va 1) (\<lambda>bs. Inr (le_word bs))"

definition vrd32 :: "vm \<Rightarrow> u32 \<Rightarrow> u32 res" where
  "vrd32 s va = bindr (vget s va 4) (\<lambda>bs. Inr (le_word bs))"

definition vrd64 :: "vm \<Rightarrow> u32 \<Rightarrow> u64 res" where
  "vrd64 s va = bindr (vget s va 8) (\<lambda>bs. Inr (le_word bs))"

text \<open>Registers of devices, by physical address.\<close>

record 'd mmio =
  mm_read :: "u64 \<Rightarrow> 'd \<Rightarrow> u32 \<times> 'd"
  mm_write :: "u64 \<Rightarrow> u32 \<Rightarrow> 'd \<Rightarrow> 'd"

definition dev_read :: "'d mmio \<Rightarrow> vm \<Rightarrow> u32 \<Rightarrow> 'd \<Rightarrow> (u32 \<times> 'd) res" where
  "dev_read mm s va d = (case translate s va of None \<Rightarrow> Inl Page_fault | Some (pa, _) \<Rightarrow> Inr (mm_read mm pa d))"

definition dev_write :: "'d mmio \<Rightarrow> vm \<Rightarrow> u32 \<Rightarrow> u32 \<Rightarrow> 'd \<Rightarrow> 'd res" where
  "dev_write mm s va v d = (case translate s va of None \<Rightarrow> Inl Page_fault | Some (pa, _) \<Rightarrow> Inr (mm_write mm pa v d))"

subsection \<open>Mapping a table\<close>

definition acpi_map_tab :: "acpi_layout \<Rightarrow> vm \<Rightarrow> u64 \<Rightarrow> (u32 \<times> vm) res option" where
  "acpi_map_tab L s tab64 =
     bindo (mem_va_map s tab64 (sizeof_table L) 0) (\<lambda>(tab, s1).
       bindo (Some (vrd32 s1 (tab + o_length L))) (\<lambda>sz.
         if sz > sizeof_table L
         then bindo (mem_va_unmap s1 tab (sizeof_table L)) (\<lambda>s2. mem_va_map s2 tab64 sz 0)
         else Some (Inr (tab, s1))))"

definition acpi_unmap_tab :: "acpi_layout \<Rightarrow> vm \<Rightarrow> u32 \<Rightarrow> vm res option" where
  "acpi_unmap_tab L s tab =
     bindo (Some (vrd32 s (tab + o_length L))) (\<lambda>sz.
       mem_va_unmap s tab (if sz < sizeof_table L then sizeof_table L else sz))"

subsection \<open>I/O APICs\<close>

definition o_IOREGSEL :: u32 where "o_IOREGSEL = 0x0000"
definition o_IOREGWIN :: u32 where "o_IOREGWIN = 0x0010"
definition sizeof_ioapic :: u32 where "sizeof_ioapic = 0x20"
definition IOREDTBLLO :: "u32 \<Rightarrow> u32" where "IOREDTBLLO idx = 0x10 + 2 * idx"
definition IOAPIC_RTLO_MASKED :: u32 where "IOAPIC_RTLO_MASKED = 0x00010000"

text \<open>The loop over the interrupts; the last argument counts those left.\<close>

fun mask_intrs :: "'d mmio \<Rightarrow> vm \<Rightarrow> u32 \<Rightarrow> u32 \<Rightarrow> nat \<Rightarrow> 'd \<Rightarrow> 'd res" where
  "mask_intrs mm s ioapic io_intr 0 d = Inr d"
| "mask_intrs mm s ioapic io_intr (Suc n) d =
     bindr (dev_write mm s (ioapic + o_IOREGSEL) (IOREDTBLLO io_intr) d) (\<lambda>d.
     bindr (dev_read mm s (ioapic + o_IOREGWIN) d) (\<lambda>(v, d).
     bindr (dev_write mm s (ioapic + o_IOREGWIN) (v OR IOAPIC_RTLO_MASKED) d) (\<lambda>d.
       mask_intrs mm s ioapic (io_intr + 1) n d)))"

definition mask_ioapic :: "'d mmio \<Rightarrow> u32 \<Rightarrow> vm \<times> 'd \<Rightarrow> (vm \<times> 'd) res option" where
  "mask_ioapic mm u = (\<lambda>(s, d).
     bindo (Some (vrd32 s (u + o_ioapic_phy))) (\<lambda>ioapic_phy.
     bindo (mem_va_map s (ucast ioapic_phy) sizeof_ioapic PTE_CD) (\<lambda>(ioapic, s).
     bindo (Some (mask_intrs mm s ioapic 0 24 d)) (\<lambda>d.
     bindo (mem_va_unmap s ioapic sizeof_ioapic) (\<lambda>s.
       Some (Inr (s, d)))))))"

subsection \<open>The tables\<close>

partial_function (option) madt_ics :: "'d mmio \<Rightarrow> u32 \<Rightarrow> u32 \<Rightarrow> vm \<times> 'd \<Rightarrow> (vm \<times> 'd) res option" where
  "madt_ics mm ic madt_end x =
     (if ic = madt_end then Some (Inr x)
      else
        bindo (Some (vrd8 (fst x) (ic + o_ic_type))) (\<lambda>type.
        bindo (if type = MADT_IC_IOAPIC then mask_ioapic mm ic x else Some (Inr x)) (\<lambda>x.
        bindo (Some (vrd8 (fst x) (ic + o_ic_length))) (\<lambda>len.
          madt_ics mm (ic + ucast len) madt_end x))))"

definition acpi_process_madt :: "acpi_layout \<Rightarrow> 'd mmio \<Rightarrow> u32 \<Rightarrow> vm \<times> 'd \<Rightarrow> (vm \<times> 'd) res option" where
  "acpi_process_madt L mm madt x =
     bindo (Some (vrd32 (fst x) (madt + o_length L))) (\<lambda>len.
       madt_ics mm (madt + o_ics L) (madt + len) x)"

fun xsdt_tables :: "acpi_layout \<Rightarrow> 'd mmio \<Rightarrow> u32 \<Rightarrow> u32 \<Rightarrow> nat \<Rightarrow> vm \<times> 'd \<Rightarrow> (vm \<times> 'd) res option" where
  "xsdt_tables L mm xsdt i 0 x = Some (Inr x)"
| "xsdt_tables L mm xsdt i (Suc n) x =
     bindo (Some (vrd64 (fst x) (xsdt + o_tables L + 8 * i))) (\<lambda>tab64.
     bindo (acpi_map_tab L (fst x) tab64) (\<lambda>(tab, s).
     bindo (Some (vget s tab 4)) (\<lambda>signature.
     bindo (if signature = sig ''APIC'' then acpi_process_madt L mm tab (s, snd x) else Some (Inr (s, snd x))) (\<lambda>(s, d).
     bindo (acpi_unmap_tab L s tab) (\<lambda>s.
       xsdt_tables L mm xsdt (i + 1) n (s, d))))))"

definition acpi_process_xsdt :: "acpi_layout \<Rightarrow> 'd mmio \<Rightarrow> u32 \<Rightarrow> vm \<times> 'd \<Rightarrow> (vm \<times> 'd) res option" where
  "acpi_process_xsdt L mm xsdt x =
     bindo (Some (vrd32 (fst x) (xsdt + o_length L))) (\<lambda>xsdt_sz.
       xsdt_tables L mm xsdt 0 (unat ((xsdt_sz - sizeof_header L) div 8)) x)"

definition acpi_process_rsdp :: "acpi_layout \<Rightarrow> 'd mmio \<Rightarrow> u32 \<Rightarrow> vm \<times> 'd \<Rightarrow> (vm \<times> 'd) res option" where
  "acpi_process_rsdp L mm rsdp x =
     bindo (Some (vget (fst x) rsdp 8)) (\<lambda>signature.
       if signature \<noteq> sig ''RSD PTR '' then Some (Inl Hlt)
       else
         bindo (Some (vrd64 (fst x) (rsdp + o_xsdt L))) (\<lambda>xsdt64.
         bindo (acpi_map_tab L (fst x) xsdt64) (\<lambda>(xsdt, s).
         bindo (acpi_process_xsdt L mm xsdt (s, snd x)) (\<lambda>(s, d).
         bindo (acpi_unmap_tab L s xsdt) (\<lambda>s. Some (Inr (s, d)))))))"

subsection \<open>The root pointer among the boot parameters\<close>

text \<open>The search for the root pointer has no test for the end of the list.\<close>

partial_function (option) find_rsdp :: "vm \<Rightarrow> u32 \<Rightarrow> u32 res option" where
  "find_rsdp s bp =
     bindo (Some (vrd32 s (bp + 8))) (\<lambda>type.
       if type \<noteq> BP_RSDP then bindo (Some (vrd32 s bp)) (\<lambda>nxt. find_rsdp s nxt) else Some (Inr bp))"

definition o_rsdp_phy_addr :: u32 where "o_rsdp_phy_addr = 0"
definition o_rsdp_sz :: u32 where "o_rsdp_sz = 8"

end
