(* ===== verification/Acpi_Read.thy ===== *)
theory Acpi_Read
  imports Acpi_Walk
begin

text \<open>
  What the ACPI walk of stage 2 relies on: the memory manager fails only for want of memory, a mapped block reads as
  the physical memory it was made for, and a run of mapping, reading and unmapping keeps the
  session's invariant.
\<close>

unbundle bit_operations_syntax

subsection \<open>Runs that end well or for want of memory\<close>

text \<open>
  The run ends; when it fails, it halted or the RAM of \<open>s0\<close> did not hold the page tables; and when it
  succeeds, \<open>P\<close> holds of the result.
\<close>

definition safe_run :: "vm \<Rightarrow> 'a res option \<Rightarrow> ('a \<Rightarrow> bool) \<Rightarrow> bool" where
  "safe_run s0 r P \<longleftrightarrow> (\<exists>x. r = Some x \<and> (\<forall>e. x = Inl e \<longrightarrow> vm_error s0 e) \<and> (\<forall>y. x = Inr y \<longrightarrow> P y))"

lemma safe_run_Inr: "safe_run s0 (Some (Inr x)) P \<longleftrightarrow> P x"
  by (simp add: safe_run_def)

lemma safe_run_bind:
  assumes r: "safe_run s0 r P" and f: "\<And>x. P x \<Longrightarrow> safe_run s0 (f x) Q"
  shows "safe_run s0 (bindo r f) Q"
proof -
  obtain x where x: "r = Some x" "\<And>e. x = Inl e \<Longrightarrow> vm_error s0 e" "\<And>y. x = Inr y \<Longrightarrow> P y" using r by (auto simp: safe_run_def)
  show ?thesis
  proof (cases x)
    case (Inl e)
    then show ?thesis using x(1,2) by (simp add: safe_run_def)
  next
    case (Inr y)
    then show ?thesis using x(1) f [OF x(3) [OF Inr]] by simp
  qed
qed

text \<open>A read that succeeds.\<close>

lemma safe_run_read: "m = Inr x \<Longrightarrow> safe_run s0 (f x) P \<Longrightarrow> safe_run s0 (bindo (Some m) f) P"
  by simp

subsection \<open>Reading a block\<close>

lemma get_bytes_Suc: "get_bytes m a (Suc n) = m a # get_bytes m (Suc a) n"
  by (simp add: get_bytes_def upt_conv_Cons del: upt_Suc)

definition vb_foreign :: "vm \<Rightarrow> va_block \<Rightarrow> bool" where
  "vb_foreign s b \<longleftrightarrow> unat (vb_pa b) + unat (vb_sz b) \<le> 2 ^ 52 \<and>
     {unat (vb_pa b)..<unat (vb_pa b) + unat (vb_sz b)} \<inter> vm_owned s = {}"

lemma block_translates:
  assumes "session_inv s0 (s, bs)" and "b \<in> set bs" and "i < unat (vb_sz b)"
  shows "translate s (vb_va b + word_of_nat i) = Some (vb_pa b + word_of_nat i, flag_bits (vb_flags b))"
  using session_inv_safe(1) [OF assms(1)] assms(2,3) by blast

lemma unat_pa:
  assumes "vb_foreign s b" and "i < unat (vb_sz b)"
  shows "unat (vb_pa b + word_of_nat i) = unat (vb_pa b) + i"
proof -
  have i: "unat (vb_pa b) + i < 2 ^ 52" using assms by (simp add: vb_foreign_def)
  then have "unat (word_of_nat i :: u64) = i" by (simp add: unat_of_nat)
  then show ?thesis using i by (subst unat_add_nowrap) simp_all
qed

lemma vget_block:
  assumes inv: "session_inv s0 (s, bs)" and b: "b \<in> set bs" and f: "vb_foreign s0 b"
  shows "i + n \<le> unat (vb_sz b) \<Longrightarrow> vget s (vb_va b + word_of_nat i) n = Inr (get_bytes (vm_mem s0) (unat (vb_pa b) + i) n)"
proof (induction n arbitrary: i)
  case 0
  show ?case by (simp add: get_bytes_def)
next
  case (Suc n)
  then have i: "i < unat (vb_sz b)" "Suc i + n \<le> unat (vb_sz b)" by simp_all
  have "unat (vb_pa b) + i \<in> {unat (vb_pa b)..<unat (vb_pa b) + unat (vb_sz b)}" using i(1) by simp
  then have "unat (vb_pa b) + i \<notin> vm_owned s0" using f unfolding vb_foreign_def by blast
  then have "vm_mem s (unat (vb_pa b) + i) = vm_mem s0 (unat (vb_pa b) + i)"
    using session_inv_safe(6) [OF inv] by blast
  moreover have "vget s (vb_va b + word_of_nat i + 1) n = vget s (vb_va b + word_of_nat (Suc i)) n" by (simp add: algebra_simps)
  ultimately show ?case
    unfolding vget.simps using Suc.IH [OF i(2)] block_translates [OF inv b i(1)] unat_pa [OF f i(1)] by (simp only:) (simp add: get_bytes_Suc)
qed

lemma vrd_block:
  assumes "session_inv s0 (s, bs)" and "b \<in> set bs" and "vb_foreign s0 b"
  shows "i + 1 \<le> unat (vb_sz b) \<Longrightarrow> vrd8 s (vb_va b + word_of_nat i) = Inr (vm_mem s0 (unat (vb_pa b) + i))"
    and "i + 4 \<le> unat (vb_sz b) \<Longrightarrow> vrd32 s (vb_va b + word_of_nat i) = Inr (rd32 (vm_mem s0) (unat (vb_pa b) + i))"
    and "i + 8 \<le> unat (vb_sz b) \<Longrightarrow> vrd64 s (vb_va b + word_of_nat i) = Inr (rd64 (vm_mem s0) (unat (vb_pa b) + i))"
proof -
  have one: "le_word (get_bytes m a 1) = m a" for m :: mem and a by (simp add: get_bytes_def)
  show "i + 1 \<le> unat (vb_sz b) \<Longrightarrow> vrd8 s (vb_va b + word_of_nat i) = Inr (vm_mem s0 (unat (vb_pa b) + i))"
    using vget_block [OF assms, of i 1] by (simp only: vrd8_def bindr_Inr one)
  show "i + 4 \<le> unat (vb_sz b) \<Longrightarrow> vrd32 s (vb_va b + word_of_nat i) = Inr (rd32 (vm_mem s0) (unat (vb_pa b) + i))"
    "i + 8 \<le> unat (vb_sz b) \<Longrightarrow> vrd64 s (vb_va b + word_of_nat i) = Inr (rd64 (vm_mem s0) (unat (vb_pa b) + i))"
    using vget_block [OF assms, of i 4] vget_block [OF assms, of i 8]
    by (simp_all only: vrd32_def vrd64_def rd32_def rd64_def bindr_Inr)
qed

subsection \<open>Mapping and unmapping in a session\<close>

lemma safe_map:
  assumes inv: "session_inv s0 (s, bs)" and ok: "va_req_ok (pa, sz, fl)"
  shows "safe_run s0 (mem_va_map s pa sz fl)
    (\<lambda>(v, s'). session_inv s0 (s', \<lparr> vb_va = v, vb_pa = pa, vb_sz = sz, vb_flags = fl \<rparr> # bs))"
proof -
  have wf: "va_wf s" "pages_taken s0 s" using inv by (simp_all add: session_inv_def)
  obtain r where r: "mem_va_map s pa sz fl = Some r" and err: "\<And>e. r = Inl e \<Longrightarrow> vm_error s e"
    using mem_va_map_spec [OF wf(1), of fl sz pa] ok by (auto simp: va_req_ok_def)
  then have "\<And>e. r = Inl e \<Longrightarrow> vm_error s0 e" using vm_error_later [OF wf(2)] by blast
  then show ?thesis using r session_inv_map [OF inv ok] by (auto simp: safe_run_def)
qed

lemma safe_unmap:
  assumes inv: "session_inv s0 (s, b # bs)"
  shows "safe_run s0 (mem_va_unmap s (vb_va b) (vb_sz b)) (\<lambda>s'. session_inv s0 (s', bs))"
proof -
  have b: "b \<in> set (b # bs)" by simp
  obtain r where r: "mem_va_unmap s (vb_va b) (vb_sz b) = Some r" "\<And>e. r = Inl e \<Longrightarrow> vm_error s0 e"
    using unmap_live [OF inv b] by (auto simp: vm_error_def)
  then show ?thesis using session_inv_unmap [OF inv b] by (auto simp: safe_run_def)
qed

end
