(* ===== verification/Acpi_Correct.thy ===== *)
theory Acpi_Correct
  imports Acpi_Read
begin

text \<open>
  The correctness of the ACPI walk of stage 2: over tables that are well formed in physical memory
  it ends without a fault, masks exactly the interrupts of the I/O APICs they list, and leaves
  virtual memory as it was.
\<close>

unbundle bit_operations_syntax

subsection \<open>I/O APICs\<close>

text \<open>
  An I/O APIC at physical address \<open>b\<close> has a register that selects another one, and a window on
  the selected one; \<open>sel\<close> and \<open>reg\<close> read both off the state of all devices.
\<close>

definition ioapic_law :: "'d mmio \<Rightarrow> u64 set \<Rightarrow> ('d \<Rightarrow> u64 \<Rightarrow> u32) \<Rightarrow> ('d \<Rightarrow> u64 \<Rightarrow> u32 \<Rightarrow> u32) \<Rightarrow> bool" where
  "ioapic_law mm B sel reg \<longleftrightarrow> (\<forall>b\<in>B. \<forall>d v.
     sel (mm_write mm b v d) = (sel d)(b := v) \<and> reg (mm_write mm b v d) = reg d \<and>
     sel (mm_write mm (b + 0x10) v d) = sel d \<and>
     reg (mm_write mm (b + 0x10) v d) = (reg d)(b := (reg d b)(sel d b := v)) \<and>
     mm_read mm (b + 0x10) d = (reg d b (sel d b), d))"

text \<open>The low words of \<open>n\<close> redirection entries from entry \<open>k\<close> on are masked.\<close>

definition mask_regs :: "nat \<Rightarrow> nat \<Rightarrow> (u32 \<Rightarrow> u32) \<Rightarrow> u32 \<Rightarrow> u32" where
  "mask_regs k n f r = (if r \<in> (\<lambda>j. 0x10 + 2 * word_of_nat j) ` {k..<k + n} then f r OR 0x10000 else f r)"

lemma redir_inj:
  assumes "j < 24" and "j' < 24" and "(0x10 + 2 * word_of_nat j :: u32) = 0x10 + 2 * word_of_nat j'"
  shows "j = j'"
proof -
  have "unat (0x10 + 2 * word_of_nat i :: u32) = 16 + 2 * i" if "i < 24" for i
  proof -
    have "(0x10 + 2 * word_of_nat i :: u32) = word_of_nat (16 + 2 * i)" by simp
    then show ?thesis using that by (simp add: unat_of_nat del: of_nat_add of_nat_mult)
  qed
  then show ?thesis using assms by (metis add_left_cancel mult_cancel1 zero_neq_numeral)
qed

lemma mask_regs_Suc:
  assumes "k + Suc n \<le> 24"
  shows "mask_regs k (Suc n) f = mask_regs (Suc k) n (f(0x10 + 2 * word_of_nat k := f (0x10 + 2 * word_of_nat k) OR 0x10000))"
proof
  fix r :: u32
  have "{k..<k + Suc n} = insert k {Suc k..<Suc k + n}" by auto
  moreover have "(0x10 + 2 * word_of_nat k :: u32) \<notin> (\<lambda>j. 0x10 + 2 * word_of_nat j) ` {Suc k..<Suc k + n}"
  proof
    assume "(0x10 + 2 * word_of_nat k :: u32) \<in> (\<lambda>j. 0x10 + 2 * word_of_nat j) ` {Suc k..<Suc k + n}"
    then obtain j where j: "Suc k \<le> j" "j < Suc k + n" "(0x10 + 2 * word_of_nat k :: u32) = 0x10 + 2 * word_of_nat j" by auto
    have "k = j" by (rule redir_inj [OF _ _ j(3)]) (use j(1,2) assms in simp_all)
    then show False using j(1) by simp
  qed
  ultimately show "mask_regs k (Suc n) f r =
      mask_regs (Suc k) n (f(0x10 + 2 * word_of_nat k := f (0x10 + 2 * word_of_nat k) OR 0x10000)) r"
    by (auto simp: mask_regs_def)
qed

lemma mask_intrs_spec:
  assumes law: "ioapic_law mm B sel reg" and b: "b \<in> B"
    and t: "translate s va = Some (b, fl)" "translate s (va + 0x10) = Some (b + 0x10, fl)"
  shows "k + n \<le> 24 \<Longrightarrow> \<exists>d'. mask_intrs mm s va (word_of_nat k) n d = Inr d' \<and>
    reg d' = (reg d)(b := mask_regs k n (reg d b))"
proof (induction n arbitrary: k d)
  case 0
  show ?case by (simp add: mask_regs_def fun_upd_idem)
next
  case (Suc n)
  note l = law [unfolded ioapic_law_def, rule_format, OF b]
  let ?r = "0x10 + 2 * word_of_nat k :: u32"
  let ?d1 = "mm_write mm b ?r d"
  let ?d2 = "mm_write mm (b + 0x10) (reg d b ?r OR 0x10000) ?d1"
  have d2: "reg ?d2 = (reg d)(b := (reg d b)(?r := reg d b ?r OR 0x10000))" using l by simp
  have run: "mask_intrs mm s va (word_of_nat k) (Suc n) d = mask_intrs mm s va (word_of_nat (Suc k)) n ?d2"
    using l t by (simp add: dev_write_def dev_read_def o_IOREGSEL_def o_IOREGWIN_def IOREDTBLLO_def IOAPIC_RTLO_MASKED_def
        add.commute)
  obtain d' where "mask_intrs mm s va (word_of_nat (Suc k)) n ?d2 = Inr d'"
    "reg d' = (reg ?d2)(b := mask_regs (Suc k) n (reg ?d2 b))"
    using Suc.IH [of "Suc k" ?d2] Suc.prems by (metis add_Suc_shift)
  then show ?case unfolding run d2 mask_regs_Suc [OF Suc.prems] fun_upd_upd fun_upd_same by blast
qed

text \<open>All I/O APICs at the addresses of a set.\<close>

definition masked_at :: "u64 set \<Rightarrow> (u64 \<Rightarrow> u32 \<Rightarrow> u32) \<Rightarrow> u64 \<Rightarrow> u32 \<Rightarrow> u32" where
  "masked_at A f = (\<lambda>b. if b \<in> A then mask_regs 0 24 (f b) else f b)"

lemma masked_at_empty: "masked_at {} f = f"
  by (simp add: masked_at_def)

lemma mask_regs_idem: "mask_regs k n (mask_regs k n f) = mask_regs k n f"
  by (rule ext) (auto simp: mask_regs_def or.assoc)

lemma masked_at_Un: "masked_at A (masked_at A' f) = masked_at (A \<union> A') f"
  by (rule ext) (auto simp: masked_at_def mask_regs_idem)

lemma mask_ioapic_spec:
  assumes law: "ioapic_law mm B sel reg" and x: "ucast x \<in> B"
    and inv: "session_inv s0 (s, bs)" and rd: "vrd32 s (u + o_ioapic_phy) = Inr x"
  shows "safe_run s0 (mask_ioapic mm u (s, d)) (\<lambda>(s', d'). session_inv s0 (s', bs) \<and> reg d' = masked_at {ucast x} (reg d))"
proof -
  have p: "unat (ucast x :: u64) = unat x" by (simp add: unat_ucast_up)
  have ok: "va_req_ok (ucast x, sizeof_ioapic, PTE_CD)"
    using unat_lt [of x] by (simp add: va_req_ok_def flags_ok_def pg_consts sizeof_ioapic_def p)
  show ?thesis
    unfolding mask_ioapic_def prod.case
  proof (rule safe_run_read [OF rd], rule safe_run_bind [OF safe_map [OF inv ok]], clarify)
    fix v s1
    let ?b = "\<lparr> vb_va = v, vb_pa = ucast x, vb_sz = sizeof_ioapic, vb_flags = PTE_CD \<rparr>"
    assume inv1: "session_inv s0 (s1, ?b # bs)"
    have t: "translate s1 v = Some (ucast x, flag_bits PTE_CD)" "translate s1 (v + 0x10) = Some (ucast x + 0x10, flag_bits PTE_CD)"
      using block_translates [OF inv1, of ?b 0] block_translates [OF inv1, of ?b 16] by (simp_all add: sizeof_ioapic_def)
    obtain d' where d': "mask_intrs mm s1 v 0 24 d = Inr d'" "reg d' = (reg d)(ucast x := mask_regs 0 24 (reg d (ucast x)))"
      using mask_intrs_spec [OF law x t, of 0 24 d] by auto
    have reg: "reg d' = masked_at {ucast x} (reg d)" unfolding d'(2) by (rule ext) (simp add: masked_at_def)
    show "safe_run s0 (bindo (Some (mask_intrs mm s1 v 0 24 d)) (\<lambda>d. bindo (mem_va_unmap s1 v sizeof_ioapic) (\<lambda>s. Some (Inr (s, d)))))
        (\<lambda>(s', d'). session_inv s0 (s', bs) \<and> reg d' = masked_at {ucast x} (reg d))"
      by (rule safe_run_read [OF d'(1)], rule safe_run_bind [OF safe_unmap [OF inv1, simplified]])
        (simp add: safe_run_Inr reg)
  qed
qed

subsection \<open>Tables in physical memory\<close>

definition tab_size :: "acpi_layout \<Rightarrow> nat \<Rightarrow> nat" where
  "tab_size L n = max n (unat (sizeof_table L))"

text \<open>A table of \<open>n\<close> bytes at address \<open>p\<close>, apart from the memory that the page tables may use.\<close>

definition table_at :: "acpi_layout \<Rightarrow> vm \<Rightarrow> u64 \<Rightarrow> nat \<Rightarrow> bool" where
  "table_at L s p n \<longleftrightarrow> unat p + tab_size L n \<le> 2 ^ 52 \<and> unat (rd32 (vm_mem s) (unat p + 4)) = n \<and>
     {unat p..<unat p + tab_size L n} \<inter> vm_owned s = {}"

definition tab_block :: "acpi_layout \<Rightarrow> u32 \<Rightarrow> u64 \<Rightarrow> nat \<Rightarrow> va_block" where
  "tab_block L v p n = \<lparr> vb_va = v, vb_pa = p, vb_sz = word_of_nat (tab_size L n), vb_flags = 0 \<rparr>"

lemma tab_size_bounds:
  assumes "table_at L s p n" and "acpi_layout_ok L"
  shows "unat (word_of_nat (tab_size L n) :: u32) = tab_size L n" "n \<le> tab_size L n" "111 \<le> tab_size L n"
    "unat (sizeof_table L) \<le> tab_size L n"
proof -
  have "n < 2 ^ 32" using assms(1) unat_lt [of "rd32 (vm_mem s) (unat p + 4)"] by (auto simp: table_at_def)
  then have "tab_size L n < 2 ^ 32" using unat_lt [of "sizeof_table L"] by (simp add: tab_size_def)
  then show "unat (word_of_nat (tab_size L n) :: u32) = tab_size L n" by (simp add: unat_of_nat)
  have "111 \<le> unat (sizeof_table L)" using assms(2) by (simp add: acpi_layout_ok_def word_le_nat_alt)
  then show "n \<le> tab_size L n" "111 \<le> tab_size L n" "unat (sizeof_table L) \<le> tab_size L n"
    by (simp_all add: tab_size_def)
qed

lemma tab_block_foreign:
  assumes "table_at L s p n" and "acpi_layout_ok L" and "k \<le> tab_size L n"
  shows "vb_foreign s \<lparr> vb_va = v, vb_pa = p, vb_sz = word_of_nat k, vb_flags = fl \<rparr>" "va_req_ok (p, word_of_nat k, 0) \<longleftrightarrow> 0 < k"
proof -
  have k: "unat (word_of_nat k :: u32) = k"
    using tab_size_bounds(1) [OF assms(1,2)] assms(3) unat_lt [of "word_of_nat (tab_size L n) :: u32"]
    by (simp add: unat_of_nat)
  then show "va_req_ok (p, word_of_nat k, 0) \<longleftrightarrow> 0 < k"
    using assms(1,3) by (simp add: va_req_ok_def flags_ok_def table_at_def word_less_nat_alt)
  have sub: "{unat p..<unat p + k} \<subseteq> {unat p..<unat p + tab_size L n}" using assms(3) by auto
  show "vb_foreign s \<lparr> vb_va = v, vb_pa = p, vb_sz = word_of_nat k, vb_flags = fl \<rparr>"
  proof -
    have "unat p + k \<le> 2 ^ 52" using assms(1,3) by (simp add: table_at_def)
    moreover have "{unat p..<unat p + k} \<inter> vm_owned s = {}" using sub assms(1) unfolding table_at_def by blast
    ultimately show ?thesis unfolding vb_foreign_def va_block.simps k by blast
  qed
qed

lemma tab_block_simps [simp]:
  "vb_va (tab_block L v p n) = v" "vb_pa (tab_block L v p n) = p" "vb_sz (tab_block L v p n) = word_of_nat (tab_size L n)"
  by (simp_all add: tab_block_def)

lemma table_foreign: "table_at L s p n \<Longrightarrow> acpi_layout_ok L \<Longrightarrow> vb_foreign s (tab_block L v p n)"
  unfolding tab_block_def by (rule tab_block_foreign(1) [OF _ _ order_refl])

text \<open>Reading a mapped table.\<close>

lemma table_reads:
  assumes inv: "session_inv s0 (s, bs)" and b: "tab_block L v p n \<in> set bs"
    and t: "table_at L s0 p n" and L: "acpi_layout_ok L"
  shows "i + 1 \<le> tab_size L n \<Longrightarrow> vrd8 s (v + word_of_nat i) = Inr (vm_mem s0 (unat p + i))"
    and "i + 4 \<le> tab_size L n \<Longrightarrow> vrd32 s (v + word_of_nat i) = Inr (rd32 (vm_mem s0) (unat p + i))"
    and "i + 8 \<le> tab_size L n \<Longrightarrow> vrd64 s (v + word_of_nat i) = Inr (rd64 (vm_mem s0) (unat p + i))"
    and "vget s v 4 = Inr (get_bytes (vm_mem s0) (unat p) 4)"
    and "vrd32 s (v + o_length L) = Inr (word_of_nat n)"
proof -
  note sz = tab_size_bounds [OF t L]
  note f = table_foreign [OF t L, of v]
  note rd = vrd_block [OF inv b f, unfolded tab_block_simps sz(1)]
  show "i + 1 \<le> tab_size L n \<Longrightarrow> vrd8 s (v + word_of_nat i) = Inr (vm_mem s0 (unat p + i))"
    "i + 4 \<le> tab_size L n \<Longrightarrow> vrd32 s (v + word_of_nat i) = Inr (rd32 (vm_mem s0) (unat p + i))"
    "i + 8 \<le> tab_size L n \<Longrightarrow> vrd64 s (v + word_of_nat i) = Inr (rd64 (vm_mem s0) (unat p + i))"
    using rd by blast+
  show "vget s v 4 = Inr (get_bytes (vm_mem s0) (unat p) 4)"
    using vget_block [OF inv b f, of 0 4] sz(3) by (simp add: sz(1))
  have "unat (rd32 (vm_mem s0) (unat p + 4)) = n" using t by (simp add: table_at_def)
  then have "rd32 (vm_mem s0) (unat p + 4) = word_of_nat n" by (rule word_of_unat)
  then show "vrd32 s (v + o_length L) = Inr (word_of_nat n)"
    using rd(2) [of 4] sz(3) L by (simp add: acpi_layout_ok_def)
qed

lemma table_len_less: "table_at L s p n \<Longrightarrow> unat (word_of_nat n :: u32) = n"
  using unat_lt [of "rd32 (vm_mem s) (unat p + 4)"] by (auto simp: table_at_def unat_of_nat)

lemma acpi_map_tab_spec:
  assumes inv: "session_inv s0 (s, bs)" and t: "table_at L s0 p n" and L: "acpi_layout_ok L"
  shows "safe_run s0 (acpi_map_tab L s p) (\<lambda>(v, s'). session_inv s0 (s', tab_block L v p n # bs))"
proof -
  let ?k = "unat (sizeof_table L)"
  note sz = tab_size_bounds [OF t L]
  have w: "word_of_nat ?k = sizeof_table L" by simp
  have k: "111 \<le> ?k" using L by (simp add: acpi_layout_ok_def word_le_nat_alt)
  then have ok: "va_req_ok (p, sizeof_table L, 0)" using tab_block_foreign(2) [OF t L sz(4), unfolded w] by linarith
  have ok': "va_req_ok (p, word_of_nat n, 0)" if "?k < n"
    using tab_block_foreign(2) [OF t L sz(2)] that by linarith
  have len: "sizeof_table L < word_of_nat n \<longleftrightarrow> ?k < n" by (simp add: word_less_nat_alt table_len_less [OF t])
  show ?thesis
    unfolding acpi_map_tab_def
  proof (rule safe_run_bind [OF safe_map [OF inv ok]], clarify)
    fix v s1
    let ?b = "\<lparr> vb_va = v, vb_pa = p, vb_sz = sizeof_table L, vb_flags = 0 \<rparr>"
    assume inv1: "session_inv s0 (s1, ?b # bs)"
    have "vb_foreign s0 ?b" using tab_block_foreign(1) [OF t L sz(4), unfolded w] .
    from vrd_block(2) [OF inv1 _ this, of 4] have "vrd32 s1 (v + 4) = Inr (rd32 (vm_mem s0) (unat p + 4))" using k by simp
    then have r: "vrd32 s1 (v + o_length L) = Inr (word_of_nat n)"
      using t L by (auto simp: table_at_def acpi_layout_ok_def)
    show "safe_run s0 (bindo (Some (vrd32 s1 (v + o_length L))) (\<lambda>sz. if sizeof_table L < sz
        then bindo (mem_va_unmap s1 v (sizeof_table L)) (\<lambda>s2. mem_va_map s2 p sz 0) else Some (Inr (v, s1))))
        (\<lambda>(v, s'). session_inv s0 (s', tab_block L v p n # bs))"
    proof (rule safe_run_read [OF r], cases "?k < n")
      case True
      then have tb: "tab_block L v' p n = \<lparr> vb_va = v', vb_pa = p, vb_sz = word_of_nat n, vb_flags = 0 \<rparr>" for v'
        by (simp add: tab_block_def tab_size_def)
      show "safe_run s0 (if sizeof_table L < word_of_nat n then bindo (mem_va_unmap s1 v (sizeof_table L))
          (\<lambda>s2. mem_va_map s2 p (word_of_nat n) 0) else Some (Inr (v, s1))) (\<lambda>(v, s'). session_inv s0 (s', tab_block L v p n # bs))"
        unfolding len if_P [OF True] tb
        by (rule safe_run_bind [OF safe_unmap [OF inv1, simplified]]) (rule safe_map [OF _ ok' [OF True]])
    next
      case False
      then have "tab_block L v p n = ?b" by (simp add: tab_block_def tab_size_def max_def)
      then show "safe_run s0 (if sizeof_table L < word_of_nat n then bindo (mem_va_unmap s1 v (sizeof_table L))
          (\<lambda>s2. mem_va_map s2 p (word_of_nat n) 0) else Some (Inr (v, s1))) (\<lambda>(v, s'). session_inv s0 (s', tab_block L v p n # bs))"
        unfolding len if_not_P [OF False] safe_run_Inr using inv1 by simp
    qed
  qed
qed

lemma acpi_unmap_tab_spec:
  assumes inv: "session_inv s0 (s, tab_block L v p n # bs)" and t: "table_at L s0 p n" and L: "acpi_layout_ok L"
  shows "safe_run s0 (acpi_unmap_tab L s v) (\<lambda>s'. session_inv s0 (s', bs))"
proof -
  have b: "tab_block L v p n \<in> set (tab_block L v p n # bs)" by simp
  note r = table_reads(5) [OF inv b t L]
  have sz: "(if word_of_nat n < sizeof_table L then sizeof_table L else word_of_nat n) = (word_of_nat (tab_size L n) :: u32)"
    by (simp add: tab_size_def word_less_nat_alt table_len_less [OF t])
  show ?thesis
    unfolding acpi_unmap_tab_def
    by (rule safe_run_read [OF r]) (unfold sz, use safe_unmap [OF inv] in simp)
qed

subsection \<open>Interrupt controller structures\<close>

text \<open>
  The structures from address \<open>a\<close> up to \<open>e\<close>, each with its type, its length and, for an I/O APIC,
  the address it gives.
\<close>

fun ics_at :: "mem \<Rightarrow> nat \<Rightarrow> (u8 \<times> u8 \<times> u32) list \<Rightarrow> nat \<Rightarrow> bool" where
  "ics_at m a [] e = (a = e)"
| "ics_at m a ((t, l, x) # ics) e =
     (m a = t \<and> m (a + 1) = l \<and> 2 \<le> unat l \<and> (t = MADT_IC_IOAPIC \<longrightarrow> 8 \<le> unat l \<and> rd32 m (a + 4) = x) \<and>
      ics_at m (a + unat l) ics e)"

definition ioapics :: "(u8 \<times> u8 \<times> u32) list \<Rightarrow> u64 set" where
  "ioapics ics = {ucast x |t l x. (t, l, x) \<in> set ics \<and> t = MADT_IC_IOAPIC}"

lemma ioapics_simps [simp]:
  "ioapics [] = {}" "ioapics ((t, l, x) # ics) = (if t = MADT_IC_IOAPIC then insert (ucast x) (ioapics ics) else ioapics ics)"
  by (auto simp: ioapics_def)

lemma ics_at_le: "ics_at m a ics e \<Longrightarrow> a \<le> e"
  by (induction ics arbitrary: a) fastforce+

lemma madt_ics_spec:
  assumes law: "ioapic_law mm B sel reg" and t: "table_at L s0 p n" and L: "acpi_layout_ok L"
    and b: "tab_block L v p n \<in> set bs"
  shows "session_inv s0 (s, bs) \<Longrightarrow> ics_at (vm_mem s0) (unat p + i) ics (unat p + n) \<Longrightarrow> ioapics ics \<subseteq> B \<Longrightarrow>
    safe_run s0 (madt_ics mm (v + word_of_nat i) (v + word_of_nat n) (s, d))
      (\<lambda>(s', d'). session_inv s0 (s', bs) \<and> reg d' = masked_at (ioapics ics) (reg d))"
proof (induction ics arbitrary: i s d)
  case Nil
  then have "i = n" by simp
  then show ?case using Nil by (simp add: madt_ics.simps safe_run_Inr masked_at_empty)
next
  case (Cons h ics)
  obtain ty l x where h: "h = (ty, l, x)" by (cases h) auto
  have m: "vm_mem s0 (unat p + i) = ty" "vm_mem s0 (unat p + i + 1) = l" "2 \<le> unat l"
    "ics_at (vm_mem s0) (unat p + (i + unat l)) ics (unat p + n)"
    using Cons.prems(2) unfolding h by (simp_all add: add.assoc)
  have ap: "8 \<le> unat l \<and> rd32 (vm_mem s0) (unat p + i + 4) = x" if "ty = MADT_IC_IOAPIC"
    using Cons.prems(2) that unfolding h by simp
  have le: "i + unat l \<le> n" using ics_at_le [OF m(4)] by simp
  note sz = tab_size_bounds [OF t L]
  have lt: "unat (word_of_nat n :: u32) = n" by (rule table_len_less [OF t])
  have ne: "v + word_of_nat i \<noteq> v + word_of_nat n"
  proof
    assume "v + word_of_nat i = v + word_of_nat n"
    then have "(word_of_nat i :: u32) = word_of_nat n" by simp
    moreover have "unat (word_of_nat i :: u32) = i"
      using le lt unat_lt [of "word_of_nat n :: u32"] by (simp add: unat_of_nat)
    ultimately show False using lt le m(3) by simp
  qed
  note rd = table_reads [OF _ b t L]
  have type: "vrd8 (fst (s, d)) (v + word_of_nat i + o_ic_type) = Inr ty"
    using rd(1) [OF Cons.prems(1), of i] le m(1,3) sz(2) by (simp add: o_ic_type_def)
  have one: "safe_run s0 (if ty = MADT_IC_IOAPIC then mask_ioapic mm (v + word_of_nat i) (s, d) else Some (Inr (s, d)))
      (\<lambda>(s', d'). session_inv s0 (s', bs) \<and> reg d' = masked_at (if ty = MADT_IC_IOAPIC then {ucast x} else {}) (reg d))"
  proof (cases "ty = MADT_IC_IOAPIC")
    case True
    have "vrd32 s (v + word_of_nat i + o_ioapic_phy) = Inr x"
      using rd(2) [OF Cons.prems(1), of "i + 4"] ap [OF True] le sz(2) by (simp add: o_ioapic_phy_def add.assoc)
    moreover have "ucast x \<in> B" using Cons.prems(3) True by (simp add: h)
    ultimately show ?thesis using mask_ioapic_spec [OF law _ Cons.prems(1)] True by simp
  next
    case False
    then show ?thesis using Cons.prems(1) by (simp add: safe_run_Inr masked_at_empty)
  qed
  show ?case
    unfolding madt_ics.simps [of mm "v + word_of_nat i"] if_not_P [OF ne]
  proof (rule safe_run_read [OF type], rule safe_run_bind [OF one], clarify)
    fix s1 d1
    assume inv1: "session_inv s0 (s1, bs)" and reg1: "reg d1 = masked_at (if ty = MADT_IC_IOAPIC then {ucast x} else {}) (reg d)"
    have len: "vrd8 (fst (s1, d1)) (v + word_of_nat i + o_ic_length) = Inr l"
      using rd(1) [OF inv1, of "i + 1"] le m(2,3) sz(2) by (simp add: o_ic_length_def algebra_simps)
    have nxt: "v + word_of_nat i + ucast l = v + word_of_nat (i + unat l)"
      by (simp add: add.assoc)
    have bb: "ioapics ics \<subseteq> B" using Cons.prems(3) by (simp add: h split: if_splits)
    have all: "masked_at (ioapics ics) (reg d1) = masked_at (ioapics (h # ics)) (reg d)"
      unfolding reg1 masked_at_Un by (simp add: h insert_is_Un [symmetric] Un_commute)
    have "safe_run s0 (madt_ics mm (v + word_of_nat i + ucast l) (v + word_of_nat n) (s1, d1))
        (\<lambda>(s', d'). session_inv s0 (s', bs) \<and> reg d' = masked_at (ioapics (h # ics)) (reg d))"
      using Cons.IH [OF inv1 m(4) bb, of d1] unfolding nxt all .
    then show "safe_run s0 (bindo (Some (vrd8 (fst (s1, d1)) (v + word_of_nat i + o_ic_length)))
        (\<lambda>len. madt_ics mm (v + word_of_nat i + ucast len) (v + word_of_nat n) (s1, d1)))
        (\<lambda>(s', d'). session_inv s0 (s', bs) \<and> reg d' = masked_at (ioapics (h # ics)) (reg d))"
      by (rule safe_run_read [OF len])
  qed
qed

lemma acpi_process_madt_spec:
  assumes law: "ioapic_law mm B sel reg" and t: "table_at L s0 p n" and L: "acpi_layout_ok L"
    and b: "tab_block L v p n \<in> set bs" and inv: "session_inv s0 (s, bs)"
    and ics: "ics_at (vm_mem s0) (unat p + 44) ics (unat p + n)" "ioapics ics \<subseteq> B"
  shows "safe_run s0 (acpi_process_madt L mm v (s, d))
    (\<lambda>(s', d'). session_inv s0 (s', bs) \<and> reg d' = masked_at (ioapics ics) (reg d))"
proof -
  have r: "vrd32 (fst (s, d)) (v + o_length L) = Inr (word_of_nat n)" using table_reads(5) [OF inv b t L] by simp
  have o: "o_ics L = word_of_nat 44" using L by (simp add: o_ics_def acpi_layout_ok_def)
  show ?thesis
    unfolding acpi_process_madt_def o by (rule safe_run_read [OF r]) (rule madt_ics_spec [OF law t L b inv ics])
qed

subsection \<open>The system description table\<close>

text \<open>
  A table at address \<open>p\<close>, with the interrupt controllers it lists if it is a multiple APIC
  description table; and an extended system description table at \<open>x\<close> with its tables.
\<close>

definition tab_lists :: "acpi_layout \<Rightarrow> vm \<Rightarrow> u64 \<Rightarrow> (u8 \<times> u8 \<times> u32) list \<Rightarrow> bool" where
  "tab_lists L s p ics \<longleftrightarrow> (\<exists>n. table_at L s p n \<and>
     (if get_bytes (vm_mem s) (unat p) 4 = sig ''APIC'' then ics_at (vm_mem s) (unat p + 44) ics (unat p + n) else ics = []))"

definition xsdt_lists :: "acpi_layout \<Rightarrow> vm \<Rightarrow> u64 \<Rightarrow> (u64 \<times> (u8 \<times> u8 \<times> u32) list) list \<Rightarrow> bool" where
  "xsdt_lists L s x tabs \<longleftrightarrow> (\<exists>n. table_at L s x n \<and> 36 \<le> n \<and> length tabs = (n - 36) div 8 \<and>
     (\<forall>i<length tabs. rd64 (vm_mem s) (unat x + (36 + 8 * i)) = fst (tabs ! i) \<and> tab_lists L s (fst (tabs ! i)) (snd (tabs ! i))))"

definition all_ioapics :: "(u64 \<times> (u8 \<times> u8 \<times> u32) list) list \<Rightarrow> u64 set" where
  "all_ioapics tabs = \<Union>(ioapics ` snd ` set tabs)"

lemma one_table_spec:
  assumes law: "ioapic_law mm B sel reg" and L: "acpi_layout_ok L" and inv: "session_inv s0 (s, bs)"
    and t: "tab_lists L s0 p ics" and B: "ioapics ics \<subseteq> B"
    and rest: "\<And>s1 d1. session_inv s0 (s1, bs) \<Longrightarrow> reg d1 = masked_at (ioapics ics) (reg d) \<Longrightarrow> safe_run s0 (f (s1, d1)) P"
  shows "safe_run s0 (bindo (acpi_map_tab L s p) (\<lambda>(tab, s).
     bindo (Some (vget s tab 4)) (\<lambda>signature.
     bindo (if signature = sig ''APIC'' then acpi_process_madt L mm tab (s, d) else Some (Inr (s, d))) (\<lambda>(s, d).
     bindo (acpi_unmap_tab L s tab) (\<lambda>s. f (s, d)))))) P"
proof -
  obtain n where n: "table_at L s0 p n" "if get_bytes (vm_mem s0) (unat p) 4 = sig ''APIC''
      then ics_at (vm_mem s0) (unat p + 44) ics (unat p + n) else ics = []"
    using t by (auto simp: tab_lists_def)
  show ?thesis
  proof (rule safe_run_bind [OF acpi_map_tab_spec [OF inv n(1) L]], clarify)
    fix v s1
    let ?bs = "tab_block L v p n # bs"
    assume inv1: "session_inv s0 (s1, ?bs)"
    have b: "tab_block L v p n \<in> set ?bs" by simp
    have m: "safe_run s0 (if get_bytes (vm_mem s0) (unat p) 4 = sig ''APIC'' then acpi_process_madt L mm v (s1, d) else Some (Inr (s1, d)))
        (\<lambda>(s', d'). session_inv s0 (s', ?bs) \<and> reg d' = masked_at (ioapics ics) (reg d))"
    proof (cases "get_bytes (vm_mem s0) (unat p) 4 = sig ''APIC''")
      case True
      then show ?thesis using n(2) acpi_process_madt_spec [OF law n(1) L b inv1 _ B] by simp
    next
      case False
      then show ?thesis using n(2) inv1 by (simp add: safe_run_Inr masked_at_empty)
    qed
    have end_part: "safe_run s0 (bindo (acpi_unmap_tab L s2 v) (\<lambda>s. f (s, d2))) P"
      if "session_inv s0 (s2, ?bs) \<and> reg d2 = masked_at (ioapics ics) (reg d)" for s2 d2
      by (rule safe_run_bind [OF acpi_unmap_tab_spec [OF _ n(1) L]]) (use that rest in blast)+
    show "safe_run s0 (bindo (Some (vget s1 v 4)) (\<lambda>signature.
        bindo (if signature = sig ''APIC'' then acpi_process_madt L mm v (s1, d) else Some (Inr (s1, d))) (\<lambda>(s, d).
        bindo (acpi_unmap_tab L s v) (\<lambda>s. f (s, d))))) P"
      by (rule safe_run_read [OF table_reads(4) [OF inv1 b n(1) L]], rule safe_run_bind [OF m]) (use end_part in auto)
  qed
qed

lemma xsdt_tables_spec:
  assumes law: "ioapic_law mm B sel reg" and L: "acpi_layout_ok L"
    and x: "table_at L s0 x n" "36 \<le> n" "length tabs = (n - 36) div 8"
      "\<forall>i<length tabs. rd64 (vm_mem s0) (unat x + (36 + 8 * i)) = fst (tabs ! i) \<and> tab_lists L s0 (fst (tabs ! i)) (snd (tabs ! i))"
    and B: "all_ioapics tabs \<subseteq> B" and b: "tab_block L v x n \<in> set bs"
  shows "session_inv s0 (s, bs) \<Longrightarrow> i + k = length tabs \<Longrightarrow>
    safe_run s0 (xsdt_tables L mm v (word_of_nat i) k (s, d))
      (\<lambda>(s', d'). session_inv s0 (s', bs) \<and> reg d' = masked_at (all_ioapics (drop i tabs)) (reg d))"
proof (induction k arbitrary: i s d)
  case 0
  then show ?case by (simp add: safe_run_Inr all_ioapics_def masked_at_empty)
next
  case (Suc k)
  then have i: "i < length tabs" by simp
  have o: "v + o_tables L + 8 * word_of_nat i = v + word_of_nat (36 + 8 * i)" using L by (simp add: acpi_layout_ok_def add.assoc)
  have "8 * length tabs \<le> n - 36" unfolding x(3) by (simp add: mult.commute)
  then have "36 + 8 * i + 8 \<le> n" using i x(2) by linarith
  then have "36 + 8 * i + 8 \<le> tab_size L n" using tab_size_bounds(2) [OF x(1) L] by linarith
  from table_reads(3) [OF Suc.prems(1) b x(1) L this] have
    r: "vrd64 (fst (s, d)) (v + o_tables L + 8 * word_of_nat i) = Inr (fst (tabs ! i))" using x(4) i unfolding o by simp
  have tl: "tab_lists L s0 (fst (tabs ! i)) (snd (tabs ! i))" using x(4) i by simp
  have "snd (tabs ! i) \<in> snd ` set tabs" using i by simp
  then have tb: "ioapics (snd (tabs ! i)) \<subseteq> B" using B unfolding all_ioapics_def by blast
  have dr: "all_ioapics (drop i tabs) = all_ioapics (drop (Suc i) tabs) \<union> ioapics (snd (tabs ! i))"
    using i by (simp add: Cons_nth_drop_Suc [symmetric] all_ioapics_def Un_commute)
  have nxt: "(word_of_nat i :: u32) + 1 = word_of_nat (Suc i)" by simp
  have rest: "safe_run s0 (xsdt_tables L mm v (word_of_nat i + 1) k (s1, d1))
      (\<lambda>(s', d'). session_inv s0 (s', bs) \<and> reg d' = masked_at (all_ioapics (drop i tabs)) (reg d))"
    if "session_inv s0 (s1, bs)" "reg d1 = masked_at (ioapics (snd (tabs ! i))) (reg d)" for s1 d1
    using Suc.IH [OF that(1), of "Suc i" d1] Suc.prems(2) unfolding nxt dr that(2) masked_at_Un by simp
  show ?case
    unfolding xsdt_tables.simps
    by (rule safe_run_read [OF r], unfold fst_conv snd_conv) (rule one_table_spec [OF law L Suc.prems(1) tl tb], rule rest)
qed

lemma acpi_process_xsdt_spec:
  assumes law: "ioapic_law mm B sel reg" and L: "acpi_layout_ok L" and x: "xsdt_lists L s0 x tabs" and B: "all_ioapics tabs \<subseteq> B"
    and inv: "session_inv s0 (s, bs)"
    and rest: "\<And>s1 d1. session_inv s0 (s1, bs) \<Longrightarrow> reg d1 = masked_at (all_ioapics tabs) (reg d) \<Longrightarrow> safe_run s0 (f (s1, d1)) P"
  shows "safe_run s0 (bindo (acpi_map_tab L s x) (\<lambda>(xsdt, s). bindo (acpi_process_xsdt L mm xsdt (s, d)) (\<lambda>(s, d).
     bindo (acpi_unmap_tab L s xsdt) (\<lambda>s. f (s, d))))) P"
proof -
  obtain n where n: "table_at L s0 x n" "36 \<le> n" "length tabs = (n - 36) div 8"
    "\<forall>i<length tabs. rd64 (vm_mem s0) (unat x + (36 + 8 * i)) = fst (tabs ! i) \<and> tab_lists L s0 (fst (tabs ! i)) (snd (tabs ! i))"
    using x by (auto simp: xsdt_lists_def)
  have lt: "unat (word_of_nat n :: u32) = n" by (rule table_len_less [OF n(1)])
  have cnt: "unat ((word_of_nat n - sizeof_header L) div 8) = length tabs"
    using L n(2,3) lt by (simp add: acpi_layout_ok_def unat_div unat_sub word_le_nat_alt)
  show ?thesis
  proof (rule safe_run_bind [OF acpi_map_tab_spec [OF inv n(1) L]], clarify)
    fix v s1
    let ?bs = "tab_block L v x n # bs"
    assume inv1: "session_inv s0 (s1, ?bs)"
    have b: "tab_block L v x n \<in> set ?bs" by simp
    have r: "vrd32 (fst (s1, d)) (v + o_length L) = Inr (word_of_nat n)" using table_reads(5) [OF inv1 b n(1) L] by simp
    have all: "safe_run s0 (acpi_process_xsdt L mm v (s1, d))
        (\<lambda>(s', d'). session_inv s0 (s', ?bs) \<and> reg d' = masked_at (all_ioapics tabs) (reg d))"
      unfolding acpi_process_xsdt_def
      by (rule safe_run_read [OF r]) (use xsdt_tables_spec [OF law L n B b inv1, of 0 "length tabs" d] in \<open>simp add: cnt\<close>)
    have end_part: "safe_run s0 (bindo (acpi_unmap_tab L s2 v) (\<lambda>s. f (s, d2))) P"
      if "session_inv s0 (s2, ?bs) \<and> reg d2 = masked_at (all_ioapics tabs) (reg d)" for s2 d2
      by (rule safe_run_bind [OF acpi_unmap_tab_spec [OF _ n(1) L]]) (use that rest in blast)+
    show "safe_run s0 (bindo (acpi_process_xsdt L mm v (s1, d)) (\<lambda>(s, d). bindo (acpi_unmap_tab L s v) (\<lambda>s. f (s, d)))) P"
      by (rule safe_run_bind [OF all]) (use end_part in auto)
  qed
qed

subsection \<open>The root pointer\<close>

text \<open>A root pointer structure of \<open>sz\<close> bytes at address \<open>p\<close>.\<close>

definition rsdp_lists :: "acpi_layout \<Rightarrow> vm \<Rightarrow> u64 \<Rightarrow> u32 \<Rightarrow> (u64 \<times> (u8 \<times> u8 \<times> u32) list) list \<Rightarrow> bool" where
  "rsdp_lists L s p sz tabs \<longleftrightarrow> unat p + unat sz \<le> 2 ^ 52 \<and> {unat p..<unat p + unat sz} \<inter> vm_owned s = {} \<and>
     32 \<le> unat sz \<and> xsdt_lists L s (rd64 (vm_mem s) (unat p + 24)) tabs"

lemma acpi_process_rsdp_spec:
  assumes law: "ioapic_law mm B sel reg" and L: "acpi_layout_ok L" and p: "rsdp_lists L s0 p sz tabs"
    and B: "all_ioapics tabs \<subseteq> B"
    and b: "\<lparr> vb_va = v, vb_pa = p, vb_sz = sz, vb_flags = 0 \<rparr> \<in> set bs" and inv: "session_inv s0 (s, bs)"
  shows "safe_run s0 (acpi_process_rsdp L mm v (s, d))
    (\<lambda>(s', d'). session_inv s0 (s', bs) \<and> reg d' = masked_at (all_ioapics tabs) (reg d))"
proof -
  let ?b = "\<lparr> vb_va = v, vb_pa = p, vb_sz = sz, vb_flags = 0 \<rparr>"
  have f: "vb_foreign s0 ?b" and sz: "32 \<le> unat sz" and x: "xsdt_lists L s0 (rd64 (vm_mem s0) (unat p + 24)) tabs"
    using p by (simp_all add: rsdp_lists_def vb_foreign_def)
  have sg: "vget (fst (s, d)) v 8 = Inr (get_bytes (vm_mem s0) (unat p) 8)"
    using vget_block [OF inv b f, of 0 8] sz by simp
  have r: "vrd64 (fst (s, d)) (v + o_xsdt L) = Inr (rd64 (vm_mem s0) (unat p + 24))"
    using vrd_block(3) [OF inv b f, of 24] sz L by (simp add: acpi_layout_ok_def)
  show ?thesis
    unfolding acpi_process_rsdp_def
  proof (rule safe_run_read [OF sg], cases "get_bytes (vm_mem s0) (unat p) 8 = sig ''RSD PTR ''")
    case False
    then show "safe_run s0 (if get_bytes (vm_mem s0) (unat p) 8 \<noteq> sig ''RSD PTR '' then Some (Inl Hlt) else
         bindo (Some (vrd64 (fst (s, d)) (v + o_xsdt L))) (\<lambda>xsdt64.
         bindo (acpi_map_tab L (fst (s, d)) xsdt64) (\<lambda>(xsdt, s').
         bindo (acpi_process_xsdt L mm xsdt (s', snd (s, d))) (\<lambda>(s, d).
         bindo (acpi_unmap_tab L s xsdt) (\<lambda>s. Some (Inr (s, d)))))))
        (\<lambda>(s', d'). session_inv s0 (s', bs) \<and> reg d' = masked_at (all_ioapics tabs) (reg d))"
      by (simp add: safe_run_def vm_error_def)
  next
    case True
    then have ok: "\<not> get_bytes (vm_mem s0) (unat p) 8 \<noteq> sig ''RSD PTR ''" by simp
    show "safe_run s0 (if get_bytes (vm_mem s0) (unat p) 8 \<noteq> sig ''RSD PTR '' then Some (Inl Hlt) else
         bindo (Some (vrd64 (fst (s, d)) (v + o_xsdt L))) (\<lambda>xsdt64.
         bindo (acpi_map_tab L (fst (s, d)) xsdt64) (\<lambda>(xsdt, s').
         bindo (acpi_process_xsdt L mm xsdt (s', snd (s, d))) (\<lambda>(s, d).
         bindo (acpi_unmap_tab L s xsdt) (\<lambda>s. Some (Inr (s, d)))))))
        (\<lambda>(s', d'). session_inv s0 (s', bs) \<and> reg d' = masked_at (all_ioapics tabs) (reg d))"
      unfolding if_not_P [OF ok]
      by (rule safe_run_read [OF r], unfold fst_conv snd_conv)
        (rule acpi_process_xsdt_spec [where f = "\<lambda>x. Some (Inr x)", OF law L x B inv], simp add: safe_run_Inr)
  qed
qed

subsection \<open>The search for the root pointer\<close>

text \<open>Addresses that translate to themselves.\<close>

definition id_at :: "vm \<Rightarrow> nat set \<Rightarrow> bool" where
  "id_at s A \<longleftrightarrow> (\<forall>i\<in>A. \<exists>fl. translate s (word_of_nat i) = Some (word_of_nat i, fl))"

lemma vget_id: "id_at s {a..<a + n} \<Longrightarrow> a + n \<le> 2 ^ 32 \<Longrightarrow> vget s (word_of_nat a) n = Inr (get_bytes (vm_mem s) a n)"
proof (induction n arbitrary: a)
  case 0
  show ?case by (simp add: get_bytes_def)
next
  case (Suc n)
  have "a \<in> {a..<a + Suc n}" by simp
  then obtain fl where t: "translate s (word_of_nat a) = Some (word_of_nat a, fl)"
    using Suc.prems(1) unfolding id_at_def by blast
  have u: "unat (word_of_nat a :: u64) = a" using Suc.prems(2) by (simp add: unat_of_nat)
  have "id_at s {Suc a..<Suc a + n}" using Suc.prems(1) by (auto simp: id_at_def)
  from Suc.IH [OF this] Suc.prems(2) have "vget s (word_of_nat a + 1) n = Inr (get_bytes (vm_mem s) (Suc a) n)"
    by (simp add: add.commute)
  then show ?case using t u by (simp add: get_bytes_Suc)
qed

lemma vrd_id:
  assumes "id_at s A" and "A' \<subseteq> A" and "a + 8 \<le> 2 ^ 32"
  shows "A' = {a..<a + 4} \<Longrightarrow> vrd32 s (word_of_nat a) = Inr (rd32 (vm_mem s) a)"
    and "A' = {a..<a + 8} \<Longrightarrow> vrd64 s (word_of_nat a) = Inr (rd64 (vm_mem s) a)"
proof -
  have "id_at s A'" using assms(1,2) by (auto simp: id_at_def)
  then show "A' = {a..<a + 4} \<Longrightarrow> vrd32 s (word_of_nat a) = Inr (rd32 (vm_mem s) a)"
    "A' = {a..<a + 8} \<Longrightarrow> vrd64 s (word_of_nat a) = Inr (rd64 (vm_mem s) a)"
    using vget_id [of s a 4] vget_id [of s a 8] assms(3)
    by (simp_all add: vrd32_def vrd64_def rd32_def rd64_def)
qed

lemma node_reads:
  assumes n: "node_ok (vm_mem s) n x" and id: "id_at s (bn_bytes n)"
  shows "vrd32 s (word_of_nat (bn_addr n) + 8) = Inr (bn_type n)" and "vrd32 s (word_of_nat (bn_addr n)) = Inr (ucast x)"
proof -
  have le: "bn_addr n + 8 + 8 \<le> 2 ^ 32" using n by (simp add: node_ok_def sizeof_bparm_def)
  have "{bn_addr n + 8..<bn_addr n + 8 + 4} \<subseteq> bn_bytes n" "{bn_addr n..<bn_addr n + 4} \<subseteq> bn_bytes n"
    by (auto simp: bn_bytes_def sizeof_bparm_def)
  note r = vrd_id(1) [OF id this(1) le refl] vrd_id(1) [OF id this(2) _ refl]
  show "vrd32 s (word_of_nat (bn_addr n) + 8) = Inr (bn_type n)"
    using r(1) n by (simp add: node_ok_def)
  show "vrd32 s (word_of_nat (bn_addr n)) = Inr (ucast x)"
    using r(2) le n by (simp add: node_ok_def rd32_of_rd64)
qed

lemma find_rsdp_spec:
  "nodes_ok (vm_mem s) (xs @ n # ys) \<Longrightarrow> \<forall>k\<in>set xs. bn_type k \<noteq> BP_RSDP \<Longrightarrow> bn_type n = BP_RSDP \<Longrightarrow>
     id_at s (\<Union>(bn_bytes ` set (xs @ [n]))) \<Longrightarrow>
     find_rsdp s (ucast (next_of (xs @ n # ys))) = Some (Inr (word_of_nat (bn_addr n)))"
proof (induction xs)
  case Nil
  have nd: "node_ok (vm_mem s) n (next_of ys)" using Nil.prems by simp
  have id: "id_at s (bn_bytes n)" using Nil.prems(4) by (simp add: id_at_def)
  have h: "(ucast (next_of (n # ys)) :: u32) = word_of_nat (bn_addr n)"
    using ucast_next_of(1) [OF Nil.prems(1) [unfolded append_Nil]] by (rule word_of_unat)
  show ?case
    using node_reads(1) [OF nd id] Nil.prems(3) unfolding append_Nil h by (simp add: find_rsdp.simps [of s "word_of_nat (bn_addr n)"])
next
  case (Cons k xs)
  have nd: "node_ok (vm_mem s) k (next_of (xs @ n # ys))" using Cons.prems by simp
  have id: "id_at s (bn_bytes k)" "id_at s (\<Union>(bn_bytes ` set (xs @ [n])))" using Cons.prems(4) by (auto simp: id_at_def)
  have h: "(ucast (next_of (k # xs @ n # ys)) :: u32) = word_of_nat (bn_addr k)"
    using ucast_next_of(1) [OF Cons.prems(1) [unfolded append_Cons]] by (rule word_of_unat)
  have "find_rsdp s (word_of_nat (bn_addr k)) = find_rsdp s (ucast (next_of (xs @ n # ys)))"
    using node_reads [OF nd id(1)] Cons.prems(2) by (simp add: find_rsdp.simps [of s "word_of_nat (bn_addr k)"])
  then show ?case using Cons.IH id(2) Cons.prems unfolding append_Cons h by simp
qed

end
