(* ===== verification/Acpi_Example.thy ===== *)
theory Acpi_Example
  imports Acpi_Correct
begin

text \<open>
  A concrete machine for the interrupt set-up of stage 2: page tables, the boot parameter for the
  root pointer, and ACPI tables that list one I/O APIC.
\<close>

unbundle bit_operations_syntax

subsection \<open>A machine with one I/O APIC\<close>

text \<open>The first 2 MiB map to themselves; the boot parameter is at 4 KiB and the tables from 5 MiB on.\<close>

definition irq_ex_vm :: vm where
  "irq_ex_vm = pde_write vm_ex 0 (large_entry 0 0)"

definition irq_ex_node :: bnode where
  "irq_ex_node = \<lparr> bn_addr = 0x1000, bn_type = BP_RSDP,
     bn_data = le_bytes 8 (0x500000 :: u64) @ le_bytes 4 (44 :: u32) \<rparr>"

definition irq_ex_rsdp :: "u8 list" where
  "irq_ex_rsdp = sig ''RSD PTR '' @ replicate 16 0 @ le_bytes 8 (0x501000 :: u64)"

definition irq_ex_xsdt :: "u8 list" where
  "irq_ex_xsdt = sig ''XSDT'' @ le_bytes 4 (44 :: u32) @ replicate 28 0 @ le_bytes 8 (0x502000 :: u64)"

definition irq_ex_madt :: "u8 list" where
  "irq_ex_madt = sig ''APIC'' @ le_bytes 4 (56 :: u32) @ replicate 36 0 @ [1, 12, 0, 0] @ le_bytes 4 (0xfec00000 :: u32) @ replicate 4 0"

definition irq_ex_mem :: mem where
  "irq_ex_mem = put_bytes (put_bytes (put_bytes (put_bytes (vm_mem irq_ex_vm) 0x1000
     (le_bytes 8 (0 :: u64) @ le_bytes 4 BP_RSDP @ le_bytes 4 (12 :: u32) @ bn_data irq_ex_node))
     0x500000 irq_ex_rsdp) 0x501000 irq_ex_xsdt) 0x502000 irq_ex_madt"

definition irq_ex :: vm where
  "irq_ex = irq_ex_vm\<lparr> vm_mem := irq_ex_mem \<rparr>"

definition irq_ex_dev :: "((u64 \<Rightarrow> u32) \<times> (u64 \<Rightarrow> u32 \<Rightarrow> u32)) mmio" where
  "irq_ex_dev = \<lparr> mm_read = (\<lambda>a (sel, reg). (reg (a - 0x10) (sel (a - 0x10)), sel, reg)),
     mm_write = (\<lambda>a v (sel, reg). if a = 0xfec00000 then (sel(a := v), reg)
       else (sel, reg(a - 0x10 := (reg (a - 0x10))(sel (a - 0x10) := v)))) \<rparr>"

lemma irq_ex_law: "ioapic_law irq_ex_dev {0xfec00000} fst snd"
  by (simp add: ioapic_law_def irq_ex_dev_def split: prod.splits)

lemma irq_ex_lengths: "length irq_ex_rsdp = 32" "length irq_ex_xsdt = 44" "length irq_ex_madt = 56"
  "length (bn_data irq_ex_node) = 12"
  by (simp_all add: irq_ex_rsdp_def irq_ex_xsdt_def irq_ex_madt_def irq_ex_node_def sig_def)

lemma irq_ex_vm_wf: "va_wf irq_ex_vm" "unat a < 0x200000 \<Longrightarrow> \<exists>fl. translate irq_ex_vm a = Some (ucast a, fl)"
  "vm_owned irq_ex_vm \<subseteq> {..<0x305000}" "tbl_in irq_ex_vm t \<Longrightarrow> tbl_bytes irq_ex_vm t \<subseteq> {0x300000..<0x305000}"
proof -
  have fl: "flags_ok 0" by (simp add: flags_ok_def)
  note e = large_entry_spec [OF fl, of 0 "large_entry 0 0", simplified]
  have k: "(0 :: nat) < 2048" by simp
  have nt: "\<not> is_table (pde vm_ex 0)" using vm_ex_pde [OF k] by (simp add: is_table_def)
  note w = pde_write_spec [OF vm_ex_wf k nt e(3,1), folded irq_ex_vm_def]
  have pg: "page_entry irq_ex_vm n = (if n < 512 then map_entry n 0 else 0)" if "n < 2 ^ 20" for n
  proof -
    have "page_entry vm_ex n = 0" using that vm_ex_pde [of "n div 512"] by (simp add: page_entry_def less_mult_imp_div_less)
    moreover have "n div 512 = 0 \<longleftrightarrow> n < 512" by auto
    ultimately show ?thesis using w(3) [OF that] e(2,4) by simp
  qed
  have page: "unat a div 4096 < 2 ^ 20" for a :: u32
    using unat_lt [of a] by (simp add: less_mult_imp_div_less)
  show "\<exists>fl. translate irq_ex_vm a = Some (ucast a, fl)" if a: "unat a < 0x200000"
  proof -
    have "unat a div 4096 < 512" using a by (simp add: less_mult_imp_div_less)
    moreover from this have "translation (map_entry (unat a div 4096) 0) a =
        Some (word_of_nat (4096 * (unat a div 4096) + unat a mod 4096), flag_bits 0)"
      by (intro translation_map_entry [OF fl]) simp
    ultimately show ?thesis using translate_entry [OF w(1), of a] pg [OF page [of a]] by simp
  qed
  have none: "translate irq_ex_vm a = None" if "0x200000 \<le> unat a" for a
  proof -
    have "512 \<le> unat a div 4096" using div_le_mono [OF that, of 4096] by simp
    then show ?thesis using translate_entry [OF w(1), of a] pg [OF page [of a]] by (simp add: translation_def)
  qed
  have un: "va_unused irq_ex_vm = va_unused vm_ex" "vrs_wf irq_ex_vm = vrs_wf vm_ex"
    by (simp_all add: va_unused_def vrs_wf_def live_ranges_def irq_ex_vm_def pde_write_def)
  have "va_unused vm_ex = {0x400000..<0x600000}"
    by (simp add: va_unused_def live_ranges_def vm_ex_def vr_set_def vr_end_def)
  then show "va_wf irq_ex_vm" using w(1) none un vm_ex_va_wf by (simp add: va_wf_def)
  show tb: "tbl_bytes irq_ex_vm t \<subseteq> {0x300000..<0x305000}" if t: "tbl_in irq_ex_vm t" for t
  proof -
    have st: "pde_step vm_ex 0 (large_entry 0 0) (vm_mem vm_ex) irq_ex_vm"
      unfolding pde_step_def pde_write_def irq_ex_vm_def using k nt e vm_ex_wf by (simp add: vm_wf_def)
    note tb = pde_step_tables [OF vm_ex_wf st]
    have "t \<noteq> Pt 0" "tbl_in vm_ex t" using t tb(1) [of t] e(1) by presburger+
    then show ?thesis using tb(2) [of t] vm_ex_tables [of t] by (auto split: tbl.splits)
  qed
  have "mm_free (vm_map irq_ex_vm) \<subseteq> {..<0x204000}" using vm_ex_free by (simp add: irq_ex_vm_def pde_write_def)
  then show "vm_owned irq_ex_vm \<subseteq> {..<0x305000}" using tb by (fastforce simp: vm_owned_def)
qed

lemma irq_ex_mem_out: "0x2000 \<le> i \<Longrightarrow> i < 0x500000 \<Longrightarrow> irq_ex_mem i = vm_mem irq_ex_vm i"
  by (simp add: irq_ex_mem_def put_bytes_def irq_ex_lengths)

lemma irq_ex_wf: "va_wf irq_ex" "translate irq_ex v = translate irq_ex_vm v" "vm_owned irq_ex \<subseteq> {..<0x305000}"
proof -
  have m: "irq_ex_mem a = vm_mem irq_ex_vm a" if "tbl_in irq_ex_vm t" "a \<in> tbl_bytes irq_ex_vm t" for t a
  proof -
    have "a \<in> {0x300000..<0x305000}" using irq_ex_vm_wf(4) [OF that(1)] that(2) by blast
    then show ?thesis by (intro irq_ex_mem_out) simp_all
  qed
  note c = vm_mem_change [OF irq_ex_vm_wf(1) m, folded irq_ex_def]
  show "va_wf irq_ex" "translate irq_ex v = translate irq_ex_vm v" by (rule c; assumption)+
  show "vm_owned irq_ex \<subseteq> {..<0x305000}" using c(3) irq_ex_vm_wf(3) by simp
qed

lemma irq_ex_bytes:
  "j + n \<le> 28 \<Longrightarrow> get_bytes irq_ex_mem (0x1000 + j) n =
     take n (drop j (le_bytes 8 (0 :: u64) @ le_bytes 4 BP_RSDP @ le_bytes 4 (12 :: u32) @ bn_data irq_ex_node))"
  "j + n \<le> 32 \<Longrightarrow> get_bytes irq_ex_mem (0x500000 + j) n = take n (drop j irq_ex_rsdp)"
  "j + n \<le> 44 \<Longrightarrow> get_bytes irq_ex_mem (0x501000 + j) n = take n (drop j irq_ex_xsdt)"
  "j + n \<le> 56 \<Longrightarrow> get_bytes irq_ex_mem (0x502000 + j) n = take n (drop j irq_ex_madt)"
  by (simp_all add: irq_ex_mem_def get_put_disjoint get_put_within irq_ex_lengths)

lemma irq_ex_node_ok: "nodes_ok irq_ex_mem [irq_ex_node]"
proof -
  have t: "(le_word (le_bytes 4 BP_RSDP) :: u32) = BP_RSDP" "(le_word (le_bytes 8 (0 :: u64)) :: u64) = 0"
    "(le_word (le_bytes 4 (12 :: u32)) :: u32) = 12"
    by (simp_all add: le_word_le_bytes take_bit_word_eq_self)
  have "rd64 irq_ex_mem 0x1000 = 0" "rd32 irq_ex_mem 0x1008 = BP_RSDP" "rd32 irq_ex_mem 0x100c = 12"
    "get_bytes irq_ex_mem 0x1010 12 = bn_data irq_ex_node"
    using irq_ex_bytes(1) [of 0 8] irq_ex_bytes(1) [of 8 4] irq_ex_bytes(1) [of 12 4] irq_ex_bytes(1) [of 16 12]
    by (simp_all add: rd64_def rd32_def t irq_ex_lengths)
  moreover have "bn_addr irq_ex_node = 0x1000" "bn_type irq_ex_node = BP_RSDP" by (simp_all add: irq_ex_node_def)
  ultimately show ?thesis by (simp add: node_ok_def sizeof_bparm_def irq_ex_lengths)
qed

lemma irq_ex_id: "id_at irq_ex (bn_bytes irq_ex_node)"
  unfolding id_at_def
proof
  fix i
  assume "i \<in> bn_bytes irq_ex_node"
  then have i: "i < 0x200000" by (simp add: bn_bytes_def irq_ex_lengths sizeof_bparm_def) (simp add: irq_ex_node_def)
  then have u: "unat (word_of_nat i :: u32) = i" by (simp add: unat_of_nat)
  have "(ucast (word_of_nat i :: u32) :: u64) = word_of_nat i"
    using word_of_unat [of "ucast (word_of_nat i :: u32) :: u64" i] u by (simp add: unat_ucast_up)
  then show "\<exists>fl. translate irq_ex (word_of_nat i) = Some (word_of_nat i, fl)"
    using irq_ex_vm_wf(2) [of "word_of_nat i"] i u by (simp add: irq_ex_wf(2))
qed

definition irq_ex_tabs :: "(u64 \<times> (u8 \<times> u8 \<times> u32) list) list" where
  "irq_ex_tabs = [(0x502000, [(1, 12, 0xfec00000)])]"

lemma irq_ex_table: "rd32 irq_ex_mem (unat p + 4) = word_of_nat n \<Longrightarrow> n \<le> 276 \<Longrightarrow> 0x500000 \<le> unat p \<Longrightarrow> unat p < 0x600000 \<Longrightarrow>
    table_at acpi_6 irq_ex p n"
proof -
  assume a: "rd32 irq_ex_mem (unat p + 4) = word_of_nat n" "n \<le> 276" "0x500000 \<le> unat p" "unat p < 0x600000"
  have "tab_size acpi_6 n = 276" using a(2) by (simp add: tab_size_def acpi_6_def)
  moreover have "{unat p..<unat p + 276} \<inter> vm_owned irq_ex = {}" using irq_ex_wf(3) a(3) by fastforce
  moreover have "vm_mem irq_ex = irq_ex_mem" by (simp add: irq_ex_def)
  ultimately show ?thesis using a by (simp add: table_at_def unat_of_nat)
qed

lemma irq_ex_lists: "rsdp_lists acpi_6 irq_ex 0x500000 44 irq_ex_tabs"
proof -
  have m: "vm_mem irq_ex = irq_ex_mem" by (simp add: irq_ex_def)
  have w: "(le_word (le_bytes 4 (44 :: u32)) :: u32) = 44" "(le_word (le_bytes 8 (0x502000 :: u64)) :: u64) = 0x502000"
    "(le_word (le_bytes 4 (56 :: u32)) :: u32) = 56" "(le_word (le_bytes 4 (0xfec00000 :: u32)) :: u32) = 0xfec00000"
    "(le_word (le_bytes 8 (0x501000 :: u64)) :: u64) = 0x501000"
    by (simp_all add: le_word_le_bytes take_bit_word_eq_self)
  have sg: "length (sig ''APIC'') = 4" "length (sig ''XSDT'') = 4" "length (sig ''RSD PTR '') = 8" by (simp_all add: sig_def)
  have x: "rd64 irq_ex_mem (0x500000 + 24) = 0x501000" "rd32 irq_ex_mem (0x501000 + 4) = 44"
    "rd64 irq_ex_mem (0x501000 + 36) = 0x502000" "rd32 irq_ex_mem (0x502000 + 4) = 56"
    "rd32 irq_ex_mem (0x502000 + 48) = 0xfec00000" "get_bytes irq_ex_mem (0x502000 + 0) 4 = sig ''APIC''"
    using irq_ex_bytes(2) [of 24 8] irq_ex_bytes(3) [of 4 4] irq_ex_bytes(3) [of 36 8] irq_ex_bytes(4) [of 4 4]
      irq_ex_bytes(4) [of 48 4] irq_ex_bytes(4) [of 0 4]
    by (simp_all add: rd32_def rd64_def irq_ex_rsdp_def irq_ex_xsdt_def irq_ex_madt_def sg w)
  have ic: "get_bytes irq_ex_mem (0x502000 + 44) 2 = [1, 12]"
    using irq_ex_bytes(4) [of 44 2] by (simp add: irq_ex_madt_def sg)
  then have ic: "irq_ex_mem 0x50202c = 1" "irq_ex_mem 0x50202d = 12" by (simp_all add: get_bytes_def numeral_2_eq_2)
  have "tab_lists acpi_6 irq_ex 0x502000 [(1, 12, 0xfec00000)]"
    unfolding tab_lists_def m
    by (rule exI [of _ 56]) (use irq_ex_table [of "0x502000" 56] x ic in \<open>simp add: MADT_IC_IOAPIC_def\<close>)
  then have "xsdt_lists acpi_6 irq_ex 0x501000 irq_ex_tabs"
    unfolding xsdt_lists_def m
    by (intro exI [of _ 44]) (use irq_ex_table [of "0x501000" 44] x in \<open>simp add: irq_ex_tabs_def\<close>)
  moreover have "{0x500000..<0x50002c} \<inter> vm_owned irq_ex = {}" using irq_ex_wf(3) by fastforce
  ultimately show ?thesis using x by (simp add: rsdp_lists_def m)
qed

lemma irq_ex_data:
  "le_word (take 8 (bn_data irq_ex_node)) = (0x500000 :: u64)" "le_word (drop 8 (bn_data irq_ex_node)) = (44 :: u32)"
  by (simp_all add: irq_ex_node_def le_word_le_bytes take_bit_word_eq_self)

lemma irq_ex_ioapics: "all_ioapics irq_ex_tabs = {0xfec00000}"
  by (simp add: all_ioapics_def irq_ex_tabs_def MADT_IC_IOAPIC_def)

subsection \<open>Properties\<close>

text \<open>
  C39. An interrupt controller structure of length zero that is not an I/O APIC makes the loop over
  the structures of stage 2 run forever.
\<close>

theorem madt_zero_length_hangs:
  assumes "ic \<noteq> madt_end" and "vrd8 s (ic + o_ic_type) = Inr t" and "t \<noteq> MADT_IC_IOAPIC" and "vrd8 s (ic + o_ic_length) = Inr 0"
  shows "madt_ics mm ic madt_end (s, d) = None"
proof -
  define stuck where "stuck ic madt_end x \<longleftrightarrow> ic \<noteq> madt_end \<and> (\<exists>t. vrd8 (fst x) (ic + o_ic_type) = Inr t \<and>
      t \<noteq> MADT_IC_IOAPIC) \<and> vrd8 (fst x) (ic + o_ic_length) = Inr 0" for ic madt_end and x :: "vm \<times> 'a"
  have "\<not> stuck ic madt_end (s, d)" if "madt_ics mm ic madt_end (s, d) = Some y" for y
  proof (rule madt_ics.raw_induct [where P = "\<lambda>_ ic madt_end x _. \<not> stuck ic madt_end x" and
        xa = "(((mm, ic), madt_end), (s, d))" and y = y, unfolded prod.case], goal_cases)
    case (1 f mm ic madt_end x y)
    show ?case
    proof
      assume st: "stuck ic madt_end x"
      then have "f mm ic madt_end x = Some y" using 1(2) by (auto simp: stuck_def)
      then show False using 1(1) st by blast
    qed
  qed (rule that)
  moreover have "stuck ic madt_end (s, d)" using assms by (simp add: stuck_def)
  ultimately show ?thesis by (cases "madt_ics mm ic madt_end (s, d)") auto
qed

theorem madt_zero_length_hangs_witness:
  "madt_ics irq_ex_dev 0x1001 0x1100 (irq_ex, (\<lambda>_. 0, \<lambda>_ _. 0)) = None"
proof -
  have z: "le_bytes n (0 :: u64) = replicate n 0" for n by (induction n) simp_all
  have b: "get_bytes irq_ex_mem (0x1000 + 1) 1 = [0]" "get_bytes irq_ex_mem (0x1000 + 2) 1 = [0]"
    using irq_ex_bytes(1) [of 1 1] irq_ex_bytes(1) [of 2 1] by (simp_all add: z)
  have id: "id_at irq_ex {0x1001..<0x1001 + 1}" "id_at irq_ex {0x1002..<0x1002 + 1}"
    using irq_ex_id by (simp_all add: id_at_def bn_bytes_def irq_ex_lengths sizeof_bparm_def) (simp_all add: irq_ex_node_def)
  have m: "vm_mem irq_ex = irq_ex_mem" by (simp add: irq_ex_def)
  have "vrd8 irq_ex (0x1001 + o_ic_type) = Inr 0" "vrd8 irq_ex (0x1001 + o_ic_length) = Inr 0"
    using vget_id [OF id(1)] vget_id [OF id(2)] b by (simp_all add: vrd8_def o_ic_type_def o_ic_length_def m)
  note r = this
  show ?thesis by (rule madt_zero_length_hangs [OF _ r(1) _ r(2)]) (simp_all add: MADT_IC_IOAPIC_def)
qed

end
