(* ===== verification/Kb.thy ===== *)
theory Kb
  imports Prelude
begin

text \<open>
  The keyboard interrupt of stage 2, \<^verbatim>\<open>stage2/16/kb.c\<close>. The BIOS data area (BDA) is modelled as
  the bytes of its segment, so that the ring buffer and the fields beside it share one memory
  as in the code. The lemmas show that the ring buffer refines a bounded queue of keystrokes,
  that the status flags follow the key events, that the tables are never overrun, and in
  which order the interrupt handler talks to the hardware.
\<close>

unbundle bit_operations_syntax

subsection \<open>Ports, codes and flags\<close>

definition KB_PORT_A :: u16 where "KB_PORT_A = 0x60"
definition KB_STA :: u16 where "KB_STA = 0x64"
definition KB_STA_IN_FULL :: u8 where "KB_STA_IN_FULL = 0x02"
definition KB_STA_DIS :: u8 where "KB_STA_DIS = 0xad"
definition KB_STA_ENA :: u8 where "KB_STA_ENA = 0xae"
definition KB_R_OVERRUN :: u8 where "KB_R_OVERRUN = 0xff"
definition KB_K_CTL :: u8 where "KB_K_CTL = 0x1d"
definition KB_K_LSHFT :: u8 where "KB_K_LSHFT = 0x2a"
definition KB_K_RSHFT :: u8 where "KB_K_RSHFT = 0x36"
definition KB_K_ALT :: u8 where "KB_K_ALT = 0x38"
definition KB_K_CAPLK :: u8 where "KB_K_CAPLK = 0x3a"
definition KB_K_NUMLK :: u8 where "KB_K_NUMLK = 0x45"
definition KB_K_SCLLK :: u8 where "KB_K_SCLLK = 0x46"
definition KB_K_KEY_UP :: u8 where "KB_K_KEY_UP = 0x80"
definition KB_K_KP7 :: u8 where "KB_K_KP7 = 0x47"
definition KB_K_DEL :: u8 where "KB_K_DEL = 0x53"
definition KB_K_Q :: u8 where "KB_K_Q = 0x10"
definition KB_K_P :: u8 where "KB_K_P = 0x19"
definition KB_K_A :: u8 where "KB_K_A = 0x1e"
definition KB_K_L :: u8 where "KB_K_L = 0x26"
definition KB_K_Z :: u8 where "KB_K_Z = 0x2c"
definition KB_K_M :: u8 where "KB_K_M = 0x32"
definition KB_S1_RSHFT :: u8 where "KB_S1_RSHFT = 0x01"
definition KB_S1_LSHFT :: u8 where "KB_S1_LSHFT = 0x02"
definition KB_S1_CTL :: u8 where "KB_S1_CTL = 0x04"
definition KB_S1_ALT :: u8 where "KB_S1_ALT = 0x08"
definition KB_S1_SCLLK_ACT :: u8 where "KB_S1_SCLLK_ACT = 0x10"
definition KB_S1_NUMLK_ACT :: u8 where "KB_S1_NUMLK_ACT = 0x20"
definition KB_S1_CAPLK_ACT :: u8 where "KB_S1_CAPLK_ACT = 0x40"
definition KB_S2_SCLLK :: u8 where "KB_S2_SCLLK = 0x10"
definition KB_S2_NUMLK :: u8 where "KB_S2_NUMLK = 0x20"
definition KB_S2_CAPLK :: u8 where "KB_S2_CAPLK = 0x40"
definition PIC1_CMD :: u16 where "PIC1_CMD = 0x20"
definition OCW2_EOI :: u8 where "OCW2_EOI = 0x20"

lemmas kb_consts =
  KB_PORT_A_def KB_STA_def KB_STA_IN_FULL_def KB_STA_DIS_def KB_STA_ENA_def KB_R_OVERRUN_def
  KB_K_CTL_def KB_K_LSHFT_def KB_K_RSHFT_def KB_K_ALT_def KB_K_CAPLK_def KB_K_NUMLK_def
  KB_K_SCLLK_def KB_K_KEY_UP_def KB_K_KP7_def KB_K_DEL_def KB_K_Q_def KB_K_P_def
  KB_K_A_def KB_K_L_def KB_K_Z_def KB_K_M_def KB_S1_RSHFT_def KB_S1_LSHFT_def
  KB_S1_CTL_def KB_S1_ALT_def KB_S1_SCLLK_ACT_def KB_S1_NUMLK_ACT_def KB_S1_CAPLK_ACT_def KB_S2_SCLLK_def
  KB_S2_NUMLK_def KB_S2_CAPLK_def

subsection \<open>Translation tables\<close>

definition no_shift_map :: "u16 list" where
  "no_shift_map =
     [0x0000, 0x011b, 0x0231, 0x0332, 0x0433, 0x0534, 0x0635, 0x0736, 0x0837, 0x0938, 0x0a39, 0x0b30,
      0x0c2d, 0x0d3d, 0x0e08, 0x0f09, 0x1071, 0x1177, 0x1265, 0x1372, 0x1474, 0x1579, 0x1675, 0x1769,
      0x186f, 0x1970, 0x1a5b, 0x1b5d, 0x1c0d, 0x0000, 0x1e61, 0x1f73, 0x2064, 0x2166, 0x2267, 0x2368,
      0x246a, 0x256b, 0x266c, 0x273b, 0x2827, 0x2960, 0x0000, 0x2b5c, 0x2c7a, 0x2d78, 0x2e63, 0x2f76,
      0x3062, 0x316e, 0x326d, 0x332c, 0x342e, 0x352f, 0x0000, 0x372a, 0x0000, 0x3920, 0x0000, 0x3b00,
      0x3c00, 0x3d00, 0x3e00, 0x3f00, 0x4000, 0x4100, 0x4200, 0x4300, 0x4400, 0x0000, 0x0000, 0x4700,
      0x4800, 0x4900, 0x4a2d, 0x4b00, 0x4c00, 0x4d00, 0x4e2b, 0x4f00, 0x5000, 0x5100, 0x5200, 0x5300]"

definition shift_map :: "u16 list" where
  "shift_map =
     [0x0000, 0x011b, 0x0221, 0x0340, 0x0423, 0x0524, 0x0625, 0x075e, 0x0826, 0x092a, 0x0a28, 0x0b29,
      0x0c5f, 0x0d2b, 0x0e08, 0x0f00, 0x1051, 0x1157, 0x1245, 0x1352, 0x1454, 0x1559, 0x1655, 0x1749,
      0x184f, 0x1950, 0x1a7b, 0x1b7d, 0x1c0d, 0x0000, 0x1e41, 0x1f53, 0x2044, 0x2146, 0x2247, 0x2348,
      0x244a, 0x254b, 0x264c, 0x273a, 0x2822, 0x297e, 0x0000, 0x2b7c, 0x2c5a, 0x2d58, 0x2e43, 0x2f56,
      0x3042, 0x314e, 0x324d, 0x333c, 0x343e, 0x353f, 0x0000, 0x0000, 0x0000, 0x3920, 0x0000, 0x5400,
      0x5500, 0x5600, 0x5700, 0x5800, 0x5900, 0x5a00, 0x5b00, 0x5c00, 0x5d00, 0x0000, 0x0000, 0x4737,
      0x4838, 0x4939, 0x4a2d, 0x4b34, 0x4c35, 0x4d36, 0x4e2b, 0x4f31, 0x5032, 0x5133, 0x5230, 0x532e]"

definition ctl_map :: "u16 list" where
  "ctl_map =
     [0x0000, 0x011b, 0x0000, 0x0300, 0x0000, 0x0000, 0x0000, 0x071e, 0x0000, 0x0000, 0x0000, 0x0000,
      0x0c1f, 0x0000, 0x0e7f, 0x9400, 0x1011, 0x1117, 0x1205, 0x1312, 0x1414, 0x1519, 0x1615, 0x1709,
      0x180f, 0x1910, 0x1a1b, 0x1b1d, 0x1c0a, 0x0000, 0x1e01, 0x1f13, 0x2004, 0x2106, 0x2207, 0x2308,
      0x240a, 0x250b, 0x260c, 0x0000, 0x0000, 0x0000, 0x0000, 0x2b1c, 0x2c1a, 0x2d18, 0x2e03, 0x2f16,
      0x3002, 0x310e, 0x320d, 0x0000, 0x0000, 0x0000, 0x0000, 0x9600, 0x0000, 0x3920, 0x0000, 0x5e00,
      0x5f00, 0x6000, 0x6100, 0x6200, 0x6300, 0x6400, 0x6500, 0x6600, 0x6700, 0x0000, 0x0000, 0x7700,
      0x8d00, 0x8400, 0x8e00, 0x7300, 0x8f00, 0x7400, 0x0000, 0x7500, 0x9100, 0x7600, 0x9200, 0x9300]"

definition alt_map :: "u8 list" where
  "alt_map =
     [0x00, 0x01, 0x78, 0x79, 0x7a, 0x7b, 0x7c, 0x7d, 0x7e, 0x7f, 0x80, 0x81,
      0x82, 0x83, 0x0e, 0xa5, 0x10, 0x11, 0x12, 0x13, 0x14, 0x15, 0x16, 0x17,
      0x18, 0x19, 0x1a, 0x1b, 0xa6, 0x00, 0x1e, 0x1f, 0x20, 0x21, 0x22, 0x23,
      0x24, 0x25, 0x26, 0x27, 0x28, 0x29, 0x00, 0x2b, 0x2c, 0x2d, 0x2e, 0x2f,
      0x30, 0x31, 0x32, 0x33, 0x34, 0x35, 0x00, 0x37, 0x00, 0x39, 0x00, 0x68,
      0x69, 0x6a, 0x6b, 0x6c, 0x6d, 0x6e, 0x6f, 0x70, 0x71, 0x00, 0x00, 0x97,
      0x98, 0x99, 0x4a, 0x9b, 0x9c, 0x9d, 0x4e, 0x9f, 0xa0, 0xa1, 0xa2, 0xa3]"

subsection \<open>The BIOS data area\<close>

text \<open>Offsets in the segment of the fields the handler uses.\<close>

definition kb_stat1 :: nat where "kb_stat1 = 0x17"
definition kb_stat2 :: nat where "kb_stat2 = 0x18"
definition kb_buf_head :: nat where "kb_buf_head = 0x1a"
definition kb_buf_tail :: nat where "kb_buf_tail = 0x1c"
definition kb_buf_start :: nat where "kb_buf_start = 0x80"
definition kb_buf_end :: nat where "kb_buf_end = 0x82"

lemmas bda_offsets = kb_stat1_def kb_stat2_def kb_buf_head_def kb_buf_tail_def kb_buf_start_def kb_buf_end_def

subsection \<open>Handling a scan code\<close>

definition set_flag :: "mem \<Rightarrow> nat \<Rightarrow> u8 \<Rightarrow> mem" where "set_flag m f b = m(f := m f OR b)"
definition clear_flag :: "mem \<Rightarrow> nat \<Rightarrow> u8 \<Rightarrow> mem" where "clear_flag m f b = m(f := m f AND NOT b)"
definition toggle_flag :: "mem \<Rightarrow> nat \<Rightarrow> u8 \<Rightarrow> mem" where "toggle_flag m f b = m(f := m f XOR b)"

text \<open>
  The cases that only keep track of modifier and lock keys: \<open>Some\<close> the new memory, or \<open>None\<close> for a
  code that the remaining cases translate. \<^verbatim>\<open>argh\<close> and \<^verbatim>\<open>start_upd_leds\<close> have empty bodies.
\<close>

definition modifier_code :: "mem \<Rightarrow> u8 \<Rightarrow> mem option" where
  "modifier_code m code =
     (if code = KB_R_OVERRUN then Some m
      else if code = KB_K_LSHFT then Some (set_flag m kb_stat1 KB_S1_LSHFT)
      else if code = KB_K_LSHFT OR KB_K_KEY_UP then Some (clear_flag m kb_stat1 KB_S1_LSHFT)
      else if code = KB_K_RSHFT then Some (set_flag m kb_stat1 KB_S1_RSHFT)
      else if code = KB_K_RSHFT OR KB_K_KEY_UP then Some (clear_flag m kb_stat1 KB_S1_RSHFT)
      else if code = KB_K_CTL then Some (set_flag m kb_stat1 KB_S1_CTL)
      else if code = KB_K_CTL OR KB_K_KEY_UP then Some (clear_flag m kb_stat1 KB_S1_CTL)
      else if code = KB_K_ALT then Some (set_flag m kb_stat1 KB_S1_ALT)
      else if code = KB_K_ALT OR KB_K_KEY_UP then Some (clear_flag m kb_stat1 KB_S1_ALT)
      else if code = KB_K_CAPLK then
        Some (set_flag (toggle_flag m kb_stat1 KB_S1_CAPLK_ACT) kb_stat2 KB_S2_CAPLK)
      else if code = KB_K_CAPLK OR KB_K_KEY_UP then Some (clear_flag m kb_stat2 KB_S2_CAPLK)
      else if code = KB_K_NUMLK then
        Some (set_flag (toggle_flag m kb_stat1 KB_S1_NUMLK_ACT) kb_stat2 KB_S2_NUMLK)
      else if code = KB_K_NUMLK OR KB_K_KEY_UP then Some (clear_flag m kb_stat2 KB_S2_NUMLK)
      else if code = KB_K_SCLLK then
        Some (set_flag (toggle_flag m kb_stat1 KB_S1_SCLLK_ACT) kb_stat2 KB_S2_SCLLK)
      else if code = KB_K_SCLLK OR KB_K_KEY_UP then Some (clear_flag m kb_stat2 KB_S2_SCLLK)
      else None)"

text \<open>The remaining cases: the key code for a scan code under the current flags, 0 for none.\<close>

definition translate :: "u8 \<Rightarrow> u8 \<Rightarrow> u16 res" where
  "translate stat1 code =
     (let shifted =
        (if KB_K_KP7 \<le> code \<and> code \<le> KB_K_DEL then stat1 AND KB_S1_NUMLK_ACT \<noteq> 0
         else if KB_K_Q \<le> code \<and> code \<le> KB_K_P \<or> KB_K_A \<le> code \<and> code \<le> KB_K_L \<or>
                 KB_K_Z \<le> code \<and> code \<le> KB_K_M then stat1 AND KB_S1_CAPLK_ACT \<noteq> 0
         else False) in
      if stat1 AND KB_S1_ALT \<noteq> 0 then
        if unat code < length alt_map
        then bindr (arr_get alt_map (unat code)) (\<lambda>c. Inr (push_bit 8 (ucast c))) else Inr 0
      else if stat1 AND KB_S1_CTL \<noteq> 0 then
        if unat code < length ctl_map then arr_get ctl_map (unat code) else Inr 0
      else
        let shifted' = (if stat1 AND (KB_S1_RSHFT OR KB_S1_LSHFT) \<noteq> 0 then \<not> shifted else shifted) in
        if shifted' then
          if unat code < length shift_map then arr_get shift_map (unat code) else Inr 0
        else if unat code < length no_shift_map then arr_get no_shift_map (unat code) else Inr 0)"

text \<open>Appending to the ring buffer; the keystroke is dropped when the buffer is full.\<close>

definition buf_put :: "mem \<Rightarrow> u16 \<Rightarrow> mem" where
  "buf_put m key =
     (let old_tail = rd16 m kb_buf_tail;
          new_tail0 = old_tail + 2;
          new_tail = (if rd16 m kb_buf_end - new_tail0 < 2 then rd16 m kb_buf_start else new_tail0)
      in if new_tail = rd16 m kb_buf_head then m
         else wr16 (wr16 m (unat old_tail) key) kb_buf_tail new_tail)"

definition handle_code :: "mem \<Rightarrow> u8 \<Rightarrow> mem res" where
  "handle_code m code =
     (case modifier_code m code of
        Some m' \<Rightarrow> Inr m'
      | None \<Rightarrow> bindr (translate (m kb_stat1) code) (\<lambda>key. if key = 0 then Inr m else Inr (buf_put m key)))"

subsection \<open>Talking to the hardware\<close>

text \<open>
  The hardware is a parameter: \<open>hw tr port\<close> is the byte it delivers on a read of the port after
  the accesses \<open>tr\<close>. \<open>Delay\<close> is the dummy write to port 0x80 of \<^verbatim>\<open>inp_w\<close>.
\<close>

datatype io = In u16 u8 | Out u16 u8 | Delay

type_synonym hardware = "io list \<Rightarrow> u16 \<Rightarrow> u8"

definition inp :: "hardware \<Rightarrow> io list \<Rightarrow> u16 \<Rightarrow> u8 \<times> io list" where
  "inp hw tr p = (hw tr p, tr @ [In p (hw tr p)])"

definition inp_w :: "hardware \<Rightarrow> io list \<Rightarrow> u16 \<Rightarrow> u8 \<times> io list" where
  "inp_w hw tr p = inp hw (tr @ [Delay]) p"

definition outp :: "io list \<Rightarrow> u16 \<Rightarrow> u8 \<Rightarrow> io list" where
  "outp tr p v = tr @ [Out p v]"

function wait_loop :: "hardware \<Rightarrow> u16 \<Rightarrow> io list \<Rightarrow> io list" where
  "wait_loop hw cnt tr =
     (let cnt' = cnt - 1 in
      if cnt' \<noteq> 0 then
        let (v, tr') = inp_w hw tr KB_STA in
        if v AND KB_STA_IN_FULL \<noteq> 0 then wait_loop hw cnt' tr' else tr'
      else tr)"
  by pat_completeness auto
termination
proof (relation "measure (\<lambda>(hw, cnt, tr). unat (cnt - 1))", goal_cases)
  case (2 hw cnt tr cnt' x v tr')
  then have "1 \<le> cnt'" by (metis word_le_less_eq word_coorder.extremum_strict word_gt_0 inc_le add.left_neutral)
  then have "unat (cnt' - 1) < unat cnt'" by (simp add: unat_sub word_le_nat_alt)
  then show ?case using 2(1) by simp
qed simp

declare wait_loop.simps [simp del]

definition wait_kb_in_buf_clear :: "hardware \<Rightarrow> io list \<Rightarrow> io list" where
  "wait_kb_in_buf_clear hw tr = wait_loop hw 0 tr"

definition snd_sta :: "hardware \<Rightarrow> io list \<Rightarrow> u8 \<Rightarrow> io list" where
  "snd_sta hw tr cmd = outp (wait_kb_in_buf_clear hw tr) KB_STA cmd"

definition irq1_impl :: "hardware \<Rightarrow> io list \<Rightarrow> mem \<Rightarrow> (io list \<times> mem) res" where
  "irq1_impl hw tr m =
     (let tr1 = snd_sta hw tr KB_STA_DIS;
          tr2 = wait_kb_in_buf_clear hw tr1;
          (code, tr3) = inp hw tr2 KB_PORT_A
      in bindr (handle_code m code) (\<lambda>m'.
           let tr4 = outp tr3 PIC1_CMD OCW2_EOI in
           Inr (snd_sta hw tr4 KB_STA_ENA, m')))"

subsection \<open>Ring arithmetic\<close>

text \<open>Indices of a ring of \<open>n\<close> slots: the number of slots from \<open>h\<close> up to \<open>t\<close>.\<close>

definition ring_count :: "nat \<Rightarrow> nat \<Rightarrow> nat \<Rightarrow> nat" where
  "ring_count n h t = (t + n - h) mod n"

lemma ring_count_if: "h < n \<Longrightarrow> t < n \<Longrightarrow> ring_count n h t = (if h \<le> t then t - h else t + n - h)"
proof (cases "h \<le> t")
  case True
  assume "t < n"
  moreover have "t + n - h = (t - h) + n" using True by simp
  ultimately show ?thesis using True by (simp only: ring_count_def mod_add_self2) simp
qed (simp add: ring_count_def)

lemma ring_succ_if: "t < n \<Longrightarrow> Suc t mod n = (if Suc t = n then 0 else Suc t)"
  by (cases "Suc t = n") simp_all

lemma ring_full: "h < n \<Longrightarrow> t < n \<Longrightarrow> Suc t mod n = h \<longleftrightarrow> Suc (ring_count n h t) = n"
  using ring_count_if [of h n t] ring_succ_if [of t n] by (auto split: if_splits)

lemma ring_snoc:
  assumes "h < n" and "t < n" and "Suc t mod n \<noteq> h"
  shows "ring_count n h (Suc t mod n) = Suc (ring_count n h t)"
proof -
  have "Suc t mod n < n" using assms(2) by simp
  then show ?thesis using assms by (auto simp: ring_count_if ring_succ_if split: if_splits)
qed

lemma ring_last: "h < n \<Longrightarrow> t < n \<Longrightarrow> (h + ring_count n h t) mod n = t"
  by (cases "h \<le> t") (simp_all add: ring_count_if)

lemma ring_inside:
  assumes "h < n" and "t < n" and "i < ring_count n h t"
  shows "(h + i) mod n \<noteq> t"
proof (cases "h + i < n")
  case True
  then show ?thesis using assms by (cases "h \<le> t") (simp_all add: ring_count_if)
next
  case False
  then have "(h + i) mod n = h + i - n"
    using assms ring_count_if [of h n t] by (simp add: mod_if [of "h + i"] split: if_splits)
  then show ?thesis using assms False ring_count_if [of h n t] by (simp split: if_splits)
qed

lemma ring_count_less: "t < n \<Longrightarrow> ring_count n h t < n"
  by (simp add: ring_count_def)

subsection \<open>The buffer as a queue\<close>

text \<open>
  A buffer is well formed when it lies outside the fields of the BDA that describe it and the
  status flags, and head and tail point to slots of two bytes in it. The BIOS's default buffer
  is \<^verbatim>\<open>kb_buf\<close>, 0x1e to 0x3e; \<open>kb_wf\<close> allows the others a program may set up.
\<close>

definition kb_wf :: "mem \<Rightarrow> bool" where
  "kb_wf m \<longleftrightarrow>
     (let s = unat (rd16 m kb_buf_start); e = unat (rd16 m kb_buf_end);
          h = unat (rd16 m kb_buf_head); t = unat (rd16 m kb_buf_tail)
      in 0x1e \<le> s \<and> (e \<le> 0x80 \<or> 0x84 \<le> s) \<and>
         s \<le> h \<and> h + 2 \<le> e \<and> even (h - s) \<and> s \<le> t \<and> t + 2 \<le> e \<and> even (t - s))"

definition kb_slots :: "mem \<Rightarrow> nat" where
  "kb_slots m = (unat (rd16 m kb_buf_end) - unat (rd16 m kb_buf_start)) div 2"

definition kb_slot :: "mem \<Rightarrow> nat \<Rightarrow> nat" where
  "kb_slot m f = (unat (rd16 m f) - unat (rd16 m kb_buf_start)) div 2"

definition kb_len :: "mem \<Rightarrow> nat" where
  "kb_len m = ring_count (kb_slots m) (kb_slot m kb_buf_head) (kb_slot m kb_buf_tail)"

definition kb_slot_addr :: "mem \<Rightarrow> nat \<Rightarrow> nat" where
  "kb_slot_addr m i = unat (rd16 m kb_buf_start) + 2 * ((kb_slot m kb_buf_head + i) mod kb_slots m)"

text \<open>The keystrokes waiting in the buffer, oldest first, and how many fit into it.\<close>

definition kb_queue :: "mem \<Rightarrow> u16 list" where
  "kb_queue m = map (\<lambda>i. rd16 m (kb_slot_addr m i)) [0..<kb_len m]"

definition kb_capacity :: "mem \<Rightarrow> nat" where
  "kb_capacity m = kb_slots m - 1"

lemma kb_wf_slots:
  assumes "kb_wf m"
  shows "kb_slot m kb_buf_head < kb_slots m" and "kb_slot m kb_buf_tail < kb_slots m"
    and "unat (rd16 m kb_buf_tail) = unat (rd16 m kb_buf_start) + 2 * kb_slot m kb_buf_tail"
    and "unat (rd16 m kb_buf_head) = unat (rd16 m kb_buf_start) + 2 * kb_slot m kb_buf_head"
    and "unat (rd16 m kb_buf_start) + 2 * kb_slots m \<le> unat (rd16 m kb_buf_end)"
    and "unat (rd16 m kb_buf_end) < unat (rd16 m kb_buf_start) + 2 * kb_slots m + 2"
    and "0x1e \<le> unat (rd16 m kb_buf_start)"
    and "unat (rd16 m kb_buf_end) \<le> 0x80 \<or> 0x84 \<le> unat (rd16 m kb_buf_start)"
proof -
  note wf = assms [unfolded kb_wf_def Let_def]
  show "unat (rd16 m kb_buf_tail) = unat (rd16 m kb_buf_start) + 2 * kb_slot m kb_buf_tail"
    and "unat (rd16 m kb_buf_head) = unat (rd16 m kb_buf_start) + 2 * kb_slot m kb_buf_head"
    using wf unfolding kb_slot_def by (metis dvd_mult_div_cancel le_add_diff_inverse)+
  show "kb_slot m kb_buf_head < kb_slots m" and "kb_slot m kb_buf_tail < kb_slots m"
    using wf unfolding kb_slot_def kb_slots_def by linarith+
  show "unat (rd16 m kb_buf_start) + 2 * kb_slots m \<le> unat (rd16 m kb_buf_end)"
    and "unat (rd16 m kb_buf_end) < unat (rd16 m kb_buf_start) + 2 * kb_slots m + 2"
    using wf unfolding kb_slots_def by linarith+
  show "0x1e \<le> unat (rd16 m kb_buf_start)"
    and "unat (rd16 m kb_buf_end) \<le> 0x80 \<or> 0x84 \<le> unat (rd16 m kb_buf_start)"
    using wf by simp_all
qed

text \<open>The tail the code computes is the next slot of the ring.\<close>

definition next_tail :: "mem \<Rightarrow> u16" where
  "next_tail m =
     (let t = rd16 m kb_buf_tail + 2 in if rd16 m kb_buf_end - t < 2 then rd16 m kb_buf_start else t)"

lemma buf_put_next:
  "buf_put m key =
     (if next_tail m = rd16 m kb_buf_head then m
      else wr16 (wr16 m (unat (rd16 m kb_buf_tail)) key) kb_buf_tail (next_tail m))"
  by (simp add: buf_put_def next_tail_def Let_def)

lemma unat_next_tail:
  assumes "kb_wf m"
  shows "unat (next_tail m) =
    unat (rd16 m kb_buf_start) + 2 * (Suc (kb_slot m kb_buf_tail) mod kb_slots m)"
proof -
  let ?s = "unat (rd16 m kb_buf_start)" and ?e = "unat (rd16 m kb_buf_end)"
  let ?t = "rd16 m kb_buf_tail" and ?i = "kb_slot m kb_buf_tail" and ?n = "kb_slots m"
  note w = kb_wf_slots [OF assms]
  have e: "?e < 65536" using unat_lt [of "rd16 m kb_buf_end"] by simp
  have t2: "unat (?t + 2) = ?s + 2 * ?i + 2"
    using w(2,3,5) e unat_add_nowrap [of ?t 2] by simp
  then have "?t + 2 \<le> rd16 m kb_buf_end" using w(2,5) by (simp add: word_le_nat_alt)
  then have "unat (rd16 m kb_buf_end - (?t + 2)) = ?e - (?s + 2 * ?i + 2)"
    by (simp add: unat_sub t2)
  then have "rd16 m kb_buf_end - (?t + 2) < 2 \<longleftrightarrow> ?e - (?s + 2 * ?i + 2) < 2"
    by (simp add: word_less_nat_alt)
  also have "\<dots> \<longleftrightarrow> Suc ?i = ?n" using w(2,5,6) by linarith
  finally show ?thesis using w(2) t2 by (simp add: next_tail_def ring_succ_if Let_def)
qed

lemma next_tail_full:
  assumes "kb_wf m"
  shows "next_tail m = rd16 m kb_buf_head \<longleftrightarrow> kb_len m = kb_capacity m"
proof -
  note w = kb_wf_slots [OF assms]
  have "next_tail m = rd16 m kb_buf_head \<longleftrightarrow>
      Suc (kb_slot m kb_buf_tail) mod kb_slots m = kb_slot m kb_buf_head"
    using unat_next_tail [OF assms] w(4) by (simp add: word_unat_eq_iff)
  then show ?thesis
    using w(1,2) ring_full [OF w(1,2)] by (auto simp: kb_len_def kb_capacity_def)
qed

lemma rd16_wr16_other: "a + 2 \<le> b \<or> b + 2 \<le> a \<Longrightarrow> rd16 (wr16 m a v) b = rd16 m b"
  by (simp add: rd16_def get_bytes_wr)

lemma wr16_other: "i < a \<or> a + 2 \<le> i \<Longrightarrow> wr16 m a v i = m i"
  by (auto simp: wr16_def put_bytes_def)

lemma slot_bounds:
  assumes "kb_wf m" and "j < kb_slots m"
  shows "0x1e \<le> unat (rd16 m kb_buf_start) + 2 * j"
    and "unat (rd16 m kb_buf_start) + 2 * j + 2 \<le> 0x80 \<or> 0x84 \<le> unat (rd16 m kb_buf_start) + 2 * j"
    and "unat (rd16 m kb_buf_start) + 2 * j + 2 \<le> unat (rd16 m kb_buf_end)"
  using kb_wf_slots(5-8) [OF assms(1)] assms(2) by linarith+

definition kb_room :: "mem \<Rightarrow> bool" where
  "kb_room m \<longleftrightarrow> kb_wf m \<and> next_tail m \<noteq> rd16 m kb_buf_head"

lemma kb_roomD:
  assumes "kb_room m"
  shows "kb_wf m"
    and "buf_put m key = wr16 (wr16 m (unat (rd16 m kb_buf_tail)) key) kb_buf_tail (next_tail m)"
    and "0x1e \<le> unat (rd16 m kb_buf_tail)"
    and "unat (rd16 m kb_buf_tail) \<le> 0x7e \<or> 0x84 \<le> unat (rd16 m kb_buf_tail)"
proof -
  show wf: "kb_wf m" using assms by (simp add: kb_room_def)
  show "buf_put m key = wr16 (wr16 m (unat (rd16 m kb_buf_tail)) key) kb_buf_tail (next_tail m)"
    using assms by (simp add: kb_room_def buf_put_next)
  show "0x1e \<le> unat (rd16 m kb_buf_tail)"
    and "unat (rd16 m kb_buf_tail) \<le> 0x7e \<or> 0x84 \<le> unat (rd16 m kb_buf_tail)"
    using slot_bounds [OF wf kb_wf_slots(2) [OF wf]] kb_wf_slots(3) [OF wf] by linarith+
qed

lemma buf_put_fields:
  assumes "kb_room m"
  shows "rd16 (buf_put m key) kb_buf_start = rd16 m kb_buf_start"
    and "rd16 (buf_put m key) kb_buf_end = rd16 m kb_buf_end"
    and "rd16 (buf_put m key) kb_buf_head = rd16 m kb_buf_head"
    and "rd16 (buf_put m key) kb_buf_tail = next_tail m"
  unfolding kb_roomD(2) [OF assms] using kb_roomD(3,4) [OF assms]
  by (auto simp: rd16_wr16_other bda_offsets)

lemma buf_put_slots:
  assumes "kb_room m"
  shows "kb_slots (buf_put m key) = kb_slots m"
    and "kb_slot (buf_put m key) kb_buf_head = kb_slot m kb_buf_head"
    and "kb_slot (buf_put m key) kb_buf_tail = Suc (kb_slot m kb_buf_tail) mod kb_slots m"
  using assms by (simp_all add: kb_slots_def kb_slot_def buf_put_fields unat_next_tail kb_roomD(1))

lemma buf_put_wf:
  assumes "kb_room m"
  shows "kb_wf (buf_put m key)"
proof -
  note wf = kb_roomD(1) [OF assms]
  let ?t = "unat (next_tail m)"
  have "Suc (kb_slot m kb_buf_tail) mod kb_slots m < kb_slots m"
    using kb_wf_slots(2) [OF wf] by simp
  from slot_bounds(3) [OF wf this] unat_next_tail [OF wf]
  have "unat (rd16 m kb_buf_start) \<le> ?t \<and> ?t + 2 \<le> unat (rd16 m kb_buf_end) \<and>
      even (?t - unat (rd16 m kb_buf_start))" by simp
  then show ?thesis
    using wf unfolding kb_wf_def Let_def buf_put_fields [OF assms] by blast
qed

lemma buf_put_len:
  assumes "kb_room m"
  shows "kb_len (buf_put m key) = Suc (kb_len m)"
proof -
  note wf = kb_roomD(1) [OF assms]
  note w = kb_wf_slots [OF wf]
  have "Suc (kb_slot m kb_buf_tail) mod kb_slots m \<noteq> kb_slot m kb_buf_head"
    using assms unat_next_tail [OF wf] w(4) by (simp add: word_unat_eq_iff kb_room_def)
  then show ?thesis using ring_snoc [OF w(1,2)] by (simp add: kb_len_def buf_put_slots assms)
qed

lemma buf_put_slot_addr: "kb_room m \<Longrightarrow> kb_slot_addr (buf_put m key) i = kb_slot_addr m i"
  by (simp add: kb_slot_addr_def buf_put_slots buf_put_fields)

lemma buf_put_new:
  assumes "kb_room m"
  shows "rd16 (buf_put m key) (kb_slot_addr m (kb_len m)) = key"
proof -
  note w = kb_wf_slots [OF kb_roomD(1) [OF assms]]
  have "kb_slot_addr m (kb_len m) = unat (rd16 m kb_buf_tail)"
    using ring_last [OF w(1,2)] w(3) by (simp add: kb_slot_addr_def kb_len_def)
  then show ?thesis unfolding kb_roomD(2) [OF assms] using kb_roomD(3) [OF assms]
    by (simp add: rd16_wr16_other bda_offsets)
qed

lemma buf_put_old:
  assumes "kb_room m" and "i < kb_len m"
  shows "rd16 (buf_put m key) (kb_slot_addr m i) = rd16 m (kb_slot_addr m i)"
proof -
  note wf = kb_roomD(1) [OF assms(1)]
  note w = kb_wf_slots [OF wf]
  let ?j = "(kb_slot m kb_buf_head + i) mod kb_slots m"
  have j: "?j < kb_slots m" using w(1) by simp
  have "?j \<noteq> kb_slot m kb_buf_tail"
    using ring_inside [OF w(1,2)] assms(2) by (simp add: kb_len_def)
  then have apart: "unat (rd16 m kb_buf_tail) + 2 \<le> kb_slot_addr m i \<or>
      kb_slot_addr m i + 2 \<le> unat (rd16 m kb_buf_tail)"
    unfolding kb_slot_addr_def w(3) by linarith
  have "0x1e \<le> kb_slot_addr m i" using slot_bounds(1) [OF wf j] by (simp add: kb_slot_addr_def)
  then show ?thesis unfolding kb_roomD(2) [OF assms(1)] using apart
    by (simp add: rd16_wr16_other bda_offsets)
qed

lemma buf_put_queue: "kb_room m \<Longrightarrow> kb_queue (buf_put m key) = kb_queue m @ [key]"
  by (simp add: kb_queue_def buf_put_len buf_put_slot_addr buf_put_new buf_put_old)

text \<open>The bytes a put may change: the slot at the tail and the tail pointer.\<close>

lemma buf_put_frame:
  assumes "kb_wf m" and "a < 0x1c \<or> 0x1e \<le> a \<and> a < unat (rd16 m kb_buf_start) \<or>
    unat (rd16 m kb_buf_end) \<le> a \<and> 0x1e \<le> a"
  shows "buf_put m key a = m a"
proof (cases "kb_room m")
  case True
  have "a < unat (rd16 m kb_buf_tail) \<or> unat (rd16 m kb_buf_tail) + 2 \<le> a"
    using assms kb_roomD(3) [OF True] by (auto simp: kb_wf_def Let_def)
  then show ?thesis unfolding kb_roomD(2) [OF True] using assms(2)
    by (auto simp: wr16_other bda_offsets)
next
  case False
  then show ?thesis using assms(1) by (simp add: kb_room_def buf_put_next)
qed

lemma buf_put_full: "next_tail m = rd16 m kb_buf_head \<Longrightarrow> buf_put m key = m"
  by (simp add: buf_put_next)

lemma kb_queue_length: "length (kb_queue m) = kb_len m"
  by (simp add: kb_queue_def)

lemma kb_len_le:
  assumes "kb_wf m"
  shows "kb_len m \<le> kb_capacity m"
  using ring_count_less [OF kb_wf_slots(2) [OF assms], of "kb_slot m kb_buf_head"]
  by (simp add: kb_len_def kb_capacity_def)

lemma kb_room_iff: "kb_wf m \<Longrightarrow> kb_room m \<longleftrightarrow> length (kb_queue m) < kb_capacity m"
  using next_tail_full kb_len_le by (fastforce simp: kb_room_def kb_queue_length)

subsection \<open>The interface of a bounded queue\<close>

text \<open>
  What the handler relies on: putting keeps the invariant and the capacity, and appends to the
  content as long as there is room.
\<close>

locale bounded_fifo =
  fixes inv :: "'s \<Rightarrow> bool"
    and content :: "'s \<Rightarrow> 'k list"
    and cap :: "'s \<Rightarrow> nat"
    and put :: "'s \<Rightarrow> 'k \<Rightarrow> 's"
  assumes put_inv: "inv s \<Longrightarrow> inv (put s k)"
    and put_cap: "inv s \<Longrightarrow> cap (put s k) = cap s"
    and put_content: "inv s \<Longrightarrow> content (put s k) = take (cap s) (content s @ [k])"
    and content_le: "inv s \<Longrightarrow> length (content s) \<le> cap s"
begin

lemma puts: "inv s \<Longrightarrow> inv (foldl put s ks) \<and> cap (foldl put s ks) = cap s \<and>
    content (foldl put s ks) = take (cap s) (content s @ ks)"
proof (induction ks arbitrary: s)
  case Nil
  then show ?case by (simp add: content_le)
next
  case (Cons k ks)
  have "take (cap s) (take (cap s) (content s @ [k]) @ ks) = take (cap s) (content s @ k # ks)"
    using content_le [OF Cons.prems] by (cases "length (content s) < cap s") auto
  then show ?case
    using Cons.IH [OF put_inv [OF Cons.prems]] put_cap [OF Cons.prems] put_content [OF Cons.prems]
    by (simp del: take_append)
qed

text \<open>What is in the queue stays in front: nothing waiting is overwritten or reordered.\<close>

lemma put_keeps: "inv s \<Longrightarrow> take (length (content s)) (content (put s k)) = content s"
  using content_le by (simp add: put_content)

end

lemma buf_put_capacity: "kb_wf m \<Longrightarrow> kb_capacity (buf_put m key) = kb_capacity m"
  by (cases "kb_room m") (simp_all add: kb_capacity_def buf_put_slots(1), simp add: kb_room_def buf_put_full)

lemma buf_put_content: "kb_wf m \<Longrightarrow> kb_queue (buf_put m key) = take (kb_capacity m) (kb_queue m @ [key])"
  using kb_room_iff [of m] kb_len_le [of m]
  by (cases "kb_room m") (auto simp: buf_put_queue kb_room_def buf_put_full kb_queue_length)

interpretation kbq: bounded_fifo kb_wf kb_queue kb_capacity buf_put
proof
  fix m key
  assume wf: "kb_wf m"
  show "kb_wf (buf_put m key)"
    using wf buf_put_wf by (cases "kb_room m") (auto simp: kb_room_def buf_put_full)
  show "kb_capacity (buf_put m key) = kb_capacity m" using wf by (rule buf_put_capacity)
  show "kb_queue (buf_put m key) = take (kb_capacity m) (kb_queue m @ [key])"
    using wf by (rule buf_put_content)
  show "length (kb_queue m) \<le> kb_capacity m" using wf by (simp add: kb_queue_length kb_len_le)
qed

subsection \<open>The status flags do not touch the queue\<close>

lemma kb_agree:
  assumes "\<And>a. 0x1a \<le> a \<Longrightarrow> m' a = m a"
  shows "0x1a \<le> f \<Longrightarrow> rd16 m' f = rd16 m f"
    and "kb_wf m' = kb_wf m" and "kb_capacity m' = kb_capacity m"
    and "kb_wf m \<Longrightarrow> kb_queue m' = kb_queue m"
proof -
  have r: "rd16 m' f = rd16 m f" if "0x1a \<le> f" for f
    using that assms unfolding rd16_def by (metis get_bytes_cong order_trans)
  then show "0x1a \<le> f \<Longrightarrow> rd16 m' f = rd16 m f" by blast
  have fields: "rd16 m' kb_buf_start = rd16 m kb_buf_start" "rd16 m' kb_buf_end = rd16 m kb_buf_end"
    "rd16 m' kb_buf_head = rd16 m kb_buf_head" "rd16 m' kb_buf_tail = rd16 m kb_buf_tail"
    by (rule r, simp add: bda_offsets)+
  then show "kb_wf m' = kb_wf m" by (simp add: kb_wf_def)
  show "kb_capacity m' = kb_capacity m" by (simp add: kb_capacity_def kb_slots_def fields)
  have addr: "kb_slot_addr m' i = kb_slot_addr m i" and len: "kb_len m' = kb_len m" for i
    by (simp_all add: kb_slot_addr_def kb_len_def kb_slot_def kb_slots_def fields)
  assume wf: "kb_wf m"
  have "0x1a \<le> kb_slot_addr m i" for i
    using kb_wf_slots(7) [OF wf] by (simp add: kb_slot_addr_def)
  then show "kb_queue m' = kb_queue m" by (simp add: kb_queue_def addr len r)
qed

lemma modifier_code_high: "modifier_code m code = Some m' \<Longrightarrow> 0x19 \<le> a \<Longrightarrow> m' a = m a"
  by (auto simp: modifier_code_def set_flag_def clear_flag_def toggle_flag_def bda_offsets split: if_splits)

subsection \<open>What a scan code means\<close>

text \<open>
  The specification of the translation. A lock key inverts the shift state for the keys it is
  about: Num Lock for the keypad, Caps Lock for the letters, which are the keys whose
  unshifted character is one of \<open>a\<close> to \<open>z\<close>.
\<close>

definition ascii :: "u16 \<Rightarrow> u8" where "ascii key = ucast key"

definition letter :: "u8 \<Rightarrow> bool" where
  "letter code \<longleftrightarrow> unat code < 84 \<and> (let c = ascii (no_shift_map ! unat code) in 0x61 \<le> c \<and> c \<le> 0x7a)"

definition keypad :: "u8 \<Rightarrow> bool" where "keypad code \<longleftrightarrow> 0x47 \<le> code \<and> code \<le> 0x53"

definition lock_shifts :: "u8 \<Rightarrow> u8 \<Rightarrow> bool" where
  "lock_shifts stat1 code \<longleftrightarrow> keypad code \<and> bit stat1 5 \<or> letter code \<and> bit stat1 6"

definition layer :: "u8 \<Rightarrow> u8 \<Rightarrow> u16 list" where
  "layer stat1 code =
     (if bit stat1 3 then map (\<lambda>c. push_bit 8 (ucast c)) alt_map
      else if bit stat1 2 then ctl_map
      else if (bit stat1 0 \<or> bit stat1 1) \<noteq> lock_shifts stat1 code then shift_map
      else no_shift_map)"

definition key_code :: "u8 \<Rightarrow> u8 \<Rightarrow> u16" where
  "key_code stat1 code = (if unat code < 84 then layer stat1 code ! unat code else 0)"

lemma map_lengths: "length no_shift_map = 84" "length shift_map = 84" "length ctl_map = 84"
    "length alt_map = 84"
  by (simp_all add: no_shift_map_def shift_map_def ctl_map_def alt_map_def)

lemma byte_cases:
  assumes "\<And>n. n < 256 \<Longrightarrow> P (word_of_nat n :: u8)"
  shows "P c"
proof -
  have "unat c < 256" using unat_lt [of c] by simp
  from assms [OF this] show ?thesis by simp
qed

definition letter_codes :: "nat list" where
  "letter_codes = [i \<leftarrow> [0..<84]. (let c = ascii (no_shift_map ! i) in 0x61 \<le> c \<and> c \<le> 0x7a)]"

lemma letter_codes_eq: "letter_codes = [0x10..<0x1a] @ [0x1e..<0x27] @ [0x2c..<0x33]"
  by code_simp

lemma letter_range:
  "letter code \<longleftrightarrow> KB_K_Q \<le> code \<and> code \<le> KB_K_P \<or> KB_K_A \<le> code \<and> code \<le> KB_K_L \<or>
     KB_K_Z \<le> code \<and> code \<le> KB_K_M"
proof -
  have "letter code \<longleftrightarrow> unat code \<in> set letter_codes"
    by (simp add: letter_def letter_codes_def)
  then show ?thesis
    unfolding letter_codes_eq set_append set_upt Un_iff atLeastLessThan_iff
    unfolding word_le_nat_alt kb_consts by simp arith
qed

lemma keypad_range: "keypad code \<longleftrightarrow> KB_K_KP7 \<le> code \<and> code \<le> KB_K_DEL"
  by (simp add: keypad_def kb_consts)

lemma keypad_not_letter: "keypad code \<Longrightarrow> \<not> letter code"
  unfolding keypad_range letter_range word_le_nat_alt kb_consts by simp

lemma and_bits:
  "(w AND KB_S1_ALT \<noteq> 0) = bit w 3" "(w AND KB_S1_CTL \<noteq> 0) = bit w 2"
  "(w AND KB_S1_NUMLK_ACT \<noteq> 0) = bit w 5" "(w AND KB_S1_CAPLK_ACT \<noteq> 0) = bit w 6"
  "(w AND (KB_S1_RSHFT OR KB_S1_LSHFT) \<noteq> 0) = (bit w 0 \<or> bit w 1)"
proof -
  have single: "(w AND 2 ^ n \<noteq> 0) = bit w n" if "n < 8" for n :: nat
    using that by (auto simp: and_exp_eq_0_iff_not_bit)
  show "(w AND KB_S1_ALT \<noteq> 0) = bit w 3" "(w AND KB_S1_CTL \<noteq> 0) = bit w 2"
    "(w AND KB_S1_NUMLK_ACT \<noteq> 0) = bit w 5" "(w AND KB_S1_CAPLK_ACT \<noteq> 0) = bit w 6"
    using single [of 3] single [of 2] single [of 5] single [of 6] by (simp_all add: kb_consts)
  have "w AND (KB_S1_RSHFT OR KB_S1_LSHFT) = (w AND 2 ^ 0) OR (w AND 2 ^ 1)"
    unfolding bit.conj_disj_distrib by (simp add: kb_consts)
  then show "(w AND (KB_S1_RSHFT OR KB_S1_LSHFT) \<noteq> 0) = (bit w 0 \<or> bit w 1)"
    using single [of 0] single [of 1] by (simp add: or_eq_0_iff)
qed

lemma translate_eq: "translate stat1 code = Inr (key_code stat1 code)"
proof (cases "unat code < 84")
  case True
  have lock: "(if keypad code then bit stat1 5 else if letter code then bit stat1 6 else False) =
      lock_shifts stat1 code"
    using keypad_not_letter [of code] by (auto simp: lock_shifts_def)
  show ?thesis
    unfolding translate_def Let_def and_bits letter_range [symmetric] keypad_range [symmetric] lock
    using True by (simp add: map_lengths key_code_def layer_def)
next
  case False
  then show ?thesis by (simp add: translate_def Let_def key_code_def map_lengths)
qed

subsection \<open>Handling codes\<close>

text \<open>The two flag bytes after a code, and the keystrokes a sequence of codes stands for.\<close>

definition stat1_after :: "u8 \<Rightarrow> u8 \<Rightarrow> u8" where
  "stat1_after st code =
     (if code = 0x2a then set_bit 1 st else if code = 0xaa then unset_bit 1 st
      else if code = 0x36 then set_bit 0 st else if code = 0xb6 then unset_bit 0 st
      else if code = 0x1d then set_bit 2 st else if code = 0x9d then unset_bit 2 st
      else if code = 0x38 then set_bit 3 st else if code = 0xb8 then unset_bit 3 st
      else if code = 0x3a then flip_bit 6 st
      else if code = 0x45 then flip_bit 5 st
      else if code = 0x46 then flip_bit 4 st
      else st)"

definition stat2_after :: "u8 \<Rightarrow> u8 \<Rightarrow> u8" where
  "stat2_after st code =
     (if code = 0x3a then set_bit 6 st else if code = 0xba then unset_bit 6 st
      else if code = 0x45 then set_bit 5 st else if code = 0xc5 then unset_bit 5 st
      else if code = 0x46 then set_bit 4 st else if code = 0xc6 then unset_bit 4 st
      else st)"

definition modifiers :: "u8 list" where
  "modifiers = [0xff, 0x2a, 0xaa, 0x36, 0xb6, 0x1d, 0x9d, 0x38, 0xb8, 0x3a, 0xba, 0x45, 0xc5, 0x46, 0xc6]"

definition keystroke :: "u8 \<Rightarrow> u8 \<Rightarrow> u16 list" where
  "keystroke st code =
     (if code \<in> set modifiers \<or> key_code st code = 0 then [] else [key_code st code])"

primrec keystrokes :: "u8 \<Rightarrow> u8 list \<Rightarrow> u16 list" where
  "keystrokes st [] = []"
| "keystrokes st (c # cs) = keystroke st c @ keystrokes (stat1_after st c) cs"

primrec handle_codes :: "mem \<Rightarrow> u8 list \<Rightarrow> mem res" where
  "handle_codes m [] = Inr m"
| "handle_codes m (c # cs) = bindr (handle_code m c) (\<lambda>m'. handle_codes m' cs)"

lemma modifier_code_None: "modifier_code m code = None \<longleftrightarrow> code \<notin> set modifiers"
  by (simp add: modifier_code_def modifiers_def kb_consts)

lemma bit_ops:
  fixes w :: u8
  shows "w OR 1 = set_bit 0 w" "w OR 2 = set_bit 1 w" "w OR 4 = set_bit 2 w" "w OR 8 = set_bit 3 w"
    "w AND - 2 = unset_bit 0 w" "w AND - 3 = unset_bit 1 w" "w AND - 5 = unset_bit 2 w"
    "w AND - 9 = unset_bit 3 w"
    "w OR 0x10 = set_bit 4 w" "w OR 0x20 = set_bit 5 w" "w OR 0x40 = set_bit 6 w"
    "w AND - 17 = unset_bit 4 w" "w AND - 33 = unset_bit 5 w" "w AND - 65 = unset_bit 6 w"
    "w XOR 0x10 = flip_bit 4 w" "w XOR 0x20 = flip_bit 5 w" "w XOR 0x40 = flip_bit 6 w"
  by (simp_all add: set_bit_eq_or unset_bit_eq_and_not flip_bit_eq_xor push_bit_eq_mult)

lemma modifier_code_stat1:
  assumes "modifier_code m code = Some m'"
  shows "m' kb_stat1 = stat1_after (m kb_stat1) code"
  using assms unfolding modifier_code_def
  by (auto simp: stat1_after_def kb_consts set_flag_def clear_flag_def toggle_flag_def bda_offsets
      bit_ops [simplified] split: if_splits)

lemma modifier_code_stat2:
  assumes "modifier_code m code = Some m'"
  shows "m' kb_stat2 = stat2_after (m kb_stat2) code"
  using assms unfolding modifier_code_def
  by (auto simp: stat2_after_def kb_consts set_flag_def clear_flag_def toggle_flag_def bda_offsets
      bit_ops [simplified] split: if_splits)

lemma stat_after_other:
  "code \<notin> set modifiers \<Longrightarrow> stat1_after st code = st"
  "code \<notin> set modifiers \<Longrightarrow> stat2_after st code = st"
  by (simp_all add: stat1_after_def stat2_after_def modifiers_def)

lemma handle_code_spec:
  assumes "kb_wf m"
  obtains m' where "handle_code m code = Inr m'" and "kb_wf m'" and "kb_capacity m' = kb_capacity m"
    and "kb_queue m' = take (kb_capacity m) (kb_queue m @ keystroke (m kb_stat1) code)"
    and "m' kb_stat1 = stat1_after (m kb_stat1) code" and "m' kb_stat2 = stat2_after (m kb_stat2) code"
proof (cases "modifier_code m code")
  case (Some m')
  then have agree: "\<And>a. 0x1a \<le> a \<Longrightarrow> m' a = m a" using modifier_code_high by simp
  have "code \<in> set modifiers" using Some modifier_code_None [of m code] by auto
  then have "kb_queue m' = take (kb_capacity m) (kb_queue m @ keystroke (m kb_stat1) code)"
    using kb_agree(4) [OF agree assms] kbq.content_le [OF assms] by (simp add: keystroke_def)
  moreover have "handle_code m code = Inr m'" using Some by (simp add: handle_code_def)
  ultimately show thesis
    using that kb_agree(2,3) [OF agree] assms modifier_code_stat1 [OF Some] modifier_code_stat2 [OF Some] by simp
next
  case None
  then have notin: "code \<notin> set modifiers" by (simp add: modifier_code_None)
  let ?key = "key_code (m kb_stat1) code"
  have h: "handle_code m code = (if ?key = 0 then Inr m else Inr (buf_put m ?key))"
    using None by (simp add: handle_code_def translate_eq)
  have "0x18 < unat (rd16 m kb_buf_start)" using kb_wf_slots(7) [OF assms] by simp
  then have "buf_put m ?key kb_stat1 = m kb_stat1" "buf_put m ?key kb_stat2 = m kb_stat2"
    by (intro buf_put_frame [OF assms]; simp add: bda_offsets)+
  then show thesis
    using that [of "if ?key = 0 then m else buf_put m ?key"] h notin kbq.put_inv [OF assms]
      kbq.put_cap [OF assms] kbq.put_content [OF assms] kbq.content_le [OF assms] assms
    by (cases "?key = 0") (simp_all add: keystroke_def stat_after_other del: take_append)
qed

lemma handle_codes_spec:
  assumes "kb_wf m"
  shows "\<exists>m'. handle_codes m codes = Inr m' \<and> kb_wf m' \<and> kb_capacity m' = kb_capacity m \<and>
    kb_queue m' = take (kb_capacity m) (kb_queue m @ keystrokes (m kb_stat1) codes) \<and>
    m' kb_stat1 = foldl stat1_after (m kb_stat1) codes \<and> m' kb_stat2 = foldl stat2_after (m kb_stat2) codes"
  using assms
proof (induction codes arbitrary: m)
  case Nil
  then show ?case using kbq.content_le by simp
next
  case (Cons c cs)
  obtain m1 where m1: "handle_code m c = Inr m1" "kb_wf m1" "kb_capacity m1 = kb_capacity m"
    "kb_queue m1 = take (kb_capacity m) (kb_queue m @ keystroke (m kb_stat1) c)"
    "m1 kb_stat1 = stat1_after (m kb_stat1) c" "m1 kb_stat2 = stat2_after (m kb_stat2) c"
    using handle_code_spec [OF Cons.prems] by metis
  have "take n (take n xs @ ys) = take n (xs @ ys)" for n and xs ys :: "u16 list"
    by (simp add: min_def)
  then show ?case using Cons.IH [OF m1(2)] m1 by (simp del: take_append flip: append_assoc)
qed

subsection \<open>The interrupt handler and the hardware\<close>

text \<open>
  A run of status polls, each preceded by the dummy write that slows it down.
\<close>

fun polls :: "io list \<Rightarrow> bool" where
  "polls [] = True"
| "polls (Delay # In p v # tr) = (p = KB_STA \<and> polls tr)"
| "polls _ = False"

text \<open>The wait ended because the controller has taken the last command.\<close>

definition accepted :: "io list \<Rightarrow> bool" where
  "accepted ps = (case rev ps of In p v # _ \<Rightarrow> v AND KB_STA_IN_FULL = 0 | _ \<Rightarrow> False)"

lemma accepted_append: "ps \<noteq> [] \<Longrightarrow> accepted (qs @ ps) = accepted ps"
  by (cases ps rule: rev_cases) (simp_all add: accepted_def)

lemma wait_loop_polls:
  "\<exists>ps. wait_loop hw cnt tr = tr @ ps \<and> polls ps \<and> length ps \<le> 2 * unat (cnt - 1) \<and>
     (length ps = 2 * unat (cnt - 1) \<or> accepted ps)"
proof (induction "unat (cnt - 1)" arbitrary: cnt tr)
  case 0
  then have "cnt - 1 = 0" by (simp add: unat_eq_0)
  then show ?case by (subst wait_loop.simps) (simp add: Let_def)
next
  case (Suc n)
  let ?tr = "tr @ [Delay]" and ?v = "hw (tr @ [Delay]) KB_STA"
  let ?p = "[Delay, In KB_STA ?v]"
  have nz: "cnt - 1 \<noteq> 0" using Suc.hyps(2) by auto
  have n: "n = unat (cnt - 1 - 1)" using Suc.hyps(2) unat_minus_one [OF nz] by simp
  show ?case
  proof (cases "?v AND KB_STA_IN_FULL = 0")
    case True
    then have "wait_loop hw cnt tr = tr @ ?p"
      using nz by (subst wait_loop.simps) (simp add: Let_def inp_w_def inp_def)
    moreover have "polls ?p" and "accepted ?p" using True by (simp_all add: accepted_def)
    moreover have "length ?p \<le> 2 * unat (cnt - 1)" using Suc.hyps(2) by simp
    ultimately show ?thesis by blast
  next
    case False
    then have step: "wait_loop hw cnt tr = wait_loop hw (cnt - 1) (tr @ ?p)"
      using nz by (subst wait_loop.simps) (simp add: Let_def inp_w_def inp_def)
    obtain ps where ps: "wait_loop hw (cnt - 1) (tr @ ?p) = (tr @ ?p) @ ps" "polls ps"
      "length ps \<le> 2 * n" "length ps = 2 * n \<or> accepted ps"
      using Suc.hyps(1) [OF n, of "tr @ ?p"] n by metis
    have "wait_loop hw cnt tr = tr @ (?p @ ps)" using step ps(1) by simp
    moreover have "polls (?p @ ps)" using ps(2) by simp
    moreover have "length (?p @ ps) \<le> 2 * unat (cnt - 1)" using ps(3) Suc.hyps(2) by simp
    moreover have "length (?p @ ps) = 2 * unat (cnt - 1) \<or> accepted (?p @ ps)"
    proof (cases "ps = []")
      case True
      then show ?thesis using ps(4) Suc.hyps(2) by (auto simp: accepted_def)
    next
      case nonempty: False
      then show ?thesis using ps(4) Suc.hyps(2) accepted_append [OF nonempty, of ?p] by auto
    qed
    ultimately show ?thesis by blast
  qed
qed

text \<open>A wait: at most 65535 polls, fewer only when the controller accepted the command.\<close>

definition wait_polls :: "io list \<Rightarrow> bool" where
  "wait_polls ps \<longleftrightarrow> polls ps \<and> length ps \<le> 2 * 65535 \<and> (length ps = 2 * 65535 \<or> accepted ps)"

lemma wait_spec: "\<exists>ps. wait_kb_in_buf_clear hw tr = tr @ ps \<and> wait_polls ps"
proof -
  have "unat (0 - 1 :: u16) = 65535" by (simp add: unsigned_minus_1_eq_mask mask_eq_exp_minus_1)
  then show ?thesis
    using wait_loop_polls [of hw 0 tr] unfolding wait_kb_in_buf_clear_def wait_polls_def by metis
qed

lemma snd_sta_spec: "\<exists>ps. snd_sta hw tr cmd = tr @ ps @ [Out KB_STA cmd] \<and> wait_polls ps"
  using wait_spec [of hw tr] by (auto simp: snd_sta_def outp_def)

subsection \<open>Held keys and locks\<close>

text \<open>
  Whether a key is down after a sequence of codes: the last press or release of it decides,
  and before either the initial state does.
\<close>

definition held :: "u8 \<Rightarrow> u8 list \<Rightarrow> bool \<Rightarrow> bool" where
  "held key codes b = foldl (\<lambda>b c. if c = key then True else if c = key OR 0x80 then False else b) b codes"

lemma stat1_after_bits:
  "bit (stat1_after st c) 0 = (if c = 0x36 then True else if c = 0xb6 then False else bit st 0)"
  "bit (stat1_after st c) 1 = (if c = 0x2a then True else if c = 0xaa then False else bit st 1)"
  "bit (stat1_after st c) 2 = (if c = 0x1d then True else if c = 0x9d then False else bit st 2)"
  "bit (stat1_after st c) 3 = (if c = 0x38 then True else if c = 0xb8 then False else bit st 3)"
  "bit (stat1_after st c) 4 = (bit st 4 \<noteq> (c = 0x46))"
  "bit (stat1_after st c) 5 = (bit st 5 \<noteq> (c = 0x45))"
  "bit (stat1_after st c) 6 = (bit st 6 \<noteq> (c = 0x3a))"
  "bit (stat1_after st c) 7 = bit st 7"
  by (auto simp: stat1_after_def bit_set_bit_iff bit_unset_bit_iff bit_flip_bit_iff)

lemma stat2_after_bits:
  "bit (stat2_after st c) 4 = (if c = 0x46 then True else if c = 0xc6 then False else bit st 4)"
  "bit (stat2_after st c) 5 = (if c = 0x45 then True else if c = 0xc5 then False else bit st 5)"
  "bit (stat2_after st c) 6 = (if c = 0x3a then True else if c = 0xba then False else bit st 6)"
  "n \<in> {0, 1, 2, 3, 7} \<Longrightarrow> bit (stat2_after st c) n = bit st n"
  by (auto simp: stat2_after_def bit_set_bit_iff bit_unset_bit_iff)

lemmas stat_bits = stat1_after_bits(1-7) [simplified] stat2_after_bits(1-3) [simplified] kb_consts

lemma kept_foldl:
  assumes "\<And>st c. bit (f st c) n = bit st n"
  shows "bit (foldl f st codes) n = bit st n"
  by (induction codes arbitrary: st) (simp_all add: assms)

lemma held_foldl:
  assumes "\<And>st c. bit (f st c) n = (if c = key then True else if c = key OR 0x80 then False else bit st n)"
  shows "bit (foldl f st codes) n = held key codes (bit st n)"
  unfolding held_def by (induction codes arbitrary: st) (simp_all add: assms)

lemma toggled_foldl:
  assumes "\<And>st c. bit (f st c) n = (bit st n \<noteq> (c = key))"
  shows "bit (foldl f st codes) n = (bit st n \<noteq> odd (length (filter (\<lambda>c. c = key) codes)))"
  by (induction codes arbitrary: st) (auto simp: assms)

subsection \<open>Properties\<close>

text \<open>The default buffer of the BIOS data area, empty.\<close>

definition kb_ex :: mem where
  "kb_ex = (\<lambda>a. 0)(0x1a := 0x1e, 0x1c := 0x1e, 0x80 := 0x1e, 0x82 := 0x3e)"

lemma kb_ex_wf: "kb_wf kb_ex"
  by code_simp

text \<open>
  C23. Whatever sequence of scan codes arrives, the handler comes back without an access out of
  bounds and keeps the buffer well formed, and the buffer then holds what it held before
  followed by the keystrokes of the sequence, oldest first, up to its capacity: keystrokes
  are dropped when there is no room, never reordered or overwritten.
\<close>

theorem keystrokes_queued:
  assumes "kb_wf m"
  shows "\<exists>m'. handle_codes m codes = Inr m' \<and> kb_wf m' \<and> kb_capacity m' = kb_capacity m \<and>
    kb_queue m' = take (kb_capacity m) (kb_queue m @ keystrokes (m kb_stat1) codes)"
  using handle_codes_spec [OF assms] by blast

theorem keystrokes_queued_witness:
  "\<exists>m'. handle_codes kb_ex [0x2a, 0x1e, 0xaa, 0x9e, 0x1e, 0x9e] = Inr m' \<and> kb_wf m' \<and>
     kb_queue m' = [0x1e41, 0x1e61]"
proof -
  have "take (kb_capacity kb_ex)
      (kb_queue kb_ex @ keystrokes (kb_ex kb_stat1) [0x2a, 0x1e, 0xaa, 0x9e, 0x1e, 0x9e]) =
    [0x1e41, 0x1e61]" by code_simp
  then show ?thesis
    using keystrokes_queued [OF kb_ex_wf, of "[0x2a, 0x1e, 0xaa, 0x9e, 0x1e, 0x9e]"] by metis
qed

text \<open>
  C25. The status flags follow the keys: after any sequence of scan codes the flag of each
  Shift, of Ctrl and of Alt says whether that key is held down, by the last press or release
  of it in the sequence; Scroll Lock, Num Lock and Caps Lock have been toggled once per press,
  and the second flag byte says which of these three keys is held down. The remaining bits of
  both bytes are unchanged.
\<close>

theorem flags_follow_keys:
  assumes "kb_wf m"
  shows "\<exists>m'. handle_codes m codes = Inr m' \<and>
    bit (m' kb_stat1) 0 = held KB_K_RSHFT codes (bit (m kb_stat1) 0) \<and>
    bit (m' kb_stat1) 1 = held KB_K_LSHFT codes (bit (m kb_stat1) 1) \<and>
    bit (m' kb_stat1) 2 = held KB_K_CTL codes (bit (m kb_stat1) 2) \<and>
    bit (m' kb_stat1) 3 = held KB_K_ALT codes (bit (m kb_stat1) 3) \<and>
    bit (m' kb_stat1) 4 = (bit (m kb_stat1) 4 \<noteq> odd (length (filter (\<lambda>c. c = KB_K_SCLLK) codes))) \<and>
    bit (m' kb_stat1) 5 = (bit (m kb_stat1) 5 \<noteq> odd (length (filter (\<lambda>c. c = KB_K_NUMLK) codes))) \<and>
    bit (m' kb_stat1) 6 = (bit (m kb_stat1) 6 \<noteq> odd (length (filter (\<lambda>c. c = KB_K_CAPLK) codes))) \<and>
    bit (m' kb_stat1) 7 = bit (m kb_stat1) 7 \<and>
    bit (m' kb_stat2) 4 = held KB_K_SCLLK codes (bit (m kb_stat2) 4) \<and>
    bit (m' kb_stat2) 5 = held KB_K_NUMLK codes (bit (m kb_stat2) 5) \<and>
    bit (m' kb_stat2) 6 = held KB_K_CAPLK codes (bit (m kb_stat2) 6) \<and>
    (\<forall>n\<in>{0, 1, 2, 3, 7}. bit (m' kb_stat2) n = bit (m kb_stat2) n)"
proof -
  obtain m' where "handle_codes m codes = Inr m'"
    and st: "m' kb_stat1 = foldl stat1_after (m kb_stat1) codes" "m' kb_stat2 = foldl stat2_after (m kb_stat2) codes"
    using handle_codes_spec [OF assms] by blast
  moreover have "bit (m' kb_stat1) 0 = held KB_K_RSHFT codes (bit (m kb_stat1) 0)"
    "bit (m' kb_stat1) 1 = held KB_K_LSHFT codes (bit (m kb_stat1) 1)"
    "bit (m' kb_stat1) 2 = held KB_K_CTL codes (bit (m kb_stat1) 2)"
    "bit (m' kb_stat1) 3 = held KB_K_ALT codes (bit (m kb_stat1) 3)"
    "bit (m' kb_stat2) 4 = held KB_K_SCLLK codes (bit (m kb_stat2) 4)"
    "bit (m' kb_stat2) 5 = held KB_K_NUMLK codes (bit (m kb_stat2) 5)"
    "bit (m' kb_stat2) 6 = held KB_K_CAPLK codes (bit (m kb_stat2) 6)"
    unfolding st by (rule held_foldl, simp add: stat_bits)+
  moreover have
    "bit (m' kb_stat1) 4 = (bit (m kb_stat1) 4 \<noteq> odd (length (filter (\<lambda>c. c = KB_K_SCLLK) codes)))"
    "bit (m' kb_stat1) 5 = (bit (m kb_stat1) 5 \<noteq> odd (length (filter (\<lambda>c. c = KB_K_NUMLK) codes)))"
    "bit (m' kb_stat1) 6 = (bit (m kb_stat1) 6 \<noteq> odd (length (filter (\<lambda>c. c = KB_K_CAPLK) codes)))"
    unfolding st by (rule toggled_foldl, simp add: stat_bits)+
  moreover have "bit (m' kb_stat1) 7 = bit (m kb_stat1) 7"
    unfolding st by (rule kept_foldl) (rule stat1_after_bits(8))
  moreover have "\<forall>n\<in>{0, 1, 2, 3, 7}. bit (m' kb_stat2) n = bit (m kb_stat2) n"
    unfolding st by (intro ballI kept_foldl stat2_after_bits(4))
  ultimately show ?thesis by (intro exI [of _ m'] conjI)
qed

theorem flags_follow_keys_witness:
  "\<exists>m'. handle_codes kb_ex [0x2a, 0x36, 0xaa, 0x3a, 0x46, 0xc6] = Inr m' \<and>
     bit (m' kb_stat1) 0 \<and> \<not> bit (m' kb_stat1) 1 \<and> bit (m' kb_stat1) 4 \<and> bit (m' kb_stat1) 6 \<and>
     \<not> bit (m' kb_stat2) 4 \<and> bit (m' kb_stat2) 6"
proof -
  let ?cs = "[0x2a, 0x36, 0xaa, 0x3a, 0x46, 0xc6] :: u8 list"
  have "held KB_K_RSHFT ?cs (bit (kb_ex kb_stat1) 0)"
    and "\<not> held KB_K_LSHFT ?cs (bit (kb_ex kb_stat1) 1)"
    and "bit (kb_ex kb_stat1) 4 \<noteq> odd (length (filter (\<lambda>c. c = KB_K_SCLLK) ?cs))"
    and "bit (kb_ex kb_stat1) 6 \<noteq> odd (length (filter (\<lambda>c. c = KB_K_CAPLK) ?cs))"
    and "\<not> held KB_K_SCLLK ?cs (bit (kb_ex kb_stat2) 4)"
    and "held KB_K_CAPLK ?cs (bit (kb_ex kb_stat2) 6)"
    by code_simp+
  then show ?thesis using flags_follow_keys [OF kb_ex_wf, of ?cs] by metis
qed

text \<open>
  The translation never reads past its tables and gives the entry of the right one: Alt
  before Ctrl before Shift, where Caps Lock inverts Shift for exactly the keys whose unshifted
  character is a letter and Num Lock for the keypad, and codes beyond the tables give nothing.
\<close>

lemma translate_correct:
  "translate stat1 code = Inr (key_code stat1 code)"
  by (rule translate_eq)

text \<open>
  C33. A scan code changes nothing in the BIOS data area but the two flag bytes, the tail
  pointer and the bytes of the keyboard buffer.
\<close>

theorem handle_code_frame:
  assumes "kb_wf m" and "a \<notin> {0x17, 0x18, 0x1c, 0x1d}"
    and "a < unat (rd16 m kb_buf_start) \<or> unat (rd16 m kb_buf_end) \<le> a"
  shows "\<exists>m'. handle_code m code = Inr m' \<and> m' a = m a"
proof (cases "modifier_code m code")
  case None
  have "buf_put m key a = m a" for key
    using assms by (intro buf_put_frame) auto
  then show ?thesis using None by (simp add: handle_code_def translate_eq)
next
  case (Some m')
  then have "m' a = m a" using assms(2)
    by (auto simp: modifier_code_def set_flag_def clear_flag_def toggle_flag_def bda_offsets split: if_splits)
  then show ?thesis using Some by (simp add: handle_code_def)
qed

theorem handle_code_frame_witness:
  "\<exists>m'. handle_code kb_ex 0x1e = Inr m' \<and> m' 0x1a = 0x1e"
proof -
  have "kb_ex 0x1a = 0x1e" by code_simp
  moreover have "0x1a < unat (rd16 kb_ex kb_buf_start)" by code_simp
  ultimately show ?thesis using handle_code_frame [where m = kb_ex and a = "0x1a" and code = "0x1e"] kb_ex_wf by force
qed

text \<open>
  C24. The interrupt handler always comes back, whatever the hardware answers, and talks to it
  in this order: disable the keyboard, read one scan code, acknowledge the interrupt, enable
  the keyboard again. Before both commands and before the read it polls the status port,
  at most 65535 times, fewer times only when the controller has room for a command. The code
  read is the one that is handled.
\<close>

theorem irq1_trace:
  assumes "kb_wf m"
  shows "\<exists>p1 p2 p3 code m'.
    irq1_impl hw tr m =
      Inr (tr @ p1 @ [Out KB_STA KB_STA_DIS] @ p2 @ [In KB_PORT_A code] @
           [Out PIC1_CMD OCW2_EOI] @ p3 @ [Out KB_STA KB_STA_ENA], m') \<and>
    wait_polls p1 \<and> wait_polls p2 \<and> wait_polls p3 \<and> handle_code m code = Inr m' \<and> kb_wf m'"
proof -
  obtain p1 where p1: "snd_sta hw tr KB_STA_DIS = tr @ p1 @ [Out KB_STA KB_STA_DIS]" "wait_polls p1"
    using snd_sta_spec by blast
  let ?tr1 = "tr @ p1 @ [Out KB_STA KB_STA_DIS]"
  obtain p2 where p2: "wait_kb_in_buf_clear hw ?tr1 = ?tr1 @ p2" "wait_polls p2"
    using wait_spec by blast
  let ?code = "hw (?tr1 @ p2) KB_PORT_A"
  obtain m' where m': "handle_code m ?code = Inr m'" "kb_wf m'"
    using handle_code_spec [OF assms] by metis
  let ?tr4 = "?tr1 @ p2 @ [In KB_PORT_A ?code] @ [Out PIC1_CMD OCW2_EOI]"
  obtain p3 where p3: "snd_sta hw ?tr4 KB_STA_ENA = ?tr4 @ p3 @ [Out KB_STA KB_STA_ENA]" "wait_polls p3"
    using snd_sta_spec by blast
  have "irq1_impl hw tr m = Inr (?tr4 @ p3 @ [Out KB_STA KB_STA_ENA], m')"
    using p1(1) p2(1) m'(1) p3(1) by (simp add: irq1_impl_def inp_def outp_def)
  then show ?thesis using p1(2) p2(2) p3(2) m' by auto
qed

theorem irq1_trace_witness:
  "\<exists>p1 p2 p3 code m'.
    irq1_impl (\<lambda>tr p. if p = KB_PORT_A then 0x1e else 0x1c) [] kb_ex =
      Inr (p1 @ [Out KB_STA KB_STA_DIS] @ p2 @ [In KB_PORT_A code] @
           [Out PIC1_CMD OCW2_EOI] @ p3 @ [Out KB_STA KB_STA_ENA], m') \<and> kb_wf m'"
  using irq1_trace [OF kb_ex_wf, of "\<lambda>tr p. if p = KB_PORT_A then 0x1e else 0x1c" "[]"]
  by simp blast

end
