(* ===== verification/Pic.thy ===== *)
theory Pic
  imports Kb
begin

text \<open>
  The start of the legacy interrupt controllers and of the interval timer in \<^verbatim>\<open>irq_init\<close> of
  \<^verbatim>\<open>stage2/irq.c\<close>, as the sequence of port accesses it makes: the ports and the bytes, in order,
  each followed by the dummy write that slows the access down. The chips are not modelled.
\<close>

unbundle bit_operations_syntax

subsection \<open>Interrupt controllers and timer\<close>

definition PIC1_DATA :: u16 where "PIC1_DATA = 0x21"
definition PIC2_CMD :: u16 where "PIC2_CMD = 0xa0"
definition PIC2_DATA :: u16 where "PIC2_DATA = 0xa1"
definition ICW1_IC4 :: u8 where "ICW1_IC4 = 0x01"
definition ICW1_INIT :: u8 where "ICW1_INIT = 0x10"
definition IRQ0 :: u8 where "IRQ0 = 0x08"
definition IRQ8 :: u8 where "IRQ8 = 0x70"
definition ICW4_X86 :: u8 where "ICW4_X86 = 0x01"
definition PIT_DATA0 :: u16 where "PIT_DATA0 = 0x40"
definition PIT_CMD :: u16 where "PIT_CMD = 0x43"
definition PITC_SEL0 :: u8 where "PITC_SEL0 = 0x00"
definition PITC_LOHI :: u8 where "PITC_LOHI = 0x30"
definition PITC_MODE3 :: u8 where "PITC_MODE3 = 0x06"

definition outp_w :: "io list \<Rightarrow> u16 \<Rightarrow> u8 \<Rightarrow> io list" where
  "outp_w tr p v = outp tr p v @ [Delay]"

definition start_pics :: "io list \<Rightarrow> io list" where
  "start_pics tr =
     (let tr = outp_w tr PIC1_CMD (ICW1_INIT OR ICW1_IC4);
          tr = outp_w tr PIC2_CMD (ICW1_INIT OR ICW1_IC4);
          tr = outp_w tr PIC1_DATA IRQ0;
          tr = outp_w tr PIC2_DATA IRQ8;
          tr = outp_w tr PIC1_DATA (push_bit 2 1);
          tr = outp_w tr PIC2_DATA (push_bit 1 1);
          tr = outp_w tr PIC1_DATA ICW4_X86;
          tr = outp_w tr PIC2_DATA ICW4_X86;
          tr = outp_w tr PIC1_DATA (NOT (push_bit 0 1 OR push_bit 1 1));
          tr = outp_w tr PIC2_DATA (NOT 0);
          tr = outp_w tr PIC1_CMD OCW2_EOI;
          tr = outp_w tr PIC2_CMD OCW2_EOI;
          tr = outp_w tr PIT_CMD (PITC_SEL0 OR PITC_LOHI OR PITC_MODE3);
          tr = outp_w tr PIT_DATA0 0x00
      in outp_w tr PIT_DATA0 0x00)"

lemmas pic_consts = PIC1_CMD_def PIC1_DATA_def PIC2_CMD_def PIC2_DATA_def ICW1_IC4_def ICW1_INIT_def IRQ0_def IRQ8_def
  ICW4_X86_def OCW2_EOI_def PIT_DATA0_def PIT_CMD_def PITC_SEL0_def PITC_LOHI_def PITC_MODE3_def

text \<open>The accesses as numbers.\<close>

lemma start_pics_eq:
  "start_pics tr = tr @ concat (map (\<lambda>(p, v). [Out p v, Delay])
     [(0x20, 0x11), (0xa0, 0x11), (0x21, 0x08), (0xa1, 0x70), (0x21, 4), (0xa1, 2), (0x21, 1), (0xa1, 1),
      (0x21, 0xfc), (0xa1, 0xff), (0x20, 0x20), (0xa0, 0x20), (0x43, 0x36), (0x40, 0), (0x40, 0)])"
  by (simp add: start_pics_def outp_w_def outp_def Let_def pic_consts)

end
