(* ===== verification/Irq.thy ===== *)
theory Irq
  imports Acpi_Example Pic
begin

text \<open>
  The interrupt set-up of stage 2 as a whole (\<^verbatim>\<open>irq_init\<close> of \<^verbatim>\<open>stage2/irq.c\<close>).
\<close>

definition irq_init :: "acpi_layout \<Rightarrow> 'd mmio \<Rightarrow> u32 \<Rightarrow> vm \<times> 'd \<Rightarrow> (vm \<times> 'd \<times> io list) res option" where
  "irq_init L mm bparms = (\<lambda>(s, d).
     bindo (find_rsdp s bparms) (\<lambda>bp.
     let bd_rsdp = bp + word_of_nat sizeof_bparm in
     bindo (Some (vrd32 s (bd_rsdp + o_rsdp_sz))) (\<lambda>rsdp_sz.
     bindo (Some (vrd64 s (bd_rsdp + o_rsdp_phy_addr))) (\<lambda>rsdp_phy_addr.
     bindo (mem_va_map s rsdp_phy_addr rsdp_sz 0) (\<lambda>(rsdp, s).
     bindo (acpi_process_rsdp L mm rsdp (s, d)) (\<lambda>(s, d).
     bindo (mem_va_unmap s rsdp rsdp_sz) (\<lambda>s.
       Some (Inr (s, d, start_pics [])))))))))"

subsection \<open>Correctness\<close>

lemma irq_init_spec:
  assumes wf: "va_wf s" and L: "acpi_layout_ok L" and law: "ioapic_law mm B sel reg"
    and ns: "nodes_ok (vm_mem s) (xs @ n # ys)" "\<forall>k\<in>set xs. bn_type k \<noteq> BP_RSDP" "bn_type n = BP_RSDP"
      "length (bn_data n) = 12"
    and id: "id_at s (\<Union>(bn_bytes ` set (xs @ [n])))"
    and p: "rsdp_lists L s (le_word (take 8 (bn_data n))) (le_word (drop 8 (bn_data n))) tabs" and B: "all_ioapics tabs \<subseteq> B"
  shows "safe_run s (irq_init L mm (ucast (next_of (xs @ n # ys))) (s, d))
    (\<lambda>(s', d', tr). session_inv s (s', []) \<and> reg d' = masked_at (all_ioapics tabs) (reg d) \<and> tr = start_pics [])"
proof -
  let ?p = "le_word (take 8 (bn_data n)) :: u64" and ?sz = "le_word (drop 8 (bn_data n)) :: u32"
  obtain x where nd: "node_ok (vm_mem s) n x" using nodes_ok_nth [OF ns(1), of n] by auto
  have idn: "id_at s (bn_bytes n)" using id by (auto simp: id_at_def)
  have a: "bn_addr n + 28 \<le> 0x100000" using nd ns(4) by (simp add: node_ok_def sizeof_bparm_def)
  have data: "bn_data n = get_bytes (vm_mem s) (bn_addr n + 16) 12" using nd ns(4) by (simp add: node_ok_def sizeof_bparm_def)
  have rd: "rd64 (vm_mem s) (bn_addr n + 16) = ?p" "rd32 (vm_mem s) (bn_addr n + 24) = ?sz"
    using get_bytes_part [of 0 8 12 "vm_mem s" "bn_addr n + 16"] get_bytes_part [of 8 4 12 "vm_mem s" "bn_addr n + 16"]
    by (simp_all add: rd64_def rd32_def data add.commute [of _ "bn_addr n"])
  have in_node: "{bn_addr n + 16..<bn_addr n + 16 + 8} \<subseteq> bn_bytes n" "{bn_addr n + 24..<bn_addr n + 24 + 4} \<subseteq> bn_bytes n"
    using ns(4) by (auto simp: bn_bytes_def sizeof_bparm_def)
  have sum: "(word_of_nat (bn_addr n) :: u32) + word_of_nat sizeof_bparm + o_rsdp_sz = word_of_nat (bn_addr n + 24)"
    "(word_of_nat (bn_addr n) :: u32) + word_of_nat sizeof_bparm + o_rsdp_phy_addr = word_of_nat (bn_addr n + 16)"
    by (simp_all add: sizeof_bparm_def o_rsdp_sz_def o_rsdp_phy_addr_def)
  have r: "vrd32 s (word_of_nat (bn_addr n + 24)) = Inr ?sz" "vrd64 s (word_of_nat (bn_addr n + 16)) = Inr ?p"
    using vrd_id(1) [OF idn in_node(2) _ refl] vrd_id(2) [OF idn in_node(1) _ refl] a unfolding rd by simp_all
  have ok: "va_req_ok (?p, ?sz, 0)" using p by (simp add: va_req_ok_def rsdp_lists_def flags_ok_def word_less_nat_alt)
  show ?thesis
    unfolding irq_init_def prod.case find_rsdp_spec [OF ns(1-3) id] bindo_simps Let_def sum
  proof (rule safe_run_read [OF r(1)], rule safe_run_read [OF r(2)],
      rule safe_run_bind [OF safe_map [OF session_inv_init [OF wf] ok]], clarify)
    fix v s1
    let ?b = "\<lparr> vb_va = v, vb_pa = ?p, vb_sz = ?sz, vb_flags = 0 \<rparr>"
    assume inv1: "session_inv s (s1, [?b])"
    have b: "?b \<in> set [?b]" by simp
    have end_part: "safe_run s (bindo (mem_va_unmap s2 v ?sz) (\<lambda>s. Some (Inr (s, d2, start_pics []))))
        (\<lambda>(s', d', tr). session_inv s (s', []) \<and> reg d' = masked_at (all_ioapics tabs) (reg d) \<and> tr = start_pics [])"
      if "session_inv s (s2, [?b]) \<and> reg d2 = masked_at (all_ioapics tabs) (reg d)" for s2 d2
      by (rule safe_run_bind [OF safe_unmap [OF that [THEN conjunct1], simplified]]) (use that in \<open>simp add: safe_run_Inr\<close>)
    show "safe_run s (bindo (acpi_process_rsdp L mm v (s1, d)) (\<lambda>(s, d). bindo (mem_va_unmap s v ?sz)
          (\<lambda>s. Some (Inr (s, d, start_pics [])))))
        (\<lambda>(s', d', tr). session_inv s (s', []) \<and> reg d' = masked_at (all_ioapics tabs) (reg d) \<and> tr = start_pics [])"
      by (rule safe_run_bind [OF acpi_process_rsdp_spec [OF law L p B b inv1]]) (use end_part in auto)
  qed
qed

subsection \<open>Properties\<close>

text \<open>
  C7. With ACPI tables that are well formed in physical memory, apart from the memory the page
  tables may use, and reached from the boot parameters, \<^verbatim>\<open>irq_init\<close> ends in one of three ways.
  It returns: it has masked all 24 interrupts of exactly the I/O APICs that the tables list, changed
  no other register, mapped nothing for good, left every translation and all other memory as they
  were, and made the port accesses that start the legacy controllers and the timer, in this order.
  It halts. Or \<^verbatim>\<open>mem_alloc\<close> walks in front of the array of ranges, while a page table is allocated:
  this happens only if the RAM below 4 GiB has no room for one page for each page-directory entry
  that does not refer to a table yet. It never faults on an address that is not mapped.
\<close>

theorem irq_init_correct:
  assumes "va_wf s" and "acpi_layout_ok L" and "ioapic_law mm B sel reg"
    and "nodes_ok (vm_mem s) (xs @ n # ys)" and "BP_RSDP \<notin> bn_type ` set xs"
    and "bn_type n = BP_RSDP" and "length (bn_data n) = 12" and "id_at s (\<Union>(bn_bytes ` set (xs @ [n])))"
    and "rsdp_lists L s (le_word (take 8 (bn_data n))) (le_word (drop 8 (bn_data n))) tabs" and "all_ioapics tabs \<subseteq> B"
  shows "\<exists>r. irq_init L mm (ucast (next_of (xs @ n # ys))) (s, d) = Some r \<and>
    (\<forall>s' d' tr. r = Inr (s', d', tr) \<longrightarrow>
       reg d' = (\<lambda>b. if b \<in> all_ioapics tabs then mask_regs 0 24 (reg d b) else reg d b) \<and>
       va_wf s' \<and> va_unused s' = va_unused s \<and> (\<forall>a. Va_Blocks.translate s' a = Va_Blocks.translate s a) \<and>
       (\<forall>i. i \<notin> vm_owned s \<longrightarrow> vm_mem s' i = vm_mem s i) \<and>
       tr = concat (map (\<lambda>(p, v). [Out p v, Delay])
         [(0x20, 0x11), (0xa0, 0x11), (0x21, 0x08), (0xa1, 0x70), (0x21, 4), (0xa1, 2), (0x21, 1), (0xa1, 1),
          (0x21, 0xfc), (0xa1, 0xff), (0x20, 0x20), (0xa0, 0x20), (0x43, 0x36), (0x40, 0), (0x40, 0)])) \<and>
    (\<forall>e. r = Inl e \<longrightarrow> e = Hlt \<or>
       e = Out_of_bounds \<and> out_of_ram (vm_map s) (replicate (2048 - tables s) page_req))"
proof -
  have x: "\<forall>k\<in>set xs. bn_type k \<noteq> BP_RSDP" using assms(5) by (metis image_eqI)
  obtain r where r: "irq_init L mm (ucast (next_of (xs @ n # ys))) (s, d) = Some r"
    and err: "\<And>e. r = Inl e \<Longrightarrow> vm_error s e"
    and ok: "\<And>s' d' tr. r = Inr (s', d', tr) \<Longrightarrow>
      session_inv s (s', []) \<and> reg d' = masked_at (all_ioapics tabs) (reg d) \<and> tr = start_pics []"
    using irq_init_spec [OF assms(1-4) x assms(6-10), of d] unfolding safe_run_def by auto
  have "va_wf s' \<and> va_unused s' = va_unused s \<and> (\<forall>a. Va_Blocks.translate s' a = Va_Blocks.translate s a) \<and>
      (\<forall>i. i \<notin> vm_owned s \<longrightarrow> vm_mem s' i = vm_mem s i)" if inv: "session_inv s (s', [])" for s'
  proof -
    have w: "va_wf s'" "va_unused s' = va_unused s" using inv by (simp_all add: session_inv_def)
    have "Va_Blocks.translate s' a = Va_Blocks.translate s a" for a
    proof (cases "unat a \<in> va_unused s")
      case True
      then show ?thesis using va_wf_unused [OF assms(1) True] va_wf_unused [OF w(1), of a] w(2) by simp
    next
      case False
      then show ?thesis using session_inv_safe(5) [OF inv] by blast
    qed
    then show ?thesis using w session_inv_safe(6) [OF inv] by blast
  qed
  moreover note trace = start_pics_eq [of "[]", unfolded append_Nil]
  ultimately show ?thesis using r ok err unfolding masked_at_def vm_error_def trace by blast
qed

theorem irq_init_correct_witness:
  "va_wf irq_ex \<and> acpi_layout_ok acpi_6 \<and> ioapic_law irq_ex_dev {0xfec00000} fst snd \<and>
   rsdp_lists acpi_6 irq_ex 0x500000 44 irq_ex_tabs \<and> all_ioapics irq_ex_tabs = {0xfec00000} \<and>
   (\<exists>r. irq_init acpi_6 irq_ex_dev 0x1000 (irq_ex, (\<lambda>_. 0, \<lambda>_ _. 0)) = Some r)"
proof -
  have m: "nodes_ok (vm_mem irq_ex) ([] @ irq_ex_node # [])" using irq_ex_node_ok by (simp add: irq_ex_def)
  have n: "bn_type irq_ex_node = BP_RSDP" "next_of ([] @ irq_ex_node # []) = 0x1000" by (simp_all add: irq_ex_node_def)
  have id: "id_at irq_ex (\<Union>(bn_bytes ` set ([] @ [irq_ex_node])))" using irq_ex_id by simp
  note l = irq_ex_lists [folded irq_ex_data]
  have B: "all_ioapics irq_ex_tabs \<subseteq> {0xfec00000}" by (simp add: irq_ex_ioapics)
  have e: "BP_RSDP \<notin> bn_type ` set []" by simp
  from irq_init_correct [OF irq_ex_wf(1) acpi_6_ok irq_ex_law m e n(1) irq_ex_lengths(4) id l B, of "(\<lambda>_. 0, \<lambda>_ _. 0)"]
  show ?thesis using irq_ex_wf(1) acpi_6_ok irq_ex_law irq_ex_lists irq_ex_ioapics unfolding n(2) by auto
qed

end
