(* ===== verification/Startup.thy ===== *)
theory Startup
  imports Bmem
begin

text \<open>
  Smaller parts of \<^verbatim>\<open>stage1/main.c\<close>: the page for the trampoline, the test for Secure Boot, and the
  pause before boot services end, which polls the firmware's clock. How coarse that clock is does
  not matter, because the pause begins when it changes.
\<close>

subsection \<open>The trampoline and Secure Boot\<close>

text \<open>\<open>alloc_max\<close> gets the limit and gives the status and the address.\<close>

definition alloc_trampoline :: "('fw \<Rightarrow> u64 \<Rightarrow> (u64 \<times> u64) \<times> 'fw) \<Rightarrow> 'fw \<Rightarrow> (u32 \<times> 'fw) res" where
  "alloc_trampoline alloc_max fw =
     (let ((status, addr), fw') = alloc_max fw 0x100000000 in
      if EFI_ERROR status then Inl (Error_with_status ''cannot get mem. for trampoline & stk.'' status)
      else Inr (ucast addr, fw'))"

text \<open>A page below the limit starts where its 32-bit address says.\<close>

lemma alloc_trampoline_exact:
  assumes page: "\<And>fw st a fw'. alloc_max fw 0x100000000 = ((st, a), fw') \<Longrightarrow> \<not> EFI_ERROR st \<Longrightarrow>
      unat a + 4096 \<le> 0x100000000"
    and run: "alloc_trampoline alloc_max fw = Inr (tramp, fw')"
  shows "\<exists>st a. alloc_max fw 0x100000000 = ((st, a), fw') \<and> unat tramp = unat a"
proof -
  obtain st a fw1 where c: "alloc_max fw 0x100000000 = ((st, a), fw1)" by (metis prod.collapse)
  then have "\<not> EFI_ERROR st" "tramp = ucast a" "fw1 = fw'"
    using run by (auto simp: alloc_trampoline_def split: if_splits)
  moreover from page [OF c this(1)] have "unat a < 2 ^ 32" by simp
  ultimately show ?thesis using c by (auto simp: unat_ucast_down)
qed

text \<open>\<open>get_var\<close> reads the variable \<^verbatim>\<open>SecureBoot\<close> into the byte it is given.\<close>

definition test_if_secure_boot :: "(u8 \<Rightarrow> u64 \<times> u8) \<Rightarrow> bool" where
  "test_if_secure_boot get_var =
     (let (status, data) = get_var 0 in \<not> EFI_ERROR status \<and> data \<noteq> 0)"

subsection \<open>The pause\<close>

text \<open>The members of an \<^verbatim>\<open>EFI_TIME\<close> that the code reads; \<open>Halt\<close> is the processor waiting for an interrupt.\<close>

record efi_time =
  Minute :: u8
  Second :: u8
  Nanosecond :: u32

record 'fw clock_services =
  GetTime :: "'fw \<Rightarrow> (u64 \<times> efi_time) \<times> 'fw"
  Halt :: "'fw \<Rightarrow> 'fw"

definition get_time :: "'fw clock_services \<Rightarrow> 'fw \<Rightarrow> (efi_time \<times> 'fw) res" where
  "get_time sv fw =
     (let ((status, when), fw') = GetTime sv fw in
      if EFI_ERROR status then Inl (Error_with_status ''cannot get time'' status) else Inr (when, fw'))"

partial_function (option) time_change_loop :: "'fw clock_services \<Rightarrow> efi_time \<Rightarrow> 'fw \<Rightarrow> 'fw res option" where
  "time_change_loop sv before fw =
     bindo (Some (get_time sv (Halt sv fw))) (\<lambda>(now, fw').
       if Second now = Second before \<and> Nanosecond now = Nanosecond before then time_change_loop sv before fw'
       else Some (Inr fw'))"

definition wait_for_time_change :: "'fw clock_services \<Rightarrow> 'fw \<Rightarrow> 'fw res option" where
  "wait_for_time_change sv fw = bindo (Some (get_time sv fw)) (\<lambda>(before, fw'). time_change_loop sv before fw')"

definition nanoseconds :: "efi_time \<Rightarrow> u64" where
  "nanoseconds t = 1000000000 * ucast (Second t) + ucast (Nanosecond t)"

partial_function (option) one_second_loop :: "'fw clock_services \<Rightarrow> efi_time \<Rightarrow> u64 \<Rightarrow> 'fw \<Rightarrow> 'fw res option" where
  "one_second_loop sv before before_ns fw =
     bindo (Some (get_time sv (Halt sv fw))) (\<lambda>(now, fw').
       let now_ns = nanoseconds now;
           now_ns = (if Minute now \<noteq> Minute before then now_ns + 60000000000 else now_ns)
       in if now_ns < before_ns + 1000000000 then one_second_loop sv before before_ns fw'
          else Some (Inr fw'))"

definition wait_for_one_second :: "'fw clock_services \<Rightarrow> 'fw \<Rightarrow> 'fw res option" where
  "wait_for_one_second sv fw =
     bindo (Some (get_time sv fw)) (\<lambda>(before, fw'). one_second_loop sv before (nanoseconds before) fw')"

text \<open>The calls that \<^verbatim>\<open>prepare_to_hand_over\<close> makes.\<close>

definition wait_before_exit :: "'fw clock_services \<Rightarrow> 'fw \<Rightarrow> 'fw res option" where
  "wait_before_exit sv fw =
     bindo (wait_for_time_change sv fw) (\<lambda>fw.
       bindo (wait_for_one_second sv fw) (\<lambda>fw.
         bindo (wait_for_one_second sv fw) (\<lambda>fw. wait_for_one_second sv fw)))"

subsection \<open>The clock\<close>

text \<open>Time \<open>n\<close> in nanoseconds as the firmware shows it; minutes and hours begin at multiples of theirs.\<close>

definition time_of :: "nat \<Rightarrow> efi_time" where
  "time_of n = \<lparr> Minute = of_nat (n div 60000000000 mod 60), Second = of_nat (n div 1000000000 mod 60),
     Nanosecond = of_nat (n mod 1000000000) \<rparr>"

text \<open>
  A clock with a resolution of \<open>q\<close> nanoseconds over a time \<open>ns\<close>. A call takes at most \<open>d\<close>, and so does
  waiting for an interrupt, which takes at least some time.
\<close>

definition clock_ok :: "'fw clock_services \<Rightarrow> ('fw \<Rightarrow> nat) \<Rightarrow> nat \<Rightarrow> nat \<Rightarrow> bool" where
  "clock_ok sv ns q d \<longleftrightarrow>
     (\<forall>fw st t fw'. GetTime sv fw = ((st, t), fw') \<longrightarrow> \<not> EFI_ERROR st \<and> ns fw' \<le> ns fw + d \<and>
        (\<exists>n. ns fw \<le> n \<and> n \<le> ns fw' \<and> t = time_of (n div q * q))) \<and>
     (\<forall>fw. ns fw < ns (Halt sv fw) \<and> ns (Halt sv fw) \<le> ns fw + d)"

lemma get_time_ok:
  assumes "clock_ok sv ns q d"
  obtains t fw' n where "get_time sv fw = Inr (t, fw')" "t = time_of (n div q * q)"
    "ns fw \<le> n" "n \<le> ns fw'" "ns fw' \<le> ns fw + d"
proof -
  obtain st t fw' where g: "GetTime sv fw = ((st, t), fw')" by (metis prod.collapse)
  then show ?thesis using assms that unfolding clock_ok_def get_time_def by fastforce
qed

lemma nanoseconds_time_of: "unat (nanoseconds (time_of n)) = n mod 60000000000"
proof -
  have s: "n div 1000000000 mod 60 < 60" and f: "n mod 1000000000 < 1000000000" by simp_all
  have us: "unat (of_nat (n div 1000000000 mod 60) :: u8) = n div 1000000000 mod 60"
    using s by (simp add: unat_of_nat)
  have uf: "unat (of_nat (n mod 1000000000) :: u32) = n mod 1000000000"
    using f by (simp add: unat_of_nat)
  have m: "n mod (1000000000 * 60) = 1000000000 * (n div 1000000000 mod 60) + n mod 1000000000"
    by (rule mod_mult2_eq)
  have "unat (nanoseconds (time_of n)) = 1000000000 * (n div 1000000000 mod 60) + n mod 1000000000"
    unfolding nanoseconds_def time_of_def efi_time.simps using s f
    by (simp add: unat_word_ariths unat_ucast_up us uf)
  then show ?thesis using m by simp
qed

lemma minutes_differ:
  assumes "(of_nat (Suc m mod 60) :: u8) = of_nat (m mod 60)"
  shows False
proof -
  have u: "unat (of_nat (n mod 60) :: u8) = n mod 60" for n
  proof -
    have "n mod 60 < 60" by simp
    then show ?thesis by (simp add: unat_of_nat)
  qed
  have "Suc m mod 60 = m mod 60" using arg_cong [OF assms, of unat] by (simp only: u)
  then show False by (simp add: mod_Suc split: if_splits)
qed

text \<open>Two readings less than a minute apart.\<close>

lemma readings_apart:
  fixes a b :: nat
  assumes le: "a \<le> b" and near: "b < a + 60000000000"
  shows "Minute (time_of b) = Minute (time_of a) \<Longrightarrow> b mod 60000000000 = a mod 60000000000 + (b - a)"
    and "Minute (time_of b) \<noteq> Minute (time_of a) \<Longrightarrow> b mod 60000000000 + 60000000000 = a mod 60000000000 + (b - a)"
proof -
  let ?m = "60000000000 :: nat"
  have min: "Minute (time_of n) = of_nat (n div ?m mod 60)" for n by (simp add: time_of_def)
  have "b div ?m \<le> (a + ?m) div ?m" using near by (intro div_le_mono) simp
  then have "b div ?m \<le> Suc (a div ?m)" by simp
  moreover have "a div ?m \<le> b div ?m" using le by (rule div_le_mono)
  ultimately have d: "b div ?m = a div ?m \<or> b div ?m = Suc (a div ?m)" by linarith
  have ea: "a = ?m * (a div ?m) + a mod ?m" and eb: "b = ?m * (b div ?m) + b mod ?m" by simp_all
  have same: "b mod ?m = a mod ?m + (b - a)" if "b div ?m = a div ?m" using that ea eb le by linarith
  have next_min: "b mod ?m + ?m = a mod ?m + (b - a)" if "b div ?m = Suc (a div ?m)" using that ea eb le by linarith
  have differ: "Minute (time_of b) \<noteq> Minute (time_of a)" if "b div ?m = Suc (a div ?m)"
  proof
    assume "Minute (time_of b) = Minute (time_of a)"
    then have "(of_nat (Suc (a div ?m) mod 60) :: u8) = of_nat (a div ?m mod 60)" unfolding min that .
    then show False by (rule minutes_differ)
  qed
  show "Minute (time_of b) = Minute (time_of a) \<Longrightarrow> b mod ?m = a mod ?m + (b - a)" using d same differ by blast
  show "Minute (time_of b) \<noteq> Minute (time_of a) \<Longrightarrow> b mod ?m + ?m = a mod ?m + (b - a)"
    using d next_min min by metis
qed

subsection \<open>How long the pause lasts\<close>

lemma second_passed:
  assumes le: "a \<le> b" and near: "b < a + 60000000000"
  shows "(if Minute (time_of b) \<noteq> Minute (time_of a) then nanoseconds (time_of b) + 60000000000 else nanoseconds (time_of b))
      < nanoseconds (time_of a) + 1000000000 \<longleftrightarrow> b < a + 1000000000"
proof -
  have lt: "n mod 60000000000 < 60000000000" for n :: nat by simp
  have u: "unat (nanoseconds (time_of n) + 60000000000) = n mod 60000000000 + 60000000000"
    "unat (nanoseconds (time_of n) + 1000000000) = n mod 60000000000 + 1000000000" for n
    using lt [of n] by (simp_all add: unat_word_ariths nanoseconds_time_of)
  show ?thesis
    using readings_apart [OF le near] le
    by (cases "Minute (time_of b) = Minute (time_of a)") (auto simp: word_less_nat_alt u nanoseconds_time_of)
qed

lemma time_changed:
  assumes le: "a \<le> b" and near: "b < a + 60000000000"
  shows "Second (time_of b) = Second (time_of a) \<and> Nanosecond (time_of b) = Nanosecond (time_of a) \<longleftrightarrow> b = a"
proof
  assume "Second (time_of b) = Second (time_of a) \<and> Nanosecond (time_of b) = Nanosecond (time_of a)"
  then have "nanoseconds (time_of b) = nanoseconds (time_of a)" by (simp add: nanoseconds_def)
  then have "b mod 60000000000 = a mod 60000000000" by (metis nanoseconds_time_of)
  then show "b = a"
    using readings_apart [OF le near] le near by (cases "Minute (time_of b) = Minute (time_of a)") simp_all
qed simp

lemma shown_bounds:
  assumes "(0::nat) < q"
  shows "n div q * q \<le> n" and "n < n div q * q + q"
  using dividend_less_times_div [OF assms, of n] by (simp_all add: mult.commute add.commute)

lemma shown_ge: "q dvd a \<Longrightarrow> a \<le> n \<Longrightarrow> a \<le> n div q * q" for q :: nat
  by (metis div_le_mono dvd_div_mult_self mult_le_mono1)

text \<open>One round of polling.\<close>

lemma poll:
  assumes c: "clock_ok sv ns q d" and q: "0 < q" and a: "q dvd a" "a \<le> ns fw"
  obtains b fw' where "get_time sv (Halt sv fw) = Inr (time_of b, fw')" "q dvd b" "a \<le> b" "b \<le> ns fw'"
    "ns fw < ns fw'" "ns fw' \<le> ns fw + 2 * d" "ns fw' < b + q + d"
proof -
  have h: "ns fw < ns (Halt sv fw)" "ns (Halt sv fw) \<le> ns fw + d" using c by (simp_all add: clock_ok_def)
  obtain t fw' n where g: "get_time sv (Halt sv fw) = Inr (t, fw')" "t = time_of (n div q * q)"
    and n: "ns (Halt sv fw) \<le> n" "n \<le> ns fw'" "ns fw' \<le> ns (Halt sv fw) + d"
    by (rule get_time_ok [OF c])
  note sh = shown_bounds [OF q, of n]
  have "a \<le> n div q * q" by (rule shown_ge) (use a h n in linarith)+
  then show ?thesis using that [of "n div q * q" fw'] g h n sh by simp
qed

lemma one_second_loop_spec:
  assumes c: "clock_ok sv ns q d" and q: "0 < q" "q + 3 * d \<le> 59000000000" and a: "q dvd a"
  shows "a \<le> ns fw \<Longrightarrow> ns fw < a + 1000000000 + q + d \<Longrightarrow>
    \<exists>fw' b. one_second_loop sv (time_of a) (nanoseconds (time_of a)) fw = Some (Inr fw') \<and> q dvd b \<and>
      a + 1000000000 \<le> b \<and> b \<le> ns fw' \<and> ns fw' < a + 1000000000 + q + 3 * d"
proof (induction "a + 1000000000 + q + d - ns fw" arbitrary: fw rule: less_induct)
  case less
  obtain b fw1 where g: "get_time sv (Halt sv fw) = Inr (time_of b, fw1)" and b: "q dvd b" "a \<le> b" "b \<le> ns fw1"
    and t: "ns fw < ns fw1" "ns fw1 \<le> ns fw + 2 * d" "ns fw1 < b + q + d"
    by (rule poll [OF c q(1) a less.prems(1)])
  have near: "b < a + 60000000000" using b t less.prems q by linarith
  have one: "one_second_loop sv (time_of a) (nanoseconds (time_of a)) fw =
      (if b < a + 1000000000 then one_second_loop sv (time_of a) (nanoseconds (time_of a)) fw1 else Some (Inr fw1))"
    by (subst one_second_loop.simps) (simp only: g bindo_simps prod.case Let_def second_passed [OF b(2) near])
  show ?case
  proof (cases "b < a + 1000000000")
    case True
    have "\<exists>fw' b. one_second_loop sv (time_of a) (nanoseconds (time_of a)) fw1 = Some (Inr fw') \<and> q dvd b \<and>
        a + 1000000000 \<le> b \<and> b \<le> ns fw' \<and> ns fw' < a + 1000000000 + q + 3 * d"
      by (rule less.hyps) (use True b t less.prems in linarith)+
    then show ?thesis using one True by simp
  next
    case False
    then show ?thesis using one b t less.prems by (intro exI [of _ fw1] exI [of _ b]) simp
  qed
qed

lemma wait_for_one_second_spec:
  assumes c: "clock_ok sv ns q d" and q: "0 < q" "q + 3 * d \<le> 59000000000" and a: "q dvd a" "a \<le> ns fw"
  shows "\<exists>fw' b. wait_for_one_second sv fw = Some (Inr fw') \<and> q dvd b \<and> a + 1000000000 \<le> b \<and> b \<le> ns fw' \<and>
    ns fw' < ns fw + 1000000000 + q + 4 * d"
proof -
  obtain t fw1 n where g: "get_time sv fw = Inr (t, fw1)" "t = time_of (n div q * q)"
    and n: "ns fw \<le> n" "n \<le> ns fw1" "ns fw1 \<le> ns fw + d"
    by (rule get_time_ok [OF c])
  note sh = shown_bounds [OF q(1), of n]
  have ge: "a \<le> n div q * q" by (rule shown_ge) (use a n in linarith)+
  have "\<exists>fw' b. one_second_loop sv (time_of (n div q * q)) (nanoseconds (time_of (n div q * q))) fw1 = Some (Inr fw') \<and>
      q dvd b \<and> n div q * q + 1000000000 \<le> b \<and> b \<le> ns fw' \<and> ns fw' < n div q * q + 1000000000 + q + 3 * d"
    by (rule one_second_loop_spec [OF c q dvd_triv_right]) (use sh n in linarith)+
  then obtain fw' b where l: "one_second_loop sv (time_of (n div q * q)) (nanoseconds (time_of (n div q * q))) fw1 = Some (Inr fw')"
    and b: "q dvd b" "n div q * q + 1000000000 \<le> b" "b \<le> ns fw'" "ns fw' < n div q * q + 1000000000 + q + 3 * d" by blast
  have "ns fw' < ns fw + 1000000000 + q + 4 * d" using b(4) sh n by linarith
  then show ?thesis using l b g n ge unfolding wait_for_one_second_def by (intro exI [of _ fw'] exI [of _ b]) simp
qed

lemma time_change_loop_spec:
  assumes c: "clock_ok sv ns q d" and q: "0 < q" "q + 3 * d \<le> 59000000000" and a: "q dvd a"
  shows "a \<le> ns fw \<Longrightarrow> ns fw < a + q + d \<Longrightarrow>
    \<exists>fw' b. time_change_loop sv (time_of a) fw = Some (Inr fw') \<and> q dvd b \<and> a < b \<and> b \<le> ns fw' \<and> ns fw' < a + q + 3 * d"
proof (induction "a + q + d - ns fw" arbitrary: fw rule: less_induct)
  case less
  obtain b fw1 where g: "get_time sv (Halt sv fw) = Inr (time_of b, fw1)" and b: "q dvd b" "a \<le> b" "b \<le> ns fw1"
    and t: "ns fw < ns fw1" "ns fw1 \<le> ns fw + 2 * d" "ns fw1 < b + q + d"
    by (rule poll [OF c q(1) a less.prems(1)])
  have near: "b < a + 60000000000" using b t less.prems q by linarith
  have one: "time_change_loop sv (time_of a) fw = (if b = a then time_change_loop sv (time_of a) fw1 else Some (Inr fw1))"
    by (subst time_change_loop.simps) (simp only: g bindo_simps prod.case time_changed [OF b(2) near])
  show ?case
  proof (cases "b = a")
    case True
    have "\<exists>fw' b. time_change_loop sv (time_of a) fw1 = Some (Inr fw') \<and> q dvd b \<and> a < b \<and> b \<le> ns fw' \<and> ns fw' < a + q + 3 * d"
      by (rule less.hyps) (use True b t less.prems in linarith)+
    then show ?thesis using one True by simp
  next
    case False
    then show ?thesis using one b t less.prems by (intro exI [of _ fw1] exI [of _ b]) simp
  qed
qed

lemma wait_for_time_change_spec:
  assumes c: "clock_ok sv ns q d" and q: "0 < q" "q + 3 * d \<le> 59000000000"
  shows "\<exists>fw' b. wait_for_time_change sv fw = Some (Inr fw') \<and> q dvd b \<and> ns fw < b \<and> b \<le> ns fw' \<and> ns fw' < ns fw + q + 4 * d"
proof -
  obtain t fw1 n where g: "get_time sv fw = Inr (t, fw1)" "t = time_of (n div q * q)"
    and n: "ns fw \<le> n" "n \<le> ns fw1" "ns fw1 \<le> ns fw + d"
    by (rule get_time_ok [OF c])
  note sh = shown_bounds [OF q(1), of n]
  have "\<exists>fw' b. time_change_loop sv (time_of (n div q * q)) fw1 = Some (Inr fw') \<and> q dvd b \<and> n div q * q < b \<and>
      b \<le> ns fw' \<and> ns fw' < n div q * q + q + 3 * d"
    by (rule time_change_loop_spec [OF c q dvd_triv_right]) (use sh n in linarith)+
  then obtain fw' b where l: "time_change_loop sv (time_of (n div q * q)) fw1 = Some (Inr fw')" and b: "q dvd b"
    "n div q * q < b" "b \<le> ns fw'" "ns fw' < n div q * q + q + 3 * d" by blast
  have ge: "n div q * q + q \<le> b"
  proof -
    obtain k where k: "b = q * k" using b(1) by auto
    then have "n div q < k" using b(2) by (simp add: mult.commute)
    then show ?thesis using k by (metis Suc_leI add.commute mult.commute mult_Suc mult_le_mono1)
  qed
  have up: "ns fw' < ns fw + q + 4 * d" using b(4) sh n by linarith
  have lo: "ns fw < b" using ge sh n by linarith
  show ?thesis using l g up lo b(1,3) unfolding wait_for_time_change_def by (intro exI [of _ fw'] exI [of _ b]) simp
qed

text \<open>
  C28. The pause before boot services end comes to an end, and it lasts more than three seconds on
  a clock of any resolution (even one that shows whole seconds only, or one that goes over into
  the next minute or hour meanwhile), and at most as much longer as the resolution and the time the
  calls take account for, four times each.
\<close>

theorem pause_lasts_three_seconds:
  assumes "clock_ok sv ns q d" and "0 < q" and "q + 3 * d \<le> 59000000000"
  shows "\<exists>fw'. wait_before_exit sv fw = Some (Inr fw') \<and> ns fw + 3000000000 < ns fw' \<and>
    ns fw' < ns fw + 3000000000 + 4 * (q + 4 * d)"
proof -
  note one = wait_for_one_second_spec [OF assms]
  obtain fw0 b0 where 0: "wait_for_time_change sv fw = Some (Inr fw0)" "q dvd b0" "ns fw < b0" "b0 \<le> ns fw0"
    "ns fw0 < ns fw + q + 4 * d" using wait_for_time_change_spec [OF assms] by blast
  obtain fw1 b1 where 1: "wait_for_one_second sv fw0 = Some (Inr fw1)" "q dvd b1" "b0 + 1000000000 \<le> b1" "b1 \<le> ns fw1"
    "ns fw1 < ns fw0 + 1000000000 + q + 4 * d" using one [OF 0(2,4)] by blast
  obtain fw2 b2 where 2: "wait_for_one_second sv fw1 = Some (Inr fw2)" "q dvd b2" "b1 + 1000000000 \<le> b2" "b2 \<le> ns fw2"
    "ns fw2 < ns fw1 + 1000000000 + q + 4 * d" using one [OF 1(2,4)] by blast
  obtain fw3 b3 where 3: "wait_for_one_second sv fw2 = Some (Inr fw3)" "b2 + 1000000000 \<le> b3" "b3 \<le> ns fw3"
    "ns fw3 < ns fw2 + 1000000000 + q + 4 * d" using one [OF 2(2,4)] by blast
  show ?thesis
    using 0 1 2 3 unfolding wait_before_exit_def by (intro exI [of _ fw3]) simp
qed

text \<open>A clock that shows whole seconds, with ten interrupts in a second.\<close>

definition clock_ex :: "nat clock_services" where
  "clock_ex = \<lparr> GetTime = \<lambda>fw. ((0, time_of (fw div 1000000000 * 1000000000)), fw), Halt = \<lambda>fw. fw + 100000000 \<rparr>"

theorem pause_lasts_three_seconds_witness:
  "clock_ok clock_ex id 1000000000 100000000 \<and>
   (\<exists>fw'. wait_before_exit clock_ex 58700000001 = Some (Inr fw') \<and> 61700000001 < fw' \<and> fw' < 67300000001)"
proof -
  have c: "clock_ok clock_ex id 1000000000 100000000"
    by (auto simp: clock_ok_def clock_ex_def EFI_ERROR_def)
  have "\<exists>fw'. wait_before_exit clock_ex 58700000001 = Some (Inr fw') \<and> id 58700000001 + 3000000000 < id fw' \<and>
      id fw' < id 58700000001 + 3000000000 + 4 * (1000000000 + 4 * 100000000)"
    by (rule pause_lasts_three_seconds [OF c]) simp_all
  then show ?thesis using c by simp
qed

end
