(* ===== verification/Elf.thy ===== *)
theory Elf
  imports Act Bmem Util
begin

text \<open>
  Loading stage 2 (\<^verbatim>\<open>stage1/main.c\<close>, \<^verbatim>\<open>elf.h\<close>): the file is opened under one of three names, its ELF
  header and program headers are checked, and each loadable segment is read to the physical
  address it asks for, in pages allocated from the firmware. The firmware's file and page
  services are a parameter. This theory has the functions; \<open>Elf_Correct\<close> has the proofs.
\<close>

unbundle bit_operations_syntax

subsection \<open>The file format\<close>

definition PT_LOAD :: u32 where "PT_LOAD = 1"
definition EM_386 :: u16 where "EM_386 = 3"
definition EV_CURRENT :: u32 where "EV_CURRENT = 1"
definition EI_VERSION :: nat where "EI_VERSION = 6"
definition ELFMAG0 :: u8 where "ELFMAG0 = 0x7f"
definition ELFMAG1 :: u8 where "ELFMAG1 = 0x45"
definition ELFMAG2 :: u8 where "ELFMAG2 = 0x4c"
definition ELFMAG3 :: u8 where "ELFMAG3 = 0x46"

record elf_ehdr =
  e_ident :: "u8 list"
  e_type :: u16
  e_machine :: u16
  e_version :: u32
  e_entry :: u32
  e_phoff :: u32
  e_shoff :: u32
  e_flags :: u32
  e_ehsize :: u16
  e_phentsize :: u16
  e_phnum :: u16
  e_shentsize :: u16
  e_shnum :: u16
  e_shstrndx :: u16

record elf_phdr =
  p_type :: u32
  p_offset :: u32
  p_vaddr :: u32
  p_paddr :: u32
  p_filesz :: u32
  p_memsz :: u32
  p_flags :: u32
  p_align :: u32

definition sizeof_ehdr :: u64 where "sizeof_ehdr = 52"
definition sizeof_phdr :: u64 where "sizeof_phdr = 32"

definition field16 :: "u8 list \<Rightarrow> nat \<Rightarrow> u16" where "field16 bs off = le_word (take 2 (drop off bs))"
definition field32 :: "u8 list \<Rightarrow> nat \<Rightarrow> u32" where "field32 bs off = le_word (take 4 (drop off bs))"

definition rd_ehdr :: "u8 list \<Rightarrow> elf_ehdr" where
  "rd_ehdr bs = \<lparr> e_ident = take 16 bs, e_type = field16 bs 16, e_machine = field16 bs 18,
     e_version = field32 bs 20, e_entry = field32 bs 24, e_phoff = field32 bs 28, e_shoff = field32 bs 32,
     e_flags = field32 bs 36, e_ehsize = field16 bs 40, e_phentsize = field16 bs 42, e_phnum = field16 bs 44,
     e_shentsize = field16 bs 46, e_shnum = field16 bs 48, e_shstrndx = field16 bs 50 \<rparr>"

definition rd_phdr :: "u8 list \<Rightarrow> elf_phdr" where
  "rd_phdr bs = \<lparr> p_type = field32 bs 0, p_offset = field32 bs 4, p_vaddr = field32 bs 8,
     p_paddr = field32 bs 12, p_filesz = field32 bs 16, p_memsz = field32 bs 20,
     p_flags = field32 bs 24, p_align = field32 bs 28 \<rparr>"

definition rd_phdrs :: "u8 list \<Rightarrow> nat \<Rightarrow> elf_phdr list" where
  "rd_phdrs bs n = map (\<lambda>i. rd_phdr (take 32 (drop (32 * i) bs))) [0..<n]"

subsection \<open>The firmware\<close>

text \<open>
  A read gives its status and the bytes it put into the buffer; \<open>AllocAt\<close> asks for pages at an
  address. \<open>FileInfo\<close> says whether there is information about the file.
\<close>

record ('fw, 'fs, 'file) file_services =
  GetFs :: "'fw \<Rightarrow> (u64 \<times> 'fs) \<times> 'fw"
  OpenVolume :: "'fs \<Rightarrow> 'fw \<Rightarrow> (u64 \<times> 'file) \<times> 'fw"
  FileOpen :: "'file \<Rightarrow> string \<Rightarrow> 'fw \<Rightarrow> (u64 \<times> 'file) \<times> 'fw"
  FileInfo :: "'file \<Rightarrow> 'fw \<Rightarrow> bool \<times> 'fw"
  FileRead :: "'file \<Rightarrow> u64 \<Rightarrow> 'fw \<Rightarrow> (u64 \<times> u8 list) \<times> 'fw"
  SetPosition :: "'file \<Rightarrow> u64 \<Rightarrow> 'fw \<Rightarrow> u64 \<times> 'fw"
  CloseFile :: "'file \<Rightarrow> 'fw \<Rightarrow> 'fw"
  AllocAt :: "u64 \<Rightarrow> u64 \<Rightarrow> 'fw \<Rightarrow> u64 \<times> 'fw"
  FreePages :: "u64 \<Rightarrow> u64 \<Rightarrow> 'fw \<Rightarrow> 'fw"

record 'fw ld_state =
  ld_fw :: 'fw
  ld_mem :: mem

definition ask :: "('fw \<Rightarrow> 'a \<times> 'fw) \<Rightarrow> ('fw ld_state, 'a) act" where
  "ask f = (\<lambda>s. let (x, fw) = f (ld_fw s) in (Inr x, s\<lparr> ld_fw := fw \<rparr>))"

definition tell :: "('fw \<Rightarrow> 'fw) \<Rightarrow> ('fw ld_state, unit) act" where
  "tell f = update (\<lambda>s. s\<lparr> ld_fw := f (ld_fw s) \<rparr>)"

definition store :: "u64 \<Rightarrow> u8 list \<Rightarrow> ('fw ld_state, unit) act" where
  "store a bs = update (\<lambda>s. s\<lparr> ld_mem := put_bytes (ld_mem s) (unat a) bs \<rparr>)"

subsection \<open>Reading the file\<close>

definition close_both :: "('fw, 'fs, 'file) file_services \<Rightarrow> 'file \<Rightarrow> 'file \<Rightarrow> ('fw ld_state, unit) act" where
  "close_both sv prog vol = andthen (tell (CloseFile sv prog)) (\<lambda>_. tell (CloseFile sv vol))"

definition read_stage2 ::
  "('fw, 'fs, 'file) file_services \<Rightarrow> 'file \<Rightarrow> 'file \<Rightarrow> u64 \<Rightarrow> ('fw ld_state, u8 list) act" where
  "read_stage2 sv prog vol sz =
     (if sz = 0 then ret []
      else andthen (ask (FileRead sv prog sz)) (\<lambda>(status, bs).
        if EFI_ERROR status then
          andthen (close_both sv prog vol) (\<lambda>_. fail (Error_with_status ''cannot read stage 2'' status))
        else if length bs \<noteq> unat sz then
          andthen (close_both sv prog vol) (\<lambda>_. fail (Error_with_status ''short read from stage 2'' status))
        else ret bs))"

definition seek_stage2 ::
  "('fw, 'fs, 'file) file_services \<Rightarrow> 'file \<Rightarrow> 'file \<Rightarrow> u64 \<Rightarrow> ('fw ld_state, unit) act" where
  "seek_stage2 sv prog vol pos =
     andthen (ask (SetPosition sv prog pos)) (\<lambda>status.
       if EFI_ERROR status then
         andthen (close_both sv prog vol) (\<lambda>_. fail (Error_with_status ''cannot seek into stage 2'' status))
       else ret ())"

definition dump_stage2_info :: "('fw, 'fs, 'file) file_services \<Rightarrow> 'file \<Rightarrow> ('fw ld_state, unit) act" where
  "dump_stage2_info sv prog =
     andthen (ask (FileInfo sv prog)) (\<lambda>info. if info then ret () else fail (Error ''cannot get info on stage 2''))"

subsection \<open>Segments\<close>

definition pages_of :: "u32 \<Rightarrow> u64" where
  "pages_of memsz = (ucast memsz + ucast EFI_PAGE_SIZE - 1) div ucast EFI_PAGE_SIZE"

text \<open>The loop takes the size from the first header every time.\<close>

fun free_segs :: "('fw, 'fs, 'file) file_services \<Rightarrow> u32 \<Rightarrow> elf_phdr list \<Rightarrow> ('fw ld_state, unit) act" where
  "free_segs sv memsz [] = ret ()"
| "free_segs sv memsz (phdr # phdrs) =
     andthen (tell (FreePages sv (ucast (p_paddr phdr)) (pages_of memsz))) (\<lambda>_. free_segs sv memsz phdrs)"

definition free_stage2_mem ::
  "('fw, 'fs, 'file) file_services \<Rightarrow> elf_phdr list \<Rightarrow> nat \<Rightarrow> ('fw ld_state, unit) act" where
  "free_stage2_mem sv phdrs ph_cnt = free_segs sv (p_memsz (hd phdrs)) (take ph_cnt phdrs)"

definition bad_elf :: "('fw, 'fs, 'file) file_services \<Rightarrow> 'file \<Rightarrow> 'file \<Rightarrow> ('fw ld_state, 'a) act" where
  "bad_elf sv prog vol = andthen (close_both sv prog vol) (\<lambda>_. fail (Error ''bad stage2''))"

fun load_segs ::
  "('fw, 'fs, 'file) file_services \<Rightarrow> 'file \<Rightarrow> 'file \<Rightarrow> elf_phdr list \<Rightarrow> nat \<Rightarrow> elf_phdr list \<Rightarrow> ('fw ld_state, unit) act" where
  "load_segs sv prog vol phdrs ph_idx [] = ret ()"
| "load_segs sv prog vol phdrs ph_idx (phdr # rest) =
     (let off = p_offset phdr; paddr = ucast (p_paddr phdr) :: u64; slack = paddr mod ucast EFI_PAGE_SIZE;
          filesz = p_filesz phdr; memsz = p_memsz phdr in
      if p_type phdr \<noteq> PT_LOAD then load_segs sv prog vol phdrs (Suc ph_idx) rest
      else if filesz > memsz then
        andthen (free_stage2_mem sv phdrs ph_idx) (\<lambda>_. bad_elf sv prog vol)
      else
        let off = (if slack \<noteq> 0 then ucast (ucast off - slack) else off);
            paddr = paddr - slack;
            filesz = (if slack \<noteq> 0 \<and> filesz \<noteq> 0 then ucast (ucast filesz + slack) else filesz);
            memsz = (if slack \<noteq> 0 then ucast (ucast memsz + slack) else memsz) in
        andthen (ask (AllocAt sv paddr (pages_of memsz))) (\<lambda>status.
        if EFI_ERROR status then
          andthen (free_stage2_mem sv phdrs ph_idx) (\<lambda>_.
            fail (Error_with_status ''cannot get mem. for ELF seg.'' status))
        else
          andthen (if filesz \<noteq> 0 then
                     andthen (seek_stage2 sv prog vol (ucast off)) (\<lambda>_.
                     andthen (read_stage2 sv prog vol (ucast filesz)) (\<lambda>bs. store paddr bs))
                   else ret ()) (\<lambda>_.
          andthen (store (paddr + ucast filesz) (replicate (unat (memsz - filesz)) 0)) (\<lambda>_.
          load_segs sv prog vol phdrs (Suc ph_idx) rest))))"

subsection \<open>The whole file\<close>

definition STAGE2 :: string where "STAGE2 = ''EFI'' @ CHR 0x5C # ''biefirc'' @ CHR 0x5C # ''stage2.sys''"
definition STAGE2_ALT :: string where "STAGE2_ALT = ''biefist2.sys''"
definition STAGE2_ALT_ALT :: string where "STAGE2_ALT_ALT = ''kernel.sys''"
definition MAX_PHDRS :: u32 where "MAX_PHDRS = 16"

text \<open>The first of the names that can be opened, or the status of the last attempt.\<close>

fun open_first :: "('fw, 'fs, 'file) file_services \<Rightarrow> 'file \<Rightarrow> string \<Rightarrow> string list \<Rightarrow> ('fw ld_state, u64 \<times> 'file) act" where
  "open_first sv vol name [] = ask (FileOpen sv vol name)"
| "open_first sv vol name (name' # names) =
     andthen (ask (FileOpen sv vol name)) (\<lambda>(status, prog).
       if EFI_ERROR status then open_first sv vol name' names else ret (status, prog))"

definition ehdr_ok :: "elf_ehdr \<Rightarrow> bool" where
  "ehdr_ok e \<longleftrightarrow>
     e_ident e ! 0 = ELFMAG0 \<and> e_ident e ! 1 = ELFMAG1 \<and> e_ident e ! 2 = ELFMAG2 \<and> e_ident e ! 3 = ELFMAG3 \<and>
     ucast (e_ident e ! EI_VERSION) = EV_CURRENT \<and> e_version e = EV_CURRENT \<and>
     \<not> ucast (e_ehsize e) < sizeof_ehdr \<and> ucast (e_phentsize e) = sizeof_phdr \<and>
     \<not> ucast (e_phnum e) > MAX_PHDRS \<and> e_machine e = EM_386"

definition load_prog :: "('fw, 'fs, 'file) file_services \<Rightarrow> 'file \<Rightarrow> 'file \<Rightarrow> ('fw ld_state, u32) act" where
  "load_prog sv prog vol =
     andthen (dump_stage2_info sv prog) (\<lambda>_.
     andthen (read_stage2 sv prog vol sizeof_ehdr) (\<lambda>bs.
     let ehdr = rd_ehdr bs; ph_cnt = unat (e_phnum ehdr) in
     if \<not> ehdr_ok ehdr then bad_elf sv prog vol
     else
       andthen (seek_stage2 sv prog vol (ucast (e_phoff ehdr))) (\<lambda>_.
       andthen (read_stage2 sv prog vol (of_nat ph_cnt * sizeof_phdr)) (\<lambda>bs.
       let phdrs = rd_phdrs bs ph_cnt in
       andthen (load_segs sv prog vol phdrs 0 phdrs) (\<lambda>_.
       andthen (close_both sv prog vol) (\<lambda>_. ret (e_entry ehdr)))))))"

definition load_stage2 :: "('fw, 'fs, 'file) file_services \<Rightarrow> ('fw ld_state, u32) act" where
  "load_stage2 sv =
     andthen (ask (GetFs sv)) (\<lambda>(status, fs).
     if EFI_ERROR status then fail (Error_with_status ''cannot get EFI_SIMPLE_FILE_SYSTEM_PROTOCOL'' status)
     else andthen (ask (OpenVolume sv fs)) (\<lambda>(status, vol).
     if EFI_ERROR status then fail (Error_with_status ''cannot get EFI_FILE_PROTOCOL'' status)
     else andthen (open_first sv vol STAGE2 [STAGE2_ALT, STAGE2_ALT_ALT]) (\<lambda>(status, prog).
     if EFI_ERROR status then
       andthen (tell (CloseFile sv vol)) (\<lambda>_. fail (Error_with_status ''cannot open stage 2'' status))
     else load_prog sv prog vol)))"

end
