(* ===== verification/Elf_Correct.thy ===== *)
theory Elf_Correct
  imports Elf
begin

text \<open>
  The proofs about loading stage 2: on success every loadable segment is in memory as the file
  has it, no memory in use before is written, and the file handles are closed on every path but
  two.
\<close>

unbundle bit_operations_syntax

subsection \<open>Rules for the services\<close>

lemma triple_ask:
  "(\<And>s x fw. P s \<Longrightarrow> f (ld_fw s) = (x, fw) \<Longrightarrow> Q x (s\<lparr> ld_fw := fw \<rparr>)) \<Longrightarrow> triple P (ask f) Q E"
  unfolding triple_def ask_def by (auto split: prod.splits)

lemma triple_tell: "(\<And>s. P s \<Longrightarrow> Q () (s\<lparr> ld_fw := f (ld_fw s) \<rparr>)) \<Longrightarrow> triple P (tell f) Q E"
  unfolding tell_def by (rule triple_update)

lemma triple_store:
  "(\<And>s. P s \<Longrightarrow> Q () (s\<lparr> ld_mem := put_bytes (ld_mem s) (unat a) bs \<rparr>)) \<Longrightarrow> triple P (store a bs) Q E"
  unfolding store_def by (rule triple_update)

subsection \<open>What the firmware promises\<close>

definition page_bytes :: "u64 \<Rightarrow> u64 \<Rightarrow> nat set" where
  "page_bytes a n = {unat a..<unat a + 4096 * unat n}"

text \<open>
  A file has contents and a position; pages that are granted were not in use. \<open>used\<close> is the
  memory in use.
\<close>

definition file_contract ::
  "('fw, 'fs, 'file) file_services \<Rightarrow> ('file \<Rightarrow> u8 list) \<Rightarrow> ('fw \<Rightarrow> 'file \<Rightarrow> nat) \<Rightarrow> ('fw \<Rightarrow> nat set) \<Rightarrow> bool" where
  "file_contract sv content pos used \<longleftrightarrow>
     (\<forall>fw st fs fw'. GetFs sv fw = ((st, fs), fw') \<longrightarrow> used fw \<subseteq> used fw') \<and>
     (\<forall>fs fw st vol fw'. OpenVolume sv fs fw = ((st, vol), fw') \<longrightarrow> used fw \<subseteq> used fw') \<and>
     (\<forall>vol name fw st f fw'. FileOpen sv vol name fw = ((st, f), fw') \<longrightarrow> used fw \<subseteq> used fw' \<and>
        (\<not> EFI_ERROR st \<longrightarrow> pos fw' f = 0)) \<and>
     (\<forall>f fw ok fw'. FileInfo sv f fw = (ok, fw') \<longrightarrow> used fw \<subseteq> used fw' \<and> pos fw' f = pos fw f) \<and>
     (\<forall>f n fw st bs fw'. FileRead sv f n fw = ((st, bs), fw') \<longrightarrow> used fw \<subseteq> used fw' \<and>
        (\<not> EFI_ERROR st \<longrightarrow> bs = take (unat n) (drop (pos fw f) (content f)))) \<and>
     (\<forall>f p fw st fw'. SetPosition sv f p fw = (st, fw') \<longrightarrow> used fw \<subseteq> used fw' \<and>
        (\<not> EFI_ERROR st \<longrightarrow> pos fw' f = unat p)) \<and>
     (\<forall>f fw. used fw \<subseteq> used (CloseFile sv f fw)) \<and>
     (\<forall>a n fw st fw'. AllocAt sv a n fw = (st, fw') \<longrightarrow> \<not> EFI_ERROR st \<longrightarrow>
        page_bytes a n \<inter> used fw = {} \<and> used fw \<union> page_bytes a n \<subseteq> used fw')"

lemma contract_services:
  assumes "file_contract sv content pos used"
  shows "GetFs sv fw = ((st, fs), fw') \<Longrightarrow> used fw \<subseteq> used fw'"
    and "OpenVolume sv fs fw = ((st, vol), fw') \<Longrightarrow> used fw \<subseteq> used fw'"
    and "FileOpen sv vol name fw = ((st, f), fw') \<Longrightarrow> used fw \<subseteq> used fw' \<and> (\<not> EFI_ERROR st \<longrightarrow> pos fw' f = 0)"
    and "FileInfo sv f fw = (ok, fw') \<Longrightarrow> used fw \<subseteq> used fw' \<and> pos fw' f = pos fw f"
    and "used fw \<subseteq> used (CloseFile sv f fw)"
  using assms unfolding file_contract_def by metis+

lemma contract_read:
  "file_contract sv content pos used \<Longrightarrow> FileRead sv f n fw = ((st, bs), fw') \<Longrightarrow> used fw \<subseteq> used fw' \<and>
     (\<not> EFI_ERROR st \<longrightarrow> bs = take (unat n) (drop (pos fw f) (content f)))"
  unfolding file_contract_def by metis

lemma contract_seek:
  "file_contract sv content pos used \<Longrightarrow> SetPosition sv f p fw = (st, fw') \<Longrightarrow> used fw \<subseteq> used fw' \<and>
     (\<not> EFI_ERROR st \<longrightarrow> pos fw' f = unat p)"
  unfolding file_contract_def by metis

lemma contract_alloc:
  "file_contract sv content pos used \<Longrightarrow> AllocAt sv a n fw = (st, fw') \<Longrightarrow> \<not> EFI_ERROR st \<Longrightarrow>
     page_bytes a n \<inter> used fw = {} \<and> used fw \<union> page_bytes a n \<subseteq> used fw'"
  unfolding file_contract_def by metis

subsection \<open>A segment in memory\<close>

definition seg_bytes :: "elf_phdr \<Rightarrow> nat set" where
  "seg_bytes ph = {unat (p_paddr ph)..<unat (p_paddr ph) + unat (p_memsz ph)}"

definition seg_fits :: "elf_phdr \<Rightarrow> bool" where
  "seg_fits ph \<longleftrightarrow> (p_type ph = PT_LOAD \<longrightarrow> unat (p_paddr ph) + unat (p_memsz ph) < 2 ^ 32)"

definition seg_loaded :: "u8 list \<Rightarrow> mem \<Rightarrow> elf_phdr \<Rightarrow> bool" where
  "seg_loaded bs m ph \<longleftrightarrow>
     (let a = unat (p_paddr ph); n = unat (p_filesz ph); k = unat (p_memsz ph) in
      n \<le> k \<and> get_bytes m a n = take n (drop (unat (p_offset ph)) bs) \<and> get_bytes m (a + n) (k - n) = replicate (k - n) 0)"

definition load_inv :: "('fw \<Rightarrow> nat set) \<Rightarrow> u8 list \<Rightarrow> 'fw ld_state \<Rightarrow> elf_phdr list \<Rightarrow> 'fw ld_state \<Rightarrow> bool" where
  "load_inv used bs s0 phs s \<longleftrightarrow>
     used (ld_fw s0) \<subseteq> used (ld_fw s) \<and> (\<forall>i\<in>used (ld_fw s0). ld_mem s i = ld_mem s0 i) \<and>
     (\<forall>ph\<in>set phs. p_type ph = PT_LOAD \<longrightarrow> seg_loaded bs (ld_mem s) ph \<and> seg_bytes ph \<subseteq> used (ld_fw s))"

lemma load_inv_mono:
  assumes "load_inv used bs s0 phs s" and "used (ld_fw s) \<subseteq> used fw"
  shows "load_inv used bs s0 phs (s\<lparr> ld_fw := fw \<rparr>)"
  using assms by (simp add: load_inv_def) blast

text \<open>Writing to pages just granted.\<close>

definition writes_in :: "nat set \<Rightarrow> mem \<Rightarrow> mem \<Rightarrow> bool" where
  "writes_in A m m' \<longleftrightarrow> (\<forall>i. i \<notin> A \<longrightarrow> m' i = m i)"

lemma seg_loaded_cong: "(\<And>i. i \<in> seg_bytes ph \<Longrightarrow> m' i = m i) \<Longrightarrow> seg_loaded bs m ph \<Longrightarrow> seg_loaded bs m' ph"
proof -
  assume same: "\<And>i. i \<in> seg_bytes ph \<Longrightarrow> m' i = m i" and l: "seg_loaded bs m ph"
  let ?a = "unat (p_paddr ph)" and ?n = "unat (p_filesz ph)" and ?k = "unat (p_memsz ph)"
  have le: "?n \<le> ?k" using l by (simp add: seg_loaded_def Let_def)
  have "get_bytes m' ?a ?n = get_bytes m ?a ?n" "get_bytes m' (?a + ?n) (?k - ?n) = get_bytes m (?a + ?n) (?k - ?n)"
    using le by (auto intro!: get_bytes_cong same simp: seg_bytes_def)
  then show ?thesis using l by (simp add: seg_loaded_def Let_def)
qed

lemma load_inv_new:
  assumes inv: "load_inv used bs s0 phs s" and new: "A \<inter> used (ld_fw s) = {}" "used (ld_fw s) \<union> A \<subseteq> used fw"
    and w: "writes_in A (ld_mem s) m'" and ph: "seg_loaded bs m' ph" "seg_bytes ph \<subseteq> A"
    and s': "ld_fw s' = fw'" "used fw \<subseteq> used fw'" "ld_mem s' = m'"
  shows "load_inv used bs s0 (phs @ [ph]) s'"
proof -
  have out: "m' i = ld_mem s i" if "i \<in> used (ld_fw s)" for i
    using w new(1) that unfolding writes_in_def by blast
  have "seg_loaded bs m' k \<and> seg_bytes k \<subseteq> used fw'" if k: "k \<in> set phs" "p_type k = PT_LOAD" for k
  proof -
    have "seg_loaded bs (ld_mem s) k" "seg_bytes k \<subseteq> used (ld_fw s)" using inv k by (auto simp: load_inv_def)
    then show ?thesis using seg_loaded_cong [of k m' "ld_mem s" bs] out new(2) s'(2) by blast
  qed
  moreover have "seg_bytes ph \<subseteq> used fw'" using ph(2) new(2) s'(2) by blast
  moreover have "used (ld_fw s0) \<subseteq> used fw'" using inv new(2) s'(2) unfolding load_inv_def by blast
  moreover have "\<forall>i\<in>used (ld_fw s0). m' i = ld_mem s0 i" using inv out unfolding load_inv_def by (metis subsetD)
  ultimately show ?thesis using ph(1) by (auto simp: load_inv_def s')
qed


subsection \<open>The arithmetic of one segment\<close>

text \<open>The start, the file offset and the two sizes the loop works with.\<close>

definition sg_slack :: "elf_phdr \<Rightarrow> u64" where
  "sg_slack ph = (ucast (p_paddr ph) :: u64) mod ucast EFI_PAGE_SIZE"
definition sg_off :: "elf_phdr \<Rightarrow> u32" where
  "sg_off ph = (if sg_slack ph \<noteq> 0 then ucast (ucast (p_offset ph) - sg_slack ph) else p_offset ph)"
definition sg_addr :: "elf_phdr \<Rightarrow> u64" where
  "sg_addr ph = ucast (p_paddr ph) - sg_slack ph"
definition sg_filesz :: "elf_phdr \<Rightarrow> u32" where
  "sg_filesz ph = (if sg_slack ph \<noteq> 0 \<and> p_filesz ph \<noteq> 0 then ucast (ucast (p_filesz ph) + sg_slack ph) else p_filesz ph)"
definition sg_memsz :: "elf_phdr \<Rightarrow> u32" where
  "sg_memsz ph = (if sg_slack ph \<noteq> 0 then ucast (ucast (p_memsz ph) + sg_slack ph) else p_memsz ph)"

lemma unat_ucast_add:
  fixes x :: u32 and y :: u64
  assumes "unat x + unat y < 2 ^ 32"
  shows "unat (ucast (ucast x + y) :: u32) = unat x + unat y"
proof -
  have "unat (ucast x + y) = unat x + unat y"
    using assms by (subst unat_add_nowrap) simp_all
  then show ?thesis using assms by (simp add: unat_ucast_down)
qed

lemma sg_arith:
  assumes fit: "unat (p_paddr ph) + unat (p_memsz ph) < 2 ^ 32" and le: "p_filesz ph \<le> p_memsz ph"
  defines "k \<equiv> unat (p_paddr ph) mod 4096"
  shows "unat (sg_slack ph) = k" and "unat (sg_addr ph) = unat (p_paddr ph) - k"
    and "unat (sg_filesz ph) = (if p_filesz ph = 0 then 0 else unat (p_filesz ph) + k)"
    and "unat (sg_memsz ph) = unat (p_memsz ph) + k"
    and "k \<le> unat (p_offset ph) \<Longrightarrow> unat (sg_off ph) = unat (p_offset ph) - k"
    and "unat (p_offset ph) < k \<Longrightarrow> unat (sg_off ph) = 2 ^ 32 + unat (p_offset ph) - k"
proof -
  have k: "k \<le> unat (p_paddr ph)" "k < 4096" by (simp_all add: k_def)
  show slack: "unat (sg_slack ph) = k"
    by (simp add: sg_slack_def EFI_PAGE_SIZE_def unat_mod_distrib k_def)
  have "sg_slack ph \<le> ucast (p_paddr ph)" using slack k by (simp add: word_le_nat_alt)
  then show "unat (sg_addr ph) = unat (p_paddr ph) - k"
    unfolding sg_addr_def by (subst unat_sub_noborrow) (simp_all add: slack)
  have z: "sg_slack ph = 0 \<longleftrightarrow> k = 0" using slack by (metis unat_eq_zero)
  have le': "unat (p_filesz ph) \<le> unat (p_memsz ph)" using le by (simp add: word_le_nat_alt)
  have fs: "unat (p_filesz ph) + unat (sg_slack ph) < 2 ^ 32" using fit k le' slack by linarith
  show "unat (sg_filesz ph) = (if p_filesz ph = 0 then 0 else unat (p_filesz ph) + k)"
    using unat_ucast_add [OF fs] z slack by (simp add: sg_filesz_def)
  have ms: "unat (p_memsz ph) + unat (sg_slack ph) < 2 ^ 32" using fit k slack by linarith
  show "unat (sg_memsz ph) = unat (p_memsz ph) + k"
    using unat_ucast_add [OF ms] z slack by (simp add: sg_memsz_def)
  show "unat (sg_off ph) = unat (p_offset ph) - k" if o: "k \<le> unat (p_offset ph)"
  proof -
    have "sg_slack ph \<le> ucast (p_offset ph)" using slack o by (simp add: word_le_nat_alt)
    then have "unat (ucast (p_offset ph) - sg_slack ph) = unat (p_offset ph) - k"
      by (subst unat_sub_noborrow) (simp_all add: slack)
    moreover have "unat (p_offset ph) - k < 2 ^ 32" using unat_lt [of "p_offset ph"] by simp
    ultimately show ?thesis using z by (simp add: sg_off_def unat_ucast_down)
  qed
  show "unat (sg_off ph) = 2 ^ 32 + unat (p_offset ph) - k" if o: "unat (p_offset ph) < k"
  proof -
    have lt: "(ucast (p_offset ph) :: u64) < sg_slack ph" using slack o by (simp add: word_less_nat_alt)
    have "unat (ucast (p_offset ph) - sg_slack ph) = 2 ^ 64 + unat (p_offset ph) - k"
      using lt slack by (simp add: unat_sub_if_size word_size word_le_nat_alt word_less_nat_alt)
    then have "unat (ucast (ucast (p_offset ph) - sg_slack ph) :: u32) = (2 ^ 64 + unat (p_offset ph) - k) mod 2 ^ 32"
      by (simp add: unsigned_ucast_eq unsigned_take_bit_eq take_bit_eq_mod)
    also have "\<dots> = 2 ^ 32 + unat (p_offset ph) - k"
    proof -
      have "2 ^ 64 + unat (p_offset ph) - k = (2 ^ 32 - 1) * 2 ^ 32 + (2 ^ 32 + unat (p_offset ph) - k)"
        using o k(2) by simp
      also have "\<dots> mod 2 ^ 32 = (2 ^ 32 + unat (p_offset ph) - k) mod 2 ^ 32" by (rule mod_mult_self3)
      also have "\<dots> = 2 ^ 32 + unat (p_offset ph) - k" by (rule mod_less) (use o in simp)
      finally show ?thesis .
    qed
    finally show ?thesis using o z by (simp add: sg_off_def)
  qed
qed

lemma pages_of_enough: "unat n \<le> 4096 * unat (pages_of n)"
proof -
  have lt: "unat n < 2 ^ 32" using unat_lt [of n] by simp
  have "unat (ucast n + ucast EFI_PAGE_SIZE - 1 :: u64) = unat n + 4095"
    using lt by (simp add: EFI_PAGE_SIZE_def unat_word_ariths)
  then have "unat (pages_of n) = (unat n + 4095) div 4096"
    by (simp add: pages_of_def unat_div_distrib EFI_PAGE_SIZE_def)
  then show ?thesis by simp
qed


lemma load_segs_Cons:
  "load_segs sv prog vol phdrs ph_idx (ph # rest) =
     (if p_type ph \<noteq> PT_LOAD then load_segs sv prog vol phdrs (Suc ph_idx) rest
      else if p_filesz ph > p_memsz ph then andthen (free_stage2_mem sv phdrs ph_idx) (\<lambda>_. bad_elf sv prog vol)
      else
        andthen (ask (AllocAt sv (sg_addr ph) (pages_of (sg_memsz ph)))) (\<lambda>status.
        if EFI_ERROR status then
          andthen (free_stage2_mem sv phdrs ph_idx) (\<lambda>_.
            fail (Error_with_status ''cannot get mem. for ELF seg.'' status))
        else
          andthen (if sg_filesz ph \<noteq> 0 then
                     andthen (seek_stage2 sv prog vol (ucast (sg_off ph))) (\<lambda>_.
                     andthen (read_stage2 sv prog vol (ucast (sg_filesz ph))) (\<lambda>bs. store (sg_addr ph) bs))
                   else ret ()) (\<lambda>_.
          andthen (store (sg_addr ph + ucast (sg_filesz ph)) (replicate (unat (sg_memsz ph - sg_filesz ph)) 0)) (\<lambda>_.
          load_segs sv prog vol phdrs (Suc ph_idx) rest))))"
  unfolding load_segs.simps Let_def sg_slack_def [symmetric] sg_addr_def [symmetric] sg_memsz_def [symmetric]
    sg_filesz_def [symmetric] sg_off_def [symmetric] ..

lemma seg_written:
  fixes m :: mem
  assumes fit: "unat (p_paddr ph) + unat (p_memsz ph) < 2 ^ 32" and le: "p_filesz ph \<le> p_memsz ph"
    and rd: "sg_filesz ph \<noteq> 0 \<Longrightarrow> bsr = take (unat (sg_filesz ph)) (drop (unat (sg_off ph)) bs) \<and>
      length bsr = unat (sg_filesz ph)"
    and small: "length bs \<le> 2 ^ 32 - 4096"
  defines "m1 \<equiv> if sg_filesz ph \<noteq> 0 then put_bytes m (unat (sg_addr ph)) bsr else m"
  defines "m2 \<equiv> put_bytes m1 (unat (sg_addr ph + ucast (sg_filesz ph))) (replicate (unat (sg_memsz ph - sg_filesz ph)) 0)"
  shows "seg_loaded bs m2 ph" and "writes_in (page_bytes (sg_addr ph) (pages_of (sg_memsz ph))) m m2"
    and "seg_bytes ph \<subseteq> page_bytes (sg_addr ph) (pages_of (sg_memsz ph))"
proof -
  define k where "k = unat (p_paddr ph) mod 4096"
  let ?a = "unat (p_paddr ph)" and ?n = "unat (p_filesz ph)" and ?z = "unat (p_memsz ph)" and ?o = "unat (p_offset ph)"
  note ar = sg_arith [OF fit le, folded k_def]
  have k: "k \<le> ?a" "k < 4096" by (simp_all add: k_def)
  have nz: "?n \<le> ?z" using le by (simp add: word_le_nat_alt)
  have n0: "p_filesz ph = 0 \<longleftrightarrow> ?n = 0" by (simp add: unat_eq_zero)
  have f0: "sg_filesz ph = 0 \<longleftrightarrow> ?n = 0" using ar(3) n0 by (metis unat_eq_zero add_is_0)
  have F: "unat (sg_filesz ph) \<le> ?z + k" using ar(3) nz by simp
  have Z: "unat (sg_memsz ph - sg_filesz ph) = ?z + k - unat (sg_filesz ph)"
    using F ar(4) by (subst unat_sub_noborrow) (simp_all add: word_le_nat_alt)
  have A: "unat (sg_addr ph + ucast (sg_filesz ph)) = ?a - k + unat (sg_filesz ph)"
    using F ar(2) fit k by (subst unat_add_nowrap) simp_all
  have m2: "m2 = put_bytes m1 (?a - k + unat (sg_filesz ph)) (replicate (?z + k - unat (sg_filesz ph)) 0)"
    by (simp add: m2_def A Z)
  have enough: "?z + k \<le> 4096 * unat (pages_of (sg_memsz ph))" using pages_of_enough [of "sg_memsz ph"] ar(4) by simp
  have pb: "{?a - k..<?a + ?z} \<subseteq> page_bytes (sg_addr ph) (pages_of (sg_memsz ph))"
    using enough ar(2) k by (auto simp: page_bytes_def)
  have "seg_bytes ph \<subseteq> {?a - k..<?a + ?z}" by (auto simp: seg_bytes_def)
  then show "seg_bytes ph \<subseteq> page_bytes (sg_addr ph) (pages_of (sg_memsz ph))" using pb by (rule subset_trans)
  have "m2 i = m i" if "i \<notin> {?a - k..<?a + ?z}" for i
    using that rd F f0 ar(2) k nz by (auto simp: m2 m1_def put_bytes_def)
  then show "writes_in (page_bytes (sg_addr ph) (pages_of (sg_memsz ph))) m m2"
    using pb unfolding writes_in_def by blast
  have "get_bytes m2 ?a ?n = take ?n (drop ?o bs)"
  proof (cases "?n = 0")
    case False
    then have f: "sg_filesz ph \<noteq> 0" "unat (sg_filesz ph) = ?n + k" using f0 ar(3) n0 by simp_all
    note rd = rd [OF f(1)]
    have "length (take (?n + k) (drop (unat (sg_off ph)) bs)) = ?n + k" using rd f(2) by metis
    then have "unat (sg_off ph) + (?n + k) \<le> length bs" using False by simp
    then have o: "k \<le> ?o" using ar(6) small k(2) False by (cases "k \<le> ?o") simp_all
    have "get_bytes m2 ?a ?n = get_bytes m1 ?a ?n"
      unfolding m2 by (rule get_put_disjoint) (use f(2) k in simp)
    also have "\<dots> = take ?n (drop k bsr)"
    proof -
      have "m1 = put_bytes m (?a - k) bsr" using f(1) ar(2) by (simp add: m1_def)
      moreover have "?a + ?n \<le> ?a - k + length bsr" using rd [THEN conjunct2, unfolded f(2)] k by linarith
      moreover have "?a - (?a - k) = k" using k by simp
      ultimately show ?thesis using get_put_within [of "?a - k" ?a ?n bsr m] by simp
    qed
    also have "\<dots> = take ?n (drop ?o bs)"
      using rd f(2) ar(5) [OF o] o by (simp add: take_drop drop_take [symmetric] add.commute)
    finally show ?thesis .
  qed (simp add: get_bytes_def)
  moreover have "get_bytes m2 (?a + ?n) (?z - ?n) = replicate (?z - ?n) 0"
  proof (cases "?n = 0")
    case False
    then have "unat (sg_filesz ph) = ?n + k" using ar(3) n0 by simp
    then show ?thesis unfolding m2 using k nz by (subst get_put_within) (auto simp: take_replicate)
  next
    case True
    then have "unat (sg_filesz ph) = 0" using ar(3) n0 by simp
    then show ?thesis unfolding m2 using k nz True by (subst get_put_within) auto
  qed
  ultimately show "seg_loaded bs m2 ph" using nz by (simp add: seg_loaded_def Let_def)
qed


subsection \<open>The segments\<close>

lemma triple_any: "triple P m (\<lambda>_ _. True) (\<lambda>_ _. True)"
  by (simp add: triple_def split: prod.splits sum.splits)

text \<open>What follows cannot return normally.\<close>

lemma triple_fails: "(\<And>x. triple (\<lambda>_. True) (f x) Q (\<lambda>_ _. True)) \<Longrightarrow> triple P (andthen m f) Q (\<lambda>_ _. True)"
  by (rule triple_andthen [OF triple_any])

lemma triple_fail_True: "triple P (fail e) Q (\<lambda>_ _. True)"
  by (rule triple_fail) simp

lemma bad_elf_fails: "triple P (bad_elf sv prog vol) Q (\<lambda>_ _. True)"
  unfolding bad_elf_def by (rule triple_fails) (rule triple_fail_True)

lemma read_stage2_triple:
  assumes con: "file_contract sv content pos used"
    and Q: "\<And>s bs fw. P s \<Longrightarrow> used (ld_fw s) \<subseteq> used fw \<Longrightarrow> length bs = unat n \<Longrightarrow>
      bs = take (unat n) (drop (pos (ld_fw s) prog) (content prog)) \<Longrightarrow> Q bs (s\<lparr> ld_fw := fw \<rparr>)"
  shows "triple P (read_stage2 sv prog vol n) Q (\<lambda>_ _. True)"
proof -
  note none = triple_fails [OF triple_fail_True]
  show ?thesis
  proof (cases "n = 0")
    case True
    have "triple P (ret []) Q (\<lambda>_ _. True)"
    proof (rule triple_ret)
      fix s assume "P s"
      from Q [OF this order_refl, of "[]"] True show "Q [] s" by simp
    qed
    then show ?thesis using True by (simp add: read_stage2_def)
  next
    case False
    have "triple P (andthen (ask (FileRead sv prog n)) (\<lambda>(status, bs).
        if EFI_ERROR status then
          andthen (close_both sv prog vol) (\<lambda>_. fail (Error_with_status ''cannot read stage 2'' status))
        else if length bs \<noteq> unat n then
          andthen (close_both sv prog vol) (\<lambda>_. fail (Error_with_status ''short read from stage 2'' status))
        else ret bs)) Q (\<lambda>_ _. True)"
    proof (rule triple_andthen [where R = "\<lambda>(st, bs) s'. \<exists>s fw. s' = s\<lparr> ld_fw := fw \<rparr> \<and> P s \<and> used (ld_fw s) \<subseteq> used fw \<and>
        (\<not> EFI_ERROR st \<longrightarrow> bs = take (unat n) (drop (pos (ld_fw s) prog) (content prog)))"])
      show "triple P (ask (FileRead sv prog n)) (\<lambda>(st, bs) s'. \<exists>s fw. s' = s\<lparr> ld_fw := fw \<rparr> \<and> P s \<and>
          used (ld_fw s) \<subseteq> used fw \<and> (\<not> EFI_ERROR st \<longrightarrow> bs = take (unat n) (drop (pos (ld_fw s) prog) (content prog))))
        (\<lambda>_ _. True)"
      proof (rule triple_ask)
        fix s r fw assume "P s" and r: "FileRead sv prog n (ld_fw s) = (r, fw)"
        then show "(case r of (st, bs) \<Rightarrow> \<lambda>s'. \<exists>s fw. s' = s\<lparr> ld_fw := fw \<rparr> \<and> P s \<and> used (ld_fw s) \<subseteq> used fw \<and>
            (\<not> EFI_ERROR st \<longrightarrow> bs = take (unat n) (drop (pos (ld_fw s) prog) (content prog)))) (s\<lparr> ld_fw := fw \<rparr>)"
          using contract_read [OF con] by (cases r) blast
      qed
    qed (auto intro!: triple_if none triple_ret Q split: prod.splits)
    then show ?thesis using False by (simp add: read_stage2_def)
  qed
qed

lemma seek_stage2_triple:
  assumes con: "file_contract sv content pos used"
    and Q: "\<And>s fw. P s \<Longrightarrow> used (ld_fw s) \<subseteq> used fw \<Longrightarrow> pos fw prog = unat p \<Longrightarrow> Q () (s\<lparr> ld_fw := fw \<rparr>)"
  shows "triple P (seek_stage2 sv prog vol p) Q (\<lambda>_ _. True)"
proof -
  note none = triple_fails [OF triple_fail_True]
  show ?thesis
    unfolding seek_stage2_def
  proof (rule triple_andthen [where R = "\<lambda>st s'. \<exists>s fw. s' = s\<lparr> ld_fw := fw \<rparr> \<and> P s \<and> used (ld_fw s) \<subseteq> used fw \<and>
      (\<not> EFI_ERROR st \<longrightarrow> pos fw prog = unat p)"])
    show "triple P (ask (SetPosition sv prog p)) (\<lambda>st s'. \<exists>s fw. s' = s\<lparr> ld_fw := fw \<rparr> \<and> P s \<and>
        used (ld_fw s) \<subseteq> used fw \<and> (\<not> EFI_ERROR st \<longrightarrow> pos fw prog = unat p)) (\<lambda>_ _. True)"
      by (rule triple_ask) (use contract_seek [OF con] in blast)
  qed (auto intro!: triple_if none triple_ret Q)
qed


text \<open>Between the allocation of a segment's pages and the end of its round.\<close>

definition granted :: "('fw \<Rightarrow> nat set) \<Rightarrow> u8 list \<Rightarrow> 'fw ld_state \<Rightarrow> elf_phdr list \<Rightarrow> elf_phdr \<Rightarrow> mem \<Rightarrow> 'fw ld_state \<Rightarrow> bool" where
  "granted used bs s0 phs ph m s' \<longleftrightarrow> (\<exists>s fw. ld_mem s = m \<and> load_inv used bs s0 phs s \<and>
     page_bytes (sg_addr ph) (pages_of (sg_memsz ph)) \<inter> used (ld_fw s) = {} \<and>
     used (ld_fw s) \<union> page_bytes (sg_addr ph) (pages_of (sg_memsz ph)) \<subseteq> used fw \<and> used fw \<subseteq> used (ld_fw s'))"

lemma granted_mono: "granted used bs s0 phs ph m s \<Longrightarrow> used (ld_fw s) \<subseteq> used (ld_fw s') \<Longrightarrow> granted used bs s0 phs ph m s'"
  unfolding granted_def by (elim exE conjE, intro exI conjI) (assumption | erule order_trans)+

lemma load_segs_triple:
  assumes con: "file_contract sv content pos used" and small: "length (content prog) \<le> 2 ^ 32 - 4096"
  shows "\<forall>ph\<in>set rest. seg_fits ph \<Longrightarrow> triple (load_inv used (content prog) s0 phs)
    (load_segs sv prog vol phdrs ph_idx rest) (\<lambda>_. load_inv used (content prog) s0 (phs @ rest)) (\<lambda>_ _. True)"
proof (induction rest arbitrary: phs ph_idx)
  case Nil
  show ?case by (simp add: triple_ret)
next
  case (Cons ph rest)
  let ?bs = "content prog"
  note IH = Cons.IH [of "phs @ [ph]" "Suc ph_idx", unfolded append_assoc append_Cons append_Nil]
  have rest: "triple (load_inv used ?bs s0 (phs @ [ph])) (load_segs sv prog vol phdrs (Suc ph_idx) rest)
      (\<lambda>_. load_inv used ?bs s0 (phs @ ph # rest)) (\<lambda>_ _. True)"
    using IH Cons.prems by simp
  show ?case
  proof (cases "p_type ph = PT_LOAD")
    case False
    show ?thesis
      unfolding load_segs_Cons if_P [OF False]
      by (rule triple_pre [OF rest]) (use False in \<open>auto simp: load_inv_def\<close>)
  next
    case load: True
    then have fit: "unat (p_paddr ph) + unat (p_memsz ph) < 2 ^ 32" using Cons.prems by (simp add: seg_fits_def)
    show ?thesis
    proof (cases "p_filesz ph > p_memsz ph")
      case True
      then show ?thesis
        unfolding load_segs_Cons using load by (simp add: triple_fails bad_elf_fails)
    next
      case False
      then have le: "p_filesz ph \<le> p_memsz ph" by simp
      let ?fs = "sg_filesz ph" and ?ad = "sg_addr ph" and ?G = "granted used ?bs s0 phs ph"
      let ?mid = "\<lambda>_ s. \<exists>m bsr. ?G m s \<and> ld_mem s = (if ?fs \<noteq> 0 then put_bytes m (unat ?ad) bsr else m) \<and>
          (?fs \<noteq> 0 \<longrightarrow> bsr = take (unat ?fs) (drop (unat (sg_off ph)) ?bs) \<and> length bsr = unat ?fs)"
      have alloc: "triple (load_inv used ?bs s0 phs) (ask (AllocAt sv ?ad (pages_of (sg_memsz ph))))
          (\<lambda>st s. EFI_ERROR st \<or> ?G (ld_mem s) s) (\<lambda>_ _. True)"
      proof (rule triple_ask)
        fix s st fw assume i: "load_inv used ?bs s0 phs s" and a: "AllocAt sv ?ad (pages_of (sg_memsz ph)) (ld_fw s) = (st, fw)"
        have "?G (ld_mem s) (s\<lparr> ld_fw := fw \<rparr>)" if "\<not> EFI_ERROR st"
          unfolding granted_def using i contract_alloc [OF con a that] by fastforce
        then show "EFI_ERROR st \<or> ?G (ld_mem (s\<lparr> ld_fw := fw \<rparr>)) (s\<lparr> ld_fw := fw \<rparr>)" by auto
      qed
      have read: "triple (\<lambda>s. ?G (ld_mem s) s)
          (if ?fs \<noteq> 0 then andthen (seek_stage2 sv prog vol (ucast (sg_off ph))) (\<lambda>_.
             andthen (read_stage2 sv prog vol (ucast ?fs)) (\<lambda>bs. store ?ad bs)) else ret ()) ?mid (\<lambda>_ _. True)"
      proof (rule triple_if)
        assume nz: "?fs \<noteq> 0"
        show "triple (\<lambda>s. ?G (ld_mem s) s) (andthen (seek_stage2 sv prog vol (ucast (sg_off ph))) (\<lambda>_.
             andthen (read_stage2 sv prog vol (ucast ?fs)) (\<lambda>bs. store ?ad bs))) ?mid (\<lambda>_ _. True)"
        proof (rule triple_andthen [where R = "\<lambda>_ s. ?G (ld_mem s) s \<and> pos (ld_fw s) prog = unat (sg_off ph)"],
            rule seek_stage2_triple [OF con])
          fix s fw assume "?G (ld_mem s) s" "used (ld_fw s) \<subseteq> used fw" "pos fw prog = unat (ucast (sg_off ph) :: u64)"
          then show "?G (ld_mem (s\<lparr> ld_fw := fw \<rparr>)) (s\<lparr> ld_fw := fw \<rparr>) \<and> pos (ld_fw (s\<lparr> ld_fw := fw \<rparr>)) prog = unat (sg_off ph)"
            using granted_mono [of used ?bs s0 phs ph "ld_mem s" s "s\<lparr> ld_fw := fw \<rparr>"] by simp
        next
          fix u
          show "triple (\<lambda>s. ?G (ld_mem s) s \<and> pos (ld_fw s) prog = unat (sg_off ph))
              (andthen (read_stage2 sv prog vol (ucast ?fs)) (\<lambda>bs. store ?ad bs)) ?mid (\<lambda>_ _. True)"
          proof (rule triple_andthen [where R = "\<lambda>bsr s. ?G (ld_mem s) s \<and> length bsr = unat ?fs \<and>
                bsr = take (unat ?fs) (drop (unat (sg_off ph)) ?bs)"], rule read_stage2_triple [OF con])
            fix s bsr fw assume "?G (ld_mem s) s \<and> pos (ld_fw s) prog = unat (sg_off ph)" "used (ld_fw s) \<subseteq> used fw"
              "length bsr = unat (ucast ?fs :: u64)"
              "bsr = take (unat (ucast ?fs :: u64)) (drop (pos (ld_fw s) prog) ?bs)"
            then show "?G (ld_mem (s\<lparr> ld_fw := fw \<rparr>)) (s\<lparr> ld_fw := fw \<rparr>) \<and> length bsr = unat ?fs \<and>
                bsr = take (unat ?fs) (drop (unat (sg_off ph)) ?bs)"
              using granted_mono [of used ?bs s0 phs ph "ld_mem s" s "s\<lparr> ld_fw := fw \<rparr>"] by simp
          next
            fix bsr
            show "triple (\<lambda>s. ?G (ld_mem s) s \<and> length bsr = unat ?fs \<and> bsr = take (unat ?fs) (drop (unat (sg_off ph)) ?bs))
                (store ?ad bsr) ?mid (\<lambda>_ _. True)"
            proof (rule triple_store)
              fix s assume s: "?G (ld_mem s) s \<and> length bsr = unat ?fs \<and> bsr = take (unat ?fs) (drop (unat (sg_off ph)) ?bs)"
              let ?s = "s\<lparr> ld_mem := put_bytes (ld_mem s) (unat ?ad) bsr \<rparr>"
              have "?G (ld_mem s) ?s" using s granted_mono [of used ?bs s0 phs ph "ld_mem s" s ?s] by simp
              moreover have "ld_mem ?s = (if ?fs \<noteq> 0 then put_bytes (ld_mem s) (unat ?ad) bsr else ld_mem s)" using nz by simp
              ultimately show "?mid () ?s" using s by blast
            qed
          qed
        qed
      next
        assume z: "\<not> ?fs \<noteq> 0"
        show "triple (\<lambda>s. ?G (ld_mem s) s) (ret ()) ?mid (\<lambda>_ _. True)"
          by (rule triple_ret) (use z in auto)
      qed
      have zero: "triple (?mid ()) (store (?ad + ucast ?fs) (replicate (unat (sg_memsz ph - ?fs)) 0))
          (\<lambda>_. load_inv used ?bs s0 (phs @ [ph])) (\<lambda>_ _. True)"
      proof (rule triple_store)
        fix s assume "?mid () s"
        then obtain m bsr where g: "?G m s" and m1: "ld_mem s = (if ?fs \<noteq> 0 then put_bytes m (unat ?ad) bsr else m)"
          and rd: "?fs \<noteq> 0 \<Longrightarrow> bsr = take (unat ?fs) (drop (unat (sg_off ph)) ?bs) \<and> length bsr = unat ?fs" by blast
        obtain s1 fw where s1: "ld_mem s1 = m" "load_inv used ?bs s0 phs s1"
          "page_bytes ?ad (pages_of (sg_memsz ph)) \<inter> used (ld_fw s1) = {}"
          "used (ld_fw s1) \<union> page_bytes ?ad (pages_of (sg_memsz ph)) \<subseteq> used fw" "used fw \<subseteq> used (ld_fw s)"
          using g unfolding granted_def by blast
        note w = seg_written(1,2) [where m = m, OF fit le rd small] seg_written(3) [OF fit le rd small]
        show "load_inv used ?bs s0 (phs @ [ph]) (s\<lparr> ld_mem := put_bytes (ld_mem s) (unat (?ad + ucast ?fs))
            (replicate (unat (sg_memsz ph - ?fs)) 0) \<rparr>)"
          unfolding m1 by (rule load_inv_new [OF s1(2-4) _ w(1) w(3) refl]) (use w(2) s1 in simp_all)
      qed
      show ?thesis
        unfolding load_segs_Cons if_not_P [OF \<open>\<not> p_filesz ph > p_memsz ph\<close>]
      proof (rule triple_if)
        show "triple (load_inv used ?bs s0 phs)
          (andthen (ask (AllocAt sv ?ad (pages_of (sg_memsz ph)))) (\<lambda>status.
            if EFI_ERROR status then andthen (free_stage2_mem sv phdrs ph_idx)
              (\<lambda>_. fail (Error_with_status ''cannot get mem. for ELF seg.'' status))
            else andthen (if ?fs \<noteq> 0 then andthen (seek_stage2 sv prog vol (ucast (sg_off ph))) (\<lambda>_.
                  andthen (read_stage2 sv prog vol (ucast ?fs)) (\<lambda>bs. store ?ad bs)) else ret ()) (\<lambda>_.
              andthen (store (?ad + ucast ?fs) (replicate (unat (sg_memsz ph - ?fs)) 0)) (\<lambda>_.
              load_segs sv prog vol phdrs (Suc ph_idx) rest))))
          (\<lambda>_. load_inv used ?bs s0 (phs @ ph # rest)) (\<lambda>_ _. True)"
          by (rule triple_andthen [OF alloc], rule triple_if, rule triple_fails, rule triple_fail_True,
              rule triple_andthen [OF triple_pre [OF read]], blast, rule triple_andthen [OF zero rest])
      qed (use load in simp)
    qed
  qed
qed


subsection \<open>The whole file\<close>

definition prog_ehdr :: "u8 list \<Rightarrow> elf_ehdr" where
  "prog_ehdr bs = rd_ehdr (take 52 bs)"

definition prog_phdrs :: "u8 list \<Rightarrow> elf_phdr list" where
  "prog_phdrs bs = rd_phdrs (drop (unat (e_phoff (prog_ehdr bs))) bs) (unat (e_phnum (prog_ehdr bs)))"

text \<open>A file that is opened is smaller than 4 GiB, and its loadable segments lie below 4 GiB.\<close>

definition files_fit :: "('fw, 'fs, 'file) file_services \<Rightarrow> ('file \<Rightarrow> u8 list) \<Rightarrow> bool" where
  "files_fit sv content \<longleftrightarrow> (\<forall>vol name fw st f fw'. FileOpen sv vol name fw = ((st, f), fw') \<longrightarrow> \<not> EFI_ERROR st \<longrightarrow>
     length (content f) \<le> 2 ^ 32 - 4096 \<and> (\<forall>ph\<in>set (prog_phdrs (content f)). seg_fits ph))"

lemma rd_phdrs_take: "rd_phdrs (take (32 * n) bs) n = rd_phdrs bs n"
proof -
  have "take 32 (drop (32 * i) (take (32 * n) bs)) = take 32 (drop (32 * i) bs)" if "i < n" for i
    using that by (simp add: drop_take)
  then show ?thesis by (simp add: rd_phdrs_def)
qed

definition in_memory :: "('fw \<Rightarrow> nat set) \<Rightarrow> u8 list \<Rightarrow> 'fw ld_state \<Rightarrow> u32 \<Rightarrow> 'fw ld_state \<Rightarrow> bool" where
  "in_memory used bs s0 entry s \<longleftrightarrow> ehdr_ok (prog_ehdr bs) \<and> entry = e_entry (prog_ehdr bs) \<and>
     (\<forall>ph\<in>set (prog_phdrs bs). p_type ph = PT_LOAD \<longrightarrow> seg_loaded bs (ld_mem s) ph) \<and>
     (\<forall>i\<in>used (ld_fw s0). ld_mem s i = ld_mem s0 i)"

lemma load_prog_triple:
  assumes con: "file_contract sv content pos used" and small: "length (content prog) \<le> 2 ^ 32 - 4096"
    and fits: "\<forall>ph\<in>set (prog_phdrs (content prog)). seg_fits ph"
  shows "triple (\<lambda>s. load_inv used (content prog) s0 [] s \<and> pos (ld_fw s) prog = 0) (load_prog sv prog vol)
    (\<lambda>entry s. in_memory used (content prog) s0 entry s) (\<lambda>_ _. True)"
proof -
  let ?bs = "content prog" and ?I = "load_inv used (content prog) s0"
  let ?eh = "prog_ehdr ?bs" and ?ph = "prog_phdrs ?bs"
  have mono: "?I phs (s\<lparr> ld_fw := fw \<rparr>)" if "?I phs s" "used (ld_fw s) \<subseteq> used fw" for phs s fw
    by (rule load_inv_mono [OF that])
  have info: "triple (\<lambda>s. ?I [] s \<and> pos (ld_fw s) prog = 0) (dump_stage2_info sv prog)
      (\<lambda>_ s. ?I [] s \<and> pos (ld_fw s) prog = 0) (\<lambda>_ _. True)"
    unfolding dump_stage2_info_def
  proof (rule triple_andthen [where R = "\<lambda>_ s. ?I [] s \<and> pos (ld_fw s) prog = 0"])
    show "triple (\<lambda>s. ?I [] s \<and> pos (ld_fw s) prog = 0) (ask (FileInfo sv prog))
        (\<lambda>_ s. ?I [] s \<and> pos (ld_fw s) prog = 0) (\<lambda>_ _. True)"
      by (rule triple_ask) (use mono contract_services(4) [OF con] in fastforce)
  qed (auto intro!: triple_if triple_ret triple_fail_True)
  have ehdr: "triple (\<lambda>s. ?I [] s \<and> pos (ld_fw s) prog = 0) (read_stage2 sv prog vol sizeof_ehdr)
      (\<lambda>bs s. rd_ehdr bs = ?eh \<and> ?I [] s) (\<lambda>_ _. True)"
    by (rule read_stage2_triple [OF con]) (auto simp: sizeof_ehdr_def prog_ehdr_def intro: mono)
  have seek: "triple (?I []) (seek_stage2 sv prog vol (ucast (e_phoff ?eh)))
      (\<lambda>_ s. ?I [] s \<and> pos (ld_fw s) prog = unat (e_phoff ?eh)) (\<lambda>_ _. True)"
    by (rule seek_stage2_triple [OF con]) (auto intro: mono)
  let ?n = "unat (e_phnum ?eh)"
  have "?n < 65536" using unat_lt [of "e_phnum ?eh"] by simp
  then have n: "unat (of_nat ?n * sizeof_phdr) = 32 * ?n"
    by (simp add: sizeof_phdr_def unat_word_ariths unat_ucast_up)
  have phdrs: "triple (\<lambda>s. ?I [] s \<and> pos (ld_fw s) prog = unat (e_phoff ?eh))
      (read_stage2 sv prog vol (of_nat ?n * sizeof_phdr)) (\<lambda>bs s. rd_phdrs bs ?n = ?ph \<and> ?I [] s) (\<lambda>_ _. True)"
    by (rule read_stage2_triple [OF con], unfold n) (auto simp: prog_phdrs_def rd_phdrs_take intro: mono)
  have close: "triple (?I ?ph) (close_both sv prog vol) (\<lambda>_. ?I ?ph) (\<lambda>_ _. True)"
    unfolding close_both_def
    by (rule triple_andthen [where R = "\<lambda>_. ?I ?ph"]; rule triple_tell; rule mono; (rule contract_services(5) [OF con])?)
  show ?thesis
    unfolding load_prog_def Let_def
  proof (rule triple_andthen [OF info], rule triple_andthen [OF ehdr], rule triple_fact)
    fix u bs assume eh: "rd_ehdr bs = ?eh"
    show "triple (?I []) (if \<not> ehdr_ok (rd_ehdr bs) then bad_elf sv prog vol
        else andthen (seek_stage2 sv prog vol (ucast (e_phoff (rd_ehdr bs)))) (\<lambda>_.
          andthen (read_stage2 sv prog vol (of_nat (unat (e_phnum (rd_ehdr bs))) * sizeof_phdr)) (\<lambda>bsa.
          andthen (load_segs sv prog vol (rd_phdrs bsa (unat (e_phnum (rd_ehdr bs)))) 0 (rd_phdrs bsa (unat (e_phnum (rd_ehdr bs))))) (\<lambda>_.
          andthen (close_both sv prog vol) (\<lambda>_. ret (e_entry (rd_ehdr bs)))))))
        (\<lambda>entry. in_memory used ?bs s0 entry) (\<lambda>_ _. True)"
      unfolding eh
    proof (rule triple_if, rule bad_elf_fails, rule triple_andthen [OF seek], rule triple_andthen [OF phdrs], rule triple_fact)
      fix u bsa assume ok: "\<not> \<not> ehdr_ok ?eh" and ph: "rd_phdrs bsa ?n = ?ph"
      show "triple (?I []) (andthen (load_segs sv prog vol (rd_phdrs bsa ?n) 0 (rd_phdrs bsa ?n)) (\<lambda>_.
          andthen (close_both sv prog vol) (\<lambda>_. ret (e_entry ?eh)))) (\<lambda>entry. in_memory used ?bs s0 entry) (\<lambda>_ _. True)"
        unfolding ph
      proof (rule triple_andthen [OF load_segs_triple [OF con small fits, of s0 "[]"]], unfold append_Nil,
          rule triple_andthen [OF close], rule triple_ret)
        fix s assume "?I ?ph s"
        then show "in_memory used ?bs s0 (e_entry ?eh) s" using ok by (auto simp: in_memory_def load_inv_def)
      qed
    qed
  qed
qed

end
