(* ===== verification/Romdump.thy ===== *)
theory Romdump
  imports Elf_Correct
begin

text \<open>
  The ROM dumper, \<^verbatim>\<open>romdumper.c\<close>: a UEFI program of its own that writes the option ROMs of the
  PCI devices, the option ROM area below 1 MiB and the firmware volume area below 4 GiB to files
  on the medium it was started from. The firmware is a parameter, as are the file names that its
  formatting function makes; memory is the byte memory of the prelude, which the program copies
  through a buffer of its own. Console output is left out.
\<close>

subsection \<open>The firmware\<close>

text \<open>
  \<open>DWrite\<close> gives the status and the number of bytes written. \<open>IoRomSize\<close> and \<open>IoRomImage\<close> are
  members of the PCI interface. \<open>PciName\<close> and \<open>FvName\<close> format a file name.
\<close>

record ('fw, 'dev, 'fs, 'file, 'handle, 'io) dump_services =
  GetImageDevice :: "'fw \<Rightarrow> (u64 \<times> 'dev) \<times> 'fw"
  DGetFs :: "'dev \<Rightarrow> 'fw \<Rightarrow> (u64 \<times> 'fs) \<times> 'fw"
  DOpenVolume :: "'fs \<Rightarrow> 'fw \<Rightarrow> (u64 \<times> 'file) \<times> 'fw"
  DOpen :: "'file \<Rightarrow> string \<Rightarrow> u64 \<Rightarrow> 'fw \<Rightarrow> (u64 \<times> 'file) \<times> 'fw"
  DDelete :: "'file \<Rightarrow> 'fw \<Rightarrow> u64 \<times> 'fw"
  DWrite :: "'file \<Rightarrow> u8 list \<Rightarrow> 'fw \<Rightarrow> (u64 \<times> u64) \<times> 'fw"
  DClose :: "'file \<Rightarrow> 'fw \<Rightarrow> 'fw"
  LocatePciIo :: "'fw \<Rightarrow> (u64 \<times> 'handle list) \<times> 'fw"
  GetPciIo :: "'handle \<Rightarrow> 'fw \<Rightarrow> (u64 \<times> 'io) \<times> 'fw"
  GetLocation :: "'io \<Rightarrow> 'fw \<Rightarrow> (u64 \<times> u64 \<times> u64 \<times> u64 \<times> u64) \<times> 'fw"
  ReadId :: "'io \<Rightarrow> 'fw \<Rightarrow> (u64 \<times> u32) \<times> 'fw"
  IoRomSize :: "'io \<Rightarrow> u64"
  IoRomImage :: "'io \<Rightarrow> u64"
  PciName :: "u64 \<Rightarrow> u64 \<Rightarrow> u64 \<Rightarrow> u64 \<Rightarrow> u32 \<Rightarrow> u32 \<Rightarrow> string"
  FvName :: "u64 \<Rightarrow> string"

text \<open>File modes, with the values of the UEFI specification.\<close>

definition EFI_FILE_MODE_READ :: u64 where "EFI_FILE_MODE_READ = 0x1"
definition EFI_FILE_MODE_WRITE :: u64 where "EFI_FILE_MODE_WRITE = 0x2"
definition EFI_FILE_MODE_CREATE :: u64 where "EFI_FILE_MODE_CREATE = 0x8000000000000000"

definition peek :: "u64 \<Rightarrow> u64 \<Rightarrow> ('fw ld_state, u8 list) act" where
  "peek a sz = (\<lambda>s. (Inr (get_bytes (ld_mem s) (unat a) (unat sz)), s))"

subsection \<open>One file\<close>

definition find_boot_media ::
  "('fw, 'dev, 'fs, 'file, 'handle, 'io) dump_services \<Rightarrow> ('fw ld_state, 'dev) act" where
  "find_boot_media sv =
     andthen (ask (GetImageDevice sv)) (\<lambda>(status, dev).
       if EFI_ERROR status then fail (Error_with_status ''cannot get EFI_LOADED_IMAGE_PROTOCOL'' status)
       else ret dev)"

definition close_dump ::
  "('fw, 'dev, 'fs, 'file, 'handle, 'io) dump_services \<Rightarrow> 'file \<Rightarrow> 'file \<Rightarrow> ('fw ld_state, unit) act" where
  "close_dump sv out vol = andthen (tell (DClose sv out)) (\<lambda>_. tell (DClose sv vol))"

definition write_dump ::
  "('fw, 'dev, 'fs, 'file, 'handle, 'io) dump_services \<Rightarrow> 'file \<Rightarrow> 'file \<Rightarrow> u64 \<Rightarrow> u64 \<Rightarrow> ('fw ld_state, unit) act" where
  "write_dump sv out vol sz buf =
     andthen (peek buf sz) (\<lambda>bs. andthen (ask (DWrite sv out bs)) (\<lambda>(status, write_sz).
       if EFI_ERROR status then
         andthen (close_dump sv out vol) (\<lambda>_. fail (Error_with_status ''cannot write dump file'' status))
       else if write_sz \<noteq> sz then
         andthen (close_dump sv out vol) (\<lambda>_. fail (Error ''short write to dump file''))
       else ret ()))"

definition create_dump ::
  "('fw, 'dev, 'fs, 'file, 'handle, 'io) dump_services \<Rightarrow> 'file \<Rightarrow> string \<Rightarrow> u64 \<Rightarrow> u64 \<Rightarrow> ('fw ld_state, unit) act" where
  "create_dump sv vol name sz buf =
     andthen (ask (DOpen sv vol name (EFI_FILE_MODE_READ OR EFI_FILE_MODE_WRITE OR EFI_FILE_MODE_CREATE))) (\<lambda>(status, out).
       if EFI_ERROR status then
         andthen (tell (DClose sv vol)) (\<lambda>_. fail (Error_with_status ''cannot create dump file'' status))
       else
         andthen (write_dump sv out vol sz buf) (\<lambda>_. close_dump sv out vol))"

definition remove_old ::
  "('fw, 'dev, 'fs, 'file, 'handle, 'io) dump_services \<Rightarrow> 'file \<Rightarrow> string \<Rightarrow> ('fw ld_state, unit) act" where
  "remove_old sv vol name =
     andthen (ask (DOpen sv vol name EFI_FILE_MODE_READ)) (\<lambda>(status, out).
       if \<not> EFI_ERROR status then
         andthen (ask (DDelete sv out)) (\<lambda>status.
           if EFI_ERROR status then
             fail (Error_with_status ''cannot delete pre-existing dump file'' status)
           else ret ())
       else ret ())"

definition dump_rom ::
  "('fw, 'dev, 'fs, 'file, 'handle, 'io) dump_services \<Rightarrow> 'dev \<Rightarrow> string \<Rightarrow> u64 \<Rightarrow> u64 \<Rightarrow> ('fw ld_state, unit) act" where
  "dump_rom sv dev name sz buf =
     andthen (ask (DGetFs sv dev)) (\<lambda>(status, fs).
       if EFI_ERROR status then fail (Error_with_status ''cannot get EFI_SIMPLE_FILE_SYSTEM_PROTOCOL'' status)
       else andthen (ask (DOpenVolume sv fs)) (\<lambda>(status, vol).
         if EFI_ERROR status then fail (Error_with_status ''cannot get EFI_FILE_PROTOCOL'' status)
         else andthen (remove_old sv vol name) (\<lambda>_. create_dump sv vol name sz buf)))"

subsection \<open>The three kinds of ROM\<close>

text \<open>The result says whether the device has an option ROM.\<close>

definition process_one_pci_io ::
  "('fw, 'dev, 'fs, 'file, 'handle, 'io) dump_services \<Rightarrow> 'dev \<Rightarrow> 'io \<Rightarrow> ('fw ld_state, bool) act" where
  "process_one_pci_io sv dev io =
     (if IoRomSize sv io = 0 then ret False
      else andthen (ask (GetLocation sv io)) (\<lambda>(status, loc).
        if EFI_ERROR status then fail (Error_with_status ''cannot get PCI ctrlr. locn.'' status)
        else case loc of (seg, bus, device, fn) \<Rightarrow> andthen (ask (ReadId sv io)) (\<lambda>(status, pci_id).
          if EFI_ERROR status then fail (Error_with_status ''cannot read PCI conf. sp.'' status)
          else andthen (dump_rom sv dev (PciName sv seg bus device fn (pci_id AND 0xffff) (drop_bit 16 pci_id))
              (IoRomSize sv io) (IoRomImage sv io)) (\<lambda>_. ret True))))"

fun dump_handles ::
  "('fw, 'dev, 'fs, 'file, 'handle, 'io) dump_services \<Rightarrow> 'dev \<Rightarrow> 'handle list \<Rightarrow> bool \<Rightarrow> ('fw ld_state, bool) act" where
  "dump_handles sv dev [] got_rom = ret got_rom"
| "dump_handles sv dev (handle # handles) got_rom =
     andthen (ask (GetPciIo sv handle)) (\<lambda>(status, io).
       if EFI_ERROR status then fail (Error_with_status ''cannot get EFI_PCI_IO_PROTOCOL'' status)
       else andthen (process_one_pci_io sv dev io) (\<lambda>got. dump_handles sv dev handles (got_rom \<or> got)))"

text \<open>The result tells whether the message that there was nothing to dump is left out.\<close>

definition dump_pci_roms ::
  "('fw, 'dev, 'fs, 'file, 'handle, 'io) dump_services \<Rightarrow> 'dev \<Rightarrow> ('fw ld_state, bool) act" where
  "dump_pci_roms sv dev =
     andthen (ask (LocatePciIo sv)) (\<lambda>(status, handles).
       if EFI_ERROR status then fail (Error_with_status ''no PCI devices found'' status)
       else dump_handles sv dev handles False)"

definition OPT_ROM_OUT :: string where "OPT_ROM_OUT = ''0x000C0000.dump''"

definition dump_opt_rom_area ::
  "('fw, 'dev, 'fs, 'file, 'handle, 'io) dump_services \<Rightarrow> 'dev \<Rightarrow> ('fw ld_state, unit) act" where
  "dump_opt_rom_area sv dev =
     (let start = 0xc0000; stop = 0x100000 in dump_rom sv dev OPT_ROM_OUT (stop - start) start)"

definition CHUNK :: u64 where "CHUNK = 0x10000"

text \<open>The loop, from \<open>start\<close> on; \<open>buf\<close> is the address of the static buffer.\<close>

function dump_chunks ::
  "('fw, 'dev, 'fs, 'file, 'handle, 'io) dump_services \<Rightarrow> 'dev \<Rightarrow> u64 \<Rightarrow> u64 \<Rightarrow> ('fw ld_state, unit) act" where
  "dump_chunks sv dev buf start =
     (if start < 0x100000000 then
        andthen (peek start CHUNK) (\<lambda>bs. andthen (store buf bs) (\<lambda>_.
          andthen (dump_rom sv dev (FvName sv start) CHUNK buf) (\<lambda>_. dump_chunks sv dev buf (start + CHUNK))))
      else ret ())"
  by pat_completeness auto
termination
proof (relation "measure (\<lambda>(sv, dev, buf, start). 2 ^ 32 - unat start)")
  fix start :: u64
  assume lt: "start < 0x100000000"
  then have "unat start < 2 ^ 32" by (simp add: word_less_nat_alt)
  moreover from this have "unat (start + CHUNK) = unat start + 0x10000"
    by (simp add: CHUNK_def unat_word_ariths)
  ultimately show "((sv, dev, buf, start + CHUNK), (sv, dev, buf, start)) \<in> measure (\<lambda>(sv, dev, buf, start). 2 ^ 32 - unat start)"
    for sv :: "('fw, 'dev, 'fs, 'file, 'handle, 'io) dump_services" and dev buf by simp
qed simp

declare dump_chunks.simps [simp del]

definition dump_fv_area ::
  "('fw, 'dev, 'fs, 'file, 'handle, 'io) dump_services \<Rightarrow> 'dev \<Rightarrow> u64 \<Rightarrow> ('fw ld_state, unit) act" where
  "dump_fv_area sv dev buf = dump_chunks sv dev buf 0xff800000"

definition romdumper_main ::
  "('fw, 'dev, 'fs, 'file, 'handle, 'io) dump_services \<Rightarrow> u64 \<Rightarrow> ('fw ld_state, unit) act" where
  "romdumper_main sv buf =
     andthen (find_boot_media sv) (\<lambda>dev.
       andthen (dump_pci_roms sv dev) (\<lambda>_.
         andthen (dump_opt_rom_area sv dev) (\<lambda>_. dump_fv_area sv dev buf)))"

subsection \<open>What the program relies on\<close>

text \<open>
  What there is to see of the firmware: the files of the medium, what an open file stands for and
  where in it, the handles that are open, and the PCI devices.
\<close>

record ('fw, 'file, 'handle, 'io) dump_view =
  dv_files :: "'fw \<Rightarrow> string \<Rightarrow> u8 list option"
  dv_cursor :: "'fw \<Rightarrow> 'file \<Rightarrow> (string \<times> nat) option"
  dv_opens :: "'fw \<Rightarrow> 'file multiset"
  dv_handles :: "'handle list"
  dv_io :: "'handle \<Rightarrow> 'io"
  dv_loc :: "'io \<Rightarrow> u64 \<times> u64 \<times> u64 \<times> u64"
  dv_id :: "'io \<Rightarrow> u32"

definition untouched :: "('fw, 'file, 'handle, 'io) dump_view \<Rightarrow> 'fw \<Rightarrow> 'fw \<Rightarrow> bool" where
  "untouched v fw fw' \<longleftrightarrow> dv_files v fw' = dv_files v fw \<and> dv_opens v fw' = dv_opens v fw"

text \<open>
  The UEFI specification on these services. A write that fails may have changed the file; deleting
  closes the handle in any case, and may leave the file there with only a warning.
\<close>

definition overwrite :: "nat \<Rightarrow> u8 list \<Rightarrow> u8 list \<Rightarrow> u8 list" where
  "overwrite p bs old = take p old @ bs @ drop (p + length bs) old"

definition dump_contract ::
  "('fw, 'dev, 'fs, 'file, 'handle, 'io) dump_services \<Rightarrow> ('fw, 'file, 'handle, 'io) dump_view \<Rightarrow> bool" where
  "dump_contract sv v \<longleftrightarrow>
     (\<forall>fw r fw'. GetImageDevice sv fw = (r, fw') \<longrightarrow> untouched v fw fw') \<and>
     (\<forall>dev fw r fw'. DGetFs sv dev fw = (r, fw') \<longrightarrow> untouched v fw fw') \<and>
     (\<forall>fs fw st vol fw'. DOpenVolume sv fs fw = ((st, vol), fw') \<longrightarrow>
        dv_files v fw' = dv_files v fw \<and>
        dv_opens v fw' = (if EFI_ERROR st then dv_opens v fw else add_mset vol (dv_opens v fw))) \<and>
     (\<forall>vol name fw st f fw'. DOpen sv vol name EFI_FILE_MODE_READ fw = ((st, f), fw') \<longrightarrow>
        dv_files v fw' = dv_files v fw \<and>
        (if EFI_ERROR st then dv_opens v fw' = dv_opens v fw
         else dv_opens v fw' = add_mset f (dv_opens v fw) \<and> dv_cursor v fw' f = Some (name, 0))) \<and>
     (\<forall>vol name fw st f fw'.
        DOpen sv vol name (EFI_FILE_MODE_READ OR EFI_FILE_MODE_WRITE OR EFI_FILE_MODE_CREATE) fw = ((st, f), fw') \<longrightarrow>
        (if EFI_ERROR st then untouched v fw fw'
         else dv_opens v fw' = add_mset f (dv_opens v fw) \<and> dv_cursor v fw' f = Some (name, 0) \<and>
           dv_files v fw' = (dv_files v fw)(name \<mapsto> case dv_files v fw name of None \<Rightarrow> [] | Some bs \<Rightarrow> bs))) \<and>
     (\<forall>f fw st fw' name p. DDelete sv f fw = (st, fw') \<longrightarrow> dv_cursor v fw f = Some (name, p) \<longrightarrow>
        dv_opens v fw' = dv_opens v fw - {#f#} \<and>
        (dv_files v fw' = (dv_files v fw)(name := None) \<or> st \<noteq> 0 \<and> dv_files v fw' = dv_files v fw)) \<and>
     (\<forall>f bs fw st n fw' name p old. DWrite sv f bs fw = ((st, n), fw') \<longrightarrow>
        dv_cursor v fw f = Some (name, p) \<longrightarrow> dv_files v fw name = Some old \<longrightarrow>
        dv_opens v fw' = dv_opens v fw \<and>
        (\<exists>new. dv_files v fw' = (dv_files v fw)(name \<mapsto> new) \<and>
           (\<not> EFI_ERROR st \<longrightarrow> unat n \<le> length bs \<and> new = overwrite p (take (unat n) bs) old))) \<and>
     (\<forall>f fw. dv_files v (DClose sv f fw) = dv_files v fw \<and> dv_opens v (DClose sv f fw) = dv_opens v fw - {#f#}) \<and>
     (\<forall>fw st hs fw'. LocatePciIo sv fw = ((st, hs), fw') \<longrightarrow>
        untouched v fw fw' \<and> (\<not> EFI_ERROR st \<longrightarrow> hs = dv_handles v)) \<and>
     (\<forall>h fw st io fw'. GetPciIo sv h fw = ((st, io), fw') \<longrightarrow>
        untouched v fw fw' \<and> (\<not> EFI_ERROR st \<longrightarrow> io = dv_io v h)) \<and>
     (\<forall>io fw st l fw'. GetLocation sv io fw = ((st, l), fw') \<longrightarrow>
        untouched v fw fw' \<and> (\<not> EFI_ERROR st \<longrightarrow> l = dv_loc v io)) \<and>
     (\<forall>io fw st x fw'. ReadId sv io fw = ((st, x), fw') \<longrightarrow>
        untouched v fw fw' \<and> (\<not> EFI_ERROR st \<longrightarrow> x = dv_id v io))"

subsection \<open>What the program should write\<close>

text \<open>
  A dump with a name puts its bytes at the start of the file with this name; if the file was longer
  and could not be removed, the rest of the old contents stays behind them.
\<close>

type_synonym file_map = "string \<Rightarrow> u8 list option"

definition dumped :: "file_map \<Rightarrow> string \<Rightarrow> u8 list \<Rightarrow> file_map \<Rightarrow> bool" where
  "dumped F name d F' \<longleftrightarrow> (\<exists>old. (old = [] \<or> F name = Some old) \<and> F' = F(name \<mapsto> d @ drop (length d) old))"

fun dumped_all :: "file_map \<Rightarrow> (string \<times> u8 list) list \<Rightarrow> file_map \<Rightarrow> bool" where
  "dumped_all F [] F' = (F' = F)"
| "dumped_all F ((name, d) # ds) F' = (\<exists>G. dumped F name d G \<and> dumped_all G ds F')"

definition pci_dump ::
  "('fw, 'dev, 'fs, 'file, 'handle, 'io) dump_services \<Rightarrow> ('fw, 'file, 'handle, 'io) dump_view \<Rightarrow> mem \<Rightarrow> 'io \<Rightarrow> string \<times> u8 list" where
  "pci_dump sv v m io = (case dv_loc v io of (seg, bus, device, fn) \<Rightarrow>
     (PciName sv seg bus device fn (dv_id v io AND 0xffff) (drop_bit 16 (dv_id v io)),
      get_bytes m (unat (IoRomImage sv io)) (unat (IoRomSize sv io))))"

definition pci_dumps ::
  "('fw, 'dev, 'fs, 'file, 'handle, 'io) dump_services \<Rightarrow> ('fw, 'file, 'handle, 'io) dump_view \<Rightarrow> mem \<Rightarrow> 'handle list \<Rightarrow> (string \<times> u8 list) list" where
  "pci_dumps sv v m hs = map (pci_dump sv v m) (filter (\<lambda>io. IoRomSize sv io \<noteq> 0) (map (dv_io v) hs))"

definition fv_dump ::
  "('fw, 'dev, 'fs, 'file, 'handle, 'io) dump_services \<Rightarrow> mem \<Rightarrow> nat \<Rightarrow> string \<times> u8 list" where
  "fv_dump sv m k = (FvName sv (0xff800000 + of_nat k * 0x10000), get_bytes m (0xff800000 + k * 0x10000) 0x10000)"

definition all_dumps ::
  "('fw, 'dev, 'fs, 'file, 'handle, 'io) dump_services \<Rightarrow> ('fw, 'file, 'handle, 'io) dump_view \<Rightarrow> mem \<Rightarrow> (string \<times> u8 list) list" where
  "all_dumps sv v m = pci_dumps sv v m (dv_handles v) @ [(OPT_ROM_OUT, get_bytes m 0xc0000 0x40000)] @
     map (fv_dump sv m) [0..<128]"

lemma dumped_all_snoc:
  "dumped_all F (ds @ [(name, d)]) F' \<longleftrightarrow> (\<exists>G. dumped_all F ds G \<and> dumped G name d F')"
proof (induction ds arbitrary: F)
  case (Cons x ds)
  then show ?case by (cases x) auto
qed simp

lemma dumped_other: "dumped F name d F' \<Longrightarrow> n \<noteq> name \<Longrightarrow> F' n = F n"
  by (auto simp: dumped_def)

lemma dumped_all_other: "dumped_all F ds F' \<Longrightarrow> n \<notin> fst ` set ds \<Longrightarrow> F' n = F n"
proof (induction ds arbitrary: F)
  case (Cons x ds)
  then show ?case by (cases x) (auto simp: dumped_other)
qed simp

lemma dumped_all_has:
  "dumped_all F ds F' \<Longrightarrow> distinct (map fst ds) \<Longrightarrow> (name, d) \<in> set ds \<Longrightarrow>
     \<exists>old. (old = [] \<or> F name = Some old) \<and> F' name = Some (d @ drop (length d) old)"
proof (induction ds arbitrary: F)
  case (Cons x ds)
  obtain n e where x: "x = (n, e)" by (cases x)
  then obtain G where G: "dumped F n e G" "dumped_all G ds F'" using Cons.prems(1) by auto
  show ?case
  proof (cases "(name, d) \<in> set ds")
    case True
    moreover from this have "name \<noteq> n" using Cons.prems(2) x by force
    ultimately show ?thesis using Cons.IH [OF G(2)] Cons.prems(2) dumped_other [OF G(1)] by auto
  next
    case False
    then have "name = n" "d = e" using Cons.prems(3) x by auto
    moreover have "F' n = G n" using dumped_all_other [OF G(2)] Cons.prems(2) x by simp
    ultimately show ?thesis using G(1) by (auto simp: dumped_def)
  qed
qed simp

subsection \<open>One dump\<close>

lemma triple_peek: "(\<And>s. P s \<Longrightarrow> Q (get_bytes (ld_mem s) (unat a) (unat sz)) s) \<Longrightarrow> triple P (peek a sz) Q E"
  by (simp add: triple_def peek_def)

text \<open>A service with a status: what holds when it fails, and what holds of the result when it does not.\<close>

lemma triple_service:
  assumes ask: "\<And>s st x fw. P s \<Longrightarrow> f (ld_fw s) = ((st, x), fw) \<Longrightarrow>
      if EFI_ERROR st then B (s\<lparr> ld_fw := fw \<rparr>) else R x (s\<lparr> ld_fw := fw \<rparr>)"
    and bad: "\<And>st x. triple B (bad st x) Q E" and good: "\<And>st x. triple (R x) (g st x) Q E"
  shows "triple P (andthen (ask f) (\<lambda>(st, x). if EFI_ERROR st then bad st x else g st x)) Q E"
proof (rule triple_andthen)
  show "triple P (ask f) (\<lambda>(st, x) s. if EFI_ERROR st then B s else R x s) E"
    using ask by (intro triple_ask) auto
  show "triple ((\<lambda>(st, x) s. if EFI_ERROR st then B s else R x s) r)
      (case r of (st, x) \<Rightarrow> if EFI_ERROR st then bad st x else g st x) Q E" for r
    using bad good by (cases r) (simp add: triple_pre)
qed

lemma if_neg: "(if \<not> b then x else y) = (if b then y else x)"
  by simp

lemma dump_contract_file:
  assumes "dump_contract sv v"
  shows "GetImageDevice sv fw = (r, fw') \<Longrightarrow> untouched v fw fw'"
    and "DGetFs sv dev fw = (r', fw') \<Longrightarrow> untouched v fw fw'"
    and "DOpenVolume sv fs fw = ((st, vol), fw') \<Longrightarrow> dv_files v fw' = dv_files v fw \<and>
        dv_opens v fw' = (if EFI_ERROR st then dv_opens v fw else add_mset vol (dv_opens v fw))"
    and "DOpen sv vol name EFI_FILE_MODE_READ fw = ((st, f), fw') \<Longrightarrow> dv_files v fw' = dv_files v fw \<and>
        (if EFI_ERROR st then dv_opens v fw' = dv_opens v fw
         else dv_opens v fw' = add_mset f (dv_opens v fw) \<and> dv_cursor v fw' f = Some (name, 0))"
    and "DOpen sv vol name (EFI_FILE_MODE_READ OR EFI_FILE_MODE_WRITE OR EFI_FILE_MODE_CREATE) fw = ((st, f), fw') \<Longrightarrow>
        (if EFI_ERROR st then untouched v fw fw'
         else dv_opens v fw' = add_mset f (dv_opens v fw) \<and> dv_cursor v fw' f = Some (name, 0) \<and>
           dv_files v fw' = (dv_files v fw)(name \<mapsto> case dv_files v fw name of None \<Rightarrow> [] | Some bs \<Rightarrow> bs))"
    and "DDelete sv f fw = (st, fw') \<Longrightarrow> dv_cursor v fw f = Some (name, p) \<Longrightarrow>
        dv_opens v fw' = dv_opens v fw - {#f#} \<and>
        (dv_files v fw' = (dv_files v fw)(name := None) \<or> dv_files v fw' = dv_files v fw)"
    and "DWrite sv f bs fw = ((st, n), fw') \<Longrightarrow> dv_cursor v fw f = Some (name, p) \<Longrightarrow> dv_files v fw name = Some old \<Longrightarrow>
        dv_opens v fw' = dv_opens v fw \<and> (\<exists>new. dv_files v fw' = (dv_files v fw)(name \<mapsto> new) \<and>
           (\<not> EFI_ERROR st \<longrightarrow> unat n \<le> length bs \<and> new = overwrite p (take (unat n) bs) old))"
    and "dv_files v (DClose sv f fw) = dv_files v fw" and "dv_opens v (DClose sv f fw) = dv_opens v fw - {#f#}"
proof -
  note c = assms [unfolded dump_contract_def]
  note c' = c [THEN conjunct2]
  show "GetImageDevice sv fw = (r, fw') \<Longrightarrow> untouched v fw fw'" using c [THEN conjunct1] by blast
  show "DGetFs sv dev fw = (r', fw') \<Longrightarrow> untouched v fw fw'" using c' [THEN conjunct1] by blast
  note c' = c' [THEN conjunct2]
  show "DOpenVolume sv fs fw = ((st, vol), fw') \<Longrightarrow> dv_files v fw' = dv_files v fw \<and>
      dv_opens v fw' = (if EFI_ERROR st then dv_opens v fw else add_mset vol (dv_opens v fw))"
    using c' [THEN conjunct1] by blast
  note c' = c' [THEN conjunct2]
  show "DOpen sv vol name EFI_FILE_MODE_READ fw = ((st, f), fw') \<Longrightarrow> dv_files v fw' = dv_files v fw \<and>
      (if EFI_ERROR st then dv_opens v fw' = dv_opens v fw
       else dv_opens v fw' = add_mset f (dv_opens v fw) \<and> dv_cursor v fw' f = Some (name, 0))"
    using c' [THEN conjunct1] by blast
  note c' = c' [THEN conjunct2]
  show "DOpen sv vol name (EFI_FILE_MODE_READ OR EFI_FILE_MODE_WRITE OR EFI_FILE_MODE_CREATE) fw = ((st, f), fw') \<Longrightarrow>
      (if EFI_ERROR st then untouched v fw fw'
       else dv_opens v fw' = add_mset f (dv_opens v fw) \<and> dv_cursor v fw' f = Some (name, 0) \<and>
         dv_files v fw' = (dv_files v fw)(name \<mapsto> case dv_files v fw name of None \<Rightarrow> [] | Some bs \<Rightarrow> bs))"
    using c' [THEN conjunct1] by blast
  note c' = c' [THEN conjunct2]
  show "DDelete sv f fw = (st, fw') \<Longrightarrow> dv_cursor v fw f = Some (name, p) \<Longrightarrow>
      dv_opens v fw' = dv_opens v fw - {#f#} \<and>
      (dv_files v fw' = (dv_files v fw)(name := None) \<or> dv_files v fw' = dv_files v fw)"
    using c' [THEN conjunct1] by blast
  note c' = c' [THEN conjunct2]
  show "DWrite sv f bs fw = ((st, n), fw') \<Longrightarrow> dv_cursor v fw f = Some (name, p) \<Longrightarrow> dv_files v fw name = Some old \<Longrightarrow>
      dv_opens v fw' = dv_opens v fw \<and> (\<exists>new. dv_files v fw' = (dv_files v fw)(name \<mapsto> new) \<and>
         (\<not> EFI_ERROR st \<longrightarrow> unat n \<le> length bs \<and> new = overwrite p (take (unat n) bs) old))"
    using c' [THEN conjunct1] by blast
  note c' = c' [THEN conjunct2]
  show "dv_files v (DClose sv f fw) = dv_files v fw" "dv_opens v (DClose sv f fw) = dv_opens v fw - {#f#}"
    using c' [THEN conjunct1] by blast+
qed

lemma dump_contract_pci:
  assumes "dump_contract sv v"
  shows "LocatePciIo sv fw = ((st, hs), fw') \<Longrightarrow> untouched v fw fw' \<and> (\<not> EFI_ERROR st \<longrightarrow> hs = dv_handles v)"
    and "GetPciIo sv h fw = ((st, io), fw') \<Longrightarrow> untouched v fw fw' \<and> (\<not> EFI_ERROR st \<longrightarrow> io = dv_io v h)"
    and "GetLocation sv io fw = ((st, l), fw') \<Longrightarrow> untouched v fw fw' \<and> (\<not> EFI_ERROR st \<longrightarrow> l = dv_loc v io)"
    and "ReadId sv io fw = ((st, x), fw') \<Longrightarrow> untouched v fw fw' \<and> (\<not> EFI_ERROR st \<longrightarrow> x = dv_id v io)"
proof -
  note c = assms [unfolded dump_contract_def, THEN conjunct2, THEN conjunct2, THEN conjunct2, THEN conjunct2,
      THEN conjunct2, THEN conjunct2, THEN conjunct2, THEN conjunct2]
  show "LocatePciIo sv fw = ((st, hs), fw') \<Longrightarrow> untouched v fw fw' \<and> (\<not> EFI_ERROR st \<longrightarrow> hs = dv_handles v)"
    using c [THEN conjunct1] by blast
  note c = c [THEN conjunct2]
  show "GetPciIo sv h fw = ((st, io), fw') \<Longrightarrow> untouched v fw fw' \<and> (\<not> EFI_ERROR st \<longrightarrow> io = dv_io v h)"
    using c [THEN conjunct1] by blast
  note c = c [THEN conjunct2]
  show "GetLocation sv io fw = ((st, l), fw') \<Longrightarrow> untouched v fw fw' \<and> (\<not> EFI_ERROR st \<longrightarrow> l = dv_loc v io)"
    using c [THEN conjunct1] by blast
  show "ReadId sv io fw = ((st, x), fw') \<Longrightarrow> untouched v fw fw' \<and> (\<not> EFI_ERROR st \<longrightarrow> x = dv_id v io)"
    using c [THEN conjunct2] by blast
qed

text \<open>
  Between two dumps, with \<open>hs\<close> the handles open, and how the program may leave on an error: at
  most one handle more is open, and only files named in \<open>N\<close> have changed.
\<close>

definition dumping :: "('fw, 'file, 'handle, 'io) dump_view \<Rightarrow> 'file multiset \<Rightarrow> file_map \<Rightarrow> (string \<times> u8 list) list \<Rightarrow>
    (mem \<Rightarrow> bool) \<Rightarrow> 'fw ld_state \<Rightarrow> bool" where
  "dumping v hs F ds M s \<longleftrightarrow>
     dv_opens v (ld_fw s) = hs \<and> dumped_all F ds (dv_files v (ld_fw s)) \<and> M (ld_mem s)"

definition dump_left :: "('fw, 'file, 'handle, 'io) dump_view \<Rightarrow> 'file multiset \<Rightarrow> file_map \<Rightarrow> string set \<Rightarrow> 'fw ld_state \<Rightarrow> bool" where
  "dump_left v hs F N s \<longleftrightarrow>
     (dv_opens v (ld_fw s) = hs \<or> (\<exists>vol. dv_opens v (ld_fw s) = add_mset vol hs)) \<and>
     (\<forall>n. n \<notin> N \<longrightarrow> dv_files v (ld_fw s) n = F n)"

lemma dumping_untouched:
  "dumping v hs F ds M s \<Longrightarrow> untouched v (ld_fw s) fw \<Longrightarrow> dumping v hs F ds M (s\<lparr> ld_fw := fw \<rparr>)"
  by (simp add: dumping_def untouched_def)

lemma dumping_left: "dumping v hs F ds M s \<Longrightarrow> fst ` set ds \<subseteq> N \<Longrightarrow> dump_left v hs F N s"
  unfolding dumping_def dump_left_def by (metis dumped_all_other subsetD)

text \<open>While a file is written: the volume is open, the file \<open>name\<close> has been touched.\<close>

definition replacing :: "('fw, 'file, 'handle, 'io) dump_view \<Rightarrow> 'file multiset \<Rightarrow> file_map \<Rightarrow> (string \<times> u8 list) list \<Rightarrow>
    (mem \<Rightarrow> bool) \<Rightarrow> string \<Rightarrow> 'file multiset \<Rightarrow> 'fw ld_state \<Rightarrow> bool" where
  "replacing v hs F ds M name extra s \<longleftrightarrow> dv_opens v (ld_fw s) = hs + extra \<and> M (ld_mem s) \<and>
     (\<exists>G x. dumped_all F ds G \<and> dv_files v (ld_fw s) = G(name := x) \<and> (x = None \<or> x = Some [] \<or> x = G name))"

definition rewriting :: "('fw, 'file, 'handle, 'io) dump_view \<Rightarrow> 'file multiset \<Rightarrow> file_map \<Rightarrow> string set \<Rightarrow>
    'file multiset \<Rightarrow> 'fw ld_state \<Rightarrow> bool" where
  "rewriting v hs F N extra s \<longleftrightarrow> dv_opens v (ld_fw s) = hs + extra \<and> (\<forall>n. n \<notin> N \<longrightarrow> dv_files v (ld_fw s) n = F n)"

lemma replacing_rewriting:
  "replacing v hs F ds M name extra s \<Longrightarrow> fst ` set ds \<subseteq> N \<Longrightarrow> name \<in> N \<Longrightarrow> rewriting v hs F N extra s"
  unfolding replacing_def rewriting_def using dumped_all_other by fastforce

lemma rewriting_left: "rewriting v hs F N {#} s \<Longrightarrow> dump_left v hs F N s" "rewriting v hs F N {#vol#} s \<Longrightarrow> dump_left v hs F N s"
  by (auto simp: rewriting_def dump_left_def)

lemma replacing_left:
  "replacing v hs F ds M name {#vol#} s \<Longrightarrow> fst ` set ds \<subseteq> N \<Longrightarrow> name \<in> N \<Longrightarrow> dump_left v hs F N s"
  by (rule rewriting_left(2), rule replacing_rewriting)

lemma close_dump_fails:
  assumes "dump_contract sv v"
  shows "triple (rewriting v hs F N {#vol, out#}) (andthen (close_dump sv out vol) (\<lambda>_. fail e)) Q (\<lambda>_. dump_left v hs F N)"
  unfolding close_dump_def
proof (intro triple_andthen)
  show "triple (rewriting v hs F N {#vol, out#}) (tell (DClose sv out)) (\<lambda>_. rewriting v hs F N {#vol#}) (\<lambda>_. dump_left v hs F N)"
    by (rule triple_tell) (simp add: rewriting_def dump_contract_file(8,9) [OF assms])
  show "triple (rewriting v hs F N {#vol#}) (tell (DClose sv vol)) (\<lambda>_. rewriting v hs F N {#}) (\<lambda>_. dump_left v hs F N)"
    by (rule triple_tell) (simp add: rewriting_def dump_contract_file(8,9) [OF assms])
  show "triple (rewriting v hs F N {#}) (fail e) Q (\<lambda>_. dump_left v hs F N)"
    by (rule triple_fail) (rule rewriting_left)
qed

lemma remove_old_triple:
  assumes con: "dump_contract sv v" and N: "fst ` set ds \<subseteq> N" "name \<in> N"
  shows "triple (replacing v hs F ds M name {#vol#}) (remove_old sv vol name)
    (\<lambda>_. replacing v hs F ds M name {#vol#}) (\<lambda>_. dump_left v hs F N)"
  unfolding remove_old_def if_neg
proof (rule triple_service)
  let ?R = "\<lambda>out s. replacing v hs F ds M name {#vol, out#} s \<and> dv_cursor v (ld_fw s) out = Some (name, 0)"
  show "if EFI_ERROR st then replacing v hs F ds M name {#vol#} (s\<lparr> ld_fw := fw \<rparr>) else ?R out (s\<lparr> ld_fw := fw \<rparr>)"
    if "replacing v hs F ds M name {#vol#} s" "DOpen sv vol name EFI_FILE_MODE_READ (ld_fw s) = ((st, out), fw)" for s st out fw
    using that(1) dump_contract_file(4) [OF con that(2)] by (auto simp: replacing_def add_mset_commute)
  show "triple (replacing v hs F ds M name {#vol#}) (ret ()) (\<lambda>_. replacing v hs F ds M name {#vol#}) (\<lambda>_. dump_left v hs F N)"
    by (rule triple_ret)
  show "triple (?R out) (andthen (ask (DDelete sv out)) (\<lambda>status. if EFI_ERROR status
        then fail (Error_with_status ''cannot delete pre-existing dump file'' status) else ret ()))
      (\<lambda>_. replacing v hs F ds M name {#vol#}) (\<lambda>_. dump_left v hs F N)" for out
  proof (rule triple_andthen)
    show "triple (?R out) (ask (DDelete sv out)) (\<lambda>_. replacing v hs F ds M name {#vol#}) (\<lambda>_. dump_left v hs F N)"
    proof (rule triple_ask)
      fix s st fw assume s: "?R out s" and d: "DDelete sv out (ld_fw s) = (st, fw)"
      have o: "dv_opens v fw = dv_opens v (ld_fw s) - {#out#}"
        and f: "dv_files v fw = (dv_files v (ld_fw s))(name := None) \<or> dv_files v fw = dv_files v (ld_fw s)"
        using dump_contract_file(6) [OF con d] s by auto
      from f show "replacing v hs F ds M name {#vol#} (s\<lparr> ld_fw := fw \<rparr>)"
        using s o by (elim disjE) (fastforce simp: replacing_def)+
    qed
    show "triple (replacing v hs F ds M name {#vol#}) (if EFI_ERROR status
        then fail (Error_with_status ''cannot delete pre-existing dump file'' status) else ret ())
      (\<lambda>_. replacing v hs F ds M name {#vol#}) (\<lambda>_. dump_left v hs F N)" for status
      by (rule triple_if; (rule triple_fail | rule triple_ret)) (simp_all add: replacing_left [OF _ N])
  qed
qed

lemma close_dump_triple:
  assumes con: "dump_contract sv v"
  shows "triple (\<lambda>s. dumping v (hs + {#vol, out#}) F ds M s) (close_dump sv out vol) (\<lambda>_. dumping v hs F ds M) E"
  unfolding close_dump_def
proof (rule triple_andthen)
  show "triple (\<lambda>s. dumping v (hs + {#vol, out#}) F ds M s) (tell (DClose sv out)) (\<lambda>_. dumping v (hs + {#vol#}) F ds M) E"
    by (rule triple_tell) (simp add: dumping_def dump_contract_file(8,9) [OF con])
  show "triple (dumping v (hs + {#vol#}) F ds M) (tell (DClose sv vol)) (\<lambda>_. dumping v hs F ds M) E"
    by (rule triple_tell) (simp add: dumping_def dump_contract_file(8,9) [OF con])
qed

lemma write_dump_triple:
  assumes con: "dump_contract sv v" and N: "fst ` set ds \<subseteq> N" "name \<in> N"
    and M: "\<And>m. M m \<Longrightarrow> get_bytes m (unat buf) (unat sz) = d"
  shows "triple (\<lambda>s. replacing v hs F ds M name {#vol, out#} s \<and> dv_cursor v (ld_fw s) out = Some (name, 0) \<and>
      dv_files v (ld_fw s) name \<noteq> None)
    (write_dump sv out vol sz buf) (\<lambda>_. dumping v (hs + {#vol, out#}) F (ds @ [(name, d)]) M) (\<lambda>_. dump_left v hs F N)"
  unfolding write_dump_def
proof (rule triple_andthen)
  let ?P = "\<lambda>s. replacing v hs F ds M name {#vol, out#} s \<and> dv_cursor v (ld_fw s) out = Some (name, 0) \<and>
      dv_files v (ld_fw s) name \<noteq> None"
  have len: "M m \<Longrightarrow> length d = unat sz" for m using M [of m] by auto
  show "triple ?P (peek buf sz) (\<lambda>bs s. ?P s \<and> bs = d) (\<lambda>_. dump_left v hs F N)"
    by (rule triple_peek) (use M in \<open>simp add: replacing_def\<close>)
  let ?R = "\<lambda>n s. rewriting v hs F N {#vol, out#} s \<and> (n = sz \<longrightarrow> dumping v (hs + {#vol, out#}) F (ds @ [(name, d)]) M s)"
  show "triple (\<lambda>s. ?P s \<and> bs = d) (andthen (ask (DWrite sv out bs)) (\<lambda>(status, write_sz).
       if EFI_ERROR status then
         andthen (close_dump sv out vol) (\<lambda>_. fail (Error_with_status ''cannot write dump file'' status))
       else if write_sz \<noteq> sz then
         andthen (close_dump sv out vol) (\<lambda>_. fail (Error ''short write to dump file''))
       else ret ())) (\<lambda>_. dumping v (hs + {#vol, out#}) F (ds @ [(name, d)]) M) (\<lambda>_. dump_left v hs F N)" for bs
  proof (rule triple_service)
    fix s st n fw assume s: "?P s \<and> bs = d" and w: "DWrite sv out bs (ld_fw s) = ((st, n), fw)"
    then obtain old where old: "dv_files v (ld_fw s) name = Some old" by auto
    obtain new where o: "dv_opens v fw = dv_opens v (ld_fw s)" and f: "dv_files v fw = (dv_files v (ld_fw s))(name \<mapsto> new)"
      and n: "\<not> EFI_ERROR st \<Longrightarrow> new = overwrite 0 (take (unat n) d) old"
      using dump_contract_file(7) [OF con w _ old, of 0] s by auto
    have r: "rewriting v hs F N {#vol, out#} s" using replacing_rewriting N s by blast
    then have r': "rewriting v hs F N {#vol, out#} (s\<lparr> ld_fw := fw \<rparr>)" using o f N by (auto simp: rewriting_def)
    obtain G x where G: "dumped_all F ds G" "dv_files v (ld_fw s) = G(name := x)" "x = None \<or> x = Some [] \<or> x = G name"
      using s unfolding replacing_def by blast
    have "dumped G name d (dv_files v fw)" if "\<not> EFI_ERROR st" "n = sz"
      unfolding dumped_def using f G(2,3) old n [OF that(1)] that(2) len s
      by (intro exI [of _ old]) (auto simp: overwrite_def replacing_def)
    then show "if EFI_ERROR st then rewriting v hs F N {#vol, out#} (s\<lparr> ld_fw := fw \<rparr>) else ?R n (s\<lparr> ld_fw := fw \<rparr>)"
      using r' s o G(1) by (auto simp: dumping_def replacing_def dumped_all_snoc)
  next
    show "triple (rewriting v hs F N {#vol, out#})
        (andthen (close_dump sv out vol) (\<lambda>_. fail (Error_with_status ''cannot write dump file'' st)))
        (\<lambda>_. dumping v (hs + {#vol, out#}) F (ds @ [(name, d)]) M) (\<lambda>_. dump_left v hs F N)" for st
      by (rule close_dump_fails [OF con])
    show "triple (?R n) (if n \<noteq> sz then andthen (close_dump sv out vol) (\<lambda>_. fail (Error ''short write to dump file''))
        else ret ()) (\<lambda>_. dumping v (hs + {#vol, out#}) F (ds @ [(name, d)]) M) (\<lambda>_. dump_left v hs F N)" for n
      by (rule triple_if) (rule triple_pre [OF close_dump_fails [OF con]], blast, rule triple_ret, blast)
  qed
qed

lemma create_dump_triple:
  assumes con: "dump_contract sv v" and N: "fst ` set ds \<subseteq> N" "name \<in> N"
    and M: "\<And>m. M m \<Longrightarrow> get_bytes m (unat buf) (unat sz) = d"
  shows "triple (replacing v hs F ds M name {#vol#}) (create_dump sv vol name sz buf)
    (\<lambda>_. dumping v hs F (ds @ [(name, d)]) M) (\<lambda>_. dump_left v hs F N)"
  unfolding create_dump_def
proof (rule triple_service)
  let ?R = "\<lambda>out s. replacing v hs F ds M name {#vol, out#} s \<and> dv_cursor v (ld_fw s) out = Some (name, 0) \<and>
      dv_files v (ld_fw s) name \<noteq> None"
  fix s st out fw
  assume s: "replacing v hs F ds M name {#vol#} s" and o: "DOpen sv vol name
      (EFI_FILE_MODE_READ OR EFI_FILE_MODE_WRITE OR EFI_FILE_MODE_CREATE) (ld_fw s) = ((st, out), fw)"
  obtain G x where G: "dumped_all F ds G" "dv_files v (ld_fw s) = G(name := x)" "x = None \<or> x = Some [] \<or> x = G name"
    using s unfolding replacing_def by blast
  note c = dump_contract_file(5) [OF con o]
  show "if EFI_ERROR st then replacing v hs F ds M name {#vol#} (s\<lparr> ld_fw := fw \<rparr>) else ?R out (s\<lparr> ld_fw := fw \<rparr>)"
  proof (cases "EFI_ERROR st")
    case True
    then show ?thesis using s c by (simp add: replacing_def untouched_def)
  next
    case False
    let ?y = "Some (case x of None \<Rightarrow> [] | Some bs \<Rightarrow> bs)"
    have "dv_files v fw = G(name := ?y)" using False c G(2) by simp
    moreover have "?y = None \<or> ?y = Some [] \<or> ?y = G name" using G(3) by (cases x) auto
    ultimately have "\<exists>G x. dumped_all F ds G \<and> dv_files v fw = G(name := x) \<and> (x = None \<or> x = Some [] \<or> x = G name)"
      using G(1) by blast
    moreover have "dv_opens v fw = hs + {#vol, out#}" using s False c by (simp add: replacing_def)
    ultimately show ?thesis using False s c by (simp add: replacing_def)
  qed
next
  show "triple (replacing v hs F ds M name {#vol#})
      (andthen (tell (DClose sv vol)) (\<lambda>_. fail (Error_with_status ''cannot create dump file'' st)))
      (\<lambda>_. dumping v hs F (ds @ [(name, d)]) M) (\<lambda>_. dump_left v hs F N)" for st
  proof (rule triple_andthen)
    show "triple (replacing v hs F ds M name {#vol#}) (tell (DClose sv vol)) (\<lambda>_. replacing v hs F ds M name {#})
        (\<lambda>_. dump_left v hs F N)"
      by (rule triple_tell) (simp add: replacing_def dump_contract_file(8,9) [OF con])
    show "triple (replacing v hs F ds M name {#}) (fail (Error_with_status ''cannot create dump file'' st))
        (\<lambda>_. dumping v hs F (ds @ [(name, d)]) M) (\<lambda>_. dump_left v hs F N)"
      by (rule triple_fail) (rule rewriting_left(1), rule replacing_rewriting [OF _ N])
  qed
  show "triple (\<lambda>s. replacing v hs F ds M name {#vol, out#} s \<and> dv_cursor v (ld_fw s) out = Some (name, 0) \<and>
        dv_files v (ld_fw s) name \<noteq> None) (andthen (write_dump sv out vol sz buf) (\<lambda>_. close_dump sv out vol))
      (\<lambda>_. dumping v hs F (ds @ [(name, d)]) M) (\<lambda>_. dump_left v hs F N)" for out
    by (rule triple_andthen [OF write_dump_triple [where M = M, OF con N M] close_dump_triple [OF con]])
qed

lemma dump_rom_triple:
  assumes con: "dump_contract sv v" and N: "fst ` set ds \<subseteq> N" "name \<in> N"
    and M: "\<And>m. M m \<Longrightarrow> get_bytes m (unat buf) (unat sz) = d"
  shows "triple (dumping v hs F ds M) (dump_rom sv dev name sz buf)
    (\<lambda>_. dumping v hs F (ds @ [(name, d)]) M) (\<lambda>_. dump_left v hs F N)"
  unfolding dump_rom_def
proof (rule triple_service)
  fix s st fs fw assume "dumping v hs F ds M s" "DGetFs sv dev (ld_fw s) = ((st, fs), fw)"
  then show "if EFI_ERROR st then dumping v hs F ds M (s\<lparr> ld_fw := fw \<rparr>) else dumping v hs F ds M (s\<lparr> ld_fw := fw \<rparr>)"
    by (auto intro: dumping_untouched dump_contract_file(2) [OF con])
next
  have bad: "triple (dumping v hs F ds M) (fail e) (\<lambda>_. dumping v hs F (ds @ [(name, d)]) M) (\<lambda>_. dump_left v hs F N)" for e
    by (rule triple_fail) (rule dumping_left [OF _ N(1)])
  show "triple (dumping v hs F ds M) (fail (Error_with_status ''cannot get EFI_SIMPLE_FILE_SYSTEM_PROTOCOL'' st))
      (\<lambda>_. dumping v hs F (ds @ [(name, d)]) M) (\<lambda>_. dump_left v hs F N)" for st by (rule bad)
  show "triple (dumping v hs F ds M) (andthen (ask (DOpenVolume sv fs)) (\<lambda>(status, vol).
      if EFI_ERROR status then fail (Error_with_status ''cannot get EFI_FILE_PROTOCOL'' status)
      else andthen (remove_old sv vol name) (\<lambda>_. create_dump sv vol name sz buf)))
      (\<lambda>_. dumping v hs F (ds @ [(name, d)]) M) (\<lambda>_. dump_left v hs F N)" for fs
  proof (rule triple_service)
    fix s st vol fw assume s: "dumping v hs F ds M s" and o: "DOpenVolume sv fs (ld_fw s) = ((st, vol), fw)"
    have "\<exists>G x. dumped_all F ds G \<and> dv_files v (ld_fw s) = G(name := x) \<and> (x = None \<or> x = Some [] \<or> x = G name)"
      using s by (intro exI [of _ "dv_files v (ld_fw s)"] exI [of _ "dv_files v (ld_fw s) name"]) (simp add: dumping_def)
    then show "if EFI_ERROR st then dumping v hs F ds M (s\<lparr> ld_fw := fw \<rparr>)
        else replacing v hs F ds M name {#vol#} (s\<lparr> ld_fw := fw \<rparr>)"
      using s dump_contract_file(3) [OF con o] by (simp add: dumping_def replacing_def)
  next
    show "triple (dumping v hs F ds M) (fail (Error_with_status ''cannot get EFI_FILE_PROTOCOL'' st))
      (\<lambda>_. dumping v hs F (ds @ [(name, d)]) M) (\<lambda>_. dump_left v hs F N)" for st by (rule bad)
    show "triple (replacing v hs F ds M name {#vol#}) (andthen (remove_old sv vol name) (\<lambda>_. create_dump sv vol name sz buf))
      (\<lambda>_. dumping v hs F (ds @ [(name, d)]) M) (\<lambda>_. dump_left v hs F N)" for vol
      by (rule triple_andthen [OF remove_old_triple [OF con N] create_dump_triple [where M = M, OF con N M]])
  qed
qed

subsection \<open>All dumps\<close>

lemma process_one_pci_io_triple:
  assumes con: "dump_contract sv v" and N: "fst ` set (ds @ pci_dumps sv v m [h]) \<subseteq> N"
  shows "triple (dumping v hs F ds (\<lambda>m'. m' = m)) (process_one_pci_io sv dev (dv_io v h))
    (\<lambda>_. dumping v hs F (ds @ pci_dumps sv v m [h]) (\<lambda>m'. m' = m)) (\<lambda>_. dump_left v hs F N)"
proof (cases "IoRomSize sv (dv_io v h) = 0")
  case True
  then show ?thesis by (auto simp: process_one_pci_io_def pci_dumps_def intro: triple_ret)
next
  case False
  let ?io = "dv_io v h" and ?D = "dumping v hs F ds (\<lambda>m'. m' = m)"
  let ?Q = "\<lambda>_. dumping v hs F (ds @ pci_dumps sv v m [h]) (\<lambda>m'. m' = m)"
  obtain seg bus device fn where loc: "dv_loc v ?io = (seg, bus, device, fn)" by (metis prod.collapse)
  let ?n = "\<lambda>seg bus device fn id. PciName sv seg bus device fn (id AND 0xffff) (drop_bit 16 id)"
  let ?d = "get_bytes m (unat (IoRomImage sv ?io)) (unat (IoRomSize sv ?io))"
  have ds: "pci_dumps sv v m [h] = [(?n seg bus device fn (dv_id v ?io), ?d)]"
    using False by (simp add: pci_dumps_def pci_dump_def loc)
  have sub: "fst ` set ds \<subseteq> N" and name: "?n seg bus device fn (dv_id v ?io) \<in> N" using N unfolding ds by auto
  have bad: "triple ?D (fail e) ?Q (\<lambda>_. dump_left v hs F N)" for e :: err
    by (rule triple_fail) (rule dumping_left [OF _ sub])
  have dump: "triple (\<lambda>s. ?D s \<and> (seg', bus', device', fn') = dv_loc v ?io \<and> id = dv_id v ?io)
      (andthen (dump_rom sv dev (?n seg' bus' device' fn' id) (IoRomSize sv ?io) (IoRomImage sv ?io)) (\<lambda>_. ret True))
      ?Q (\<lambda>_. dump_left v hs F N)" for seg' bus' device' fn' id
  proof (cases "(seg', bus', device', fn') = dv_loc v ?io \<and> id = dv_id v ?io")
    case True
    then show ?thesis unfolding ds loc
      by (auto intro!: triple_andthen [OF dump_rom_triple [OF con sub name]] triple_ret)
  next
    case False
    then show ?thesis unfolding triple_def by blast
  qed
  show ?thesis
    unfolding process_one_pci_io_def if_not_P [OF False]
  proof (rule triple_service)
    fix s st l fw assume "?D s" "GetLocation sv ?io (ld_fw s) = ((st, l), fw)"
    then show "if EFI_ERROR st then ?D (s\<lparr> ld_fw := fw \<rparr>) else ?D (s\<lparr> ld_fw := fw \<rparr>) \<and> l = dv_loc v ?io"
      using dump_contract_pci(3) [OF con] by (fastforce intro: dumping_untouched)
  next
    show "triple ?D (fail (Error_with_status ''cannot get PCI ctrlr. locn.'' st)) ?Q (\<lambda>_. dump_left v hs F N)" for st
      by (rule bad)
    show "triple (\<lambda>s. ?D s \<and> l = dv_loc v ?io) (case l of (seg, bus, device, fn) \<Rightarrow>
        andthen (ask (ReadId sv ?io)) (\<lambda>(status, pci_id).
          if EFI_ERROR status then fail (Error_with_status ''cannot read PCI conf. sp.'' status)
          else andthen (dump_rom sv dev (?n seg bus device fn pci_id) (IoRomSize sv ?io) (IoRomImage sv ?io))
            (\<lambda>_. ret True))) ?Q (\<lambda>_. dump_left v hs F N)" for l
    proof -
      obtain a b c e where l: "l = (a, b, c, e)" by (metis prod.collapse)
      show ?thesis
        unfolding l prod.case
      proof (rule triple_service)
        fix s st id fw assume "?D s \<and> (a, b, c, e) = dv_loc v ?io" "ReadId sv ?io (ld_fw s) = ((st, id), fw)"
        then show "if EFI_ERROR st then ?D (s\<lparr> ld_fw := fw \<rparr>)
            else ?D (s\<lparr> ld_fw := fw \<rparr>) \<and> (a, b, c, e) = dv_loc v ?io \<and> id = dv_id v ?io"
          using dump_contract_pci(4) [OF con] by (fastforce intro: dumping_untouched)
      qed (rule bad, rule dump)
    qed
  qed
qed

lemma pci_dumps_Cons: "pci_dumps sv v m (h # hs) = pci_dumps sv v m [h] @ pci_dumps sv v m hs"
  by (simp add: pci_dumps_def)

lemma dump_handles_triple:
  assumes con: "dump_contract sv v" and "fst ` set (ds @ pci_dumps sv v m handles) \<subseteq> N"
  shows "triple (dumping v hs F ds (\<lambda>m'. m' = m)) (dump_handles sv dev handles got)
    (\<lambda>_. dumping v hs F (ds @ pci_dumps sv v m handles) (\<lambda>m'. m' = m)) (\<lambda>_. dump_left v hs F N)"
  using assms(2)
proof (induction handles arbitrary: ds got)
  case Nil
  then show ?case by (auto simp: pci_dumps_def intro: triple_ret)
next
  case (Cons h handles)
  let ?D = "\<lambda>ds. dumping v hs F ds (\<lambda>m'. m' = m)"
  have N: "fst ` set (ds @ pci_dumps sv v m [h]) \<subseteq> N" "fst ` set ds \<subseteq> N"
    and N': "fst ` set ((ds @ pci_dumps sv v m [h]) @ pci_dumps sv v m handles) \<subseteq> N"
    using Cons.prems unfolding pci_dumps_Cons [of sv v m h handles] by auto
  show ?case
    unfolding dump_handles.simps pci_dumps_Cons [of sv v m h handles] append_assoc [symmetric]
  proof (rule triple_service)
    fix s st io fw assume "?D ds s" "GetPciIo sv h (ld_fw s) = ((st, io), fw)"
    then show "if EFI_ERROR st then ?D ds (s\<lparr> ld_fw := fw \<rparr>) else io = dv_io v h \<and> ?D ds (s\<lparr> ld_fw := fw \<rparr>)"
      using dump_contract_pci(2) [OF con] by (fastforce intro: dumping_untouched)
  next
    show "triple (?D ds) (fail (Error_with_status ''cannot get EFI_PCI_IO_PROTOCOL'' st))
        (\<lambda>_. ?D ((ds @ pci_dumps sv v m [h]) @ pci_dumps sv v m handles)) (\<lambda>_. dump_left v hs F N)" for st
      by (rule triple_fail) (rule dumping_left [OF _ N(2)])
    show "triple (\<lambda>s. io = dv_io v h \<and> ?D ds s)
        (andthen (process_one_pci_io sv dev io) (\<lambda>got'. dump_handles sv dev handles (got \<or> got')))
        (\<lambda>_. ?D ((ds @ pci_dumps sv v m [h]) @ pci_dumps sv v m handles)) (\<lambda>_. dump_left v hs F N)" for io
    proof (rule triple_fact)
      assume io: "io = dv_io v h"
      show "triple (?D ds) (andthen (process_one_pci_io sv dev io) (\<lambda>got'. dump_handles sv dev handles (got \<or> got')))
          (\<lambda>_. ?D ((ds @ pci_dumps sv v m [h]) @ pci_dumps sv v m handles)) (\<lambda>_. dump_left v hs F N)"
        unfolding io by (rule triple_andthen [OF process_one_pci_io_triple [OF con N(1)] Cons.IH [OF N']])
    qed
  qed
qed

lemma dump_pci_roms_triple:
  assumes con: "dump_contract sv v" and N: "fst ` set (pci_dumps sv v m (dv_handles v)) \<subseteq> N"
  shows "triple (dumping v hs F [] (\<lambda>m'. m' = m)) (dump_pci_roms sv dev)
    (\<lambda>_. dumping v hs F (pci_dumps sv v m (dv_handles v)) (\<lambda>m'. m' = m)) (\<lambda>_. dump_left v hs F N)"
  unfolding dump_pci_roms_def
proof (rule triple_service)
  let ?D = "dumping v hs F [] (\<lambda>m'. m' = m)"
  fix s st l fw assume "?D s" "LocatePciIo sv (ld_fw s) = ((st, l), fw)"
  then show "if EFI_ERROR st then ?D (s\<lparr> ld_fw := fw \<rparr>) else l = dv_handles v \<and> ?D (s\<lparr> ld_fw := fw \<rparr>)"
    using dump_contract_pci(1) [OF con] by (fastforce intro: dumping_untouched)
next
  show "triple (dumping v hs F [] (\<lambda>m'. m' = m)) (fail (Error_with_status ''no PCI devices found'' st))
      (\<lambda>_. dumping v hs F (pci_dumps sv v m (dv_handles v)) (\<lambda>m'. m' = m)) (\<lambda>_. dump_left v hs F N)" for st
    by (rule triple_fail) (rule dumping_left, assumption, simp)
  show "triple (\<lambda>s. l = dv_handles v \<and> dumping v hs F [] (\<lambda>m'. m' = m) s) (dump_handles sv dev l False)
      (\<lambda>_. dumping v hs F (pci_dumps sv v m (dv_handles v)) (\<lambda>m'. m' = m)) (\<lambda>_. dump_left v hs F N)" for l
    using dump_handles_triple [OF con, of "[]" m "dv_handles v" N] N by (auto intro: triple_fact)
qed

text \<open>The buffer: memory outside it stays as it was.\<close>

definition beside :: "u64 \<Rightarrow> mem \<Rightarrow> mem \<Rightarrow> bool" where
  "beside buf m m' \<longleftrightarrow> (\<forall>i. i \<notin> {unat buf..<unat buf + 0x10000} \<longrightarrow> m' i = m i)"

lemma beside_get:
  "beside buf m m' \<Longrightarrow> unat buf + 0x10000 \<le> a \<or> a + n \<le> unat buf \<Longrightarrow> get_bytes m' a n = get_bytes m a n"
  by (rule get_bytes_cong) (auto simp: beside_def)

lemma fv_start:
  fixes start :: u64
  assumes "start = 0xff800000 + of_nat k * 0x10000" "k \<le> 128"
  shows "unat start = 0xff800000 + k * 0x10000" and "start < 0x100000000 \<longleftrightarrow> k < 128"
proof -
  have "0xff800000 + of_nat k * 0x10000 = (of_nat (0xff800000 + k * 0x10000) :: u64)" by simp
  then have "unat start = (0xff800000 + k * 0x10000) mod 2 ^ LENGTH(64)" using assms(1) by (simp only: unat_of_nat)
  then show u: "unat start = 0xff800000 + k * 0x10000" using assms(2) by simp
  show "start < 0x100000000 \<longleftrightarrow> k < 128" unfolding word_less_nat_alt u by simp
qed

lemma dump_chunks_triple:
  assumes con: "dump_contract sv v" and N: "fst ` set (ds @ map (fv_dump sv m) [0..<128]) \<subseteq> N"
    and buf: "unat buf + 0x10000 \<le> 0xff800000 \<or> 0x100000000 \<le> unat buf" and k: "k \<le> 128"
  shows "triple (dumping v hs F (ds @ map (fv_dump sv m) [0..<k]) (beside buf m))
    (dump_chunks sv dev buf (0xff800000 + of_nat k * 0x10000))
    (\<lambda>_. dumping v hs F (ds @ map (fv_dump sv m) [0..<128]) (beside buf m)) (\<lambda>_. dump_left v hs F N)"
  using k
proof (induction k rule: inc_induct)
  case base
  show ?case
    by (subst dump_chunks.simps, subst if_not_P) (simp_all add: triple_ret)
next
  case (step k)
  let ?st = "0xff800000 + of_nat k * 0x10000 :: u64" and ?ds = "ds @ map (fv_dump sv m) [0..<k]"
  let ?d = "get_bytes m (0xff800000 + k * 0x10000) 0x10000"
  note st = fv_start [OF refl, of k]
  have lt: "?st < 0x100000000" and u: "unat ?st = 0xff800000 + k * 0x10000" using st step.hyps by simp_all
  have chunk: "unat CHUNK = 0x10000" by (simp add: CHUNK_def)
  have ds: "ds @ map (fv_dump sv m) [0..<Suc k] = ?ds @ [(FvName sv ?st, ?d)]" by (simp add: fv_dump_def)
  have "fst ` set (?ds @ [(FvName sv ?st, ?d)]) \<subseteq> fst ` set (ds @ map (fv_dump sv m) [0..<128])"
    unfolding ds [symmetric] using step.hyps by (intro image_mono) (auto simp del: upt_Suc)
  then have "fst ` set (?ds @ [(FvName sv ?st, ?d)]) \<subseteq> N" using N by (rule subset_trans)
  then have sub: "fst ` set ?ds \<subseteq> N" "FvName sv ?st \<in> N" by simp_all
  let ?M = "\<lambda>m'. beside buf m m' \<and> get_bytes m' (unat buf) (unat CHUNK) = ?d"
  have read: "triple (dumping v hs F ?ds (beside buf m)) (peek ?st CHUNK)
      (\<lambda>bs s. dumping v hs F ?ds (beside buf m) s \<and> bs = ?d) (\<lambda>_. dump_left v hs F N)"
    by (rule triple_peek) (use buf step.hyps in \<open>auto simp: dumping_def chunk u intro!: beside_get\<close>)
  have copy: "triple (\<lambda>s. dumping v hs F ?ds (beside buf m) s \<and> bs = ?d) (store buf bs)
      (\<lambda>_. dumping v hs F ?ds ?M) (\<lambda>_. dump_left v hs F N)" for bs
    by (rule triple_store) (auto simp: dumping_def chunk beside_def put_bytes_def get_bytes_def intro!: nth_equalityI)
  have dump: "triple (dumping v hs F ?ds ?M) (dump_rom sv dev (FvName sv ?st) CHUNK buf)
      (\<lambda>_. dumping v hs F (ds @ map (fv_dump sv m) [0..<Suc k]) (beside buf m)) (\<lambda>_. dump_left v hs F N)"
    unfolding ds
    by (rule triple_weaken [OF dump_rom_triple [OF con sub, where M = ?M and d = ?d]]) (auto simp: dumping_def)
  have nxt: "?st + CHUNK = 0xff800000 + of_nat (Suc k) * 0x10000" by (simp add: CHUNK_def algebra_simps)
  show ?case
    by (subst dump_chunks.simps, subst if_P [OF lt], unfold nxt)
      (rule triple_andthen [OF read triple_andthen [OF copy triple_andthen [OF dump step.IH]]])
qed

end
