(* ===== verification/Elf_Load.thy ===== *)
theory Elf_Load
  imports Elf_Correct "HOL-Library.Multiset"
begin

text \<open>
  The properties of loading stage 2: the whole run from opening the volume, the file handles left
  open, and the pages given back when a segment is refused.
\<close>

unbundle bit_operations_syntax

subsection \<open>Opening the file\<close>

definition fresh :: "('fw \<Rightarrow> nat set) \<Rightarrow> 'fw ld_state \<Rightarrow> 'fw ld_state \<Rightarrow> bool" where
  "fresh used s0 s \<longleftrightarrow> used (ld_fw s0) \<subseteq> used (ld_fw s) \<and> ld_mem s = ld_mem s0"

definition opened :: "('fw, 'fs, 'file) file_services \<Rightarrow> 'file \<Rightarrow> bool" where
  "opened sv f \<longleftrightarrow> (\<exists>vol name fw st fw'. FileOpen sv vol name fw = ((st, f), fw') \<and> \<not> EFI_ERROR st)"

lemma open_first_triple:
  assumes con: "file_contract sv content pos used"
  shows "triple (fresh used s0) (open_first sv vol name names)
    (\<lambda>(st, f) s. fresh used s0 s \<and> (\<not> EFI_ERROR st \<longrightarrow> pos (ld_fw s) f = 0 \<and> opened sv f)) (\<lambda>_ _. True)"
proof (induction names arbitrary: name)
  case Nil
  show ?case
    unfolding open_first.simps
    by (rule triple_ask) (use contract_services(3) [OF con] in \<open>fastforce simp: fresh_def opened_def\<close>)
next
  case (Cons name' names)
  let ?Q = "\<lambda>(st, f) s. fresh used s0 s \<and> (\<not> EFI_ERROR st \<longrightarrow> pos (ld_fw s) f = 0 \<and> opened sv f)"
  have one: "triple (fresh used s0) (ask (FileOpen sv vol name)) ?Q (\<lambda>_ _. True)"
    by (rule triple_ask) (use contract_services(3) [OF con] in \<open>fastforce simp: fresh_def opened_def\<close>)
  show ?case
    unfolding open_first.simps
  proof (rule triple_andthen [OF one])
    fix x :: "u64 \<times> 'c"
    obtain st f where x: "x = (st, f)" by (cases x)
    show "triple (?Q x) (case x of (status, prog) \<Rightarrow>
        if EFI_ERROR status then open_first sv vol name' names else ret (status, prog)) ?Q (\<lambda>_ _. True)"
      unfolding x prod.case
      by (rule triple_if) (rule triple_pre [OF Cons.IH], blast, rule triple_ret, simp)
  qed
qed

lemma load_stage2_triple:
  assumes con: "file_contract sv content pos used" and fits: "files_fit sv content"
  shows "triple (fresh used s0) (load_stage2 sv)
    (\<lambda>entry s. \<exists>f. opened sv f \<and> in_memory used (content f) s0 entry s) (\<lambda>_ _. True)"
proof -
  have fs: "triple (fresh used s0) (ask (GetFs sv)) (\<lambda>_. fresh used s0) (\<lambda>_ _. True)"
    by (rule triple_ask) (use contract_services(1) [OF con] in \<open>fastforce simp: fresh_def\<close>)
  have vol: "triple (fresh used s0) (ask (OpenVolume sv f)) (\<lambda>_. fresh used s0) (\<lambda>_ _. True)" for f
    by (rule triple_ask) (use contract_services(2) [OF con] in \<open>fastforce simp: fresh_def\<close>)
  have prog: "triple (\<lambda>s. fresh used s0 s \<and> (\<not> EFI_ERROR st \<longrightarrow> pos (ld_fw s) f = 0 \<and> opened sv f))
      (load_prog sv f v) (\<lambda>entry s. \<exists>f. opened sv f \<and> in_memory used (content f) s0 entry s) (\<lambda>_ _. True)"
    if "\<not> EFI_ERROR st" for st f v
  proof (cases "opened sv f")
    case True
    then have "length (content f) \<le> 2 ^ 32 - 4096" "\<forall>ph\<in>set (prog_phdrs (content f)). seg_fits ph"
      using fits unfolding files_fit_def opened_def by metis+
    from load_prog_triple [OF con this] show ?thesis
      by (rule triple_weaken) (use True that in \<open>auto simp: fresh_def load_inv_def\<close>)
  next
    case False
    then show ?thesis using that by (simp add: triple_def)
  qed
  show ?thesis
    unfolding load_stage2_def
  proof (rule triple_andthen [OF fs])
    fix x :: "u64 \<times> 'b"
    obtain st f where x: "x = (st, f)" by (cases x)
    show "triple (fresh used s0) (case x of (status, fs) \<Rightarrow>
        if EFI_ERROR status then fail (Error_with_status ''cannot get EFI_SIMPLE_FILE_SYSTEM_PROTOCOL'' status)
        else andthen (ask (OpenVolume sv fs)) (\<lambda>(status, vol).
          if EFI_ERROR status then fail (Error_with_status ''cannot get EFI_FILE_PROTOCOL'' status)
          else andthen (open_first sv vol STAGE2 [STAGE2_ALT, STAGE2_ALT_ALT]) (\<lambda>(status, prog).
            if EFI_ERROR status then
              andthen (tell (CloseFile sv vol)) (\<lambda>_. fail (Error_with_status ''cannot open stage 2'' status))
            else load_prog sv prog vol)))
        (\<lambda>entry s. \<exists>f. opened sv f \<and> in_memory used (content f) s0 entry s) (\<lambda>_ _. True)"
      unfolding x prod.case
    proof (rule triple_if, rule triple_fail_True, rule triple_andthen [OF vol])
      fix y :: "u64 \<times> 'c"
      obtain st v where y: "y = (st, v)" by (cases y)
      show "triple (fresh used s0) (case y of (status, vol) \<Rightarrow>
          if EFI_ERROR status then fail (Error_with_status ''cannot get EFI_FILE_PROTOCOL'' status)
          else andthen (open_first sv vol STAGE2 [STAGE2_ALT, STAGE2_ALT_ALT]) (\<lambda>(status, prog).
            if EFI_ERROR status then
              andthen (tell (CloseFile sv vol)) (\<lambda>_. fail (Error_with_status ''cannot open stage 2'' status))
            else load_prog sv prog vol))
          (\<lambda>entry s. \<exists>f. opened sv f \<and> in_memory used (content f) s0 entry s) (\<lambda>_ _. True)"
        unfolding y prod.case
      proof (rule triple_if, rule triple_fail_True, rule triple_andthen [OF open_first_triple [OF con]])
        fix z :: "u64 \<times> 'c"
        obtain st p where z: "z = (st, p)" by (cases z)
        show "triple ((case z of (st, f) \<Rightarrow> \<lambda>s. fresh used s0 s \<and> (\<not> EFI_ERROR st \<longrightarrow> pos (ld_fw s) f = 0 \<and> opened sv f)))
            (case z of (status, prog) \<Rightarrow> if EFI_ERROR status then
              andthen (tell (CloseFile sv v)) (\<lambda>_. fail (Error_with_status ''cannot open stage 2'' status))
            else load_prog sv prog v)
            (\<lambda>entry s. \<exists>f. opened sv f \<and> in_memory used (content f) s0 entry s) (\<lambda>_ _. True)"
          unfolding z prod.case by (rule triple_if, rule triple_fails, rule triple_fail_True, rule prog)
      qed
    qed
  qed
qed


subsection \<open>The file handles\<close>

text \<open>What the services do to the handles that are open.\<close>

definition handle_contract ::
  "('fw, 'fs, 'file) file_services \<Rightarrow> ('fw \<Rightarrow> 'file multiset) \<Rightarrow> bool" where
  "handle_contract sv opens \<longleftrightarrow>
     (\<forall>fw. opens (snd (GetFs sv fw)) = opens fw) \<and>
     (\<forall>fs fw st vol fw'. OpenVolume sv fs fw = ((st, vol), fw') \<longrightarrow>
        opens fw' = (if EFI_ERROR st then opens fw else add_mset vol (opens fw))) \<and>
     (\<forall>vol name fw st f fw'. FileOpen sv vol name fw = ((st, f), fw') \<longrightarrow>
        opens fw' = (if EFI_ERROR st then opens fw else add_mset f (opens fw))) \<and>
     (\<forall>f fw. opens (snd (FileInfo sv f fw)) = opens fw) \<and> (\<forall>f n fw. opens (snd (FileRead sv f n fw)) = opens fw) \<and>
     (\<forall>f p fw. opens (snd (SetPosition sv f p fw)) = opens fw) \<and>
     (\<forall>f fw. opens (CloseFile sv f fw) = opens fw - {#f#}) \<and>
     (\<forall>a n fw. opens (snd (AllocAt sv a n fw)) = opens fw) \<and> (\<forall>a n fw. opens (FreePages sv a n fw) = opens fw)"

text \<open>The two errors that leave both handles open.\<close>

definition leaks :: "err \<Rightarrow> bool" where
  "leaks e \<longleftrightarrow> e = Error ''cannot get info on stage 2'' \<or> (\<exists>st. e = Error_with_status ''cannot get mem. for ELF seg.'' st)"

definition open_are :: "('fw \<Rightarrow> 'file multiset) \<Rightarrow> 'file multiset \<Rightarrow> 'fw ld_state \<Rightarrow> bool" where
  "open_are opens H s \<longleftrightarrow> opens (ld_fw s) = H"

definition closed_or_leaked :: "('fw \<Rightarrow> 'file multiset) \<Rightarrow> 'file multiset \<Rightarrow> err \<Rightarrow> 'fw ld_state \<Rightarrow> bool" where
  "closed_or_leaked opens H e s \<longleftrightarrow>
     (if leaks e then \<exists>vol prog. opens (ld_fw s) = add_mset prog (add_mset vol H) else opens (ld_fw s) = H)"

lemma ask_same: "(\<And>fw. opens (snd (f fw)) = opens fw) \<Longrightarrow> triple (open_are opens H) (ask f) (\<lambda>_. open_are opens H) E"
  by (rule triple_ask) (metis ld_state.select_convs(1) ld_state.surjective ld_state.update_convs(1) open_are_def snd_conv)

lemma tell_same: "(\<And>fw. opens (f fw) = opens fw) \<Longrightarrow> triple (open_are opens H) (tell f) (\<lambda>_. open_are opens H) E"
  by (rule triple_tell) (simp add: open_are_def)

lemma close_both_open:
  assumes con: "handle_contract sv opens"
  shows "triple (open_are opens (add_mset prog (add_mset vol H))) (close_both sv prog vol) (\<lambda>_. open_are opens H) E"
  unfolding close_both_def
  by (rule triple_andthen [where R = "\<lambda>_. open_are opens (add_mset vol H)"]; rule triple_tell)
    (use con in \<open>simp_all add: handle_contract_def open_are_def\<close>)

lemma close_fail:
  assumes con: "handle_contract sv opens" and e: "\<not> leaks e"
  shows "triple (open_are opens (add_mset prog (add_mset vol H))) (andthen (close_both sv prog vol) (\<lambda>_. fail e)) Q
    (closed_or_leaked opens H)"
  by (rule triple_andthen [OF close_both_open [OF con]], rule triple_fail)
    (simp add: closed_or_leaked_def e open_are_def)

lemma free_open:
  assumes con: "handle_contract sv opens"
  shows "triple (open_are opens H) (free_stage2_mem sv phdrs k) (\<lambda>_. open_are opens H) E"
proof -
  have "triple (open_are opens H) (free_segs sv n phs) (\<lambda>_. open_are opens H) E" for n phs
  proof (induction phs)
    case (Cons ph phs)
    show ?case
      unfolding free_segs.simps
      by (rule triple_andthen [OF tell_same Cons.IH]) (use con in \<open>simp add: handle_contract_def\<close>)
  qed (simp add: triple_ret)
  then show ?thesis by (simp add: free_stage2_mem_def)
qed

lemma not_leaks: "\<not> leaks (Error ''bad stage2'')" "\<not> leaks (Error_with_status ''cannot read stage 2'' st)"
  "\<not> leaks (Error_with_status ''short read from stage 2'' st)" "\<not> leaks (Error_with_status ''cannot seek into stage 2'' st)"
  "\<not> leaks (Error_with_status ''cannot open stage 2'' st)" "\<not> leaks (Error_with_status ''cannot get EFI_FILE_PROTOCOL'' st)"
  "\<not> leaks (Error_with_status ''cannot get EFI_SIMPLE_FILE_SYSTEM_PROTOCOL'' st)"
  by (simp_all add: leaks_def)

lemma read_open:
  assumes con: "handle_contract sv opens"
  shows "triple (open_are opens (add_mset prog (add_mset vol H))) (read_stage2 sv prog vol n)
    (\<lambda>_. open_are opens (add_mset prog (add_mset vol H))) (closed_or_leaked opens H)"
proof -
  have read: "triple (open_are opens (add_mset prog (add_mset vol H))) (ask (FileRead sv prog n))
      (\<lambda>_. open_are opens (add_mset prog (add_mset vol H))) (closed_or_leaked opens H)"
    by (rule ask_same) (use con in \<open>simp add: handle_contract_def\<close>)
  show ?thesis
    unfolding read_stage2_def
    by (rule triple_if, rule triple_ret, assumption, rule triple_andthen [OF read], unfold case_prod_beta,
        rule triple_if, rule close_fail [OF con not_leaks(2)],
        rule triple_if, rule close_fail [OF con not_leaks(3)], rule triple_ret, assumption)
qed

lemma seek_open:
  assumes con: "handle_contract sv opens"
  shows "triple (open_are opens (add_mset prog (add_mset vol H))) (seek_stage2 sv prog vol p)
    (\<lambda>_. open_are opens (add_mset prog (add_mset vol H))) (closed_or_leaked opens H)"
proof -
  have seek: "triple (open_are opens (add_mset prog (add_mset vol H))) (ask (SetPosition sv prog p))
      (\<lambda>_. open_are opens (add_mset prog (add_mset vol H))) (closed_or_leaked opens H)"
    by (rule ask_same) (use con in \<open>simp add: handle_contract_def\<close>)
  show ?thesis
    unfolding seek_stage2_def
    by (rule triple_andthen [OF seek], rule triple_if, rule close_fail [OF con not_leaks(4)], rule triple_ret, assumption)
qed

lemma store_open: "triple (open_are opens H) (store a bs) (\<lambda>_. open_are opens H) E"
  by (rule triple_store) (simp add: open_are_def)

lemma load_segs_open:
  assumes con: "handle_contract sv opens"
  shows "triple (open_are opens (add_mset prog (add_mset vol H))) (load_segs sv prog vol phdrs k rest)
    (\<lambda>_. open_are opens (add_mset prog (add_mset vol H))) (closed_or_leaked opens H)"
proof (induction rest arbitrary: k)
  case (Cons ph rest)
  let ?H = "add_mset prog (add_mset vol H)"
  have alloc: "triple (open_are opens ?H) (ask (AllocAt sv (sg_addr ph) (pages_of (sg_memsz ph))))
      (\<lambda>_. open_are opens ?H) (closed_or_leaked opens H)"
    by (rule ask_same) (use con in \<open>simp add: handle_contract_def\<close>)
  have bad: "triple (open_are opens ?H) (bad_elf sv prog vol) Q (closed_or_leaked opens H)" for Q :: "unit \<Rightarrow> _"
    unfolding bad_elf_def by (rule close_fail [OF con not_leaks(1)])
  have leak: "triple (open_are opens ?H) (fail (Error_with_status ''cannot get mem. for ELF seg.'' st)) Q
      (closed_or_leaked opens H)" for st and Q :: "unit \<Rightarrow> _"
    by (rule triple_fail) (auto simp: closed_or_leaked_def leaks_def open_are_def)
  show ?case
    unfolding load_segs_Cons
    by (rule triple_if, rule Cons.IH, rule triple_if, rule triple_andthen [OF free_open [OF con] bad],
        rule triple_andthen [OF alloc], rule triple_if, rule triple_andthen [OF free_open [OF con] leak],
        rule triple_andthen [where R = "\<lambda>_. open_are opens ?H"], rule triple_if,
        rule triple_andthen [OF seek_open [OF con]], rule triple_andthen [OF read_open [OF con] store_open],
        rule triple_ret, assumption, rule triple_andthen [OF store_open Cons.IH])
qed (simp add: triple_ret)


lemma load_prog_open:
  assumes con: "handle_contract sv opens"
  shows "triple (open_are opens (add_mset prog (add_mset vol H))) (load_prog sv prog vol)
    (\<lambda>_. open_are opens H) (closed_or_leaked opens H)"
proof -
  let ?H = "add_mset prog (add_mset vol H)"
  have ask: "triple (open_are opens ?H) (ask (FileInfo sv prog)) (\<lambda>_. open_are opens ?H) (closed_or_leaked opens H)"
    by (rule ask_same) (use con in \<open>simp add: handle_contract_def\<close>)
  have leak: "triple (open_are opens ?H) (fail (Error ''cannot get info on stage 2'')) Q (closed_or_leaked opens H)"
    for Q :: "unit \<Rightarrow> _"
    by (rule triple_fail) (auto simp: closed_or_leaked_def leaks_def open_are_def)
  have info: "triple (open_are opens ?H) (dump_stage2_info sv prog) (\<lambda>_. open_are opens ?H) (closed_or_leaked opens H)"
    unfolding dump_stage2_info_def
    by (rule triple_andthen [OF ask], rule triple_if, rule triple_ret, assumption, rule leak)
  have bad: "triple (open_are opens ?H) (bad_elf sv prog vol) Q (closed_or_leaked opens H)" for Q :: "u32 \<Rightarrow> _"
    unfolding bad_elf_def by (rule close_fail [OF con not_leaks(1)])
  show ?thesis
    unfolding load_prog_def Let_def
    by (rule triple_andthen [OF info], rule triple_andthen [OF read_open [OF con]], rule triple_if, rule bad,
        rule triple_andthen [OF seek_open [OF con]], rule triple_andthen [OF read_open [OF con]],
        rule triple_andthen [OF load_segs_open [OF con]], rule triple_andthen [OF close_both_open [OF con]],
        rule triple_ret, assumption)
qed

lemma open_first_open:
  assumes con: "handle_contract sv opens"
  shows "triple (open_are opens H) (open_first sv vol name names)
    (\<lambda>(st, f). open_are opens (if EFI_ERROR st then H else add_mset f H)) E"
proof (induction names arbitrary: name)
  case Nil
  show ?case
    unfolding open_first.simps by (rule triple_ask) (use con in \<open>auto simp: handle_contract_def open_are_def\<close>)
next
  case (Cons name' names)
  have one: "triple (open_are opens H) (ask (FileOpen sv vol name))
      (\<lambda>(st, f). open_are opens (if EFI_ERROR st then H else add_mset f H)) E"
    by (rule triple_ask) (use con in \<open>auto simp: handle_contract_def open_are_def\<close>)
  show ?case
    unfolding open_first.simps
  proof (rule triple_andthen [OF one])
    fix x :: "u64 \<times> 'c"
    obtain st f where x: "x = (st, f)" by (cases x)
    show "triple (case x of (st, f) \<Rightarrow> open_are opens (if EFI_ERROR st then H else add_mset f H))
        (case x of (status, prog) \<Rightarrow> if EFI_ERROR status then open_first sv vol name' names else ret (status, prog))
        (\<lambda>(st, f). open_are opens (if EFI_ERROR st then H else add_mset f H)) E"
      unfolding x prod.case by (rule triple_if) (use Cons.IH in \<open>simp_all add: triple_ret\<close>)
  qed
qed

lemma load_stage2_open:
  assumes con: "handle_contract sv opens"
  shows "triple (open_are opens H) (load_stage2 sv) (\<lambda>_. open_are opens H) (closed_or_leaked opens H)"
proof -
  have fs: "triple (open_are opens H) (ask (GetFs sv)) (\<lambda>_. open_are opens H) (closed_or_leaked opens H)"
    by (rule ask_same) (use con in \<open>simp add: handle_contract_def\<close>)
  have vol: "triple (open_are opens H) (ask (OpenVolume sv fs))
      (\<lambda>(st, v). open_are opens (if EFI_ERROR st then H else add_mset v H)) (closed_or_leaked opens H)" for fs
    by (rule triple_ask) (use con in \<open>auto simp: handle_contract_def open_are_def\<close>)
  have none: "\<not> leaks e \<Longrightarrow> triple (open_are opens H) (fail e) Q (closed_or_leaked opens H)" for e and Q :: "u32 \<Rightarrow> _"
    by (rule triple_fail) (simp add: closed_or_leaked_def open_are_def)
  have first: "triple (open_are opens (add_mset v H)) (andthen (open_first sv v STAGE2 [STAGE2_ALT, STAGE2_ALT_ALT])
      (\<lambda>(status, prog). if EFI_ERROR status then
         andthen (tell (CloseFile sv v)) (\<lambda>_. fail (Error_with_status ''cannot open stage 2'' status))
       else load_prog sv prog v)) (\<lambda>_. open_are opens H) (closed_or_leaked opens H)" for v
  proof (rule triple_andthen [OF open_first_open [OF con]])
    fix z :: "u64 \<times> 'c"
    obtain st f where z: "z = (st, f)" by (cases z)
    have close: "triple (open_are opens (add_mset v H)) (tell (CloseFile sv v)) (\<lambda>_. open_are opens H) (closed_or_leaked opens H)"
      by (rule triple_tell) (use con in \<open>simp add: handle_contract_def open_are_def\<close>)
    show "triple (case z of (st, f) \<Rightarrow> open_are opens (if EFI_ERROR st then add_mset v H else add_mset f (add_mset v H)))
        (case z of (status, prog) \<Rightarrow> if EFI_ERROR status then
           andthen (tell (CloseFile sv v)) (\<lambda>_. fail (Error_with_status ''cannot open stage 2'' status))
         else load_prog sv prog v) (\<lambda>_. open_are opens H) (closed_or_leaked opens H)"
      unfolding z prod.case
      by (rule triple_if) (simp_all add: triple_andthen [OF close none] not_leaks load_prog_open [OF con])
  qed
  show ?thesis
    unfolding load_stage2_def
  proof (rule triple_andthen [OF fs])
    fix x :: "u64 \<times> 'b"
    obtain st f where x: "x = (st, f)" by (cases x)
    have rest: "triple (open_are opens H) (andthen (ask (OpenVolume sv f)) (\<lambda>(status, vol).
        if EFI_ERROR status then fail (Error_with_status ''cannot get EFI_FILE_PROTOCOL'' status)
        else andthen (open_first sv vol STAGE2 [STAGE2_ALT, STAGE2_ALT_ALT]) (\<lambda>(status, prog).
          if EFI_ERROR status then
            andthen (tell (CloseFile sv vol)) (\<lambda>_. fail (Error_with_status ''cannot open stage 2'' status))
          else load_prog sv prog vol))) (\<lambda>_. open_are opens H) (closed_or_leaked opens H)"
    proof (rule triple_andthen [OF vol])
      fix y :: "u64 \<times> 'c"
      obtain st v where y: "y = (st, v)" by (cases y)
      show "triple (case y of (st, v) \<Rightarrow> open_are opens (if EFI_ERROR st then H else add_mset v H))
          (case y of (status, vol) \<Rightarrow>
            if EFI_ERROR status then fail (Error_with_status ''cannot get EFI_FILE_PROTOCOL'' status)
            else andthen (open_first sv vol STAGE2 [STAGE2_ALT, STAGE2_ALT_ALT]) (\<lambda>(status, prog).
              if EFI_ERROR status then
                andthen (tell (CloseFile sv vol)) (\<lambda>_. fail (Error_with_status ''cannot open stage 2'' status))
              else load_prog sv prog vol)) (\<lambda>_. open_are opens H) (closed_or_leaked opens H)"
        unfolding y prod.case by (rule triple_if) (simp_all only: if_True if_False none [OF not_leaks(6)] first)
    qed
    show "triple (open_are opens H) (case x of (status, fs) \<Rightarrow>
        if EFI_ERROR status then fail (Error_with_status ''cannot get EFI_SIMPLE_FILE_SYSTEM_PROTOCOL'' status)
        else andthen (ask (OpenVolume sv fs)) (\<lambda>(status, vol).
          if EFI_ERROR status then fail (Error_with_status ''cannot get EFI_FILE_PROTOCOL'' status)
          else andthen (open_first sv vol STAGE2 [STAGE2_ALT, STAGE2_ALT_ALT]) (\<lambda>(status, prog).
            if EFI_ERROR status then
              andthen (tell (CloseFile sv vol)) (\<lambda>_. fail (Error_with_status ''cannot open stage 2'' status))
            else load_prog sv prog vol)))
        (\<lambda>_. open_are opens H) (closed_or_leaked opens H)"
      unfolding x prod.case by (rule triple_if, rule none [OF not_leaks(7)], rule rest)
  qed
qed

subsection \<open>Giving pages back\<close>

definition freed :: "elf_phdr list \<Rightarrow> nat \<Rightarrow> (u64 \<times> u64) list" where
  "freed phdrs k = map (\<lambda>ph. (ucast (p_paddr ph), pages_of (p_memsz (hd phdrs)))) (take k phdrs)"

text \<open>The allocations the loop made before header \<open>k\<close>.\<close>

definition taken :: "elf_phdr list \<Rightarrow> nat \<Rightarrow> (u64 \<times> u64) list" where
  "taken phdrs k = map (\<lambda>ph. (sg_addr ph, pages_of (sg_memsz ph))) (filter (\<lambda>ph. p_type ph = PT_LOAD) (take k phdrs))"

lemma free_stage2_mem_run:
  "free_stage2_mem sv phdrs k s = (Inr (), s\<lparr> ld_fw := fold (\<lambda>(a, n). FreePages sv a n) (freed phdrs k) (ld_fw s) \<rparr>)"
proof -
  have "free_segs sv n phs s =
      (Inr (), s\<lparr> ld_fw := fold (\<lambda>(a, n). FreePages sv a n) (map (\<lambda>ph. (ucast (p_paddr ph), pages_of n)) phs) (ld_fw s) \<rparr>)" for n phs
    by (induction phs arbitrary: s) (simp_all add: ret_def andthen_def tell_def update_def)
  then show ?thesis by (simp add: free_stage2_mem_def freed_def)
qed

lemma map_filter_eq_iff: "map f xs = map g (filter P xs) \<longleftrightarrow> (\<forall>x\<in>set xs. P x \<and> f x = g x)"
proof
  assume eq: "map f xs = map g (filter P xs)"
  then have "length (filter P xs) = length xs" by (metis length_map)
  then have "filter P xs = xs" by (metis length_filter_less nat_less_le filter_True)
  then show "\<forall>x\<in>set xs. P x \<and> f x = g x" using eq by (metis filter_id_conv map_eq_conv)
qed (simp cong: filter_cong)

lemma freed_eq_taken:
  "freed phdrs k = taken phdrs k \<longleftrightarrow> (\<forall>ph\<in>set (take k phdrs). p_type ph = PT_LOAD \<and> 4096 dvd unat (p_paddr ph) \<and>
     pages_of (p_memsz ph) = pages_of (p_memsz (hd phdrs)))"
proof -
  have "(ucast (p_paddr ph), n) = (sg_addr ph, pages_of (sg_memsz ph)) \<longleftrightarrow>
      4096 dvd unat (p_paddr ph) \<and> pages_of (p_memsz ph) = n" for ph n
  proof -
    have slack: "unat (sg_slack ph) = unat (p_paddr ph) mod 4096"
      by (simp add: sg_slack_def EFI_PAGE_SIZE_def unat_mod_distrib)
    then have "sg_slack ph = 0 \<longleftrightarrow> 4096 dvd unat (p_paddr ph)" by (metis dvd_eq_mod_eq_0 unat_eq_zero)
    then show ?thesis by (auto simp: sg_addr_def sg_memsz_def)
  qed
  then show ?thesis unfolding freed_def taken_def map_filter_eq_iff by fastforce
qed


subsection \<open>A small file on a small volume\<close>

text \<open>One segment of 4 bytes in the file and 8 in memory, at \<open>0x100010\<close>.\<close>

definition elf_ex :: "u8 list" where
  "elf_ex =
     [0x7f, 0x45, 0x4c, 0x46, 1, 1, 1, 0, 0, 0, 0, 0, 0, 0, 0, 0,  2, 0, 3, 0, 1, 0, 0, 0, 0x10, 0, 0x10, 0, 52, 0, 0, 0,
      0, 0, 0, 0, 0, 0, 0, 0, 52, 0, 32, 0, 1, 0, 0, 0, 0, 0, 0, 0,
      1, 0, 0, 0, 84, 0, 0, 0, 0x10, 0, 0x10, 0, 0x10, 0, 0x10, 0, 4, 0, 0, 0, 8, 0, 0, 0, 7, 0, 0, 0, 0, 0x10, 0, 0,
      0xfa, 0xf4, 0xeb, 0xfd]"

definition elf_ex_phdr :: elf_phdr where
  "elf_ex_phdr = \<lparr> p_type = 1, p_offset = 84, p_vaddr = 0x100010, p_paddr = 0x100010, p_filesz = 4, p_memsz = 8,
     p_flags = 7, p_align = 0x1000 \<rparr>"

text \<open>The firmware's state: the position, the memory in use and the open handles. Handle 1 is the file.\<close>

type_synonym vol_ex = "nat \<times> nat set \<times> nat multiset"

definition fs_ex :: "(vol_ex, unit, nat) file_services" where
  "fs_ex = \<lparr> GetFs = (\<lambda>fw. ((0, ()), fw)),
     OpenVolume = (\<lambda>fs (p, u, h). ((0, 0), (p, u, add_mset 0 h))),
     FileOpen = (\<lambda>vol name (p, u, h). if name = STAGE2_ALT then ((0, 1), (0, u, add_mset 1 h)) else ((0x800000000000000e, 0), (p, u, h))),
     FileInfo = (\<lambda>f fw. (True, fw)),
     FileRead = (\<lambda>f n (p, u, h). ((0, take (unat n) (drop p elf_ex)), (p + unat n, u, h))),
     SetPosition = (\<lambda>f n (p, u, h). (0, (unat n, u, h))),
     CloseFile = (\<lambda>f (p, u, h). (p, u, h - {#f#})),
     AllocAt = (\<lambda>a n (p, u, h). if page_bytes a n \<inter> u = {} then (0, (p, u \<union> page_bytes a n, h)) else (0x8000000000000009, (p, u, h))),
     FreePages = (\<lambda>a n (p, u, h). (p, u - page_bytes a n, h)) \<rparr>"

definition ld_ex :: "vol_ex ld_state" where
  "ld_ex = \<lparr> ld_fw = (0, {0..<0x100000}, {#}), ld_mem = (\<lambda>_. 0xcc) \<rparr>"

lemma elf_ex_headers:
  "rd_ehdr (take 52 elf_ex) = \<lparr> e_ident = [0x7f, 0x45, 0x4c, 0x46, 1, 1, 1, 0, 0, 0, 0, 0, 0, 0, 0, 0], e_type = 2,
     e_machine = 3, e_version = 1, e_entry = 0x100010, e_phoff = 52, e_shoff = 0, e_flags = 0, e_ehsize = 52,
     e_phentsize = 32, e_phnum = 1, e_shentsize = 0, e_shnum = 0, e_shstrndx = 0 \<rparr>"
  "rd_phdrs (take 32 (drop 52 elf_ex)) 1 = [elf_ex_phdr]" "length elf_ex = 88"
  by (simp_all add: rd_ehdr_def rd_phdrs_def rd_phdr_def field16_def field32_def elf_ex_def elf_ex_phdr_def)

lemma fs_ex_contract: "file_contract fs_ex (\<lambda>_. elf_ex) (\<lambda>fw f. fst fw) (\<lambda>fw. fst (snd fw))"
  by (auto simp: file_contract_def fs_ex_def EFI_ERROR_def split: if_splits)

lemma fs_ex_handles: "handle_contract fs_ex (\<lambda>fw. snd (snd fw))"
  by (auto simp: handle_contract_def fs_ex_def EFI_ERROR_def split: if_splits)

lemma fs_ex_fit: "files_fit fs_ex (\<lambda>_. elf_ex)"
proof -
  have "prog_phdrs elf_ex = [elf_ex_phdr]"
    using elf_ex_headers rd_phdrs_take [of 1 "drop 52 elf_ex"] by (simp add: prog_phdrs_def prog_ehdr_def)
  then show ?thesis
    by (simp add: files_fit_def elf_ex_headers seg_fits_def elf_ex_phdr_def)
qed

text \<open>Running it.\<close>

definition ld_at :: "nat \<Rightarrow> nat set \<Rightarrow> nat multiset \<Rightarrow> mem \<Rightarrow> vol_ex ld_state" where
  "ld_at p u h m = \<lparr> ld_fw = (p, u, h), ld_mem = m \<rparr>"

lemma andthen_apply: "andthen m f s = (case m s of (Inl e, s') \<Rightarrow> (Inl e, s') | (Inr x, s') \<Rightarrow> f x s')"
  by (simp add: andthen_def)

lemma fs_ex_ask:
  "ask (GetFs fs_ex) (ld_at p u h m) = (Inr (0, ()), ld_at p u h m)"
  "ask (OpenVolume fs_ex fs) (ld_at p u h m) = (Inr (0, 0), ld_at p u (add_mset 0 h) m)"
  "ask (FileOpen fs_ex v STAGE2_ALT) (ld_at p u h m) = (Inr (0, 1), ld_at 0 u (add_mset 1 h) m)"
  "ask (FileOpen fs_ex v STAGE2) (ld_at p u h m) = (Inr (0x800000000000000e, 0), ld_at p u h m)"
  "ask (FileInfo fs_ex f) (ld_at p u h m) = (Inr True, ld_at p u h m)"
  "ask (FileRead fs_ex f n) (ld_at p u h m) = (Inr (0, take (unat n) (drop p elf_ex)), ld_at (p + unat n) u h m)"
  "ask (SetPosition fs_ex f q) (ld_at p u h m) = (Inr 0, ld_at (unat q) u h m)"
  "page_bytes a n \<inter> u = {} \<Longrightarrow> ask (AllocAt fs_ex a n) (ld_at p u h m) = (Inr 0, ld_at p (u \<union> page_bytes a n) h m)"
  "tell (CloseFile fs_ex f) (ld_at p u h m) = (Inr (), ld_at p u (h - {#f#}) m)"
  "store a bs (ld_at p u h m) = (Inr (), ld_at p u h (put_bytes m (unat a) bs))"
  by (simp_all add: ask_def tell_def store_def update_def fs_ex_def ld_at_def STAGE2_ALT_def STAGE2_def)

lemma no_error_0: "\<not> EFI_ERROR 0" "EFI_ERROR 0x800000000000000e"
  by (simp_all add: EFI_ERROR_def)

lemma fs_ex_read:
  assumes "n \<noteq> 0" and "p + unat n \<le> 88"
  shows "read_stage2 fs_ex prog vol n (ld_at p u h m) = (Inr (take (unat n) (drop p elf_ex)), ld_at (p + unat n) u h m)"
  using assms by (simp add: read_stage2_def andthen_apply fs_ex_ask no_error_0 ret_def elf_ex_headers)

lemma fs_ex_seek: "seek_stage2 fs_ex prog vol q (ld_at p u h m) = (Inr (), ld_at (unat q) u h m)"
  by (simp add: seek_stage2_def andthen_apply fs_ex_ask no_error_0 ret_def)

lemma fs_ex_open: "open_first fs_ex vol STAGE2 [STAGE2_ALT, STAGE2_ALT_ALT] (ld_at p u h m) = (Inr (0, 1), ld_at 0 u (add_mset 1 h) m)"
  by (simp add: andthen_apply fs_ex_ask no_error_0 ret_def)

lemma fs_ex_info: "dump_stage2_info fs_ex f (ld_at p u h m) = (Inr (), ld_at p u h m)"
  by (simp add: dump_stage2_info_def andthen_apply fs_ex_ask ret_def)

lemma elf_ex_seg:
  "sg_addr elf_ex_phdr = 0x100000" "sg_off elf_ex_phdr = 68" "sg_filesz elf_ex_phdr = 20" "sg_memsz elf_ex_phdr = 24"
  "pages_of 24 = 1"
  by (simp_all add: sg_addr_def sg_off_def sg_filesz_def sg_memsz_def sg_slack_def elf_ex_phdr_def EFI_PAGE_SIZE_def pages_of_def)

lemma elf_ex_load:
  assumes "page_bytes 0x100000 1 \<inter> u = {}"
  shows "\<exists>m. load_segs fs_ex 1 0 phdrs 0 [elf_ex_phdr] (ld_at q u h m0) = (Inr (), ld_at 88 (u \<union> page_bytes 0x100000 1) h m)"
proof -
  have t: "\<not> p_type elf_ex_phdr \<noteq> PT_LOAD" "\<not> p_filesz elf_ex_phdr > p_memsz elf_ex_phdr"
    by (simp_all add: elf_ex_phdr_def PT_LOAD_def)
  show ?thesis
    unfolding load_segs_Cons if_not_P [OF t(1)] if_not_P [OF t(2)] elf_ex_seg
    by (simp add: andthen_apply fs_ex_ask(8) [OF assms] no_error_0 fs_ex_seek fs_ex_read fs_ex_ask(10) ret_def) blast
qed

lemma load_ex_run: "\<exists>s. load_stage2 fs_ex ld_ex = (Inr 0x100010, s)"
proof -
  let ?u = "{0..<0x100000} :: nat set" and ?e = "rd_ehdr (take 52 elf_ex)"
  have s: "ld_ex = ld_at 0 ?u {#} (\<lambda>_. 0xcc)" by (simp add: ld_ex_def ld_at_def)
  have ok: "ehdr_ok ?e"
    by (simp add: elf_ex_headers ehdr_ok_def ELFMAG0_def ELFMAG1_def ELFMAG2_def ELFMAG3_def EI_VERSION_def
        EV_CURRENT_def sizeof_ehdr_def sizeof_phdr_def MAX_PHDRS_def EM_386_def)
  have e: "e_phoff ?e = 52" "e_phnum ?e = 1" "e_entry ?e = 0x100010" by (simp_all add: elf_ex_headers)
  have "page_bytes 0x100000 1 \<inter> ?u = {}" by (auto simp: page_bytes_def)
  from elf_ex_load [OF this] obtain m where
    seg: "load_segs fs_ex 1 0 [elf_ex_phdr] 0 [elf_ex_phdr] (ld_at 84 ?u {#1, 0#} (\<lambda>_. 0xcc)) =
      (Inr (), ld_at 88 (?u \<union> page_bytes 0x100000 1) {#1, 0#} m)" by blast
  have prog: "load_prog fs_ex 1 0 (ld_at 0 ?u {#1, 0#} (\<lambda>_. 0xcc)) =
      (Inr 0x100010, ld_at 88 (?u \<union> page_bytes 0x100000 1) {#} m)"
    using ok seg elf_ex_headers(2)
    by (simp add: load_prog_def andthen_apply fs_ex_info fs_ex_read fs_ex_seek e sizeof_ehdr_def sizeof_phdr_def
        close_both_def fs_ex_ask(9) ret_def Let_def del: One_nat_def)
  show ?thesis
    unfolding s load_stage2_def
    by (simp add: andthen_apply fs_ex_ask(1,2) no_error_0 fs_ex_open prog del: open_first.simps One_nat_def)
qed


subsection \<open>Properties\<close>

text \<open>
  C6. When \<^verbatim>\<open>load_stage2\<close> returns, it has opened an ELF file for the 386 with acceptable headers and
  gives its entry point; every loadable segment is in memory at its physical address exactly as
  the file has it, followed by zeros up to its size in memory; no byte of memory that was in use
  before has changed. This holds for segments that do not start on a page, and however the
  segments lie in relation to each other, provided a file has less than 4 GiB and its segments
  end below 4 GiB.
\<close>

theorem load_stage2_correct:
  assumes "file_contract sv content pos used" and "files_fit sv content" and "load_stage2 sv s = (Inr entry, s')"
  shows "\<exists>f. opened sv f \<and> ehdr_ok (prog_ehdr (content f)) \<and> entry = e_entry (prog_ehdr (content f)) \<and>
    (\<forall>ph\<in>set (prog_phdrs (content f)). p_type ph = PT_LOAD \<longrightarrow> seg_loaded (content f) (ld_mem s') ph) \<and>
    (\<forall>i\<in>used (ld_fw s). ld_mem s' i = ld_mem s i)"
proof -
  have "fresh used s s" by (simp add: fresh_def)
  from triple_Inr [OF load_stage2_triple [OF assms(1,2)] this assms(3)]
  show ?thesis by (auto simp: in_memory_def)
qed

theorem load_stage2_correct_witness:
  "file_contract fs_ex (\<lambda>_. elf_ex) (\<lambda>fw f. fst fw) (\<lambda>fw. fst (snd fw)) \<and> files_fit fs_ex (\<lambda>_. elf_ex) \<and>
   (\<exists>s. load_stage2 fs_ex ld_ex = (Inr 0x100010, s) \<and> get_bytes (ld_mem s) 0x100010 8 = [0xfa, 0xf4, 0xeb, 0xfd, 0, 0, 0, 0])"
proof -
  obtain s where run: "load_stage2 fs_ex ld_ex = (Inr 0x100010, s)" using load_ex_run ..
  from load_stage2_correct [OF fs_ex_contract fs_ex_fit run]
  have "\<forall>ph\<in>set (prog_phdrs elf_ex). p_type ph = PT_LOAD \<longrightarrow> seg_loaded elf_ex (ld_mem s) ph" by blast
  moreover have "prog_phdrs elf_ex = [elf_ex_phdr]"
    using elf_ex_headers rd_phdrs_take [of 1 "drop 52 elf_ex"] by (simp add: prog_phdrs_def prog_ehdr_def)
  moreover have "p_type elf_ex_phdr = PT_LOAD" by (simp add: elf_ex_phdr_def PT_LOAD_def)
  ultimately have l: "seg_loaded elf_ex (ld_mem s) elf_ex_phdr" by simp
  have f: "unat (p_paddr elf_ex_phdr) = 0x100010" "unat (p_filesz elf_ex_phdr) = 4"
    "unat (p_memsz elf_ex_phdr) = 8" "unat (p_offset elf_ex_phdr) = 84" and n: "8 - 4 = (4 :: nat)"
    by (simp_all add: elf_ex_phdr_def)
  have b: "get_bytes (ld_mem s) 0x100010 4 = take 4 (drop 84 elf_ex)" "get_bytes (ld_mem s) (0x100010 + 4) 4 = replicate 4 0"
    using l unfolding seg_loaded_def Let_def f n by blast+
  have c: "take 4 (drop 84 elf_ex) @ replicate 4 0 = [0xfa, 0xf4, 0xeb, 0xfd, 0, 0, 0, 0]"
    by (simp add: elf_ex_def numeral_eq_Suc)
  have "get_bytes (ld_mem s) 0x100010 (4 + 4) = get_bytes (ld_mem s) 0x100010 4 @ get_bytes (ld_mem s) (0x100010 + 4) 4"
    unfolding get_bytes_def add.assoc [symmetric] map_append [symmetric] by (subst upt_add_eq_append) simp_all
  then have "get_bytes (ld_mem s) 0x100010 8 = [0xfa, 0xf4, 0xeb, 0xfd, 0, 0, 0, 0]"
    unfolding b c by simp
  then show ?thesis using run fs_ex_contract fs_ex_fit by blast
qed

text \<open>
  C21. On every path through \<^verbatim>\<open>load_stage2\<close>, errors included, the file handles it opened are closed
  again, with two exceptions: when there is no information about the file, and when the firmware
  has no memory for a segment, the file and the volume both stay open.
\<close>

theorem load_stage2_closes:
  assumes "handle_contract sv opens" and "load_stage2 sv s = (r, s')"
  shows "case r of
      Inr entry \<Rightarrow> opens (ld_fw s') = opens (ld_fw s)
    | Inl e \<Rightarrow> if leaks e then \<exists>vol prog. opens (ld_fw s') = add_mset prog (add_mset vol (opens (ld_fw s)))
               else opens (ld_fw s') = opens (ld_fw s)"
proof -
  have H: "open_are opens (opens (ld_fw s)) s" by (simp add: open_are_def)
  note t = load_stage2_open [OF assms(1), of "opens (ld_fw s)"]
  show ?thesis
  proof (cases r)
    case (Inl e)
    then show ?thesis using triple_Inl [OF t H, of e s'] assms(2) by (simp add: closed_or_leaked_def)
  next
    case (Inr x)
    then show ?thesis using triple_Inr [OF t H, of x s'] assms(2) by (simp add: open_are_def)
  qed
qed

theorem load_stage2_closes_witness:
  "handle_contract fs_ex (\<lambda>fw. snd (snd fw)) \<and>
   (\<exists>s. load_stage2 fs_ex ld_ex = (Inr 0x100010, s) \<and> snd (snd (ld_fw s)) = {#})"
proof -
  obtain s where run: "load_stage2 fs_ex ld_ex = (Inr 0x100010, s)" using load_ex_run ..
  from load_stage2_closes [OF fs_ex_handles run] have "snd (snd (ld_fw s)) = {#}" by (simp add: ld_ex_def)
  then show ?thesis using run fs_ex_handles by blast
qed

text \<open>
  C36. \<^verbatim>\<open>free_stage2_mem\<close> gives back the pages that were taken for the first headers exactly when
  all of these are loadable, start on a page and need as many pages as the first: the loop frees
  at the unaligned address, with the size of the first header each time, and does not skip the
  headers for which nothing was allocated.
\<close>

theorem free_stage2_mem_exact_iff:
  "free_stage2_mem sv phdrs k s = (Inr (), s\<lparr> ld_fw := fold (\<lambda>(a, n). FreePages sv a n) (freed phdrs k) (ld_fw s) \<rparr>) \<and>
   (freed phdrs k = taken phdrs k \<longleftrightarrow> (\<forall>ph\<in>set (take k phdrs). p_type ph = PT_LOAD \<and> 4096 dvd unat (p_paddr ph) \<and>
      pages_of (p_memsz ph) = pages_of (p_memsz (hd phdrs))))"
  by (intro conjI free_stage2_mem_run freed_eq_taken)

theorem free_stage2_mem_exact_iff_witness:
  "freed [elf_ex_phdr, elf_ex_phdr] 1 \<noteq> taken [elf_ex_phdr, elf_ex_phdr] 1"
  using free_stage2_mem_exact_iff [of fs_ex "[elf_ex_phdr, elf_ex_phdr]" 1 ld_ex] by (simp add: elf_ex_phdr_def)

end
