(* ===== verification/Romdump_Run.thy ===== *)
theory Romdump_Run
  imports Romdump Elf_Load
begin

text \<open>
  The ROM dumper as a whole: what its files hold when it is done, whatever else happens to files
  and handles, and a medium on which a run succeeds.
\<close>

subsection \<open>The whole run\<close>

lemma find_boot_media_triple:
  assumes con: "dump_contract sv v"
  shows "triple (dumping v hs F [] M) (find_boot_media sv) (\<lambda>_. dumping v hs F [] M) (\<lambda>_. dump_left v hs F N)"
  unfolding find_boot_media_def
proof (rule triple_service)
  fix s st d fw assume "dumping v hs F [] M s" "GetImageDevice sv (ld_fw s) = ((st, d), fw)"
  then show "if EFI_ERROR st then dumping v hs F [] M (s\<lparr> ld_fw := fw \<rparr>) else dumping v hs F [] M (s\<lparr> ld_fw := fw \<rparr>)"
    by (auto intro: dumping_untouched dump_contract_file(1) [OF con])
next
  show "triple (dumping v hs F [] M) (fail (Error_with_status ''cannot get EFI_LOADED_IMAGE_PROTOCOL'' st))
      (\<lambda>_. dumping v hs F [] M) (\<lambda>_. dump_left v hs F N)" for st
    by (rule triple_fail) (rule dumping_left, assumption, simp)
  show "triple (dumping v hs F [] M) (ret d) (\<lambda>_. dumping v hs F [] M) (\<lambda>_. dump_left v hs F N)" for d
    by (rule triple_ret)
qed

lemma dump_opt_rom_area_triple:
  assumes con: "dump_contract sv v" and N: "fst ` set ds \<subseteq> N" "OPT_ROM_OUT \<in> N"
  shows "triple (dumping v hs F ds (\<lambda>m'. m' = m)) (dump_opt_rom_area sv dev)
    (\<lambda>_. dumping v hs F (ds @ [(OPT_ROM_OUT, get_bytes m 0xc0000 0x40000)]) (\<lambda>m'. m' = m)) (\<lambda>_. dump_left v hs F N)"
  unfolding dump_opt_rom_area_def Let_def by (rule dump_rom_triple [OF con N]) simp

lemma dump_fv_area_triple:
  assumes con: "dump_contract sv v" and N: "fst ` set (ds @ map (fv_dump sv m) [0..<128]) \<subseteq> N"
    and buf: "unat buf + 0x10000 \<le> 0xff800000 \<or> 0x100000000 \<le> unat buf"
  shows "triple (dumping v hs F ds (\<lambda>m'. m' = m)) (dump_fv_area sv dev buf)
    (\<lambda>_. dumping v hs F (ds @ map (fv_dump sv m) [0..<128]) (beside buf m)) (\<lambda>_. dump_left v hs F N)"
  unfolding dump_fv_area_def
  by (rule triple_pre [OF dump_chunks_triple [OF con N buf, of 0 hs F dev, simplified]]) (auto simp: dumping_def beside_def)

lemma romdumper_main_triple:
  assumes con: "dump_contract sv v" and buf: "unat buf + 0x10000 \<le> 0xff800000 \<or> 0x100000000 \<le> unat buf"
  shows "triple (dumping v hs F [] (\<lambda>m'. m' = m)) (romdumper_main sv buf)
    (\<lambda>_. dumping v hs F (all_dumps sv v m) (beside buf m)) (\<lambda>_. dump_left v hs F (fst ` set (all_dumps sv v m)))"
proof -
  let ?N = "fst ` set (all_dumps sv v m)" and ?p = "pci_dumps sv v m (dv_handles v)"
  let ?o = "[(OPT_ROM_OUT, get_bytes m 0xc0000 0x40000)]"
  have all: "all_dumps sv v m = (?p @ ?o) @ map (fv_dump sv m) [0..<128]" by (simp add: all_dumps_def)
  have N: "fst ` set ?p \<subseteq> ?N" "OPT_ROM_OUT \<in> ?N" "fst ` set ((?p @ ?o) @ map (fv_dump sv m) [0..<128]) \<subseteq> ?N"
    unfolding all by auto
  show ?thesis
    unfolding romdumper_main_def
    by (rule triple_andthen [OF find_boot_media_triple [OF con] triple_andthen [OF dump_pci_roms_triple [OF con N(1)]
        triple_andthen [OF dump_opt_rom_area_triple [OF con N(1,2)] dump_fv_area_triple [OF con N(3) buf, folded all]]]])
qed

text \<open>The firmware volume area, put together from the files.\<close>

definition fv_files :: "('fw, 'dev, 'fs, 'file, 'handle, 'io) dump_services \<Rightarrow> file_map \<Rightarrow> u8 list" where
  "fv_files sv F = concat (map (\<lambda>k. take 0x10000 (the (F (FvName sv (0xff800000 + of_nat k * 0x10000))))) [0..<128])"

lemma get_bytes_append: "get_bytes m a (i + j) = get_bytes m a i @ get_bytes m (a + i) j"
  unfolding get_bytes_def map_append [symmetric] add.assoc [symmetric] by (subst upt_add_eq_append) simp_all

lemma get_bytes_concat: "concat (map (\<lambda>k. get_bytes m (a + k * c) c) [0..<n]) = get_bytes m a (n * c)"
  by (induction n) (simp_all add: get_bytes_append add.commute [of c], simp add: get_bytes_def)

lemma fv_files_eq:
  assumes "\<And>k. k < 128 \<Longrightarrow> \<exists>tail. F (FvName sv (0xff800000 + of_nat k * 0x10000)) =
      Some (get_bytes m (0xff800000 + k * 0x10000) 0x10000 @ tail)"
  shows "fv_files sv F = get_bytes m 0xff800000 0x800000"
proof -
  have "take 0x10000 (the (F (FvName sv (0xff800000 + of_nat k * 0x10000)))) = get_bytes m (0xff800000 + k * 0x10000) 0x10000"
    if k: "k < 128" for k using assms [OF k] by (elim exE) simp
  then have "fv_files sv F = concat (map (\<lambda>k. get_bytes m (0xff800000 + k * 0x10000) 0x10000) [0..<128])"
    unfolding fv_files_def by (intro arg_cong [of _ _ concat] map_cong refl) simp
  also have "\<dots> = get_bytes m 0xff800000 0x800000" unfolding get_bytes_concat by simp
  finally show ?thesis .
qed

subsection \<open>Runs that succeed\<close>

text \<open>Services that grant every request; only opening a file for reading may fail.\<close>

definition obliging :: "('fw, 'dev, 'fs, 'file, 'handle, 'io) dump_services \<Rightarrow> bool" where
  "obliging sv \<longleftrightarrow>
     (\<forall>fw. fst (fst (GetImageDevice sv fw)) = 0) \<and> (\<forall>d fw. fst (fst (DGetFs sv d fw)) = 0) \<and>
     (\<forall>fs fw. fst (fst (DOpenVolume sv fs fw)) = 0) \<and> (\<forall>f fw. fst (DDelete sv f fw) = 0) \<and>
     (\<forall>vol name fw. fst (fst (DOpen sv vol name
        (EFI_FILE_MODE_READ OR EFI_FILE_MODE_WRITE OR EFI_FILE_MODE_CREATE) fw)) = 0) \<and>
     (\<forall>f bs fw. fst (DWrite sv f bs fw) = (0, of_nat (length bs))) \<and>
     (\<forall>fw. fst (fst (LocatePciIo sv fw)) = 0) \<and> (\<forall>h fw. fst (fst (GetPciIo sv h fw)) = 0) \<and>
     (\<forall>io fw. fst (fst (GetLocation sv io fw)) = 0) \<and> (\<forall>io fw. fst (fst (ReadId sv io fw)) = 0)"

definition succeeds :: "('s, 'a) act \<Rightarrow> bool" where
  "succeeds m \<longleftrightarrow> triple (\<lambda>_. True) m (\<lambda>_ _. True) (\<lambda>_ _. False)"

lemma succeeds_run:
  assumes "succeeds m"
  shows "\<exists>x s'. m s = (Inr x, s')"
proof -
  have "case m s of (Inl e, s') \<Rightarrow> False | (Inr x, s') \<Rightarrow> True" using assms by (simp add: succeeds_def triple_def)
  then show ?thesis by (cases "m s"; cases "fst (m s)") (auto split: sum.splits)
qed

lemma succeeds_ret: "succeeds (ret x)"
  by (simp add: succeeds_def triple_ret)

lemma succeeds_update: "succeeds (update f)"
  by (simp add: succeeds_def triple_update)

lemma succeeds_andthen: "succeeds m \<Longrightarrow> (\<And>x. succeeds (f x)) \<Longrightarrow> succeeds (andthen m f)"
  unfolding succeeds_def by (rule triple_andthen)

lemma succeeds_service:
  assumes "\<And>fw. fst (fst (f fw)) = 0" and "\<And>x. succeeds (g 0 x)"
  shows "succeeds (andthen (ask f) (\<lambda>(st, x). if EFI_ERROR st then bad st x else g st x))"
  unfolding succeeds_def
proof (rule triple_andthen)
  show "triple (\<lambda>_. True) (ask f) (\<lambda>r _. fst r = 0) (\<lambda>_ _. False)"
    by (rule triple_ask) (metis assms(1) fst_conv)
  show "triple (\<lambda>_. fst r = 0) (case r of (st, x) \<Rightarrow> if EFI_ERROR st then bad st x else g st x) (\<lambda>_ _. True) (\<lambda>_ _. False)" for r
    using assms(2) by (cases r) (auto simp: succeeds_def no_error_0 triple_def)
qed

lemma succeeds_close: "succeeds (close_dump sv out vol)"
  by (simp add: close_dump_def succeeds_andthen tell_def succeeds_update)

lemma write_dump_succeeds:
  assumes "obliging sv"
  shows "succeeds (write_dump sv out vol sz buf)"
  unfolding succeeds_def write_dump_def
proof (rule triple_andthen)
  show "triple (\<lambda>_. True) (peek buf sz) (\<lambda>bs _. length bs = unat sz) (\<lambda>_ _. False)"
    by (rule triple_peek) simp
  show "triple (\<lambda>_. length bs = unat sz) (andthen (ask (DWrite sv out bs)) (\<lambda>(status, write_sz).
      if EFI_ERROR status then
        andthen (close_dump sv out vol) (\<lambda>_. fail (Error_with_status ''cannot write dump file'' status))
      else if write_sz \<noteq> sz then
        andthen (close_dump sv out vol) (\<lambda>_. fail (Error ''short write to dump file''))
      else ret ())) (\<lambda>_ _. True) (\<lambda>_ _. False)" for bs
  proof (rule triple_service)
    fix s st n fw assume l: "length bs = unat sz" and w: "DWrite sv out bs (ld_fw s) = ((st, n), fw)"
    have "fst (DWrite sv out bs (ld_fw s)) = (0, of_nat (length bs))" using assms by (simp add: obliging_def)
    then have "st = 0" "n = sz" using l w by simp_all
    then show "if EFI_ERROR st then False else n = sz" by (simp add: no_error_0)
  qed (auto simp: triple_def ret_def)
qed

lemma dump_rom_succeeds:
  assumes ob: "obliging sv"
  shows "succeeds (dump_rom sv dev name sz buf)"
proof -
  have old: "succeeds (remove_old sv vol name)" for vol
    unfolding remove_old_def
  proof (rule succeeds_andthen)
    show "succeeds (ask (DOpen sv vol name EFI_FILE_MODE_READ))" by (simp add: succeeds_def triple_def ask_def split: prod.splits)
    show "succeeds (case r of (status, out) \<Rightarrow> if \<not> EFI_ERROR status then andthen (ask (DDelete sv out)) (\<lambda>status.
        if EFI_ERROR status then fail (Error_with_status ''cannot delete pre-existing dump file'' status) else ret ())
        else ret ())" for r
    proof -
      have "succeeds (andthen (ask (DDelete sv out)) (\<lambda>status.
          if EFI_ERROR status then fail (Error_with_status ''cannot delete pre-existing dump file'' status) else ret ()))" for out
        using ob by (auto simp: succeeds_def triple_def andthen_def ask_def obliging_def ret_def no_error_0 split: prod.splits
            dest!: arg_cong [where f = fst])
      then show ?thesis by (simp add: succeeds_ret split: prod.splits)
    qed
  qed
  have create: "succeeds (create_dump sv vol name sz buf)" for vol
    unfolding create_dump_def
  proof (rule succeeds_service)
    show "succeeds (andthen (write_dump sv out vol sz buf) (\<lambda>_. close_dump sv out vol))" for out
      by (intro succeeds_andthen write_dump_succeeds ob succeeds_close)
  qed (use ob in \<open>simp add: obliging_def\<close>)
  show ?thesis
    unfolding dump_rom_def
  proof (rule succeeds_service)
    show "succeeds (andthen (ask (DOpenVolume sv fs)) (\<lambda>(status, vol).
        if EFI_ERROR status then fail (Error_with_status ''cannot get EFI_FILE_PROTOCOL'' status)
        else andthen (remove_old sv vol name) (\<lambda>_. create_dump sv vol name sz buf)))" for fs
      by (rule succeeds_service) (use ob in \<open>auto simp: obliging_def intro: succeeds_andthen old create\<close>)
  qed (use ob in \<open>auto simp: obliging_def\<close>)
qed

lemma dump_chunks_succeeds:
  assumes "obliging sv"
  shows "succeeds (dump_chunks sv dev buf start)"
  using assms
proof (induction sv dev buf start rule: dump_chunks.induct)
  case (1 sv dev buf start)
  have peek: "succeeds (peek start CHUNK)" by (simp add: succeeds_def triple_def peek_def)
  show ?case
  proof (cases "start < 0x100000000")
    case True
    then show ?thesis
      using 1 by (subst dump_chunks.simps)
        (auto simp: store_def intro!: succeeds_andthen peek succeeds_update dump_rom_succeeds)
  qed (simp add: dump_chunks.simps succeeds_ret)
qed

lemma romdumper_succeeds:
  assumes ob: "obliging sv"
  shows "succeeds (romdumper_main sv buf)"
proof -
  have one: "succeeds (process_one_pci_io sv dev io)" for dev io
  proof -
    have read: "succeeds (andthen (ask (ReadId sv io)) (\<lambda>(status, pci_id).
        if EFI_ERROR status then fail (Error_with_status ''cannot read PCI conf. sp.'' status)
        else andthen (dump_rom sv dev (PciName sv seg bus device fn (pci_id AND 0xffff) (drop_bit 16 pci_id))
          (IoRomSize sv io) (IoRomImage sv io)) (\<lambda>_. ret True)))" for seg bus device fn
    proof (rule succeeds_service)
      show "succeeds (andthen (dump_rom sv dev (PciName sv seg bus device fn (pci_id AND 0xffff) (drop_bit 16 pci_id))
          (IoRomSize sv io) (IoRomImage sv io)) (\<lambda>_. ret True))" for pci_id
        by (intro succeeds_andthen dump_rom_succeeds ob succeeds_ret)
    qed (use ob in \<open>simp add: obliging_def\<close>)
    show ?thesis
      unfolding process_one_pci_io_def
    proof (cases "IoRomSize sv io = 0")
      case False
      show "succeeds (if IoRomSize sv io = 0 then ret False else andthen (ask (GetLocation sv io)) (\<lambda>(status, loc).
          if EFI_ERROR status then fail (Error_with_status ''cannot get PCI ctrlr. locn.'' status)
          else case loc of (seg, bus, device, fn) \<Rightarrow> andthen (ask (ReadId sv io)) (\<lambda>(status, pci_id).
            if EFI_ERROR status then fail (Error_with_status ''cannot read PCI conf. sp.'' status)
            else andthen (dump_rom sv dev (PciName sv seg bus device fn (pci_id AND 0xffff) (drop_bit 16 pci_id))
              (IoRomSize sv io) (IoRomImage sv io)) (\<lambda>_. ret True))))"
        unfolding if_not_P [OF False]
      proof (rule succeeds_service)
        show "fst (fst (GetLocation sv io fw)) = 0" for fw using ob by (simp add: obliging_def)
      qed (auto intro: read)
    qed (simp add: succeeds_ret)
  qed
  have handles: "succeeds (dump_handles sv dev hs got)" for dev hs got
  proof (induction hs arbitrary: got)
    case (Cons h hs)
    show ?case
      unfolding dump_handles.simps
    proof (rule succeeds_service)
      show "succeeds (andthen (process_one_pci_io sv dev io) (\<lambda>got'. dump_handles sv dev hs (got \<or> got')))" for io
        by (intro succeeds_andthen one Cons.IH)
    qed (use ob in \<open>simp add: obliging_def\<close>)
  qed (simp add: succeeds_ret)
  have pci: "succeeds (dump_pci_roms sv dev)" for dev
    unfolding dump_pci_roms_def by (rule succeeds_service) (use ob in \<open>auto simp: obliging_def handles\<close>)
  have media: "succeeds (find_boot_media sv)"
    unfolding find_boot_media_def by (rule succeeds_service) (use ob in \<open>auto simp: obliging_def succeeds_ret\<close>)
  show ?thesis
    unfolding romdumper_main_def dump_opt_rom_area_def dump_fv_area_def Let_def
    by (intro succeeds_andthen media pci dump_rom_succeeds dump_chunks_succeeds ob)
qed

subsection \<open>A medium\<close>

text \<open>
  A medium on which everything succeeds, with one PCI device that has a ROM of 512 bytes. A file is
  known by its name, the volume by none. The state is the files and the open handles.
\<close>

type_synonym dump_fw = "file_map \<times> string option multiset"

definition dump_ex_write :: "string option \<Rightarrow> u8 list \<Rightarrow> dump_fw \<Rightarrow> (u64 \<times> u64) \<times> dump_fw" where
  "dump_ex_write f bs fw = ((0, of_nat (length bs)),
     (case f of None \<Rightarrow> fst fw
      | Some n \<Rightarrow> (fst fw)(n \<mapsto> overwrite 0 (take (unat (of_nat (length bs) :: u64)) bs)
          (case fst fw n of None \<Rightarrow> [] | Some old \<Rightarrow> old)), snd fw))"

definition dump_ex :: "(dump_fw, unit, unit, string option, unit, unit) dump_services" where
  "dump_ex = \<lparr>
     GetImageDevice = \<lambda>fw. ((0, ()), fw),
     DGetFs = \<lambda>_ fw. ((0, ()), fw),
     DOpenVolume = \<lambda>_ fw. ((0, None), (fst fw, add_mset None (snd fw))),
     DOpen = \<lambda>_ name mode fw.
       if mode = EFI_FILE_MODE_READ \<and> fst fw name = None then ((0x800000000000000e, None), fw)
       else ((0, Some name),
         ((fst fw)(name \<mapsto> case fst fw name of None \<Rightarrow> [] | Some bs \<Rightarrow> bs), add_mset (Some name) (snd fw))),
     DDelete = \<lambda>f fw. (0, (case f of None \<Rightarrow> fst fw | Some n \<Rightarrow> (fst fw)(n := None), snd fw - {#f#})),
     DWrite = dump_ex_write,
     DClose = \<lambda>f fw. (fst fw, snd fw - {#f#}),
     LocatePciIo = \<lambda>fw. ((0, [()]), fw),
     GetPciIo = \<lambda>_ fw. ((0, ()), fw),
     GetLocation = \<lambda>_ fw. ((0, (0, 0, 2, 0)), fw),
     ReadId = \<lambda>_ fw. ((0, 0x12348086), fw),
     IoRomSize = \<lambda>_. 512,
     IoRomImage = \<lambda>_. 0x200000,
     PciName = \<lambda>_ _ _ _ _ _. ''0000.00.02.00_8086.1234.dump'',
     FvName = \<lambda>a. replicate (unat a div 0x10000) CHR ''x'' \<rparr>"

definition dump_ex_view :: "(dump_fw, string option, unit, unit) dump_view" where
  "dump_ex_view = \<lparr> dv_files = fst, dv_cursor = (\<lambda>_. map_option (\<lambda>n. (n, 0))), dv_opens = snd,
     dv_handles = [()], dv_io = (\<lambda>_. ()), dv_loc = (\<lambda>_. (0, 0, 2, 0)), dv_id = (\<lambda>_. 0x12348086) \<rparr>"

definition dump_ex_state :: "dump_fw ld_state" where
  "dump_ex_state = \<lparr> ld_fw = (Map.empty, {#}), ld_mem = of_nat \<rparr>"

lemma modes_differ: "EFI_FILE_MODE_READ OR EFI_FILE_MODE_WRITE OR EFI_FILE_MODE_CREATE \<noteq> EFI_FILE_MODE_READ"
  by (simp add: EFI_FILE_MODE_READ_def EFI_FILE_MODE_WRITE_def EFI_FILE_MODE_CREATE_def)

lemma dump_ex_contract: "dump_contract dump_ex dump_ex_view"
proof -
  have err: "EFI_ERROR 0x800000000000000e" by (simp add: EFI_ERROR_def bit_simps)
  have le: "unat (of_nat n :: u64) \<le> n" for n by (simp add: unat_of_nat)
  show ?thesis
    unfolding dump_contract_def dump_ex_def dump_ex_view_def
    by (simp add: untouched_def no_error_0 err modes_differ dump_ex_write_def le split: if_splits option.splits)
      auto
qed

lemma dump_ex_obliging: "obliging dump_ex"
  by (simp add: obliging_def dump_ex_def dump_ex_write_def modes_differ)

lemma dump_ex_names: "distinct (map fst (all_dumps dump_ex dump_ex_view m))"
proof -
  have fv: "fst (fv_dump dump_ex m k) = replicate (0xff80 + k) CHR ''x''" if "k < 128" for k
    using fv_start(1) [OF refl, of k] that by (simp add: fv_dump_def dump_ex_def)
  have "inj_on (fst \<circ> fv_dump dump_ex m) {0..<128}"
  proof (rule inj_onI)
    fix j k assume "j \<in> {0..<128}" "k \<in> {0..<128}" "(fst \<circ> fv_dump dump_ex m) j = (fst \<circ> fv_dump dump_ex m) k"
    then have "length (replicate (0xff80 + j) CHR ''x'') = length (replicate (0xff80 + k) CHR ''x'')" by (simp add: fv)
    then show "j = k" by (simp only: length_replicate)
  qed
  then have d: "distinct (map (fst \<circ> fv_dump dump_ex m) [0..<128])" by (simp add: distinct_map)
  have other: "n \<notin> set (map (fst \<circ> fv_dump dump_ex m) [0..<128])" if "length n < 0xff80" for n
  proof
    assume "n \<in> set (map (fst \<circ> fv_dump dump_ex m) [0..<128])"
    then obtain k where "k < 128" "n = replicate (0xff80 + k) CHR ''x''" by (auto simp: fv)
    then have "length n = 0xff80 + k" by (simp only: length_replicate)
    then show False using that by simp
  qed
  have n: "map fst (all_dumps dump_ex dump_ex_view m) = ''0000.00.02.00_8086.1234.dump'' # OPT_ROM_OUT #
      map (fst \<circ> fv_dump dump_ex m) [0..<128]"
    by (simp only: all_dumps_def map_append map_map list.map prod.sel)
      (simp add: pci_dumps_def pci_dump_def dump_ex_def dump_ex_view_def)
  show ?thesis
    unfolding n distinct.simps list.set
    using d other [of "''0000.00.02.00_8086.1234.dump''"] other [of OPT_ROM_OUT] by (auto simp: OPT_ROM_OUT_def)
qed

lemma dump_ex_run: "\<exists>s'. romdumper_main dump_ex 0 dump_ex_state = (Inr (), s')"
  using succeeds_run [OF romdumper_succeeds [OF dump_ex_obliging], of 0 dump_ex_state] by simp

subsection \<open>The properties\<close>

lemma romdumper_run:
  assumes con: "dump_contract sv v" and buf: "unat buf + 0x10000 \<le> 0xff800000 \<or> 0x100000000 \<le> unat buf"
    and run: "romdumper_main sv buf s = (r, s')"
  shows "case r of Inr _ \<Rightarrow> dumping v (dv_opens v (ld_fw s)) (dv_files v (ld_fw s)) (all_dumps sv v (ld_mem s)) (\<lambda>_. True) s'
    | Inl _ \<Rightarrow> dump_left v (dv_opens v (ld_fw s)) (dv_files v (ld_fw s)) (fst ` set (all_dumps sv v (ld_mem s))) s'"
proof -
  let ?D = "dumping v (dv_opens v (ld_fw s)) (dv_files v (ld_fw s)) [] (\<lambda>m. m = ld_mem s)"
  have "?D s" by (simp add: dumping_def)
  then have "case romdumper_main sv buf s of
      (Inl e, s') \<Rightarrow> dump_left v (dv_opens v (ld_fw s)) (dv_files v (ld_fw s)) (fst ` set (all_dumps sv v (ld_mem s))) s'
    | (Inr x, s') \<Rightarrow> dumping v (dv_opens v (ld_fw s)) (dv_files v (ld_fw s)) (all_dumps sv v (ld_mem s)) (beside buf (ld_mem s)) s'"
    using romdumper_main_triple [OF con buf, of "dv_opens v (ld_fw s)" "dv_files v (ld_fw s)" "ld_mem s"]
    unfolding triple_def by (elim allE impE)
  then show ?thesis unfolding run by (cases r) (simp_all add: dumping_def)
qed

text \<open>
  C18. The ROM dumper, on firmware that keeps to the UEFI specification on files: when it ends
  normally and the file names are distinct, every option ROM of a PCI device, the option ROM area
  and all 128 pieces of the firmware volume area are in their files from the start of the file on
  (behind them at most the rest of an older, longer file), the pieces put together are the area,
  and every handle it opened is closed; when it ends with an error, at most one handle (a volume,
  where an old file cannot be deleted) is left open; and on no path is any other file changed.
\<close>

theorem romdump_correct:
  assumes "dump_contract sv v" and "unat buf + 0x10000 \<le> 0xff800000 \<or> 0x100000000 \<le> unat buf"
    and "romdumper_main sv buf s = (r, s')"
  shows "let ds = all_dumps sv v (ld_mem s); F = dv_files v (ld_fw s); F' = dv_files v (ld_fw s') in
    (case r of
       Inr _ \<Rightarrow> dv_opens v (ld_fw s') = dv_opens v (ld_fw s) \<and>
         (distinct (map fst ds) \<longrightarrow>
            (\<forall>(name, d)\<in>set ds. \<exists>old. (old = [] \<or> F name = Some old) \<and> F' name = Some (d @ drop (length d) old)) \<and>
            fv_files sv F' = get_bytes (ld_mem s) 0xff800000 0x800000)
     | Inl _ \<Rightarrow> dv_opens v (ld_fw s') = dv_opens v (ld_fw s) \<or>
         (\<exists>vol. dv_opens v (ld_fw s') = add_mset vol (dv_opens v (ld_fw s)))) \<and>
    (\<forall>n. n \<notin> fst ` set ds \<longrightarrow> F' n = F n)"
proof (cases r)
  case (Inl e)
  then show ?thesis using romdumper_run [OF assms] by (simp add: dump_left_def Let_def)
next
  case (Inr x)
  let ?ds = "all_dumps sv v (ld_mem s)" and ?F' = "dv_files v (ld_fw s')"
  have o: "dv_opens v (ld_fw s') = dv_opens v (ld_fw s)" and d: "dumped_all (dv_files v (ld_fw s)) ?ds ?F'"
    using romdumper_run [OF assms] Inr by (simp_all add: dumping_def)
  have "fv_files sv ?F' = get_bytes (ld_mem s) 0xff800000 0x800000" if u: "distinct (map fst ?ds)"
  proof (rule fv_files_eq)
    fix k :: nat assume "k < 128"
    then have "fv_dump sv (ld_mem s) k \<in> set ?ds" by (simp add: all_dumps_def)
    then show "\<exists>tail. ?F' (FvName sv (0xff800000 + of_nat k * 0x10000)) =
        Some (get_bytes (ld_mem s) (0xff800000 + k * 0x10000) 0x10000 @ tail)"
      using dumped_all_has [OF d u] unfolding fv_dump_def by blast
  qed
  then show ?thesis
    using o Inr dumped_all_has [OF d] dumped_all_other [OF d] unfolding Let_def by fastforce
qed

theorem romdump_correct_witness:
  "\<exists>s'. romdumper_main dump_ex 0 dump_ex_state = (Inr (), s') \<and> dv_opens dump_ex_view (ld_fw s') = {#} \<and>
     dv_files dump_ex_view (ld_fw s') OPT_ROM_OUT = Some (get_bytes of_nat 0xc0000 0x40000) \<and>
     fv_files dump_ex (dv_files dump_ex_view (ld_fw s')) = get_bytes of_nat 0xff800000 0x800000"
proof -
  obtain s' where run: "romdumper_main dump_ex 0 dump_ex_state = (Inr (), s')" using dump_ex_run by blast
  have "unat (0 :: u64) + 0x10000 \<le> 0xff800000 \<or> 0x100000000 \<le> unat (0 :: u64)" by simp
  note c = romdump_correct [OF dump_ex_contract this run, unfolded Let_def sum.case, THEN conjunct1]
  have m: "ld_mem dump_ex_state = of_nat" "dv_files dump_ex_view (ld_fw dump_ex_state) = Map.empty"
    "dv_opens dump_ex_view (ld_fw dump_ex_state) = {#}" by (simp_all add: dump_ex_state_def dump_ex_view_def)
  have i: "(OPT_ROM_OUT, get_bytes of_nat 0xc0000 0x40000) \<in> set (all_dumps dump_ex dump_ex_view of_nat)"
    by (simp add: all_dumps_def)
  from c [unfolded m] show ?thesis using run dump_ex_names i by fastforce
qed

end
