(* ===== verification/Spec2Isabelle.thy ===== *)
theory Spec2Isabelle
  imports Mem_Init Rom_Handover Mp_Table Acpi_Init Irq Startup Romdump_Run
begin

text \<open>
  Biefircate boots legacy PC operating systems on UEFI machines without a BIOS. Stage 1
  (\<^verbatim>\<open>src/stage1\<close>) is a UEFI program. It takes over base memory (below 1 MiB), loads stage 2 from a
  file, checks the ACPI tables, caches option ROM images from firmware volumes and PCI devices,
  and leaves boot services. Stage 2 (\<^verbatim>\<open>src/stage2\<close>) is a 32-bit kernel that sets up physical
  and virtual memory, masks the I/O APICs, starts the legacy interrupt controllers and runs the
  option ROMs in real mode; its keyboard handler \<^verbatim>\<open>stage2/16/kb.c\<close> feeds the BIOS data area.
  The two stages share nothing but memory: a linked list of boot parameters (\<^verbatim>\<open>bparm.h\<close>) that
  stage 1 builds in base memory and stage 2 walks. \<^verbatim>\<open>src/romdumper.c\<close> is a third program.

  How the model is made. A C function is a HOL function with the same name; the static variables
  of a file are a record that is passed along; \<^verbatim>\<open>uint8_t\<close> to \<^verbatim>\<open>uint64_t\<close> are words of their
  width, so that arithmetic wraps as in C; data that both stages see, or that the code reads
  through casts, is bytes in a memory. What leaves the program (\<^verbatim>\<open>error\<close>,
  \<^verbatim>\<open>error_with_status\<close>, \<^verbatim>\<open>hlt\<close>) is a value of \<open>err\<close>, as is undefined behaviour that a theorem
  excludes (\<open>Out_of_bounds\<close>, \<open>Page_fault\<close>). The firmware, the devices and real-mode code are records of functions
  over a state of their own; what the code relies on of them is a named predicate, and the
  witnesses instantiate it.

  The theories, in the order of the dependencies:
  \<^item> \<open>Prelude\<close>: integers, errors, memory, \<^verbatim>\<open>common.h\<close>. \<open>Act\<close>: actions that keep the state when
    they fail, with Hoare triples. \<open>Allocator\<close>: the contract of an allocator as a locale, met by
    base memory, by the physical memory of stage 2 and by its virtual addresses.
  \<^item> \<open>Util\<close>: \<^verbatim>\<open>stage1/util.c\<close>, \<^verbatim>\<open>stage1/stage1.h\<close>, \<^verbatim>\<open>pci.h\<close>. Checksums, bit vectors, fields.
  \<^item> \<open>Bmem\<close>, \<open>Bmem_Init\<close>: \<^verbatim>\<open>stage1/bmem.c\<close>. The invariant \<open>bmem_wf\<close>, both allocators, and the
    loop that takes over all pages below 1 MiB.
  \<^item> \<open>Bparm\<close>: \<^verbatim>\<open>stage1/bparm.c\<close> and \<^verbatim>\<open>bparm.h\<close>. The bytes of the list refine a list of nodes
    (\<open>bparm_rep\<close>), and the 32-bit walk of stage 2 reads the same nodes.
  \<^item> \<open>Handover\<close>: \<^verbatim>\<open>bmem_fini\<close> and \<^verbatim>\<open>prepare_to_hand_over\<close>. Which memory is described to stage 2.
  \<^item> \<open>Shellsort\<close>, \<open>Mem_Map\<close>, \<open>Mem_Map_Init\<close>, \<open>Mem_Shape\<close>: the physical memory map of
    \<^verbatim>\<open>stage2/mem.c\<close>. Sorting, the invariant \<open>mm_wf\<close> and its weaker form \<open>mm_wf_at B\<close>, in which
    ranges may overlap below \<open>B\<close>, allocation, what it leaves alone, and building the map.
  \<^item> \<open>Paging\<close>, \<open>Paging_Correct\<close>, \<open>Page_Walk\<close>: the PAE page tables of \<^verbatim>\<open>stage2/mem.c\<close>, against the
    processor's translation \<open>translate\<close>. \<open>Va_Blocks\<close>, \<open>Va_Session\<close>: \<^verbatim>\<open>mem_va_map\<close> and
    \<^verbatim>\<open>mem_va_unmap\<close>, alone and in any sequence. \<open>Va_Init\<close>, \<open>Va_Tables\<close>, \<open>Va_Identity\<close>,
    \<open>Va_Attrs\<close>, \<open>Va_Start\<close>, \<open>Va_Example\<close>: \<^verbatim>\<open>va_init\<close>, which establishes the invariant the
    sessions keep. \<open>Mem_Init\<close>: \<^verbatim>\<open>mem_init\<close>, both parts after each other.
  \<^item> \<open>Rimg\<close>, \<open>Fv\<close>: option ROM images (\<^verbatim>\<open>stage1/pci.c\<close>) and the cache of those in firmware
    volumes (\<^verbatim>\<open>stage1/fv.c\<close>). \<open>Pci\<close>, \<open>Pci_Correct\<close>, \<open>Pci_Process\<close>: the devices of
    \<^verbatim>\<open>stage1/pci.c\<close>, the copies of their images and the boot parameters made for them.
  \<^item> \<open>Elf\<close>, \<open>Elf_Correct\<close>, \<open>Elf_Load\<close>: loading stage 2 (\<^verbatim>\<open>stage1/main.c\<close>, \<^verbatim>\<open>elf.h\<close>). \<open>Mp_Table\<close>:
    the MP configuration table it makes up (\<^verbatim>\<open>mp.h\<close>).
  \<^item> \<open>Acpi_Layout\<close>, \<open>Acpi_Init\<close>: \<^verbatim>\<open>stage1/acpi.c\<close>, \<^verbatim>\<open>acpi.h\<close> and the choice of the root pointer.
    \<open>Acpi_Walk\<close>, \<open>Acpi_Read\<close>, \<open>Acpi_Correct\<close>, \<open>Acpi_Example\<close>: the walk of \<^verbatim>\<open>stage2/irq.c\<close>
    over the same tables, mapped one at a time into virtual memory.
  \<^item> \<open>Kb\<close>: \<^verbatim>\<open>stage2/16/kb.c\<close>, its ring buffer as a bounded queue and its flags as a state
    machine. \<open>Pic\<close>, \<open>Irq\<close>: the legacy controllers and \<^verbatim>\<open>irq_init\<close>.
  \<^item> \<open>Startup\<close>: smaller parts of \<^verbatim>\<open>stage1/main.c\<close>, among them the pause before boot services end.
  \<^item> \<open>Romdump\<close>, \<open>Romdump_Run\<close>: \<^verbatim>\<open>romdumper.c\<close>, its files and its file handles on every path.
  \<^item> \<open>Rom_Init\<close>: \<^verbatim>\<open>stage2/main.c\<close>, the real-mode calls that initialise the images. \<open>Rom_Handover\<close>: the images
    from \<^verbatim>\<open>process_pci\<close> over the hand-over to these calls.
  \<^item> This theory: the properties that span the stages.

  How the pieces meet. \<open>bmem_init_correct\<close> gives the invariant under which boot parameters are
  added; \<open>bparm_add_appends\<close> and the walk of stage 2 carry every parameter from one stage to
  the other. On this rest \<open>memory_map_end_to_end\<close> below, \<open>option_roms_end_to_end\<close> (from the
  devices to the calls), and \<open>acpi_parameter_correct\<close>, which gives \<open>irq_init_correct\<close> its parameter. The memory map is the
  hypothesis of \<open>va_init_correct\<close>, whose result is what \<open>va_sessions_safe\<close> and the ACPI walk assume.

  Termination, bounds and fuel. No definition takes fuel. A C loop with a counter is a recursion over the
  counter or over the list it walks; a loop that follows pointers or steps by a length read from
  memory is a \<^verbatim>\<open>partial_function (option)\<close>, whose value None is a run that never ends, and the
  theorems show when it is not None. Arrays of the code are lists of their
  declared size, and an index outside is an error value. Two restrictions are explicit hypotheses: the
  descriptors of the firmware's memory map do not overlap (\<open>descs_ok\<close>, as the UEFI specification has it), and
  option ROM images have at most 1 MiB.

  Overlaps and outcomes. The base memory that stage 1 takes from the firmware is in the list of boot parameters
  twice, as the firmware's (reserved) and as stage 1's own (RAM), so the map of stage 2 has ranges
  that overlap below 1 MiB. Everything in stage 2 is therefore proved for maps that satisfy
  \<open>mm_wf_at low_top\<close> only, with \<open>low_top\<close> the first MiB. A function that allocates may also fail: \<open>Hlt\<close> is the code's
  own stop, and \<open>Out_of_bounds\<close> is the walk of \<^verbatim>\<open>mem_alloc\<close> in front of its array when no RAM is left; the
  theorems on stage 2 name both, and \<open>out_of_ram\<close> says which requests the RAM could not serve.

  Not modelled, and why. The processor outside of address translation: the TLB and its
  invalidation, the mode switches, the assembly files (\<^verbatim>\<open>run-stage2.asm\<close>, \<^verbatim>\<open>start.asm\<close>,
  \<^verbatim>\<open>rm16.asm\<close>, \<^verbatim>\<open>clib.asm\<close> and the 16-bit stubs), for which there is no processor model here; real-mode
  calls are a parameter. The page tables are accessed at their physical addresses, as
  the code does through the part of memory that is mapped to itself. Console output,
  waiting for a key, and the names of UEFI protocols are input and output without effect on the state
  modelled. The main functions of the two stages only call, one after the other, the functions
  modelled here, each of which keeps its own state; this order is not a definition. Text
  formatting and the C library's memory functions in assembly (\<^verbatim>\<open>stage2/clib.asm\<close>) have their
  standard meaning.
\<close>

subsection \<open>From the firmware's memory map to the allocator of stage 2\<close>

text \<open>
  C1. Across the two stages. Let the firmware's memory map be as the UEFI specification has it (no
  descriptor empty or past the end of the address space, no two overlapping), and let stage 1 hand over
  without error, its parameters not using up a block of base memory exactly. Then stage 2 reads from
  the bytes in memory exactly the non-empty ranges of extended memory, of reserved base memory
  and of the base memory that stage 1 manages, in this order. Above 1 MiB these do not overlap; below, those
  of the firmware may overlap those of stage 1, which lists the pages it took twice, but no two ranges
  of RAM overlap. The map built from them is always finished, has the allocator's invariant, and has
  precisely their RAM, less the map's own space, left to allocate from; stage 2 halts here only
  when no range can hold the map.
\<close>

theorem memory_map_end_to_end:
  assumes "bparm_rep st ns" and "\<forall>n\<in>set ns. bn_type n \<noteq> BP_MRNG" and "descs_ok descs"
    and "prepare_to_hand_over (Some descs) status st = Inr (kib, st')" and "num_blks (bmem st') = num_blks (bmem st)"
  shows "\<exists>nodes. bparm_list st' nodes \<and>
    (let rs = mrngs (memory st') nodes in
     map snd rs = nonempty (concat (map ext_range descs)) @ nonempty (concat (map uefi_range descs)) @
       nonempty (our_ranges (bmem st)) \<and>
     params_ok low_top rs \<and>
     (\<exists>res. mem_map_init (memory st') raw (ucast (bparm_get st')) = Some res \<and>
        (res = Inl Hlt \<and> (\<forall>r\<in>set (map snd rs). \<not> eligible (map_space (length rs)) r) \<or>
         (\<exists>s. res = Inr s \<and> mm_wf_at low_top s \<and> (\<exists>r\<in>set (map snd rs). eligible (map_space (length rs)) r \<and>
            mm_free s = params_ram rs - map_bytes (map_space (length rs)) r)))))"
proof -
  obtain nodes where h: "bparm_list st' nodes"
    "map snd (mrngs (memory st') nodes) = nonempty (concat (map ext_range descs)) @
      nonempty (concat (map uefi_range descs)) @ nonempty (our_ranges (bmem st))"
    using handed_over_ranges [OF assms(1,2,4,5)] by blast
  let ?rs = "mrngs (memory st') nodes"
  have "bmem_wf (bmem st)" using assms(1) by (simp add: bparm_rep_def)
  then have p: "params_ok low_top ?rs" by (rule reported_ok [OF _ assms(3) h(2)])
  have "\<exists>res. mem_map_init (memory st') raw (ucast (bparm_get st')) = Some res \<and>
      (res = Inl Hlt \<and> (\<forall>r\<in>set (map snd ?rs). \<not> eligible (map_space (length ?rs)) r) \<or>
       (\<exists>s. res = Inr s \<and> mm_wf_at low_top s \<and> (\<exists>r\<in>set (map snd ?rs). eligible (map_space (length ?rs)) r \<and>
          mm_free s = params_ram ?rs - map_bytes (map_space (length ?rs)) r)))"
    using mem_map_init_total [OF h(1) p, of raw] unfolding Let_def by fastforce
  then show ?thesis unfolding Let_def using h p by blast
qed

theorem memory_map_end_to_end_witness:
  "bparm_rep bparm_ex [] \<and> descs_ok hand_over_map \<and>
   (\<exists>kib st' nodes s. prepare_to_hand_over (Some hand_over_map) 0 bparm_ex = Inr (kib, st') \<and>
      num_blks (bmem st') = num_blks (bmem bparm_ex) \<and> bparm_list st' nodes \<and>
      length (mrngs (memory st') nodes) = 6 \<and> params_ok low_top (mrngs (memory st') nodes) \<and>
      \<not> params_ok 0 (mrngs (memory st') nodes) \<and>
      mem_map_init (memory st') (\<lambda>_. ram_range 0 0) (ucast (bparm_get st')) = Some (Inr s) \<and> mm_wf_at low_top s)"
proof -
  obtain kib st' where r: "prepare_to_hand_over (Some hand_over_map) 0 bparm_ex = Inr (kib, st')"
    "num_blks (bmem st') = num_blks (bmem bparm_ex)" using hand_over_ex by blast
  have "\<forall>n\<in>set []. bn_type n \<noteq> BP_MRNG" by simp
  from memory_map_end_to_end [OF bparm_ex_rep this hand_over_map_ok r, of "\<lambda>_. ram_range 0 0"]
  obtain nodes res where n: "bparm_list st' nodes" "map snd (mrngs (memory st') nodes) =
      nonempty (concat (map ext_range hand_over_map)) @ nonempty (concat (map uefi_range hand_over_map)) @
      nonempty (our_ranges (bmem bparm_ex))" "params_ok low_top (mrngs (memory st') nodes)"
    and res: "mem_map_init (memory st') (\<lambda>_. ram_range 0 0) (ucast (bparm_get st')) = Some res"
      "res = Inl Hlt \<and> (\<forall>r\<in>set (map snd (mrngs (memory st') nodes)).
          \<not> eligible (map_space (length (mrngs (memory st') nodes))) r) \<or> (\<exists>s. res = Inr s \<and> mm_wf_at low_top s)"
    unfolding Let_def by blast
  note rs = n(2) [unfolded hand_over_ex_ranges]
  have "length (mrngs (memory st') nodes) = length (map snd (mrngs (memory st') nodes))" by simp
  also have "\<dots> = 6" unfolding rs by simp
  finally have len: "length (mrngs (memory st') nodes) = 6" .
  have "unat (map_space 6) = 512" by (simp add: map_space_def map_room_def)
  then have "\<exists>r\<in>set (map snd (mrngs (memory st') nodes)). eligible (map_space 6) r"
    unfolding rs by (auto simp: eligible_def E820_RAM_def)
  then obtain s where "res = Inr s" "mm_wf_at low_top s" using res(2) unfolding len by blast
  moreover have "\<not> params_ok 0 (mrngs (memory st') nodes)"
    unfolding params_ok_map rs by (simp add: to_range_def rg_apart_def rg_disjoint_def rg_end_def)
  ultimately show ?thesis using bparm_ex_rep hand_over_map_ok r n(1,3) len res(1) by blast
qed

end
